(* ===== verification/Prelude.thy ===== *)
theory Prelude
  imports Main "HOL-Library.Word" "HOL-Library.Signed_Division"
begin

text \<open>
  Shared vocabulary of the development.

  Go's \<^verbatim>\<open>byte\<close>, \<^verbatim>\<open>uint16\<close> and \<^verbatim>\<open>uint32\<close> are machine words of their width, Go's
  \<^verbatim>\<open>int\<close> is \<^typ>\<open>int\<close> (lengths that come from \<^verbatim>\<open>len\<close> are \<^typ>\<open>nat\<close>), and both
  \<^verbatim>\<open>[]byte\<close> and \<^verbatim>\<open>string\<close> are byte lists.  A function that can fail returns a
  sum whose left side is the error, and \<open>rbind\<close> is the early return
  \<^verbatim>\<open>if err != nil { return err }\<close>.  A \<^verbatim>\<open>*bytes.Buffer\<close> that is read from is the list of
  the bytes still unread.
\<close>

unbundle bit_operations_syntax

section \<open>Types\<close>

type_synonym byte = "8 word"
type_synonym uint16 = "16 word"
type_synonym uint32 = "32 word"
type_synonym uint64 = "64 word"
type_synonym bytes = "8 word list"

text \<open>
  The error values the code returns: the codes of \<^verbatim>\<open>codes.Error\<close>, the two \<^verbatim>\<open>io\<close> errors,
  the \<^verbatim>\<open>fmt.Errorf\<close> of a repeated property, the sentinel errors of the packages, and
  \<open>Panic\<close> for a run-time panic (an index out of range, a failed type assertion).
\<close>

datatype error =
    CodesErr (codeOf: byte)
  | ErrEOF
  | ErrUnexpectedEOF
  | ErrMorethanOnce byte
  | ErrInvalUTF8String
  | ErrInvalidLength
  | ErrInvalidIdentifier
  | ErrText string
  | Panic

type_synonym 'a res = "error + 'a"

abbreviation ErrMalformed :: error where
  "ErrMalformed \<equiv> CodesErr 0x81"

abbreviation ErrProtocol :: error where
  "ErrProtocol \<equiv> CodesErr 0x82"

text \<open>A readable way to write a byte string.\<close>

definition str :: "string \<Rightarrow> bytes" where
  "str s = map of_char s"

section \<open>Collections of facts\<close>

named_theorems consume_intros \<open>what a successful reader leaves of its buffer\<close>
named_theorems roundtrip_simps \<open>reading back what a writer wrote\<close>
named_theorems len_simps \<open>how many bytes a writer writes\<close>

section \<open>Results\<close>

definition rbind :: "'a res \<Rightarrow> ('a \<Rightarrow> 'b res) \<Rightarrow> 'b res" where
  "rbind m f = (case m of Inl e \<Rightarrow> Inl e | Inr x \<Rightarrow> f x)"

lemma rbind_simps [simp]:
  "rbind (Inl e) f = Inl e"
  "rbind (Inr x) f = f x"
  by (simp_all add: rbind_def)

lemma rbind_cong [fundef_cong]:
  assumes "m = m'" and "\<And>x. m' = Inr x \<Longrightarrow> f x = g x"
  shows "rbind m f = rbind m' g"
  using assms by (cases m') auto

lemma rbind_eq_Inr_conv: "rbind m f = Inr y \<longleftrightarrow> (\<exists>x. m = Inr x \<and> f x = Inr y)"
  by (cases m) auto

lemma rbind_InrE:
  assumes "rbind m f = Inr y"
  obtains x where "m = Inr x" and "f x = Inr y"
  using assms by (auto simp: rbind_eq_Inr_conv)

lemma rbind_eq_Inl_conv: "rbind m f = Inl e \<longleftrightarrow> m = Inl e \<or> (\<exists>x. m = Inr x \<and> f x = Inl e)"
  by (cases m) auto

text \<open>A check that fails with the given error.\<close>

definition guard_res :: "bool \<Rightarrow> error \<Rightarrow> unit res" where
  "guard_res b e = (if b then Inr () else Inl e)"

lemma guard_res_simps [simp]:
  "guard_res True e = Inr ()"
  "guard_res False e = Inl e"
  "guard_res b e = Inr u \<longleftrightarrow> b"
  by (auto simp: guard_res_def)

section \<open>Words\<close>

lemma unat_word_of_nat: "n < 2 ^ LENGTH('a) \<Longrightarrow> unat (word_of_nat n :: 'a::len word) = n"
  by (simp add: unsigned_of_nat take_bit_nat_eq_self)

lemma word_of_nat_inj:
  "m < 2 ^ LENGTH('a) \<Longrightarrow> n < 2 ^ LENGTH('a) \<Longrightarrow>
   (word_of_nat m :: 'a::len word) = word_of_nat n \<longleftrightarrow> m = n"
  by (metis unat_word_of_nat)

section \<open>Maps that are ranged over\<close>

text \<open>
  A Go map that the code iterates is an association list without repeated keys: the list order
  is the order one iteration happens to take, which the language leaves open.
\<close>

fun al_put :: "'k \<Rightarrow> 'v \<Rightarrow> ('k \<times> 'v) list \<Rightarrow> ('k \<times> 'v) list" where
  "al_put k v [] = [(k, v)]"
| "al_put k v ((k', v') # m) = (if k = k' then (k, v) # m else (k', v') # al_put k v m)"

definition al_del :: "'k \<Rightarrow> ('k \<times> 'v) list \<Rightarrow> ('k \<times> 'v) list" where
  "al_del k m = filter (\<lambda>e. fst e \<noteq> k) m"

abbreviation al_keys :: "('k \<times> 'v) list \<Rightarrow> 'k list" where
  "al_keys m \<equiv> map fst m"

lemma map_of_al_put [simp]: "map_of (al_put k v m) = (map_of m)(k \<mapsto> v)"
  by (induction m) (auto simp: fun_eq_iff)

lemma al_put_keys [simp]: "fst ` set (al_put k v m) = insert k (fst ` set m)"
  by (induction k v m rule: al_put.induct) auto

lemma al_put_distinct [simp]: "distinct (al_keys (al_put k v m)) = distinct (al_keys m)"
  by (induction k v m rule: al_put.induct) auto

lemma map_of_al_del [simp]: "map_of (al_del k m) = (map_of m)(k := None)"
  by (induction m) (auto simp: al_del_def fun_eq_iff)

lemma al_del_keys [simp]: "fst ` set (al_del k m) = fst ` set m - {k}"
  by (induction m) (auto simp: al_del_def)

lemma al_del_distinct [simp]: "distinct (al_keys m) \<Longrightarrow> distinct (al_keys (al_del k m))"
  by (induction m) (auto simp: al_del_def)

end
