(* ===== verification/Utf8.thy ===== *)
theory Utf8
  imports Prelude
begin

text \<open>
  \<^verbatim>\<open>gmqtt/pkg/packets/packets.go\<close>, the check of MQTT UTF-8 strings.  \<open>utf8_DecodeRune\<close> is the
  standard library's \<^verbatim>\<open>utf8.DecodeRune\<close>: the first rune of the input and its width, with
  \<open>RuneError\<close> of width one on a bad encoding.  \<open>ValidUTF8\<close> is the loop of the source;
  the main fact is \<open>ValidUTF8_char\<close>: the loop accepts exactly the encodings of
  sequences of allowed scalar values.
\<close>

section \<open>The rune decoder of the standard library\<close>

definition RuneError :: nat where
  "RuneError = 0xFFFD"

text \<open>A continuation byte, and the range of the second byte for a first byte.\<close>

definition utf8_cont :: "nat \<Rightarrow> bool" where
  "utf8_cont b \<longleftrightarrow> 0x80 \<le> b \<and> b \<le> 0xBF"

definition utf8_lo :: "nat \<Rightarrow> nat" where
  "utf8_lo b0 = (if b0 = 0xE0 then 0xA0 else if b0 = 0xF0 then 0x90 else 0x80)"

definition utf8_hi :: "nat \<Rightarrow> nat" where
  "utf8_hi b0 = (if b0 = 0xED then 0x9F else if b0 = 0xF4 then 0x8F else 0xBF)"

definition utf8_decode :: "nat list \<Rightarrow> nat \<times> nat" where
  "utf8_decode p = (case p of
     [] \<Rightarrow> (RuneError, 0)
   | b0 # r0 \<Rightarrow>
      if b0 < 0x80 then (b0, 1)
      else if b0 < 0xC2 \<or> 0xF4 < b0 then (RuneError, 1)
      else (case r0 of
        [] \<Rightarrow> (RuneError, 1)
      | b1 # r1 \<Rightarrow>
         if \<not> (utf8_lo b0 \<le> b1 \<and> b1 \<le> utf8_hi b0) then (RuneError, 1)
         else if b0 < 0xE0 then ((b0 - 0xC0) * 64 + (b1 - 0x80), 2)
         else (case r1 of
           [] \<Rightarrow> (RuneError, 1)
         | b2 # r2 \<Rightarrow>
            if \<not> utf8_cont b2 then (RuneError, 1)
            else if b0 < 0xF0 then ((b0 - 0xE0) * 4096 + (b1 - 0x80) * 64 + (b2 - 0x80), 3)
            else (case r2 of
              [] \<Rightarrow> (RuneError, 1)
            | b3 # _ \<Rightarrow>
               if \<not> utf8_cont b3 then (RuneError, 1)
               else ((b0 - 0xF0) * 262144 + (b1 - 0x80) * 4096 + (b2 - 0x80) * 64
                     + (b3 - 0x80), 4)))))"

definition utf8_DecodeRune :: "bytes \<Rightarrow> nat \<times> nat" where
  "utf8_DecodeRune p = utf8_decode (map unat p)"

definition utf8_ValidRune :: "nat \<Rightarrow> bool" where
  "utf8_ValidRune r \<longleftrightarrow> r < 0xD800 \<or> (0xDFFF < r \<and> r \<le> 0x10FFFF)"

lemmas utf8_decode_defs = utf8_decode_def utf8_cont_def utf8_lo_def utf8_hi_def RuneError_def

lemma utf8_DecodeRune_Nil [simp]: "utf8_DecodeRune [] = (RuneError, 0)"
  by (simp add: utf8_DecodeRune_def utf8_decode_def)

lemma utf8_decode_size:
  assumes "p \<noteq> []" and "utf8_decode p = (r, n)"
  shows "0 < n \<and> n \<le> length p"
  using assms by (auto simp: utf8_decode_def split: list.splits if_splits)

lemma utf8_DecodeRune_size:
  assumes "p \<noteq> []" and "utf8_DecodeRune p = (r, n)"
  shows "0 < n" and "n \<le> length p"
  using utf8_decode_size [of "map unat p" r n] assms by (auto simp: utf8_DecodeRune_def)

lemma utf8_DecodeRune_snd_pos: "p \<noteq> [] \<Longrightarrow> 0 < snd (utf8_DecodeRune p)"
  using utf8_DecodeRune_size [of p] by (metis prod.collapse)

lemma utf8_DecodeRune_shrinks [termination_simp]:
  "(r, n) = utf8_DecodeRune p \<Longrightarrow> p \<noteq> [] \<Longrightarrow> length p - n < length p"
  using utf8_DecodeRune_size [of p r n] by simp

section \<open>The source\<close>

function ValidUTF8 :: "bytes \<Rightarrow> bool" where
  "ValidUTF8 p =
     (if length p = 0 then True
      else let (ru, size) = utf8_DecodeRune p in
        if ru \<le> 0x1f then False
        else if 0x7f \<le> ru \<and> ru \<le> 0x9f then False
        else if ru = RuneError then False
        else if \<not> utf8_ValidRune ru then False
        else if size = 0 then True
        else ValidUTF8 (drop size p))"
  by pat_completeness auto
termination
  by (relation "measure length") (auto dest: utf8_DecodeRune_size)

declare ValidUTF8.simps [simp del]

section \<open>What the loop accepts\<close>

text \<open>The standard encoding of a scalar value, and the runes MQTT strings may hold here.\<close>

definition utf8_encode :: "nat \<Rightarrow> nat list" where
  "utf8_encode r =
     (if r < 0x80 then [r]
      else if r < 0x800 then [0xC0 + r div 64, 0x80 + r mod 64]
      else if r < 0x10000 then [0xE0 + r div 4096, 0x80 + r div 64 mod 64, 0x80 + r mod 64]
      else [0xF0 + r div 262144, 0x80 + r div 4096 mod 64, 0x80 + r div 64 mod 64,
            0x80 + r mod 64])"

definition utf8_EncodeRune :: "nat \<Rightarrow> bytes" where
  "utf8_EncodeRune r = map word_of_nat (utf8_encode r)"

definition allowedRune :: "nat \<Rightarrow> bool" where
  "allowedRune r \<longleftrightarrow> 0x1f < r \<and> \<not> (0x7f \<le> r \<and> r \<le> 0x9f) \<and> r \<noteq> RuneError \<and> utf8_ValidRune r"

lemma utf8_encode_neq_Nil [simp]: "utf8_encode r \<noteq> []"
  by (simp add: utf8_encode_def)

lemma utf8_encode_bound: "r \<le> 0x10FFFF \<Longrightarrow> b \<in> set (utf8_encode r) \<Longrightarrow> b < 256"
  by (auto simp: utf8_encode_def split: if_splits)

text \<open>Base 64 digits of a rune.\<close>

lemma digits64:
  fixes r :: nat
  shows "r div 4096 = r div 64 div 64" and "r div 262144 = r div 64 div 64 div 64"
    and "r = r div 64 * 64 + r mod 64"
  by (simp_all add: div_mult2_eq [symmetric])

lemma digit64_compose:
  fixes x y :: nat
  assumes "y < 64"
  shows "(x * 64 + y) div 64 = x" and "(x * 64 + y) mod 64 = y"
  using assms by auto

text \<open>Decoding an encoded scalar value.\<close>

lemma utf8_decode_encode:
  assumes "utf8_ValidRune r"
  shows "utf8_decode (utf8_encode r @ rest) = (r, length (utf8_encode r))"
proof -
  define a b c where abc: "a = r mod 64" "b = r div 64 mod 64" "c = r div 64 div 64"
  have "r = (c * 64 + b) * 64 + a" unfolding abc by simp
  then have r: "r = c * 4096 + b * 64 + a" by simp
  have lt: "a < 64" "b < 64" by (simp_all add: abc)
  consider (1) "r < 0x80" | (2) "0x80 \<le> r" "r < 0x800" | (3) "0x800 \<le> r" "r < 0x10000"
    | (4) "0x10000 \<le> r" "r \<le> 0x10FFFF"
    using assms unfolding utf8_ValidRune_def by linarith
  then show ?thesis
  proof cases
    case 1
    then show ?thesis by (simp add: utf8_encode_def utf8_decode_def)
  next
    case 2
    then have "r div 64 < 32" "2 \<le> r div 64" by auto
    with 2 show ?thesis
      by (simp add: utf8_encode_def utf8_decode_defs)
  next
    case 3
    have e: "utf8_encode r = [0xE0 + c, 0x80 + b, 0x80 + a]"
      using 3 by (simp add: utf8_encode_def digits64 abc)
    have "c < 16" using 3 lt r by linarith
    moreover have "c = 0 \<Longrightarrow> 32 \<le> b" using 3 lt r by linarith
    moreover have "c = 13 \<Longrightarrow> b < 32"
      using assms 3 lt r unfolding utf8_ValidRune_def by linarith
    ultimately show ?thesis unfolding e using lt r by (auto simp: utf8_decode_defs)
  next
    case 4
    define d f where df: "d = c mod 64" "f = c div 64"
    have c: "c = f * 64 + d" "d < 64" by (simp_all add: df)
    have e: "utf8_encode r = [0xF0 + f, 0x80 + d, 0x80 + b, 0x80 + a]"
      using 4 by (simp add: utf8_encode_def digits64 abc df)
    have "f < 5" using 4 lt r c by linarith
    moreover have "f = 0 \<Longrightarrow> 16 \<le> d" using 4 lt r c by linarith
    moreover have "f = 4 \<Longrightarrow> d < 16" using 4 lt r c by linarith
    ultimately show ?thesis unfolding e using lt r c by (auto simp: utf8_decode_defs)
  qed
qed

text \<open>Conversely a rune that is not \<open>RuneError\<close> comes from its own encoding.\<close>

lemma utf8_decode_inv:
  assumes "utf8_decode p = (r, n)" and "r \<noteq> RuneError"
  shows "take n p = utf8_encode r"
proof -
  from assms have "p \<noteq> []" by (auto simp: utf8_decode_def)
  then obtain b0 r0 where p: "p = b0 # r0" by (cases p) auto
  consider (1) "n = 1" | (2) "n = 2" | (3) "n = 3" | (4) "n = 4"
    using assms \<open>p \<noteq> []\<close> by (auto simp: utf8_decode_def split: list.splits if_splits)
  then show ?thesis
  proof cases
    case 1
    with assms p show ?thesis
      by (auto simp: utf8_decode_def utf8_encode_def split: list.splits if_splits)
  next
    case 2
    with assms p obtain b1 r1 where r0: "r0 = b1 # r1" and b: "0xC2 \<le> b0" "b0 < 0xE0" "0x80 \<le> b1"
      "b1 \<le> 0xBF" and r: "r = (b0 - 0xC0) * 64 + (b1 - 0x80)"
      by (auto simp: utf8_decode_defs split: list.splits if_splits)
    define x y where d: "x = b0 - 0xC0" "y = b1 - 0x80"
    have v: "b0 = 0xC0 + x" "b1 = 0x80 + y" "2 \<le> x" "x < 32" "y < 64" "r = x * 64 + y"
      using b r by (auto simp: d)
    then have "r < 0x800" "0x80 \<le> r" by linarith+
    with v show ?thesis by (simp add: utf8_encode_def 2 p r0 digit64_compose)
  next
    case 3
    with assms p obtain b1 b2 r2 where r0: "r0 = b1 # b2 # r2"
      and b: "0xE0 \<le> b0" "b0 < 0xF0" "0x80 \<le> b1" "b1 \<le> 0xBF" "b0 = 0xE0 \<longrightarrow> 0xA0 \<le> b1"
        "0x80 \<le> b2" "b2 \<le> 0xBF"
      and r: "r = (b0 - 0xE0) * 4096 + (b1 - 0x80) * 64 + (b2 - 0x80)"
      by (auto simp: utf8_decode_defs split: list.splits if_splits)
    define x y z where d: "x = b0 - 0xE0" "y = b1 - 0x80" "z = b2 - 0x80"
    have v: "b0 = 0xE0 + x" "b1 = 0x80 + y" "b2 = 0x80 + z" "x < 16" "y < 64" "z < 64"
      "x = 0 \<longrightarrow> 32 \<le> y" "r = (x * 64 + y) * 64 + z"
      using b r by (auto simp: d)
    then have "r < 0x10000" "0x800 \<le> r" by (cases "x = 0"; simp)+
    moreover have "r div 64 = x * 64 + y" "r mod 64 = z"
      unfolding v(8) by (rule digit64_compose [OF v(6)])+
    ultimately show ?thesis
      using v(1-3,5) by (simp add: utf8_encode_def 3 p r0 digits64(1))
  next
    case 4
    with assms p obtain b1 b2 b3 r3 where r0: "r0 = b1 # b2 # b3 # r3"
      and b: "0xF0 \<le> b0" "b0 \<le> 0xF4" "0x80 \<le> b1" "b1 \<le> 0xBF" "b0 = 0xF0 \<longrightarrow> 0x90 \<le> b1"
        "0x80 \<le> b2" "b2 \<le> 0xBF" "0x80 \<le> b3" "b3 \<le> 0xBF"
      and r: "r = (b0 - 0xF0) * 262144 + (b1 - 0x80) * 4096 + (b2 - 0x80) * 64 + (b3 - 0x80)"
      by (auto simp: utf8_decode_defs split: list.splits if_splits)
    define x y z w where d: "x = b0 - 0xF0" "y = b1 - 0x80" "z = b2 - 0x80" "w = b3 - 0x80"
    have v: "b0 = 0xF0 + x" "b1 = 0x80 + y" "b2 = 0x80 + z" "b3 = 0x80 + w" "x < 5" "y < 64"
      "z < 64" "w < 64" "x = 0 \<longrightarrow> 16 \<le> y"
      using b by (auto simp: d)
    have r': "r = ((x * 64 + y) * 64 + z) * 64 + w"
      using r by (simp add: d [symmetric])
    from v(9) r' have "0x10000 \<le> r" by (cases "x = 0"; simp)
    moreover have "r div 64 = (x * 64 + y) * 64 + z" "r mod 64 = w"
      unfolding r' by (rule digit64_compose [OF v(8)])+
    moreover have "((x * 64 + y) * 64 + z) div 64 = x * 64 + y" "((x * 64 + y) * 64 + z) mod 64 = z"
      by (rule digit64_compose [OF v(7)])+
    ultimately show ?thesis
      using v(1-4,6) by (simp add: utf8_encode_def 4 p r0 digits64(1,2))
  qed
qed

lemma allowedRune_bound: "allowedRune r \<Longrightarrow> r \<le> 0x10FFFF"
  by (auto simp: allowedRune_def utf8_ValidRune_def)

lemma map_unat_EncodeRune: "allowedRune r \<Longrightarrow> map unat (utf8_EncodeRune r) = utf8_encode r"
  using utf8_encode_bound [OF allowedRune_bound]
  by (simp add: utf8_EncodeRune_def unsigned_of_nat take_bit_nat_eq_self map_idI)

lemma utf8_DecodeRune_EncodeRune:
  assumes "allowedRune r"
  shows "utf8_DecodeRune (utf8_EncodeRune r @ rest) = (r, length (utf8_EncodeRune r))"
proof -
  have "length (utf8_EncodeRune r) = length (utf8_encode r)"
    by (simp add: utf8_EncodeRune_def)
  then show ?thesis
    using assms utf8_decode_encode [of r "map unat rest"]
    by (simp add: utf8_DecodeRune_def map_unat_EncodeRune allowedRune_def)
qed

lemma utf8_DecodeRune_inv:
  assumes "utf8_DecodeRune p = (r, n)" and "r \<noteq> RuneError"
  shows "take n p = utf8_EncodeRune r"
proof -
  have "take n (map unat p) = utf8_encode r"
    using assms utf8_decode_inv by (simp add: utf8_DecodeRune_def)
  then have "map word_of_nat (map unat (take n p)) = utf8_EncodeRune r"
    by (simp add: utf8_EncodeRune_def take_map)
  then show ?thesis by (simp add: comp_def)
qed

lemma utf8_EncodeRune_neq_Nil [simp]: "utf8_EncodeRune r \<noteq> []"
  by (simp add: utf8_EncodeRune_def)

lemma ValidUTF8_Nil [simp]: "ValidUTF8 []"
  by (simp add: ValidUTF8.simps)

lemma ValidUTF8_step:
  assumes "p \<noteq> []" and "utf8_DecodeRune p = (r, n)"
  shows "ValidUTF8 p \<longleftrightarrow> allowedRune r \<and> ValidUTF8 (drop n p)"
  using assms utf8_DecodeRune_size [OF assms]
  by (subst ValidUTF8.simps) (auto simp: allowedRune_def)

lemma ValidUTF8_cons_rune:
  assumes "allowedRune r"
  shows "ValidUTF8 (utf8_EncodeRune r @ rest) = ValidUTF8 rest"
  using ValidUTF8_step [of "utf8_EncodeRune r @ rest"] utf8_DecodeRune_EncodeRune [OF assms]
    assms
  by simp

lemma ValidUTF8_char:
  "ValidUTF8 p \<longleftrightarrow> (\<exists>rs. list_all allowedRune rs \<and> p = concat (map utf8_EncodeRune rs))"
proof
  assume "ValidUTF8 p"
  then show "\<exists>rs. list_all allowedRune rs \<and> p = concat (map utf8_EncodeRune rs)"
  proof (induction "length p" arbitrary: p rule: less_induct)
    case less
    show ?case
    proof (cases "p = []")
      case True
      then show ?thesis by (intro exI [of _ "[]"]) simp
    next
      case False
      obtain r n where d: "utf8_DecodeRune p = (r, n)" by fastforce
      with False less.prems have r: "allowedRune r" and v: "ValidUTF8 (drop n p)"
        using ValidUTF8_step by auto
      have "length (drop n p) < length p"
        using utf8_DecodeRune_size [OF False d] by simp
      from less.hyps [OF this v] obtain rs where
        rs: "list_all allowedRune rs" "drop n p = concat (map utf8_EncodeRune rs)" by blast
      have "take n p = utf8_EncodeRune r"
        using utf8_DecodeRune_inv [OF d] r by (simp add: allowedRune_def)
      then have "p = concat (map utf8_EncodeRune (r # rs))"
        using rs(2) append_take_drop_id [of n p] by simp
      with r rs(1) show ?thesis by (intro exI [of _ "r # rs"]) simp
    qed
  qed
next
  assume "\<exists>rs. list_all allowedRune rs \<and> p = concat (map utf8_EncodeRune rs)"
  then obtain rs where "list_all allowedRune rs" "p = concat (map utf8_EncodeRune rs)" by blast
  then show "ValidUTF8 p"
    by (induction rs arbitrary: p) (auto simp: ValidUTF8_cons_rune)
qed

lemma ValidUTF8_append: "ValidUTF8 a \<Longrightarrow> ValidUTF8 b \<Longrightarrow> ValidUTF8 (a @ b)"
  unfolding ValidUTF8_char by (metis concat_append list_all_append map_append)

lemma ValidUTF8_ascii: "list_all (\<lambda>c. 0x1f < unat c \<and> unat c < 0x7f) p \<Longrightarrow> ValidUTF8 p"
proof (induction p)
  case (Cons c p)
  have "allowedRune (unat c)" using Cons.prems by (simp add: allowedRune_def RuneError_def utf8_ValidRune_def)
  moreover have "utf8_EncodeRune (unat c) = [c]"
    using Cons.prems by (simp add: utf8_EncodeRune_def utf8_encode_def)
  ultimately show ?case using Cons ValidUTF8_cons_rune [of "unat c" p] by simp
qed simp

end
