(* ===== verification/Wire.thy ===== *)
theory Wire
  imports Utf8
begin

text \<open>
  \<^verbatim>\<open>gmqtt/pkg/packets/packets.go\<close>, the primitive encodings of the wire format: the variable
  byte integer (\<open>DecodeRemainLength\<close> writes it and \<open>EncodeRemainLength\<close> reads it; the source
  has the two names this way round), the big-endian integers and the length-prefixed strings.

  The locale \<open>codec\<close> is the contract between a writer and its reader; every pair of this
  theory is an interpretation of it, and the packet theories use only those facts.  The
  locale \<open>codec_loop\<close> extends it to the loops that read items until the buffer is empty.
\<close>

unbundle bit_operations_syntax

section \<open>The contract of a writer and its reader\<close>

locale codec =
  fixes enc :: "'a \<Rightarrow> bytes"
    and dec :: "bytes \<Rightarrow> ('a \<times> bytes) res"
    and wf :: "'a \<Rightarrow> bool"
  assumes dec_enc: "wf x \<Longrightarrow> dec (enc x @ rest) = Inr (x, rest)"
    and dec_consumes: "dec bs = Inr (x, rest) \<Longrightarrow> length rest < length bs"
begin

lemma dec_enc_Nil: "wf x \<Longrightarrow> dec (enc x) = Inr (x, [])"
  using dec_enc [of x "[]"] by simp

lemma enc_neq_Nil: "wf x \<Longrightarrow> enc x \<noteq> []"
  using dec_enc_Nil [of x] dec_consumes [of "enc x" x "[]"] by auto

lemma enc_inj: "wf x \<Longrightarrow> wf y \<Longrightarrow> enc x = enc y \<Longrightarrow> x = y"
  using dec_enc_Nil by (metis Inr_inject prod.inject)

lemma enc_prefix_free: "wf x \<Longrightarrow> wf y \<Longrightarrow> enc x @ a = enc y @ b \<Longrightarrow> x = y \<and> a = b"
  using dec_enc by (metis Inr_inject prod.inject)

end

text \<open>A loop that appends items until nothing is left to read.\<close>

locale codec_loop = codec +
  fixes loop :: "'a list \<Rightarrow> bytes \<Rightarrow> 'a list res"
  assumes loop_step:
    "loop acc bs = rbind (dec bs) (\<lambda>(x, r). if r = [] then Inr (acc @ [x]) else loop (acc @ [x]) r)"
begin

lemma loop_concat:
  "xs \<noteq> [] \<Longrightarrow> list_all wf xs \<Longrightarrow> loop acc (concat (map enc xs)) = Inr (acc @ xs)"
proof (induction xs arbitrary: acc)
  case Nil
  then show ?case by simp
next
  case (Cons x xs)
  show ?case
  proof (cases "xs = []")
    case True
    with Cons.prems show ?thesis by (subst loop_step) (simp add: dec_enc_Nil)
  next
    case False
    with Cons.prems have "concat (map enc xs) \<noteq> []"
      using enc_neq_Nil by (cases xs) auto
    with Cons False show ?thesis by (subst loop_step) (simp add: dec_enc)
  qed
qed

end

section \<open>Reading from a buffer\<close>

text \<open>\<^verbatim>\<open>bytes.Buffer.ReadByte\<close>, \<^verbatim>\<open>bytes.Buffer.Next\<close> and \<^verbatim>\<open>io.ReadFull\<close>.\<close>

fun ReadByte :: "bytes \<Rightarrow> (byte \<times> bytes) res" where
  "ReadByte [] = Inl ErrEOF"
| "ReadByte (b # r) = Inr (b, r)"

definition Next :: "nat \<Rightarrow> bytes \<Rightarrow> bytes \<times> bytes" where
  "Next n r = (take n r, drop n r)"

definition ReadFull :: "nat \<Rightarrow> bytes \<Rightarrow> (bytes \<times> bytes) res" where
  "ReadFull n r =
     (if n \<le> length r then Inr (take n r, drop n r)
      else if r = [] then Inl ErrEOF else Inl ErrUnexpectedEOF)"

lemma ReadByte_eq_Inr [simp]: "ReadByte r = Inr (b, r') \<longleftrightarrow> r = b # r'"
  by (cases r) auto

lemma ReadFull_append [simp]: "n = length a \<Longrightarrow> ReadFull n (a @ r) = Inr (a, r)"
  by (simp add: ReadFull_def)

lemma ReadFull_Inr: "ReadFull n r = Inr (a, r') \<Longrightarrow> r = a @ r' \<and> length a = n"
  by (auto simp: ReadFull_def split: if_splits)

section \<open>Variable byte integers\<close>

function DecodeRemainLength_loop :: "int \<Rightarrow> nat \<Rightarrow> bytes \<Rightarrow> bytes res" where
  "DecodeRemainLength_loop len i result =
     (let encodedByte = len smod 128;
          len' = len sdiv 128;
          encodedByte' = (if 0 < len' then encodedByte OR 128 else encodedByte) in
      if length result \<le> i then Inl Panic
      else let result' = result[i := word_of_int encodedByte'] in
        if len' \<le> 0 then Inr result'
        else DecodeRemainLength_loop len' (i + 1) result')"
  by pat_completeness auto
termination
  by (relation "measure (\<lambda>(len, i, result). nat len)")
    (auto simp: signed_divide_int_def sgn_if split: if_splits)

declare DecodeRemainLength_loop.simps [simp del]

definition DecodeRemainLength :: "int \<Rightarrow> bytes res" where
  "DecodeRemainLength len =
     (if len < 128 then DecodeRemainLength_loop len 0 (replicate 1 0)
      else if len < 16384 then DecodeRemainLength_loop len 0 (replicate 2 0)
      else if len < 2097152 then DecodeRemainLength_loop len 0 (replicate 3 0)
      else if len < 268435456 then DecodeRemainLength_loop len 0 (replicate 4 0)
      else Inl ErrMalformed)"

text \<open>
  The reader.  At the end of the input \<^verbatim>\<open>ReadByte\<close> returns \<^verbatim>\<open>io.EOF\<close>, which the loop ignores: the
  digit is then zero, so the loop stops with what it has.
\<close>

definition EncodeRemainLength_or :: "uint32 \<Rightarrow> uint32 \<Rightarrow> byte \<Rightarrow> uint32" where
  "EncodeRemainLength_or vbi multiplier digit =
     vbi OR push_bit (unat multiplier) (ucast (digit AND 127))"

fun EncodeRemainLength_loop :: "uint32 \<Rightarrow> uint32 \<Rightarrow> bytes \<Rightarrow> (nat \<times> bytes) res" where
  "EncodeRemainLength_loop vbi multiplier [] =
     (let vbi' = EncodeRemainLength_or vbi multiplier 0 in
      if 268435455 < vbi' then Inl ErrMalformed else Inr (unat vbi', []))"
| "EncodeRemainLength_loop vbi multiplier (digit # r) =
     (let vbi' = EncodeRemainLength_or vbi multiplier digit in
      if 268435455 < vbi' then Inl ErrMalformed
      else if digit AND 128 = 0 then Inr (unat vbi', r)
      else EncodeRemainLength_loop vbi' (multiplier + 7) r)"

definition EncodeRemainLength :: "bytes \<Rightarrow> (nat \<times> bytes) res" where
  "EncodeRemainLength r = EncodeRemainLength_loop 0 0 r"

subsection \<open>The writer computes base 128 digits\<close>

fun vbi_enc :: "nat \<Rightarrow> bytes" where
  "vbi_enc n = (if n < 128 then [word_of_nat n]
                else word_of_nat (n mod 128 + 128) # vbi_enc (n div 128))"

declare vbi_enc.simps [simp del]

lemma vbi_enc_neq_Nil [simp]: "vbi_enc n \<noteq> []"
  by (subst vbi_enc.simps) simp

lemma vbi_enc_small: "n < 128 \<Longrightarrow> vbi_enc n = [word_of_nat n]"
  by (simp add: vbi_enc.simps)

lemma vbi_enc_big: "128 \<le> n \<Longrightarrow> vbi_enc n = word_of_nat (n mod 128 + 128) # vbi_enc (n div 128)"
  by (subst vbi_enc.simps) simp

lemma length_vbi_enc:
  "n < 128 ^ k \<Longrightarrow> 0 < k \<Longrightarrow> length (vbi_enc n) \<le> k"
proof (induction k arbitrary: n)
  case 0
  then show ?case by simp
next
  case (Suc k)
  show ?case
  proof (cases "n < 128")
    case True
    then show ?thesis by (simp add: vbi_enc_small)
  next
    case False
    with Suc.prems have "0 < k" by (cases k) auto
    moreover have "n div 128 < 128 ^ k" using Suc.prems by (simp add: less_mult_imp_div_less mult.commute)
    ultimately show ?thesis using Suc.IH False by (simp add: vbi_enc_big)
  qed
qed

lemma or_128_eq_add: "0 \<le> (x::int) \<Longrightarrow> x < 128 \<Longrightarrow> x OR 128 = x + 128"
proof -
  assume x: "0 \<le> x" "x < 128"
  have "\<not> bit x n \<or> \<not> bit (128::int) n" for n
  proof (cases "n = 7")
    case True
    from x have "x div 128 = 0" by simp
    with True show ?thesis by (simp add: bit_iff_odd)
  next
    case False
    have "(128::int) = 2 ^ 7" by simp
    with False show ?thesis by (simp only: bit_exp_iff) simp
  qed
  then show "x OR 128 = x + 128" by (simp add: disjunctive_add)
qed

lemma sdiv128 [simp]: "int n sdiv 128 = int (n div 128)" "int n smod 128 = int (n mod 128)"
  by (auto simp: signed_divide_int_def signed_modulo_int_def zdiv_int sgn_if minus_div_mult_eq_mod zmod_int)

lemma DecodeRemainLength_loop_eq:
  "i + length (vbi_enc n) = length result \<Longrightarrow>
   DecodeRemainLength_loop (int n) i result = Inr (take i result @ vbi_enc n)"
proof (induction n arbitrary: i result rule: less_induct)
  case (less n)
  show ?case
  proof (cases "n < 128")
    case True
    with less.prems have l: "length result = Suc i" by (simp add: vbi_enc_small)
    then have "result[i := b] = take i result @ [b]" for b :: byte
      by (simp add: upd_conv_take_nth_drop)
    with True l show ?thesis
      by (subst DecodeRemainLength_loop.simps) (simp add: vbi_enc_small)
  next
    case False
    define b :: byte where "b = word_of_nat (n mod 128 + 128)"
    from False less.prems have l: "i < length result"
      "Suc i + length (vbi_enc (n div 128)) = length result"
      by (auto simp: vbi_enc_big)
    have or: "int (n mod 128) OR 128 = int (n mod 128 + 128)"
      using or_128_eq_add [of "int (n mod 128)"] by simp
    have b: "word_of_int (int (n mod 128) OR 128) = b"
      unfolding or b_def by simp
    have v: "vbi_enc n = b # vbi_enc (n div 128)"
      using False by (simp add: vbi_enc_big b_def)
    have t: "take (Suc i) (result[i := b]) = take i result @ [b]"
      using l by (simp add: take_Suc_conv_app_nth)
    have "DecodeRemainLength_loop (int (n div 128)) (Suc i) (result[i := b])
        = Inr (take (Suc i) (result[i := b]) @ vbi_enc (n div 128))"
      by (rule less.IH) (use False l in auto)
    moreover have "n div 128 \<noteq> 0" using False by simp
    ultimately show ?thesis using l t
      by (subst DecodeRemainLength_loop.simps) (simp add: b Let_def v)
  qed
qed

lemma length_vbi_enc_1: "n < 128 \<Longrightarrow> length (vbi_enc n) = 1"
  by (simp add: vbi_enc_small)

lemma length_vbi_enc_2: "128 \<le> n \<Longrightarrow> n < 16384 \<Longrightarrow> length (vbi_enc n) = 2"
  by (simp add: vbi_enc_big vbi_enc_small less_mult_imp_div_less)

lemma length_vbi_enc_3: "16384 \<le> n \<Longrightarrow> n < 2097152 \<Longrightarrow> length (vbi_enc n) = 3"
  using length_vbi_enc_2 [of "n div 128"] by (simp add: vbi_enc_big less_mult_imp_div_less)

lemma length_vbi_enc_4: "2097152 \<le> n \<Longrightarrow> n < 268435456 \<Longrightarrow> length (vbi_enc n) = 4"
  using length_vbi_enc_3 [of "n div 128"] by (simp add: vbi_enc_big less_mult_imp_div_less)

lemmas length_vbi_enc_eq = length_vbi_enc_1 length_vbi_enc_2 length_vbi_enc_3 length_vbi_enc_4

lemma DecodeRemainLength_vbi [roundtrip_simps]:
  assumes "n < 268435456"
  shows "DecodeRemainLength (int n) = Inr (vbi_enc n)"
proof -
  consider (1) "n < 128" | (2) "128 \<le> n" "n < 16384" | (3) "16384 \<le> n" "n < 2097152"
    | (4) "2097152 \<le> n" "n < 268435456" using assms by linarith
  then show ?thesis
    by cases (simp_all add: DecodeRemainLength_def DecodeRemainLength_loop_eq length_vbi_enc_eq)
qed

lemma DecodeRemainLength_too_long: "268435456 \<le> n \<Longrightarrow> DecodeRemainLength n = Inl ErrMalformed"
  by (simp add: DecodeRemainLength_def)

subsection \<open>The reader\<close>

lemma unat_and_127: "unat ((d :: byte) AND 127) = unat d mod 128"
proof -
  have "d AND 127 = take_bit 7 d" by (simp add: take_bit_eq_mask mask_eq_exp_minus_1)
  then have "unat (d AND 127) = take_bit 7 (unat d)" by (simp only: unsigned_take_bit_eq)
  then show ?thesis by (simp add: take_bit_eq_mod)
qed

lemma and_128_eq_0: "(d :: byte) AND 128 = 0 \<longleftrightarrow> unat d < 128"
proof -
  have "unat d < 256" using unsigned_less [of d] by simp
  then have "unat d div 128 < 2" by simp
  then have "odd (unat d div 128) \<longleftrightarrow> 128 \<le> unat d"
    by (metis One_nat_def div_eq_0_iff div_greater_zero_iff even_zero less_2_cases not_less odd_one zero_neq_numeral)
  moreover have "d AND 128 = 0 \<longleftrightarrow> \<not> bit d 7"
    using and_exp_eq_0_iff_not_bit [of d 7] by simp
  moreover have "bit d 7 \<longleftrightarrow> bit (unat d) 7" by (simp add: bit_unsigned_iff)
  moreover have "bit (unat d) 7 \<longleftrightarrow> odd (unat d div 128)" by (simp add: bit_iff_odd)
  ultimately show ?thesis by (simp only: not_le)
qed

lemma EncodeRemainLength_or_unat:
  assumes v: "unat v < 2 ^ k" and k: "k + 7 \<le> 32" and m: "unat m = k"
  shows "unat (EncodeRemainLength_or v m d) = unat v + (unat d mod 128) * 2 ^ k"
proof -
  let ?d = "unat d mod 128"
  have a: "(ucast (d AND 127) :: uint32) = word_of_nat ?d"
    by (metis unat_and_127 of_nat_unat)
  have "\<not> bit v n \<or> \<not> bit (push_bit k (word_of_nat ?d :: uint32)) n" for n
  proof (cases "n < k")
    case False
    then have "unat v < 2 ^ n" using v by (metis less_le_trans not_less one_le_numeral power_increasing)
    then have "\<not> bit (unat v) n" by (simp add: bit_iff_odd)
    then show ?thesis by (simp add: bit_unsigned_iff)
  qed (simp add: bit_push_bit_iff)
  then have "EncodeRemainLength_or v m d = v + push_bit k (word_of_nat ?d)"
    unfolding EncodeRemainLength_or_def m a by (simp add: disjunctive_add)
  also have "\<dots> = word_of_nat (unat v + ?d * 2 ^ k)"
    by (simp add: push_bit_eq_mult)
  finally have e: "EncodeRemainLength_or v m d = word_of_nat (unat v + ?d * 2 ^ k)" .
  have "?d * 2 ^ k \<le> 127 * 2 ^ k" using mod_less_divisor [of 128 "unat d"] by (intro mult_right_mono) auto
  with v have "unat v + ?d * 2 ^ k < 128 * 2 ^ k" by linarith
  also have "\<dots> = 2 ^ (k + 7)" by (simp add: power_add)
  also have "\<dots> \<le> 2 ^ 32" using k by (intro power_increasing) auto
  finally show ?thesis unfolding e by (intro unat_word_of_nat) simp
qed

lemma EncodeRemainLength_or_digit:
  assumes "unat v < 2 ^ k" and "unat m = k" and "k + 7 * Suc j = 28"
  shows "unat (EncodeRemainLength_or v m d) < 2 ^ (k + 7)"
    and "\<not> 268435455 < EncodeRemainLength_or v m d"
proof -
  have u: "unat (EncodeRemainLength_or v m d) = unat v + (unat d mod 128) * 2 ^ k"
    using assms by (intro EncodeRemainLength_or_unat) auto
  have "(unat d mod 128) * 2 ^ k \<le> 127 * 2 ^ k"
    using mod_less_divisor [of 128 "unat d"] by (intro mult_right_mono) auto
  then have "unat v + (unat d mod 128) * 2 ^ k < 128 * 2 ^ k" using assms(1) by linarith
  then show a: "unat (EncodeRemainLength_or v m d) < 2 ^ (k + 7)"
    unfolding u by (simp add: power_add)
  have "(2::nat) ^ (k + 7) \<le> 2 ^ 28" using assms(3) by (intro power_increasing) auto
  with a have "unat (EncodeRemainLength_or v m d) \<le> 268435455" by simp
  then show "\<not> 268435455 < EncodeRemainLength_or v m d" by (simp add: word_less_nat_alt)
qed

lemma EncodeRemainLength_loop_vbi:
  assumes "unat v < 2 ^ k" and "unat m = k" and "k + 7 * Suc j = 28" and "n < 128 ^ Suc j"
  shows "EncodeRemainLength_loop v m (vbi_enc n @ rest) = Inr (unat v + n * 2 ^ k, rest)"
  using assms
proof (induction j arbitrary: v m k n)
  case (0 v m k n)
  then have n: "n < 128" and u: "unat (word_of_nat n :: byte) = n"
    by (auto intro: unat_word_of_nat)
  have "unat (EncodeRemainLength_or v m (word_of_nat n)) = unat v + n * 2 ^ k"
    using EncodeRemainLength_or_unat [of v k m "word_of_nat n"] 0 n u by simp
  with EncodeRemainLength_or_digit [OF 0(1-3)] show ?case
    using n u by (simp add: vbi_enc_small Let_def and_128_eq_0)
next
  case (Suc j v m k n)
  let ?d = "word_of_nat (if n < 128 then n else n mod 128 + 128) :: byte"
  have u: "unat ?d = (if n < 128 then n else n mod 128 + 128)"
    by (intro unat_word_of_nat) auto
  let ?v = "EncodeRemainLength_or v m ?d"
  have k: "k + 7 \<le> 32" using Suc.prems by simp
  have v: "unat ?v = unat v + (n mod 128) * 2 ^ k"
    using EncodeRemainLength_or_unat [OF Suc.prems(1) k Suc.prems(2)] u by simp
  note digit = EncodeRemainLength_or_digit [OF Suc.prems(1-3)]
  show ?case
  proof (cases "n < 128")
    case True
    with v u digit(2) [of ?d] show ?thesis by (simp add: vbi_enc_small Let_def and_128_eq_0)
  next
    case False
    have "unat (m + 7) = k + 7" using Suc.prems by (simp add: unat_word_ariths)
    moreover have "n div 128 < 128 ^ Suc j"
      using Suc.prems(4) by (simp add: less_mult_imp_div_less mult.commute)
    ultimately have "EncodeRemainLength_loop ?v (m + 7) (vbi_enc (n div 128) @ rest)
        = Inr (unat ?v + n div 128 * 2 ^ (k + 7), rest)"
      using Suc.prems(3) digit(1) by (intro Suc.IH) auto
    also have "unat ?v + n div 128 * 2 ^ (k + 7) = unat v + n * 2 ^ k"
    proof -
      obtain q t where q: "n div 128 = q" "n mod 128 = t" and n: "n = q * 128 + t"
        by (metis div_mult_mod_eq)
      show ?thesis unfolding v unfolding q unfolding n by (simp add: power_add algebra_simps)
    qed
    finally show ?thesis
      using False u digit(2) [of ?d] by (simp add: vbi_enc_big Let_def and_128_eq_0)
  qed
qed

lemma EncodeRemainLength_vbi [roundtrip_simps]:
  "n < 268435456 \<Longrightarrow> EncodeRemainLength (vbi_enc n @ rest) = Inr (n, rest)"
  using EncodeRemainLength_loop_vbi [of 0 0 0 3 n rest] by (simp add: EncodeRemainLength_def)

lemma EncodeRemainLength_loop_bound:
  "EncodeRemainLength_loop v m bs = Inr (n, r) \<Longrightarrow> n \<le> 268435455 \<and> length r \<le> length bs"
  by (induction v m bs rule: EncodeRemainLength_loop.induct)
    (auto simp: Let_def not_less word_le_nat_alt split: if_splits)

lemma EncodeRemainLength_bound: "EncodeRemainLength bs = Inr (n, r) \<Longrightarrow> n \<le> 268435455"
  using EncodeRemainLength_loop_bound unfolding EncodeRemainLength_def by blast

lemma EncodeRemainLength_consumes:
  "EncodeRemainLength bs = Inr (n, r) \<Longrightarrow> length r \<le> length bs"
  using EncodeRemainLength_loop_bound unfolding EncodeRemainLength_def by blast

lemma EncodeRemainLength_Nil: "EncodeRemainLength [] = Inr (0, [])"
  by (simp add: EncodeRemainLength_def EncodeRemainLength_or_def)

lemma EncodeRemainLength_loop_digits:
  assumes "EncodeRemainLength_loop v m bs = Inr (n, r)" and "unat v < 128 ^ i" and "unat m = 7 * i" and "i \<le> 4"
  shows "n < 128 ^ (i + (length bs - length r))"
  using assms
proof (induction v m bs arbitrary: i rule: EncodeRemainLength_loop.induct)
  case (1 v m)
  then show ?case
    by (auto simp: Let_def EncodeRemainLength_or_def split: if_splits)
next
  case (2 v m d bs)
  let ?v = "EncodeRemainLength_or v m d"
  show ?case
  proof (cases "i = 4")
    case True
    have "n < 128 ^ 4" using EncodeRemainLength_loop_bound [OF 2(2)] by simp
    also have "\<dots> \<le> 128 ^ (i + (length (d # bs) - length r))" unfolding True by (intro power_increasing) auto
    finally show ?thesis .
  next
    case False
    with 2 have i: "7 * i + 7 \<le> 32" and v: "unat v < 2 ^ (7 * i)" by (auto simp: power_mult)
    have "unat ?v = unat v + (unat d mod 128) * 2 ^ (7 * i)"
      using EncodeRemainLength_or_unat [OF v i 2(4)] .
    moreover have "(unat d mod 128) * 2 ^ (7 * i) \<le> 127 * 2 ^ (7 * i)"
      using mod_less_divisor [of 128 "unat d"] by (intro mult_right_mono) auto
    ultimately have "unat ?v < 128 * 2 ^ (7 * i)" using v by linarith
    then have w: "unat ?v < 128 ^ Suc i" by (simp add: power_mult)
    show ?thesis
    proof (cases "d AND 128 = 0")
      case True
      with 2(2) w show ?thesis by (auto simp: Let_def split: if_splits)
    next
      case c: False
      with 2(2) have nb: "\<not> 268435455 < ?v" and l: "EncodeRemainLength_loop ?v (m + 7) bs = Inr (n, r)"
        by (auto simp: Let_def split: if_splits)
      have "unat (m + 7) = 7 * Suc i" using 2(4,5) by (simp add: unat_word_ariths)
      with 2(1) [OF refl nb c l w] False 2(5) have "n < 128 ^ (Suc i + (length bs - length r))" by simp
      moreover have "length r \<le> length bs" using EncodeRemainLength_loop_bound [OF l] by simp
      ultimately show ?thesis by (simp add: Suc_diff_le)
    qed
  qed
qed

text \<open>No encoding is shorter than the one the writer chooses.\<close>

lemma EncodeRemainLength_shortest:
  assumes "EncodeRemainLength bs = Inr (n, r)" and "0 < n"
  shows "length (vbi_enc n) + length r \<le> length bs"
proof -
  have l: "EncodeRemainLength_loop 0 0 bs = Inr (n, r)" using assms by (simp add: EncodeRemainLength_def)
  let ?k = "length bs - length r"
  have n: "n < 128 ^ ?k" using EncodeRemainLength_loop_digits [OF l, of 0] by simp
  with assms(2) have "0 < ?k" by (cases ?k) auto
  with length_vbi_enc [OF n] show ?thesis by simp
qed

interpretation vbi: codec vbi_enc "\<lambda>bs. if bs = [] then Inl ErrEOF else EncodeRemainLength bs"
  "\<lambda>n. n < 268435456"
proof unfold_locales
  fix n rest assume "n < (268435456 :: nat)"
  then show "(if vbi_enc n @ rest = [] then Inl ErrEOF else EncodeRemainLength (vbi_enc n @ rest))
      = Inr (n, rest)"
    by (simp add: EncodeRemainLength_vbi)
next
  fix bs n rest assume "(if bs = [] then Inl ErrEOF else EncodeRemainLength bs) = Inr (n, rest)"
  then have "bs \<noteq> []" and e: "EncodeRemainLength_loop 0 0 bs = Inr (n, rest)"
    by (auto simp: EncodeRemainLength_def split: if_splits)
  then obtain b bs' where bs: "bs = b # bs'" by (cases bs) auto
  have "length rest \<le> length bs'"
    using e unfolding bs
    by (auto simp: Let_def split: if_splits dest: EncodeRemainLength_loop_bound)
  then show "length rest < length bs" by (simp add: bs)
qed

section \<open>Big-endian integers\<close>

definition BigEndian_Uint16 :: "bytes \<Rightarrow> uint16" where
  "BigEndian_Uint16 b = ucast (b ! 1) OR push_bit 8 (ucast (b ! 0))"

definition BigEndian_Uint32 :: "bytes \<Rightarrow> uint32" where
  "BigEndian_Uint32 b = ucast (b ! 3) OR push_bit 8 (ucast (b ! 2))
     OR push_bit 16 (ucast (b ! 1)) OR push_bit 24 (ucast (b ! 0))"

definition readUint16 :: "bytes \<Rightarrow> (uint16 \<times> bytes) res" where
  "readUint16 r =
     (if length r < 2 then Inl ErrMalformed
      else let (b, r') = Next 2 r in Inr (BigEndian_Uint16 b, r'))"

definition writeUint16 :: "uint16 \<Rightarrow> bytes" where
  "writeUint16 i = [ucast (drop_bit 8 i), ucast i]"

definition writeUint32 :: "uint32 \<Rightarrow> bytes" where
  "writeUint32 i = [ucast (drop_bit 24 i), ucast (drop_bit 16 i), ucast (drop_bit 8 i), ucast i]"

definition readUint32 :: "bytes \<Rightarrow> (uint32 \<times> bytes) res" where
  "readUint32 r =
     (if length r < 4 then Inl ErrMalformed
      else let (b, r') = Next 4 r in Inr (BigEndian_Uint32 b, r'))"

lemma BigEndian_Uint16_write: "BigEndian_Uint16 (writeUint16 i) = i"
  by (rule bit_word_eqI) (auto simp: BigEndian_Uint16_def writeUint16_def bit_simps)

lemma BigEndian_Uint32_write: "BigEndian_Uint32 (writeUint32 i) = i"
proof (rule bit_word_eqI)
  fix n assume "n < LENGTH(32)"
  then consider "n < 8" | "8 \<le> n" "n < 16" | "16 \<le> n" "n < 24" | "24 \<le> n" "n < 32"
    by fastforce
  then show "bit (BigEndian_Uint32 (writeUint32 i)) n = bit i n"
    by cases (auto simp: BigEndian_Uint32_def writeUint32_def bit_simps)
qed

lemma length_writeUint [simp, len_simps]:
  "length (writeUint16 i) = 2" "length (writeUint32 j) = 4"
  by (simp_all add: writeUint16_def writeUint32_def)

lemma readUint16_consumes: "readUint16 r = Inr (i, r') \<Longrightarrow> length r = length r' + 2"
  by (auto simp: readUint16_def Next_def split: if_splits)

lemma readUint32_consumes: "readUint32 r = Inr (i, r') \<Longrightarrow> length r = length r' + 4"
  by (auto simp: readUint32_def Next_def split: if_splits)

interpretation u16: codec writeUint16 readUint16 "\<lambda>_. True"
proof unfold_locales
  fix i rest show "readUint16 (writeUint16 i @ rest) = Inr (i, rest)"
    using BigEndian_Uint16_write [of i] by (simp add: readUint16_def Next_def writeUint16_def)
qed (auto dest: readUint16_consumes)

interpretation u32: codec writeUint32 readUint32 "\<lambda>_. True"
proof unfold_locales
  fix i rest show "readUint32 (writeUint32 i @ rest) = Inr (i, rest)"
    using BigEndian_Uint32_write [of i]
    by (simp add: readUint32_def Next_def writeUint32_def)
qed (auto dest: readUint32_consumes)

section \<open>Length-prefixed strings\<close>

definition EncodeUTF8String :: "bytes \<Rightarrow> (bytes \<times> nat) res" where
  "EncodeUTF8String buf =
     (let buflen = length buf in
      if 65535 < buflen then Inl ErrMalformed
      else Inr (writeUint16 (word_of_nat buflen) @ buf, 2 + buflen))"

definition readUTF8String :: "bool \<Rightarrow> bytes \<Rightarrow> (bytes \<times> bytes) res" where
  "readUTF8String mustUTF8 r =
     (if length r < 2 then Inl ErrMalformed
      else let (b, r1) = Next 2 r; len = unat (BigEndian_Uint16 b) in
        if length r1 < len then Inl ErrMalformed
        else let (payload, r2) = Next len r1 in
          if mustUTF8 \<and> \<not> ValidUTF8 payload then Inl ErrMalformed
          else Inr (payload, r2))"

definition writeUTF8String :: "bytes \<Rightarrow> bytes" where
  "writeUTF8String s = writeUint16 (word_of_nat (length s)) @ s"

definition writeBinary :: "bytes \<Rightarrow> bytes" where
  "writeBinary b = writeUint16 (word_of_nat (length b)) @ b"

definition DecodeUTF8String :: "bytes \<Rightarrow> (bytes \<times> nat) res" where
  "DecodeUTF8String buf =
     (let buflen = length buf in
      if buflen < 2 then Inl ErrInvalUTF8String
      else let len = unat (BigEndian_Uint16 (take 2 buf)) in
        if buflen < len + 2 then Inl ErrInvalUTF8String
        else let payload = take len (drop 2 buf) in
          if \<not> ValidUTF8 payload then Inl ErrInvalUTF8String
          else Inr (payload, len + 2))"

definition wf_string :: "bool \<Rightarrow> bytes \<Rightarrow> bool" where
  "wf_string mustUTF8 s \<longleftrightarrow> length s \<le> 65535 \<and> (mustUTF8 \<longrightarrow> ValidUTF8 s)"

lemma length_writeBinary [simp, len_simps]:
  "length (writeBinary b) = length b + 2" "length (writeUTF8String b) = length b + 2"
  by (simp_all add: writeBinary_def writeUTF8String_def)

lemma writeUTF8String_eq_writeBinary: "writeUTF8String = writeBinary"
  by (simp add: writeUTF8String_def writeBinary_def fun_eq_iff)

lemma EncodeUTF8String_eq:
  "length b \<le> 65535 \<Longrightarrow> EncodeUTF8String b = Inr (writeBinary b, length b + 2)"
  by (simp add: EncodeUTF8String_def writeBinary_def Let_def)

lemma BigEndian_Uint16_prefix:
  "length b \<le> 65535 \<Longrightarrow> unat (BigEndian_Uint16 (take 2 (writeBinary b @ rest))) = length b"
  using BigEndian_Uint16_write [of "word_of_nat (length b)"]
  by (simp add: writeBinary_def unat_word_of_nat)

lemma readUTF8String_consumes:
  "readUTF8String m r = Inr (s, r') \<Longrightarrow> length r = length r' + length s + 2"
  by (auto simp: readUTF8String_def Next_def Let_def split: if_splits)

lemma readUTF8String_wf: "readUTF8String m r = Inr (s, r') \<Longrightarrow> wf_string m s"
proof -
  assume "readUTF8String m r = Inr (s, r')"
  moreover have "unat (BigEndian_Uint16 b) \<le> 65535" for b
    using unsigned_less [where ?'a = nat, of "BigEndian_Uint16 b"] by simp
  ultimately show ?thesis
    by (auto simp: readUTF8String_def Next_def Let_def wf_string_def split: if_splits)
qed

interpretation ustr: codec writeBinary "readUTF8String m" "wf_string m" for m
proof unfold_locales
  fix s rest assume wf: "wf_string m s"
  let ?b = "writeBinary s @ rest"
  have "unat (BigEndian_Uint16 (take 2 ?b)) = length s"
    using wf by (intro BigEndian_Uint16_prefix) (simp add: wf_string_def)
  moreover have "drop 2 ?b = s @ rest" "\<not> length ?b < 2"
    by (simp_all add: writeBinary_def)
  ultimately show "readUTF8String m ?b = Inr (s, rest)"
    using wf by (simp add: readUTF8String_def Next_def Let_def wf_string_def)
qed (auto dest: readUTF8String_consumes)

lemmas read_write [roundtrip_simps] =
  u16.dec_enc [simplified] u32.dec_enc [simplified] ustr.dec_enc ustr.dec_enc_Nil

lemma writeUint16_BigEndian: "length b = 2 \<Longrightarrow> writeUint16 (BigEndian_Uint16 b) = b"
proof -
  assume "length b = 2"
  then obtain x y where b: "b = [x, y]" by (auto simp: numeral_2_eq_2 length_Suc_conv)
  have "ucast (drop_bit 8 (ucast y OR push_bit 8 (ucast x) :: uint16)) = x"
    "ucast (ucast y OR push_bit 8 (ucast x) :: uint16) = y"
    by (rule bit_word_eqI; auto simp: bit_simps dest: bit_imp_le_length)+
  then show ?thesis by (simp add: b BigEndian_Uint16_def writeUint16_def)
qed

lemma readUTF8String_inv:
  assumes "readUTF8String m r = Inr (s, rest)"
  shows "r = writeUTF8String s @ rest"
proof -
  let ?b = "take 2 r" and ?l = "unat (BigEndian_Uint16 (take 2 r))"
  have l: "2 \<le> length r" "?l \<le> length (drop 2 r)" and s: "s = take ?l (drop 2 r)" "rest = drop ?l (drop 2 r)"
    using assms by (auto simp: readUTF8String_def Next_def Let_def split: if_splits)
  have "word_of_nat (length s) = BigEndian_Uint16 ?b" using l s(1) by simp
  then have "writeUint16 (word_of_nat (length s)) = ?b" using l writeUint16_BigEndian [of ?b] by simp
  then show ?thesis unfolding writeUTF8String_def s by (metis append.assoc append_take_drop_id)
qed

text \<open>
  A remaining length below 2 to the 28 is written in one to four bytes, is read back with the rest of the
  input untouched, and no input that is read as the same number uses fewer bytes; a larger one is
  refused as malformed.
\<close>

lemma remain_length_roundtrip:
  "if n < 268435456
   then \<exists>w. DecodeRemainLength (int n) = Inr w \<and> 1 \<le> length w \<and> length w \<le> 4
        \<and> EncodeRemainLength (w @ rest) = Inr (n, rest)
        \<and> (0 < n \<longrightarrow> EncodeRemainLength bs = Inr (n, r) \<longrightarrow> length w + length r \<le> length bs)
   else DecodeRemainLength (int n) = Inl ErrMalformed"
proof (cases "n < 268435456")
  case True
  then have "length (vbi_enc n) \<le> 4" by (intro length_vbi_enc) simp_all
  moreover have "1 \<le> length (vbi_enc n)" using vbi_enc_neq_Nil [of n] by (cases "vbi_enc n") simp_all
  ultimately show ?thesis using True DecodeRemainLength_vbi [OF True] EncodeRemainLength_vbi [OF True]
    EncodeRemainLength_shortest [of bs n r] by auto
qed (simp add: DecodeRemainLength_too_long)

lemma remain_length_roundtrip_witness:
  "\<exists>w. DecodeRemainLength 321 = Inr w \<and> EncodeRemainLength (w @ [7]) = Inr (321, [7])"
  using remain_length_roundtrip [of 321 "[7]" "[]" "[]"] by auto

text \<open>
  The string reader with its UTF-8 check accepts exactly a two-byte length followed by that many bytes
  that are the encoding of a sequence of allowed code points, and leaves what follows them.
\<close>

lemma readUTF8String_accepts:
  "readUTF8String True r = Inr (s, rest) \<longleftrightarrow>
     r = writeUTF8String s @ rest \<and> length s \<le> 65535
     \<and> (\<exists>rs. list_all allowedRune rs \<and> s = concat (map utf8_EncodeRune rs))"
  using readUTF8String_inv [of True r s rest] readUTF8String_wf [of True r s rest] ustr.dec_enc [of True s rest]
  by (auto simp: wf_string_def ValidUTF8_char writeUTF8String_eq_writeBinary)

end
