(* ===== verification/Topics.thy ===== *)
theory Topics
  imports Utf8
begin

text \<open>
  Topic names and topic filters: the validity checks and \<open>TopicMatch\<close> of
  \<^verbatim>\<open>gmqtt/pkg/packets/packets.go\<close>, and \<^verbatim>\<open>SplitTopic\<close>, \<^verbatim>\<open>GetFullTopicName\<close> of
  \<^verbatim>\<open>gmqtt/persistence/subscription/subscription.go\<close>.

  The specification side is a filter seen as the list of its levels: \<open>wf_filter\<close> says where
  wildcards may stand and \<open>levels_match\<close> is the matching rule of MQTT on level lists.
  The byte-wise matcher with its two cursors computes that rule.
\<close>

abbreviation slash :: byte where "slash \<equiv> 0x2F"
abbreviation plus_sign :: byte where "plus_sign \<equiv> 0x2B"
abbreviation hash_sign :: byte where "hash_sign \<equiv> 0x23"
abbreviation dollar :: byte where "dollar \<equiv> 0x24"

section \<open>Splitting at slashes\<close>

text \<open>\<^verbatim>\<open>strings.Split(s, "/")\<close>, \<^verbatim>\<open>strings.SplitN(s, "/", n)\<close>, \<^verbatim>\<open>strings.HasPrefix\<close>.\<close>

fun split_levels :: "bytes \<Rightarrow> bytes list" where
  "split_levels [] = [[]]"
| "split_levels (c # cs) =
     (if c = slash then [] # split_levels cs
      else (c # hd (split_levels cs)) # tl (split_levels cs))"

fun SplitN :: "bytes \<Rightarrow> nat \<Rightarrow> bytes list" where
  "SplitN s 0 = []"
| "SplitN s (Suc 0) = [s]"
| "SplitN s (Suc (Suc n)) =
     (if slash \<in> set s
      then takeWhile (\<lambda>c. c \<noteq> slash) s # SplitN (tl (dropWhile (\<lambda>c. c \<noteq> slash) s)) (Suc n)
      else [s])"

definition HasPrefix :: "bytes \<Rightarrow> bytes \<Rightarrow> bool" where
  "HasPrefix s p \<longleftrightarrow> take (length p) s = p"

definition share_prefix :: bytes where
  "share_prefix = [0x24, 0x73, 0x68, 0x61, 0x72, 0x65, 0x2F]"  \<comment> \<open>\<^verbatim>\<open>$share/\<close>\<close>

definition isSystemTopic :: "bytes \<Rightarrow> bool" where
  "isSystemTopic topicName \<longleftrightarrow> 1 \<le> length topicName \<and> topicName ! 0 = dollar"

lemma split_levels_neq_Nil [simp]: "split_levels s \<noteq> []"
  by (induction s) auto

lemma length_split_levels_pos [simp]: "0 < length (split_levels s)"
  by (simp add: length_greater_0_conv [THEN iffD2])

lemma split_levels_slash: "split_levels (slash # s) = [] # split_levels s"
  by simp

lemma split_levels_other:
  "c \<noteq> slash \<Longrightarrow> split_levels (c # s) = (c # hd (split_levels s)) # tl (split_levels s)"
  by simp

fun join_levels :: "bytes list \<Rightarrow> bytes" where
  "join_levels [] = []"
| "join_levels [l] = l"
| "join_levels (l # ls) = l @ slash # join_levels ls"

lemma join_levels_Cons: "ls \<noteq> [] \<Longrightarrow> join_levels (l # ls) = l @ slash # join_levels ls"
  by (cases ls) auto

lemma join_levels_push: "join_levels ((c # l) # ls) = c # join_levels (l # ls)"
  by (cases ls) auto

lemma join_split_levels [simp]: "join_levels (split_levels s) = s"
proof (induction s)
  case (Cons c s)
  then show ?case
    by (cases "split_levels s") (auto simp: join_levels_Cons join_levels_push)
qed simp

lemma split_levels_inj [simp]: "split_levels s = split_levels t \<longleftrightarrow> s = t"
  by (metis join_split_levels)

lemma split_levels_no_slash: "l \<in> set (split_levels s) \<Longrightarrow> slash \<notin> set l"
proof (induction s arbitrary: l)
  case (Cons c s)
  then show ?case
    by (cases "split_levels s") (auto split: if_splits)
qed simp

lemma split_levels_append:
  "slash \<notin> set l \<Longrightarrow> split_levels (l @ s) = (l @ hd (split_levels s)) # tl (split_levels s)"
  by (induction l) auto

lemma split_levels_join:
  "ls \<noteq> [] \<Longrightarrow> \<forall>l\<in>set ls. slash \<notin> set l \<Longrightarrow> split_levels (join_levels ls) = ls"
proof (induction ls rule: join_levels.induct)
  case (2 l)
  then show ?case using split_levels_append [of l "[]"] by simp
next
  case (3 l l' ls)
  then show ?case by (simp add: split_levels_append)
qed simp

lemma split_levels_sing: "slash \<notin> set l \<Longrightarrow> split_levels l = [l]"
  using split_levels_append [of l "[]"] by simp

lemma split_levels_eq_sing: "split_levels s = [l] \<longleftrightarrow> s = l \<and> slash \<notin> set l"
proof
  assume "split_levels s = [l]"
  then show "s = l \<and> slash \<notin> set l"
    using join_split_levels [of s] split_levels_no_slash [of l s] by simp
qed (simp add: split_levels_sing)

section \<open>Validity checks\<close>

function ValidTopicName :: "bool \<Rightarrow> bytes \<Rightarrow> bool" where
  "ValidTopicName mustUTF8 p =
     (if length p > 0 then
        (let (ru, size) = utf8_DecodeRune p in
         if mustUTF8 \<and> ru = RuneError then False
         else if size = 1 \<and> (p ! 0 = plus_sign \<or> p ! 0 = hash_sign) then False
         else ValidTopicName mustUTF8 (drop size p))
      else True)"
  by pat_completeness auto
termination
  by (relation "measure (length \<circ> snd)") (simp_all add: utf8_DecodeRune_shrinks)

function ValidTopicFilter_loop :: "bool \<Rightarrow> byte option \<Rightarrow> bytes \<Rightarrow> bool" where
  "ValidTopicFilter_loop mustUTF8 prevByte p =
     (if length p > 0 then
        (let (ru, size) = utf8_DecodeRune p; plen = length p in
         if mustUTF8 \<and> ru = RuneError then False
         else if p ! 0 = hash_sign \<and> plen \<noteq> 1 then False
         else if size = 1 \<and> prevByte \<noteq> None
                 \<and> (p ! 0 = plus_sign \<or> p ! 0 = hash_sign) \<and> the prevByte \<noteq> slash then False
         else if size = 1 \<and> prevByte \<noteq> None
                 \<and> plen > 1 \<and> p ! 0 = plus_sign \<and> p ! 1 \<noteq> slash then False
         else ValidTopicFilter_loop mustUTF8 (Some (p ! 0)) (drop size p))
      else True)"
  by pat_completeness auto
termination
  by (relation "measure (length \<circ> snd \<circ> snd)") (simp_all add: utf8_DecodeRune_shrinks)

definition ValidTopicFilter :: "bool \<Rightarrow> bytes \<Rightarrow> bool" where
  "ValidTopicFilter mustUTF8 p =
     (if length p = 0 then False else ValidTopicFilter_loop mustUTF8 None p)"

function ValidV5Topic_share :: "bytes \<Rightarrow> bool" where
  "ValidV5Topic_share subp =
     (if length subp > 0 then
        (let (ru, size) = utf8_DecodeRune subp in
         if ru = RuneError then False
         else if size = 1 \<and> subp ! 0 = slash then ValidTopicFilter True (drop 1 subp)
         else if size = 1 \<and> (subp ! 0 = plus_sign \<or> subp ! 0 = hash_sign) then False
         else ValidV5Topic_share (drop size subp))
      else False)"
  by pat_completeness auto
termination
  by (relation "measure length") (simp_all add: utf8_DecodeRune_shrinks)

definition ValidV5Topic :: "bytes \<Rightarrow> bool" where
  "ValidV5Topic p =
     (if length p = 0 then False
      else if HasPrefix p share_prefix then
        (if length p < 9 then False
         else if p ! 7 \<noteq> slash then ValidV5Topic_share (drop 7 p)
         else False)
      else ValidTopicFilter True p)"

declare ValidTopicName.simps [simp del] ValidTopicFilter_loop.simps [simp del]
  ValidV5Topic_share.simps [simp del]

section \<open>Matching\<close>

function skip_level :: "bytes \<Rightarrow> nat \<Rightarrow> nat" where
  "skip_level topic tpos =
     (if tpos < length topic \<and> topic ! tpos \<noteq> slash then skip_level topic (tpos + 1) else tpos)"
  by pat_completeness auto
termination
  by (relation "measure (\<lambda>(topic, tpos). length topic - tpos)") auto

declare skip_level.simps [simp del]

function TopicMatch_loop :: "bytes \<Rightarrow> bytes \<Rightarrow> nat \<Rightarrow> nat \<Rightarrow> bool" where
  "TopicMatch_loop topic topicFilter spos tpos =
     (let sublen = length topicFilter; topiclen = length topic in
      if spos < sublen \<and> tpos \<le> topiclen then
        if tpos \<noteq> topiclen \<and> topicFilter ! spos = topic ! tpos then
          if tpos + 1 = topiclen \<and> spos + 3 = sublen
             \<and> topicFilter ! (spos + 1) = slash \<and> topicFilter ! (spos + 2) = hash_sign
          then True
          else
            (if spos + 1 = sublen \<and> tpos + 1 = topiclen then True
             else if tpos + 1 = topiclen \<and> spos + 1 = sublen - 1 \<and> topicFilter ! (spos + 1) = plus_sign
             then (if spos + 1 > 0 \<and> topicFilter ! spos \<noteq> slash then False else True)
             else TopicMatch_loop topic topicFilter (spos + 1) (tpos + 1))
        else if topicFilter ! spos = plus_sign then
          (let tpos' = skip_level topic tpos in
           if tpos' = topiclen \<and> spos + 1 = sublen then True
           else TopicMatch_loop topic topicFilter (spos + 1) tpos')
        else if topicFilter ! spos = hash_sign then True
        else spos > 0 \<and> spos + 2 = sublen \<and> tpos = topiclen
             \<and> topicFilter ! (spos - 1) = plus_sign \<and> topicFilter ! spos = slash
             \<and> topicFilter ! (spos + 1) = hash_sign
      else False)"
  by pat_completeness auto
termination
  by (relation "measure (\<lambda>(topic, topicFilter, spos, tpos). length topicFilter - spos)") auto

declare TopicMatch_loop.simps [simp del]

definition TopicMatch :: "bytes \<Rightarrow> bytes \<Rightarrow> bool" where
  "TopicMatch topic topicFilter =
     (if length topicFilter = 0 \<or> length topic = 0 then False
      else if (topicFilter ! 0 = dollar \<and> topic ! 0 \<noteq> dollar)
              \<or> (topic ! 0 = dollar \<and> topicFilter ! 0 \<noteq> dollar) then False
      else TopicMatch_loop topic topicFilter 0 0)"

section \<open>Shared subscription names\<close>

definition SplitTopic :: "bytes \<Rightarrow> bytes \<times> bytes" where
  "SplitTopic topic =
     (if HasPrefix topic share_prefix then
        (let shared = SplitN topic 3 in
         if length shared < 3 then ([], []) else (shared ! 1, shared ! 2))
      else ([], topic))"

definition GetFullTopicName :: "bytes \<Rightarrow> bytes \<Rightarrow> bytes" where
  "GetFullTopicName shareName topicFilter =
     (if shareName \<noteq> [] then share_prefix @ shareName @ [slash] @ topicFilter else topicFilter)"

lemma utf8_encode_high: "r \<ge> 0x80 \<Longrightarrow> b \<in> set (utf8_encode r) \<Longrightarrow> 0x80 \<le> b"
  by (auto simp: utf8_encode_def split: if_splits)

lemma EncodeRune_high:
  assumes "allowedRune r" and "length (utf8_EncodeRune r) \<noteq> 1" and "b \<in> set (utf8_EncodeRune r)"
  shows "128 \<le> unat b"
proof -
  have "length (utf8_encode r) \<noteq> 1" using assms(2) by (simp add: utf8_EncodeRune_def)
  then have "0x80 \<le> r" by (auto simp: utf8_encode_def split: if_splits)
  moreover have "unat b \<in> set (utf8_encode r)"
    using assms(3) map_unat_EncodeRune [OF assms(1)] by (metis image_eqI list.set_map)
  ultimately show ?thesis using utf8_encode_high by auto
qed

lemma ValidUTF8_cases [consumes 1, case_names Nil Ascii Multi]:
  assumes "ValidUTF8 p"
  obtains "p = []"
  | c q where "p = c # q" "utf8_DecodeRune p = (unat c, 1)" "unat c \<noteq> RuneError" "ValidUTF8 q"
  | r c cs q where "p = c # cs @ q" "cs \<noteq> []" "utf8_DecodeRune p = (r, Suc (length cs))" "r \<noteq> RuneError"
      "\<forall>b\<in>set (c # cs). 128 \<le> unat b" "ValidUTF8 q"
proof (cases "p = []")
  case False
  obtain r n where d: "utf8_DecodeRune p = (r, n)" by fastforce
  have r: "allowedRune r" and v: "ValidUTF8 (drop n p)"
    using ValidUTF8_step [OF False d] assms by auto
  have t: "take n p = utf8_EncodeRune r"
    using utf8_DecodeRune_inv [OF d] r by (simp add: allowedRune_def)
  obtain c cs where e: "utf8_EncodeRune r = c # cs" by (cases "utf8_EncodeRune r") auto
  have p: "p = c # cs @ drop n p" using t e append_take_drop_id [of n p] by simp
  have n: "n = Suc (length cs)"
    using t e utf8_DecodeRune_size [OF False d] by (metis length_Cons length_take min.absorb2)
  show thesis
  proof (cases "cs = []")
    case True
    then have "map unat [c] = utf8_encode r" using map_unat_EncodeRune [OF r] e by simp
    then have "unat c = r" by (auto simp: utf8_encode_def split: if_splits)
    with that(2) [of c "drop n p"] show ?thesis using True p d r v n by (simp add: allowedRune_def)
  next
    case False
    have "\<forall>b\<in>set (c # cs). 128 \<le> unat b"
      using EncodeRune_high [OF r] e False by simp
    with that(3) [of c cs "drop n p" r] show ?thesis using False p d r v n
      by (simp add: allowedRune_def)
  qed
qed (use that(1) in blast)

lemma ValidUTF8_induct [consumes 1, case_names Nil Ascii Multi]:
  assumes "ValidUTF8 p"
    and "P []"
    and "\<And>c q. utf8_DecodeRune (c # q) = (unat c, 1) \<Longrightarrow> unat c \<noteq> RuneError \<Longrightarrow> ValidUTF8 q \<Longrightarrow> P q \<Longrightarrow> P (c # q)"
    and "\<And>r c cs q. utf8_DecodeRune (c # cs @ q) = (r, Suc (length cs)) \<Longrightarrow> r \<noteq> RuneError \<Longrightarrow> cs \<noteq> [] \<Longrightarrow>
      \<forall>b\<in>set (c # cs). 128 \<le> unat b \<Longrightarrow> ValidUTF8 q \<Longrightarrow> P q \<Longrightarrow> P (c # cs @ q)"
  shows "P p"
  using assms(1)
proof (induction "length p" arbitrary: p rule: less_induct)
  case less
  from less.prems show ?case
  proof (cases rule: ValidUTF8_cases)
    case (Ascii c q)
    then show ?thesis using assms(3) less.hyps [of q] by simp
  next
    case (Multi r c cs q)
    then show ?thesis using assms(4) less.hyps [of q] by simp
  qed (use assms(2) in simp)
qed

abbreviation wildcard :: "byte \<Rightarrow> bool" where
  "wildcard c \<equiv> c = plus_sign \<or> c = hash_sign"

lemma high_byte_plain: "128 \<le> unat (b :: byte) \<Longrightarrow> b \<noteq> slash \<and> \<not> wildcard b"
  by auto

text \<open>
  On well-formed UTF-8 the check of a topic name is the absence of wildcard bytes.
\<close>

lemma ValidTopicName_char:
  "ValidUTF8 p \<Longrightarrow> ValidTopicName True p \<longleftrightarrow> (\<forall>c\<in>set p. \<not> wildcard c)"
proof (induction p rule: ValidUTF8_induct)
  case Nil
  show ?case by (simp add: ValidTopicName.simps)
next
  case (Ascii c q)
  then show ?case by (subst ValidTopicName.simps) auto
next
  case (Multi r c cs q)
  then show ?case using high_byte_plain by (subst ValidTopicName.simps) auto
qed

lemma ValidTopicName_char_witness: "ValidTopicName True [0x61, 0x2F, 0x62]"
  using ValidTopicName_char [of "[0x61, 0x2F, 0x62]"] by (simp add: ValidUTF8_ascii)

text \<open>The filter check on bytes.\<close>

fun filter_bytes_ok :: "byte option \<Rightarrow> bytes \<Rightarrow> bool" where
  "filter_bytes_ok prev [] = True"
| "filter_bytes_ok prev (c # p) =
     (\<not> (c = hash_sign \<and> p \<noteq> [])
      \<and> (prev \<noteq> None \<longrightarrow> \<not> (wildcard c \<and> the prev \<noteq> slash))
      \<and> (prev \<noteq> None \<longrightarrow> \<not> (p \<noteq> [] \<and> c = plus_sign \<and> hd p \<noteq> slash))
      \<and> filter_bytes_ok (Some c) p)"

lemma filter_bytes_ok_prev:
  "c \<noteq> slash \<Longrightarrow> d \<noteq> slash \<Longrightarrow> filter_bytes_ok (Some c) p = filter_bytes_ok (Some d) p"
  by (cases p) auto

lemma filter_bytes_ok_high:
  "\<forall>b\<in>set (c # cs). 128 \<le> unat b \<Longrightarrow> filter_bytes_ok prev (c # cs @ q) = filter_bytes_ok (Some c) q"
proof (induction cs arbitrary: c prev)
  case Nil
  then show ?case using high_byte_plain by auto
next
  case (Cons d cs)
  have "filter_bytes_ok (Some c) (d # cs @ q) = filter_bytes_ok (Some d) q"
    by (rule Cons.IH) (use Cons.prems in simp)
  moreover have "c \<noteq> slash" "d \<noteq> slash" "\<not> wildcard c"
    using Cons.prems high_byte_plain by auto
  ultimately show ?case using filter_bytes_ok_prev [of c d q] by simp
qed

lemma ValidTopicFilter_loop_bytes:
  "ValidUTF8 p \<Longrightarrow> ValidTopicFilter_loop True prev p = filter_bytes_ok prev p"
proof (induction p arbitrary: prev rule: ValidUTF8_induct)
  case Nil
  show ?case by (simp add: ValidTopicFilter_loop.simps)
next
  case (Ascii c q)
  then show ?case by (subst ValidTopicFilter_loop.simps) (cases q; auto)
next
  case (Multi r c cs q)
  moreover have "c \<noteq> hash_sign" using Multi by auto
  ultimately show ?case
    using filter_bytes_ok_high [of c cs prev q] by (subst ValidTopicFilter_loop.simps) auto
qed

section \<open>Filters by levels\<close>

definition level_ok :: "bytes \<Rightarrow> bool" where
  "level_ok l \<longleftrightarrow> (plus_sign \<in> set l \<longrightarrow> l = [plus_sign]) \<and> (hash_sign \<in> set l \<longrightarrow> l = [hash_sign])"

text \<open>A multi-level wildcard stands last.\<close>

fun wf_levels :: "bytes list \<Rightarrow> bool" where
  "wf_levels [] = True"
| "wf_levels (l # ls) = (level_ok l \<and> (l = [hash_sign] \<longrightarrow> ls = []) \<and> wf_levels ls)"

definition wf_filter :: "bytes \<Rightarrow> bool" where
  "wf_filter p \<longleftrightarrow> p \<noteq> [] \<and> wf_levels (split_levels p)"

lemma level_ok_Nil [simp]: "level_ok []"
  by (simp add: level_ok_def)

lemma level_ok_Cons:
  "level_ok (c # l) \<longleftrightarrow> (if wildcard c then l = [] else (\<forall>d\<in>set l. \<not> wildcard d))"
  by (auto simp: level_ok_def)

lemma filter_bytes_ok_levels:
  "filter_bytes_ok (Some slash) p \<longleftrightarrow> wf_levels (split_levels p)"
  "c \<noteq> slash \<Longrightarrow> filter_bytes_ok (Some c) p \<longleftrightarrow>
     (\<forall>d\<in>set (hd (split_levels p)). \<not> wildcard d) \<and> wf_levels (tl (split_levels p))"
proof (induction p arbitrary: c)
  case (Cons d p)
  { case 1
    show ?case
    proof (cases "d = slash")
      case False
      with Cons.IH(2) [OF False] show ?thesis
        by (cases p) (auto simp: level_ok_Cons)
    qed (simp add: Cons.IH(1))
  next
    case 2
    then show ?case using Cons.IH(1) Cons.IH(2) [of d] by auto }
qed auto

text \<open>
  On well-formed UTF-8 the check of a topic filter accepts the filters whose wildcards stand alone in
  their level with the multi-level one last, and, beyond them, exactly the filters whose first level is
  a plus sign directly followed by a plain text.
\<close>

lemma ValidTopicFilter_char:
  assumes "ValidUTF8 p"
  shows "ValidTopicFilter True p \<longleftrightarrow>
    wf_filter p \<or>
    (\<exists>q. p = plus_sign # q \<and> q \<noteq> [] \<and> hd q \<noteq> slash \<and> wf_levels (tl (split_levels q))
      \<and> (\<forall>d\<in>set (hd (split_levels q)). \<not> wildcard d))"
proof (cases p)
  case (Cons c q)
  have v: "ValidTopicFilter True p = filter_bytes_ok None p"
    using ValidTopicFilter_loop_bytes [OF assms] Cons by (simp add: ValidTopicFilter_def)
  show ?thesis
  proof (cases "c = slash")
    case True
    then show ?thesis unfolding v unfolding wf_filter_def Cons using filter_bytes_ok_levels(1) [of q] by simp
  next
    case False
    then show ?thesis unfolding v unfolding wf_filter_def Cons
      using filter_bytes_ok_levels(2) [OF False, of q]
      by (cases q) (auto simp: level_ok_Cons)
  qed
qed (simp add: ValidTopicFilter_def wf_filter_def)

lemma ValidTopicFilter_char_witness: "ValidTopicFilter True [0x61, 0x2F, 0x23]"
  using ValidTopicFilter_char [of "[0x61, 0x2F, 0x23]"] by (simp add: ValidUTF8_ascii wf_filter_def level_ok_def)

section \<open>Matching by levels\<close>

fun levels_match :: "bytes list \<Rightarrow> bytes list \<Rightarrow> bool" where
  "levels_match ts [] = (ts = [])"
| "levels_match ts (f # fs) =
     (if f = [hash_sign] \<and> fs = [] then True
      else (case ts of [] \<Rightarrow> False | t # ts' \<Rightarrow> (f = [plus_sign] \<or> f = t) \<and> levels_match ts' fs))"

definition topic_matches :: "bytes \<Rightarrow> bytes \<Rightarrow> bool" where
  "topic_matches topic topicFilter \<longleftrightarrow>
     isSystemTopic topic = isSystemTopic topicFilter
     \<and> levels_match (split_levels topic) (split_levels topicFilter)"

text \<open>The matcher on the unread suffixes of filter and topic, with the byte before the filter cursor.\<close>

function match_suffix :: "byte option \<Rightarrow> bytes \<Rightarrow> bytes \<Rightarrow> bool" where
  "match_suffix prev fs ts =
     (case fs of [] \<Rightarrow> False
      | f # fs' \<Rightarrow>
        if ts \<noteq> [] \<and> f = hd ts then
          (if tl ts = [] \<and> fs' = [slash, hash_sign] then True
           else if fs' = [] \<and> tl ts = [] then True
           else if tl ts = [] \<and> fs' = [plus_sign] then f = slash
           else match_suffix (Some f) fs' (tl ts))
        else if f = plus_sign then
          (let ts' = dropWhile (\<lambda>c. c \<noteq> slash) ts in
           if ts' = [] \<and> fs' = [] then True else match_suffix (Some plus_sign) fs' ts')
        else if f = hash_sign then True
        else prev = Some plus_sign \<and> fs = [slash, hash_sign] \<and> ts = [])"
  by pat_completeness auto
termination
  by (relation "measure (\<lambda>(prev, fs, ts). length fs)") auto

declare match_suffix.simps [simp del]

lemma match_suffix_eq_step:
  "match_suffix prev (c # f) (c # t) \<longleftrightarrow>
     (if t = [] \<and> f = [slash, hash_sign] then True
      else if f = [] \<and> t = [] then True
      else if t = [] \<and> f = [plus_sign] then c = slash
      else match_suffix (Some c) f t)"
  by (subst match_suffix.simps) simp

lemma match_suffix_Nil [simp]: "match_suffix prev [] t \<longleftrightarrow> False"
  by (subst match_suffix.simps) simp

lemma match_suffix_neq_step:
  assumes "t = [] \<or> c \<noteq> hd t"
  shows "match_suffix prev (c # f) t \<longleftrightarrow>
     (if c = plus_sign then
        (let t' = dropWhile (\<lambda>c. c \<noteq> slash) t in
         if t' = [] \<and> f = [] then True else match_suffix (Some plus_sign) f t')
      else if c = hash_sign then True
      else prev = Some plus_sign \<and> c # f = [slash, hash_sign] \<and> t = [])"
  using assms by (subst match_suffix.simps) auto

lemma drop_skip_level: "drop (skip_level t n) t = dropWhile (\<lambda>c. c \<noteq> slash) (drop n t)"
proof (induction t n rule: skip_level.induct)
  case (1 t n)
  show ?case
  proof (cases "n < length t")
    case True
    then have "drop n t = t ! n # drop (Suc n) t" by (simp add: Cons_nth_drop_Suc)
    with 1 True show ?thesis by (subst skip_level.simps) auto
  next
    case False
    then show ?thesis by (subst skip_level.simps) simp
  qed
qed

lemma skip_level_le: "n \<le> length t \<Longrightarrow> skip_level t n \<le> length t"
proof (induction t n rule: skip_level.induct)
  case (1 t n)
  then show ?case by (subst skip_level.simps) auto
qed

lemma list2_eq_iff: "xs = [a, b] \<longleftrightarrow> length xs = 2 \<and> xs ! 0 = a \<and> xs ! 1 = b"
  by (auto simp: numeral_2_eq_2 length_Suc_conv)

lemma TopicMatch_loop_suffix:
  "s \<le> length f \<Longrightarrow> t \<le> length tp \<Longrightarrow>
   TopicMatch_loop tp f s t
     = match_suffix (if s = 0 then None else Some (f ! (s - 1))) (drop s f) (drop t tp)"
proof (induction tp f s t rule: TopicMatch_loop.induct)
  case (1 tp f s t)
  show ?case
  proof (cases "s < length f")
    case False
    then show ?thesis
      by (subst TopicMatch_loop.simps, subst match_suffix.simps) simp
  next
    case True
    then have df: "drop s f = f ! s # drop (Suc s) f" by (simp add: Cons_nth_drop_Suc)
    show ?thesis
    proof (cases "t < length tp \<and> f ! s = tp ! t")
      case True
      then have dt: "drop t tp = tp ! t # drop (Suc t) tp" by (simp add: Cons_nth_drop_Suc)
      have IH: "\<not> (t + 1 = length tp \<and> s + 3 = length f \<and> f ! (s + 1) = slash \<and> f ! (s + 2) = hash_sign) \<Longrightarrow>
         \<not> (s + 1 = length f \<and> t + 1 = length tp) \<Longrightarrow>
         \<not> (t + 1 = length tp \<and> s + 1 = length f - 1 \<and> f ! (s + 1) = plus_sign) \<Longrightarrow>
         TopicMatch_loop tp f (s + 1) (t + 1)
          = match_suffix (Some (f ! s)) (drop (Suc s) f) (drop (Suc t) tp)"
        using 1(1) \<open>s < length f\<close> True by simp
      have c1: "drop (Suc s) f = [slash, hash_sign] \<longleftrightarrow>
          s + 3 = length f \<and> f ! (s + 1) = slash \<and> f ! (s + 2) = hash_sign"
        unfolding list2_eq_iff using \<open>s < length f\<close> by auto
      have c2: "drop (Suc s) f = [plus_sign] \<longleftrightarrow> s + 1 = length f - 1 \<and> f ! (s + 1) = plus_sign"
        using \<open>s < length f\<close> by (auto simp: list_eq_iff_nth_eq)
      show ?thesis
        unfolding df dt
        apply (subst TopicMatch_loop.simps, subst match_suffix.simps)
        using IH True \<open>s < length f\<close>
        by (auto simp: c1 c2 Let_def)
    next
      case False
      then have ne: "drop t tp = [] \<or> f ! s \<noteq> hd (drop t tp)"
        by (auto simp: hd_drop_conv_nth)
      have IH: "f ! s = plus_sign \<Longrightarrow> \<not> (skip_level tp t = length tp \<and> s + 1 = length f) \<Longrightarrow>
         TopicMatch_loop tp f (s + 1) (skip_level tp t)
          = match_suffix (Some plus_sign) (drop (Suc s) f) (dropWhile (\<lambda>c. c \<noteq> slash) (drop t tp))"
        using 1(2) \<open>s < length f\<close> False "1.prems" skip_level_le [of t tp]
        by (auto simp: drop_skip_level)
      have e: "skip_level tp t = length tp \<longleftrightarrow> dropWhile (\<lambda>c. c \<noteq> slash) (drop t tp) = []"
        unfolding drop_skip_level [symmetric] using skip_level_le [OF "1.prems"(2)] by auto
      have c: "f ! s # drop (Suc s) f = [slash, hash_sign] \<longleftrightarrow>
          s + 2 = length f \<and> f ! s = slash \<and> f ! (s + 1) = hash_sign"
        unfolding list2_eq_iff using \<open>s < length f\<close> by auto
      have nc: "(t \<noteq> length tp \<and> f ! s = tp ! t) = False"
        and gc: "(s < length f \<and> t \<le> length tp) = True"
        using False \<open>s < length f\<close> "1.prems"(2) by auto
      have L: "TopicMatch_loop tp f s t \<longleftrightarrow>
         (if f ! s = plus_sign then
            (if skip_level tp t = length tp \<and> s + 1 = length f then True
             else TopicMatch_loop tp f (s + 1) (skip_level tp t))
          else if f ! s = hash_sign then True
          else s > 0 \<and> s + 2 = length f \<and> t = length tp \<and> f ! (s - 1) = plus_sign
            \<and> f ! s = slash \<and> f ! (s + 1) = hash_sign)"
        unfolding TopicMatch_loop.simps [of tp f s t] Let_def
        by (simp only: nc gc if_True if_False)
      have d: "drop (Suc s) f = [] \<longleftrightarrow> s + 1 = length f" using \<open>s < length f\<close> by auto
      show ?thesis
      proof (cases "f ! s = plus_sign")
        case True
        show ?thesis
          unfolding L df match_suffix_neq_step [OF ne] Let_def
          using IH [OF True] e d True by (auto simp del: dropWhile_eq_Nil_conv drop_eq_Nil)
      next
        case False
        show ?thesis
          unfolding L df match_suffix_neq_step [OF ne] c using False "1.prems"(2) by auto
      qed
    qed
  qed
qed

abbreviation plain_level :: "bytes \<Rightarrow> bool" where
  "plain_level l \<equiv> \<forall>c\<in>set l. \<not> wildcard c"

lemma levels_match_Nil_topic [simp]: "levels_match [] fs \<longleftrightarrow> fs = [] \<or> fs = [[hash_sign]]"
  by (cases fs) auto

lemma tl_split_dropWhile:
  "tl (split_levels (dropWhile (\<lambda>c. c \<noteq> slash) s)) = tl (split_levels s)"
  by (induction s) auto

lemma split_levels_eq_hash: "split_levels s = [[hash_sign]] \<longleftrightarrow> s = [hash_sign]"
  by (auto simp: split_levels_eq_sing)

text \<open>
  Three positions of the filter cursor: at the start of a level, inside a plain level, and
  after a single-level wildcard.
\<close>

lemma match_suffix_levels:
  assumes "plain_level t"
  shows
    "(\<forall>prev. wf_levels (split_levels f) \<and> prev \<noteq> Some plus_sign
        \<and> (t \<noteq> [] \<or> (f \<noteq> [] \<and> f \<noteq> [slash, hash_sign])) \<longrightarrow>
        match_suffix prev f t = levels_match (split_levels t) (split_levels f))
     \<and> (\<forall>c. plain_level (hd (split_levels f)) \<and> wf_levels (tl (split_levels f)) \<and> c \<noteq> plus_sign
        \<and> (t \<noteq> [] \<or> (f \<noteq> [] \<and> f \<noteq> [slash, hash_sign])) \<longrightarrow>
        match_suffix (Some c) f t =
          (hd (split_levels f) = hd (split_levels t)
           \<and> levels_match (tl (split_levels t)) (tl (split_levels f))))
     \<and> (hd (split_levels f) = [] \<and> wf_levels (tl (split_levels f)) \<and> hd (split_levels t) = []
        \<and> \<not> (f = [] \<and> t = []) \<longrightarrow>
        match_suffix (Some plus_sign) f t
          = levels_match (tl (split_levels t)) (tl (split_levels f)))"
  using assms
proof (induction "length f" arbitrary: f t rule: less_induct)
  case less
  show ?case
  proof (cases f)
    case Nil
    then show ?thesis by (cases t) (auto simp: split_levels_eq_sing)
  next
    case (Cons x f')
    have len: "length f' < length f" using Cons by simp
    have slash_step: "match_suffix prev (slash # f') (slash # t')
        = levels_match (split_levels t') (split_levels f')"
      if "wf_levels (split_levels f')" "plain_level t'" for prev t'
      using less.hyps [OF len that(2)] that(1) by (auto simp: match_suffix_eq_step)
    have plain_step: "match_suffix prev (c # f') (c # t')
        = (hd (split_levels f') = hd (split_levels t')
           \<and> levels_match (tl (split_levels t')) (tl (split_levels f')))"
      if "plain_level (hd (split_levels f'))" "wf_levels (tl (split_levels f'))" "c \<noteq> plus_sign"
        "c \<noteq> slash" "plain_level t'" for prev c t'
      using less.hyps [OF len that(5)] that(1-4) by (auto simp: match_suffix_eq_step)
    consider (eq) t' where "t = x # t'" | (neq) "t = [] \<or> x \<noteq> hd t" by (cases t) auto
    then show ?thesis
    proof cases
      case eq
      then have t': "plain_level t'" and x: "\<not> wildcard x" using less.prems by auto
      show ?thesis
      proof (cases "x = slash")
        case True
        then show ?thesis using slash_step t' unfolding Cons eq by auto
      next
        case False
        then show ?thesis using plain_step [OF _ _ _ False t'] x unfolding Cons eq
          by (auto simp: level_ok_Cons)
      qed
    next
      case neq
      note step = match_suffix_neq_step [OF neq]
      let ?t = "dropWhile (\<lambda>c. c \<noteq> slash) t"
      consider (plus) "x = plus_sign" | (hash) "x = hash_sign" | (slash) "x = slash"
        | (other) "\<not> wildcard x" "x \<noteq> slash" by blast
      then show ?thesis
      proof cases
        case plus
        have "plain_level ?t" using less.prems by (auto dest: set_dropWhileD)
        moreover have "hd (split_levels ?t) = []" by (induction t) auto
        ultimately have C: "match_suffix (Some plus_sign) f' ?t
            = levels_match (tl (split_levels t)) (tl (split_levels f'))"
          if "hd (split_levels f') = []" "wf_levels (tl (split_levels f'))" "\<not> (?t = [] \<and> f' = [])"
          using less.hyps [OF len, of ?t] that by (auto simp: tl_split_dropWhile)
        have "match_suffix prev f t = levels_match (split_levels t) (split_levels f)"
          if "wf_levels (split_levels f)" for prev
        proof (cases "?t = [] \<and> f' = []")
          case True
          then have "split_levels t = [t]" by (auto intro: split_levels_sing)
          with True plus show ?thesis unfolding Cons step by simp
        next
          case False
          with that plus have "match_suffix prev f t
              = levels_match (tl (split_levels t)) (tl (split_levels f'))"
            unfolding Cons step Let_def
            using C by (auto simp: level_ok_Cons simp del: dropWhile_eq_Nil_conv)
          with that plus Cons show ?thesis
            by (cases "split_levels t") (auto simp: level_ok_Cons)
        qed
        then show ?thesis using plus Cons by auto
      next
        case hash
        then show ?thesis unfolding Cons step by (auto simp: level_ok_Cons)
      next
        case slash
        then show ?thesis using neq unfolding Cons step
          by (cases t) (auto simp: split_levels_eq_hash)
      next
        case other
        then show ?thesis using neq unfolding Cons step
          by (cases t) auto
      qed
    qed
  qed
qed

text \<open>
  C11. For a well-formed filter and a topic name without wildcards, the byte-wise matcher with its two
  cursors decides the level-wise matching rule of MQTT, system topics kept apart.
\<close>

theorem TopicMatch_levels:
  assumes "wf_filter topicFilter" and "plain_level topic" and "topic \<noteq> []"
  shows "TopicMatch topic topicFilter \<longleftrightarrow> topic_matches topic topicFilter"
proof -
  have f: "topicFilter \<noteq> []" "wf_levels (split_levels topicFilter)"
    using assms(1) by (auto simp: wf_filter_def)
  have "TopicMatch_loop topic topicFilter 0 0
      = levels_match (split_levels topic) (split_levels topicFilter)"
    using match_suffix_levels [OF assms(2), of topicFilter] f assms(3)
      TopicMatch_loop_suffix [of 0 topicFilter 0 topic] by simp
  then show ?thesis
    using f(1) assms(3) by (auto simp: TopicMatch_def topic_matches_def isSystemTopic_def Suc_le_eq)
qed

theorem TopicMatch_levels_witness: "TopicMatch [0x61, 0x2F, 0x62] [0x61, 0x2F, 0x23]"
  using TopicMatch_levels [of "[0x61, 0x2F, 0x23]" "[0x61, 0x2F, 0x62]"]
  by (simp add: wf_filter_def level_ok_def topic_matches_def isSystemTopic_def)

section \<open>Shared subscriptions\<close>

lemma takeWhile_slash:
  "slash \<notin> set a \<Longrightarrow> takeWhile (\<lambda>c. c \<noteq> slash) (a @ slash # b) = a"
  "slash \<notin> set a \<Longrightarrow> dropWhile (\<lambda>c. c \<noteq> slash) (a @ slash # b) = slash # b"
  by (induction a) auto

lemma slash_split:
  "slash \<in> set s \<Longrightarrow> s = takeWhile (\<lambda>c. c \<noteq> slash) s @ slash # tl (dropWhile (\<lambda>c. c \<noteq> slash) s)"
  by (induction s) auto

lemma ValidV5Topic_share_span:
  "ValidUTF8 p \<Longrightarrow> ValidV5Topic_share p \<longleftrightarrow>
     slash \<in> set p \<and> plain_level (takeWhile (\<lambda>c. c \<noteq> slash) p)
     \<and> ValidTopicFilter True (tl (dropWhile (\<lambda>c. c \<noteq> slash) p))"
proof (induction p rule: ValidUTF8_induct)
  case Nil
  show ?case by (simp add: ValidV5Topic_share.simps)
next
  case (Ascii c q)
  then show ?case by (subst ValidV5Topic_share.simps) auto
next
  case (Multi r c cs q)
  then have h: "\<forall>b\<in>set (c # cs). b \<noteq> slash \<and> \<not> wildcard b" using high_byte_plain by blast
  have "ValidV5Topic_share (c # cs @ q) = ValidV5Topic_share q"
    using Multi by (subst ValidV5Topic_share.simps) simp
  moreover have "takeWhile (\<lambda>c. c \<noteq> slash) (c # cs @ q) = c # cs @ takeWhile (\<lambda>c. c \<noteq> slash) q"
    "dropWhile (\<lambda>c. c \<noteq> slash) (c # cs @ q) = dropWhile (\<lambda>c. c \<noteq> slash) q"
    using h by (simp_all add: takeWhile_append2 dropWhile_append2)
  ultimately show ?case using Multi h by auto
qed

lemma ValidV5Topic_share_char:
  assumes "ValidUTF8 p"
  shows "ValidV5Topic_share p \<longleftrightarrow>
     (\<exists>name f. p = name @ slash # f \<and> slash \<notin> set name \<and> plain_level name \<and> ValidTopicFilter True f)"
    (is "_ \<longleftrightarrow> ?R")
proof
  assume "ValidV5Topic_share p"
  then have "slash \<in> set p" "plain_level (takeWhile (\<lambda>c. c \<noteq> slash) p)"
    "ValidTopicFilter True (tl (dropWhile (\<lambda>c. c \<noteq> slash) p))"
    using ValidV5Topic_share_span [OF assms] by auto
  moreover have "slash \<notin> set (takeWhile (\<lambda>c. c \<noteq> slash) p)" by (auto dest: set_takeWhileD)
  ultimately show ?R using slash_split [of p] by blast
next
  assume ?R
  then show "ValidV5Topic_share p" unfolding ValidV5Topic_share_span [OF assms]
    by (auto simp: takeWhile_slash)
qed

lemma HasPrefix_iff: "HasPrefix s p \<longleftrightarrow> (\<exists>q. s = p @ q)"
  unfolding HasPrefix_def by (metis append_eq_conv_conj append_take_drop_id)

lemma share_prefix_length [simp]: "length share_prefix = 7"
  by (simp add: share_prefix_def)

lemma ValidUTF8_share_prefix: "ValidUTF8 (share_prefix @ q) = ValidUTF8 q"
proof -
  have "share_prefix @ q = utf8_EncodeRune 0x24 @ utf8_EncodeRune 0x73 @ utf8_EncodeRune 0x68
      @ utf8_EncodeRune 0x61 @ utf8_EncodeRune 0x72 @ utf8_EncodeRune 0x65 @ utf8_EncodeRune 0x2F @ q"
    by (simp add: share_prefix_def utf8_EncodeRune_def utf8_encode_def)
  then show ?thesis
    by (simp only:) (simp add: ValidUTF8_cons_rune allowedRune_def utf8_ValidRune_def RuneError_def)
qed

lemma ValidV5Topic_char:
  assumes "ValidUTF8 p"
  shows "ValidV5Topic p \<longleftrightarrow>
    (if HasPrefix p share_prefix
     then \<exists>name f. p = share_prefix @ name @ slash # f \<and> name \<noteq> [] \<and> slash \<notin> set name
            \<and> plain_level name \<and> ValidTopicFilter True f
     else ValidTopicFilter True p)"
proof (cases "HasPrefix p share_prefix")
  case True
  then obtain q where p: "p = share_prefix @ q" by (auto simp: HasPrefix_iff)
  have q: "ValidUTF8 q" using assms by (simp add: p ValidUTF8_share_prefix)
  have sh: "ValidV5Topic p \<longleftrightarrow> 2 \<le> length q \<and> q ! 0 \<noteq> slash \<and> ValidV5Topic_share q"
    using True by (auto simp: ValidV5Topic_def p nth_append)
  have ne: "2 \<le> length q \<and> q ! 0 \<noteq> slash \<longleftrightarrow> name \<noteq> []"
    if "q = name @ slash # f" "slash \<notin> set name" "ValidTopicFilter True f" for name f
    using that by (cases name) (auto simp: ValidTopicFilter_def)
  show ?thesis unfolding sh ValidV5Topic_share_char [OF q]
    unfolding if_P [OF True] unfolding p append_same_eq same_append_eq
    using ne by (intro iffI; elim exE conjE) (metis, metis)
next
  case False
  then show ?thesis by (auto simp: ValidV5Topic_def ValidTopicFilter_def)
qed

lemma SplitN_three:
  assumes "slash \<notin> set a" and "slash \<notin> set b"
  shows "SplitN (a @ slash # b @ slash # c) 3 = [a, b, c]"
  using assms by (simp add: numeral_3_eq_3 takeWhile_slash)

lemma SplitTopic_share:
  assumes "slash \<notin> set name"
  shows "SplitTopic (share_prefix @ name @ slash # f) = (name, f)"
proof -
  let ?d = "[0x24, 0x73, 0x68, 0x61, 0x72, 0x65] :: bytes"
  have "share_prefix @ name @ slash # f = ?d @ slash # name @ slash # f"
    by (simp add: share_prefix_def)
  moreover have "SplitN (?d @ slash # name @ slash # f) 3 = [?d, name, f]"
    using assms by (intro SplitN_three) auto
  ultimately have "SplitN (share_prefix @ name @ slash # f) 3 = [?d, name, f]" by (simp only:)
  then show ?thesis by (simp add: SplitTopic_def HasPrefix_def)
qed

text \<open>
  Splitting the full name of a subscription gives back its share name and filter.
\<close>

lemma SplitTopic_GetFullTopicName:
  assumes "slash \<notin> set name" and "name = [] \<Longrightarrow> \<not> HasPrefix f share_prefix"
  shows "SplitTopic (GetFullTopicName name f) = (name, f)"
proof (cases "name = []")
  case True
  with assms show ?thesis by (simp add: GetFullTopicName_def SplitTopic_def)
next
  case False
  with SplitTopic_share [OF assms(1)] show ?thesis by (simp add: GetFullTopicName_def)
qed

lemma SplitTopic_GetFullTopicName_witness:
  "SplitTopic (GetFullTopicName [0x67] [0x61]) = ([0x67], [0x61])"
  using SplitTopic_GetFullTopicName [of "[0x67]" "[0x61]"] by simp

text \<open>
  A valid version 5 filter is the full name of the share name and filter it is split into.
\<close>

lemma GetFullTopicName_SplitTopic:
  assumes "ValidUTF8 p" and "ValidV5Topic p"
  shows "(case SplitTopic p of (name, f) \<Rightarrow> GetFullTopicName name f) = p"
proof (cases "HasPrefix p share_prefix")
  case True
  with assms obtain name f where "p = share_prefix @ name @ slash # f" "name \<noteq> []" "slash \<notin> set name"
    by (auto simp: ValidV5Topic_char)
  then show ?thesis by (simp add: SplitTopic_share GetFullTopicName_def)
next
  case False
  then show ?thesis by (simp add: SplitTopic_def GetFullTopicName_def)
qed

lemma GetFullTopicName_SplitTopic_witness:
  "(case SplitTopic (share_prefix @ [0x67, 0x2F, 0x61]) of (name, f) \<Rightarrow> GetFullTopicName name f)
     = share_prefix @ [0x67, 0x2F, 0x61]"
proof -
  have u: "ValidUTF8 (share_prefix @ [0x67, 0x2F, 0x61])" by (simp add: ValidUTF8_ascii share_prefix_def)
  have f: "ValidTopicFilter True [0x61]"
    by (simp add: ValidTopicFilter_def ValidTopicFilter_loop.simps utf8_DecodeRune_def utf8_decode_defs)
  have "ValidV5Topic (share_prefix @ [0x67, 0x2F, 0x61])"
    unfolding ValidV5Topic_char [OF u] HasPrefix_def
    by (simp, rule exI [of _ "[0x67]"], rule exI [of _ "[0x61]"], simp add: f)
  with u show ?thesis by (rule GetFullTopicName_SplitTopic)
qed

end
