(* ===== verification/Props.thy ===== *)
theory Props
  imports Wire Topics
begin

text \<open>
  \<^verbatim>\<open>gmqtt/pkg/packets/properties.go\<close>: the property block of MQTT 5 packets and of the will,
  its writers \<^verbatim>\<open>Pack\<close>, \<^verbatim>\<open>PackWillProperties\<close> and its readers \<^verbatim>\<open>Unpack\<close>, \<^verbatim>\<open>UnpackWillProperties\<close>.

  A pointer field is an option, and a \<^verbatim>\<open>[]byte\<close> field that the code compares with \<^verbatim>\<open>nil\<close> is an
  option of a byte list.  A reader that fails leaves nothing of the struct to its caller, so an
  error carries no \<open>Properties\<close>.  The two reading loops satisfy the locale \<open>prop_loop\<close>, in
  which the step \<open>field_step\<close> of the round trip is proved once.
\<close>

section \<open>Packet types and property identifiers\<close>

abbreviation (input) RESERVED :: byte where "RESERVED \<equiv> 0"
abbreviation (input) CONNECT :: byte where "CONNECT \<equiv> 1"
abbreviation (input) CONNACK :: byte where "CONNACK \<equiv> 2"
abbreviation (input) PUBLISH :: byte where "PUBLISH \<equiv> 3"
abbreviation (input) PUBACK :: byte where "PUBACK \<equiv> 4"
abbreviation (input) PUBREC :: byte where "PUBREC \<equiv> 5"
abbreviation (input) PUBREL :: byte where "PUBREL \<equiv> 6"
abbreviation (input) PUBCOMP :: byte where "PUBCOMP \<equiv> 7"
abbreviation (input) SUBSCRIBE :: byte where "SUBSCRIBE \<equiv> 8"
abbreviation (input) SUBACK :: byte where "SUBACK \<equiv> 9"
abbreviation (input) UNSUBSCRIBE :: byte where "UNSUBSCRIBE \<equiv> 10"
abbreviation (input) UNSUBACK :: byte where "UNSUBACK \<equiv> 11"
abbreviation (input) PINGREQ :: byte where "PINGREQ \<equiv> 12"
abbreviation (input) PINGRESP :: byte where "PINGRESP \<equiv> 13"
abbreviation (input) DISCONNECT :: byte where "DISCONNECT \<equiv> 14"
abbreviation (input) AUTH :: byte where "AUTH \<equiv> 15"

abbreviation (input) PropPayloadFormat :: byte where "PropPayloadFormat \<equiv> 0x01"
abbreviation (input) PropMessageExpiry :: byte where "PropMessageExpiry \<equiv> 0x02"
abbreviation (input) PropContentType :: byte where "PropContentType \<equiv> 0x03"
abbreviation (input) PropResponseTopic :: byte where "PropResponseTopic \<equiv> 0x08"
abbreviation (input) PropCorrelationData :: byte where "PropCorrelationData \<equiv> 0x09"
abbreviation (input) PropSubscriptionIdentifier :: byte where "PropSubscriptionIdentifier \<equiv> 0x0B"
abbreviation (input) PropSessionExpiryInterval :: byte where "PropSessionExpiryInterval \<equiv> 0x11"
abbreviation (input) PropAssignedClientID :: byte where "PropAssignedClientID \<equiv> 0x12"
abbreviation (input) PropServerKeepAlive :: byte where "PropServerKeepAlive \<equiv> 0x13"
abbreviation (input) PropAuthMethod :: byte where "PropAuthMethod \<equiv> 0x15"
abbreviation (input) PropAuthData :: byte where "PropAuthData \<equiv> 0x16"
abbreviation (input) PropRequestProblemInfo :: byte where "PropRequestProblemInfo \<equiv> 0x17"
abbreviation (input) PropWillDelayInterval :: byte where "PropWillDelayInterval \<equiv> 0x18"
abbreviation (input) PropRequestResponseInfo :: byte where "PropRequestResponseInfo \<equiv> 0x19"
abbreviation (input) PropResponseInfo :: byte where "PropResponseInfo \<equiv> 0x1A"
abbreviation (input) PropServerReference :: byte where "PropServerReference \<equiv> 0x1C"
abbreviation (input) PropReasonString :: byte where "PropReasonString \<equiv> 0x1F"
abbreviation (input) PropReceiveMaximum :: byte where "PropReceiveMaximum \<equiv> 0x21"
abbreviation (input) PropTopicAliasMaximum :: byte where "PropTopicAliasMaximum \<equiv> 0x22"
abbreviation (input) PropTopicAlias :: byte where "PropTopicAlias \<equiv> 0x23"
abbreviation (input) PropMaximumQoS :: byte where "PropMaximumQoS \<equiv> 0x24"
abbreviation (input) PropRetainAvailable :: byte where "PropRetainAvailable \<equiv> 0x25"
abbreviation (input) PropUser :: byte where "PropUser \<equiv> 0x26"
abbreviation (input) PropMaximumPacketSize :: byte where "PropMaximumPacketSize \<equiv> 0x27"
abbreviation (input) PropWildcardSubAvailable :: byte where "PropWildcardSubAvailable \<equiv> 0x28"
abbreviation (input) PropSubIDAvailable :: byte where "PropSubIDAvailable \<equiv> 0x29"
abbreviation (input) PropSharedSubAvailable :: byte where "PropSharedSubAvailable \<equiv> 0x2A"

abbreviation (input) TopicAliasInvalid :: byte where "TopicAliasInvalid \<equiv> 0x94"

section \<open>The struct\<close>

record UserProperty =
  UserK :: bytes
  UserV :: bytes

record Properties =
  PayloadFormat :: "byte option"
  MessageExpiry :: "uint32 option"
  ContentType :: "bytes option"
  ResponseTopic :: "bytes option"
  CorrelationData :: "bytes option"
  SubscriptionIdentifier :: "uint32 list"
  SessionExpiryInterval :: "uint32 option"
  AssignedClientID :: "bytes option"
  ServerKeepAlive :: "uint16 option"
  AuthMethod :: "bytes option"
  AuthData :: "bytes option"
  RequestProblemInfo :: "byte option"
  WillDelayInterval :: "uint32 option"
  RequestResponseInfo :: "byte option"
  ResponseInfo :: "bytes option"
  ServerReference :: "bytes option"
  ReasonString :: "bytes option"
  ReceiveMaximum :: "uint16 option"
  TopicAliasMaximum :: "uint16 option"
  TopicAlias :: "uint16 option"
  MaximumQoS :: "byte option"
  RetainAvailable :: "byte option"
  User :: "UserProperty list"
  MaximumPacketSize :: "uint32 option"
  WildcardSubAvailable :: "byte option"
  SubIDAvailable :: "byte option"
  SharedSubAvailable :: "byte option"

text \<open>The zero value of the struct.\<close>

definition Properties_zero :: Properties where
  "Properties_zero = \<lparr>PayloadFormat = None, MessageExpiry = None, ContentType = None
    , ResponseTopic = None, CorrelationData = None, SubscriptionIdentifier = []
    , SessionExpiryInterval = None, AssignedClientID = None, ServerKeepAlive = None
    , AuthMethod = None, AuthData = None, RequestProblemInfo = None
    , WillDelayInterval = None, RequestResponseInfo = None, ResponseInfo = None
    , ServerReference = None, ReasonString = None, ReceiveMaximum = None
    , TopicAliasMaximum = None, TopicAlias = None, MaximumQoS = None
    , RetainAvailable = None, User = [], MaximumPacketSize = None
    , WildcardSubAvailable = None, SubIDAvailable = None, SharedSubAvailable = None\<rparr>"

text \<open>\<^verbatim>\<open>ValidProperties\<close>: the packet types a property may appear in.\<close>

definition ValidProperties :: "(byte \<times> byte list) list" where
  "ValidProperties = [(PropPayloadFormat, [CONNECT, PUBLISH]),
    (PropMessageExpiry, [CONNECT, PUBLISH]),
    (PropContentType, [CONNECT, PUBLISH]),
    (PropResponseTopic, [CONNECT, PUBLISH]),
    (PropCorrelationData, [CONNECT, PUBLISH]),
    (PropSubscriptionIdentifier, [SUBSCRIBE]),
    (PropSessionExpiryInterval, [CONNECT, CONNACK, DISCONNECT]),
    (PropAssignedClientID, [CONNACK]),
    (PropServerKeepAlive, [CONNACK]),
    (PropAuthMethod, [CONNECT, CONNACK, AUTH]),
    (PropAuthData, [CONNECT, CONNACK, AUTH]),
    (PropRequestProblemInfo, [CONNECT]),
    (PropWillDelayInterval, [CONNECT]),
    (PropRequestResponseInfo, [CONNECT]),
    (PropResponseInfo, [CONNACK]),
    (PropServerReference, [CONNACK, DISCONNECT]),
    (PropReasonString, [CONNACK, PUBACK, PUBREC, PUBREL, PUBCOMP, SUBACK, UNSUBACK, DISCONNECT, AUTH]),
    (PropReceiveMaximum, [CONNECT, CONNACK]),
    (PropTopicAliasMaximum, [CONNECT, CONNACK]),
    (PropTopicAlias, [PUBLISH]),
    (PropMaximumQoS, [CONNACK]),
    (PropRetainAvailable, [CONNACK]),
    (PropUser, [CONNECT, CONNACK, PUBLISH, PUBACK, PUBREC, PUBREL, PUBCOMP, SUBSCRIBE, UNSUBSCRIBE, SUBACK, UNSUBACK, DISCONNECT, AUTH]),
    (PropMaximumPacketSize, [CONNECT, CONNACK]),
    (PropWildcardSubAvailable, [CONNACK]),
    (PropSubIDAvailable, [CONNACK]),
    (PropSharedSubAvailable, [CONNACK])]"

definition ValidateID :: "byte \<Rightarrow> byte \<Rightarrow> bool" where
  "ValidateID packetType i =
     (case map_of ValidProperties i of None \<Rightarrow> False | Some pts \<Rightarrow> packetType \<in> set pts)"

section \<open>Reading one property\<close>

definition propertyReadBool :: "byte option \<Rightarrow> bytes \<Rightarrow> byte \<Rightarrow> (byte \<times> bytes) res" where
  "propertyReadBool i r propType =
     (if i \<noteq> None then Inl ErrProtocol
      else case ReadByte r of Inl _ \<Rightarrow> Inl ErrMalformed
      | Inr (o1, r') \<Rightarrow> if o1 \<noteq> 0 \<and> o1 \<noteq> 1 then Inl ErrProtocol else Inr (o1, r'))"

definition propertyReadUint32 ::
    "uint32 option \<Rightarrow> bytes \<Rightarrow> byte \<Rightarrow> (uint32 \<Rightarrow> bool) \<Rightarrow> (uint32 \<times> bytes) res" where
  "propertyReadUint32 i r propType validate =
     (if i \<noteq> None then Inl (ErrMorethanOnce propType)
      else case readUint32 r of Inl _ \<Rightarrow> Inl ErrMalformed
      | Inr (o1, r') \<Rightarrow> if \<not> validate o1 then Inl ErrProtocol else Inr (o1, r'))"

definition propertyReadUint16 ::
    "uint16 option \<Rightarrow> bytes \<Rightarrow> byte \<Rightarrow> (uint16 \<Rightarrow> bool) \<Rightarrow> (uint16 \<times> bytes) res" where
  "propertyReadUint16 i r propType validate =
     (if i \<noteq> None then Inl ErrProtocol
      else case readUint16 r of Inl _ \<Rightarrow> Inl ErrMalformed
      | Inr (o1, r') \<Rightarrow> if \<not> validate o1 then Inl ErrProtocol else Inr (o1, r'))"

definition propertyReadUTF8String ::
    "bytes option \<Rightarrow> bytes \<Rightarrow> byte \<Rightarrow> (bytes \<Rightarrow> bool) \<Rightarrow> (bytes \<times> bytes) res" where
  "propertyReadUTF8String i r propType validate =
     (if i \<noteq> None then Inl (ErrMorethanOnce propType)
      else rbind (readUTF8String True r)
        (\<lambda>(o1, r'). if \<not> validate o1 then Inl ErrProtocol else Inr (o1, r')))"

definition propertyReadBinary ::
    "bytes option \<Rightarrow> bytes \<Rightarrow> byte \<Rightarrow> (bytes \<Rightarrow> bool) \<Rightarrow> (bytes \<times> bytes) res" where
  "propertyReadBinary i r propType validate =
     (if i \<noteq> None then Inl (ErrMorethanOnce propType)
      else case readUTF8String False r of Inl _ \<Rightarrow> Inl ErrMalformed
      | Inr (o1, r') \<Rightarrow> if \<not> validate o1 then Inl ErrProtocol else Inr (o1, r'))"

text \<open>The \<^verbatim>\<open>PropUser\<close> and \<^verbatim>\<open>PropSubscriptionIdentifier\<close> cases of the switches.\<close>

definition readUserProperty :: "Properties \<Rightarrow> bytes \<Rightarrow> (Properties \<times> bytes) res" where
  "readUserProperty p r =
     (case readUTF8String True r of Inl _ \<Rightarrow> Inl ErrMalformed
      | Inr (k, r1) \<Rightarrow>
        (case readUTF8String True r1 of Inl _ \<Rightarrow> Inl ErrMalformed
         | Inr (v, r2) \<Rightarrow> Inr (p\<lparr>User := User p @ [\<lparr>UserK = k, UserV = v\<rparr>]\<rparr>, r2)))"

definition readSubscriptionIdentifier :: "Properties \<Rightarrow> bytes \<Rightarrow> (Properties \<times> bytes) res" where
  "readSubscriptionIdentifier p r =
     (if length (SubscriptionIdentifier p) \<noteq> 0 then Inl ErrProtocol
      else case EncodeRemainLength r of Inl _ \<Rightarrow> Inl ErrMalformed
      | Inr (si, r') \<Rightarrow>
          if si = 0 then Inl ErrProtocol
          else Inr (p\<lparr>SubscriptionIdentifier := SubscriptionIdentifier p @ [word_of_nat si]\<rparr>, r'))"

section \<open>Writing one property\<close>

definition propertyWriteByte :: "byte \<Rightarrow> byte option \<Rightarrow> bytes" where
  "propertyWriteByte t i = (case i of None \<Rightarrow> [] | Some b \<Rightarrow> [t, b])"

definition propertyWriteUint16 :: "byte \<Rightarrow> uint16 option \<Rightarrow> bytes" where
  "propertyWriteUint16 t i = (case i of None \<Rightarrow> [] | Some u \<Rightarrow> t # writeUint16 u)"

definition propertyWriteUint32 :: "byte \<Rightarrow> uint32 option \<Rightarrow> bytes" where
  "propertyWriteUint32 t i = (case i of None \<Rightarrow> [] | Some u \<Rightarrow> t # writeUint32 u)"

definition propertyWriteString :: "byte \<Rightarrow> bytes option \<Rightarrow> bytes" where
  "propertyWriteString t i = (case i of None \<Rightarrow> [] | Some b \<Rightarrow> t # writeBinary b)"

text \<open>The two \<^verbatim>\<open>range\<close> loops of \<^verbatim>\<open>Pack\<close>; an error of \<^verbatim>\<open>DecodeRemainLength\<close> is dropped by the code.\<close>

definition lengthBytes :: "int \<Rightarrow> bytes" where
  "lengthBytes n = (case DecodeRemainLength n of Inl _ \<Rightarrow> [] | Inr b \<Rightarrow> b)"

definition writeSubscriptionIdentifiers :: "uint32 list \<Rightarrow> bytes" where
  "writeSubscriptionIdentifiers ids =
     concat (map (\<lambda>v. PropSubscriptionIdentifier # lengthBytes (uint v)) ids)"

definition writeUserProperties :: "UserProperty list \<Rightarrow> bytes" where
  "writeUserProperties us =
     concat (map (\<lambda>v. PropUser # writeBinary (UserK v) @ writeBinary (UserV v)) us)"

section \<open>Pack and Unpack\<close>

definition Properties_Pack_body :: "Properties \<Rightarrow> bytes" where
  "Properties_Pack_body p =
     propertyWriteByte PropPayloadFormat (PayloadFormat p) @
     propertyWriteUint32 PropMessageExpiry (MessageExpiry p) @
     propertyWriteString PropContentType (ContentType p) @
     propertyWriteString PropResponseTopic (ResponseTopic p) @
     propertyWriteString PropCorrelationData (CorrelationData p) @
     writeSubscriptionIdentifiers (SubscriptionIdentifier p) @
     propertyWriteUint32 PropSessionExpiryInterval (SessionExpiryInterval p) @
     propertyWriteString PropAssignedClientID (AssignedClientID p) @
     propertyWriteUint16 PropServerKeepAlive (ServerKeepAlive p) @
     propertyWriteString PropAuthMethod (AuthMethod p) @
     propertyWriteString PropAuthData (AuthData p) @
     propertyWriteByte PropRequestProblemInfo (RequestProblemInfo p) @
     propertyWriteUint32 PropWillDelayInterval (WillDelayInterval p) @
     propertyWriteByte PropRequestResponseInfo (RequestResponseInfo p) @
     propertyWriteString PropResponseInfo (ResponseInfo p) @
     propertyWriteString PropServerReference (ServerReference p) @
     propertyWriteString PropReasonString (ReasonString p) @
     propertyWriteUint16 PropReceiveMaximum (ReceiveMaximum p) @
     propertyWriteUint16 PropTopicAliasMaximum (TopicAliasMaximum p) @
     propertyWriteUint16 PropTopicAlias (TopicAlias p) @
     propertyWriteByte PropMaximumQoS (MaximumQoS p) @
     propertyWriteByte PropRetainAvailable (RetainAvailable p) @
     writeUserProperties (User p) @
     propertyWriteUint32 PropMaximumPacketSize (MaximumPacketSize p) @
     propertyWriteByte PropWildcardSubAvailable (WildcardSubAvailable p) @
     propertyWriteByte PropSubIDAvailable (SubIDAvailable p) @
     propertyWriteByte PropSharedSubAvailable (SharedSubAvailable p)"

definition Properties_Pack :: "Properties option \<Rightarrow> byte \<Rightarrow> bytes" where
  "Properties_Pack p packetType =
     (let newBufw = (case p of None \<Rightarrow> [] | Some p \<Rightarrow> Properties_Pack_body p) in
      lengthBytes (int (length newBufw)) @ newBufw)"

definition Properties_PackWill_body :: "Properties \<Rightarrow> bytes" where
  "Properties_PackWill_body p =
     propertyWriteByte PropPayloadFormat (PayloadFormat p) @
     propertyWriteUint32 PropMessageExpiry (MessageExpiry p) @
     propertyWriteString PropContentType (ContentType p) @
     propertyWriteString PropResponseTopic (ResponseTopic p) @
     propertyWriteString PropCorrelationData (CorrelationData p) @
     propertyWriteUint32 PropWillDelayInterval (WillDelayInterval p) @
     writeUserProperties (User p)"

definition Properties_PackWillProperties :: "Properties option \<Rightarrow> bytes" where
  "Properties_PackWillProperties p =
     (let newBufw = (case p of None \<Rightarrow> [] | Some p \<Rightarrow> Properties_PackWill_body p) in
      lengthBytes (int (length newBufw)) @ newBufw)"

definition Properties_switch :: "byte \<Rightarrow> Properties \<Rightarrow> bytes \<Rightarrow> (Properties \<times> bytes) res" where
  "Properties_switch propType p r =
     (if propType = PropPayloadFormat then
        rbind (propertyReadBool (PayloadFormat p) r propType)
          (\<lambda>(v, r'). Inr (p\<lparr>PayloadFormat := Some v\<rparr>, r'))
      else if propType = PropMessageExpiry then
        rbind (propertyReadUint32 (MessageExpiry p) r propType (\<lambda>_. True))
          (\<lambda>(v, r'). Inr (p\<lparr>MessageExpiry := Some v\<rparr>, r'))
      else if propType = PropContentType then
        rbind (propertyReadUTF8String (ContentType p) r propType (\<lambda>_. True))
          (\<lambda>(v, r'). Inr (p\<lparr>ContentType := Some v\<rparr>, r'))
      else if propType = PropResponseTopic then
        rbind (propertyReadUTF8String (ResponseTopic p) r propType (ValidTopicName True))
          (\<lambda>(v, r'). Inr (p\<lparr>ResponseTopic := Some v\<rparr>, r'))
      else if propType = PropCorrelationData then
        rbind (propertyReadBinary (CorrelationData p) r propType (\<lambda>_. True))
          (\<lambda>(v, r'). Inr (p\<lparr>CorrelationData := Some v\<rparr>, r'))
      else if propType = PropSubscriptionIdentifier then
        readSubscriptionIdentifier p r
      else if propType = PropSessionExpiryInterval then
        rbind (propertyReadUint32 (SessionExpiryInterval p) r propType (\<lambda>_. True))
          (\<lambda>(v, r'). Inr (p\<lparr>SessionExpiryInterval := Some v\<rparr>, r'))
      else if propType = PropAssignedClientID then
        rbind (propertyReadUTF8String (AssignedClientID p) r propType (\<lambda>_. True))
          (\<lambda>(v, r'). Inr (p\<lparr>AssignedClientID := Some v\<rparr>, r'))
      else if propType = PropServerKeepAlive then
        rbind (propertyReadUint16 (ServerKeepAlive p) r propType (\<lambda>_. True))
          (\<lambda>(v, r'). Inr (p\<lparr>ServerKeepAlive := Some v\<rparr>, r'))
      else if propType = PropAuthMethod then
        rbind (propertyReadUTF8String (AuthMethod p) r propType (\<lambda>_. True))
          (\<lambda>(v, r'). Inr (p\<lparr>AuthMethod := Some v\<rparr>, r'))
      else if propType = PropAuthData then
        rbind (propertyReadUTF8String (AuthData p) r propType (\<lambda>_. True))
          (\<lambda>(v, r'). Inr (p\<lparr>AuthData := Some v\<rparr>, r'))
      else if propType = PropRequestProblemInfo then
        rbind (propertyReadBool (RequestProblemInfo p) r propType)
          (\<lambda>(v, r'). Inr (p\<lparr>RequestProblemInfo := Some v\<rparr>, r'))
      else if propType = PropWillDelayInterval then
        rbind (propertyReadUint32 (WillDelayInterval p) r propType (\<lambda>_. True))
          (\<lambda>(v, r'). Inr (p\<lparr>WillDelayInterval := Some v\<rparr>, r'))
      else if propType = PropRequestResponseInfo then
        rbind (propertyReadBool (RequestResponseInfo p) r propType)
          (\<lambda>(v, r'). Inr (p\<lparr>RequestResponseInfo := Some v\<rparr>, r'))
      else if propType = PropResponseInfo then
        rbind (propertyReadUTF8String (ResponseInfo p) r propType (\<lambda>_. True))
          (\<lambda>(v, r'). Inr (p\<lparr>ResponseInfo := Some v\<rparr>, r'))
      else if propType = PropServerReference then
        rbind (propertyReadUTF8String (ServerReference p) r propType (\<lambda>_. True))
          (\<lambda>(v, r'). Inr (p\<lparr>ServerReference := Some v\<rparr>, r'))
      else if propType = PropReasonString then
        rbind (propertyReadUTF8String (ReasonString p) r propType (\<lambda>_. True))
          (\<lambda>(v, r'). Inr (p\<lparr>ReasonString := Some v\<rparr>, r'))
      else if propType = PropReceiveMaximum then
        rbind (propertyReadUint16 (ReceiveMaximum p) r propType (\<lambda>u. u \<noteq> 0))
          (\<lambda>(v, r'). Inr (p\<lparr>ReceiveMaximum := Some v\<rparr>, r'))
      else if propType = PropTopicAliasMaximum then
        rbind (propertyReadUint16 (TopicAliasMaximum p) r propType (\<lambda>_. True))
          (\<lambda>(v, r'). Inr (p\<lparr>TopicAliasMaximum := Some v\<rparr>, r'))
      else if propType = PropTopicAlias then
        rbind (propertyReadUint16 (TopicAlias p) r propType (\<lambda>_. True))
          (\<lambda>(v, r'). if v = 0 then Inl (CodesErr TopicAliasInvalid) else Inr (p\<lparr>TopicAlias := Some v\<rparr>, r'))
      else if propType = PropMaximumQoS then
        rbind (propertyReadBool (MaximumQoS p) r propType)
          (\<lambda>(v, r'). Inr (p\<lparr>MaximumQoS := Some v\<rparr>, r'))
      else if propType = PropRetainAvailable then
        rbind (propertyReadBool (RetainAvailable p) r propType)
          (\<lambda>(v, r'). Inr (p\<lparr>RetainAvailable := Some v\<rparr>, r'))
      else if propType = PropUser then
        readUserProperty p r
      else if propType = PropMaximumPacketSize then
        rbind (propertyReadUint32 (MaximumPacketSize p) r propType (\<lambda>u. u \<noteq> 0))
          (\<lambda>(v, r'). Inr (p\<lparr>MaximumPacketSize := Some v\<rparr>, r'))
      else if propType = PropWildcardSubAvailable then
        rbind (propertyReadBool (WildcardSubAvailable p) r propType)
          (\<lambda>(v, r'). Inr (p\<lparr>WildcardSubAvailable := Some v\<rparr>, r'))
      else if propType = PropSubIDAvailable then
        rbind (propertyReadBool (SubIDAvailable p) r propType)
          (\<lambda>(v, r'). Inr (p\<lparr>SubIDAvailable := Some v\<rparr>, r'))
      else if propType = PropSharedSubAvailable then
        rbind (propertyReadBool (SharedSubAvailable p) r propType)
          (\<lambda>(v, r'). Inr (p\<lparr>SharedSubAvailable := Some v\<rparr>, r'))
      else Inl ErrMalformed)"

definition Properties_will_switch :: "byte \<Rightarrow> Properties \<Rightarrow> bytes \<Rightarrow> (Properties \<times> bytes) res" where
  "Properties_will_switch propType p r =
     (if propType = PropWillDelayInterval then
        rbind (propertyReadUint32 (WillDelayInterval p) r propType (\<lambda>_. True))
          (\<lambda>(v, r'). Inr (p\<lparr>WillDelayInterval := Some v\<rparr>, r'))
      else if propType = PropPayloadFormat then
        rbind (propertyReadBool (PayloadFormat p) r propType)
          (\<lambda>(v, r'). Inr (p\<lparr>PayloadFormat := Some v\<rparr>, r'))
      else if propType = PropMessageExpiry then
        rbind (propertyReadUint32 (MessageExpiry p) r propType (\<lambda>_. True))
          (\<lambda>(v, r'). Inr (p\<lparr>MessageExpiry := Some v\<rparr>, r'))
      else if propType = PropContentType then
        rbind (propertyReadUTF8String (ContentType p) r propType (\<lambda>_. True))
          (\<lambda>(v, r'). Inr (p\<lparr>ContentType := Some v\<rparr>, r'))
      else if propType = PropResponseTopic then
        rbind (propertyReadUTF8String (ResponseTopic p) r propType (ValidTopicName True))
          (\<lambda>(v, r'). Inr (p\<lparr>ResponseTopic := Some v\<rparr>, r'))
      else if propType = PropCorrelationData then
        rbind (propertyReadBinary (CorrelationData p) r propType (\<lambda>_. True))
          (\<lambda>(v, r'). Inr (p\<lparr>CorrelationData := Some v\<rparr>, r'))
      else if propType = PropUser then
        readUserProperty p r
      else Inl ErrMalformed)"

lemma propertyRead_consumes:
  "propertyReadBool i1 r t = Inr (b, r') \<Longrightarrow> length r' \<le> length r"
  "propertyReadUint32 i2 r t val2 = Inr (u, r') \<Longrightarrow> length r' \<le> length r"
  "propertyReadUint16 i3 r t val3 = Inr (w, r') \<Longrightarrow> length r' \<le> length r"
  "propertyReadUTF8String i4 r t val4 = Inr (s, r') \<Longrightarrow> length r' \<le> length r"
  "propertyReadBinary i4 r t val4 = Inr (s, r') \<Longrightarrow> length r' \<le> length r"
  "readUserProperty p r = Inr (p', r') \<Longrightarrow> length r' \<le> length r"
  "readSubscriptionIdentifier p r = Inr (p', r') \<Longrightarrow> length r' \<le> length r"
  by (auto simp: propertyReadBool_def propertyReadUint32_def propertyReadUint16_def
      propertyReadUTF8String_def propertyReadBinary_def readUserProperty_def
      readSubscriptionIdentifier_def rbind_eq_Inr_conv split: if_splits sum.splits prod.splits
      dest!: readUint32_consumes readUint16_consumes readUTF8String_consumes EncodeRemainLength_consumes)

lemma Properties_switch_consumes:
  "Properties_switch t p r = Inr (p', r') \<Longrightarrow> length r' \<le> length r"
  unfolding Properties_switch_def
  by (auto split: if_splits prod.splits elim!: rbind_InrE dest: propertyRead_consumes)

lemma Properties_will_switch_consumes:
  "Properties_will_switch t p r = Inr (p', r') \<Longrightarrow> length r' \<le> length r"
  unfolding Properties_will_switch_def
  by (auto split: if_splits prod.splits elim!: rbind_InrE dest: propertyRead_consumes)

function Properties_Unpack_loop :: "byte \<Rightarrow> Properties \<Rightarrow> bytes \<Rightarrow> Properties res" where
  "Properties_Unpack_loop packetType p [] = Inr p"
| "Properties_Unpack_loop packetType p (propType # r) =
     (if \<not> ValidateID packetType propType then Inl ErrProtocol
      else rbind (Properties_switch propType p r)
        (\<lambda>(p', r'). Properties_Unpack_loop packetType p' r'))"
  by pat_completeness auto
termination
  by (relation "measure (\<lambda>(t, p, r). length r)") (auto dest: Properties_switch_consumes)

definition Properties_Unpack :: "byte \<Rightarrow> Properties \<Rightarrow> bytes \<Rightarrow> (Properties \<times> bytes) res" where
  "Properties_Unpack packetType p bufr =
     rbind (EncodeRemainLength bufr) (\<lambda>(len, bufr1).
       if len = 0 then Inr (p, bufr1)
       else let (newBufr, bufr2) = Next len bufr1 in
         rbind (Properties_Unpack_loop packetType p newBufr) (\<lambda>p'.
           if AuthData p' \<noteq> None \<and> AuthMethod p' = None then Inl ErrMalformed
           else Inr (p', bufr2)))"

function Properties_UnpackWill_loop :: "Properties \<Rightarrow> bytes \<Rightarrow> Properties res" where
  "Properties_UnpackWill_loop p [] = Inr p"
| "Properties_UnpackWill_loop p (propType # r) =
     rbind (Properties_will_switch propType p r) (\<lambda>(p', r'). Properties_UnpackWill_loop p' r')"
  by pat_completeness auto
termination
  by (relation "measure (\<lambda>(p, r). length r)") (auto dest: Properties_will_switch_consumes)

definition Properties_UnpackWillProperties :: "Properties \<Rightarrow> bytes \<Rightarrow> (Properties \<times> bytes) res" where
  "Properties_UnpackWillProperties p bufr =
     rbind (EncodeRemainLength bufr) (\<lambda>(len, bufr1).
       if len = 0 then Inr (p, bufr1)
       else let (newBufr, bufr2) = Next len bufr1 in
         rbind (Properties_UnpackWill_loop p newBufr) (\<lambda>p'. Inr (p', bufr2)))"

section \<open>Well-formed properties\<close>

definition wf_opt :: "bool \<Rightarrow> ('a \<Rightarrow> bool) \<Rightarrow> 'a option \<Rightarrow> bool" where
  "wf_opt allowed ok v \<longleftrightarrow> (case v of None \<Rightarrow> True | Some x \<Rightarrow> allowed \<and> ok x)"

definition wf_subids :: "bool \<Rightarrow> uint32 list \<Rightarrow> bool" where
  "wf_subids allowed ids \<longleftrightarrow>
     ids = [] \<or> allowed \<and> length ids = 1 \<and> hd ids \<noteq> 0 \<and> hd ids < 268435456"

definition wf_user :: "bool \<Rightarrow> UserProperty list \<Rightarrow> bool" where
  "wf_user allowed us \<longleftrightarrow>
     us = [] \<or> allowed \<and> list_all (\<lambda>u. wf_string True (UserK u) \<and> wf_string True (UserV u)) us"

definition wf_fields :: "byte \<Rightarrow> Properties \<Rightarrow> bool" where
  "wf_fields packetType p \<longleftrightarrow>
     wf_opt (ValidateID packetType PropPayloadFormat) (\<lambda>x. x = 0 \<or> x = 1) (PayloadFormat p) \<and>
     wf_opt (ValidateID packetType PropMessageExpiry) (\<lambda>x. True) (MessageExpiry p) \<and>
     wf_opt (ValidateID packetType PropContentType) (\<lambda>x. wf_string True x) (ContentType p) \<and>
     wf_opt (ValidateID packetType PropResponseTopic) (\<lambda>x. wf_string True x \<and> ValidTopicName True x) (ResponseTopic p) \<and>
     wf_opt (ValidateID packetType PropCorrelationData) (\<lambda>x. wf_string False x) (CorrelationData p) \<and>
     wf_subids (ValidateID packetType PropSubscriptionIdentifier) (SubscriptionIdentifier p) \<and>
     wf_opt (ValidateID packetType PropSessionExpiryInterval) (\<lambda>x. True) (SessionExpiryInterval p) \<and>
     wf_opt (ValidateID packetType PropAssignedClientID) (\<lambda>x. wf_string True x) (AssignedClientID p) \<and>
     wf_opt (ValidateID packetType PropServerKeepAlive) (\<lambda>x. True) (ServerKeepAlive p) \<and>
     wf_opt (ValidateID packetType PropAuthMethod) (\<lambda>x. wf_string True x) (AuthMethod p) \<and>
     wf_opt (ValidateID packetType PropAuthData) (\<lambda>x. wf_string True x) (AuthData p) \<and>
     wf_opt (ValidateID packetType PropRequestProblemInfo) (\<lambda>x. x = 0 \<or> x = 1) (RequestProblemInfo p) \<and>
     wf_opt (ValidateID packetType PropWillDelayInterval) (\<lambda>x. True) (WillDelayInterval p) \<and>
     wf_opt (ValidateID packetType PropRequestResponseInfo) (\<lambda>x. x = 0 \<or> x = 1) (RequestResponseInfo p) \<and>
     wf_opt (ValidateID packetType PropResponseInfo) (\<lambda>x. wf_string True x) (ResponseInfo p) \<and>
     wf_opt (ValidateID packetType PropServerReference) (\<lambda>x. wf_string True x) (ServerReference p) \<and>
     wf_opt (ValidateID packetType PropReasonString) (\<lambda>x. wf_string True x) (ReasonString p) \<and>
     wf_opt (ValidateID packetType PropReceiveMaximum) (\<lambda>x. x \<noteq> 0) (ReceiveMaximum p) \<and>
     wf_opt (ValidateID packetType PropTopicAliasMaximum) (\<lambda>x. True) (TopicAliasMaximum p) \<and>
     wf_opt (ValidateID packetType PropTopicAlias) (\<lambda>x. x \<noteq> 0) (TopicAlias p) \<and>
     wf_opt (ValidateID packetType PropMaximumQoS) (\<lambda>x. x = 0 \<or> x = 1) (MaximumQoS p) \<and>
     wf_opt (ValidateID packetType PropRetainAvailable) (\<lambda>x. x = 0 \<or> x = 1) (RetainAvailable p) \<and>
     wf_user (ValidateID packetType PropUser) (User p) \<and>
     wf_opt (ValidateID packetType PropMaximumPacketSize) (\<lambda>x. x \<noteq> 0) (MaximumPacketSize p) \<and>
     wf_opt (ValidateID packetType PropWildcardSubAvailable) (\<lambda>x. x = 0 \<or> x = 1) (WildcardSubAvailable p) \<and>
     wf_opt (ValidateID packetType PropSubIDAvailable) (\<lambda>x. x = 0 \<or> x = 1) (SubIDAvailable p) \<and>
     wf_opt (ValidateID packetType PropSharedSubAvailable) (\<lambda>x. x = 0 \<or> x = 1) (SharedSubAvailable p)"

definition wf_will_fields :: "Properties \<Rightarrow> bool" where
  "wf_will_fields p \<longleftrightarrow>
     wf_opt (True) (\<lambda>x. x = 0 \<or> x = 1) (PayloadFormat p) \<and>
     wf_opt (True) (\<lambda>x. True) (MessageExpiry p) \<and>
     wf_opt (True) (\<lambda>x. wf_string True x) (ContentType p) \<and>
     wf_opt (True) (\<lambda>x. wf_string True x \<and> ValidTopicName True x) (ResponseTopic p) \<and>
     wf_opt (True) (\<lambda>x. wf_string False x) (CorrelationData p) \<and>
     wf_opt (True) (\<lambda>x. True) (WillDelayInterval p) \<and>
     wf_user (True) (User p) \<and>
     SubscriptionIdentifier p = [] \<and> SessionExpiryInterval p = None \<and> AssignedClientID p = None
     \<and> ServerKeepAlive p = None \<and> AuthMethod p = None \<and> AuthData p = None
     \<and> RequestProblemInfo p = None \<and> RequestResponseInfo p = None \<and> ResponseInfo p = None
     \<and> ServerReference p = None \<and> ReasonString p = None \<and> ReceiveMaximum p = None
     \<and> TopicAliasMaximum p = None \<and> TopicAlias p = None \<and> MaximumQoS p = None
     \<and> RetainAvailable p = None \<and> MaximumPacketSize p = None \<and> WildcardSubAvailable p = None
     \<and> SubIDAvailable p = None \<and> SharedSubAvailable p = None"

definition wf_properties :: "byte \<Rightarrow> Properties \<Rightarrow> bool" where
  "wf_properties packetType p \<longleftrightarrow> wf_fields packetType p
     \<and> (AuthData p \<noteq> None \<longrightarrow> AuthMethod p \<noteq> None)
     \<and> length (Properties_Pack_body p) < 268435456"

definition wf_will_properties :: "Properties \<Rightarrow> bool" where
  "wf_will_properties p \<longleftrightarrow> wf_will_fields p \<and> length (Properties_PackWill_body p) < 268435456"

section \<open>The reading loops\<close>

locale prop_loop =
  fixes loop :: "Properties \<Rightarrow> bytes \<Rightarrow> Properties res"
    and sw :: "byte \<Rightarrow> Properties \<Rightarrow> bytes \<Rightarrow> (Properties \<times> bytes) res"
  assumes loop_Nil: "loop p [] = Inr p"
    and loop_Cons: "loop p (t # r) = rbind (sw t p r) (\<lambda>(p', r'). loop p' r')"
    and sw_consumes: "sw t p r = Inr (p', r') \<Longrightarrow> length r' \<le> length r"
begin

lemma field_step:
  assumes "\<And>x r. v = Some x \<Longrightarrow> sw t q (enc x @ r) = Inr (q', r)" and "v = None \<Longrightarrow> q' = q"
  shows "loop q ((case v of None \<Rightarrow> [] | Some x \<Rightarrow> t # enc x) @ r) = loop q' r"
  using assms by (cases v) (simp_all add: loop_Cons)

lemma list_step:
  assumes "\<And>x ys r. x \<in> set xs \<Longrightarrow> sw t (upd ys) (enc x @ r) = Inr (upd (ys @ [x]), r)"
  shows "loop (upd ys) (concat (map (\<lambda>x. t # enc x) xs) @ r) = loop (upd (ys @ xs)) r"
  using assms by (induction xs arbitrary: ys) (simp_all add: loop_Cons)

lemma loop_inv:
  assumes "loop p r = Inr p'" and "I p (length r)"
    and "\<And>t p r p' r'. I p (Suc (length r)) \<Longrightarrow> sw t p r = Inr (p', r') \<Longrightarrow> I p' (length r')"
  shows "I p' 0"
  using assms(1,2)
proof (induction r arbitrary: p rule: length_induct)
  case (1 r)
  show ?case
  proof (cases r)
    case Nil
    with 1 show ?thesis by (simp add: loop_Nil)
  next
    case (Cons t r1)
    with 1 obtain q r2 where sw: "sw t p r1 = Inr (q, r2)" and l: "loop q r2 = Inr p'"
      by (auto simp: loop_Cons rbind_eq_Inr_conv)
    moreover have "length r2 < length r" using sw_consumes [OF sw] Cons by simp
    moreover have "I q (length r2)" using assms(3) [OF _ sw] 1 Cons by simp
    ultimately show ?thesis using 1 by blast
  qed
qed

end

interpretation ul: prop_loop "Properties_Unpack_loop pt"
  "\<lambda>t p r. if \<not> ValidateID pt t then Inl ErrProtocol else Properties_switch t p r" for pt
  by unfold_locales (auto split: if_splits dest: Properties_switch_consumes)

interpretation wl: prop_loop Properties_UnpackWill_loop Properties_will_switch
  by unfold_locales (auto dest: Properties_will_switch_consumes)

section \<open>Reading back what was written\<close>

lemmas property_reads =
  propertyReadBool_def propertyReadUint32_def propertyReadUint16_def
  propertyReadUTF8String_def propertyReadBinary_def

lemmas property_writes =
  propertyWriteByte_def propertyWriteUint32_def propertyWriteUint16_def propertyWriteString_def


lemma propertyWriteByte_eq: "propertyWriteByte t v = (case v of None \<Rightarrow> [] | Some x \<Rightarrow> t # [x])"
  by (simp add: propertyWriteByte_def)

lemmas propertyWrite_eqs =
  propertyWriteByte_eq propertyWriteUint16_def propertyWriteUint32_def propertyWriteString_def

lemma ul_field:
  "wf_opt (ValidateID pt PropPayloadFormat) (\<lambda>x. x = 0 \<or> x = 1) vbool \<Longrightarrow> PayloadFormat q = None \<Longrightarrow>
     Properties_Unpack_loop pt q (propertyWriteByte PropPayloadFormat vbool @ r) = Properties_Unpack_loop pt (q\<lparr>PayloadFormat := vbool\<rparr>) r"
  "wf_opt (ValidateID pt PropMessageExpiry) (\<lambda>x. True) vu32 \<Longrightarrow> MessageExpiry q = None \<Longrightarrow>
     Properties_Unpack_loop pt q (propertyWriteUint32 PropMessageExpiry vu32 @ r) = Properties_Unpack_loop pt (q\<lparr>MessageExpiry := vu32\<rparr>) r"
  "wf_opt (ValidateID pt PropContentType) (\<lambda>x. wf_string True x) vstr \<Longrightarrow> ContentType q = None \<Longrightarrow>
     Properties_Unpack_loop pt q (propertyWriteString PropContentType vstr @ r) = Properties_Unpack_loop pt (q\<lparr>ContentType := vstr\<rparr>) r"
  "wf_opt (ValidateID pt PropResponseTopic) (\<lambda>x. wf_string True x \<and> ValidTopicName True x) vtopic \<Longrightarrow> ResponseTopic q = None \<Longrightarrow>
     Properties_Unpack_loop pt q (propertyWriteString PropResponseTopic vtopic @ r) = Properties_Unpack_loop pt (q\<lparr>ResponseTopic := vtopic\<rparr>) r"
  "wf_opt (ValidateID pt PropCorrelationData) (\<lambda>x. wf_string False x) vbin \<Longrightarrow> CorrelationData q = None \<Longrightarrow>
     Properties_Unpack_loop pt q (propertyWriteString PropCorrelationData vbin @ r) = Properties_Unpack_loop pt (q\<lparr>CorrelationData := vbin\<rparr>) r"
  "wf_opt (ValidateID pt PropSessionExpiryInterval) (\<lambda>x. True) vu32 \<Longrightarrow> SessionExpiryInterval q = None \<Longrightarrow>
     Properties_Unpack_loop pt q (propertyWriteUint32 PropSessionExpiryInterval vu32 @ r) = Properties_Unpack_loop pt (q\<lparr>SessionExpiryInterval := vu32\<rparr>) r"
  "wf_opt (ValidateID pt PropAssignedClientID) (\<lambda>x. wf_string True x) vstr \<Longrightarrow> AssignedClientID q = None \<Longrightarrow>
     Properties_Unpack_loop pt q (propertyWriteString PropAssignedClientID vstr @ r) = Properties_Unpack_loop pt (q\<lparr>AssignedClientID := vstr\<rparr>) r"
  "wf_opt (ValidateID pt PropServerKeepAlive) (\<lambda>x. True) vu16 \<Longrightarrow> ServerKeepAlive q = None \<Longrightarrow>
     Properties_Unpack_loop pt q (propertyWriteUint16 PropServerKeepAlive vu16 @ r) = Properties_Unpack_loop pt (q\<lparr>ServerKeepAlive := vu16\<rparr>) r"
  "wf_opt (ValidateID pt PropAuthMethod) (\<lambda>x. wf_string True x) vstr \<Longrightarrow> AuthMethod q = None \<Longrightarrow>
     Properties_Unpack_loop pt q (propertyWriteString PropAuthMethod vstr @ r) = Properties_Unpack_loop pt (q\<lparr>AuthMethod := vstr\<rparr>) r"
  "wf_opt (ValidateID pt PropAuthData) (\<lambda>x. wf_string True x) vstr \<Longrightarrow> AuthData q = None \<Longrightarrow>
     Properties_Unpack_loop pt q (propertyWriteString PropAuthData vstr @ r) = Properties_Unpack_loop pt (q\<lparr>AuthData := vstr\<rparr>) r"
  "wf_opt (ValidateID pt PropRequestProblemInfo) (\<lambda>x. x = 0 \<or> x = 1) vbool \<Longrightarrow> RequestProblemInfo q = None \<Longrightarrow>
     Properties_Unpack_loop pt q (propertyWriteByte PropRequestProblemInfo vbool @ r) = Properties_Unpack_loop pt (q\<lparr>RequestProblemInfo := vbool\<rparr>) r"
  "wf_opt (ValidateID pt PropWillDelayInterval) (\<lambda>x. True) vu32 \<Longrightarrow> WillDelayInterval q = None \<Longrightarrow>
     Properties_Unpack_loop pt q (propertyWriteUint32 PropWillDelayInterval vu32 @ r) = Properties_Unpack_loop pt (q\<lparr>WillDelayInterval := vu32\<rparr>) r"
  "wf_opt (ValidateID pt PropRequestResponseInfo) (\<lambda>x. x = 0 \<or> x = 1) vbool \<Longrightarrow> RequestResponseInfo q = None \<Longrightarrow>
     Properties_Unpack_loop pt q (propertyWriteByte PropRequestResponseInfo vbool @ r) = Properties_Unpack_loop pt (q\<lparr>RequestResponseInfo := vbool\<rparr>) r"
  "wf_opt (ValidateID pt PropResponseInfo) (\<lambda>x. wf_string True x) vstr \<Longrightarrow> ResponseInfo q = None \<Longrightarrow>
     Properties_Unpack_loop pt q (propertyWriteString PropResponseInfo vstr @ r) = Properties_Unpack_loop pt (q\<lparr>ResponseInfo := vstr\<rparr>) r"
  "wf_opt (ValidateID pt PropServerReference) (\<lambda>x. wf_string True x) vstr \<Longrightarrow> ServerReference q = None \<Longrightarrow>
     Properties_Unpack_loop pt q (propertyWriteString PropServerReference vstr @ r) = Properties_Unpack_loop pt (q\<lparr>ServerReference := vstr\<rparr>) r"
  "wf_opt (ValidateID pt PropReasonString) (\<lambda>x. wf_string True x) vstr \<Longrightarrow> ReasonString q = None \<Longrightarrow>
     Properties_Unpack_loop pt q (propertyWriteString PropReasonString vstr @ r) = Properties_Unpack_loop pt (q\<lparr>ReasonString := vstr\<rparr>) r"
  "wf_opt (ValidateID pt PropReceiveMaximum) (\<lambda>x. x \<noteq> 0) vu16nz \<Longrightarrow> ReceiveMaximum q = None \<Longrightarrow>
     Properties_Unpack_loop pt q (propertyWriteUint16 PropReceiveMaximum vu16nz @ r) = Properties_Unpack_loop pt (q\<lparr>ReceiveMaximum := vu16nz\<rparr>) r"
  "wf_opt (ValidateID pt PropTopicAliasMaximum) (\<lambda>x. True) vu16 \<Longrightarrow> TopicAliasMaximum q = None \<Longrightarrow>
     Properties_Unpack_loop pt q (propertyWriteUint16 PropTopicAliasMaximum vu16 @ r) = Properties_Unpack_loop pt (q\<lparr>TopicAliasMaximum := vu16\<rparr>) r"
  "wf_opt (ValidateID pt PropTopicAlias) (\<lambda>x. x \<noteq> 0) valias \<Longrightarrow> TopicAlias q = None \<Longrightarrow>
     Properties_Unpack_loop pt q (propertyWriteUint16 PropTopicAlias valias @ r) = Properties_Unpack_loop pt (q\<lparr>TopicAlias := valias\<rparr>) r"
  "wf_opt (ValidateID pt PropMaximumQoS) (\<lambda>x. x = 0 \<or> x = 1) vbool \<Longrightarrow> MaximumQoS q = None \<Longrightarrow>
     Properties_Unpack_loop pt q (propertyWriteByte PropMaximumQoS vbool @ r) = Properties_Unpack_loop pt (q\<lparr>MaximumQoS := vbool\<rparr>) r"
  "wf_opt (ValidateID pt PropRetainAvailable) (\<lambda>x. x = 0 \<or> x = 1) vbool \<Longrightarrow> RetainAvailable q = None \<Longrightarrow>
     Properties_Unpack_loop pt q (propertyWriteByte PropRetainAvailable vbool @ r) = Properties_Unpack_loop pt (q\<lparr>RetainAvailable := vbool\<rparr>) r"
  "wf_opt (ValidateID pt PropMaximumPacketSize) (\<lambda>x. x \<noteq> 0) vu32nz \<Longrightarrow> MaximumPacketSize q = None \<Longrightarrow>
     Properties_Unpack_loop pt q (propertyWriteUint32 PropMaximumPacketSize vu32nz @ r) = Properties_Unpack_loop pt (q\<lparr>MaximumPacketSize := vu32nz\<rparr>) r"
  "wf_opt (ValidateID pt PropWildcardSubAvailable) (\<lambda>x. x = 0 \<or> x = 1) vbool \<Longrightarrow> WildcardSubAvailable q = None \<Longrightarrow>
     Properties_Unpack_loop pt q (propertyWriteByte PropWildcardSubAvailable vbool @ r) = Properties_Unpack_loop pt (q\<lparr>WildcardSubAvailable := vbool\<rparr>) r"
  "wf_opt (ValidateID pt PropSubIDAvailable) (\<lambda>x. x = 0 \<or> x = 1) vbool \<Longrightarrow> SubIDAvailable q = None \<Longrightarrow>
     Properties_Unpack_loop pt q (propertyWriteByte PropSubIDAvailable vbool @ r) = Properties_Unpack_loop pt (q\<lparr>SubIDAvailable := vbool\<rparr>) r"
  "wf_opt (ValidateID pt PropSharedSubAvailable) (\<lambda>x. x = 0 \<or> x = 1) vbool \<Longrightarrow> SharedSubAvailable q = None \<Longrightarrow>
     Properties_Unpack_loop pt q (propertyWriteByte PropSharedSubAvailable vbool @ r) = Properties_Unpack_loop pt (q\<lparr>SharedSubAvailable := vbool\<rparr>) r"
  unfolding propertyWrite_eqs
  by (rule ul.field_step;
      auto simp: wf_opt_def Properties_switch_def property_reads roundtrip_simps)+

lemma wl_field:
  "wf_opt (True) (\<lambda>x. x = 0 \<or> x = 1) vbool \<Longrightarrow> PayloadFormat q = None \<Longrightarrow>
     Properties_UnpackWill_loop q (propertyWriteByte PropPayloadFormat vbool @ r) = Properties_UnpackWill_loop (q\<lparr>PayloadFormat := vbool\<rparr>) r"
  "wf_opt (True) (\<lambda>x. True) vu32 \<Longrightarrow> MessageExpiry q = None \<Longrightarrow>
     Properties_UnpackWill_loop q (propertyWriteUint32 PropMessageExpiry vu32 @ r) = Properties_UnpackWill_loop (q\<lparr>MessageExpiry := vu32\<rparr>) r"
  "wf_opt (True) (\<lambda>x. wf_string True x) vstr \<Longrightarrow> ContentType q = None \<Longrightarrow>
     Properties_UnpackWill_loop q (propertyWriteString PropContentType vstr @ r) = Properties_UnpackWill_loop (q\<lparr>ContentType := vstr\<rparr>) r"
  "wf_opt (True) (\<lambda>x. wf_string True x \<and> ValidTopicName True x) vtopic \<Longrightarrow> ResponseTopic q = None \<Longrightarrow>
     Properties_UnpackWill_loop q (propertyWriteString PropResponseTopic vtopic @ r) = Properties_UnpackWill_loop (q\<lparr>ResponseTopic := vtopic\<rparr>) r"
  "wf_opt (True) (\<lambda>x. wf_string False x) vbin \<Longrightarrow> CorrelationData q = None \<Longrightarrow>
     Properties_UnpackWill_loop q (propertyWriteString PropCorrelationData vbin @ r) = Properties_UnpackWill_loop (q\<lparr>CorrelationData := vbin\<rparr>) r"
  "wf_opt (True) (\<lambda>x. True) vu32 \<Longrightarrow> WillDelayInterval q = None \<Longrightarrow>
     Properties_UnpackWill_loop q (propertyWriteUint32 PropWillDelayInterval vu32 @ r) = Properties_UnpackWill_loop (q\<lparr>WillDelayInterval := vu32\<rparr>) r"
  unfolding propertyWrite_eqs
  by (rule wl.field_step;
      auto simp: wf_opt_def Properties_will_switch_def property_reads roundtrip_simps)+

lemma lengthBytes_vbi: "n < 268435456 \<Longrightarrow> lengthBytes (int n) = vbi_enc n"
  by (simp add: lengthBytes_def DecodeRemainLength_vbi)

lemma ul_SubscriptionIdentifier:
  assumes "wf_subids (ValidateID pt PropSubscriptionIdentifier) ids" and "SubscriptionIdentifier q = []"
  shows "Properties_Unpack_loop pt q (writeSubscriptionIdentifiers ids @ r)
    = Properties_Unpack_loop pt (q\<lparr>SubscriptionIdentifier := ids\<rparr>) r"
proof (cases "ids = []")
  case False
  with assms obtain i where ids: "ids = [i]" and i: "i \<noteq> 0" "unat i < 268435456"
    and ok: "ValidateID pt PropSubscriptionIdentifier"
    by (cases ids) (auto simp: wf_subids_def word_less_nat_alt)
  have "lengthBytes (uint i) = vbi_enc (unat i)"
    using lengthBytes_vbi [OF i(2)] by simp
  moreover have "unat i \<noteq> 0" using i by (simp add: unat_eq_0)
  ultimately show ?thesis using ok i assms(2)
    by (simp add: ids writeSubscriptionIdentifiers_def Properties_switch_def
        readSubscriptionIdentifier_def EncodeRemainLength_vbi)
next
  case True
  have "q\<lparr>SubscriptionIdentifier := []\<rparr> = q" using assms(2) by simp
  with True show ?thesis by (simp add: writeSubscriptionIdentifiers_def)
qed

lemma readUserProperty_write:
  "wf_string True (UserK u) \<Longrightarrow> wf_string True (UserV u) \<Longrightarrow>
   readUserProperty p ((writeBinary (UserK u) @ writeBinary (UserV u)) @ r) = Inr (p\<lparr>User := User p @ [u]\<rparr>, r)"
  by (simp add: readUserProperty_def roundtrip_simps)

lemma ul_User:
  assumes "wf_user (ValidateID pt PropUser) us" and "User q = []"
  shows "Properties_Unpack_loop pt q (writeUserProperties us @ r) = Properties_Unpack_loop pt (q\<lparr>User := us\<rparr>) r"
proof -
  have q: "q\<lparr>User := []\<rparr> = q" using assms(2) by simp
  have "Properties_Unpack_loop pt (q\<lparr>User := []\<rparr>) (writeUserProperties us @ r)
      = Properties_Unpack_loop pt (q\<lparr>User := [] @ us\<rparr>) r"
    unfolding writeUserProperties_def
    by (rule ul.list_step [where upd = "\<lambda>us. q\<lparr>User := us\<rparr>"])
      (use assms(1) in \<open>auto simp: wf_user_def list_all_iff Properties_switch_def readUserProperty_write
        simp del: append_assoc\<close>)
  then show ?thesis by (simp only: q append_Nil)
qed

lemma wl_User:
  assumes "wf_user True us" and "User q = []"
  shows "Properties_UnpackWill_loop q (writeUserProperties us @ r) = Properties_UnpackWill_loop (q\<lparr>User := us\<rparr>) r"
proof -
  have q: "q\<lparr>User := []\<rparr> = q" using assms(2) by simp
  have "Properties_UnpackWill_loop (q\<lparr>User := []\<rparr>) (writeUserProperties us @ r)
      = Properties_UnpackWill_loop (q\<lparr>User := [] @ us\<rparr>) r"
    unfolding writeUserProperties_def
    by (rule wl.list_step [where upd = "\<lambda>us. q\<lparr>User := us\<rparr>"])
      (use assms(1) in \<open>auto simp: wf_user_def list_all_iff Properties_will_switch_def readUserProperty_write
        simp del: append_assoc\<close>)
  then show ?thesis by (simp only: q append_Nil)
qed

lemmas ul_steps =
  ul_field ul_SubscriptionIdentifier ul_User

lemmas wl_steps =
  wl_field wl_User

lemma Properties_Unpack_loop_Pack:
  assumes "wf_fields pt p"
  shows "Properties_Unpack_loop pt Properties_zero (Properties_Pack_body p) = Inr p"
proof -
  have "Properties_Unpack_loop pt Properties_zero (Properties_Pack_body p @ r)
      = Properties_Unpack_loop pt p r" for r
    using assms unfolding Properties_Pack_body_def wf_fields_def append_assoc
    by (cases p) (simp add: ul_steps Properties_zero_def)
  from this [of "[]"] show ?thesis by simp
qed

lemma Properties_UnpackWill_loop_Pack:
  assumes "wf_will_fields p"
  shows "Properties_UnpackWill_loop Properties_zero (Properties_PackWill_body p) = Inr p"
proof -
  have "Properties_UnpackWill_loop Properties_zero (Properties_PackWill_body p @ r)
      = Properties_UnpackWill_loop p r" for r
    using assms unfolding Properties_PackWill_body_def wf_will_fields_def append_assoc
    by (cases p) (simp add: wl_steps Properties_zero_def)
  from this [of "[]"] show ?thesis by simp
qed

lemma Properties_Unpack_Pack [roundtrip_simps]:
  assumes "wf_properties pt p"
  shows "Properties_Unpack pt Properties_zero (Properties_Pack (Some p) pt @ rest) = Inr (p, rest)"
proof -
  let ?b = "Properties_Pack_body p"
  have l: "length ?b < 268435456" and wf: "wf_fields pt p" and a: "AuthData p \<noteq> None \<longrightarrow> AuthMethod p \<noteq> None"
    using assms by (auto simp: wf_properties_def)
  have "Properties_Pack_body p = [] \<Longrightarrow> p = Properties_zero"
    using Properties_Unpack_loop_Pack [OF wf] by simp
  then show ?thesis using l a Properties_Unpack_loop_Pack [OF wf]
    by (auto simp: Properties_Unpack_def Properties_Pack_def lengthBytes_vbi Let_def Next_def EncodeRemainLength_vbi)
qed

lemma Properties_Unpack_nil [roundtrip_simps]:
  "Properties_Unpack pt p (Properties_Pack None pt @ rest) = Inr (p, rest)"
  using lengthBytes_vbi [of 0] EncodeRemainLength_vbi [of 0 rest]
  by (simp add: Properties_Unpack_def Properties_Pack_def)

lemma Properties_UnpackWill_Pack [roundtrip_simps]:
  assumes "wf_will_properties p"
  shows "Properties_UnpackWillProperties Properties_zero (Properties_PackWillProperties (Some p) @ rest) = Inr (p, rest)"
proof -
  let ?b = "Properties_PackWill_body p"
  have l: "length ?b < 268435456" and wf: "wf_will_fields p"
    using assms by (auto simp: wf_will_properties_def)
  have "Properties_PackWill_body p = [] \<Longrightarrow> p = Properties_zero"
    using Properties_UnpackWill_loop_Pack [OF wf] by simp
  then show ?thesis using l Properties_UnpackWill_loop_Pack [OF wf]
    by (auto simp: Properties_UnpackWillProperties_def Properties_PackWillProperties_def
      lengthBytes_vbi Let_def Next_def EncodeRemainLength_vbi)
qed

section \<open>What the readers accept\<close>

lemma propertyReadBool_ok:
  "propertyReadBool i r t = Inr (b, r') \<Longrightarrow> i = None \<and> (b = 0 \<or> b = 1) \<and> length r = length r' + 1"
  by (cases r) (auto simp: propertyReadBool_def split: if_splits)

lemma propertyReadUint32_ok:
  "propertyReadUint32 i r t val = Inr (u, r') \<Longrightarrow> i = None \<and> val u \<and> length r = length r' + 4"
  by (auto simp: propertyReadUint32_def dest!: readUint32_consumes split: if_splits sum.splits)

lemma propertyReadUint16_ok:
  "propertyReadUint16 i r t val = Inr (u, r') \<Longrightarrow> i = None \<and> val u \<and> length r = length r' + 2"
  by (auto simp: propertyReadUint16_def dest!: readUint16_consumes split: if_splits sum.splits)

lemma propertyReadUTF8String_ok:
  "propertyReadUTF8String i r t val = Inr (s, r') \<Longrightarrow>
   i = None \<and> val s \<and> wf_string True s \<and> length r = length r' + length s + 2"
  by (auto simp: propertyReadUTF8String_def rbind_eq_Inr_conv split: if_splits
      dest: readUTF8String_consumes readUTF8String_wf)

lemma propertyReadBinary_ok:
  "propertyReadBinary i r t val = Inr (s, r') \<Longrightarrow>
   i = None \<and> val s \<and> wf_string False s \<and> length r = length r' + length s + 2"
  by (auto simp: propertyReadBinary_def split: if_splits sum.splits
      dest: readUTF8String_consumes readUTF8String_wf)

lemma readUserProperty_ok:
  assumes "readUserProperty p r = Inr (p', r')"
  shows "\<exists>u. p' = p\<lparr>User := User p @ [u]\<rparr> \<and> wf_string True (UserK u) \<and> wf_string True (UserV u)
    \<and> length r = length r' + length (UserK u) + length (UserV u) + 4"
proof -
  from assms obtain k v r1 where k: "readUTF8String True r = Inr (k, r1)"
    and v: "readUTF8String True r1 = Inr (v, r')" and p: "p' = p\<lparr>User := User p @ [\<lparr>UserK = k, UserV = v\<rparr>]\<rparr>"
    by (auto simp: readUserProperty_def split: sum.splits)
  from readUTF8String_wf [OF k] readUTF8String_wf [OF v]
    readUTF8String_consumes [OF k] readUTF8String_consumes [OF v] p
  show ?thesis by (intro exI [of _ "\<lparr>UserK = k, UserV = v\<rparr>"]) simp
qed

lemma readSubscriptionIdentifier_ok:
  assumes "readSubscriptionIdentifier p r = Inr (p', r')"
  shows "\<exists>i. p' = p\<lparr>SubscriptionIdentifier := [i]\<rparr> \<and> SubscriptionIdentifier p = [] \<and> i \<noteq> 0
    \<and> i < 268435456 \<and> length (lengthBytes (uint i)) + length r' \<le> length r"
proof -
  from assms obtain si where e: "EncodeRemainLength r = Inr (si, r')" and si: "0 < si"
    and p: "SubscriptionIdentifier p = []" "p' = p\<lparr>SubscriptionIdentifier := [word_of_nat si]\<rparr>"
    by (auto simp: readSubscriptionIdentifier_def split: if_splits sum.splits)
  have b: "si < 268435456" using EncodeRemainLength_bound [OF e] by simp
  have u: "unat (word_of_nat si :: uint32) = si" using b by (intro unat_word_of_nat) simp
  have "uint (word_of_nat si :: uint32) = int si" using u by (metis uint_nat)
  then have "length (lengthBytes (uint (word_of_nat si :: uint32))) + length r' \<le> length r"
    using lengthBytes_vbi [OF b] EncodeRemainLength_shortest [OF e si] by simp
  moreover have "(word_of_nat si :: uint32) \<noteq> 0" using u si by (metis less_irrefl unat_0)
  moreover have "(word_of_nat si :: uint32) < 268435456" using u b by (simp add: word_less_nat_alt)
  ultimately show ?thesis using p by blast
qed

lemmas property_oks = propertyReadBool_ok propertyReadUint32_ok propertyReadUint16_ok
  propertyReadUTF8String_ok propertyReadBinary_ok

lemma length_propertyWrite [len_simps]:
  "length (propertyWriteByte t (Some b)) = 2" "length (propertyWriteUint16 t (Some h)) = 3"
  "length (propertyWriteUint32 t (Some w)) = 5" "length (propertyWriteString t (Some s)) = length s + 3"
  "length (propertyWriteByte t None) = 0" "length (propertyWriteUint16 t None) = 0"
  "length (propertyWriteUint32 t None) = 0" "length (propertyWriteString t None) = 0"
  by (simp_all add: property_writes)

lemma wf_opt_simps [simp]: "wf_opt a ok None" "wf_opt a ok (Some x) \<longleftrightarrow> a \<and> ok x"
  by (simp_all add: wf_opt_def)

lemma wf_subids_sing: "wf_subids a [i] \<longleftrightarrow> a \<and> i \<noteq> 0 \<and> i < 268435456"
  by (simp add: wf_subids_def)

lemma wf_user_snoc:
  "wf_user a us \<Longrightarrow> a \<Longrightarrow> wf_string True (UserK u) \<Longrightarrow> wf_string True (UserV u) \<Longrightarrow> wf_user a (us @ [u])"
  by (auto simp: wf_user_def)

lemma length_write_lists [len_simps]:
  "length (writeSubscriptionIdentifiers []) = 0"
  "length (writeSubscriptionIdentifiers [i]) = Suc (length (lengthBytes (uint i)))"
  "length (writeUserProperties (us @ [u]))
     = length (writeUserProperties us) + length (UserK u) + length (UserV u) + 5"
  by (simp_all add: writeSubscriptionIdentifiers_def writeUserProperties_def)

lemma Properties_switch_wf:
  assumes "wf_fields pt p" and "ValidateID pt t" and "Properties_switch t p r = Inr (p', r')"
  shows "wf_fields pt p'"
  using assms(3,1,2) unfolding Properties_switch_def
  by (simp only: split: if_split_asm)
    (clarsimp split: if_split_asm dest!: property_oks readUserProperty_ok
      readSubscriptionIdentifier_ok simp: rbind_eq_Inr_conv wf_fields_def wf_subids_sing wf_user_snoc)+

lemma Properties_switch_length:
  assumes "Properties_switch t p r = Inr (p', r')"
  shows "length (Properties_Pack_body p') + length r' \<le> length (Properties_Pack_body p) + length r + 1"
  using assms unfolding Properties_switch_def
  by (simp only: split: if_split_asm)
    (clarsimp split: if_split_asm dest!: property_oks readUserProperty_ok
      readSubscriptionIdentifier_ok simp: rbind_eq_Inr_conv Properties_Pack_body_def len_simps)+


lemma Properties_Unpack_wf:
  assumes "Properties_Unpack pt Properties_zero bs = Inr (p, rest)"
  shows "wf_properties pt p"
proof -
  have z: "wf_fields pt Properties_zero" "length (Properties_Pack_body Properties_zero) = 0"
    by (simp_all add: wf_fields_def wf_subids_def wf_user_def Properties_zero_def
        Properties_Pack_body_def len_simps writeUserProperties_def)
  from assms obtain len r1 where e: "EncodeRemainLength bs = Inr (len, r1)"
    and c: "len = 0 \<and> p = Properties_zero \<or>
      Properties_Unpack_loop pt Properties_zero (take len r1) = Inr p \<and> (AuthData p \<noteq> None \<longrightarrow> AuthMethod p \<noteq> None)"
    by (auto simp: Properties_Unpack_def rbind_eq_Inr_conv Next_def split: if_splits)
  from c show ?thesis
  proof
    assume "len = 0 \<and> p = Properties_zero"
    with z show ?thesis by (simp add: wf_properties_def Properties_zero_def)
  next
    assume l: "Properties_Unpack_loop pt Properties_zero (take len r1) = Inr p
      \<and> (AuthData p \<noteq> None \<longrightarrow> AuthMethod p \<noteq> None)"
    have "wf_fields pt p \<and> length (Properties_Pack_body p) + 0 \<le> len"
      by (rule ul.loop_inv [OF conjunct1 [OF l],
            where I = "\<lambda>q n. wf_fields pt q \<and> length (Properties_Pack_body q) + n \<le> len"])
        (use z Properties_switch_wf Properties_switch_length in \<open>fastforce split: if_splits\<close>)+
    with l EncodeRemainLength_bound [OF e] show ?thesis by (simp add: wf_properties_def)
  qed
qed

text \<open>
  C36. Whatever property block the decoder accepts, encoding the decoded properties and decoding again gives
  the same properties.
\<close>

theorem Properties_reencode:
  "Properties_Unpack pt Properties_zero bs = Inr (p, rest) \<Longrightarrow>
   Properties_Unpack pt Properties_zero (Properties_Pack (Some p) pt @ rest') = Inr (p, rest')"
  by (rule Properties_Unpack_Pack [OF Properties_Unpack_wf])

theorem Properties_reencode_witness:
  "Properties_Unpack PUBLISH Properties_zero (Properties_Pack (Some (Properties_zero\<lparr>PayloadFormat := Some 1\<rparr>)) PUBLISH @ [9])
     = Inr (Properties_zero\<lparr>PayloadFormat := Some 1\<rparr>, [9])"
proof -
  have "ValidateID PUBLISH PropPayloadFormat" by (simp add: ValidateID_def ValidProperties_def)
  then have "wf_properties PUBLISH (Properties_zero\<lparr>PayloadFormat := Some 1\<rparr>)"
    by (simp add: wf_properties_def wf_fields_def wf_opt_def wf_subids_def wf_user_def Properties_zero_def
        Properties_Pack_body_def propertyWriteByte_def propertyWriteUint16_def propertyWriteUint32_def
        propertyWriteString_def writeSubscriptionIdentifiers_def writeUserProperties_def)
  then have "Properties_Unpack PUBLISH Properties_zero
      (Properties_Pack (Some (Properties_zero\<lparr>PayloadFormat := Some 1\<rparr>)) PUBLISH @ [])
      = Inr (Properties_zero\<lparr>PayloadFormat := Some 1\<rparr>, [])"
    by (rule Properties_Unpack_Pack)
  then show ?thesis by (rule Properties_reencode)
qed

text \<open>The same for the properties of a will.\<close>

lemma Properties_will_switch_wf:
  assumes "wf_will_fields p" and "Properties_will_switch t p r = Inr (p', r')"
  shows "wf_will_fields p'"
  using assms(2,1) unfolding Properties_will_switch_def
  by (simp only: split: if_split_asm)
    (clarsimp split: if_split_asm dest!: property_oks readUserProperty_ok
      simp: rbind_eq_Inr_conv wf_will_fields_def wf_user_snoc)+

lemma Properties_will_switch_length:
  assumes "Properties_will_switch t p r = Inr (p', r')"
  shows "length (Properties_PackWill_body p') + length r' \<le> length (Properties_PackWill_body p) + length r + 1"
  using assms unfolding Properties_will_switch_def
  by (simp only: split: if_split_asm)
    (clarsimp split: if_split_asm dest!: property_oks readUserProperty_ok
      simp: rbind_eq_Inr_conv Properties_PackWill_body_def len_simps)+

lemma Properties_UnpackWill_wf:
  assumes "Properties_UnpackWillProperties Properties_zero bs = Inr (p, rest)"
  shows "wf_will_properties p"
proof -
  have z: "wf_will_fields Properties_zero" "length (Properties_PackWill_body Properties_zero) = 0"
    by (simp_all add: wf_will_fields_def wf_user_def Properties_zero_def
        Properties_PackWill_body_def len_simps writeUserProperties_def)
  from assms obtain len r1 where e: "EncodeRemainLength bs = Inr (len, r1)"
    and c: "len = 0 \<and> p = Properties_zero \<or>
      Properties_UnpackWill_loop Properties_zero (take len r1) = Inr p"
    by (auto simp: Properties_UnpackWillProperties_def rbind_eq_Inr_conv Next_def split: if_splits)
  from c show ?thesis
  proof
    assume "len = 0 \<and> p = Properties_zero"
    with z show ?thesis by (simp add: wf_will_properties_def)
  next
    assume l: "Properties_UnpackWill_loop Properties_zero (take len r1) = Inr p"
    have "wf_will_fields p \<and> length (Properties_PackWill_body p) + 0 \<le> len"
      by (rule wl.loop_inv [OF l,
            where I = "\<lambda>q n. wf_will_fields q \<and> length (Properties_PackWill_body q) + n \<le> len"])
        (use z Properties_will_switch_wf Properties_will_switch_length in \<open>fastforce split: if_splits\<close>)+
    with EncodeRemainLength_bound [OF e] show ?thesis by (simp add: wf_will_properties_def)
  qed
qed

end
