(* ===== verification/Packets.thy ===== *)
theory Packets
  imports Props
begin

text \<open>
  The control packets of \<^verbatim>\<open>gmqtt/pkg/packets\<close>: one record per Go struct, with its \<^verbatim>\<open>Pack\<close>,
  \<^verbatim>\<open>Unpack\<close> and \<^verbatim>\<open>New...Packet\<close>, then \<^verbatim>\<open>NewPacket\<close>, \<^verbatim>\<open>ReadPacket\<close>, \<^verbatim>\<open>WritePacket\<close> and
  \<^verbatim>\<open>TotalBytes\<close> of \<^verbatim>\<open>packets.go\<close>.

  \<^verbatim>\<open>Pack\<close> returns the packet with the fixed header it stores in it, and the bytes written; the
  writer is the buffered one of the code, so it takes every byte.  \<^verbatim>\<open>Unpack\<close> and the constructors
  take the unread bytes of the connection and return the rest of them.  Structs with the same
  fields (\<^verbatim>\<open>Puback\<close>, \<^verbatim>\<open>Pubrec\<close>, \<^verbatim>\<open>Pubcomp\<close>, and \<^verbatim>\<open>Suback\<close>, \<^verbatim>\<open>Unsuback\<close>) share a record.
\<close>

unbundle bit_operations_syntax

section \<open>Versions, codes and the fixed header\<close>

abbreviation (input) Version31 :: byte where "Version31 \<equiv> 0x03"
abbreviation (input) Version311 :: byte where "Version311 \<equiv> 0x04"
abbreviation (input) Version5 :: byte where "Version5 \<equiv> 0x05"

abbreviation (input) FlagReserved :: byte where "FlagReserved \<equiv> 0"
abbreviation (input) FlagSubscribe :: byte where "FlagSubscribe \<equiv> 2"
abbreviation (input) FlagUnsubscribe :: byte where "FlagUnsubscribe \<equiv> 2"
abbreviation (input) FlagPubrel :: byte where "FlagPubrel \<equiv> 2"

abbreviation (input) Success :: byte where "Success \<equiv> 0"
abbreviation (input) V3UnacceptableProtocolVersion :: byte where "V3UnacceptableProtocolVersion \<equiv> 0x01"
abbreviation (input) V3IdentifierRejected :: byte where "V3IdentifierRejected \<equiv> 0x02"
abbreviation (input) UnsupportedProtocolVersion :: byte where "UnsupportedProtocolVersion \<equiv> 0x84"

definition IsVersion3X :: "byte \<Rightarrow> bool" where
  "IsVersion3X v \<longleftrightarrow> v = Version311 \<or> v = Version31"

definition IsVersion5 :: "byte \<Rightarrow> bool" where
  "IsVersion5 v \<longleftrightarrow> v = Version5"

definition version2protoName :: "byte \<Rightarrow> bytes option" where
  "version2protoName v =
     (if v = Version31 then Some [0x4D, 0x51, 0x49, 0x73, 0x64, 0x70]
      else if v = Version311 then Some [0x4D, 0x51, 0x54, 0x54]
      else if v = Version5 then Some [0x4D, 0x51, 0x54, 0x54]
      else None)"

record FixHeader =
  PacketType :: byte
  Flags :: byte
  RemainLength :: nat

definition FixHeader_Pack :: "FixHeader \<Rightarrow> bytes res" where
  "FixHeader_Pack fh =
     rbind (DecodeRemainLength (int (RemainLength fh)))
       (\<lambda>len. Inr ((push_bit 4 (PacketType fh) OR Flags fh) # len))"

text \<open>
  The end of every \<^verbatim>\<open>Pack\<close>: set \<^verbatim>\<open>RemainLength\<close> to the length of the buffer, write the header,
  write the buffer.
\<close>

definition pack_tail :: "FixHeader \<Rightarrow> bytes \<Rightarrow> (FixHeader \<times> bytes) res" where
  "pack_tail fh bufw =
     (let fh' = fh\<lparr>RemainLength := length bufw\<rparr> in
      rbind (FixHeader_Pack fh') (\<lambda>h. Inr (fh', h @ bufw)))"

text \<open>
  The beginning of \<^verbatim>\<open>Unpack\<close>: read \<^verbatim>\<open>RemainLength\<close> bytes.  All but \<^verbatim>\<open>Connect\<close> turn the error into
  \<^verbatim>\<open>ErrMalformed\<close>.
\<close>

definition restBuffer :: "FixHeader option \<Rightarrow> bytes \<Rightarrow> (bytes \<times> bytes) res" where
  "restBuffer fh r =
     (case fh of None \<Rightarrow> Inl Panic
      | Some fh \<Rightarrow> (case ReadFull (RemainLength fh) r of Inl _ \<Rightarrow> Inl ErrMalformed | Inr x \<Rightarrow> Inr x))"

definition malformed :: "'a res \<Rightarrow> 'a res" where
  "malformed m = (case m of Inl _ \<Rightarrow> Inl ErrMalformed | Inr x \<Rightarrow> Inr x)"

definition ValidateCode :: "byte \<Rightarrow> byte \<Rightarrow> bool" where
  "ValidateCode packType code = True"

section \<open>Connect\<close>

record Connect =
  con_Version :: byte
  con_FixHeader :: "FixHeader option"
  ProtocolLevel :: byte
  UsernameFlag :: bool
  ProtocolName :: bytes
  PasswordFlag :: bool
  WillRetain :: bool
  WillQos :: byte
  WillFlag :: bool
  WillTopic :: bytes
  WillMsg :: bytes
  CleanStart :: bool
  KeepAlive :: uint16
  con_ClientID :: bytes
  con_Username :: bytes
  con_Password :: bytes
  con_Properties :: "Properties option"
  WillProperties :: "Properties option"

definition Connect_flags :: "Connect \<Rightarrow> byte" where
  "Connect_flags c =
     (if UsernameFlag c then 128 else 0) OR (if PasswordFlag c then 64 else 0)
     OR (if WillRetain c then 32 else 0) OR (if WillFlag c then 4 else 0)
     OR (if WillQos c = 1 then 8 else if WillQos c = 2 then 16 else 0)
     OR (if CleanStart c then 2 else 0) OR 0"

definition Connect_body :: "Connect \<Rightarrow> bytes res" where
  "Connect_body c =
     rbind (EncodeUTF8String (con_ClientID c)) (\<lambda>(clienIDByte, _).
     rbind (if WillFlag c then
              rbind (EncodeUTF8String (WillTopic c)) (\<lambda>(willTopicByte, _).
              rbind (EncodeUTF8String (WillMsg c)) (\<lambda>(willMsgByte, _).
              Inr ((if con_Version c = Version5 then Properties_PackWillProperties (WillProperties c) else [])
                   @ willTopicByte @ willMsgByte)))
            else Inr []) (\<lambda>will.
     rbind (if UsernameFlag c then rbind (EncodeUTF8String (con_Username c)) (\<lambda>(b, _). Inr b) else Inr [])
       (\<lambda>username.
     rbind (if PasswordFlag c then rbind (EncodeUTF8String (con_Password c)) (\<lambda>(b, _). Inr b) else Inr [])
       (\<lambda>password.
     Inr ([0x00, 0x04] @ ProtocolName c @ [ProtocolLevel c] @ [Connect_flags c]
          @ writeUint16 (KeepAlive c)
          @ (if con_Version c = Version5 then Properties_Pack (con_Properties c) CONNECT else [])
          @ clienIDByte @ will @ username @ password)))))"

definition Connect_Pack :: "Connect \<Rightarrow> (Connect \<times> bytes) res" where
  "Connect_Pack c =
     rbind (Connect_body c) (\<lambda>bufw.
     rbind (pack_tail \<lparr>PacketType = CONNECT, Flags = FlagReserved, RemainLength = 0\<rparr> bufw) (\<lambda>(fh, w).
     Inr (c\<lparr>con_FixHeader := Some fh\<rparr>, w)))"

definition Connect_unpackPayload :: "Connect \<Rightarrow> bytes \<Rightarrow> Connect res" where
  "Connect_unpackPayload c bufr =
     rbind (readUTF8String True bufr) (\<lambda>(clientID, b1).
     let c = c\<lparr>con_ClientID := clientID\<rparr> in
     if IsVersion3X (con_Version c) \<and> length (con_ClientID c) = 0 \<and> \<not> CleanStart c
     then Inl (CodesErr V3IdentifierRejected)
     else
     rbind (if WillFlag c then
              rbind (if con_Version c = Version5 then
                       (case WillProperties c of None \<Rightarrow> Inl Panic
                        | Some wp \<Rightarrow> rbind (Properties_UnpackWillProperties wp b1)
                            (\<lambda>(wp', b2). Inr (c\<lparr>WillProperties := Some wp'\<rparr>, b2)))
                     else Inr (c, b1)) (\<lambda>(c, b2).
              rbind (readUTF8String True b2) (\<lambda>(t, b3).
              rbind (readUTF8String False b3) (\<lambda>(m, b4).
              Inr (c\<lparr>WillTopic := t, WillMsg := m\<rparr>, b4))))
            else Inr (c, b1)) (\<lambda>(c, b4).
     rbind (if UsernameFlag c then
              rbind (readUTF8String True b4) (\<lambda>(u, b5). Inr (c\<lparr>con_Username := u\<rparr>, b5))
            else Inr (c, b4)) (\<lambda>(c, b5).
     rbind (if PasswordFlag c then
              rbind (readUTF8String True b5) (\<lambda>(p, b6). Inr (c\<lparr>con_Password := p\<rparr>, b6))
            else Inr (c, b5)) (\<lambda>(c, b6). Inr c))))"

definition Connect_parse :: "Connect \<Rightarrow> bytes \<Rightarrow> Connect res" where
  "Connect_parse c bufr =
     rbind (readUTF8String False bufr) (\<lambda>(name, b1).
     rbind (malformed (ReadByte b1)) (\<lambda>(level, b2).
     let c = c\<lparr>ProtocolName := name, ProtocolLevel := level, con_Version := level\<rparr> in
     case version2protoName level of
       None \<Rightarrow> Inl (CodesErr V3UnacceptableProtocolVersion)
     | Some n \<Rightarrow>
         if name \<noteq> n then Inl (CodesErr UnsupportedProtocolVersion)
         else
         rbind (malformed (ReadByte b2)) (\<lambda>(connectFlags, b3).
         if 1 AND connectFlags \<noteq> 0 then Inl ErrMalformed
         else
         let c = c\<lparr>CleanStart := 0 < 1 AND drop_bit 1 connectFlags,
                   WillFlag := 0 < 1 AND drop_bit 2 connectFlags,
                   WillQos := 3 AND drop_bit 3 connectFlags\<rparr> in
         if \<not> WillFlag c \<and> WillQos c \<noteq> 0 then Inl ErrMalformed
         else
         let c = c\<lparr>WillRetain := 0 < 1 AND drop_bit 5 connectFlags\<rparr> in
         if \<not> WillFlag c \<and> WillRetain c then Inl ErrMalformed
         else
         let c = c\<lparr>PasswordFlag := 0 < 1 AND drop_bit 6 connectFlags,
                   UsernameFlag := 0 < 1 AND drop_bit 7 connectFlags\<rparr> in
         rbind (malformed (readUint16 b3)) (\<lambda>(ka, b4).
         let c = c\<lparr>KeepAlive := ka\<rparr> in
         if con_Version c = Version5 then
           rbind (Properties_Unpack CONNECT Properties_zero b4) (\<lambda>(p, b5).
           Connect_unpackPayload
             (c\<lparr>con_Properties := Some p, WillProperties := Some Properties_zero\<rparr>) b5)
         else Connect_unpackPayload c b4))))"

definition Connect_Unpack :: "Connect \<Rightarrow> bytes \<Rightarrow> (Connect \<times> bytes) res" where
  "Connect_Unpack c r =
     (case con_FixHeader c of None \<Rightarrow> Inl Panic
      | Some fh \<Rightarrow>
          rbind (ReadFull (RemainLength fh) r) (\<lambda>(buf, rest).
          rbind (Connect_parse c buf) (\<lambda>c'. Inr (c', rest))))"

definition Connect_zero :: Connect where
  "Connect_zero = \<lparr>con_Version = 0, con_FixHeader = None, ProtocolLevel = 0, UsernameFlag = False,
     ProtocolName = [], PasswordFlag = False, WillRetain = False, WillQos = 0, WillFlag = False,
     WillTopic = [], WillMsg = [], CleanStart = False, KeepAlive = 0, con_ClientID = [],
     con_Username = [], con_Password = [], con_Properties = None, WillProperties = None\<rparr>"

definition NewConnectPacket :: "FixHeader \<Rightarrow> byte \<Rightarrow> bytes \<Rightarrow> (Connect \<times> bytes) res" where
  "NewConnectPacket fh version r =
     (if Flags fh \<noteq> FlagReserved then Inl ErrMalformed
      else Connect_Unpack (Connect_zero\<lparr>con_FixHeader := Some fh, con_Version := version\<rparr>) r)"

section \<open>Connack\<close>

record Connack =
  cack_Version :: byte
  cack_FixHeader :: "FixHeader option"
  cack_Code :: byte
  SessionPresent :: bool
  cack_Properties :: "Properties option"

definition Connack_body :: "Connack \<Rightarrow> bytes" where
  "Connack_body c =
     [if SessionPresent c then 1 else 0] @ [cack_Code c]
     @ (if cack_Version c = Version5 then Properties_Pack (cack_Properties c) CONNACK else [])"

definition Connack_Pack :: "Connack \<Rightarrow> (Connack \<times> bytes) res" where
  "Connack_Pack c =
     rbind (pack_tail \<lparr>PacketType = CONNACK, Flags = FlagReserved, RemainLength = 0\<rparr> (Connack_body c))
       (\<lambda>(fh, w). Inr (c\<lparr>cack_FixHeader := Some fh\<rparr>, w))"

text \<open>The first \<^verbatim>\<open>ReadByte\<close> error of \<^verbatim>\<open>Unpack\<close> is not looked at: the byte is then zero.\<close>

definition Connack_parse :: "Connack \<Rightarrow> bytes \<Rightarrow> Connack res" where
  "Connack_parse c bufr =
     (let (sp, b1) = (case ReadByte bufr of Inl _ \<Rightarrow> (0, bufr) | Inr x \<Rightarrow> x) in
      if 0 < 127 AND drop_bit 1 sp then Inl ErrMalformed
      else
      rbind (malformed (ReadByte b1)) (\<lambda>(code, b2).
      let c = c\<lparr>SessionPresent := sp = 1, cack_Code := code\<rparr> in
      if cack_Version c = Version5 then
        if \<not> ValidateCode CONNACK code then Inl ErrProtocol
        else rbind (Properties_Unpack CONNACK Properties_zero b2) (\<lambda>(p, _).
          Inr (c\<lparr>cack_Properties := Some p\<rparr>))
      else Inr c))"

definition Connack_Unpack :: "Connack \<Rightarrow> bytes \<Rightarrow> (Connack \<times> bytes) res" where
  "Connack_Unpack c r =
     rbind (restBuffer (cack_FixHeader c) r) (\<lambda>(buf, rest).
     rbind (Connack_parse c buf) (\<lambda>c'. Inr (c', rest)))"

definition NewConnackPacket :: "FixHeader \<Rightarrow> byte \<Rightarrow> bytes \<Rightarrow> (Connack \<times> bytes) res" where
  "NewConnackPacket fh version r =
     (if Flags fh \<noteq> FlagReserved then Inl ErrMalformed
      else Connack_Unpack \<lparr>cack_Version = Version5, cack_FixHeader = Some fh, cack_Code = 0,
             SessionPresent = False, cack_Properties = None\<rparr> r)"

definition Connect_NewConnackPacket :: "Connect \<Rightarrow> byte \<Rightarrow> bool \<Rightarrow> Connack" where
  "Connect_NewConnackPacket c code sessionReuse =
     \<lparr>cack_Version = con_Version c, cack_FixHeader = None, cack_Code = code,
      SessionPresent = (\<not> CleanStart c \<and> sessionReuse \<and> code = Success), cack_Properties = None\<rparr>"

section \<open>Publish and its acknowledgements\<close>

record Publish =
  pub_Version :: byte
  pub_FixHeader :: "FixHeader option"
  Dup :: bool
  Qos :: byte
  Retain :: bool
  TopicName :: bytes
  pub_PacketID :: uint16
  Payload :: bytes
  pub_Properties :: "Properties option"

definition Publish_flags :: "Publish \<Rightarrow> byte" where
  "Publish_flags p = (if Dup p then 8 else 0) OR (if Retain p then 1 else 0) OR push_bit 1 (Qos p)"

definition Publish_body :: "Publish \<Rightarrow> bytes" where
  "Publish_body p =
     writeBinary (TopicName p)
     @ (if Qos p = 1 \<or> Qos p = 2 then writeUint16 (pub_PacketID p) else [])
     @ (if pub_Version p = Version5 then Properties_Pack (pub_Properties p) PUBLISH else [])
     @ Payload p"

definition Publish_Pack :: "Publish \<Rightarrow> (Publish \<times> bytes) res" where
  "Publish_Pack p =
     rbind (pack_tail \<lparr>PacketType = PUBLISH, Flags = Publish_flags p, RemainLength = 0\<rparr> (Publish_body p))
       (\<lambda>(fh, w). Inr (p\<lparr>pub_FixHeader := Some fh\<rparr>, w))"

definition Publish_parse :: "Publish \<Rightarrow> bytes \<Rightarrow> Publish res" where
  "Publish_parse p bufr =
     rbind (readUTF8String True bufr) (\<lambda>(name, b1).
     let p = p\<lparr>TopicName := name\<rparr> in
     if \<not> ValidTopicName True name then Inl ErrMalformed
     else
     rbind (if 0 < Qos p then rbind (readUint16 b1) (\<lambda>(pid, b2). Inr (p\<lparr>pub_PacketID := pid\<rparr>, b2))
            else Inr (p, b1)) (\<lambda>(p, b2).
     rbind (if pub_Version p = Version5 then
              rbind (Properties_Unpack PUBLISH Properties_zero b2)
                (\<lambda>(q, b3). Inr (p\<lparr>pub_Properties := Some q\<rparr>, b3))
            else Inr (p, b2)) (\<lambda>(p, b3).
     Inr (p\<lparr>Payload := b3\<rparr>))))"

definition Publish_Unpack :: "Publish \<Rightarrow> bytes \<Rightarrow> (Publish \<times> bytes) res" where
  "Publish_Unpack p r =
     rbind (restBuffer (pub_FixHeader p) r) (\<lambda>(buf, rest).
     rbind (Publish_parse p buf) (\<lambda>p'. Inr (p', rest)))"

definition NewPublishPacket :: "FixHeader \<Rightarrow> byte \<Rightarrow> bytes \<Rightarrow> (Publish \<times> bytes) res" where
  "NewPublishPacket fh version r =
     (let dup = 0 < 1 AND drop_bit 3 (Flags fh); qos = drop_bit 1 (Flags fh) AND 3 in
      if qos = 0 \<and> dup then Inl ErrMalformed
      else if 2 < qos then Inl ErrMalformed
      else Publish_Unpack \<lparr>pub_Version = version, pub_FixHeader = Some fh, Dup = dup, Qos = qos,
             Retain = (Flags fh AND 1 = 1), TopicName = [], pub_PacketID = 0, Payload = [],
             pub_Properties = None\<rparr> r)"

text \<open>
  \<^verbatim>\<open>Puback\<close>, \<^verbatim>\<open>Pubrec\<close> and \<^verbatim>\<open>Pubcomp\<close> have the same fields, and their methods differ only in the
  packet type.
\<close>

record Ack =
  ack_Version :: byte
  ack_FixHeader :: "FixHeader option"
  ack_PacketID :: uint16
  ack_Code :: byte
  ack_Properties :: "Properties option"

type_synonym Puback = Ack
type_synonym Pubrec = Ack
type_synonym Pubcomp = Ack

definition Ack_body :: "byte \<Rightarrow> Ack \<Rightarrow> bytes" where
  "Ack_body pt p =
     writeUint16 (ack_PacketID p)
     @ (if ack_Version p = Version5 \<and> (ack_Code p \<noteq> Success \<or> ack_Properties p \<noteq> None)
        then ack_Code p # Properties_Pack (ack_Properties p) pt else [])"

definition Ack_Pack :: "byte \<Rightarrow> Ack \<Rightarrow> (Ack \<times> bytes) res" where
  "Ack_Pack pt p =
     rbind (pack_tail \<lparr>PacketType = pt, Flags = FlagReserved, RemainLength = 0\<rparr> (Ack_body pt p))
       (\<lambda>(fh, w). Inr (p\<lparr>ack_FixHeader := Some fh\<rparr>, w))"

definition Ack_parse :: "byte \<Rightarrow> nat \<Rightarrow> Ack \<Rightarrow> bytes \<Rightarrow> Ack res" where
  "Ack_parse pt remainLength p bufr =
     rbind (readUint16 bufr) (\<lambda>(pid, b1).
     let p = p\<lparr>ack_PacketID := pid\<rparr> in
     if remainLength = 2 then Inr (p\<lparr>ack_Code := Success\<rparr>)
     else if ack_Version p = Version5 then
       rbind (malformed (ReadByte b1)) (\<lambda>(code, b2).
       if \<not> ValidateCode pt code then Inl ErrProtocol
       else rbind (Properties_Unpack pt Properties_zero b2)
         (\<lambda>(q, _). Inr (p\<lparr>ack_Code := code, ack_Properties := Some q\<rparr>)))
     else Inr p)"

definition Ack_Unpack :: "byte \<Rightarrow> Ack \<Rightarrow> bytes \<Rightarrow> (Ack \<times> bytes) res" where
  "Ack_Unpack pt p r =
     rbind (restBuffer (ack_FixHeader p) r) (\<lambda>(buf, rest).
     rbind (Ack_parse pt (RemainLength (the (ack_FixHeader p))) p buf) (\<lambda>p'. Inr (p', rest)))"

definition NewAckPacket :: "byte \<Rightarrow> FixHeader \<Rightarrow> byte \<Rightarrow> bytes \<Rightarrow> (Ack \<times> bytes) res" where
  "NewAckPacket pt fh version r =
     Ack_Unpack pt \<lparr>ack_Version = version, ack_FixHeader = Some fh, ack_PacketID = 0, ack_Code = 0,
       ack_Properties = None\<rparr> r"

definition Puback_Pack :: "Puback \<Rightarrow> (Puback \<times> bytes) res" where
  "Puback_Pack = Ack_Pack PUBACK"

definition NewPubackPacket :: "FixHeader \<Rightarrow> byte \<Rightarrow> bytes \<Rightarrow> (Puback \<times> bytes) res" where
  "NewPubackPacket = NewAckPacket PUBACK"

definition Pubrec_Pack :: "Pubrec \<Rightarrow> (Pubrec \<times> bytes) res" where
  "Pubrec_Pack = Ack_Pack PUBREC"

definition NewPubrecPacket :: "FixHeader \<Rightarrow> byte \<Rightarrow> bytes \<Rightarrow> (Pubrec \<times> bytes) res" where
  "NewPubrecPacket = NewAckPacket PUBREC"

definition Pubrec_Unpack :: "Pubrec \<Rightarrow> bytes \<Rightarrow> (Pubrec \<times> bytes) res" where
  "Pubrec_Unpack = Ack_Unpack PUBREC"

definition Pubcomp_Pack :: "Pubcomp \<Rightarrow> (Pubcomp \<times> bytes) res" where
  "Pubcomp_Pack = Ack_Pack PUBCOMP"

definition NewPubcompPacket :: "FixHeader \<Rightarrow> byte \<Rightarrow> bytes \<Rightarrow> (Pubcomp \<times> bytes) res" where
  "NewPubcompPacket = NewAckPacket PUBCOMP"

definition Pubcomp_Unpack :: "Pubcomp \<Rightarrow> bytes \<Rightarrow> (Pubcomp \<times> bytes) res" where
  "Pubcomp_Unpack = Ack_Unpack PUBCOMP"

definition Publish_NewPuback :: "Publish \<Rightarrow> byte \<Rightarrow> Properties option \<Rightarrow> Puback" where
  "Publish_NewPuback p code ppt =
     \<lparr>ack_Version = pub_Version p, ack_FixHeader = None, ack_PacketID = pub_PacketID p,
      ack_Code = code, ack_Properties = ppt\<rparr>"

definition Publish_NewPubrec :: "Publish \<Rightarrow> byte \<Rightarrow> Properties option \<Rightarrow> Pubrec" where
  "Publish_NewPubrec p code ppt =
     \<lparr>ack_Version = pub_Version p, ack_FixHeader = None, ack_PacketID = pub_PacketID p,
      ack_Code = code, ack_Properties = ppt\<rparr>"

record Pubrel =
  prel_FixHeader :: "FixHeader option"
  prel_PacketID :: uint16
  prel_Code :: byte
  prel_Properties :: "Properties option"

definition Pubrel_body :: "Pubrel \<Rightarrow> bytes" where
  "Pubrel_body p =
     writeUint16 (prel_PacketID p)
     @ (if prel_Code p \<noteq> Success \<or> prel_Properties p \<noteq> None
        then prel_Code p # Properties_Pack (prel_Properties p) PUBREL else [])"

definition Pubrel_Pack :: "Pubrel \<Rightarrow> (Pubrel \<times> bytes) res" where
  "Pubrel_Pack p =
     rbind (pack_tail \<lparr>PacketType = PUBREL, Flags = FlagPubrel, RemainLength = 0\<rparr> (Pubrel_body p))
       (\<lambda>(fh, w). Inr (p\<lparr>prel_FixHeader := Some fh\<rparr>, w))"

definition Pubrel_parse :: "nat \<Rightarrow> Pubrel \<Rightarrow> bytes \<Rightarrow> Pubrel res" where
  "Pubrel_parse remainLength p bufr =
     rbind (readUint16 bufr) (\<lambda>(pid, b1).
     let p = p\<lparr>prel_PacketID := pid\<rparr> in
     if remainLength = 2 then Inr (p\<lparr>prel_Code := Success\<rparr>)
     else
       rbind (ReadByte b1) (\<lambda>(code, b2).
       if \<not> ValidateCode PUBREL code then Inl ErrProtocol
       else rbind (Properties_Unpack PUBREL Properties_zero b2)
         (\<lambda>(q, _). Inr (p\<lparr>prel_Code := code, prel_Properties := Some q\<rparr>))))"

definition Pubrel_Unpack :: "Pubrel \<Rightarrow> bytes \<Rightarrow> (Pubrel \<times> bytes) res" where
  "Pubrel_Unpack p r =
     rbind (restBuffer (prel_FixHeader p) r) (\<lambda>(buf, rest).
     rbind (Pubrel_parse (RemainLength (the (prel_FixHeader p))) p buf) (\<lambda>p'. Inr (p', rest)))"

definition NewPubrelPacket :: "FixHeader \<Rightarrow> bytes \<Rightarrow> (Pubrel \<times> bytes) res" where
  "NewPubrelPacket fh r =
     Pubrel_Unpack \<lparr>prel_FixHeader = Some fh, prel_PacketID = 0, prel_Code = 0, prel_Properties = None\<rparr> r"

definition Pubrec_NewPubrel :: "Pubrec \<Rightarrow> Pubrel" where
  "Pubrec_NewPubrel p =
     \<lparr>prel_FixHeader = Some \<lparr>PacketType = PUBREL, Flags = FlagPubrel, RemainLength = 0\<rparr>,
      prel_PacketID = ack_PacketID p, prel_Code = 0, prel_Properties = None\<rparr>"

definition Pubrel_NewPubcomp :: "Pubrel \<Rightarrow> Pubcomp" where
  "Pubrel_NewPubcomp p =
     \<lparr>ack_Version = 0,
      ack_FixHeader = Some \<lparr>PacketType = PUBCOMP, Flags = FlagReserved, RemainLength = 2\<rparr>,
      ack_PacketID = prel_PacketID p, ack_Code = 0, ack_Properties = None\<rparr>"

section \<open>Subscribe and unsubscribe\<close>

record SubOptions =
  so_Qos :: byte
  RetainHandling :: byte
  NoLocal :: bool
  RetainAsPublished :: bool

record Topic = SubOptions +
  Name :: bytes

record Subscribe =
  sub_Version :: byte
  sub_FixHeader :: "FixHeader option"
  sub_PacketID :: uint16
  sub_Topics :: "Topic list"
  sub_Properties :: "Properties option"

definition Topic_Pack :: "byte \<Rightarrow> Topic \<Rightarrow> bytes" where
  "Topic_Pack version v =
     writeUTF8String (Name v)
     @ [if version = Version5
        then so_Qos v OR (if NoLocal v then 4 else 0) OR (if RetainAsPublished v then 8 else 0)
             OR push_bit 4 (RetainHandling v)
        else so_Qos v]"

definition Subscribe_body :: "Subscribe \<Rightarrow> bytes" where
  "Subscribe_body p =
     writeUint16 (sub_PacketID p)
     @ (if sub_Version p = Version5 then Properties_Pack (sub_Properties p) SUBSCRIBE else [])
     @ concat (map (Topic_Pack (sub_Version p)) (sub_Topics p))"

definition Subscribe_Pack :: "Subscribe \<Rightarrow> (Subscribe \<times> bytes) res" where
  "Subscribe_Pack p =
     rbind (pack_tail \<lparr>PacketType = SUBSCRIBE, Flags = FlagSubscribe, RemainLength = 0\<rparr> (Subscribe_body p))
       (\<lambda>(fh, w). Inr (p\<lparr>sub_FixHeader := Some fh\<rparr>, w))"

text \<open>One round of the loop over the topic filters.\<close>

definition Topic_Unpack :: "byte \<Rightarrow> bytes \<Rightarrow> (Topic \<times> bytes) res" where
  "Topic_Unpack version bufr =
     rbind (readUTF8String True bufr) (\<lambda>(topicFilter, b1).
     if version = Version5 \<and> \<not> ValidV5Topic topicFilter then Inl ErrMalformed
     else if version \<noteq> Version5 \<and> \<not> ValidTopicFilter True topicFilter then Inl ErrMalformed
     else
     rbind (malformed (ReadByte b1)) (\<lambda>(opts, b2).
     let topic =
       (if version = Version5
        then \<lparr>so_Qos = opts AND 3, RetainHandling = 3 AND drop_bit 4 opts,
              NoLocal = 0 < 1 AND drop_bit 2 opts, RetainAsPublished = 0 < 1 AND drop_bit 3 opts,
              Name = topicFilter\<rparr>
        else \<lparr>so_Qos = opts, RetainHandling = 0, NoLocal = False, RetainAsPublished = False,
              Name = topicFilter\<rparr>) in
     if version \<noteq> Version5 \<and> 2 < so_Qos topic then Inl ErrProtocol
     else if 3 AND drop_bit 6 opts \<noteq> 0 then Inl ErrProtocol
     else if 2 < so_Qos topic then Inl ErrProtocol
     else Inr (topic, b2)))"

lemma Topic_Unpack_consumes: "Topic_Unpack v b = Inr (t, r) \<Longrightarrow> length r < length b"
  by (auto simp: Topic_Unpack_def rbind_eq_Inr_conv malformed_def Let_def
      split: if_splits sum.splits dest!: readUTF8String_consumes)

function Subscribe_topics :: "byte \<Rightarrow> Topic list \<Rightarrow> bytes \<Rightarrow> Topic list res" where
  "Subscribe_topics version topics bufr =
     rbind (Topic_Unpack version bufr) (\<lambda>(t, r).
       if length r = 0 then Inr (topics @ [t]) else Subscribe_topics version (topics @ [t]) r)"
  by pat_completeness auto
termination
  by (relation "measure (\<lambda>(v, ts, b). length b)") (auto dest: Topic_Unpack_consumes)

declare Subscribe_topics.simps [simp del]

definition Subscribe_parse :: "Subscribe \<Rightarrow> bytes \<Rightarrow> Subscribe res" where
  "Subscribe_parse p bufr =
     rbind (readUint16 bufr) (\<lambda>(pid, b1).
     let p = p\<lparr>sub_PacketID := pid\<rparr> in
     rbind (if sub_Version p = Version5 then
              rbind (Properties_Unpack SUBSCRIBE Properties_zero b1)
                (\<lambda>(q, b2). Inr (p\<lparr>sub_Properties := Some q\<rparr>, b2))
            else Inr (p, b1)) (\<lambda>(p, b2).
     rbind (Subscribe_topics (sub_Version p) (sub_Topics p) b2) (\<lambda>ts.
     Inr (p\<lparr>sub_Topics := ts\<rparr>))))"

definition Subscribe_Unpack :: "Subscribe \<Rightarrow> bytes \<Rightarrow> (Subscribe \<times> bytes) res" where
  "Subscribe_Unpack p r =
     rbind (restBuffer (sub_FixHeader p) r) (\<lambda>(buf, rest).
     rbind (Subscribe_parse p buf) (\<lambda>p'. Inr (p', rest)))"

definition NewSubscribePacket :: "FixHeader \<Rightarrow> byte \<Rightarrow> bytes \<Rightarrow> (Subscribe \<times> bytes) res" where
  "NewSubscribePacket fh version r =
     (if Flags fh \<noteq> FlagSubscribe then Inl ErrMalformed
      else Subscribe_Unpack \<lparr>sub_Version = version, sub_FixHeader = Some fh, sub_PacketID = 0,
             sub_Topics = [], sub_Properties = None\<rparr> r)"

text \<open>\<^verbatim>\<open>Suback\<close> and \<^verbatim>\<open>Unsuback\<close> have the same fields.\<close>

record Suback =
  sack_Version :: byte
  sack_FixHeader :: "FixHeader option"
  sack_PacketID :: uint16
  sack_Payload :: "byte list"
  sack_Properties :: "Properties option"

type_synonym Unsuback = Suback

definition Subscribe_NewSuback :: "Subscribe \<Rightarrow> Suback" where
  "Subscribe_NewSuback p =
     \<lparr>sack_Version = sub_Version p,
      sack_FixHeader = Some \<lparr>PacketType = SUBACK, Flags = FlagReserved, RemainLength = 0\<rparr>,
      sack_PacketID = sub_PacketID p, sack_Payload = map so_Qos (sub_Topics p),
      sack_Properties = None\<rparr>"

definition Suback_body :: "byte \<Rightarrow> Suback \<Rightarrow> bytes" where
  "Suback_body pt p =
     writeUint16 (sack_PacketID p)
     @ (if sack_Version p = Version5 then Properties_Pack (sack_Properties p) pt else [])
     @ sack_Payload p"

definition Suback_Pack :: "Suback \<Rightarrow> (Suback \<times> bytes) res" where
  "Suback_Pack p =
     rbind (pack_tail \<lparr>PacketType = SUBACK, Flags = FlagReserved, RemainLength = 0\<rparr> (Suback_body SUBACK p))
       (\<lambda>(fh, w). Inr (p\<lparr>sack_FixHeader := Some fh\<rparr>, w))"

text \<open>The loop that reads reason codes until the buffer is empty, at least one.\<close>

fun read_codes :: "byte \<Rightarrow> byte list \<Rightarrow> bytes \<Rightarrow> byte list res" where
  "read_codes pt payload [] = Inl ErrMalformed"
| "read_codes pt payload (b # r) =
     (if \<not> ValidateCode pt b then Inl ErrProtocol
      else if length r = 0 then Inr (payload @ [b])
      else read_codes pt (payload @ [b]) r)"

definition Suback_parse :: "Suback \<Rightarrow> bytes \<Rightarrow> Suback res" where
  "Suback_parse p bufr =
     rbind (malformed (readUint16 bufr)) (\<lambda>(pid, b1).
     let p = p\<lparr>sack_PacketID := pid\<rparr> in
     rbind (if sack_Version p = Version5 then
              rbind (Properties_Unpack SUBACK Properties_zero b1)
                (\<lambda>(q, b2). Inr (p\<lparr>sack_Properties := Some q\<rparr>, b2))
            else Inr (p, b1)) (\<lambda>(p, b2).
     rbind (read_codes SUBACK (sack_Payload p) b2) (\<lambda>cs. Inr (p\<lparr>sack_Payload := cs\<rparr>))))"

definition Suback_Unpack :: "Suback \<Rightarrow> bytes \<Rightarrow> (Suback \<times> bytes) res" where
  "Suback_Unpack p r =
     rbind (restBuffer (sack_FixHeader p) r) (\<lambda>(buf, rest).
     rbind (Suback_parse p buf) (\<lambda>p'. Inr (p', rest)))"

definition NewSubackPacket :: "FixHeader \<Rightarrow> byte \<Rightarrow> bytes \<Rightarrow> (Suback \<times> bytes) res" where
  "NewSubackPacket fh version r =
     (if Flags fh \<noteq> FlagReserved then Inl ErrMalformed
      else Suback_Unpack \<lparr>sack_Version = version, sack_FixHeader = Some fh, sack_PacketID = 0,
             sack_Payload = [], sack_Properties = None\<rparr> r)"

record Unsubscribe =
  uns_Version :: byte
  uns_FixHeader :: "FixHeader option"
  uns_PacketID :: uint16
  uns_Topics :: "bytes list"
  uns_Properties :: "Properties option"

definition Unsubscribe_NewUnSubBack :: "Unsubscribe \<Rightarrow> Unsuback" where
  "Unsubscribe_NewUnSubBack u =
     \<lparr>sack_Version = uns_Version u,
      sack_FixHeader = Some \<lparr>PacketType = UNSUBACK, Flags = 0, RemainLength = 0\<rparr>,
      sack_PacketID = uns_PacketID u,
      sack_Payload = (if uns_Version u = Version5 then replicate (length (uns_Topics u)) 0 else []),
      sack_Properties = None\<rparr>"

definition Unsubscribe_body :: "Unsubscribe \<Rightarrow> bytes" where
  "Unsubscribe_body u =
     writeUint16 (uns_PacketID u)
     @ (if uns_Version u = Version5 then Properties_Pack (uns_Properties u) UNSUBSCRIBE else [])
     @ concat (map writeUTF8String (uns_Topics u))"

definition Unsubscribe_Pack :: "Unsubscribe \<Rightarrow> (Unsubscribe \<times> bytes) res" where
  "Unsubscribe_Pack u =
     rbind (pack_tail \<lparr>PacketType = UNSUBSCRIBE, Flags = FlagUnsubscribe, RemainLength = 0\<rparr> (Unsubscribe_body u))
       (\<lambda>(fh, w). Inr (u\<lparr>uns_FixHeader := Some fh\<rparr>, w))"

definition TopicFilter_Unpack :: "bytes \<Rightarrow> (bytes \<times> bytes) res" where
  "TopicFilter_Unpack bufr =
     rbind (readUTF8String True bufr) (\<lambda>(topicFilter, b1).
     if \<not> ValidTopicFilter True topicFilter then Inl ErrProtocol else Inr (topicFilter, b1))"

lemma TopicFilter_Unpack_consumes: "TopicFilter_Unpack b = Inr (t, r) \<Longrightarrow> length r < length b"
  by (auto simp: TopicFilter_Unpack_def rbind_eq_Inr_conv split: if_splits dest!: readUTF8String_consumes)

function Unsubscribe_topics :: "bytes list \<Rightarrow> bytes \<Rightarrow> bytes list res" where
  "Unsubscribe_topics topics bufr =
     rbind (TopicFilter_Unpack bufr) (\<lambda>(t, r).
       if length r = 0 then Inr (topics @ [t]) else Unsubscribe_topics (topics @ [t]) r)"
  by pat_completeness auto
termination
  by (relation "measure (\<lambda>(ts, b). length b)") (auto dest: TopicFilter_Unpack_consumes)

declare Unsubscribe_topics.simps [simp del]

definition Unsubscribe_parse :: "Unsubscribe \<Rightarrow> bytes \<Rightarrow> Unsubscribe res" where
  "Unsubscribe_parse u bufr =
     rbind (readUint16 bufr) (\<lambda>(pid, b1).
     let u = u\<lparr>uns_PacketID := pid\<rparr> in
     rbind (if uns_Version u = Version5 then
              rbind (Properties_Unpack UNSUBSCRIBE Properties_zero b1)
                (\<lambda>(q, b2). Inr (u\<lparr>uns_Properties := Some q\<rparr>, b2))
            else Inr (u, b1)) (\<lambda>(u, b2).
     rbind (Unsubscribe_topics (uns_Topics u) b2) (\<lambda>ts. Inr (u\<lparr>uns_Topics := ts\<rparr>))))"

definition Unsubscribe_Unpack :: "Unsubscribe \<Rightarrow> bytes \<Rightarrow> (Unsubscribe \<times> bytes) res" where
  "Unsubscribe_Unpack u r =
     rbind (restBuffer (uns_FixHeader u) r) (\<lambda>(buf, rest).
     rbind (Unsubscribe_parse u buf) (\<lambda>u'. Inr (u', rest)))"

definition NewUnsubscribePacket :: "FixHeader \<Rightarrow> byte \<Rightarrow> bytes \<Rightarrow> (Unsubscribe \<times> bytes) res" where
  "NewUnsubscribePacket fh version r =
     (if Flags fh \<noteq> FlagUnsubscribe then Inl ErrMalformed
      else Unsubscribe_Unpack \<lparr>uns_Version = version, uns_FixHeader = Some fh, uns_PacketID = 0,
             uns_Topics = [], uns_Properties = None\<rparr> r)"

definition Unsuback_Pack :: "Unsuback \<Rightarrow> (Unsuback \<times> bytes) res" where
  "Unsuback_Pack p =
     rbind (pack_tail \<lparr>PacketType = UNSUBACK, Flags = FlagReserved, RemainLength = 0\<rparr> (Suback_body UNSUBACK p))
       (\<lambda>(fh, w). Inr (p\<lparr>sack_FixHeader := Some fh\<rparr>, w))"

definition Unsuback_parse :: "Unsuback \<Rightarrow> bytes \<Rightarrow> Unsuback res" where
  "Unsuback_parse p bufr =
     rbind (readUint16 bufr) (\<lambda>(pid, b1).
     let p = p\<lparr>sack_PacketID := pid\<rparr> in
     if IsVersion3X (sack_Version p) then Inr p
     else
       rbind (Properties_Unpack UNSUBACK Properties_zero b1) (\<lambda>(q, b2).
       rbind (read_codes UNSUBACK (sack_Payload p) b2) (\<lambda>cs.
       Inr (p\<lparr>sack_Properties := Some q, sack_Payload := cs\<rparr>))))"

definition Unsuback_Unpack :: "Unsuback \<Rightarrow> bytes \<Rightarrow> (Unsuback \<times> bytes) res" where
  "Unsuback_Unpack p r =
     rbind (restBuffer (sack_FixHeader p) r) (\<lambda>(buf, rest).
     rbind (Unsuback_parse p buf) (\<lambda>p'. Inr (p', rest)))"

definition NewUnsubackPacket :: "FixHeader \<Rightarrow> byte \<Rightarrow> bytes \<Rightarrow> (Unsuback \<times> bytes) res" where
  "NewUnsubackPacket fh version r =
     (if Flags fh \<noteq> FlagReserved then Inl ErrMalformed
      else Unsuback_Unpack \<lparr>sack_Version = version, sack_FixHeader = Some fh, sack_PacketID = 0,
             sack_Payload = [], sack_Properties = None\<rparr> r)"

section \<open>Ping, disconnect and auth\<close>

record Pingreq =
  preq_FixHeader :: "FixHeader option"

record Pingresp =
  presp_FixHeader :: "FixHeader option"

definition Ping_Unpack :: "FixHeader option \<Rightarrow> unit res" where
  "Ping_Unpack fh =
     (case fh of None \<Rightarrow> Inl Panic
      | Some fh \<Rightarrow> if RemainLength fh \<noteq> 0 then Inl ErrMalformed else Inr ())"

definition Pingreq_Pack :: "Pingreq \<Rightarrow> (Pingreq \<times> bytes) res" where
  "Pingreq_Pack p =
     (let fh = \<lparr>PacketType = PINGREQ, Flags = 0, RemainLength = 0\<rparr> in
      rbind (FixHeader_Pack fh) (\<lambda>w. Inr (p\<lparr>preq_FixHeader := Some fh\<rparr>, w)))"

definition NewPingreqPacket :: "FixHeader \<Rightarrow> bytes \<Rightarrow> (Pingreq \<times> bytes) res" where
  "NewPingreqPacket fh r =
     (if Flags fh \<noteq> FlagReserved then Inl ErrMalformed
      else rbind (Ping_Unpack (Some fh)) (\<lambda>_. Inr (\<lparr>preq_FixHeader = Some fh\<rparr>, r)))"

definition Pingreq_NewPingresp :: "Pingreq \<Rightarrow> Pingresp" where
  "Pingreq_NewPingresp p =
     \<lparr>presp_FixHeader = Some \<lparr>PacketType = PINGRESP, Flags = 0, RemainLength = 0\<rparr>\<rparr>"

definition Pingresp_Pack :: "Pingresp \<Rightarrow> (Pingresp \<times> bytes) res" where
  "Pingresp_Pack p =
     (let fh = \<lparr>PacketType = PINGRESP, Flags = 0, RemainLength = 0\<rparr> in
      rbind (FixHeader_Pack fh) (\<lambda>w. Inr (p\<lparr>presp_FixHeader := Some fh\<rparr>, w)))"

definition NewPingrespPacket :: "FixHeader \<Rightarrow> bytes \<Rightarrow> (Pingresp \<times> bytes) res" where
  "NewPingrespPacket fh r =
     (if Flags fh \<noteq> FlagReserved then Inl ErrMalformed
      else rbind (Ping_Unpack (Some fh)) (\<lambda>_. Inr (\<lparr>presp_FixHeader = Some fh\<rparr>, r)))"

record Disconnect =
  dis_Version :: byte
  dis_FixHeader :: "FixHeader option"
  dis_Code :: byte
  dis_Properties :: "Properties option"

definition Disconnect_body :: "Disconnect \<Rightarrow> bytes" where
  "Disconnect_body d =
     (if IsVersion3X (dis_Version d) then []
      else if dis_Code d \<noteq> Success \<or> dis_Properties d \<noteq> None
      then dis_Code d # Properties_Pack (dis_Properties d) DISCONNECT
      else [])"

definition Disconnect_Pack :: "Disconnect \<Rightarrow> (Disconnect \<times> bytes) res" where
  "Disconnect_Pack d =
     rbind (pack_tail \<lparr>PacketType = DISCONNECT, Flags = FlagReserved, RemainLength = 0\<rparr> (Disconnect_body d))
       (\<lambda>(fh, w). Inr (d\<lparr>dis_FixHeader := Some fh\<rparr>, w))"

definition Disconnect_parse :: "nat \<Rightarrow> Disconnect \<Rightarrow> bytes \<Rightarrow> Disconnect res" where
  "Disconnect_parse remainLength d bufr =
     (if dis_Version d = Version5 then
        let d = d\<lparr>dis_Properties := Some Properties_zero\<rparr> in
        if remainLength = 0 then Inr (d\<lparr>dis_Code := Success\<rparr>)
        else
          rbind (malformed (ReadByte bufr)) (\<lambda>(code, b1).
          if \<not> ValidateCode DISCONNECT code then Inl ErrProtocol
          else rbind (Properties_Unpack DISCONNECT Properties_zero b1)
            (\<lambda>(q, _). Inr (d\<lparr>dis_Code := code, dis_Properties := Some q\<rparr>)))
      else Inr d)"

definition Disconnect_Unpack :: "Disconnect \<Rightarrow> bytes \<Rightarrow> (Disconnect \<times> bytes) res" where
  "Disconnect_Unpack d r =
     rbind (restBuffer (dis_FixHeader d) r) (\<lambda>(buf, rest).
     rbind (Disconnect_parse (RemainLength (the (dis_FixHeader d))) d buf) (\<lambda>d'. Inr (d', rest)))"

definition NewDisConnectPackets :: "FixHeader \<Rightarrow> byte \<Rightarrow> bytes \<Rightarrow> (Disconnect \<times> bytes) res" where
  "NewDisConnectPackets fh version r =
     (if Flags fh \<noteq> 0 then Inl ErrMalformed
      else Disconnect_Unpack \<lparr>dis_Version = version, dis_FixHeader = Some fh, dis_Code = 0,
             dis_Properties = None\<rparr> r)"

record Auth =
  auth_FixHeader :: "FixHeader option"
  auth_Code :: byte
  auth_Properties :: "Properties option"

definition Auth_body :: "Auth \<Rightarrow> bytes" where
  "Auth_body a =
     (if auth_Code a \<noteq> Success \<or> auth_Properties a \<noteq> None
      then auth_Code a # Properties_Pack (auth_Properties a) AUTH else [])"

definition Auth_Pack :: "Auth \<Rightarrow> (Auth \<times> bytes) res" where
  "Auth_Pack a =
     rbind (pack_tail \<lparr>PacketType = AUTH, Flags = FlagReserved, RemainLength = 0\<rparr> (Auth_body a))
       (\<lambda>(fh, w). Inr (a\<lparr>auth_FixHeader := Some fh\<rparr>, w))"

definition Auth_parse :: "Auth \<Rightarrow> bytes \<Rightarrow> Auth res" where
  "Auth_parse a bufr =
     rbind (malformed (ReadByte bufr)) (\<lambda>(code, b1).
     if \<not> ValidateCode AUTH code then Inl ErrProtocol
     else rbind (Properties_Unpack AUTH Properties_zero b1)
       (\<lambda>(q, _). Inr (a\<lparr>auth_Code := code, auth_Properties := Some q\<rparr>)))"

definition Auth_Unpack :: "Auth \<Rightarrow> bytes \<Rightarrow> (Auth \<times> bytes) res" where
  "Auth_Unpack a r =
     (case auth_FixHeader a of None \<Rightarrow> Inl Panic
      | Some fh \<Rightarrow>
        if RemainLength fh = 0 then Inr (a\<lparr>auth_Code := Success\<rparr>, r)
        else
          rbind (restBuffer (auth_FixHeader a) r) (\<lambda>(buf, rest).
          rbind (Auth_parse a buf) (\<lambda>a'. Inr (a', rest))))"

definition NewAuthPacket :: "FixHeader \<Rightarrow> bytes \<Rightarrow> (Auth \<times> bytes) res" where
  "NewAuthPacket fh r =
     (if Flags fh \<noteq> FlagReserved then Inl ErrMalformed
      else Auth_Unpack \<lparr>auth_FixHeader = Some fh, auth_Code = 0, auth_Properties = None\<rparr> r)"

section \<open>All packets\<close>

datatype Packet =
    PConnect Connect
  | PConnack Connack
  | PPublish Publish
  | PPuback Puback
  | PPubrec Pubrec
  | PPubrel Pubrel
  | PPubcomp Pubcomp
  | PSubscribe Subscribe
  | PSuback Suback
  | PUnsubscribe Unsubscribe
  | PUnsuback Unsuback
  | PPingreq Pingreq
  | PPingresp Pingresp
  | PDisconnect Disconnect
  | PAuth Auth

definition wrap :: "('p \<Rightarrow> Packet) \<Rightarrow> ('p \<times> 'b) res \<Rightarrow> (Packet \<times> 'b) res" where
  "wrap f m = rbind m (\<lambda>(p, r). Inr (f p, r))"

definition NewPacket :: "FixHeader \<Rightarrow> byte \<Rightarrow> bytes \<Rightarrow> (Packet \<times> bytes) res" where
  "NewPacket fh version r =
     (if PacketType fh = CONNECT then wrap PConnect (NewConnectPacket fh version r)
      else if PacketType fh = CONNACK then wrap PConnack (NewConnackPacket fh version r)
      else if PacketType fh = PUBLISH then wrap PPublish (NewPublishPacket fh version r)
      else if PacketType fh = PUBACK then wrap PPuback (NewPubackPacket fh version r)
      else if PacketType fh = PUBREC then wrap PPubrec (NewPubrecPacket fh version r)
      else if PacketType fh = PUBREL then wrap PPubrel (NewPubrelPacket fh r)
      else if PacketType fh = PUBCOMP then wrap PPubcomp (NewPubcompPacket fh version r)
      else if PacketType fh = SUBSCRIBE then wrap PSubscribe (NewSubscribePacket fh version r)
      else if PacketType fh = SUBACK then wrap PSuback (NewSubackPacket fh version r)
      else if PacketType fh = UNSUBSCRIBE then wrap PUnsubscribe (NewUnsubscribePacket fh version r)
      else if PacketType fh = PINGREQ then wrap PPingreq (NewPingreqPacket fh r)
      else if PacketType fh = DISCONNECT then wrap PDisconnect (NewDisConnectPackets fh version r)
      else if PacketType fh = UNSUBACK then wrap PUnsuback (NewUnsubackPacket fh version r)
      else if PacketType fh = PINGRESP then wrap PPingresp (NewPingrespPacket fh r)
      else if PacketType fh = AUTH then wrap PAuth (NewAuthPacket fh r)
      else Inl ErrProtocol)"

text \<open>
  A \<^verbatim>\<open>Reader\<close> is the protocol version it has learnt and the unread bytes.  \<open>ReadPacket\<close> returns
  the packet and the reader after it.
\<close>

record Reader =
  rd_version :: byte
  rd_bufr :: bytes

definition NewReader :: "bytes \<Rightarrow> Reader" where
  "NewReader r = \<lparr>rd_version = Version311, rd_bufr = r\<rparr>"

definition SetVersion :: "byte \<Rightarrow> Reader \<Rightarrow> Reader" where
  "SetVersion version r = r\<lparr>rd_version := version\<rparr>"

definition ReadPacket :: "Reader \<Rightarrow> (Packet \<times> Reader) res" where
  "ReadPacket r =
     rbind (ReadByte (rd_bufr r)) (\<lambda>(first, b1).
     rbind (EncodeRemainLength b1) (\<lambda>(len, b2).
     let fh = \<lparr>PacketType = drop_bit 4 first, Flags = first AND 15, RemainLength = len\<rparr> in
     rbind (NewPacket fh (rd_version r) b2) (\<lambda>(packet, rest).
     Inr (packet,
          \<lparr>rd_version = (case packet of PConnect p \<Rightarrow> con_Version p | _ \<Rightarrow> rd_version r),
           rd_bufr = rest\<rparr>))))"

text \<open>The \<^verbatim>\<open>Pack\<close> method of the interface, and the bytes a \<^verbatim>\<open>Writer\<close> has buffered.\<close>

fun Packet_Pack :: "Packet \<Rightarrow> (Packet \<times> bytes) res" where
  "Packet_Pack (PConnect p) = wrap PConnect (Connect_Pack p)"
| "Packet_Pack (PConnack p) = wrap PConnack (Connack_Pack p)"
| "Packet_Pack (PPublish p) = wrap PPublish (Publish_Pack p)"
| "Packet_Pack (PPuback p) = wrap PPuback (Puback_Pack p)"
| "Packet_Pack (PPubrec p) = wrap PPubrec (Pubrec_Pack p)"
| "Packet_Pack (PPubrel p) = wrap PPubrel (Pubrel_Pack p)"
| "Packet_Pack (PPubcomp p) = wrap PPubcomp (Pubcomp_Pack p)"
| "Packet_Pack (PSubscribe p) = wrap PSubscribe (Subscribe_Pack p)"
| "Packet_Pack (PSuback p) = wrap PSuback (Suback_Pack p)"
| "Packet_Pack (PUnsubscribe p) = wrap PUnsubscribe (Unsubscribe_Pack p)"
| "Packet_Pack (PUnsuback p) = wrap PUnsuback (Unsuback_Pack p)"
| "Packet_Pack (PPingreq p) = wrap PPingreq (Pingreq_Pack p)"
| "Packet_Pack (PPingresp p) = wrap PPingresp (Pingresp_Pack p)"
| "Packet_Pack (PDisconnect p) = wrap PDisconnect (Disconnect_Pack p)"
| "Packet_Pack (PAuth p) = wrap PAuth (Auth_Pack p)"

definition WritePacket :: "bytes \<Rightarrow> Packet \<Rightarrow> (Packet \<times> bytes) res" where
  "WritePacket bufw packet = rbind (Packet_Pack packet) (\<lambda>(p, w). Inr (p, bufw @ w))"

fun Packet_FixHeader :: "Packet \<Rightarrow> FixHeader option" where
  "Packet_FixHeader (PConnect p) = con_FixHeader p"
| "Packet_FixHeader (PConnack p) = cack_FixHeader p"
| "Packet_FixHeader (PPublish p) = pub_FixHeader p"
| "Packet_FixHeader (PPuback p) = ack_FixHeader p"
| "Packet_FixHeader (PPubrec p) = ack_FixHeader p"
| "Packet_FixHeader (PPubrel p) = prel_FixHeader p"
| "Packet_FixHeader (PPubcomp p) = ack_FixHeader p"
| "Packet_FixHeader (PSubscribe p) = sub_FixHeader p"
| "Packet_FixHeader (PSuback p) = sack_FixHeader p"
| "Packet_FixHeader (PUnsubscribe p) = uns_FixHeader p"
| "Packet_FixHeader (PUnsuback p) = sack_FixHeader p"
| "Packet_FixHeader (PPingreq p) = preq_FixHeader p"
| "Packet_FixHeader (PPingresp p) = presp_FixHeader p"
| "Packet_FixHeader (PDisconnect p) = dis_FixHeader p"
| "Packet_FixHeader (PAuth p) = auth_FixHeader p"

definition TotalBytes :: "Packet \<Rightarrow> uint32" where
  "TotalBytes p =
     (case Packet_FixHeader p of None \<Rightarrow> 0
      | Some header \<Rightarrow>
          (if RemainLength header \<le> 127 then 2
           else if RemainLength header \<le> 16383 then 3
           else if RemainLength header \<le> 2097151 then 4
           else if RemainLength header \<le> 268435455 then 5
           else 0) + word_of_nat (RemainLength header))"

end
