(* ===== verification/Packet_Roundtrip.thy ===== *)
theory Packet_Roundtrip
  imports Packets
begin

text \<open>
  What \<^verbatim>\<open>WritePacket\<close> writes, \<^verbatim>\<open>ReadPacket\<close> reads back.  \<open>ok_Packet v\<close> describes the packets in the
  form a reader of version \<open>v\<close> builds them, \<open>Packet_Pack_eq\<close> reduces the fifteen \<^verbatim>\<open>Pack\<close> methods
  to header and contents, one lemma per packet shows that its parser inverts its contents, and
  \<open>Packet_write_read\<close> puts them together with the fixed header and \<^verbatim>\<open>TotalBytes\<close>.  The loops over
  topic filters and reason codes are interpretations of \<open>codec_loop\<close>.
\<close>

unbundle bit_operations_syntax

section \<open>Well-formed packets\<close>

text \<open>
  A packet in the form a reader of protocol version \<open>v\<close> produces it: fields that the encoding
  does not carry are at their zero value.
\<close>

definition ok_props :: "byte \<Rightarrow> byte \<Rightarrow> Properties option \<Rightarrow> bool" where
  "ok_props v pt q \<longleftrightarrow>
     (if v = Version5 then (case q of None \<Rightarrow> False | Some p \<Rightarrow> wf_properties pt p) else q = None)"

definition ok_Connect :: "Connect \<Rightarrow> bool" where
  "ok_Connect c \<longleftrightarrow>
     (con_Version c = Version311 \<or> con_Version c = Version5)
     \<and> ProtocolLevel c = con_Version c \<and> version2protoName (con_Version c) = Some (ProtocolName c)
     \<and> WillQos c \<le> 2
     \<and> (\<not> WillFlag c \<longrightarrow> WillQos c = 0 \<and> \<not> WillRetain c \<and> WillTopic c = [] \<and> WillMsg c = []
          \<and> WillProperties c = (if con_Version c = Version5 then Some Properties_zero else None))
     \<and> (WillFlag c \<longrightarrow> wf_string True (WillTopic c) \<and> wf_string False (WillMsg c)
          \<and> (case WillProperties c of None \<Rightarrow> con_Version c \<noteq> Version5
             | Some q \<Rightarrow> con_Version c = Version5 \<and> wf_will_properties q))
     \<and> wf_string True (con_ClientID c)
     \<and> (con_ClientID c = [] \<longrightarrow> CleanStart c \<or> con_Version c = Version5)
     \<and> wf_string True (con_Username c) \<and> (\<not> UsernameFlag c \<longrightarrow> con_Username c = [])
     \<and> wf_string True (con_Password c) \<and> (\<not> PasswordFlag c \<longrightarrow> con_Password c = [])
     \<and> ok_props (con_Version c) CONNECT (con_Properties c)"

definition ok_Publish :: "byte \<Rightarrow> Publish \<Rightarrow> bool" where
  "ok_Publish v p \<longleftrightarrow>
     pub_Version p = v \<and> Qos p \<le> 2 \<and> (Qos p = 0 \<longrightarrow> \<not> Dup p \<and> pub_PacketID p = 0)
     \<and> wf_string True (TopicName p) \<and> ValidTopicName True (TopicName p)
     \<and> ok_props v PUBLISH (pub_Properties p)"

definition ok_Ack :: "byte \<Rightarrow> byte \<Rightarrow> Ack \<Rightarrow> bool" where
  "ok_Ack v pt p \<longleftrightarrow>
     ack_Version p = v
     \<and> (case ack_Properties p of None \<Rightarrow> ack_Code p = Success
        | Some q \<Rightarrow> v = Version5 \<and> wf_properties pt q)"

definition ok_Pubrel :: "Pubrel \<Rightarrow> bool" where
  "ok_Pubrel p \<longleftrightarrow>
     (case prel_Properties p of None \<Rightarrow> prel_Code p = Success | Some q \<Rightarrow> wf_properties PUBREL q)"

definition ok_Topic :: "byte \<Rightarrow> Topic \<Rightarrow> bool" where
  "ok_Topic v t \<longleftrightarrow>
     wf_string True (Name t) \<and> so_Qos t \<le> 2
     \<and> (if v = Version5 then ValidV5Topic (Name t) \<and> RetainHandling t \<le> 3
        else ValidTopicFilter True (Name t) \<and> RetainHandling t = 0 \<and> \<not> NoLocal t \<and> \<not> RetainAsPublished t)"

definition ok_Subscribe :: "byte \<Rightarrow> Subscribe \<Rightarrow> bool" where
  "ok_Subscribe v p \<longleftrightarrow>
     sub_Version p = v \<and> sub_Topics p \<noteq> [] \<and> list_all (ok_Topic v) (sub_Topics p)
     \<and> ok_props v SUBSCRIBE (sub_Properties p)"

definition ok_Suback :: "byte \<Rightarrow> Suback \<Rightarrow> bool" where
  "ok_Suback v p \<longleftrightarrow>
     sack_Version p = v \<and> sack_Payload p \<noteq> [] \<and> ok_props v SUBACK (sack_Properties p)"

definition ok_Unsubscribe :: "byte \<Rightarrow> Unsubscribe \<Rightarrow> bool" where
  "ok_Unsubscribe v p \<longleftrightarrow>
     uns_Version p = v \<and> uns_Topics p \<noteq> []
     \<and> list_all (\<lambda>t. wf_string True t \<and> ValidTopicFilter True t) (uns_Topics p)
     \<and> ok_props v UNSUBSCRIBE (uns_Properties p)"

definition ok_Unsuback :: "byte \<Rightarrow> Unsuback \<Rightarrow> bool" where
  "ok_Unsuback v p \<longleftrightarrow>
     sack_Version p = v \<and> (v = Version5 \<longleftrightarrow> sack_Payload p \<noteq> [])
     \<and> ok_props v UNSUBACK (sack_Properties p)"

definition ok_Disconnect :: "byte \<Rightarrow> Disconnect \<Rightarrow> bool" where
  "ok_Disconnect v p \<longleftrightarrow>
     dis_Version p = v \<and> (v \<noteq> Version5 \<longrightarrow> dis_Code p = Success)
     \<and> ok_props v DISCONNECT (dis_Properties p)"

definition ok_Auth :: "Auth \<Rightarrow> bool" where
  "ok_Auth p \<longleftrightarrow>
     (case auth_Properties p of None \<Rightarrow> auth_Code p = Success | Some q \<Rightarrow> wf_properties AUTH q)"

fun ok_Packet :: "byte \<Rightarrow> Packet \<Rightarrow> bool" where
  "ok_Packet v (PConnect p) = ok_Connect p"
| "ok_Packet v (PConnack p) = (cack_Version p = Version5 \<and> ok_props Version5 CONNACK (cack_Properties p))"
| "ok_Packet v (PPublish p) = ok_Publish v p"
| "ok_Packet v (PPuback p) = ok_Ack v PUBACK p"
| "ok_Packet v (PPubrec p) = ok_Ack v PUBREC p"
| "ok_Packet v (PPubrel p) = ok_Pubrel p"
| "ok_Packet v (PPubcomp p) = ok_Ack v PUBCOMP p"
| "ok_Packet v (PSubscribe p) = ok_Subscribe v p"
| "ok_Packet v (PSuback p) = ok_Suback v p"
| "ok_Packet v (PUnsubscribe p) = ok_Unsubscribe v p"
| "ok_Packet v (PUnsuback p) = ok_Unsuback v p"
| "ok_Packet v (PPingreq p) = True"
| "ok_Packet v (PPingresp p) = True"
| "ok_Packet v (PDisconnect p) = ok_Disconnect v p"
| "ok_Packet v (PAuth p) = ok_Auth p"

text \<open>The type, flags and contents each \<^verbatim>\<open>Pack\<close> writes.\<close>

fun Packet_header :: "Packet \<Rightarrow> byte \<times> byte" where
  "Packet_header (PConnect p) = (CONNECT, FlagReserved)"
| "Packet_header (PConnack p) = (CONNACK, FlagReserved)"
| "Packet_header (PPublish p) = (PUBLISH, Publish_flags p)"
| "Packet_header (PPuback p) = (PUBACK, FlagReserved)"
| "Packet_header (PPubrec p) = (PUBREC, FlagReserved)"
| "Packet_header (PPubrel p) = (PUBREL, FlagPubrel)"
| "Packet_header (PPubcomp p) = (PUBCOMP, FlagReserved)"
| "Packet_header (PSubscribe p) = (SUBSCRIBE, FlagSubscribe)"
| "Packet_header (PSuback p) = (SUBACK, FlagReserved)"
| "Packet_header (PUnsubscribe p) = (UNSUBSCRIBE, FlagUnsubscribe)"
| "Packet_header (PUnsuback p) = (UNSUBACK, FlagReserved)"
| "Packet_header (PPingreq p) = (PINGREQ, 0)"
| "Packet_header (PPingresp p) = (PINGRESP, 0)"
| "Packet_header (PDisconnect p) = (DISCONNECT, FlagReserved)"
| "Packet_header (PAuth p) = (AUTH, FlagReserved)"

fun Packet_body :: "Packet \<Rightarrow> bytes res" where
  "Packet_body (PConnect p) = Connect_body p"
| "Packet_body (PConnack p) = Inr (Connack_body p)"
| "Packet_body (PPublish p) = Inr (Publish_body p)"
| "Packet_body (PPuback p) = Inr (Ack_body PUBACK p)"
| "Packet_body (PPubrec p) = Inr (Ack_body PUBREC p)"
| "Packet_body (PPubrel p) = Inr (Pubrel_body p)"
| "Packet_body (PPubcomp p) = Inr (Ack_body PUBCOMP p)"
| "Packet_body (PSubscribe p) = Inr (Subscribe_body p)"
| "Packet_body (PSuback p) = Inr (Suback_body SUBACK p)"
| "Packet_body (PUnsubscribe p) = Inr (Unsubscribe_body p)"
| "Packet_body (PUnsuback p) = Inr (Suback_body UNSUBACK p)"
| "Packet_body (PPingreq p) = Inr []"
| "Packet_body (PPingresp p) = Inr []"
| "Packet_body (PDisconnect p) = Inr (Disconnect_body p)"
| "Packet_body (PAuth p) = Inr (Auth_body p)"

fun Packet_set_FixHeader :: "FixHeader \<Rightarrow> Packet \<Rightarrow> Packet" where
  "Packet_set_FixHeader fh (PConnect p) = PConnect (p\<lparr>con_FixHeader := Some fh\<rparr>)"
| "Packet_set_FixHeader fh (PConnack p) = PConnack (p\<lparr>cack_FixHeader := Some fh\<rparr>)"
| "Packet_set_FixHeader fh (PPublish p) = PPublish (p\<lparr>pub_FixHeader := Some fh\<rparr>)"
| "Packet_set_FixHeader fh (PPuback p) = PPuback (p\<lparr>ack_FixHeader := Some fh\<rparr>)"
| "Packet_set_FixHeader fh (PPubrec p) = PPubrec (p\<lparr>ack_FixHeader := Some fh\<rparr>)"
| "Packet_set_FixHeader fh (PPubrel p) = PPubrel (p\<lparr>prel_FixHeader := Some fh\<rparr>)"
| "Packet_set_FixHeader fh (PPubcomp p) = PPubcomp (p\<lparr>ack_FixHeader := Some fh\<rparr>)"
| "Packet_set_FixHeader fh (PSubscribe p) = PSubscribe (p\<lparr>sub_FixHeader := Some fh\<rparr>)"
| "Packet_set_FixHeader fh (PSuback p) = PSuback (p\<lparr>sack_FixHeader := Some fh\<rparr>)"
| "Packet_set_FixHeader fh (PUnsubscribe p) = PUnsubscribe (p\<lparr>uns_FixHeader := Some fh\<rparr>)"
| "Packet_set_FixHeader fh (PUnsuback p) = PUnsuback (p\<lparr>sack_FixHeader := Some fh\<rparr>)"
| "Packet_set_FixHeader fh (PPingreq p) = PPingreq (p\<lparr>preq_FixHeader := Some fh\<rparr>)"
| "Packet_set_FixHeader fh (PPingresp p) = PPingresp (p\<lparr>presp_FixHeader := Some fh\<rparr>)"
| "Packet_set_FixHeader fh (PDisconnect p) = PDisconnect (p\<lparr>dis_FixHeader := Some fh\<rparr>)"
| "Packet_set_FixHeader fh (PAuth p) = PAuth (p\<lparr>auth_FixHeader := Some fh\<rparr>)"

lemma Packet_FixHeader_set [simp]: "Packet_FixHeader (Packet_set_FixHeader fh p) = Some fh"
  by (cases p) simp_all

section \<open>Every Pack is header and contents\<close>

lemma Packet_Pack_eq:
  "Packet_Pack p =
     rbind (Packet_body p) (\<lambda>b.
     rbind (pack_tail \<lparr>PacketType = fst (Packet_header p), Flags = snd (Packet_header p), RemainLength = 0\<rparr> b)
       (\<lambda>(fh, w). Inr (Packet_set_FixHeader fh p, w)))"
  by (cases p)
    (simp_all add: wrap_def Connect_Pack_def Connack_Pack_def Publish_Pack_def Puback_Pack_def
      Pubrec_Pack_def Pubcomp_Pack_def Ack_Pack_def Pubrel_Pack_def Subscribe_Pack_def Suback_Pack_def
      Unsubscribe_Pack_def Unsuback_Pack_def Pingreq_Pack_def Pingresp_Pack_def Disconnect_Pack_def
      Auth_Pack_def pack_tail_def rbind_def Let_def split: sum.splits prod.splits)

lemma pack_tail_ok:
  "length b < 268435456 \<Longrightarrow>
   pack_tail fh b = Inr (fh\<lparr>RemainLength := length b\<rparr>,
     (push_bit 4 (PacketType fh) OR Flags fh) # vbi_enc (length b) @ b)"
  by (simp add: pack_tail_def FixHeader_Pack_def DecodeRemainLength_vbi Let_def)

lemma restBuffer_ok [simp]:
  "RemainLength fh = length b \<Longrightarrow> restBuffer (Some fh) (b @ rest) = Inr (b, rest)"
  by (simp add: restBuffer_def)

lemma malformed_Inr [simp]: "malformed (Inr x) = Inr x"
  by (simp add: malformed_def)

section \<open>Reading each packet back\<close>

lemma Properties_Pack_neq_Nil: "wf_properties pt q \<Longrightarrow> Properties_Pack (Some q) pt \<noteq> []"
  by (simp add: Properties_Pack_def lengthBytes_vbi wf_properties_def Let_def)

lemmas props_read = Properties_Unpack_Pack Properties_Unpack_Pack [where rest = "[]", simplified]
lemmas u16_read = u16.dec_enc [simplified] u16.dec_enc_Nil [simplified]

text \<open>
  For each packet: the parser on the contents, from the struct the constructor starts with.
\<close>

lemma Connack_parse_body:
  assumes "cack_Version p = Version5" and "ok_props Version5 CONNACK (cack_Properties p)"
  shows "Connack_parse \<lparr>cack_Version = Version5, cack_FixHeader = Some fh, cack_Code = 0,
     SessionPresent = False, cack_Properties = None\<rparr> (Connack_body p) = Inr (p\<lparr>cack_FixHeader := Some fh\<rparr>)"
  using assms
  by (cases p; cases "cack_Properties p")
    (auto simp: ok_props_def Connack_parse_def Connack_body_def ValidateCode_def props_read)

lemma Ack_parse_body:
  assumes "ok_Ack v pt p"
  shows "Ack_parse pt (length (Ack_body pt p)) \<lparr>ack_Version = v, ack_FixHeader = Some fh, ack_PacketID = 0,
    ack_Code = 0, ack_Properties = None\<rparr> (Ack_body pt p) = Inr (p\<lparr>ack_FixHeader := Some fh\<rparr>)"
  using assms
  by (cases p; cases "ack_Properties p")
    (auto simp: ok_Ack_def Ack_parse_def Ack_body_def ValidateCode_def props_read u16_read)

lemma Pubrel_parse_body:
  assumes "ok_Pubrel p"
  shows "Pubrel_parse (length (Pubrel_body p)) \<lparr>prel_FixHeader = Some fh, prel_PacketID = 0,
    prel_Code = 0, prel_Properties = None\<rparr> (Pubrel_body p) = Inr (p\<lparr>prel_FixHeader := Some fh\<rparr>)"
  using assms
  by (cases p; cases "prel_Properties p")
    (auto simp: ok_Pubrel_def Pubrel_parse_def Pubrel_body_def ValidateCode_def props_read u16_read)

lemma Disconnect_parse_body:
  assumes "ok_Disconnect v p"
  shows "Disconnect_parse (length (Disconnect_body p)) \<lparr>dis_Version = v, dis_FixHeader = Some fh,
    dis_Code = 0, dis_Properties = None\<rparr> (Disconnect_body p) = Inr (p\<lparr>dis_FixHeader := Some fh\<rparr>)"
  using assms
  by (cases p; cases "dis_Properties p")
    (auto simp: ok_Disconnect_def Disconnect_parse_def Disconnect_body_def ValidateCode_def
      IsVersion3X_def ok_props_def props_read split: if_splits)

lemma Auth_parse_body:
  assumes "ok_Auth p"
  shows "Auth_body p = [] \<and> p = p\<lparr>auth_Code := 0, auth_Properties := None\<rparr> \<or>
    Auth_body p \<noteq> [] \<and> Auth_parse \<lparr>auth_FixHeader = Some fh, auth_Code = 0, auth_Properties = None\<rparr>
      (Auth_body p) = Inr (p\<lparr>auth_FixHeader := Some fh\<rparr>)"
  using assms
  by (cases p; cases "auth_Properties p")
    (auto simp: ok_Auth_def Auth_parse_def Auth_body_def ValidateCode_def props_read)

lemma Publish_parse_body:
  assumes "ok_Publish v p"
  shows "Publish_parse \<lparr>pub_Version = v, pub_FixHeader = Some fh, Dup = Dup p, Qos = Qos p,
     Retain = Retain p, TopicName = [], pub_PacketID = 0, Payload = [], pub_Properties = None\<rparr> (Publish_body p)
    = Inr (p\<lparr>pub_FixHeader := Some fh\<rparr>)"
proof -
  have q: "Qos p = 0 \<or> Qos p = 1 \<or> Qos p = 2"
    using assms by (auto simp: ok_Publish_def word_le_nat_alt word_unat_eq_iff)
  show ?thesis using assms q
    by (cases p; cases "pub_Properties p")
      (auto simp: ok_Publish_def Publish_parse_def Publish_body_def ok_props_def props_read
        read_write split: if_splits)
qed

lemma Publish_flags_read:
  assumes "ok_Publish v p" and "f = Publish_flags p"
  shows "0 < 1 AND drop_bit 3 f \<longleftrightarrow> Dup p" "drop_bit 1 f AND 3 = Qos p" "f AND 1 = 1 \<longleftrightarrow> Retain p"
    "f < 16"
proof -
  have "Qos p = 0 \<or> Qos p = 1 \<or> Qos p = 2"
    using assms by (auto simp: ok_Publish_def word_le_nat_alt word_unat_eq_iff)
  then show "0 < 1 AND drop_bit 3 f \<longleftrightarrow> Dup p" "drop_bit 1 f AND 3 = Qos p" "f AND 1 = 1 \<longleftrightarrow> Retain p"
    "f < 16"
    by (auto simp: Publish_flags_def assms(2))
qed

interpretation topics: codec_loop "Topic_Pack v" "Topic_Unpack v" "ok_Topic v" "Subscribe_topics v" for v
proof unfold_locales
  fix t rest assume ok: "ok_Topic v t"
  then have "so_Qos t = 0 \<or> so_Qos t = 1 \<or> so_Qos t = 2"
    by (auto simp: ok_Topic_def word_le_nat_alt word_unat_eq_iff)
  moreover have "v = Version5 \<Longrightarrow> RetainHandling t = 0 \<or> RetainHandling t = 1
      \<or> RetainHandling t = 2 \<or> RetainHandling t = 3"
    using ok by (auto simp: ok_Topic_def word_le_nat_alt word_unat_eq_iff)
  ultimately show "Topic_Unpack v (Topic_Pack v t @ rest) = Inr (t, rest)"
    using ok by (cases t) (auto simp: ok_Topic_def Topic_Unpack_def Topic_Pack_def
      writeUTF8String_eq_writeBinary read_write split: if_splits)
qed (auto dest: Topic_Unpack_consumes simp: Subscribe_topics.simps)

interpretation filters: codec_loop writeUTF8String TopicFilter_Unpack
  "\<lambda>t. wf_string True t \<and> ValidTopicFilter True t" Unsubscribe_topics
proof unfold_locales
  show "TopicFilter_Unpack (writeUTF8String t @ rest) = Inr (t, rest)"
    if "wf_string True t \<and> ValidTopicFilter True t" for t rest
    using that by (simp add: TopicFilter_Unpack_def writeUTF8String_eq_writeBinary read_write)
qed (auto dest: TopicFilter_Unpack_consumes simp: Unsubscribe_topics.simps)

interpretation rcodes: codec_loop "\<lambda>c. [c]" "\<lambda>bs. malformed (ReadByte bs)" "\<lambda>_. True" "read_codes pt" for pt
proof unfold_locales
  show "read_codes pt acc bs = rbind (malformed (ReadByte bs))
      (\<lambda>(x, r). if r = [] then Inr (acc @ [x]) else read_codes pt (acc @ [x]) r)" for acc bs
    by (cases bs) (simp_all add: ValidateCode_def malformed_def)
  show "length rest < length bs" if "malformed (ReadByte bs) = Inr (x, rest)" for bs x rest
    using that by (cases bs) (auto simp: malformed_def)
qed simp

lemma concat_sing [simp]: "concat (map (\<lambda>c. [c]) cs) = cs"
  by (induction cs) auto

lemma read_codes_all: "cs \<noteq> [] \<Longrightarrow> read_codes pt [] cs = Inr cs"
  using rcodes.loop_concat [of cs pt "[]"] by (simp add: list_all_iff)

lemma Subscribe_parse_body:
  assumes "ok_Subscribe v p"
  shows "Subscribe_parse \<lparr>sub_Version = v, sub_FixHeader = Some fh, sub_PacketID = 0,
    sub_Topics = [], sub_Properties = None\<rparr> (Subscribe_body p) = Inr (p\<lparr>sub_FixHeader := Some fh\<rparr>)"
proof -
  have "Subscribe_topics v [] (concat (map (Topic_Pack v) (sub_Topics p))) = Inr (sub_Topics p)"
    using assms topics.loop_concat [of "sub_Topics p" v "[]"] by (simp add: ok_Subscribe_def)
  then show ?thesis using assms
    by (cases p; cases "sub_Properties p")
      (auto simp: ok_Subscribe_def Subscribe_parse_def Subscribe_body_def ok_props_def props_read
        u16_read split: if_splits)
qed

lemma Unsubscribe_parse_body:
  assumes "ok_Unsubscribe v p"
  shows "Unsubscribe_parse \<lparr>uns_Version = v, uns_FixHeader = Some fh, uns_PacketID = 0,
    uns_Topics = [], uns_Properties = None\<rparr> (Unsubscribe_body p) = Inr (p\<lparr>uns_FixHeader := Some fh\<rparr>)"
proof -
  have "Unsubscribe_topics [] (concat (map writeUTF8String (uns_Topics p))) = Inr (uns_Topics p)"
    using assms filters.loop_concat [of "uns_Topics p" "[]"] by (simp add: ok_Unsubscribe_def)
  then show ?thesis using assms
    by (cases p; cases "uns_Properties p")
      (auto simp: ok_Unsubscribe_def Unsubscribe_parse_def Unsubscribe_body_def ok_props_def props_read
        u16_read split: if_splits)
qed

lemma Suback_parse_body:
  assumes "ok_Suback v p"
  shows "Suback_parse \<lparr>sack_Version = v, sack_FixHeader = Some fh, sack_PacketID = 0,
    sack_Payload = [], sack_Properties = None\<rparr> (Suback_body SUBACK p) = Inr (p\<lparr>sack_FixHeader := Some fh\<rparr>)"
  using assms
  by (cases p; cases "sack_Properties p")
    (auto simp: ok_Suback_def Suback_parse_def Suback_body_def ok_props_def props_read
      u16_read read_codes_all split: if_splits)

lemma Unsuback_parse_body:
  assumes "ok_Unsuback v p" and "IsVersion3X v \<or> v = Version5"
  shows "Unsuback_parse \<lparr>sack_Version = v, sack_FixHeader = Some fh, sack_PacketID = 0,
    sack_Payload = [], sack_Properties = None\<rparr> (Suback_body UNSUBACK p) = Inr (p\<lparr>sack_FixHeader := Some fh\<rparr>)"
  using assms
  by (cases p; cases "sack_Properties p")
    (auto simp: ok_Unsuback_def Unsuback_parse_def Suback_body_def ok_props_def props_read
      IsVersion3X_def u16_read read_codes_all split: if_splits)

lemma Connect_flags_read:
  assumes "WillQos c \<le> 2" and "f = Connect_flags c"
  shows "1 AND f = 0" "0 < 1 AND drop_bit 1 f \<longleftrightarrow> CleanStart c" "0 < 1 AND drop_bit 2 f \<longleftrightarrow> WillFlag c"
    "3 AND drop_bit 3 f = WillQos c" "0 < 1 AND drop_bit 5 f \<longleftrightarrow> WillRetain c"
    "0 < 1 AND drop_bit 6 f \<longleftrightarrow> PasswordFlag c" "0 < 1 AND drop_bit 7 f \<longleftrightarrow> UsernameFlag c"
proof -
  have "WillQos c = 0 \<or> WillQos c = 1 \<or> WillQos c = 2"
    using assms by (auto simp: word_le_nat_alt word_unat_eq_iff)
  then show "1 AND f = 0" "0 < 1 AND drop_bit 1 f \<longleftrightarrow> CleanStart c" "0 < 1 AND drop_bit 2 f \<longleftrightarrow> WillFlag c"
    "3 AND drop_bit 3 f = WillQos c" "0 < 1 AND drop_bit 5 f \<longleftrightarrow> WillRetain c"
    "0 < 1 AND drop_bit 6 f \<longleftrightarrow> PasswordFlag c" "0 < 1 AND drop_bit 7 f \<longleftrightarrow> UsernameFlag c"
    unfolding assms(2) Connect_flags_def
    by (elim disjE; cases "CleanStart c"; cases "WillFlag c"; cases "WillRetain c";
        cases "PasswordFlag c"; cases "UsernameFlag c"; simp)+
qed

definition Connect_payload :: "Connect \<Rightarrow> bytes" where
  "Connect_payload c =
     writeBinary (con_ClientID c)
     @ (if WillFlag c then
          (if con_Version c = Version5 then Properties_PackWillProperties (WillProperties c) else [])
          @ writeBinary (WillTopic c) @ writeBinary (WillMsg c) else [])
     @ (if UsernameFlag c then writeBinary (con_Username c) else [])
     @ (if PasswordFlag c then writeBinary (con_Password c) else [])"

lemma Connect_body_eq:
  assumes "ok_Connect c"
  shows "Connect_body c = Inr (writeBinary (ProtocolName c) @ ProtocolLevel c # Connect_flags c
    # writeUint16 (KeepAlive c)
    @ (if con_Version c = Version5 then Properties_Pack (con_Properties c) CONNECT else [])
    @ Connect_payload c)"
proof -
  have "ProtocolName c = [0x4D, 0x51, 0x54, 0x54]"
    using assms by (auto simp: ok_Connect_def version2protoName_def)
  then have "[0x00, 0x04] @ ProtocolName c = writeBinary (ProtocolName c)"
    by (simp add: writeBinary_def writeUint16_def)
  then show ?thesis using assms
    by (simp add: Connect_body_def ok_Connect_def EncodeUTF8String_eq wf_string_def Connect_payload_def)
qed

lemma Connect_payload_read:
  assumes "ok_Connect c"
  shows "Connect_unpackPayload (c\<lparr>con_FixHeader := Some fh, con_ClientID := [], WillTopic := [], WillMsg := [],
      con_Username := [], con_Password := [],
      WillProperties := (if con_Version c = Version5 then Some Properties_zero else None)\<rparr>)
      (Connect_payload c) = Inr (c\<lparr>con_FixHeader := Some fh\<rparr>)"
proof -
  have s: "wf_string True (con_ClientID c)" "wf_string True (con_Username c)" "wf_string True (con_Password c)"
    "\<not> UsernameFlag c \<Longrightarrow> con_Username c = []" "\<not> PasswordFlag c \<Longrightarrow> con_Password c = []"
    using assms by (simp_all add: ok_Connect_def)
  have id: "\<not> (IsVersion3X (con_Version c) \<and> con_ClientID c = [] \<and> \<not> CleanStart c)"
    using assms by (auto simp: ok_Connect_def IsVersion3X_def)
  have nowill: "WillTopic c = []" "WillMsg c = []"
    "WillProperties c = (if con_Version c = Version5 then Some Properties_zero else None)" if "\<not> WillFlag c"
    using assms that by (simp_all add: ok_Connect_def)
  have will: "wf_string True (WillTopic c)" "wf_string False (WillMsg c)"
    "if con_Version c = Version5 then \<exists>q. WillProperties c = Some q \<and> wf_will_properties q
     else WillProperties c = None" if "WillFlag c"
    using assms that by (auto simp: ok_Connect_def split: option.splits)
  show ?thesis
  proof (cases "WillFlag c")
    case False
    with s id nowill show ?thesis
      by (cases c; cases "UsernameFlag c"; cases "PasswordFlag c")
        (auto simp: Connect_unpackPayload_def Connect_payload_def read_write)
  next
    case w: True
    show ?thesis
    proof (cases "con_Version c = Version5")
      case True
      with will w obtain q where "WillProperties c = Some q" "wf_will_properties q" by auto
      with True w s id will show ?thesis
        by (cases c; cases "UsernameFlag c"; cases "PasswordFlag c")
          (auto simp: Connect_unpackPayload_def Connect_payload_def read_write Properties_UnpackWill_Pack)
    next
      case False
      with w s id will show ?thesis
        by (cases c; cases "UsernameFlag c"; cases "PasswordFlag c")
          (auto simp: Connect_unpackPayload_def Connect_payload_def read_write)
    qed
  qed
qed

lemma Connect_parse_header:
  assumes "wf_string False name" and "version2protoName level = Some name"
    and "1 AND f = 0" and "\<not> wl \<Longrightarrow> wq = 0 \<and> \<not> wr"
    and "0 < 1 AND drop_bit 1 f \<longleftrightarrow> cs" and "0 < 1 AND drop_bit 2 f \<longleftrightarrow> wl" and "3 AND drop_bit 3 f = wq"
    and "0 < 1 AND drop_bit 5 f \<longleftrightarrow> wr" and "0 < 1 AND drop_bit 6 f \<longleftrightarrow> pf" and "0 < 1 AND drop_bit 7 f \<longleftrightarrow> uf"
    and "c1 = c0\<lparr>ProtocolName := name, ProtocolLevel := level, con_Version := level, CleanStart := cs,
      WillFlag := wl, WillQos := wq, WillRetain := wr, PasswordFlag := pf, UsernameFlag := uf, KeepAlive := ka\<rparr>"
  shows "Connect_parse c0 (writeBinary name @ level # f # writeUint16 ka @ rest) =
    (if level = Version5 then
       rbind (Properties_Unpack CONNECT Properties_zero rest) (\<lambda>(p, r).
         Connect_unpackPayload (c1\<lparr>con_Properties := Some p, WillProperties := Some Properties_zero\<rparr>) r)
     else Connect_unpackPayload c1 rest)"
  using assms by (auto simp: Connect_parse_def Let_def read_write)

lemma Connect_parse_body:
  assumes "ok_Connect c" and "Connect_body c = Inr b"
  shows "Connect_parse (Connect_zero\<lparr>con_FixHeader := Some fh, con_Version := v\<rparr>) b
    = Inr (c\<lparr>con_FixHeader := Some fh\<rparr>)"
proof -
  let ?c = "Connect_zero\<lparr>con_FixHeader := Some fh, con_Version := v\<rparr>"
  let ?c1 = "?c\<lparr>ProtocolName := ProtocolName c, ProtocolLevel := con_Version c, con_Version := con_Version c,
    CleanStart := CleanStart c, WillFlag := WillFlag c, WillQos := WillQos c, WillRetain := WillRetain c,
    PasswordFlag := PasswordFlag c, UsernameFlag := UsernameFlag c, KeepAlive := KeepAlive c\<rparr>"
  let ?p = "if con_Version c = Version5 then Properties_Pack (con_Properties c) CONNECT else []"
  have q: "WillQos c \<le> 2" and n: "version2protoName (con_Version c) = Some (ProtocolName c)"
    and l: "ProtocolLevel c = con_Version c" and pr: "ok_props (con_Version c) CONNECT (con_Properties c)"
    and w: "\<not> WillFlag c \<Longrightarrow> WillQos c = 0 \<and> \<not> WillRetain c"
    using assms by (auto simp: ok_Connect_def)
  have name: "wf_string False (ProtocolName c)"
    using n by (auto simp: version2protoName_def wf_string_def dest: sym split: if_splits)
  have b: "b = writeBinary (ProtocolName c) @ con_Version c # Connect_flags c # writeUint16 (KeepAlive c)
      @ ?p @ Connect_payload c"
    using Connect_body_eq [OF assms(1)] assms(2) l by simp
  note flags = Connect_flags_read [OF q refl]
  have hd: "Connect_parse ?c b =
    (if con_Version c = Version5 then
       rbind (Properties_Unpack CONNECT Properties_zero (?p @ Connect_payload c)) (\<lambda>(p, r).
         Connect_unpackPayload (?c1\<lparr>con_Properties := Some p, WillProperties := Some Properties_zero\<rparr>) r)
     else Connect_unpackPayload ?c1 (?p @ Connect_payload c))"
    unfolding b by (rule Connect_parse_header [OF name n flags(1) w flags(2-7) refl])
  show ?thesis
  proof (cases "con_Version c = Version5")
    case True
    then obtain p where p: "con_Properties c = Some p" "wf_properties CONNECT p"
      using pr by (auto simp: ok_props_def split: option.splits)
    have "?c1\<lparr>con_Properties := Some p, WillProperties := Some Properties_zero\<rparr>
      = c\<lparr>con_FixHeader := Some fh, con_ClientID := [], WillTopic := [], WillMsg := [],
      con_Username := [], con_Password := [],
      WillProperties := (if con_Version c = Version5 then Some Properties_zero else None)\<rparr>"
      using p True l by (cases c) (simp add: Connect_zero_def)
    then show ?thesis unfolding hd
      using True p Connect_payload_read [OF assms(1), of fh] by (simp add: props_read)
  next
    case False
    have "?c1 = c\<lparr>con_FixHeader := Some fh, con_ClientID := [], WillTopic := [], WillMsg := [],
      con_Username := [], con_Password := [],
      WillProperties := (if con_Version c = Version5 then Some Properties_zero else None)\<rparr>"
      using pr False l by (cases c) (simp add: Connect_zero_def ok_props_def)
    then show ?thesis unfolding hd
      using False Connect_payload_read [OF assms(1), of fh] by simp
  qed
qed

section \<open>Reading any packet back\<close>

lemma nibble_bit: "(w :: byte) < 16 \<Longrightarrow> bit w n \<Longrightarrow> n < 4"
proof -
  assume "w < 16" and b: "bit w n"
  then have "unat w < 2 ^ 4" by (simp add: word_less_nat_alt)
  then have "take_bit 4 w = w"
    by (simp add: word_unat_eq_iff unsigned_take_bit_eq take_bit_nat_eq_self)
  with b show "n < 4" by (metis bit_take_bit_iff)
qed

lemma nibbles:
  assumes "(t :: byte) < 16" and "f < 16"
  shows "drop_bit 4 (push_bit 4 t) OR drop_bit 4 f = t" "(push_bit 4 t OR f) AND 15 = f"
proof -
  have m: "(15 :: byte) = mask 4" by (simp add: mask_eq_exp_minus_1)
  show "drop_bit 4 (push_bit 4 t) OR drop_bit 4 f = t"
    by (rule bit_word_eqI) (auto simp: bit_simps dest: nibble_bit [OF assms(1)] nibble_bit [OF assms(2)])
  show "(push_bit 4 t OR f) AND 15 = f" unfolding m
    by (rule bit_word_eqI) (auto simp: bit_simps dest: nibble_bit [OF assms(1)] nibble_bit [OF assms(2)])
qed

lemma header_byte:
  assumes "ok_Packet v p" and "Packet_header p = (t, f)"
  shows "drop_bit 4 (push_bit 4 t) OR drop_bit 4 f = t" "(push_bit 4 t OR f) AND 15 = f"
proof -
  have "f < 16" using assms Publish_flags_read(4) by (cases p) auto
  moreover have "t < 16" using assms by (cases p) auto
  ultimately show "drop_bit 4 (push_bit 4 t) OR drop_bit 4 f = t" "(push_bit 4 t OR f) AND 15 = f"
    by (simp_all add: nibbles)
qed

lemma NewPacket_body:
  assumes "ok_Packet v p" and "IsVersion3X v \<or> v = Version5" and "Packet_body p = Inr b"
    and "fh = \<lparr>PacketType = fst (Packet_header p), Flags = snd (Packet_header p), RemainLength = length b\<rparr>"
  shows "NewPacket fh v (b @ rest) = Inr (Packet_set_FixHeader fh p, rest)"
proof (cases p)
  case (PConnect c)
  then show ?thesis using assms Connect_parse_body [of c b]
    by (simp add: NewPacket_def wrap_def NewConnectPacket_def Connect_Unpack_def)
next
  case (PAuth a)
  then show ?thesis using assms Auth_parse_body [of a fh]
    by (cases a) (auto simp: NewPacket_def wrap_def NewAuthPacket_def Auth_Unpack_def)
next
  case (PPublish q)
  then have "\<not> 2 < Qos q" "Qos q = 0 \<Longrightarrow> \<not> Dup q" using assms by (auto simp: ok_Publish_def)
  with PPublish show ?thesis using assms Publish_parse_body [of v q] Publish_flags_read [of v q, OF _ refl]
    by (auto simp: NewPacket_def wrap_def NewPublishPacket_def Publish_Unpack_def Let_def)
next
  case (PConnack q)
  then show ?thesis using assms
    by (auto simp: NewPacket_def wrap_def NewConnackPacket_def Connack_Unpack_def Connack_parse_body)
next
  case (PPuback q)
  then show ?thesis using assms
    by (auto simp: NewPacket_def wrap_def NewPubackPacket_def NewAckPacket_def Ack_Unpack_def Ack_parse_body)
next
  case (PPubrec q)
  then show ?thesis using assms
    by (auto simp: NewPacket_def wrap_def NewPubrecPacket_def NewAckPacket_def Ack_Unpack_def Ack_parse_body)
next
  case (PPubcomp q)
  then show ?thesis using assms
    by (auto simp: NewPacket_def wrap_def NewPubcompPacket_def NewAckPacket_def Ack_Unpack_def Ack_parse_body)
next
  case (PPubrel q)
  then show ?thesis using assms
    by (auto simp: NewPacket_def wrap_def NewPubrelPacket_def Pubrel_Unpack_def Pubrel_parse_body)
next
  case (PSubscribe q)
  then show ?thesis using assms
    by (auto simp: NewPacket_def wrap_def NewSubscribePacket_def Subscribe_Unpack_def Subscribe_parse_body)
next
  case (PSuback q)
  then show ?thesis using assms
    by (auto simp: NewPacket_def wrap_def NewSubackPacket_def Suback_Unpack_def Suback_parse_body)
next
  case (PUnsubscribe q)
  then show ?thesis using assms
    by (auto simp: NewPacket_def wrap_def NewUnsubscribePacket_def Unsubscribe_Unpack_def Unsubscribe_parse_body)
next
  case (PUnsuback q)
  then show ?thesis using assms
    by (auto simp: NewPacket_def wrap_def NewUnsubackPacket_def Unsuback_Unpack_def Unsuback_parse_body)
next
  case (PDisconnect q)
  then show ?thesis using assms
    by (auto simp: NewPacket_def wrap_def NewDisConnectPackets_def Disconnect_Unpack_def Disconnect_parse_body)
qed (use assms in \<open>auto simp: NewPacket_def wrap_def NewPingreqPacket_def NewPingrespPacket_def Ping_Unpack_def\<close>)

lemma Packet_body_ok: "ok_Packet v p \<Longrightarrow> \<exists>b. Packet_body p = Inr b"
  by (cases p) (auto simp: Connect_body_eq)

lemma TotalBytes_set:
  "RemainLength fh < 268435456 \<Longrightarrow>
   unat (TotalBytes (Packet_set_FixHeader fh p)) = Suc (length (vbi_enc (RemainLength fh))) + RemainLength fh"
  by (auto simp: TotalBytes_def length_vbi_enc_eq unat_word_ariths unat_word_of_nat)

text \<open>
  C1. Every packet that meets the conditions of its type is written, and a reader of the same protocol version
  whose input starts with those bytes returns the packet with the header that was written and leaves the
  rest of its input; the number of bytes is what TotalBytes reports.
\<close>

theorem Packet_write_read:
  assumes "ok_Packet v p" and "IsVersion3X v \<or> v = Version5" and "Packet_body p = Inr b" and "length b < 268435456"
  shows "\<exists>fh w. Packet_Pack p = Inr (Packet_set_FixHeader fh p, w)
    \<and> ReadPacket \<lparr>rd_version = v, rd_bufr = w @ rest\<rparr>
        = Inr (Packet_set_FixHeader fh p,
            \<lparr>rd_version = (case p of PConnect c \<Rightarrow> con_Version c | _ \<Rightarrow> v), rd_bufr = rest\<rparr>)
    \<and> length w = unat (TotalBytes (Packet_set_FixHeader fh p))"
proof -
  obtain t f where h: "Packet_header p = (t, f)" by fastforce
  let ?fh = "\<lparr>PacketType = t, Flags = f, RemainLength = length b\<rparr>"
  have "Packet_Pack p = Inr (Packet_set_FixHeader ?fh p, (push_bit 4 t OR f) # vbi_enc (length b) @ b)"
    using assms(3,4) by (simp add: Packet_Pack_eq pack_tail_ok h)
  moreover have "NewPacket ?fh v (b @ rest) = Inr (Packet_set_FixHeader ?fh p, rest)"
    by (rule NewPacket_body [OF assms(1-3)]) (simp add: h)
  ultimately show ?thesis using assms(4)
    by (intro exI conjI) (assumption, simp_all add: ReadPacket_def EncodeRemainLength_vbi
        header_byte [OF assms(1) h] Let_def TotalBytes_set,
        cases p, simp_all)
qed

definition pub_example :: Packet where
  "pub_example = PPublish \<lparr>pub_Version = Version311, pub_FixHeader = None, Dup = False, Qos = 1, Retain = True,
     TopicName = [0x61], pub_PacketID = 7, Payload = [1, 2], pub_Properties = None\<rparr>"

theorem Packet_write_read_witness:
  "\<exists>fh w. Packet_Pack pub_example = Inr (Packet_set_FixHeader fh pub_example, w)
    \<and> ReadPacket \<lparr>rd_version = Version311, rd_bufr = w @ [3]\<rparr>
       = Inr (Packet_set_FixHeader fh pub_example, \<lparr>rd_version = Version311, rd_bufr = [3]\<rparr>)"
proof -
  have "ValidTopicName True [0x61]"
    by (simp add: ValidTopicName.simps utf8_DecodeRune_def utf8_decode_defs)
  then have "ok_Packet Version311 pub_example"
    by (simp add: pub_example_def ok_Publish_def wf_string_def ValidUTF8_ascii ok_props_def)
  moreover have "Packet_body pub_example = Inr (Publish_body (case pub_example of PPublish p \<Rightarrow> p))"
    by (simp add: pub_example_def)
  moreover have "length (Publish_body (case pub_example of PPublish p \<Rightarrow> p)) < 268435456"
    by (simp add: pub_example_def Publish_body_def writeBinary_def)
  ultimately show ?thesis
    using Packet_write_read [of Version311 pub_example _ "[3]"] by (fastforce simp: IsVersion3X_def pub_example_def)
qed

end
