(* ===== verification/Message.thy ===== *)
theory Message
  imports Packet_Roundtrip
begin

text \<open>
  \<^verbatim>\<open>gmqtt/message.go\<close>: the broker's message, its conversions from and to the \<^verbatim>\<open>PUBLISH\<close> packet, and
  \<^verbatim>\<open>TotalBytes\<close>, which predicts the size of that packet without building it.
\<close>

unbundle bit_operations_syntax

record Message =
  msg_Dup :: bool
  msg_QoS :: byte
  msg_Retained :: bool
  msg_Topic :: bytes
  msg_Payload :: bytes
  msg_PacketID :: uint16
  msg_ContentType :: bytes
  msg_CorrelationData :: "bytes option"
  msg_MessageExpiry :: uint32
  msg_PayloadFormat :: byte
  msg_ResponseTopic :: bytes
  msg_SubscriptionIdentifier :: "uint32 list"
  msg_UserProperties :: "UserProperty list"

definition Message_Copy :: "Message \<Rightarrow> Message" where
  "Message_Copy m =
     \<lparr>msg_Dup = msg_Dup m, msg_QoS = msg_QoS m, msg_Retained = msg_Retained m, msg_Topic = msg_Topic m,
      msg_Payload = msg_Payload m, msg_PacketID = msg_PacketID m, msg_ContentType = msg_ContentType m,
      msg_CorrelationData =
        (case msg_CorrelationData m of None \<Rightarrow> None | Some d \<Rightarrow> if length d \<noteq> 0 then Some d else None),
      msg_MessageExpiry = msg_MessageExpiry m, msg_PayloadFormat = msg_PayloadFormat m,
      msg_ResponseTopic = msg_ResponseTopic m,
      msg_SubscriptionIdentifier = msg_SubscriptionIdentifier m,
      msg_UserProperties = map (\<lambda>u. \<lparr>UserK = UserK u, UserV = UserV u\<rparr>) (msg_UserProperties m)\<rparr>"

definition getVariablelenght :: "nat \<Rightarrow> nat" where
  "getVariablelenght l =
     (if l \<le> 127 then 1 else if l \<le> 16383 then 2 else if l \<le> 2097151 then 3
      else if l \<le> 268435455 then 4 else 0)"

definition propertyLenght :: "Message \<Rightarrow> nat" where
  "propertyLenght m =
     (if msg_PayloadFormat m = 1 then 2 else 0)
     + (let l = length (msg_ContentType m) in if l \<noteq> 0 then 3 + l else 0)
     + (let l = (case msg_CorrelationData m of None \<Rightarrow> 0 | Some d \<Rightarrow> length d) in if l \<noteq> 0 then 3 + l else 0)
     + sum_list (map (\<lambda>v. 1 + getVariablelenght (unat v)) (msg_SubscriptionIdentifier m))
     + (if msg_MessageExpiry m \<noteq> 0 then 5 else 0)
     + (let l = length (msg_ResponseTopic m) in if l \<noteq> 0 then 3 + l else 0)
     + sum_list (map (\<lambda>v. 5 + length (UserK v) + length (UserV v)) (msg_UserProperties m))"

definition Message_TotalBytes :: "Message \<Rightarrow> byte \<Rightarrow> uint32" where
  "Message_TotalBytes m version =
     (let remainLenght = length (msg_Payload m) + 2 + length (msg_Topic m)
            + (if 0 < msg_QoS m then 2 else 0)
            + (if version = Version5
               then propertyLenght m + getVariablelenght (propertyLenght m) else 0) in
      if remainLenght \<le> 127 then 2 + word_of_nat remainLenght
      else if remainLenght \<le> 16383 then 3 + word_of_nat remainLenght
      else if remainLenght \<le> 2097151 then 4 + word_of_nat remainLenght
      else 5 + word_of_nat remainLenght)"

definition nonempty :: "bytes option \<Rightarrow> bytes" where
  "nonempty b = (case b of None \<Rightarrow> [] | Some d \<Rightarrow> d)"

text \<open>A version 5 packet without properties would be a nil dereference.\<close>

definition MessageFromPublish :: "Publish \<Rightarrow> Message res" where
  "MessageFromPublish p =
     (let m = \<lparr>msg_Dup = Dup p, msg_QoS = Qos p, msg_Retained = Retain p, msg_Topic = TopicName p,
            msg_Payload = Payload p, msg_PacketID = 0, msg_ContentType = [], msg_CorrelationData = None,
            msg_MessageExpiry = 0, msg_PayloadFormat = 0, msg_ResponseTopic = [],
            msg_SubscriptionIdentifier = [], msg_UserProperties = []\<rparr> in
      if pub_Version p = Version5 then
        (case pub_Properties p of None \<Rightarrow> Inl Panic
         | Some q \<Rightarrow> Inr (m\<lparr>
             msg_PayloadFormat := (case PayloadFormat q of None \<Rightarrow> 0 | Some b \<Rightarrow> b),
             msg_ContentType := nonempty (ContentType q),
             msg_CorrelationData := (if nonempty (CorrelationData q) \<noteq> [] then CorrelationData q else None),
             msg_MessageExpiry := (case MessageExpiry q of None \<Rightarrow> 0 | Some e \<Rightarrow> e),
             msg_ResponseTopic := nonempty (ResponseTopic q),
             msg_UserProperties := User q\<rparr>))
      else Inr m)"

definition MessageToPublish :: "Message \<Rightarrow> byte \<Rightarrow> Publish" where
  "MessageToPublish msg version =
     \<lparr>pub_Version = version, pub_FixHeader = None, Dup = msg_Dup msg, Qos = msg_QoS msg,
      Retain = msg_Retained msg, TopicName = msg_Topic msg, pub_PacketID = msg_PacketID msg,
      Payload = msg_Payload msg,
      pub_Properties =
        (if version = Version5 then
           Some (Properties_zero\<lparr>
             CorrelationData := msg_CorrelationData msg,
             ContentType := (if msg_ContentType msg \<noteq> [] then Some (msg_ContentType msg) else None),
             MessageExpiry := (if msg_MessageExpiry msg \<noteq> 0 then Some (msg_MessageExpiry msg) else None),
             ResponseTopic := (if msg_ResponseTopic msg \<noteq> [] then Some (msg_ResponseTopic msg) else None),
             PayloadFormat := (if msg_PayloadFormat msg = 1 then Some (msg_PayloadFormat msg) else None),
             User := msg_UserProperties msg,
             SubscriptionIdentifier := msg_SubscriptionIdentifier msg\<rparr>)
         else None)\<rparr>"

section \<open>The conversions\<close>

text \<open>Empty correlation data is absent: what every message the code builds satisfies.\<close>

definition wf_message :: "Message \<Rightarrow> bool" where
  "wf_message m \<longleftrightarrow> msg_CorrelationData m \<noteq> Some []"

lemma MessageFromPublish_wf: "MessageFromPublish p = Inr m \<Longrightarrow> wf_message m"
  by (auto simp: MessageFromPublish_def wf_message_def nonempty_def Let_def split: if_splits option.splits)

lemma Message_Copy_wf: "wf_message (Message_Copy m)"
  by (auto simp: Message_Copy_def wf_message_def split: option.splits)

lemma UserProperty_eta: "map (\<lambda>u. \<lparr>UserK = UserK u, UserV = UserV u\<rparr>) us = us"
  by (rule map_idI) simp

lemma Message_Copy_id: "wf_message m \<Longrightarrow> Message_Copy m = m"
  by (cases m) (auto simp: Message_Copy_def wf_message_def UserProperty_eta split: option.splits)

text \<open>
  A message that is sent as a version 5 publish and received comes back unchanged but for the packet
  identifier and the subscription identifiers, which belong to the delivery.
\<close>

lemma MessageFrom_To_5:
  assumes "wf_message m" and "msg_PayloadFormat m \<le> 1"
  shows "MessageFromPublish (MessageToPublish m Version5)
    = Inr (m\<lparr>msg_PacketID := 0, msg_SubscriptionIdentifier := []\<rparr>)"
proof -
  have "msg_PayloadFormat m = 0 \<or> msg_PayloadFormat m = 1"
    using assms(2) by (auto simp: word_le_nat_alt word_unat_eq_iff)
  then show ?thesis using assms(1)
    by (cases m) (auto simp: MessageFromPublish_def MessageToPublish_def wf_message_def nonempty_def
      Properties_zero_def Let_def split: option.splits)
qed

definition msg_example :: Message where
  "msg_example = \<lparr>msg_Dup = False, msg_QoS = 1, msg_Retained = False, msg_Topic = [0x61], msg_Payload = [1],
     msg_PacketID = 0, msg_ContentType = [0x74], msg_CorrelationData = None, msg_MessageExpiry = 60,
     msg_PayloadFormat = 1, msg_ResponseTopic = [], msg_SubscriptionIdentifier = [5], msg_UserProperties = []\<rparr>"

lemma MessageFrom_To_5_witness:
  "MessageFromPublish (MessageToPublish msg_example Version5) = Inr (msg_example\<lparr>msg_SubscriptionIdentifier := []\<rparr>)"
  using MessageFrom_To_5 [of msg_example] by (simp add: msg_example_def wf_message_def)

section \<open>The size of the packet\<close>

lemma getVariablelenght_eq: "getVariablelenght n = length (lengthBytes (int n))"
proof (cases "n < 268435456")
  case True
  then show ?thesis
    by (auto simp: lengthBytes_vbi getVariablelenght_def length_vbi_enc_eq)
next
  case False
  then show ?thesis
    by (simp add: lengthBytes_def DecodeRemainLength_too_long getVariablelenght_def)
qed

lemma length_writeSubscriptionIdentifiers:
  "length (writeSubscriptionIdentifiers ids) = sum_list (map (\<lambda>v. 1 + getVariablelenght (unat v)) ids)"
  by (induction ids) (auto simp: writeSubscriptionIdentifiers_def getVariablelenght_eq)

lemma length_writeUserProperties:
  "length (writeUserProperties us) = sum_list (map (\<lambda>v. 5 + length (UserK v) + length (UserV v)) us)"
  by (induction us) (auto simp: writeUserProperties_def)

lemma propertyLenght_eq:
  assumes "wf_message m" and "pub_Properties (MessageToPublish m Version5) = Some q"
  shows "propertyLenght m = length (Properties_Pack_body q)"
  using assms
  by (auto simp: propertyLenght_def MessageToPublish_def Properties_Pack_body_def Properties_zero_def
      length_writeSubscriptionIdentifiers length_writeUserProperties len_simps wf_message_def
      split: option.splits if_splits)

lemma Publish_body_length:
  assumes "wf_message m" and "msg_QoS m \<le> 2"
  shows "length (Publish_body (MessageToPublish m version)) =
    length (msg_Payload m) + 2 + length (msg_Topic m) + (if 0 < msg_QoS m then 2 else 0)
    + (if version = Version5 then propertyLenght m + getVariablelenght (propertyLenght m) else 0)"
proof -
  have q: "msg_QoS m = 0 \<or> msg_QoS m = 1 \<or> msg_QoS m = 2"
    using assms(2) by (auto simp: word_le_nat_alt word_unat_eq_iff)
  obtain r where r: "pub_Properties (MessageToPublish m Version5) = Some r"
    by (simp add: MessageToPublish_def)
  have "length (Properties_Pack (Some r) PUBLISH) = propertyLenght m + getVariablelenght (propertyLenght m)"
    using propertyLenght_eq [OF assms(1) r] by (simp add: Properties_Pack_def Let_def getVariablelenght_eq)
  with q r show ?thesis by (auto simp: Publish_body_def MessageToPublish_def)
qed

text \<open>
  TotalBytes of a message is the number of bytes of the publish packet that is built and written for it.
\<close>

lemma Message_TotalBytes_exact:
  assumes "wf_message m" and "msg_QoS m \<le> 2"
    and "Publish_Pack (MessageToPublish m version) = Inr (p, w)"
  shows "unat (Message_TotalBytes m version) = length w"
proof -
  let ?b = "Publish_body (MessageToPublish m version)"
  have l: "length ?b < 268435456"
    using assms(3) DecodeRemainLength_too_long [of "int (length ?b)"]
    by (fastforce simp: Publish_Pack_def pack_tail_def FixHeader_Pack_def rbind_eq_Inr_conv Let_def)
  then have w: "length w = Suc (length (vbi_enc (length ?b))) + length ?b"
    using assms(3) by (auto simp: Publish_Pack_def pack_tail_ok)
  define n where "n = length ?b"
  have "Message_TotalBytes m version =
      (if n \<le> 127 then 2 else if n \<le> 16383 then 3 else if n \<le> 2097151 then 4 else 5) + word_of_nat n"
    unfolding n_def Message_TotalBytes_def Let_def Publish_body_length [OF assms(1,2), symmetric] by simp
  then show ?thesis using l unfolding w n_def [symmetric]
    by (auto simp: length_vbi_enc_eq unat_word_ariths unat_word_of_nat)
qed

lemma Message_TotalBytes_exact_witness:
  "\<exists>p w. Publish_Pack (MessageToPublish msg_example Version311) = Inr (p, w)
     \<and> unat (Message_TotalBytes msg_example Version311) = length w"
proof -
  obtain p w where pw: "Publish_Pack (MessageToPublish msg_example Version311) = Inr (p, w)"
    using DecodeRemainLength_vbi [of 6]
    by (auto simp: Publish_Pack_def pack_tail_def FixHeader_Pack_def MessageToPublish_def msg_example_def
        Publish_body_def writeBinary_def Let_def)
  then show ?thesis using Message_TotalBytes_exact [OF _ _ pw] by (auto simp: msg_example_def wf_message_def)
qed

end
