(* ===== verification/Retained.thy ===== *)
theory Retained
  imports Message
begin

text \<open>
  \<^verbatim>\<open>gmqtt/retained/trie\<close>: the store of retained messages.  A trie is a tree whose nodes hold the
  children by level name, an optional message and the topic name; the parent pointer is used only
  by \<^verbatim>\<open>remove\<close>, to cut off the last node of the path walked, so the tree is a plain datatype.  The
  children map is an association list whose order is the order of one iteration.

  \<open>entries\<close> lists the messages of a trie with their paths.  The lemmas show that a trie is a
  map from paths to messages, and that \<^verbatim>\<open>matchTopic\<close> visits exactly the entries whose path
  \<open>levels_match\<close>es the filter, each once.  The locale \<open>retained_store\<close> is the contract of
  \<^verbatim>\<open>retained.Store\<close>.
\<close>

section \<open>The trie\<close>

datatype topicNode = Node
  (n_children: "(bytes \<times> topicNode) list") (n_msg: "Message option") (n_topicName: bytes)

definition newTopicTrie :: topicNode where
  "newTopicTrie = Node [] None []"

fun rt_walk :: "bytes list \<Rightarrow> topicNode \<Rightarrow> topicNode option" where
  "rt_walk [] pNode = Some pNode"
| "rt_walk (lv # lvs) pNode =
     (case map_of (n_children pNode) lv of None \<Rightarrow> None | Some c \<Rightarrow> rt_walk lvs c)"

definition rt_find :: "topicNode \<Rightarrow> bytes \<Rightarrow> topicNode option" where
  "rt_find t topicName =
     (case rt_walk (split_levels topicName) t of
        None \<Rightarrow> None
      | Some pNode \<Rightarrow> if n_msg pNode \<noteq> None then Some pNode else None)"

fun rt_add :: "bytes list \<Rightarrow> bytes \<Rightarrow> Message \<Rightarrow> topicNode \<Rightarrow> topicNode" where
  "rt_add [] topicName message (Node cs m nm) = Node cs (Some message) topicName"
| "rt_add (lv # lvs) topicName message (Node cs m nm) =
     Node (al_put lv (rt_add lvs topicName message
             (case map_of cs lv of None \<Rightarrow> Node [] None [] | Some c \<Rightarrow> c)) cs) m nm"

definition addRetainMsg :: "topicNode \<Rightarrow> bytes \<Rightarrow> Message \<Rightarrow> topicNode" where
  "addRetainMsg t topicName message = rt_add (split_levels topicName) topicName message t"

fun rt_remove_path :: "bytes list \<Rightarrow> topicNode \<Rightarrow> topicNode" where
  "rt_remove_path [] t = t"
| "rt_remove_path (lv # lvs) (Node cs m nm) =
     (case map_of cs lv of
        None \<Rightarrow> Node cs m nm
      | Some c \<Rightarrow>
          if lvs = [] then
            (if length (n_children c) = 0 then Node (al_del lv cs) m nm
             else Node (al_put lv (Node (n_children c) None (n_topicName c)) cs) m nm)
          else Node (al_put lv (rt_remove_path lvs c) cs) m nm)"

definition rt_remove :: "topicNode \<Rightarrow> bytes \<Rightarrow> topicNode" where
  "rt_remove t topicName = rt_remove_path (split_levels topicName) t"

text \<open>
  A callback gets the message and the state its closure keeps, and returns the new state and
  whether to go on.
\<close>

type_synonym 's IterateFn = "Message \<Rightarrow> 's \<Rightarrow> 's \<times> bool"

fun preOrderTraverse :: "'s IterateFn \<Rightarrow> topicNode \<Rightarrow> 's \<Rightarrow> 's \<times> bool"
  and traverse_children :: "'s IterateFn \<Rightarrow> (bytes \<times> topicNode) list \<Rightarrow> 's \<Rightarrow> 's \<times> bool" where
  "preOrderTraverse fn (Node cs m nm) s =
     (case m of
        None \<Rightarrow> traverse_children fn cs s
      | Some x \<Rightarrow> (case fn x s of (s', b) \<Rightarrow>
          if \<not> b then (s', False) else traverse_children fn cs s'))"
| "traverse_children fn [] s = (s, True)"
| "traverse_children fn ((lv, c) # cs) s =
     (case preOrderTraverse fn c s of (s', b) \<Rightarrow>
        if \<not> b then (s', False) else traverse_children fn cs s')"

text \<open>The slice a caller passes is not empty.\<close>

fun matchTopic :: "bytes list \<Rightarrow> 's IterateFn \<Rightarrow> topicNode \<Rightarrow> 's \<Rightarrow> 's" where
  "matchTopic [] fn t s = s"
| "matchTopic (l # ls) fn t s =
     (let visit = (\<lambda>v s. if ls = [] then (case n_msg v of None \<Rightarrow> s | Some x \<Rightarrow> fst (fn x s))
                         else matchTopic ls fn v s) in
      if l = [hash_sign] then fst (preOrderTraverse fn t s)
      else if l = [plus_sign] then fold (\<lambda>(lv, v) s. visit v s) (n_children t) s
      else (case map_of (n_children t) l of None \<Rightarrow> s | Some n \<Rightarrow> visit n s))"

definition getMatchedMessages :: "topicNode \<Rightarrow> bytes \<Rightarrow> Message list" where
  "getMatchedMessages t topicFilter =
     matchTopic (split_levels topicFilter) (\<lambda>message rs. (rs @ [Message_Copy message], True)) t []"

section \<open>The store\<close>

record trieDB =
  userTrie :: topicNode
  systemTrie :: topicNode

definition NewStore :: trieDB where
  "NewStore = \<lparr>userTrie = newTopicTrie, systemTrie = newTopicTrie\<rparr>"

definition getTrie :: "trieDB \<Rightarrow> bytes \<Rightarrow> topicNode" where
  "getTrie t topicName = (if isSystemTopic topicName then systemTrie t else userTrie t)"

definition upd_trie :: "trieDB \<Rightarrow> bytes \<Rightarrow> (topicNode \<Rightarrow> topicNode) \<Rightarrow> trieDB" where
  "upd_trie t topicName f =
     (if isSystemTopic topicName then t\<lparr>systemTrie := f (systemTrie t)\<rparr>
      else t\<lparr>userTrie := f (userTrie t)\<rparr>)"

definition Retained_Iterate :: "'s IterateFn \<Rightarrow> trieDB \<Rightarrow> 's \<Rightarrow> 's" where
  "Retained_Iterate fn t s =
     (case preOrderTraverse fn (userTrie t) s of (s', b) \<Rightarrow>
        if \<not> b then s' else fst (preOrderTraverse fn (systemTrie t) s'))"

definition GetRetainedMessage :: "trieDB \<Rightarrow> bytes \<Rightarrow> Message option" where
  "GetRetainedMessage t topicName =
     (case rt_find (getTrie t topicName) topicName of
        None \<Rightarrow> None | Some node \<Rightarrow> map_option Message_Copy (n_msg node))"

definition ClearAll :: "trieDB \<Rightarrow> trieDB" where
  "ClearAll t = t\<lparr>systemTrie := newTopicTrie, userTrie := newTopicTrie\<rparr>"

definition AddOrReplace :: "trieDB \<Rightarrow> Message \<Rightarrow> trieDB" where
  "AddOrReplace t message =
     upd_trie t (msg_Topic message) (\<lambda>tr. addRetainMsg tr (msg_Topic message) message)"

definition Retained_Remove :: "trieDB \<Rightarrow> bytes \<Rightarrow> trieDB" where
  "Retained_Remove t topicName = upd_trie t topicName (\<lambda>tr. rt_remove tr topicName)"

definition GetMatchedMessages :: "trieDB \<Rightarrow> bytes \<Rightarrow> Message list" where
  "GetMatchedMessages t topicFilter = getMatchedMessages (getTrie t topicFilter) topicFilter"

section \<open>A trie is a map from paths to messages\<close>

fun wf_node :: "topicNode \<Rightarrow> bool" and wf_nodes :: "(bytes \<times> topicNode) list \<Rightarrow> bool" where
  "wf_node (Node cs m nm) = (distinct (al_keys cs) \<and> wf_nodes cs)"
| "wf_nodes [] = True"
| "wf_nodes ((lv, c) # cs) = (wf_node c \<and> wf_nodes cs)"

definition rt_lookup :: "topicNode \<Rightarrow> bytes list \<Rightarrow> Message option" where
  "rt_lookup t p = (case rt_walk p t of None \<Rightarrow> None | Some n \<Rightarrow> n_msg n)"

lemma rt_lookup_simps [simp]:
  "rt_lookup t [] = n_msg t"
  "rt_lookup (Node cs m nm) (lv # lvs) = (case map_of cs lv of None \<Rightarrow> None | Some c \<Rightarrow> rt_lookup c lvs)"
  by (auto simp: rt_lookup_def split: option.splits)

lemma wf_nodes_iff: "wf_nodes cs \<longleftrightarrow> (\<forall>c\<in>snd ` set cs. wf_node c)"
  by (induction cs) auto

lemma wf_child: "wf_nodes cs \<Longrightarrow> map_of cs lv = Some c \<Longrightarrow> wf_node c"
  by (force simp: wf_nodes_iff dest: map_of_SomeD)

lemma wf_nodes_put: "wf_nodes cs \<Longrightarrow> wf_node c \<Longrightarrow> wf_nodes (al_put lv c cs)"
  by (induction lv c cs rule: al_put.induct) auto

lemma wf_nodes_del: "wf_nodes cs \<Longrightarrow> wf_nodes (al_del lv cs)"
  by (auto simp: wf_nodes_iff al_del_def)

lemma wf_new [simp]: "wf_node newTopicTrie" "rt_lookup newTopicTrie p = None"
  by (simp add: newTopicTrie_def, cases p) (simp_all add: newTopicTrie_def)

lemma rt_add_wf: "wf_node t \<Longrightarrow> wf_node (rt_add p nm m t)"
proof (induction p arbitrary: t)
  case Nil
  then show ?case by (cases t) simp
next
  case (Cons lv p)
  obtain cs m0 nm0 where t: "t = Node cs m0 nm0" by (cases t)
  let ?c = "case map_of cs lv of None \<Rightarrow> Node [] None [] | Some c \<Rightarrow> c"
  have "wf_node ?c" using Cons.prems t by (auto split: option.splits dest: wf_child)
  then have "wf_node (rt_add p nm m ?c)" by (rule Cons.IH)
  then show ?case using Cons.prems by (simp add: t wf_nodes_put)
qed

lemma rt_lookup_add: "rt_lookup (rt_add p nm m t) = (rt_lookup t)(p \<mapsto> m)"
proof (induction p arbitrary: t)
  case Nil
  show ?case
  proof
    fix q show "rt_lookup (rt_add [] nm m t) q = ((rt_lookup t)([] \<mapsto> m)) q"
      by (cases t; cases q) simp_all
  qed
next
  case (Cons lv p)
  obtain cs m0 nm0 where t: "t = Node cs m0 nm0" by (cases t)
  have e: "rt_lookup (Node [] None []) q = None" for q by (cases q) simp_all
  show ?case
  proof
    fix q show "rt_lookup (rt_add (lv # p) nm m t) q = ((rt_lookup t)(lv # p \<mapsto> m)) q"
      by (cases q) (auto simp: t Cons.IH e split: option.splits)
  qed
qed

lemma rt_remove_wf: "wf_node t \<Longrightarrow> wf_node (rt_remove_path p t)"
proof (induction p arbitrary: t)
  case (Cons lv p)
  obtain cs m0 nm0 where t: "t = Node cs m0 nm0" by (cases t)
  show ?case
  proof (cases "map_of cs lv")
    case (Some c)
    then have c: "wf_node c" "wf_node (rt_remove_path p c)" "wf_node (Node (n_children c) None (n_topicName c))"
      using Cons t by (cases c; auto dest: wf_child)+
    then show ?thesis using Some Cons.prems t by (simp add: wf_nodes_put wf_nodes_del)
  qed (use Cons.prems t in simp)
qed simp

lemma rt_lookup_remove: "p \<noteq> [] \<Longrightarrow> rt_lookup (rt_remove_path p t) = (rt_lookup t)(p := None)"
proof (induction p arbitrary: t)
  case (Cons lv p)
  obtain cs m0 nm0 where t: "t = Node cs m0 nm0" by (cases t)
  show ?case
  proof
    fix q show "rt_lookup (rt_remove_path (lv # p) t) q = ((rt_lookup t)(lv # p := None)) q"
    proof (cases q)
      case Nil
      then show ?thesis by (auto simp: t split: option.splits)
    next
      case q: (Cons lq qs)
      show ?thesis
      proof (cases "map_of cs lv")
        case None
        then show ?thesis by (auto simp: t q)
      next
        case (Some c)
        obtain cs' m' nm' where c: "c = Node cs' m' nm'" by (cases c)
        show ?thesis
        proof (cases "p = []")
          case True
          then show ?thesis using Some by (cases qs) (auto simp: t q c)
        next
          case False
          then show ?thesis using Some Cons.IH [OF False, of c] by (auto simp: t q)
        qed
      qed
    qed
  qed
qed simp

section \<open>Traversal\<close>

fun entries :: "topicNode \<Rightarrow> (bytes list \<times> Message) list"
  and entries_children :: "(bytes \<times> topicNode) list \<Rightarrow> (bytes list \<times> Message) list" where
  "entries (Node cs m nm) = (case m of None \<Rightarrow> [] | Some x \<Rightarrow> [([], x)]) @ entries_children cs"
| "entries_children [] = []"
| "entries_children ((lv, c) # cs) = map (\<lambda>(p, x). (lv # p, x)) (entries c) @ entries_children cs"

text \<open>A callback applied to a list of messages until it says to stop.\<close>

fun fold_until :: "'s IterateFn \<Rightarrow> Message list \<Rightarrow> 's \<Rightarrow> 's \<times> bool" where
  "fold_until fn [] s = (s, True)"
| "fold_until fn (x # xs) s = (case fn x s of (s', b) \<Rightarrow> if \<not> b then (s', False) else fold_until fn xs s')"

lemma fold_until_append:
  "fold_until fn (xs @ ys) s =
    (case fold_until fn xs s of (s', b) \<Rightarrow> if \<not> b then (s', False) else fold_until fn ys s')"
  by (induction xs arbitrary: s) (auto split: prod.splits)

lemma fold_until_all: "fold_until (\<lambda>x s. (g x s, True)) xs s = (fold g xs s, True)"
  by (induction xs arbitrary: s) auto

lemma snd_push: "map snd (map (\<lambda>(p, x). (lv # p, x)) es) = map snd es"
  by (induction es) auto

lemma traverse_entries:
  "preOrderTraverse fn t s = fold_until fn (map snd (entries t)) s"
  "traverse_children fn cs s = fold_until fn (map snd (entries_children cs)) s"
  by (induction fn t s and fn cs s rule: preOrderTraverse_traverse_children.induct)
    (auto simp: fold_until_append snd_push split: option.splits prod.splits simp del: map_map)

lemma entries_children_keys: "(p, x) \<in> set (entries_children cs) \<Longrightarrow> p \<noteq> [] \<and> hd p \<in> set (al_keys cs)"
  by (induction cs) auto

lemma entries_lookup:
  "wf_node t \<Longrightarrow> distinct (map fst (entries t)) \<and> (\<forall>p x. (p, x) \<in> set (entries t) \<longleftrightarrow> rt_lookup t p = Some x)"
  "wf_nodes cs \<Longrightarrow> distinct (al_keys cs) \<Longrightarrow> distinct (map fst (entries_children cs))
    \<and> (\<forall>lv p x. (lv # p, x) \<in> set (entries_children cs) \<longleftrightarrow> (\<exists>c. map_of cs lv = Some c \<and> rt_lookup c p = Some x))"
proof (induction t and cs rule: entries_entries_children.induct)
  case (1 cs m nm)
  then have d: "distinct (map fst (entries_children cs))"
    and e: "\<And>lv p x. (lv # p, x) \<in> set (entries_children cs) \<longleftrightarrow> (\<exists>c. map_of cs lv = Some c \<and> rt_lookup c p = Some x)"
    by auto
  have "[] \<notin> fst ` set (entries_children cs)" using entries_children_keys by fastforce
  then have "distinct (map fst (entries (Node cs m nm)))" using d by (auto split: option.splits)
  moreover have "(p, x) \<in> set (entries (Node cs m nm)) \<longleftrightarrow> rt_lookup (Node cs m nm) p = Some x" for p x
  proof (cases p)
    case Nil
    then show ?thesis using entries_children_keys [of "[]" x cs] by (auto split: option.splits)
  next
    case (Cons lv p')
    then show ?thesis using e [of lv p' x] by (auto split: option.splits)
  qed
  ultimately show ?case by blast
next
  case 2
  then show ?case by simp
next
  case (3 lv c cs)
  then have d: "distinct (map fst (entries c))" "distinct (map fst (entries_children cs))"
    and e: "\<And>p x. (p, x) \<in> set (entries c) \<longleftrightarrow> rt_lookup c p = Some x"
    "\<And>l p x. (l # p, x) \<in> set (entries_children cs) \<longleftrightarrow> (\<exists>c. map_of cs l = Some c \<and> rt_lookup c p = Some x)"
    and n: "map_of cs lv = None"
    by (auto simp: map_of_eq_None_iff)
  have "distinct (map fst (map (\<lambda>(p, x). (lv # p, x)) (entries c)))"
    using d(1) by (auto simp: distinct_map inj_on_def comp_def split_beta)
  moreover have "(lv # p, x) \<notin> set (entries_children cs)" for p x
    using e(2) n by auto
  ultimately have "distinct (map fst (entries_children ((lv, c) # cs)))"
    using d(2) by (auto simp del: map_map)
  moreover have "(l # p, x) \<in> set (entries_children ((lv, c) # cs)) \<longleftrightarrow>
      l = lv \<and> (p, x) \<in> set (entries c) \<or> (l # p, x) \<in> set (entries_children cs)" for l p x
    by auto
  then have "(l # p, x) \<in> set (entries_children ((lv, c) # cs)) \<longleftrightarrow>
      (\<exists>c'. map_of ((lv, c) # cs) l = Some c' \<and> rt_lookup c' p = Some x)" for l p x
    unfolding e by (cases "l = lv") (simp_all add: n)
  ultimately show ?case by blast
qed

section \<open>Matching\<close>

abbreviation matched :: "bytes list \<Rightarrow> (bytes list \<times> Message) list \<Rightarrow> (bytes list \<times> Message) list" where
  "matched fs es \<equiv> filter (\<lambda>e. levels_match (fst e) fs) es"

lemma matched_push:
  "l \<noteq> [hash_sign] \<Longrightarrow> matched (l # fs) (map (\<lambda>(p, x). (lv # p, x)) es)
     = (if l = [plus_sign] \<or> l = lv then map (\<lambda>(p, x). (lv # p, x)) (matched fs es) else [])"
  by (induction es) auto

lemma matched_root: "matched [] (entries (Node cs m nm)) = (case m of None \<Rightarrow> [] | Some x \<Rightarrow> [([], x)])"
proof -
  have "matched [] (entries_children cs) = []" by (auto simp: filter_empty_conv dest: entries_children_keys)
  then show ?thesis by (simp split: option.splits)
qed

lemma matched_node: "l \<noteq> [hash_sign] \<Longrightarrow> matched (l # fs) (entries (Node cs m nm)) = matched (l # fs) (entries_children cs)"
  by (auto split: option.splits)

lemma matched_literal:
  "l \<noteq> [hash_sign] \<Longrightarrow> l \<noteq> [plus_sign] \<Longrightarrow> distinct (al_keys cs) \<Longrightarrow>
   map snd (matched (l # fs) (entries_children cs))
    = (case map_of cs l of None \<Rightarrow> [] | Some c \<Rightarrow> map snd (matched fs (entries c)))"
proof (induction cs)
  case (Cons a cs)
  obtain lv c where a: "a = (lv, c)" by fastforce
  show ?case
  proof (cases "lv = l")
    case True
    then have "matched (l # fs) (entries_children cs) = []"
      using Cons.prems a by (fastforce simp: filter_empty_conv neq_Nil_conv dest: entries_children_keys split: list.splits)
    then show ?thesis using True Cons.prems by (simp add: a matched_push snd_push del: map_map levels_match.simps)
  next
    case False
    then show ?thesis using Cons by (simp add: a matched_push del: map_map levels_match.simps)
  qed
qed simp

lemma matchTopic_entries:
  assumes "wf_node t" and "wf_levels ls" and "ls \<noteq> []"
  shows "matchTopic ls (\<lambda>x s. (g x s, True)) t s = fold g (map snd (matched ls (entries t))) s"
  using assms
proof (induction ls arbitrary: t s)
  case (Cons l ls)
  obtain cs m nm where t: "t = Node cs m nm" by (cases t)
  define visit where "visit v s = (if ls = [] then (case n_msg v of None \<Rightarrow> s | Some x \<Rightarrow> fst (g x s, True))
    else matchTopic ls (\<lambda>x s. (g x s, True)) v s)" for v s
  have visit: "visit c s = fold g (map snd (matched ls (entries c))) s" if "wf_node c" for c s
    using Cons.IH [OF that, of s] Cons.prems(2) matched_root
    by (cases c) (auto simp: visit_def split: option.splits)
  have mt: "matchTopic (l # ls) (\<lambda>x s. (g x s, True)) t s =
      (if l = [hash_sign] then fst (preOrderTraverse (\<lambda>x s. (g x s, True)) t s)
       else if l = [plus_sign] then fold (\<lambda>(lv, v) s. visit v s) cs s
       else (case map_of cs l of None \<Rightarrow> s | Some n \<Rightarrow> visit n s))"
    unfolding t visit_def by (simp only: matchTopic.simps Let_def topicNode.sel)
  consider "l = [hash_sign]" | "l = [plus_sign]" | "l \<noteq> [hash_sign]" "l \<noteq> [plus_sign]" by blast
  then show ?case
  proof cases
    case 1
    then have "matched (l # ls) (entries t) = entries t" using Cons.prems(2) by simp
    with 1 show ?thesis unfolding mt by (simp add: traverse_entries fold_until_all)
  next
    case 2
    have "wf_nodes cs" using Cons.prems(1) t by simp
    then have "fold (\<lambda>(lv, v) s. visit v s) cs s = fold g (map snd (matched (l # ls) (entries_children cs))) s"
    proof (induction cs arbitrary: s)
      case (Cons a cs)
      obtain lv c where "a = (lv, c)" by fastforce
      with Cons 2 show ?case by (simp add: matched_push visit snd_push del: map_map levels_match.simps)
    qed simp
    with 2 show ?thesis unfolding mt by (simp add: t matched_node)
  next
    case 3
    have "distinct (al_keys cs)" "wf_nodes cs" using Cons.prems(1) t by auto
    with 3 show ?thesis unfolding mt
      by (cases "map_of cs l")
        (simp_all add: t matched_node matched_literal visit wf_child del: levels_match.simps map_of_eq_Some_iff)
  qed
qed simp


lemma getMatchedMessages_entries:
  assumes "wf_node t" and "wf_levels (split_levels topicFilter)"
  shows "getMatchedMessages t topicFilter
    = map (Message_Copy \<circ> snd) (matched (split_levels topicFilter) (entries t))"
proof -
  have "fold (\<lambda>m rs. rs @ [Message_Copy m]) xs rs = rs @ map Message_Copy xs" for xs rs
    by (induction xs arbitrary: rs) auto
  then show ?thesis using matchTopic_entries [OF assms, of "\<lambda>m rs. rs @ [Message_Copy m]" "[]"]
    by (simp add: getMatchedMessages_def)
qed

section \<open>The contract of the store\<close>

locale retained_store =
  fixes inv :: "'d \<Rightarrow> bool"
    and content :: "'d \<Rightarrow> bytes \<Rightarrow> Message option"
    and empty :: 'd
    and add :: "'d \<Rightarrow> Message \<Rightarrow> 'd"
    and remove :: "'d \<Rightarrow> bytes \<Rightarrow> 'd"
    and clear :: "'d \<Rightarrow> 'd"
    and get :: "'d \<Rightarrow> bytes \<Rightarrow> Message option"
    and match :: "'d \<Rightarrow> bytes \<Rightarrow> Message list"
  assumes inv_empty: "inv empty" "content empty t = None"
    and inv_add: "inv d \<Longrightarrow> inv (add d m)"
    and inv_remove: "inv d \<Longrightarrow> inv (remove d t)"
    and inv_clear: "inv d \<Longrightarrow> inv (clear d)"
    and content_add: "inv d \<Longrightarrow> content (add d m) = (content d)(msg_Topic m \<mapsto> m)"
    and content_remove: "inv d \<Longrightarrow> content (remove d t) = (content d)(t := None)"
    and content_clear: "inv d \<Longrightarrow> content (clear d) t = None"
    and get_content: "inv d \<Longrightarrow> get d t = map_option Message_Copy (content d t)"
    and match_content: "inv d \<Longrightarrow> wf_filter f \<Longrightarrow>
      \<exists>ts. distinct ts \<and> set ts = {t. content d t \<noteq> None \<and> topic_matches t f}
        \<and> match d f = map (\<lambda>t. Message_Copy (the (content d t))) ts"
begin

lemma get_add: "inv d \<Longrightarrow> get (add d m) t = (if t = msg_Topic m then Some (Message_Copy m) else get d t)"
  by (simp add: get_content inv_add content_add)

lemma get_remove: "inv d \<Longrightarrow> get (remove d t) t' = (if t' = t then None else get d t')"
  by (simp add: get_content inv_remove content_remove)

lemma match_iff:
  assumes "inv d" and "wf_filter f"
  shows "m \<in> set (match d f) \<longleftrightarrow> (\<exists>t m'. content d t = Some m' \<and> topic_matches t f \<and> m = Message_Copy m')"
proof -
  obtain ts where ts: "set ts = {t. content d t \<noteq> None \<and> topic_matches t f}"
    "match d f = map (\<lambda>t. Message_Copy (the (content d t))) ts"
    using match_content [OF assms] by blast
  show ?thesis unfolding ts(2) set_map ts(1) by force
qed

lemma match_add:
  assumes "inv d" and "wf_filter f" and "topic_matches (msg_Topic m) f"
  shows "Message_Copy m \<in> set (match (add d m) f)"
  unfolding match_iff [OF inv_add [OF assms(1)] assms(2)] using assms by (auto simp: content_add)

end

definition inv_trieDB :: "trieDB \<Rightarrow> bool" where
  "inv_trieDB d \<longleftrightarrow> wf_node (userTrie d) \<and> wf_node (systemTrie d)
     \<and> (\<forall>p m. rt_lookup (userTrie d) p = Some m \<longrightarrow> (\<exists>t. p = split_levels t \<and> \<not> isSystemTopic t))
     \<and> (\<forall>p m. rt_lookup (systemTrie d) p = Some m \<longrightarrow> (\<exists>t. p = split_levels t \<and> isSystemTopic t))"

definition trieDB_content :: "trieDB \<Rightarrow> bytes \<Rightarrow> Message option" where
  "trieDB_content d t = rt_lookup (getTrie d t) (split_levels t)"

lemma trieDB_content_trie:
  "inv_trieDB d \<Longrightarrow> rt_lookup (if b then systemTrie d else userTrie d) p = Some m \<longleftrightarrow>
     (\<exists>t. p = split_levels t \<and> isSystemTopic t = b \<and> trieDB_content d t = Some m)"
  by (cases b) (auto simp: inv_trieDB_def trieDB_content_def getTrie_def)

lemma GetMatchedMessages_content:
  assumes "inv_trieDB d" and "wf_filter f"
  shows "\<exists>ts. distinct ts \<and> set ts = {t. trieDB_content d t \<noteq> None \<and> topic_matches t f}
    \<and> GetMatchedMessages d f = map (\<lambda>t. Message_Copy (the (trieDB_content d t))) ts"
proof -
  let ?t = "getTrie d f"
  let ?es = "matched (split_levels f) (entries ?t)"
  let ?ts = "map (join_levels \<circ> fst) ?es"
  have wf: "wf_node ?t" using assms(1) by (auto simp: inv_trieDB_def getTrie_def)
  have lk: "(p, m) \<in> set (entries ?t) \<longleftrightarrow>
      (\<exists>t. p = split_levels t \<and> isSystemTopic t = isSystemTopic f \<and> trieDB_content d t = Some m)" for p m
    using entries_lookup(1) [OF wf] trieDB_content_trie [OF assms(1), of "isSystemTopic f" p m]
    by (simp add: getTrie_def)
  have sp: "split_levels (join_levels (fst e)) = fst e" if "e \<in> set ?es" for e
    using that lk [of "fst e" "snd e"] by auto
  have "distinct (map fst ?es)" using entries_lookup(1) [OF wf] by (simp add: distinct_map_filter)
  moreover have "map (split_levels \<circ> (join_levels \<circ> fst)) ?es = map fst ?es"
    using sp by (intro map_cong) auto
  ultimately have "distinct (map (split_levels \<circ> (join_levels \<circ> fst)) ?es)" by (simp only:)
  then have "distinct (map split_levels ?ts)" by (simp only: map_map)
  then have "distinct ?ts" unfolding distinct_map by blast
  moreover have "t \<in> set ?ts \<longleftrightarrow> trieDB_content d t \<noteq> None \<and> topic_matches t f" for t
  proof -
    have "t \<in> set ?ts \<longleftrightarrow> (\<exists>p m. (p, m) \<in> set (entries ?t) \<and> levels_match p (split_levels f) \<and> t = join_levels p)"
      by (auto intro!: rev_image_eqI)
    also have "\<dots> \<longleftrightarrow> trieDB_content d t \<noteq> None \<and> topic_matches t f"
      unfolding lk topic_matches_def by (auto intro!: exI [of _ "split_levels t"])
    finally show ?thesis .
  qed
  then have "set ?ts = {t. trieDB_content d t \<noteq> None \<and> topic_matches t f}" by blast
  moreover have "GetMatchedMessages d f = map (\<lambda>t. Message_Copy (the (trieDB_content d t))) ?ts"
  proof -
    have "snd e = the (trieDB_content d (join_levels (fst e)))" if "e \<in> set ?es" for e
      using that lk [of "fst e" "snd e"] by auto
    then show ?thesis using getMatchedMessages_entries [OF wf] assms(2)
      by (simp add: GetMatchedMessages_def wf_filter_def)
  qed
  ultimately show ?thesis by blast
qed

interpretation retained: retained_store inv_trieDB trieDB_content NewStore AddOrReplace Retained_Remove
  ClearAll GetRetainedMessage GetMatchedMessages
proof unfold_locales
  fix d :: trieDB and m :: Message and t f :: bytes
  show "inv_trieDB NewStore" "trieDB_content NewStore t = None"
    by (simp_all add: inv_trieDB_def NewStore_def trieDB_content_def getTrie_def)
  assume inv: "inv_trieDB d"
  show "inv_trieDB (AddOrReplace d m)" using inv
    by (auto simp: inv_trieDB_def AddOrReplace_def upd_trie_def addRetainMsg_def rt_add_wf rt_lookup_add split: if_splits)
  show "inv_trieDB (Retained_Remove d t)" using inv
    by (auto simp: inv_trieDB_def Retained_Remove_def upd_trie_def rt_remove_def rt_remove_wf rt_lookup_remove split: if_splits)
  show "inv_trieDB (ClearAll d)" by (simp add: inv_trieDB_def ClearAll_def)
  show "trieDB_content (AddOrReplace d m) = (trieDB_content d)(msg_Topic m \<mapsto> m)"
    by (rule ext) (auto simp: trieDB_content_def getTrie_def AddOrReplace_def upd_trie_def addRetainMsg_def rt_lookup_add)
  show "trieDB_content (Retained_Remove d t) = (trieDB_content d)(t := None)"
    by (rule ext) (auto simp: trieDB_content_def getTrie_def Retained_Remove_def upd_trie_def rt_remove_def rt_lookup_remove)
  show "trieDB_content (ClearAll d) t = None"
    by (simp add: trieDB_content_def getTrie_def ClearAll_def)
  show "GetRetainedMessage d t = map_option Message_Copy (trieDB_content d t)"
    by (auto simp: GetRetainedMessage_def rt_find_def trieDB_content_def rt_lookup_def split: option.splits)
qed (rule GetMatchedMessages_content)

section \<open>Every history of the store\<close>

text \<open>The operations of the retained store, run from an empty store.\<close>

datatype retained_op = RAdd Message | RRemove bytes | RClear

fun retained_apply :: "trieDB \<Rightarrow> retained_op \<Rightarrow> trieDB" where
  "retained_apply d (RAdd m) = AddOrReplace d m"
| "retained_apply d (RRemove t) = Retained_Remove d t"
| "retained_apply d RClear = ClearAll d"

text \<open>What the history says of a topic: the last message added since it was removed or all were cleared.\<close>

fun retained_history :: "retained_op list \<Rightarrow> bytes \<Rightarrow> Message option" where
  "retained_history [] t = None"
| "retained_history (RAdd m # past) t = (if t = msg_Topic m then Some m else retained_history past t)"
| "retained_history (RRemove u # past) t = (if t = u then None else retained_history past t)"
| "retained_history (RClear # past) t = None"

lemma retained_run:
  "inv_trieDB (foldl retained_apply NewStore ops)
   \<and> trieDB_content (foldl retained_apply NewStore ops) t = retained_history (rev ops) t"
proof (induction ops rule: rev_induct)
  case Nil
  then show ?case using retained.inv_empty by simp
next
  case (snoc op ops)
  then show ?case
    by (cases op) (auto simp: retained.inv_add retained.inv_remove retained.inv_clear
        retained.content_add retained.content_remove retained.content_clear)
qed

text \<open>
  After any sequence of additions, removals and clearings, the message returned for a topic is a copy of
  the last one added since the topic was last removed.
\<close>

lemma retained_get:
  "GetRetainedMessage (foldl retained_apply NewStore ops) t = map_option Message_Copy (retained_history (rev ops) t)"
  using retained_run [of ops t] retained.get_content by simp

text \<open>
  C12. After any sequence of operations, the messages returned for a well-formed filter are exactly copies of
  the retained messages whose topic matches it.
\<close>

theorem retained_match:
  assumes "wf_filter f"
  shows "m \<in> set (GetMatchedMessages (foldl retained_apply NewStore ops) f) \<longleftrightarrow>
    (\<exists>t m'. retained_history (rev ops) t = Some m' \<and> topic_matches t f \<and> m = Message_Copy m')"
  using retained.match_iff [OF conjunct1 [OF retained_run] assms] retained_run by simp

theorem retained_match_witness:
  "Message_Copy msg_example \<in> set (GetMatchedMessages (foldl retained_apply NewStore [RAdd msg_example]) [0x61])"
  using retained_match [of "[0x61]" "Message_Copy msg_example" "[RAdd msg_example]"]
  by (simp add: wf_filter_def level_ok_def msg_example_def topic_matches_def)

end
