(* ===== verification/Bitmap.thy ===== *)
theory Bitmap
  imports Prelude
begin

text \<open>
  \<^verbatim>\<open>gmqtt/pkg/bitmap/bitmap.go\<close>: a set of 16-bit numbers in a byte slice.  An index beyond the
  slice is a run-time panic.  The locale \<open>id_set\<close> is what the packet identifier limiter relies
  on; \<open>Bitmap_id_set\<close> shows that a bitmap that \<^verbatim>\<open>New\<close> made provides it.
\<close>

unbundle bit_operations_syntax

abbreviation (input) MaxSize :: uint16 where "MaxSize \<equiv> 65535"

record Bitmap =
  vals :: "byte list"
  bm_size :: uint16

definition Bitmap_New :: "uint16 \<Rightarrow> Bitmap" where
  "Bitmap_New sz =
     (let s = (if sz = 0 \<or> MaxSize \<le> sz then MaxSize
                  else let remainder = sz mod 8 in
                    if remainder \<noteq> 0 then sz + (8 - remainder) else sz) in
      \<lparr>vals = replicate (unat (drop_bit 3 s + 1)) 0, bm_size = s\<rparr>)"

definition Bitmap_Size :: "Bitmap \<Rightarrow> uint16" where
  "Bitmap_Size b = bm_size b"

definition Bitmap_Set :: "Bitmap \<Rightarrow> uint16 \<Rightarrow> byte \<Rightarrow> (Bitmap \<times> bool) res" where
  "Bitmap_Set b offset value =
     (if bm_size b < offset then Inr (b, False)
      else let index = unat (drop_bit 3 offset); pos = unat (offset AND 0x07) in
        if length (vals b) \<le> index then Inl Panic
        else if value = 0
        then Inr (b\<lparr>vals := (vals b)[index := vals b ! index AND NOT (push_bit pos 1)]\<rparr>, True)
        else Inr (b\<lparr>vals := (vals b)[index := vals b ! index OR push_bit pos 1]\<rparr>, True))"

definition Bitmap_Get :: "Bitmap \<Rightarrow> uint16 \<Rightarrow> byte res" where
  "Bitmap_Get b offset =
     (if bm_size b < offset then Inr 0
      else let index = unat (drop_bit 3 offset); pos = unat (offset AND 0x07) in
        if length (vals b) \<le> index then Inl Panic
        else Inr (drop_bit pos (vals b ! index) AND 0x01))"

section \<open>The set a bitmap stands for\<close>

definition bm_wf :: "Bitmap \<Rightarrow> bool" where
  "bm_wf b \<longleftrightarrow> length (vals b) = unat (drop_bit 3 (bm_size b)) + 1"

definition bm_mem :: "Bitmap \<Rightarrow> uint16 \<Rightarrow> bool" where
  "bm_mem b i \<longleftrightarrow> i \<le> bm_size b \<and> bit (vals b ! (unat i div 8)) (unat i mod 8)"

lemma unat_index: "unat (drop_bit 3 (i :: uint16)) = unat i div 8"
  by (simp add: drop_bit_eq_div unat_div)

lemma unat_pos: "unat ((i :: uint16) AND 7) = unat i mod 8"
proof -
  have "i AND 7 = take_bit 3 i" by (simp add: take_bit_eq_mask mask_eq_exp_minus_1)
  then show ?thesis by (simp add: take_bit_eq_mod unat_mod)
qed

lemma bm_index: "bm_wf b \<Longrightarrow> i \<le> bm_size b \<Longrightarrow> unat i div 8 < length (vals b)"
  by (simp add: bm_wf_def unat_index word_le_nat_alt div_le_mono less_Suc_eq_le)

lemma bm_wf_New: "bm_wf (Bitmap_New sz)"
proof -
  have "unat (drop_bit 3 s + 1) = unat (drop_bit 3 s) + 1" for s :: uint16
  proof -
    have "unat s < 65536" using unsigned_less [where ?'a = nat, of s] by simp
    then have "unat s div 8 < 8192" by (simp add: less_mult_imp_div_less)
    then show ?thesis by (simp add: unat_word_ariths unat_index)
  qed
  then show ?thesis by (simp add: bm_wf_def Bitmap_New_def Let_def)
qed

lemma bm_mem_New: "\<not> bm_mem (Bitmap_New sz) i"
  using bm_wf_New [of sz] bm_index [OF bm_wf_New, of i sz]
  by (auto simp: bm_mem_def Bitmap_New_def Let_def split: if_splits)

lemma Bitmap_Get_eq: "bm_wf b \<Longrightarrow> Bitmap_Get b i = Inr (if bm_mem b i then 1 else 0)"
  using bm_index [of b i]
  by (auto simp: Bitmap_Get_def bm_mem_def Let_def unat_index unat_pos not_less not_le
      bit_iff_odd_drop_bit and_one_eq odd_iff_mod_2_eq_one)

lemma same_slot: "unat i div 8 = unat j div 8 \<Longrightarrow> unat i mod 8 = unat j mod 8 \<Longrightarrow> i = (j :: uint16)"
  by (metis div_mult_mod_eq word_unat_eq_iff)

lemma Bitmap_Set_eq:
  assumes "bm_wf b" and "i \<le> bm_size b"
  shows "\<exists>b'. Bitmap_Set b i v = Inr (b', True) \<and> bm_wf b' \<and> bm_size b' = bm_size b
    \<and> (\<forall>j. bm_mem b' j = (if j = i then v \<noteq> 0 else bm_mem b j))"
proof -
  let ?k = "unat i div 8" and ?p = "unat i mod 8"
  define w where "w = (if v = 0 then vals b ! ?k AND NOT (push_bit ?p 1) else vals b ! ?k OR push_bit ?p 1)"
  let ?b = "b\<lparr>vals := (vals b)[?k := w]\<rparr>"
  have k: "?k < length (vals b)" using bm_index [OF assms] .
  have s: "Bitmap_Set b i v = Inr (?b, True)"
    using k assms by (simp add: Bitmap_Set_def Let_def unat_index unat_pos not_le [symmetric] w_def)
  have w: "bit w n \<longleftrightarrow> (if n = ?p then v \<noteq> 0 else bit (vals b ! ?k) n)" if "n < 8" for n
    using that by (auto simp: w_def bit_simps)
  have "bm_mem ?b j = (if j = i then v \<noteq> 0 else bm_mem b j)" for j
  proof (cases "unat j div 8 = ?k")
    case True
    have "unat j mod 8 < 8" by simp
    from w [OF this] True same_slot [of j i] assms(2) k show ?thesis
      by (auto simp: bm_mem_def)
  next
    case False
    then show ?thesis by (auto simp: bm_mem_def)
  qed
  with s assms(1) show ?thesis by (auto simp: bm_wf_def)
qed

section \<open>The interface of the limiter\<close>

locale id_set =
  fixes ok :: "'b \<Rightarrow> bool"
    and mem :: "'b \<Rightarrow> uint16 \<Rightarrow> bool"
    and get :: "'b \<Rightarrow> uint16 \<Rightarrow> byte res"
    and set1 :: "'b \<Rightarrow> uint16 \<Rightarrow> byte \<Rightarrow> ('b \<times> bool) res"
  assumes get_mem: "ok b \<Longrightarrow> get b i = Inr (if mem b i then 1 else 0)"
    and set_mem: "ok b \<Longrightarrow> \<exists>b'. set1 b i v = Inr (b', True) \<and> ok b'
      \<and> (\<forall>j. mem b' j = (if j = i then v \<noteq> 0 else mem b j))"
begin

abbreviation ids :: "'b \<Rightarrow> uint16 set" where
  "ids b \<equiv> {i. mem b i}"

lemma finite_ids: "finite (ids b)"
  by simp

lemma set_ids:
  assumes "ok b"
  obtains b' where "set1 b i v = Inr (b', True)" and "ok b'"
    and "ids b' = (if v = 0 then ids b - {i} else insert i (ids b))"
proof -
  obtain b' where "set1 b i v = Inr (b', True)" "ok b'"
    and "\<forall>j. mem b' j = (if j = i then v \<noteq> 0 else mem b j)"
    using set_mem [OF assms, of i v] by blast
  then show thesis by (intro that [of b']) auto
qed

end

text \<open>A bitmap that \<^verbatim>\<open>New(MaxPacketID)\<close> made has room for every packet identifier.\<close>

definition bm_full :: "Bitmap \<Rightarrow> bool" where
  "bm_full b \<longleftrightarrow> bm_wf b \<and> bm_size b = MaxSize"

interpretation Bitmap_id_set: id_set bm_full bm_mem Bitmap_Get Bitmap_Set
proof unfold_locales
  fix b :: Bitmap and i :: uint16 and v :: byte assume b: "bm_full b"
  then show "Bitmap_Get b i = Inr (if bm_mem b i then 1 else 0)"
    by (simp add: Bitmap_Get_eq bm_full_def)
  have "unat i < 65536" using unsigned_less [where ?'a = nat, of i] by simp
  then have "i \<le> bm_size b" using b by (simp add: bm_full_def word_le_nat_alt)
  with Bitmap_Set_eq [of b i v] b
  show "\<exists>b'. Bitmap_Set b i v = Inr (b', True) \<and> bm_full b'
      \<and> (\<forall>j. bm_mem b' j = (if j = i then v \<noteq> 0 else bm_mem b j))"
    by (auto simp: bm_full_def)
qed

end
