(* ===== verification/Limiter.thy ===== *)
theory Limiter
  imports Bitmap
begin

text \<open>
  \<^verbatim>\<open>gmqtt/server/limiter.go\<close>: the limiter that hands out packet identifiers, at most
  \<^verbatim>\<open>limit\<close> (the client's receive maximum) at a time.  The methods run under the limiter's mutex, so
  each is one state transition; \<open>None\<close> stands for a call that does not return, because it waits on
  the condition variable or because its search for a free identifier runs forever.  The search is
  shown to end, so a call that does not wait returns.  The step relation \<open>lim_step\<close> lets the
  methods run in any order; \<open>lim_inv\<close> holds in every state it reaches.
\<close>

abbreviation (input) MaxPacketID :: uint16 where "MaxPacketID \<equiv> 65535"
abbreviation (input) MinPacketID :: uint16 where "MinPacketID \<equiv> 1"

record packetIDLimiter =
  used :: uint16
  limit :: uint16
  exit :: bool
  lockedPid :: Bitmap
  freePid :: uint16

definition newPacketIDLimiter :: "uint16 \<Rightarrow> packetIDLimiter" where
  "newPacketIDLimiter lim =
     \<lparr>used = 0, limit = lim, exit = False, lockedPid = Bitmap_New MaxPacketID, freePid = 1\<rparr>"

definition limiter_close :: "packetIDLimiter \<Rightarrow> packetIDLimiter" where
  "limiter_close p = p\<lparr>exit := True\<rparr>"

definition nextPid :: "uint16 \<Rightarrow> uint16" where
  "nextPid pid = (if pid = MaxPacketID then MinPacketID else pid + 1)"

text \<open>The inner loop, which steps \<^verbatim>\<open>freePid\<close> to the next identifier that is not locked.\<close>

partial_function (option) search_free :: "Bitmap \<Rightarrow> uint16 \<Rightarrow> uint16 res option" where
  "search_free b pid =
     (case Bitmap_Get b pid of
        Inl e \<Rightarrow> Some (Inl e)
      | Inr v \<Rightarrow> if v = 1 then search_free b (nextPid pid) else Some (Inr pid))"

fun poll_loop :: "nat \<Rightarrow> packetIDLimiter \<Rightarrow> uint16 list \<Rightarrow> (packetIDLimiter \<times> uint16 list) res option" where
  "poll_loop 0 p idv = Some (Inr (p, idv))"
| "poll_loop (Suc n) p idv =
     (case search_free (lockedPid p) (freePid p) of
        None \<Rightarrow> None
      | Some (Inl e) \<Rightarrow> Some (Inl e)
      | Some (Inr pid) \<Rightarrow>
          (case Bitmap_Set (lockedPid p) pid 1 of
             Inl e \<Rightarrow> Some (Inl e)
           | Inr (b, _) \<Rightarrow>
               poll_loop n (p\<lparr>used := used p + 1, lockedPid := b, freePid := nextPid pid\<rparr>) (idv @ [pid])))"

definition pollPacketIDs ::
    "packetIDLimiter \<Rightarrow> uint16 \<Rightarrow> (packetIDLimiter \<times> uint16 list) res option" where
  "pollPacketIDs p max1 =
     (if limit p \<le> used p \<and> \<not> exit p then None
      else if exit p then Some (Inr (p, []))
      else let remain = limit p - used p; n = (if remain < max1 then remain else max1) in
        poll_loop (unat n) p [])"

definition releaseLocked :: "packetIDLimiter \<Rightarrow> uint16 \<Rightarrow> packetIDLimiter res" where
  "releaseLocked p idv =
     rbind (Bitmap_Get (lockedPid p) idv) (\<lambda>v.
       if v = 1 then
         rbind (Bitmap_Set (lockedPid p) idv 0) (\<lambda>(b, _).
         Inr (p\<lparr>lockedPid := b, used := used p - 1\<rparr>))
       else Inr p)"

definition limiter_release :: "packetIDLimiter \<Rightarrow> uint16 \<Rightarrow> packetIDLimiter res" where
  "limiter_release p idv = releaseLocked p idv"

fun batchRelease :: "packetIDLimiter \<Rightarrow> uint16 list \<Rightarrow> packetIDLimiter res" where
  "batchRelease p [] = Inr p"
| "batchRelease p (v # idv) = rbind (releaseLocked p v) (\<lambda>p'. batchRelease p' idv)"

definition markUsedLocked :: "packetIDLimiter \<Rightarrow> uint16 \<Rightarrow> packetIDLimiter res" where
  "markUsedLocked p idv =
     rbind (Bitmap_Set (lockedPid p) idv 1) (\<lambda>(b, _). Inr (p\<lparr>used := used p + 1, lockedPid := b\<rparr>))"

section \<open>The invariant\<close>

abbreviation locked :: "packetIDLimiter \<Rightarrow> uint16 set" where
  "locked p \<equiv> {i. bm_mem (lockedPid p) i}"

definition lim_inv :: "packetIDLimiter \<Rightarrow> bool" where
  "lim_inv p \<longleftrightarrow> bm_full (lockedPid p) \<and> unat (used p) = card (locked p) \<and> 0 \<notin> locked p \<and> freePid p \<noteq> 0"

lemma card_uint16_nonzero: "(0 :: uint16) \<notin> A \<Longrightarrow> card A \<le> 65535"
proof -
  assume "(0 :: uint16) \<notin> A"
  then have "card A \<le> card (- {0 :: uint16})" by (intro card_mono) auto
  also have "\<dots> = 65535" by (simp add: Compl_eq_Diff_UNIV card_Diff_singleton card_word)
  finally show ?thesis .
qed

lemma lim_inv_new: "lim_inv (newPacketIDLimiter lim)"
  using bm_wf_New [of MaxPacketID] bm_mem_New [of MaxPacketID]
  by (simp add: lim_inv_def newPacketIDLimiter_def bm_full_def Bitmap_New_def Let_def)

section \<open>The search for a free identifier ends\<close>

lemma unat_nextPid: "unat (nextPid pid) = (if unat pid = 65535 then 1 else unat pid + 1)"
proof -
  have "unat pid < 65536" using unsigned_less [where ?'a = nat, of pid] by simp
  then show ?thesis by (auto simp: nextPid_def unat_word_ariths word_unat_eq_iff)
qed

lemma nextPid_nonzero [simp]: "nextPid pid \<noteq> 0"
  using unat_nextPid [of pid] by (auto simp: word_unat_eq_iff split: if_splits)

lemma iterate_nextPid:
  "unat pid + k \<le> 65535 \<Longrightarrow> unat ((nextPid ^^ k) pid) = unat pid + k"
  by (induction k) (auto simp: unat_nextPid)

lemma nextPid_reaches:
  assumes "q \<noteq> 0"
  shows "\<exists>k. (nextPid ^^ k) pid = q"
proof (cases "unat pid \<le> unat q")
  case True
  then have "(nextPid ^^ (unat q - unat pid)) pid = q"
    using iterate_nextPid [of pid "unat q - unat pid"] unsigned_less [where ?'a = nat, of q]
    by (simp add: word_unat_eq_iff)
  then show ?thesis by blast
next
  case False
  have b: "unat pid < 65536" "unat q < 65536"
    using unsigned_less [where ?'a = nat, of pid] unsigned_less [where ?'a = nat, of q] by simp_all
  let ?m = "(nextPid ^^ (65535 - unat pid)) pid"
  have "unat ?m = 65535" using iterate_nextPid [of pid "65535 - unat pid"] b by simp
  then have one: "unat (nextPid ?m) = 1" by (simp add: unat_nextPid)
  have "unat q \<noteq> 0" using assms by (simp add: unat_eq_0)
  then have "(nextPid ^^ (unat q - 1)) (nextPid ?m) = q"
    using iterate_nextPid [of "nextPid ?m" "unat q - 1"] one b by (simp add: word_unat_eq_iff)
  then have "(nextPid ^^ (unat q - 1 + Suc (65535 - unat pid))) pid = q"
    by (simp only: funpow_add comp_apply funpow.simps(2))
  then show ?thesis by blast
qed

lemma search_free_finds:
  assumes "bm_full b" and "\<not> bm_mem b ((nextPid ^^ k) pid)"
  shows "\<exists>r. search_free b pid = Some (Inr r) \<and> \<not> bm_mem b r \<and> (r = pid \<or> r \<noteq> 0)"
  using assms
proof (induction k arbitrary: pid)
  case 0
  then show ?case by (subst search_free.simps) (simp add: Bitmap_id_set.get_mem)
next
  case (Suc k)
  then have "\<not> bm_mem b ((nextPid ^^ k) (nextPid pid))" by (simp add: funpow_swap1)
  from Suc.IH [OF assms(1) this] show ?case
    by (subst search_free.simps) (auto simp: Bitmap_id_set.get_mem assms(1))
qed

lemma search_free_ends:
  assumes "lim_inv p" and "card (locked p) < 65535"
  shows "\<exists>r. search_free (lockedPid p) (freePid p) = Some (Inr r) \<and> r \<notin> locked p \<and> r \<noteq> 0"
proof -
  have "\<not> - {0} \<subseteq> locked p"
  proof
    assume "- {0} \<subseteq> locked p"
    then have "card (- {0 :: uint16}) \<le> card (locked p)" by (intro card_mono) auto
    with assms(2) show False by (simp add: Compl_eq_Diff_UNIV card_Diff_singleton card_word)
  qed
  then obtain q where "q \<noteq> 0" "q \<notin> locked p" by auto
  with nextPid_reaches [of q "freePid p"] obtain k where "\<not> bm_mem (lockedPid p) ((nextPid ^^ k) (freePid p))"
    by auto
  with search_free_finds assms(1) show ?thesis by (fastforce simp: lim_inv_def)
qed

section \<open>Polling\<close>

lemma poll_loop_ok:
  assumes "lim_inv p" and "card (locked p) + n \<le> 65535" and "set acc \<subseteq> locked p" and "distinct acc"
  shows "\<exists>p' ids. poll_loop n p acc = Some (Inr (p', acc @ ids)) \<and> lim_inv p' \<and> length ids = n
    \<and> distinct (acc @ ids) \<and> 0 \<notin> set ids \<and> set ids \<inter> locked p = {} \<and> locked p' = locked p \<union> set ids
    \<and> limit p' = limit p \<and> exit p' = exit p"
  using assms
proof (induction n arbitrary: p acc)
  case 0
  then show ?case by auto
next
  case (Suc n)
  obtain r where r: "search_free (lockedPid p) (freePid p) = Some (Inr r)" "r \<notin> locked p" "r \<noteq> 0"
    using search_free_ends [OF Suc.prems(1)] Suc.prems(2) by auto
  obtain b where b: "Bitmap_Set (lockedPid p) r 1 = Inr (b, True)" "bm_full b"
    "{i. bm_mem b i} = insert r (locked p)"
    using Bitmap_id_set.set_ids [of "lockedPid p" r 1] Suc.prems(1) by (auto simp: lim_inv_def)
  let ?p = "p\<lparr>used := used p + 1, lockedPid := b, freePid := nextPid r\<rparr>"
  have c: "card (locked ?p) = card (locked p) + 1" using r b by simp
  have "unat (used p + 1) = unat (used p) + 1"
    using Suc.prems(1,2) by (simp add: lim_inv_def unat_word_ariths)
  then have inv: "lim_inv ?p" using Suc.prems(1) b r c by (auto simp: lim_inv_def)
  have "set (acc @ [r]) \<subseteq> locked ?p" "distinct (acc @ [r])" using Suc.prems r b by auto
  moreover have "card (locked ?p) + n \<le> 65535" using c Suc.prems(2) by simp
  ultimately obtain p' ids where ids: "poll_loop n ?p (acc @ [r]) = Some (Inr (p', (acc @ [r]) @ ids))" "lim_inv p'"
      "length ids = n" "distinct ((acc @ [r]) @ ids)" "0 \<notin> set ids" "set ids \<inter> locked ?p = {}"
      "locked p' = locked ?p \<union> set ids" "limit p' = limit ?p" "exit p' = exit ?p"
    using Suc.IH [OF inv] by blast
  then show ?case using r b by (intro exI [of _ p'] exI [of _ "r # ids"]) auto
qed

lemma pollPacketIDs_ok:
  assumes "lim_inv p" and "used p < limit p" and "\<not> exit p"
  shows "\<exists>p' ids. pollPacketIDs p max1 = Some (Inr (p', ids)) \<and> lim_inv p'
    \<and> length ids = min (unat max1) (unat (limit p) - unat (used p))
    \<and> distinct ids \<and> 0 \<notin> set ids \<and> set ids \<inter> locked p = {} \<and> locked p' = locked p \<union> set ids
    \<and> limit p' = limit p \<and> exit p' = exit p \<and> unat (used p') = unat (used p) + length ids"
proof -
  define n where "n = (if limit p - used p < max1 then limit p - used p else max1)"
  have u: "unat (limit p - used p) = unat (limit p) - unat (used p)"
    using assms(2) by (simp add: unat_sub word_less_nat_alt word_le_nat_alt)
  have n: "unat n = min (unat max1) (unat (limit p) - unat (used p))"
    by (auto simp: n_def u word_less_nat_alt)
  have "unat (limit p) < 65536" using unsigned_less [where ?'a = nat, of "limit p"] by simp
  then have "card (locked p) + unat n \<le> 65535"
    using assms by (simp add: n lim_inv_def word_less_nat_alt)
  from poll_loop_ok [OF assms(1) this, of "[]"] obtain p' ids where
    ids: "poll_loop (unat n) p [] = Some (Inr (p', ids))" "lim_inv p'" "length ids = unat n" "distinct ids"
      "0 \<notin> set ids" "set ids \<inter> locked p = {}" "locked p' = locked p \<union> set ids" "limit p' = limit p" "exit p' = exit p"
    by auto
  moreover have "unat (used p') = unat (used p) + length ids"
  proof -
    have "card (locked p \<union> set ids) = card (locked p) + length ids"
      using ids by (simp add: card_Un_disjoint Int_commute distinct_card)
    with ids assms(1) show ?thesis by (simp add: lim_inv_def)
  qed
  ultimately show ?thesis using assms(2,3)
    by (intro exI [of _ p'] exI [of _ ids]) (auto simp: pollPacketIDs_def Let_def n_def [symmetric] n)
qed

section \<open>Releasing and marking\<close>

lemma releaseLocked_ok:
  assumes "lim_inv p"
  shows "\<exists>p'. releaseLocked p idv = Inr p' \<and> lim_inv p' \<and> locked p' = locked p - {idv}
    \<and> limit p' = limit p \<and> exit p' = exit p \<and> freePid p' = freePid p"
proof (cases "idv \<in> locked p")
  case True
  obtain b where b: "Bitmap_Set (lockedPid p) idv 0 = Inr (b, True)" "bm_full b"
    "{i. bm_mem b i} = locked p - {idv}"
    using Bitmap_id_set.set_ids [of "lockedPid p" idv 0] assms by (auto simp: lim_inv_def)
  have g: "Bitmap_Get (lockedPid p) idv = Inr 1"
    using True assms by (simp add: Bitmap_id_set.get_mem lim_inv_def)
  have "0 < card (locked p)" using True by (auto simp: card_gt_0_iff)
  then have "used p \<noteq> 0" using assms by (auto simp: lim_inv_def)
  then have "unat (used p - 1) = card (locked p) - 1"
    using assms by (simp add: lim_inv_def unat_minus_one)
  then have "lim_inv (p\<lparr>lockedPid := b, used := used p - 1\<rparr>)"
    using assms b True by (auto simp: lim_inv_def)
  with b g show ?thesis by (simp add: releaseLocked_def)
next
  case False
  then show ?thesis using assms
    by (simp add: releaseLocked_def Bitmap_id_set.get_mem lim_inv_def)
qed

lemma batchRelease_ok:
  "lim_inv p \<Longrightarrow> \<exists>p'. batchRelease p ids = Inr p' \<and> lim_inv p' \<and> locked p' = locked p - set ids
    \<and> limit p' = limit p \<and> exit p' = exit p"
proof (induction ids arbitrary: p)
  case (Cons v ids)
  obtain p1 where p1: "releaseLocked p v = Inr p1" "lim_inv p1" "locked p1 = locked p - {v}"
    "limit p1 = limit p" "exit p1 = exit p"
    using releaseLocked_ok [OF Cons.prems, of v] by blast
  obtain p2 where "batchRelease p1 ids = Inr p2" "lim_inv p2" "locked p2 = locked p1 - set ids"
    "limit p2 = limit p1" "exit p2 = exit p1"
    using Cons.IH [OF p1(2)] by blast
  with p1 show ?case by auto
qed auto

lemma markUsedLocked_ok:
  assumes "lim_inv p" and "idv \<noteq> 0" and "idv \<notin> locked p"
  shows "\<exists>p'. markUsedLocked p idv = Inr p' \<and> lim_inv p' \<and> locked p' = insert idv (locked p)
    \<and> limit p' = limit p \<and> exit p' = exit p"
proof -
  obtain b where b: "Bitmap_Set (lockedPid p) idv 1 = Inr (b, True)" "bm_full b"
    "{i. bm_mem b i} = insert idv (locked p)"
    using Bitmap_id_set.set_ids [of "lockedPid p" idv 1] assms by (auto simp: lim_inv_def)
  have "card (insert idv (locked p)) \<le> 65535"
    using assms by (intro card_uint16_nonzero) (auto simp: lim_inv_def)
  then have "card (locked p) < 65535" using assms by simp
  then have "unat (used p + 1) = card (locked p) + 1"
    using assms by (simp add: lim_inv_def unat_word_ariths)
  then show ?thesis using assms b by (auto simp: markUsedLocked_def lim_inv_def)
qed

section \<open>Every interleaving\<close>

text \<open>
  \<open>markUsedLocked\<close> is called for identifiers that a stored session has in flight, which are
  distinct and not zero; its step has that as its guard.
\<close>

inductive lim_step :: "packetIDLimiter \<Rightarrow> packetIDLimiter \<Rightarrow> bool" where
  poll: "pollPacketIDs p max1 = Some (Inr (p', ids)) \<Longrightarrow> lim_step p p'"
| release: "limiter_release p idv = Inr p' \<Longrightarrow> lim_step p p'"
| batch: "batchRelease p ids = Inr p' \<Longrightarrow> lim_step p p'"
| mark: "idv \<noteq> 0 \<Longrightarrow> idv \<notin> locked p \<Longrightarrow> markUsedLocked p idv = Inr p' \<Longrightarrow> lim_step p p'"
| close: "lim_step p (limiter_close p)"

inductive_cases lim_stepE: "lim_step p p'"

lemma pollPacketIDs_exit: "exit p \<Longrightarrow> pollPacketIDs p max1 = Some (Inr (p, []))"
  by (simp add: pollPacketIDs_def)

lemma pollPacketIDs_waits: "\<not> exit p \<Longrightarrow> limit p \<le> used p \<Longrightarrow> pollPacketIDs p max1 = None"
  by (simp add: pollPacketIDs_def)

lemma lim_step_inv:
  assumes "lim_step p p'" and "lim_inv p"
  shows "lim_inv p'"
  using assms(1)
proof cases
  case (poll max1 ids)
  then show ?thesis
    using assms(2) pollPacketIDs_ok [of p max1] pollPacketIDs_exit [of p max1] pollPacketIDs_waits [of p max1]
    by (cases "exit p"; cases "used p < limit p") (auto simp: not_less)
next
  case (release idv)
  then show ?thesis using releaseLocked_ok [OF assms(2), of idv] by (auto simp: limiter_release_def)
next
  case (batch ids)
  then show ?thesis using batchRelease_ok [OF assms(2), of ids] by auto
next
  case (mark idv)
  then show ?thesis using markUsedLocked_ok [OF assms(2), of idv] by auto
next
  case close
  then show ?thesis using assms(2) by (simp add: lim_inv_def limiter_close_def)
qed

lemma lim_reachable_inv: "lim_step\<^sup>*\<^sup>* (newPacketIDLimiter lim) p \<Longrightarrow> lim_inv p"
  by (induction rule: rtranclp_induct) (auto intro: lim_inv_new lim_step_inv)

text \<open>
  C13. In every reachable state of a limiter, a poll of a closed limiter returns no identifiers and changes nothing; if it is not
  closed and there is room left, a poll ends and returns the smaller of the number asked for and the room left of distinct non-zero
  identifiers, none of which is in use, and marks exactly these as used; and if there is no room left, it waits.
\<close>

theorem limiter_poll:
  assumes "lim_step\<^sup>*\<^sup>* (newPacketIDLimiter lim) p"
  shows "if exit p then pollPacketIDs p n = Some (Inr (p, []))
    else if used p < limit p then \<exists>p' ids. pollPacketIDs p n = Some (Inr (p', ids))
      \<and> length ids = min (unat n) (unat (limit p) - unat (used p))
      \<and> distinct ids \<and> 0 \<notin> set ids \<and> set ids \<inter> locked p = {} \<and> locked p' = locked p \<union> set ids
    else pollPacketIDs p n = None"
proof (cases "exit p \<or> \<not> used p < limit p")
  case True
  then show ?thesis by (auto simp: pollPacketIDs_def)
next
  case False
  then show ?thesis using pollPacketIDs_ok [OF lim_reachable_inv [OF assms], of n] by (simp, blast)
qed

theorem limiter_poll_witness:
  "\<exists>p' ids. pollPacketIDs (newPacketIDLimiter 3) 2 = Some (Inr (p', ids)) \<and> length ids = 2 \<and> distinct ids \<and> 0 \<notin> set ids"
  using limiter_poll [of 3 "newPacketIDLimiter 3" 2] by (auto simp: newPacketIDLimiter_def)

text \<open>
  In every reachable state a batch release succeeds, frees exactly the given identifiers, and the count of
  used identifiers is the number of those still locked.
\<close>

lemma limiter_release_frees:
  assumes "lim_step\<^sup>*\<^sup>* (newPacketIDLimiter lim) p"
  shows "\<exists>p'. batchRelease p ids = Inr p' \<and> locked p' = locked p - set ids
    \<and> unat (used p') = card (locked p - set ids)"
  using batchRelease_ok [OF lim_reachable_inv [OF assms], of ids] by (auto simp: lim_inv_def)

lemma limiter_release_frees_witness:
  "\<exists>p'. batchRelease (newPacketIDLimiter 3) [1, 2] = Inr p' \<and> unat (used p') = 0"
  using limiter_release_frees [of 3 "newPacketIDLimiter 3" "[1, 2]"]
  by (auto simp: newPacketIDLimiter_def bm_mem_New)

end
