(* ===== verification/Queue.thy ===== *)
theory Queue
  imports Message
begin

text \<open>
  \<^verbatim>\<open>gmqtt/persistence/queue\<close> (\<^verbatim>\<open>elem.go\<close>, \<^verbatim>\<open>queue.go\<close>) and \<^verbatim>\<open>queue/mem/mem.go\<close>: the message queue of one
  client.  The linked list with its \<^verbatim>\<open>current\<close> pointer is a pair of lists, the elements before
  \<^verbatim>\<open>current\<close> and those from it on; \<^verbatim>\<open>current\<close> is nil when the second is empty.  Times are integers
  and an empty \<^verbatim>\<open>Expiry\<close> is \<open>None\<close>; the clock reading of a call is its argument \<open>now\<close>.  The calls of
  the notifier are collected in a list.  A failed type assertion is a panic.  The methods hold the
  queue's mutex, so each is one transition; a call that waits on the condition variable is \<open>None\<close>.
\<close>

section \<open>Elements\<close>

datatype MessageWithID = QPublish Message | QPubrel uint16

fun MessageWithID_ID :: "MessageWithID \<Rightarrow> uint16" where
  "MessageWithID_ID (QPublish m) = msg_PacketID m"
| "MessageWithID_ID (QPubrel i) = i"

fun MessageWithID_SetID :: "uint16 \<Rightarrow> MessageWithID \<Rightarrow> MessageWithID" where
  "MessageWithID_SetID i (QPublish m) = QPublish (m\<lparr>msg_PacketID := i\<rparr>)"
| "MessageWithID_SetID i (QPubrel _) = QPubrel i"

record Elem =
  At :: int
  Expiry :: "int option"
  Elem_msg :: MessageWithID

abbreviation Elem_ID :: "Elem \<Rightarrow> uint16" where
  "Elem_ID e \<equiv> MessageWithID_ID (Elem_msg e)"

definition ElemExpiry :: "int \<Rightarrow> Elem \<Rightarrow> bool" where
  "ElemExpiry now elem = (case Expiry elem of None \<Rightarrow> False | Some x \<Rightarrow> x < now)"

section \<open>The queue\<close>

datatype dropErr = ErrDropExceedsMaxPacketSize | ErrDropQueueFull | ErrDropExpired | ErrDropExpiredInflight

datatype Notify =
    NotifyDropped Elem dropErr
  | NotifyInflightAdded int
  | NotifyMsgQueueAdded int

record Queue =
  q_read :: "Elem list"  \<comment> \<open>the elements before \<^verbatim>\<open>current\<close>\<close>
  q_unread :: "Elem list"  \<comment> \<open>\<^verbatim>\<open>current\<close> and what follows it\<close>
  q_version :: byte
  readBytesLimit :: uint32
  inflightDrained :: bool
  closed :: bool
  q_max :: int
  inflightExpiry :: int

abbreviation q_list :: "Queue \<Rightarrow> Elem list" where
  "q_list q \<equiv> q_read q @ q_unread q"

record Options =
  MaxQueuedMsg :: int
  InflightExpiry :: int

record InitOptions =
  io_CleanStart :: bool
  io_Version :: byte
  io_ReadBytesLimit :: uint32

definition Queue_New :: "Options \<Rightarrow> Queue" where
  "Queue_New opts =
     \<lparr>q_read = [], q_unread = [], q_version = 0, readBytesLimit = 0, inflightDrained = False,
      closed = False, q_max = MaxQueuedMsg opts, inflightExpiry = InflightExpiry opts\<rparr>"

definition Queue_Close :: "Queue \<Rightarrow> Queue" where
  "Queue_Close q = q\<lparr>closed := True\<rparr>"

definition Queue_Init :: "InitOptions \<Rightarrow> Queue \<Rightarrow> Queue" where
  "Queue_Init opts q =
     (let l = (if io_CleanStart opts then [] else q_list q) in
      q\<lparr>closed := False, inflightDrained := False, readBytesLimit := io_ReadBytesLimit opts,
        q_version := io_Version opts, q_read := [], q_unread := l\<rparr>)"

text \<open>
  The loop of \<^verbatim>\<open>Add\<close> over the unread elements: the index of the element to drop and the reason, or
  \<open>None\<close> when there is no candidate.
\<close>

fun Add_scan :: "int \<Rightarrow> Elem list \<Rightarrow> nat \<Rightarrow> nat option \<Rightarrow> (nat \<times> dropErr) option res" where
  "Add_scan now [] i dropElem =
     Inr (case dropElem of None \<Rightarrow> None | Some k \<Rightarrow> Some (k, ErrDropQueueFull))"
| "Add_scan now (e # es) i dropElem =
     (case Elem_msg e of
        QPubrel _ \<Rightarrow> Inl Panic
      | QPublish pub \<Rightarrow>
          if msg_PacketID pub = 0 \<and> ElemExpiry now e then Inr (Some (i, ErrDropExpired))
          else Add_scan now es (i + 1)
            (if msg_PacketID pub = 0 \<and> msg_QoS pub = 0 \<and> dropElem = None then Some i else dropElem))"

definition remove_nth :: "nat \<Rightarrow> 'a list \<Rightarrow> 'a list" where
  "remove_nth n xs = take n xs @ drop (Suc n) xs"

definition Queue_Add :: "int \<Rightarrow> Elem \<Rightarrow> Queue \<Rightarrow> (Queue \<times> Notify list) res" where
  "Queue_Add now elem q =
     (let dropNew = Inr (q, [NotifyDropped elem ErrDropQueueFull]) in
      if q_max q \<le> int (length (q_list q)) then
        if q_read q \<noteq> [] \<and> ElemExpiry now (hd (q_read q)) then
          Inr (q\<lparr>q_read := tl (q_read q), q_unread := q_unread q @ [elem]\<rparr>,
               [NotifyInflightAdded (-1), NotifyDropped (hd (q_read q)) ErrDropExpiredInflight])
        else if inflightDrained q \<and> q_unread q = [] then dropNew
        else rbind (Add_scan now (q_unread q) 0 None) (\<lambda>r.
          case r of
            Some (k, err) \<Rightarrow>
              Inr (q\<lparr>q_unread := remove_nth k (q_unread q) @ [elem]\<rparr>, [NotifyDropped (q_unread q ! k) err])
          | None \<Rightarrow>
              (case Elem_msg elem of
                 QPubrel _ \<Rightarrow> Inl Panic
               | QPublish m \<Rightarrow>
                   if msg_QoS m = 0 then dropNew
                   else if inflightDrained q then
                     Inr (q\<lparr>q_unread := tl (q_unread q) @ [elem]\<rparr>,
                          [NotifyDropped (hd (q_unread q)) ErrDropQueueFull])
                   else dropNew))
      else Inr (q\<lparr>q_unread := q_unread q @ [elem]\<rparr>, [NotifyMsgQueueAdded 1]))"

text \<open>The first element before \<^verbatim>\<open>current\<close> with the given identifier.\<close>

fun replace_id :: "uint16 \<Rightarrow> Elem \<Rightarrow> Elem list \<Rightarrow> Elem list option" where
  "replace_id i elem [] = None"
| "replace_id i elem (e # es) =
     (if Elem_ID e = i then Some (elem # es) else map_option ((#) e) (replace_id i elem es))"

definition Queue_Replace :: "Elem \<Rightarrow> Queue \<Rightarrow> Queue \<times> bool" where
  "Queue_Replace elem q =
     (case replace_id (Elem_ID elem) elem (q_read q) of
        None \<Rightarrow> (q, False)
      | Some l \<Rightarrow> (q\<lparr>q_read := l\<rparr>, True))"

text \<open>
  The loop of \<^verbatim>\<open>Read\<close>: the number of rounds left, the queue, the identifiers left, the elements
  read, the deltas of the two counters and the notifications.
\<close>

fun Read_loop :: "int \<Rightarrow> nat \<Rightarrow> Queue \<Rightarrow> uint16 list \<Rightarrow> Elem list \<Rightarrow> int \<Rightarrow> int \<Rightarrow> Notify list
    \<Rightarrow> (Queue \<times> Elem list \<times> Notify list) res" where
  "Read_loop now n q pids rs msgQueueDelta inflightDelta ns =
     (case n of
        0 \<Rightarrow> Inr (q, rs, ns @ [NotifyMsgQueueAdded msgQueueDelta, NotifyInflightAdded inflightDelta])
      | Suc n' \<Rightarrow>
        (case q_unread q of
           [] \<Rightarrow> Inr (q, rs, ns @ [NotifyMsgQueueAdded msgQueueDelta, NotifyInflightAdded inflightDelta])
         | v # es \<Rightarrow>
           if ElemExpiry now v then
             Read_loop now n' (q\<lparr>q_unread := es\<rparr>) pids rs (msgQueueDelta - 1) inflightDelta
               (ns @ [NotifyDropped v ErrDropExpired])
           else
           (case Elem_msg v of
              QPubrel _ \<Rightarrow> Inl Panic
            | QPublish pub \<Rightarrow>
              if readBytesLimit q < Message_TotalBytes pub (q_version q) then
                Read_loop now n' (q\<lparr>q_unread := es\<rparr>) pids rs (msgQueueDelta - 1) inflightDelta
                  (ns @ [NotifyDropped v ErrDropExceedsMaxPacketSize])
              else if msg_QoS pub = 0 then
                Read_loop now n' (q\<lparr>q_unread := es\<rparr>) pids (rs @ [v]) (msgQueueDelta - 1) inflightDelta ns
              else
              (case pids of
                 [] \<Rightarrow> Inl Panic
               | pid # pids' \<Rightarrow>
                 let v' = v\<lparr>Elem_msg := MessageWithID_SetID pid (Elem_msg v),
                            Expiry := (if inflightExpiry q \<noteq> 0 then Some (now + inflightExpiry q) else Expiry v)\<rparr> in
                 Read_loop now n' (q\<lparr>q_read := q_read q @ [v'], q_unread := es\<rparr>) pids' (rs @ [v'])
                   msgQueueDelta (inflightDelta + 1) ns))))"

definition ErrClosed :: error where
  "ErrClosed = ErrText ''queue has been closed''"

definition Queue_Read :: "int \<Rightarrow> uint16 list \<Rightarrow> Queue \<Rightarrow> (Queue \<times> Elem list \<times> Notify list) res option" where
  "Queue_Read now pids q =
     (if \<not> inflightDrained q then Some (Inl Panic)
      else if (length (q_list q) = 0 \<or> q_unread q = []) \<and> \<not> closed q then None
      else if closed q then Some (Inl ErrClosed)
      else Some (Read_loop now (min (length pids) (length (q_list q))) q pids [] 0 0 []))"

text \<open>\<^verbatim>\<open>ReadInflight\<close> reads the clock for each element: \<open>now i\<close> is the reading for the \<open>i\<close>-th.\<close>

fun ReadInflight_loop :: "(nat \<Rightarrow> int) \<Rightarrow> nat \<Rightarrow> Queue \<Rightarrow> Elem list \<Rightarrow> Queue \<times> Elem list" where
  "ReadInflight_loop now n q rs =
     (case n of 0 \<Rightarrow> (q, rs)
      | Suc n' \<Rightarrow>
        (case q_unread q of [] \<Rightarrow> (q, rs)
         | e # es \<Rightarrow>
           if Elem_ID e \<noteq> 0 then
             let e' = e\<lparr>Expiry := (if inflightExpiry q \<noteq> 0
                        then Some (now (length rs) + inflightExpiry q) else Expiry e)\<rparr> in
             ReadInflight_loop now n' (q\<lparr>q_read := q_read q @ [e'], q_unread := es\<rparr>) (rs @ [e'])
           else (q\<lparr>inflightDrained := True\<rparr>, rs)))"

definition Queue_ReadInflight :: "(nat \<Rightarrow> int) \<Rightarrow> nat \<Rightarrow> Queue \<Rightarrow> Queue \<times> Elem list" where
  "Queue_ReadInflight now maxSize q =
     (if length (q_list q) = 0 \<or> q_unread q = [] then (q\<lparr>inflightDrained := True\<rparr>, [])
      else ReadInflight_loop now (min maxSize (length (q_list q))) q [])"

fun remove_id :: "uint16 \<Rightarrow> Elem list \<Rightarrow> Elem list option" where
  "remove_id i [] = None"
| "remove_id i (e # es) = (if Elem_ID e = i then Some es else map_option ((#) e) (remove_id i es))"

definition Queue_Remove :: "uint16 \<Rightarrow> Queue \<Rightarrow> Queue \<times> Notify list" where
  "Queue_Remove pid q =
     (case remove_id pid (q_read q) of
        None \<Rightarrow> (q, [])
      | Some l \<Rightarrow> (q\<lparr>q_read := l\<rparr>, [NotifyMsgQueueAdded (-1), NotifyInflightAdded (-1)]))"

declare Read_loop.simps [simp del] ReadInflight_loop.simps [simp del]

section \<open>The invariant\<close>

text \<open>
  An element is in flight when it has a packet identifier; a new message is a publish without
  one.  In-flight elements precede new messages, everything before \<^verbatim>\<open>current\<close> is in flight, and once
  \<^verbatim>\<open>ReadInflight\<close> has drained them everything from \<^verbatim>\<open>current\<close> on is new.
\<close>

definition inflight :: "Elem \<Rightarrow> bool" where
  "inflight e \<longleftrightarrow> Elem_ID e \<noteq> 0"

definition is_new :: "Elem \<Rightarrow> bool" where
  "is_new e \<longleftrightarrow> (case Elem_msg e of QPublish m \<Rightarrow> msg_PacketID m = 0 | QPubrel _ \<Rightarrow> False)"

definition qinv :: "Queue \<Rightarrow> bool" where
  "qinv q \<longleftrightarrow> list_all inflight (q_read q) \<and> list_all is_new (dropWhile inflight (q_unread q))
     \<and> (inflightDrained q \<longrightarrow> list_all is_new (q_unread q))"

abbreviation elem_QoS :: "Elem \<Rightarrow> byte" where
  "elem_QoS e \<equiv> (case Elem_msg e of QPublish m \<Rightarrow> msg_QoS m | QPubrel _ \<Rightarrow> 0)"

lemma is_new_not_inflight: "is_new e \<Longrightarrow> \<not> inflight e"
  by (auto simp: is_new_def inflight_def split: MessageWithID.splits)

lemma is_newE:
  assumes "is_new e"
  obtains m where "Elem_msg e = QPublish m" and "msg_PacketID m = 0"
  using assms by (auto simp: is_new_def split: MessageWithID.splits)

lemma new_dropWhile: "list_all is_new xs \<Longrightarrow> dropWhile inflight xs = xs"
  by (cases xs) (auto dest: is_new_not_inflight)

lemma qinv_New: "qinv (Queue_New opts)"
  by (simp add: qinv_def Queue_New_def)

lemma qinv_Init: "qinv q \<Longrightarrow> qinv (Queue_Init opts q)"
  by (auto simp: qinv_def Queue_Init_def Let_def list_all_iff dropWhile_append2)

lemma qinv_Close: "qinv q \<Longrightarrow> qinv (Queue_Close q)"
  by (simp add: qinv_def Queue_Close_def)

section \<open>Which element Add drops\<close>

fun first_index :: "('a \<Rightarrow> bool) \<Rightarrow> 'a list \<Rightarrow> nat option" where
  "first_index P [] = None"
| "first_index P (x # xs) = (if P x then Some 0 else map_option Suc (first_index P xs))"

lemma first_index_Some:
  "first_index P xs = Some k \<Longrightarrow> k < length xs \<and> P (xs ! k) \<and> (\<forall>j<k. \<not> P (xs ! j))"
proof (induction xs arbitrary: k)
  case (Cons x xs)
  then show ?case by (auto simp: less_Suc_eq_0_disj split: if_splits)
qed simp

lemma first_index_None: "first_index P xs = None \<longleftrightarrow> (\<forall>x\<in>set xs. \<not> P x)"
  by (induction xs) auto

lemma Add_scan_new:
  "list_all is_new xs \<Longrightarrow> Add_scan now xs i d = Inr
     (case first_index (ElemExpiry now) xs of
        Some k \<Rightarrow> Some (i + k, ErrDropExpired)
      | None \<Rightarrow> (case d of Some k \<Rightarrow> Some (k, ErrDropQueueFull)
         | None \<Rightarrow> map_option (\<lambda>k. (i + k, ErrDropQueueFull)) (first_index (\<lambda>e. elem_QoS e = 0) xs)))"
proof (induction xs arbitrary: i d)
  case (Cons e xs)
  then obtain m where "Elem_msg e = QPublish m" "msg_PacketID m = 0" by (auto elim: is_newE)
  with Cons show ?case
    by (auto split: option.splits simp: option.map_comp comp_def)
qed (auto split: option.splits)

lemma Add_scan_index:
  "Add_scan now xs i d = Inr (Some (k, err)) \<Longrightarrow> d = Some k \<or> (\<exists>j<length xs. k = i + j \<and> \<not> inflight (xs ! j))"
proof (induction xs arbitrary: i d)
  case (Cons e xs)
  show ?case
  proof (cases "Elem_msg e")
    case (QPublish m)
    with Cons.prems have "k = i \<and> \<not> inflight e \<or>
      Add_scan now xs (i + 1) (if msg_PacketID m = 0 \<and> msg_QoS m = 0 \<and> d = None then Some i else d)
        = Inr (Some (k, err))"
      by (auto simp: inflight_def split: if_splits)
    moreover have "msg_PacketID m = 0 \<Longrightarrow> \<not> inflight e" by (simp add: QPublish inflight_def)
    ultimately show ?thesis using Cons.IH [of "i + 1"]
      by (fastforce split: if_splits intro: exI [of _ 0])
  qed (use Cons.prems in simp)
qed (auto split: option.splits)

lemma dropWhile_remove_nth:
  "k < length xs \<Longrightarrow> \<not> P (xs ! k) \<Longrightarrow>
   set (dropWhile P (remove_nth k xs @ ys)) \<subseteq> set (dropWhile P xs) \<union> set ys"
proof (induction xs arbitrary: k)
  case (Cons x xs)
  then show ?case
    by (cases k) (auto simp: remove_nth_def dest: set_dropWhileD in_set_takeD in_set_dropD)
qed simp

lemma set_remove_nth: "set (remove_nth k xs) \<subseteq> set xs"
  by (auto simp: remove_nth_def dest: in_set_takeD in_set_dropD)

lemma length_remove_nth: "k < length xs \<Longrightarrow> length (remove_nth k xs) = length xs - 1"
  by (simp add: remove_nth_def)

lemma Add_cases:
  assumes "Queue_Add now elem q = Inr (q', ns)"
  obtains (space) "int (length (q_list q)) < q_max q"
      "q' = q\<lparr>q_unread := q_unread q @ [elem]\<rparr>" "ns = [NotifyMsgQueueAdded 1]"
  | (expired_inflight) "q_max q \<le> int (length (q_list q))" "q_read q \<noteq> []" "ElemExpiry now (hd (q_read q))"
      "q' = q\<lparr>q_read := tl (q_read q), q_unread := q_unread q @ [elem]\<rparr>"
      "ns = [NotifyInflightAdded (-1), NotifyDropped (hd (q_read q)) ErrDropExpiredInflight]"
  | (refused) "q_max q \<le> int (length (q_list q))" "q' = q" "ns = [NotifyDropped elem ErrDropQueueFull]"
  | (dropped) k err where "q_max q \<le> int (length (q_list q))" "k < length (q_unread q)"
      "\<not> inflight (q_unread q ! k) \<or> inflightDrained q"
      "q' = q\<lparr>q_unread := remove_nth k (q_unread q) @ [elem]\<rparr>" "ns = [NotifyDropped (q_unread q ! k) err]"
proof (cases "q_max q \<le> int (length (q_list q))")
  case False
  then show thesis using assms space by (simp add: Queue_Add_def Let_def)
next
  case full: True
  consider "q_read q \<noteq> [] \<and> ElemExpiry now (hd (q_read q))"
    | "\<not> (q_read q \<noteq> [] \<and> ElemExpiry now (hd (q_read q)))" "inflightDrained q \<and> q_unread q = []"
    | "\<not> (q_read q \<noteq> [] \<and> ElemExpiry now (hd (q_read q)))" "\<not> (inflightDrained q \<and> q_unread q = [])"
    by blast
  then show thesis
  proof cases
    case 1
    then show ?thesis using full assms expired_inflight by (simp add: Queue_Add_def Let_def)
  next
    case 2
    then show ?thesis using full assms refused by (simp only: Queue_Add_def Let_def if_True if_False) simp
  next
    case 3
    then obtain r where r: "Add_scan now (q_unread q) 0 None = Inr r"
      using full assms by (auto simp: Queue_Add_def Let_def rbind_eq_Inr_conv)
    show ?thesis
    proof (cases r)
      case None
      with 3 r full assms obtain m where m: "Elem_msg elem = QPublish m"
        by (cases "Elem_msg elem") (auto simp: Queue_Add_def Let_def)
      show ?thesis
      proof (cases "msg_QoS m = 0 \<or> \<not> inflightDrained q")
        case True
        then show ?thesis using None 3 r full assms m refused
          by (auto simp: Queue_Add_def Let_def split: if_splits)
      next
        case False
        then have "q_unread q \<noteq> []" using 3 by auto
        then have "tl (q_unread q) = remove_nth 0 (q_unread q)" "hd (q_unread q) = q_unread q ! 0" "0 < length (q_unread q)"
          by (simp_all add: remove_nth_def drop_Suc hd_conv_nth)
        then show ?thesis using False None 3 r full assms m dropped [of 0]
          by (auto simp: Queue_Add_def Let_def)
      qed
    next
      case (Some x)
      obtain k err where x: "x = (k, err)" by fastforce
      with Add_scan_index r Some have "k < length (q_unread q)" "\<not> inflight (q_unread q ! k)" by fastforce+
      then show ?thesis using Some x 3 r full assms dropped [of k err] by (auto simp: Queue_Add_def Let_def)
    qed
  qed
qed

lemma dropWhile_push:
  "set (dropWhile P (xs @ [e])) \<subseteq> insert e (set (dropWhile P xs))"
  by (induction xs) auto

lemma qinv_Add:
  assumes "qinv q" and "is_new elem" and "Queue_Add now elem q = Inr (q', ns)"
  shows "qinv q'"
  using assms(3)
proof (cases rule: Add_cases)
  case space
  then show ?thesis using assms(1,2) dropWhile_push [of inflight "q_unread q" elem]
    by (auto simp: qinv_def list_all_iff)
next
  case expired_inflight
  then show ?thesis using assms(1,2) dropWhile_push [of inflight "q_unread q" elem]
    by (auto simp: qinv_def list_all_iff dest: list.set_sel(2))
next
  case refused
  then show ?thesis using assms(1) by simp
next
  case (dropped k err)
  have "\<not> inflight (q_unread q ! k)"
    using dropped assms(1) by (auto simp: qinv_def list_all_length dest: is_new_not_inflight)
  with dropped have "set (dropWhile inflight (remove_nth k (q_unread q) @ [elem]))
      \<subseteq> set (dropWhile inflight (q_unread q)) \<union> set [elem]"
    by (intro dropWhile_remove_nth)
  then show ?thesis using dropped assms(1,2) set_remove_nth [of k "q_unread q"]
    by (auto simp: qinv_def list_all_iff)
qed

lemma Add_length:
  assumes "Queue_Add now elem q = Inr (q', ns)"
  shows "int (length (q_list q')) \<le> max (int (length (q_list q))) (q_max q)"
  using assms by (cases rule: Add_cases; cases "q_read q") (auto simp: length_remove_nth)

text \<open>On a drained queue \<^verbatim>\<open>Add\<close> does not panic.\<close>

text \<open>
  Adding a new message to a queue whose inflight elements have been read never panics.
\<close>

lemma Add_total:
  assumes "qinv q" and "inflightDrained q" and "is_new elem"
  shows "\<exists>q' ns. Queue_Add now elem q = Inr (q', ns)"
proof -
  have "list_all is_new (q_unread q)" using assms by (simp add: qinv_def)
  moreover obtain m where "Elem_msg elem = QPublish m" using assms(3) by (auto elim: is_newE)
  ultimately show ?thesis
    by (auto simp: Queue_Add_def Let_def Add_scan_new split: option.splits)
qed



text \<open>The order of priorities when a drained queue is full.\<close>

text \<open>
  C34. What Add does when the queue is full: drop an expired inflight element; with nothing unread, drop the new
  one; else drop the first expired unread one, else the first unread QoS 0 one, else the new one when it
  is QoS 0, else the oldest unread one.
\<close>

theorem Add_full:
  assumes "qinv q" and "inflightDrained q" and "is_new elem" and "q_max q \<le> int (length (q_list q))"
  shows "Queue_Add now elem q = Inr
    (if q_read q \<noteq> [] \<and> ElemExpiry now (hd (q_read q)) then
       (q\<lparr>q_read := tl (q_read q), q_unread := q_unread q @ [elem]\<rparr>,
        [NotifyInflightAdded (-1), NotifyDropped (hd (q_read q)) ErrDropExpiredInflight])
     else if q_unread q = [] then (q, [NotifyDropped elem ErrDropQueueFull])
     else (case first_index (ElemExpiry now) (q_unread q) of
         Some k \<Rightarrow> (q\<lparr>q_unread := remove_nth k (q_unread q) @ [elem]\<rparr>,
                    [NotifyDropped (q_unread q ! k) ErrDropExpired])
       | None \<Rightarrow> (case first_index (\<lambda>e. elem_QoS e = 0) (q_unread q) of
           Some k \<Rightarrow> (q\<lparr>q_unread := remove_nth k (q_unread q) @ [elem]\<rparr>,
                      [NotifyDropped (q_unread q ! k) ErrDropQueueFull])
         | None \<Rightarrow>
             if elem_QoS elem = 0 then (q, [NotifyDropped elem ErrDropQueueFull])
             else (q\<lparr>q_unread := tl (q_unread q) @ [elem]\<rparr>,
                   [NotifyDropped (hd (q_unread q)) ErrDropQueueFull]))))"
proof -
  have "list_all is_new (q_unread q)" using assms by (simp add: qinv_def)
  moreover obtain m where "Elem_msg elem = QPublish m" using assms(3) by (auto elim: is_newE)
  ultimately show ?thesis using assms(2,4)
    by (auto simp: Queue_Add_def Let_def Add_scan_new split: option.splits)
qed

definition queue_example :: Queue where
  "queue_example = (Queue_New \<lparr>MaxQueuedMsg = 1, InflightExpiry = 0\<rparr>)
     \<lparr>inflightDrained := True, readBytesLimit := 100, q_version := Version311,
      q_unread := [\<lparr>At = 3, Expiry = None, Elem_msg = QPublish msg_example\<rparr>]\<rparr>"

lemma queue_example_inv: "qinv queue_example"
  by (simp add: qinv_def queue_example_def Queue_New_def is_new_def inflight_def msg_example_def)

theorem Add_full_witness:
  "Queue_Add 5 \<lparr>At = 4, Expiry = None, Elem_msg = QPublish msg_example\<rparr> queue_example
   = Inr (queue_example\<lparr>q_unread := [\<lparr>At = 4, Expiry = None, Elem_msg = QPublish msg_example\<rparr>]\<rparr>,
       [NotifyDropped \<lparr>At = 3, Expiry = None, Elem_msg = QPublish msg_example\<rparr> ErrDropQueueFull])"
  using Add_full [OF queue_example_inv, of "\<lparr>At = 4, Expiry = None, Elem_msg = QPublish msg_example\<rparr>" 5]
  by (simp add: queue_example_def Queue_New_def is_new_def msg_example_def ElemExpiry_def)

lemma Add_total_witness:
  "\<exists>q' ns. Queue_Add 5 \<lparr>At = 4, Expiry = None, Elem_msg = QPublish msg_example\<rparr> queue_example = Inr (q', ns)"
  by (rule Add_total [OF queue_example_inv]) (simp_all add: queue_example_def is_new_def msg_example_def)

section \<open>Replace and Remove\<close>

lemma replace_id_Some:
  "replace_id i elem xs = Some ys \<Longrightarrow> \<exists>a e b. xs = a @ e # b \<and> Elem_ID e = i \<and> ys = a @ elem # b
    \<and> (\<forall>x\<in>set a. Elem_ID x \<noteq> i)"
proof (induction xs arbitrary: ys)
  case (Cons x xs)
  show ?case
  proof (cases "Elem_ID x = i")
    case True
    with Cons.prems show ?thesis by (intro exI [of _ "[]"]) auto
  next
    case False
    with Cons.prems obtain zs where z: "replace_id i elem xs = Some zs" "ys = x # zs" by auto
    from Cons.IH [OF z(1)] obtain a e b where "xs = a @ e # b" "Elem_ID e = i" "zs = a @ elem # b"
      "\<forall>x\<in>set a. Elem_ID x \<noteq> i" by blast
    with z False show ?thesis by (intro exI [of _ "x # a"] exI [of _ e] exI [of _ b]) auto
  qed
qed simp

lemma replace_id_None: "replace_id i elem xs = None \<longleftrightarrow> (\<forall>x\<in>set xs. Elem_ID x \<noteq> i)"
  by (induction xs) auto

lemma remove_id_Some:
  "remove_id i xs = Some ys \<Longrightarrow> \<exists>a e b. xs = a @ e # b \<and> Elem_ID e = i \<and> ys = a @ b
    \<and> (\<forall>x\<in>set a. Elem_ID x \<noteq> i)"
proof (induction xs arbitrary: ys)
  case (Cons x xs)
  show ?case
  proof (cases "Elem_ID x = i")
    case True
    with Cons.prems show ?thesis by (intro exI [of _ "[]"]) auto
  next
    case False
    with Cons.prems obtain zs where z: "remove_id i xs = Some zs" "ys = x # zs" by auto
    from Cons.IH [OF z(1)] obtain a e b where "xs = a @ e # b" "Elem_ID e = i" "zs = a @ b"
      "\<forall>x\<in>set a. Elem_ID x \<noteq> i" by blast
    with z False show ?thesis by (intro exI [of _ "x # a"] exI [of _ e] exI [of _ b]) auto
  qed
qed simp

lemma remove_id_None: "remove_id i xs = None \<longleftrightarrow> (\<forall>x\<in>set xs. Elem_ID x \<noteq> i)"
  by (induction xs) auto

lemma qinv_Replace:
  assumes "qinv q" and "inflight elem" and "Queue_Replace elem q = (q', b)"
  shows "qinv q' \<and> length (q_list q') = length (q_list q)"
  using assms by (auto simp: Queue_Replace_def qinv_def dest!: replace_id_Some split: option.splits)

lemma qinv_Remove:
  assumes "qinv q" and "Queue_Remove pid q = (q', ns)"
  shows "qinv q'"
  using assms by (auto simp: Queue_Remove_def qinv_def dest!: remove_id_Some split: option.splits)

section \<open>Read\<close>

text \<open>
  What one call delivers: of the next \<open>n\<close> elements those that are neither expired nor too large,
  in order; the QoS 0 ones as they are, the others with the next identifier of the given list and
  a new expiry time.
\<close>

definition deliverable :: "int \<Rightarrow> Queue \<Rightarrow> Elem \<Rightarrow> bool" where
  "deliverable now q e \<longleftrightarrow> \<not> ElemExpiry now e
     \<and> (case Elem_msg e of QPublish m \<Rightarrow> Message_TotalBytes m (q_version q) \<le> readBytesLimit q | QPubrel _ \<Rightarrow> False)"

definition to_inflight :: "int \<Rightarrow> Queue \<Rightarrow> uint16 \<Rightarrow> Elem \<Rightarrow> Elem" where
  "to_inflight now q pid v =
     v\<lparr>Elem_msg := MessageWithID_SetID pid (Elem_msg v),
       Expiry := (if inflightExpiry q \<noteq> 0 then Some (now + inflightExpiry q) else Expiry v)\<rparr>"

fun assign_ids :: "(uint16 \<Rightarrow> Elem \<Rightarrow> Elem) \<Rightarrow> Elem list \<Rightarrow> uint16 list \<Rightarrow> Elem list" where
  "assign_ids f [] pids = []"
| "assign_ids f (e # es) pids =
     (if elem_QoS e = 0 then e # assign_ids f es pids
      else f (hd pids) e # assign_ids f es (tl pids))"

definition read_out :: "int \<Rightarrow> nat \<Rightarrow> Queue \<Rightarrow> uint16 list \<Rightarrow> Elem list" where
  "read_out now n q pids = assign_ids (to_inflight now q) (filter (deliverable now q) (take n (q_unread q))) pids"

abbreviation stays :: "Elem list \<Rightarrow> Elem list" where
  "stays out \<equiv> filter (\<lambda>e. elem_QoS e \<noteq> 0) out"

definition read_drops :: "int \<Rightarrow> nat \<Rightarrow> Queue \<Rightarrow> Notify list" where
  "read_drops now n q =
     map (\<lambda>e. NotifyDropped e (if ElemExpiry now e then ErrDropExpired else ErrDropExceedsMaxPacketSize))
       (filter (\<lambda>e. \<not> deliverable now q e) (take n (q_unread q)))"

lemma elem_QoS_to_inflight [simp]: "elem_QoS (to_inflight now q pid e) = elem_QoS e"
  by (cases "Elem_msg e") (auto simp: to_inflight_def)

lemma deliverable_upd [simp]:
  "deliverable now (q\<lparr>q_unread := es\<rparr>) = deliverable now q"
  "deliverable now (q\<lparr>q_read := rd\<rparr>) = deliverable now q"
  "to_inflight now (q\<lparr>q_unread := es\<rparr>) = to_inflight now q"
  "to_inflight now (q\<lparr>q_read := rd\<rparr>) = to_inflight now q"
  by (auto simp: deliverable_def to_inflight_def fun_eq_iff split: MessageWithID.splits)

lemma Read_loop_spec:
  assumes "list_all is_new (q_unread q)" and "n \<le> length pids"
  shows "Read_loop now n q pids rs d1 d2 ns = Inr
    (q\<lparr>q_read := q_read q @ stays (read_out now n q pids), q_unread := drop n (q_unread q)\<rparr>,
     rs @ read_out now n q pids,
     ns @ read_drops now n q @
       [NotifyMsgQueueAdded (d1 - int (min n (length (q_unread q))) + int (length (stays (read_out now n q pids)))),
        NotifyInflightAdded (d2 + int (length (stays (read_out now n q pids))))])"
  using assms
proof (induction n arbitrary: q pids rs d1 d2 ns)
  case 0
  then show ?case by (subst Read_loop.simps) (simp add: read_out_def read_drops_def)
next
  case (Suc n)
  obtain pid pids' where pids: "pids = pid # pids'" using Suc.prems(2) by (cases pids) auto
  show ?case
  proof (cases "q_unread q")
    case Nil
    then show ?thesis by (subst Read_loop.simps) (simp add: read_out_def read_drops_def)
  next
    case (Cons v es)
    with Suc.prems(1) obtain m where m: "Elem_msg v = QPublish m" by (auto elim: is_newE)
    have es: "list_all is_new es" using Suc.prems(1) Cons by simp
    note IH = Suc.IH [of "q\<lparr>q_unread := es\<rparr>" pids]
      Suc.IH [of "q\<lparr>q_read := rd, q_unread := es\<rparr>" pids' for rd]
    consider "ElemExpiry now v" | "\<not> ElemExpiry now v" "readBytesLimit q < Message_TotalBytes m (q_version q)"
      | "deliverable now q v" "msg_QoS m = 0" | "deliverable now q v" "msg_QoS m \<noteq> 0"
      by (cases "ElemExpiry now v"; cases "readBytesLimit q < Message_TotalBytes m (q_version q)";
          cases "msg_QoS m = 0") (auto simp: deliverable_def not_less m)
    then show ?thesis
    proof cases
      case 3
      then have "\<not> ElemExpiry now v" "\<not> readBytesLimit q < Message_TotalBytes m (q_version q)"
        using m by (auto simp: deliverable_def not_less)
      then show ?thesis using 3 Suc.prems Cons m es
        by (subst Read_loop.simps) (simp add: IH read_out_def read_drops_def)
    next
      case 4
      then have "\<not> ElemExpiry now v" "\<not> readBytesLimit q < Message_TotalBytes m (q_version q)"
        using m by (auto simp: deliverable_def not_less)
      then show ?thesis using 4 Suc.prems Cons m es pids
        by (subst Read_loop.simps)
          (simp add: IH read_out_def read_drops_def Let_def to_inflight_def)
    qed (use Suc.prems Cons m es in \<open>subst Read_loop.simps, simp add: IH read_out_def read_drops_def deliverable_def\<close>)+
  qed
qed

lemma Queue_Read_spec:
  assumes "qinv q" and "inflightDrained q" and "q_unread q \<noteq> []" and "\<not> closed q"
  shows "Queue_Read now pids q = Some (Inr
    (let n = min (length pids) (length (q_list q)); out = read_out now n q pids in
     (q\<lparr>q_read := q_read q @ stays out, q_unread := drop n (q_unread q)\<rparr>, out,
      read_drops now n q @
        [NotifyMsgQueueAdded (int (length (stays out)) - int (min n (length (q_unread q)))),
         NotifyInflightAdded (int (length (stays out)))])))"
  using assms by (simp add: Queue_Read_def Read_loop_spec qinv_def Let_def)

lemma assign_ids_inflight:
  "list_all is_new es \<Longrightarrow> length es \<le> length pids \<Longrightarrow> 0 \<notin> set pids \<Longrightarrow>
   map Elem_ID (stays (assign_ids (to_inflight now q) es pids))
     = take (length (stays es)) pids"
proof (induction es arbitrary: pids)
  case (Cons e es)
  then obtain m where m: "Elem_msg e = QPublish m" by (auto elim: is_newE)
  have "Elem_ID (to_inflight now q p e) = p" for p by (simp add: m to_inflight_def)
  with Cons m show ?case by (cases pids) auto
qed simp

lemma length_stays_assign: "length (stays (assign_ids (to_inflight now q) es pids)) = length (stays es)"
  by (induction es arbitrary: pids) auto

lemma read_out_ids:
  assumes "list_all is_new (q_unread q)" and "n \<le> length pids" and "0 \<notin> set pids"
  shows "map Elem_ID (stays (read_out now n q pids)) = take (length (stays (read_out now n q pids))) pids"
proof -
  let ?es = "filter (deliverable now q) (take n (q_unread q))"
  have "list_all is_new ?es" using assms(1) by (auto simp: list_all_iff dest: in_set_takeD)
  moreover have "length ?es \<le> length pids"
    using assms(2) length_filter_le [of "deliverable now q" "take n (q_unread q)"] by simp
  ultimately show ?thesis
    using assms(3) by (simp add: read_out_def assign_ids_inflight length_stays_assign)
qed

lemma qinv_Read:
  assumes "qinv q" and "Queue_Read now pids q = Some (Inr (q', rs, ns))" and "0 \<notin> set pids"
  shows "qinv q'"
proof -
  have d: "inflightDrained q" "q_unread q \<noteq> []" "\<not> closed q"
    using assms(2) by (auto simp: Queue_Read_def split: if_splits)
  let ?n = "min (length pids) (length (q_list q))"
  have nw: "list_all is_new (q_unread q)" using assms(1) d by (simp add: qinv_def)
  have "set (map Elem_ID (stays (read_out now ?n q pids))) \<subseteq> set pids"
    unfolding read_out_ids [OF nw min.cobounded1 assms(3)] by (rule set_take_subset)
  then have "list_all inflight (stays (read_out now ?n q pids))"
    using assms(3) by (force simp: list_all_iff inflight_def)
  moreover have "list_all is_new (drop ?n (q_unread q))"
    using nw by (auto simp: list_all_iff dest: in_set_dropD)
  moreover have "q_read q' = q_read q @ stays (read_out now ?n q pids)" "q_unread q' = drop ?n (q_unread q)"
    using assms(2) Queue_Read_spec [OF assms(1) d] by (auto simp: Let_def)
  ultimately show ?thesis using assms(1) by (simp add: qinv_def new_dropWhile)
qed

section \<open>ReadInflight\<close>

lemma ReadInflight_loop_inv:
  assumes "qinv q" and "ReadInflight_loop now n q rs = (q', rs')"
  shows "qinv q' \<and> length (q_list q') = length (q_list q) \<and> map Elem_ID (q_list q') = map Elem_ID (q_list q)
    \<and> (\<exists>out. rs' = rs @ out \<and> q_read q' = q_read q @ out)"
  using assms
proof (induction n arbitrary: q rs)
  case 0
  then show ?case by (simp add: ReadInflight_loop.simps)
next
  case (Suc n)
  show ?case
  proof (cases "q_unread q")
    case Nil
    with Suc.prems show ?thesis by (simp add: ReadInflight_loop.simps)
  next
    case (Cons e es)
    show ?thesis
    proof (cases "Elem_ID e = 0")
      case True
      with Suc.prems Cons show ?thesis
        by (auto simp: ReadInflight_loop.simps qinv_def inflight_def)
    next
      case False
      let ?e = "e\<lparr>Expiry := (if inflightExpiry q \<noteq> 0 then Some (now (length rs) + inflightExpiry q) else Expiry e)\<rparr>"
      let ?q = "q\<lparr>q_read := q_read q @ [?e], q_unread := es\<rparr>"
      have "\<not> inflightDrained q"
        using Suc.prems(1) Cons False by (auto simp: qinv_def inflight_def dest: is_new_not_inflight)
      then have "qinv ?q" using Suc.prems(1) Cons False by (simp add: qinv_def inflight_def)
      moreover have "ReadInflight_loop now n ?q (rs @ [?e]) = (q', rs')"
        using Suc.prems(2) Cons False
        by (simp add: ReadInflight_loop.simps [of _ "Suc n"] Let_def split del: if_split)
      ultimately show ?thesis using Suc.IH [of ?q "rs @ [?e]"] Cons by auto
    qed
  qed
qed

lemma qinv_ReadInflight:
  assumes "qinv q" and "Queue_ReadInflight now m q = (q', rs)"
  shows "qinv q' \<and> map Elem_ID (q_list q') = map Elem_ID (q_list q) \<and> q_read q' = q_read q @ rs"
  using assms ReadInflight_loop_inv [of q now "min m (length (q_list q))" "[]" q' rs]
  by (auto simp: Queue_ReadInflight_def qinv_def split: if_splits)

text \<open>Calling \<^verbatim>\<open>ReadInflight\<close> until it returns nothing drains the queue.\<close>

lemma ReadInflight_drains:
  assumes "0 < m" and "Queue_ReadInflight now m q = (q', [])"
  shows "inflightDrained q'"
proof (cases "q_unread q")
  case Nil
  with assms show ?thesis by (auto simp: Queue_ReadInflight_def)
next
  case (Cons e es)
  then obtain k where "min m (length (q_list q)) = Suc k" using assms(1) by (cases m) auto
  with assms(2) Cons have l: "ReadInflight_loop now (Suc k) q [] = (q', [])"
    by (simp add: Queue_ReadInflight_def)
  have grow: "length rs \<le> length (snd (ReadInflight_loop now n p rs))" for n p rs
  proof (induction n arbitrary: p rs)
    case (Suc n)
    have "length rs \<le> length (snd (ReadInflight_loop now n p' (rs @ [x])))" for p' x
      using Suc [of "rs @ [x]" p'] by simp
    then show ?case
      by (subst ReadInflight_loop.simps) (simp add: Let_def split: list.split)
  qed (simp add: ReadInflight_loop.simps)
  show ?thesis
  proof (cases "Elem_ID e = 0")
    case True
    with l Cons show ?thesis by (auto simp: ReadInflight_loop.simps)
  next
    case False
    then obtain p x where "ReadInflight_loop now k p [x] = (q', [])"
      using l Cons by (simp add: ReadInflight_loop.simps [of _ "Suc k"] Let_def split del: if_split)
    with grow [of "[x]" k p] show ?thesis by simp
  qed
qed

text \<open>
  When ReadInflight returns no element, all inflight elements have been read and Read may be called.
\<close>

lemma ReadInflight_progress:
  assumes "0 < m" and "Queue_ReadInflight now m q = (q', [])"
  shows "inflightDrained q'"
  using assms by (rule ReadInflight_drains)

lemma ReadInflight_progress_witness:
  "inflightDrained (fst (Queue_ReadInflight (\<lambda>_. 0) 1 (Queue_New \<lparr>MaxQueuedMsg = 2, InflightExpiry = 0\<rparr>)))"
  using ReadInflight_progress [of 1 "\<lambda>_. 0" "Queue_New \<lparr>MaxQueuedMsg = 2, InflightExpiry = 0\<rparr>"]
  by (simp add: Queue_ReadInflight_def Queue_New_def)

section \<open>The counters of the notifier\<close>

definition msg_delta :: "Notify list \<Rightarrow> int" where
  "msg_delta ns = sum_list (map (\<lambda>n. case n of NotifyMsgQueueAdded d \<Rightarrow> d | _ \<Rightarrow> 0) ns)"

definition infl_delta :: "Notify list \<Rightarrow> int" where
  "infl_delta ns = sum_list (map (\<lambda>n. case n of NotifyInflightAdded d \<Rightarrow> d | _ \<Rightarrow> 0) ns)"

lemma delta_simps [simp]:
  "msg_delta [] = 0" "infl_delta [] = 0"
  "msg_delta (ns @ ms) = msg_delta ns + msg_delta ms" "infl_delta (ns @ ms) = infl_delta ns + infl_delta ms"
  "msg_delta (NotifyMsgQueueAdded d # ns) = d + msg_delta ns" "infl_delta (NotifyMsgQueueAdded d # ns) = infl_delta ns"
  "msg_delta (NotifyInflightAdded d # ns) = msg_delta ns" "infl_delta (NotifyInflightAdded d # ns) = d + infl_delta ns"
  "msg_delta (NotifyDropped e err # ns) = msg_delta ns" "infl_delta (NotifyDropped e err # ns) = infl_delta ns"
  by (simp_all add: msg_delta_def infl_delta_def)

lemma read_drops_delta [simp]: "msg_delta (read_drops now n q) = 0" "infl_delta (read_drops now n q) = 0"
  by (simp_all add: read_drops_def msg_delta_def infl_delta_def comp_def)

text \<open>
  The methods between two calls of \<^verbatim>\<open>Init\<close>, in any order.  Callers add new messages, replace a publish
  by a pubrel with its identifier, and read with identifiers of the limiter, which are not zero.
\<close>

inductive q_step :: "Queue \<Rightarrow> Notify list \<Rightarrow> Queue \<Rightarrow> bool" where
  add: "is_new elem \<Longrightarrow> Queue_Add now elem q = Inr (q', ns) \<Longrightarrow> q_step q ns q'"
| replace: "inflight elem \<Longrightarrow> Queue_Replace elem q = (q', b) \<Longrightarrow> q_step q [] q'"
| read: "0 \<notin> set pids \<Longrightarrow> Queue_Read now pids q = Some (Inr (q', rs, ns)) \<Longrightarrow> q_step q ns q'"
| read_inflight: "Queue_ReadInflight clock m q = (q', rs) \<Longrightarrow> q_step q [] q'"
| remove: "Queue_Remove pid q = (q', ns) \<Longrightarrow> q_step q ns q'"
| close: "q_step q [] (Queue_Close q)"

inductive q_run :: "Queue \<Rightarrow> Notify list \<Rightarrow> Queue \<Rightarrow> bool" where
  nil: "q_run q [] q"
| step: "q_run q ns q1 \<Longrightarrow> q_step q1 ms q2 \<Longrightarrow> q_run q (ns @ ms) q2"

definition q_account :: "Queue \<Rightarrow> Notify list \<Rightarrow> Queue \<Rightarrow> bool" where
  "q_account q ns q' \<longleftrightarrow>
     msg_delta ns = int (length (q_list q')) - int (length (q_list q))
     \<and> (inflightDrained q \<longrightarrow> inflightDrained q' \<and>
          infl_delta ns = int (length (q_read q')) - int (length (q_read q)))
     \<and> int (length (q_list q')) \<le> max (int (length (q_list q))) (q_max q) \<and> q_max q' = q_max q"

lemma Add_account:
  assumes "Queue_Add now elem q = Inr (q', ns)"
  shows "q_account q ns q'"
  using assms
  by (cases rule: Add_cases; cases "q_read q") (auto simp: q_account_def length_remove_nth)

lemma Read_account:
  assumes "qinv q" and "Queue_Read now pids q = Some (Inr (q', rs, ns))"
  shows "q_account q ns q'"
proof -
  have d: "inflightDrained q" "q_unread q \<noteq> []" "\<not> closed q"
    using assms(2) by (auto simp: Queue_Read_def split: if_splits)
  define n where "n = min (length pids) (length (q_list q))"
  define out where "out = read_out now n q pids"
  have e: "q' = q\<lparr>q_read := q_read q @ stays out, q_unread := drop n (q_unread q)\<rparr>"
    "ns = read_drops now n q @ [NotifyMsgQueueAdded (int (length (stays out)) - int (min n (length (q_unread q)))),
         NotifyInflightAdded (int (length (stays out)))]"
    using assms(2) Queue_Read_spec [OF assms(1) d, of now pids] by (auto simp: Let_def n_def out_def)
  have "length (stays out) \<le> length (filter (deliverable now q) (take n (q_unread q)))"
    unfolding out_def read_out_def length_stays_assign by (rule length_filter_le)
  also have "\<dots> \<le> min n (length (q_unread q))"
    using length_filter_le [of "deliverable now q" "take n (q_unread q)"] by simp
  finally show ?thesis unfolding e q_account_def by auto
qed

lemma ReadInflight_drained:
  assumes "qinv q" and "inflightDrained q" and "Queue_ReadInflight now m q = (q', rs)"
  shows "rs = []"
proof (cases "q_unread q")
  case (Cons e es)
  then have "Elem_ID e = 0" using assms(1,2) by (auto simp: qinv_def inflight_def dest: is_new_not_inflight)
  then show ?thesis using assms(3) Cons
    by (auto simp: Queue_ReadInflight_def ReadInflight_loop.simps split: nat.splits if_splits)
qed (use assms(3) in \<open>auto simp: Queue_ReadInflight_def\<close>)

lemma ReadInflight_frame:
  "ReadInflight_loop now n q rs = (q', rs') \<Longrightarrow> q_max q' = q_max q \<and> (inflightDrained q \<longrightarrow> inflightDrained q')"
proof (induction n arbitrary: q rs)
  case (Suc n)
  then show ?case
    by (subst (asm) (2) ReadInflight_loop.simps)
      (fastforce simp: Let_def split: list.splits if_splits)
qed (simp add: ReadInflight_loop.simps)

lemma q_step_account:
  assumes "q_step q ns q'" and "qinv q"
  shows "qinv q' \<and> q_account q ns q'"
  using assms
proof (induction rule: q_step.induct)
  case (add elem now q q' ns)
  then show ?case using qinv_Add Add_account by blast
next
  case (replace elem q q' b)
  then have "qinv q'" "length (q_list q') = length (q_list q)" using qinv_Replace by blast+
  moreover have "inflightDrained q' = inflightDrained q" "q_max q' = q_max q" "q_unread q' = q_unread q"
    using replace by (auto simp: Queue_Replace_def split: option.splits)
  ultimately show ?case by (simp add: q_account_def)
next
  case (read pids now q q' rs ns)
  then show ?case using qinv_Read Read_account by blast
next
  case (read_inflight clock m q q' rs)
  then have i: "qinv q'" "map Elem_ID (q_list q') = map Elem_ID (q_list q)" "q_read q' = q_read q @ rs"
    using qinv_ReadInflight by blast+
  then have "length (q_list q') = length (q_list q)" by (metis length_map)
  moreover have "q_max q' = q_max q \<and> (inflightDrained q \<longrightarrow> inflightDrained q')"
    using read_inflight(1) ReadInflight_frame by (fastforce simp: Queue_ReadInflight_def split: if_splits)
  ultimately show ?case using i ReadInflight_drained [OF read_inflight(2) _ read_inflight(1)]
    by (auto simp: q_account_def)
next
  case (remove pid q q' ns)
  then have "qinv q'" using qinv_Remove by blast
  moreover have "q_account q ns q'" using remove(1)
    by (auto simp: Queue_Remove_def q_account_def dest!: remove_id_Some split: option.splits)
  ultimately show ?case by simp
next
  case (close q)
  then show ?case using qinv_Close by (simp add: q_account_def Queue_Close_def)
qed

text \<open>
  The number of elements in flight: those with a packet identifier, whether they were sent on this connection or on an earlier
  one.  Once the queue is drained they are the elements before \<^verbatim>\<open>current\<close>.
\<close>

definition inflight_count :: "Queue \<Rightarrow> nat" where
  "inflight_count q = length (filter inflight (q_list q))"

lemma filter_inflight: "list_all inflight xs \<Longrightarrow> filter inflight xs = xs" "list_all is_new xs \<Longrightarrow> filter inflight xs = []"
  by (auto simp: list_all_iff filter_empty_conv dest: is_new_not_inflight intro: filter_True)

lemma inflight_count_read: "qinv q \<Longrightarrow> inflight_count q = length (q_read q) + length (filter inflight (q_unread q))"
  by (simp add: inflight_count_def qinv_def filter_inflight)

lemma inflight_count_drained: "qinv q \<Longrightarrow> inflightDrained q \<Longrightarrow> inflight_count q = length (q_read q)"
  by (simp add: inflight_count_read) (simp add: qinv_def filter_inflight)

lemma inflight_count_ids: "inflight_count q = length (filter (\<lambda>i. i \<noteq> 0) (map Elem_ID (q_list q)))"
  by (simp add: inflight_count_def filter_map comp_def inflight_def [abs_def])

lemma remove_nth_filter: "k < length xs \<Longrightarrow> \<not> P (xs ! k) \<Longrightarrow> filter P (remove_nth k xs) = filter P xs"
proof (induction xs arbitrary: k)
  case (Cons x xs)
  then show ?case by (cases k) (auto simp: remove_nth_def)
qed simp

lemma Add_inflight:
  assumes "is_new elem" "Queue_Add now elem q = Inr (q', ns)" "qinv q"
  shows "infl_delta ns = int (inflight_count q') - int (inflight_count q)"
  using assms(2)
proof (cases rule: Add_cases)
  case expired_inflight
  then show ?thesis using assms(1,3) by (cases "q_read q") (auto simp: inflight_count_def qinv_def dest: is_new_not_inflight)
next
  case (dropped k err)
  have "\<not> inflight (q_unread q ! k)"
    using dropped(2,3) assms(3) by (auto simp: qinv_def list_all_length dest: is_new_not_inflight)
  then show ?thesis using dropped assms(1) by (auto simp: inflight_count_def remove_nth_filter dest: is_new_not_inflight)
qed (use assms(1) in \<open>auto simp: inflight_count_def dest: is_new_not_inflight\<close>)

lemma q_step_inflight:
  assumes "q_step q ns q'" and "qinv q"
  shows "infl_delta ns = int (inflight_count q') - int (inflight_count q)"
  using assms
proof (induction rule: q_step.induct)
  case (add elem now q q' ns)
  then show ?case by (rule Add_inflight)
next
  case (replace elem q q' b)
  have same: "length (filter inflight l) = length (filter inflight xs)"
    if "replace_id i elem xs = Some l" "i \<noteq> 0" "inflight elem" for i l xs
    using that by (induction xs arbitrary: l) (auto simp: inflight_def split: if_splits)
  show ?case using replace same [of "Elem_ID elem" "q_read q"]
    by (auto simp: Queue_Replace_def inflight_count_def inflight_def [of elem] split: option.splits)
next
  case (read pids now q q' rs ns)
  have d: "inflightDrained q" "inflightDrained q'" "infl_delta ns = int (length (q_read q')) - int (length (q_read q))"
    using read(2) Read_account [OF read(3,2)] by (auto simp: Queue_Read_def q_account_def split: if_splits)
  then show ?case using inflight_count_drained [OF read(3)] inflight_count_drained [OF qinv_Read [OF read(3,2,1)]] by simp
next
  case (read_inflight clock m q q' rs)
  then have "map Elem_ID (q_list q') = map Elem_ID (q_list q)" using qinv_ReadInflight by blast
  then show ?case unfolding inflight_count_ids by simp
next
  case (remove pid q q' ns)
  then have q': "qinv q'" using qinv_Remove by blast
  show ?case using remove(1) unfolding inflight_count_read [OF remove(2)] inflight_count_read [OF q']
    by (auto simp: Queue_Remove_def dest!: remove_id_Some split: option.splits)
next
  case (close q)
  then show ?case by (simp add: inflight_count_def Queue_Close_def)
qed

text \<open>
  C2. Over every sequence of queue operations, whether or not the elements in flight of an earlier connection have been read
  again, the notifications sum up to the change of the queue length and of the number of elements in flight, which are those with
  a packet identifier; the queue does not grow beyond its maximum, and its invariant holds.  From a drained queue on, the elements
  in flight are those that were read and not yet removed.
\<close>

theorem q_run_account:
  assumes "q_run q ns q'" and "qinv q"
  shows "qinv q' \<and> q_account q ns q' \<and> infl_delta ns = int (inflight_count q') - int (inflight_count q)"
  using assms
proof (induction rule: q_run.induct)
  case (nil q)
  then show ?case by (simp add: q_account_def)
next
  case (step q ns q1 ms q2)
  then have "qinv q1" "q_account q ns q1" "infl_delta ns = int (inflight_count q1) - int (inflight_count q)" by auto
  moreover have "qinv q2" "q_account q1 ms q2" "infl_delta ms = int (inflight_count q2) - int (inflight_count q1)"
    using step(2) q_step_account q_step_inflight calculation(1) by blast+
  ultimately show ?case by (auto simp: q_account_def)
qed

text \<open>
  A resumed queue with a message in flight: a message is added, the one in flight is read again and then acknowledged.
\<close>

definition resumed_example :: Queue where
  "resumed_example = queue_example\<lparr>inflightDrained := False, q_max := 5, q_read := [],
     q_unread := [\<lparr>At = 0, Expiry = None, Elem_msg = QPublish (msg_example\<lparr>msg_QoS := 1, msg_PacketID := 7\<rparr>)\<rparr>]\<rparr>"

theorem q_run_account_witness:
  "\<exists>ns q'. q_run resumed_example ns q' \<and> q_read q' = [] \<and> length (q_unread q') = 1 \<and> ns \<noteq> [] \<and>
    qinv q' \<and> q_account resumed_example ns q' \<and> infl_delta ns = int (inflight_count q') - int (inflight_count resumed_example)"
proof -
  let ?e = "\<lparr>At = 4, Expiry = None, Elem_msg = QPublish msg_example\<rparr>"
  let ?q1 = "resumed_example\<lparr>q_unread := q_unread resumed_example @ [?e]\<rparr>"
  let ?q2 = "?q1\<lparr>q_read := q_unread resumed_example, q_unread := [?e]\<rparr>"
  have 1: "q_step resumed_example [NotifyMsgQueueAdded 1] ?q1"
    by (rule q_step.add [of ?e 0]) (simp_all add: is_new_def msg_example_def Queue_Add_def resumed_example_def queue_example_def Queue_New_def)
  have 2: "q_step ?q1 [] ?q2"
    by (rule q_step.read_inflight [of "\<lambda>_. 0" 1])
      (simp add: Queue_ReadInflight_def ReadInflight_loop.simps resumed_example_def queue_example_def Queue_New_def Let_def)
  have 3: "q_step ?q2 [NotifyMsgQueueAdded (-1), NotifyInflightAdded (-1)] (?q2\<lparr>q_read := []\<rparr>)"
    by (rule q_step.remove [of 7]) (simp add: Queue_Remove_def resumed_example_def)
  have run: "q_run resumed_example ((([] @ [NotifyMsgQueueAdded 1]) @ []) @ [NotifyMsgQueueAdded (-1), NotifyInflightAdded (-1)]) (?q2\<lparr>q_read := []\<rparr>)"
    by (rule q_run.step [OF q_run.step [OF q_run.step [OF q_run.nil 1] 2] 3])
  have "qinv resumed_example"
    by (simp add: resumed_example_def queue_example_def Queue_New_def qinv_def inflight_def)
  moreover obtain ns q' where "q_run resumed_example ns q'" "q_read q' = []" "length (q_unread q') = 1" "ns \<noteq> []"
    by (rule that [OF run]) simp_all
  ultimately show ?thesis using q_run_account by blast
qed

lemma assign_ids_rel:
  "list_all is_new es \<Longrightarrow>
   list_all2 (\<lambda>e r. r = (if elem_QoS e = 0 then e else to_inflight now q (Elem_ID r) e)) es (assign_ids (to_inflight now q) es pids)"
proof (induction es arbitrary: pids)
  case (Cons e es)
  then obtain m where "Elem_msg e = QPublish m" by (auto elim: is_newE)
  then have "Elem_ID (to_inflight now q p e) = p" for p by (simp add: to_inflight_def)
  with Cons show ?case by simp
qed simp

text \<open>
  C35. A read returns, in order, those of the next elements that are neither expired nor too large: those of QoS 0 as they are,
  the others unchanged but for the packet identifier and, if one is configured, the expiry time of messages in flight; these stay
  in the queue as in flight, with the given packet identifiers in order, each used once.  Every element that is left out is
  reported as dropped with its reason, and the changes of the two counters are reported.
\<close>

theorem Queue_Read_delivers:
  assumes "qinv q" and "inflightDrained q" and "q_unread q \<noteq> []" and "\<not> closed q"
    and "0 \<notin> set pids" and "distinct pids" and "n = min (length pids) (length (q_list q))"
  shows "\<exists>out ns. Queue_Read now pids q
      = Some (Inr (q\<lparr>q_read := q_read q @ stays out, q_unread := drop n (q_unread q)\<rparr>, out, ns))
    \<and> list_all2 (\<lambda>e r. r = (if elem_QoS e = 0 then e
        else e\<lparr>Elem_msg := MessageWithID_SetID (Elem_ID r) (Elem_msg e),
               Expiry := (if inflightExpiry q \<noteq> 0 then Some (now + inflightExpiry q) else Expiry e)\<rparr>))
        (filter (deliverable now q) (take n (q_unread q))) out
    \<and> map At out = map At (filter (deliverable now q) (take n (q_unread q)))
    \<and> ns = map (\<lambda>e. NotifyDropped e (if ElemExpiry now e then ErrDropExpired else ErrDropExceedsMaxPacketSize))
        (filter (\<lambda>e. \<not> deliverable now q e) (take n (q_unread q))) @
      [NotifyMsgQueueAdded (int (length (stays out)) - int (min n (length (q_unread q)))), NotifyInflightAdded (int (length (stays out)))]
    \<and> map Elem_ID (stays out) = take (length (stays out)) pids"
proof -
  let ?es = "filter (deliverable now q) (take n (q_unread q))" and ?out = "read_out now n q pids"
  have at: "map At (assign_ids (to_inflight now q) es ps) = map At es" for es ps
    by (induction es arbitrary: ps) (auto simp: to_inflight_def)
  have new: "list_all is_new (q_unread q)" using assms(1,2) by (simp add: qinv_def)
  then have "list_all is_new ?es" by (auto simp: list_all_iff dest: in_set_takeD)
  note rel = assign_ids_rel [OF this, of now q pids, folded read_out_def, unfolded to_inflight_def]
  have "map At ?out = map At ?es" by (simp add: read_out_def at)
  moreover have "map Elem_ID (stays ?out) = take (length (stays ?out)) pids"
    using read_out_ids [OF new _ assms(5)] assms(7) by simp
  ultimately show ?thesis
    using rel unfolding Queue_Read_spec [OF assms(1-4)] Let_def assms(7) [symmetric] read_drops_def
    by (intro exI [of _ ?out] exI conjI) (rule refl | assumption)+
qed

theorem Queue_Read_delivers_witness:
  "\<exists>q' out ns. Queue_Read 5 [9] queue_example = Some (Inr (q', out, ns)) \<and> map Elem_ID (stays out) = take (length (stays out)) [9]"
  using Queue_Read_delivers [OF queue_example_inv, of "[9]" 1 5]
  by (fastforce simp: queue_example_def Queue_New_def)

end
