(* ===== verification/Outbound.thy ===== *)
theory Outbound
  imports Queue Limiter
begin

text \<open>
  The sending side of a connected client: the handlers of acknowledgements (\<^verbatim>\<open>pubackHandler\<close>, \<^verbatim>\<open>pubrecHandler\<close>,
  \<^verbatim>\<open>pubcompHandler\<close>), the goroutine \<^verbatim>\<open>pollMessageHandler\<close> with \<^verbatim>\<open>pollInflights\<close> and \<^verbatim>\<open>pollNewMessages\<close> of
  \<^verbatim>\<open>server/client.go\<close>, and the notifier of \<^verbatim>\<open>server/queue_notifier.go\<close>.  The goroutine and the handlers run beside each
  other; \<open>out_step\<close> lets them take their steps in any order, and the invariant of its reachable states ties
  the identifiers locked in the limiter to the messages in flight.
\<close>

section \<open>The session of a connected client\<close>

text \<open>
  The fields of \<^verbatim>\<open>client\<close> that sending uses: \<open>ss_out\<close> is what has been put into the channel \<^verbatim>\<open>client.out\<close>,
  oldest first, and \<open>ss_notes\<close> the calls of the notifier, which also feed the statistics.
\<close>

record session =
  ss_version :: byte
  ss_MaxInflight :: uint16
  ss_connected :: bool
  ss_queue :: Queue
  ss_pl :: packetIDLimiter
  ss_out :: "Packet list"
  ss_notes :: "Notify list"

definition client_write :: "Packet \<Rightarrow> 's session_scheme \<Rightarrow> 's session_scheme" where
  "client_write p s = s\<lparr>ss_out := ss_out s @ [p]\<rparr>"

definition pl_release :: "uint16 \<Rightarrow> 's session_scheme \<Rightarrow> 's session_scheme res" where
  "pl_release i s = rbind (limiter_release (ss_pl s) i) (\<lambda>pl. Inr (s\<lparr>ss_pl := pl\<rparr>))"

text \<open>\<^verbatim>\<open>queueNotifier\<close>: a dropped in-flight message gives its identifier back.\<close>

fun queueNotifier_notify :: "Notify \<Rightarrow> 's session_scheme \<Rightarrow> 's session_scheme res" where
  "queueNotifier_notify (NotifyDropped elem err) s =
     (if err = ErrDropExpiredInflight \<and> ss_connected s
      then pl_release (Elem_ID elem) (s\<lparr>ss_notes := ss_notes s @ [NotifyDropped elem err]\<rparr>)
      else Inr (s\<lparr>ss_notes := ss_notes s @ [NotifyDropped elem err]\<rparr>))"
| "queueNotifier_notify n s = Inr (s\<lparr>ss_notes := ss_notes s @ [n]\<rparr>)"

fun notify_all :: "Notify list \<Rightarrow> 's session_scheme \<Rightarrow> 's session_scheme res" where
  "notify_all [] s = Inr s"
| "notify_all (n # ns) s = rbind (queueNotifier_notify n s) (notify_all ns)"

text \<open>\<^verbatim>\<open>client.queueStore.Add\<close> and \<^verbatim>\<open>Remove\<close> with the calls of the notifier.\<close>

definition queue_add :: "int \<Rightarrow> Elem \<Rightarrow> 's session_scheme \<Rightarrow> 's session_scheme res" where
  "queue_add now elem s =
     rbind (Queue_Add now elem (ss_queue s)) (\<lambda>(q, ns). notify_all ns (s\<lparr>ss_queue := q\<rparr>))"

definition queue_remove :: "uint16 \<Rightarrow> 's session_scheme \<Rightarrow> 's session_scheme res" where
  "queue_remove i s = (let (q, ns) = Queue_Remove i (ss_queue s) in notify_all ns (s\<lparr>ss_queue := q\<rparr>))"

section \<open>Acknowledgements\<close>

text \<open>The in-memory queue returns no error, so the branches on \<^verbatim>\<open>err\<close> do not occur.\<close>

definition pubackHandler :: "Puback \<Rightarrow> 's session_scheme \<Rightarrow> 's session_scheme res" where
  "pubackHandler puback s = rbind (queue_remove (ack_PacketID puback) s) (pl_release (ack_PacketID puback))"

definition pubrecHandler :: "int \<Rightarrow> Pubrec \<Rightarrow> 's session_scheme \<Rightarrow> 's session_scheme res" where
  "pubrecHandler now pubrec s =
     (if ss_version s = Version5 \<and> 0x80 \<le> ack_Code pubrec
      then rbind (queue_remove (ack_PacketID pubrec) s) (pl_release (ack_PacketID pubrec))
      else
        let pubrel = Pubrec_NewPubrel pubrec;
            (q, b) = Queue_Replace \<lparr>At = now, Expiry = None, Elem_msg = QPubrel (prel_PacketID pubrel)\<rparr> (ss_queue s) in
        Inr (client_write (PPubrel pubrel) (s\<lparr>ss_queue := q\<rparr>)))"

definition pubcompHandler :: "Pubcomp \<Rightarrow> 's session_scheme \<Rightarrow> 's session_scheme res" where
  "pubcompHandler pubcomp s = rbind (queue_remove (ack_PacketID pubcomp) s) (pl_release (ack_PacketID pubcomp))"

section \<open>Sending\<close>

text \<open>
  The queue hands out pointers to its elements, so what \<^verbatim>\<open>pollInflights\<close> and \<^verbatim>\<open>pollNewMessages\<close> assign to a message
  is also changed in the queue.
\<close>

definition resend_elem :: "Elem \<Rightarrow> Elem" where
  "resend_elem v =
     (case Elem_msg v of
        QPublish m \<Rightarrow> v\<lparr>Elem_msg := QPublish (m\<lparr>msg_Dup := True, msg_SubscriptionIdentifier := []\<rparr>)\<rparr>
      | QPubrel _ \<Rightarrow> v)"

fun pollInflights_loop :: "Elem list \<Rightarrow> 's session_scheme \<Rightarrow> 's session_scheme res" where
  "pollInflights_loop [] s = Inr s"
| "pollInflights_loop (v # elems) s =
     (case Elem_msg v of
        QPublish m \<Rightarrow>
          rbind (markUsedLocked (ss_pl s) (Elem_ID v)) (\<lambda>pl.
          pollInflights_loop elems (client_write (PPublish (MessageToPublish m (ss_version s))) (s\<lparr>ss_pl := pl\<rparr>)))
      | QPubrel i \<Rightarrow>
          pollInflights_loop elems
            (client_write (PPubrel \<lparr>prel_FixHeader = None, prel_PacketID = i, prel_Code = 0, prel_Properties = None\<rparr>) s))"

definition pollInflights :: "(nat \<Rightarrow> int) \<Rightarrow> 's session_scheme \<Rightarrow> (bool \<times> 's session_scheme) res" where
  "pollInflights now s =
     (let (q, elems) = Queue_ReadInflight now (unat (ss_MaxInflight s)) (ss_queue s) in
      if length elems = 0 then Inr (False, s\<lparr>ss_queue := q\<rparr>)
      else
        let elems' = map resend_elem elems;
            q' = q\<lparr>q_read := take (length (q_read q) - length elems) (q_read q) @ elems'\<rparr> in
        rbind (pollInflights_loop elems' (s\<lparr>ss_queue := q'\<rparr>)) (\<lambda>s'. Inr (True, s')))"

text \<open>
  The lifetime a version 5 client is told.  \<^verbatim>\<open>now\<close> is read before the call of \<^verbatim>\<open>Read\<close>, which may wait, so it can
  lie before \<^verbatim>\<open>v.At\<close>; the fraction of a second is cut off, and Go leaves the conversion of a negative number to \<^verbatim>\<open>uint32\<close> to the implementation, so the
  conversion is the parameter \<open>toUint32\<close>.
\<close>

definition send_elem :: "(int \<Rightarrow> uint32) \<Rightarrow> byte \<Rightarrow> int \<Rightarrow> Elem \<Rightarrow> Elem" where
  "send_elem toUint32 version now v =
     (case Elem_msg v of
        QPublish m \<Rightarrow>
          if version = Version5 \<and> msg_MessageExpiry m \<noteq> 0
          then v\<lparr>Elem_msg := QPublish (m\<lparr>msg_MessageExpiry := toUint32 (sgn (now - At v) * (\<bar>now - At v\<bar> div 1000000000))\<rparr>)\<rparr>
          else v
      | QPubrel _ \<Rightarrow> v)"

fun pollNewMessages_loop :: "Elem list \<Rightarrow> uint16 list \<Rightarrow> 's session_scheme \<Rightarrow> (uint16 list \<times> 's session_scheme) res" where
  "pollNewMessages_loop [] ids s = Inr (ids, s)"
| "pollNewMessages_loop (v # elems) ids s =
     (case Elem_msg v of
        QPublish m \<Rightarrow>
          if msg_QoS m \<noteq> 0 \<and> ids = [] then Inl Panic
          else pollNewMessages_loop elems (if msg_QoS m \<noteq> 0 then tl ids else ids)
            (client_write (PPublish (MessageToPublish m (ss_version s))) s)
      | QPubrel _ \<Rightarrow> pollNewMessages_loop elems ids s)"

definition pollNewMessages ::
    "(int \<Rightarrow> uint32) \<Rightarrow> int \<Rightarrow> int \<Rightarrow> uint16 list \<Rightarrow> 's session_scheme \<Rightarrow> (uint16 list \<times> 's session_scheme) res option" where
  "pollNewMessages toUint32 now rnow ids s =
     (case Queue_Read rnow ids (ss_queue s) of
        None \<Rightarrow> None
      | Some (Inl e) \<Rightarrow> Some (Inl e)
      | Some (Inr (q, elems, ns)) \<Rightarrow>
          Some (rbind (notify_all ns s) (\<lambda>s1.
          let elems' = map (send_elem toUint32 (ss_version s1) now) elems;
              n = length (stays elems);
              q' = q\<lparr>q_read := take (length (q_read q) - n) (q_read q) @ stays elems'\<rparr> in
          pollNewMessages_loop elems' ids (s1\<lparr>ss_queue := q'\<rparr>))))"

definition poll_max :: "'s session_scheme \<Rightarrow> uint16" where
  "poll_max s = (if ss_MaxInflight s < 100 then ss_MaxInflight s else 100)"

text \<open>
  The goroutine \<^verbatim>\<open>pollMessageHandler\<close>: it drains the in-flight messages, then repeats polling identifiers, reading
  messages with them and giving back the unused ones.  It runs beside the handlers of acknowledgements
  and the deliveries to the queue; each of these is one step.
\<close>

datatype poll_phase = Draining | Polling | Holding "uint16 list" | Releasing "uint16 list"

inductive out_step :: "poll_phase \<times> session \<Rightarrow> poll_phase \<times> session \<Rightarrow> bool" where
  add: "is_new elem \<Longrightarrow> queue_add now elem s = Inr s' \<Longrightarrow> out_step (ph, s) (ph, s')"
| inflights: "pollInflights clock s = Inr (True, s') \<Longrightarrow> out_step (Draining, s) (Draining, s')"
| drained: "pollInflights clock s = Inr (False, s') \<Longrightarrow> out_step (Draining, s) (Polling, s')"
| poll: "pollPacketIDs (ss_pl s) (poll_max s) = Some (Inr (pl, ids)) \<Longrightarrow>
    out_step (Polling, s) (Holding ids, s\<lparr>ss_pl := pl\<rparr>)"
| read: "pollNewMessages toUint32 now rnow ids s = Some (Inr (unused, s')) \<Longrightarrow>
    out_step (Holding ids, s) (Releasing unused, s')"
| release: "batchRelease (ss_pl s) unused = Inr pl \<Longrightarrow> out_step (Releasing unused, s) (Polling, s\<lparr>ss_pl := pl\<rparr>)"
| puback: "ack_PacketID a \<in> Elem_ID ` set (q_read (ss_queue s)) \<Longrightarrow> pubackHandler a s = Inr s' \<Longrightarrow> out_step (ph, s) (ph, s')"
| pubrec: "ack_PacketID a \<in> Elem_ID ` set (q_read (ss_queue s)) \<Longrightarrow> pubrecHandler now a s = Inr s' \<Longrightarrow> out_step (ph, s) (ph, s')"
| pubcomp: "ack_PacketID a \<in> Elem_ID ` set (q_read (ss_queue s)) \<Longrightarrow> pubcompHandler a s = Inr s' \<Longrightarrow> out_step (ph, s) (ph, s')"

inductive_cases out_stepE: "out_step st st'"

section \<open>The invariant\<close>

fun held :: "poll_phase \<Rightarrow> uint16 list" where
  "held Draining = []"
| "held Polling = []"
| "held (Holding ids) = ids"
| "held (Releasing ids) = ids"

text \<open>The identifiers in use: of the messages sent and not acknowledged, and of those a resumed session has still to send again.\<close>

abbreviation read_ids :: "Queue \<Rightarrow> uint16 list" where
  "read_ids q \<equiv> map Elem_ID (q_read q)"

definition old_ids :: "Queue \<Rightarrow> uint16 list" where
  "old_ids q = map Elem_ID (filter inflight (q_unread q))"

text \<open>
  The number of identifiers in use is bounded by \<open>lim\<close>, which is not smaller than the limit of the limiter: it is larger when a session is resumed
  with more messages in flight than the receive maximum of the new connection.
\<close>

definition out_inv :: "nat \<Rightarrow> poll_phase \<Rightarrow> 's session_scheme \<Rightarrow> bool" where
  "out_inv lim ph s \<longleftrightarrow>
     qinv (ss_queue s) \<and> lim_inv (ss_pl s) \<and> ss_connected s \<and> ss_MaxInflight s \<noteq> 0
     \<and> locked (ss_pl s) = set (read_ids (ss_queue s)) \<union> set (held ph)
     \<and> distinct (read_ids (ss_queue s) @ old_ids (ss_queue s) @ held ph)
     \<and> length (read_ids (ss_queue s) @ old_ids (ss_queue s) @ held ph) \<le> lim \<and> unat (limit (ss_pl s)) \<le> lim
     \<and> (ph \<noteq> Draining \<longrightarrow> inflightDrained (ss_queue s))
     \<and> (\<forall>e\<in>set (q_unread (ss_queue s)). inflight e \<longrightarrow> (\<exists>m. Elem_msg e = QPublish m))"

lemma out_invI:
  assumes "qinv (ss_queue s)" "lim_inv (ss_pl s)" "ss_connected s \<and> ss_MaxInflight s \<noteq> 0"
    "locked (ss_pl s) = set (read_ids (ss_queue s)) \<union> set (held ph)"
    "distinct (read_ids (ss_queue s) @ old_ids (ss_queue s) @ held ph)"
    "length (read_ids (ss_queue s) @ old_ids (ss_queue s) @ held ph) \<le> lim"
    "ph \<noteq> Draining \<Longrightarrow> inflightDrained (ss_queue s)"
    "\<And>e. e \<in> set (q_unread (ss_queue s)) \<Longrightarrow> inflight e \<Longrightarrow> \<exists>m. Elem_msg e = QPublish m"
    "unat (limit (ss_pl s)) \<le> lim"
  shows "out_inv lim ph s"
  using assms unfolding out_inv_def by blast

lemma out_invD:
  assumes "out_inv lim ph s"
  shows "qinv (ss_queue s)" "lim_inv (ss_pl s)" "ss_connected s \<and> ss_MaxInflight s \<noteq> 0"
    "locked (ss_pl s) = set (read_ids (ss_queue s)) \<union> set (held ph)"
    "distinct (read_ids (ss_queue s) @ old_ids (ss_queue s) @ held ph)"
    "length (read_ids (ss_queue s) @ old_ids (ss_queue s) @ held ph) \<le> lim"
    "ph \<noteq> Draining \<Longrightarrow> inflightDrained (ss_queue s)"
    "\<And>e. e \<in> set (q_unread (ss_queue s)) \<Longrightarrow> inflight e \<Longrightarrow> \<exists>m. Elem_msg e = QPublish m"
    "unat (limit (ss_pl s)) \<le> lim"
  using assms unfolding out_inv_def by blast+

lemma out_inv_queue:
  assumes "out_inv lim ph s" and "qinv q" and "read_ids q = read_ids (ss_queue s)" and "old_ids q = old_ids (ss_queue s)"
    and "inflightDrained (ss_queue s) \<Longrightarrow> inflightDrained q"
    and "\<And>e. e \<in> set (q_unread q) \<Longrightarrow> inflight e \<Longrightarrow> \<exists>m. Elem_msg e = QPublish m"
    and "ss_queue s' = q" and "ss_pl s' = ss_pl s" and "ss_connected s' = ss_connected s"
    and "ss_MaxInflight s' = ss_MaxInflight s"
  shows "out_inv lim ph s'"
  using out_invD [OF assms(1)] assms(2-) by (intro out_invI) (simp_all only: simp_thms)

lemma old_ids_new: "list_all is_new (q_unread q) \<Longrightarrow> old_ids q = []"
  by (auto simp: old_ids_def list_all_iff filter_empty_conv dest: is_new_not_inflight)

lemma old_ids_drained: "qinv q \<Longrightarrow> inflightDrained q \<Longrightarrow> old_ids q = []"
  by (simp add: qinv_def old_ids_new)

lemma ids_in_use: "qinv q \<Longrightarrow> read_ids q @ old_ids q = filter (\<lambda>i. i \<noteq> 0) (map Elem_ID (q_list q))"
proof -
  assume "qinv q"
  then have "filter inflight (q_read q) = q_read q" by (auto simp: qinv_def list_all_iff filter_id_conv)
  moreover have "filter (\<lambda>i. i \<noteq> 0) (map Elem_ID xs) = map Elem_ID (filter inflight xs)" for xs
    by (induction xs) (auto simp: inflight_def)
  ultimately show ?thesis by (simp add: old_ids_def)
qed

section \<open>The notifier\<close>

definition quiet :: "Notify \<Rightarrow> bool" where
  "quiet n \<longleftrightarrow> (case n of NotifyDropped e err \<Rightarrow> err \<noteq> ErrDropExpiredInflight | _ \<Rightarrow> True)"

lemma notify_quiet: "list_all quiet ns \<Longrightarrow> notify_all ns s = Inr (s\<lparr>ss_notes := ss_notes s @ ns\<rparr>)"
proof (induction ns arbitrary: s)
  case (Cons n ns)
  then show ?case by (cases n) (simp_all add: quiet_def)
qed simp

lemma pl_release_ok:
  assumes "lim_inv (ss_pl s)"
  shows "\<exists>pl. pl_release i s = Inr (s\<lparr>ss_pl := pl\<rparr>) \<and> lim_inv pl \<and> locked pl = locked (ss_pl s) - {i}
    \<and> limit pl = limit (ss_pl s)"
  using releaseLocked_ok [OF assms, of i] by (auto simp: pl_release_def limiter_release_def)

section \<open>Adding\<close>

lemma old_ids_append: "is_new e \<Longrightarrow> old_ids (q\<lparr>q_unread := xs @ [e]\<rparr>) = map Elem_ID (filter inflight xs)"
  by (auto simp: old_ids_def dest: is_new_not_inflight)

lemma Add_scan_err: "Add_scan now es i d = Inr (Some (k, err)) \<Longrightarrow> err \<noteq> ErrDropExpiredInflight"
  by (induction now es i d rule: Add_scan.induct) (auto split: option.splits MessageWithID.splits if_splits)

lemma Add_drop_err:
  assumes "Queue_Add now elem q = Inr (q', [NotifyDropped e err])"
  shows "err \<noteq> ErrDropExpiredInflight"
  using assms Add_scan_err [of now "q_unread q" 0 None]
  by (auto simp: Queue_Add_def Let_def rbind_eq_Inr_conv split: if_splits option.splits MessageWithID.splits)

lemma Add_ids:
  assumes "qinv q" and "is_new elem" and "Queue_Add now elem q = Inr (q', ns)"
  shows "old_ids q' = old_ids q \<and> inflightDrained q' = inflightDrained q
    \<and> set (q_unread q') \<subseteq> insert elem (set (q_unread q))
    \<and> (list_all quiet ns \<and> q_read q' = q_read q
       \<or> q_read q \<noteq> [] \<and> q_read q' = tl (q_read q)
         \<and> ns = [NotifyInflightAdded (-1), NotifyDropped (hd (q_read q)) ErrDropExpiredInflight])"
  using assms(3)
proof (cases rule: Add_cases)
  case (dropped k err)
  have n: "\<not> inflight (q_unread q ! k)"
    using dropped assms(1) by (auto simp: qinv_def list_all_length dest: is_new_not_inflight)
  have "old_ids q' = old_ids q"
    unfolding dropped(4) old_ids_append [OF assms(2)] remove_nth_filter [where P = inflight, OF dropped(2) n] by (simp add: old_ids_def)
  moreover have "err \<noteq> ErrDropExpiredInflight" using Add_drop_err assms(3) unfolding dropped(5) by blast
  ultimately show ?thesis using dropped set_remove_nth [of k "q_unread q"] by (auto simp: quiet_def)
qed (use assms(2) in \<open>auto simp: old_ids_append, auto simp: old_ids_def quiet_def\<close>)

lemma out_inv_add:
  assumes inv: "out_inv lim ph s" and new: "is_new elem" and r: "queue_add now elem s = Inr s'"
  shows "out_inv lim ph s'"
proof -
  note i = out_invD [OF inv]
  obtain q ns where q: "Queue_Add now elem (ss_queue s) = Inr (q, ns)" and n: "notify_all ns (s\<lparr>ss_queue := q\<rparr>) = Inr s'"
    using r by (auto simp: queue_add_def rbind_eq_Inr_conv)
  note a = Add_ids [OF i(1) new q] and qi = qinv_Add [OF i(1) new q]
  have pub: "\<exists>m. Elem_msg e = QPublish m" if "e \<in> set (q_unread q)" "inflight e" for e
    using a i(8) that new is_new_not_inflight by blast
  show ?thesis
  proof (cases "list_all quiet ns \<and> q_read q = q_read (ss_queue s)")
    case True
    then have "s' = s\<lparr>ss_queue := q, ss_notes := ss_notes s @ ns\<rparr>"
      using n notify_quiet [of ns "s\<lparr>ss_queue := q\<rparr>"] by simp
    then show ?thesis using a True by (intro out_inv_queue [OF inv qi _ _ _ pub]) simp_all
  next
    case False
    then obtain e es where e: "q_read (ss_queue s) = e # es" "q_read q = es"
      "ns = [NotifyInflightAdded (-1), NotifyDropped e ErrDropExpiredInflight]"
      using a by (cases "q_read (ss_queue s)") auto
    let ?s = "s\<lparr>ss_queue := q, ss_notes := ss_notes s @ ns\<rparr>"
    obtain pl where pl: "pl_release (Elem_ID e) ?s = Inr (?s\<lparr>ss_pl := pl\<rparr>)" "lim_inv pl"
      "locked pl = locked (ss_pl s) - {Elem_ID e}" "limit pl = limit (ss_pl s)"
      using pl_release_ok [of ?s "Elem_ID e"] i(2) by auto
    have "s' = ?s\<lparr>ss_pl := pl\<rparr>" using n e(3) i(3) pl(1) by simp
    moreover have "Elem_ID e \<notin> set (read_ids q) \<union> set (held ph)" using i(5) e by simp
    then have "locked pl = set (read_ids q) \<union> set (held ph)" unfolding pl(3) i(4) using e by auto
    moreover have "distinct (read_ids q @ old_ids q @ held ph)" using i(5) e a by simp
    ultimately show ?thesis using i a qi pub pl e by (intro out_invI) simp_all
  qed
qed

section \<open>Acknowledging\<close>

lemma remove_id_ids:
  assumes "remove_id i xs = Some ys" and "distinct (map Elem_ID xs)"
  shows "set (map Elem_ID ys) = set (map Elem_ID xs) - {i}" "distinct (map Elem_ID ys)" "Suc (length ys) = length xs"
proof -
  obtain a e b where x: "xs = a @ e # b" "Elem_ID e = i" "ys = a @ b" using remove_id_Some [OF assms(1)] by blast
  then have "i \<notin> set (map Elem_ID ys)" using assms(2) by auto
  moreover have "set (map Elem_ID xs) = insert i (set (map Elem_ID ys))" using x by auto
  ultimately show "set (map Elem_ID ys) = set (map Elem_ID xs) - {i}" by blast
  show "distinct (map Elem_ID ys)" "Suc (length ys) = length xs" using x assms(2) by auto
qed

lemma queue_remove_ok:
  assumes "out_inv lim ph s" and "i \<in> Elem_ID ` set (q_read (ss_queue s))"
  shows "\<exists>q ns. queue_remove i s = Inr (s\<lparr>ss_queue := q, ss_notes := ss_notes s @ ns\<rparr>) \<and> qinv q
    \<and> set (read_ids q) = set (read_ids (ss_queue s)) - {i} \<and> distinct (read_ids q)
    \<and> Suc (length (q_read q)) = length (q_read (ss_queue s))
    \<and> q_unread q = q_unread (ss_queue s) \<and> inflightDrained q = inflightDrained (ss_queue s)"
proof -
  note inv = out_invD [OF assms(1)]
  obtain l where l: "remove_id i (q_read (ss_queue s)) = Some l"
    using assms(2) remove_id_None [of i "q_read (ss_queue s)"] by (cases "remove_id i (q_read (ss_queue s))") auto
  let ?q = "(ss_queue s)\<lparr>q_read := l\<rparr>"
  have r: "Queue_Remove i (ss_queue s) = (?q, [NotifyMsgQueueAdded (-1), NotifyInflightAdded (-1)])"
    using l by (simp add: Queue_Remove_def)
  have "queue_remove i s = Inr (s\<lparr>ss_queue := ?q, ss_notes := ss_notes s @ [NotifyMsgQueueAdded (-1), NotifyInflightAdded (-1)]\<rparr>)"
    unfolding queue_remove_def r by (simp add: notify_quiet quiet_def)
  moreover have "qinv ?q" using qinv_Remove [OF inv(1) r] .
  moreover have "distinct (map Elem_ID (q_read (ss_queue s)))" using inv(5) by simp
  ultimately show ?thesis using remove_id_ids [OF l] by (intro exI [of _ ?q]) auto
qed

lemma out_inv_ack:
  assumes inv: "out_inv lim ph s" and i: "i \<in> Elem_ID ` set (q_read (ss_queue s))"
  shows "\<exists>s'. rbind (queue_remove i s) (pl_release i) = Inr s' \<and> out_inv lim ph s'"
proof -
  note v = out_invD [OF inv]
  obtain q ns where q: "queue_remove i s = Inr (s\<lparr>ss_queue := q, ss_notes := ss_notes s @ ns\<rparr>)" "qinv q"
    "set (read_ids q) = set (read_ids (ss_queue s)) - {i}" "distinct (read_ids q)" "Suc (length (q_read q)) = length (q_read (ss_queue s))"
    "q_unread q = q_unread (ss_queue s)" "inflightDrained q = inflightDrained (ss_queue s)"
    using queue_remove_ok [OF inv i] by blast
  let ?s = "s\<lparr>ss_queue := q, ss_notes := ss_notes s @ ns\<rparr>"
  obtain pl where pl: "pl_release i ?s = Inr (?s\<lparr>ss_pl := pl\<rparr>)" "lim_inv pl"
    "locked pl = locked (ss_pl s) - {i}" "limit pl = limit (ss_pl s)"
    using pl_release_ok [of ?s i] v(2) by auto
  have o: "old_ids q = old_ids (ss_queue s)" using q(6) by (simp add: old_ids_def)
  have "i \<in> set (read_ids (ss_queue s))" using i by simp
  then have "i \<notin> set (held ph)" using v(5) by auto
  then have "locked pl = set (read_ids q) \<union> set (held ph)" using pl(3) v(4) q(3) by auto
  moreover have "distinct (read_ids q @ old_ids q @ held ph)"
    unfolding o distinct_append set_append q(3) using v(5) q(4) by auto
  ultimately have "out_inv lim ph (?s\<lparr>ss_pl := pl\<rparr>)"
    using v q pl o by (intro out_invI) auto
  then show ?thesis using q(1) pl(1) by auto
qed

lemma out_inv_out: "out_inv lim ph (client_write p s) = out_inv lim ph s"
  by (simp add: out_inv_def client_write_def)

lemma out_inv_replace:
  assumes inv: "out_inv lim ph s" and i: "i \<in> Elem_ID ` set (q_read (ss_queue s))"
    and q: "Queue_Replace \<lparr>At = now, Expiry = None, Elem_msg = QPubrel i\<rparr> (ss_queue s) = (q, b)"
  shows "out_inv lim ph (s\<lparr>ss_queue := q\<rparr>)"
proof -
  note v = out_invD [OF inv]
  have "i \<noteq> 0" using v(1) i by (auto simp: qinv_def list_all_iff inflight_def)
  then have "qinv q" using qinv_Replace [OF v(1) _ q] by (simp add: inflight_def)
  moreover have "read_ids q = read_ids (ss_queue s) \<and> q_unread q = q_unread (ss_queue s) \<and> inflightDrained q = inflightDrained (ss_queue s)"
    using q by (auto simp: Queue_Replace_def split: option.splits dest!: replace_id_Some)
  ultimately show ?thesis using v(8) by (intro out_inv_queue [OF inv]) (simp_all add: old_ids_def)
qed

lemma out_inv_pubrec:
  assumes "out_inv lim ph s" and "ack_PacketID a \<in> Elem_ID ` set (q_read (ss_queue s))" and "pubrecHandler now a s = Inr s'"
  shows "out_inv lim ph s'"
proof (cases "ss_version s = Version5 \<and> 0x80 \<le> ack_Code a")
  case True
  then show ?thesis using out_inv_ack [OF assms(1,2)] assms(3) by (auto simp: pubrecHandler_def)
next
  case False
  obtain q b where q: "Queue_Replace \<lparr>At = now, Expiry = None, Elem_msg = QPubrel (ack_PacketID a)\<rparr> (ss_queue s) = (q, b)"
    by fastforce
  moreover have "prel_PacketID (Pubrec_NewPubrel a) = ack_PacketID a" by (simp add: Pubrec_NewPubrel_def)
  ultimately have "s' = client_write (PPubrel (Pubrec_NewPubrel a)) (s\<lparr>ss_queue := q\<rparr>)"
    using False assms(3) by (auto simp: pubrecHandler_def Let_def)
  then show ?thesis using out_inv_replace [OF assms(1,2) q] by (simp add: out_inv_out)
qed

section \<open>Sending again\<close>

lemma ReadInflight_loop_msgs:
  "ReadInflight_loop now n q rs = (q', rs') \<Longrightarrow> map Elem_msg (q_list q') = map Elem_msg (q_list q)"
proof (induction n arbitrary: q rs)
  case 0
  then show ?case by (simp add: ReadInflight_loop.simps)
next
  case (Suc n)
  show ?case
  proof (cases "q_unread q")
    case Nil
    with Suc.prems show ?thesis by (simp add: ReadInflight_loop.simps)
  next
    case (Cons e es)
    show ?thesis
    proof (cases "Elem_ID e = 0")
      case True
      with Suc.prems Cons show ?thesis by (auto simp: ReadInflight_loop.simps)
    next
      case False
      let ?e = "e\<lparr>Expiry := (if inflightExpiry q \<noteq> 0 then Some (now (length rs) + inflightExpiry q) else Expiry e)\<rparr>"
      have "ReadInflight_loop now n (q\<lparr>q_read := q_read q @ [?e], q_unread := es\<rparr>) (rs @ [?e]) = (q', rs')"
        using Suc.prems Cons False by (simp add: ReadInflight_loop.simps [of _ "Suc n"] Let_def split del: if_split)
      from Suc.IH [OF this] Cons show ?thesis by simp
    qed
  qed
qed

lemma ReadInflight_msgs:
  "Queue_ReadInflight now m q = (q', rs) \<Longrightarrow> map Elem_msg (q_list q') = map Elem_msg (q_list q)"
  using ReadInflight_loop_msgs [of now _ q "[]" q' rs]
  by (auto simp: Queue_ReadInflight_def split: if_splits)

lemma resend_elem_simps [simp]:
  "Elem_ID (resend_elem v) = Elem_ID v" "inflight (resend_elem v) = inflight v"
  "(\<exists>m. Elem_msg (resend_elem v) = QPublish m) \<longleftrightarrow> (\<exists>m. Elem_msg v = QPublish m)"
  by (cases "Elem_msg v"; simp add: resend_elem_def inflight_def)+

lemma pollInflights_loop_ok:
  assumes "lim_inv (ss_pl s)" and "\<forall>v\<in>set elems. \<exists>m. Elem_msg v = QPublish m"
    and "distinct (map Elem_ID elems)" and "set (map Elem_ID elems) \<inter> locked (ss_pl s) = {}" and "0 \<notin> set (map Elem_ID elems)"
  shows "\<exists>pl out. pollInflights_loop elems s = Inr (s\<lparr>ss_pl := pl, ss_out := out\<rparr>) \<and> lim_inv pl
    \<and> locked pl = locked (ss_pl s) \<union> set (map Elem_ID elems) \<and> limit pl = limit (ss_pl s)"
  using assms
proof (induction elems arbitrary: s)
  case Nil
  then show ?case by (auto intro!: exI [of _ "ss_pl s"] exI [of _ "ss_out s"])
next
  case (Cons v elems)
  then obtain m where m: "Elem_msg v = QPublish m" by auto
  have "Elem_ID v \<noteq> 0" "Elem_ID v \<notin> locked (ss_pl s)" using Cons.prems(4,5) by auto
  then obtain pl1 where pl1: "markUsedLocked (ss_pl s) (Elem_ID v) = Inr pl1" "lim_inv pl1"
    "locked pl1 = insert (Elem_ID v) (locked (ss_pl s))" "limit pl1 = limit (ss_pl s)"
    using markUsedLocked_ok [OF Cons.prems(1)] by blast
  let ?s = "client_write (PPublish (MessageToPublish m (ss_version s))) (s\<lparr>ss_pl := pl1\<rparr>)"
  have "lim_inv (ss_pl ?s)" "set (map Elem_ID elems) \<inter> locked (ss_pl ?s) = {}"
    using pl1 Cons.prems(3,4) by (auto simp: client_write_def)
  from Cons.IH [OF this(1) _ _ this(2)] Cons.prems obtain pl out where
    s: "pollInflights_loop elems ?s = Inr (?s\<lparr>ss_pl := pl, ss_out := out\<rparr>)" "lim_inv pl"
    "locked pl = locked (ss_pl ?s) \<union> set (map Elem_ID elems)" "limit pl = limit (ss_pl ?s)" by auto
  have "locked pl = locked (ss_pl s) \<union> set (map Elem_ID (v # elems))"
    unfolding s(3) using pl1(3) by (auto simp: client_write_def)
  moreover have "pollInflights_loop (v # elems) s = Inr (s\<lparr>ss_pl := pl, ss_out := out\<rparr>)"
    using m pl1(1) s(1) by (simp add: client_write_def)
  ultimately show ?case using s(2,4) pl1(4) by (auto simp: client_write_def)
qed

lemma out_inv_pollInflights:
  assumes inv: "out_inv lim Draining s" and r: "pollInflights clock s = Inr (cont, s')"
  shows "out_inv lim Draining s' \<and> (\<not> cont \<longrightarrow> out_inv lim Polling s')"
proof -
  note v = out_invD [OF inv]
  obtain q rs where q: "Queue_ReadInflight clock (unat (ss_MaxInflight s)) (ss_queue s) = (q, rs)" by fastforce
  note qi = qinv_ReadInflight [OF v(1) q]
  have ids: "read_ids q @ old_ids q = read_ids (ss_queue s) @ old_ids (ss_queue s)"
    using ids_in_use qi v(1) by metis
  have pub: "\<exists>m. Elem_msg e = QPublish m" if "e \<in> set rs \<union> set (q_unread q)" "inflight e" for e
  proof -
    have "map Elem_msg (rs @ q_unread q) = map Elem_msg (q_unread (ss_queue s))"
      using ReadInflight_msgs [OF q] qi by simp
    then have "Elem_msg e \<in> Elem_msg ` set (q_unread (ss_queue s))" using that(1)
      by (metis Un_iff image_eqI list.set_map set_append)
    then obtain e' where "e' \<in> set (q_unread (ss_queue s))" "Elem_msg e' = Elem_msg e" by auto
    then show ?thesis using v(8) [of e'] that(2) by (simp add: inflight_def)
  qed
  show ?thesis
  proof (cases "rs = []")
    case True
    then have s': "s' = s\<lparr>ss_queue := q\<rparr>" "\<not> cont" using r q by (simp_all add: pollInflights_def)
    have "read_ids q = read_ids (ss_queue s)" using qi True by simp
    moreover from this have "old_ids q = old_ids (ss_queue s)" using ids by simp
    moreover have "0 < unat (ss_MaxInflight s)" using v(3) by (simp add: unat_gt_0)
    then have d: "inflightDrained q" using ReadInflight_drains q True by blast
    ultimately have "out_inv lim Draining s'" unfolding s' using qi pub by (intro out_inv_queue [OF inv]) simp_all
    then show ?thesis using d s' out_invD [of lim Draining s'] by (intro conjI impI) (simp_all add: out_inv_def)
  next
    case False
    let ?rs = "map resend_elem rs"
    let ?q = "q\<lparr>q_read := q_read (ss_queue s) @ ?rs\<rparr>"
    have rid: "map Elem_ID ?rs = map Elem_ID rs" by simp
    have e: "\<forall>v\<in>set ?rs. \<exists>m. Elem_msg v = QPublish m"
      using pub qi by (auto simp: qinv_def list_all_iff)
    have dj: "distinct (map Elem_ID ?rs)" "set (map Elem_ID ?rs) \<inter> locked (ss_pl s) = {}"
    proof -
      have d: "distinct (read_ids (ss_queue s) @ map Elem_ID rs @ old_ids q)"
        using v(5) ids qi by (metis append.right_neutral append_assoc held.simps(1) map_append)
      then show "distinct (map Elem_ID ?rs)" "set (map Elem_ID ?rs) \<inter> locked (ss_pl s) = {}"
        unfolding v(4) rid by auto
    qed
    have nz: "0 \<notin> set (map Elem_ID ?rs)" using qi by (auto simp: qinv_def list_all_iff inflight_def)
    obtain pl out where l: "pollInflights_loop ?rs (s\<lparr>ss_queue := ?q\<rparr>) = Inr (s\<lparr>ss_queue := ?q, ss_pl := pl, ss_out := out\<rparr>)"
      "lim_inv pl" "locked pl = locked (ss_pl s) \<union> set (map Elem_ID ?rs)" "limit pl = limit (ss_pl s)"
      using pollInflights_loop_ok [of "s\<lparr>ss_queue := ?q\<rparr>" ?rs] v(2) e dj nz by auto
    have s': "s' = s\<lparr>ss_queue := ?q, ss_pl := pl, ss_out := out\<rparr>" "cont"
      using r q qi False l(1) by (simp_all add: pollInflights_def Let_def)
    have i: "read_ids ?q = read_ids q" "old_ids ?q = old_ids q" using qi by (simp_all add: old_ids_def)
    have "qinv ?q" using qi by (auto simp: qinv_def list_all_iff)
    moreover have "locked pl = set (read_ids ?q)" unfolding l(3) v(4) using qi by simp
    moreover have "distinct (read_ids ?q @ old_ids ?q)" "length (read_ids ?q @ old_ids ?q) \<le> lim"
      unfolding i ids using v(5,6) by simp_all
    ultimately have "out_inv lim Draining s'"
      unfolding s' using v(3,9) pub l(2,4) by (intro out_invI) simp_all
    then show ?thesis using s' by simp
  qed
qed

section \<open>Polling, reading and giving back\<close>

lemma out_inv_poll:
  assumes inv: "out_inv lim Polling s" and r: "pollPacketIDs (ss_pl s) m = Some (Inr (pl, ids))"
  shows "out_inv lim (Holding ids) (s\<lparr>ss_pl := pl\<rparr>)"
proof -
  note v = out_invD [OF inv]
  have o: "old_ids (ss_queue s) = []" using old_ids_drained v(1,7) by simp
  show ?thesis
  proof (cases "exit (ss_pl s)")
    case True
    then have "pl = ss_pl s" "ids = []" using r pollPacketIDs_exit by fastforce+
    then show ?thesis using inv by (simp add: out_inv_def)
  next
    case False
    then have lt: "used (ss_pl s) < limit (ss_pl s)" using r pollPacketIDs_waits [OF False] by fastforce
    from pollPacketIDs_ok [OF v(2) lt False, of m] r have p: "lim_inv pl"
      "length ids = min (unat m) (unat (limit (ss_pl s)) - unat (used (ss_pl s)))" "distinct ids"
      "set ids \<inter> locked (ss_pl s) = {}" "locked pl = locked (ss_pl s) \<union> set ids" "limit pl = limit (ss_pl s)"
      by auto
    have "unat (used (ss_pl s)) = card (set (read_ids (ss_queue s)))"
      using v(2) unfolding lim_inv_def v(4) by simp
    also have "\<dots> = length (q_read (ss_queue s))" using v(5) by (subst distinct_card) simp_all
    finally have "length (q_read (ss_queue s)) + length ids \<le> lim"
      using p(2,6) v(9) lt by (simp add: word_less_nat_alt)
    moreover have "distinct (read_ids (ss_queue s) @ ids)" using v(5) p(3,4) unfolding v(4) by auto
    moreover have "locked pl = set (read_ids (ss_queue s)) \<union> set ids" unfolding p(5) v(4) by simp
    ultimately show ?thesis using v p(1,6) o by (intro out_invI) simp_all
  qed
qed

lemma send_elem_simps [simp]:
  "Elem_ID (send_elem f ver now v) = Elem_ID v" "elem_QoS (send_elem f ver now v) = elem_QoS v"
  "(\<exists>m. Elem_msg (send_elem f ver now v) = QPublish m) \<longleftrightarrow> (\<exists>m. Elem_msg v = QPublish m)"
  by (cases "Elem_msg v"; simp add: send_elem_def)+

lemma stays_send: "stays (map (send_elem f ver now) es) = map (send_elem f ver now) (stays es)"
  by (induction es) simp_all

lemma pollNewMessages_loop_ok:
  assumes "\<forall>v\<in>set elems. \<exists>m. Elem_msg v = QPublish m" and "length (stays elems) \<le> length ids"
  shows "\<exists>out. pollNewMessages_loop elems ids s = Inr (drop (length (stays elems)) ids, s\<lparr>ss_out := out\<rparr>)"
  using assms
proof (induction elems arbitrary: ids s)
  case Nil
  then show ?case by (auto intro!: exI [of _ "ss_out s"])
next
  case (Cons v elems)
  then obtain m where m: "Elem_msg v = QPublish m" by auto
  let ?ids = "if msg_QoS m \<noteq> 0 then tl ids else ids"
  let ?s = "client_write (PPublish (MessageToPublish m (ss_version s))) s"
  have "length (stays elems) \<le> length ?ids" "drop (length (stays elems)) ?ids = drop (length (stays (v # elems))) ids"
    using Cons.prems(2) m by (auto simp: drop_Suc)
  moreover from this(1) obtain out where "pollNewMessages_loop elems ?ids ?s = Inr (drop (length (stays elems)) ?ids, ?s\<lparr>ss_out := out\<rparr>)"
    using Cons.IH Cons.prems(1) by (metis list.set_intros(2))
  moreover have "\<not> (msg_QoS m \<noteq> 0 \<and> ids = [])" using Cons.prems(2) m by auto
  ultimately have "pollNewMessages_loop (v # elems) ids s = Inr (drop (length (stays (v # elems))) ids, s\<lparr>ss_out := out\<rparr>)"
    using m by (simp add: client_write_def)
  then show ?case by blast
qed

lemma read_out_publish:
  assumes "list_all is_new (q_unread q)" and "v \<in> set (read_out now n q pids)"
  shows "\<exists>m. Elem_msg v = QPublish m"
proof -
  have "\<exists>m. Elem_msg v = QPublish m" if "v \<in> set (assign_ids (to_inflight now q) es ps)" "\<forall>e\<in>set es. \<exists>m. Elem_msg e = QPublish m" for es ps
    using that
  proof (induction es arbitrary: ps)
    case (Cons e es)
    then show ?case by (auto simp: to_inflight_def split: if_splits)
  qed simp
  moreover have "\<exists>m. Elem_msg e = QPublish m" if "e \<in> set (filter (deliverable now q) (take n (q_unread q)))" for e
    using that assms(1) by (auto simp: list_all_iff dest: in_set_takeD elim: is_newE)
  ultimately show ?thesis using assms(2) unfolding read_out_def by blast
qed

lemma out_inv_read:
  assumes inv: "out_inv lim (Holding ids) s" and r: "pollNewMessages f now rnow ids s = Some (Inr (unused, s'))"
  shows "out_inv lim (Releasing unused) s' \<and> (\<exists>k. unused = drop k ids)"
proof -
  note v = out_invD [OF inv]
  let ?q = "ss_queue s"
  have d: "inflightDrained ?q" using v(7) by simp
  have nw: "list_all is_new (q_unread ?q)" using v(1) d by (simp add: qinv_def)
  have c: "q_unread ?q \<noteq> []" "\<not> closed ?q"
    using r d by (auto simp: pollNewMessages_def Queue_Read_def split: if_splits)
  define n where "n = min (length ids) (length (q_list ?q))"
  define out where "out = read_out rnow n ?q ids"
  define k where "k = length (stays out)"
  have z: "0 \<notin> set ids" using v(2,4) by (auto simp: lim_inv_def)
  have sid: "map Elem_ID (stays out) = take k ids"
    unfolding out_def k_def using read_out_ids [OF nw _ z, of n] by (simp add: n_def)
  have klen: "k \<le> length ids" using arg_cong [OF sid, of length] by (simp add: k_def)
  define q' where "q' = ?q\<lparr>q_read := q_read ?q @ stays out, q_unread := drop n (q_unread ?q)\<rparr>"
  define ns where "ns = read_drops rnow n ?q @ [NotifyMsgQueueAdded (int (length (stays out)) - int (min n (length (q_unread ?q)))),
      NotifyInflightAdded (int (length (stays out)))]"
  have rd: "Queue_Read rnow ids ?q = Some (Inr (q', out, ns))"
    using Queue_Read_spec [OF v(1) d c, of rnow ids] unfolding ns_def q'_def out_def n_def Let_def .
  have quiet: "list_all quiet ns" by (auto simp: ns_def read_drops_def list_all_iff quiet_def)
  define es where "es = map (send_elem f (ss_version s) now) out"
  define q2 where "q2 = q'\<lparr>q_read := q_read ?q @ stays es\<rparr>"
  have st: "stays es = map (send_elem f (ss_version s) now) (stays out)" unfolding es_def by (rule stays_send)
  have pubs: "\<forall>v\<in>set es. \<exists>m. Elem_msg v = QPublish m"
    unfolding es_def out_def using read_out_publish [OF nw] by auto
  obtain o' where l: "pollNewMessages_loop es ids (s\<lparr>ss_notes := ss_notes s @ ns, ss_queue := q2\<rparr>)
      = Inr (drop k ids, s\<lparr>ss_notes := ss_notes s @ ns, ss_queue := q2, ss_out := o'\<rparr>)"
    using pollNewMessages_loop_ok [OF pubs, of ids "s\<lparr>ss_notes := ss_notes s @ ns, ss_queue := q2\<rparr>"] klen st
    by (auto simp: k_def)
  have t: "take (length (q_read q') - length (stays out)) (q_read q') = q_read ?q" by (simp add: q'_def)
  have s': "unused = drop k ids" "s' = s\<lparr>ss_notes := ss_notes s @ ns, ss_queue := q2, ss_out := o'\<rparr>"
    using r l unfolding pollNewMessages_def rd by (simp_all add: notify_quiet [OF quiet] Let_def t es_def [symmetric] q2_def [symmetric])
  have ids: "read_ids q2 = read_ids ?q @ take k ids" unfolding q2_def using sid st by (simp add: comp_def)
  have qi: "qinv q'" using qinv_Read [OF v(1) rd z] .
  have "qinv q2"
  proof -
    have "list_all inflight (q_read q2)"
      using v(1) sid z unfolding q2_def st by (auto simp: qinv_def list_all_iff inflight_def dest!: arg_cong [of _ _ set] in_set_takeD)
    then show ?thesis using qi by (simp add: qinv_def q2_def)
  qed
  moreover have "inflightDrained q2" using d by (simp add: q2_def q'_def)
  moreover have "old_ids q2 = []" using old_ids_drained calculation by blast
  moreover have "old_ids ?q = []" using old_ids_drained [OF v(1) d] .
  moreover have "locked (ss_pl s) = set (read_ids q2) \<union> set (drop k ids)"
    unfolding v(4) ids using set_append [of "take k ids" "drop k ids"] by auto
  moreover have "distinct (read_ids q2 @ drop k ids)" "length (read_ids q2 @ drop k ids) \<le> lim"
    using v(5,6) calculation(4) klen unfolding ids by simp_all
  moreover have "\<exists>m. Elem_msg e = QPublish m" if "e \<in> set (q_unread q2)" for e
    using that nw by (auto simp: q2_def q'_def list_all_iff dest!: in_set_dropD elim: is_newE)
  ultimately have "out_inv lim (Releasing unused) s'" unfolding s' using v(2,3,9) by (intro out_invI) simp_all
  then show ?thesis using s' by blast
qed

lemma out_inv_release:
  assumes inv: "out_inv lim (Releasing unused) s" and r: "batchRelease (ss_pl s) unused = Inr pl"
  shows "out_inv lim Polling (s\<lparr>ss_pl := pl\<rparr>)"
proof -
  note v = out_invD [OF inv]
  have p: "lim_inv pl" "locked pl = locked (ss_pl s) - set unused" "limit pl = limit (ss_pl s)"
    using batchRelease_ok [OF v(2), of unused] r by auto
  have "locked pl = set (read_ids (ss_queue s))" unfolding p(2) v(4) using v(5) by auto
  moreover have "old_ids (ss_queue s) = []" using old_ids_drained v(1,7) by simp
  ultimately show ?thesis using v p by (intro out_invI) simp_all
qed

lemma out_step_inv:
  assumes "out_step (ph, s) (ph', s')" and "out_inv lim ph s"
  shows "out_inv lim ph' s'"
  using assms(1)
proof cases
  case (add elem now)
  then show ?thesis using out_inv_add assms(2) by blast
next
  case (inflights clock)
  then show ?thesis using out_inv_pollInflights assms(2) by blast
next
  case (drained clock)
  then show ?thesis using out_inv_pollInflights assms(2) by blast
next
  case (poll pl ids)
  then show ?thesis using out_inv_poll assms(2) by blast
next
  case (read toUint32 now rnow ids unused)
  then show ?thesis using out_inv_read assms(2) by blast
next
  case (release unused pl)
  then show ?thesis using out_inv_release assms(2) by blast
next
  case (puback a)
  then show ?thesis using out_inv_ack [OF assms(2)] unfolding pubackHandler_def by fastforce
next
  case (pubrec a now)
  then show ?thesis using out_inv_pubrec assms(2) by blast
next
  case (pubcomp a)
  then show ?thesis using out_inv_ack [OF assms(2)] unfolding pubcompHandler_def by fastforce
qed

section \<open>What holds in every reachable state\<close>

text \<open>A connection starts with a new limiter for the client's receive maximum and the stored queue.\<close>

definition session_start :: "byte \<Rightarrow> uint16 \<Rightarrow> Queue \<Rightarrow> session" where
  "session_start version maxInflight q =
     \<lparr>ss_version = version, ss_MaxInflight = maxInflight, ss_connected = True, ss_queue = q,
      ss_pl = newPacketIDLimiter maxInflight, ss_out = [], ss_notes = []\<rparr>"

text \<open>
  A stored queue from which nothing has been read on this connection, and whose messages in flight are publishes with different identifiers.
\<close>

definition stored_ok :: "Queue \<Rightarrow> bool" where
  "stored_ok q \<longleftrightarrow> qinv q \<and> q_read q = [] \<and> distinct (old_ids q)
     \<and> (\<forall>e\<in>set (q_unread q). inflight e \<longrightarrow> (\<exists>m. Elem_msg e = QPublish m))"

lemma out_inv_start:
  assumes "stored_ok q" and "m \<noteq> 0"
  shows "out_inv (max (unat m) (length (old_ids q))) Draining (session_start version m q)"
proof -
  have "locked (newPacketIDLimiter m) = {}"
    using bm_mem_New [of MaxPacketID] by (simp add: newPacketIDLimiter_def)
  moreover have "limit (newPacketIDLimiter m) = m" by (simp add: newPacketIDLimiter_def)
  ultimately show ?thesis
    using assms lim_inv_new [of m] by (intro out_invI) (simp_all add: session_start_def stored_ok_def)
qed

lemma out_reach_inv:
  assumes "out_step\<^sup>*\<^sup>* (Draining, session_start version m q) (ph, s)" and "stored_ok q" and "m \<noteq> 0"
  shows "out_inv (max (unat m) (length (old_ids q))) ph s"
proof -
  have "out_inv (max (unat m) (length (old_ids q))) (fst st) (snd st)" if "out_step\<^sup>*\<^sup>* (Draining, session_start version m q) st" for st
    using that
  proof (induction rule: rtranclp_induct)
    case base
    then show ?case using out_inv_start [OF assms(2,3)] by simp
  next
    case (step x y)
    then show ?case using out_step_inv [of "fst x" "snd x" "fst y" "snd y"] by simp
  qed
  from this [OF assms(1)] show ?thesis by simp
qed

text \<open>
  C7. Packet identifiers and flow control on the sending side.  Whatever the interleaving of deliveries,
  polling and acknowledgements of messages in flight, on a connection whose receive maximum is not 0, starting from a
  stored queue whose messages in flight, however many, are publishes with different identifiers: at every moment the messages
  sent and not yet acknowledged have pairwise different identifiers, none of them is 0, and there are at most as many as the
  client's receive maximum, or, where the session was resumed with more messages in flight than that, as were in flight then.
\<close>

theorem inflight_ids_distinct:
  assumes "out_step\<^sup>*\<^sup>* (Draining, session_start version m q) (ph, s)" and "stored_ok q" and "m \<noteq> 0"
  shows "distinct (read_ids (ss_queue s)) \<and> 0 \<notin> set (read_ids (ss_queue s)) \<and>
    length (q_read (ss_queue s)) \<le> max (unat m) (length (old_ids q)) \<and>
    (length (old_ids q) \<le> unat m \<longrightarrow> length (q_read (ss_queue s)) \<le> unat m)"
proof -
  note v = out_invD [OF out_reach_inv [OF assms]]
  have "0 \<notin> set (read_ids (ss_queue s))" using v(2) unfolding lim_inv_def v(4) by auto
  moreover have "length (q_read (ss_queue s)) \<le> max (unat m) (length (old_ids q))" using v(6) by simp
  ultimately show ?thesis using v(5) by (auto simp: max_def split: if_splits)
qed

definition sample_elem :: Elem where
  "sample_elem = \<lparr>At = 0, Expiry = None, Elem_msg = QPublish (msg_example\<lparr>msg_QoS := 1\<rparr>)\<rparr>"

abbreviation sample_queue :: Queue where
  "sample_queue \<equiv> Queue_New \<lparr>MaxQueuedMsg = 5, InflightExpiry = 0\<rparr>"

definition stored_elem :: "uint16 \<Rightarrow> Elem" where
  "stored_elem i = \<lparr>At = 0, Expiry = None, Elem_msg = QPublish (msg_example\<lparr>msg_QoS := 1, msg_PacketID := i\<rparr>)\<rparr>"

text \<open>
  A session with two messages in flight is resumed on a connection whose receive maximum is 1: both are sent again before any is
  acknowledged.
\<close>

lemma resumed_twice:
  "\<exists>s. out_step\<^sup>*\<^sup>* (Draining, session_start 5 1 (sample_queue\<lparr>q_unread := [stored_elem 3, stored_elem 4]\<rparr>)) (Draining, s) \<and>
    q_read (ss_queue s) = map resend_elem [stored_elem 3, stored_elem 4]"
proof -
  let ?q = "sample_queue\<lparr>q_unread := [stored_elem 3, stored_elem 4]\<rparr>"
  let ?s = "session_start 5 1 ?q"
  have read: "Queue_ReadInflight clock 1 (?q\<lparr>q_read := r, q_unread := e # es\<rparr>) = (?q\<lparr>q_read := r @ [e], q_unread := es\<rparr>, [e])"
    if "Elem_ID e \<noteq> 0" for r e es clock
    using that by (simp add: Queue_ReadInflight_def ReadInflight_loop.simps Queue_New_def Let_def)
  have step: "\<exists>pl' out'. out_step (Draining, ?s\<lparr>ss_queue := ?q\<lparr>q_read := r, q_unread := e # es\<rparr>, ss_pl := pl, ss_out := out\<rparr>)
      (Draining, ?s\<lparr>ss_queue := ?q\<lparr>q_read := r @ [resend_elem e], q_unread := es\<rparr>, ss_pl := pl', ss_out := out'\<rparr>) \<and> lim_inv pl' \<and>
      locked pl' = insert (Elem_ID e) (locked pl)"
    if e: "Elem_ID e \<noteq> 0" "Elem_msg e = QPublish m" and pl: "lim_inv pl" "Elem_ID e \<notin> locked pl" for r e es pl out m
  proof -
    let ?t = "?s\<lparr>ss_queue := ?q\<lparr>q_read := r @ [resend_elem e], q_unread := es\<rparr>, ss_pl := pl, ss_out := out\<rparr>"
    obtain pl' out' where "pollInflights_loop [resend_elem e] ?t = Inr (?t\<lparr>ss_pl := pl', ss_out := out'\<rparr>)" "lim_inv pl'" "locked pl' = insert (Elem_ID e) (locked pl)"
      using pollInflights_loop_ok [of ?t "[resend_elem e]"] e pl by (auto simp del: pollInflights_loop.simps)
    then show ?thesis
      using read [OF e(1), of "\<lambda>_. 0" es r]
      by (intro exI [of _ pl'] exI [of _ out'] conjI out_step.inflights [of "\<lambda>_. 0"])
        (simp_all add: pollInflights_def session_start_def Queue_New_def Let_def del: pollInflights_loop.simps)
  qed
  have ids: "Elem_ID (stored_elem i) = i" "\<exists>m. Elem_msg (stored_elem i) = QPublish m" for i by (simp_all add: stored_elem_def)
  have new: "lim_inv (newPacketIDLimiter 1)" "locked (newPacketIDLimiter 1) = {}"
    using lim_inv_new bm_mem_New [of MaxPacketID] by (simp_all add: newPacketIDLimiter_def)
  obtain m3 m4 where m: "Elem_msg (stored_elem 3) = QPublish m3" "Elem_msg (stored_elem 4) = QPublish m4" using ids(2) by blast
  obtain pl1 out1 where 1: "out_step (Draining, ?s\<lparr>ss_queue := ?q\<lparr>q_read := [], q_unread := [stored_elem 3, stored_elem 4]\<rparr>, ss_pl := newPacketIDLimiter 1, ss_out := []\<rparr>)
      (Draining, ?s\<lparr>ss_queue := ?q\<lparr>q_read := [] @ [resend_elem (stored_elem 3)], q_unread := [stored_elem 4]\<rparr>, ss_pl := pl1, ss_out := out1\<rparr>)"
      "lim_inv pl1" "locked pl1 = {3}"
    using step [OF _ m(1) new(1), where r = "[]" and es = "[stored_elem 4]" and out = "[]"] ids(1) new(2) by auto
  obtain pl2 out2 where 2: "out_step (Draining, ?s\<lparr>ss_queue := ?q\<lparr>q_read := [] @ [resend_elem (stored_elem 3)], q_unread := [stored_elem 4]\<rparr>, ss_pl := pl1, ss_out := out1\<rparr>)
      (Draining, ?s\<lparr>ss_queue := ?q\<lparr>q_read := ([] @ [resend_elem (stored_elem 3)]) @ [resend_elem (stored_elem 4)], q_unread := []\<rparr>, ss_pl := pl2, ss_out := out2\<rparr>)"
    using step [OF _ m(2) 1(2), where r = "[] @ [resend_elem (stored_elem 3)]" and es = "[]" and out = out1] ids(1) 1(3) by auto
  have "?s\<lparr>ss_queue := ?q\<lparr>q_read := [], q_unread := [stored_elem 3, stored_elem 4]\<rparr>, ss_pl := newPacketIDLimiter 1, ss_out := []\<rparr> = ?s"
    by (simp add: session_start_def Queue_New_def)
  moreover define s1 s2 where
    "s1 = ?s\<lparr>ss_queue := ?q\<lparr>q_read := [] @ [resend_elem (stored_elem 3)], q_unread := [stored_elem 4]\<rparr>, ss_pl := pl1, ss_out := out1\<rparr>"
    and "s2 = ?s\<lparr>ss_queue := ?q\<lparr>q_read := ([] @ [resend_elem (stored_elem 3)]) @ [resend_elem (stored_elem 4)], q_unread := []\<rparr>, ss_pl := pl2, ss_out := out2\<rparr>"
  ultimately have "out_step (Draining, ?s) (Draining, s1)" "out_step (Draining, s1) (Draining, s2)" using 1(1) 2 by (simp_all only:)
  then have "out_step\<^sup>*\<^sup>* (Draining, ?s) (Draining, s2)"
    by (meson r_into_rtranclp rtranclp.rtrancl_into_rtrancl)
  moreover have "q_read (ss_queue s2) = map resend_elem [stored_elem 3, stored_elem 4]" by (simp add: s2_def)
  ultimately show ?thesis by blast
qed

theorem inflight_ids_distinct_witness:
  "\<exists>s. out_step\<^sup>*\<^sup>* (Draining, session_start 5 1 (sample_queue\<lparr>q_unread := [stored_elem 3, stored_elem 4]\<rparr>)) (Draining, s) \<and>
    length (q_read (ss_queue s)) = 2 \<and> distinct (read_ids (ss_queue s)) \<and> 0 \<notin> set (read_ids (ss_queue s))"
proof -
  have "stored_ok (sample_queue\<lparr>q_unread := [stored_elem 3, stored_elem 4]\<rparr>)"
    by (simp add: stored_ok_def Queue_New_def qinv_def old_ids_def inflight_def stored_elem_def)
  then show ?thesis using inflight_ids_distinct resumed_twice by fastforce
qed

section \<open>A resumed session with a pending PUBREL\<close>

text \<open>
  \<^verbatim>\<open>pollInflights\<close> marks the identifiers of the publishes it sends again, but not those of the \<^verbatim>\<open>PUBREL\<close>
  packets, so the limiter hands such an identifier out once more.
\<close>

definition pubrel_queue :: Queue where
  "pubrel_queue = sample_queue\<lparr>q_version := 4, readBytesLimit := 1000,
     q_unread := [\<lparr>At = 0, Expiry = None, Elem_msg = QPubrel 1\<rparr>, sample_elem]\<rparr>"

lemma poll_first: "\<exists>pl. pollPacketIDs (newPacketIDLimiter 1) 1 = Some (Inr (pl, [1]))"
proof -
  let ?p = "newPacketIDLimiter 1"
  have full: "bm_full (lockedPid ?p)" using lim_inv_new [of 1] by (simp add: lim_inv_def)
  have "\<not> bm_mem (lockedPid ?p) 1" using bm_mem_New [of MaxPacketID] by (simp add: newPacketIDLimiter_def)
  then have g: "search_free (lockedPid ?p) (freePid ?p) = Some (Inr 1)"
    using full by (subst search_free.simps) (simp add: Bitmap_id_set.get_mem newPacketIDLimiter_def)
  obtain b where "Bitmap_Set (lockedPid ?p) 1 1 = Inr (b, True)"
    using Bitmap_id_set.set_ids [of "lockedPid ?p" 1 1] full by blast
  then show ?thesis using g by (simp add: pollPacketIDs_def newPacketIDLimiter_def)
qed

definition pubrel_elem :: Elem where
  "pubrel_elem = \<lparr>At = 0, Expiry = None, Elem_msg = QPubrel 1\<rparr>"

definition sample_elem_1 :: Elem where
  "sample_elem_1 = sample_elem\<lparr>Elem_msg := QPublish (msg_example\<lparr>msg_QoS := 1, msg_PacketID := 1\<rparr>)\<rparr>"

lemma pubrel_queue_inflight:
  "Queue_ReadInflight (\<lambda>_. 0) (Suc 0) pubrel_queue =
     (pubrel_queue\<lparr>q_read := [pubrel_elem], q_unread := [sample_elem]\<rparr>, [pubrel_elem])"
  by code_simp

lemma pubrel_queue_drained:
  "Queue_ReadInflight (\<lambda>_. 0) (Suc 0) (pubrel_queue\<lparr>q_read := [pubrel_elem], q_unread := [sample_elem]\<rparr>) =
     (pubrel_queue\<lparr>q_read := [pubrel_elem], q_unread := [sample_elem], inflightDrained := True\<rparr>, [])"
  by code_simp

lemma pubrel_queue_read:
  "Queue_Read 0 [1] (pubrel_queue\<lparr>q_read := [pubrel_elem], q_unread := [sample_elem], inflightDrained := True\<rparr>) =
     Some (Inr (pubrel_queue\<lparr>q_read := [pubrel_elem, sample_elem_1], q_unread := [], inflightDrained := True\<rparr>,
       [sample_elem_1], [NotifyMsgQueueAdded 0, NotifyInflightAdded 1]))"
  by code_simp

text \<open>
  After a reconnection the broker may give a new message the identifier of a QoS 2 exchange that is still
  waiting for its \<^verbatim>\<open>PUBCOMP\<close>: from a stored queue with such an exchange and one new message, the
  steps of \<^verbatim>\<open>pollMessageHandler\<close> lead to two elements in flight with the identifier 1.
\<close>


lemma resumed_pubrel_clash:
  "\<exists>s ph. out_step\<^sup>*\<^sup>* (Draining, session_start 4 1 pubrel_queue) (ph, s) \<and> read_ids (ss_queue s) = [1, 1]"
proof -
  let ?s = "session_start 4 1 pubrel_queue"
  let ?q = "pubrel_queue\<lparr>q_read := [pubrel_elem], q_unread := [sample_elem]\<rparr>"
  let ?q' = "pubrel_queue\<lparr>q_read := [pubrel_elem, sample_elem_1], q_unread := [], inflightDrained := True\<rparr>"
  let ?p = "[PPubrel \<lparr>prel_FixHeader = None, prel_PacketID = 1, prel_Code = 0, prel_Properties = None\<rparr>]"
  obtain pl where pl: "pollPacketIDs (newPacketIDLimiter 1) 1 = Some (Inr (pl, [1]))" using poll_first by blast
  have m [simp]: "Elem_msg pubrel_elem = QPubrel 1" "resend_elem pubrel_elem = pubrel_elem"
    by (simp_all add: pubrel_elem_def resend_elem_def)
  have m1 [simp]: "Elem_msg sample_elem_1 = QPublish (msg_example\<lparr>msg_QoS := 1, msg_PacketID := 1\<rparr>)"
    "send_elem f 4 now sample_elem_1 = sample_elem_1" for f now
    by (simp_all add: sample_elem_1_def send_elem_def)
  have "out_step (Draining, ?s) (Draining, ?s\<lparr>ss_queue := ?q, ss_out := ?p\<rparr>)"
    by (rule out_step.inflights [where clock = "\<lambda>_. 0"])
      (simp add: pollInflights_def session_start_def pubrel_queue_inflight client_write_def)
  moreover have "out_step (Draining, ?s\<lparr>ss_queue := ?q, ss_out := ?p\<rparr>)
      (Polling, ?s\<lparr>ss_queue := ?q\<lparr>inflightDrained := True\<rparr>, ss_out := ?p\<rparr>)"
    by (rule out_step.drained [where clock = "\<lambda>_. 0"])
      (simp add: pollInflights_def session_start_def pubrel_queue_drained)
  moreover have "out_step (Polling, ?s\<lparr>ss_queue := ?q\<lparr>inflightDrained := True\<rparr>, ss_out := ?p\<rparr>)
      (Holding [1], ?s\<lparr>ss_queue := ?q\<lparr>inflightDrained := True\<rparr>, ss_out := ?p, ss_pl := pl\<rparr>)"
    using out_step.poll [of "?s\<lparr>ss_queue := ?q\<lparr>inflightDrained := True\<rparr>, ss_out := ?p\<rparr>" pl "[1]"] pl
    by (simp add: session_start_def poll_max_def)
  moreover have "\<exists>s'. pollNewMessages (\<lambda>_. 0) 0 0 [1]
      (?s\<lparr>ss_queue := ?q\<lparr>inflightDrained := True\<rparr>, ss_out := ?p, ss_pl := pl\<rparr>) = Some (Inr ([], s')) \<and> ss_queue s' = ?q'"
    by (simp add: pollNewMessages_def session_start_def pubrel_queue_read client_write_def Let_def)
  ultimately obtain s' where "out_step\<^sup>*\<^sup>* (Draining, ?s) (Releasing [], s')" and "ss_queue s' = ?q'"
    by (meson out_step.read converse_rtranclp_into_rtranclp rtranclp.rtrancl_refl)
  moreover have "read_ids ?q' = [1, 1]"
    by (simp add: pubrel_elem_def sample_elem_1_def)
  ultimately show ?thesis by auto
qed

section \<open>The lifetime a version 5 client is told\<close>

lemma send_elem_told:
  assumes "Elem_msg v = QPublish m" and "msg_MessageExpiry m \<noteq> 0" and "At v \<le> now"
    and "\<And>n. 0 \<le> n \<Longrightarrow> n < 2 ^ 32 \<Longrightarrow> toUint32 n = word_of_int n" and "(now - At v) div 1000000000 < 2 ^ 32"
  shows "Elem_msg (send_elem toUint32 Version5 now v) =
    QPublish (m\<lparr>msg_MessageExpiry := word_of_int ((now - At v) div 1000000000)\<rparr>)"
  using assms by (cases "now = At v") (simp_all add: send_elem_def pos_imp_zdiv_nonneg_iff)

end
