(* ===== verification/Sub_Trie.thy ===== *)
theory Sub_Trie
  imports Packets Topics "HOL-Library.Multiset"
begin

text \<open>
  \<^verbatim>\<open>gmqtt/subscription.go\<close>, \<^verbatim>\<open>gmqtt/persistence/subscription/subscription.go\<close> and the trie of
  \<^verbatim>\<open>persistence/subscription/mem/topic_trie.go\<close>.

  The store keeps pointers to trie nodes in its indexes, and a node may be cut off from the trie
  while an index still points to it.  The nodes therefore live in an explicit heap: a reference is
  a position in a list of cells, a new node is appended, and an update through a pointer is an
  update of its cell.  Nothing is ever freed.
\<close>

unbundle bit_operations_syntax

section \<open>Subscriptions\<close>

record Subscription =
  sb_ShareName :: bytes
  sb_TopicFilter :: bytes
  sb_ID :: uint32
  sb_QoS :: byte
  sb_NoLocal :: bool
  sb_RetainAsPublished :: bool
  sb_RetainHandling :: byte

definition Subscription_GetFullTopicName :: "Subscription \<Rightarrow> bytes" where
  "Subscription_GetFullTopicName s =
     (if sb_ShareName s \<noteq> [] then share_prefix @ sb_ShareName s @ [slash] @ sb_TopicFilter s
      else sb_TopicFilter s)"

definition Subscription_Copy :: "Subscription \<Rightarrow> Subscription" where
  "Subscription_Copy s =
     \<lparr>sb_ShareName = sb_ShareName s, sb_TopicFilter = sb_TopicFilter s, sb_ID = sb_ID s, sb_QoS = sb_QoS s,
      sb_NoLocal = sb_NoLocal s, sb_RetainAsPublished = sb_RetainAsPublished s,
      sb_RetainHandling = sb_RetainHandling s\<rparr>"

definition Subscription_Validate :: "Subscription \<Rightarrow> unit res" where
  "Subscription_Validate s =
     (if \<not> ValidV5Topic (Subscription_GetFullTopicName s) then Inl (ErrText ''invalid topic name'')
      else if 2 < sb_QoS s then Inl (ErrText ''invalid qos'')
      else if sb_RetainHandling s \<noteq> 0 \<and> sb_RetainHandling s \<noteq> 1 \<and> sb_RetainHandling s \<noteq> 2
        then Inl (ErrText ''invalid retain handling'')
      else Inr ())"

definition FromTopic :: "Topic \<Rightarrow> uint32 \<Rightarrow> Subscription" where
  "FromTopic topic idv =
     (let (shareName, topicFilter) = SplitTopic (Name topic) in
      \<lparr>sb_ShareName = shareName, sb_TopicFilter = topicFilter, sb_ID = idv, sb_QoS = so_Qos topic,
       sb_NoLocal = NoLocal topic, sb_RetainAsPublished = RetainAsPublished topic,
       sb_RetainHandling = RetainHandling topic\<rparr>)"

section \<open>Nodes and the heap\<close>

type_synonym ref = nat
type_synonym clientOpts = "(bytes \<times> Subscription) list"

record subNode =
  sn_children :: "(bytes \<times> ref) list"
  sn_clients :: clientOpts
  sn_parent :: "ref option"
  sn_topicName :: bytes
  sn_shared :: "(bytes \<times> clientOpts) list"

type_synonym heap = "subNode list"

definition newNode :: subNode where
  "newNode = \<lparr>sn_children = [], sn_clients = [], sn_parent = None, sn_topicName = [], sn_shared = []\<rparr>"

definition newChild :: "ref \<Rightarrow> subNode" where
  "newChild t = newNode\<lparr>sn_parent := Some t\<rparr>"

text \<open>The walk of \<^verbatim>\<open>subscribe\<close>, which makes the nodes that are missing.\<close>

fun subscribe_walk :: "bytes list \<Rightarrow> ref \<Rightarrow> heap \<Rightarrow> ref \<times> heap" where
  "subscribe_walk [] pNode h = (pNode, h)"
| "subscribe_walk (lv # lvs) pNode h =
     (case map_of (sn_children (h ! pNode)) lv of
        Some c \<Rightarrow> subscribe_walk lvs c h
      | None \<Rightarrow>
          let c = length h;
              h' = h[pNode := (h ! pNode)\<lparr>sn_children := al_put lv c (sn_children (h ! pNode))\<rparr>]
                   @ [newChild pNode] in
          subscribe_walk lvs c h')"

definition subscribe_node :: "bytes \<Rightarrow> Subscription \<Rightarrow> subNode \<Rightarrow> subNode" where
  "subscribe_node clientID s n =
     (if sb_ShareName s \<noteq> [] then
        n\<lparr>sn_shared := al_put (sb_ShareName s)
             (al_put clientID s (case map_of (sn_shared n) (sb_ShareName s) of None \<Rightarrow> [] | Some c \<Rightarrow> c))
             (sn_shared n)\<rparr>
      else n\<lparr>sn_clients := al_put clientID s (sn_clients n)\<rparr>)\<lparr>sn_topicName := sb_TopicFilter s\<rparr>"

definition trie_subscribe :: "ref \<Rightarrow> bytes \<Rightarrow> Subscription \<Rightarrow> heap \<Rightarrow> ref \<times> heap" where
  "trie_subscribe t clientID s h =
     (let (pNode, h') = subscribe_walk (split_levels (sb_TopicFilter s)) t h in
      (pNode, h'[pNode := subscribe_node clientID s (h' ! pNode)]))"

fun trie_walk :: "heap \<Rightarrow> ref \<Rightarrow> bytes list \<Rightarrow> ref option" where
  "trie_walk h pNode [] = Some pNode"
| "trie_walk h pNode (lv # lvs) =
     (case map_of (sn_children (h ! pNode)) lv of Some c \<Rightarrow> trie_walk h c lvs | None \<Rightarrow> None)"

definition trie_find :: "heap \<Rightarrow> ref \<Rightarrow> bytes \<Rightarrow> ref option" where
  "trie_find h t topicFilter =
     (case trie_walk h t (split_levels topicFilter) of
        None \<Rightarrow> None
      | Some pNode \<Rightarrow> if sn_topicName (h ! pNode) = topicFilter then Some pNode else None)"

text \<open>Cutting a node off from its parent; the root has no parent to dereference.\<close>

definition cut_off :: "ref \<Rightarrow> bytes \<Rightarrow> heap \<Rightarrow> heap res" where
  "cut_off r lv h =
     (case sn_parent (h ! r) of
        None \<Rightarrow> Inl Panic
      | Some p \<Rightarrow> Inr (h[p := (h ! p)\<lparr>sn_children := al_del lv (sn_children (h ! p))\<rparr>]))"

definition trie_unsubscribe :: "ref \<Rightarrow> bytes \<Rightarrow> bytes \<Rightarrow> bytes \<Rightarrow> heap \<Rightarrow> heap res" where
  "trie_unsubscribe t clientID topicName shareName h =
     (let topicSlice = split_levels topicName in
      case trie_walk h t topicSlice of
        None \<Rightarrow> Inr h
      | Some pNode \<Rightarrow>
          if shareName \<noteq> [] then
            (case map_of (sn_shared (h ! pNode)) shareName of
               None \<Rightarrow> Inr h
             | Some c \<Rightarrow>
                 let c' = al_del clientID c;
                     shared = (if length c' = 0 then al_del shareName (sn_shared (h ! pNode))
                               else al_put shareName c' (sn_shared (h ! pNode)));
                     h' = h[pNode := (h ! pNode)\<lparr>sn_shared := shared\<rparr>] in
                 if length (sn_shared (h' ! pNode)) = 0 \<and> length (sn_children (h' ! pNode)) = 0
                 then cut_off pNode (last topicSlice) h' else Inr h')
          else
            let h' = h[pNode := (h ! pNode)\<lparr>sn_clients := al_del clientID (sn_clients (h ! pNode))\<rparr>] in
            if length (sn_clients (h' ! pNode)) = 0 \<and> length (sn_children (h' ! pNode)) = 0
            then cut_off pNode (last topicSlice) h' else Inr h')"

section \<open>Matching\<close>

type_synonym ClientSubscriptions = "(bytes \<times> Subscription list) list"

definition rs_append :: "bytes \<times> Subscription \<Rightarrow> ClientSubscriptions \<Rightarrow> ClientSubscriptions" where
  "rs_append e rs =
     (case e of (cid, subOpts) \<Rightarrow>
        al_put cid ((case map_of rs cid of None \<Rightarrow> [] | Some l \<Rightarrow> l) @ [subOpts]) rs)"

text \<open>All the subscriptions at a node, in the order in which \<^verbatim>\<open>setRs\<close> and the traversal range over them.\<close>

definition node_subs :: "subNode \<Rightarrow> (bytes \<times> Subscription) list" where
  "node_subs n = sn_clients n @ concat (map snd (sn_shared n))"

definition setRs :: "subNode \<Rightarrow> ClientSubscriptions \<Rightarrow> ClientSubscriptions" where
  "setRs node rs = fold rs_append (node_subs node) rs"

definition setRs_opt :: "heap \<Rightarrow> ref option \<Rightarrow> ClientSubscriptions \<Rightarrow> ClientSubscriptions" where
  "setRs_opt h n rs = (case n of None \<Rightarrow> rs | Some r \<Rightarrow> setRs (h ! r) rs)"

abbreviation child :: "heap \<Rightarrow> ref \<Rightarrow> bytes \<Rightarrow> ref option" where
  "child h t lv \<equiv> map_of (sn_children (h ! t)) lv"

text \<open>An empty slice would be an index out of range; no caller passes one.\<close>

fun sub_matchTopic :: "heap \<Rightarrow> bytes list \<Rightarrow> ref \<Rightarrow> ClientSubscriptions \<Rightarrow> ClientSubscriptions res" where
  "sub_matchTopic h [] t rs = Inl Panic"
| "sub_matchTopic h (lv # lvs) t rs =
     (let endFlag = (lvs = []);
          rs1 = setRs_opt h (child h t [hash_sign]) rs;
          visit = (\<lambda>cn rs. case cn of None \<Rightarrow> Inr rs
             | Some cnode \<Rightarrow>
                 if endFlag then Inr (setRs_opt h (child h cnode [hash_sign]) (setRs (h ! cnode) rs))
                 else sub_matchTopic h lvs cnode rs) in
      rbind (visit (child h t [plus_sign]) rs1) (visit (child h t lv)))"

definition trie_getMatchedTopicFilter :: "heap \<Rightarrow> ref \<Rightarrow> bytes \<Rightarrow> ClientSubscriptions res" where
  "trie_getMatchedTopicFilter h t topicName = sub_matchTopic h (split_levels topicName) t []"

section \<open>Traversal\<close>

type_synonym 's SubIterateFn = "bytes \<times> Subscription \<Rightarrow> 's \<Rightarrow> 's \<times> bool"

text \<open>The loop \<^verbatim>\<open>for ... { if !fn(...) { return false } }\<close>.\<close>

fun iter_subs :: "'s SubIterateFn \<Rightarrow> (bytes \<times> Subscription) list \<Rightarrow> 's \<Rightarrow> 's \<times> bool" where
  "iter_subs fn [] s = (s, True)"
| "iter_subs fn (e # es) s = (case fn e s of (s', b) \<Rightarrow> if \<not> b then (s', False) else iter_subs fn es s')"

text \<open>The recursion follows pointers, so the model counts its depth; \<open>None\<close> means the count was too small.\<close>

fun sub_preOrderTraverse :: "nat \<Rightarrow> 's SubIterateFn \<Rightarrow> heap \<Rightarrow> ref \<Rightarrow> 's \<Rightarrow> ('s \<times> bool) option"
  and sub_traverse_children :: "nat \<Rightarrow> 's SubIterateFn \<Rightarrow> heap \<Rightarrow> ref list \<Rightarrow> 's \<Rightarrow> ('s \<times> bool) option" where
  "sub_preOrderTraverse 0 fn h t s = None"
| "sub_preOrderTraverse (Suc fuel) fn h t s =
     (case (if sn_topicName (h ! t) \<noteq> [] then iter_subs fn (node_subs (h ! t)) s else (s, True)) of (s', b) \<Rightarrow>
        if \<not> b then Some (s', False)
        else sub_traverse_children fuel fn h (map snd (sn_children (h ! t))) s')"
| "sub_traverse_children fuel fn h [] s = Some (s, True)"
| "sub_traverse_children fuel fn h (c # cs) s =
     (case sub_preOrderTraverse fuel fn h c s of
        None \<Rightarrow> None
      | Some (s', b) \<Rightarrow> if \<not> b then Some (s', False) else sub_traverse_children fuel fn h cs s')"

section \<open>The shape of the heap\<close>

text \<open>
  A child is younger than its parent, knows its parent and is its child under one name only; the
  parent of a cell is a cell even when the cell has been cut off.
\<close>

definition cell_ok :: "heap \<Rightarrow> ref \<Rightarrow> bool" where
  "cell_ok h r \<longleftrightarrow>
     distinct (al_keys (sn_children (h ! r))) \<and> distinct (map snd (sn_children (h ! r)))
     \<and> (\<forall>lv c. (lv, c) \<in> set (sn_children (h ! r)) \<longrightarrow> r < c \<and> c < length h \<and> sn_parent (h ! c) = Some r)
     \<and> (\<forall>p. sn_parent (h ! r) = Some p \<longrightarrow> p < r)
     \<and> distinct (al_keys (sn_clients (h ! r))) \<and> distinct (al_keys (sn_shared (h ! r)))
     \<and> (\<forall>nm c. (nm, c) \<in> set (sn_shared (h ! r)) \<longrightarrow> distinct (al_keys c))"

definition heap_wf :: "heap \<Rightarrow> bool" where
  "heap_wf h \<longleftrightarrow> (\<forall>r<length h. cell_ok h r)"

lemma heap_wfD: "heap_wf h \<Longrightarrow> r < length h \<Longrightarrow> cell_ok h r"
  by (simp add: heap_wf_def)

lemma child_ok:
  assumes "heap_wf h" and "r < length h" and "child h r lv = Some c"
  shows "r < c \<and> c < length h \<and> sn_parent (h ! c) = Some r"
  using heap_wfD [OF assms(1,2)] map_of_SomeD [OF assms(3)] unfolding cell_ok_def by blast

lemma child_inj:
  assumes "heap_wf h" and "r < length h" and "child h r lv = Some c" and "child h r lv' = Some c"
  shows "lv = lv'"
proof -
  have "distinct (map snd (sn_children (h ! r)))"
    using heap_wfD [OF assms(1,2)] unfolding cell_ok_def by blast
  with assms(3,4)[THEN map_of_SomeD] show ?thesis
    by (metis distinct_map inj_onD prod.inject snd_conv)
qed

lemma trie_walk_append:
  "trie_walk h r (p @ q) = (case trie_walk h r p of None \<Rightarrow> None | Some x \<Rightarrow> trie_walk h x q)"
  by (induction p arbitrary: r) (auto split: option.split)

lemma trie_walk_less:
  assumes "heap_wf h" and "r < length h" and "trie_walk h r p = Some x"
  shows "x < length h \<and> r \<le> x \<and> (p \<noteq> [] \<longrightarrow> r < x)"
  using assms
proof (induction p arbitrary: r)
  case (Cons lv p)
  then obtain c where c: "child h r lv = Some c" "trie_walk h c p = Some x" by (auto split: option.splits)
  with child_ok [OF Cons.prems(1,2) c(1)] Cons.IH [of c] Cons.prems show ?case by auto
qed simp

text \<open>A node is reached from one root only, along one path only.\<close>

lemma trie_walk_inj:
  assumes "heap_wf h" and "r < length h" "sn_parent (h ! r) = None" and "r' < length h" "sn_parent (h ! r') = None"
    and "trie_walk h r p = Some x" and "trie_walk h r' q = Some x"
  shows "r = r' \<and> p = q"
  using assms(6,7)
proof (induction p arbitrary: q x rule: rev_induct)
  case Nil
  then have x: "x = r" by simp
  show ?case
  proof (cases q rule: rev_cases)
    case Nil
    with x \<open>trie_walk h r' q = Some x\<close> show ?thesis by simp
  next
    case (snoc q' lv)
    with \<open>trie_walk h r' q = Some x\<close> obtain y where "trie_walk h r' q' = Some y" "child h y lv = Some x"
      by (auto simp: trie_walk_append split: option.splits)
    then have "sn_parent (h ! x) = Some y"
      using child_ok [OF assms(1)] trie_walk_less [OF assms(1,4)] by blast
    with x assms(3) show ?thesis by simp
  qed
next
  case (snoc lv p)
  then obtain y where y: "trie_walk h r p = Some y" "child h y lv = Some x"
    by (auto simp: trie_walk_append split: option.splits)
  have yl: "y < length h" using trie_walk_less [OF assms(1,2) y(1)] by simp
  have px: "sn_parent (h ! x) = Some y" using child_ok [OF assms(1) yl y(2)] by simp
  show ?case
  proof (cases q rule: rev_cases)
    case Nil
    with snoc.prems px assms(5) show ?thesis by simp
  next
    case (snoc q' lv')
    with \<open>trie_walk h r' q = Some x\<close> obtain z where z: "trie_walk h r' q' = Some z" "child h z lv' = Some x"
      by (auto simp: trie_walk_append split: option.splits)
    have zl: "z < length h" using trie_walk_less [OF assms(1,4) z(1)] by simp
    have "z = y" using child_ok [OF assms(1) zl z(2)] px by simp
    with snoc.IH [OF y(1)] z child_inj [OF assms(1) yl y(2)] snoc show ?thesis by simp
  qed
qed

section \<open>What a trie holds\<close>

definition tclients :: "heap \<Rightarrow> ref \<Rightarrow> bytes list \<Rightarrow> clientOpts" where
  "tclients h t p = (case trie_walk h t p of None \<Rightarrow> [] | Some r \<Rightarrow> sn_clients (h ! r))"

definition tshared :: "heap \<Rightarrow> ref \<Rightarrow> bytes list \<Rightarrow> (bytes \<times> clientOpts) list" where
  "tshared h t p = (case trie_walk h t p of None \<Rightarrow> [] | Some r \<Rightarrow> sn_shared (h ! r))"

text \<open>A heap with more, empty nodes.\<close>

definition heap_ext :: "heap \<Rightarrow> heap \<Rightarrow> bool" where
  "heap_ext h h' \<longleftrightarrow> length h \<le> length h'
     \<and> (\<forall>r<length h. sn_clients (h' ! r) = sn_clients (h ! r) \<and> sn_shared (h' ! r) = sn_shared (h ! r)
          \<and> sn_parent (h' ! r) = sn_parent (h ! r) \<and> sn_topicName (h' ! r) = sn_topicName (h ! r)
          \<and> (\<forall>lv. child h r lv \<noteq> None \<longrightarrow> child h' r lv = child h r lv)
          \<and> (\<forall>lv c. child h r lv = None \<longrightarrow> child h' r lv = Some c \<longrightarrow> length h \<le> c))
     \<and> (\<forall>r. length h \<le> r \<longrightarrow> r < length h' \<longrightarrow> sn_clients (h' ! r) = [] \<and> sn_shared (h' ! r) = [] \<and> sn_parent (h' ! r) \<noteq> None)"

lemma heap_ext_refl: "heap_ext h h"
  by (simp add: heap_ext_def)

lemma heap_ext_trans:
  assumes "heap_ext h1 h2" and "heap_ext h2 h3"
  shows "heap_ext h1 h3"
proof -
  have l: "length h1 \<le> length h2" "length h2 \<le> length h3" using assms by (auto simp: heap_ext_def)
  have "sn_clients (h3 ! r) = [] \<and> sn_shared (h3 ! r) = [] \<and> sn_parent (h3 ! r) \<noteq> None" if "length h1 \<le> r" "r < length h3" for r
    using that assms by (cases "r < length h2") (auto simp: heap_ext_def)
  moreover have "child h3 r lv = child h1 r lv" if "r < length h1" "child h1 r lv \<noteq> None" for r lv
    using that assms l unfolding heap_ext_def by (metis order_less_le_trans)
  moreover have "length h1 \<le> c" if "r < length h1" "child h1 r lv = None" "child h3 r lv = Some c" for r lv c
  proof (cases "child h2 r lv")
    case None
    then have "length h2 \<le> c" using that assms(2) l unfolding heap_ext_def by (meson order_less_le_trans)
    then show ?thesis using l by simp
  next
    case (Some d)
    then have "d = c" using that assms(2) l unfolding heap_ext_def by (metis option.discI option.inject order_less_le_trans)
    with Some show ?thesis using that assms(1) unfolding heap_ext_def by blast
  qed
  ultimately show ?thesis using l assms unfolding heap_ext_def by auto
qed

lemma al_put_new: "map_of m k = None \<Longrightarrow> al_put k v m = m @ [(k, v)]"
  by (induction m) (auto split: if_splits)

definition add_child :: "ref \<Rightarrow> bytes \<Rightarrow> heap \<Rightarrow> heap" where
  "add_child r lv h =
     h[r := (h ! r)\<lparr>sn_children := al_put lv (length h) (sn_children (h ! r))\<rparr>] @ [newChild r]"

lemma length_add_child [simp]: "length (add_child r lv h) = Suc (length h)"
  by (simp add: add_child_def)

lemma nth_add_child:
  assumes "r < length h" and "child h r lv = None"
  shows "q < length h \<Longrightarrow> q \<noteq> r \<Longrightarrow> add_child r lv h ! q = h ! q"
    and "add_child r lv h ! r = (h ! r)\<lparr>sn_children := sn_children (h ! r) @ [(lv, length h)]\<rparr>"
    and "add_child r lv h ! length h = newChild r"
  using assms by (auto simp: add_child_def nth_append al_put_new)

lemma parent_add_child:
  assumes "r < length h" and "child h r lv = None" and "q < length h"
  shows "sn_parent (add_child r lv h ! q) = sn_parent (h ! q)"
  using nth_add_child [OF assms(1,2)] assms(3) by (cases "q = r") simp_all

lemma add_child_wf:
  assumes "heap_wf h" and "r < length h" and "child h r lv = None"
  shows "heap_wf (add_child r lv h)"
  unfolding heap_wf_def
proof (intro allI impI)
  fix q assume "q < length (add_child r lv h)"
  then consider "q = r" | "q < length h" "q \<noteq> r" | "q = length h" by fastforce
  then show "cell_ok (add_child r lv h) q"
  proof cases
    case 1
    note c = heap_wfD [OF assms(1,2), unfolded cell_ok_def]
    have "lv \<notin> fst ` set (sn_children (h ! r))" using assms(3) by (simp add: map_of_eq_None_iff)
    moreover have "length h \<notin> snd ` set (sn_children (h ! r))" using c by fastforce
    moreover have "r < d \<and> d < Suc (length h) \<and> sn_parent (add_child r lv h ! d) = Some r"
      if "(l, d) \<in> set (sn_children (h ! r)) \<or> d = length h" for l d
      using that
    proof
      assume "(l, d) \<in> set (sn_children (h ! r))"
      with c have "r < d" "d < length h" "sn_parent (h ! d) = Some r" by blast+
      then show ?thesis using parent_add_child [OF assms(2,3), of d] by simp
    next
      assume "d = length h"
      then show ?thesis using nth_add_child(3) [OF assms(2,3)] assms(2) by (simp add: newChild_def)
    qed
    ultimately show ?thesis
      using c unfolding cell_ok_def 1 nth_add_child(2) [OF assms(2,3)] by auto
  next
    case 2
    note c = heap_wfD [OF assms(1) 2(1), unfolded cell_ok_def]
    have "q < d \<and> d < Suc (length h) \<and> sn_parent (add_child r lv h ! d) = Some q"
      if m: "(l, d) \<in> set (sn_children (h ! q))" for l d
    proof -
      from c m have "q < d" "d < length h" "sn_parent (h ! d) = Some q" by blast+
      then show ?thesis using parent_add_child [OF assms(2,3), of d] by simp
    qed
    with c show ?thesis unfolding cell_ok_def nth_add_child(1) [OF assms(2,3) 2] by auto
  next
    case 3
    show ?thesis unfolding cell_ok_def 3 nth_add_child(3) [OF assms(2,3)]
      using assms(2) by (simp add: newChild_def newNode_def)
  qed
qed

lemma add_child_ext:
  assumes "r < length h" and "child h r lv = None"
  shows "heap_ext h (add_child r lv h)"
  unfolding heap_ext_def
proof (intro conjI allI impI)
  fix q assume q: "q < length h"
  note n = nth_add_child [OF assms]
  show "sn_clients (add_child r lv h ! q) = sn_clients (h ! q)" "sn_shared (add_child r lv h ! q) = sn_shared (h ! q)"
    "sn_parent (add_child r lv h ! q) = sn_parent (h ! q)" "sn_topicName (add_child r lv h ! q) = sn_topicName (h ! q)"
    using n q by (cases "q = r"; simp)+
  show "child (add_child r lv h) q l = child h q l" if "child h q l \<noteq> None" for l
    using n q that by (cases "q = r") (auto simp: map_add_def split: option.splits)
  show "length h \<le> c" if "child h q l = None" "child (add_child r lv h) q l = Some c" for l c
    using n q that by (cases "q = r") (auto simp: map_add_def split: if_splits)
next
  fix q assume "length h \<le> q" "q < length (add_child r lv h)"
  then have "q = length h" by simp
  then show "sn_clients (add_child r lv h ! q) = []" "sn_shared (add_child r lv h ! q) = []"
    "sn_parent (add_child r lv h ! q) \<noteq> None"
    using nth_add_child(3) [OF assms] by (simp_all add: newChild_def newNode_def)
qed simp

lemma subscribe_walk_ext:
  assumes "heap_wf h" and "r < length h" and "subscribe_walk p r h = (x, h')"
  shows "heap_wf h' \<and> heap_ext h h' \<and> x < length h' \<and> trie_walk h' r p = Some x"
  using assms
proof (induction p arbitrary: r h)
  case Nil
  then show ?case by (simp add: heap_ext_refl)
next
  case (Cons lv p)
  show ?case
  proof (cases "child h r lv")
    case None
    let ?h = "add_child r lv h"
    have w: "subscribe_walk p (length h) ?h = (x, h')"
      using Cons.prems(3) None by (simp add: add_child_def Let_def)
    note ih = Cons.IH [OF add_child_wf [OF Cons.prems(1,2) None] _ w]
    then have ext: "heap_ext ?h h'" by simp
    have "child ?h r lv = Some (length h)"
      using nth_add_child(2) [OF Cons.prems(2) None] None by (simp add: map_add_def)
    then have "child h' r lv = Some (length h)"
      using ext Cons.prems(2) unfolding heap_ext_def by (metis length_add_child less_SucI option.discI)
    moreover have "heap_ext h h'" using heap_ext_trans [OF add_child_ext [OF Cons.prems(2) None] ext] .
    ultimately show ?thesis using ih by simp
  next
    case (Some c)
    with Cons.prems child_ok [OF Cons.prems(1,2) Some]
    have ih: "heap_wf h' \<and> heap_ext h h' \<and> x < length h' \<and> trie_walk h' c p = Some x"
      by (intro Cons.IH) auto
    then have "child h' r lv = Some c"
      using Some Cons.prems(2) unfolding heap_ext_def by (metis option.discI)
    with ih show ?thesis by simp
  qed
qed

lemma heap_ext_walk:
  assumes "heap_wf h'" and "heap_ext h h'" and "heap_wf h" and "r < length h"
  shows "case trie_walk h r p of Some x \<Rightarrow> trie_walk h' r p = Some x
    | None \<Rightarrow> (\<forall>x. trie_walk h' r p = Some x \<longrightarrow> length h \<le> x)"
  using assms(4)
proof (induction p arbitrary: r)
  case (Cons lv p)
  show ?case
  proof (cases "child h r lv")
    case None
    have "length h \<le> x" if w: "trie_walk h' r (lv # p) = Some x" for x
    proof -
      obtain c where c: "child h' r lv = Some c" "trie_walk h' c p = Some x"
        using w by (cases "child h' r lv") auto
      have "length h \<le> c" using None c(1) assms(2) Cons.prems unfolding heap_ext_def by blast
      moreover have "c < length h'"
        using child_ok [OF assms(1) _ c(1)] assms(2) Cons.prems unfolding heap_ext_def by simp
      ultimately show ?thesis using trie_walk_less [OF assms(1) _ c(2)] by simp
    qed
    with None show ?thesis by auto
  next
    case (Some c)
    then have "child h' r lv = Some c"
      using assms(2) Cons.prems unfolding heap_ext_def by (metis option.discI)
    with Some Cons.IH [of c] child_ok [OF assms(3) Cons.prems Some] show ?thesis by (auto split: option.splits)
  qed
qed simp

lemma heap_ext_content:
  assumes "heap_wf h'" and "heap_ext h h'" and "heap_wf h" and "r < length h"
  shows "tclients h' r p = tclients h r p" "tshared h' r p = tshared h r p"
proof -
  have "tclients h' r p = tclients h r p \<and> tshared h' r p = tshared h r p"
  proof (cases "trie_walk h r p")
    case None
    then have x: "\<And>x. trie_walk h' r p = Some x \<Longrightarrow> length h \<le> x"
      using heap_ext_walk [OF assms, of p] by simp
    show ?thesis
    proof (cases "trie_walk h' r p")
      case (Some x)
      have "x < length h'" using trie_walk_less [OF assms(1) _ Some] assms(2,4) by (auto simp: heap_ext_def)
      with x [OF Some] assms(2) have "sn_clients (h' ! x) = []" "sn_shared (h' ! x) = []"
        unfolding heap_ext_def by blast+
      with None Some show ?thesis by (auto simp: tclients_def tshared_def)
    qed (use None in \<open>auto simp: tclients_def tshared_def\<close>)
  next
    case (Some x)
    then have "trie_walk h' r p = Some x" using heap_ext_walk [OF assms, of p] by simp
    moreover have "x < length h" using trie_walk_less [OF assms(3,4) Some] by simp
    ultimately show ?thesis using Some assms(2)
      by (auto simp: tclients_def tshared_def heap_ext_def)
  qed
  then show "tclients h' r p = tclients h r p" "tshared h' r p = tshared h r p" by simp_all
qed

section \<open>Updating a node\<close>

definition node_ok :: "subNode \<Rightarrow> bool" where
  "node_ok n \<longleftrightarrow> distinct (al_keys (sn_clients n)) \<and> distinct (al_keys (sn_shared n))
     \<and> (\<forall>nm c. (nm, c) \<in> set (sn_shared n) \<longrightarrow> distinct (al_keys c))"

lemma node_okD: "heap_wf h \<Longrightarrow> r < length h \<Longrightarrow> node_ok (h ! r)"
  using heap_wfD [of h r] unfolding cell_ok_def node_ok_def by blast

lemma trie_walk_update:
  "sn_children n = sn_children (h ! x) \<Longrightarrow> trie_walk (h[x := n]) r p = trie_walk h r p"
proof (induction p arbitrary: r)
  case (Cons lv p)
  have "sn_children (h[x := n] ! r) = sn_children (h ! r)"
    using Cons.prems by (metis list_update_beyond not_le nth_list_update)
  with Cons show ?case by (simp split: option.split)
qed simp

lemma heap_wf_update:
  assumes "heap_wf h" and "x < length h" and "sn_children n = sn_children (h ! x)"
    and "sn_parent n = sn_parent (h ! x)" and "node_ok n"
  shows "heap_wf (h[x := n])"
  unfolding heap_wf_def
proof (intro allI impI)
  fix r assume "r < length (h[x := n])"
  then have r: "r < length h" by simp
  have ch: "sn_children (h[x := n] ! q) = sn_children (h ! q)" "sn_parent (h[x := n] ! q) = sn_parent (h ! q)" for q
    using assms(2-4) by (cases "q = x"; simp)+
  have "node_ok (h[x := n] ! r)" using assms(2,5) node_okD [OF assms(1) r] by (cases "r = x") simp_all
  then show "cell_ok (h[x := n]) r"
    using heap_wfD [OF assms(1) r] unfolding cell_ok_def ch node_ok_def length_list_update by blast
qed

text \<open>The roots of a heap are its cells without a parent.\<close>

definition is_root :: "heap \<Rightarrow> ref \<Rightarrow> bool" where
  "is_root h r \<longleftrightarrow> r < length h \<and> sn_parent (h ! r) = None"

lemma update_content:
  assumes "heap_wf h" and "is_root h t" and "is_root h r" and "trie_walk h t p = Some x"
    and "sn_children n = sn_children (h ! x)"
  shows "tclients (h[x := n]) r q = (if r = t \<and> q = p then sn_clients n else tclients h r q)"
    and "tshared (h[x := n]) r q = (if r = t \<and> q = p then sn_shared n else tshared h r q)"
proof -
  have x: "x < length h" using trie_walk_less [OF assms(1) _ assms(4)] assms(2) by (simp add: is_root_def)
  have y: "y \<noteq> x" if "trie_walk h r q = Some y" "\<not> (r = t \<and> q = p)" for y
    using trie_walk_inj [OF assms(1) _ _ _ _ that(1), of t p] that(2) assms(2-4) by (auto simp: is_root_def)
  show "tclients (h[x := n]) r q = (if r = t \<and> q = p then sn_clients n else tclients h r q)"
    using assms(4) x y unfolding tclients_def trie_walk_update [OF assms(5)] by (auto split: option.split)
  show "tshared (h[x := n]) r q = (if r = t \<and> q = p then sn_shared n else tshared h r q)"
    using assms(4) x y unfolding tshared_def trie_walk_update [OF assms(5)] by (auto split: option.split)
qed

section \<open>Cutting off an empty leaf\<close>

lemma trie_walk_cut:
  assumes "heap_wf h" and "y < length h" and "child h y lv = Some x" and "sn_children (h ! x) = []"
    and "r < length h" and "r \<noteq> x"
  shows "trie_walk (h[y := (h ! y)\<lparr>sn_children := al_del lv (sn_children (h ! y))\<rparr>]) r p
    = (if trie_walk h r p = Some x then None else trie_walk h r p)"
  using assms(5,6)
proof (induction p arbitrary: r)
  case Nil
  then show ?case by simp
next
  case (Cons l p)
  let ?h = "h[y := (h ! y)\<lparr>sn_children := al_del lv (sn_children (h ! y))\<rparr>]"
  have ch: "child ?h r l = (if r = y \<and> l = lv then None else child h r l)"
    using assms(2) by (cases "r = y") auto
  show ?case
  proof (cases "child h r l")
    case None
    with ch show ?thesis by (simp split: if_splits)
  next
    case (Some c)
    note c = child_ok [OF assms(1) Cons.prems(1) Some]
    show ?thesis
    proof (cases "c = x")
      case True
      have "sn_parent (h ! x) = Some y" using child_ok [OF assms(1-3)] by simp
      with c True have "r = y" by simp
      with Some True child_inj [OF assms(1,2,3)] have "l = lv" by simp
      have "trie_walk h x p = (if p = [] then Some x else None)" using assms(4) by (cases p) simp_all
      with ch \<open>r = y\<close> \<open>l = lv\<close> Some True show ?thesis by simp
    next
      case False
      with c have "\<not> (r = y \<and> l = lv)" using Some assms(3) by auto
      with ch Some have "child ?h r l = Some c" by auto
      with Some Cons.IH [of c] c False show ?thesis by simp
    qed
  qed
qed

lemma heap_wf_cut:
  assumes "heap_wf h" and "y < length h"
  shows "heap_wf (h[y := (h ! y)\<lparr>sn_children := al_del lv (sn_children (h ! y))\<rparr>])"
  unfolding heap_wf_def
proof (intro allI impI)
  let ?n = "(h ! y)\<lparr>sn_children := al_del lv (sn_children (h ! y))\<rparr>"
  fix r assume "r < length (h[y := ?n])"
  then have r: "r < length h" by simp
  have pa: "sn_parent (h[y := ?n] ! q) = sn_parent (h ! q)" "sn_clients (h[y := ?n] ! q) = sn_clients (h ! q)"
    "sn_shared (h[y := ?n] ! q) = sn_shared (h ! q)" for q
    using assms(2) by (cases "q = y"; simp)+
  have ch: "set (sn_children (h[y := ?n] ! r)) \<subseteq> set (sn_children (h ! r))"
    using assms(2) by (cases "r = y") (auto simp: al_del_def)
  have "distinct (map snd (sn_children (h ! r))) \<Longrightarrow> distinct (map snd (sn_children (h[y := ?n] ! r)))"
    "distinct (al_keys (sn_children (h ! r))) \<Longrightarrow> distinct (al_keys (sn_children (h[y := ?n] ! r)))"
    using assms(2) by (cases "r = y"; simp add: al_del_def distinct_map_filter)+
  with ch show "cell_ok (h[y := ?n]) r"
    using heap_wfD [OF assms(1) r] unfolding cell_ok_def pa length_list_update by blast
qed

lemma cut_content:
  assumes "heap_wf h" and "y < length h" and "child h y lv = Some x" and "sn_children (h ! x) = []"
    and "sn_clients (h ! x) = []" and "sn_shared (h ! x) = []" and "is_root h r"
  shows "tclients (h[y := (h ! y)\<lparr>sn_children := al_del lv (sn_children (h ! y))\<rparr>]) r p = tclients h r p"
    and "tshared (h[y := (h ! y)\<lparr>sn_children := al_del lv (sn_children (h ! y))\<rparr>]) r p = tshared h r p"
proof -
  let ?h = "h[y := (h ! y)\<lparr>sn_children := al_del lv (sn_children (h ! y))\<rparr>]"
  have "r \<noteq> x" using child_ok [OF assms(1-3)] assms(7) by (auto simp: is_root_def)
  then have w: "trie_walk ?h r p = (if trie_walk h r p = Some x then None else trie_walk h r p)"
    using trie_walk_cut [OF assms(1-4)] assms(7) by (simp add: is_root_def)
  have "sn_clients (?h ! z) = sn_clients (h ! z)" "sn_shared (?h ! z) = sn_shared (h ! z)" for z
    using assms(2) by (cases "z = y"; simp)+
  then show "tclients ?h r p = tclients h r p" "tshared ?h r p = tshared h r p"
    using assms(5,6) by (auto simp: tclients_def tshared_def w split: option.split)
qed

text \<open>
  What the operations may do to a heap: cells are added but keep their parents, and a path from a
  root leads to the same node as before, or nowhere when the node has been cut off.
\<close>

definition heap_step :: "heap \<Rightarrow> heap \<Rightarrow> bool" where
  "heap_step h h' \<longleftrightarrow> heap_wf h' \<and> length h \<le> length h' \<and> (\<forall>r<length h. sn_parent (h' ! r) = sn_parent (h ! r))
     \<and> (\<forall>r q y. is_root h r \<longrightarrow> trie_walk h r q = Some y \<longrightarrow> trie_walk h' r q = Some y \<or> trie_walk h' r q = None)"

section \<open>Subscribing\<close>

lemma subscribe_node_simps [simp]:
  "sn_children (subscribe_node c s n) = sn_children n" "sn_parent (subscribe_node c s n) = sn_parent n"
  "sn_topicName (subscribe_node c s n) = sb_TopicFilter s"
  "sn_clients (subscribe_node c s n) = (if sb_ShareName s = [] then al_put c s (sn_clients n) else sn_clients n)"
  "sn_shared (subscribe_node c s n) = (if sb_ShareName s = [] then sn_shared n
     else al_put (sb_ShareName s)
       (al_put c s (case map_of (sn_shared n) (sb_ShareName s) of None \<Rightarrow> [] | Some c \<Rightarrow> c)) (sn_shared n))"
  by (simp_all add: subscribe_node_def)

lemma set_al_put: "distinct (al_keys m) \<Longrightarrow> (k', v') \<in> set (al_put k v m) \<longleftrightarrow> (k' = k \<and> v' = v \<or> k' \<noteq> k \<and> (k', v') \<in> set m)"
  by (induction k v m rule: al_put.induct) (auto simp: image_iff)

lemma subscribe_node_ok: "node_ok n \<Longrightarrow> node_ok (subscribe_node c s n)"
  by (auto simp: node_ok_def set_al_put split: option.split dest: map_of_SomeD)

lemma trie_subscribe_ok:
  assumes "heap_wf h" and "is_root h t" and "trie_subscribe t c s h = (x, h')"
  defines "p \<equiv> split_levels (sb_TopicFilter s)"
  shows "heap_step h h'" and "trie_walk h' t p = Some x"
    and "is_root h r \<Longrightarrow> tclients h' r q =
      (if r = t \<and> q = p \<and> sb_ShareName s = [] then al_put c s (tclients h r q) else tclients h r q)"
    and "is_root h r \<Longrightarrow> tshared h' r q =
      (if r = t \<and> q = p \<and> sb_ShareName s \<noteq> []
       then al_put (sb_ShareName s)
         (al_put c s (case map_of (tshared h r q) (sb_ShareName s) of None \<Rightarrow> [] | Some l \<Rightarrow> l)) (tshared h r q)
       else tshared h r q)"
proof -
  obtain h1 where w: "subscribe_walk p t h = (x, h1)" and h': "h' = h1[x := subscribe_node c s (h1 ! x)]"
    using assms(3) unfolding trie_subscribe_def p_def by (auto simp: Let_def split: prod.splits)
  have tl: "t < length h" using assms(2) by (simp add: is_root_def)
  note e = subscribe_walk_ext [OF assms(1) tl w]
  then have wf1: "heap_wf h1" and ext: "heap_ext h h1" and xl: "x < length h1" and wx: "trie_walk h1 t p = Some x"
    by simp_all
  have len: "length h \<le> length h1" using ext by (simp add: heap_ext_def)
  have par: "sn_parent (h1 ! r) = sn_parent (h ! r)" if "r < length h" for r
    using ext that by (simp add: heap_ext_def)
  have root: "is_root h1 r" if "is_root h r" for r using that len par by (auto simp: is_root_def)
  have "heap_wf h'" unfolding h'
    using heap_wf_update [OF wf1 xl] subscribe_node_ok [OF node_okD [OF wf1 xl]] by simp
  moreover have "r < length h \<Longrightarrow> sn_parent (h' ! r) = sn_parent (h ! r)" for r
    unfolding h' using par len xl by (cases "r = x") simp_all
  moreover have "is_root h r \<Longrightarrow> trie_walk h r q = Some y \<Longrightarrow> trie_walk h' r q = Some y" for r q y
    unfolding h' using heap_ext_walk [OF wf1 ext assms(1), of r q] by (simp add: is_root_def trie_walk_update)
  ultimately show "heap_step h h'" using len by (simp add: heap_step_def h')
  show "trie_walk h' t p = Some x" unfolding h' using wx by (simp add: trie_walk_update)
  have cl: "tclients h1 r q = tclients h r q" "tshared h1 r q = tshared h r q" if "is_root h r" for r q
    using heap_ext_content [OF wf1 ext assms(1)] that by (simp_all add: is_root_def)
  have at: "sn_clients (h1 ! x) = tclients h t p" "sn_shared (h1 ! x) = tshared h t p"
    using wx cl [OF assms(2), of p] by (simp_all add: tclients_def tshared_def)
  show "is_root h r \<Longrightarrow> tclients h' r q =
      (if r = t \<and> q = p \<and> sb_ShareName s = [] then al_put c s (tclients h r q) else tclients h r q)" for r q
    unfolding h' using update_content(1) [OF wf1 root [OF assms(2)] root wx, of r "subscribe_node c s (h1 ! x)" q] at cl
    by simp
  show "is_root h r \<Longrightarrow> tshared h' r q =
      (if r = t \<and> q = p \<and> sb_ShareName s \<noteq> []
       then al_put (sb_ShareName s)
         (al_put c s (case map_of (tshared h r q) (sb_ShareName s) of None \<Rightarrow> [] | Some l \<Rightarrow> l)) (tshared h r q)
       else tshared h r q)" for r q
    unfolding h' using update_content(2) [OF wf1 root [OF assms(2)] root wx, of r "subscribe_node c s (h1 ! x)" q] at cl
    by simp
qed

section \<open>Unsubscribing\<close>

lemma prune_ok:
  assumes wf: "heap_wf h" and root: "is_root h t" and w: "trie_walk h t p = Some x" and "p \<noteq> []"
    and n: "sn_children n = sn_children (h ! x)" "sn_parent n = sn_parent (h ! x)" "node_ok n"
    and b: "b \<Longrightarrow> sn_clients n = [] \<and> sn_shared n = [] \<and> sn_children n = []"
  shows "\<exists>h'. (if b then cut_off x (last p) (h[x := n]) else Inr (h[x := n])) = Inr h' \<and> heap_step h h'
    \<and> (\<forall>r q. is_root h r \<longrightarrow>
         tclients h' r q = (if r = t \<and> q = p then sn_clients n else tclients h r q)
         \<and> tshared h' r q = (if r = t \<and> q = p then sn_shared n else tshared h r q))"
proof -
  let ?h = "h[x := n]"
  have tl: "t < length h" using root by (simp add: is_root_def)
  have xl: "x < length h" using trie_walk_less [OF wf tl w] by simp
  have wf1: "heap_wf ?h" using heap_wf_update [OF wf xl n] .
  have par: "sn_parent (?h ! r) = sn_parent (h ! r)" for r using n xl by (cases "r = x") simp_all
  have root1: "is_root ?h r = is_root h r" for r using par by (simp add: is_root_def)
  have walk1: "trie_walk ?h = trie_walk h" using n(1) by (simp add: fun_eq_iff trie_walk_update)
  note content1 = update_content [OF wf root _ w n(1)]
  show ?thesis
  proof (cases b)
    case False
    then show ?thesis using wf1 par content1 walk1 by (auto simp: heap_step_def)
  next
    case True
    obtain y where y: "trie_walk h t (butlast p) = Some y" "child h y (last p) = Some x"
      using w trie_walk_append [of h t "butlast p" "[last p]"] \<open>p \<noteq> []\<close> by (auto split: option.splits)
    have yl: "y < length h" using trie_walk_less [OF wf tl y(1)] by simp
    have pa: "sn_parent (h ! x) = Some y" and yx: "y < x" using child_ok [OF wf yl y(2)] by simp_all
    let ?h' = "?h[y := (?h ! y)\<lparr>sn_children := al_del (last p) (sn_children (?h ! y))\<rparr>]"
    have ch: "child ?h y (last p) = Some x" "sn_children (?h ! x) = []" "sn_clients (?h ! x) = []" "sn_shared (?h ! x) = []"
      using y(2) yx xl b [OF True] by simp_all
    have c: "cut_off x (last p) ?h = Inr ?h'" using pa n xl by (simp add: cut_off_def)
    have yl1: "y < length ?h" using yl by simp
    have "sn_parent (?h' ! r) = sn_parent (h ! r)" for r using par [of r] yl by (cases "r = y") simp_all
    moreover have "heap_wf ?h'" using heap_wf_cut [OF wf1] yl by simp
    moreover have "trie_walk ?h' r q = Some z \<or> trie_walk ?h' r q = None"
      if r: "is_root h r" and z: "trie_walk h r q = Some z" for r q z
    proof -
      have "r \<noteq> x" using r pa by (auto simp: is_root_def)
      then have "trie_walk ?h' r q = (if trie_walk ?h r q = Some x then None else trie_walk ?h r q)"
        using r by (intro trie_walk_cut [OF wf1 yl1 ch(1,2)]) (simp_all add: is_root_def)
      then show ?thesis using z walk1 by auto
    qed
    ultimately have "heap_step h ?h'" unfolding heap_step_def by simp
    moreover have "tclients ?h' r q = tclients ?h r q \<and> tshared ?h' r q = tshared ?h r q" if "is_root h r" for r q
      using cut_content [OF wf1 yl1 ch] that root1 by simp
    ultimately show ?thesis using True c content1 by auto
  qed
qed

definition unshare :: "bytes \<Rightarrow> bytes \<Rightarrow> (bytes \<times> clientOpts) list \<Rightarrow> (bytes \<times> clientOpts) list" where
  "unshare c name m =
     (case map_of m name of
        None \<Rightarrow> m
      | Some l \<Rightarrow> if al_del c l = [] then al_del name m else al_put name (al_del c l) m)"

lemma al_del_absent: "map_of m k = None \<Longrightarrow> al_del k m = m"
  by (induction m) (auto simp: al_del_def split: if_splits)

lemma set_al_del: "set (al_del k m) = {e \<in> set m. fst e \<noteq> k}"
  by (auto simp: al_del_def)

lemma unshare_ok: "node_ok n \<Longrightarrow> node_ok (n\<lparr>sn_shared := unshare c name (sn_shared n)\<rparr>)"
  by (auto simp: node_ok_def unshare_def set_al_put set_al_del split: option.split dest: map_of_SomeD)

lemma heap_step_refl: "heap_wf h \<Longrightarrow> heap_step h h"
  by (simp add: heap_step_def)

text \<open>
  The two kinds of tries: one that holds no shared and one that holds only shared subscriptions.
  An operation of a kind on a trie of that kind removes the one subscription and nothing else.
\<close>

lemma trie_unsubscribe_ok:
  fixes f name c
  defines "p \<equiv> split_levels f"
  assumes wf: "heap_wf h" and root: "is_root h t"
    and kind: "if name = [] then tshared h t p = [] else tclients h t p = []"
  shows "\<exists>h'. trie_unsubscribe t c f name h = Inr h' \<and> heap_step h h'
    \<and> (\<forall>r q. is_root h r \<longrightarrow>
         tclients h' r q = (if r = t \<and> q = p \<and> name = [] then al_del c (tclients h r q) else tclients h r q)
         \<and> tshared h' r q = (if r = t \<and> q = p \<and> name \<noteq> [] then unshare c name (tshared h r q) else tshared h r q))"
proof (cases "trie_walk h t p")
  case None
  then have "tclients h t p = []" "tshared h t p = []" by (simp_all add: tclients_def tshared_def)
  with None wf show ?thesis
    by (auto simp: trie_unsubscribe_def Let_def p_def [symmetric] al_del_def unshare_def heap_step_refl)
next
  case (Some x)
  have xl: "x < length h" using trie_walk_less [OF wf _ Some] root by (simp add: is_root_def)
  have at: "tclients h t p = sn_clients (h ! x)" "tshared h t p = sn_shared (h ! x)"
    using Some by (simp_all add: tclients_def tshared_def)
  have pn: "p \<noteq> []" by (simp add: p_def)
  note nok = node_okD [OF wf xl]
  show ?thesis
  proof (cases "name = []")
    case True
    let ?n = "(h ! x)\<lparr>sn_clients := al_del c (sn_clients (h ! x))\<rparr>"
    have nn: "node_ok ?n" using nok by (simp add: node_ok_def)
    let ?b = "sn_clients ?n = [] \<and> sn_children ?n = []"
    have e: "trie_unsubscribe t c f name h = (if ?b then cut_off x (last p) (h[x := ?n]) else Inr (h[x := ?n]))"
      using Some True xl by (simp add: trie_unsubscribe_def Let_def p_def [symmetric])
    have "\<exists>h'. trie_unsubscribe t c f name h = Inr h' \<and> heap_step h h'
      \<and> (\<forall>r q. is_root h r \<longrightarrow>
         tclients h' r q = (if r = t \<and> q = p then sn_clients ?n else tclients h r q)
         \<and> tshared h' r q = (if r = t \<and> q = p then sn_shared ?n else tshared h r q))"
      unfolding e by (rule prune_ok [OF wf root Some pn _ _ nn]) (use kind True at in simp_all)
    with True at Some show ?thesis by (elim exE conjE, intro exI conjI, simp_all split: if_split_asm) blast
  next
    case False
    let ?n = "(h ! x)\<lparr>sn_shared := unshare c name (sn_shared (h ! x))\<rparr>"
    have nn: "node_ok ?n" using unshare_ok [OF nok] .
    show ?thesis
    proof (cases "map_of (sn_shared (h ! x)) name")
      case None
      then have "trie_unsubscribe t c f name h = Inr h"
        using Some False by (simp add: trie_unsubscribe_def Let_def p_def [symmetric])
      then show ?thesis using None at False Some heap_step_refl [OF wf] by (auto simp: unshare_def)
    next
      case sh: (Some l)
      let ?b = "sn_shared ?n = [] \<and> sn_children ?n = []"
      have e: "trie_unsubscribe t c f name h = (if ?b then cut_off x (last p) (h[x := ?n]) else Inr (h[x := ?n]))"
        using Some False xl sh by (simp add: trie_unsubscribe_def Let_def p_def [symmetric] unshare_def)
      have "\<exists>h'. trie_unsubscribe t c f name h = Inr h' \<and> heap_step h h'
        \<and> (\<forall>r q. is_root h r \<longrightarrow>
           tclients h' r q = (if r = t \<and> q = p then sn_clients ?n else tclients h r q)
           \<and> tshared h' r q = (if r = t \<and> q = p then sn_shared ?n else tshared h r q))"
        unfolding e by (rule prune_ok [OF wf root Some pn _ _ nn]) (use kind False at in simp_all)
      with False at Some show ?thesis by (elim exE conjE, intro exI conjI, simp_all split: if_split_asm) blast
    qed
  qed
qed

section \<open>Matching visits the filters that match\<close>

text \<open>The paths that \<^verbatim>\<open>matchTopic\<close> looks at, in its order.\<close>

fun match_paths :: "bytes list \<Rightarrow> bytes list list" where
  "match_paths [] = []"
| "match_paths (lv # lvs) =
     [[hash_sign]] #
     (if lvs = [] then [[[plus_sign]], [[plus_sign], [hash_sign]], [lv], [lv, [hash_sign]]]
      else map (Cons [plus_sign]) (match_paths lvs) @ map (Cons lv) (match_paths lvs))"

lemma match_paths_iff:
  assumes "ts \<noteq> []" and "\<forall>l\<in>set ts. plain_level l"
  shows "p \<in> set (match_paths ts) \<longleftrightarrow> levels_match ts p"
  using assms
proof (induction ts arbitrary: p)
  case (Cons l ls)
  have l: "l \<noteq> [hash_sign]" "l \<noteq> [plus_sign]" using Cons.prems by auto
  show ?case
  proof (cases p)
    case (Cons f fs)
    show ?thesis
    proof (cases "ls = []")
      case True
      with Cons l show ?thesis by (cases fs) (auto split: list.splits)
    next
      case False
      then have "q \<in> set (match_paths ls) \<longleftrightarrow> levels_match ls q" for q
        using Cons.IH Cons.prems by simp
      with False Cons l show ?thesis by (auto simp del: levels_match.simps simp: levels_match.simps(2))
    qed
  qed (cases ls; auto)
qed simp

lemma match_paths_distinct:
  assumes "\<forall>l\<in>set ts. plain_level l"
  shows "distinct (match_paths ts)"
  using assms
proof (induction ts)
  case (Cons l ls)
  have l: "l \<noteq> [hash_sign]" "l \<noteq> [plus_sign]" using Cons.prems by auto
  with Cons show ?case by (auto simp: distinct_map)
qed simp

definition path_subs :: "heap \<Rightarrow> ref \<Rightarrow> bytes list \<Rightarrow> (bytes \<times> Subscription) list" where
  "path_subs h t p = tclients h t p @ concat (map snd (tshared h t p))"

lemma path_subs_simps:
  "path_subs h t [] = node_subs (h ! t)"
  "path_subs h t (lv # p) = (case child h t lv of None \<Rightarrow> [] | Some c \<Rightarrow> path_subs h c p)"
  by (auto simp: path_subs_def node_subs_def tclients_def tshared_def split: option.split)

lemma setRs_opt_path: "setRs_opt h (child h t lv) rs = fold rs_append (path_subs h t [lv]) rs"
  by (auto simp: setRs_opt_def setRs_def path_subs_simps split: option.split)

lemma sub_matchTopic_paths:
  "ts \<noteq> [] \<Longrightarrow>
   sub_matchTopic h ts t rs = Inr (fold rs_append (concat (map (path_subs h t) (match_paths ts))) rs)"
proof (induction ts arbitrary: t rs)
  case (Cons l ls)
  let ?f = "\<lambda>es. fold rs_append es"
  show ?case
  proof (cases "ls = []")
    case True
    have v: "(case cn of None \<Rightarrow> Inr rs
        | Some c \<Rightarrow> Inr (?f (path_subs h c [[hash_sign]]) (setRs (h ! c) rs)))
      = (Inr (?f (case cn of None \<Rightarrow> [] | Some c \<Rightarrow> path_subs h c [] @ path_subs h c [[hash_sign]]) rs)
          :: ClientSubscriptions res)" for cn rs
      by (auto simp: setRs_opt_path setRs_def path_subs_simps(1) split: option.split)
    have e: "(case child h t x of None \<Rightarrow> [] | Some c \<Rightarrow> path_subs h c [] @ path_subs h c [[hash_sign]])
        = path_subs h t [x] @ path_subs h t [x, [hash_sign]]" for x
      by (auto simp: path_subs_simps split: option.split)
    show ?thesis using True by (simp add: v e setRs_opt_path Let_def cong: option.case_cong)
  next
    case False
    have v: "(case cn of None \<Rightarrow> Inr rs | Some c \<Rightarrow> sub_matchTopic h ls c rs)
      = Inr (?f (case cn of None \<Rightarrow> [] | Some c \<Rightarrow> concat (map (path_subs h c) (match_paths ls))) rs)" for cn rs
      using Cons.IH [OF False] by (auto split: option.split)
    have e: "(case child h t x of None \<Rightarrow> [] | Some c \<Rightarrow> concat (map (path_subs h c) (match_paths ls)))
        = concat (map (path_subs h t) (map (Cons x) (match_paths ls)))" for x
      by (auto simp: path_subs_simps comp_def split: option.split)
    show ?thesis using False by (simp add: v e setRs_opt_path Let_def cong: option.case_cong del: map_map)
  qed
qed simp

lemma rs_append_lookup:
  "map_of (fold rs_append es rs) cid =
     (case map_of rs cid of
        None \<Rightarrow> (if map snd (filter (\<lambda>e. fst e = cid) es) = [] then None
                 else Some (map snd (filter (\<lambda>e. fst e = cid) es)))
      | Some l \<Rightarrow> Some (l @ map snd (filter (\<lambda>e. fst e = cid) es)))"
proof (induction es arbitrary: rs)
  case (Cons e es)
  then show ?case by (cases e) (auto simp: rs_append_def split: option.split)
qed (simp split: option.split)

lemma rs_append_distinct: "distinct (al_keys rs) \<Longrightarrow> distinct (al_keys (fold rs_append es rs))"
  by (induction es arbitrary: rs) (auto simp: rs_append_def split: prod.split)

text \<open>The pairs that an iteration over the result visits are a rearrangement of the pairs found.\<close>

definition rs_pairs :: "ClientSubscriptions \<Rightarrow> (bytes \<times> Subscription) list" where
  "rs_pairs rs = concat (map (\<lambda>(cid, subs). map (Pair cid) subs) rs)"

lemma set_rs_pairs:
  assumes "distinct (al_keys rs)"
  shows "(cid, s) \<in> set (rs_pairs rs) \<longleftrightarrow> (\<exists>l. map_of rs cid = Some l \<and> s \<in> set l)"
  using assms by (auto simp: rs_pairs_def intro!: bexI)

lemma rs_pairs_append:
  "distinct (al_keys rs) \<Longrightarrow> mset (rs_pairs (rs_append e rs)) = add_mset e (mset (rs_pairs rs))"
proof (induction rs)
  case (Cons x rs)
  obtain cid l where x: "x = (cid, l)" by fastforce
  obtain c s where e: "e = (c, s)" by fastforce
  from Cons show ?case unfolding x e
    by (cases "cid = c") (auto simp: rs_pairs_def rs_append_def)
qed (cases e; simp add: rs_pairs_def rs_append_def)

lemma rs_pairs_fold:
  "distinct (al_keys rs) \<Longrightarrow> mset (rs_pairs (fold rs_append es rs)) = mset es + mset (rs_pairs rs)"
proof (induction es arbitrary: rs)
  case (Cons e es)
  have "distinct (al_keys (rs_append e rs))" using rs_append_distinct [OF Cons.prems, of "[e]"] by simp
  from Cons.IH [OF this] rs_pairs_append [OF Cons.prems] show ?case by simp
qed simp

end
