(* ===== verification/Sub_Store.thy ===== *)
theory Sub_Store
  imports Sub_Trie
begin

text \<open>
  \<^verbatim>\<open>gmqtt/persistence/subscription/mem/trie_db.go\<close>, the subscription store: three tries on one heap
  (non-shared filters, filters of system topics, shared filters), an index from client and filter to
  the node, and the statistics; and the queries of \<^verbatim>\<open>persistence/subscription/subscription.go\<close>.

  The abstract view is \<open>sub_at\<close>: the subscription of a client for a share name and a filter.
\<close>

unbundle bit_operations_syntax

section \<open>The store\<close>

record Stats =
  SubscriptionsTotal :: uint64
  SubscriptionsCurrent :: uint64

type_synonym index = "bytes \<Rightarrow> (bytes \<times> ref) list option"

record TrieDB =
  db_heap :: heap
  userIndex :: index
  db_userTrie :: ref
  systemIndex :: index
  db_systemTrie :: ref
  sharedIndex :: index
  db_sharedTrie :: ref
  stats :: Stats
  clientStats :: "bytes \<Rightarrow> Stats option"

definition Sub_NewStore :: TrieDB where
  "Sub_NewStore =
     \<lparr>db_heap = [newNode, newNode, newNode], userIndex = Map.empty, db_userTrie = 0, systemIndex = Map.empty,
      db_systemTrie = 1, sharedIndex = Map.empty, db_sharedTrie = 2,
      stats = \<lparr>SubscriptionsTotal = 0, SubscriptionsCurrent = 0\<rparr>, clientStats = Map.empty\<rparr>"

text \<open>The local variables \<^verbatim>\<open>index\<close> and \<^verbatim>\<open>topicTrie\<close> name one of the three pairs.\<close>

datatype trie_kind = KUser | KSystem | KShared

definition kind_of :: "bytes \<Rightarrow> bytes \<Rightarrow> trie_kind" where
  "kind_of shareName topicFilter =
     (if shareName \<noteq> [] then KShared else if isSystemTopic topicFilter then KSystem else KUser)"

fun index_of :: "trie_kind \<Rightarrow> TrieDB \<Rightarrow> index" where
  "index_of KUser db = userIndex db"
| "index_of KSystem db = systemIndex db"
| "index_of KShared db = sharedIndex db"

fun set_index :: "trie_kind \<Rightarrow> index \<Rightarrow> TrieDB \<Rightarrow> TrieDB" where
  "set_index KUser ix db = db\<lparr>userIndex := ix\<rparr>"
| "set_index KSystem ix db = db\<lparr>systemIndex := ix\<rparr>"
| "set_index KShared ix db = db\<lparr>sharedIndex := ix\<rparr>"

fun trie_of :: "trie_kind \<Rightarrow> TrieDB \<Rightarrow> ref" where
  "trie_of KUser db = db_userTrie db"
| "trie_of KSystem db = db_systemTrie db"
| "trie_of KShared db = db_sharedTrie db"

definition stats_add :: "uint64 \<Rightarrow> uint64 \<Rightarrow> Stats \<Rightarrow> Stats" where
  "stats_add tot cur s =
     s\<lparr>SubscriptionsTotal := SubscriptionsTotal s + tot, SubscriptionsCurrent := SubscriptionsCurrent s + cur\<rparr>"

section \<open>Operations\<close>

text \<open>The body of the loop of \<^verbatim>\<open>SubscribeLocked\<close>: whether the filter was there already, and the new store.\<close>

definition SubscribeLocked_one :: "bytes \<Rightarrow> Subscription \<Rightarrow> TrieDB \<Rightarrow> (bool \<times> TrieDB) res" where
  "SubscribeLocked_one clientID sub db =
     (let topicName = sb_TopicFilter sub;
          k = kind_of (sb_ShareName sub) topicName;
          (node, h) = trie_subscribe (trie_of k db) clientID sub (db_heap db);
          db = db\<lparr>db_heap := h\<rparr>;
          db = (if index_of k db clientID = None then
                  (let db = set_index k ((index_of k db)(clientID \<mapsto> [])) db in
                   if clientStats db clientID = None
                   then db\<lparr>clientStats := (clientStats db)(clientID \<mapsto> \<lparr>SubscriptionsTotal = 0, SubscriptionsCurrent = 0\<rparr>)\<rparr>
                   else db)
                else db);
          m = the (index_of k db clientID) in
      if map_of m topicName = None then
        (case clientStats db clientID of
           None \<Rightarrow> Inl Panic
         | Some cs \<Rightarrow>
             Inr (False, set_index k ((index_of k db)(clientID \<mapsto> al_put topicName node m))
               (db\<lparr>stats := stats_add 1 1 (stats db),
                   clientStats := (clientStats db)(clientID \<mapsto> stats_add 1 1 cs)\<rparr>)))
      else Inr (True, set_index k ((index_of k db)(clientID \<mapsto> al_put topicName node m)) db))"

fun SubscribeLocked :: "bytes \<Rightarrow> Subscription list \<Rightarrow> TrieDB \<Rightarrow> ((Subscription \<times> bool) list \<times> TrieDB) res" where
  "SubscribeLocked clientID [] db = Inr ([], db)"
| "SubscribeLocked clientID (sub # subs) db =
     rbind (SubscribeLocked_one clientID sub db) (\<lambda>(existed, db').
     rbind (SubscribeLocked clientID subs db') (\<lambda>(rs, db'').
     Inr ((sub, existed) # rs, db'')))"

definition UnsubscribeLocked_one :: "bytes \<Rightarrow> bytes \<Rightarrow> TrieDB \<Rightarrow> TrieDB res" where
  "UnsubscribeLocked_one clientID topic0 db =
     (let (shareName, topic) = SplitTopic topic0;
          k = kind_of shareName topic in
      rbind (case index_of k db clientID of
          None \<Rightarrow> Inr db
        | Some m \<Rightarrow>
            rbind (if map_of m topic \<noteq> None then
                (case clientStats db clientID of
                   None \<Rightarrow> Inl Panic
                 | Some cs \<Rightarrow> Inr (db\<lparr>stats := stats_add 0 (- 1) (stats db),
                     clientStats := (clientStats db)(clientID \<mapsto> stats_add 0 (- 1) cs)\<rparr>))
              else Inr db) (\<lambda>db'.
            Inr (set_index k ((index_of k db')(clientID \<mapsto> al_del topic m)) db'))) (\<lambda>db1.
      rbind (trie_unsubscribe (trie_of k db1) clientID topic shareName (db_heap db1)) (\<lambda>h.
      Inr (db1\<lparr>db_heap := h\<rparr>))))"

fun UnsubscribeLocked :: "bytes \<Rightarrow> bytes list \<Rightarrow> TrieDB \<Rightarrow> TrieDB res" where
  "UnsubscribeLocked clientID [] db = Inr db"
| "UnsubscribeLocked clientID (topic # topics) db =
     rbind (UnsubscribeLocked_one clientID topic db) (UnsubscribeLocked clientID topics)"

text \<open>The loop of \<^verbatim>\<open>unsubscribeAll\<close> over one client's index.\<close>

fun unsubscribeAll_nodes :: "bytes \<Rightarrow> (bytes \<times> ref) list \<Rightarrow> heap \<Rightarrow> heap res" where
  "unsubscribeAll_nodes clientID [] h = Inr h"
| "unsubscribeAll_nodes clientID ((topicName, node) # m) h =
     (let h1 = h[node := (h ! node)\<lparr>sn_clients := al_del clientID (sn_clients (h ! node))\<rparr>] in
      rbind (if length (sn_clients (h1 ! node)) = 0 \<and> length (sn_children (h1 ! node)) = 0
             then cut_off node (last (split_levels topicName)) h1 else Inr h1)
        (unsubscribeAll_nodes clientID m))"

definition unsubscribeAll :: "trie_kind \<Rightarrow> bytes \<Rightarrow> TrieDB \<Rightarrow> TrieDB res" where
  "unsubscribeAll k clientID db =
     (let m = (case index_of k db clientID of None \<Rightarrow> [] | Some m \<Rightarrow> m);
          n = word_of_nat (length m) :: uint64;
          db1 = db\<lparr>stats := stats_add 0 (- n) (stats db),
                  clientStats := (case clientStats db clientID of
                     None \<Rightarrow> clientStats db
                   | Some cs \<Rightarrow> (clientStats db)(clientID \<mapsto> stats_add 0 (- n) cs))\<rparr> in
      rbind (unsubscribeAll_nodes clientID m (db_heap db1)) (\<lambda>h.
      Inr (set_index k ((index_of k db1)(clientID := None)) (db1\<lparr>db_heap := h\<rparr>))))"

definition UnsubscribeAllLocked :: "bytes \<Rightarrow> TrieDB \<Rightarrow> TrieDB res" where
  "UnsubscribeAllLocked clientID db =
     rbind (unsubscribeAll KUser clientID db) (\<lambda>db1.
     rbind (unsubscribeAll KSystem clientID db1) (\<lambda>db2.
     unsubscribeAll KShared clientID db2))"

definition GetStatusLocked :: "TrieDB \<Rightarrow> Stats" where
  "GetStatusLocked db = stats db"

definition ErrClientNotExists :: error where
  "ErrClientNotExists = ErrText ''client not exists''"

definition GetClientStatsLocked :: "bytes \<Rightarrow> TrieDB \<Rightarrow> Stats res" where
  "GetClientStatsLocked clientID db =
     (case clientStats db clientID of None \<Rightarrow> Inl ErrClientNotExists | Some s \<Rightarrow> Inr s)"

definition db_getMatchedTopicFilter :: "bytes \<Rightarrow> TrieDB \<Rightarrow> ClientSubscriptions res" where
  "db_getMatchedTopicFilter topicName db =
     (if isSystemTopic topicName then trie_getMatchedTopicFilter (db_heap db) (db_systemTrie db) topicName
      else trie_getMatchedTopicFilter (db_heap db) (db_userTrie db) topicName)"

section \<open>Iteration\<close>

abbreviation (input) TypeSYS :: byte where "TypeSYS \<equiv> 1"
abbreviation (input) TypeShared :: byte where "TypeShared \<equiv> 2"
abbreviation (input) TypeNonShared :: byte where "TypeNonShared \<equiv> 4"
abbreviation (input) TypeAll :: byte where "TypeAll \<equiv> 7"
abbreviation (input) MatchName :: byte where "MatchName \<equiv> 1"
abbreviation (input) MatchFilter :: byte where "MatchFilter \<equiv> 2"

record IterationOptions =
  it_Type :: byte
  it_ClientID :: bytes
  it_TopicName :: bytes
  it_MatchType :: byte

definition OutOfFuel :: error where
  "OutOfFuel = ErrText ''out of fuel''"

text \<open>A traversal of the whole trie, with as much fuel as the heap has cells.\<close>

definition traverse_all :: "'s SubIterateFn \<Rightarrow> heap \<Rightarrow> ref \<Rightarrow> 's \<Rightarrow> ('s \<times> bool) res" where
  "traverse_all fn h t s =
     (case sub_preOrderTraverse (length h) fn h t s of None \<Rightarrow> Inl OutOfFuel | Some r \<Rightarrow> Inr r)"

text \<open>The pairs that the loops over the result of a match visit.\<close>

definition matched_pairs :: "bytes \<Rightarrow> ClientSubscriptions \<Rightarrow> (bytes \<times> Subscription) list" where
  "matched_pairs clientID rs =
     (if clientID \<noteq> [] then map (Pair clientID) (case map_of rs clientID of None \<Rightarrow> [] | Some l \<Rightarrow> l)
      else rs_pairs rs)"

definition opt_pair :: "bytes \<Rightarrow> clientOpts \<Rightarrow> (bytes \<times> Subscription) list" where
  "opt_pair clientID c = (case map_of c clientID of None \<Rightarrow> [] | Some sub \<Rightarrow> [(clientID, sub)])"

definition iterateShared ::
    "'s SubIterateFn \<Rightarrow> IterationOptions \<Rightarrow> index \<Rightarrow> heap \<Rightarrow> ref \<Rightarrow> 's \<Rightarrow> ('s \<times> bool) res" where
  "iterateShared fn options index h t s =
     (if it_TopicName options \<noteq> [] \<and> it_MatchType options = MatchName then
        (if HasPrefix (it_TopicName options) share_prefix then
           (case SplitN (it_TopicName options) 3 of
              [_, shareName, topicFilter] \<Rightarrow>
                (case trie_find h t topicFilter of
                   None \<Rightarrow> Inr (s, True)
                 | Some node \<Rightarrow>
                     (case map_of (sn_shared (h ! node)) shareName of
                        None \<Rightarrow> Inr (s, True)
                      | Some c \<Rightarrow>
                          Inr (iter_subs fn (if it_ClientID options \<noteq> [] then opt_pair (it_ClientID options) c else c) s)))
            | _ \<Rightarrow> Inl Panic)
         else Inr (s, True))
      else if it_TopicName options \<noteq> [] \<and> it_MatchType options = MatchFilter then
        rbind (trie_getMatchedTopicFilter h t (it_TopicName options)) (\<lambda>rs.
        Inr (iter_subs fn (matched_pairs (it_ClientID options) rs) s))
      else if it_ClientID options \<noteq> [] then
        Inr (iter_subs fn
          (concat (map (\<lambda>(_, v). concat (map (\<lambda>(_, c). opt_pair (it_ClientID options) c) (sn_shared (h ! v))))
             (case index (it_ClientID options) of None \<Rightarrow> [] | Some m \<Rightarrow> m))) s)
      else traverse_all fn h t s)"

text \<open>
  In the branch for one client the source reads \<^verbatim>\<open>v.clients[options.ClientID]\<close> without a check: where
  the client has no entry the callback would be given nil.
\<close>

definition client_pairs :: "bytes \<Rightarrow> heap \<Rightarrow> (bytes \<times> ref) list \<Rightarrow> (bytes \<times> Subscription) list option" where
  "client_pairs clientID h m =
     those (map (\<lambda>(_, v). map_option (Pair clientID) (map_of (sn_clients (h ! v)) clientID)) m)"

definition iterateNonShared ::
    "'s SubIterateFn \<Rightarrow> IterationOptions \<Rightarrow> index \<Rightarrow> heap \<Rightarrow> ref \<Rightarrow> 's \<Rightarrow> ('s \<times> bool) res" where
  "iterateNonShared fn options index h t s =
     (if it_TopicName options \<noteq> [] \<and> it_MatchType options = MatchName then
        (case trie_find h t (it_TopicName options) of
           None \<Rightarrow> Inr (s, True)
         | Some node \<Rightarrow>
             Inr (iter_subs fn
               (if it_ClientID options \<noteq> []
                then opt_pair (it_ClientID options) (sn_clients (h ! node))
                  @ concat (map (\<lambda>(_, c). opt_pair (it_ClientID options) c) (sn_shared (h ! node)))
                else node_subs (h ! node)) s))
      else if it_TopicName options \<noteq> [] \<and> it_MatchType options = MatchFilter then
        rbind (trie_getMatchedTopicFilter h t (it_TopicName options)) (\<lambda>rs.
        Inr (iter_subs fn (matched_pairs (it_ClientID options) rs) s))
      else if it_ClientID options \<noteq> [] then
        (case client_pairs (it_ClientID options) h (case index (it_ClientID options) of None \<Rightarrow> [] | Some m \<Rightarrow> m) of
           None \<Rightarrow> Inl Panic
         | Some es \<Rightarrow> Inr (iter_subs fn es s))
      else traverse_all fn h t s)"

definition IterateLocked :: "'s SubIterateFn \<Rightarrow> IterationOptions \<Rightarrow> TrieDB \<Rightarrow> 's \<Rightarrow> 's res" where
  "IterateLocked fn options db s =
     (let h = db_heap db; topic = it_TopicName options in
      rbind (if it_Type options AND TypeShared = TypeShared
             then iterateShared fn options (sharedIndex db) h (db_sharedTrie db) s
             else Inr (s, True)) (\<lambda>(s, b).
      if \<not> b then Inr s else
      rbind (if it_Type options AND TypeNonShared = TypeNonShared \<and> \<not> (topic \<noteq> [] \<and> isSystemTopic topic)
             then iterateNonShared fn options (userIndex db) h (db_userTrie db) s
             else Inr (s, True)) (\<lambda>(s, b).
      if \<not> b then Inr s else
      rbind (if it_Type options AND TypeSYS = TypeSYS \<and> \<not> (topic \<noteq> [] \<and> \<not> isSystemTopic topic)
             then iterateNonShared fn options (systemIndex db) h (db_systemTrie db) s
             else Inr (s, True)) (\<lambda>(s, b).
      Inr s))))"

text \<open>The queries of the package \<^verbatim>\<open>subscription\<close>.\<close>

definition collect :: "ClientSubscriptions SubIterateFn" where
  "collect e rs = (rs_append e rs, True)"

definition GetTopicMatched :: "TrieDB \<Rightarrow> bytes \<Rightarrow> byte \<Rightarrow> ClientSubscriptions res" where
  "GetTopicMatched store topicFilter t =
     IterateLocked collect \<lparr>it_Type = t, it_ClientID = [], it_TopicName = topicFilter, it_MatchType = MatchFilter\<rparr> store []"

definition Sub_Get :: "TrieDB \<Rightarrow> bytes \<Rightarrow> byte \<Rightarrow> ClientSubscriptions res" where
  "Sub_Get store topicFilter t =
     IterateLocked collect \<lparr>it_Type = t, it_ClientID = [], it_TopicName = topicFilter, it_MatchType = MatchName\<rparr> store []"

definition GetClientSubscriptions :: "TrieDB \<Rightarrow> bytes \<Rightarrow> byte \<Rightarrow> Subscription list res" where
  "GetClientSubscriptions store clientID t =
     IterateLocked (\<lambda>e rs. (rs @ [snd e], True))
       \<lparr>it_Type = t, it_ClientID = clientID, it_TopicName = [], it_MatchType = 0\<rparr> store []"

section \<open>Regions of the heap\<close>

text \<open>The root a cell belongs to, found along its parents also when it has been cut off.\<close>

function root_of :: "heap \<Rightarrow> ref \<Rightarrow> ref" where
  "root_of h r = (case sn_parent (h ! r) of None \<Rightarrow> r | Some p \<Rightarrow> if p < r then root_of h p else r)"
  by pat_completeness auto
termination
  by (relation "measure snd") auto

declare root_of.simps [simp del]

lemma root_of_root: "is_root h t \<Longrightarrow> root_of h t = t"
  by (simp add: root_of.simps is_root_def)

lemma root_of_child:
  assumes "heap_wf h" and "r < length h" and "child h r lv = Some c"
  shows "root_of h c = root_of h r"
  using child_ok [OF assms] by (subst root_of.simps) simp

lemma root_of_walk:
  assumes "heap_wf h" and "r < length h" and "trie_walk h r p = Some x"
  shows "root_of h x = root_of h r"
  using assms(2,3)
proof (induction p arbitrary: r)
  case (Cons lv p)
  then obtain c where c: "child h r lv = Some c" "trie_walk h c p = Some x" by (auto split: option.splits)
  show ?case using Cons.IH [OF _ c(2)] child_ok [OF assms(1) Cons.prems(1) c(1)]
      root_of_child [OF assms(1) Cons.prems(1) c(1)] by simp
qed simp

lemma parent_less:
  assumes "heap_wf h" and "r < length h" and "sn_parent (h ! r) = Some p"
  shows "p < r"
  using heap_wfD [OF assms(1,2)] assms(3) unfolding cell_ok_def by blast

lemma root_of_parent:
  assumes "heap_wf h" and "r < length h" and "sn_parent (h ! r) = Some p"
  shows "root_of h p = root_of h r"
  using parent_less [OF assms] assms(3) by (subst root_of.simps [of h r]) simp

lemma root_of_same:
  assumes "heap_wf h" and "\<forall>r<length h. sn_parent (h' ! r) = sn_parent (h ! r)" and "r < length h"
  shows "root_of h' r = root_of h r"
  using assms(3)
proof (induction r rule: less_induct)
  case (less r)
  show ?case
  proof (cases "sn_parent (h ! r)")
    case None
    then show ?thesis using assms(2) less.prems by (simp add: root_of.simps)
  next
    case (Some p)
    have "p < r" using parent_less [OF assms(1) less.prems Some] .
    then show ?thesis using less.IH [of p] less.prems Some assms(2)
      by (subst (1 2) root_of.simps) simp
  qed
qed

text \<open>A change inside one region leaves the paths of the others alone.\<close>

lemma trie_walk_outside:
  assumes "heap_wf h" and "t < length h" and "\<And>z. z < length h \<Longrightarrow> root_of h z = root_of h t \<Longrightarrow> h' ! z = h ! z"
  shows "trie_walk h' t q = trie_walk h t q"
  using assms(2,3)
proof (induction q arbitrary: t)
  case (Cons lv q)
  have e: "h' ! t = h ! t" using Cons.prems by simp
  show ?case
  proof (cases "child h t lv")
    case (Some c)
    have "trie_walk h' c q = trie_walk h c q"
      using Cons.prems child_ok [OF assms(1) Cons.prems(1) Some] root_of_child [OF assms(1) Cons.prems(1) Some]
      by (intro Cons.IH) auto
    with Some e show ?thesis by simp
  qed (use e in simp)
qed simp

lemma content_outside:
  assumes "heap_wf h" and "t < length h" and "\<And>z. z < length h \<Longrightarrow> root_of h z = root_of h t \<Longrightarrow> h' ! z = h ! z"
  shows "tclients h' t q = tclients h t q" "tshared h' t q = tshared h t q"
proof -
  have "h' ! x = h ! x" if "trie_walk h t q = Some x" for x
    using assms(3) [of x] root_of_walk [OF assms(1,2) that] trie_walk_less [OF assms(1,2) that] by simp
  moreover have "trie_walk h' t q = trie_walk h t q" using assms by (rule trie_walk_outside)
  ultimately show "tclients h' t q = tclients h t q" "tshared h' t q = tshared h t q"
    by (auto simp: tclients_def tshared_def split: option.split)
qed

section \<open>The index of one trie\<close>

definition idx_rel :: "heap \<Rightarrow> ref \<Rightarrow> index \<Rightarrow> bool" where
  "idx_rel h t ix \<longleftrightarrow>
     (\<forall>c f r. (\<exists>m. ix c = Some m \<and> map_of m f = Some r) \<longleftrightarrow>
        trie_walk h t (split_levels f) = Some r \<and> map_of (tclients h t (split_levels f)) c \<noteq> None)"

lemma heap_step_root: "heap_step h h' \<Longrightarrow> is_root h r \<Longrightarrow> is_root h' r"
  by (auto simp: heap_step_def is_root_def)

lemma tclients_None: "trie_walk h t p = None \<Longrightarrow> tclients h t p = [] \<and> tshared h t p = []"
  by (simp add: tclients_def tshared_def)

text \<open>Where a client stays, its node stays.\<close>

lemma heap_step_node:
  assumes "heap_step h h'" and "is_root h t"
    and "map_of (tclients h t p) c \<noteq> None" and "map_of (tclients h' t p) c \<noteq> None"
  shows "trie_walk h' t p = trie_walk h t p"
  using assms tclients_None [of h t p] tclients_None [of h' t p]
  unfolding heap_step_def by (metis map_of.simps(1) option.exhaust)

lemma idx_rel_step:
  assumes "idx_rel h t ix" and "heap_step h h'" and "is_root h t" and "\<And>q. tclients h' t q = tclients h t q"
  shows "idx_rel h' t ix"
  using assms(1) heap_step_node [OF assms(2,3)] unfolding idx_rel_def assms(4) by metis

lemma idx_rel_put:
  assumes "idx_rel h t ix" and "heap_step h h'" and "is_root h t"
    and "trie_walk h' t (split_levels f0) = Some x"
    and "\<And>q. tclients h' t q = (if q = split_levels f0 then al_put c0 s (tclients h t q) else tclients h t q)"
  shows "idx_rel h' t (ix(c0 \<mapsto> al_put f0 x (case ix c0 of None \<Rightarrow> [] | Some m \<Rightarrow> m)))"
  unfolding idx_rel_def
proof (intro allI)
  fix c f r
  let ?p = "split_levels f"
  have "(\<exists>m. ix c = Some m \<and> map_of m f = Some r) \<longleftrightarrow> trie_walk h t ?p = Some r \<and> map_of (tclients h t ?p) c \<noteq> None"
    using assms(1) unfolding idx_rel_def by blast
  moreover have m: "map_of (tclients h' t ?p) c \<noteq> None \<longleftrightarrow> map_of (tclients h t ?p) c \<noteq> None \<or> f = f0 \<and> c = c0"
    using assms(5) by simp
  moreover have "trie_walk h' t ?p = trie_walk h t ?p" if "map_of (tclients h t ?p) c \<noteq> None"
    using heap_step_node [OF assms(2,3) that] that m by blast
  ultimately show "(\<exists>m. (ix(c0 \<mapsto> al_put f0 x (case ix c0 of None \<Rightarrow> [] | Some m \<Rightarrow> m))) c = Some m \<and> map_of m f = Some r)
      \<longleftrightarrow> trie_walk h' t ?p = Some r \<and> map_of (tclients h' t ?p) c \<noteq> None"
    using assms(4) by (cases "c = c0"; cases "f = f0") (auto split: option.splits)
qed

lemma idx_rel_del:
  assumes "idx_rel h t ix" and "heap_step h h'" and "is_root h t"
    and "\<And>q. tclients h' t q = (if q = split_levels f0 then al_del c0 (tclients h t q) else tclients h t q)"
  shows "idx_rel h' t (case ix c0 of None \<Rightarrow> ix | Some m \<Rightarrow> ix(c0 \<mapsto> al_del f0 m))"
  unfolding idx_rel_def
proof (intro allI)
  fix c f r
  let ?p = "split_levels f"
  have "(\<exists>m. ix c = Some m \<and> map_of m f = Some r) \<longleftrightarrow> trie_walk h t ?p = Some r \<and> map_of (tclients h t ?p) c \<noteq> None"
    using assms(1) unfolding idx_rel_def by blast
  moreover have m: "map_of (tclients h' t ?p) c \<noteq> None \<longleftrightarrow> map_of (tclients h t ?p) c \<noteq> None \<and> \<not> (f = f0 \<and> c = c0)"
    using assms(4) by simp
  moreover have "trie_walk h' t ?p = trie_walk h t ?p" if "map_of (tclients h' t ?p) c \<noteq> None"
    using heap_step_node [OF assms(2,3) _ that] that m by simp
  ultimately show "(\<exists>m. (case ix c0 of None \<Rightarrow> ix | Some m \<Rightarrow> ix(c0 \<mapsto> al_del f0 m)) c = Some m \<and> map_of m f = Some r)
      \<longleftrightarrow> trie_walk h' t ?p = Some r \<and> map_of (tclients h' t ?p) c \<noteq> None"
    by (cases "c = c0"; cases "f = f0") (auto split: option.splits)
qed

section \<open>Removing nodes\<close>

definition heap_shrink :: "heap \<Rightarrow> heap \<Rightarrow> bool" where
  "heap_shrink h h' \<longleftrightarrow> heap_wf h' \<and> length h' = length h \<and> (\<forall>r<length h. sn_parent (h' ! r) = sn_parent (h ! r))
     \<and> (\<forall>r q y. r < length h \<longrightarrow> trie_walk h' r q = Some y \<longrightarrow> trie_walk h r q = Some y)"

lemma heap_shrink_refl: "heap_wf h \<Longrightarrow> heap_shrink h h"
  by (simp add: heap_shrink_def)

lemma heap_shrink_trans: "heap_shrink h1 h2 \<Longrightarrow> heap_shrink h2 h3 \<Longrightarrow> heap_shrink h1 h3"
  by (simp add: heap_shrink_def)

lemma heap_shrink_step: "heap_shrink h h' \<Longrightarrow> heap_step h h'"
  unfolding heap_shrink_def heap_step_def is_root_def by (metis le_refl not_None_eq option.inject)

lemma trie_walk_submap:
  assumes "heap_wf h" and "\<And>r lv c. r < length h \<Longrightarrow> child h' r lv = Some c \<Longrightarrow> child h r lv = Some c"
  shows "r < length h \<Longrightarrow> trie_walk h' r q = Some y \<Longrightarrow> trie_walk h r q = Some y"
proof (induction q arbitrary: r)
  case (Cons lv q)
  from Cons.prems(2) obtain c where c: "child h' r lv = Some c" "trie_walk h' c q = Some y"
    by (cases "child h' r lv") auto
  have "child h r lv = Some c" using assms(2) [OF Cons.prems(1) c(1)] .
  then show ?case using Cons.IH [OF _ c(2)] child_ok [OF assms(1) Cons.prems(1)] by simp
qed simp

text \<open>The body of \<^verbatim>\<open>unsubscribeAll\<close>: the client leaves a node, which may be cut off under any name.\<close>

definition leave_node :: "bytes \<Rightarrow> bytes \<Rightarrow> ref \<Rightarrow> heap \<Rightarrow> heap res" where
  "leave_node clientID topicName node h =
     (let h1 = h[node := (h ! node)\<lparr>sn_clients := al_del clientID (sn_clients (h ! node))\<rparr>] in
      if length (sn_clients (h1 ! node)) = 0 \<and> length (sn_children (h1 ! node)) = 0
      then cut_off node (last (split_levels topicName)) h1 else Inr h1)"

lemma unsubscribeAll_nodes_Cons:
  "unsubscribeAll_nodes c ((f, r) # m) h = rbind (leave_node c f r h) (unsubscribeAll_nodes c m)"
  by (simp add: leave_node_def Let_def)

lemma leave_node_shrink:
  assumes wf: "heap_wf h" and r: "r < length h" and "sn_parent (h ! r) \<noteq> None"
  shows "\<exists>h'. leave_node c f r h = Inr h' \<and> heap_shrink h h'
    \<and> (\<forall>z<length h. root_of h z \<noteq> root_of h r \<longrightarrow> h' ! z = h ! z)
    \<and> (\<forall>z<length h. (sn_clients (h ! z) = [] \<longrightarrow> sn_clients (h' ! z) = []) \<and> sn_shared (h' ! z) = sn_shared (h ! z))"
proof -
  let ?n = "(h ! r)\<lparr>sn_clients := al_del c (sn_clients (h ! r))\<rparr>"
  let ?h = "h[r := ?n]"
  obtain p where p: "sn_parent (h ! r) = Some p" using assms(3) by auto
  have pr: "p < r" using parent_less [OF wf r p] .
  have wf1: "heap_wf ?h" using heap_wf_update [OF wf r] node_okD [OF wf r] by (simp add: node_ok_def)
  have par: "sn_parent (?h ! z) = sn_parent (h ! z)" "sn_children (?h ! z) = sn_children (h ! z)" for z
    using r by (cases "z = r"; simp)+
  have one: "heap_shrink h ?h" using wf1 par(1) by (auto simp: heap_shrink_def trie_walk_update)
  let ?h' = "?h[p := (?h ! p)\<lparr>sn_children := al_del (last (split_levels f)) (sn_children (?h ! p))\<rparr>]"
  have two: "heap_shrink ?h ?h'"
  proof -
    have "p < length ?h" using pr r by simp
    moreover have "sn_parent (?h' ! z) = sn_parent (?h ! z)" for z using \<open>p < length ?h\<close> by (cases "z = p") simp_all
    moreover have "child ?h' z lv = Some d \<Longrightarrow> child ?h z lv = Some d" for z lv d
      using \<open>p < length ?h\<close> by (cases "z = p") (auto split: if_splits)
    ultimately show ?thesis
      using heap_wf_cut [OF wf1, of p] trie_walk_submap [OF wf1, of ?h'] unfolding heap_shrink_def by simp
  qed
  have "root_of h p = root_of h r" using root_of_parent [OF wf r p] .
  then have fr: "?h' ! z = h ! z \<and> ?h ! z = h ! z" if "root_of h z \<noteq> root_of h r" for z
    using that by (metis nth_list_update_neq)
  have cl: "sn_clients (?h' ! z) = [] \<and> sn_clients (?h ! z) = []" if "sn_clients (h ! z) = []" for z
    using r pr that by (cases "z = p"; cases "z = r") (auto simp: al_del_def)
  have sd: "sn_shared (?h' ! z) = sn_shared (h ! z) \<and> sn_shared (?h ! z) = sn_shared (h ! z)" for z
    using r pr by (cases "z = p"; cases "z = r") auto
  define h' where "h' = (if sn_clients ?n = [] \<and> sn_children ?n = [] then ?h' else ?h)"
  have "leave_node c f r h = Inr h'"
    unfolding h'_def using r p by (simp add: leave_node_def cut_off_def Let_def)
  moreover have "heap_shrink h h'" unfolding h'_def using one heap_shrink_trans [OF one two] by (simp only: simp_thms split: if_split)
  moreover have "h' ! z = h ! z" if "root_of h z \<noteq> root_of h r" for z
    unfolding h'_def using fr [OF that] by (simp only: simp_thms split: if_split)
  moreover have "sn_clients (h' ! z) = []" if "sn_clients (h ! z) = []" for z
    unfolding h'_def using cl [OF that] by (simp only: simp_thms split: if_split)
  moreover have "sn_shared (h' ! z) = sn_shared (h ! z)" for z
    unfolding h'_def using sd [of z] by (simp only: simp_thms split: if_split)
  ultimately show ?thesis by blast
qed

lemma unsubscribeAll_region:
  assumes "heap_wf h" and "\<forall>(f, r)\<in>set m. r < length h \<and> root_of h r = t \<and> sn_parent (h ! r) \<noteq> None"
  shows "\<exists>h'. unsubscribeAll_nodes c m h = Inr h' \<and> heap_shrink h h'
    \<and> (\<forall>z<length h. root_of h z \<noteq> t \<longrightarrow> h' ! z = h ! z)
    \<and> (\<forall>z<length h. (sn_clients (h ! z) = [] \<longrightarrow> sn_clients (h' ! z) = []) \<and> sn_shared (h' ! z) = sn_shared (h ! z))"
  using assms
proof (induction m arbitrary: h)
  case Nil
  then show ?case by (simp add: heap_shrink_refl)
next
  case (Cons e m)
  obtain f r where e: "e = (f, r)" by fastforce
  with Cons.prems have r: "r < length h" "root_of h r = t" "sn_parent (h ! r) \<noteq> None" by auto
  obtain h1 where h1: "leave_node c f r h = Inr h1" "heap_shrink h h1"
    "\<forall>z<length h. root_of h z \<noteq> t \<longrightarrow> h1 ! z = h ! z"
    "\<forall>z<length h. (sn_clients (h ! z) = [] \<longrightarrow> sn_clients (h1 ! z) = []) \<and> sn_shared (h1 ! z) = sn_shared (h ! z)"
    using leave_node_shrink [OF Cons.prems(1) r(1,3), of c f] r(2) by auto
  then have l: "length h1 = length h" and wf1: "heap_wf h1"
    and par: "\<forall>r<length h. sn_parent (h1 ! r) = sn_parent (h ! r)" by (simp_all add: heap_shrink_def)
  have ro: "root_of h1 z = root_of h z" if "z < length h" for z
    using root_of_same [OF Cons.prems(1) par that] .
  have "\<forall>(f, r)\<in>set m. r < length h1 \<and> root_of h1 r = t \<and> sn_parent (h1 ! r) \<noteq> None"
    using Cons.prems(2) l ro par by fastforce
  from Cons.IH [OF wf1 this] obtain h2 where h2: "unsubscribeAll_nodes c m h1 = Inr h2" "heap_shrink h1 h2"
    "\<forall>z<length h1. root_of h1 z \<noteq> t \<longrightarrow> h2 ! z = h1 ! z"
    "\<forall>z<length h1. (sn_clients (h1 ! z) = [] \<longrightarrow> sn_clients (h2 ! z) = []) \<and> sn_shared (h2 ! z) = sn_shared (h1 ! z)"
    by blast
  have "unsubscribeAll_nodes c (e # m) h = Inr h2"
    unfolding e unsubscribeAll_nodes_Cons h1(1) using h2(1) by simp
  then show ?case using heap_shrink_trans [OF h1(2) h2(2)] h1(3,4) h2(3,4) l ro by auto
qed

text \<open>On a trie of non-shared subscriptions the nodes are where the index says, and only the client goes.\<close>

lemma leave_node_content:
  assumes wf: "heap_wf h" and root: "is_root h t" and w: "trie_walk h t (split_levels f) = Some r"
    and "tshared h t (split_levels f) = []"
  shows "\<exists>h'. leave_node c f r h = Inr h' \<and> heap_shrink h h'
    \<and> (\<forall>u q. is_root h u \<longrightarrow>
         tclients h' u q = (if u = t \<and> q = split_levels f then al_del c (tclients h u q) else tclients h u q)
         \<and> tshared h' u q = tshared h u q)"
proof -
  have tl: "t < length h" using root by (simp add: is_root_def)
  have r: "r < length h" "t < r" using trie_walk_less [OF wf tl w] by simp_all
  have "sn_parent (h ! r) \<noteq> None"
  proof
    assume "sn_parent (h ! r) = None"
    with r have "is_root h r" by (simp add: is_root_def)
    then have "r = t" using trie_walk_inj [OF wf, of r t "[]" r "split_levels f"] root w by (simp add: is_root_def)
    with r show False by simp
  qed
  from leave_node_shrink [OF wf r(1) this, of c f] obtain h' where h': "leave_node c f r h = Inr h'" "heap_shrink h h'"
    by blast
  have "trie_unsubscribe t c f [] h = leave_node c f r h"
    using w by (simp add: trie_unsubscribe_def leave_node_def Let_def)
  then show ?thesis using trie_unsubscribe_ok [OF wf root, of "[]" f c] assms(4) h' by auto
qed

lemma al_del_idem: "al_del c (al_del c m) = al_del c m"
  by (simp add: al_del_def)

lemma unsubscribeAll_content:
  assumes "heap_wf h" and "is_root h t" and "\<And>q. tshared h t q = []" and "distinct (map fst m)"
    and "\<forall>(f, r)\<in>set m. trie_walk h t (split_levels f) = Some r \<and> map_of (tclients h t (split_levels f)) c \<noteq> None"
  shows "\<exists>h'. unsubscribeAll_nodes c m h = Inr h' \<and> heap_shrink h h'
    \<and> (\<forall>u q. is_root h u \<longrightarrow>
         tclients h' u q = (if u = t \<and> q \<in> split_levels ` fst ` set m then al_del c (tclients h u q) else tclients h u q)
         \<and> tshared h' u q = tshared h u q)"
  using assms
proof (induction m arbitrary: h)
  case Nil
  then show ?case by (simp add: heap_shrink_refl)
next
  case (Cons e m)
  obtain f r where e: "e = (f, r)" by fastforce
  with Cons.prems have w: "trie_walk h t (split_levels f) = Some r" by auto
  obtain h1 where h1: "leave_node c f r h = Inr h1" "heap_shrink h h1"
    and ct: "\<forall>u q. is_root h u \<longrightarrow>
         tclients h1 u q = (if u = t \<and> q = split_levels f then al_del c (tclients h u q) else tclients h u q)
         \<and> tshared h1 u q = tshared h u q"
    using leave_node_content [OF Cons.prems(1,2) w Cons.prems(3), of c] by auto
  have root: "is_root h u \<Longrightarrow> is_root h1 u" for u using heap_step_root heap_shrink_step h1(2) by blast
  have wf1: "heap_wf h1" using h1(2) by (simp add: heap_shrink_def)
  have nx: "\<forall>(f', r')\<in>set m. trie_walk h1 t (split_levels f') = Some r' \<and> map_of (tclients h1 t (split_levels f')) c \<noteq> None"
  proof clarify
    fix f' r' assume m: "(f', r') \<in> set m"
    with Cons.prems e have f': "f' \<noteq> f" by force
    have o: "trie_walk h t (split_levels f') = Some r'" "map_of (tclients h t (split_levels f')) c \<noteq> None"
      using Cons.prems(5) m e by auto
    have n: "map_of (tclients h1 t (split_levels f')) c \<noteq> None" using ct Cons.prems(2) f' o(2) by simp
    have "trie_walk h1 t (split_levels f') = Some r'"
      using heap_step_node [OF heap_shrink_step [OF h1(2)] Cons.prems(2) o(2) n] o(1) by simp
    with n show "trie_walk h1 t (split_levels f') = Some r' \<and> map_of (tclients h1 t (split_levels f')) c \<noteq> None" by simp
  qed
  have "\<And>q. tshared h1 t q = []" using ct Cons.prems(2,3) by simp
  from Cons.IH [OF wf1 root [OF Cons.prems(2)] this _ nx] obtain h2 where
    h2: "unsubscribeAll_nodes c m h1 = Inr h2" "heap_shrink h1 h2"
    and ct2: "\<forall>u q. is_root h1 u \<longrightarrow>
         tclients h2 u q = (if u = t \<and> q \<in> split_levels ` fst ` set m then al_del c (tclients h1 u q) else tclients h1 u q)
         \<and> tshared h2 u q = tshared h1 u q"
    using Cons.prems(4) by auto
  have "unsubscribeAll_nodes c (e # m) h = Inr h2"
    unfolding e unsubscribeAll_nodes_Cons h1(1) using h2(1) by simp
  moreover have "tclients h2 u q = (if u = t \<and> q \<in> split_levels ` fst ` set (e # m) then al_del c (tclients h u q) else tclients h u q)
      \<and> tshared h2 u q = tshared h u q" if "is_root h u" for u q
    using ct ct2 root that e by (auto simp: al_del_idem)
  ultimately show ?case using heap_shrink_trans [OF h1(2) h2(2)] by blast
qed

section \<open>The abstract store and the invariant\<close>

text \<open>The subscription of a client for a share name and a filter.\<close>

definition sub_at :: "TrieDB \<Rightarrow> bytes \<Rightarrow> bytes \<Rightarrow> bytes \<Rightarrow> Subscription option" where
  "sub_at db c name f =
     (let t = trie_of (kind_of name f) db in
      if name = [] then map_of (tclients (db_heap db) t (split_levels f)) c
      else (case map_of (tshared (db_heap db) t (split_levels f)) name of None \<Rightarrow> None | Some l \<Rightarrow> map_of l c))"

text \<open>
  The three tries do not overlap, each holds its kind of subscriptions, and the filters of system
  topics are kept apart from the others.
\<close>

definition tries_ok :: "TrieDB \<Rightarrow> bool" where
  "tries_ok db \<longleftrightarrow> heap_wf (db_heap db) \<and> (\<forall>k. is_root (db_heap db) (trie_of k db))
     \<and> (\<forall>k k'. trie_of k db = trie_of k' db \<longrightarrow> k = k')
     \<and> (\<forall>p. tclients (db_heap db) (trie_of KShared db) p = [])
     \<and> (\<forall>k p. k \<noteq> KShared \<longrightarrow> tshared (db_heap db) (trie_of k db) p = [])
     \<and> (\<forall>k p. k \<noteq> KShared \<longrightarrow> tclients (db_heap db) (trie_of k db) p \<noteq> [] \<longrightarrow>
          (\<exists>f. p = split_levels f \<and> kind_of [] f = k))
     \<and> (\<forall>p. tshared (db_heap db) (trie_of KShared db) p \<noteq> [] \<longrightarrow> (\<exists>f. p = split_levels f))
     \<and> (\<forall>p. [] \<notin> fst ` set (tshared (db_heap db) (trie_of KShared db) p))"

text \<open>
  The indexes of the non-shared tries are exact.  The index of the shared trie may hold nodes that
  were cut off, but never a root or a node of another trie.
\<close>

definition index_ok :: "TrieDB \<Rightarrow> bool" where
  "index_ok db \<longleftrightarrow>
     (\<forall>k. k \<noteq> KShared \<longrightarrow> idx_rel (db_heap db) (trie_of k db) (index_of k db))
     \<and> (\<forall>k c m. index_of k db c = Some m \<longrightarrow> distinct (al_keys m) \<and> clientStats db c \<noteq> None)
     \<and> (\<forall>c m f r. sharedIndex db c = Some m \<longrightarrow> (f, r) \<in> set m \<longrightarrow>
          r < length (db_heap db) \<and> root_of (db_heap db) r = trie_of KShared db \<and> sn_parent (db_heap db ! r) \<noteq> None)"

definition db_inv :: "TrieDB \<Rightarrow> bool" where
  "db_inv db \<longleftrightarrow> tries_ok db \<and> index_ok db"

lemma index_ok_rel: "index_ok db \<Longrightarrow> k \<noteq> KShared \<Longrightarrow> idx_rel (db_heap db) (trie_of k db) (index_of k db)"
  unfolding index_ok_def by blast

lemma index_ok_list: "index_ok db \<Longrightarrow> index_of k db c = Some m \<Longrightarrow> distinct (al_keys m) \<and> clientStats db c \<noteq> None"
  unfolding index_ok_def by blast

lemma index_ok_shared:
  "index_ok db \<Longrightarrow> index_of KShared db c = Some m \<Longrightarrow> (f, r) \<in> set m \<Longrightarrow>
     r < length (db_heap db) \<and> root_of (db_heap db) r = trie_of KShared db \<and> sn_parent (db_heap db ! r) \<noteq> None"
  unfolding index_ok_def index_of.simps by blast

lemma index_set [simp]:
  "index_of k (set_index k' ix db) = (if k = k' then ix else index_of k db)"
  "trie_of k (set_index k' ix db) = trie_of k db"
  "db_heap (set_index k' ix db) = db_heap db"
  "clientStats (set_index k' ix db) = clientStats db"
  "stats (set_index k' ix db) = stats db"
  by (cases k; cases k'; simp)+

lemma index_heap [simp]:
  "index_of k (db\<lparr>db_heap := h\<rparr>) = index_of k db" "trie_of k (db\<lparr>db_heap := h\<rparr>) = trie_of k db"
  "index_of k (db\<lparr>clientStats := cs\<rparr>) = index_of k db" "trie_of k (db\<lparr>clientStats := cs\<rparr>) = trie_of k db"
  "index_of k (db\<lparr>stats := st\<rparr>) = index_of k db" "trie_of k (db\<lparr>stats := st\<rparr>) = trie_of k db"
  by (cases k; simp)+

lemma kind_of_shared: "kind_of name f = KShared \<longleftrightarrow> name \<noteq> []"
  by (simp add: kind_of_def)

text \<open>What an operation does to an index, apart from the statistics.\<close>

lemma shared_entry_step:
  assumes "heap_wf h" and "heap_step h h'" and "r < length h" and "root_of h r = t" and "sn_parent (h ! r) \<noteq> None"
  shows "r < length h' \<and> root_of h' r = t \<and> sn_parent (h' ! r) \<noteq> None"
  using assms root_of_same [of h h' r] by (auto simp: heap_step_def)

lemma shared_entry_walk:
  assumes "heap_wf h" and "is_root h t" and "trie_walk h t p = Some r" and "p \<noteq> []"
  shows "r < length h \<and> root_of h r = t \<and> sn_parent (h ! r) \<noteq> None"
proof -
  have tl: "t < length h" using assms(2) by (simp add: is_root_def)
  have r: "r < length h" "t < r" using trie_walk_less [OF assms(1) tl assms(3)] assms(4) by simp_all
  have "root_of h r = t" using root_of_walk [OF assms(1) tl assms(3)] root_of_root [OF assms(2)] by simp
  moreover from this r have "\<not> is_root h r" using root_of_root [of h r] by auto
  ultimately show ?thesis using r by (simp add: is_root_def)
qed

section \<open>New\<close>

lemma db_inv_New: "db_inv Sub_NewStore"
proof -
  let ?h = "[newNode, newNode, newNode]"
  have n: "?h ! r = newNode" if "r < 3" for r using that by (simp add: nth_Cons' numeral_3_eq_3)
  have wf: "heap_wf ?h" unfolding heap_wf_def cell_ok_def using n by (auto simp: newNode_def)
  have w: "trie_walk ?h r p = (if p = [] then Some r else None)" if "r < 3" for r p
    using n [OF that] by (cases p) (auto simp: newNode_def)
  have t: "trie_of k Sub_NewStore < 3" for k by (cases k) (simp_all add: Sub_NewStore_def)
  have c: "tclients ?h r p = [] \<and> tshared ?h r p = []" if "r < 3" for r p
    using w [OF that] n [OF that] by (auto simp: tclients_def tshared_def newNode_def)
  have "is_root ?h (trie_of k Sub_NewStore)" for k
    using n [OF t] t [of k] by (simp add: is_root_def newNode_def)
  moreover have "trie_of k Sub_NewStore = trie_of k' Sub_NewStore \<Longrightarrow> k = k'" for k k'
    by (cases k; cases k') (simp_all add: Sub_NewStore_def)
  moreover have h: "db_heap Sub_NewStore = ?h" by (simp add: Sub_NewStore_def)
  ultimately have "tries_ok Sub_NewStore" using wf c [OF t] unfolding tries_ok_def h by (metis empty_iff image_empty list.set(1))
  moreover have "index_of k Sub_NewStore = Map.empty" for k by (cases k) (simp_all add: Sub_NewStore_def)
  then have "index_ok Sub_NewStore"
    using c [OF t] unfolding index_ok_def h idx_rel_def by (auto simp: Sub_NewStore_def)
  ultimately show ?thesis by (simp add: db_inv_def)
qed

section \<open>Subscribe\<close>

text \<open>The part of the loop body that does not concern the trie.\<close>

definition stats_zero :: Stats where
  "stats_zero = \<lparr>SubscriptionsTotal = 0, SubscriptionsCurrent = 0\<rparr>"

abbreviation idx_list :: "trie_kind \<Rightarrow> TrieDB \<Rightarrow> bytes \<Rightarrow> (bytes \<times> ref) list" where
  "idx_list k db c \<equiv> (case index_of k db c of None \<Rightarrow> [] | Some m \<Rightarrow> m)"

abbreviation client_stats :: "TrieDB \<Rightarrow> bytes \<Rightarrow> Stats" where
  "client_stats db c \<equiv> (case clientStats db c of None \<Rightarrow> stats_zero | Some s \<Rightarrow> s)"

definition subscribed :: "trie_kind \<Rightarrow> bytes \<Rightarrow> bytes \<Rightarrow> ref \<Rightarrow> heap \<Rightarrow> TrieDB \<Rightarrow> TrieDB" where
  "subscribed k c f x h db =
     (let old = map_of (idx_list k db c) f \<noteq> None in
      set_index k ((index_of k db)(c \<mapsto> al_put f x (idx_list k db c)))
        (db\<lparr>db_heap := h, stats := if old then stats db else stats_add 1 1 (stats db),
            clientStats := if old then clientStats db
              else (clientStats db)(c \<mapsto> stats_add 1 1 (client_stats db c))\<rparr>))"

lemma SubscribeLocked_one_eq:
  assumes "index_ok db" and "trie_subscribe (trie_of k db) c s (db_heap db) = (x, h)"
    and "k = kind_of (sb_ShareName s) (sb_TopicFilter s)"
  shows "SubscribeLocked_one c s db =
    Inr (map_of (idx_list k db c) (sb_TopicFilter s) \<noteq> None, subscribed k c (sb_TopicFilter s) x h db)"
proof (cases "index_of k db c")
  case None
  show ?thesis
    unfolding SubscribeLocked_one_def subscribed_def Let_def assms(3) [symmetric] assms(2) prod.case
    using None by (cases k; cases "clientStats db c") (simp_all add: stats_zero_def)
next
  case (Some m)
  then obtain cs where cs: "clientStats db c = Some cs" using index_ok_list [OF assms(1) Some] by auto
  show ?thesis
    unfolding SubscribeLocked_one_def subscribed_def Let_def assms(3) [symmetric] assms(2) prod.case
    using Some cs by (cases k; cases "map_of m (sb_TopicFilter s)") simp_all
qed

lemma subscribed_simps [simp]:
  "db_heap (subscribed k c f x h db) = h" "trie_of k' (subscribed k c f x h db) = trie_of k' db"
  "index_of k' (subscribed k c f x h db) =
     (if k' = k then (index_of k db)(c \<mapsto> al_put f x (idx_list k db c)) else index_of k' db)"
  by (simp_all add: subscribed_def Let_def)

lemma subscribed_tries:
  assumes inv: "tries_ok db" and k: "k = kind_of (sb_ShareName s) (sb_TopicFilter s)"
    and t: "trie_subscribe (trie_of k db) c s (db_heap db) = (x, h)"
  shows "tries_ok (subscribed k c (sb_TopicFilter s) x h db)"
proof -
  note i = inv [unfolded tries_ok_def]
  have wf: "heap_wf (db_heap db)" and root: "\<And>k. is_root (db_heap db) (trie_of k db)"
    and inj: "\<And>k k'. trie_of k db = trie_of k' db \<longleftrightarrow> k = k'" using i by blast+
  note ok = trie_subscribe_ok [OF wf root t]
  have cl: "tclients h (trie_of k' db) q = (if k' = k \<and> q = split_levels (sb_TopicFilter s) \<and> sb_ShareName s = []
      then al_put c s (tclients (db_heap db) (trie_of k' db) q) else tclients (db_heap db) (trie_of k' db) q)" for k' q
    using ok(3) [OF root, of k' q] inj by simp
  have sh: "tshared h (trie_of k' db) q = tshared (db_heap db) (trie_of k' db) q"
    if "k' \<noteq> k \<or> q \<noteq> split_levels (sb_TopicFilter s) \<or> sb_ShareName s = []" for k' q
    using ok(4) [OF root, of k' q] inj that by auto
  have ks: "k = KShared \<longleftrightarrow> sb_ShareName s \<noteq> []" using k by (simp add: kind_of_shared)
  show ?thesis unfolding tries_ok_def subscribed_simps
  proof (intro conjI allI impI)
    show "heap_wf h" using ok(1) by (simp add: heap_step_def)
    show "is_root h (trie_of k' db)" for k' using heap_step_root [OF ok(1) root] .
    show "trie_of k1 db = trie_of k2 db \<Longrightarrow> k1 = k2" for k1 k2 using inj by simp
    show "tclients h (trie_of KShared db) p = []" for p using cl [of KShared p] i ks by auto
    show "tshared h (trie_of k' db) p = []" if "k' \<noteq> KShared" for k' p
      using sh [of k' p] i ks that by auto
    show "\<exists>f. p = split_levels f \<and> kind_of [] f = k'"
      if "k' \<noteq> KShared" "tclients h (trie_of k' db) p \<noteq> []" for k' p
    proof (cases "k' = k \<and> p = split_levels (sb_TopicFilter s)")
      case True
      then show ?thesis using that(1) k ks by auto
    next
      case False
      then have "tclients h (trie_of k' db) p = tclients (db_heap db) (trie_of k' db) p" using cl [of k' p] by auto
      with that i show ?thesis by auto
    qed
    show "\<exists>f. p = split_levels f" if "tshared h (trie_of KShared db) p \<noteq> []" for p
      using that i sh [of KShared p] by (cases "p = split_levels (sb_TopicFilter s)") auto
    show "[] \<notin> fst ` set (tshared h (trie_of KShared db) p)" for p
    proof (cases "k = KShared \<and> p = split_levels (sb_TopicFilter s)")
      case True
      then have "tshared h (trie_of KShared db) p = al_put (sb_ShareName s)
          (al_put c s (case map_of (tshared (db_heap db) (trie_of KShared db) p) (sb_ShareName s) of None \<Rightarrow> [] | Some l \<Rightarrow> l))
          (tshared (db_heap db) (trie_of KShared db) p)"
        using ok(4) [OF root, of KShared p] ks by simp
      moreover have "[] \<notin> fst ` set (tshared (db_heap db) (trie_of KShared db) p)" using i by simp
      ultimately show ?thesis using True ks by auto
    next
      case False
      then have e: "tshared h (trie_of KShared db) p = tshared (db_heap db) (trie_of KShared db) p"
        by (intro sh) auto
      show ?thesis unfolding e using i by blast
    qed
  qed
qed

lemma subscribed_index:
  assumes inv: "db_inv db" and k: "k = kind_of (sb_ShareName s) (sb_TopicFilter s)"
    and t: "trie_subscribe (trie_of k db) c s (db_heap db) = (x, h)"
  shows "index_ok (subscribed k c (sb_TopicFilter s) x h db)"
proof -
  let ?f = "sb_TopicFilter s"
  have ix: "index_ok db" using inv by (simp add: db_inv_def)
  note i = inv [unfolded db_inv_def tries_ok_def]
  have wf: "heap_wf (db_heap db)" and root: "\<And>k. is_root (db_heap db) (trie_of k db)"
    and inj: "\<And>k k'. trie_of k db = trie_of k' db \<longleftrightarrow> k = k'" using i by blast+
  note ok = trie_subscribe_ok [OF wf root t]
  have ks: "k = KShared \<longleftrightarrow> sb_ShareName s \<noteq> []" using k by (simp add: kind_of_shared)
  have cl: "tclients h (trie_of k' db) q = (if k' = k \<and> q = split_levels ?f \<and> sb_ShareName s = []
      then al_put c s (tclients (db_heap db) (trie_of k' db) q) else tclients (db_heap db) (trie_of k' db) q)" for k' q
    using ok(3) [OF root, of k' q] inj by simp
  have wf': "heap_wf h" and root': "is_root h (trie_of k' db)" for k'
    using ok(1) heap_step_root [OF ok(1) root] by (simp_all add: heap_step_def)
  have idx: "idx_rel h (trie_of k' db)
      (if k' = k then (index_of k db)(c \<mapsto> al_put ?f x (idx_list k db c)) else index_of k' db)"
    if "k' \<noteq> KShared" for k'
  proof (cases "k' = k")
    case True
    with that ks cl have "tclients h (trie_of k db) q = (if q = split_levels ?f
        then al_put c s (tclients (db_heap db) (trie_of k db) q) else tclients (db_heap db) (trie_of k db) q)" for q
      by simp
    moreover have "idx_rel (db_heap db) (trie_of k db) (index_of k db)" using index_ok_rel [OF ix] that True by blast
    ultimately show ?thesis using idx_rel_put [OF _ ok(1) root ok(2)] True by simp
  next
    case False
    then have "tclients h (trie_of k' db) q = tclients (db_heap db) (trie_of k' db) q" for q using cl [of k' q] by auto
    moreover have "idx_rel (db_heap db) (trie_of k' db) (index_of k' db)" using index_ok_rel [OF ix] that by blast
    ultimately show ?thesis using idx_rel_step [OF _ ok(1) root] False by simp
  qed
  have dist: "distinct (al_keys (idx_list k db c))" using index_ok_list [OF ix] by (auto split: option.split)
  have x: "x < length h \<and> root_of h x = trie_of k db \<and> sn_parent (h ! x) \<noteq> None"
    using shared_entry_walk [OF wf' root' ok(2)] by simp
  have e: "r < length h \<and> root_of h r = trie_of KShared db \<and> sn_parent (h ! r) \<noteq> None"
    if "index_of KShared db d = Some m" "(f, r) \<in> set m" for d m f r
    using shared_entry_step [OF wf ok(1), of r "trie_of KShared db"] index_ok_shared [OF ix that] by blast
  show ?thesis
    unfolding index_ok_def subscribed_simps
  proof (intro conjI allI impI)
    show "idx_rel h (trie_of k' db)
      (if k' = k then (index_of k db)(c \<mapsto> al_put ?f x (idx_list k db c)) else index_of k' db)"
      if "k' \<noteq> KShared" for k' using idx [OF that] .
    fix k' d m assume m: "(if k' = k then (index_of k db)(c \<mapsto> al_put ?f x (idx_list k db c)) else index_of k' db) d = Some m"
    show "distinct (al_keys m)" using m dist index_ok_list [OF ix] by (auto split: if_splits)
    show "clientStats (subscribed k c ?f x h db) d \<noteq> None"
      using m index_ok_list [OF ix] by (auto simp: subscribed_def Let_def split: if_splits option.splits)
  next
    fix d m f r
    assume m: "sharedIndex (subscribed k c ?f x h db) d = Some m" and r: "(f, r) \<in> set m"
    have m': "(if KShared = k then (index_of k db)(c \<mapsto> al_put ?f x (idx_list k db c)) else index_of KShared db) d = Some m"
      using m unfolding index_of.simps(3) [symmetric] subscribed_simps .
    show "r < length h" "root_of h r = trie_of KShared db" "sn_parent (h ! r) \<noteq> None"
      using m' r e x dist by (auto simp: set_al_put split: if_splits option.splits)
  qed
qed

lemma subscribed_at:
  assumes inv: "tries_ok db" and k: "k = kind_of (sb_ShareName s) (sb_TopicFilter s)"
    and t: "trie_subscribe (trie_of k db) c s (db_heap db) = (x, h)"
  shows "sub_at (subscribed k c (sb_TopicFilter s) x h db) d name f =
    (if d = c \<and> name = sb_ShareName s \<and> f = sb_TopicFilter s then Some s else sub_at db d name f)"
proof -
  note i = inv [unfolded tries_ok_def]
  have wf: "heap_wf (db_heap db)" and root: "\<And>k. is_root (db_heap db) (trie_of k db)"
    and inj: "\<And>k k'. trie_of k db = trie_of k' db \<longleftrightarrow> k = k'" using i by blast+
  note ok = trie_subscribe_ok [OF wf root t]
  show ?thesis
    unfolding sub_at_def subscribed_simps Let_def ok(3) [OF root] ok(4) [OF root] inj
    using k by (cases "name = []"; cases "sb_ShareName s = []")
      (auto simp: kind_of_def split: option.splits if_splits)
qed

section \<open>Unsubscribe\<close>

definition unsubscribed :: "trie_kind \<Rightarrow> bytes \<Rightarrow> bytes \<Rightarrow> heap \<Rightarrow> TrieDB \<Rightarrow> TrieDB" where
  "unsubscribed k c f h db =
     (let old = map_of (idx_list k db c) f \<noteq> None in
      set_index k (case index_of k db c of None \<Rightarrow> index_of k db | Some m \<Rightarrow> (index_of k db)(c \<mapsto> al_del f m))
        (db\<lparr>db_heap := h, stats := if old then stats_add 0 (- 1) (stats db) else stats db,
            clientStats := if old then (clientStats db)(c \<mapsto> stats_add 0 (- 1) (client_stats db c))
              else clientStats db\<rparr>))"

lemma unsubscribed_simps [simp]:
  "db_heap (unsubscribed k c f h db) = h" "trie_of k' (unsubscribed k c f h db) = trie_of k' db"
  "index_of k' (unsubscribed k c f h db) = (if k' = k then
     (case index_of k db c of None \<Rightarrow> index_of k db | Some m \<Rightarrow> (index_of k db)(c \<mapsto> al_del f m)) else index_of k' db)"
  by (simp_all add: unsubscribed_def Let_def)

lemma set_index_same: "set_index k (index_of k db) db = db"
  by (cases k) simp_all

lemma set_index_heap: "set_index k ix (db\<lparr>db_heap := h\<rparr>) = (set_index k ix db)\<lparr>db_heap := h\<rparr>"
  by (cases k) simp_all

lemma UnsubscribeLocked_one_eq:
  assumes "index_ok db" and "SplitTopic topic = (name, f)" and "k = kind_of name f"
    and "trie_unsubscribe (trie_of k db) c f name (db_heap db) = Inr h"
  shows "UnsubscribeLocked_one c topic db = Inr (unsubscribed k c f h db)"
proof (cases "index_of k db c")
  case None
  then show ?thesis
    using set_index_same [of k "db\<lparr>db_heap := h\<rparr>"]
    by (simp add: UnsubscribeLocked_one_def assms(2,4) assms(3) [symmetric] unsubscribed_def Let_def)
next
  case (Some m)
  then obtain cs where cs: "clientStats db c = Some cs" using index_ok_list [OF assms(1) Some] by auto
  show ?thesis
    unfolding UnsubscribeLocked_one_def assms(2) Let_def prod.case assms(3) [symmetric]
    using Some cs assms(4)
    by (cases "map_of m f"; cases k) (simp_all add: unsubscribed_def Let_def)
qed

lemma unshare_lookup:
  "(case map_of (unshare c name m) nm of None \<Rightarrow> None | Some l \<Rightarrow> map_of l d) =
   (if nm = name \<and> d = c then None else (case map_of m nm of None \<Rightarrow> None | Some l \<Rightarrow> map_of l d))"
proof (cases "map_of m name")
  case None
  then show ?thesis by (auto simp: unshare_def)
next
  case (Some l)
  have "map_of l d = None" if "al_del c l = []" "d \<noteq> c"
    using map_of_al_del [of c l] that by (metis fun_upd_other map_of.simps(1))
  then show ?thesis using Some by (auto simp: unshare_def)
qed

lemma unshare_names: "fst ` set (unshare c name m) \<subseteq> fst ` set m"
proof (cases "map_of m name")
  case (Some l)
  have "name \<in> fst ` set m" using map_of_SomeD [OF Some] by force
  with Some show ?thesis by (auto simp: unshare_def simp del: set_map)
qed (simp add: unshare_def)

text \<open>An operation whose heap effect is known on every root keeps the tries in order.\<close>

lemma tries_ok_remove:
  assumes inv: "tries_ok db" and step: "heap_step (db_heap db) h" and tr: "\<And>k. trie_of k db' = trie_of k db"
    and h: "db_heap db' = h"
    and cl: "\<And>k q. tclients (db_heap db) (trie_of k db) q = [] \<Longrightarrow> tclients h (trie_of k db) q = []"
    and sh: "\<And>k q. fst ` set (tshared h (trie_of k db) q) \<subseteq> fst ` set (tshared (db_heap db) (trie_of k db) q)"
  shows "tries_ok db'"
  unfolding tries_ok_def h tr
proof (intro conjI allI impI)
  note i = inv [unfolded tries_ok_def]
  show "heap_wf h" using step by (simp add: heap_step_def)
  show "is_root h (trie_of k db)" for k using heap_step_root [OF step] i by blast
  show "trie_of k1 db = trie_of k2 db \<Longrightarrow> k1 = k2" for k1 k2 using i by blast
  show "tclients h (trie_of KShared db) p = []" for p using cl i by blast
  have nil: "tshared (db_heap db) (trie_of k db) p = [] \<Longrightarrow> tshared h (trie_of k db) p = []" for k p
    using sh [of k p] by auto
  show "k \<noteq> KShared \<Longrightarrow> tshared h (trie_of k db) p = []" for k p using nil i by blast
  show "k \<noteq> KShared \<Longrightarrow> tclients h (trie_of k db) p \<noteq> [] \<Longrightarrow> \<exists>f. p = split_levels f \<and> kind_of [] f = k" for k p
    using cl i by blast
  show "tshared h (trie_of KShared db) p \<noteq> [] \<Longrightarrow> \<exists>f. p = split_levels f" for p using nil i by blast
  show "[] \<notin> fst ` set (tshared h (trie_of KShared db) p)" for p using sh [of KShared p] i by blast
qed

lemma unsubscribe_heap:
  assumes inv: "tries_ok db" and k: "k = kind_of name f"
  shows "\<exists>h. trie_unsubscribe (trie_of k db) c f name (db_heap db) = Inr h \<and> heap_step (db_heap db) h
    \<and> (\<forall>k' q.
         tclients h (trie_of k' db) q = (if k' = k \<and> q = split_levels f \<and> name = []
           then al_del c (tclients (db_heap db) (trie_of k' db) q) else tclients (db_heap db) (trie_of k' db) q)
         \<and> tshared h (trie_of k' db) q = (if k' = k \<and> q = split_levels f \<and> name \<noteq> []
           then unshare c name (tshared (db_heap db) (trie_of k' db) q) else tshared (db_heap db) (trie_of k' db) q))"
proof -
  note i = inv [unfolded tries_ok_def]
  have wf: "heap_wf (db_heap db)" and root: "\<And>k. is_root (db_heap db) (trie_of k db)"
    and inj: "\<And>k k'. trie_of k db = trie_of k' db \<longleftrightarrow> k = k'" using i by blast+
  have "if name = [] then tshared (db_heap db) (trie_of k db) (split_levels f) = []
      else tclients (db_heap db) (trie_of k db) (split_levels f) = []"
    using i k by (auto simp: kind_of_def)
  from trie_unsubscribe_ok [OF wf root this, of c] show ?thesis using root inj by auto
qed

lemma index_ok_update:
  assumes inv: "db_inv db" and step: "heap_step (db_heap db) h" and tr: "\<And>k. trie_of k db' = trie_of k db"
    and h: "db_heap db' = h"
    and rel: "\<And>k'. k' \<noteq> KShared \<Longrightarrow> idx_rel h (trie_of k' db) (index_of k' db')"
    and sub: "\<And>k' d m. index_of k' db' d = Some m \<Longrightarrow> \<exists>m0. index_of k' db d = Some m0 \<and> set m \<subseteq> set m0
        \<and> (distinct (al_keys m0) \<longrightarrow> distinct (al_keys m))"
    and st: "\<And>d. clientStats db d \<noteq> None \<Longrightarrow> clientStats db' d \<noteq> None"
  shows "index_ok db'"
  unfolding index_ok_def h tr
proof (intro conjI allI impI)
  have ix: "index_ok db" and wf: "heap_wf (db_heap db)" using inv by (simp_all add: db_inv_def tries_ok_def)
  show "k' \<noteq> KShared \<Longrightarrow> idx_rel h (trie_of k' db) (index_of k' db')" for k' using rel .
  fix k' d m assume "index_of k' db' d = Some m"
  then obtain m0 where m0: "index_of k' db d = Some m0" "distinct (al_keys m0) \<longrightarrow> distinct (al_keys m)"
    using sub by blast
  then show "distinct (al_keys m)" "clientStats db' d \<noteq> None" using index_ok_list [OF ix m0(1)] st by blast+
next
  have ix: "index_ok db" and wf: "heap_wf (db_heap db)" using inv by (simp_all add: db_inv_def tries_ok_def)
  fix d m f r assume "sharedIndex db' d = Some m" and r: "(f, r) \<in> set m"
  then obtain m0 where "index_of KShared db d = Some m0" "(f, r) \<in> set m0"
    using sub [of KShared d m] unfolding index_of.simps by blast
  then have "r < length h \<and> root_of h r = trie_of KShared db \<and> sn_parent (h ! r) \<noteq> None"
    using shared_entry_step [OF wf step, of r] index_ok_shared [OF ix] by blast
  then show "r < length h" "root_of h r = trie_of KShared db" "sn_parent (h ! r) \<noteq> None" by simp_all
qed

lemma unsubscribed_ok:
  assumes inv: "db_inv db" and s: "SplitTopic topic = (name, f)"
  shows "\<exists>db'. UnsubscribeLocked_one c topic db = Inr db' \<and> db_inv db'
    \<and> (\<forall>d nm g. sub_at db' d nm g = (if d = c \<and> nm = name \<and> g = f then None else sub_at db d nm g))"
proof -
  let ?k = "kind_of name f"
  have tries: "tries_ok db" and ix: "index_ok db" using inv by (simp_all add: db_inv_def)
  note i = tries [unfolded tries_ok_def]
  have root: "\<And>k. is_root (db_heap db) (trie_of k db)"
    and inj: "\<And>k k'. trie_of k db = trie_of k' db \<longleftrightarrow> k = k'" using i by blast+
  obtain h where u: "trie_unsubscribe (trie_of ?k db) c f name (db_heap db) = Inr h" and step: "heap_step (db_heap db) h"
    and cl: "\<And>k' q. tclients h (trie_of k' db) q = (if k' = ?k \<and> q = split_levels f \<and> name = []
           then al_del c (tclients (db_heap db) (trie_of k' db) q) else tclients (db_heap db) (trie_of k' db) q)"
    and sh: "\<And>k' q. tshared h (trie_of k' db) q = (if k' = ?k \<and> q = split_levels f \<and> name \<noteq> []
           then unshare c name (tshared (db_heap db) (trie_of k' db) q) else tshared (db_heap db) (trie_of k' db) q)"
    using unsubscribe_heap [OF tries refl, of name f c] by blast
  let ?db = "unsubscribed ?k c f h db"
  have "tries_ok ?db"
    by (rule tries_ok_remove [OF tries step]) (use unshare_names in \<open>auto simp: cl sh al_del_def\<close>)
  moreover have "index_ok ?db"
  proof (rule index_ok_update [OF inv step])
    show "idx_rel h (trie_of k' db) (index_of k' ?db)" if "k' \<noteq> KShared" for k'
    proof (cases "k' = ?k")
      case True
      then have "name = []" using that by (simp add: kind_of_shared)
      then have "tclients h (trie_of k' db) q = (if q = split_levels f
          then al_del c (tclients (db_heap db) (trie_of k' db) q) else tclients (db_heap db) (trie_of k' db) q)" for q
        using cl [of k' q] True by simp
      from idx_rel_del [OF index_ok_rel [OF ix that] step root this] show ?thesis unfolding True by simp
    next
      case False
      then have "tclients h (trie_of k' db) q = tclients (db_heap db) (trie_of k' db) q" for q using cl by simp
      from idx_rel_step [OF index_ok_rel [OF ix that] step root this] show ?thesis using False by simp
    qed
    show "\<exists>m0. index_of k' db d = Some m0 \<and> set m \<subseteq> set m0 \<and> (distinct (al_keys m0) \<longrightarrow> distinct (al_keys m))"
      if "index_of k' ?db d = Some m" for k' d m
      using that by (cases "index_of ?k db c"; cases "k' = ?k"; cases "d = c") (auto simp: set_al_del)
    show "clientStats ?db d \<noteq> None" if "clientStats db d \<noteq> None" for d
      using that by (simp add: unsubscribed_def Let_def)
  qed simp_all
  moreover have "sub_at ?db d nm g = (if d = c \<and> nm = name \<and> g = f then None else sub_at db d nm g)" for d nm g
    unfolding sub_at_def unsubscribed_simps Let_def cl sh
    by (cases "nm = []"; cases "name = []") (auto simp: unshare_lookup kind_of_def)
  ultimately show ?thesis using UnsubscribeLocked_one_eq [OF ix s refl u] by (auto simp: db_inv_def)
qed

lemma subscribed_ok:
  assumes inv: "db_inv db"
  shows "\<exists>db' old. SubscribeLocked_one c s db = Inr (old, db') \<and> db_inv db'
    \<and> (\<forall>d nm g. sub_at db' d nm g =
         (if d = c \<and> nm = sb_ShareName s \<and> g = sb_TopicFilter s then Some s else sub_at db d nm g))
    \<and> (sb_ShareName s = [] \<longrightarrow> old = (sub_at db c [] (sb_TopicFilter s) \<noteq> None))"
proof -
  let ?k = "kind_of (sb_ShareName s) (sb_TopicFilter s)"
  have tries: "tries_ok db" and ix: "index_ok db" using inv by (simp_all add: db_inv_def)
  obtain x h where t: "trie_subscribe (trie_of ?k db) c s (db_heap db) = (x, h)" by fastforce
  have "(map_of (idx_list ?k db c) (sb_TopicFilter s) \<noteq> None) = (sub_at db c [] (sb_TopicFilter s) \<noteq> None)"
    if "sb_ShareName s = []"
  proof -
    have "(\<exists>m. index_of ?k db c = Some m \<and> map_of m (sb_TopicFilter s) = Some r) \<longleftrightarrow>
        trie_walk (db_heap db) (trie_of ?k db) (split_levels (sb_TopicFilter s)) = Some r
        \<and> map_of (tclients (db_heap db) (trie_of ?k db) (split_levels (sb_TopicFilter s))) c \<noteq> None" for r
      using index_ok_rel [OF ix, of ?k] that unfolding idx_rel_def by (simp add: kind_of_shared)
    then have "(\<exists>r m. index_of ?k db c = Some m \<and> map_of m (sb_TopicFilter s) = Some r) \<longleftrightarrow>
        trie_walk (db_heap db) (trie_of ?k db) (split_levels (sb_TopicFilter s)) \<noteq> None
        \<and> map_of (tclients (db_heap db) (trie_of ?k db) (split_levels (sb_TopicFilter s))) c \<noteq> None" by simp
    moreover have "(map_of (idx_list ?k db c) (sb_TopicFilter s) \<noteq> None) \<longleftrightarrow>
        (\<exists>r m. index_of ?k db c = Some m \<and> map_of m (sb_TopicFilter s) = Some r)"
      by (cases "index_of ?k db c") auto
    moreover have "sub_at db c [] (sb_TopicFilter s) =
        map_of (tclients (db_heap db) (trie_of ?k db) (split_levels (sb_TopicFilter s))) c"
      using that by (simp add: sub_at_def Let_def)
    ultimately show ?thesis using tclients_None [of "db_heap db" "trie_of ?k db" "split_levels (sb_TopicFilter s)"]
      by (metis map_of.simps(1))
  qed
  then show ?thesis
    using SubscribeLocked_one_eq [OF ix t refl] subscribed_tries [OF tries refl t] subscribed_index [OF inv refl t]
      subscribed_at [OF tries refl t] by (auto simp: db_inv_def)
qed

section \<open>Unsubscribe all\<close>

definition dropped :: "trie_kind \<Rightarrow> bytes \<Rightarrow> heap \<Rightarrow> TrieDB \<Rightarrow> TrieDB" where
  "dropped k c h db =
     (let n = word_of_nat (length (idx_list k db c)) in
      set_index k ((index_of k db)(c := None))
        (db\<lparr>stats := stats_add 0 (- n) (stats db),
            clientStats := (case clientStats db c of None \<Rightarrow> clientStats db
              | Some cs \<Rightarrow> (clientStats db)(c \<mapsto> stats_add 0 (- n) cs)), db_heap := h\<rparr>))"

lemma dropped_simps [simp]:
  "db_heap (dropped k c h db) = h" "trie_of k' (dropped k c h db) = trie_of k' db"
  "index_of k' (dropped k c h db) = (if k' = k then (index_of k db)(c := None) else index_of k' db)"
  by (simp_all add: dropped_def Let_def)

lemma unsubscribeAll_eq:
  "unsubscribeAll k c db = rbind (unsubscribeAll_nodes c (idx_list k db c) (db_heap db)) (\<lambda>h. Inr (dropped k c h db))"
  by (cases k) (simp_all add: unsubscribeAll_def dropped_def Let_def)

lemma idx_rel_drop:
  assumes "idx_rel h t ix" and "heap_step h h'" and "is_root h t" and "\<And>q. tclients h' t q = al_del c0 (tclients h t q)"
  shows "idx_rel h' t (ix(c0 := None))"
  unfolding idx_rel_def
proof (intro allI)
  fix c f r
  let ?p = "split_levels f"
  have "(\<exists>m. ix c = Some m \<and> map_of m f = Some r) \<longleftrightarrow> trie_walk h t ?p = Some r \<and> map_of (tclients h t ?p) c \<noteq> None"
    using assms(1) unfolding idx_rel_def by blast
  moreover have m: "map_of (tclients h' t ?p) c \<noteq> None \<longleftrightarrow> map_of (tclients h t ?p) c \<noteq> None \<and> c \<noteq> c0"
    using assms(4) by simp
  moreover have "trie_walk h' t ?p = trie_walk h t ?p" if "map_of (tclients h' t ?p) c \<noteq> None"
    using heap_step_node [OF assms(2,3) _ that] that m by simp
  ultimately show "(\<exists>m. (ix(c0 := None)) c = Some m \<and> map_of m f = Some r)
      \<longleftrightarrow> trie_walk h' t ?p = Some r \<and> map_of (tclients h' t ?p) c \<noteq> None"
    by (cases "c = c0") auto
qed

lemma unsubscribeAll_heap:
  assumes inv: "db_inv db" and k: "k \<noteq> KShared"
  shows "\<exists>h. unsubscribeAll_nodes c (idx_list k db c) (db_heap db) = Inr h \<and> heap_shrink (db_heap db) h
    \<and> (\<forall>k' q. tclients h (trie_of k' db) q = (if k' = k then al_del c (tclients (db_heap db) (trie_of k' db) q)
            else tclients (db_heap db) (trie_of k' db) q)
        \<and> tshared h (trie_of k' db) q = tshared (db_heap db) (trie_of k' db) q)"
proof -
  have tries: "tries_ok db" and ix: "index_ok db" using inv by (simp_all add: db_inv_def)
  note i = tries [unfolded tries_ok_def]
  have wf: "heap_wf (db_heap db)" and root: "\<And>k. is_root (db_heap db) (trie_of k db)"
    and inj: "\<And>k k'. trie_of k db = trie_of k' db \<longleftrightarrow> k = k'" using i by blast+
  let ?m = "idx_list k db c"
  have r: "(\<exists>m. index_of k db c = Some m \<and> map_of m f = Some r) \<longleftrightarrow>
     trie_walk (db_heap db) (trie_of k db) (split_levels f) = Some r
     \<and> map_of (tclients (db_heap db) (trie_of k db) (split_levels f)) c \<noteq> None" for f r
    using index_ok_rel [OF ix k] unfolding idx_rel_def by blast
  have d: "distinct (map fst ?m)" using index_ok_list [OF ix] by (auto split: option.split)
  have "map_of ?m f = Some r \<longleftrightarrow> (\<exists>m. index_of k db c = Some m \<and> map_of m f = Some r)" for f r
    by (cases "index_of k db c") auto
  with d r have e: "(f, r) \<in> set ?m \<longleftrightarrow> trie_walk (db_heap db) (trie_of k db) (split_levels f) = Some r
     \<and> map_of (tclients (db_heap db) (trie_of k db) (split_levels f)) c \<noteq> None" for f r
    by (metis map_of_eq_Some_iff)
  have "\<And>q. tshared (db_heap db) (trie_of k db) q = []" using i k by blast
  from unsubscribeAll_content [OF wf root this d, of c] e obtain h where
    h: "unsubscribeAll_nodes c ?m (db_heap db) = Inr h" "heap_shrink (db_heap db) h"
    and ct: "\<And>k' q. tclients h (trie_of k' db) q = (if k' = k \<and> q \<in> split_levels ` fst ` set ?m
          then al_del c (tclients (db_heap db) (trie_of k' db) q) else tclients (db_heap db) (trie_of k' db) q)"
      "\<And>k' q. tshared h (trie_of k' db) q = tshared (db_heap db) (trie_of k' db) q"
    using root inj by auto
  have "al_del c (tclients (db_heap db) (trie_of k db) q) = tclients (db_heap db) (trie_of k db) q"
    if "q \<notin> split_levels ` fst ` set ?m" for q
  proof (rule al_del_absent, rule ccontr)
    assume c: "map_of (tclients (db_heap db) (trie_of k db) q) c \<noteq> None"
    then have "tclients (db_heap db) (trie_of k db) q \<noteq> []" by auto
    then obtain f where f: "q = split_levels f" using i k by blast
    obtain r where "trie_walk (db_heap db) (trie_of k db) q = Some r"
      using c tclients_None [of "db_heap db" "trie_of k db" q] by (cases "trie_walk (db_heap db) (trie_of k db) q") auto
    with e [of f r] c f have "(f, r) \<in> set ?m" by simp
    with that f show False by force
  qed
  with h ct show ?thesis by (metis (no_types))
qed

lemma db_inv_dropped:
  assumes inv: "db_inv db" and shrink: "heap_shrink (db_heap db) h"
    and cl: "\<And>k' q. tclients h (trie_of k' db) q = (if k' = k \<and> k \<noteq> KShared
        then al_del c (tclients (db_heap db) (trie_of k' db) q) else tclients (db_heap db) (trie_of k' db) q)"
    and sh: "\<And>k' q. fst ` set (tshared h (trie_of k' db) q) \<subseteq> fst ` set (tshared (db_heap db) (trie_of k' db) q)"
  shows "db_inv (dropped k c h db)"
proof -
  have tries: "tries_ok db" and ix: "index_ok db" using inv by (simp_all add: db_inv_def)
  have root: "\<And>k. is_root (db_heap db) (trie_of k db)" using tries unfolding tries_ok_def by blast
  note step = heap_shrink_step [OF shrink]
  have "tries_ok (dropped k c h db)"
    by (rule tries_ok_remove [OF tries step]) (use sh in \<open>auto simp: cl al_del_def\<close>)
  moreover have "index_ok (dropped k c h db)"
  proof (rule index_ok_update [OF inv step])
    show "idx_rel h (trie_of k' db) (index_of k' (dropped k c h db))" if k': "k' \<noteq> KShared" for k'
    proof (cases "k' = k")
      case True
      have t: "tclients h (trie_of k db) q = al_del c (tclients (db_heap db) (trie_of k db) q)" for q
        using cl [of k q] k' True by simp
      from idx_rel_drop [OF index_ok_rel [OF ix k'] step root] t True show ?thesis by simp
    next
      case False
      then have "tclients h (trie_of k' db) q = tclients (db_heap db) (trie_of k' db) q" for q using cl by simp
      from idx_rel_step [OF index_ok_rel [OF ix k'] step root this] show ?thesis using False by simp
    qed
    show "\<exists>m0. index_of k' db d = Some m0 \<and> set m \<subseteq> set m0 \<and> (distinct (al_keys m0) \<longrightarrow> distinct (al_keys m))"
      if "index_of k' (dropped k c h db) d = Some m" for k' d m
      using that by (auto split: if_splits)
    show "clientStats (dropped k c h db) d \<noteq> None" if "clientStats db d \<noteq> None" for d
      using that by (auto simp: dropped_def Let_def split: option.split)
  qed simp_all
  ultimately show ?thesis by (simp add: db_inv_def)
qed

lemma dropped_nonshared:
  assumes inv: "db_inv db" and k: "k \<noteq> KShared"
  shows "\<exists>db'. unsubscribeAll k c db = Inr db' \<and> db_inv db'
    \<and> (\<forall>d nm g. sub_at db' d nm g = (if d = c \<and> kind_of nm g = k then None else sub_at db d nm g))"
proof -
  obtain h where h: "unsubscribeAll_nodes c (idx_list k db c) (db_heap db) = Inr h" "heap_shrink (db_heap db) h"
    and cl: "\<And>k' q. tclients h (trie_of k' db) q = (if k' = k then al_del c (tclients (db_heap db) (trie_of k' db) q)
            else tclients (db_heap db) (trie_of k' db) q)"
    and sh: "\<And>k' q. tshared h (trie_of k' db) q = tshared (db_heap db) (trie_of k' db) q"
    using unsubscribeAll_heap [OF assms, of c] by auto
  have "db_inv (dropped k c h db)" using db_inv_dropped [OF inv h(2)] cl sh k by simp
  moreover have "sub_at (dropped k c h db) d nm g = (if d = c \<and> kind_of nm g = k then None else sub_at db d nm g)" for d nm g
    using k unfolding sub_at_def Let_def dropped_simps cl sh by (cases "nm = []") (auto simp: kind_of_def split: option.splits)
  ultimately show ?thesis using h(1) by (auto simp: unsubscribeAll_eq)
qed

text \<open>
  For the shared trie \<^verbatim>\<open>unsubscribeAll\<close> does not look at \<^verbatim>\<open>node.shared\<close>, so the client stays in the
  share groups of the nodes that have children, and other clients may lose theirs when the node is cut off.
\<close>

lemma dropped_shared:
  assumes inv: "db_inv db"
  shows "\<exists>db'. unsubscribeAll KShared c db = Inr db' \<and> db_inv db'
    \<and> (\<forall>d g. sub_at db' d [] g = sub_at db d [] g)
    \<and> (\<forall>d nm g. sub_at db' d nm g \<in> {None, sub_at db d nm g})"
proof -
  have tries: "tries_ok db" and ix: "index_ok db" using inv by (simp_all add: db_inv_def)
  note i = tries [unfolded tries_ok_def]
  have wf: "heap_wf (db_heap db)" and root: "\<And>k. is_root (db_heap db) (trie_of k db)"
    and inj: "\<And>k k'. trie_of k db = trie_of k' db \<longleftrightarrow> k = k'" using i by blast+
  let ?t = "trie_of KShared db" and ?h = "db_heap db"
  have "\<forall>(f, r)\<in>set (idx_list KShared db c). r < length ?h \<and> root_of ?h r = ?t \<and> sn_parent (?h ! r) \<noteq> None"
    using index_ok_shared [OF ix, of c] by (cases "index_of KShared db c") auto
  from unsubscribeAll_region [OF wf this, of c] obtain h where
    h: "unsubscribeAll_nodes c (idx_list KShared db c) ?h = Inr h" "heap_shrink ?h h"
    and same: "\<forall>z<length ?h. root_of ?h z \<noteq> ?t \<longrightarrow> h ! z = ?h ! z"
    and sc: "\<forall>z<length ?h. (sn_clients (?h ! z) = [] \<longrightarrow> sn_clients (h ! z) = []) \<and> sn_shared (h ! z) = sn_shared (?h ! z)"
    by blast
  have tl: "trie_of k db < length ?h" for k using root by (simp add: is_root_def)
  have out: "tclients h (trie_of k db) q = tclients ?h (trie_of k db) q \<and> tshared h (trie_of k db) q = tshared ?h (trie_of k db) q"
    if "k \<noteq> KShared" for k q
  proof -
    have "h ! z = ?h ! z" if "z < length ?h" "root_of ?h z = root_of ?h (trie_of k db)" for z
      using same that root_of_root [OF root, of k] inj [of k KShared] \<open>k \<noteq> KShared\<close> by metis
    from content_outside [OF wf tl this] show ?thesis by blast
  qed
  have walk: "trie_walk ?h ?t q = Some y \<and> y < length ?h" if "trie_walk h ?t q = Some y" for q y
    using h(2) tl that trie_walk_less [OF wf tl] unfolding heap_shrink_def by blast
  have sh: "tshared h ?t q \<in> {[], tshared ?h ?t q}" for q
    using walk [of q] sc by (auto simp: tshared_def split: option.splits)
  have none: "tclients ?h ?t q = []" for q using i by blast
  then have cl: "tclients h ?t q = []" for q
    using walk [of q] sc by (fastforce simp: tclients_def split: option.splits)
  have "db_inv (dropped KShared c h db)"
  proof (rule db_inv_dropped [OF inv h(2)])
    show "tclients h (trie_of k' db) q = (if k' = KShared \<and> KShared \<noteq> KShared
        then al_del c (tclients ?h (trie_of k' db) q) else tclients ?h (trie_of k' db) q)" for k' q
      using out [of k' q] cl [of q] none [of q] by (cases "k' = KShared") simp_all
    show "fst ` set (tshared h (trie_of k' db) q) \<subseteq> fst ` set (tshared ?h (trie_of k' db) q)" for k' q
      using out [of k' q] sh [of q] by (cases "k' = KShared") auto
  qed
  moreover have "sub_at (dropped KShared c h db) d [] g = sub_at db d [] g" for d g
    using out unfolding sub_at_def Let_def dropped_simps by (simp add: kind_of_def)
  moreover have "sub_at (dropped KShared c h db) d nm g \<in> {None, sub_at db d nm g}" for d nm g
    using out sh [of "split_levels g"] unfolding sub_at_def Let_def dropped_simps
    by (cases "nm = []") (auto simp: kind_of_def)
  ultimately show ?thesis using h(1) by (auto simp: unsubscribeAll_eq)
qed

text \<open>All three together: the non-shared subscriptions of the client go, those of the others stay.\<close>

lemma unsubscribeAll_ok:
  assumes "db_inv db"
  shows "\<exists>db'. UnsubscribeAllLocked c db = Inr db' \<and> db_inv db'
    \<and> (\<forall>d g. sub_at db' d [] g = (if d = c then None else sub_at db d [] g))
    \<and> (\<forall>d nm g. sub_at db' d nm g \<in> {None, sub_at db d nm g})"
proof -
  obtain d1 where d1: "unsubscribeAll KUser c db = Inr d1" "db_inv d1"
    "\<forall>d nm g. sub_at d1 d nm g = (if d = c \<and> kind_of nm g = KUser then None else sub_at db d nm g)"
    using dropped_nonshared [OF assms, of KUser c] by auto
  obtain d2 where d2: "unsubscribeAll KSystem c d1 = Inr d2" "db_inv d2"
    "\<forall>d nm g. sub_at d2 d nm g = (if d = c \<and> kind_of nm g = KSystem then None else sub_at d1 d nm g)"
    using dropped_nonshared [OF d1(2), of KSystem c] by auto
  obtain d3 where d3: "unsubscribeAll KShared c d2 = Inr d3" "db_inv d3" "\<forall>d g. sub_at d3 d [] g = sub_at d2 d [] g"
    "\<forall>d nm g. sub_at d3 d nm g \<in> {None, sub_at d2 d nm g}"
    using dropped_shared [OF d2(2), of c] by auto
  have "sub_at d3 d [] g = (if d = c then None else sub_at db d [] g)" for d g
    using d1(3) d2(3) d3(3) by (cases "kind_of [] g") (auto simp: kind_of_def split: if_splits)
  moreover have "sub_at d3 d nm g \<in> {None, sub_at db d nm g}" for d nm g
    using d1(3) d2(3) d3(4) by (metis insertCI insertE singletonD)
  ultimately show ?thesis using d1(1,2) d2(1,2) d3(1,2) by (auto simp: UnsubscribeAllLocked_def)
qed

end
