(* ===== verification/Sub_Spec.thy ===== *)
theory Sub_Spec
  imports Sub_Store
begin

text \<open>
  The specification of the subscription store and the proof that \<^verbatim>\<open>trie_db.go\<close> meets it.  The
  specification is a map from client, share name and filter to the subscription; the locale
  \<open>subscription_store\<close> is the contract of the interface \<^verbatim>\<open>subscription.Store\<close> over that map, and the trie
  database is an interpretation of it.  Further: what a match visits, what the statistics count, and
  that a traversal ends.
\<close>

section \<open>The store as a map of subscriptions\<close>

text \<open>
  The specification: a finite map from client, share name and filter to the subscription.  The
  operations are those of the interface \<^verbatim>\<open>subscription.Store\<close>.
\<close>

type_synonym sub_map = "bytes \<times> bytes \<times> bytes \<Rightarrow> Subscription option"

definition spec_subscribe :: "bytes \<Rightarrow> Subscription list \<Rightarrow> sub_map \<Rightarrow> sub_map" where
  "spec_subscribe c subs m = fold (\<lambda>s m. m((c, sb_ShareName s, sb_TopicFilter s) \<mapsto> s)) subs m"

definition spec_unsubscribe :: "bytes \<Rightarrow> bytes list \<Rightarrow> sub_map \<Rightarrow> sub_map" where
  "spec_unsubscribe c topics m = fold (\<lambda>t m. m((c, SplitTopic t) := None)) topics m"

definition spec_unsubscribe_all :: "bytes \<Rightarrow> sub_map \<Rightarrow> sub_map" where
  "spec_unsubscribe_all c m = (\<lambda>(d, n, f). if d = c then None else m (d, n, f))"

lemma spec_subscribe_simps [simp]:
  "spec_subscribe c [] m = m"
  "spec_subscribe c (s # subs) m = spec_subscribe c subs (m((c, sb_ShareName s, sb_TopicFilter s) \<mapsto> s))"
  by (simp_all add: spec_subscribe_def)

lemma spec_unsubscribe_simps [simp]:
  "spec_unsubscribe c [] m = m"
  "spec_unsubscribe c (t # ts) m = spec_unsubscribe c ts (m((c, SplitTopic t) := None))"
  by (simp_all add: spec_unsubscribe_def)

text \<open>A subscription stands under its own share name and filter.\<close>

definition keyed :: "sub_map \<Rightarrow> bool" where
  "keyed m \<longleftrightarrow> (\<forall>c n f x. m (c, n, f) = Some x \<longrightarrow> sb_ShareName x = n \<and> sb_TopicFilter x = f)"

lemma keyed_put: "keyed m \<Longrightarrow> keyed (m((c, sb_ShareName s, sb_TopicFilter s) \<mapsto> s))"
  by (simp add: keyed_def)

lemma keyed_del: "keyed m \<Longrightarrow> keyed (m(k := None))"
  by (simp add: keyed_def)

lemma keyed_subscribe: "keyed m \<Longrightarrow> keyed (spec_subscribe c subs m)"
  by (induction subs arbitrary: m) (simp_all add: keyed_put)

lemma keyed_unsubscribe: "keyed m \<Longrightarrow> keyed (spec_unsubscribe c ts m)"
  by (induction ts arbitrary: m) (simp_all add: keyed_del)

text \<open>Maps that agree on some share names still do after the same operation.\<close>

definition agree :: "bool \<Rightarrow> sub_map \<Rightarrow> sub_map \<Rightarrow> bool" where
  "agree full m m' \<longleftrightarrow> (\<forall>c n f. n = [] \<or> full \<longrightarrow> m (c, n, f) = m' (c, n, f))"

lemma agree_upd: "agree full m m' \<Longrightarrow> agree full (m(k := v)) (m'(k := v))"
  by (simp add: agree_def)

lemma agree_subscribe: "agree full m m' \<Longrightarrow> agree full (spec_subscribe c subs m) (spec_subscribe c subs m')"
  by (induction subs arbitrary: m m') (simp_all add: agree_upd)

lemma agree_unsubscribe: "agree full m m' \<Longrightarrow> agree full (spec_unsubscribe c ts m) (spec_unsubscribe c ts m')"
  by (induction ts arbitrary: m m') (simp_all add: agree_upd)

datatype sub_op =
    OpSubscribe bytes "Subscription list"
  | OpUnsubscribe bytes "bytes list"
  | OpUnsubscribeAll bytes

fun sub_op_all :: "sub_op \<Rightarrow> bool" where
  "sub_op_all (OpUnsubscribeAll c) = True"
| "sub_op_all _ = False"

fun spec_step :: "sub_op \<Rightarrow> sub_map \<Rightarrow> sub_map" where
  "spec_step (OpSubscribe c subs) m = spec_subscribe c subs m"
| "spec_step (OpUnsubscribe c topics) m = spec_unsubscribe c topics m"
| "spec_step (OpUnsubscribeAll c) m = spec_unsubscribe_all c m"

definition spec_run :: "sub_op list \<Rightarrow> sub_map" where
  "spec_run ops = fold spec_step ops Map.empty"

text \<open>
  The contract of a subscription store.  After \<^verbatim>\<open>UnsubscribeAll\<close> only the non-shared subscriptions are
  promised; a shared one is either as before or gone.
\<close>

locale subscription_store =
  fixes ok :: "'s \<Rightarrow> bool"
    and content :: "'s \<Rightarrow> sub_map"
    and new_store :: 's
    and subscribe :: "bytes \<Rightarrow> Subscription list \<Rightarrow> 's \<Rightarrow> ('r \<times> 's) res"
    and unsubscribe :: "bytes \<Rightarrow> bytes list \<Rightarrow> 's \<Rightarrow> 's res"
    and unsubscribe_all :: "bytes \<Rightarrow> 's \<Rightarrow> 's res"
  assumes new_store: "ok new_store" "content new_store = Map.empty"
    and subscribe: "ok s \<Longrightarrow> \<exists>r s'. subscribe c subs s = Inr (r, s') \<and> ok s' \<and> content s' = spec_subscribe c subs (content s)"
    and unsubscribe: "ok s \<Longrightarrow> \<exists>s'. unsubscribe c ts s = Inr s' \<and> ok s' \<and> content s' = spec_unsubscribe c ts (content s)"
    and unsubscribe_all: "ok s \<Longrightarrow> \<exists>s'. unsubscribe_all c s = Inr s' \<and> ok s'
          \<and> (\<forall>d f. content s' (d, [], f) = spec_unsubscribe_all c (content s) (d, [], f))
          \<and> (\<forall>k. content s' k \<in> {None, content s k})"
begin

fun step :: "sub_op \<Rightarrow> 's \<Rightarrow> 's res" where
  "step (OpSubscribe c subs) s = rbind (subscribe c subs s) (\<lambda>(r, s'). Inr s')"
| "step (OpUnsubscribe c ts) s = unsubscribe c ts s"
| "step (OpUnsubscribeAll c) s = unsubscribe_all c s"

fun run :: "sub_op list \<Rightarrow> 's \<Rightarrow> 's res" where
  "run [] s = Inr s"
| "run (op # ops) s = rbind (step op s) (run ops)"

text \<open>The store follows a map, in full or on the non-shared subscriptions only.\<close>

definition follows :: "bool \<Rightarrow> 's \<Rightarrow> sub_map \<Rightarrow> bool" where
  "follows full s m \<longleftrightarrow> ok s \<and> agree full (content s) m \<and> keyed (content s)"

lemma step_follows:
  assumes "follows full s m" and "sub_op_all op \<longrightarrow> \<not> full"
  shows "\<exists>s'. step op s = Inr s' \<and> follows full s' (spec_step op m)"
proof -
  have s: "ok s" and e: "agree full (content s) m" and key: "keyed (content s)"
    using assms(1) by (simp_all add: follows_def)
  show ?thesis
  proof (cases op)
    case (OpSubscribe c subs)
    obtain r s' where s': "subscribe c subs s = Inr (r, s')" "ok s'" "content s' = spec_subscribe c subs (content s)"
      using subscribe [OF s] by blast
    then have "follows full s' (spec_subscribe c subs m)"
      unfolding follows_def using agree_subscribe [OF e] keyed_subscribe [OF key] by simp
    with s' OpSubscribe show ?thesis by simp
  next
    case (OpUnsubscribe c ts)
    obtain s' where s': "unsubscribe c ts s = Inr s'" "ok s'" "content s' = spec_unsubscribe c ts (content s)"
      using unsubscribe [OF s] by blast
    then have "follows full s' (spec_unsubscribe c ts m)"
      unfolding follows_def using agree_unsubscribe [OF e] keyed_unsubscribe [OF key] by simp
    with s' OpUnsubscribe show ?thesis by simp
  next
    case (OpUnsubscribeAll c)
    obtain s' where s': "unsubscribe_all c s = Inr s'" "ok s'"
      "\<And>d f. content s' (d, [], f) = spec_unsubscribe_all c (content s) (d, [], f)" "\<And>k. content s' k \<in> {None, content s k}"
      using unsubscribe_all [OF s, of c] by blast
    have "keyed (content s')"
      unfolding keyed_def
    proof (intro allI impI)
      fix d n f x assume "content s' (d, n, f) = Some x"
      then have "content s (d, n, f) = Some x" using s'(4) [of "(d, n, f)"] by simp
      then show "sb_ShareName x = n \<and> sb_TopicFilter x = f" using key unfolding keyed_def by blast
    qed
    moreover have "agree full (content s') (spec_unsubscribe_all c m)"
      using e s'(3) assms(2) OpUnsubscribeAll by (simp add: agree_def spec_unsubscribe_all_def)
    ultimately have "follows full s' (spec_unsubscribe_all c m)"
      unfolding follows_def using s'(2) by simp
    with s' OpUnsubscribeAll show ?thesis by simp
  qed
qed

lemma run_follows:
  "follows full s m \<Longrightarrow> full \<longrightarrow> \<not> list_ex sub_op_all ops \<Longrightarrow>
   \<exists>s'. run ops s = Inr s' \<and> follows full s' (fold spec_step ops m)"
proof (induction ops arbitrary: s m)
  case (Cons op ops)
  obtain s1 where s1: "step op s = Inr s1" "follows full s1 (spec_step op m)"
    using step_follows [OF Cons.prems(1), of op] Cons.prems(2) by auto
  then show ?case using Cons.IH [OF s1(2)] Cons.prems(2) by auto
qed simp

lemma new_follows: "follows full new_store Map.empty"
  by (simp add: follows_def new_store agree_def keyed_def)

lemma run_spec:
  "\<exists>s. run ops new_store = Inr s \<and> ok s
    \<and> agree (\<not> list_ex sub_op_all ops) (content s) (spec_run ops) \<and> keyed (content s)"
  using run_follows [OF new_follows, of "\<not> list_ex sub_op_all ops" ops] unfolding follows_def spec_run_def by auto

end

text \<open>The trie database keeps the contract.\<close>

definition db_content :: "TrieDB \<Rightarrow> sub_map" where
  "db_content db = (\<lambda>(c, n, f). sub_at db c n f)"

lemma db_content_upd:
  "(\<forall>d nm g. sub_at db' d nm g = (if d = c \<and> nm = n \<and> g = f then v else sub_at db d nm g)) \<Longrightarrow>
   db_content db' = (db_content db)((c, n, f) := v)"
  by (auto simp: db_content_def fun_eq_iff)

lemma SubscribeLocked_content:
  "db_inv db \<Longrightarrow> \<exists>r db'. SubscribeLocked c subs db = Inr (r, db') \<and> db_inv db'
     \<and> db_content db' = spec_subscribe c subs (db_content db)"
proof (induction subs arbitrary: db)
  case (Cons s subs)
  obtain db1 old where d1: "SubscribeLocked_one c s db = Inr (old, db1)" "db_inv db1"
    "db_content db1 = (db_content db)((c, sb_ShareName s, sb_TopicFilter s) := Some s)"
    using subscribed_ok [OF Cons.prems, of c s] db_content_upd [of _ c "sb_ShareName s" "sb_TopicFilter s" "Some s" db] by blast
  from Cons.IH [OF d1(2)] d1(1) show ?case by (auto simp: d1(3) [symmetric])
qed simp

lemma UnsubscribeLocked_content:
  "db_inv db \<Longrightarrow> \<exists>db'. UnsubscribeLocked c ts db = Inr db' \<and> db_inv db'
     \<and> db_content db' = spec_unsubscribe c ts (db_content db)"
proof (induction ts arbitrary: db)
  case (Cons t ts)
  obtain n f where t: "SplitTopic t = (n, f)" by fastforce
  obtain db1 where d1: "UnsubscribeLocked_one c t db = Inr db1" "db_inv db1"
    "db_content db1 = (db_content db)((c, n, f) := None)"
    using unsubscribed_ok [OF Cons.prems t, of c] db_content_upd [of _ c n f None db] by blast
  from Cons.IH [OF d1(2)] d1(1) t show ?case by (auto simp: d1(3) [symmetric])
qed simp

lemma NewStore_content: "db_content Sub_NewStore = Map.empty"
proof -
  have "tclients [newNode, newNode, newNode] r p = [] \<and> tshared [newNode, newNode, newNode] r p = []" if "r < 3" for r p
  proof -
    have "[newNode, newNode, newNode] ! r = newNode" using that by (simp add: nth_Cons' numeral_3_eq_3)
    then show ?thesis by (cases p) (auto simp: tclients_def tshared_def newNode_def)
  qed
  moreover have "trie_of k Sub_NewStore < 3" for k by (cases k) (simp_all add: Sub_NewStore_def)
  ultimately show ?thesis
    by (auto simp: db_content_def sub_at_def Let_def fun_eq_iff) (simp_all add: Sub_NewStore_def)
qed

interpretation trie_store: subscription_store db_inv db_content Sub_NewStore SubscribeLocked UnsubscribeLocked UnsubscribeAllLocked
proof unfold_locales
  show "db_inv Sub_NewStore" by (rule db_inv_New)
  show "db_content Sub_NewStore = Map.empty" by (rule NewStore_content)
next
  fix db c subs ts assume db: "db_inv db"
  show "\<exists>r s'. SubscribeLocked c subs db = Inr (r, s') \<and> db_inv s' \<and> db_content s' = spec_subscribe c subs (db_content db)"
    using SubscribeLocked_content [OF db] .
  show "\<exists>s'. UnsubscribeLocked c ts db = Inr s' \<and> db_inv s' \<and> db_content s' = spec_unsubscribe c ts (db_content db)"
    using UnsubscribeLocked_content [OF db] .
  show "\<exists>s'. UnsubscribeAllLocked c db = Inr s' \<and> db_inv s'
      \<and> (\<forall>d f. db_content s' (d, [], f) = spec_unsubscribe_all c (db_content db) (d, [], f))
      \<and> (\<forall>k. db_content s' k \<in> {None, db_content db k})"
    using unsubscribeAll_ok [OF db, of c] by (auto simp: db_content_def spec_unsubscribe_all_def)
qed

section \<open>What a match visits\<close>

lemma iter_subs_append:
  "iter_subs fn (xs @ ys) s = (case iter_subs fn xs s of (s', b) \<Rightarrow> if \<not> b then (s', False) else iter_subs fn ys s')"
  by (induction xs arbitrary: s) (auto split: prod.splits)

lemma distinct_concat_key:
  assumes "distinct (map kf ps)" and "\<And>p. p \<in> set ps \<Longrightarrow> distinct (F p)"
    and "\<And>p x. p \<in> set ps \<Longrightarrow> x \<in> set (F p) \<Longrightarrow> key x = kf p"
  shows "distinct (concat (map F ps))"
  using assms
proof (induction ps)
  case (Cons p ps)
  have "x \<notin> set (concat (map F ps))" if "x \<in> set (F p)" for x
  proof
    assume "x \<in> set (concat (map F ps))"
    then obtain q where "q \<in> set ps" "x \<in> set (F q)" by auto
    then have "kf q = kf p" using Cons.prems(3) that by (metis list.set_intros)
    with \<open>q \<in> set ps\<close> Cons.prems(1) show False by (metis distinct.simps(2) image_eqI list.map(2) set_map)
  qed
  with Cons show ?case by auto
qed simp

text \<open>The subscriptions that stand along a path of a trie, in terms of the abstract store.\<close>

lemma content_ok:
  assumes "heap_wf h" and "t < length h"
  shows "distinct (al_keys (tclients h t p))" "distinct (al_keys (tshared h t p))"
    "(nm, l) \<in> set (tshared h t p) \<Longrightarrow> distinct (al_keys l)"
proof -
  have "distinct (al_keys (tclients h t p)) \<and> distinct (al_keys (tshared h t p))
      \<and> (\<forall>nm l. (nm, l) \<in> set (tshared h t p) \<longrightarrow> distinct (al_keys l))"
  proof (cases "trie_walk h t p")
    case (Some x)
    have "node_ok (h ! x)" using node_okD [OF assms(1)] trie_walk_less [OF assms Some] by blast
    with Some show ?thesis by (simp add: tclients_def tshared_def node_ok_def)
  qed (simp add: tclients_None)
  then show "distinct (al_keys (tclients h t p))" "distinct (al_keys (tshared h t p))"
    "(nm, l) \<in> set (tshared h t p) \<Longrightarrow> distinct (al_keys l)" by blast+
qed

lemma path_subs_user:
  assumes inv: "tries_ok db" and k: "k \<noteq> KShared" and key: "keyed (db_content db)"
  shows "(c, s) \<in> set (path_subs (db_heap db) (trie_of k db) p) \<longleftrightarrow>
    (\<exists>f. p = split_levels f \<and> kind_of [] f = k \<and> sub_at db c [] f = Some s)" (is "?l \<longleftrightarrow> ?r")
    and "distinct (path_subs (db_heap db) (trie_of k db) p)"
proof -
  note i = inv [unfolded tries_ok_def]
  have wf: "heap_wf (db_heap db)" and root: "is_root (db_heap db) (trie_of k db)" using i by blast+
  have p: "path_subs (db_heap db) (trie_of k db) p = tclients (db_heap db) (trie_of k db) p"
    using i k by (simp add: path_subs_def)
  have d: "distinct (al_keys (tclients (db_heap db) (trie_of k db) p))"
    using content_ok(1) [OF wf] root by (simp add: is_root_def)
  then show "distinct (path_subs (db_heap db) (trie_of k db) p)" unfolding p by (simp add: distinct_map)
  have "?l \<longleftrightarrow> map_of (tclients (db_heap db) (trie_of k db) p) c = Some s" unfolding p using d by simp
  also have "\<dots> \<longleftrightarrow> ?r"
  proof
    assume c: "map_of (tclients (db_heap db) (trie_of k db) p) c = Some s"
    then have "tclients (db_heap db) (trie_of k db) p \<noteq> []" by auto
    then obtain f where "p = split_levels f" "kind_of [] f = k" using i k by blast
    with c show ?r by (auto simp: sub_at_def)
  qed (auto simp: sub_at_def)
  finally show "?l \<longleftrightarrow> ?r" .
qed

lemma path_subs_shared:
  assumes inv: "tries_ok db" and key: "keyed (db_content db)"
  shows "(c, s) \<in> set (path_subs (db_heap db) (trie_of KShared db) p) \<longleftrightarrow>
    (\<exists>n f. n \<noteq> [] \<and> p = split_levels f \<and> sub_at db c n f = Some s)" (is "?l \<longleftrightarrow> ?r")
    and "distinct (path_subs (db_heap db) (trie_of KShared db) p)"
proof -
  note i = inv [unfolded tries_ok_def]
  let ?g = "tshared (db_heap db) (trie_of KShared db) p"
  have wf: "heap_wf (db_heap db)" and root: "is_root (db_heap db) (trie_of KShared db)" using i by blast+
  have p: "path_subs (db_heap db) (trie_of KShared db) p = concat (map snd ?g)"
    using i by (simp add: path_subs_def)
  have t: "trie_of KShared db < length (db_heap db)" using root by (simp add: is_root_def)
  note d = content_ok(2) [OF wf t, of p] and d' = content_ok(3) [OF wf t, of _ _ p]
  have g: "map_of ?g n = Some l \<longleftrightarrow> (n, l) \<in> set ?g" for n l using d by simp
  have at: "sub_at db c n f = Some s \<longleftrightarrow> (\<exists>l. (n, l) \<in> set ?g \<and> (c, s) \<in> set l)"
    if "n \<noteq> []" "p = split_levels f" for n f c s
  proof -
    have "sub_at db c n f = (case map_of ?g n of None \<Rightarrow> None | Some l \<Rightarrow> map_of l c)"
      using that by (simp add: sub_at_def Let_def kind_of_def)
    moreover have "(n, l) \<in> set ?g \<longleftrightarrow> map_of ?g n = Some l" for l using g by blast
    ultimately show ?thesis using g [of n] d' [of n] by (cases "map_of ?g n") simp_all
  qed
  have ne: "\<exists>f. p = split_levels f" if "(n, l) \<in> set ?g" for n l
  proof -
    from that have "?g \<noteq> []" by auto
    then show ?thesis using i by blast
  qed
  have nm: "n \<noteq> []" if "(n, l) \<in> set ?g" for n l
  proof -
    have "[] \<notin> fst ` set ?g" using i by blast
    with that show ?thesis by force
  qed
  have m: "(c, s) \<in> set (concat (map snd ?g)) \<longleftrightarrow> (\<exists>n l. (n, l) \<in> set ?g \<and> (c, s) \<in> set l)" for c s
    by force
  have sn: "sb_ShareName s = n" if w: "(n, l) \<in> set ?g" "(c, s) \<in> set l" for n l c s
  proof -
    obtain f where "p = split_levels f" using ne [OF w(1)] by blast
    then have "sub_at db c n f = Some s" using at [OF nm [OF w(1)]] w by blast
    then have "db_content db (c, n, f) = Some s" by (simp add: db_content_def)
    then show ?thesis using key unfolding keyed_def by blast
  qed
  show "?l \<longleftrightarrow> ?r"
  proof
    assume ?l
    then obtain n l where l: "(n, l) \<in> set ?g" "(c, s) \<in> set l" unfolding p m by blast
    obtain f where f: "p = split_levels f" using ne [OF l(1)] by blast
    have "sub_at db c n f = Some s" using at [OF nm [OF l(1)] f] l by blast
    then show ?r using nm [OF l(1)] f by blast
  next
    assume ?r
    then obtain n f where f: "n \<noteq> []" "p = split_levels f" "sub_at db c n f = Some s" by blast
    then show ?l unfolding p m using at [OF f(1,2)] by blast
  qed
  show "distinct (path_subs (db_heap db) (trie_of KShared db) p)"
    unfolding p
  proof (rule distinct_concat_key [where kf = fst and key = "sb_ShareName \<circ> snd"])
    show "distinct (snd e)" if "e \<in> set ?g" for e using d' [of "fst e" "snd e"] that by (simp add: distinct_map)
    show "(sb_ShareName \<circ> snd) x = fst e" if "e \<in> set ?g" "x \<in> set (snd e)" for e x
      using sn [of "fst e" "snd e" "fst x" "snd x"] that by simp
  qed (rule d)
qed

text \<open>The pairs a match in one trie finds.\<close>

definition hits :: "heap \<Rightarrow> ref \<Rightarrow> bytes \<Rightarrow> (bytes \<times> Subscription) list" where
  "hits h t topic = concat (map (path_subs h t) (match_paths (split_levels topic)))"

lemma plain_split: "plain_level t \<Longrightarrow> \<forall>l\<in>set (split_levels t). plain_level l"
proof (induction t)
  case (Cons x t)
  then show ?case by (cases "split_levels t"; cases "x = slash") (auto simp: split_levels_slash split_levels_other)
qed (simp add: split_levels.simps)

lemma getMatched_hits:
  "trie_getMatchedTopicFilter h t topic = Inr (fold rs_append (hits h t topic) [])"
  by (simp add: trie_getMatchedTopicFilter_def sub_matchTopic_paths hits_def)

lemma mset_matched: "mset (matched_pairs [] (fold rs_append es [])) = mset es"
  using rs_pairs_fold [of "[]" es] by (simp add: matched_pairs_def rs_pairs_def)

lemma hits_user:
  assumes inv: "tries_ok db" and key: "keyed (db_content db)" and k: "k \<noteq> KShared"
    and plain: "\<forall>l\<in>set (split_levels topic). plain_level l"
  shows "distinct (hits (db_heap db) (trie_of k db) topic)"
    and "(c, s) \<in> set (hits (db_heap db) (trie_of k db) topic) \<longleftrightarrow>
      (\<exists>f. sub_at db c [] f = Some s \<and> kind_of [] f = k \<and> levels_match (split_levels topic) (split_levels f))"
proof -
  show "distinct (hits (db_heap db) (trie_of k db) topic)"
    unfolding hits_def
  proof (rule distinct_concat_key [where kf = "\<lambda>p. p" and key = "\<lambda>x. split_levels (sb_TopicFilter (snd x))"])
    show "split_levels (sb_TopicFilter (snd x)) = p" if "x \<in> set (path_subs (db_heap db) (trie_of k db) p)" for p x
    proof -
      obtain f where f: "p = split_levels f" "sub_at db (fst x) [] f = Some (snd x)"
        using path_subs_user(1) [OF inv k key, of "fst x" "snd x" p] \<open>x \<in> _\<close> by auto
      then have "db_content db (fst x, [], f) = Some (snd x)" by (simp add: db_content_def)
      with f key show ?thesis unfolding keyed_def by metis
    qed
  qed (use path_subs_user(2) [OF inv k key] match_paths_distinct [OF plain] in simp_all)
  show "(c, s) \<in> set (hits (db_heap db) (trie_of k db) topic) \<longleftrightarrow>
      (\<exists>f. sub_at db c [] f = Some s \<and> kind_of [] f = k \<and> levels_match (split_levels topic) (split_levels f))"
    using path_subs_user(1) [OF inv k key, of c s] match_paths_iff [OF split_levels_neq_Nil plain]
    unfolding hits_def by auto
qed

lemma hits_shared:
  assumes inv: "tries_ok db" and key: "keyed (db_content db)"
    and plain: "\<forall>l\<in>set (split_levels topic). plain_level l"
  shows "distinct (hits (db_heap db) (trie_of KShared db) topic)"
    and "(c, s) \<in> set (hits (db_heap db) (trie_of KShared db) topic) \<longleftrightarrow>
      (\<exists>n f. n \<noteq> [] \<and> sub_at db c n f = Some s \<and> levels_match (split_levels topic) (split_levels f))"
proof -
  show "distinct (hits (db_heap db) (trie_of KShared db) topic)"
    unfolding hits_def
  proof (rule distinct_concat_key [where kf = "\<lambda>p. p" and key = "\<lambda>x. split_levels (sb_TopicFilter (snd x))"])
    show "split_levels (sb_TopicFilter (snd x)) = p" if "x \<in> set (path_subs (db_heap db) (trie_of KShared db) p)" for p x
    proof -
      obtain n f where f: "p = split_levels f" "sub_at db (fst x) n f = Some (snd x)"
        using path_subs_shared(1) [OF inv key, of "fst x" "snd x" p] \<open>x \<in> _\<close> by auto
      then have "db_content db (fst x, n, f) = Some (snd x)" by (simp add: db_content_def)
      with f key show ?thesis unfolding keyed_def by metis
    qed
  qed (use path_subs_shared(2) [OF inv key] match_paths_distinct [OF plain] in simp_all)
  show "(c, s) \<in> set (hits (db_heap db) (trie_of KShared db) topic) \<longleftrightarrow>
      (\<exists>n f. n \<noteq> [] \<and> sub_at db c n f = Some s \<and> levels_match (split_levels topic) (split_levels f))"
    using path_subs_shared(1) [OF inv key, of c s] match_paths_iff [OF split_levels_neq_Nil plain]
    unfolding hits_def by (simp, blast)
qed

text \<open>
  The subscriptions that a message for a topic reaches.  The rule on system topics applies to the
  non-shared subscriptions only.
\<close>

definition sub_matches :: "bytes \<Rightarrow> bytes \<Rightarrow> bytes \<Rightarrow> bool" where
  "sub_matches topic name f \<longleftrightarrow>
     (if name = [] then topic_matches topic f else levels_match (split_levels topic) (split_levels f))"

definition match_options :: "bytes \<Rightarrow> IterationOptions" where
  "match_options topic = \<lparr>it_Type = TypeAll, it_ClientID = [], it_TopicName = topic, it_MatchType = MatchFilter\<rparr>"

lemma iterate_match:
  assumes inv: "db_inv db" and key: "keyed (db_content db)" and "topic \<noteq> []" and plain: "plain_level topic"
  shows "\<exists>es. distinct es
    \<and> (\<forall>c s. (c, s) \<in> set es \<longleftrightarrow> (\<exists>n f. sub_at db c n f = Some s \<and> sub_matches topic n f))
    \<and> (\<forall>fn (st :: 'st). IterateLocked fn (match_options topic) db st = Inr (fst (iter_subs fn es st)))"
proof -
  have tries: "tries_ok db" using inv by (simp add: db_inv_def)
  have pl: "\<forall>l\<in>set (split_levels topic). plain_level l" using plain_split [OF plain] .
  let ?k = "if isSystemTopic topic then KSystem else KUser"
  let ?a = "hits (db_heap db) (trie_of KShared db) topic" and ?b = "hits (db_heap db) (trie_of ?k db) topic"
  let ?m = "\<lambda>es. matched_pairs [] (fold rs_append es [])"
  have k: "?k \<noteq> KShared" by simp
  have set_m: "set (?m es) = set es" "distinct (?m es) \<longleftrightarrow> distinct es" for es
    using mset_matched [of es] by (metis set_mset_mset, metis mset_eq_imp_distinct_iff)
  have kind: "kind_of [] f = ?k \<longleftrightarrow> isSystemTopic topic = isSystemTopic f" for f
    by (simp add: kind_of_def)
  have "(c, s) \<in> set (?m ?a @ ?m ?b) \<longleftrightarrow> (\<exists>n f. sub_at db c n f = Some s \<and> sub_matches topic n f)" for c s
    unfolding set_append Un_iff set_m hits_user(2) [OF tries key k pl] hits_shared(2) [OF tries key pl] kind
    by (auto simp: sub_matches_def topic_matches_def)
  moreover have "set ?a \<inter> set ?b = {}"
  proof -
    have False if a: "(c, s) \<in> set ?a" and b: "(c, s) \<in> set ?b" for c s
    proof -
      obtain n f g where "n \<noteq> []" "db_content db (c, n, f) = Some s" "db_content db (c, [], g) = Some s"
        using a b unfolding hits_user(2) [OF tries key k pl] hits_shared(2) [OF tries key pl] db_content_def by auto
      then show False using key unfolding keyed_def by metis
    qed
    then show ?thesis by auto
  qed
  then have "distinct (?m ?a @ ?m ?b)"
    using hits_user(1) [OF tries key k pl] hits_shared(1) [OF tries key pl] by (simp add: set_m)
  moreover have "IterateLocked fn (match_options topic) db st = Inr (fst (iter_subs fn (?m ?a @ ?m ?b) st))"
    for fn and st :: 'st
  proof -
    obtain s1 b1 where a: "iter_subs fn (?m ?a) st = (s1, b1)" by fastforce
    obtain s2 b2 where b: "iter_subs fn (?m ?b) s1 = (s2, b2)" by fastforce
    from a b show ?thesis using assms(3)
      by (cases "isSystemTopic topic"; cases b1; cases b2)
        (simp_all add: IterateLocked_def match_options_def iterateShared_def iterateNonShared_def getMatched_hits
          iter_subs_append Let_def)
  qed
  ultimately show ?thesis by blast
qed

section \<open>Statistics\<close>

lemma al_put_length: "length (al_put k v m) = (if map_of m k = None then Suc (length m) else length m)"
proof (induction m)
  case (Cons e m)
  then show ?case by (cases e) simp
qed simp

lemma al_del_length:
  assumes "distinct (al_keys m)"
  shows "length m = (if map_of m k = None then length (al_del k m) else Suc (length (al_del k m)))"
  using assms
proof (induction m)
  case (Cons e m)
  obtain k' v where e: "e = (k', v)" by fastforce
  show ?case
  proof (cases "k' = k")
    case True
    have "al_del k m = m" using Cons.prems e True by (intro al_del_absent) (auto simp: map_of_eq_None_iff)
    then have "al_del k (e # m) = m" using e True by (simp add: al_del_def)
    then show ?thesis using e True by simp
  next
    case False
    then have "al_del k (e # m) = e # al_del k m" using e by (simp add: al_del_def)
    then show ?thesis using Cons.IH Cons.prems False e by (cases "map_of m k") (auto simp: map_of_eq_None_iff)
  qed
qed (simp add: al_del_def)

text \<open>The number of filters in the indexes of a client.\<close>

definition idx_count :: "TrieDB \<Rightarrow> bytes \<Rightarrow> nat" where
  "idx_count db c = length (idx_list KUser db c) + length (idx_list KSystem db c) + length (idx_list KShared db c)"

definition stats_ok :: "TrieDB \<Rightarrow> bool" where
  "stats_ok db \<longleftrightarrow>
     (\<forall>c. SubscriptionsCurrent (client_stats db c) = word_of_nat (idx_count db c))
     \<and> finite (dom (clientStats db))
     \<and> SubscriptionsCurrent (stats db) = (\<Sum>c\<in>dom (clientStats db). SubscriptionsCurrent (client_stats db c))"

text \<open>An operation moves the count of one client, its statistics and the global ones by the same amount.\<close>

lemma stats_ok_move:
  assumes "stats_ok db"
    and "\<And>d. d \<noteq> c \<Longrightarrow> clientStats db' d = clientStats db d \<and> idx_count db' d = idx_count db d"
    and "clientStats db c \<noteq> None \<Longrightarrow> clientStats db' c \<noteq> None"
    and "word_of_nat (idx_count db' c) = word_of_nat (idx_count db c) + x"
    and "SubscriptionsCurrent (client_stats db' c) = SubscriptionsCurrent (client_stats db c) + x"
    and "SubscriptionsCurrent (stats db') = SubscriptionsCurrent (stats db) + x"
    and "clientStats db' c = None \<Longrightarrow> x = 0"
  shows "stats_ok db'"
proof -
  let ?g = "\<lambda>db d. SubscriptionsCurrent (client_stats db d)"
  let ?D = "dom (clientStats db) - {c}"
  have g: "?g db' d = ?g db d" if "d \<noteq> c" for d using assms(2) [OF that] by simp
  have dom: "dom (clientStats db') - {c} = ?D" using assms(2) by (auto simp: dom_def)
  have fin: "finite (dom (clientStats db'))" "finite (dom (clientStats db))"
    using assms(1) dom by (simp_all add: stats_ok_def) (metis finite_Diff finite_Diff2 finite.emptyI finite.insertI)
  have "sum (?g db) (dom (clientStats db)) = ?g db c + sum (?g db) ?D"
    by (cases "c \<in> dom (clientStats db)") (use fin in \<open>auto simp: sum.remove stats_zero_def domIff\<close>)
  moreover have "sum (?g db') (dom (clientStats db')) = ?g db' c + sum (?g db') ?D"
    unfolding dom [symmetric]
    by (cases "c \<in> dom (clientStats db')") (use fin in \<open>auto simp: sum.remove stats_zero_def domIff\<close>)
  moreover have "sum (?g db') ?D = sum (?g db) ?D" using g by (intro sum.cong) auto
  ultimately have "SubscriptionsCurrent (stats db') = sum (?g db') (dom (clientStats db'))"
    using assms(1,5,6) by (simp add: stats_ok_def)
  moreover have "?g db' d = word_of_nat (idx_count db' d)" for d
    using assms(1,2,4,5) g [of d] by (cases "d = c") (simp_all add: stats_ok_def)
  ultimately show ?thesis using fin by (simp add: stats_ok_def)
qed

lemma idx_list_other: "idx_list k' (subscribed k c f x h db) d = (if k' = k \<and> d = c then al_put f x (idx_list k db c) else idx_list k' db d)"
  by simp

lemma subscribed_stats:
  assumes "index_ok db" and "stats_ok db"
  shows "stats_ok (subscribed k c f x h db)"
proof (rule stats_ok_move [OF assms(2), where c = c and x = "if map_of (idx_list k db c) f = None then 1 else 0"])
  let ?db = "subscribed k c f x h db"
  show "d \<noteq> c \<Longrightarrow> clientStats ?db d = clientStats db d \<and> idx_count ?db d = idx_count db d" for d
    by (simp add: subscribed_def Let_def idx_count_def)
  show "word_of_nat (idx_count ?db c) = word_of_nat (idx_count db c) + (if map_of (idx_list k db c) f = None then 1 else 0)"
    unfolding idx_count_def subscribed_simps by (cases k) (simp_all add: al_put_length)
  show "SubscriptionsCurrent (client_stats ?db c) =
      SubscriptionsCurrent (client_stats db c) + (if map_of (idx_list k db c) f = None then 1 else 0)"
    by (simp add: subscribed_def Let_def stats_add_def)
  show "SubscriptionsCurrent (stats ?db) = SubscriptionsCurrent (stats db) + (if map_of (idx_list k db c) f = None then 1 else 0)"
    by (simp add: subscribed_def Let_def stats_add_def)
qed (auto simp: subscribed_def Let_def split: if_splits)

lemma unsubscribed_stats:
  assumes "index_ok db" and "stats_ok db"
  shows "stats_ok (unsubscribed k c f h db)"
proof (rule stats_ok_move [OF assms(2), where c = c and x = "if map_of (idx_list k db c) f = None then 0 else - 1"])
  let ?db = "unsubscribed k c f h db"
  have d: "distinct (al_keys (idx_list k db c))" using index_ok_list [OF assms(1)] by (auto split: option.split)
  show "d \<noteq> c \<Longrightarrow> clientStats ?db d = clientStats db d \<and> idx_count ?db d = idx_count db d" for d
    by (cases "index_of k db c") (simp_all add: unsubscribed_def Let_def idx_count_def)
  have "idx_list k ?db c = al_del f (idx_list k db c)"
    unfolding unsubscribed_simps by (simp add: al_del_def split: option.split)
  moreover have "idx_list k' ?db c = idx_list k' db c" if "k' \<noteq> k" for k'
    using that by simp
  ultimately show "word_of_nat (idx_count ?db c) = word_of_nat (idx_count db c) + (if map_of (idx_list k db c) f = None then 0 else - 1)"
    using al_del_length [OF d, of f] unfolding idx_count_def by (cases k) (auto split: if_splits)
  show "SubscriptionsCurrent (client_stats ?db c) =
      SubscriptionsCurrent (client_stats db c) + (if map_of (idx_list k db c) f = None then 0 else - 1)"
    by (simp add: unsubscribed_def Let_def stats_add_def)
  show "SubscriptionsCurrent (stats ?db) = SubscriptionsCurrent (stats db) + (if map_of (idx_list k db c) f = None then 0 else - 1)"
    by (simp add: unsubscribed_def Let_def stats_add_def)
  show "clientStats ?db c = None \<Longrightarrow> (if map_of (idx_list k db c) f = None then 0 else - 1) = (0 :: uint64)"
    by (auto simp: unsubscribed_def Let_def split: if_splits)
qed (simp add: unsubscribed_def Let_def)

lemma dropped_stats:
  assumes "index_ok db" and "stats_ok db"
  shows "stats_ok (dropped k c h db)"
proof (rule stats_ok_move [OF assms(2), where c = c and x = "- word_of_nat (length (idx_list k db c))"])
  let ?db = "dropped k c h db"
  show "d \<noteq> c \<Longrightarrow> clientStats ?db d = clientStats db d \<and> idx_count ?db d = idx_count db d" for d
    by (simp add: dropped_def Let_def idx_count_def split: option.split)
  show "word_of_nat (idx_count ?db c) = word_of_nat (idx_count db c) + - word_of_nat (length (idx_list k db c))"
    unfolding idx_count_def dropped_simps by (cases k) simp_all
  have n: "index_of k db c = None" if "clientStats db c = None"
    using index_ok_list [OF assms(1), of k c] that by (cases "index_of k db c") auto
  show "SubscriptionsCurrent (client_stats ?db c) =
      SubscriptionsCurrent (client_stats db c) + - word_of_nat (length (idx_list k db c))"
    using n by (cases "clientStats db c") (simp_all add: dropped_def Let_def stats_add_def)
  show "SubscriptionsCurrent (stats ?db) = SubscriptionsCurrent (stats db) + - word_of_nat (length (idx_list k db c))"
    by (simp add: dropped_def Let_def stats_add_def)
  show "clientStats ?db c = None \<Longrightarrow> - word_of_nat (length (idx_list k db c)) = (0 :: uint64)"
    using n by (cases "clientStats db c") (auto simp: dropped_def Let_def)
qed (auto simp: dropped_def Let_def split: option.split)

section \<open>Histories\<close>

fun sub_step :: "sub_op \<Rightarrow> TrieDB \<Rightarrow> TrieDB res" where
  "sub_step (OpSubscribe c subs) db = rbind (SubscribeLocked c subs db) (\<lambda>(r, db'). Inr db')"
| "sub_step (OpUnsubscribe c topics) db = UnsubscribeLocked c topics db"
| "sub_step (OpUnsubscribeAll c) db = UnsubscribeAllLocked c db"

fun sub_run :: "sub_op list \<Rightarrow> TrieDB \<Rightarrow> TrieDB res" where
  "sub_run [] db = Inr db"
| "sub_run (op # ops) db = rbind (sub_step op db) (sub_run ops)"

lemma sub_run_store: "sub_run ops db = trie_store.run ops db"
proof -
  have "sub_step op db = trie_store.step op db" for op db by (cases op) simp_all
  then have e: "sub_step = trie_store.step" by (intro ext)
  then have "sub_run ops = trie_store.run ops" 
  proof (induction ops)
    case (Cons op ops)
    show ?case by (rule ext) (simp add: Cons e)
  qed (simp add: fun_eq_iff)
  then show ?thesis by simp
qed

lemma sub_run_spec:
  "\<exists>db. sub_run ops Sub_NewStore = Inr db \<and> db_inv db
    \<and> agree (\<not> list_ex sub_op_all ops) (db_content db) (spec_run ops) \<and> keyed (db_content db)"
  using trie_store.run_spec [of ops] by (simp add: sub_run_store)

lemma SubscribeLocked_stats:
  "db_inv db \<Longrightarrow> stats_ok db \<Longrightarrow> SubscribeLocked c subs db = Inr (r, db') \<Longrightarrow> stats_ok db'"
proof (induction subs arbitrary: db r)
  case (Cons s subs)
  let ?k = "kind_of (sb_ShareName s) (sb_TopicFilter s)"
  obtain x h where t: "trie_subscribe (trie_of ?k db) c s (db_heap db) = (x, h)" by fastforce
  have ix: "index_ok db" "tries_ok db" using Cons.prems(1) by (simp_all add: db_inv_def)
  note e = SubscribeLocked_one_eq [OF ix(1) t refl]
  have "db_inv (subscribed ?k c (sb_TopicFilter s) x h db)"
    using subscribed_tries [OF ix(2) refl t] subscribed_index [OF Cons.prems(1) refl t] by (simp add: db_inv_def)
  from Cons.IH [OF this subscribed_stats [OF ix(1) Cons.prems(2)]] Cons.prems(3) e show ?case
    by (auto simp: rbind_eq_Inr_conv)
qed simp

lemma UnsubscribeLocked_stats:
  "db_inv db \<Longrightarrow> stats_ok db \<Longrightarrow> UnsubscribeLocked c ts db = Inr db' \<Longrightarrow> stats_ok db'"
proof (induction ts arbitrary: db)
  case (Cons t ts)
  obtain n f where t: "SplitTopic t = (n, f)" by fastforce
  have ix: "index_ok db" "tries_ok db" using Cons.prems(1) by (simp_all add: db_inv_def)
  obtain h where "trie_unsubscribe (trie_of (kind_of n f) db) c f n (db_heap db) = Inr h"
    using unsubscribe_heap [OF ix(2) refl] by blast
  note e = UnsubscribeLocked_one_eq [OF ix(1) t refl this]
  then have "db_inv (unsubscribed (kind_of n f) c f h db)" using unsubscribed_ok [OF Cons.prems(1) t, of c] by auto
  from Cons.IH [OF this unsubscribed_stats [OF ix(1) Cons.prems(2)]] Cons.prems(3) e show ?case by simp
qed simp

lemma unsubscribeAll_stats:
  assumes "db_inv db" and "stats_ok db"
  shows "\<exists>db'. unsubscribeAll k c db = Inr db' \<and> db_inv db' \<and> stats_ok db'"
proof -
  obtain db' where d: "unsubscribeAll k c db = Inr db'" "db_inv db'"
    using dropped_nonshared [OF assms(1)] dropped_shared [OF assms(1)] by (cases "k = KShared") blast+
  then obtain h where "db' = dropped k c h db" by (auto simp: unsubscribeAll_eq rbind_eq_Inr_conv)
  with d dropped_stats [OF _ assms(2), of k c h] assms(1) show ?thesis by (simp add: db_inv_def)
qed

lemma sub_step_stats:
  assumes "db_inv db" and "stats_ok db" and "sub_step op db = Inr db'"
  shows "stats_ok db'"
proof (cases op)
  case (OpSubscribe c subs)
  then show ?thesis using SubscribeLocked_stats [OF assms(1,2)] assms(3) by (auto simp: rbind_eq_Inr_conv)
next
  case (OpUnsubscribe c ts)
  then show ?thesis using UnsubscribeLocked_stats [OF assms(1,2)] assms(3) by simp
next
  case (OpUnsubscribeAll c)
  obtain d1 where d1: "unsubscribeAll KUser c db = Inr d1" "db_inv d1" "stats_ok d1"
    using unsubscribeAll_stats [OF assms(1,2)] by blast
  obtain d2 where d2: "unsubscribeAll KSystem c d1 = Inr d2" "db_inv d2" "stats_ok d2"
    using unsubscribeAll_stats [OF d1(2,3)] by blast
  obtain d3 where d3: "unsubscribeAll KShared c d2 = Inr d3" "stats_ok d3"
    using unsubscribeAll_stats [OF d2(2,3)] by blast
  from d1 d2 d3 OpUnsubscribeAll assms(3) show ?thesis by (simp add: UnsubscribeAllLocked_def)
qed

lemma sub_step_inv: "db_inv db \<Longrightarrow> sub_step op db = Inr db' \<Longrightarrow> db_inv db'"
proof (cases op)
  case (OpSubscribe c subs)
  assume "db_inv db" "sub_step op db = Inr db'"
  with OpSubscribe show ?thesis using SubscribeLocked_content [of db c subs] by auto
next
  case (OpUnsubscribe c ts)
  assume "db_inv db" "sub_step op db = Inr db'"
  with OpUnsubscribe show ?thesis using UnsubscribeLocked_content [of db c ts] by auto
next
  case (OpUnsubscribeAll c)
  assume "db_inv db" "sub_step op db = Inr db'"
  with OpUnsubscribeAll show ?thesis using unsubscribeAll_ok [of db c] by auto
qed

lemma sub_run_stats: "db_inv db \<Longrightarrow> stats_ok db \<Longrightarrow> sub_run ops db = Inr db' \<Longrightarrow> stats_ok db'"
proof (induction ops arbitrary: db)
  case (Cons op ops)
  then obtain d1 where "sub_step op db = Inr d1" "sub_run ops d1 = Inr db'" by (auto simp: rbind_eq_Inr_conv)
  with Cons sub_step_stats sub_step_inv show ?case by blast
qed simp

lemma stats_ok_New: "stats_ok Sub_NewStore"
proof -
  have "index_of k Sub_NewStore = Map.empty" for k by (cases k) (simp_all add: Sub_NewStore_def)
  then show ?thesis
    unfolding stats_ok_def idx_count_def by (simp add: Sub_NewStore_def stats_zero_def)
qed

lemma idx_keys:
  assumes "index_ok db" and "k \<noteq> KShared" and "tries_ok db"
  shows "fst ` set (idx_list k db c) = {f. kind_of [] f = k \<and> sub_at db c [] f \<noteq> None}" (is "?l = ?r")
proof -
  have d: "distinct (al_keys (idx_list k db c))" using index_ok_list [OF assms(1)] by (auto split: option.split)
  have w: "(\<exists>r m. index_of k db c = Some m \<and> map_of m f = Some r) \<longleftrightarrow>
      (\<exists>r. trie_walk (db_heap db) (trie_of k db) (split_levels f) = Some r
      \<and> map_of (tclients (db_heap db) (trie_of k db) (split_levels f)) c \<noteq> None)" for f
    using index_ok_rel [OF assms(1,2)] unfolding idx_rel_def by blast
  have in_kind: "kind_of [] f = k" if "map_of (tclients (db_heap db) (trie_of k db) (split_levels f)) c \<noteq> None" for f
  proof -
    from that have "tclients (db_heap db) (trie_of k db) (split_levels f) \<noteq> []" by auto
    then obtain g where "split_levels f = split_levels g" "kind_of [] g = k"
      using assms(2,3) unfolding tries_ok_def by blast
    then show ?thesis by simp
  qed
  have "f \<in> ?l \<longleftrightarrow> f \<in> ?r" for f
  proof -
    have "f \<in> ?l \<longleftrightarrow> (\<exists>r m. index_of k db c = Some m \<and> map_of m f = Some r)"
      using map_of_eq_None_iff [of "idx_list k db c" f] by (cases "index_of k db c") auto
    also have "\<dots> \<longleftrightarrow> map_of (tclients (db_heap db) (trie_of k db) (split_levels f)) c \<noteq> None"
      unfolding w using tclients_None [of "db_heap db" "trie_of k db" "split_levels f"]
      by (cases "trie_walk (db_heap db) (trie_of k db) (split_levels f)") simp_all
    also have "\<dots> \<longleftrightarrow> f \<in> ?r"
      using in_kind [of f] by (auto simp: sub_at_def Let_def)
    finally show ?thesis .
  qed
  then show ?thesis by blast
qed

lemma idx_count_nonshared:
  assumes "index_ok db" and "tries_ok db"
  shows "idx_count db c = card {f. sub_at db c [] f \<noteq> None} + length (idx_list KShared db c)"
proof -
  have d: "distinct (al_keys (idx_list k db c))" for k using index_ok_list [OF assms(1)] by (auto split: option.split)
  have n: "length (idx_list k db c) = card (fst ` set (idx_list k db c))" for k
    using distinct_card [OF d [of k]] by simp
  have "{f. sub_at db c [] f \<noteq> None} = fst ` set (idx_list KUser db c) \<union> fst ` set (idx_list KSystem db c)"
    using idx_keys [OF assms(1) _ assms(2), of KUser c] idx_keys [OF assms(1) _ assms(2), of KSystem c] by (auto simp: kind_of_def)
  moreover have "fst ` set (idx_list KUser db c) \<inter> fst ` set (idx_list KSystem db c) = {}"
    using idx_keys [OF assms(1) _ assms(2), of KUser c] idx_keys [OF assms(1) _ assms(2), of KSystem c] by auto
  ultimately have "card {f. sub_at db c [] f \<noteq> None}
      = card (fst ` set (idx_list KUser db c)) + card (fst ` set (idx_list KSystem db c))"
    using card_Un_disjoint [OF finite_imageI [OF finite_set] finite_imageI [OF finite_set]] by metis
  then show ?thesis unfolding idx_count_def n [of KUser] n [of KSystem] by linarith
qed

section \<open>Traversal\<close>

text \<open>A child is younger than its parent, so the depth of a trie is below the number of cells.\<close>

lemma traverse_children_total:
  assumes "\<And>c s. c \<in> set cs \<Longrightarrow> sub_preOrderTraverse fuel fn h c s \<noteq> None"
  shows "sub_traverse_children fuel fn h cs s \<noteq> None"
  using assms
proof (induction cs arbitrary: s)
  case (Cons c cs)
  then obtain s' b where "sub_preOrderTraverse fuel fn h c s = Some (s', b)" by fastforce
  with Cons show ?case by auto
qed simp

lemma preOrderTraverse_total:
  assumes wf: "heap_wf h"
  shows "t < length h \<Longrightarrow> length h - t \<le> fuel \<Longrightarrow> sub_preOrderTraverse fuel fn h t s \<noteq> None"
proof (induction fuel arbitrary: t s)
  case (Suc fuel)
  have "sub_preOrderTraverse fuel fn h c s' \<noteq> None" if "c \<in> set (map snd (sn_children (h ! t)))" for c s'
  proof -
    from that obtain lv where "(lv, c) \<in> set (sn_children (h ! t))" by auto
    then have "t < c" "c < length h" using heap_wfD [OF wf Suc.prems(1)] unfolding cell_ok_def by blast+
    with Suc show ?thesis by simp
  qed
  from traverse_children_total [of "map snd (sn_children (h ! t))" fuel fn h, OF this] show ?case
    by (auto split: prod.split)
qed simp

lemma traverse_all_total:
  assumes "tries_ok db"
  shows "\<exists>r. traverse_all fn (db_heap db) (trie_of k db) s = Inr r"
proof -
  have "heap_wf (db_heap db)" "trie_of k db < length (db_heap db)"
    using assms unfolding tries_ok_def is_root_def by blast+
  then show ?thesis using preOrderTraverse_total [of "db_heap db" "trie_of k db" "length (db_heap db)" fn s]
    by (auto simp: traverse_all_def)
qed

lemma client_pairs_total:
  assumes "index_ok db" and "tries_ok db" and "k \<noteq> KShared"
  shows "client_pairs c (db_heap db) (idx_list k db c) \<noteq> None"
proof -
  define ix where "ix = idx_list k db c"
  have d: "distinct (al_keys ix)" unfolding ix_def using index_ok_list [OF assms(1)] by (auto split: option.split)
  have a: "map_of (sn_clients (db_heap db ! r)) c \<noteq> None" if "(f, r) \<in> set ix" for f r
  proof -
    have "map_of (idx_list k db c) f = Some r" using d that unfolding ix_def by simp
    then have "\<exists>m. index_of k db c = Some m \<and> map_of m f = Some r" by (cases "index_of k db c") auto
    then have "trie_walk (db_heap db) (trie_of k db) (split_levels f) = Some r
        \<and> map_of (tclients (db_heap db) (trie_of k db) (split_levels f)) c \<noteq> None"
      using index_ok_rel [OF assms(1,3)] unfolding idx_rel_def by blast
    then show ?thesis by (auto simp: tclients_def)
  qed
  have b: "those xs \<noteq> None" if "None \<notin> set xs" for xs :: "(bytes \<times> Subscription) option list"
    using that
  proof (induction xs)
    case (Cons x xs)
    then show ?case by (cases x; cases "those xs") auto
  qed simp
  show ?thesis unfolding client_pairs_def ix_def [symmetric]
    by (rule b) (use a in fastforce)
qed

lemma rbind_total: "\<exists>r. x = Inr r \<Longrightarrow> \<forall>r. \<exists>y. f r = Inr y \<Longrightarrow> \<exists>y. rbind x f = Inr y"
  by auto

lemma iterateNonShared_total:
  assumes "index_ok db" and "tries_ok db" and "k \<noteq> KShared"
  shows "\<exists>r. iterateNonShared fn opts (index_of k db) (db_heap db) (trie_of k db) s = Inr r"
  using client_pairs_total [OF assms, of "it_ClientID opts"] traverse_all_total [OF assms(2), of fn k s]
  unfolding iterateNonShared_def getMatched_hits
  by (auto split: option.split)

lemma iterateShared_total:
  assumes "tries_ok db" and "it_MatchType opts = MatchName \<longrightarrow> \<not> HasPrefix (it_TopicName opts) share_prefix"
  shows "\<exists>r. iterateShared fn opts ix (db_heap db) (trie_of KShared db) s = Inr r"
  using assms(2) traverse_all_total [OF assms(1), of fn KShared s]
  unfolding iterateShared_def getMatched_hits by auto

lemma keyed_spec_run: "keyed (spec_run ops)"
proof -
  have "keyed m \<Longrightarrow> keyed (spec_unsubscribe_all c m)" for c m
    unfolding keyed_def spec_unsubscribe_all_def by simp
  then have "keyed m \<Longrightarrow> keyed (spec_step op m)" for op m
    using keyed_subscribe keyed_unsubscribe by (cases op) simp_all
  then have "keyed m \<Longrightarrow> keyed (fold spec_step ops m)" for m by (induction ops arbitrary: m) simp_all
  moreover have "keyed Map.empty" by (simp add: keyed_def)
  ultimately show ?thesis unfolding spec_run_def by blast
qed

section \<open>Correctness of the store\<close>

text \<open>
  C3. The trie database refines a map of subscriptions.  Every sequence of \<^verbatim>\<open>Subscribe\<close>, \<^verbatim>\<open>Unsubscribe\<close> and
  \<^verbatim>\<open>UnsubscribeAll\<close> calls on a new store runs without a nil dereference, and afterwards a message for a
  topic name reaches, each exactly once, the subscriptions that the sequence leaves in the map and whose filter matches the
  topic.  Shared subscriptions follow the map as long as \<^verbatim>\<open>UnsubscribeAll\<close> is not called.
\<close>

theorem subscriptions_match_history:
  assumes "topic \<noteq> []" and "plain_level topic"
  shows "\<exists>db es. sub_run ops Sub_NewStore = Inr db \<and> distinct es
    \<and> (\<forall>c s. sb_ShareName s = [] \<or> \<not> list_ex sub_op_all ops \<longrightarrow>
         ((c, s) \<in> set es \<longleftrightarrow> (\<exists>n f. spec_run ops (c, n, f) = Some s \<and> sub_matches topic n f)))
    \<and> (\<forall>fn (st :: 'st). IterateLocked fn (match_options topic) db st = Inr (fst (iter_subs fn es st)))"
proof -
  obtain db where db: "sub_run ops Sub_NewStore = Inr db" "db_inv db"
    "agree (\<not> list_ex sub_op_all ops) (db_content db) (spec_run ops)" "keyed (db_content db)"
    using sub_run_spec [of ops] by blast
  obtain es where es: "distinct es"
    "\<And>c s. (c, s) \<in> set es \<longleftrightarrow> (\<exists>n f. db_content db (c, n, f) = Some s \<and> sub_matches topic n f)"
    "\<forall>fn (st :: 'st). IterateLocked fn (match_options topic) db st = Inr (fst (iter_subs fn es st))"
    using iterate_match [OF db(2,4) assms] unfolding db_content_def by auto
  have "db_content db (c, n, f) = Some s \<longleftrightarrow> spec_run ops (c, n, f) = Some s"
    if "sb_ShareName s = [] \<or> \<not> list_ex sub_op_all ops" for c n f s
    using that db(3,4) keyed_spec_run [of ops] unfolding agree_def keyed_def by metis
  with db(1) es show ?thesis by metis
qed

definition sample_sub :: "bytes \<Rightarrow> bytes \<Rightarrow> Subscription" where
  "sample_sub name f = \<lparr>sb_ShareName = name, sb_TopicFilter = f, sb_ID = 0, sb_QoS = 1, sb_NoLocal = False,
     sb_RetainAsPublished = False, sb_RetainHandling = 0\<rparr>"

text \<open>A client with the filter \<^verbatim>\<open>a/+\<close> is reached by a message for \<^verbatim>\<open>a/b\<close>.\<close>

theorem subscriptions_match_history_witness:
  "\<exists>db es. sub_run [OpSubscribe [0x31] [sample_sub [] [0x61, 0x2F, 0x2B]]] Sub_NewStore = Inr db
    \<and> ([0x31], sample_sub [] [0x61, 0x2F, 0x2B]) \<in> set es
    \<and> IterateLocked (\<lambda>e n. (Suc n, True)) (match_options [0x61, 0x2F, 0x62]) db (0::nat)
        = Inr (fst (iter_subs (\<lambda>e n. (Suc n, True)) es 0))"
proof -
  let ?ops = "[OpSubscribe [0x31] [sample_sub [] [0x61, 0x2F, 0x2B]]]"
  obtain db es where db: "sub_run ?ops Sub_NewStore = Inr db"
    and es: "\<forall>c s. sb_ShareName s = [] \<or> \<not> list_ex sub_op_all ?ops \<longrightarrow>
         ((c, s) \<in> set es \<longleftrightarrow> (\<exists>n f. spec_run ?ops (c, n, f) = Some s \<and> sub_matches [0x61, 0x2F, 0x62] n f))"
    and it: "\<forall>fn st. IterateLocked fn (match_options [0x61, 0x2F, 0x62]) db (st::nat) = Inr (fst (iter_subs fn es st))"
    using subscriptions_match_history [of "[0x61, 0x2F, 0x62]" ?ops] by auto
  have "spec_run ?ops ([0x31], [], [0x61, 0x2F, 0x2B]) = Some (sample_sub [] [0x61, 0x2F, 0x2B])"
    by (simp add: spec_run_def sample_sub_def)
  moreover have "sub_matches [0x61, 0x2F, 0x62] [] [0x61, 0x2F, 0x2B]" by code_simp
  ultimately have "([0x31], sample_sub [] [0x61, 0x2F, 0x2B]) \<in> set es" using es by fastforce
  with db it show ?thesis by blast
qed

text \<open>
  The statistics count the subscriptions.  After every sequence of operations the current number kept for
  a client is, modulo 2 to the 64, the number of its non-shared subscriptions plus the number of filters
  in its index of shared ones, and the current number of the store is the sum over the clients.
\<close>

lemma subscriptions_stats:
  "\<exists>db. sub_run ops Sub_NewStore = Inr db
    \<and> (\<forall>c st. GetClientStatsLocked c db = Inr st \<longrightarrow> SubscriptionsCurrent st =
         word_of_nat (card {f. spec_run ops (c, [], f) \<noteq> None} + length (case sharedIndex db c of None \<Rightarrow> [] | Some m \<Rightarrow> m)))
    \<and> SubscriptionsCurrent (GetStatusLocked db) =
         (\<Sum>c\<in>dom (clientStats db). SubscriptionsCurrent (the (clientStats db c)))"
proof -
  obtain db where db: "sub_run ops Sub_NewStore = Inr db" "db_inv db"
    "agree (\<not> list_ex sub_op_all ops) (db_content db) (spec_run ops)"
    using sub_run_spec [of ops] by blast
  have ok: "stats_ok db" using sub_run_stats [OF db_inv_New stats_ok_New db(1)] .
  have ix: "index_ok db" "tries_ok db" using db(2) by (simp_all add: db_inv_def)
  have "{f. spec_run ops (c, [], f) \<noteq> None} = {f. sub_at db c [] f \<noteq> None}" for c
    using db(3) by (simp add: agree_def db_content_def)
  with idx_count_nonshared [OF ix] ok
  have "SubscriptionsCurrent (client_stats db c) =
      word_of_nat (card {f. spec_run ops (c, [], f) \<noteq> None} + length (idx_list KShared db c))" for c
    by (simp add: stats_ok_def)
  note n = this
  have "SubscriptionsCurrent st = word_of_nat (card {f. spec_run ops (c, [], f) \<noteq> None}
         + length (case sharedIndex db c of None \<Rightarrow> [] | Some m \<Rightarrow> m))" if "GetClientStatsLocked c db = Inr st" for c st
  proof -
    have "client_stats db c = st" using that by (simp add: GetClientStatsLocked_def split: option.splits)
    with n [of c] show ?thesis by simp
  qed
  moreover have "(\<Sum>c\<in>dom (clientStats db). SubscriptionsCurrent (client_stats db c)) =
      (\<Sum>c\<in>dom (clientStats db). SubscriptionsCurrent (the (clientStats db c)))"
    by (rule sum.cong) auto
  ultimately show ?thesis using db(1) ok by (simp add: stats_ok_def GetStatusLocked_def)
qed

lemma subscriptions_stats_witness:
  "\<exists>db st. sub_run [OpSubscribe [0x31] [sample_sub [] [0x61]]] Sub_NewStore = Inr db
    \<and> GetClientStatsLocked [0x31] db = Inr st \<and> SubscriptionsCurrent st = 1"
proof -
  let ?ops = "[OpSubscribe [0x31] [sample_sub [] [0x61]]]"
  have c: "case sub_run ?ops Sub_NewStore of Inl e \<Rightarrow> False
      | Inr db \<Rightarrow> clientStats db [0x31] \<noteq> None \<and> sharedIndex db [0x31] = None" by code_simp
  obtain db where db: "sub_run ?ops Sub_NewStore = Inr db"
    and n: "\<forall>c st. GetClientStatsLocked c db = Inr st \<longrightarrow> SubscriptionsCurrent st =
      word_of_nat (card {f. spec_run ?ops (c, [], f) \<noteq> None} + length (case sharedIndex db c of None \<Rightarrow> [] | Some m \<Rightarrow> m))"
    using subscriptions_stats [of ?ops] by blast
  obtain st where st: "GetClientStatsLocked [0x31] db = Inr st" using c db by (auto simp: GetClientStatsLocked_def)
  have "{f. spec_run ?ops ([0x31], [], f) \<noteq> None} = {[0x61]}" by (auto simp: spec_run_def sample_sub_def)
  with n st c db have "SubscriptionsCurrent st = 1" by simp
  with db st show ?thesis by blast
qed

text \<open>
  C39. Iteration over the store ends and does not panic: with any callback and any options except an
  exact-name query for a shared filter, \<^verbatim>\<open>IterateLocked\<close> returns on every store that can be reached.
\<close>

theorem Iterate_total:
  assumes "it_MatchType options = MatchName \<longrightarrow> \<not> HasPrefix (it_TopicName options) share_prefix"
  shows "\<exists>db s'. sub_run ops Sub_NewStore = Inr db \<and> IterateLocked fn options db s = Inr s'"
proof -
  obtain db where db: "sub_run ops Sub_NewStore = Inr db" "db_inv db"
    using sub_run_spec [of ops] by blast
  have ix: "index_ok db" "tries_ok db" using db(2) by (simp_all add: db_inv_def)
  have u: "\<exists>r. iterateNonShared fn options (userIndex db) (db_heap db) (db_userTrie db) s = Inr r" for s
    using iterateNonShared_total [OF ix, of KUser fn options s] by simp
  have y: "\<exists>r. iterateNonShared fn options (systemIndex db) (db_heap db) (db_systemTrie db) s = Inr r" for s
    using iterateNonShared_total [OF ix, of KSystem fn options s] by simp
  have h: "\<exists>r. iterateShared fn options (sharedIndex db) (db_heap db) (db_sharedTrie db) s = Inr r" for s
    using iterateShared_total [OF ix(2) assms, of fn _ s] by simp
  have "\<exists>s'. IterateLocked fn options db s = Inr s'"
    unfolding IterateLocked_def Let_def
    by (intro rbind_total allI) (use u y h in \<open>auto intro!: rbind_total\<close>)
  with db(1) show ?thesis by blast
qed

theorem Iterate_total_witness:
  "\<exists>db s'. sub_run [OpSubscribe [0x31] [sample_sub [0x67] [0x61]]] Sub_NewStore = Inr db
    \<and> IterateLocked (\<lambda>e n. (Suc n, True)) \<lparr>it_Type = 7, it_ClientID = [], it_TopicName = [], it_MatchType = 0\<rparr> db (0::nat) = Inr s'"
  by (rule Iterate_total) simp

text \<open>
  \<^verbatim>\<open>UnsubscribeAll\<close> takes the shared subscriptions of other clients with it.  Clients 1 and 2 both
  subscribe to \<^verbatim>\<open>$share/g/a\<close>; client 1 unsubscribes from everything; a message for \<^verbatim>\<open>a\<close>
  then reaches nobody, although the subscription of client 2 was never removed.
\<close>

lemma UnsubscribeAll_drops_others:
  "let ops = [OpSubscribe [0x31] [sample_sub [0x67] [0x61]], OpSubscribe [0x32] [sample_sub [0x67] [0x61]],
              OpUnsubscribeAll [0x31]] in
   spec_run ops ([0x32], [0x67], [0x61]) = Some (sample_sub [0x67] [0x61])
   \<and> rbind (sub_run ops Sub_NewStore) (\<lambda>db. GetTopicMatched db [0x61] TypeAll) = Inr []"
proof -
  let ?ops = "[OpSubscribe [0x31] [sample_sub [0x67] [0x61]], OpSubscribe [0x32] [sample_sub [0x67] [0x61]],
              OpUnsubscribeAll [0x31]]"
  have "spec_run ?ops ([0x32], [0x67], [0x61]) = Some (sample_sub [0x67] [0x61])"
    by (simp add: spec_run_def spec_unsubscribe_all_def sample_sub_def)
  moreover have "rbind (sub_run ?ops Sub_NewStore) (\<lambda>db. GetTopicMatched db [0x61] TypeAll) = Inr []" by code_simp
  ultimately show ?thesis by simp
qed

text \<open>The same at a node with children leaves the subscription of the client itself in place.\<close>

lemma UnsubscribeAll_keeps_own:
  "case rbind (sub_run [OpSubscribe [0x31] [sample_sub [0x67] [0x61]], OpSubscribe [0x32] [sample_sub [0x67] [0x61, 0x2F, 0x62]],
       OpUnsubscribeAll [0x31]] Sub_NewStore) (\<lambda>db. GetTopicMatched db [0x61] TypeAll) of
     Inl e \<Rightarrow> False | Inr rs \<Rightarrow> map fst rs = [[0x31]]"
  by code_simp

end
