(* ===== verification/Delivery.thy ===== *)
theory Delivery
  imports Sub_Spec Queue Retained
begin

text \<open>
  Delivery of a message, \<^verbatim>\<open>gmqtt/server/server.go\<close>: \<^verbatim>\<open>deliverMessage\<close> with its \<^verbatim>\<open>deliverHandler\<close> and
  \<^verbatim>\<open>addMsgToQueueLocked\<close>, and the configuration \<^verbatim>\<open>gmqtt/config/mqtt.go\<close> it reads.  The caller holds
  \<^verbatim>\<open>srv.mu\<close>, so a call is one transition.  The draw of \<^verbatim>\<open>rand.Intn\<close> is a parameter of the model, of which
  only the documented range is assumed.

  Delivery is shown to be a list of additions to queues (\<open>deliver_all\<close>), and the list is characterised
  from the history of the subscription store.
\<close>

section \<open>Configuration\<close>

definition Overlap :: bytes where "Overlap = [0x6F, 0x76, 0x65, 0x72, 0x6C, 0x61, 0x70]"
definition OnlyOnce :: bytes where "OnlyOnce = [0x6F, 0x6E, 0x6C, 0x79, 0x6F, 0x6E, 0x63, 0x65]"

text \<open>Durations are integers in nanoseconds.\<close>

definition Second :: int where "Second = 1000000000"

record MQTT =
  cfg_SessionExpiry :: int
  cfg_SessionExpiryCheckInterval :: int
  cfg_MessageExpiry :: int
  cfg_InflightExpiry :: int
  cfg_MaxPacketSize :: uint32
  cfg_ReceiveMax :: uint16
  cfg_MaxKeepAlive :: uint16
  cfg_TopicAliasMax :: uint16
  cfg_SubscriptionIDAvailable :: bool
  cfg_SharedSubAvailable :: bool
  cfg_WildcardAvailable :: bool
  cfg_RetainAvailable :: bool
  cfg_MaxQueuedMsg :: int
  cfg_MaxInflight :: uint16
  cfg_MaximumQoS :: byte
  cfg_QueueQos0Msg :: bool
  cfg_DeliveryMode :: bytes
  cfg_AllowZeroLenClientID :: bool

definition DefaultMQTTConfig :: MQTT where
  "DefaultMQTTConfig =
     \<lparr>cfg_SessionExpiry = 7200 * Second, cfg_SessionExpiryCheckInterval = 20 * Second, cfg_MessageExpiry = 7200 * Second,
      cfg_InflightExpiry = 30 * Second, cfg_MaxPacketSize = 268435456, cfg_ReceiveMax = 100, cfg_MaxKeepAlive = 300,
      cfg_TopicAliasMax = 10, cfg_SubscriptionIDAvailable = True, cfg_SharedSubAvailable = True, cfg_WildcardAvailable = True,
      cfg_RetainAvailable = True, cfg_MaxQueuedMsg = 1000, cfg_MaxInflight = 100, cfg_MaximumQoS = 2,
      cfg_QueueQos0Msg = True, cfg_DeliveryMode = OnlyOnce, cfg_AllowZeroLenClientID = True\<rparr>"

text \<open>The numbers and names in the messages of the errors are left out.\<close>

definition MQTT_Validate :: "MQTT \<Rightarrow> unit res" where
  "MQTT_Validate c =
     (if 2 < cfg_MaximumQoS c then Inl (ErrText ''invalid maximum_qos'')
      else if cfg_MaxQueuedMsg c \<le> 0 then Inl (ErrText ''invalid max_queued_messages'')
      else if cfg_ReceiveMax c = 0 then Inl (ErrText ''server_receive_maximum cannot be 0'')
      else if cfg_MaxPacketSize c = 0 then Inl (ErrText ''max_packet_size cannot be 0'')
      else if cfg_MaxInflight c = 0 then Inl (ErrText ''max_inflight cannot be 0'')
      else if cfg_DeliveryMode c \<noteq> Overlap \<and> cfg_DeliveryMode c \<noteq> OnlyOnce then Inl (ErrText ''invalid delivery_mode'')
      else if cfg_MaxQueuedMsg c < uint (cfg_MaxInflight c)
        then Inl (ErrText ''max_queued_message cannot be less than max_inflight'')
      else Inr ())"

section \<open>Adding a message to a queue\<close>

text \<open>
  The part of the server's state that delivery uses.  \<open>sv_clients\<close> are the connected clients; the calls
  of the queues' notifiers are collected in \<open>sv_notes\<close>.
\<close>

record server =
  subscriptionsDB :: TrieDB
  retainedDB :: trieDB
  queueStore :: "bytes \<Rightarrow> Queue option"
  sv_clients :: "bytes set"
  sv_config :: MQTT
  sv_notes :: "(bytes \<times> Notify) list"

definition deliver_copy :: "Message \<Rightarrow> Subscription \<Rightarrow> uint32 list \<Rightarrow> Message" where
  "deliver_copy msg sub ids =
     (let msg = (if sb_QoS sub < msg_QoS msg then msg\<lparr>msg_QoS := sb_QoS sub\<rparr> else msg);
          msg = msg\<lparr>msg_SubscriptionIdentifier := msg_SubscriptionIdentifier msg @ filter (\<lambda>i. i \<noteq> 0) ids\<rparr>;
          msg = msg\<lparr>msg_Dup := False\<rparr> in
      if \<not> sb_RetainAsPublished sub then msg\<lparr>msg_Retained := False\<rparr> else msg)"

definition queue_expiry :: "MQTT \<Rightarrow> int \<Rightarrow> Message \<Rightarrow> int option" where
  "queue_expiry cfg now msg =
     (if cfg_MessageExpiry cfg \<noteq> 0 then
        (if msg_MessageExpiry msg \<noteq> 0 \<and> uint (msg_MessageExpiry msg) \<le> cfg_MessageExpiry cfg
         then Some (now + uint (msg_MessageExpiry msg) * Second)
         else Some (now + cfg_MessageExpiry cfg))
      else if msg_MessageExpiry msg \<noteq> 0 then Some (now + uint (msg_MessageExpiry msg) * Second)
      else None)"

text \<open>The error branch after \<^verbatim>\<open>q.Add\<close> is not reached with the in-memory queue, whose \<^verbatim>\<open>Add\<close> returns no error.\<close>

definition addMsgToQueueLocked ::
    "int \<Rightarrow> bytes \<Rightarrow> Message \<Rightarrow> Subscription \<Rightarrow> uint32 list \<Rightarrow> Queue \<Rightarrow> server \<Rightarrow> server res" where
  "addMsgToQueueLocked now clientID msg sub ids q srv =
     (if \<not> cfg_QueueQos0Msg (sv_config srv) \<and> clientID \<notin> sv_clients srv \<and> msg_QoS msg = 0 then Inr srv
      else
        let msg' = deliver_copy msg sub ids in
        rbind (Queue_Add now \<lparr>At = now, Expiry = queue_expiry (sv_config srv) now msg', Elem_msg = QPublish msg'\<rparr> q)
          (\<lambda>(q', ns).
          Inr (srv\<lparr>queueStore := (queueStore srv)(clientID \<mapsto> q'),
                   sv_notes := sv_notes srv @ map (Pair clientID) ns\<rparr>)))"

section \<open>The deliver handler\<close>

record deliverHandler =
  dh_sl :: "(bytes \<times> (bytes \<times> Subscription) list) list"
  dh_mq :: "(bytes \<times> (Subscription \<times> uint32 list)) list"
  dh_matched :: bool
  dh_srv :: server

definition al_append :: "'k \<Rightarrow> 'v \<Rightarrow> ('k \<times> 'v list) list \<Rightarrow> ('k \<times> 'v list) list" where
  "al_append k v m = al_put k ((case map_of m k of None \<Rightarrow> [] | Some l \<Rightarrow> l) @ [v]) m"

definition iterate_overlap :: "int \<Rightarrow> Message \<Rightarrow> bytes \<Rightarrow> Subscription \<Rightarrow> deliverHandler \<Rightarrow> deliverHandler res" where
  "iterate_overlap now msg clientID sub d =
     (case queueStore (dh_srv d) clientID of
        None \<Rightarrow> Inr d
      | Some qs \<Rightarrow>
          rbind (addMsgToQueueLocked now clientID (Message_Copy msg) sub [sb_ID sub] qs (dh_srv d)) (\<lambda>srv'.
          Inr (d\<lparr>dh_srv := srv'\<rparr>)))"

definition iterate_onlyonce :: "bytes \<Rightarrow> Subscription \<Rightarrow> deliverHandler \<Rightarrow> deliverHandler" where
  "iterate_onlyonce clientID sub d =
     (case map_of (dh_mq d) clientID of
        None \<Rightarrow> d\<lparr>dh_mq := al_put clientID (sub, [sb_ID sub]) (dh_mq d)\<rparr>
      | Some (best, subIDs) \<Rightarrow>
          d\<lparr>dh_mq := al_put clientID (if sb_QoS best < sb_QoS sub then sub else best, subIDs @ [sb_ID sub]) (dh_mq d)\<rparr>)"

text \<open>The callback \<^verbatim>\<open>d.fn\<close>; a panic below it ends the iteration.\<close>

definition deliver_fn :: "bytes \<Rightarrow> bytes \<Rightarrow> Message \<Rightarrow> int \<Rightarrow> deliverHandler res SubIterateFn" where
  "deliver_fn mode srcClientID msg now e r =
     (case r of Inl err \<Rightarrow> (Inl err, False)
      | Inr d \<Rightarrow>
        let (clientID, sub) = e in
        if sb_NoLocal sub \<and> clientID = srcClientID then (Inr d, True)
        else
          let d = d\<lparr>dh_matched := True\<rparr> in
          if sb_ShareName sub \<noteq> [] then
            (Inr (d\<lparr>dh_sl := al_append (Subscription_GetFullTopicName sub) (clientID, sub) (dh_sl d)\<rparr>), True)
          else if mode = Overlap then
            (case iterate_overlap now msg clientID sub d of Inl err \<Rightarrow> (Inl err, False) | Inr d' \<Rightarrow> (Inr d', True))
          else (Inr (iterate_onlyonce clientID sub d), True))"

definition newDeliverHandler :: "server \<Rightarrow> deliverHandler" where
  "newDeliverHandler srv = \<lparr>dh_sl = [], dh_mq = [], dh_matched = False, dh_srv = srv\<rparr>"

text \<open>\<open>Intn g n\<close> is the value of \<^verbatim>\<open>rand.Intn(n)\<close> drawn for the share group \<open>g\<close>.\<close>

fun flush_shared ::
    "(bytes \<Rightarrow> nat \<Rightarrow> nat) \<Rightarrow> int \<Rightarrow> Message \<Rightarrow> (bytes \<times> (bytes \<times> Subscription) list) list \<Rightarrow> server \<Rightarrow> server res" where
  "flush_shared Intn now msg [] srv = Inr srv"
| "flush_shared Intn now msg ((g, v) # sl) srv =
     (if length v \<le> Intn g (length v) then Inl Panic
      else
        let (clientID, sub) = v ! Intn g (length v) in
        rbind (case queueStore srv clientID of
                 None \<Rightarrow> Inr srv
               | Some c \<Rightarrow> addMsgToQueueLocked now clientID (Message_Copy msg) sub [sb_ID sub] c srv)
          (flush_shared Intn now msg sl))"

fun flush_once :: "int \<Rightarrow> Message \<Rightarrow> (bytes \<times> (Subscription \<times> uint32 list)) list \<Rightarrow> server \<Rightarrow> server res" where
  "flush_once now msg [] srv = Inr srv"
| "flush_once now msg ((clientID, (sub, subIDs)) # mq) srv =
     rbind (case queueStore srv clientID of
              None \<Rightarrow> Inr srv
            | Some qs \<Rightarrow> addMsgToQueueLocked now clientID (Message_Copy msg) sub subIDs qs srv)
       (flush_once now msg mq)"

definition deliver_flush :: "(bytes \<Rightarrow> nat \<Rightarrow> nat) \<Rightarrow> int \<Rightarrow> Message \<Rightarrow> deliverHandler \<Rightarrow> server res" where
  "deliver_flush Intn now msg d = rbind (flush_shared Intn now msg (dh_sl d) (dh_srv d)) (flush_once now msg (dh_mq d))"

definition deliverMessage ::
    "(bytes \<Rightarrow> nat \<Rightarrow> nat) \<Rightarrow> int \<Rightarrow> bytes \<Rightarrow> Message \<Rightarrow> IterationOptions \<Rightarrow> server \<Rightarrow> (bool \<times> server) res" where
  "deliverMessage Intn now srcClientID msg options srv =
     rbind (IterateLocked (deliver_fn (cfg_DeliveryMode (sv_config srv)) srcClientID msg now) options (subscriptionsDB srv)
              (Inr (newDeliverHandler srv))) (\<lambda>r.
     rbind r (\<lambda>d.
     rbind (deliver_flush Intn now msg d) (\<lambda>srv'.
     Inr (dh_matched d, srv'))))"

section \<open>Delivery as a list of additions\<close>

text \<open>What a client is to be sent: the subscription that governs the copy and the identifiers it carries.\<close>

type_synonym delivery = "bytes \<times> Subscription \<times> uint32 list"

definition deliver_one :: "int \<Rightarrow> Message \<Rightarrow> delivery \<Rightarrow> server \<Rightarrow> server res" where
  "deliver_one now msg dl srv =
     (case dl of (c, s, ids) \<Rightarrow>
        (case queueStore srv c of
           None \<Rightarrow> Inr srv
         | Some q \<Rightarrow> addMsgToQueueLocked now c (Message_Copy msg) s ids q srv))"

fun deliver_all :: "int \<Rightarrow> Message \<Rightarrow> delivery list \<Rightarrow> server \<Rightarrow> server res" where
  "deliver_all now msg [] srv = Inr srv"
| "deliver_all now msg (dl # dls) srv = rbind (deliver_one now msg dl srv) (deliver_all now msg dls)"

lemma rbind_assoc: "rbind (rbind x f) g = rbind x (\<lambda>y. rbind (f y) g)"
  by (cases x) simp_all

lemma deliver_all_append:
  "deliver_all now msg (xs @ ys) srv = rbind (deliver_all now msg xs srv) (deliver_all now msg ys)"
proof (induction xs arbitrary: srv)
  case (Cons x xs)
  then show ?case by (cases "deliver_one now msg x srv") simp_all
qed simp

text \<open>The subscriptions that count: a no-local subscription does not see the messages of its own client.\<close>

definition eligible :: "bytes \<Rightarrow> (bytes \<times> Subscription) list \<Rightarrow> (bytes \<times> Subscription) list" where
  "eligible src es = filter (\<lambda>(c, s). \<not> (sb_NoLocal s \<and> c = src)) es"

definition plain_subs :: "(bytes \<times> Subscription) list \<Rightarrow> (bytes \<times> Subscription) list" where
  "plain_subs es = filter (\<lambda>(c, s). sb_ShareName s = []) es"

definition shared_subs :: "(bytes \<times> Subscription) list \<Rightarrow> (bytes \<times> Subscription) list" where
  "shared_subs es = filter (\<lambda>(c, s). sb_ShareName s \<noteq> []) es"

definition overlap_calls :: "(bytes \<times> Subscription) list \<Rightarrow> delivery list" where
  "overlap_calls es = map (\<lambda>(c, s). (c, s, [sb_ID s])) es"

definition groups_of :: "(bytes \<times> Subscription) list \<Rightarrow> (bytes \<times> (bytes \<times> Subscription) list) list \<Rightarrow> (bytes \<times> (bytes \<times> Subscription) list) list" where
  "groups_of es m = fold (\<lambda>(c, s). al_append (Subscription_GetFullTopicName s) (c, s)) es m"

definition once_add :: "bytes \<times> Subscription \<Rightarrow> (bytes \<times> (Subscription \<times> uint32 list)) list \<Rightarrow> (bytes \<times> (Subscription \<times> uint32 list)) list" where
  "once_add e m = (case e of (c, s) \<Rightarrow>
     (case map_of m c of
        None \<Rightarrow> al_put c (s, [sb_ID s]) m
      | Some (best, ids) \<Rightarrow> al_put c (if sb_QoS best < sb_QoS s then s else best, ids @ [sb_ID s]) m))"

lemma iterate_onlyonce_eq: "iterate_onlyonce c s d = d\<lparr>dh_mq := once_add (c, s) (dh_mq d)\<rparr>"
  by (auto simp: iterate_onlyonce_def once_add_def split: option.split)

lemma deliver_iter:
  "fst (iter_subs (deliver_fn mode src msg now) es (Inr d)) =
     rbind (deliver_all now msg (if mode = Overlap then overlap_calls (plain_subs (eligible src es)) else []) (dh_srv d)) (\<lambda>srv'.
     Inr \<lparr>dh_sl = groups_of (shared_subs (eligible src es)) (dh_sl d),
          dh_mq = (if mode = Overlap then dh_mq d else fold once_add (plain_subs (eligible src es)) (dh_mq d)),
          dh_matched = (dh_matched d \<or> eligible src es \<noteq> []), dh_srv = srv'\<rparr>)"
proof (induction es arbitrary: d)
  case Nil
  then show ?case by (simp add: eligible_def plain_subs_def shared_subs_def overlap_calls_def groups_of_def)
next
  case (Cons e es)
  obtain c s where e: "e = (c, s)" by fastforce
  show ?case
  proof (cases "sb_NoLocal s \<and> c = src")
    case True
    have "eligible src (e # es) = eligible src es" using True e by (simp add: eligible_def)
    moreover have "fst (iter_subs (deliver_fn mode src msg now) (e # es) (Inr d)) =
        fst (iter_subs (deliver_fn mode src msg now) es (Inr d))"
      using True e by (simp add: deliver_fn_def)
    ultimately show ?thesis using Cons.IH [of d] by simp
  next
    case False
    have el: "eligible src (e # es) = e # eligible src es" using False e by (auto simp: eligible_def)
    show ?thesis
    proof (cases "sb_ShareName s = []")
      case plain: True
      have p: "plain_subs (e # eligible src es) = e # plain_subs (eligible src es)"
        "shared_subs (e # eligible src es) = shared_subs (eligible src es)"
        using plain e by (simp_all add: plain_subs_def shared_subs_def)
      show ?thesis
      proof (cases "mode = Overlap")
        case True
        let ?d = "d\<lparr>dh_matched := True\<rparr>"
        have o: "iterate_overlap now msg c s ?d = rbind (deliver_one now msg (c, s, [sb_ID s]) (dh_srv d)) (\<lambda>srv'. Inr (?d\<lparr>dh_srv := srv'\<rparr>))"
          by (simp add: iterate_overlap_def deliver_one_def split: option.split)
        have s: "iter_subs (deliver_fn mode src msg now) (e # es) (Inr d) =
            (case deliver_one now msg (c, s, [sb_ID s]) (dh_srv d) of Inl err \<Rightarrow> (Inl err, False)
             | Inr srv' \<Rightarrow> iter_subs (deliver_fn mode src msg now) es (Inr (?d\<lparr>dh_srv := srv'\<rparr>)))"
          using False plain True e o by (cases "deliver_one now msg (c, s, [sb_ID s]) (dh_srv d)") (auto simp: deliver_fn_def)
        show ?thesis unfolding s el p
          using Cons.IH True e
          by (cases "deliver_one now msg (c, s, [sb_ID s]) (dh_srv d)") (simp_all add: overlap_calls_def)
      next
        case mode: False
        have "iter_subs (deliver_fn mode src msg now) (e # es) (Inr d) =
            iter_subs (deliver_fn mode src msg now) es (Inr (d\<lparr>dh_matched := True, dh_mq := once_add (c, s) (dh_mq d)\<rparr>))"
          using False plain mode e by (auto simp: deliver_fn_def iterate_onlyonce_eq)
        then show ?thesis unfolding el p using Cons.IH mode e by simp
      qed
    next
      case shared: False
      have p: "plain_subs (e # eligible src es) = plain_subs (eligible src es)"
        "shared_subs (e # eligible src es) = e # shared_subs (eligible src es)"
        using shared e by (simp_all add: plain_subs_def shared_subs_def)
      have "iter_subs (deliver_fn mode src msg now) (e # es) (Inr d) =
          iter_subs (deliver_fn mode src msg now) es
            (Inr (d\<lparr>dh_matched := True, dh_sl := al_append (Subscription_GetFullTopicName s) (c, s) (dh_sl d)\<rparr>))"
        using False shared e by (auto simp: deliver_fn_def)
      then show ?thesis unfolding el p using Cons.IH e by (simp add: groups_of_def)
    qed
  qed
qed

text \<open>The flush.\<close>

definition shared_calls :: "(bytes \<Rightarrow> nat \<Rightarrow> nat) \<Rightarrow> (bytes \<times> (bytes \<times> Subscription) list) list \<Rightarrow> delivery list" where
  "shared_calls Intn sl = map (\<lambda>(g, v). let (c, s) = v ! Intn g (length v) in (c, s, [sb_ID s])) sl"

lemma flush_shared_calls:
  "\<forall>(g, v)\<in>set sl. Intn g (length v) < length v \<Longrightarrow>
   flush_shared Intn now msg sl srv = deliver_all now msg (shared_calls Intn sl) srv"
proof (induction sl arbitrary: srv)
  case (Cons e sl)
  obtain g v where e: "e = (g, v)" by fastforce
  obtain c s where v: "v ! Intn g (length v) = (c, s)" by fastforce
  have "flush_shared Intn now msg sl = deliver_all now msg (shared_calls Intn sl)"
    using Cons by (intro ext) auto
  then show ?case using Cons.prems unfolding e
    by (simp add: shared_calls_def v deliver_one_def)
qed (simp add: shared_calls_def)

lemma flush_once_calls: "flush_once now msg mq srv = deliver_all now msg mq srv"
proof (induction mq arbitrary: srv)
  case (Cons e mq)
  obtain c s ids where e: "e = (c, s, ids)" by (cases e) auto
  have "flush_once now msg mq = deliver_all now msg mq" using Cons by (intro ext)
  then show ?case unfolding e by (simp add: deliver_one_def)
qed simp

lemma groups_lookup:
  "map_of (groups_of es m) g =
     (let l = filter (\<lambda>(c, s). Subscription_GetFullTopicName s = g) es in
      case map_of m g of None \<Rightarrow> if l = [] then None else Some l | Some l0 \<Rightarrow> Some (l0 @ l))"
proof (induction es arbitrary: m)
  case (Cons e es)
  then show ?case
    by (cases e) (auto simp: groups_of_def al_append_def Let_def split: option.splits)
qed (simp add: groups_of_def split: option.splits)

lemma groups_distinct: "distinct (al_keys m) \<Longrightarrow> distinct (al_keys (groups_of es m))"
  by (induction es arbitrary: m) (auto simp: groups_of_def al_append_def)


text \<open>The best subscription and the identifiers of a client.\<close>

definition best_of :: "Subscription \<Rightarrow> Subscription list \<Rightarrow> Subscription" where
  "best_of b l = fold (\<lambda>s b. if sb_QoS b < sb_QoS s then s else b) l b"



definition client_subs :: "bytes \<Rightarrow> (bytes \<times> Subscription) list \<Rightarrow> Subscription list" where
  "client_subs c es = map snd (filter (\<lambda>e. fst e = c) es)"

lemma best_of_simps [simp]:
  "best_of b [] = b" "best_of b (s # l) = best_of (if sb_QoS b < sb_QoS s then s else b) l"
  by (simp_all add: best_of_def)




lemma filter_key:
  "distinct (al_keys m) \<Longrightarrow> filter (\<lambda>e. fst e = k) m = (case map_of m k of None \<Rightarrow> [] | Some v \<Rightarrow> [(k, v)])"
proof (induction m)
  case (Cons e m)
  obtain k' v where e: "e = (k', v)" by fastforce
  have "filter (\<lambda>e. fst e = k) m = []" if "k' = k" using Cons.prems e that by (auto simp: filter_empty_conv)
  with Cons show ?case unfolding e by auto
qed simp

definition calls_to :: "bytes \<Rightarrow> delivery list \<Rightarrow> delivery list" where
  "calls_to c calls = filter (\<lambda>(c', s, ids). c' = c \<and> sb_ShareName s = []) calls"

definition calls_group :: "bytes \<Rightarrow> delivery list \<Rightarrow> delivery list" where
  "calls_group g calls = filter (\<lambda>(c, s, ids). sb_ShareName s \<noteq> [] \<and> Subscription_GetFullTopicName s = g) calls"


text \<open>What the documentation of \<^verbatim>\<open>rand.Intn\<close> says.\<close>

definition Intn_in_range :: "(bytes \<Rightarrow> nat \<Rightarrow> nat) \<Rightarrow> bool" where
  "Intn_in_range Intn \<longleftrightarrow> (\<forall>g n. 0 < n \<longrightarrow> Intn g n < n)"

lemma group_calls:
  fixes es :: "(bytes \<times> Subscription) list"
  defines "sl \<equiv> groups_of (shared_subs es) []"
  assumes intn: "Intn_in_range Intn"
  shows "\<forall>(g, v)\<in>set sl. Intn g (length v) < length v"
    and "calls_to c (shared_calls Intn sl) = []"
    and "if \<exists>c s. (c, s) \<in> set es \<and> sb_ShareName s \<noteq> [] \<and> Subscription_GetFullTopicName s = g
      then \<exists>c s. (c, s) \<in> set es \<and> calls_group g (shared_calls Intn sl) = [(c, s, [sb_ID s])]
      else calls_group g (shared_calls Intn sl) = []"
proof -
  have d: "distinct (al_keys sl)" unfolding sl_def by (rule groups_distinct) simp
  define mem where "mem = (\<lambda>g. filter (\<lambda>(c, s). Subscription_GetFullTopicName s = g) (shared_subs es))"
  have l: "map_of sl g = (if mem g = [] then None else Some (mem g))" for g
    unfolding sl_def mem_def groups_lookup by (simp add: Let_def)
  have v: "v = mem g \<and> v \<noteq> []" if "(g, v) \<in> set sl" for g v
    using d l [of g] that by (metis map_of_eq_Some_iff option.distinct(1) option.inject)
  then show i: "\<forall>(g, v)\<in>set sl. Intn g (length v) < length v" using assms(2) by (auto simp: Intn_in_range_def)
  define pk where "pk = (\<lambda>g. mem g ! Intn g (length (mem g)))"
  have pk: "pk g \<in> set (mem g)" if "mem g \<noteq> []" for g
    unfolding pk_def using assms(2) that by (simp add: Intn_in_range_def)
  have calls: "shared_calls Intn sl = map (\<lambda>(g, v). (fst (pk g), snd (pk g), [sb_ID (snd (pk g))])) sl"
    unfolding shared_calls_def pk_def using v by (auto simp: Let_def split: prod.split)
  have sh: "sb_ShareName (snd (pk g)) \<noteq> [] \<and> Subscription_GetFullTopicName (snd (pk g)) = g \<and> pk g \<in> set es"
    if "mem g \<noteq> []" for g
    using pk [OF that] by (auto simp: mem_def shared_subs_def)
  show "calls_to c (shared_calls Intn sl) = []"
    unfolding calls calls_to_def using sh v by (fastforce simp: filter_empty_conv)
  have "calls_group g (shared_calls Intn sl) =
      map (\<lambda>(g, v). (fst (pk g), snd (pk g), [sb_ID (snd (pk g))])) (filter (\<lambda>e. fst e = g) sl)"
    unfolding calls calls_group_def filter_map using sh v
    by (intro arg_cong [where f = "map _"] filter_cong) force+
  then have g: "calls_group g (shared_calls Intn sl) =
      (if mem g = [] then [] else [(fst (pk g), snd (pk g), [sb_ID (snd (pk g))])])"
    unfolding filter_key [OF d] l by simp
  have "(\<exists>c s. (c, s) \<in> set es \<and> sb_ShareName s \<noteq> [] \<and> Subscription_GetFullTopicName s = g) \<longleftrightarrow> mem g \<noteq> []"
    by (force simp: mem_def shared_subs_def filter_empty_conv)
  then show "if \<exists>c s. (c, s) \<in> set es \<and> sb_ShareName s \<noteq> [] \<and> Subscription_GetFullTopicName s = g
      then \<exists>c s. (c, s) \<in> set es \<and> calls_group g (shared_calls Intn sl) = [(c, s, [sb_ID s])]
      else calls_group g (shared_calls Intn sl) = []"
    using g sh [of g] by (metis (no_types, lifting) prod.collapse)
qed

section \<open>Who gets a message\<close>


lemma deliverMessage_calls:
  assumes db: "sub_run ops Sub_NewStore = Inr (subscriptionsDB srv)"
    and topic: "topic \<noteq> []" "plain_level topic" and intn: "Intn_in_range Intn"
  shows "\<exists>es. distinct es
    \<and> (\<forall>c s. sb_ShareName s = [] \<or> \<not> list_ex sub_op_all ops \<longrightarrow>
         ((c, s) \<in> set es \<longleftrightarrow> (\<exists>n f. spec_run ops (c, n, f) = Some s \<and> sub_matches topic n f) \<and> \<not> (sb_NoLocal s \<and> c = src)))
    \<and> deliverMessage Intn now src msg (match_options topic) srv =
        rbind (deliver_all now msg
          ((if cfg_DeliveryMode (sv_config srv) = Overlap then overlap_calls (plain_subs es) else [])
           @ shared_calls Intn (groups_of (shared_subs es) [])
           @ (if cfg_DeliveryMode (sv_config srv) = Overlap then [] else fold once_add (plain_subs es) [])) srv)
          (\<lambda>srv'. Inr (es \<noteq> [], srv'))"
proof -
  let ?mode = "cfg_DeliveryMode (sv_config srv)"
  obtain db' where r: "sub_run ops Sub_NewStore = Inr db'" "db_inv db'"
    "agree (\<not> list_ex sub_op_all ops) (db_content db') (spec_run ops)" "keyed (db_content db')"
    using sub_run_spec [of ops] by blast
  then have [simp]: "db' = subscriptionsDB srv" using db by simp
  obtain es where es: "distinct es"
    "\<And>c s. (c, s) \<in> set es \<longleftrightarrow> (\<exists>n f. db_content (subscriptionsDB srv) (c, n, f) = Some s \<and> sub_matches topic n f)"
    and it: "\<And>fn (st :: deliverHandler res). IterateLocked fn (match_options topic) (subscriptionsDB srv) st = Inr (fst (iter_subs fn es st))"
    using iterate_match [OF r(2,4) topic] unfolding db_content_def by auto
  have same: "db_content (subscriptionsDB srv) (c, n, f) = Some s \<longleftrightarrow> spec_run ops (c, n, f) = Some s"
    if "sb_ShareName s = [] \<or> \<not> list_ex sub_op_all ops" for c n f s
    using that r(3,4) keyed_spec_run [of ops] unfolding agree_def keyed_def by auto
  let ?es = "eligible src es"
  have "distinct ?es" using es(1) by (simp add: eligible_def)
  moreover have "(c, s) \<in> set ?es \<longleftrightarrow> (\<exists>n f. spec_run ops (c, n, f) = Some s \<and> sub_matches topic n f) \<and> \<not> (sb_NoLocal s \<and> c = src)"
    if "sb_ShareName s = [] \<or> \<not> list_ex sub_op_all ops" for c s
    using es(2) [of c s] same [OF that] by (auto simp: eligible_def)
  moreover have "deliverMessage Intn now src msg (match_options topic) srv =
        rbind (deliver_all now msg
          ((if ?mode = Overlap then overlap_calls (plain_subs ?es) else [])
           @ shared_calls Intn (groups_of (shared_subs ?es) [])
           @ (if ?mode = Overlap then [] else fold once_add (plain_subs ?es) [])) srv)
          (\<lambda>srv'. Inr (?es \<noteq> [], srv'))"
    unfolding deliverMessage_def it deliver_all_append
    using flush_shared_calls [OF group_calls(1) [OF intn], where es1 = ?es]
    by (cases "?mode = Overlap";
        cases "deliver_all now msg (if ?mode = Overlap then overlap_calls (plain_subs ?es) else []) srv")
      (simp_all add: rbind_assoc deliver_iter newDeliverHandler_def deliver_flush_def flush_once_calls)
  ultimately show ?thesis by blast
qed



text \<open>
  Delivery in the mode \<^verbatim>\<open>overlap\<close>: a client gets one copy for each of its matching non-shared subscriptions,
  governed by that subscription and carrying its identifier; shared filters are served as in the other mode.
\<close>

lemma deliver_overlap:
  assumes "sub_run ops Sub_NewStore = Inr (subscriptionsDB srv)" and "cfg_DeliveryMode (sv_config srv) = Overlap"
    and "topic \<noteq> []" and "plain_level topic" and "Intn_in_range Intn"
  shows "\<exists>es calls. distinct es
    \<and> (\<forall>c s. sb_ShareName s = [] \<or> \<not> list_ex sub_op_all ops \<longrightarrow>
         ((c, s) \<in> set es \<longleftrightarrow> (\<exists>n f. spec_run ops (c, n, f) = Some s \<and> sub_matches topic n f) \<and> \<not> (sb_NoLocal s \<and> c = src)))
    \<and> deliverMessage Intn now src msg (match_options topic) srv =
        rbind (deliver_all now msg calls srv) (\<lambda>srv'. Inr (es \<noteq> [], srv'))
    \<and> (\<forall>c. calls_to c calls = map (\<lambda>s. (c, s, [sb_ID s])) (client_subs c (plain_subs es)))
    \<and> (\<forall>g. if \<exists>c s. (c, s) \<in> set es \<and> sb_ShareName s \<noteq> [] \<and> Subscription_GetFullTopicName s = g
           then \<exists>c s. (c, s) \<in> set es \<and> calls_group g calls = [(c, s, [sb_ID s])]
           else calls_group g calls = [])"
proof -
  obtain es where es: "distinct es"
    "\<forall>c s. sb_ShareName s = [] \<or> \<not> list_ex sub_op_all ops \<longrightarrow>
         ((c, s) \<in> set es \<longleftrightarrow> (\<exists>n f. spec_run ops (c, n, f) = Some s \<and> sub_matches topic n f) \<and> \<not> (sb_NoLocal s \<and> c = src))"
    and d: "deliverMessage Intn now src msg (match_options topic) srv =
        rbind (deliver_all now msg (overlap_calls (plain_subs es) @ shared_calls Intn (groups_of (shared_subs es) [])) srv)
          (\<lambda>srv'. Inr (es \<noteq> [], srv'))"
    using deliverMessage_calls [OF assms(1,3-5), where src = src and now = now and msg = msg] assms(2) by auto
  define a where "a = overlap_calls (plain_subs es)"
  define b where "b = shared_calls Intn (groups_of (shared_subs es) [])"
  have app: "calls_to c (a @ b) = calls_to c a @ calls_to c b" "calls_group g (a @ b) = calls_group g a @ calls_group g b" for c g
    by (simp_all add: calls_to_def calls_group_def)
  have a: "calls_group g a = []" "calls_to c a = map (\<lambda>s. (c, s, [sb_ID s])) (client_subs c (plain_subs es))" for c g
    unfolding a_def plain_subs_def
    by (induction es) (auto simp: overlap_calls_def calls_group_def calls_to_def client_subs_def)
  have "calls_to c (a @ b) = map (\<lambda>s. (c, s, [sb_ID s])) (client_subs c (plain_subs es))" for c
    using a(2) group_calls(2) [OF assms(5), of c es] unfolding app b_def [symmetric] by simp
  moreover have "if \<exists>c s. (c, s) \<in> set es \<and> sb_ShareName s \<noteq> [] \<and> Subscription_GetFullTopicName s = g
           then \<exists>c s. (c, s) \<in> set es \<and> calls_group g (a @ b) = [(c, s, [sb_ID s])]
           else calls_group g (a @ b) = []" for g
    using a(1) [of g] group_calls(3) [OF assms(5), of es g] unfolding app b_def [symmetric] by simp
  ultimately show ?thesis using es d unfolding a_def [symmetric] b_def [symmetric] by blast
qed

section \<open>What arrives in the queues\<close>

definition skipped :: "server \<Rightarrow> Message \<Rightarrow> bytes \<Rightarrow> bool" where
  "skipped srv msg c \<longleftrightarrow> \<not> cfg_QueueQos0Msg (sv_config srv) \<and> c \<notin> sv_clients srv \<and> msg_QoS msg = 0"

definition elem_for :: "server \<Rightarrow> int \<Rightarrow> Message \<Rightarrow> delivery \<Rightarrow> Elem" where
  "elem_for srv now msg dl =
     (let m = deliver_copy (Message_Copy msg) (fst (snd dl)) (snd (snd dl)) in
      \<lparr>At = now, Expiry = queue_expiry (sv_config srv) now m, Elem_msg = QPublish m\<rparr>)"

definition arrivals :: "server \<Rightarrow> int \<Rightarrow> Message \<Rightarrow> bytes \<Rightarrow> delivery list \<Rightarrow> Elem list" where
  "arrivals srv now msg c calls =
     (if skipped srv msg c then [] else map (elem_for srv now msg) (filter (\<lambda>dl. fst dl = c) calls))"

lemma deliver_one_room:
  assumes "\<And>q. queueStore srv c = Some q \<Longrightarrow> int (length (q_list q)) < q_max q"
  shows "\<exists>srv'. deliver_one now msg (c, s, ids) srv = Inr srv' \<and> sv_config srv' = sv_config srv \<and> sv_clients srv' = sv_clients srv
    \<and> queueStore srv' = (case queueStore srv c of None \<Rightarrow> queueStore srv
        | Some q \<Rightarrow> (queueStore srv)(c \<mapsto> q\<lparr>q_unread := q_unread q @ arrivals srv now msg c [(c, s, ids)]\<rparr>))"
proof (cases "queueStore srv c")
  case (Some q)
  have m: "msg_QoS (Message_Copy msg) = msg_QoS msg" by (simp add: Message_Copy_def)
  have "\<not> q_max q \<le> int (length (q_list q))" using assms Some by simp
  then have "Queue_Add now e q = Inr (q\<lparr>q_unread := q_unread q @ [e]\<rparr>, [NotifyMsgQueueAdded 1])" for e
    by (simp add: Queue_Add_def Let_def)
  moreover have "(queueStore srv)(c \<mapsto> q) = queueStore srv" using Some by (simp add: fun_upd_idem)
  ultimately show ?thesis using Some
    by (auto simp: deliver_one_def addMsgToQueueLocked_def arrivals_def skipped_def elem_for_def m Let_def)
qed (simp add: deliver_one_def)

text \<open>
  As long as no queue is full, delivering never fails, and every client's queue receives, behind what it
  holds, the copies meant for it and nothing else; a QoS 0 message is not kept for a client that is not
  connected when the configuration says so.
\<close>

lemma deliver_arrivals:
  assumes "\<And>c q. queueStore srv c = Some q \<Longrightarrow> int (length (q_list q) + length (filter (\<lambda>dl. fst dl = c) calls)) \<le> q_max q"
  shows "\<exists>srv'. deliver_all now msg calls srv = Inr srv'
    \<and> (\<forall>c. queueStore srv' c = map_option (\<lambda>q. q\<lparr>q_unread := q_unread q @ arrivals srv now msg c calls\<rparr>) (queueStore srv c))"
  using assms
proof (induction calls arbitrary: srv)
  case Nil
  have "map_option (\<lambda>q. q\<lparr>q_unread := q_unread q @ arrivals srv now msg c []\<rparr>) x = x" for c x
    by (cases x) (simp_all add: arrivals_def)
  then show ?case by (metis deliver_all.simps(1))
next
  case (Cons dl calls)
  obtain c s ids where dl: "dl = (c, s, ids)" by (cases dl) auto
  have "int (length (q_list q)) < q_max q" if "queueStore srv c = Some q" for q
    using Cons.prems [OF that] dl by simp
  then obtain srv1 where s1: "deliver_one now msg dl srv = Inr srv1" "sv_config srv1 = sv_config srv" "sv_clients srv1 = sv_clients srv"
    and qs: "queueStore srv1 = (case queueStore srv c of None \<Rightarrow> queueStore srv
        | Some q \<Rightarrow> (queueStore srv)(c \<mapsto> q\<lparr>q_unread := q_unread q @ arrivals srv now msg c [dl]\<rparr>))"
    using deliver_one_room [of srv c now msg s ids] dl by blast
  have a: "arrivals srv now msg d (dl # calls) = arrivals srv now msg d [dl] @ arrivals srv1 now msg d calls" for d
    using s1(2,3) by (simp add: arrivals_def skipped_def elem_for_def)
  have n: "arrivals srv now msg d [dl] = []" if "d \<noteq> c" for d using that dl by (simp add: arrivals_def)
  have q1: "queueStore srv1 d = map_option (\<lambda>q. q\<lparr>q_unread := q_unread q @ arrivals srv now msg d [dl]\<rparr>) (queueStore srv d)" for d
    using n [of d] qs by (cases "d = c"; cases "queueStore srv d") (simp_all split: option.splits)
  have "int (length (q_list q) + length (filter (\<lambda>dl. fst dl = d) calls)) \<le> q_max q" if "queueStore srv1 d = Some q" for d q
  proof -
    from that q1 obtain q0 where q0: "queueStore srv d = Some q0" "q = q0\<lparr>q_unread := q_unread q0 @ arrivals srv now msg d [dl]\<rparr>"
      by (cases "queueStore srv d") auto
    have "length (arrivals srv now msg d [dl]) \<le> length (filter (\<lambda>dl. fst dl = d) [dl])" by (simp add: arrivals_def)
    with Cons.prems [OF q0(1)] q0(2) show ?thesis by (cases "c = d") (auto simp: dl)
  qed
  from Cons.IH [OF this] obtain srv' where "deliver_all now msg calls srv1 = Inr srv'"
    "\<forall>c. queueStore srv' c = map_option (\<lambda>q. q\<lparr>q_unread := q_unread q @ arrivals srv1 now msg c calls\<rparr>) (queueStore srv1 c)"
    by blast
  then show ?case using s1(1) unfolding q1 a by (auto simp: option.map_comp comp_def)
qed

definition sample_ops :: "sub_op list" where
  "sample_ops = [OpSubscribe [0x31] [sample_sub [] [0x61, 0x2F, 0x2B], sample_sub [] [0x61, 0x2F, 0x23]]]"

definition sample_server :: "bytes \<Rightarrow> server" where
  "sample_server mode =
     \<lparr>subscriptionsDB = (case sub_run sample_ops Sub_NewStore of Inl e \<Rightarrow> Sub_NewStore | Inr db \<Rightarrow> db),
      retainedDB = Retained.NewStore, queueStore = [[0x31] \<mapsto> Queue_New \<lparr>MaxQueuedMsg = 10, InflightExpiry = 0\<rparr>],
      sv_clients = {}, sv_config = DefaultMQTTConfig\<lparr>cfg_DeliveryMode := mode\<rparr>, sv_notes = []\<rparr>"

lemma sample_server_run: "sub_run sample_ops Sub_NewStore = Inr (subscriptionsDB (sample_server mode))"
  using sub_run_spec [of sample_ops] by (auto simp: sample_server_def)

lemma sample_spec:
  "spec_run sample_ops ([0x31], [], [0x61, 0x2F, 0x2B]) = Some (sample_sub [] [0x61, 0x2F, 0x2B])"
  "spec_run sample_ops ([0x31], [], [0x61, 0x2F, 0x23]) = Some (sample_sub [] [0x61, 0x2F, 0x23])"
  by (simp_all add: spec_run_def sample_ops_def sample_sub_def)

lemma sample_matches:
  "sub_matches [0x61, 0x2F, 0x62] [] [0x61, 0x2F, 0x2B]" "sub_matches [0x61, 0x2F, 0x62] [] [0x61, 0x2F, 0x23]"
  by code_simp+

lemma client_subs_in: "(c, s) \<in> set es \<Longrightarrow> s \<in> set (client_subs c es)"
  by (force simp: client_subs_def)

lemma sample_sub_share [simp]: "sb_ShareName (sample_sub n f) = n" "sb_NoLocal (sample_sub n f) = False"
  by (simp_all add: sample_sub_def)


text \<open>The same subscriptions, two copies.\<close>

lemma deliver_overlap_witness:
  "\<exists>calls. deliverMessage (\<lambda>g n. 0) 0 [0x32] msg_example (match_options [0x61, 0x2F, 0x62]) (sample_server Overlap) =
      rbind (deliver_all 0 msg_example calls (sample_server Overlap)) (\<lambda>srv'. Inr (True, srv'))
    \<and> {([0x31], sample_sub [] [0x61, 0x2F, 0x2B], [0]), ([0x31], sample_sub [] [0x61, 0x2F, 0x23], [0])} \<subseteq> set (calls_to [0x31] calls)"
proof -
  have r: "Intn_in_range (\<lambda>g n. 0)" by (simp add: Intn_in_range_def)
  have m: "cfg_DeliveryMode (sv_config (sample_server Overlap)) = Overlap" by (simp add: sample_server_def)
  obtain es calls where
    es: "\<forall>c s. sb_ShareName s = [] \<or> \<not> list_ex sub_op_all sample_ops \<longrightarrow>
         ((c, s) \<in> set es \<longleftrightarrow> (\<exists>n f. spec_run sample_ops (c, n, f) = Some s \<and> sub_matches [0x61, 0x2F, 0x62] n f)
            \<and> \<not> (sb_NoLocal s \<and> c = [0x32]))"
    and d: "deliverMessage (\<lambda>g n. 0) 0 [0x32] msg_example (match_options [0x61, 0x2F, 0x62]) (sample_server Overlap) =
      rbind (deliver_all 0 msg_example calls (sample_server Overlap)) (\<lambda>srv'. Inr (es \<noteq> [], srv'))"
    and each: "\<forall>c. calls_to c calls = map (\<lambda>s. (c, s, [sb_ID s])) (client_subs c (plain_subs es))"
    using deliver_overlap [OF sample_server_run m, of "[0x61, 0x2F, 0x62]" "\<lambda>g n. 0" "[0x32]" 0 msg_example] r by auto
  have e: "([0x31], sample_sub [] [0x61, 0x2F, 0x2B]) \<in> set es" "([0x31], sample_sub [] [0x61, 0x2F, 0x23]) \<in> set es"
    using es sample_spec sample_matches by fastforce+
  have "s \<in> set (client_subs [0x31] (plain_subs es))" if "([0x31], s) \<in> set es" "sb_ShareName s = []" for s
    using that by (intro client_subs_in) (simp add: plain_subs_def)
  then have "{([0x31], sample_sub [] [0x61, 0x2F, 0x2B], [0]), ([0x31], sample_sub [] [0x61, 0x2F, 0x23], [0])} \<subseteq> set (calls_to [0x31] calls)"
    using e each by (auto simp: sample_sub_def intro!: image_eqI)
  moreover have "es \<noteq> []" using e by auto
  ultimately show ?thesis using d by auto
qed

lemma deliver_arrivals_witness:
  "\<exists>srv'. deliver_all 0 msg_example [([0x31], sample_sub [] [0x61], [7])] (sample_server OnlyOnce) = Inr srv'
    \<and> map_option (\<lambda>q. length (q_unread q)) (queueStore srv' [0x31]) = Some 1"
proof -
  have "int (length (q_list q) + length (filter (\<lambda>dl. fst dl = c) [([0x31], sample_sub [] [0x61], [7])])) \<le> q_max q"
    if "queueStore (sample_server OnlyOnce) c = Some q" for c q
    using that by (auto simp: sample_server_def Queue_New_def split: if_splits)
  then obtain srv' where s: "deliver_all 0 msg_example [([0x31], sample_sub [] [0x61], [7])] (sample_server OnlyOnce) = Inr srv'"
    "\<forall>c. queueStore srv' c = map_option (\<lambda>q. q\<lparr>q_unread := q_unread q
        @ arrivals (sample_server OnlyOnce) 0 msg_example c [([0x31], sample_sub [] [0x61], [7])]\<rparr>) (queueStore (sample_server OnlyOnce) c)"
    using deliver_arrivals [of "sample_server OnlyOnce" "[([0x31], sample_sub [] [0x61], [7])]" 0 msg_example] by blast
  have "map_option (\<lambda>q. length (q_unread q)) (queueStore srv' [0x31]) = Some 1"
    unfolding s(2) [rule_format] by (simp add: sample_server_def Queue_New_def arrivals_def skipped_def DefaultMQTTConfig_def)
  with s(1) show ?thesis by blast
qed

section \<open>The lifetime of a queued message\<close>

text \<open>
  The configured maximum lifetime does not bound the lifetime that a message asks for.  The comparison is
  between seconds and nanoseconds: with any configured maximum from about 4.3 seconds on, a message that
  carries an expiry interval expires after that interval, however long it is.
\<close>

lemma queue_expiry_uncapped:
  assumes "2 ^ 32 \<le> cfg_MessageExpiry cfg" and "msg_MessageExpiry msg \<noteq> 0"
  shows "queue_expiry cfg now msg = Some (now + uint (msg_MessageExpiry msg) * Second)"
proof -
  have "uint (msg_MessageExpiry msg) < 2 ^ 32" using uint_bounded [of "msg_MessageExpiry msg"] by simp
  then show ?thesis using assms by (simp add: queue_expiry_def)
qed

text \<open>A day is accepted although the maximum is two hours.\<close>

lemma queue_expiry_uncapped_witness:
  "queue_expiry DefaultMQTTConfig 0 (msg_example\<lparr>msg_MessageExpiry := 86400\<rparr>) = Some (86400 * Second)
   \<and> cfg_MessageExpiry DefaultMQTTConfig < 86400 * Second"
  using queue_expiry_uncapped [of DefaultMQTTConfig "msg_example\<lparr>msg_MessageExpiry := 86400\<rparr>" 0]
  by (simp add: DefaultMQTTConfig_def Second_def)

lemma DefaultMQTTConfig_valid: "MQTT_Validate DefaultMQTTConfig = Inr ()"
  by (simp add: MQTT_Validate_def DefaultMQTTConfig_def)

end
