(* ===== verification/Encoding.thy ===== *)
theory Encoding
  imports Queue
begin

text \<open>
  \<^verbatim>\<open>gmqtt/persistence/encoding\<close> (\<^verbatim>\<open>binary.go\<close>, \<^verbatim>\<open>redis.go\<close>), the binary form in which messages and
  sessions are kept in the external store, \<^verbatim>\<open>Elem.Encode\<close> and \<^verbatim>\<open>Elem.Decode\<close> of
  \<^verbatim>\<open>persistence/queue/elem.go\<close>, and \<^verbatim>\<open>gmqtt/session.go\<close>.  A time is a number of nanoseconds since
  the Unix epoch, and the zero time of an element's expiry is \<open>None\<close>.
\<close>

unbundle bit_operations_syntax

section \<open>Primitive encodings\<close>

definition WriteUint16 :: "uint16 \<Rightarrow> bytes" where
  "WriteUint16 i = [ucast (drop_bit 8 i), ucast i]"

definition WriteBool :: "bool \<Rightarrow> bytes" where
  "WriteBool b = (if b then [1] else [0])"

definition ReadBool :: "bytes \<Rightarrow> (bool \<times> bytes) res" where
  "ReadBool r = rbind (ReadByte r) (\<lambda>(b, r'). if b = 0 then Inr (False, r') else Inr (True, r'))"

definition WriteString :: "bytes \<Rightarrow> bytes" where
  "WriteString s = WriteUint16 (word_of_nat (length s)) @ s"

definition ReadString :: "bytes \<Rightarrow> (bytes \<times> bytes) res" where
  "ReadString r =
     rbind (ReadFull 2 r) (\<lambda>(l, r1).
     rbind (ReadFull (unat (BigEndian_Uint16 l)) r1) (\<lambda>(payload, r2).
     Inr (payload, r2)))"

definition WriteUint32 :: "uint32 \<Rightarrow> bytes" where
  "WriteUint32 i = [ucast (drop_bit 24 i), ucast (drop_bit 16 i), ucast (drop_bit 8 i), ucast i]"

definition ReadUint16 :: "bytes \<Rightarrow> (uint16 \<times> bytes) res" where
  "ReadUint16 r =
     (if length r < 2 then Inl ErrInvalidLength
      else let (b, r') = Next 2 r in Inr (BigEndian_Uint16 b, r'))"

definition ReadUint32 :: "bytes \<Rightarrow> (uint32 \<times> bytes) res" where
  "ReadUint32 r =
     (if length r < 4 then Inl ErrInvalidLength
      else let (b, r') = Next 4 r in Inr (BigEndian_Uint32 b, r'))"

text \<open>\<^verbatim>\<open>binary.BigEndian.PutUint64\<close> and \<^verbatim>\<open>binary.BigEndian.Uint64\<close>; reading from a shorter slice panics.\<close>

definition PutUint64 :: "uint64 \<Rightarrow> bytes" where
  "PutUint64 w = map (\<lambda>k. ucast (drop_bit (8 * k) w)) [7, 6, 5, 4, 3, 2, 1, 0]"

definition BigEndian_Uint64 :: "bytes \<Rightarrow> uint64 res" where
  "BigEndian_Uint64 b =
     (if length b < 8 then Inl Panic
      else Inr (foldr (OR) (map (\<lambda>k. push_bit (8 * k) (ucast (b ! (7 - k)))) [0, 1, 2, 3, 4, 5, 6, 7]) 0))"

section \<open>Messages\<close>

definition EncodeMessage :: "Message option \<Rightarrow> bytes" where
  "EncodeMessage msg =
     (case msg of None \<Rightarrow> []
      | Some msg \<Rightarrow>
        WriteBool (msg_Dup msg) @ [msg_QoS msg] @ WriteBool (msg_Retained msg)
        @ WriteString (msg_Topic msg) @ WriteString (msg_Payload msg) @ WriteUint16 (msg_PacketID msg)
        @ (if length (msg_ContentType msg) \<noteq> 0 then PropContentType # WriteString (msg_ContentType msg) else [])
        @ (case msg_CorrelationData msg of None \<Rightarrow> []
           | Some d \<Rightarrow> if length d \<noteq> 0 then PropCorrelationData # WriteString d else [])
        @ (if msg_MessageExpiry msg \<noteq> 0 then PropMessageExpiry # WriteUint32 (msg_MessageExpiry msg) else [])
        @ [PropPayloadFormat, msg_PayloadFormat msg]
        @ (if length (msg_ResponseTopic msg) \<noteq> 0 then PropResponseTopic # WriteString (msg_ResponseTopic msg) else [])
        @ concat (map (\<lambda>v. PropSubscriptionIdentifier # lengthBytes (uint v)) (msg_SubscriptionIdentifier msg))
        @ concat (map (\<lambda>v. PropUser # WriteString (UserK v) @ WriteString (UserV v)) (msg_UserProperties msg)))"

text \<open>The switch of the reading loop; an unknown identifier is skipped.\<close>

definition DecodeMessage_switch :: "byte \<Rightarrow> Message \<Rightarrow> bytes \<Rightarrow> (Message \<times> bytes) res" where
  "DecodeMessage_switch pt msg b =
     (if pt = PropContentType then
        rbind (ReadString b) (\<lambda>(v, b'). Inr (msg\<lparr>msg_ContentType := v\<rparr>, b'))
      else if pt = PropCorrelationData then
        rbind (ReadString b) (\<lambda>(v, b'). Inr (msg\<lparr>msg_CorrelationData := Some v\<rparr>, b'))
      else if pt = PropMessageExpiry then
        rbind (ReadUint32 b) (\<lambda>(v, b'). Inr (msg\<lparr>msg_MessageExpiry := v\<rparr>, b'))
      else if pt = PropPayloadFormat then
        rbind (ReadByte b) (\<lambda>(v, b'). Inr (msg\<lparr>msg_PayloadFormat := v\<rparr>, b'))
      else if pt = PropResponseTopic then
        rbind (ReadString b) (\<lambda>(v, b'). Inr (msg\<lparr>msg_ResponseTopic := v\<rparr>, b'))
      else if pt = PropSubscriptionIdentifier then
        rbind (EncodeRemainLength b) (\<lambda>(si, b').
        Inr (msg\<lparr>msg_SubscriptionIdentifier := msg_SubscriptionIdentifier msg @ [word_of_nat si]\<rparr>, b'))
      else if pt = PropUser then
        rbind (ReadString b) (\<lambda>(k, b1).
        rbind (ReadString b1) (\<lambda>(v, b2).
        Inr (msg\<lparr>msg_UserProperties := msg_UserProperties msg @ [\<lparr>UserK = k, UserV = v\<rparr>]\<rparr>, b2)))
      else Inr (msg, b))"

lemma ReadString_consumes: "ReadString r = Inr (s, r') \<Longrightarrow> length r' \<le> length r"
  by (auto simp: ReadString_def rbind_eq_Inr_conv dest!: ReadFull_Inr)

lemma ReadUint32_consumes: "ReadUint32 r = Inr (i, r') \<Longrightarrow> length r' \<le> length r"
  by (auto simp: ReadUint32_def Next_def split: if_splits)

lemma DecodeMessage_switch_consumes: "DecodeMessage_switch pt msg b = Inr (msg', b') \<Longrightarrow> length b' \<le> length b"
  unfolding DecodeMessage_switch_def
  by (auto split: if_splits elim!: rbind_InrE dest!: ReadString_consumes ReadUint32_consumes
      EncodeRemainLength_consumes)

function DecodeMessage_loop :: "Message \<Rightarrow> bytes \<Rightarrow> Message res" where
  "DecodeMessage_loop msg [] = Inr msg"
| "DecodeMessage_loop msg (pt # b) =
     rbind (DecodeMessage_switch pt msg b) (\<lambda>(msg', b'). DecodeMessage_loop msg' b')"
  by pat_completeness auto
termination
  by (relation "measure (\<lambda>(msg, b). length b)") (auto dest: DecodeMessage_switch_consumes)

text \<open>A message that is decoded takes all the bytes that are left.\<close>

definition DecodeMessage :: "bytes \<Rightarrow> Message res" where
  "DecodeMessage b =
     rbind (ReadBool b) (\<lambda>(dup, b1).
     rbind (ReadByte b1) (\<lambda>(qos, b2).
     rbind (ReadBool b2) (\<lambda>(ret, b3).
     rbind (ReadString b3) (\<lambda>(topic, b4).
     rbind (ReadString b4) (\<lambda>(payload, b5).
     rbind (ReadUint16 b5) (\<lambda>(pid, b6).
     DecodeMessage_loop
       \<lparr>msg_Dup = dup, msg_QoS = qos, msg_Retained = ret, msg_Topic = topic, msg_Payload = payload,
        msg_PacketID = pid, msg_ContentType = [], msg_CorrelationData = None, msg_MessageExpiry = 0,
        msg_PayloadFormat = 0, msg_ResponseTopic = [], msg_SubscriptionIdentifier = [],
        msg_UserProperties = []\<rparr> b6))))))"

definition DecodeMessageFromBytes :: "bytes \<Rightarrow> Message option res" where
  "DecodeMessageFromBytes b =
     (if length b = 0 then Inr None else rbind (DecodeMessage b) (\<lambda>m. Inr (Some m)))"

section \<open>Sessions\<close>

record Session =
  ses_ClientID :: bytes
  ses_Will :: "Message option"
  WillDelayInterval' :: uint32
  ConnectedAt :: int
  ExpiryInterval :: uint32

definition Unix :: "int \<Rightarrow> int" where
  "Unix t = t div 1000000000"

definition IsExpired :: "Session \<Rightarrow> int \<Rightarrow> bool" where
  "IsExpired s now \<longleftrightarrow> ConnectedAt s + uint (ExpiryInterval s) * 1000000000 < now"

text \<open>\<^verbatim>\<open>EncodeSession\<close> formats \<^verbatim>\<open>ConnectedAt\<close> into a local slice that it does not write.\<close>

definition EncodeSession :: "Session \<Rightarrow> bytes" where
  "EncodeSession sess =
     WriteString (ses_ClientID sess)
     @ (case ses_Will sess of
          Some w \<Rightarrow> [1] @ EncodeMessage (Some w) @ WriteUint32 (WillDelayInterval' sess)
        | None \<Rightarrow> [0])
     @ WriteUint32 (ExpiryInterval sess)"

definition DecodeSession :: "bytes \<Rightarrow> Session res" where
  "DecodeSession b =
     rbind (ReadString b) (\<lambda>(cid, b1).
     rbind (ReadByte b1) (\<lambda>(willPresent, b2).
     rbind (if willPresent = 1 then
              rbind (DecodeMessage b2) (\<lambda>w.
              rbind (ReadUint32 []) (\<lambda>(d, b3). Inr (Some w, d, b3)))
            else Inr (None, 0, b2)) (\<lambda>(will, delay, b3).
     let (tb, b4) = Next 8 b3 in
     rbind (BigEndian_Uint64 tb) (\<lambda>t.
     rbind (ReadUint32 b4) (\<lambda>(ei, b5).
     Inr \<lparr>ses_ClientID = cid, ses_Will = will, WillDelayInterval' = delay,
          ConnectedAt = sint t * 1000000000, ExpiryInterval = ei\<rparr>)))))"

section \<open>Queue elements\<close>

definition zeroUnix :: int where
  "zeroUnix = - 62135596800"

definition Elem_Encode :: "Elem \<Rightarrow> bytes" where
  "Elem_Encode e =
     PutUint64 (word_of_int (Unix (At e))) @ [0]
     @ PutUint64 (word_of_int (case Expiry e of None \<Rightarrow> zeroUnix | Some t \<Rightarrow> Unix t)) @ [0]
     @ (case Elem_msg e of
          QPublish m \<Rightarrow> [0] @ EncodeMessage (Some m)
        | QPubrel i \<Rightarrow> [1] @ WriteUint16 i)"

definition Elem_Decode :: "bytes \<Rightarrow> Elem res" where
  "Elem_Decode b =
     (if length b < 19 then Inl (ErrText ''invalid input length'')
      else
      rbind (BigEndian_Uint64 (take 9 b)) (\<lambda>at.
      rbind (BigEndian_Uint64 (take 10 (drop 9 b))) (\<lambda>ex.
      let expiry = (if sint ex = zeroUnix then None else Some (sint ex * 1000000000)) in
      if b ! 18 = 0 then
        rbind (DecodeMessage (drop 19 b)) (\<lambda>m.
        Inr \<lparr>At = sint at * 1000000000, Expiry = expiry, Elem_msg = QPublish m\<rparr>)
      else if b ! 18 = 1 then
        rbind (ReadUint16 (drop 19 b)) (\<lambda>(i, _).
        Inr \<lparr>At = sint at * 1000000000, Expiry = expiry, Elem_msg = QPubrel i\<rparr>)
      else Inl ErrInvalidIdentifier)))"

section \<open>Reading back what was written\<close>

text \<open>The package writes the same bytes as the primitive encodings of the wire format.\<close>

lemma Write_eq:
  "WriteUint16 = writeUint16" "WriteUint32 = writeUint32" "WriteString = writeBinary"
  by (simp_all add: fun_eq_iff WriteUint16_def writeUint16_def WriteUint32_def writeUint32_def
      WriteString_def writeBinary_def)

lemma Read_write:
  "ReadUint16 (writeUint16 i @ rest) = Inr (i, rest)"
  "ReadUint32 (writeUint32 j @ rest) = Inr (j, rest)"
  "ReadBool (WriteBool b @ rest) = Inr (b, rest)"
  using u16.dec_enc [of i rest] u32.dec_enc [of j rest]
  by (auto simp: ReadUint16_def readUint16_def ReadUint32_def readUint32_def ReadBool_def WriteBool_def
      Next_def split: if_splits)

lemma ReadString_write:
  assumes "length s \<le> 65535"
  shows "ReadString (writeBinary s @ rest) = Inr (s, rest)"
proof -
  have a: "ReadFull 2 (writeBinary s @ rest) = Inr (writeUint16 (word_of_nat (length s)), s @ rest)"
    unfolding writeBinary_def append_assoc by (intro ReadFull_append) simp
  have "unat (BigEndian_Uint16 (writeUint16 (word_of_nat (length s)))) = length s"
    using assms by (simp add: BigEndian_Uint16_write unat_word_of_nat)
  then show ?thesis unfolding ReadString_def a by simp
qed

interpretation estr: codec WriteString ReadString "\<lambda>s. length s \<le> 65535"
proof unfold_locales
  fix bs s rest assume "ReadString bs = Inr (s, rest)"
  then show "length rest < length bs"
    by (auto simp: ReadString_def rbind_eq_Inr_conv dest!: ReadFull_Inr)
qed (simp add: Write_eq ReadString_write)

interpretation eu16: codec WriteUint16 ReadUint16 "\<lambda>_. True"
  by unfold_locales (simp_all add: Write_eq Read_write, auto simp: ReadUint16_def Next_def split: if_splits)

interpretation eu32: codec WriteUint32 ReadUint32 "\<lambda>_. True"
  by unfold_locales (simp_all add: Write_eq Read_write, auto simp: ReadUint32_def Next_def split: if_splits)

interpretation ebool: codec WriteBool ReadBool "\<lambda>_. True"
  by unfold_locales (simp_all add: Read_write, auto simp: ReadBool_def rbind_eq_Inr_conv split: if_splits)

lemmas enc_read = estr.dec_enc eu16.dec_enc [simplified] eu32.dec_enc [simplified] ebool.dec_enc [simplified]

subsection \<open>64-bit integers\<close>

lemma PutUint64_list:
  "PutUint64 w = [ucast (drop_bit 56 w), ucast (drop_bit 48 w), ucast (drop_bit 40 w), ucast (drop_bit 32 w),
     ucast (drop_bit 24 w), ucast (drop_bit 16 w), ucast (drop_bit 8 w), ucast w]"
  by (simp add: PutUint64_def)

lemma length_PutUint64 [simp]: "length (PutUint64 w) = 8"
  by (simp add: PutUint64_def)

lemma take_bit_or_byte:
  "take_bit n w OR (push_bit n (ucast (ucast (drop_bit n w) :: byte)) OR x) = take_bit (n + 8) (w :: uint64) OR x"
proof -
  have "take_bit n w OR push_bit n (ucast (ucast (drop_bit n w) :: byte)) = take_bit (n + 8) w"
    by (rule bit_word_eqI) (auto simp: bit_simps)
  then show ?thesis by (simp only: or.assoc [symmetric])
qed

lemma BigEndian_Uint64_Put: "BigEndian_Uint64 (PutUint64 w @ rest) = Inr w"
proof -
  have a: "take_bit 0 w OR (push_bit 0 (ucast (ucast (drop_bit 0 w) :: byte)) OR
      (push_bit (0 + 8) (ucast (ucast (drop_bit (0 + 8) w) :: byte)) OR
      (push_bit (0 + 8 + 8) (ucast (ucast (drop_bit (0 + 8 + 8) w) :: byte)) OR
      (push_bit (0 + 8 + 8 + 8) (ucast (ucast (drop_bit (0 + 8 + 8 + 8) w) :: byte)) OR
      (push_bit (0 + 8 + 8 + 8 + 8) (ucast (ucast (drop_bit (0 + 8 + 8 + 8 + 8) w) :: byte)) OR
      (push_bit (0 + 8 + 8 + 8 + 8 + 8) (ucast (ucast (drop_bit (0 + 8 + 8 + 8 + 8 + 8) w) :: byte)) OR
      (push_bit (0 + 8 + 8 + 8 + 8 + 8 + 8) (ucast (ucast (drop_bit (0 + 8 + 8 + 8 + 8 + 8 + 8) w) :: byte)) OR
      (push_bit (0 + 8 + 8 + 8 + 8 + 8 + 8 + 8)
         (ucast (ucast (drop_bit (0 + 8 + 8 + 8 + 8 + 8 + 8 + 8) w) :: byte)) OR 0)))))))) = w"
    by (simp only: take_bit_or_byte) (simp add: take_bit_word_eq_self)
  show ?thesis using a by (simp add: BigEndian_Uint64_def PutUint64_list)
qed

subsection \<open>Messages\<close>

definition enc_string :: "bytes \<Rightarrow> bool" where
  "enc_string s \<longleftrightarrow> length s \<le> 65535"

definition enc_Message :: "Message \<Rightarrow> bool" where
  "enc_Message m \<longleftrightarrow>
     enc_string (msg_Topic m) \<and> enc_string (msg_Payload m) \<and> enc_string (msg_ContentType m)
     \<and> enc_string (nonempty (msg_CorrelationData m)) \<and> msg_CorrelationData m \<noteq> Some []
     \<and> enc_string (msg_ResponseTopic m)
     \<and> list_all (\<lambda>i. unat i < 268435456) (msg_SubscriptionIdentifier m)
     \<and> list_all (\<lambda>u. enc_string (UserK u) \<and> enc_string (UserV u)) (msg_UserProperties m)"

lemma DecodeMessage_loop_step:
  "DecodeMessage_switch pt m b = Inr (m', b') \<Longrightarrow> DecodeMessage_loop m (pt # b) = DecodeMessage_loop m' b'"
  by simp

lemma loop_ids:
  "list_all (\<lambda>i. unat i < 268435456) ids \<Longrightarrow>
   DecodeMessage_loop m (concat (map (\<lambda>v. PropSubscriptionIdentifier # lengthBytes (uint v)) ids) @ rest)
   = DecodeMessage_loop (m\<lparr>msg_SubscriptionIdentifier := msg_SubscriptionIdentifier m @ ids\<rparr>) rest"
proof (induction ids arbitrary: m)
  case (Cons i ids)
  then have i: "unat i < 268435456" by simp
  have "lengthBytes (uint i) = vbi_enc (unat i)" using lengthBytes_vbi [OF i] by simp
  then have "DecodeMessage_switch PropSubscriptionIdentifier m (lengthBytes (uint i) @ b)
      = Inr (m\<lparr>msg_SubscriptionIdentifier := msg_SubscriptionIdentifier m @ [i]\<rparr>, b)" for b
    using EncodeRemainLength_vbi [OF i] by (simp add: DecodeMessage_switch_def)
  note this [THEN DecodeMessage_loop_step]
  with Cons show ?case by simp
qed simp

lemma loop_users:
  "list_all (\<lambda>u. enc_string (UserK u) \<and> enc_string (UserV u)) us \<Longrightarrow>
   DecodeMessage_loop m (concat (map (\<lambda>v. PropUser # WriteString (UserK v) @ WriteString (UserV v)) us) @ rest)
   = DecodeMessage_loop (m\<lparr>msg_UserProperties := msg_UserProperties m @ us\<rparr>) rest"
proof (induction us arbitrary: m)
  case (Cons u us)
  then have "DecodeMessage_switch PropUser m (WriteString (UserK u) @ WriteString (UserV u) @ b)
      = Inr (m\<lparr>msg_UserProperties := msg_UserProperties m @ [u]\<rparr>, b)" for b
    by (simp add: DecodeMessage_switch_def enc_read enc_string_def)
  note this [THEN DecodeMessage_loop_step]
  with Cons show ?case by simp
qed simp

lemma loop_opt_string:
  assumes "enc_string s"
    and "\<And>b m. DecodeMessage_switch pt m (WriteString s @ b) = Inr (upd m, b)"
  shows "DecodeMessage_loop m ((if c then pt # WriteString s else []) @ rest)
    = DecodeMessage_loop (if c then upd m else m) rest"
  using assms(2) [THEN DecodeMessage_loop_step] by auto

lemma loop_opt_data:
  "enc_string (nonempty d) \<Longrightarrow> d \<noteq> Some [] \<Longrightarrow> msg_CorrelationData m = None \<Longrightarrow>
   DecodeMessage_loop m ((case d of None \<Rightarrow> []
     | Some d \<Rightarrow> if length d \<noteq> 0 then PropCorrelationData # WriteString d else []) @ rest)
   = DecodeMessage_loop (m\<lparr>msg_CorrelationData := d\<rparr>) rest"
  by (cases m; cases d) (auto simp: nonempty_def enc_string_def DecodeMessage_switch_def enc_read)

lemma loop_expiry:
  "msg_MessageExpiry m = 0 \<Longrightarrow>
   DecodeMessage_loop m ((if e \<noteq> 0 then PropMessageExpiry # WriteUint32 e else []) @ rest)
   = DecodeMessage_loop (m\<lparr>msg_MessageExpiry := e\<rparr>) rest"
  by (cases m) (auto simp: DecodeMessage_switch_def enc_read)

lemma loop_strings:
  "enc_string s \<Longrightarrow> msg_ContentType m = [] \<Longrightarrow>
   DecodeMessage_loop m ((if length s \<noteq> 0 then PropContentType # WriteString s else []) @ rest)
   = DecodeMessage_loop (m\<lparr>msg_ContentType := s\<rparr>) rest"
  "enc_string s \<Longrightarrow> msg_ResponseTopic m = [] \<Longrightarrow>
   DecodeMessage_loop m ((if length s \<noteq> 0 then PropResponseTopic # WriteString s else []) @ rest)
   = DecodeMessage_loop (m\<lparr>msg_ResponseTopic := s\<rparr>) rest"
  by (cases m; auto simp: DecodeMessage_switch_def enc_read enc_string_def)+

lemma loop_format:
  "DecodeMessage_loop m ([PropPayloadFormat, f] @ rest) = DecodeMessage_loop (m\<lparr>msg_PayloadFormat := f\<rparr>) rest"
  by (simp add: DecodeMessage_switch_def)

lemma loop_users_end:
  "list_all (\<lambda>u. enc_string (UserK u) \<and> enc_string (UserV u)) us \<Longrightarrow>
   DecodeMessage_loop m (concat (map (\<lambda>v. PropUser # WriteString (UserK v) @ WriteString (UserV v)) us))
   = Inr (m\<lparr>msg_UserProperties := msg_UserProperties m @ us\<rparr>)"
  using loop_users [of us m "[]"] by simp

lemma DecodeMessage_EncodeMessage:
  assumes "enc_Message m"
  shows "DecodeMessage (EncodeMessage (Some m)) = Inr m"
proof -
  have rb: "ReadByte ([b] @ r) = Inr (b, r)" for b r by simp
  note ok = assms [unfolded enc_Message_def]
  then have str: "length (msg_Topic m) \<le> 65535" "length (msg_Payload m) \<le> 65535"
    by (simp_all add: enc_string_def)
  show ?thesis
    unfolding EncodeMessage_def DecodeMessage_def option.case enc_read(4) rb enc_read(1) [OF str(1)]
      enc_read(1) [OF str(2)] enc_read(2) rbind_simps prod.case
    using ok by (simp only: loop_strings loop_opt_data loop_expiry loop_format loop_ids loop_users_end
      Message.simps append_Nil not_False_eq_True) simp
qed

subsection \<open>Sessions and queue elements\<close>

text \<open>Times are kept as a number of seconds; what is left of a time.\<close>

definition unix_range :: "int \<Rightarrow> bool" where
  "unix_range t \<longleftrightarrow> - (2 ^ 63) \<le> Unix t \<and> Unix t < 2 ^ 63"

definition to_second :: "int \<Rightarrow> int" where
  "to_second t = t - t mod 1000000000"

lemma sint_Unix:
  assumes "unix_range t"
  shows "sint (word_of_int (Unix t) :: uint64) = Unix t" "Unix t * 1000000000 = to_second t"
  using assms by (auto simp: unix_range_def signed_of_int signed_take_bit_int_eq_self Unix_def to_second_def minus_mod_eq_div_mult)

text \<open>
  A session is never read back.  Without a will, all that is missing is the connection time between the last two fields: with these eight bytes
  the session would be read back, and without them the decoder panics.
\<close>

lemma DecodeSession_EncodeSession:
  assumes "length (ses_ClientID s) \<le> 65535" "ses_Will s = None" "WillDelayInterval' s = 0"
    and "unix_range (ConnectedAt s)" "to_second (ConnectedAt s) = ConnectedAt s"
  shows "\<exists>pre suf. EncodeSession s = pre @ suf \<and> length suf = 4 \<and>
    DecodeSession (pre @ PutUint64 (word_of_int (Unix (ConnectedAt s))) @ suf) = Inr s \<and> DecodeSession (EncodeSession s) = Inl Panic"
proof (intro exI conjI)
  let ?pre = "WriteString (ses_ClientID s) @ [0]" and ?suf = "WriteUint32 (ExpiryInterval s)"
  show enc: "EncodeSession s = ?pre @ ?suf" by (simp add: EncodeSession_def assms(2))
  show "length ?suf = 4" by (simp add: WriteUint32_def)
  have 1: "ReadByte ([0] @ r) = Inr (0, r)" for r by simp
  have "BigEndian_Uint64 (PutUint64 w) = Inr w" for w using BigEndian_Uint64_Put [of w "[]"] by simp
  moreover have "ReadUint32 (WriteUint32 v) = Inr (v, [])" for v using enc_read(3) [of v "[]"] by simp
  ultimately show "DecodeSession (?pre @ PutUint64 (word_of_int (Unix (ConnectedAt s))) @ ?suf) = Inr s"
    unfolding DecodeSession_def append_assoc enc_read(1) [OF assms(1)] rbind_simps prod.case 1
    using assms(2-5) by (cases s) (simp add: Next_def sint_Unix)
  show "DecodeSession (EncodeSession s) = Inl Panic"
    unfolding enc DecodeSession_def append_assoc enc_read(1) [OF assms(1)] rbind_simps prod.case 1
    by (simp add: Next_def BigEndian_Uint64_def WriteUint32_def)
qed

definition enc_Elem :: "Elem \<Rightarrow> bool" where
  "enc_Elem e \<longleftrightarrow> unix_range (At e)
     \<and> (\<forall>t. Expiry e = Some t \<longrightarrow> unix_range t \<and> Unix t \<noteq> zeroUnix)
     \<and> (case Elem_msg e of QPublish m \<Rightarrow> enc_Message m | QPubrel _ \<Rightarrow> True)"

lemma Elem_Encode_header:
  fixes a x :: uint64
  assumes "b = PutUint64 a @ [0] @ PutUint64 x @ [0] @ [t] @ r"
  shows "BigEndian_Uint64 (take 9 b) = Inr a" "BigEndian_Uint64 (take 10 (drop 9 b)) = Inr x"
    "b ! 18 = t" "drop 19 b = r" "\<not> length b < 19"
proof -
  have "take 9 b = PutUint64 a @ [0]" "take 10 (drop 9 b) = PutUint64 x @ [0] @ take 1 ([t] @ r)"
    unfolding assms by simp_all
  then show "BigEndian_Uint64 (take 9 b) = Inr a" "BigEndian_Uint64 (take 10 (drop 9 b)) = Inr x"
    by (simp_all only: BigEndian_Uint64_Put)
  show "b ! 18 = t" "drop 19 b = r" "\<not> length b < 19"
    unfolding assms by (simp_all add: PutUint64_list)
qed

text \<open>
  C40. A queue element that is written for the external store is read back with the same message or release, all fields included, and with its times cut
  off to the second; an element without an expiry is read back without one.  This holds if the times are in the range of an \<^verbatim>\<open>int64\<close> of seconds, the expiry is
  not in the second of Go's zero time, the strings have at most 65535 bytes, the correlation data is not the empty slice (nil is allowed) and the
  subscription identifiers are below 268435456.
\<close>

theorem Elem_Decode_Encode:
  assumes "enc_Elem e"
  shows "Elem_Decode (Elem_Encode e) = Inr (e\<lparr>At := to_second (At e), Expiry := map_option to_second (Expiry e)\<rparr>)"
proof -
  let ?x = "case Expiry e of None \<Rightarrow> zeroUnix | Some t \<Rightarrow> Unix t"
  have z: "sint (word_of_int zeroUnix :: uint64) = zeroUnix"
    by (simp add: signed_of_int signed_take_bit_int_eq_self zeroUnix_def)
  have at: "sint (word_of_int (Unix (At e)) :: uint64) * 1000000000 = to_second (At e)"
    using assms by (auto simp: enc_Elem_def sint_Unix)
  have ex: "(if sint (word_of_int ?x :: uint64) = zeroUnix then None
      else Some (sint (word_of_int ?x :: uint64) * 1000000000)) = map_option to_second (Expiry e)"
    using assms by (cases "Expiry e") (auto simp: enc_Elem_def sint_Unix z)
  obtain t r where b: "Elem_Encode e = PutUint64 (word_of_int (Unix (At e))) @ [0] @ PutUint64 (word_of_int ?x) @ [0] @ [t] @ r"
    and tr: "case Elem_msg e of QPublish m \<Rightarrow> t = 0 \<and> r = EncodeMessage (Some m)
      | QPubrel i \<Rightarrow> t = 1 \<and> r = WriteUint16 i"
    by (cases "Elem_msg e") (auto simp: Elem_Encode_def)
  note h = Elem_Encode_header [OF b]
  show ?thesis
  proof (cases "Elem_msg e")
    case (QPublish m)
    with tr assms have "t = 0" "DecodeMessage r = Inr m"
      by (auto simp: enc_Elem_def DecodeMessage_EncodeMessage)
    with QPublish show ?thesis using h(5) unfolding Elem_Decode_def h by (simp add: Let_def at ex)
  next
    case (QPubrel i)
    with tr have "t = 1" "ReadUint16 r = Inr (i, [])"
      using eu16.dec_enc_Nil [of i] by auto
    with QPubrel show ?thesis using h(5) unfolding Elem_Decode_def h by (simp add: Let_def at ex)
  qed
qed

definition elem_example :: Elem where
  "elem_example = \<lparr>At = 5000000700, Expiry = Some 9000000700, Elem_msg = QPublish msg_example\<rparr>"

theorem Elem_Decode_Encode_witness:
  "Elem_Decode (Elem_Encode elem_example) = Inr \<lparr>At = 5000000000, Expiry = Some 9000000000, Elem_msg = QPublish msg_example\<rparr>"
proof -
  have "enc_Elem elem_example"
    by (simp add: elem_example_def enc_Elem_def unix_range_def Unix_def zeroUnix_def enc_Message_def enc_string_def msg_example_def nonempty_def)
  from Elem_Decode_Encode [OF this] show ?thesis by (simp add: elem_example_def to_second_def)
qed

end
