(* ===== verification/Stores.thy ===== *)
theory Stores
  imports Encoding
begin

text \<open>
  The two small in-memory stores of \<^verbatim>\<open>gmqtt/persistence\<close>: \<^verbatim>\<open>unack/mem/mem.go\<close>, the identifiers of the
  received QoS 2 messages that are not yet released, and \<^verbatim>\<open>session/mem/store.go\<close>, the sessions by
  client.  \<open>unack_store\<close> is the interface \<^verbatim>\<open>unack.Store\<close> with its documented contract.
\<close>

section \<open>Unacknowledged QoS 2 identifiers\<close>

record Unack =
  un_clientID :: bytes
  unackpublish :: "uint16 set"

definition Unack_New :: "bytes \<Rightarrow> Unack" where
  "Unack_New clientID = \<lparr>un_clientID = clientID, unackpublish = {}\<rparr>"

definition Unack_Init :: "bool \<Rightarrow> Unack \<Rightarrow> Unack" where
  "Unack_Init cleanStart s = (if cleanStart then s\<lparr>unackpublish := {}\<rparr> else s)"

definition Unack_Set :: "uint16 \<Rightarrow> Unack \<Rightarrow> bool \<times> Unack" where
  "Unack_Set i s =
     (if i \<in> unackpublish s then (True, s)
      else (False, s\<lparr>unackpublish := insert i (unackpublish s)\<rparr>))"

definition Unack_Remove :: "uint16 \<Rightarrow> Unack \<Rightarrow> Unack" where
  "Unack_Remove i s = s\<lparr>unackpublish := unackpublish s - {i}\<rparr>"

text \<open>
  The use the broker makes of the store: a QoS 2 \<^verbatim>\<open>PUBLISH\<close> is delivered when \<^verbatim>\<open>Set\<close> reports a new
  identifier, and a \<^verbatim>\<open>PUBREL\<close> removes the identifier.
\<close>

datatype unack_event = EvPublish uint16 | EvPubrel uint16

fun delivered :: "('s \<Rightarrow> uint16 \<Rightarrow> bool \<times> 's) \<Rightarrow> ('s \<Rightarrow> uint16 \<Rightarrow> 's) \<Rightarrow> 's \<Rightarrow> unack_event list \<Rightarrow> bool list" where
  "delivered st rm s [] = []"
| "delivered st rm s (EvPublish i # es) = (let (exist, s') = st s i in (\<not> exist) # delivered st rm s' es)"
| "delivered st rm s (EvPubrel i # es) = delivered st rm (rm s i) es"

text \<open>
  What the events alone say: a publish is new unless an earlier publish of its identifier has not
  been released since.
\<close>

fun pending :: "unack_event list \<Rightarrow> uint16 \<Rightarrow> bool" where
  "pending [] i = False"
| "pending (EvPublish j # past) i = (i = j \<or> pending past i)"
| "pending (EvPubrel j # past) i = (i \<noteq> j \<and> pending past i)"

fun new_publishes :: "unack_event list \<Rightarrow> unack_event list \<Rightarrow> bool list" where
  "new_publishes past [] = []"
| "new_publishes past (EvPublish i # es) = (\<not> pending past i) # new_publishes (EvPublish i # past) es"
| "new_publishes past (EvPubrel i # es) = new_publishes (EvPubrel i # past) es"

locale unack_store =
  fixes st :: "'s \<Rightarrow> uint16 \<Rightarrow> bool \<times> 's"
    and rm :: "'s \<Rightarrow> uint16 \<Rightarrow> 's"
    and has :: "'s \<Rightarrow> uint16 \<Rightarrow> bool"
  assumes set_old: "fst (st s i) = has s i"
    and set_has: "has (snd (st s i)) j \<longleftrightarrow> j = i \<or> has s j"
    and remove_has: "has (rm s i) j \<longleftrightarrow> j \<noteq> i \<and> has s j"
begin

lemma delivered_new:
  "(\<And>i. has s i = pending past i) \<Longrightarrow> delivered st rm s es = new_publishes past es"
proof (induction es arbitrary: s past)
  case (Cons e es)
  then show ?case
    by (cases e) (auto simp: split_beta set_old set_has remove_has intro!: Cons.IH)
qed simp

end

interpretation unack: unack_store "\<lambda>s i. Unack_Set i s" "\<lambda>s i. Unack_Remove i s" "\<lambda>s i. i \<in> unackpublish s"
  by unfold_locales (auto simp: Unack_Set_def Unack_Remove_def)

text \<open>
  A QoS 2 publish is delivered exactly when no earlier publish of the same identifier is still unreleased.
\<close>

lemma delivered_Unack:
  "delivered (\<lambda>s i. Unack_Set i s) (\<lambda>s i. Unack_Remove i s) (Unack_New c) es = new_publishes [] es"
  by (rule unack.delivered_new) (simp add: Unack_New_def)

section \<open>Sessions\<close>

text \<open>
  \<^verbatim>\<open>Get\<close> returns the pointer that is stored; the model returns the session it points to, and an
  update through \<^verbatim>\<open>SetSessionExpiry\<close> is an update of the stored value.
\<close>

type_synonym SessionStore = "(bytes \<times> Session) list"

definition Session_New :: SessionStore where
  "Session_New = []"

definition Session_Set :: "Session \<Rightarrow> SessionStore \<Rightarrow> SessionStore" where
  "Session_Set session s = al_put (ses_ClientID session) session s"

definition Session_Remove :: "bytes \<Rightarrow> SessionStore \<Rightarrow> SessionStore" where
  "Session_Remove clientID s = al_del clientID s"

definition Session_Get :: "bytes \<Rightarrow> SessionStore \<Rightarrow> Session option" where
  "Session_Get clientID s = map_of s clientID"

definition Session_GetAll :: "SessionStore \<Rightarrow> Session list" where
  "Session_GetAll s = []"

definition SetSessionExpiry :: "bytes \<Rightarrow> uint32 \<Rightarrow> SessionStore \<Rightarrow> SessionStore" where
  "SetSessionExpiry clientID expiry s =
     (case map_of s clientID of
        Some x \<Rightarrow> al_put clientID (x\<lparr>ExpiryInterval := expiry\<rparr>) s
      | None \<Rightarrow> s)"

text \<open>The callback carries a state of its own and says whether to go on.\<close>

fun Session_Iterate :: "('a \<Rightarrow> Session \<Rightarrow> bool \<times> 'a) \<Rightarrow> 'a \<Rightarrow> SessionStore \<Rightarrow> 'a" where
  "Session_Iterate fn a [] = a"
| "Session_Iterate fn a ((c, v) # s) =
     (let (cont, a') = fn a v in if \<not> cont then a' else Session_Iterate fn a' s)"

definition ses_inv :: "SessionStore \<Rightarrow> bool" where
  "ses_inv s \<longleftrightarrow> distinct (al_keys s) \<and> (\<forall>c x. map_of s c = Some x \<longrightarrow> ses_ClientID x = c)"

lemma ses_inv_ops:
  "ses_inv Session_New"
  "ses_inv s \<Longrightarrow> ses_inv (Session_Set x s)"
  "ses_inv s \<Longrightarrow> ses_inv (Session_Remove c s)"
  "ses_inv s \<Longrightarrow> ses_inv (SetSessionExpiry c e s)"
  by (auto simp: ses_inv_def Session_New_def Session_Set_def Session_Remove_def SetSessionExpiry_def
      simp del: map_of_eq_Some_iff split: option.split if_splits)

lemma Session_Get_ops:
  "Session_Get c (Session_Set x s) = (if c = ses_ClientID x then Some x else Session_Get c s)"
  "Session_Get c (Session_Remove d s) = (if c = d then None else Session_Get c s)"
  "Session_Get c (SetSessionExpiry d e s) =
     (if c = d then map_option (\<lambda>x. x\<lparr>ExpiryInterval := e\<rparr>) (Session_Get c s) else Session_Get c s)"
  by (auto simp: Session_Get_def Session_Set_def Session_Remove_def SetSessionExpiry_def split: option.split)

text \<open>An iteration that never stops calls the callback once for every session.\<close>

lemma Session_Iterate_all:
  "(\<And>a v. fst (fn a v)) \<Longrightarrow> Session_Iterate fn a s = foldl (\<lambda>a v. snd (fn a v)) a (map snd s)"
  by (induction s arbitrary: a) (auto simp: split_beta)

lemma ses_inv_sessions: "ses_inv s \<Longrightarrow> x \<in> snd ` set s \<longleftrightarrow> Session_Get (ses_ClientID x) s = Some x"
  unfolding ses_inv_def Session_Get_def
  by (metis (no_types, lifting) image_iff map_of_SomeD map_of_eq_Some_iff prod.collapse snd_conv)

end
