(* ===== verification/Topic_Alias.thy ===== *)
theory Topic_Alias
  imports Message
begin

text \<open>
  Topic aliases of version 5: \<^verbatim>\<open>topicalias/fifo/fifo.go\<close>, the manager that chooses the alias of an
  outgoing \<^verbatim>\<open>PUBLISH\<close>, its use in \<^verbatim>\<open>client.writeLoop\<close>, and the table \<^verbatim>\<open>client.aliasMapper\<close> with which
  \<^verbatim>\<open>client.publishHandler\<close> of \<^verbatim>\<open>server/client.go\<close> resolves the alias of an incoming one.

  The locale \<open>alias_receiver\<close> states what a receiver of aliases owes its sender; the broker's
  receiving side is an interpretation of it.
\<close>

section \<open>The fifo manager\<close>

record topicAlias =
  ta_max :: int
  ta_alias :: "(bytes \<times> uint16) list"
  ta_index :: "bytes \<Rightarrow> uint16 option"

definition Alias_New :: "uint16 \<Rightarrow> topicAlias" where
  "Alias_New maxAlias = \<lparr>ta_max = uint maxAlias, ta_alias = [], ta_index = (\<lambda>_. None)\<rparr>"

text \<open>\<^verbatim>\<open>Front\<close> of an empty list is nil: with a maximum of zero \<^verbatim>\<open>Check\<close> would dereference it.\<close>

definition Alias_Check :: "topicAlias \<Rightarrow> bytes \<Rightarrow> ((uint16 \<times> bool) \<times> topicAlias) res" where
  "Alias_Check q topicName =
     (case ta_index q topicName of
        Some a \<Rightarrow> Inr ((a, True), q)
      | None \<Rightarrow>
        let l = length (ta_alias q) in
        rbind (if int l = ta_max q then
                 (case ta_alias q of
                    [] \<Rightarrow> Inl Panic
                  | (topic, alias) # rest \<Rightarrow>
                      Inr (alias, q\<lparr>ta_alias := rest, ta_index := (ta_index q)(topic := None)\<rparr>))
               else Inr (word_of_nat (l + 1), q)) (\<lambda>(alias, q').
        Inr ((alias, False),
             q'\<lparr>ta_alias := ta_alias q' @ [(topicName, alias)],
                ta_index := (ta_index q')(topicName \<mapsto> alias)\<rparr>)))"

section \<open>Sending and receiving\<close>

text \<open>The version 5 branch of \<^verbatim>\<open>writeLoop\<close>.\<close>

definition writeLoop_alias :: "byte \<Rightarrow> uint16 \<Rightarrow> topicAlias \<Rightarrow> Publish \<Rightarrow> (Publish \<times> topicAlias) res" where
  "writeLoop_alias version clientTopicAliasMax q p =
     (if version = Version5 \<and> 0 < clientTopicAliasMax then
        rbind (Alias_Check q (TopicName p)) (\<lambda>((alias, ok), q').
        case pub_Properties p of
          None \<Rightarrow> (if ok \<or> alias \<noteq> 0 then Inl Panic else Inr (p, q'))
        | Some ppt \<Rightarrow>
            if ok then
              Inr (p\<lparr>TopicName := [], pub_Properties := Some (ppt\<lparr>TopicAlias := Some alias\<rparr>)\<rparr>, q')
            else if alias \<noteq> 0 then
              Inr (p\<lparr>pub_Properties := Some (ppt\<lparr>TopicAlias := Some alias\<rparr>)\<rparr>, q')
            else Inr (p, q'))
      else Inr (p, q))"

text \<open>
  The alias step of \<^verbatim>\<open>publishHandler\<close>: the topic of the message and the new table.  An alias beyond
  the table is an index out of range.
\<close>

definition publishHandler_alias ::
    "byte \<Rightarrow> uint16 \<Rightarrow> bytes list \<Rightarrow> Publish \<Rightarrow> (bytes \<times> bytes list) res" where
  "publishHandler_alias version serverTopicAliasMax mapper pub =
     (if version = Version5 then
        (case pub_Properties pub of
           None \<Rightarrow> Inl Panic
         | Some ppt \<Rightarrow>
           (case TopicAlias ppt of
              None \<Rightarrow> Inr (TopicName pub, mapper)
            | Some topicAlias \<Rightarrow>
                if serverTopicAliasMax \<le> topicAlias then Inl (CodesErr 0x94)
                else if length mapper \<le> unat topicAlias then Inl Panic
                else let name = mapper ! unat topicAlias in
                  if length (TopicName pub) = 0 then
                    (if length name = 0 then Inl (CodesErr 0x94) else Inr (name, mapper))
                  else Inr (TopicName pub, mapper[unat topicAlias := TopicName pub])))
      else Inr (TopicName pub, mapper))"

text \<open>The table is made with \<^verbatim>\<open>ReceiveMax+1\<close> entries, an addition in \<^verbatim>\<open>uint16\<close>.\<close>

definition aliasMapper_make :: "uint16 \<Rightarrow> bytes list" where
  "aliasMapper_make receiveMax = replicate (unat (receiveMax + 1)) []"

section \<open>The manager keeps its two tables equal\<close>

definition ta_inv :: "topicAlias \<Rightarrow> bool" where
  "ta_inv q \<longleftrightarrow>
     ta_index q = map_of (ta_alias q) \<and> distinct (map fst (ta_alias q))
     \<and> int (length (ta_alias q)) \<le> ta_max q \<and> 0 < ta_max q \<and> ta_max q \<le> 65535
     \<and> distinct (map snd (ta_alias q))
     \<and> set (map snd (ta_alias q)) = word_of_nat ` {1..length (ta_alias q)}"

lemma Alias_New_inv:
  assumes "0 < m"
  shows "ta_inv (Alias_New m)"
proof -
  have "unat m < 65536" using unsigned_less [where ?'a = nat, of m] by simp
  moreover have "0 < unat m" using assms by (simp add: word_less_nat_alt)
  moreover have "uint m = int (unat m)" by simp
  ultimately have "0 < uint m" "uint m \<le> 65535" by linarith+
  then show ?thesis by (simp add: ta_inv_def Alias_New_def)
qed

lemma map_of_snoc: "s \<notin> fst ` set r \<Longrightarrow> (map_of r)(s \<mapsto> a) = map_of (r @ [(s, a)])"
proof (induction r)
  case (Cons e r)
  then have "map_of (r @ [(s, a)]) = (map_of r)(s \<mapsto> a)" by (intro Cons.IH [symmetric]) simp
  then show ?case using Cons.prems by (cases e) (auto simp add: fun_eq_iff simp del: map_of_append)
qed simp

lemma map_of_rotate:
  assumes "t \<notin> fst ` set r" and "s \<notin> fst ` set r"
  shows "((map_of ((t, a) # r))(t := None))(s \<mapsto> a) = map_of (r @ [(s, a)])"
proof -
  have "(map_of ((t, a) # r))(t := None) = map_of r"
    using assms(1) map_of_eq_None_iff [of r t] by (simp add: fun_upd_idem)
  then show ?thesis using map_of_snoc [OF assms(2)] by (simp only:)
qed

definition alias_in :: "topicAlias \<Rightarrow> uint16 \<Rightarrow> bool" where
  "alias_in q a \<longleftrightarrow> 1 \<le> unat a \<and> int (unat a) \<le> ta_max q"

lemma ta_inv_alias_in: "ta_inv q \<Longrightarrow> ta_index q t = Some a \<Longrightarrow> alias_in q a"
proof -
  assume i: "ta_inv q" and t: "ta_index q t = Some a"
  then have "a \<in> set (map snd (ta_alias q))"
    unfolding ta_inv_def by (metis image_eqI map_of_SomeD set_map snd_conv)
  with i obtain n where n: "a = word_of_nat n" "1 \<le> n" "n \<le> length (ta_alias q)"
    unfolding ta_inv_def by auto
  moreover have "n < 65536" using i n unfolding ta_inv_def by linarith
  ultimately show ?thesis using i
    unfolding alias_in_def ta_inv_def by (simp add: unat_word_of_nat)
qed

text \<open>
  A topic that has an alias keeps it; otherwise it gets a fresh number, or the number of the
  oldest topic, which loses it.
\<close>

definition alias_step :: "topicAlias \<Rightarrow> bytes \<Rightarrow> uint16 \<Rightarrow> bool \<Rightarrow> topicAlias \<Rightarrow> bool" where
  "alias_step q t a ok q' \<longleftrightarrow>
     ta_inv q' \<and> ta_max q' = ta_max q \<and> ta_index q' t = Some a \<and> alias_in q a
     \<and> (if ok then q' = q
        else ta_index q t = None
          \<and> (\<forall>s b. s \<noteq> t \<longrightarrow> (ta_index q' s = Some b \<longleftrightarrow> ta_index q s = Some b \<and> b \<noteq> a)))"

lemma fresh_alias_notin:
  assumes "ta_inv q" and "int (length (ta_alias q)) < ta_max q"
  shows "word_of_nat (length (ta_alias q) + 1) \<notin> set (map snd (ta_alias q))"
proof
  assume "word_of_nat (length (ta_alias q) + 1) \<in> set (map snd (ta_alias q))"
  with assms(1) obtain n where n: "(word_of_nat (length (ta_alias q) + 1) :: uint16) = word_of_nat n"
    "n \<le> length (ta_alias q)"
    unfolding ta_inv_def by auto
  have "length (ta_alias q) + 1 < 2 ^ LENGTH(16)" "n < 2 ^ LENGTH(16)"
    using assms n(2) unfolding ta_inv_def by simp_all
  then have "length (ta_alias q) + 1 = n" using n(1) word_of_nat_inj by blast
  with n(2) show False by simp
qed

lemma map_of_other_alias:
  assumes "distinct (map snd xs)" and "map_of xs t = Some a" and "map_of xs s = Some a"
  shows "s = t"
  using assms by (metis distinct_map inj_onD map_of_SomeD prod.inject snd_conv)

lemma Alias_Check_full:
  assumes inv: "ta_inv q" and t: "ta_index q t = None" and q: "ta_alias q = (s, a) # r"
    and l: "int (length (ta_alias q)) = ta_max q"
  shows "alias_step q t a False
    (q\<lparr>ta_alias := r @ [(t, a)], ta_index := ((ta_index q)(s := None))(t \<mapsto> a)\<rparr>)"
proof -
  let ?q = "q\<lparr>ta_alias := r @ [(t, a)], ta_index := ((ta_index q)(s := None))(t \<mapsto> a)\<rparr>"
  note i = inv [unfolded ta_inv_def q]
  have st: "s \<notin> fst ` set r" "t \<notin> fst ` set r" "t \<noteq> s" "a \<notin> snd ` set r"
    using i t map_of_eq_None_iff [of r t] by (auto split: if_splits)
  have idx: "ta_index ?q = map_of (r @ [(t, a)])"
    using i map_of_rotate [OF st(1,2)] by simp
  have "ta_inv ?q"
    unfolding ta_inv_def idx using i st l q by (simp add: insert_commute)
  moreover have "alias_in q a"
    using i by (intro ta_inv_alias_in [OF inv, of s]) simp
  moreover have "ta_index q u = Some b \<Longrightarrow> u \<noteq> s \<Longrightarrow> b \<noteq> a" for u b
    using i st by (force dest: map_of_SomeD)
  ultimately show ?thesis using t i st unfolding alias_step_def by auto
qed

lemma Alias_Check_room:
  assumes inv: "ta_inv q" and t: "ta_index q t = None"
    and l: "int (length (ta_alias q)) < ta_max q" and a: "a = word_of_nat (length (ta_alias q) + 1)"
  shows "alias_step q t a False
    (q\<lparr>ta_alias := ta_alias q @ [(t, a)], ta_index := (ta_index q)(t \<mapsto> a)\<rparr>)"
proof -
  let ?q = "q\<lparr>ta_alias := ta_alias q @ [(t, a)], ta_index := (ta_index q)(t \<mapsto> a)\<rparr>"
  note i = inv [unfolded ta_inv_def]
  have n: "a \<notin> snd ` set (ta_alias q)" using fresh_alias_notin [OF inv l] a by simp
  have t': "t \<notin> fst ` set (ta_alias q)" using i t by (auto simp: map_of_eq_None_iff)
  have idx: "ta_index ?q = map_of (ta_alias q @ [(t, a)])" using i map_of_snoc [OF t'] by simp
  have "{1..Suc (length (ta_alias q))} = insert (Suc (length (ta_alias q))) {1..length (ta_alias q)}" by auto
  then have inv': "ta_inv ?q"
    unfolding ta_inv_def idx using i n t' l a by simp
  moreover have "alias_in q a"
    using ta_inv_alias_in [OF inv', of t a] by (simp add: alias_in_def)
  moreover have "ta_index q u = Some b \<Longrightarrow> b \<noteq> a" for u b
    using i n by (metis image_eqI map_of_SomeD snd_conv)
  ultimately show ?thesis using t unfolding alias_step_def by auto
qed

lemma Alias_Check_ok:
  assumes "ta_inv q"
  shows "\<exists>a ok q'. Alias_Check q t = Inr ((a, ok), q') \<and> alias_step q t a ok q'"
proof (cases "ta_index q t")
  case (Some a)
  then show ?thesis using assms ta_inv_alias_in [OF assms Some]
    by (auto simp: Alias_Check_def alias_step_def)
next
  case None
  show ?thesis
  proof (cases "int (length (ta_alias q)) = ta_max q")
    case True
    with assms obtain s a r where q: "ta_alias q = (s, a) # r"
      unfolding ta_inv_def by (cases "ta_alias q") auto
    from Alias_Check_full [OF assms None q True] show ?thesis
      using None True q by (auto simp: Alias_Check_def)
  next
    case False
    with assms have "int (length (ta_alias q)) < ta_max q" unfolding ta_inv_def by simp
    from Alias_Check_room [OF assms None this refl] show ?thesis
      using None False by (auto simp: Alias_Check_def Let_def)
  qed
qed

section \<open>The receiver resolves every alias to the topic the sender meant\<close>

text \<open>
  What a receiver owes the sender: a publish with a topic and an alias binds the alias, one with an
  alias only is given the topic bound to it.
\<close>

locale alias_receiver =
  fixes recv :: "'s \<Rightarrow> Publish \<Rightarrow> (bytes \<times> 's) res"
    and tab :: "'s \<Rightarrow> uint16 \<Rightarrow> bytes option"
    and rinv :: "'s \<Rightarrow> bool"
    and accepts :: "uint16 \<Rightarrow> bool"
  assumes recv_named:
    "rinv s \<Longrightarrow> accepts a \<Longrightarrow> pub_Properties p = Some ppt \<Longrightarrow> TopicAlias ppt = Some a \<Longrightarrow> TopicName p \<noteq> [] \<Longrightarrow>
     \<exists>s'. recv s p = Inr (TopicName p, s') \<and> rinv s' \<and> tab s' = (tab s)(a \<mapsto> TopicName p)"
    and recv_alias:
    "rinv s \<Longrightarrow> accepts a \<Longrightarrow> pub_Properties p = Some ppt \<Longrightarrow> TopicAlias ppt = Some a \<Longrightarrow> TopicName p = [] \<Longrightarrow>
     tab s a = Some t \<Longrightarrow> recv s p = Inr (t, s)"
begin

text \<open>The receiver knows every alias the sender has in use.\<close>

definition in_step :: "topicAlias \<Rightarrow> 's \<Rightarrow> bool" where
  "in_step q s \<longleftrightarrow> ta_inv q \<and> rinv s \<and> (\<forall>t a. ta_index q t = Some a \<longrightarrow> tab s a = Some t)"

lemma send_recv:
  assumes "in_step q s" and "\<And>a. alias_in q a \<Longrightarrow> accepts a"
    and "0 < m" and "TopicName p \<noteq> []" and "pub_Properties p = Some ppt"
  shows "\<exists>p' q' s'. writeLoop_alias Version5 m q p = Inr (p', q') \<and> recv s p' = Inr (TopicName p, s')
    \<and> in_step q' s' \<and> ta_max q' = ta_max q"
proof -
  let ?t = "TopicName p"
  from assms(1) have inv: "ta_inv q" "rinv s" and known: "\<And>t a. ta_index q t = Some a \<Longrightarrow> tab s a = Some t"
    by (auto simp: in_step_def)
  obtain a ok q' where c: "Alias_Check q ?t = Inr ((a, ok), q')" and st: "alias_step q ?t a ok q'"
    using Alias_Check_ok [OF inv(1)] by blast
  have acc: "accepts a" "a \<noteq> 0" and idx: "ta_index q' ?t = Some a"
    using st assms(2) by (auto simp: alias_step_def alias_in_def)
  let ?ppt = "ppt\<lparr>TopicAlias := Some a\<rparr>"
  show ?thesis
  proof (cases ok)
    case True
    let ?p = "p\<lparr>TopicName := [], pub_Properties := Some ?ppt\<rparr>"
    have q': "q' = q" using st True by (simp add: alias_step_def)
    have "recv s ?p = Inr (?t, s)"
      using recv_alias [of s a ?p ?ppt ?t] inv(2) acc known idx q' by simp
    then show ?thesis using c True q' assms by (auto simp: writeLoop_alias_def)
  next
    case False
    let ?p = "p\<lparr>pub_Properties := Some ?ppt\<rparr>"
    obtain s' where s': "recv s ?p = Inr (?t, s')" "rinv s'" "tab s' = (tab s)(a \<mapsto> ?t)"
      using recv_named [of s a ?p ?ppt] inv(2) acc assms(4) by auto
    have "tab s' b = Some u" if u: "ta_index q' u = Some b" for u b
    proof (cases "u = ?t")
      case True
      with idx u s' show ?thesis by simp
    next
      case neq: False
      with st False u have "ta_index q u = Some b" "b \<noteq> a" by (auto simp: alias_step_def)
      with known s' show ?thesis by simp
    qed
    then have "in_step q' s'" using st s' by (simp add: in_step_def alias_step_def)
    then show ?thesis using c False s' acc assms st by (auto simp: writeLoop_alias_def alias_step_def)
  qed
qed

end

text \<open>A sender that writes a list of packets to a receiver, and the topics the receiver sees.\<close>

fun alias_session ::
    "('s \<Rightarrow> Publish \<Rightarrow> (bytes \<times> 's) res) \<Rightarrow> uint16 \<Rightarrow> topicAlias \<Rightarrow> 's \<Rightarrow> Publish list \<Rightarrow> bytes list res" where
  "alias_session recv m q s [] = Inr []"
| "alias_session recv m q s (p # ps) =
     rbind (writeLoop_alias Version5 m q p) (\<lambda>(p', q').
     rbind (recv s p') (\<lambda>(t, s').
     rbind (alias_session recv m q' s' ps) (\<lambda>ts. Inr (t # ts))))"

context alias_receiver
begin

lemma session_topics:
  assumes "in_step q s" and "\<And>a. alias_in q a \<Longrightarrow> accepts a" and "0 < m"
    and "list_all (\<lambda>p. TopicName p \<noteq> [] \<and> pub_Properties p \<noteq> None) ps"
  shows "alias_session recv m q s ps = Inr (map TopicName ps)"
  using assms
proof (induction ps arbitrary: q s)
  case (Cons p ps)
  then obtain p' q' s' where "writeLoop_alias Version5 m q p = Inr (p', q')"
    and "recv s p' = Inr (TopicName p, s')" and i: "in_step q' s'" and x: "ta_max q' = ta_max q"
    using send_recv [of q s m p] by auto
  moreover have "alias_session recv m q' s' ps = Inr (map TopicName ps)"
    using Cons.prems i x by (intro Cons.IH) (auto simp: alias_in_def)
  ultimately show ?case by simp
qed simp

end

text \<open>The broker as receiver: its table has an entry for every alias it accepts.\<close>

definition mapper_tab :: "bytes list \<Rightarrow> uint16 \<Rightarrow> bytes option" where
  "mapper_tab mapper a =
     (if unat a < length mapper \<and> mapper ! unat a \<noteq> [] then Some (mapper ! unat a) else None)"

interpretation broker: alias_receiver "publishHandler_alias Version5 m" mapper_tab
  "\<lambda>mapper. unat m \<le> length mapper" "\<lambda>a. a < m" for m
proof unfold_locales
  fix s :: "bytes list" and a and p :: Publish and ppt
  assume "unat m \<le> length s" "a < m" and p: "pub_Properties p = Some ppt" "TopicAlias ppt = Some a"
    and t: "TopicName p \<noteq> []"
  then have l: "\<not> m \<le> a" "unat a < length s" by (auto simp: word_less_nat_alt word_le_nat_alt)
  then have "publishHandler_alias Version5 m s p = Inr (TopicName p, s[unat a := TopicName p])"
    using p t by (simp add: publishHandler_alias_def Let_def)
  moreover have "mapper_tab (s[unat a := TopicName p]) = (mapper_tab s)(a \<mapsto> TopicName p)"
    using l t by (auto simp: fun_eq_iff mapper_tab_def nth_list_update word_unat_eq_iff)
  ultimately show "\<exists>s'. publishHandler_alias Version5 m s p = Inr (TopicName p, s') \<and> unat m \<le> length s'
      \<and> mapper_tab s' = (mapper_tab s)(a \<mapsto> TopicName p)"
    using \<open>unat m \<le> length s\<close> by auto
next
  fix s :: "bytes list" and a and p :: Publish and ppt t
  assume "unat m \<le> length s" "a < m" "pub_Properties p = Some ppt" "TopicAlias ppt = Some a"
    "TopicName p = []" "mapper_tab s a = Some t"
  then show "publishHandler_alias Version5 m s p = Inr (t, s)"
    by (auto simp: publishHandler_alias_def mapper_tab_def Let_def word_less_nat_alt word_le_nat_alt
        split: if_splits)
qed

text \<open>
  C14. A sender that uses the fifo manager and a receiver that resolves aliases as the broker does agree: for
  every list of packets the receiver gets the topics that were meant, provided its alias limit exceeds
  the number of aliases in use and its table covers the limit.
\<close>

theorem alias_session_broker:
  assumes "0 < m" and "m < serverMax" and "unat serverMax \<le> length mapper"
    and "list_all (\<lambda>p. TopicName p \<noteq> [] \<and> pub_Properties p \<noteq> None) ps"
  shows "alias_session (publishHandler_alias Version5 serverMax) m (Alias_New m) mapper ps
    = Inr (map TopicName ps)"
proof (rule broker.session_topics)
  show "broker.in_step serverMax (Alias_New m) mapper"
    using assms Alias_New_inv by (simp add: broker.in_step_def Alias_New_def)
  show "a < serverMax" if "alias_in (Alias_New m) a" for a
  proof -
    have "a \<le> m" using that by (simp add: alias_in_def Alias_New_def word_le_def)
    then show ?thesis using assms(2) by simp
  qed
qed (use assms in auto)

theorem alias_session_broker_witness:
  "alias_session (publishHandler_alias Version5 11) 10 (Alias_New 10) (aliasMapper_make 100)
     [(case pub_example of PPublish p \<Rightarrow> p\<lparr>pub_Properties := Some Properties_zero\<rparr>),
      (case pub_example of PPublish p \<Rightarrow> p\<lparr>pub_Properties := Some Properties_zero\<rparr>)] = Inr [[0x61], [0x61]]"
  using alias_session_broker [of 10 11 "aliasMapper_make 100"
      "[(case pub_example of PPublish p \<Rightarrow> p\<lparr>pub_Properties := Some Properties_zero\<rparr>),
        (case pub_example of PPublish p \<Rightarrow> p\<lparr>pub_Properties := Some Properties_zero\<rparr>)]"]
  by (simp add: aliasMapper_make_def pub_example_def)

end
