(* ===== verification/Client.thy ===== *)
theory Client
  imports Outbound Delivery Stores Topic_Alias
begin

text \<open>
  The receiving side of a connected client, \<^verbatim>\<open>server/client.go\<close>: the handlers of the packets a client sends and the
  loop \<^verbatim>\<open>readHandle\<close> that calls them, the quota shared by \<^verbatim>\<open>readLoop\<close> and \<^verbatim>\<open>writeLoop\<close>, and \<^verbatim>\<open>setError\<close>.  The handlers
  work on the server's state of theory \<open>Delivery\<close>, the session store and the client's record, which extends
  the one of theory \<open>Outbound\<close>.

  Shown are what the handlers leave alone, that a QoS 2 publish is not delivered twice (\<open>qos2_exactly_once\<close>) and that
  the quota counts the open exchanges (\<open>receive_quota\<close>).
\<close>

section \<open>Errors of the handlers\<close>

text \<open>
  A Go \<^verbatim>\<open>error\<close> that is not nil is a \<^verbatim>\<open>*codes.Error\<close> or any other error, of which only its text is used.
\<close>

record codes_Error =
  ce_Code :: byte
  ce_ReasonString :: "bytes option"
  ce_UserProperties :: "UserProperty list"

datatype go_error = CodesError codes_Error | OtherError bytes

definition codes_NewError :: "byte \<Rightarrow> codes_Error" where
  "codes_NewError code = \<lparr>ce_Code = code, ce_ReasonString = None, ce_UserProperties = []\<rparr>"

definition NotMatchingSubscribers :: byte where "NotMatchingSubscribers = 0x10"
definition ContinueAuthentication :: byte where "ContinueAuthentication = 0x18"
definition UnspecifiedError :: byte where "UnspecifiedError = 0x80"
definition ProtocolError :: byte where "ProtocolError = 0x82"
definition RecvMaxExceeded :: byte where "RecvMaxExceeded = 0x93"
definition PacketTooLarge :: byte where "PacketTooLarge = 0x95"
definition RetainNotSupported :: byte where "RetainNotSupported = 0x9A"
definition SharedSubNotSupported :: byte where "SharedSubNotSupported = 0x9E"
definition SubIDNotSupported :: byte where "SubIDNotSupported = 0xA1"
definition WildcardSubNotSupported :: byte where "WildcardSubNotSupported = 0xA2"
definition SubscribeFailure :: byte where "SubscribeFailure = 0x80"

fun converError :: "go_error option \<Rightarrow> codes_Error option" where
  "converError None = None"
| "converError (Some (CodesError e)) = Some e"
| "converError (Some (OtherError text)) =
     Some \<lparr>ce_Code = UnspecifiedError, ce_ReasonString = Some text, ce_UserProperties = []\<rparr>"

definition kvsToProperties :: "UserProperty list \<Rightarrow> UserProperty list" where
  "kvsToProperties kvs = map (\<lambda>v. \<lparr>UserK = UserK v, UserV = UserV v\<rparr>) kvs"

definition convertUint16 :: "uint16 option \<Rightarrow> uint16 \<Rightarrow> uint16" where
  "convertUint16 u defaultValue = (case u of None \<Rightarrow> defaultValue | Some v \<Rightarrow> v)"

definition convertUint32 :: "uint32 option \<Rightarrow> uint32 \<Rightarrow> uint32" where
  "convertUint32 u defaultValue = (case u of None \<Rightarrow> defaultValue | Some v \<Rightarrow> v)"

section \<open>The client\<close>

text \<open>\<^verbatim>\<open>MaxInflight\<close> is the field \<open>ss_MaxInflight\<close> of the session.\<close>

record ClientOptions =
  o_ClientID :: bytes
  o_Username :: bytes
  o_KeepAlive :: uint16
  o_SessionExpiry :: uint32
  o_ReceiveMax :: uint16
  o_ClientMaxPacketSize :: uint32
  o_ServerMaxPacketSize :: uint32
  o_ClientTopicAliasMax :: uint16
  o_ServerTopicAliasMax :: uint16
  o_RequestProblemInfo :: bool
  o_UserProperties :: "UserProperty list"
  o_RetainAvailable :: bool
  o_WildcardSubAvailable :: bool
  o_SubIDAvailable :: bool
  o_SharedSubAvailable :: bool
  o_AuthMethod :: "bytes option"

text \<open>
  The fields the handlers use, beside those of the sending side.  \<open>cl_closed\<close> says that the channel \<^verbatim>\<open>client.close\<close>
  is closed, and \<open>cl_err\<close> is \<^verbatim>\<open>client.err\<close>.
\<close>

record client = session +
  cl_opts :: ClientOptions
  cl_config :: MQTT
  cl_aliasMapper :: "bytes list"
  cl_serverReceiveMaximumQuota :: uint16
  cl_unackStore :: Unack
  cl_disconnect :: "Disconnect option"
  cl_cleanWillFlag :: bool
  cl_forceRemoveSession :: bool
  cl_closed :: bool
  cl_err :: "go_error option"

abbreviation client_ID :: "client \<Rightarrow> bytes" where
  "client_ID c \<equiv> o_ClientID (cl_opts c)"

definition getErrorProperties :: "client \<Rightarrow> codes_Error \<Rightarrow> Properties option" where
  "getErrorProperties c e =
     (if ss_version c = Version5 \<and> o_RequestProblemInfo (cl_opts c)
      then Some (Properties_zero\<lparr>ReasonString := ce_ReasonString e, User := kvsToProperties (ce_UserProperties e)\<rparr>)
      else None)"

text \<open>
  \<^verbatim>\<open>setError\<close>: only the first call has an effect (\<^verbatim>\<open>errOnce\<close>).  \<^verbatim>\<open>io.EOF\<close> is not recorded; it is the error
  with the text \<open>EOF\<close> here.
\<close>

definition io_EOF :: go_error where
  "io_EOF = OtherError [0x45, 0x4F, 0x46]"

definition setError :: "go_error option \<Rightarrow> client \<Rightarrow> client" where
  "setError err c =
     (if cl_closed c then c
      else
        let c' = (case err of
             None \<Rightarrow> c
           | Some e \<Rightarrow>
               if e = io_EOF then c
               else
                 let c1 = c\<lparr>cl_err := Some e\<rparr> in
                 (case e of
                    CodesError code \<Rightarrow>
                      if ss_version c1 = Version5 \<and> ss_connected c1
                      then client_write (PDisconnect \<lparr>dis_Version = Version5, dis_FixHeader = None, dis_Code = ce_Code code,
                        dis_Properties = Some (Properties_zero\<lparr>ReasonString := ce_ReasonString code,
                          User := kvsToProperties (ce_UserProperties code)\<rparr>)\<rparr>) c1
                      else c1
                  | OtherError _ \<Rightarrow> c1)) in
        c'\<lparr>cl_closed := True\<rparr>)"

definition checkMaxPacketSize :: "client \<Rightarrow> Message \<Rightarrow> bool" where
  "checkMaxPacketSize c msg =
     (\<not> (o_ClientMaxPacketSize (cl_opts c) \<noteq> 0 \<and> o_ClientMaxPacketSize (cl_opts c) < Message_TotalBytes msg Version5))"

section \<open>The receive maximum\<close>

definition addServerQuota :: "client \<Rightarrow> client" where
  "addServerQuota c =
     (if cl_serverReceiveMaximumQuota c < o_ReceiveMax (cl_opts c)
      then c\<lparr>cl_serverReceiveMaximumQuota := cl_serverReceiveMaximumQuota c + 1\<rparr> else c)"

definition tryDecServerQuota :: "client \<Rightarrow> codes_Error + client" where
  "tryDecServerQuota c =
     (if cl_serverReceiveMaximumQuota c = 0 then Inl (codes_NewError RecvMaxExceeded)
      else Inr (c\<lparr>cl_serverReceiveMaximumQuota := cl_serverReceiveMaximumQuota c - 1\<rparr>))"

text \<open>What \<^verbatim>\<open>readLoop\<close> does with a packet it has read, up to handing it to \<^verbatim>\<open>client.in\<close>.\<close>

definition readLoop_packet :: "Packet \<Rightarrow> client \<Rightarrow> codes_Error + client" where
  "readLoop_packet packet c =
     (case packet of
        PPublish pub \<Rightarrow> if ss_version c = Version5 \<and> 0 < Qos pub then tryDecServerQuota c else Inr c
      | _ \<Rightarrow> Inr c)"

text \<open>The read deadline in seconds, a number of 16 bits.\<close>

definition keepAlive_deadline :: "uint16 \<Rightarrow> uint16" where
  "keepAlive_deadline keepAlive = keepAlive div 2 + keepAlive"

text \<open>
  What \<^verbatim>\<open>writeLoop\<close> does with a packet before it is encoded; the topic alias of a publish is
  \<open>writeLoop_alias\<close>.
\<close>

definition writeLoop_quota :: "Packet \<Rightarrow> client \<Rightarrow> client" where
  "writeLoop_quota packet c =
     (case packet of
        PPuback _ \<Rightarrow> if ss_version c = Version5 then addServerQuota c else c
      | PPubcomp _ \<Rightarrow> if ss_version c = Version5 then addServerQuota c else c
      | PPubrec p \<Rightarrow> if ss_version c = Version5 \<and> UnspecifiedError \<le> ack_Code p then addServerQuota c else c
      | _ \<Rightarrow> c)"

section \<open>Hooks\<close>

text \<open>
  The hooks that decide about a request are parameters: a hook that is nil is \<open>None\<close>.  Requests are handed over
  by reference; what the hook makes of them is part of its result.  The hooks that only observe
  (\<^verbatim>\<open>OnSubscribed\<close>, \<^verbatim>\<open>OnUnsubscribed\<close>, \<^verbatim>\<open>OnDelivered\<close>) are left out.
\<close>

type_synonym Subscriptions = "bytes \<Rightarrow> (Subscription \<times> go_error option) option"
type_synonym Unsubs = "bytes \<Rightarrow> (bytes \<times> go_error option) option"

record AuthResponse =
  Continue :: bool
  ar_AuthData :: "bytes option"

record Hooks =
  OnMsgArrived :: "(client \<Rightarrow> Publish \<Rightarrow> Message \<Rightarrow> IterationOptions \<Rightarrow>
    Message option \<times> IterationOptions \<times> go_error option) option"
  OnSubscribe :: "(client \<Rightarrow> Subscribe \<Rightarrow> Subscriptions \<Rightarrow> uint32 \<Rightarrow> Subscriptions \<times> go_error option) option"
  OnUnsubscribe :: "(client \<Rightarrow> Unsubscribe \<Rightarrow> Unsubs \<Rightarrow> Unsubs \<times> go_error option) option"
  OnReAuth :: "(client \<Rightarrow> Auth \<Rightarrow> AuthResponse option \<times> go_error option) option"

section \<open>The client's queue\<close>

text \<open>
  \<^verbatim>\<open>client.queueStore\<close> is the object that \<^verbatim>\<open>srv.queueStore\<close> holds under the client's identifier: a handler works on
  the queue of the map and leaves it there.
\<close>

definition with_queue :: "(client \<Rightarrow> client res) \<Rightarrow> server \<Rightarrow> client \<Rightarrow> (server \<times> client) res" where
  "with_queue f srv c =
     (case queueStore srv (client_ID c) of
        None \<Rightarrow> rbind (f c) (\<lambda>c'. Inr (srv, c'))
      | Some q \<Rightarrow> rbind (f (c\<lparr>ss_queue := q\<rparr>)) (\<lambda>c'.
          Inr (srv\<lparr>queueStore := (queueStore srv)(client_ID c \<mapsto> ss_queue c')\<rparr>, c')))"

text \<open>
  \<^verbatim>\<open>client.deliverMessage\<close>: delivery by the server under its lock.  The notifications of the client's own queue
  reach its notifier.
\<close>

definition client_deliverMessage ::
    "(bytes \<Rightarrow> nat \<Rightarrow> nat) \<Rightarrow> int \<Rightarrow> Message \<Rightarrow> IterationOptions \<Rightarrow> server \<Rightarrow> client \<Rightarrow> (bool \<times> server \<times> client) res" where
  "client_deliverMessage Intn now msg options srv c =
     rbind (deliverMessage Intn now (client_ID c) msg options srv) (\<lambda>(matched, srv').
     rbind (notify_all (map snd (filter (\<lambda>(cid, _). cid = client_ID c) (drop (length (sv_notes srv)) (sv_notes srv')))) c) (\<lambda>c'.
     Inr (matched, srv', c')))"

section \<open>Publish\<close>

definition publish_retain :: "Publish \<Rightarrow> Message \<Rightarrow> server \<Rightarrow> server" where
  "publish_retain pub msg srv =
     (if Retain pub then
        (if length (Payload pub) = 0 then srv\<lparr>retainedDB := Retained_Remove (retainedDB srv) (TopicName pub)\<rparr>
         else srv\<lparr>retainedDB := AddOrReplace (retainedDB srv) (Message_Copy msg)\<rparr>)
      else srv)"

definition publish_hook ::
    "Hooks \<Rightarrow> Publish \<Rightarrow> Message \<Rightarrow> client \<Rightarrow> Message option \<times> IterationOptions \<times> go_error option" where
  "publish_hook hooks pub msg c =
     (case OnMsgArrived hooks of
        None \<Rightarrow> (Some msg, match_options (msg_Topic msg), None)
      | Some f \<Rightarrow> f c pub msg (match_options (msg_Topic msg)))"

definition publish_deliver ::
    "Hooks \<Rightarrow> (bytes \<Rightarrow> nat \<Rightarrow> nat) \<Rightarrow> int \<Rightarrow> Publish \<Rightarrow> Message \<Rightarrow> server \<Rightarrow> client
      \<Rightarrow> (go_error option \<times> bool \<times> server \<times> client) res" where
  "publish_deliver hooks Intn now pub msg srv c =
     (case publish_hook hooks pub msg c of
        (Some msg', opts, None) \<Rightarrow>
          rbind (client_deliverMessage Intn now msg' opts srv c) (\<lambda>(matched, srv', c'). Inr (None, matched, srv', c'))
      | (_, _, err) \<Rightarrow> Inr (err, False, srv, c))"

definition publish_code :: "go_error option \<Rightarrow> bool \<Rightarrow> client \<Rightarrow> byte \<times> Properties option" where
  "publish_code err topicMatched c =
     (if ss_version c = Version5 then
        (case converError err of
           Some codeErr \<Rightarrow> (ce_Code codeErr, getErrorProperties c codeErr)
         | None \<Rightarrow> (if topicMatched then Success else NotMatchingSubscribers, None))
      else (Success, None))"

definition publish_ack :: "Publish \<Rightarrow> go_error option \<Rightarrow> bool \<Rightarrow> client \<Rightarrow> client" where
  "publish_ack pub err topicMatched c =
     (let (code, ppt) = publish_code err topicMatched c in
      if Qos pub = 1 then client_write (PPuback (Publish_NewPuback pub code ppt)) c
      else if Qos pub = 2 then
        client_write (PPubrec (Publish_NewPubrec pub code ppt))
          (if UnspecifiedError \<le> code then c\<lparr>cl_unackStore := Unack_Remove (pub_PacketID pub) (cl_unackStore c)\<rparr> else c)
      else c)"

definition publishHandler ::
    "Hooks \<Rightarrow> (bytes \<Rightarrow> nat \<Rightarrow> nat) \<Rightarrow> int \<Rightarrow> Publish \<Rightarrow> server \<Rightarrow> client \<Rightarrow> (codes_Error option \<times> server \<times> client) res" where
  "publishHandler hooks Intn now pub srv c =
     (if \<not> o_RetainAvailable (cl_opts c) \<and> Retain pub then Inr (Some (codes_NewError RetainNotSupported), srv, c)
      else
        rbind (MessageFromPublish pub) (\<lambda>msg.
        case publishHandler_alias (ss_version c) (o_ServerTopicAliasMax (cl_opts c)) (cl_aliasMapper c) pub of
          Inl (CodesErr code) \<Rightarrow> Inr (Some (codes_NewError code), srv, c)
        | Inl e \<Rightarrow> Inl e
        | Inr (topic, mapper) \<Rightarrow>
            let msg = msg\<lparr>msg_Topic := topic\<rparr>;
                c1 = c\<lparr>cl_aliasMapper := mapper\<rparr>;
                (dup, c2) =
                  (if Qos pub = 2 then
                     let (exist, u) = Unack_Set (pub_PacketID pub) (cl_unackStore c1) in (exist, c1\<lparr>cl_unackStore := u\<rparr>)
                   else (False, c1));
                srv1 = publish_retain pub msg srv in
            if dup then Inr (None, srv1, publish_ack pub None False c2)
            else
              rbind (publish_deliver hooks Intn now pub msg srv1 c2) (\<lambda>(err, topicMatched, srv2, c3).
              Inr (None, srv2, publish_ack pub err topicMatched c3))))"

definition pubrelHandler :: "Pubrel \<Rightarrow> client \<Rightarrow> client" where
  "pubrelHandler pubrel c =
     client_write (PPubcomp (Pubrel_NewPubcomp pubrel))
       (c\<lparr>cl_unackStore := Unack_Remove (prel_PacketID pubrel) (cl_unackStore c)\<rparr>)"

definition pingreqHandler :: "Pingreq \<Rightarrow> client \<Rightarrow> client" where
  "pingreqHandler pingreq c = client_write (PPingresp (Pingreq_NewPingresp pingreq)) c"

section \<open>Subscribe and unsubscribe\<close>

text \<open>The code answered for a topic before the store is asked, and whether the subscription is treated as shared.\<close>

definition subscribe_code :: "client \<Rightarrow> uint32 \<Rightarrow> Subscription \<Rightarrow> go_error option \<Rightarrow> byte" where
  "subscribe_code c subID sub err =
     (let code = sb_QoS sub;
          code =
            (if ss_version c = Version5 then
               let code = (if sb_ShareName sub \<noteq> [] \<and> \<not> o_SharedSubAvailable (cl_opts c) then SharedSubNotSupported else code);
                   code = (if \<not> o_SubIDAvailable (cl_opts c) \<and> subID \<noteq> 0 then SubIDNotSupported else code) in
               if \<not> o_WildcardSubAvailable (cl_opts c) \<and> (0x2B \<in> set (sb_TopicFilter sub) \<or> 0x23 \<in> set (sb_TopicFilter sub))
               then WildcardSubNotSupported else code
             else code) in
      case converError err of
        None \<Rightarrow> code
      | Some e \<Rightarrow> if IsVersion3X (ss_version c) then SubscribeFailure else ce_Code e)"

definition retained_elem :: "int \<Rightarrow> Subscription \<Rightarrow> Message \<Rightarrow> Elem" where
  "retained_elem now sub v =
     (let v = (if sb_QoS sub < msg_QoS v then v\<lparr>msg_QoS := sb_QoS sub\<rparr> else v);
          v = v\<lparr>msg_Dup := False\<rparr>;
          v = (if \<not> sb_RetainAsPublished sub then v\<lparr>msg_Retained := False\<rparr> else v) in
      \<lparr>At = now,
       Expiry = (if msg_MessageExpiry v \<noteq> 0 then Some (now + Second * uint (msg_MessageExpiry v)) else None),
       Elem_msg = QPublish v\<rparr>)"

fun queue_add_all :: "int \<Rightarrow> Elem list \<Rightarrow> server \<Rightarrow> client \<Rightarrow> (server \<times> client) res" where
  "queue_add_all now [] srv c = Inr (srv, c)"
| "queue_add_all now (e # es) srv c =
     rbind (with_queue (queue_add now e) srv c) (\<lambda>(srv', c'). queue_add_all now es srv' c')"

text \<open>The body of the loop over the topics; \<open>now\<close> was read at the start of the handler.\<close>

definition subscribe_topic ::
    "int \<Rightarrow> uint32 \<Rightarrow> Subscriptions \<Rightarrow> Topic \<Rightarrow> server \<Rightarrow> client \<Rightarrow> (byte \<times> server \<times> client) res" where
  "subscribe_topic now subID subs v srv c =
     (case subs (Name v) of
        None \<Rightarrow> Inl Panic
      | Some (sub, err) \<Rightarrow>
          let isShared = (ss_version c = Version5 \<and> sb_ShareName sub \<noteq> []);
              code = subscribe_code c subID sub err in
          if code < SubscribeFailure then
            rbind (SubscribeLocked (client_ID c) [sub] (subscriptionsDB srv)) (\<lambda>(subRs, db).
            let srv' = srv\<lparr>subscriptionsDB := db\<rparr>;
                (sub', existed) = hd subRs in
            if \<not> isShared \<and> (\<not> existed \<and> RetainHandling v \<noteq> 2 \<or> RetainHandling v = 0) then
              rbind (queue_add_all now (map (retained_elem now sub') (GetMatchedMessages (retainedDB srv') (sb_TopicFilter sub))) srv' c)
                (\<lambda>(srv'', c'). Inr (code, srv'', c'))
            else Inr (code, srv', c))
          else Inr (code, srv, c))"

fun subscribe_topics ::
    "int \<Rightarrow> uint32 \<Rightarrow> Subscriptions \<Rightarrow> Topic list \<Rightarrow> server \<Rightarrow> client \<Rightarrow> (byte list \<times> server \<times> client) res" where
  "subscribe_topics now subID subs [] srv c = Inr ([], srv, c)"
| "subscribe_topics now subID subs (v # vs) srv c =
     rbind (subscribe_topic now subID subs v srv c) (\<lambda>(code, srv', c').
     rbind (subscribe_topics now subID subs vs srv' c') (\<lambda>(payload, srv'', c'').
     Inr (code # payload, srv'', c'')))"

definition subscribe_request :: "Topic list \<Rightarrow> uint32 \<Rightarrow> Subscriptions" where
  "subscribe_request topics subID = fold (\<lambda>v m. m(Name v \<mapsto> (FromTopic v subID, None))) topics Map.empty"

definition subscribe_ID :: "Subscribe \<Rightarrow> client \<Rightarrow> uint32 res" where
  "subscribe_ID sub c =
     (if ss_version c = Version5 \<and> o_SubIDAvailable (cl_opts c) then
        (case sub_Properties sub of
           None \<Rightarrow> Inl Panic
         | Some ppt \<Rightarrow> Inr (case SubscriptionIdentifier ppt of [] \<Rightarrow> 0 | i # _ \<Rightarrow> i))
      else Inr 0)"

definition subscribe_hook :: "Hooks \<Rightarrow> Subscribe \<Rightarrow> uint32 \<Rightarrow> client \<Rightarrow> Subscriptions \<times> go_error option" where
  "subscribe_hook hooks sub subID c =
     (case OnSubscribe hooks of
        None \<Rightarrow> (subscribe_request (sub_Topics sub) subID, None)
      | Some f \<Rightarrow> f c sub (subscribe_request (sub_Topics sub) subID) subID)"

definition subscribeHandler :: "Hooks \<Rightarrow> int \<Rightarrow> Subscribe \<Rightarrow> server \<Rightarrow> client \<Rightarrow> (codes_Error option \<times> server \<times> client) res" where
  "subscribeHandler hooks now sub srv c =
     rbind (subscribe_ID sub c) (\<lambda>subID.
     if ss_version c = Version5 \<and> \<not> cfg_SubscriptionIDAvailable (cl_config c) \<and> subID \<noteq> 0
     then Inr (Some (codes_NewError SubIDNotSupported), srv, c)
     else
       let suback = \<lparr>sack_Version = sub_Version sub, sack_FixHeader = None, sack_PacketID = sub_PacketID sub,
             sack_Payload = replicate (length (sub_Topics sub)) 0, sack_Properties = Some Properties_zero\<rparr>;
           (subs, err) = subscribe_hook hooks sub subID c in
       case converError err of
         Some ce \<Rightarrow>
           Inr (None, srv, client_write (PSuback (suback\<lparr>sack_Properties := getErrorProperties c ce,
             sack_Payload := replicate (length (sub_Topics sub))
               (if IsVersion3X (ss_version c) then SubscribeFailure else ce_Code ce)\<rparr>)) c)
       | None \<Rightarrow>
           rbind (subscribe_topics now subID subs (sub_Topics sub) srv c) (\<lambda>(payload, srv', c').
           Inr (None, srv', client_write (PSuback (suback\<lparr>sack_Payload := payload\<rparr>)) c')))"

definition unsubscribe_topic :: "Unsubs \<Rightarrow> bytes \<Rightarrow> server \<Rightarrow> client \<Rightarrow> (byte \<times> server) res" where
  "unsubscribe_topic unsubs v srv c =
     (case unsubs v of
        None \<Rightarrow> Inl Panic
      | Some (topicName, err) \<Rightarrow>
          let code = (case converError err of Some ce \<Rightarrow> ce_Code ce | None \<Rightarrow> Success) in
          if code = Success then
            rbind (UnsubscribeLocked (client_ID c) [topicName] (subscriptionsDB srv)) (\<lambda>db.
            Inr (code, srv\<lparr>subscriptionsDB := db\<rparr>))
          else Inr (code, srv))"

fun unsubscribe_topics :: "Unsubs \<Rightarrow> bytes list \<Rightarrow> server \<Rightarrow> client \<Rightarrow> (byte list \<times> server) res" where
  "unsubscribe_topics unsubs [] srv c = Inr ([], srv)"
| "unsubscribe_topics unsubs (v # vs) srv c =
     rbind (unsubscribe_topic unsubs v srv c) (\<lambda>(code, srv').
     rbind (unsubscribe_topics unsubs vs srv' c) (\<lambda>(cs, srv''). Inr (code # cs, srv'')))"

definition unsubscribe_request :: "bytes list \<Rightarrow> Unsubs" where
  "unsubscribe_request topics = fold (\<lambda>v m. m(v \<mapsto> (v, None))) topics Map.empty"

definition unsubscribe_hook :: "Hooks \<Rightarrow> Unsubscribe \<Rightarrow> client \<Rightarrow> Unsubs \<times> go_error option" where
  "unsubscribe_hook hooks unSub c =
     (case OnUnsubscribe hooks of
        None \<Rightarrow> (unsubscribe_request (uns_Topics unSub), None)
      | Some f \<Rightarrow> f c unSub (unsubscribe_request (uns_Topics unSub)))"

definition unsubscribeHandler :: "Hooks \<Rightarrow> Unsubscribe \<Rightarrow> server \<Rightarrow> client \<Rightarrow> (server \<times> client) res" where
  "unsubscribeHandler hooks unSub srv c =
     (let unSuback = \<lparr>sack_Version = uns_Version unSub, sack_FixHeader = None, sack_PacketID = uns_PacketID unSub,
            sack_Payload = [], sack_Properties = Some Properties_zero\<rparr>;
          answer = (\<lambda>cs ppt. client_write (PUnsuback (unSuback\<lparr>
            sack_Payload := (if ss_version c = Version5 then cs else []), sack_Properties := ppt\<rparr>)) c);
          (unsubs, err) = unsubscribe_hook hooks unSub c in
      case converError err of
        Some ce \<Rightarrow> Inr (srv, answer (replicate (length (uns_Topics unSub)) (ce_Code ce)) (getErrorProperties c ce))
      | None \<Rightarrow>
          rbind (unsubscribe_topics unsubs (uns_Topics unSub) srv c) (\<lambda>(cs, srv').
          Inr (srv', answer cs (Some Properties_zero))))"

section \<open>Re-authentication and disconnect\<close>

definition reAuthHandler :: "Hooks \<Rightarrow> Auth \<Rightarrow> client \<Rightarrow> (codes_Error option \<times> client) res" where
  "reAuthHandler hooks auth c =
     (case OnReAuth hooks of
        None \<Rightarrow> Inr (Some (codes_NewError ProtocolError), c)
      | Some f \<Rightarrow>
          let (resp, err) = f c auth in
          (case converError err of
             Some ce \<Rightarrow> Inr (Some ce, c)
           | None \<Rightarrow>
               (case resp of
                  None \<Rightarrow> Inl Panic
                | Some resp \<Rightarrow>
                    Inr (None, client_write (PAuth \<lparr>auth_FixHeader = None,
                      auth_Code = (if Continue resp then ContinueAuthentication else Success),
                      auth_Properties = Some (Properties_zero\<lparr>AuthMethod := o_AuthMethod (cl_opts c),
                        AuthData := ar_AuthData resp\<rparr>)\<rparr>) c))))"

text \<open>A session that is not in the store is the nil pointer.\<close>

definition disconnectHandler :: "Disconnect \<Rightarrow> SessionStore \<Rightarrow> client \<Rightarrow> (codes_Error option \<times> SessionStore \<times> client) res" where
  "disconnectHandler dis store c =
     (let done = (\<lambda>store. Inr (None, store, c\<lparr>cl_disconnect := Some dis, cl_cleanWillFlag := True\<rparr>)) in
      if ss_version c = Version5 then
        (case dis_Properties dis of
           None \<Rightarrow> Inl Panic
         | Some ppt \<Rightarrow>
             let disExpiry = convertUint32 (SessionExpiryInterval ppt) 0 in
             (case Session_Get (client_ID c) store of
                None \<Rightarrow> Inl Panic
              | Some sess \<Rightarrow>
                  if ExpiryInterval sess = 0 \<and> disExpiry \<noteq> 0 then Inr (Some (codes_NewError ProtocolError), store, c)
                  else done (if disExpiry \<noteq> 0 then SetSessionExpiry (ses_ClientID sess) disExpiry store else store)))
      else done store)"

section \<open>The loop over the packets received\<close>

text \<open>
  What happens after a packet: the loop goes on, or it ends.  The error of a handler ends the loop and is
  the error the connection is closed with.  \<^verbatim>\<open>Disconnect\<close> and a refused \<^verbatim>\<open>Auth\<close> return at once, without
  their error; a packet the broker does not expect sets the error and the loop goes on.
\<close>

datatype read_next = Go_on "go_error option" | Stop "go_error option"

definition handled :: "go_error option \<Rightarrow> codes_Error option \<Rightarrow> read_next" where
  "handled err codeErr = (case codeErr of None \<Rightarrow> Go_on err | Some e \<Rightarrow> Stop (Some (CodesError e)))"

type_synonym broker_state = "server \<times> SessionStore \<times> client"

fun readHandle_switch ::
    "Hooks \<Rightarrow> (bytes \<Rightarrow> nat \<Rightarrow> nat) \<Rightarrow> int \<Rightarrow> go_error option \<Rightarrow> Packet \<Rightarrow> broker_state \<Rightarrow> (read_next \<times> broker_state) res" where
  "readHandle_switch hooks Intn now err (PSubscribe p) (srv, store, c) =
     rbind (subscribeHandler hooks now p srv c) (\<lambda>(e, srv', c'). Inr (handled err e, srv', store, c'))"
| "readHandle_switch hooks Intn now err (PPublish p) (srv, store, c) =
     rbind (publishHandler hooks Intn now p srv c) (\<lambda>(e, srv', c'). Inr (handled err e, srv', store, c'))"
| "readHandle_switch hooks Intn now err (PPuback p) (srv, store, c) =
     rbind (with_queue (pubackHandler p) srv c) (\<lambda>(srv', c'). Inr (Go_on err, srv', store, c'))"
| "readHandle_switch hooks Intn now err (PPubrel p) (srv, store, c) = Inr (Go_on err, srv, store, pubrelHandler p c)"
| "readHandle_switch hooks Intn now err (PPubrec p) (srv, store, c) =
     rbind (with_queue (pubrecHandler now p) srv c) (\<lambda>(srv', c'). Inr (Go_on err, srv', store, c'))"
| "readHandle_switch hooks Intn now err (PPubcomp p) (srv, store, c) =
     rbind (with_queue (pubcompHandler p) srv c) (\<lambda>(srv', c'). Inr (Go_on err, srv', store, c'))"
| "readHandle_switch hooks Intn now err (PPingreq p) (srv, store, c) = Inr (Go_on err, srv, store, pingreqHandler p c)"
| "readHandle_switch hooks Intn now err (PUnsubscribe p) (srv, store, c) =
     rbind (unsubscribeHandler hooks p srv c) (\<lambda>(srv', c'). Inr (Go_on err, srv', store, c'))"
| "readHandle_switch hooks Intn now err (PDisconnect p) (srv, store, c) =
     rbind (disconnectHandler p store c) (\<lambda>(_, store', c'). Inr (Stop err, srv, store', c'))"
| "readHandle_switch hooks Intn now err (PAuth auth) (srv, store, c) =
     (if ss_version c \<noteq> Version5 then Inr (Stop (Some (CodesError (codes_NewError ProtocolError))), srv, store, c)
      else
        (case auth_Properties auth of
           None \<Rightarrow> Inl Panic
         | Some ppt \<Rightarrow>
             if nonempty (o_AuthMethod (cl_opts c)) \<noteq> nonempty (AuthData ppt) then Inr (Stop err, srv, store, c)
             else rbind (reAuthHandler hooks auth c) (\<lambda>(e, c'). Inr (handled err e, srv, store, c'))))"
| "readHandle_switch hooks Intn now err _ st = Inr (Go_on (Some (CodesError (codes_NewError ProtocolError))), st)"

definition readHandle_packet ::
    "Hooks \<Rightarrow> (bytes \<Rightarrow> nat \<Rightarrow> nat) \<Rightarrow> int \<Rightarrow> go_error option \<Rightarrow> Packet \<Rightarrow> broker_state \<Rightarrow> (read_next \<times> broker_state) res" where
  "readHandle_packet hooks Intn now err packet st =
     (let (srv, store, c) = st in
      if ss_version c = Version5 \<and> o_ServerMaxPacketSize (cl_opts c) \<noteq> 0 \<and> o_ServerMaxPacketSize (cl_opts c) < TotalBytes packet
      then Inr (Stop (Some (CodesError (codes_NewError PacketTooLarge))), st)
      else readHandle_switch hooks Intn now err packet st)"

text \<open>
  The loop over the packets of \<^verbatim>\<open>client.in\<close>, each with the time it is handled at, and \<^verbatim>\<open>setError\<close> at its end.  A panic,
  which the code recovers into an error that closes the connection, stays a value \<open>Inl\<close>.
\<close>

fun readHandle ::
    "Hooks \<Rightarrow> (bytes \<Rightarrow> nat \<Rightarrow> nat) \<Rightarrow> go_error option \<Rightarrow> (int \<times> Packet) list \<Rightarrow> broker_state \<Rightarrow> broker_state res" where
  "readHandle hooks Intn err [] (srv, store, c) = Inr (srv, store, setError err c)"
| "readHandle hooks Intn err ((now, p) # ps) st =
     rbind (readHandle_packet hooks Intn now err p st) (\<lambda>(next, (srv', store', c')).
     case next of
       Go_on err' \<Rightarrow> readHandle hooks Intn err' ps (srv', store', c')
     | Stop err' \<Rightarrow> Inr (srv', store', setError err' c'))"

section \<open>What the handlers leave alone\<close>

text \<open>The sending side changes only the fields of the session, so it keeps the rest of the client's record.\<close>

lemma same_rest:
  assumes "session.more c' = session.more c"
  shows "cl_unackStore c' = cl_unackStore c" "cl_opts c' = cl_opts c" "cl_closed c' = cl_closed c"
    "cl_serverReceiveMaximumQuota c' = cl_serverReceiveMaximumQuota c"
  using assms by (cases c; cases c'; simp)+

lemma client_write_rest [simp]: "session.more (client_write p c) = session.more c"
  by (cases c) (simp add: client_write_def)

lemma pl_release_rest: "pl_release i c = Inr c' \<Longrightarrow> session.more c' = session.more c"
  by (cases c) (auto simp: pl_release_def rbind_eq_Inr_conv)

lemma queueNotifier_notify_rest: "queueNotifier_notify n c = Inr c' \<Longrightarrow> session.more c' = session.more c"
  by (cases n) (auto dest!: pl_release_rest split: if_splits)

lemma notify_all_rest: "notify_all ns c = Inr c' \<Longrightarrow> session.more c' = session.more c"
  by (induction ns arbitrary: c) (auto simp: rbind_eq_Inr_conv dest!: queueNotifier_notify_rest)

lemma queue_add_rest: "queue_add now e c = Inr c' \<Longrightarrow> session.more c' = session.more c"
  by (auto simp: queue_add_def rbind_eq_Inr_conv dest!: notify_all_rest)

lemma queue_remove_rest: "queue_remove i c = Inr c' \<Longrightarrow> session.more c' = session.more c"
  by (auto simp: queue_remove_def split: prod.splits dest!: notify_all_rest)

lemma remove_release_rest: "rbind (queue_remove i c) (pl_release i) = Inr c' \<Longrightarrow> session.more c' = session.more c"
  by (auto simp: rbind_eq_Inr_conv dest!: queue_remove_rest pl_release_rest)

lemma pubackHandler_rest: "pubackHandler p c = Inr c' \<Longrightarrow> session.more c' = session.more c"
  unfolding pubackHandler_def by (rule remove_release_rest)

lemma pubcompHandler_rest: "pubcompHandler p c = Inr c' \<Longrightarrow> session.more c' = session.more c"
  unfolding pubcompHandler_def by (rule remove_release_rest)

lemma pubrecHandler_rest: "pubrecHandler now p c = Inr c' \<Longrightarrow> session.more c' = session.more c"
  by (auto simp: pubrecHandler_def Let_def split: if_splits prod.splits dest: remove_release_rest)

lemmas queue_handlers_rest = queue_add_rest pubackHandler_rest pubcompHandler_rest pubrecHandler_rest

lemma with_queue_rest:
  assumes "with_queue f srv c = Inr (srv', c')" and "\<And>c c'. f c = Inr c' \<Longrightarrow> session.more c' = session.more c"
  shows "session.more c' = session.more c"
proof (cases "queueStore srv (client_ID c)")
  case None
  then show ?thesis using assms by (auto simp: with_queue_def rbind_eq_Inr_conv)
next
  case (Some q)
  then have "f (c\<lparr>ss_queue := q\<rparr>) = Inr c'" using assms(1) by (auto simp: with_queue_def rbind_eq_Inr_conv)
  from assms(2) [OF this] show ?thesis by simp
qed

lemma queue_add_all_rest: "queue_add_all now es srv c = Inr (srv', c') \<Longrightarrow> session.more c' = session.more c"
proof (induction es arbitrary: srv c)
  case (Cons e es)
  then obtain srv1 c1 where "with_queue (queue_add now e) srv c = Inr (srv1, c1)"
    and r: "queue_add_all now es srv1 c1 = Inr (srv', c')" by (auto simp: rbind_eq_Inr_conv)
  from with_queue_rest [OF this(1) queue_add_rest] Cons.IH [OF r] show ?case by simp
qed simp

lemma subscribe_topic_rest: "subscribe_topic now i subs v srv c = Inr (code, srv', c') \<Longrightarrow> session.more c' = session.more c"
  by (auto simp: subscribe_topic_def Let_def rbind_eq_Inr_conv case_prod_unfold split: option.splits if_splits
      dest!: queue_add_all_rest)

lemma subscribe_topics_rest:
  "subscribe_topics now i subs vs srv c = Inr (payload, srv', c') \<Longrightarrow> session.more c' = session.more c"
  by (induction vs arbitrary: srv c payload) (auto simp: rbind_eq_Inr_conv dest!: subscribe_topic_rest)

lemma subscribeHandler_rest:
  "subscribeHandler hooks now p srv c = Inr (e, srv', c') \<Longrightarrow> session.more c' = session.more c"
  by (auto simp: subscribeHandler_def Let_def rbind_eq_Inr_conv case_prod_unfold split: option.splits if_splits
      dest!: subscribe_topics_rest)

lemma unsubscribeHandler_rest:
  "unsubscribeHandler hooks p srv c = Inr (srv', c') \<Longrightarrow> session.more c' = session.more c"
  by (auto simp: unsubscribeHandler_def Let_def rbind_eq_Inr_conv case_prod_unfold split: option.splits)

lemma reAuthHandler_rest: "reAuthHandler hooks p c = Inr (e, c') \<Longrightarrow> session.more c' = session.more c"
  by (auto simp: reAuthHandler_def Let_def case_prod_unfold split: option.splits)

lemma client_deliverMessage_rest:
  "client_deliverMessage Intn now msg opts srv c = Inr (b, srv', c') \<Longrightarrow> session.more c' = session.more c"
  by (auto simp: client_deliverMessage_def rbind_eq_Inr_conv case_prod_unfold dest!: notify_all_rest)

lemma publish_deliver_rest:
  "publish_deliver hooks Intn now pub msg srv c = Inr (err, b, srv', c') \<Longrightarrow> session.more c' = session.more c"
  by (auto simp: publish_deliver_def Let_def rbind_eq_Inr_conv case_prod_unfold split: option.splits dest!: client_deliverMessage_rest)

section \<open>QoS 2 publishes received\<close>

abbreviation unacked :: "client \<Rightarrow> uint16 set" where
  "unacked c \<equiv> unackpublish (cl_unackStore c)"

lemma unacked_write [simp]: "unacked (client_write p c) = unacked c"
  by (simp add: client_write_def)

lemma unacked_rest: "session.more c' = session.more c \<Longrightarrow> unacked c' = unacked c"
  by (drule same_rest(1)) simp

lemma publish_code_dup: "fst (publish_code None b c) < 0x80"
  by (simp add: publish_code_def NotMatchingSubscribers_def)

lemma unacked_publish_ack:
  "unacked (publish_ack pub err b c) =
    (if Qos pub = 2 \<and> 0x80 \<le> fst (publish_code err b c) then unacked c - {pub_PacketID pub} else unacked c)"
  by (simp add: publish_ack_def Let_def case_prod_unfold Unack_Remove_def UnspecifiedError_def)

text \<open>The three ways through the handler of a publish: refused, a repeated QoS 2 publish, and a new one.\<close>

definition publish_msg :: "Publish \<Rightarrow> client \<Rightarrow> Message \<Rightarrow> bytes list \<Rightarrow> bool" where
  "publish_msg pub c msg mapper \<longleftrightarrow>
     (\<exists>m topic. MessageFromPublish pub = Inr m \<and> msg = m\<lparr>msg_Topic := topic\<rparr>
       \<and> publishHandler_alias (ss_version c) (o_ServerTopicAliasMax (cl_opts c)) (cl_aliasMapper c) pub = Inr (topic, mapper))"

lemma publishHandler_cases:
  assumes "publishHandler hooks Intn now pub srv c = Inr (e, srv', c')"
  obtains (refused) ce where "e = Some ce" and "srv' = srv" and "c' = c"
  | (repeated) msg mapper where "e = None" and "publish_msg pub c msg mapper" and "Qos pub = 2" and "pub_PacketID pub \<in> unacked c"
      and "srv' = publish_retain pub msg srv" and "c' = publish_ack pub None False (c\<lparr>cl_aliasMapper := mapper\<rparr>)"
  | (new) msg mapper c2 err b c3 where "e = None" and "publish_msg pub c msg mapper"
      and "Qos pub = 2 \<Longrightarrow> pub_PacketID pub \<notin> unacked c"
      and "unacked c2 = (if Qos pub = 2 then insert (pub_PacketID pub) (unacked c) else unacked c)"
      and "publish_deliver hooks Intn now pub msg (publish_retain pub msg srv) c2 = Inr (err, b, srv', c3)"
      and "c' = publish_ack pub err b c3"
proof (cases "\<not> o_RetainAvailable (cl_opts c) \<and> Retain pub")
  case True
  then show thesis using assms by (intro refused) (auto simp: publishHandler_def)
next
  case False
  with assms obtain m where m: "MessageFromPublish pub = Inr m" by (auto simp: publishHandler_def rbind_eq_Inr_conv)
  let ?a = "publishHandler_alias (ss_version c) (o_ServerTopicAliasMax (cl_opts c)) (cl_aliasMapper c) pub"
  show thesis
  proof (cases ?a)
    case (Inl err)
    then show thesis using assms False m by (cases err) (auto simp: publishHandler_def intro: refused)
  next
    case (Inr tm)
    obtain topic mapper where tm: "tm = (topic, mapper)" by fastforce
    let ?m = "m\<lparr>msg_Topic := topic\<rparr>" and ?c = "c\<lparr>cl_aliasMapper := mapper\<rparr>"
    have pm: "publish_msg pub c ?m mapper" using m Inr tm by (auto simp: publish_msg_def)
    show thesis
    proof (cases "Qos pub = 2 \<and> pub_PacketID pub \<in> unacked c")
      case True
      then show thesis using assms False m Inr tm pm by (intro repeated) (auto simp: publishHandler_def Let_def Unack_Set_def)
    next
      case fresh: False
      let ?c2 = "if Qos pub = 2 then ?c\<lparr>cl_unackStore := snd (Unack_Set (pub_PacketID pub) (cl_unackStore c))\<rparr> else ?c"
      have "rbind (publish_deliver hooks Intn now pub ?m (publish_retain pub ?m srv) ?c2)
          (\<lambda>(err, topicMatched, srv2, c3). Inr (None, srv2, publish_ack pub err topicMatched c3)) = Inr (e, srv', c')"
        using assms False fresh m Inr tm by (auto simp: publishHandler_def Let_def Unack_Set_def split: if_splits)
      then obtain err b c3 where d: "publish_deliver hooks Intn now pub ?m (publish_retain pub ?m srv) ?c2 = Inr (err, b, srv', c3)"
        and e: "e = None" and c': "c' = publish_ack pub err b c3"
        by (auto simp: rbind_eq_Inr_conv simp del: if_split)
      show thesis using fresh by (intro new [OF e pm _ _ d c']) (auto simp: Unack_Set_def)
    qed
  qed
qed

lemma publishHandler_keeps:
  assumes "publishHandler hooks Intn now pub srv c = Inr (e, srv', c')" and "i \<in> unacked c"
  shows "i \<in> unacked c'"
  using assms(1)
proof (cases rule: publishHandler_cases)
  case (repeated msg mapper)
  then show ?thesis
    using assms(2) publish_code_dup [of False "c\<lparr>cl_aliasMapper := mapper\<rparr>"] by (simp add: unacked_publish_ack not_le [symmetric])
next
  case (new msg mapper c2 err b c3)
  then have "unacked c3 = unacked c2" by (intro unacked_rest publish_deliver_rest)
  then show ?thesis using new assms(2) by (auto simp: unacked_publish_ack)
qed (use assms(2) in simp)

lemma readHandle_packet_keeps:
  assumes "readHandle_packet hooks Intn now err p (srv, store, c) = Inr (n, srv', store', c')" and "i \<in> unacked c"
    and "\<And>r. p = PPubrel r \<Longrightarrow> prel_PacketID r \<noteq> i"
  shows "i \<in> unacked c'"
proof -
  consider "c' = c" | "readHandle_switch hooks Intn now err p (srv, store, c) = Inr (n, srv', store', c')"
    using assms(1) by (auto simp: readHandle_packet_def split: if_splits)
  then show ?thesis
  proof cases
    case 2
    show ?thesis
    proof (cases p)
      case (PPublish x)
      then show ?thesis using 2 assms(2) by (auto simp: rbind_eq_Inr_conv elim: publishHandler_keeps)
    next
      case (PPubrel x)
      then show ?thesis using 2 assms(2,3) by (auto simp: pubrelHandler_def Unack_Remove_def)
    next
      case (PSubscribe x)
      then show ?thesis using 2 assms(2) by (auto simp: rbind_eq_Inr_conv dest!: subscribeHandler_rest unacked_rest)
    next
      case (PUnsubscribe x)
      then show ?thesis using 2 assms(2) by (auto simp: rbind_eq_Inr_conv dest!: unsubscribeHandler_rest unacked_rest)
    next
      case (PPuback x)
      then show ?thesis using 2 assms(2)
        by (auto simp: rbind_eq_Inr_conv dest!: with_queue_rest [OF _ pubackHandler_rest] unacked_rest)
    next
      case (PPubrec x)
      then show ?thesis using 2 assms(2)
        by (auto simp: rbind_eq_Inr_conv dest!: with_queue_rest [OF _ pubrecHandler_rest] unacked_rest)
    next
      case (PPubcomp x)
      then show ?thesis using 2 assms(2)
        by (auto simp: rbind_eq_Inr_conv dest!: with_queue_rest [OF _ pubcompHandler_rest] unacked_rest)
    next
      case (PPingreq x)
      then show ?thesis using 2 assms(2) by (auto simp: pingreqHandler_def)
    next
      case (PDisconnect x)
      then show ?thesis using 2 assms(2)
        by (auto simp: rbind_eq_Inr_conv disconnectHandler_def Let_def split: if_splits option.splits)
    next
      case (PAuth x)
      then show ?thesis using 2 assms(2)
        by (auto simp: rbind_eq_Inr_conv split: if_splits option.splits dest!: reAuthHandler_rest unacked_rest)
    qed (use 2 assms(2) in auto)
  qed (use assms(2) in simp)
qed

text \<open>
  A stretch of the life of a connection: packets handled one after the other, and in between whatever the other
  goroutines and clients do; they do not touch this client's set of unacknowledged identifiers.
\<close>

inductive read_trace :: "Hooks \<Rightarrow> (bytes \<Rightarrow> nat \<Rightarrow> nat) \<Rightarrow> Packet list \<Rightarrow> broker_state \<Rightarrow> broker_state \<Rightarrow> bool"
  for hooks :: Hooks and Intn :: "bytes \<Rightarrow> nat \<Rightarrow> nat" where
  here: "read_trace hooks Intn [] st st"
| packet: "readHandle_packet hooks Intn now err p st = Inr (Go_on err', st') \<Longrightarrow> read_trace hooks Intn ps st' st''
    \<Longrightarrow> read_trace hooks Intn (p # ps) st st''"
| others: "cl_unackStore c' = cl_unackStore c \<Longrightarrow> read_trace hooks Intn ps (srv', store', c') st''
    \<Longrightarrow> read_trace hooks Intn ps (srv, store, c) st''"

lemma read_trace_keeps:
  assumes "read_trace hooks Intn ps st st'" and "i \<in> unacked (snd (snd st))"
    and "\<forall>r. PPubrel r \<in> set ps \<longrightarrow> prel_PacketID r \<noteq> i"
  shows "i \<in> unacked (snd (snd st'))"
  using assms
proof (induction rule: read_trace.induct)
  case (packet now err p st err' st' ps st'')
  obtain srv store c where st: "st = (srv, store, c)" by (cases st)
  obtain srv' store' c' where st': "st' = (srv', store', c')" by (cases st')
  have "i \<in> unacked c'"
    using readHandle_packet_keeps [OF packet.hyps(1) [unfolded st st']] packet.prems by (auto simp: st)
  then show ?case using packet.IH packet.prems by (simp add: st')
qed auto

lemma publishHandler_received:
  assumes "publishHandler hooks Intn now pub srv c = Inr (None, srv', c')" and "Qos pub = 2"
    and "ss_out c' = out @ [PPubrec a]" and "ack_Code a < 0x80"
  shows "pub_PacketID pub \<in> unacked c'"
  using assms(1)
proof (cases rule: publishHandler_cases)
  case (repeated msg mapper)
  then show ?thesis
    using publish_code_dup [of False "c\<lparr>cl_aliasMapper := mapper\<rparr>"] by (simp add: unacked_publish_ack not_le [symmetric])
next
  case (new msg mapper c2 err b c3)
  then have "unacked c3 = unacked c2" by (intro unacked_rest publish_deliver_rest)
  moreover have "a = Publish_NewPubrec pub (fst (publish_code err b c3)) (snd (publish_code err b c3))"
    using new(6) assms(2,3) by (auto simp: publish_ack_def client_write_def Let_def case_prod_unfold split: if_splits)
  ultimately show ?thesis using new assms(2,4)
    by (simp add: unacked_publish_ack Publish_NewPubrec_def not_le [symmetric])
qed simp

lemma publishHandler_repeated:
  assumes "publishHandler hooks Intn now pub srv c = Inr (None, srv', c')" and "Qos pub = 2"
    and "pub_PacketID pub \<in> unacked c"
  shows "queueStore srv' = queueStore srv \<and> subscriptionsDB srv' = subscriptionsDB srv
    \<and> (\<exists>a. ss_out c' = ss_out c @ [PPubrec a] \<and> ack_PacketID a = pub_PacketID pub \<and> ack_Code a < 0x80)"
  using assms(1)
proof (cases rule: publishHandler_cases)
  case (repeated msg mapper)
  then show ?thesis using assms(2) publish_code_dup [of False "c\<lparr>cl_aliasMapper := mapper\<rparr>"]
    by (auto simp: publish_retain_def publish_ack_def client_write_def Let_def case_prod_unfold Publish_NewPubrec_def)
qed (use assms in simp_all)

text \<open>
  C6. Exactly once for QoS 2 on the receiving side.  Once a QoS 2 publish has been answered by a PUBREC without an error
  code, and until the PUBREL of its identifier is handled, a publish with that identifier that the broker handles
  changes no queue; it is answered by a PUBREC again.  Between the two, the client may send any other packets
  and the other goroutines of the broker may do anything that is not about this client's identifiers.
\<close>

theorem qos2_exactly_once:
  assumes "publishHandler hooks Intn now pub srv0 c0 = Inr (None, srv1, c1)" and "Qos pub = 2"
    and "ss_out c1 = out @ [PPubrec a]" and "ack_Code a < 0x80"
    and "read_trace hooks Intn ps (srv1, store1, c1) (srv2, store2, c2)"
    and "\<forall>r. PPubrel r \<in> set ps \<longrightarrow> prel_PacketID r \<noteq> pub_PacketID pub"
    and "publishHandler hooks Intn now' pub' srv2 c2 = Inr (None, srv3, c3)" and "Qos pub' = 2"
    and "pub_PacketID pub' = pub_PacketID pub"
  shows "queueStore srv3 = queueStore srv2 \<and> subscriptionsDB srv3 = subscriptionsDB srv2
    \<and> (\<exists>a. ss_out c3 = ss_out c2 @ [PPubrec a] \<and> ack_PacketID a = pub_PacketID pub \<and> ack_Code a < 0x80)"
proof -
  have "pub_PacketID pub \<in> unacked c1" using publishHandler_received assms(1-4) by blast
  then have "pub_PacketID pub \<in> unacked c2" using read_trace_keeps [OF assms(5)] assms(6) by simp
  then show ?thesis using publishHandler_repeated [OF assms(7,8)] assms(9) by simp
qed

definition sample_options :: ClientOptions where
  "sample_options = \<lparr>o_ClientID = [0x31], o_Username = [], o_KeepAlive = 60, o_SessionExpiry = 0, o_ReceiveMax = 2,
     o_ClientMaxPacketSize = 0, o_ServerMaxPacketSize = 0, o_ClientTopicAliasMax = 0, o_ServerTopicAliasMax = 0,
     o_RequestProblemInfo = False, o_UserProperties = [], o_RetainAvailable = True, o_WildcardSubAvailable = True,
     o_SubIDAvailable = True, o_SharedSubAvailable = True, o_AuthMethod = None\<rparr>"

definition sample_client :: client where
  "sample_client = \<lparr>ss_version = Version5, ss_MaxInflight = 5, ss_connected = True, ss_queue = sample_queue,
     ss_pl = \<lparr>used = 0, limit = 5, exit = False, lockedPid = \<lparr>vals = [], bm_size = 0\<rparr>, freePid = 1\<rparr>, ss_out = [], ss_notes = [],
     cl_opts = sample_options, cl_config = DefaultMQTTConfig, cl_aliasMapper = [], cl_serverReceiveMaximumQuota = 2,
     cl_unackStore = Unack_New [0x31], cl_disconnect = None, cl_cleanWillFlag = False,
     cl_forceRemoveSession = False, cl_closed = False, cl_err = None\<rparr>"

definition no_hooks :: Hooks where
  "no_hooks = \<lparr>OnMsgArrived = None, OnSubscribe = None, OnUnsubscribe = None, OnReAuth = None\<rparr>"

definition sample_publish :: Publish where
  "sample_publish = \<lparr>pub_Version = Version5, pub_FixHeader = None, Dup = False, Qos = 2, Retain = False,
     TopicName = [0x61, 0x2F, 0x62], pub_PacketID = 9, Payload = [1], pub_Properties = Some Properties_zero\<rparr>"

fun twice :: "(codes_Error option \<times> server \<times> client) res \<Rightarrow> bool" where
  "twice (Inr (None, srv, c)) = (map (\<lambda>p. case p of PPubrec a \<Rightarrow> ack_Code a | _ \<Rightarrow> 0xFF) (ss_out c) = [0]
     \<and> (case publishHandler no_hooks (\<lambda>_ _. 0) 0 sample_publish srv c of Inr (None, _, _) \<Rightarrow> True | _ \<Rightarrow> False))"
| "twice _ = False"

lemma twice_sample: "twice (publishHandler no_hooks (\<lambda>_ _. 0) 0 sample_publish (sample_server OnlyOnce) sample_client)"
  by code_simp

theorem qos2_exactly_once_witness:
  "\<exists>srv1 c1 srv2 c2. publishHandler no_hooks (\<lambda>_ _. 0) 0 sample_publish (sample_server OnlyOnce) sample_client = Inr (None, srv1, c1)
    \<and> publishHandler no_hooks (\<lambda>_ _. 0) 0 sample_publish srv1 c1 = Inr (None, srv2, c2) \<and> queueStore srv2 = queueStore srv1"
proof -
  let ?h = "publishHandler no_hooks (\<lambda>_ _. 0) 0 sample_publish"
  obtain srv1 c1 where 1: "?h (sample_server OnlyOnce) sample_client = Inr (None, srv1, c1)"
    and o: "map (\<lambda>p. case p of PPubrec a \<Rightarrow> ack_Code a | _ \<Rightarrow> 0xFF) (ss_out c1) = [0]"
    and t: "case ?h srv1 c1 of Inr (None, _, _) \<Rightarrow> True | _ \<Rightarrow> False"
    using twice_sample by (elim twice.elims(2)) auto
  obtain srv2 c2 where 2: "?h srv1 c1 = Inr (None, srv2, c2)" using t by (auto split: sum.splits prod.splits option.splits)
  obtain p where p: "ss_out c1 = [p]" and k: "(case p of PPubrec a \<Rightarrow> ack_Code a | _ \<Rightarrow> 0xFF) = 0"
    using o by (auto simp: map_eq_Cons_conv)
  obtain a where "ss_out c1 = [] @ [PPubrec a]" and "ack_Code a < 0x80"
    using p k by (cases p) auto
  then have "queueStore srv2 = queueStore srv1"
    using qos2_exactly_once [OF 1 _ _ _ read_trace.here _ 2] by (simp add: sample_publish_def)
  with 1 2 show ?thesis by blast
qed

section \<open>The receive maximum of the broker\<close>

text \<open>
  The two loops of a connection as they touch the quota: \<^verbatim>\<open>readLoop\<close> reads a packet, \<^verbatim>\<open>writeLoop\<close> writes one.
\<close>

datatype wire_event = Read Packet | Wrote Packet

fun wire_run :: "wire_event list \<Rightarrow> client \<Rightarrow> codes_Error + client" where
  "wire_run [] c = Inr c"
| "wire_run (Read p # es) c = (case readLoop_packet p c of Inl e \<Rightarrow> Inl e | Inr c' \<Rightarrow> wire_run es c')"
| "wire_run (Wrote p # es) c = wire_run es (writeLoop_quota p c)"

text \<open>The specification counts the exchanges that are open: a QoS 1 or QoS 2 publish opens one, its last packet ends one.\<close>

fun opens :: "Packet \<Rightarrow> bool" where
  "opens (PPublish pub) = (0 < Qos pub)"
| "opens _ = False"

fun ends :: "Packet \<Rightarrow> bool" where
  "ends (PPuback _) = True"
| "ends (PPubcomp _) = True"
| "ends (PPubrec p) = (0x80 \<le> ack_Code p)"
| "ends _ = False"

fun open_exchanges :: "wire_event list \<Rightarrow> nat \<Rightarrow> nat" where
  "open_exchanges [] n = n"
| "open_exchanges (Read p # es) n = open_exchanges es (if opens p then Suc n else n)"
| "open_exchanges (Wrote p # es) n = open_exchanges es (if ends p then n - 1 else n)"

definition quota_ok :: "nat \<Rightarrow> client \<Rightarrow> bool" where
  "quota_ok n c \<longleftrightarrow> ss_version c = Version5 \<and> unat (cl_serverReceiveMaximumQuota c) + n = unat (o_ReceiveMax (cl_opts c))"

lemma readLoop_packet_quota:
  assumes "quota_ok n c"
  shows "readLoop_packet p c =
      (if opens p \<and> n = unat (o_ReceiveMax (cl_opts c)) then Inl (codes_NewError RecvMaxExceeded)
       else Inr (if opens p then c\<lparr>cl_serverReceiveMaximumQuota := cl_serverReceiveMaximumQuota c - 1\<rparr> else c))"
  using assms by (cases p) (auto simp: readLoop_packet_def tryDecServerQuota_def quota_ok_def unat_eq_zero)

lemma quota_read:
  assumes "quota_ok n c" and "readLoop_packet p c = Inr c'"
  shows "quota_ok (if opens p then Suc n else n) c' \<and> o_ReceiveMax (cl_opts c') = o_ReceiveMax (cl_opts c)"
proof (cases "opens p")
  case True
  with assms have "n \<noteq> unat (o_ReceiveMax (cl_opts c))" and c': "c' = c\<lparr>cl_serverReceiveMaximumQuota := cl_serverReceiveMaximumQuota c - 1\<rparr>"
    by (auto simp: readLoop_packet_quota split: if_splits)
  then have "0 < unat (cl_serverReceiveMaximumQuota c)" using assms(1) by (auto simp: quota_ok_def)
  then have "unat (cl_serverReceiveMaximumQuota c - 1) = unat (cl_serverReceiveMaximumQuota c) - 1"
    by (subst unat_sub) (auto simp: word_le_nat_alt)
  then show ?thesis using True assms(1) c' \<open>0 < unat _\<close> by (simp add: quota_ok_def)
qed (use assms in \<open>simp add: readLoop_packet_quota\<close>)

lemma quota_write:
  assumes "quota_ok n c"
  shows "quota_ok (if ends p then n - 1 else n) (writeLoop_quota p c)
    \<and> o_ReceiveMax (cl_opts (writeLoop_quota p c)) = o_ReceiveMax (cl_opts c)"
proof (cases "ends p")
  case True
  then have "writeLoop_quota p c = addServerQuota c"
    using assms by (cases p) (auto simp: writeLoop_quota_def quota_ok_def UnspecifiedError_def)
  moreover have "quota_ok (n - 1) (addServerQuota c)"
  proof (cases "cl_serverReceiveMaximumQuota c < o_ReceiveMax (cl_opts c)")
    case True
    then have "unat (cl_serverReceiveMaximumQuota c + 1) = unat (cl_serverReceiveMaximumQuota c) + 1"
      using unsigned_less [where ?'a = nat, of "o_ReceiveMax (cl_opts c)"]
      by (simp add: unat_word_ariths word_less_nat_alt)
    moreover have "0 < n" using True assms by (auto simp: quota_ok_def word_less_nat_alt)
    ultimately show ?thesis using True assms by (simp add: addServerQuota_def quota_ok_def)
  next
    case False
    then have "n = 0" using assms by (auto simp: quota_ok_def word_less_nat_alt)
    then show ?thesis using False assms by (simp add: addServerQuota_def)
  qed
  ultimately show ?thesis using True by (simp add: addServerQuota_def)
next
  case False
  then have "writeLoop_quota p c = c"
    using assms by (cases p) (auto simp: writeLoop_quota_def quota_ok_def UnspecifiedError_def)
  then show ?thesis using False assms by simp
qed

lemma wire_run_quota:
  assumes "wire_run es c = Inr c'" and "quota_ok n c"
  shows "quota_ok (open_exchanges es n) c' \<and> o_ReceiveMax (cl_opts c') = o_ReceiveMax (cl_opts c)"
  using assms
proof (induction es arbitrary: c n)
  case (Cons e es)
  show ?case
  proof (cases e)
    case (Read p)
    then obtain c1 where "readLoop_packet p c = Inr c1" and "wire_run es c1 = Inr c'"
      using Cons.prems(1) by (auto split: sum.splits)
    then show ?thesis using Cons.IH quota_read [OF Cons.prems(2)] Read by fastforce
  next
    case (Wrote p)
    then show ?thesis using Cons.IH Cons.prems quota_write [OF Cons.prems(2), of p] by fastforce
  qed
qed simp

text \<open>
  C10. Flow control of incoming publishes.  On a version 5 connection that starts with its full quota, after any interleaving
  of packets read and packets written, the quota is the receive maximum minus the number of open exchanges,
  so that there are never more of them than the receive maximum; the next QoS 1 or QoS 2 publish is refused
  exactly when the receive maximum is reached.
\<close>

theorem receive_quota:
  assumes "ss_version c = Version5" and "cl_serverReceiveMaximumQuota c = o_ReceiveMax (cl_opts c)"
    and "wire_run es c = Inr c'"
  shows "unat (cl_serverReceiveMaximumQuota c') + open_exchanges es 0 = unat (o_ReceiveMax (cl_opts c))
    \<and> (wire_run (es @ [Read (PPublish pub)]) c = Inl (codes_NewError RecvMaxExceeded)
         \<longleftrightarrow> 0 < Qos pub \<and> open_exchanges es 0 = unat (o_ReceiveMax (cl_opts c)))"
proof -
  have q: "quota_ok 0 c" using assms(1,2) by (simp add: quota_ok_def)
  have "quota_ok (open_exchanges es 0) c'" and m: "o_ReceiveMax (cl_opts c') = o_ReceiveMax (cl_opts c)"
    using wire_run_quota [OF assms(3) q] by simp_all
  moreover have "wire_run (es @ [Read (PPublish pub)]) c = wire_run [Read (PPublish pub)] c'"
    using assms(3) by (induction es c rule: wire_run.induct) (auto split: sum.splits)
  ultimately show ?thesis
    using readLoop_packet_quota [of "open_exchanges es 0" c' "PPublish pub"] by (simp add: quota_ok_def split: if_splits)
qed

theorem receive_quota_witness:
  "\<exists>c'. wire_run [Read (PPublish sample_publish), Read (PPublish sample_publish)] sample_client = Inr c'
    \<and> wire_run ([Read (PPublish sample_publish), Read (PPublish sample_publish)] @ [Read (PPublish sample_publish)]) sample_client
       = Inl (codes_NewError RecvMaxExceeded)"
proof -
  let ?e = "Read (PPublish sample_publish)"
  obtain c' where r: "wire_run [?e, ?e] sample_client = Inr c'"
    by (simp add: readLoop_packet_def tryDecServerQuota_def sample_publish_def sample_client_def)
  have "wire_run ([?e, ?e] @ [?e]) sample_client = Inl (codes_NewError RecvMaxExceeded)"
    using receive_quota [OF _ _ r, of sample_publish] by (simp add: sample_client_def sample_options_def sample_publish_def)
  with r show ?thesis by blast
qed

section \<open>Where the code departs from its intent\<close>

lemma keepAlive_deadline_small: "unat keepAlive \<le> 43690 \<Longrightarrow> unat (keepAlive_deadline keepAlive) = unat keepAlive div 2 + unat keepAlive"
  by (simp add: keepAlive_deadline_def unat_word_ariths unat_div)

lemma keepAlive_deadline_wraps: "keepAlive_deadline 65535 = 32766" and "keepAlive_deadline 43691 = 0"
  by (simp_all add: keepAlive_deadline_def)

text \<open>A retained message is to be removed by an empty payload, but a publish that names its topic by an alias removes the empty topic.\<close>

lemma publish_retain_alias:
  assumes "Retain pub" and "Payload pub = []" and "TopicName pub = []"
  shows "retainedDB (publish_retain pub msg srv) = Retained_Remove (retainedDB srv) []"
  using assms by (simp add: publish_retain_def)

text \<open>The handler's error of a disconnect packet does not reach the connection.\<close>

lemma disconnect_error_lost:
  assumes "disconnectHandler p store c = Inr (Some ce, store', c')"
  shows "readHandle_switch hooks Intn now None (PDisconnect p) (srv, store, c) = Inr (Stop None, srv, store', c')"
  using assms by simp

text \<open>Re-authentication compares the method of the connection with the data of the packet.\<close>

lemma reauth_compares_data:
  assumes "ss_version c = Version5" and "auth_Properties a = Some ppt" and "o_AuthMethod (cl_opts c) = Some m"
    and "AuthMethod ppt = Some m" and "AuthData ppt = Some d" and "d \<noteq> m"
  shows "readHandle_switch hooks Intn now None (PAuth a) (srv, store, c) = Inr (Stop None, srv, store, c)"
  using assms by (simp add: nonempty_def)

end
