(* ===== verification/Sessions.thy ===== *)
theory Sessions
  imports Client
begin

text \<open>
  Sessions, \<^verbatim>\<open>server/server.go\<close>: \<^verbatim>\<open>registerClient\<close> and \<^verbatim>\<open>unregisterClient\<close> with the stores they create, resume and remove,
  the expiry of sessions, delayed will messages and their goroutines, \<^verbatim>\<open>TerminateSession\<close>, the publish service and the
  reader of websocket connections.

  The broker is a state machine (\<open>br_step\<close>) over these operations and the packets of theory \<open>Client\<close>.  Its invariant
  \<open>br_inv\<close> gives \<open>broker_consistent\<close> and, for a connecting client, \<open>session_resume\<close>.
\<close>

section \<open>The state of the broker\<close>

text \<open>
  A will message that waits for its delay: \<^verbatim>\<open>willMsg\<close> with its channel, which holds at most one signal, and the timer
  of the goroutine that waits for either.
\<close>

record will_timer =
  wt_client :: bytes
  wt_msg :: Message
  wt_send :: "bool option"
  wt_due :: int

text \<open>
  The fields of \<^verbatim>\<open>server\<close> that connecting and disconnecting use, beside those of delivery.  The goroutines of delayed
  will messages are numbered; \<open>willMessage\<close> refers to them by number.
\<close>

record broker =
  br_srv :: server
  sessionStore :: SessionStore
  unackStore :: "bytes \<Rightarrow> Unack option"
  offlineClients :: "(bytes \<times> int) list"
  willMessage :: "bytes \<Rightarrow> nat option"
  br_timers :: "nat \<Rightarrow> will_timer option"
  br_next :: nat

definition defaultServer :: "MQTT \<Rightarrow> broker" where
  "defaultServer cfg =
     \<lparr>br_srv = \<lparr>subscriptionsDB = Sub_NewStore, retainedDB = Retained.NewStore, queueStore = Map.empty, sv_clients = {},
        sv_config = cfg, sv_notes = []\<rparr>,
      sessionStore = Session_New, unackStore = Map.empty, offlineClients = [], willMessage = Map.empty,
      br_timers = Map.empty, br_next = 0\<rparr>"

section \<open>Ending a session\<close>

text \<open>The in-memory stores return no errors.\<close>

definition removeSessionLocked :: "bytes \<Rightarrow> broker \<Rightarrow> broker res" where
  "removeSessionLocked clientID b =
     rbind (UnsubscribeAllLocked clientID (subscriptionsDB (br_srv b))) (\<lambda>db.
     Inr (b\<lparr>br_srv := (br_srv b)\<lparr>subscriptionsDB := db, queueStore := (queueStore (br_srv b))(clientID := None),
              sv_clients := sv_clients (br_srv b) - {clientID}\<rparr>,
            sessionStore := Session_Remove clientID (sessionStore b),
            offlineClients := al_del clientID (offlineClients b)\<rparr>))"

definition sessionTerminatedLocked :: "bytes \<Rightarrow> broker \<Rightarrow> broker res" where
  "sessionTerminatedLocked clientID b = removeSessionLocked clientID b"

text \<open>The loop ranges over the map it deletes from, which Go allows.\<close>

fun expire_loop :: "int \<Rightarrow> (bytes \<times> int) list \<Rightarrow> broker \<Rightarrow> broker res" where
  "expire_loop now [] b = Inr b"
| "expire_loop now ((cid, expiredTime) # m) b =
     rbind (if expiredTime < now then sessionTerminatedLocked cid b else Inr b) (expire_loop now m)"

definition sessionExpireCheck :: "int \<Rightarrow> broker \<Rightarrow> broker res" where
  "sessionExpireCheck now b = expire_loop now (offlineClients b) b"

text \<open>\<^verbatim>\<open>clientService.TerminateSession\<close>: whether a connected client is closed, with its session to be removed, and the broker.\<close>

definition TerminateSession :: "bytes \<Rightarrow> broker \<Rightarrow> (bool \<times> broker) res" where
  "TerminateSession clientID b =
     (if clientID \<in> sv_clients (br_srv b) then Inr (True, b)
      else if map_of (offlineClients b) clientID \<noteq> None then
        rbind (sessionTerminatedLocked clientID b) (\<lambda>b'. Inr (False, b'))
      else Inr (False, b))"

section \<open>Will messages\<close>

definition setWillProperties :: "Properties option \<Rightarrow> Message \<Rightarrow> Message" where
  "setWillProperties willPpt msg =
     (case willPpt of
        None \<Rightarrow> msg
      | Some p \<Rightarrow> msg\<lparr>
          msg_PayloadFormat := (case PayloadFormat p of None \<Rightarrow> msg_PayloadFormat msg | Some v \<Rightarrow> v),
          msg_MessageExpiry := (case MessageExpiry p of None \<Rightarrow> msg_MessageExpiry msg | Some v \<Rightarrow> v),
          msg_ContentType := (case ContentType p of None \<Rightarrow> msg_ContentType msg | Some v \<Rightarrow> v),
          msg_ResponseTopic := (case ResponseTopic p of None \<Rightarrow> msg_ResponseTopic msg | Some v \<Rightarrow> v),
          msg_CorrelationData := (case CorrelationData p of None \<Rightarrow> msg_CorrelationData msg | Some v \<Rightarrow> Some v),
          msg_UserProperties := User p\<rparr>)"

definition connect_will :: "Connect \<Rightarrow> Message option" where
  "connect_will connect =
     (if WillFlag connect then
        Some (setWillProperties (WillProperties connect)
          \<lparr>msg_Dup = False, msg_QoS = WillQos connect, msg_Retained = False, msg_Topic = WillTopic connect,
           msg_Payload = WillMsg connect, msg_PacketID = 0, msg_ContentType = [], msg_CorrelationData = None,
           msg_MessageExpiry = 0, msg_PayloadFormat = 0, msg_ResponseTopic = [], msg_SubscriptionIdentifier = [],
           msg_UserProperties = []\<rparr>)
      else None)"

text \<open>\<^verbatim>\<open>w.signal\<close> for the will message of a client; a second signal is dropped.\<close>

definition will_signal :: "bool \<Rightarrow> bytes \<Rightarrow> broker \<Rightarrow> broker" where
  "will_signal send clientID b =
     (case willMessage b clientID of
        None \<Rightarrow> b
      | Some w \<Rightarrow>
          (case br_timers b w of
             None \<Rightarrow> b
           | Some t \<Rightarrow>
               if wt_send t = None then b\<lparr>br_timers := (br_timers b)(w \<mapsto> t\<lparr>wt_send := Some send\<rparr>)\<rparr> else b))"

text \<open>
  The hook \<^verbatim>\<open>OnWillPublish\<close> answers the message that the request holds afterwards; nil drops the will message, any other
  answer sends the original one.
\<close>

definition sendWillLocked ::
    "(bytes \<Rightarrow> Message \<Rightarrow> Message option) option \<Rightarrow> (bytes \<Rightarrow> nat \<Rightarrow> nat) \<Rightarrow> int \<Rightarrow> Message \<Rightarrow> bytes \<Rightarrow> broker \<Rightarrow> broker res" where
  "sendWillLocked OnWillPublish Intn now msg clientID b =
     (case (case OnWillPublish of None \<Rightarrow> Some msg | Some f \<Rightarrow> f clientID msg) of
        None \<Rightarrow> Inr b
      | Some _ \<Rightarrow>
          rbind (deliverMessage Intn now clientID msg (match_options (msg_Topic msg)) (br_srv b)) (\<lambda>(_, srv').
          Inr (b\<lparr>br_srv := srv'\<rparr>)))"

text \<open>The goroutine of a delayed will message, once it has received a signal or its timer has fired.\<close>

definition will_ready :: "bool \<Rightarrow> int \<Rightarrow> will_timer \<Rightarrow> bool" where
  "will_ready send now t \<longleftrightarrow> wt_send t = Some send \<or> send \<and> wt_due t \<le> now"

definition will_goroutine ::
    "(bytes \<Rightarrow> Message \<Rightarrow> Message option) option \<Rightarrow> (bytes \<Rightarrow> nat \<Rightarrow> nat) \<Rightarrow> int \<Rightarrow> bool \<Rightarrow> nat \<Rightarrow> will_timer \<Rightarrow> broker \<Rightarrow> broker res" where
  "will_goroutine OnWillPublish Intn now send w t b =
     (let b' = b\<lparr>willMessage := (willMessage b)(wt_client t := None), br_timers := (br_timers b)(w := None)\<rparr> in
      if \<not> send then Inr b' else sendWillLocked OnWillPublish Intn now (wt_msg t) (wt_client t) b')"

definition publishService_Publish :: "(bytes \<Rightarrow> nat \<Rightarrow> nat) \<Rightarrow> int \<Rightarrow> Message \<Rightarrow> broker \<Rightarrow> broker res" where
  "publishService_Publish Intn now message b =
     rbind (deliverMessage Intn now [] message (match_options (msg_Topic message)) (br_srv b)) (\<lambda>(_, srv').
     Inr (b\<lparr>br_srv := srv'\<rparr>))"

section \<open>Connecting\<close>

text \<open>
  \<^verbatim>\<open>lockDuplicatedID\<close>: \<open>None\<close> while a client with the same identifier is connected, which is told to close and waited for.
  When there is a session the lock was released in between, so that \<^verbatim>\<open>registerClient\<close> may find a later state of the
  broker than the one the session was looked up in.
\<close>

definition lockDuplicatedID :: "client \<Rightarrow> broker \<Rightarrow> Session option option" where
  "lockDuplicatedID c b =
     (case Session_Get (client_ID c) (sessionStore b) of
        None \<Rightarrow> Some None
      | Some oldSession \<Rightarrow> if ses_ClientID oldSession \<in> sv_clients (br_srv b) then None else Some (Some oldSession))"

definition register_new :: "client \<Rightarrow> broker \<Rightarrow> bool \<times> Queue \<times> Unack \<times> broker" where
  "register_new c b =
     (False,
      Queue_Init \<lparr>io_CleanStart = True, io_Version = ss_version c, io_ReadBytesLimit = o_ClientMaxPacketSize (cl_opts c)\<rparr>
        (Queue_New \<lparr>MaxQueuedMsg = cfg_MaxQueuedMsg (sv_config (br_srv b)), InflightExpiry = cfg_InflightExpiry (sv_config (br_srv b))\<rparr>),
      Unack_Init True (Unack_New (client_ID c)), b)"

definition register_stores :: "int \<Rightarrow> Connect \<Rightarrow> Session option \<Rightarrow> client \<Rightarrow> broker \<Rightarrow> (bool \<times> Queue \<times> Unack \<times> broker) res" where
  "register_stores now connect oldSession c b =
     (case oldSession of
        None \<Rightarrow> Inr (register_new c b)
      | Some s \<Rightarrow>
          if \<not> IsExpired s now \<and> \<not> CleanStart connect then
            (case (queueStore (br_srv b) (client_ID c), unackStore b (client_ID c)) of
               (Some qs, Some ua) \<Rightarrow>
                 Inr (True,
                   Queue_Init \<lparr>io_CleanStart = False, io_Version = ss_version c, io_ReadBytesLimit = o_ClientMaxPacketSize (cl_opts c)\<rparr> qs,
                   Unack_Init False ua, b)
             | _ \<Rightarrow> Inr (register_new c b))
          else
            rbind (sessionTerminatedLocked (ses_ClientID s) b) (\<lambda>b'. Inr (register_new c (will_signal True (client_ID c) b'))))"

text \<open>The session that is stored; the conversion of the configured duration keeps whole seconds.\<close>

definition register_session :: "int \<Rightarrow> Connect \<Rightarrow> client \<Rightarrow> broker \<Rightarrow> Session res" where
  "register_session connectedAt connect c b =
     (let sess = (\<lambda>willDelay expiry. \<lparr>ses_ClientID = client_ID c, ses_Will = connect_will connect, WillDelayInterval' = willDelay,
            ConnectedAt = connectedAt, ExpiryInterval = expiry\<rparr>) in
      if IsVersion3X (ss_version c) \<and> \<not> CleanStart connect
      then Inr (sess 0 (word_of_int (cfg_SessionExpiry (sv_config (br_srv b)) div Second)))
      else if con_Properties connect \<noteq> None then
        (case WillProperties connect of
           None \<Rightarrow> Inl Panic
         | Some p \<Rightarrow> Inr (sess (convertUint32 (Props.WillDelayInterval p) 0) (o_SessionExpiry (cl_opts c))))
      else Inr (sess 0 0))"

definition registerClient ::
    "int \<Rightarrow> int \<Rightarrow> Connect \<Rightarrow> Session option \<Rightarrow> client \<Rightarrow> broker \<Rightarrow> (bool \<times> broker \<times> client) res" where
  "registerClient now connectedAt connect oldSession c b =
     rbind (register_stores now connect oldSession c b) (\<lambda>(sessionResume, qs, ua, b1).
     rbind (register_session connectedAt connect c b1) (\<lambda>sess.
     let b2 = b1\<lparr>offlineClients := al_del (client_ID c) (offlineClients b1), sessionStore := Session_Set sess (sessionStore b1)\<rparr>;
         b3 = (if sessionResume then will_signal False (client_ID c) b2 else b2);
         b4 = b3\<lparr>br_srv := (br_srv b3)\<lparr>sv_clients := insert (client_ID c) (sv_clients (br_srv b3)),
                   queueStore := (queueStore (br_srv b3))(client_ID c \<mapsto> qs)\<rparr>,
                 unackStore := (unackStore b3)(client_ID c \<mapsto> ua)\<rparr> in
     Inr (sessionResume, b4, c\<lparr>ss_connected := True, ss_queue := qs, cl_unackStore := ua\<rparr>)))"

section \<open>Disconnecting\<close>

text \<open>
  \<^verbatim>\<open>sessionStore.Get\<close> returns the stored pointer, so the assignment of the interval of the disconnect packet changes
  the stored session.
\<close>

definition unregister_will ::
    "(bytes \<Rightarrow> Message \<Rightarrow> Message option) option \<Rightarrow> (bytes \<Rightarrow> nat \<Rightarrow> nat) \<Rightarrow> int \<Rightarrow> bool \<Rightarrow> Session \<Rightarrow> client \<Rightarrow> broker \<Rightarrow> broker res" where
  "unregister_will OnWillPublish Intn now storeSession sess c b =
     (case ses_Will sess of
        None \<Rightarrow> Inr b
      | Some will \<Rightarrow>
          if cl_cleanWillFlag c then Inr b
          else
            let delay = (if ExpiryInterval sess \<le> WillDelayInterval' sess then ExpiryInterval sess else WillDelayInterval' sess);
                msg = Message_Copy will in
            if delay \<noteq> 0 \<and> storeSession then
              Inr (b\<lparr>willMessage := (willMessage b)(client_ID c \<mapsto> br_next b),
                     br_timers := (br_timers b)(br_next b \<mapsto> \<lparr>wt_client = client_ID c, wt_msg = msg, wt_send = None,
                       wt_due = now + uint delay * Second\<rparr>),
                     br_next := Suc (br_next b)\<rparr>)
            else sendWillLocked OnWillPublish Intn now msg (client_ID c) b)"

definition unregister_expiry :: "client \<Rightarrow> Session \<Rightarrow> uint32 res" where
  "unregister_expiry c sess =
     (if \<not> cl_forceRemoveSession c \<and> ss_version c = Version5 then
        (case cl_disconnect c of
           None \<Rightarrow> Inr (ExpiryInterval sess)
         | Some d \<Rightarrow>
             (case dis_Properties d of
                None \<Rightarrow> Inl Panic
              | Some p \<Rightarrow> Inr (convertUint32 (SessionExpiryInterval p) (ExpiryInterval sess))))
      else Inr (ExpiryInterval sess))"

definition unregisterClient ::
    "(bytes \<Rightarrow> Message \<Rightarrow> Message option) option \<Rightarrow> (bytes \<Rightarrow> nat \<Rightarrow> nat) \<Rightarrow> int \<Rightarrow> client \<Rightarrow> broker \<Rightarrow> broker res" where
  "unregisterClient OnWillPublish Intn now c b =
     (case Session_Get (client_ID c) (sessionStore b) of
        None \<Rightarrow> sessionTerminatedLocked (client_ID c) b
      | Some sess0 \<Rightarrow>
          rbind (unregister_expiry c sess0) (\<lambda>expiry.
          let sess = sess0\<lparr>ExpiryInterval := expiry\<rparr>;
              storeSession = (\<not> cl_forceRemoveSession c \<and> expiry \<noteq> 0) in
          rbind (unregister_will OnWillPublish Intn now storeSession sess c
                   (b\<lparr>sessionStore := SetSessionExpiry (client_ID c) expiry (sessionStore b)\<rparr>)) (\<lambda>b1.
          if storeSession then
            Inr (b1\<lparr>offlineClients := al_put (client_ID c) (now + uint expiry * Second) (offlineClients b1),
                    br_srv := (br_srv b1)\<lparr>sv_clients := sv_clients (br_srv b1) - {client_ID c}\<rparr>\<rparr>)
          else sessionTerminatedLocked (client_ID c) b1)))"

section \<open>What delivery and the handlers leave alone\<close>

lemma iter_subs_keeps: "P s \<Longrightarrow> (\<And>e s. P s \<Longrightarrow> P (fst (fn e s))) \<Longrightarrow> P (fst (iter_subs fn es s))"
  by (induction es arbitrary: s) (auto simp: case_prod_unfold)

lemma sub_traverse_children_keeps:
  assumes "\<And>t s r. sub_preOrderTraverse fuel fn h t s = Some r \<Longrightarrow> P s \<Longrightarrow> P (fst r)"
  shows "sub_traverse_children fuel fn h ts s = Some r \<Longrightarrow> P s \<Longrightarrow> P (fst r)"
proof (induction ts arbitrary: s)
  case (Cons t ts)
  then obtain s' b where t: "sub_preOrderTraverse fuel fn h t s = Some (s', b)" by (auto split: option.splits)
  have "P s'" using assms [OF t Cons.prems(2)] by simp
  then show ?case using Cons t by (auto split: if_splits)
qed auto

lemma sub_preOrderTraverse_keeps:
  assumes fn: "\<And>e s. P s \<Longrightarrow> P (fst (fn e s))"
  shows "sub_preOrderTraverse fuel fn h t s = Some r \<Longrightarrow> P s \<Longrightarrow> P (fst r)"
proof (induction fuel arbitrary: t s r)
  case (Suc fuel)
  obtain s' b where n: "(if sn_topicName (h ! t) \<noteq> [] then iter_subs fn (node_subs (h ! t)) s else (s, True)) = (s', b)"
    by fastforce
  have "P s'" using n Suc.prems(2) iter_subs_keeps [of P s fn "node_subs (h ! t)", OF Suc.prems(2) fn] by (auto split: if_splits)
  then show ?case using Suc.prems(1) sub_traverse_children_keeps [of fuel fn h P, OF Suc.IH] by (auto simp: n split: if_splits)
qed simp

lemma traverse_all_keeps:
  assumes "traverse_all fn h t s = Inr (s', b)" and "P s" and "\<And>e s. P s \<Longrightarrow> P (fst (fn e s))"
  shows "P s'"
  using assms sub_preOrderTraverse_keeps [of P fn "length h" h t s] by (auto simp: traverse_all_def split: option.splits)

lemma iter_keeps:
  assumes "P s" and "\<And>e s. P s \<Longrightarrow> P (fst (fn e s))" and "iter_subs fn es s = (s', b)"
  shows "P s'"
  using iter_subs_keeps [of P s fn es] assms by simp

lemma iterateNonShared_keeps:
  assumes "iterateNonShared fn opts idx h t s = Inr (s', b)" and s: "P s" and fn: "\<And>e s. P s \<Longrightarrow> P (fst (fn e s))"
  shows "P s'"
  using assms(1,2) iter_keeps [of P s fn, OF s fn] traverse_all_keeps [of fn h t s s' b P, OF _ s fn]
  by (auto simp: iterateNonShared_def Let_def rbind_eq_Inr_conv split: if_splits option.splits)

lemma iterateShared_keeps:
  assumes "iterateShared fn opts idx h t s = Inr (s', b)" and s: "P s" and fn: "\<And>e s. P s \<Longrightarrow> P (fst (fn e s))"
  shows "P s'"
  using assms(1,2) iter_keeps [of P s fn, OF s fn] traverse_all_keeps [of fn h t s s' b P, OF _ s fn]
  by (auto simp: iterateShared_def Let_def rbind_eq_Inr_conv split: if_splits option.splits list.splits)

lemma IterateLocked_keeps:
  assumes "IterateLocked fn opts db s = Inr s'" and s: "P s" and fn: "\<And>e s. P s \<Longrightarrow> P (fst (fn e s))"
  shows "P s'"
proof -
  let ?h = "db_heap db" and ?t = "it_TopicName opts"
  have n: "P b" if "(if c then iterateNonShared fn opts idx ?h t a else Inr (a, True)) = Inr (b, g)" and "P a" for c idx t a b g
    using that iterateNonShared_keeps [of fn opts idx ?h t a b g P, OF _ that(2) fn] by (auto split: if_splits)
  obtain s1 b1 where 1: "(if it_Type opts AND TypeShared = TypeShared
      then iterateShared fn opts (sharedIndex db) ?h (db_sharedTrie db) s else Inr (s, True)) = Inr (s1, b1)"
    and k1: "(if \<not> b1 then Inr s1 else
      rbind (if it_Type opts AND TypeNonShared = TypeNonShared \<and> \<not> (?t \<noteq> [] \<and> isSystemTopic ?t)
             then iterateNonShared fn opts (userIndex db) ?h (db_userTrie db) s1
             else Inr (s1, True)) (\<lambda>(s, b).
      if \<not> b then Inr s else
      rbind (if it_Type opts AND TypeSYS = TypeSYS \<and> \<not> (?t \<noteq> [] \<and> \<not> isSystemTopic ?t)
             then iterateNonShared fn opts (systemIndex db) ?h (db_systemTrie db) s
             else Inr (s, True)) (\<lambda>(s, b). Inr s))) = Inr s'"
    using assms(1) unfolding IterateLocked_def Let_def rbind_eq_Inr_conv by (auto simp del: if_split)
  have p1: "P s1" using 1 s iterateShared_keeps [of fn opts "sharedIndex db" ?h "db_sharedTrie db" s s1 b1 P, OF _ s fn]
    by (auto split: if_splits)
  show ?thesis
  proof (cases b1)
    case True
    then obtain s2 b2 where 2: "(if it_Type opts AND TypeNonShared = TypeNonShared \<and> \<not> (?t \<noteq> [] \<and> isSystemTopic ?t)
             then iterateNonShared fn opts (userIndex db) ?h (db_userTrie db) s1 else Inr (s1, True)) = Inr (s2, b2)"
      and k2: "(if \<not> b2 then Inr s2 else
      rbind (if it_Type opts AND TypeSYS = TypeSYS \<and> \<not> (?t \<noteq> [] \<and> \<not> isSystemTopic ?t)
             then iterateNonShared fn opts (systemIndex db) ?h (db_systemTrie db) s2
             else Inr (s2, True)) (\<lambda>(s, b). Inr s)) = Inr s'"
      using k1 by (auto simp: rbind_eq_Inr_conv simp del: if_split)
    have p2: "P s2" by (rule n [OF 2 p1])
    then show ?thesis using k2 n [OF _ p2] by (cases b2) (auto simp: rbind_eq_Inr_conv)
  qed (use k1 p1 in simp)
qed

text \<open>Delivery changes only the contents of queues that exist.\<close>

definition only_queues :: "server \<Rightarrow> server \<Rightarrow> bool" where
  "only_queues srv srv' \<longleftrightarrow>
     subscriptionsDB srv' = subscriptionsDB srv \<and> retainedDB srv' = retainedDB srv \<and> sv_clients srv' = sv_clients srv
     \<and> sv_config srv' = sv_config srv \<and> dom (queueStore srv') = dom (queueStore srv)"

lemma only_queues_refl [simp]: "only_queues srv srv"
  by (simp add: only_queues_def)

lemma only_queues_trans: "only_queues a b \<Longrightarrow> only_queues b c \<Longrightarrow> only_queues a c"
  by (simp add: only_queues_def)

lemma addMsgToQueueLocked_only:
  "addMsgToQueueLocked now c msg sub ids q srv = Inr srv' \<Longrightarrow> queueStore srv c = Some q \<Longrightarrow> only_queues srv srv'"
  by (auto simp: addMsgToQueueLocked_def Let_def rbind_eq_Inr_conv only_queues_def split: if_splits)

lemma flush_shared_only: "flush_shared Intn now msg sl srv = Inr srv' \<Longrightarrow> only_queues srv srv'"
proof (induction sl arbitrary: srv)
  case (Cons gv sl)
  obtain g v where gv: "gv = (g, v)" by fastforce
  obtain c s where cs: "v ! Intn g (length v) = (c, s)" by fastforce
  from Cons.prems obtain srv1 where "only_queues srv srv1" and "flush_shared Intn now msg sl srv1 = Inr srv'"
    by (auto simp: gv cs rbind_eq_Inr_conv split: if_splits option.splits
        dest: addMsgToQueueLocked_only intro: only_queues_refl)
  then show ?case using Cons.IH only_queues_trans by blast
qed simp

lemma flush_once_only: "flush_once now msg mq srv = Inr srv' \<Longrightarrow> only_queues srv srv'"
proof (induction mq arbitrary: srv)
  case (Cons e mq)
  obtain c s ids where e: "e = (c, s, ids)" by (cases e) auto
  from Cons.prems obtain srv1 where "only_queues srv srv1" and "flush_once now msg mq srv1 = Inr srv'"
    by (auto simp: e rbind_eq_Inr_conv split: option.splits
        dest: addMsgToQueueLocked_only intro: only_queues_refl)
  then show ?case using Cons.IH only_queues_trans by blast
qed simp

lemma deliver_fn_only:
  assumes "case r of Inl _ \<Rightarrow> True | Inr d \<Rightarrow> only_queues srv (dh_srv d)"
  shows "case fst (deliver_fn mode src msg now e r) of Inl _ \<Rightarrow> True | Inr d \<Rightarrow> only_queues srv (dh_srv d)"
proof (cases r)
  case (Inr d)
  obtain c s where e: "e = (c, s)" by fastforce
  have "only_queues srv (dh_srv d')" if "iterate_overlap now msg c s (d\<lparr>dh_matched := True\<rparr>) = Inr d'" for d'
    using that assms Inr by (auto simp: iterate_overlap_def rbind_eq_Inr_conv split: option.splits
        dest!: addMsgToQueueLocked_only intro: only_queues_trans)
  then show ?thesis using assms Inr e
    by (auto simp: deliver_fn_def Let_def iterate_onlyonce_eq split: sum.splits if_splits)
qed (simp add: deliver_fn_def)

lemma deliverMessage_only:
  assumes "deliverMessage Intn now src msg opts srv = Inr (b, srv')"
  shows "only_queues srv srv'"
proof -
  obtain r d where it: "IterateLocked (deliver_fn (cfg_DeliveryMode (sv_config srv)) src msg now) opts (subscriptionsDB srv)
      (Inr (newDeliverHandler srv)) = Inr r" and r: "r = Inr d"
    and f: "deliver_flush Intn now msg d = Inr srv'"
    using assms by (auto simp: deliverMessage_def rbind_eq_Inr_conv)
  have "case r of Inl _ \<Rightarrow> True | Inr d \<Rightarrow> only_queues srv (dh_srv d)"
    by (rule IterateLocked_keeps [OF it]) (simp add: newDeliverHandler_def, rule deliver_fn_only)
  then have "only_queues srv (dh_srv d)" by (simp add: r)
  moreover have "only_queues (dh_srv d) srv'"
    using f by (auto simp: deliver_flush_def rbind_eq_Inr_conv dest!: flush_shared_only flush_once_only intro: only_queues_trans)
  ultimately show ?thesis by (rule only_queues_trans)
qed

text \<open>
  What a packet of the client \<open>cid\<close> may change of the server: the contents of existing queues, the retained messages
  and the subscriptions, of which new ones belong to the client.
\<close>

definition packet_frame :: "bytes \<Rightarrow> server \<Rightarrow> server \<Rightarrow> bool" where
  "packet_frame cid srv srv' \<longleftrightarrow>
     sv_clients srv' = sv_clients srv \<and> dom (queueStore srv') = dom (queueStore srv)
     \<and> (db_inv (subscriptionsDB srv) \<longrightarrow> db_inv (subscriptionsDB srv')
          \<and> (\<forall>d n f. db_content (subscriptionsDB srv') (d, n, f) \<noteq> None \<longrightarrow>
               d = cid \<or> db_content (subscriptionsDB srv) (d, n, f) \<noteq> None))"

lemma packet_frame_refl [simp]: "packet_frame cid srv srv"
  by (simp add: packet_frame_def)

lemma packet_frame_trans: "packet_frame cid a b \<Longrightarrow> packet_frame cid b c \<Longrightarrow> packet_frame cid a c"
  by (simp add: packet_frame_def) meson

lemma only_queues_frame: "only_queues srv srv' \<Longrightarrow> packet_frame cid srv srv'"
  by (simp add: only_queues_def packet_frame_def)

lemma with_queue_frame: "with_queue f srv c = Inr (srv', c') \<Longrightarrow> packet_frame cid srv srv'"
  by (auto simp: with_queue_def rbind_eq_Inr_conv packet_frame_def split: option.splits if_splits)

lemma queue_add_all_frame: "queue_add_all now es srv c = Inr (srv', c') \<Longrightarrow> packet_frame cid srv srv'"
proof (induction es arbitrary: srv c)
  case (Cons e es)
  then obtain srv1 c1 where "with_queue (queue_add now e) srv c = Inr (srv1, c1)"
    and r: "queue_add_all now es srv1 c1 = Inr (srv', c')" by (auto simp: rbind_eq_Inr_conv)
  with Cons.IH [OF r] show ?case using with_queue_frame packet_frame_trans by blast
qed simp

lemma spec_subscribe_new: "spec_subscribe c subs m (d, n, f) \<noteq> None \<Longrightarrow> d = c \<or> m (d, n, f) \<noteq> None"
proof (induction subs arbitrary: m)
  case (Cons s subs)
  let ?m = "m((c, sb_ShareName s, sb_TopicFilter s) \<mapsto> s)"
  have "spec_subscribe c subs ?m (d, n, f) \<noteq> None" using Cons.prems by (simp add: spec_subscribe_def)
  then have "d = c \<or> ?m (d, n, f) \<noteq> None" by (rule Cons.IH)
  then show ?case by (auto split: if_splits)
qed (simp add: spec_subscribe_def)

lemma spec_unsubscribe_old: "spec_unsubscribe c ts m k \<noteq> None \<Longrightarrow> m k \<noteq> None"
proof (induction ts arbitrary: m)
  case (Cons t ts)
  let ?m = "m((c, SplitTopic t) := None)"
  have "spec_unsubscribe c ts ?m k \<noteq> None" using Cons.prems by (simp add: spec_unsubscribe_def)
  then have "?m k \<noteq> None" by (rule Cons.IH)
  then show ?case by (auto split: if_splits)
qed (simp add: spec_unsubscribe_def)

lemma SubscribeLocked_frame:
  assumes "SubscribeLocked c subs (subscriptionsDB srv) = Inr (rs, db)"
  shows "packet_frame c srv (srv\<lparr>subscriptionsDB := db\<rparr>)"
  using trie_store.subscribe [of "subscriptionsDB srv" c subs] assms spec_subscribe_new [of c subs]
  by (auto simp: packet_frame_def)

lemma UnsubscribeLocked_frame:
  assumes "UnsubscribeLocked c ts (subscriptionsDB srv) = Inr db"
  shows "packet_frame cid srv (srv\<lparr>subscriptionsDB := db\<rparr>)"
  using trie_store.unsubscribe [of "subscriptionsDB srv" c ts] assms spec_unsubscribe_old [of c ts]
  by (auto simp: packet_frame_def)

lemma subscribe_topic_frame:
  "subscribe_topic now i subs v srv c = Inr (code, srv', c') \<Longrightarrow> packet_frame (client_ID c) srv srv'"
  by (auto simp: subscribe_topic_def Let_def rbind_eq_Inr_conv case_prod_unfold split: option.splits if_splits
      simp del: SubscribeLocked.simps
      dest!: SubscribeLocked_frame queue_add_all_frame [where cid = "client_ID c"] intro: packet_frame_trans)

lemma subscribe_topics_frame:
  "subscribe_topics now i subs vs srv c = Inr (payload, srv', c') \<Longrightarrow> packet_frame (client_ID c) srv srv'"
proof (induction vs arbitrary: srv c payload)
  case (Cons v vs)
  then obtain code srv1 c1 p where v: "subscribe_topic now i subs v srv c = Inr (code, srv1, c1)"
    and r: "subscribe_topics now i subs vs srv1 c1 = Inr (p, srv', c')" by (auto simp: rbind_eq_Inr_conv)
  have "client_ID c1 = client_ID c" using same_rest(2) [OF subscribe_topic_rest [OF v]] by simp
  then show ?case using Cons.IH [OF r] subscribe_topic_frame [OF v] packet_frame_trans by simp
qed simp

lemma unsubscribe_topics_frame: "unsubscribe_topics unsubs vs srv c = Inr (cs, srv') \<Longrightarrow> packet_frame cid srv srv'"
proof (induction vs arbitrary: srv cs)
  case (Cons v vs)
  then obtain code srv1 p where "unsubscribe_topic unsubs v srv c = Inr (code, srv1)"
    and r: "unsubscribe_topics unsubs vs srv1 c = Inr (p, srv')" by (auto simp: rbind_eq_Inr_conv)
  then have "packet_frame cid srv srv1"
    by (auto simp: unsubscribe_topic_def Let_def rbind_eq_Inr_conv split: option.splits if_splits
        simp del: UnsubscribeLocked.simps dest: UnsubscribeLocked_frame)
  then show ?case using Cons.IH [OF r] packet_frame_trans by blast
qed simp

lemma subscribeHandler_frame:
  "subscribeHandler hooks now p srv c = Inr (e, srv', c') \<Longrightarrow> packet_frame (client_ID c) srv srv'"
  by (auto simp: subscribeHandler_def Let_def rbind_eq_Inr_conv case_prod_unfold split: option.splits if_splits
      dest!: subscribe_topics_frame)

lemma unsubscribeHandler_frame:
  "unsubscribeHandler hooks p srv c = Inr (srv', c') \<Longrightarrow> packet_frame cid srv srv'"
  by (auto simp: unsubscribeHandler_def Let_def rbind_eq_Inr_conv case_prod_unfold split: option.splits
      dest!: unsubscribe_topics_frame)

lemma publish_retain_frame: "packet_frame cid srv (publish_retain pub msg srv)"
  by (simp add: publish_retain_def packet_frame_def)

lemma publish_deliver_frame:
  "publish_deliver hooks Intn now pub msg srv c = Inr (err, b, srv', c') \<Longrightarrow> packet_frame cid srv srv'"
  by (auto simp: publish_deliver_def client_deliverMessage_def Let_def rbind_eq_Inr_conv case_prod_unfold
      split: option.splits dest!: deliverMessage_only only_queues_frame)

lemma publishHandler_frame:
  assumes "publishHandler hooks Intn now pub srv c = Inr (e, srv', c')"
  shows "packet_frame cid srv srv'"
  using assms
proof (cases rule: publishHandler_cases)
  case (new msg mapper c2 err b c3)
  then show ?thesis using publish_deliver_frame [OF new(5)] packet_frame_trans [OF publish_retain_frame] by blast
qed (simp_all add: publish_retain_frame)

lemma readHandle_packet_frame:
  assumes "readHandle_packet hooks Intn now err p (srv, store, c) = Inr (n, srv', store', c')"
  shows "packet_frame (client_ID c) srv srv' \<and> (store' = store \<or> (\<exists>i e. store' = SetSessionExpiry i e store))"
proof -
  consider "srv' = srv \<and> store' = store" | "readHandle_switch hooks Intn now err p (srv, store, c) = Inr (n, srv', store', c')"
    using assms by (auto simp: readHandle_packet_def split: if_splits)
  then show ?thesis
  proof cases
    case 2
    then show ?thesis
      by (cases p) (auto simp: rbind_eq_Inr_conv disconnectHandler_def Let_def split: if_splits option.splits
          dest: subscribeHandler_frame publishHandler_frame unsubscribeHandler_frame with_queue_frame)
  qed simp
qed

section \<open>The invariant of the broker\<close>

text \<open>
  Every session belongs to a client that is connected or whose session is kept until a time, never both; exactly the
  clients with a session have a queue; they all have a set of unacknowledged identifiers; and a
  subscription outside the share groups belongs to a client with a session.
\<close>

definition sessions :: "broker \<Rightarrow> bytes set" where
  "sessions b = fst ` set (sessionStore b)"

definition offline :: "broker \<Rightarrow> bytes set" where
  "offline b = fst ` set (offlineClients b)"

definition br_inv :: "broker \<Rightarrow> bool" where
  "br_inv b \<longleftrightarrow>
     ses_inv (sessionStore b) \<and> distinct (al_keys (offlineClients b))
     \<and> sv_clients (br_srv b) \<inter> offline b = {} \<and> sessions b = sv_clients (br_srv b) \<union> offline b
     \<and> dom (queueStore (br_srv b)) = sessions b \<and> sessions b \<subseteq> dom (unackStore b)
     \<and> db_inv (subscriptionsDB (br_srv b))
     \<and> (\<forall>c f. db_content (subscriptionsDB (br_srv b)) (c, [], f) \<noteq> None \<longrightarrow> c \<in> sessions b)"

lemma br_invI:
  assumes "ses_inv (sessionStore b)" "distinct (al_keys (offlineClients b))" "sv_clients (br_srv b) \<inter> offline b = {}"
    "sessions b = sv_clients (br_srv b) \<union> offline b" "dom (queueStore (br_srv b)) = sessions b"
    "sessions b \<subseteq> dom (unackStore b)" "db_inv (subscriptionsDB (br_srv b))"
    "\<And>c f. db_content (subscriptionsDB (br_srv b)) (c, [], f) \<noteq> None \<Longrightarrow> c \<in> sessions b"
  shows "br_inv b"
  using assms unfolding br_inv_def by blast

lemma br_invD:
  assumes "br_inv b"
  shows "ses_inv (sessionStore b)" "distinct (al_keys (offlineClients b))" "sv_clients (br_srv b) \<inter> offline b = {}"
    "sessions b = sv_clients (br_srv b) \<union> offline b" "dom (queueStore (br_srv b)) = sessions b"
    "sessions b \<subseteq> dom (unackStore b)" "db_inv (subscriptionsDB (br_srv b))"
    "\<And>c f. db_content (subscriptionsDB (br_srv b)) (c, [], f) \<noteq> None \<Longrightarrow> c \<in> sessions b"
  using assms unfolding br_inv_def by blast+

lemma Session_Get_sessions: "Session_Get c (sessionStore b) \<noteq> None \<longleftrightarrow> c \<in> sessions b"
  by (simp add: Session_Get_def sessions_def map_of_eq_None_iff)

lemma defaultServer_inv: "br_inv (defaultServer cfg)"
  by (rule br_invI) (simp_all add: defaultServer_def sessions_def offline_def ses_inv_ops(1) db_inv_New NewStore_content,
      simp_all add: Session_New_def)

lemma will_signal_same [simp]:
  "br_srv (will_signal send c b) = br_srv b" "sessionStore (will_signal send c b) = sessionStore b"
  "unackStore (will_signal send c b) = unackStore b" "offlineClients (will_signal send c b) = offlineClients b"
  by (simp_all add: will_signal_def split: option.splits)

text \<open>Steps that change only the timers, or the server within \<open>packet_frame\<close>.\<close>

lemma br_inv_keep:
  assumes "br_inv b" and "sessions b' = sessions b" "offlineClients b' = offlineClients b" "unackStore b' = unackStore b"
    "sv_clients (br_srv b') = sv_clients (br_srv b)" "dom (queueStore (br_srv b')) = dom (queueStore (br_srv b))"
    and "ses_inv (sessionStore b')" "db_inv (subscriptionsDB (br_srv b'))"
    and "\<And>c f. db_content (subscriptionsDB (br_srv b')) (c, [], f) \<noteq> None \<Longrightarrow> c \<in> sessions b"
  shows "br_inv b'"
proof -
  have o: "offline b' = offline b" by (simp add: offline_def assms(3))
  show ?thesis unfolding br_inv_def o assms(2-6) using br_invD [OF assms(1)] assms(7-9) by blast
qed

lemma br_inv_same:
  assumes "br_inv b" and "br_srv b' = br_srv b" "sessionStore b' = sessionStore b" "unackStore b' = unackStore b"
    "offlineClients b' = offlineClients b"
  shows "br_inv b'"
proof -
  have "sessions b' = sessions b" by (simp add: sessions_def assms(3))
  then show ?thesis using assms br_invD [OF assms(1)] by (intro br_inv_keep [OF assms(1)]) simp_all
qed

lemma SetSessionExpiry_keys: "fst ` set (SetSessionExpiry c e s) = fst ` set s"
  by (auto simp: SetSessionExpiry_def simp del: map_of_eq_Some_iff split: option.splits)
    (metis fst_conv imageI map_of_SomeD)

lemma br_inv_frame:
  assumes inv: "br_inv b" and f: "packet_frame cid (br_srv b) srv'" and "cid \<in> sv_clients (br_srv b)"
    and s: "store' = sessionStore b \<or> (\<exists>i e. store' = SetSessionExpiry i e (sessionStore b))"
  shows "br_inv (b\<lparr>br_srv := srv', sessionStore := store'\<rparr>)"
proof (rule br_inv_keep [OF inv])
  note d = br_invD [OF inv]
  let ?b = "b\<lparr>br_srv := srv', sessionStore := store'\<rparr>"
  have "fst ` set store' = fst ` set (sessionStore b)" using s SetSessionExpiry_keys by metis
  then show "sessions ?b = sessions b" by (simp add: sessions_def)
  show "ses_inv (sessionStore ?b)" using s d(1) ses_inv_ops(4) by auto
  show "db_inv (subscriptionsDB (br_srv ?b))" using f d(7) by (simp add: packet_frame_def)
  show "c \<in> sessions b" if "db_content (subscriptionsDB (br_srv ?b)) (c, [], x) \<noteq> None" for c x
  proof -
    have "c = cid \<or> db_content (subscriptionsDB (br_srv b)) (c, [], x) \<noteq> None"
      using that f d(7) by (auto simp: packet_frame_def)
    then show ?thesis using d(4,8) assms(3) by blast
  qed
qed (use f in \<open>simp_all add: packet_frame_def\<close>)

lemma br_inv_deliver:
  assumes "br_inv b" and "only_queues (br_srv b) srv'"
  shows "br_inv (b\<lparr>br_srv := srv'\<rparr>)"
  using assms(2) br_invD [OF assms(1)]
  by (intro br_inv_keep [OF assms(1)]) (simp_all add: only_queues_def sessions_def)

section \<open>Ending a session keeps the invariant\<close>

lemma sessionTerminatedLocked_inv:
  assumes "br_inv b"
  shows "\<exists>b'. sessionTerminatedLocked c b = Inr b' \<and> br_inv b' \<and> sessions b' = sessions b - {c}
    \<and> sv_clients (br_srv b') = sv_clients (br_srv b) - {c} \<and> unackStore b' = unackStore b
    \<and> br_timers b' = br_timers b \<and> willMessage b' = willMessage b \<and> sv_config (br_srv b') = sv_config (br_srv b)
    \<and> (\<forall>d f. db_content (subscriptionsDB (br_srv b')) (d, [], f) =
          (if d = c then None else db_content (subscriptionsDB (br_srv b)) (d, [], f)))"
proof -
  note d = br_invD [OF assms]
  obtain db where db: "UnsubscribeAllLocked c (subscriptionsDB (br_srv b)) = Inr db" "db_inv db"
    and cn: "\<And>d f. db_content db (d, [], f) = spec_unsubscribe_all c (db_content (subscriptionsDB (br_srv b))) (d, [], f)"
    using trie_store.unsubscribe_all [OF d(7), of c] by blast
  let ?b = "b\<lparr>br_srv := (br_srv b)\<lparr>subscriptionsDB := db, queueStore := (queueStore (br_srv b))(c := None),
              sv_clients := sv_clients (br_srv b) - {c}\<rparr>,
            sessionStore := Session_Remove c (sessionStore b), offlineClients := al_del c (offlineClients b)\<rparr>"
  have s: "sessions ?b = sessions b - {c}" and o: "offline ?b = offline b - {c}"
    by (simp_all add: sessions_def offline_def Session_Remove_def)
  have u: "spec_unsubscribe_all c m (d, [], f) = (if d = c then None else m (d, [], f))" for m d f
    by (simp add: spec_unsubscribe_all_def)
  have "br_inv ?b"
  proof (rule br_invI)
    show "ses_inv (sessionStore ?b)" using d(1) by (simp add: ses_inv_ops(3))
    show "distinct (al_keys (offlineClients ?b))" using d(2) by simp
    show "sv_clients (br_srv ?b) \<inter> offline ?b = {}" using d(3) o by auto
    show "sessions ?b = sv_clients (br_srv ?b) \<union> offline ?b" using d(4) s o by auto
    show "dom (queueStore (br_srv ?b)) = sessions ?b" using d(5) s by simp
    show "sessions ?b \<subseteq> dom (unackStore ?b)" using d(6) s by auto
    show "db_inv (subscriptionsDB (br_srv ?b))" using db(2) by simp
    show "e \<in> sessions ?b" if "db_content (subscriptionsDB (br_srv ?b)) (e, [], f) \<noteq> None" for e f
      using that d(8) [of e f] s by (simp add: cn u split: if_splits)
  qed
  then show ?thesis using s db(1)
    by (intro exI [of _ ?b]) (simp add: sessionTerminatedLocked_def removeSessionLocked_def cn u)
qed

lemma expire_loop_inv: "br_inv b \<Longrightarrow> expire_loop now m b = Inr b' \<Longrightarrow> br_inv b'"
proof (induction m arbitrary: b)
  case (Cons e m)
  obtain c t where e: "e = (c, t)" by fastforce
  show ?case
  proof (cases "t < now")
    case True
    obtain b1 where "sessionTerminatedLocked c b = Inr b1" and "br_inv b1"
      using sessionTerminatedLocked_inv [OF Cons.prems(1), of c] by blast
    then show ?thesis using Cons.IH Cons.prems(2) True e by simp
  qed (use Cons e in simp)
qed simp

section \<open>Will messages, connecting and disconnecting keep the invariant\<close>

lemma sendWillLocked_only:
  "sendWillLocked hook Intn now msg c b = Inr b' \<Longrightarrow> \<exists>srv'. only_queues (br_srv b) srv' \<and> b' = b\<lparr>br_srv := srv'\<rparr>"
  by (auto simp: sendWillLocked_def rbind_eq_Inr_conv split: option.splits dest!: deliverMessage_only)
    (metis broker.surjective broker.update_convs(1) only_queues_refl)+

lemma sendWillLocked_inv: "br_inv b \<Longrightarrow> sendWillLocked hook Intn now msg c b = Inr b' \<Longrightarrow> br_inv b'"
  by (auto dest!: sendWillLocked_only intro: br_inv_deliver)

lemma will_goroutine_inv:
  assumes "br_inv b" and "will_goroutine hook Intn now send w t b = Inr b'"
  shows "br_inv b'"
proof -
  let ?b = "b\<lparr>willMessage := (willMessage b)(wt_client t := None), br_timers := (br_timers b)(w := None)\<rparr>"
  have "br_inv ?b" by (rule br_inv_same [OF assms(1)]) simp_all
  then show ?thesis using assms(2) by (cases send) (auto simp: will_goroutine_def dest: sendWillLocked_inv)
qed

lemma unregister_will_inv:
  assumes "br_inv b" and "unregister_will hook Intn now st sess c b = Inr b'"
  shows "br_inv b' \<and> sessions b' = sessions b \<and> sv_clients (br_srv b') = sv_clients (br_srv b) \<and> offlineClients b' = offlineClients b"
proof -
  have "br_inv b'" using assms
    by (auto simp: unregister_will_def Let_def split: option.splits if_splits intro: br_inv_same dest: sendWillLocked_inv)
  then show ?thesis using assms(2)
    by (auto simp: unregister_will_def Let_def sessions_def only_queues_def split: option.splits if_splits dest!: sendWillLocked_only)
qed

lemma unregisterClient_inv:
  assumes inv: "br_inv b" and u: "unregisterClient hook Intn now c b = Inr b'"
  shows "br_inv b'"
proof (cases "Session_Get (client_ID c) (sessionStore b)")
  case None
  then show ?thesis using u sessionTerminatedLocked_inv [OF inv, of "client_ID c"] by (auto simp: unregisterClient_def)
next
  case (Some sess0)
  then obtain expiry where e: "unregister_expiry c sess0 = Inr expiry" using u by (auto simp: unregisterClient_def rbind_eq_Inr_conv)
  let ?st = "\<not> cl_forceRemoveSession c \<and> expiry \<noteq> 0" and ?sess = "sess0\<lparr>ExpiryInterval := expiry\<rparr>"
  let ?b = "b\<lparr>sessionStore := SetSessionExpiry (client_ID c) expiry (sessionStore b)\<rparr>"
  obtain b1 where w: "unregister_will hook Intn now ?st ?sess c ?b = Inr b1"
    and r: "(if ?st then Inr (b1\<lparr>offlineClients := al_put (client_ID c) (now + uint expiry * Second) (offlineClients b1),
                    br_srv := (br_srv b1)\<lparr>sv_clients := sv_clients (br_srv b1) - {client_ID c}\<rparr>\<rparr>)
             else sessionTerminatedLocked (client_ID c) b1) = Inr b'"
    using u Some e unfolding unregisterClient_def by (auto simp: rbind_eq_Inr_conv Let_def)
  have k: "sessions ?b = sessions b" by (simp add: sessions_def SetSessionExpiry_keys)
  have "br_inv ?b" using br_invD [OF inv] by (intro br_inv_keep [OF inv]) (simp_all add: k ses_inv_ops(4))
  from unregister_will_inv [OF this w] have inv1: "br_inv b1" and s1: "sessions b1 = sessions b" using k by simp_all
  have c: "client_ID c \<in> sessions b" using Some Session_Get_sessions by (metis option.distinct(1))
  show ?thesis
  proof (cases ?st)
    case True
    note d = br_invD [OF inv1]
    let ?b' = "b1\<lparr>offlineClients := al_put (client_ID c) (now + uint expiry * Second) (offlineClients b1),
                    br_srv := (br_srv b1)\<lparr>sv_clients := sv_clients (br_srv b1) - {client_ID c}\<rparr>\<rparr>"
    have s: "sessions ?b' = sessions b1" and o: "offline ?b' = insert (client_ID c) (offline b1)"
      by (simp_all add: sessions_def offline_def)
    have "br_inv ?b'"
    proof (rule br_invI)
      show "sv_clients (br_srv ?b') \<inter> offline ?b' = {}" using d(3) o by auto
      show "sessions ?b' = sv_clients (br_srv ?b') \<union> offline ?b'" using d(4) s o c s1 by auto
      show "e \<in> sessions ?b'" if "db_content (subscriptionsDB (br_srv ?b')) (e, [], f) \<noteq> None" for e f
        using that d(8) [of e f] s by simp
    qed (use d s in simp_all)
    then show ?thesis using r True by simp
  next
    case False
    then show ?thesis using r sessionTerminatedLocked_inv [OF inv1, of "client_ID c"] by auto
  qed
qed

lemma register_stores_inv:
  assumes "br_inv b" and "register_stores now connect old c b = Inr (r, qs, ua, b1)"
  shows "br_inv b1 \<and> (r \<longrightarrow> b1 = b \<and> client_ID c \<in> sessions b)"
proof (cases old)
  case None
  then show ?thesis using assms by (auto simp: register_stores_def register_new_def)
next
  case (Some s)
  show ?thesis
  proof (cases "\<not> IsExpired s now \<and> \<not> CleanStart connect")
    case True
    then show ?thesis using assms Some br_invD(5) [OF assms(1)]
      by (auto simp: register_stores_def register_new_def split: option.splits)
  next
    case False
    obtain b2 where b2: "sessionTerminatedLocked (ses_ClientID s) b = Inr b2" and i2: "br_inv b2"
      using sessionTerminatedLocked_inv [OF assms(1), of "ses_ClientID s"] by blast
    have "br_inv (will_signal True (client_ID c) b2)" by (rule br_inv_same [OF i2]) simp_all
    moreover have "b1 = will_signal True (client_ID c) b2 \<and> \<not> r"
      using assms(2) False unfolding Some register_stores_def by (simp add: b2 register_new_def)
    ultimately show ?thesis by simp
  qed
qed

lemma registerClient_inv:
  assumes inv: "br_inv b" and r: "registerClient now at connect old c b = Inr (resume, b', c')"
  shows "br_inv b'"
proof -
  obtain qs ua b1 sess where st: "register_stores now connect old c b = Inr (resume, qs, ua, b1)"
    and se: "register_session at connect c b1 = Inr sess"
    using r by (auto simp: registerClient_def rbind_eq_Inr_conv Let_def)
  have i: "ses_ClientID sess = client_ID c" using se by (auto simp: register_session_def Let_def split: if_splits option.splits)
  note d = br_invD [OF conjunct1 [OF register_stores_inv [OF inv st]]]
  have "br_srv b' = (br_srv b1)\<lparr>sv_clients := insert (client_ID c) (sv_clients (br_srv b1)),
                   queueStore := (queueStore (br_srv b1))(client_ID c \<mapsto> qs)\<rparr>"
    and "sessionStore b' = Session_Set sess (sessionStore b1)" and "offlineClients b' = al_del (client_ID c) (offlineClients b1)"
    and "unackStore b' = (unackStore b1)(client_ID c \<mapsto> ua)"
    using r st se by (auto simp: registerClient_def Let_def)
  moreover from this have s: "sessions b' = insert (client_ID c) (sessions b1)" and o: "offline b' = offline b1 - {client_ID c}"
    by (simp_all add: sessions_def offline_def Session_Set_def i)
  ultimately show ?thesis using d
    by (intro br_invI) (auto simp: ses_inv_ops(2))
qed

section \<open>The broker as a state machine\<close>

text \<open>
  A connection looks for an old session and registers later, when the lock may have been free in between, so that the
  session it found may be out of date; clients send packets and disconnect, sessions expire or are ended, wills are
  sent, and messages published, in any order.
\<close>

inductive br_step ::
    "Hooks \<Rightarrow> (bytes \<Rightarrow> Message \<Rightarrow> Message option) option \<Rightarrow> (bytes \<Rightarrow> nat \<Rightarrow> nat) \<Rightarrow> broker \<Rightarrow> broker \<Rightarrow> bool"
  for hooks :: Hooks and will_hook :: "(bytes \<Rightarrow> Message \<Rightarrow> Message option) option" and Intn :: "bytes \<Rightarrow> nat \<Rightarrow> nat" where
  register: "registerClient now at connect old c b = Inr (resume, b', c') \<Longrightarrow> br_step hooks will_hook Intn b b'"
| unregister: "unregisterClient will_hook Intn now c b = Inr b' \<Longrightarrow> br_step hooks will_hook Intn b b'"
| expire: "sessionExpireCheck now b = Inr b' \<Longrightarrow> br_step hooks will_hook Intn b b'"
| terminate: "TerminateSession clientID b = Inr (close, b') \<Longrightarrow> br_step hooks will_hook Intn b b'"
| will: "br_timers b w = Some t \<Longrightarrow> will_ready send now t \<Longrightarrow> will_goroutine will_hook Intn now send w t b = Inr b'
    \<Longrightarrow> br_step hooks will_hook Intn b b'"
| publish: "publishService_Publish Intn now msg b = Inr b' \<Longrightarrow> br_step hooks will_hook Intn b b'"
| packet: "client_ID c \<in> sv_clients (br_srv b)
    \<Longrightarrow> readHandle_packet hooks Intn now err p (br_srv b, sessionStore b, c) = Inr (next, srv', store', c')
    \<Longrightarrow> br_step hooks will_hook Intn b (b\<lparr>br_srv := srv', sessionStore := store'\<rparr>)"

lemma br_step_inv: "br_step hooks will_hook Intn b b' \<Longrightarrow> br_inv b \<Longrightarrow> br_inv b'"
proof (induction rule: br_step.induct)
  case (expire now b b')
  then show ?case by (auto simp: sessionExpireCheck_def intro: expire_loop_inv)
next
  case (terminate i b close b')
  then show ?case using sessionTerminatedLocked_inv [OF terminate.prems, of i]
    by (auto simp: TerminateSession_def rbind_eq_Inr_conv split: if_splits)
next
  case (publish now msg b b')
  then show ?case by (auto simp: publishService_Publish_def rbind_eq_Inr_conv dest!: deliverMessage_only intro: br_inv_deliver)
next
  case (packet c b now err p n srv' store' c')
  from readHandle_packet_frame [OF packet.hyps(2)] show ?case using br_inv_frame [OF packet.prems _ packet.hyps(1)] by blast
qed (blast intro: registerClient_inv unregisterClient_inv will_goroutine_inv)+

text \<open>
  C5. The stores of the broker stay consistent.  From an empty broker with any configuration, after any sequence of
  connections, packets, disconnections, expiries, terminations, will messages and publications: a client is never both
  connected and kept offline; the clients that are one or the other are exactly those with a session,
  and exactly those with a message queue, and each has its set of unacknowledged identifiers; every
  subscription outside the share groups belongs to such a client.
\<close>

theorem broker_consistent:
  assumes "(br_step hooks will_hook Intn)\<^sup>*\<^sup>* (defaultServer cfg) b"
  shows "sv_clients (br_srv b) \<inter> offline b = {} \<and> sessions b = sv_clients (br_srv b) \<union> offline b
    \<and> dom (queueStore (br_srv b)) = sessions b \<and> sessions b \<subseteq> dom (unackStore b)
    \<and> (\<forall>c f. db_content (subscriptionsDB (br_srv b)) (c, [], f) \<noteq> None \<longrightarrow> c \<in> sessions b)"
proof -
  from assms have "br_inv b"
    by (induction rule: rtranclp_induct) (simp_all add: defaultServer_inv br_step_inv)
  from br_invD [OF this] show ?thesis by blast
qed

section \<open>Resuming a session\<close>

lemma br_reachable_inv: "(br_step hooks will_hook Intn)\<^sup>*\<^sup>* (defaultServer cfg) b \<Longrightarrow> br_inv b"
  by (induction rule: rtranclp_induct) (simp_all add: defaultServer_inv br_step_inv)

lemma registerClient_parts:
  assumes "registerClient now at connect old c b = Inr (resume, b', c')"
  obtains qs ua b1 where "register_stores now connect old c b = Inr (resume, qs, ua, b1)"
    and "ss_queue c' = qs" and "cl_unackStore c' = ua" and "queueStore (br_srv b') (client_ID c) = Some qs"
    and "unackStore b' (client_ID c) = Some ua" and "subscriptionsDB (br_srv b') = subscriptionsDB (br_srv b1)"
  using assms by (auto simp: registerClient_def rbind_eq_Inr_conv Let_def)

lemma register_stores_new:
  assumes inv: "br_inv b" and old: "old = Session_Get (client_ID c) (sessionStore b)"
    and no: "\<not> (\<exists>s. old = Some s \<and> \<not> IsExpired s now \<and> \<not> CleanStart connect)"
    and r: "register_stores now connect old c b = Inr (resume, qs, ua, b1)"
  shows "\<not> resume \<and> q_list qs = [] \<and> unackpublish ua = {} \<and> (\<forall>f. db_content (subscriptionsDB (br_srv b1)) (client_ID c, [], f) = None)"
proof (cases old)
  case None
  then have "client_ID c \<notin> sessions b" using old Session_Get_sessions by metis
  then have "db_content (subscriptionsDB (br_srv b)) (client_ID c, [], f) = None" for f using br_invD(8) [OF inv] by blast
  then show ?thesis using r None
    by (auto simp: register_stores_def register_new_def Queue_Init_def Queue_New_def Unack_Init_def Unack_New_def Let_def)
next
  case (Some s)
  then have s: "ses_ClientID s = client_ID c"
    using br_invD(1) [OF inv] old by (auto simp: ses_inv_def Session_Get_def simp del: map_of_eq_Some_iff)
  obtain b2 where b2: "sessionTerminatedLocked (client_ID c) b = Inr b2"
    and n: "\<And>f. db_content (subscriptionsDB (br_srv b2)) (client_ID c, [], f) = None"
    using sessionTerminatedLocked_inv [OF inv, of "client_ID c"] by auto
  have "\<not> (\<not> IsExpired s now \<and> \<not> CleanStart connect)" using no Some by blast
  then have "(resume, qs, ua, b1) = register_new c (will_signal True (client_ID c) b2)"
    using r by (auto simp: register_stores_def Some s b2 split: if_splits)
  then show ?thesis using n
    by (simp add: register_new_def Queue_Init_def Queue_New_def Unack_Init_def Unack_New_def Let_def)
qed

text \<open>
  C8. What a client finds when it connects.  In every state the broker can reach, with the session it has stored for the
  client: when there is one, it has not expired and no clean start is asked for, the session is resumed, with the
  messages of the queue in their order, the identifiers of QoS 2 publishes not yet released and the
  subscriptions as they were; otherwise the client starts with an empty queue, no such identifiers and no
  subscriptions outside the share groups.
\<close>

theorem session_resume:
  assumes "(br_step hooks will_hook Intn)\<^sup>*\<^sup>* (defaultServer cfg) b"
    and "registerClient now at connect (Session_Get (client_ID c) (sessionStore b)) c b = Inr (resume, b', c')"
  shows "if \<exists>s. Session_Get (client_ID c) (sessionStore b) = Some s \<and> \<not> IsExpired s now \<and> \<not> CleanStart connect
    then resume \<and> (\<exists>q u. queueStore (br_srv b) (client_ID c) = Some q \<and> unackStore b (client_ID c) = Some u
           \<and> q_list (ss_queue c') = q_list q \<and> unackpublish (cl_unackStore c') = unackpublish u)
         \<and> subscriptionsDB (br_srv b') = subscriptionsDB (br_srv b)
    else \<not> resume \<and> q_list (ss_queue c') = [] \<and> unackpublish (cl_unackStore c') = {}
         \<and> (\<forall>f. db_content (subscriptionsDB (br_srv b')) (client_ID c, [], f) = None)"
proof -
  have inv: "br_inv b" using br_reachable_inv [OF assms(1)] .
  let ?old = "Session_Get (client_ID c) (sessionStore b)"
  obtain qs ua b1 where r: "register_stores now connect ?old c b = Inr (resume, qs, ua, b1)"
    and p: "ss_queue c' = qs" "cl_unackStore c' = ua" "subscriptionsDB (br_srv b') = subscriptionsDB (br_srv b1)"
    using registerClient_parts [OF assms(2)] by metis
  show ?thesis
  proof (cases "\<exists>s. ?old = Some s \<and> \<not> IsExpired s now \<and> \<not> CleanStart connect")
    case True
    then obtain s where s: "?old = Some s" "\<not> IsExpired s now" "\<not> CleanStart connect" by blast
    then have "client_ID c \<in> sessions b" using Session_Get_sessions by (metis option.distinct(1))
    then obtain q u where "queueStore (br_srv b) (client_ID c) = Some q" "unackStore b (client_ID c) = Some u"
      using br_invD(5,6) [OF inv] by blast
    then have "resume \<and> b1 = b \<and> ua = Unack_Init False u \<and> qs = Queue_Init \<lparr>io_CleanStart = False, io_Version = ss_version c,
          io_ReadBytesLimit = o_ClientMaxPacketSize (cl_opts c)\<rparr> q" and "queueStore (br_srv b) (client_ID c) = Some q"
      and "unackStore b (client_ID c) = Some u"
      using r s by (auto simp: register_stores_def)
    then show ?thesis using p s by (auto simp: Queue_Init_def Unack_Init_def Let_def)
  next
    case False
    from register_stores_new [OF inv refl False r] show ?thesis using False p by simp
  qed
qed

text \<open>
  The time a session may last is counted from the connection, not from the disconnection.  A client connected at \<open>t0\<close>
  for longer than its session expiry interval disconnects at \<open>t1\<close>; its session is kept, to be removed only after
  \<open>t1\<close> plus the interval; but when the client comes back before that, without a clean start, the session is
  not resumed.
\<close>

lemma session_lost_after_long_connection:
  assumes "(br_step hooks will_hook Intn)\<^sup>*\<^sup>* (defaultServer cfg) b" and "Session_Get (client_ID c) (sessionStore b) = Some s"
    and "ss_version c \<noteq> Version5" and "\<not> cl_forceRemoveSession c" and "ExpiryInterval s \<noteq> 0"
    and "ConnectedAt s + uint (ExpiryInterval s) * Second < t1" and "unregisterClient will_hook Intn t1 c b = Inr b1"
    and "t1 \<le> now" and "now \<le> t1 + uint (ExpiryInterval s) * Second"
    and "registerClient now at connect (Session_Get (client_ID c) (sessionStore b1)) c b1 = Inr (resume, b2, c2)"
  shows "map_of (offlineClients b1) (client_ID c) = Some (t1 + uint (ExpiryInterval s) * Second) \<and> \<not> resume"
proof -
  let ?b = "b\<lparr>sessionStore := SetSessionExpiry (client_ID c) (ExpiryInterval s) (sessionStore b)\<rparr>"
  let ?sess = "s\<lparr>ExpiryInterval := ExpiryInterval s\<rparr>"
  have e: "unregister_expiry c s = Inr (ExpiryInterval s)" using assms(3) by (simp add: unregister_expiry_def)
  obtain bw where w: "unregister_will will_hook Intn t1 True ?sess c ?b = Inr bw"
    and b1: "b1 = bw\<lparr>offlineClients := al_put (client_ID c) (t1 + uint (ExpiryInterval s) * Second) (offlineClients bw),
        br_srv := (br_srv bw)\<lparr>sv_clients := sv_clients (br_srv bw) - {client_ID c}\<rparr>\<rparr>"
    using assms(7) unfolding unregisterClient_def assms(2) by (auto simp: e assms(4,5) Let_def rbind_eq_Inr_conv)
  have "sessionStore bw = sessionStore ?b"
    using w by (auto simp: unregister_will_def Let_def split: option.splits if_splits dest!: sendWillLocked_only)
  then have "Session_Get (client_ID c) (sessionStore b1) = Some s"
    using assms(2) by (simp add: b1 Session_Get_ops)
  moreover have "IsExpired s now" using assms(6,8) by (simp add: IsExpired_def Second_def)
  moreover have "br_inv b1" using unregisterClient_inv [OF br_reachable_inv [OF assms(1)] assms(7)] .
  ultimately have "\<not> resume"
    using register_stores_new [of b1 "Some s" c now connect] registerClient_parts [OF assms(10)] by (metis option.inject)
  then show ?thesis by (simp add: b1)
qed

lemma register_stores_total:
  assumes "br_inv b"
  shows "\<exists>r. register_stores now connect old c b = Inr r"
proof (cases old)
  case (Some s)
  obtain b' where "sessionTerminatedLocked (ses_ClientID s) b = Inr b'"
    using sessionTerminatedLocked_inv [OF assms, of "ses_ClientID s"] by blast
  then show ?thesis by (auto simp: Some register_stores_def register_new_def split: option.split)
qed (auto simp: register_stores_def register_new_def)

section \<open>A connection, a disconnection and a return\<close>

definition sample_connect :: Connect where
  "sample_connect = \<lparr>con_Version = Version311, con_FixHeader = None, ProtocolLevel = 4, UsernameFlag = False,
     ProtocolName = [0x4D, 0x51, 0x54, 0x54], PasswordFlag = False, WillRetain = False, WillQos = 0, WillFlag = False,
     WillTopic = [], WillMsg = [], CleanStart = False, KeepAlive = 60, con_ClientID = [0x31], con_Username = [],
     con_Password = [], con_Properties = None, WillProperties = None\<rparr>"

abbreviation sample_v3 :: client where
  "sample_v3 \<equiv> sample_client\<lparr>ss_version := Version311\<rparr>"

abbreviation sample_broker :: broker where
  "sample_broker \<equiv> defaultServer DefaultMQTTConfig"

definition sample_session :: Session where
  "sample_session = \<lparr>ses_ClientID = [0x31], ses_Will = None, WillDelayInterval' = 0, ConnectedAt = 0, ExpiryInterval = 7200\<rparr>"

lemma sample_register:
  obtains b c where "registerClient 0 0 sample_connect None sample_v3 sample_broker = Inr (False, b, c)"
    and "sessionStore b = [([0x31], sample_session)]" and "sv_clients (br_srv b) = {[0x31]}"
proof -
  have "\<exists>b c. registerClient 0 0 sample_connect None sample_v3 sample_broker = Inr (False, b, c)
      \<and> sessionStore b = [([0x31], sample_session)] \<and> sv_clients (br_srv b) = {[0x31]}"
    by (simp add: registerClient_def register_stores_def register_new_def register_session_def defaultServer_def
        sample_connect_def IsVersion3X_def connect_will_def DefaultMQTTConfig_def Second_def sample_client_def sample_options_def
        Session_Set_def Session_New_def sample_session_def Let_def)
  then show thesis using that by blast
qed

lemma sample_ID [simp]: "o_ClientID (cl_opts sample_client) = [0x31]"
  by (simp add: sample_client_def sample_options_def)

theorem broker_consistent_witness:
  "\<exists>b. (br_step no_hooks None (\<lambda>_ _. 0))\<^sup>*\<^sup>* sample_broker b \<and> sv_clients (br_srv b) = {[0x31]} \<and> sessions b = {[0x31]} \<union> offline b"
proof -
  obtain b c where r: "registerClient 0 0 sample_connect None sample_v3 sample_broker = Inr (False, b, c)"
    and o: "sv_clients (br_srv b) = {[0x31]}" by (rule sample_register)
  have s: "(br_step no_hooks None (\<lambda>_ _. 0))\<^sup>*\<^sup>* sample_broker b" using br_step.register [OF r] by (rule r_into_rtranclp)
  from broker_consistent [OF s] o s show ?thesis by auto
qed

theorem session_resume_witness:
  "\<exists>b c. registerClient 0 0 sample_connect None sample_v3 sample_broker = Inr (False, b, c) \<and> q_list (ss_queue c) = []"
proof -
  obtain b c where r: "registerClient 0 0 sample_connect None sample_v3 sample_broker = Inr (False, b, c)" by (rule sample_register)
  have n: "Session_Get (client_ID sample_v3) (sessionStore sample_broker) = None"
    by (simp add: defaultServer_def Session_Get_def Session_New_def)
  have "q_list (ss_queue c) = []"
    using session_resume [OF rtranclp.rtrancl_refl, of 0 0 sample_connect sample_v3 DefaultMQTTConfig False b c] r n by simp
  with r show ?thesis by blast
qed

lemma session_lost_after_long_connection_witness:
  "\<exists>b1 b2 c2. registerClient (8001 * Second) 0 sample_connect (Session_Get [0x31] (sessionStore b1)) sample_v3 b1 = Inr (False, b2, c2)
    \<and> map_of (offlineClients b1) [0x31] = Some (15200 * Second)"
proof -
  obtain b c where r: "registerClient 0 0 sample_connect None sample_v3 sample_broker = Inr (False, b, c)"
    and s: "sessionStore b = [([0x31], sample_session)]" by (rule sample_register)
  have reach: "(br_step no_hooks None (\<lambda>_ _. 0))\<^sup>*\<^sup>* sample_broker b" using br_step.register [OF r] by (rule r_into_rtranclp)
  have g: "Session_Get (client_ID sample_v3) (sessionStore b) = Some sample_session" by (simp add: s Session_Get_def)
  have "unregister_expiry sample_v3 sample_session = Inr 7200" by (simp add: unregister_expiry_def sample_session_def)
  then obtain b1 where u: "unregisterClient None (\<lambda>_ _. 0) (8000 * Second) sample_v3 b = Inr b1"
    using g by (auto simp: unregisterClient_def unregister_will_def sample_session_def sample_client_def sample_options_def)
  let ?old = "Session_Get (client_ID sample_v3) (sessionStore b1)"
  have inv: "br_inv b1" using unregisterClient_inv [OF br_reachable_inv [OF reach] u] .
  have "\<exists>r. register_stores (8001 * Second) sample_connect ?old sample_v3 b1 = Inr r"
    by (rule register_stores_total [OF inv])
  then obtain resume b2 c2 where r2: "registerClient (8001 * Second) 0 sample_connect ?old sample_v3 b1 = Inr (resume, b2, c2)"
    by (auto simp: registerClient_def register_session_def sample_connect_def sample_client_def IsVersion3X_def Let_def)
  have "map_of (offlineClients b1) (client_ID sample_v3) = Some (8000 * Second + uint (ExpiryInterval sample_session) * Second) \<and> \<not> resume"
    by (rule session_lost_after_long_connection [OF reach g _ _ _ _ u _ _ r2])
      (simp_all add: sample_session_def sample_client_def Second_def)
  then show ?thesis using r2 by (auto simp: sample_session_def Second_def)
qed

section \<open>Where the code departs from its intent\<close>

text \<open>The retain flag of a will is dropped, and a message that the hook puts in its place is not the one sent.\<close>

lemma will_retain_ignored: "connect_will connect = Some m \<Longrightarrow> \<not> msg_Retained m"
  by (auto simp: connect_will_def setWillProperties_def split: if_splits option.splits)

lemma will_hook_message_ignored:
  "f c msg \<noteq> None \<Longrightarrow> sendWillLocked (Some f) Intn now msg c b = sendWillLocked None Intn now msg c b"
  by (auto simp: sendWillLocked_def)

text \<open>The set of unacknowledged identifiers of an ended session stays in its map.\<close>

lemma terminated_unack_stays:
  "br_inv b \<Longrightarrow> sessionTerminatedLocked c b = Inr b' \<Longrightarrow> unackStore b' = unackStore b"
  using sessionTerminatedLocked_inv [of b c] by auto

section \<open>The websocket connection\<close>

text \<open>
  \<^verbatim>\<open>wsConn\<close>: \<open>ws_in\<close> are the binary messages still to be received; a message of another type is an error and is not modelled.
  \<open>None\<close> when there is no message left.
\<close>

record wsConn =
  ws_buf :: "bytes option"
  ws_r :: nat
  ws_in :: "bytes list"

definition wsConn_copy :: "nat \<Rightarrow> bytes \<Rightarrow> wsConn \<Rightarrow> bytes \<times> wsConn" where
  "wsConn_copy len buf ws =
     (let p = take len (drop (ws_r ws) buf);
          r = ws_r ws + length p in
      if length buf \<le> r + 1 then (p, ws\<lparr>ws_buf := None, ws_r := 0\<rparr>)
      else (p, ws\<lparr>ws_buf := Some buf, ws_r := r\<rparr>))"

definition wsConn_Read :: "nat \<Rightarrow> wsConn \<Rightarrow> (bytes \<times> wsConn) option" where
  "wsConn_Read len ws =
     (case ws_buf ws of
        Some buf \<Rightarrow> Some (wsConn_copy len buf ws)
      | None \<Rightarrow>
          (case ws_in ws of
             [] \<Rightarrow> None
           | buf # rest \<Rightarrow> Some (wsConn_copy len buf (ws\<lparr>ws_in := rest\<rparr>))))"

text \<open>Reading into a buffer that holds the message and more gives the message.\<close>

lemma wsConn_Read_whole:
  assumes "ws_buf ws = None" and "ws_r ws = 0" and "ws_in ws = m # rest" and "length m \<le> len"
  shows "wsConn_Read len ws = Some (m, ws\<lparr>ws_in := rest\<rparr>)"
  using assms by (cases ws) (simp add: wsConn_Read_def wsConn_copy_def Let_def)

text \<open>
  A websocket message that is one byte longer than the reader's buffer loses its last byte: the read returns the
  first bytes, and the next read starts with the next message.
\<close>

lemma wsConn_loses_byte:
  assumes "ws_buf ws = None" and "ws_r ws = 0" and "ws_in ws = (m @ [x]) # m' # rest" and "length m = len" and "length m' \<le> len"
  shows "\<exists>ws1 ws2. wsConn_Read len ws = Some (m, ws1) \<and> wsConn_Read len ws1 = Some (m', ws2)"
  using assms by (cases ws) (auto simp: wsConn_Read_def wsConn_copy_def Let_def)

lemma wsConn_loses_byte_witness:
  "\<exists>ws1 ws2. wsConn_Read 2 \<lparr>ws_buf = None, ws_r = 0, ws_in = [[1, 2, 3], [4, 5]]\<rparr> = Some ([1, 2], ws1)
    \<and> wsConn_Read 2 ws1 = Some ([4, 5], ws2)"
  using wsConn_loses_byte [of "\<lparr>ws_buf = None, ws_r = 0, ws_in = [[1, 2, 3], [4, 5]]\<rparr>" "[1, 2]" 3 "[4, 5]" "[]" 2] by simp

end
