(* ===== verification/Connection.thy ===== *)
theory Connection
  imports Sessions
begin

text \<open>
  The connect exchange, \<^verbatim>\<open>server/client.go\<close>: the default options of a connection, basic and enhanced authentication, and
  the loop \<^verbatim>\<open>connectWithTimeOut\<close> up to the registration of theory \<open>Sessions\<close> and the CONNACK packet.  \<open>connack_announces\<close>
  shows that the limits this packet announces are those the other theories work with.
\<close>

section \<open>Options of a connection\<close>

record AuthOptions =
  ao_SessionExpiry :: uint32
  ao_ReceiveMax :: uint16
  ao_MaximumQoS :: byte
  ao_MaxPacketSize :: uint32
  ao_TopicAliasMax :: uint16
  ao_RetainAvailable :: bool
  ao_WildcardSubAvailable :: bool
  ao_SubIDAvailable :: bool
  ao_SharedSubAvailable :: bool
  ao_KeepAlive :: uint16
  ao_UserProperties :: "UserProperty list"
  ao_AssignedClientID :: "bytes option"
  ao_ResponseInfo :: "bytes option"
  ao_MaxInflight :: uint16

text \<open>A version 5 packet without properties would be a nil dereference.\<close>

definition defaultAuthOptions :: "Connect \<Rightarrow> client \<Rightarrow> AuthOptions res" where
  "defaultAuthOptions connect c =
     (let cfg = cl_config c;
          opts = \<lparr>ao_SessionExpiry = word_of_int (cfg_SessionExpiry cfg div Second), ao_ReceiveMax = cfg_ReceiveMax cfg,
            ao_MaximumQoS = cfg_MaximumQoS cfg, ao_MaxPacketSize = cfg_MaxPacketSize cfg, ao_TopicAliasMax = cfg_TopicAliasMax cfg,
            ao_RetainAvailable = cfg_RetainAvailable cfg, ao_WildcardSubAvailable = cfg_WildcardAvailable cfg,
            ao_SubIDAvailable = cfg_SubscriptionIDAvailable cfg, ao_SharedSubAvailable = cfg_SharedSubAvailable cfg,
            ao_KeepAlive = cfg_MaxKeepAlive cfg, ao_UserProperties = [], ao_AssignedClientID = None, ao_ResponseInfo = None,
            ao_MaxInflight = cfg_MaxInflight cfg\<rparr>;
          opts = (if KeepAlive connect < ao_KeepAlive opts then opts\<lparr>ao_KeepAlive := KeepAlive connect\<rparr> else opts) in
      if ss_version c = Version5 then
        (case con_Properties connect of
           None \<Rightarrow> Inl Panic
         | Some p \<Rightarrow>
             Inr (case SessionExpiryInterval p of
                    None \<Rightarrow> opts\<lparr>ao_SessionExpiry := 0\<rparr>
                  | Some i \<Rightarrow> if i < ao_SessionExpiry opts then opts\<lparr>ao_SessionExpiry := i\<rparr> else opts))
      else Inr opts)"

section \<open>Authentication\<close>

text \<open>
  The hooks are parameters; the request holds the options by reference, so the options a hook leaves are part of its
  result.
\<close>

type_synonym OnAuth = "client \<Rightarrow> Auth \<Rightarrow> AuthOptions \<Rightarrow> AuthOptions \<times> AuthResponse option \<times> go_error option"

record EnhancedAuthResponse =
  er_Continue :: bool
  er_OnAuth :: "OnAuth option"
  er_AuthData :: "bytes option"

record ConnectHooks =
  OnBasicAuth :: "(client \<Rightarrow> Connect \<Rightarrow> AuthOptions \<Rightarrow> AuthOptions \<times> go_error option) option"
  OnEnhancedAuth :: "(client \<Rightarrow> Connect \<Rightarrow> AuthOptions \<Rightarrow> AuthOptions \<times> EnhancedAuthResponse option \<times> go_error option) option"

definition basicAuth :: "ConnectHooks \<Rightarrow> Connect \<Rightarrow> AuthOptions \<Rightarrow> client \<Rightarrow> AuthOptions \<times> go_error option" where
  "basicAuth hooks conn authOpts c = (case OnBasicAuth hooks of None \<Rightarrow> (authOpts, None) | Some f \<Rightarrow> f c conn authOpts)"

text \<open>The texts of the two errors are left out.\<close>

definition enhancedAuth ::
    "ConnectHooks \<Rightarrow> Connect \<Rightarrow> AuthOptions \<Rightarrow> client \<Rightarrow> AuthOptions \<times> EnhancedAuthResponse option \<times> go_error option" where
  "enhancedAuth hooks conn authOpts c =
     (case OnEnhancedAuth hooks of
        None \<Rightarrow> (authOpts, None, Some (OtherError []))
      | Some f \<Rightarrow>
          let (opts, resp, err) = f c conn authOpts in
          if err = None \<and> resp = None then (opts, resp, Some (OtherError [])) else (opts, resp, err))"

definition authHandler :: "OnAuth \<Rightarrow> Auth \<Rightarrow> AuthOptions \<Rightarrow> client \<Rightarrow> AuthOptions \<times> AuthResponse option \<times> go_error option" where
  "authHandler onAuth auth authOpts c =
     (let (opts, resp, err) = onAuth c auth authOpts in
      if err = None \<and> resp = None then (opts, None, Some (OtherError [])) else (opts, resp, err))"

definition ClientIdentifierNotValid :: byte where "ClientIdentifierNotValid = 0x85"
definition MalformedPacket :: byte where "MalformedPacket = 0x81"
definition NotAuthorized :: byte where "NotAuthorized = 0x87"
definition V3NotAuthorized :: byte where "V3NotAuthorized = 0x05"

text \<open>The options, when they were made, the answer of enhanced authentication, the error, and the client with its version set.\<close>

definition connectHandler ::
    "ConnectHooks \<Rightarrow> Connect \<Rightarrow> client \<Rightarrow> (AuthOptions option \<times> EnhancedAuthResponse option \<times> go_error option \<times> client) res" where
  "connectHandler hooks conn c =
     (if \<not> cfg_AllowZeroLenClientID (cl_config c) \<and> length (con_ClientID conn) = 0
      then Inr (None, None, Some (CodesError (codes_NewError ClientIdentifierNotValid)), c)
      else
        let c = c\<lparr>ss_version := con_Version conn\<rparr> in
        rbind (defaultAuthOptions conn c) (\<lambda>authOpts.
        if IsVersion5 (ss_version c) \<and> con_Properties conn = None then Inl Panic
        else
          let method = (case con_Properties conn of None \<Rightarrow> None | Some p \<Rightarrow> AuthMethod p);
              (authOpts, err) =
                (if IsVersion3X (ss_version c) \<or> IsVersion5 (ss_version c) \<and> method = None
                 then basicAuth hooks conn authOpts c else (authOpts, None)) in
          if ss_version c = Version5 \<and> method \<noteq> None then
            (let (authOpts, resp, err) = enhancedAuth hooks conn authOpts c in Inr (Some authOpts, resp, err, c))
          else Inr (Some authOpts, None, err, c)))"

text \<open>
  \<^verbatim>\<open>sendErrConnack\<close>.  The code writes the overridden code into the error itself, also where that is a shared value such as
  \<^verbatim>\<open>codes.ErrProtocol\<close>; the model changes only the packet.
\<close>

definition sendErrConnack :: "go_error \<Rightarrow> client \<Rightarrow> client" where
  "sendErrConnack err c =
     (case converError (Some err) of
        None \<Rightarrow> c
      | Some codeErr \<Rightarrow>
          client_write (PConnack \<lparr>cack_Version = ss_version c, cack_FixHeader = None,
            cack_Code = (if IsVersion3X (ss_version c) \<and> V3NotAuthorized < ce_Code codeErr then NotAuthorized else ce_Code codeErr),
            SessionPresent = False, cack_Properties = getErrorProperties c codeErr\<rparr>) c)"

section \<open>A successful connection\<close>

definition bool2Byte :: "bool \<Rightarrow> byte" where
  "bool2Byte bo = (if bo then 1 else 0)"

text \<open>
  The options of the client and the properties of the CONNACK packet once authentication has succeeded; \<open>uuid\<close> is the
  value of \<^verbatim>\<open>getRandomUUID\<close>.
\<close>

definition connect_options :: "bytes \<Rightarrow> Connect \<Rightarrow> AuthOptions \<Rightarrow> client \<Rightarrow> AuthOptions \<times> client" where
  "connect_options uuid conn authOpts c =
     (let o1 = (cl_opts c)\<lparr>o_RetainAvailable := ao_RetainAvailable authOpts, o_WildcardSubAvailable := ao_WildcardSubAvailable authOpts,
            o_SubIDAvailable := ao_SubIDAvailable authOpts, o_SharedSubAvailable := ao_SharedSubAvailable authOpts,
            o_SessionExpiry := ao_SessionExpiry authOpts, o_ReceiveMax := ao_ReceiveMax authOpts,
            o_ClientMaxPacketSize := 0xFFFFFFFF, o_ServerMaxPacketSize := ao_MaxPacketSize authOpts,
            o_ServerTopicAliasMax := ao_TopicAliasMax authOpts, o_Username := con_Username conn\<rparr>;
          (authOpts, o2) =
            (if length (con_ClientID conn) = 0 then
               (if length (nonempty (ao_AssignedClientID authOpts)) \<noteq> 0
                then (authOpts, o1\<lparr>o_ClientID := nonempty (ao_AssignedClientID authOpts)\<rparr>)
                else (authOpts\<lparr>ao_AssignedClientID := Some uuid\<rparr>, o1\<lparr>o_ClientID := uuid\<rparr>))
             else (authOpts, o1\<lparr>o_ClientID := con_ClientID conn\<rparr>)) in
      (authOpts, c\<lparr>cl_opts := o2, ss_MaxInflight := ao_MaxInflight authOpts\<rparr>))"

definition connack_properties :: "AuthOptions \<Rightarrow> Properties" where
  "connack_properties authOpts =
     Properties_zero\<lparr>SessionExpiryInterval := Some (ao_SessionExpiry authOpts), ReceiveMaximum := Some (ao_ReceiveMax authOpts),
       MaximumQoS := Some (if 2 \<le> ao_MaximumQoS authOpts then 1 else 0), RetainAvailable := Some (bool2Byte (ao_RetainAvailable authOpts)),
       TopicAliasMaximum := Some (ao_TopicAliasMax authOpts), WildcardSubAvailable := Some (bool2Byte (ao_WildcardSubAvailable authOpts)),
       SubIDAvailable := Some (bool2Byte (ao_SubIDAvailable authOpts)), SharedSubAvailable := Some (bool2Byte (ao_SharedSubAvailable authOpts)),
       MaximumPacketSize := Some (ao_MaxPacketSize authOpts), ServerKeepAlive := Some (ao_KeepAlive authOpts),
       AssignedClientID := ao_AssignedClientID authOpts, ResponseInfo := ao_ResponseInfo authOpts\<rparr>"

definition connect_version5 :: "Connect \<Rightarrow> AuthOptions \<Rightarrow> client \<Rightarrow> (Properties option \<times> client) res" where
  "connect_version5 conn authOpts c =
     (if ss_version c = Version5 then
        (case con_Properties conn of
           None \<Rightarrow> Inl Panic
         | Some p \<Rightarrow>
             Inr (Some (connack_properties authOpts),
               c\<lparr>ss_MaxInflight := convertUint16 (ReceiveMaximum p) (ss_MaxInflight c),
                 cl_opts := (cl_opts c)\<lparr>
                   o_ClientMaxPacketSize := convertUint32 (MaximumPacketSize p) (o_ClientMaxPacketSize (cl_opts c)),
                   o_ClientTopicAliasMax := convertUint16 (TopicAliasMaximum p) (o_ClientTopicAliasMax (cl_opts c)),
                   o_AuthMethod := AuthMethod p, o_KeepAlive := ao_KeepAlive authOpts\<rparr>,
                 cl_serverReceiveMaximumQuota := o_ReceiveMax (cl_opts c),
                 cl_aliasMapper := aliasMapper_make (o_ReceiveMax (cl_opts c))\<rparr>))
      else Inr (None, c\<lparr>cl_opts := (cl_opts c)\<lparr>o_KeepAlive := KeepAlive conn\<rparr>\<rparr>))"

definition connect_client :: "bytes \<Rightarrow> Connect \<Rightarrow> AuthOptions \<Rightarrow> client \<Rightarrow> (Properties option \<times> client) res" where
  "connect_client uuid conn authOpts c =
     (let (authOpts, c) = connect_options uuid conn authOpts c in
      rbind (connect_version5 conn authOpts c) (\<lambda>(ppt, c).
      Inr (ppt, c\<lparr>ss_pl := newPacketIDLimiter (ss_MaxInflight c)\<rparr>)))"

section \<open>The loop until the client is connected\<close>

text \<open>
  What the loop waits for: a packet of \<^verbatim>\<open>client.in\<close>, that the channel is closed, or the timer of five seconds.  Its local
  variables are the connect packet, the options and the hook for further authentication packets.
\<close>

datatype connect_input = InPacket Packet | InClosed | TimedOut

record connect_vars =
  cv_conn :: "Connect option"
  cv_authOpts :: "AuthOptions option"
  cv_onAuth :: "OnAuth option"

text \<open>The outcome of the \<^verbatim>\<open>switch\<close>: an error, more authentication with its data, or success.\<close>

datatype auth_outcome = Auth_error go_error | Auth_more "bytes option" | Auth_done

abbreviation protocol_error :: auth_outcome where
  "protocol_error \<equiv> Auth_error (CodesError (codes_NewError ProtocolError))"

fun connect_switch :: "ConnectHooks \<Rightarrow> Packet \<Rightarrow> connect_vars \<Rightarrow> client \<Rightarrow> (auth_outcome \<times> connect_vars \<times> client) res" where
  "connect_switch hooks (PConnect p) v c =
     (if cv_conn v \<noteq> None then Inr (protocol_error, v, c)
      else
        rbind (connectHandler hooks p c) (\<lambda>(authOpts, resp, err, c').
        let v' = v\<lparr>cv_conn := Some p, cv_authOpts := authOpts\<rparr> in
        case err of
          Some e \<Rightarrow> Inr (Auth_error e, v', c')
        | None \<Rightarrow>
            (case resp of
               Some r \<Rightarrow> if er_Continue r then Inr (Auth_more (er_AuthData r), v'\<lparr>cv_onAuth := er_OnAuth r\<rparr>, c') else Inr (Auth_done, v', c')
             | None \<Rightarrow> Inr (Auth_done, v', c'))))"
| "connect_switch hooks (PAuth au) v c =
     (if cv_conn v = None \<or> IsVersion3X (ss_version c) then Inr (protocol_error, v, c)
      else
        (case cv_onAuth v of
           None \<Rightarrow> Inr (protocol_error, v, c)
         | Some onAuth \<Rightarrow>
             if auth_Code au \<noteq> ContinueAuthentication then Inr (protocol_error, v, c)
             else
               (case cv_authOpts v of
                  None \<Rightarrow> Inl Panic
                | Some authOpts \<Rightarrow>
                    let (opts, resp, err) = authHandler onAuth au authOpts c;
                        v' = v\<lparr>cv_authOpts := Some opts\<rparr> in
                    (case err of
                       Some e \<Rightarrow> Inr (Auth_error e, v', c)
                     | None \<Rightarrow>
                         (case resp of
                            None \<Rightarrow> Inl Panic
                          | Some r \<Rightarrow> if Continue r then Inr (Auth_more (ar_AuthData r), v', c) else Inr (Auth_done, v', c))))))"
| "connect_switch hooks _ v c = Inr (Auth_error (CodesError (codes_NewError MalformedPacket)), v, c)"

text \<open>\<^verbatim>\<open>client.register\<close>: \<open>None\<close> while another client with the same identifier is being closed.\<close>

definition connect_register :: "int \<Rightarrow> int \<Rightarrow> Connect \<Rightarrow> client \<Rightarrow> broker \<Rightarrow> (bool \<times> broker \<times> client) res option" where
  "connect_register now at conn c b =
     (case lockDuplicatedID c b of None \<Rightarrow> None | Some old \<Rightarrow> Some (registerClient now at conn old c b))"

definition connect_success ::
    "bytes \<Rightarrow> int \<Rightarrow> int \<Rightarrow> Connect \<Rightarrow> AuthOptions \<Rightarrow> client \<Rightarrow> broker \<Rightarrow> (broker \<times> client) res option" where
  "connect_success uuid now at conn authOpts c b =
     (case connect_client uuid conn authOpts c of
        Inl e \<Rightarrow> Some (Inl e)
      | Inr (connackPpt, c1) \<Rightarrow>
          (case connect_register now at conn c1 b of
             None \<Rightarrow> None
           | Some r \<Rightarrow>
               Some (rbind r (\<lambda>(sessionResume, b', c2).
               let connack = Connect_NewConnackPacket conn Success sessionResume in
               Inr (b', client_write (PConnack (if con_Version conn = Version5 then connack\<lparr>cack_Properties := connackPpt\<rparr> else connack)) c2)))))"

definition connect_continue :: "Connect \<Rightarrow> bytes option \<Rightarrow> client \<Rightarrow> client res" where
  "connect_continue conn authData c =
     (case con_Properties conn of
        None \<Rightarrow> Inl Panic
      | Some p \<Rightarrow>
          Inr (client_write (PAuth \<lparr>auth_FixHeader = None, auth_Code = ContinueAuthentication,
            auth_Properties = Some (Properties_zero\<lparr>AuthMethod := AuthMethod p, AuthData := authData\<rparr>)\<rparr>) c))"

definition ErrConnectTimeOut :: go_error where
  "ErrConnectTimeOut = OtherError [0x63, 0x6F, 0x6E, 0x6E, 0x65, 0x63, 0x74, 0x20, 0x74, 0x69, 0x6D, 0x65, 0x20, 0x6F, 0x75, 0x74]"

text \<open>The loop over the inputs; \<open>None\<close> when it is still waiting at the end of the list.\<close>

fun connect_loop ::
    "ConnectHooks \<Rightarrow> bytes \<Rightarrow> int \<Rightarrow> int \<Rightarrow> connect_input list \<Rightarrow> connect_vars \<Rightarrow> client \<Rightarrow> broker
      \<Rightarrow> (go_error option \<times> broker \<times> client) res option" where
  "connect_loop hooks uuid now at [] v c b = None"
| "connect_loop hooks uuid now at (InClosed # ins) v c b = Some (Inr (None, b, c))"
| "connect_loop hooks uuid now at (TimedOut # ins) v c b = Some (Inr (Some ErrConnectTimeOut, b, c))"
| "connect_loop hooks uuid now at (InPacket p # ins) v c b =
     (case connect_switch hooks p v c of
        Inl e \<Rightarrow> Some (Inl e)
      | Inr (Auth_error err, v', c') \<Rightarrow> Some (Inr (Some err, b, sendErrConnack err c'))
      | Inr (Auth_more authData, v', c') \<Rightarrow>
          (case cv_conn v' of
             None \<Rightarrow> Some (Inl Panic)
           | Some conn \<Rightarrow>
               (case connect_continue conn authData c' of
                  Inl e \<Rightarrow> Some (Inl e)
                | Inr c'' \<Rightarrow> connect_loop hooks uuid now at ins v' c'' b))
      | Inr (Auth_done, v', c') \<Rightarrow>
          (case (cv_conn v', cv_authOpts v') of
             (Some conn, Some authOpts) \<Rightarrow>
               map_option (\<lambda>r. rbind r (\<lambda>(b', c''). Inr (None, b', c''))) (connect_success uuid now at conn authOpts c' b)
           | _ \<Rightarrow> Some (Inl Panic)))"

definition connectWithTimeOut ::
    "ConnectHooks \<Rightarrow> bytes \<Rightarrow> int \<Rightarrow> int \<Rightarrow> connect_input list \<Rightarrow> client \<Rightarrow> broker \<Rightarrow> (bool \<times> broker \<times> client) res option" where
  "connectWithTimeOut hooks uuid now at ins c b =
     map_option (\<lambda>r. rbind r (\<lambda>(err, b', c').
       if err \<noteq> None then Inr (False, b', setError err c') else Inr (True, b', c')))
       (connect_loop hooks uuid now at ins \<lparr>cv_conn = None, cv_authOpts = None, cv_onAuth = None\<rparr> c b)"

section \<open>What the CONNACK announces is what the broker enforces\<close>












text \<open>The channel closed before a connect packet came is reported as a success.\<close>

lemma closed_is_ok: "connectWithTimeOut hooks uuid now at [InClosed] c b = Some (Inr (True, b, c))"
  by (simp add: connectWithTimeOut_def)

text \<open>A broker for QoS 2 announces a maximum of 1, one for QoS 1 announces 0.\<close>

lemma connack_maximum_qos: "MaximumQoS (connack_properties ao) = Some (if 2 \<le> ao_MaximumQoS ao then 1 else 0)"
  by (simp add: connack_properties_def)

text \<open>A version 3 client is sent a code that its protocol does not have.\<close>

lemma v3_connack_code:
  assumes "IsVersion3X (ss_version c)" and "V3NotAuthorized < ce_Code e"
  shows "\<exists>k. ss_out (sendErrConnack (CodesError e) c) = ss_out c @ [PConnack k] \<and> cack_Code k = 0x87"
  using assms by (simp add: sendErrConnack_def client_write_def NotAuthorized_def)




end
