(* ===== verification/Fed_Stream.thy ===== *)
theory Fed_Stream
  imports Prelude
begin

text \<open>
  The event stream between two nodes of the federation plug-in (\<^verbatim>\<open>gmqtt/plugin/federation\<close>): the sender's queue of events
  (\<^verbatim>\<open>eventQueue\<close> of \<^verbatim>\<open>peer.go\<close>), the receiver's sessions with the cache of seen events and the handshake (\<^verbatim>\<open>federation.go\<close>), and
  a step relation for the stream, which may break and be opened again at any time.

  The linked list is a list.  \<open>nextRead\<close> is the element that is read next; an element that was removed from the list has no
  successor any more, as in \<^verbatim>\<open>container/list\<close>.  Event identifiers are natural numbers: a queue would have to number 2 to the 64
  events before they wrap.  Waiting on the condition variable is the value \<open>None\<close>.
\<close>

section \<open>The queue of events\<close>

record 'e Event =
  ev_Id :: nat
  ev_Event :: 'e

record 'e eventQueue =
  eq_nextID :: nat
  eq_l :: "'e Event list"
  nextRead :: "'e Event option"
  eq_closed :: bool

definition newEventQueue :: "'e eventQueue" where
  "newEventQueue = \<lparr>eq_nextID = 0, eq_l = [], nextRead = None, eq_closed = False\<rparr>"

definition eq_clear :: "'e eventQueue \<Rightarrow> 'e eventQueue" where
  "eq_clear e = e\<lparr>eq_nextID := 0, eq_l := [], nextRead := None, eq_closed := False\<rparr>"

definition eq_close :: "'e eventQueue \<Rightarrow> 'e eventQueue" where
  "eq_close e = e\<lparr>eq_closed := True\<rparr>"

definition eq_open :: "'e eventQueue \<Rightarrow> 'e eventQueue" where
  "eq_open e = e\<lparr>eq_closed := False\<rparr>"

definition setReadPosition :: "nat \<Rightarrow> 'e eventQueue \<Rightarrow> 'e eventQueue" where
  "setReadPosition i e =
    (case List.find (\<lambda>ev. ev_Id ev = i) (eq_l e) of
       None \<Rightarrow> e
     | Some ev \<Rightarrow> e\<lparr>nextRead := Some ev\<rparr>)"

definition eq_add :: "'e \<Rightarrow> 'e eventQueue \<Rightarrow> 'e eventQueue" where
  "eq_add x e =
    (let ev = \<lparr>ev_Id = eq_nextID e, ev_Event = x\<rparr>
     in e\<lparr>eq_nextID := eq_nextID e + 1, eq_l := eq_l e @ [ev],
          nextRead := (if nextRead e = None then Some ev else nextRead e)\<rparr>)"

text \<open>The elements from \<open>nextRead\<close> on, as \<^verbatim>\<open>Next\<close> finds them.\<close>

definition read_chain :: "'e Event \<Rightarrow> 'e Event list \<Rightarrow> 'e Event list" where
  "read_chain ev l =
    (case dropWhile (\<lambda>x. ev_Id x \<noteq> ev_Id ev) l of
       [] \<Rightarrow> [ev]
     | s \<Rightarrow> s)"

definition fetchEvents :: "'e eventQueue \<Rightarrow> ('e Event list option \<times> 'e eventQueue) option" where
  "fetchEvents e =
    (if (eq_l e = [] \<or> nextRead e = None) \<and> \<not> eq_closed e then None
     else if eq_closed e then Some (None, e)
     else case nextRead e of
       None \<Rightarrow> None
     | Some ev \<Rightarrow>
        let s = read_chain ev (eq_l e)
        in Some (Some (take 100 s), e\<lparr>nextRead := (if 100 < length s then Some (s ! 100) else None)\<rparr>))"

fun ack_list :: "nat \<Rightarrow> 'e Event list \<Rightarrow> 'e Event list" where
  "ack_list i [] = []"
| "ack_list i (req # l) =
    (if ev_Id req = i then l
     else if ev_Id req \<le> i then ack_list i l
     else req # ack_list i l)"

definition eq_ack :: "nat \<Rightarrow> 'e eventQueue \<Rightarrow> 'e eventQueue" where
  "eq_ack i e = e\<lparr>eq_l := ack_list i (eq_l e)\<rparr>"

section \<open>The receiver's sessions\<close>

record lruCache =
  lru_l :: "nat list"
  lru_size :: nat

definition newLRUCache :: "nat \<Rightarrow> lruCache" where
  "newLRUCache n = \<lparr>lru_l = [], lru_size = n\<rparr>"

text \<open>The map \<^verbatim>\<open>items\<close> has the elements of the list as its keys.\<close>

definition lru_set :: "nat \<Rightarrow> lruCache \<Rightarrow> bool \<times> lruCache" where
  "lru_set i c =
    (if i \<in> set (lru_l c) then (True, c)
     else
       let l = (if lru_size c = length (lru_l c) then tl (lru_l c) else lru_l c)
       in (False, c\<lparr>lru_l := l @ [i]\<rparr>))"

record fed_session =
  fs_id :: bytes
  fs_nodeName :: bytes
  nextEventID :: nat
  seenEvents :: lruCache

type_synonym sessionMgr = "bytes \<rightharpoonup> fed_session"

definition sessionMgr_add :: "bytes \<Rightarrow> bytes \<Rightarrow> sessionMgr \<Rightarrow> (bool \<times> nat) \<times> sessionMgr" where
  "sessionMgr_add nodeName i s =
    (case s nodeName of
       Some v \<Rightarrow> if fs_id v = i then ((False, nextEventID v), s)
         else ((True, 0), s(nodeName \<mapsto> \<lparr>fs_id = i, fs_nodeName = nodeName, nextEventID = 0, seenEvents = newLRUCache 100\<rparr>))
     | None \<Rightarrow> ((True, 0), s(nodeName \<mapsto> \<lparr>fs_id = i, fs_nodeName = nodeName, nextEventID = 0, seenEvents = newLRUCache 100\<rparr>)))"

definition sessionMgr_del :: "bytes \<Rightarrow> sessionMgr \<Rightarrow> sessionMgr" where
  "sessionMgr_del nodeName s = s(nodeName := None)"

text \<open>
  \<^verbatim>\<open>eventStreamHandler\<close>: the event that is to be applied, if it was not seen before.  \<open>recv_event\<close> is one round of the loop of
  \<^verbatim>\<open>EventStream\<close>; \<open>sent\<close> is whether the acknowledgement could be sent.
\<close>

definition eventStreamHandler :: "fed_session \<Rightarrow> 'e Event \<Rightarrow> nat \<times> 'e option \<times> fed_session" where
  "eventStreamHandler sess ev =
    (let (exist, c) = lru_set (ev_Id ev) (seenEvents sess) in
     if exist then (ev_Id ev, None, sess)
     else (ev_Id ev, Some (ev_Event ev), sess\<lparr>seenEvents := c\<rparr>))"

definition recv_event :: "bool \<Rightarrow> fed_session \<Rightarrow> 'e Event \<Rightarrow> nat \<times> 'e option \<times> fed_session" where
  "recv_event sent sess ev =
    (let (ack, x, sess) = eventStreamHandler sess ev
     in (ack, x, if sent then sess\<lparr>nextEventID := ack + 1\<rparr> else sess))"

text \<open>
  The loop of \<^verbatim>\<open>EventStream\<close> over the events the stream delivers.  \<open>is_done k\<close> is whether the channel \<^verbatim>\<open>done\<close> is closed before the next
  event is read; that case of the \<^verbatim>\<open>select\<close> has no statement, so the loop goes round.
\<close>

partial_function (option) EventStream_loop ::
  "(nat \<Rightarrow> bool) \<Rightarrow> nat \<Rightarrow> fed_session \<Rightarrow> 'e Event list \<Rightarrow> (fed_session \<times> 'e list) option" where
  "EventStream_loop is_done k sess evs =
    (if is_done k then EventStream_loop is_done k sess evs
     else case evs of
       [] \<Rightarrow> Some (sess, [])
     | ev # rest \<Rightarrow>
        (let (ack, x, sess) = recv_event True sess ev in
         Option.bind (EventStream_loop is_done (k + 1) sess rest)
           (\<lambda>(sess, xs). Some (sess, (case x of None \<Rightarrow> xs | Some x \<Rightarrow> x # xs)))))"

section \<open>The stream\<close>

text \<open>
  One direction of the stream between two nodes during one session.  \<open>fl_all\<close> records the events that were added to the queue and
  \<open>fl_log\<close> the events that the receiver applied.  When the stream breaks, what is under way in either direction is lost; with
  \<open>recv_fail\<close> an event is applied but its acknowledgement cannot be sent.  A new stream begins with the handshake: the sender
  continues at the event the receiver asks for.
\<close>

record 'e fed_link =
  fl_q :: "'e eventQueue"
  fl_net :: "'e Event list"
  fl_acks :: "nat list"
  fl_sess :: fed_session
  fl_up :: bool
  fl_all :: "'e list"
  fl_log :: "'e list"

definition link_init :: "fed_session \<Rightarrow> 'e fed_link" where
  "link_init sess = \<lparr>fl_q = newEventQueue, fl_net = [], fl_acks = [], fl_sess = sess, fl_up = False, fl_all = [], fl_log = []\<rparr>"

definition link_down :: "'e fed_link \<Rightarrow> 'e fed_link" where
  "link_down s = s\<lparr>fl_q := eq_close (fl_q s), fl_net := [], fl_acks := [], fl_up := False\<rparr>"

definition link_recv :: "bool \<Rightarrow> 'e Event \<Rightarrow> 'e fed_link \<Rightarrow> 'e fed_link" where
  "link_recv sent ev s =
    (let (ack, x, sess) = recv_event sent (fl_sess s) ev
     in s\<lparr>fl_sess := sess, fl_acks := fl_acks s @ [ack],
          fl_log := fl_log s @ (case x of None \<Rightarrow> [] | Some x \<Rightarrow> [x])\<rparr>)"

inductive link_step :: "'e fed_link \<Rightarrow> 'e fed_link \<Rightarrow> bool" where
  add: "link_step s (s\<lparr>fl_q := eq_add x (fl_q s), fl_all := fl_all s @ [x]\<rparr>)"
| send: "fl_up s \<Longrightarrow> fetchEvents (fl_q s) = Some (Some evs, q) \<Longrightarrow> link_step s (s\<lparr>fl_q := q, fl_net := fl_net s @ evs\<rparr>)"
| recv: "fl_up s \<Longrightarrow> fl_net s = ev # net \<Longrightarrow> link_step s ((link_recv True ev s)\<lparr>fl_net := net\<rparr>)"
| recv_fail: "fl_up s \<Longrightarrow> fl_net s = ev # net \<Longrightarrow> link_step s (link_down (link_recv False ev s))"
| ack: "fl_up s \<Longrightarrow> fl_acks s = i # acks \<Longrightarrow> link_step s (s\<lparr>fl_q := eq_ack i (fl_q s), fl_acks := acks\<rparr>)"
| break: "fl_up s \<Longrightarrow> link_step s (link_down s)"
| connect: "\<not> fl_up s \<Longrightarrow> link_step s (s\<lparr>fl_q := eq_open (setReadPosition (nextEventID (fl_sess s)) (fl_q s)), fl_up := True\<rparr>)"

definition nth_event :: "'e list \<Rightarrow> nat \<Rightarrow> 'e Event" where
  "nth_event xs i = \<lparr>ev_Id = i, ev_Event = xs ! i\<rparr>"

abbreviation events :: "'e list \<Rightarrow> nat \<Rightarrow> nat \<Rightarrow> 'e Event list" where
  "events xs lo hi \<equiv> map (nth_event xs) [lo..<hi]"

definition cache_ok :: "lruCache \<Rightarrow> nat \<Rightarrow> bool" where
  "cache_ok c d \<longleftrightarrow> lru_size c = 100 \<and> length (lru_l c) \<le> 100 \<and> set (lru_l c) \<subseteq> {..<d} \<and> (0 < d \<longrightarrow> d - 1 \<in> set (lru_l c))"

text \<open>
  The invariant: the queue holds the events from \<open>lo\<close> on, \<open>f\<close> is the next one to be sent, the receiver expects number \<open>r\<close> and has
  applied \<open>d\<close> events, at most one more than it has confirmed.
\<close>

definition link_ok :: "'e fed_link \<Rightarrow> nat \<Rightarrow> nat \<Rightarrow> bool" where
  "link_ok s lo f \<longleftrightarrow>
    (let n = length (fl_all s); r = nextEventID (fl_sess s); d = length (fl_log s) in
     eq_nextID (fl_q s) = n \<and> eq_l (fl_q s) = events (fl_all s) lo n \<and>
     nextRead (fl_q s) = (if f < n then Some (nth_event (fl_all s) f) else None) \<and>
     lo \<le> r \<and> r \<le> f \<and> f \<le> n \<and> r \<le> d \<and> d \<le> r + 1 \<and> d \<le> n \<and> fl_log s = take d (fl_all s) \<and>
     cache_ok (seenEvents (fl_sess s)) d \<and> (\<forall>i\<in>set (fl_acks s). i < r) \<and>
     (if fl_up s then fl_net s = events (fl_all s) r f \<and> \<not> eq_closed (fl_q s) else fl_net s = []))"

definition link_inv :: "'e fed_link \<Rightarrow> bool" where
  "link_inv s \<longleftrightarrow> (\<exists>lo f. link_ok s lo f)"

lemma nth_event_append: "i < length xs \<Longrightarrow> nth_event (xs @ ys) i = nth_event xs i"
  by (simp add: nth_event_def nth_append)

lemma events_append: "hi \<le> length xs \<Longrightarrow> events (xs @ ys) lo hi = events xs lo hi"
  by (simp add: nth_event_append)

lemma events_Cons: "lo < hi \<Longrightarrow> events xs lo hi = nth_event xs lo # events xs (Suc lo) hi"
  by (simp add: upt_conv_Cons)

lemma nth_event_Id [simp]: "ev_Id (nth_event xs i) = i" "ev_Event (nth_event xs i) = xs ! i"
  by (simp_all add: nth_event_def)

lemma ack_list_events: "i < hi \<Longrightarrow> ack_list i (events xs lo hi) = events xs (max lo (Suc i)) hi"
proof (induction "hi - lo" arbitrary: lo)
  case (Suc k)
  then have lt: "lo < hi" by simp
  have "k = hi - Suc lo" using Suc by simp
  note IH = Suc.hyps(1) [OF this Suc.prems]
  consider "lo = i" | "lo < i" | "i < lo" by linarith
  then show ?case
  proof cases
    case 3
    then have "ack_list i (events xs (Suc lo) hi) = events xs (Suc lo) hi"
      using IH by (simp add: max_def)
    moreover have "max lo (Suc i) = lo" using 3 by simp
    ultimately show ?thesis
      using 3 lt by (simp add: events_Cons)
  qed (use IH lt in \<open>simp_all add: events_Cons max_def\<close>)
qed simp

lemma dropWhile_events: "lo \<le> f \<Longrightarrow> f < hi \<Longrightarrow> dropWhile (\<lambda>x. ev_Id x \<noteq> f) (events xs lo hi) = events xs f hi"
proof (induction "f - lo" arbitrary: lo)
  case (Suc k)
  then have "dropWhile (\<lambda>x. ev_Id x \<noteq> f) (events xs (Suc lo) hi) = events xs f hi"
    by simp
  then show ?case
    using Suc by (simp add: events_Cons [of lo])
qed (simp add: events_Cons)

lemma find_events:
  "List.find (\<lambda>ev. ev_Id ev = i) (events xs lo hi) = (if lo \<le> i \<and> i < hi then Some (nth_event xs i) else None)"
proof (induction "hi - lo" arbitrary: lo)
  case (Suc k)
  then have "lo < hi" "k = hi - Suc lo" by simp_all
  then show ?case
    using Suc.hyps(1) [of "Suc lo"] by (simp add: events_Cons [of lo] Suc_le_eq order_less_le)
qed auto

lemma recv_event_simps:
  "recv_event sent sess ev =
    (ev_Id ev, if ev_Id ev \<in> set (lru_l (seenEvents sess)) then None else Some (ev_Event ev),
     let s = (if ev_Id ev \<in> set (lru_l (seenEvents sess)) then sess
              else sess\<lparr>seenEvents := snd (lru_set (ev_Id ev) (seenEvents sess))\<rparr>)
     in if sent then s\<lparr>nextEventID := ev_Id ev + 1\<rparr> else s)"
  by (simp add: recv_event_def eventStreamHandler_def lru_set_def Let_def)

lemma cache_ok_set: "cache_ok c d \<Longrightarrow> cache_ok (snd (lru_set d c)) (Suc d)"
proof -
  assume c: "cache_ok c d"
  have "set (tl (lru_l c)) \<subseteq> set (lru_l c)" by (cases "lru_l c") auto
  with c show ?thesis
    by (auto simp: cache_ok_def lru_set_def Let_def)
qed

lemma cache_ok_new: "d \<notin> set (lru_l c)" if "cache_ok c d"
  using that by (auto simp: cache_ok_def)

section \<open>Preservation\<close>

lemma link_ok_add:
  assumes "link_ok s lo f"
  shows "link_ok (s\<lparr>fl_q := eq_add x (fl_q s), fl_all := fl_all s @ [x]\<rparr>) lo f"
proof -
  let ?n = "length (fl_all s)"
  have "events (fl_all s @ [x]) lo (Suc ?n) = events (fl_all s) lo ?n @ [\<lparr>ev_Id = ?n, ev_Event = x\<rparr>]" if "lo \<le> ?n"
    using that by (simp add: events_append nth_event_def [of _ ?n])
  then show ?thesis
    using assms by (auto simp: link_ok_def Let_def eq_add_def nth_event_append events_append nth_event_def [of _ ?n])
qed

lemma read_chain_events: "lo \<le> f \<Longrightarrow> f < hi \<Longrightarrow> read_chain (nth_event xs f) (events xs lo hi) = events xs f hi"
  using dropWhile_events [of lo f hi xs] by (simp add: read_chain_def events_Cons [of f])

lemma fetch_events:
  assumes "link_ok s lo f" "fl_up s"
  shows "fetchEvents (fl_q s) = (if f < length (fl_all s) then
      Some (Some (events (fl_all s) f (min (length (fl_all s)) (f + 100))),
        (fl_q s)\<lparr>nextRead := (if f + 100 < length (fl_all s) then Some (nth_event (fl_all s) (f + 100)) else None)\<rparr>)
    else None)"
proof (cases "f < length (fl_all s)")
  case True
  have ok: "lo \<le> f" "eq_l (fl_q s) = events (fl_all s) lo (length (fl_all s))" "nextRead (fl_q s) = Some (nth_event (fl_all s) f)"
      "\<not> eq_closed (fl_q s)"
    using assms True by (auto simp: link_ok_def Let_def)
  have "take 100 (events (fl_all s) f (length (fl_all s))) = events (fl_all s) f (min (length (fl_all s)) (f + 100))"
    by (simp add: take_map min_def)
  moreover have "fl_all s \<noteq> []" using True by auto
  ultimately show ?thesis
    using True ok by (simp add: fetchEvents_def Let_def read_chain_events less_diff_conv add.commute)
next
  case False
  then show ?thesis
    using assms by (simp add: link_ok_def Let_def fetchEvents_def)
qed

lemma link_ok_send:
  assumes ok: "link_ok s lo f" and "fl_up s" "fetchEvents (fl_q s) = Some (Some evs, q)"
  shows "link_ok (s\<lparr>fl_q := q, fl_net := fl_net s @ evs\<rparr>) lo (min (length (fl_all s)) (f + 100))"
proof -
  let ?n = "length (fl_all s)" and ?r = "nextEventID (fl_sess s)"
  have f: "f < ?n" and q: "evs = events (fl_all s) f (min ?n (f + 100))"
      "q = (fl_q s)\<lparr>nextRead := (if f + 100 < ?n then Some (nth_event (fl_all s) (f + 100)) else None)\<rparr>"
    using assms(3) fetch_events [OF ok assms(2)] by (auto split: if_splits)
  have "events (fl_all s) ?r f @ events (fl_all s) f (min ?n (f + 100)) = events (fl_all s) ?r (min ?n (f + 100))"
  proof -
    have "?r \<le> f" "f \<le> min ?n (f + 100)" using ok f by (auto simp: link_ok_def Let_def)
    then have "[?r..<min ?n (f + 100)] = [?r..<f] @ [f..<min ?n (f + 100)]"
      using upt_add_eq_append [of ?r f "min ?n (f + 100) - f"] by simp
    then show ?thesis by simp
  qed
  then show ?thesis
    using ok f assms(2) by (simp add: link_ok_def Let_def q min_def)
qed

lemma link_ok_recv:
  assumes ok: "link_ok s lo f" and "fl_up s" "fl_net s = ev # net"
  shows "link_ok ((link_recv True ev s)\<lparr>fl_net := net\<rparr>) lo f" "link_ok (link_down (link_recv False ev s)) lo f"
proof -
  let ?r = "nextEventID (fl_sess s)" and ?d = "length (fl_log s)"
  have rf: "?r < f" and ev: "ev = nth_event (fl_all s) ?r" "net = events (fl_all s) (Suc ?r) f"
    using assms by (auto simp: link_ok_def Let_def upt_eq_Cons_conv split: if_splits)
  have d: "?d = ?r \<or> ?d = Suc ?r" "f \<le> length (fl_all s)"
    using ok by (auto simp: link_ok_def Let_def)
  have seen: "?r \<in> set (lru_l (seenEvents (fl_sess s))) \<longleftrightarrow> ?d = Suc ?r"
    using ok d(1) by (auto simp: link_ok_def Let_def cache_ok_def)
  have new: "take (Suc ?r) (fl_all s) = take ?r (fl_all s) @ [fl_all s ! ?r]"
    using rf d(2) by (simp add: take_Suc_conv_app_nth)
  show "link_ok ((link_recv True ev s)\<lparr>fl_net := net\<rparr>) lo f"
    using d(1) ok rf assms(2) seen new cache_ok_set [of "seenEvents (fl_sess s)" ?r]
    by (auto simp: link_ok_def link_recv_def recv_event_simps Let_def ev less_Suc_eq)
  show "link_ok (link_down (link_recv False ev s)) lo f"
    using d(1) ok rf assms(2) seen new cache_ok_set [of "seenEvents (fl_sess s)" ?r]
    by (auto simp: link_ok_def link_recv_def link_down_def eq_close_def recv_event_simps Let_def ev less_Suc_eq)
qed

lemma link_ok_ack:
  assumes ok: "link_ok s lo f" and "fl_acks s = i # acks"
  shows "link_ok (s\<lparr>fl_q := eq_ack i (fl_q s), fl_acks := acks\<rparr>) (max lo (Suc i)) f"
proof -
  have "i < length (fl_all s)" "i < nextEventID (fl_sess s)"
    using assms by (auto simp: link_ok_def Let_def)
  then show ?thesis
    using assms by (auto simp: link_ok_def Let_def eq_ack_def ack_list_events)
qed

lemma link_ok_down: "link_ok s lo f \<Longrightarrow> link_ok (link_down s) lo f"
  by (auto simp: link_ok_def link_down_def eq_close_def Let_def)

lemma link_ok_connect:
  assumes ok: "link_ok s lo f" and "\<not> fl_up s"
  shows "link_ok (s\<lparr>fl_q := eq_open (setReadPosition (nextEventID (fl_sess s)) (fl_q s)), fl_up := True\<rparr>) lo (nextEventID (fl_sess s))"
  using assms by (auto simp: link_ok_def eq_open_def setReadPosition_def find_events Let_def)

lemma link_inv_step: "link_step s s' \<Longrightarrow> link_inv s \<Longrightarrow> link_inv s'"
  by (induction rule: link_step.induct)
    (auto simp: link_inv_def intro: link_ok_add link_ok_send link_ok_recv link_ok_ack link_ok_down link_ok_connect)

lemma link_inv_init: "nextEventID sess = 0 \<Longrightarrow> seenEvents sess = newLRUCache 100 \<Longrightarrow> link_inv (link_init sess)"
  unfolding link_inv_def
  by (rule exI [of _ 0], rule exI [of _ 0]) (simp add: link_ok_def link_init_def newEventQueue_def cache_ok_def newLRUCache_def)

lemma link_inv_reach:
  assumes "link_step\<^sup>*\<^sup>* (link_init sess) s" "nextEventID sess = 0" "seenEvents sess = newLRUCache 100"
  shows "link_inv s"
  using assms(1) by (induction rule: rtranclp_induct) (simp_all add: link_inv_init assms(2,3) link_inv_step)

section \<open>Progress\<close>

text \<open>
  The steps with which the two nodes get on by themselves: no event is added, and nothing fails.  A new stream is opened only when there is none.
\<close>

inductive link_work :: "'e fed_link \<Rightarrow> 'e fed_link \<Rightarrow> bool" where
  send: "fl_up s \<Longrightarrow> fetchEvents (fl_q s) = Some (Some evs, q) \<Longrightarrow> link_work s (s\<lparr>fl_q := q, fl_net := fl_net s @ evs\<rparr>)"
| recv: "fl_up s \<Longrightarrow> fl_net s = ev # net \<Longrightarrow> link_work s ((link_recv True ev s)\<lparr>fl_net := net\<rparr>)"
| ack: "fl_up s \<Longrightarrow> fl_acks s = i # acks \<Longrightarrow> link_work s (s\<lparr>fl_q := eq_ack i (fl_q s), fl_acks := acks\<rparr>)"
| connect: "\<not> fl_up s \<Longrightarrow> link_work s (s\<lparr>fl_q := eq_open (setReadPosition (nextEventID (fl_sess s)) (fl_q s)), fl_up := True\<rparr>)"

lemma link_work_step: "link_work s s' \<Longrightarrow> link_step s s'"
  by (induction rule: link_work.induct) (blast intro: link_step.intros)+

text \<open>
  What is left to do: an event that was not sent takes three more steps, one that is under way two, an acknowledgement one.
\<close>

definition link_rest :: "'e fed_link \<Rightarrow> nat" where
  "link_rest s = 3 * (length (fl_all s) - nextEventID (fl_sess s)) - length (fl_net s) + length (fl_acks s) + (if fl_up s then 0 else 1)"

lemma link_up_net: "link_ok s lo f \<Longrightarrow> fl_up s \<Longrightarrow> length (fl_net s) = f - nextEventID (fl_sess s)"
  by (simp add: link_ok_def Let_def)

lemma link_work_rest:
  assumes "link_work s s'" "link_inv s"
  shows "link_rest s' < link_rest s \<and> link_inv s' \<and> fl_all s' = fl_all s"
proof -
  obtain lo f where ok: "link_ok s lo f" using assms(2) by (auto simp: link_inv_def)
  have b: "nextEventID (fl_sess s) \<le> f" "f \<le> length (fl_all s)" using ok by (simp_all add: link_ok_def Let_def)
  have "link_rest s' < link_rest s \<and> fl_all s' = fl_all s"
    using assms(1)
  proof cases
    case (send evs q)
    have "f < length (fl_all s)" "evs = events (fl_all s) f (min (length (fl_all s)) (f + 100))"
      using send(3) fetch_events [OF ok send(2)] by (auto split: if_splits)
    then show ?thesis using send(1,2) b link_up_net [OF ok send(2)] by (simp add: link_rest_def)
  next
    case (recv ev net)
    have "ev = nth_event (fl_all s) (nextEventID (fl_sess s))" "nextEventID (fl_sess s) < f"
      using ok recv(2,3) by (auto simp: link_ok_def Let_def upt_eq_Cons_conv split: if_splits)
    then show ?thesis using recv b link_up_net [OF ok recv(2)]
      by (simp add: link_rest_def link_recv_def recv_event_simps Let_def)
  next
    case (ack i acks)
    then show ?thesis by (simp add: link_rest_def)
  next
    case connect
    have "fl_net s = []" using ok connect(2) by (simp add: link_ok_def Let_def)
    then show ?thesis using connect by (simp add: link_rest_def)
  qed
  then show ?thesis using link_inv_step [OF link_work_step [OF assms(1)] assms(2)] by simp
qed

lemma link_stuck:
  assumes "link_inv s" "\<And>s'. \<not> link_work s s'"
  shows "fl_log s = fl_all s"
proof -
  obtain lo f where ok: "link_ok s lo f" using assms(1) by (auto simp: link_inv_def)
  have up: "fl_up s" using link_work.connect assms(2) by blast
  then have net: "fl_net s = []" using link_work.recv [OF up] assms(2) by (cases "fl_net s") auto
  have "\<not> f < length (fl_all s)" using link_work.send [OF up] fetch_events [OF ok up] assms(2) by auto
  then show ?thesis using ok up net by (auto simp: link_ok_def Let_def)
qed

lemma link_work_run: "(link_work ^^ k) s s' \<Longrightarrow> link_inv s \<Longrightarrow> k + link_rest s' \<le> link_rest s \<and> link_inv s' \<and> fl_all s' = fl_all s"
proof (induction k arbitrary: s')
  case (Suc k)
  then obtain t where "(link_work ^^ k) s t" "link_work t s'" by auto
  then show ?case using Suc.IH [of t] Suc.prems(2) link_work_rest [of t s'] by auto
qed simp

section \<open>Properties\<close>

text \<open>
  C16. Exactly once and in order: however often the stream of a session breaks, also while an event is applied and its
  acknowledgement is lost, the events that the receiving node has applied are the first events of those that were added to the
  queue, each one once; and those it has not applied are still in the queue.
\<close>

theorem events_exactly_once:
  assumes "link_step\<^sup>*\<^sup>* (link_init sess) s" "nextEventID sess = 0" "seenEvents sess = newLRUCache 100"
  shows "fl_log s = take (length (fl_log s)) (fl_all s) \<and>
    (\<forall>i. length (fl_log s) \<le> i \<and> i < length (fl_all s) \<longrightarrow> \<lparr>ev_Id = i, ev_Event = fl_all s ! i\<rparr> \<in> set (eq_l (fl_q s)))"
proof -
  obtain lo f where ok: "link_ok s lo f" using link_inv_reach [OF assms] by (auto simp: link_inv_def)
  then have "fl_log s = take (length (fl_log s)) (fl_all s)" "lo \<le> length (fl_log s)"
      "eq_l (fl_q s) = events (fl_all s) lo (length (fl_all s))"
    by (auto simp: link_ok_def Let_def)
  then show ?thesis by (auto simp: nth_event_def)
qed

abbreviation demo_sess :: fed_session where
  "demo_sess \<equiv> \<lparr>fs_id = [], fs_nodeName = [], nextEventID = 0, seenEvents = newLRUCache 100\<rparr>"

definition demo_link :: "nat fed_link" where
  "demo_link = (link_init demo_sess)\<lparr>fl_q := eq_add 7 newEventQueue, fl_all := [7]\<rparr>"

lemma demo_link_reach: "link_step\<^sup>*\<^sup>* (link_init demo_sess) demo_link"
  using link_step.add [of "link_init demo_sess" "7 :: nat"] by (simp add: demo_link_def link_init_def)

theorem events_exactly_once_witness: "\<lparr>ev_Id = 0, ev_Event = 7\<rparr> \<in> set (eq_l (fl_q demo_link))"
proof -
  have "fl_log demo_link = []" "fl_all demo_link = [7]" by (simp_all add: demo_link_def link_init_def)
  then show ?thesis using events_exactly_once [OF demo_link_reach] by simp
qed

text \<open>
  C18. No event is stuck.  From every state of the stream, connected or broken, let the two nodes only send, receive and acknowledge, and open a
  new stream only if there is none, so that nothing fails and no event is added, in any order: they stop after a bounded number of steps, and
  wherever they stop the receiving node has applied all events that were added.
\<close>

theorem events_delivered:
  assumes "link_step\<^sup>*\<^sup>* (link_init sess) s" "nextEventID sess = 0" "seenEvents sess = newLRUCache 100"
  shows "(\<forall>k s'. (link_work ^^ k) s s' \<longrightarrow> k \<le> link_rest s \<and> fl_all s' = fl_all s \<and> ((\<exists>s''. link_work s' s'') \<or> fl_log s' = fl_all s))"
proof (intro allI impI)
  fix k s'
  assume "(link_work ^^ k) s s'"
  from link_work_run [OF this link_inv_reach [OF assms]] link_stuck [of s']
  show "k \<le> link_rest s \<and> fl_all s' = fl_all s \<and> ((\<exists>s''. link_work s' s'') \<or> fl_log s' = fl_all s)" by auto
qed

text \<open>A broken stream with one event: it is opened, the event sent, applied and acknowledged.\<close>

theorem events_delivered_witness: "\<exists>s'. link_work\<^sup>*\<^sup>* demo_link s' \<and> fl_log s' = [7]"
proof -
  have all: "fl_all demo_link = [7]" by (simp add: demo_link_def)
  note del = events_delivered [OF demo_link_reach fed_session.select_convs(3) fed_session.select_convs(4)]
  show ?thesis
  proof (rule ccontr)
    assume no: "\<not> ?thesis"
    have "\<exists>s'. (link_work ^^ k) demo_link s'" for k
    proof (induction k)
      case (Suc k)
      then obtain s' where s': "(link_work ^^ k) demo_link s'" by blast
      then have "\<not> fl_log s' = fl_all demo_link" using no all by (metis rtranclp_power)
      then obtain s'' where "link_work s' s''" using del s' by force
      then show ?case using s' by auto
    qed auto
    then obtain s' where "(link_work ^^ Suc (link_rest demo_link)) demo_link s'" by blast
    then have "Suc (link_rest demo_link) \<le> link_rest demo_link" using del by blast
    then show False by simp
  qed
qed

text \<open>
  Once the session is closed the reading loop of \<^verbatim>\<open>EventStream\<close> does not end: the case for the closed channel does nothing.
\<close>

lemma EventStream_spins:
  assumes "is_done k"
  shows "EventStream_loop is_done k sess evs = None"
proof -
  have "EventStream_loop is_done k sess evs = Some r \<Longrightarrow> \<not> is_done k" for r
  proof (erule EventStream_loop.raw_induct [rotated])
    fix loop :: "(nat \<Rightarrow> bool) \<Rightarrow> nat \<Rightarrow> fed_session \<Rightarrow> 'a Event list \<Rightarrow> (fed_session \<times> 'a list) option" and d j s xs r
    assume IH: "\<And>d j s xs r. loop d j s xs = Some r \<Longrightarrow> \<not> d j"
      and body: "(if d j then loop d j s xs
        else case xs of [] \<Rightarrow> Some (s, [])
          | ev # rest \<Rightarrow> (let (ack, x, s) = recv_event True s ev in
              Option.bind (loop d (j + 1) s rest) (\<lambda>(s, ys). Some (s, (case x of None \<Rightarrow> ys | Some x \<Rightarrow> x # ys))))) = Some r"
    show "\<not> d j" using IH [of d j s xs r] body by (cases "d j") simp_all
  qed
  then show ?thesis using assms by (cases "EventStream_loop is_done k sess evs") auto
qed

end
