(* ===== verification/Federation.thy ===== *)
theory Federation
  imports Delivery Fed_Stream "HOL-Library.List_Lexorder"
begin

text \<open>
  The federation plug-in, \<^verbatim>\<open>gmqtt/plugin/federation\<close>: the reference-counted store of the local topics, the store of the topics of the
  other nodes, the hooks that tell the other nodes about subscriptions and messages (\<^verbatim>\<open>hooks.go\<close>), the handshake and the handler of
  incoming events (\<^verbatim>\<open>federation.go\<close>), the synchronisation at the start of a stream (\<^verbatim>\<open>peer.go\<close>) and the membership events
  (\<^verbatim>\<open>membership.go\<close>).

  The subscriptions of other nodes are kept in the trie database of \<open>Sub_Store\<close>, with node names in the place of client
  identifiers.  A hook of another plug-in that a hook calls first does not touch this state.  The message that an event carries is a
  record with the fields of the generated structure.
\<close>

section \<open>Events\<close>

record fed_Message =
  fm_TopicName :: bytes
  fm_Payload :: bytes
  fm_Qos :: uint32
  fm_Retained :: bool
  fm_ContentType :: bytes
  fm_CorrelationData :: bytes
  fm_MessageExpiry :: uint32
  fm_PayloadFormat :: uint32
  fm_ResponseTopic :: bytes
  fm_UserProperties :: "UserProperty list"

datatype fed_event =
    Event_Subscribe bytes bytes
  | Event_Message fed_Message
  | Event_Unsubscribe bytes
  | Event_unset

definition messageToEvent :: "Message \<Rightarrow> fed_Message" where
  "messageToEvent msg =
    \<lparr>fm_TopicName = msg_Topic msg, fm_Payload = msg_Payload msg, fm_Qos = ucast (msg_QoS msg), fm_Retained = msg_Retained msg,
     fm_ContentType = msg_ContentType msg, fm_CorrelationData = nonempty (msg_CorrelationData msg),
     fm_MessageExpiry = msg_MessageExpiry msg, fm_PayloadFormat = ucast (msg_PayloadFormat msg),
     fm_ResponseTopic = msg_ResponseTopic msg,
     fm_UserProperties = map (\<lambda>v. \<lparr>UserK = UserK v, UserV = UserV v\<rparr>) (msg_UserProperties msg)\<rparr>"

definition eventToMessage :: "fed_Message \<Rightarrow> Message" where
  "eventToMessage event =
    \<lparr>msg_Dup = False, msg_QoS = ucast (fm_Qos event), msg_Retained = fm_Retained event, msg_Topic = fm_TopicName event,
     msg_Payload = fm_Payload event, msg_PacketID = 0, msg_ContentType = fm_ContentType event,
     msg_CorrelationData = Some (fm_CorrelationData event), msg_MessageExpiry = fm_MessageExpiry event,
     msg_PayloadFormat = ucast (fm_PayloadFormat event), msg_ResponseTopic = fm_ResponseTopic event,
     msg_SubscriptionIdentifier = [], msg_UserProperties = map (\<lambda>v. \<lparr>UserK = UserK v, UserV = UserV v\<rparr>) (fm_UserProperties event)\<rparr>"

section \<open>The local subscriptions\<close>

text \<open>The set of topics of a client is the list of its topics in the order in which the loop of \<^verbatim>\<open>unsubscribeAll\<close> takes them.\<close>

record localSubStore =
  ls_index :: "bytes \<rightharpoonup> bytes list"
  ls_topics :: "(bytes \<times> uint64) list"

definition topic_count :: "localSubStore \<Rightarrow> bytes \<Rightarrow> uint64" where
  "topic_count l t = (case map_of (ls_topics l) t of None \<Rightarrow> 0 | Some n \<Rightarrow> n)"

definition subscribeLocked :: "bytes \<Rightarrow> bytes \<Rightarrow> localSubStore \<Rightarrow> bool \<times> localSubStore" where
  "subscribeLocked clientID topicName l =
    (let ts = (case ls_index l clientID of None \<Rightarrow> [] | Some ts \<Rightarrow> ts);
         l = l\<lparr>ls_index := (ls_index l)(clientID \<mapsto> ts)\<rparr>
     in if topicName \<in> set ts then (False, l)
        else
          let n = topic_count l topicName + 1
          in (n = 1, l\<lparr>ls_index := (ls_index l)(clientID \<mapsto> ts @ [topicName]), ls_topics := al_put topicName n (ls_topics l)\<rparr>))"

definition decTopicCounterLocked :: "bytes \<Rightarrow> localSubStore \<Rightarrow> localSubStore" where
  "decTopicCounterLocked topicName l =
    (case map_of (ls_topics l) topicName of
       None \<Rightarrow> l
     | Some n \<Rightarrow> l\<lparr>ls_topics := (if n - 1 \<le> 0 then al_del topicName (ls_topics l) else al_put topicName (n - 1) (ls_topics l))\<rparr>)"

definition local_unsubscribe :: "bytes \<Rightarrow> bytes \<Rightarrow> localSubStore \<Rightarrow> bool \<times> localSubStore" where
  "local_unsubscribe clientID topicName l =
    (case ls_index l clientID of
       None \<Rightarrow> (False, l)
     | Some v \<Rightarrow>
        if topicName \<in> set v then
          let v = remove1 topicName v;
              l = l\<lparr>ls_index := (ls_index l)(clientID := (if v = [] then None else Some v))\<rparr>;
              l = decTopicCounterLocked topicName l
          in (topic_count l topicName = 0, l)
        else (False, l))"

fun dec_topics :: "bytes list \<Rightarrow> localSubStore \<Rightarrow> bytes list \<times> localSubStore" where
  "dec_topics [] l = ([], l)"
| "dec_topics (topicName # ts) l =
    (let l = decTopicCounterLocked topicName l;
         (remove, l') = dec_topics ts l
     in (if topic_count l topicName = 0 then topicName # remove else remove, l'))"

definition local_unsubscribeAll :: "bytes \<Rightarrow> localSubStore \<Rightarrow> bytes list \<times> localSubStore" where
  "local_unsubscribeAll clientID l =
    (let (remove, l) = dec_topics (case ls_index l clientID of None \<Rightarrow> [] | Some ts \<Rightarrow> ts) l
     in (remove, l\<lparr>ls_index := (ls_index l)(clientID := None)\<rparr>))"

definition localSubStore_init :: "TrieDB \<Rightarrow> localSubStore res" where
  "localSubStore_init sub =
    IterateLocked (\<lambda>(clientID, sub) l. (snd (subscribeLocked clientID (Subscription_GetFullTopicName sub) l), True))
      \<lparr>it_Type = TypeAll, it_ClientID = [], it_TopicName = [], it_MatchType = 0\<rparr> sub \<lparr>ls_index = Map.empty, ls_topics = []\<rparr>"

section \<open>Peers and the plug-in\<close>

abbreviation (input) peerStateStopped :: byte where "peerStateStopped \<equiv> 1"
abbreviation (input) peerStateStreaming :: byte where "peerStateStreaming \<equiv> 2"

record fed_peer =
  fp_sessionID :: bytes
  fp_queue :: "fed_event eventQueue"
  fp_state :: byte

definition peer_add :: "fed_event \<Rightarrow> fed_peer \<Rightarrow> fed_peer" where
  "peer_add ev p = p\<lparr>fp_queue := eq_add ev (fp_queue p)\<rparr>"

definition peer_stop :: "fed_peer \<Rightarrow> fed_peer" where
  "peer_stop p = p\<lparr>fp_state := peerStateStopped\<rparr>"

record Federation =
  fed_nodeName :: bytes
  fed_localStore :: TrieDB
  fed_local :: localSubStore
  fedSubStore :: TrieDB
  sharedSent :: "bytes \<Rightarrow> uint64"
  fed_retained :: trieDB
  fed_sessions :: sessionMgr
  fed_peers :: "(bytes \<times> fed_peer) list"

text \<open>\<^verbatim>\<open>New\<close> and the part of \<^verbatim>\<open>Load\<close> that fills the state.\<close>

definition Federation_New :: "bytes \<Rightarrow> Federation" where
  "Federation_New nodeName =
    \<lparr>fed_nodeName = nodeName, fed_localStore = Sub_NewStore, fed_local = \<lparr>ls_index = Map.empty, ls_topics = []\<rparr>,
     fedSubStore = Sub_NewStore, sharedSent = (\<lambda>_. 0), fed_retained = NewStore, fed_sessions = Map.empty, fed_peers = []\<rparr>"

definition Federation_Load :: "TrieDB \<Rightarrow> trieDB \<Rightarrow> Federation \<Rightarrow> Federation res" where
  "Federation_Load sub ret f =
    rbind (localSubStore_init sub) (\<lambda>l. Inr (f\<lparr>fed_localStore := sub, fed_local := l, fed_retained := ret\<rparr>))"

definition broadcast :: "fed_event \<Rightarrow> Federation \<Rightarrow> Federation" where
  "broadcast ev f = f\<lparr>fed_peers := map (\<lambda>(n, p). (n, peer_add ev p)) (fed_peers f)\<rparr>"

section \<open>Hooks for subscriptions\<close>

definition fed_OnSubscribed :: "bytes \<Rightarrow> Subscription option \<Rightarrow> Federation \<Rightarrow> Federation" where
  "fed_OnSubscribed clientID subscription f =
    (case subscription of
       None \<Rightarrow> f
     | Some s \<Rightarrow>
        let (new, l) = subscribeLocked clientID (Subscription_GetFullTopicName s) (fed_local f);
            f = f\<lparr>fed_local := l\<rparr>
        in if \<not> new then f else broadcast (Event_Subscribe (sb_ShareName s) (sb_TopicFilter s)) f)"

definition fed_OnUnsubscribed :: "bytes \<Rightarrow> bytes \<Rightarrow> Federation \<Rightarrow> Federation" where
  "fed_OnUnsubscribed clientID topicName f =
    (let (remove, l) = local_unsubscribe clientID topicName (fed_local f);
         f = f\<lparr>fed_local := l\<rparr>
     in if \<not> remove then f else broadcast (Event_Unsubscribe topicName) f)"

definition fed_OnSessionTerminated :: "bytes \<Rightarrow> Federation \<Rightarrow> Federation" where
  "fed_OnSessionTerminated clientID f =
    (let (unsubs, l) = local_unsubscribeAll clientID (fed_local f);
         f = f\<lparr>fed_local := l\<rparr>
     in if unsubs = [] then f
        else f\<lparr>fed_peers := map (\<lambda>(n, p). (n, fold (\<lambda>t. peer_add (Event_Unsubscribe t)) unsubs p)) (fed_peers f)\<rparr>)"

section \<open>Hooks for messages\<close>

text \<open>A division by the length of an empty list would panic.\<close>

fun sendSharedMsg ::
    "(bytes \<Rightarrow> bytes \<Rightarrow> 's \<Rightarrow> 's res) \<Rightarrow> (bytes \<times> bytes list) list \<Rightarrow> (bytes \<Rightarrow> uint64) \<Rightarrow> 's \<Rightarrow> ((bytes \<Rightarrow> uint64) \<times> 's) res" where
  "sendSharedMsg send [] sent s = Inr (sent, s)"
| "sendSharedMsg send ((topicName, v) # l) sent s =
    (if v = [] then Inl Panic
     else
       let v = sort v; m = unat (sent topicName) mod length v
       in rbind (send (v ! m) topicName s) (sendSharedMsg send l (sent(topicName := sent topicName + 1))))"

record send_state =
  sd_peers :: "(bytes \<times> fed_peer) list"
  sd_sent :: "bytes list"
  sd_drop :: bool
  sd_options :: "IterationOptions option"

definition nonSharedOpts :: "bytes \<Rightarrow> IterationOptions" where
  "nonSharedOpts topic = \<lparr>it_Type = TypeAll XOR TypeShared, it_ClientID = [], it_TopicName = topic, it_MatchType = MatchFilter\<rparr>"

definition send_to :: "bytes \<Rightarrow> Message \<Rightarrow> (bytes \<times> fed_peer) list \<Rightarrow> (bytes \<times> fed_peer) list" where
  "send_to nodeName msg peers =
    (case map_of peers nodeName of
       None \<Rightarrow> peers
     | Some p \<Rightarrow> al_put nodeName (peer_add (Event_Message (messageToEvent msg)) p) peers)"

definition send_shared :: "Federation \<Rightarrow> Message \<Rightarrow> bytes \<Rightarrow> bytes \<Rightarrow> send_state \<Rightarrow> send_state res" where
  "send_shared f msg nodeName topicName s =
    (if nodeName = fed_nodeName f then Inr s
     else if nodeName \<in> set (sd_sent s) then Inr s
     else
       let s = s\<lparr>sd_sent := nodeName # sd_sent s\<rparr>
       in if map_of (sd_peers s) nodeName = None then Inr s
          else
            let s = s\<lparr>sd_peers := send_to nodeName msg (sd_peers s), sd_drop := True\<rparr>; opts = nonSharedOpts (msg_Topic msg)
            in IterateLocked (\<lambda>_ s. (s\<lparr>sd_drop := False, sd_options := Some opts\<rparr>, False)) opts (fed_localStore f) s)"

definition local_shared :: "Federation \<Rightarrow> Message \<Rightarrow> (bytes \<times> bytes list) list res" where
  "local_shared f msg =
    IterateLocked (\<lambda>(_, sub) l. (al_append (Subscription_GetFullTopicName sub) (fed_nodeName f) l, True))
      \<lparr>it_Type = TypeShared, it_ClientID = [], it_TopicName = msg_Topic msg, it_MatchType = MatchFilter\<rparr> (fed_localStore f) []"

definition fed_matches :: "Federation \<Rightarrow> Message \<Rightarrow> (bytes \<times> bytes list) list \<Rightarrow> ((bytes \<times> bytes list) list \<times> bytes list) res" where
  "fed_matches f msg sharedList =
    IterateLocked
      (\<lambda>(nodeName, sub) (l, nonShared).
        (if sb_ShareName sub \<noteq> [] then (al_append (Subscription_GetFullTopicName sub) nodeName l, nonShared)
         else (l, List.insert nodeName nonShared), True))
      (match_options (msg_Topic msg)) (fedSubStore f) (sharedList, [])"

definition send_nonShared :: "Message \<Rightarrow> bytes list \<Rightarrow> send_state \<Rightarrow> send_state" where
  "send_nonShared msg nonShared s =
    s\<lparr>sd_peers := fold (\<lambda>n ps. if n \<in> set (sd_sent s) then ps else send_to n msg ps) nonShared (sd_peers s)\<rparr>"

definition sendMessage :: "Message \<Rightarrow> Federation \<Rightarrow> (bool \<times> IterationOptions option \<times> Federation) res" where
  "sendMessage msg f =
    (if msg_Retained msg then Inr (False, None, broadcast (Event_Message (messageToEvent msg)) f)
     else
       rbind (local_shared f msg) (\<lambda>sharedList.
       rbind (fed_matches f msg sharedList) (\<lambda>(sharedList, nonShared).
       rbind (sendSharedMsg (send_shared f msg) sharedList (sharedSent f)
               \<lparr>sd_peers = fed_peers f, sd_sent = [], sd_drop = False, sd_options = None\<rparr>) (\<lambda>(sent, s).
       let s = send_nonShared msg nonShared s
       in Inr (sd_drop s, sd_options s, f\<lparr>sharedSent := sent, fed_peers := sd_peers s\<rparr>)))))"

text \<open>
  The hooks \<^verbatim>\<open>OnMsgArrived\<close> and \<^verbatim>\<open>OnWillPublish\<close>: the request is the message, if it was not dropped, and the options for
  the match.  \<open>pre\<close> is the result of the hook that is called first.
\<close>

definition fed_OnWillPublish :: "Message option \<times> IterationOptions \<Rightarrow> Federation \<Rightarrow> ((Message option \<times> IterationOptions) \<times> Federation) res" where
  "fed_OnWillPublish req f =
    (case fst req of
       None \<Rightarrow> Inr (req, f)
     | Some m \<Rightarrow>
        rbind (sendMessage m f) (\<lambda>(drop, opts, f).
        Inr ((if drop then None else Some m, case opts of None \<Rightarrow> snd req | Some os \<Rightarrow> os), f)))"

definition fed_OnMsgArrived ::
    "error + Message option \<times> IterationOptions \<Rightarrow> Federation \<Rightarrow> ((error + Message option \<times> IterationOptions) \<times> Federation) res" where
  "fed_OnMsgArrived pre f =
    (case pre of
       Inl err \<Rightarrow> Inr (Inl err, f)
     | Inr req \<Rightarrow> rbind (fed_OnWillPublish req f) (\<lambda>(req, f). Inr (Inr req, f)))"

section \<open>The server side of a stream\<close>

text \<open>The metadata of a call: absent, or the values of \<^verbatim>\<open>node_name\<close>.\<close>

definition getNodeNameFromContext :: "bytes list option \<Rightarrow> bytes res" where
  "getNodeNameFromContext md =
    (case md of
       None \<Rightarrow> Inl (ErrText ''failed to get metadata'')
     | Some [] \<Rightarrow> Inl (ErrText ''missing node_name metadata'')
     | Some (nodeName # _) \<Rightarrow> if nodeName = [] then Inl (ErrText ''missing node_name metadata'') else Inr nodeName)"

definition Hello :: "bytes list option \<Rightarrow> bytes \<Rightarrow> Federation \<Rightarrow> ((bool \<times> nat) \<times> Federation) res" where
  "Hello md sessionId f =
    rbind (getNodeNameFromContext md) (\<lambda>nodeName.
    if map_of (fed_peers f) nodeName = None then Inl (ErrText ''the node has not yet joined'')
    else
      let ((cleanStart, nextID), ss) = sessionMgr_add nodeName sessionId (fed_sessions f);
          f = f\<lparr>fed_sessions := ss\<rparr>
      in if cleanStart then
           rbind (UnsubscribeAllLocked nodeName (fedSubStore f)) (\<lambda>db. Inr ((cleanStart, nextID), f\<lparr>fedSubStore := db\<rparr>))
         else Inr ((cleanStart, nextID), f))"

text \<open>
  What \<^verbatim>\<open>eventStreamHandler\<close> does with an event it has not seen: the new state and the message it gives to the publisher.  For an
  event without content there is no acknowledgement and \<^verbatim>\<open>EventStream\<close> then reads a field of nil.
\<close>

definition apply_event :: "bytes \<Rightarrow> fed_event \<Rightarrow> Federation \<Rightarrow> (Message option \<times> Federation) res" where
  "apply_event nodeName ev f =
    (case ev of
       Event_Subscribe shareName topicFilter \<Rightarrow>
         rbind (SubscribeLocked nodeName
             [\<lparr>sb_ShareName = shareName, sb_TopicFilter = topicFilter, sb_ID = 0, sb_QoS = 0, sb_NoLocal = False,
               sb_RetainAsPublished = False, sb_RetainHandling = 0\<rparr>] (fedSubStore f)) (\<lambda>(_, db). Inr (None, f\<lparr>fedSubStore := db\<rparr>))
     | Event_Message msg \<Rightarrow>
         let pubMsg = eventToMessage msg
         in Inr (Some pubMsg, if msg_Retained pubMsg then f\<lparr>fed_retained := AddOrReplace (fed_retained f) pubMsg\<rparr> else f)
     | Event_Unsubscribe topicName \<Rightarrow>
         rbind (UnsubscribeLocked nodeName [topicName] (fedSubStore f)) (\<lambda>db. Inr (None, f\<lparr>fedSubStore := db\<rparr>))
     | Event_unset \<Rightarrow> Inl Panic)"

fun apply_events :: "bytes \<Rightarrow> fed_event list \<Rightarrow> Federation \<Rightarrow> Federation res" where
  "apply_events nodeName [] f = Inr f"
| "apply_events nodeName (ev # evs) f = rbind (apply_event nodeName ev f) (\<lambda>(_, f). apply_events nodeName evs f)"

section \<open>The client side of a stream\<close>

definition sync_events :: "localSubStore \<Rightarrow> trieDB \<Rightarrow> fed_event list" where
  "sync_events l ret =
    map (\<lambda>(k, _). case SplitTopic k of (shareName, topicFilter) \<Rightarrow> Event_Subscribe shareName topicFilter) (ls_topics l)
    @ Retained_Iterate (\<lambda>message evs. (evs @ [Event_Message (messageToEvent (Message_Copy message))], True)) ret []"

text \<open>\<open>hello\<close> is the answer of the other node to the handshake and \<open>strm\<close> whether the stream could be opened.\<close>

definition initStream :: "(bool \<times> nat) res \<Rightarrow> unit res \<Rightarrow> localSubStore \<Rightarrow> trieDB \<Rightarrow> fed_peer \<Rightarrow> unit res \<times> fed_peer" where
  "initStream hello strm l ret p =
    (if fp_state p = peerStateStopped then (Inl (ErrText ''peer has been stopped''), p)
     else case hello of
       Inl err \<Rightarrow> (Inl (ErrText ''handshake error''), p)
     | Inr (cleanStart, nextEventId) \<Rightarrow>
        let q = (if cleanStart then fold eq_add (sync_events l ret) (eq_clear (fp_queue p)) else fp_queue p);
            q = setReadPosition nextEventId q
        in case strm of
             Inl err \<Rightarrow> (Inl err, p\<lparr>fp_queue := q\<rparr>)
           | Inr _ \<Rightarrow> (Inr (), p\<lparr>fp_queue := eq_open q, fp_state := peerStateStreaming\<rparr>))"

text \<open>The delay before the next attempt, in nanoseconds.\<close>

definition stream_backoff :: "nat \<Rightarrow> int" where
  "stream_backoff reconnectCount =
    (let du = (if reconnectCount \<noteq> 0 then int reconnectCount * 500 * 1000000 else 0)
     in if du > 2 * Second then 2 * Second else du)"

section \<open>Membership\<close>

text \<open>A member is its name and the session identifier that is drawn for it.\<close>

fun nodeJoin :: "(bytes \<times> bytes) list \<Rightarrow> Federation \<Rightarrow> Federation" where
  "nodeJoin [] f = f"
| "nodeJoin ((name, uuid) # ms) f =
    nodeJoin ms
      (if name = fed_nodeName f then f
       else if map_of (fed_peers f) name \<noteq> None then f
       else f\<lparr>fed_peers := al_put name \<lparr>fp_sessionID = uuid, fp_queue = newEventQueue, fp_state = 0\<rparr> (fed_peers f)\<rparr>)"

fun nodeFail :: "bytes list \<Rightarrow> Federation \<Rightarrow> Federation res" where
  "nodeFail [] f = Inr f"
| "nodeFail (name # ms) f =
    (if name = fed_nodeName f \<or> map_of (fed_peers f) name = None then nodeFail ms f
     else
       rbind (UnsubscribeAllLocked name (fedSubStore f)) (\<lambda>db.
       nodeFail ms (f\<lparr>fed_peers := al_del name (fed_peers f), fedSubStore := db, fed_sessions := sessionMgr_del name (fed_sessions f)\<rparr>)))"


text \<open>The end of \<^verbatim>\<open>eventHandler\<close>.\<close>

definition eventHandler_exit :: "Federation \<Rightarrow> Federation" where
  "eventHandler_exit f = f\<lparr>fed_peers := map (\<lambda>(n, p). (n, peer_stop p)) (fed_peers f)\<rparr>"

section \<open>The local store\<close>

definition tops :: "localSubStore \<Rightarrow> bytes \<Rightarrow> bytes list" where
  "tops l c = (case ls_index l c of None \<Rightarrow> [] | Some ts \<Rightarrow> ts)"

definition local_rel :: "localSubStore \<Rightarrow> (bytes \<times> bytes) set" where
  "local_rel l = {(c, t). t \<in> set (tops l c)}"

definition clients_of :: "(bytes \<times> bytes) set \<Rightarrow> bytes \<Rightarrow> bytes set" where
  "clients_of R t = {c. (c, t) \<in> R}"

text \<open>The counters count clients; \<open>N\<close> bounds the number of clients, so that they do not wrap.\<close>

definition counts_ok :: "(bytes \<times> bytes) set \<Rightarrow> (bytes \<rightharpoonup> uint64) \<Rightarrow> bool" where
  "counts_ok R m \<longleftrightarrow> (\<forall>t. m t = (if clients_of R t = {} then None else Some (word_of_nat (card (clients_of R t)))))"

definition local_ok :: "nat \<Rightarrow> localSubStore \<Rightarrow> bool" where
  "local_ok N l \<longleftrightarrow>
    distinct (al_keys (ls_topics l)) \<and> (\<forall>c. distinct (tops l c)) \<and> finite (fst ` local_rel l) \<and> card (fst ` local_rel l) \<le> N \<and>
    N < 2 ^ 64 \<and> counts_ok (local_rel l) (map_of (ls_topics l))"

lemma tops_upd [simp]:
  "tops (l\<lparr>ls_index := (ls_index l)(c := v)\<rparr>) d = (if d = c then (case v of None \<Rightarrow> [] | Some ts \<Rightarrow> ts) else tops l d)"
  "tops (l\<lparr>ls_topics := ts\<rparr>) d = tops l d"
  "tops (l\<lparr>ls_index := (ls_index l)(c := v), ls_topics := ts\<rparr>) d = (if d = c then (case v of None \<Rightarrow> [] | Some ts \<Rightarrow> ts) else tops l d)"
  by (simp_all add: tops_def)

lemma clients_of_sub: "clients_of R t \<subseteq> fst ` R"
  by (force simp: clients_of_def)

lemma clients_of_upd:
  "clients_of (insert (c, t) R) t' = (if t' = t then insert c (clients_of R t) else clients_of R t')"
  "clients_of (R - {(c, t)}) t' = (if t' = t then clients_of R t - {c} else clients_of R t')"
  by (auto simp: clients_of_def)

lemma local_rel_tops: "(c, t) \<in> local_rel l \<longleftrightarrow> t \<in> set (tops l c)"
  by (simp add: local_rel_def)

lemma local_okD:
  assumes "local_ok N l"
  shows "finite (clients_of (local_rel l) t)" "card (clients_of (local_rel l) t) \<le> N" "N < 2 ^ 64"
    "map_of (ls_topics l) t = (if clients_of (local_rel l) t = {} then None else Some (word_of_nat (card (clients_of (local_rel l) t))))"
proof -
  have fin: "finite (fst ` local_rel l)" "card (fst ` local_rel l) \<le> N" using assms by (simp_all add: local_ok_def)
  show "finite (clients_of (local_rel l) t)" using finite_subset [OF clients_of_sub fin(1)] .
  show "card (clients_of (local_rel l) t) \<le> N" using card_mono [OF fin(1) clients_of_sub] fin(2) by (rule le_trans)
qed (use assms in \<open>simp_all add: local_ok_def counts_ok_def\<close>)

lemma topic_count_card:
  assumes "local_ok N l"
  shows "topic_count l t = word_of_nat (card (clients_of (local_rel l) t))"
  using local_okD(4) [OF assms, of t] by (simp add: topic_count_def)

lemma word_of_nat_zero_iff: "n < 2 ^ 64 \<Longrightarrow> (word_of_nat n :: uint64) = 0 \<longleftrightarrow> n = 0"
  using word_of_nat_inj [of n 0, where 'a = 64] by simp

lemma local_subscribe_ok:
  assumes ok: "local_ok N l" and N: "Suc N < 2 ^ 64" and sub: "subscribeLocked c t l = (new, l')"
  shows "local_ok (Suc N) l'" "local_rel l' = insert (c, t) (local_rel l)" "new \<longleftrightarrow> t \<notin> snd ` local_rel l"
proof -
  let ?C = "clients_of (local_rel l) t"
  have card: "finite ?C" "card ?C \<le> N" "N < 2 ^ 64" using local_okD(1-3) [OF ok] by blast+
  have in_snd: "t \<in> snd ` local_rel l \<longleftrightarrow> ?C \<noteq> {}" by (force simp: clients_of_def)
  have "(new, l') = (if t \<in> set (tops l c) then (False, l\<lparr>ls_index := (ls_index l)(c \<mapsto> tops l c)\<rparr>)
      else (topic_count l t + 1 = 1, l\<lparr>ls_index := (ls_index l)(c \<mapsto> tops l c @ [t]), ls_topics := al_put t (topic_count l t + 1) (ls_topics l)\<rparr>))"
    using sub by (cases "t \<in> set (tops l c)") (auto simp: subscribeLocked_def tops_def [symmetric] topic_count_def Let_def)
  then have new: "new \<longleftrightarrow> t \<notin> set (tops l c) \<and> topic_count l t = 0"
    and topics: "ls_topics l' = (if t \<in> set (tops l c) then ls_topics l else al_put t (topic_count l t + 1) (ls_topics l))"
    and tops: "tops l' d = (if d = c \<and> t \<notin> set (tops l c) then tops l c @ [t] else tops l d)" for d
    by (auto split: if_splits)
  show rel: "local_rel l' = insert (c, t) (local_rel l)"
    by (auto simp: local_rel_def tops split: if_splits)
  have C: "t \<in> set (tops l c) \<longleftrightarrow> c \<in> ?C" by (simp add: clients_of_def local_rel_tops)
  show "new \<longleftrightarrow> t \<notin> snd ` local_rel l"
    unfolding new topic_count_card [OF ok] in_snd C using card by (auto simp: word_of_nat_zero_iff)
  have "counts_ok (local_rel l') (map_of (ls_topics l'))"
    using ok topic_count_card [OF ok, of t] card C unfolding local_ok_def counts_ok_def rel topics
    by (auto simp: clients_of_upd insert_absorb add.commute)
  moreover have "fst ` local_rel l' = insert c (fst ` local_rel l)" by (simp add: rel)
  ultimately show "local_ok (Suc N) l'"
    using ok N card_insert_le_m1 [of "Suc N" "fst ` local_rel l" c] unfolding local_ok_def topics by (auto simp: tops card_insert_if)
qed


text \<open>One client less for a topic: the counter is decremented, and the topic disappears with its last client.\<close>

lemma dec_counts:
  assumes m: "counts_ok R (map_of (ls_topics l))" and "(c, t) \<in> R" "finite (clients_of R t)" "card (clients_of R t) < 2 ^ 64"
  shows "counts_ok (R - {(c, t)}) (map_of (ls_topics (decTopicCounterLocked t l)))"
    "topic_count (decTopicCounterLocked t l) t = 0 \<longleftrightarrow> t \<notin> snd ` (R - {(c, t)})"
    "ls_index (decTopicCounterLocked t l) = ls_index l"
    "distinct (al_keys (ls_topics l)) \<Longrightarrow> distinct (al_keys (ls_topics (decTopicCounterLocked t l)))"
proof -
  let ?C = "clients_of R t"
  have c: "c \<in> ?C" using assms(2) by (simp add: clients_of_def)
  then have pos: "0 < card ?C" using assms(3) by (auto simp: card_gt_0_iff)
  have n: "map_of (ls_topics l) t = Some (word_of_nat (card ?C))"
    using m c unfolding counts_ok_def by auto
  have card: "card (?C - {c}) = card ?C - 1" using c assms(3) by simp
  have w: "(word_of_nat (card ?C) :: uint64) - 1 = word_of_nat (card (?C - {c}))"
    using pos by (simp add: card of_nat_diff)
  have z: "(word_of_nat (card (?C - {c})) :: uint64) \<le> 0 \<longleftrightarrow> ?C - {c} = {}"
  proof -
    have "card (?C - {c}) < 2 ^ 64" "finite (?C - {c})" using card assms(3,4) by auto
    then show ?thesis using word_of_nat_zero_iff card_eq_0_iff [of "?C - {c}"] by (metis word_le_0_iff)
  qed
  have dec: "decTopicCounterLocked t l =
      l\<lparr>ls_topics := (if ?C - {c} = {} then al_del t (ls_topics l) else al_put t (word_of_nat (card (?C - {c}))) (ls_topics l))\<rparr>"
    unfolding decTopicCounterLocked_def n option.simps w z ..
  show "counts_ok (R - {(c, t)}) (map_of (ls_topics (decTopicCounterLocked t l)))"
    using m unfolding counts_ok_def dec by (auto simp: clients_of_upd)
  have "t \<in> snd ` (R - {(c, t)}) \<longleftrightarrow> ?C - {c} \<noteq> {}" by (force simp: clients_of_def)
  moreover have "(word_of_nat (card (?C - {c})) :: uint64) = 0 \<longleftrightarrow> ?C - {c} = {}"
    using z by (simp add: word_le_0_iff)
  ultimately show "topic_count (decTopicCounterLocked t l) t = 0 \<longleftrightarrow> t \<notin> snd ` (R - {(c, t)})"
    unfolding dec topic_count_def by simp
  show "ls_index (decTopicCounterLocked t l) = ls_index l" by (simp add: dec)
  show "distinct (al_keys (ls_topics l)) \<Longrightarrow> distinct (al_keys (ls_topics (decTopicCounterLocked t l)))"
    by (simp add: dec)
qed

lemma local_unsubscribe_ok:
  assumes ok: "local_ok N l" and uns: "local_unsubscribe c t l = (removed, l')"
  shows "local_ok N l'" "local_rel l' = local_rel l - {(c, t)}"
    "removed \<longleftrightarrow> (c, t) \<in> local_rel l \<and> t \<notin> snd ` local_rel l'"
proof -
  have "local_ok N l' \<and> local_rel l' = local_rel l - {(c, t)} \<and> (removed \<longleftrightarrow> (c, t) \<in> local_rel l \<and> t \<notin> snd ` local_rel l')"
  proof (cases "(c, t) \<in> local_rel l")
    case False
    then have "l' = l" "\<not> removed"
      using uns by (auto simp: local_rel_def tops_def local_unsubscribe_def split: option.splits)
    then show ?thesis using ok False by simp
  next
    case True
    then obtain v where v: "ls_index l c = Some v" "t \<in> set v"
      by (cases "ls_index l c") (auto simp: local_rel_def tops_def)
    let ?l = "l\<lparr>ls_index := (ls_index l)(c := (if remove1 t v = [] then None else Some (remove1 t v)))\<rparr>"
    have l': "l' = decTopicCounterLocked t ?l" "removed = (topic_count l' t = 0)"
      using uns v by (auto simp: local_unsubscribe_def Let_def)
    have fin: "finite (clients_of (local_rel l) t)" "card (clients_of (local_rel l) t) < 2 ^ 64"
      using local_okD(1,2) [OF ok, of t] local_okD(3) [OF ok] by auto
    have "counts_ok (local_rel l) (map_of (ls_topics ?l))" using ok by (simp add: local_ok_def)
    note dec = dec_counts [OF this True fin, folded l'(1)]
    have v_tops: "tops l c = v" using v(1) by (simp add: tops_def)
    have dv: "\<forall>d. distinct (tops l d)" using ok by (simp add: local_ok_def)
    then have "distinct v" using v_tops by metis
    have tops: "tops l' d = (if d = c then remove1 t v else tops l d)" for d
      using dec(3) by (simp add: tops_def)
    have rel: "local_rel l' = local_rel l - {(c, t)}"
      using \<open>distinct v\<close> v_tops by (auto simp: local_rel_def tops split: if_splits)
    have "fst ` local_rel l' \<subseteq> fst ` local_rel l" unfolding rel by blast
    moreover have "finite (fst ` local_rel l)" "card (fst ` local_rel l) \<le> N" using ok by (simp_all add: local_ok_def)
    ultimately have "finite (fst ` local_rel l')" "card (fst ` local_rel l') \<le> N"
      by (meson finite_subset card_mono le_trans)+
    moreover have "\<forall>d. distinct (tops l' d)" using dv \<open>distinct v\<close> by (simp add: tops)
    ultimately have "local_ok N l'"
      using dec(1,4) ok unfolding local_ok_def rel by simp
    moreover have "removed \<longleftrightarrow> t \<notin> snd ` local_rel l'" using l'(2) dec(2) rel by simp
    ultimately show ?thesis using rel True by simp
  qed
  then show "local_ok N l'" "local_rel l' = local_rel l - {(c, t)}"
    "removed \<longleftrightarrow> (c, t) \<in> local_rel l \<and> t \<notin> snd ` local_rel l'"
    by blast+
qed


text \<open>The loop of \<^verbatim>\<open>unsubscribeAll\<close> over topics of one client.\<close>

lemma dec_topics_ok:
  assumes "counts_ok R (map_of (ls_topics l))" "distinct ts" "\<forall>t\<in>set ts. (c, t) \<in> R"
    "\<forall>t. finite (clients_of R t) \<and> card (clients_of R t) < 2 ^ 64" "dec_topics ts l = (removed, l')"
  shows "counts_ok (R - {c} \<times> set ts) (map_of (ls_topics l')) \<and> ls_index l' = ls_index l \<and> distinct removed \<and>
    set removed = set ts - snd ` (R - {c} \<times> set ts) \<and> (distinct (al_keys (ls_topics l)) \<longrightarrow> distinct (al_keys (ls_topics l')))"
  using assms
proof (induction ts arbitrary: R l removed)
  case (Cons t ts)
  let ?l = "decTopicCounterLocked t l" and ?R = "R - {(c, t)}"
  have t: "(c, t) \<in> R" "finite (clients_of R t)" "card (clients_of R t) < 2 ^ 64" using Cons.prems(3,4) by simp_all
  note dec = dec_counts [OF Cons.prems(1) t]
  obtain rm where rm: "dec_topics ts ?l = (rm, l')" "removed = (if topic_count ?l t = 0 then t # rm else rm)"
    using Cons.prems(5) by (auto simp: Let_def split: prod.splits)
  have "\<forall>t'\<in>set ts. (c, t') \<in> ?R" using Cons.prems(2,3) by auto
  moreover have "\<forall>t'. finite (clients_of ?R t') \<and> card (clients_of ?R t') < 2 ^ 64"
  proof
    fix t'
    have "clients_of ?R t' \<subseteq> clients_of R t'" by (auto simp: clients_of_def)
    then show "finite (clients_of ?R t') \<and> card (clients_of ?R t') < 2 ^ 64"
      using Cons.prems(4) by (meson finite_subset card_mono le_less_trans)
  qed
  ultimately have IH: "counts_ok (?R - {c} \<times> set ts) (map_of (ls_topics l')) \<and> ls_index l' = ls_index ?l \<and> distinct rm \<and>
    set rm = set ts - snd ` (?R - {c} \<times> set ts) \<and> (distinct (al_keys (ls_topics ?l)) \<longrightarrow> distinct (al_keys (ls_topics l')))"
    using Cons.IH [OF dec(1) _ _ _ rm(1)] Cons.prems(2) by simp
  have R: "?R - {c} \<times> set ts = R - {c} \<times> set (t # ts)" by auto
  have "t \<in> snd ` (R - {c} \<times> set (t # ts)) \<longleftrightarrow> t \<in> snd ` ?R" using Cons.prems(2) by force
  then have "set removed = set (t # ts) - snd ` (R - {c} \<times> set (t # ts))"
    using IH rm(2) dec(2) Cons.prems(2) unfolding R by auto
  moreover have "distinct removed" using IH rm(2) Cons.prems(2) by auto
  ultimately show ?case using IH dec(3,4) unfolding R by simp
qed simp

lemma local_unsubscribeAll_ok:
  assumes ok: "local_ok N l" and uns: "local_unsubscribeAll c l = (removed, l')"
  shows "local_ok N l'" "local_rel l' = {(d, t) \<in> local_rel l. d \<noteq> c}" "distinct removed"
    "set removed = snd ` local_rel l - snd ` local_rel l'"
proof -
  obtain l1 where l1: "dec_topics (tops l c) l = (removed, l1)" "l' = l1\<lparr>ls_index := (ls_index l1)(c := None)\<rparr>"
    using uns by (auto simp: local_unsubscribeAll_def tops_def split: prod.splits)
  have "counts_ok (local_rel l) (map_of (ls_topics l))" "distinct (tops l c)" "distinct (al_keys (ls_topics l))"
    using ok by (simp_all add: local_ok_def)
  moreover have "\<forall>t. finite (clients_of (local_rel l) t) \<and> card (clients_of (local_rel l) t) < 2 ^ 64"
    using local_okD [OF ok] le_less_trans by blast
  ultimately have dec: "counts_ok (local_rel l - {c} \<times> set (tops l c)) (map_of (ls_topics l1))" "ls_index l1 = ls_index l" "distinct removed"
    "set removed = set (tops l c) - snd ` (local_rel l - {c} \<times> set (tops l c))" "distinct (al_keys (ls_topics l1))"
    using dec_topics_ok [OF _ _ _ _ l1(1), of "local_rel l" c] by (simp_all add: local_rel_tops)
  have tops: "tops l' d = (if d = c then [] else tops l d)" for d using l1(2) dec(2) by (simp add: tops_def)
  show rel: "local_rel l' = {(d, t) \<in> local_rel l. d \<noteq> c}" by (auto simp: local_rel_def tops split: if_splits)
  have R: "local_rel l - {c} \<times> set (tops l c) = local_rel l'" unfolding rel by (auto simp: local_rel_def)
  show "distinct removed" by (fact dec(3))
  show "set removed = snd ` local_rel l - snd ` local_rel l'"
    unfolding dec(4) R unfolding rel by (force simp: local_rel_def)
  have "fst ` local_rel l' \<subseteq> fst ` local_rel l" unfolding rel by auto
  moreover have "finite (fst ` local_rel l)" "card (fst ` local_rel l) \<le> N" using ok by (simp_all add: local_ok_def)
  ultimately have "finite (fst ` local_rel l')" "card (fst ` local_rel l') \<le> N"
    by (meson finite_subset card_mono le_trans)+
  moreover have "\<forall>d. distinct (tops l' d)" using ok by (simp add: tops local_ok_def)
  moreover have "ls_topics l' = ls_topics l1" using l1(2) by simp
  ultimately show "local_ok N l'"
    using ok dec(1,5) unfolding local_ok_def R by simp
qed


section \<open>Histories of hooks\<close>

datatype hook_op =
    HookSubscribed bytes Subscription
  | HookUnsubscribed bytes bytes
  | HookTerminated bytes

fun hook_apply :: "hook_op \<Rightarrow> Federation \<Rightarrow> Federation" where
  "hook_apply (HookSubscribed c s) f = fed_OnSubscribed c (Some s) f"
| "hook_apply (HookUnsubscribed c t) f = fed_OnUnsubscribed c t f"
| "hook_apply (HookTerminated c) f = fed_OnSessionTerminated c f"

text \<open>What a history means: which client is subscribed to which topic.\<close>

fun hook_spec :: "hook_op \<Rightarrow> (bytes \<times> bytes) set \<Rightarrow> (bytes \<times> bytes) set" where
  "hook_spec (HookSubscribed c s) R = insert (c, Subscription_GetFullTopicName s) R"
| "hook_spec (HookUnsubscribed c t) R = R - {(c, t)}"
| "hook_spec (HookTerminated c) R = {(d, t) \<in> R. d \<noteq> c}"

definition hook_history :: "hook_op list \<Rightarrow> (bytes \<times> bytes) set" where
  "hook_history ops = fold hook_spec ops {}"

text \<open>The effect of a hook on the local store, and the events it adds to the queue of every peer.\<close>

fun hook_local :: "hook_op \<Rightarrow> localSubStore \<Rightarrow> localSubStore" where
  "hook_local (HookSubscribed c s) l = snd (subscribeLocked c (Subscription_GetFullTopicName s) l)"
| "hook_local (HookUnsubscribed c t) l = snd (local_unsubscribe c t l)"
| "hook_local (HookTerminated c) l = snd (local_unsubscribeAll c l)"

fun hook_events :: "hook_op \<Rightarrow> localSubStore \<Rightarrow> fed_event list" where
  "hook_events (HookSubscribed c s) l =
    (if fst (subscribeLocked c (Subscription_GetFullTopicName s) l) then [Event_Subscribe (sb_ShareName s) (sb_TopicFilter s)] else [])"
| "hook_events (HookUnsubscribed c t) l = (if fst (local_unsubscribe c t l) then [Event_Unsubscribe t] else [])"
| "hook_events (HookTerminated c) l = map Event_Unsubscribe (fst (local_unsubscribeAll c l))"

fun history_events :: "hook_op list \<Rightarrow> localSubStore \<Rightarrow> fed_event list" where
  "history_events [] l = []"
| "history_events (op # ops) l = hook_events op l @ history_events ops (hook_local op l)"

definition tell :: "fed_event list \<Rightarrow> (bytes \<times> fed_peer) list \<Rightarrow> (bytes \<times> fed_peer) list" where
  "tell evs ps = map (\<lambda>(n, p). (n, fold peer_add evs p)) ps"

lemma tell_simps [simp]: "tell [] ps = ps" "tell evs' (tell evs ps) = tell (evs @ evs') ps"
  by (auto simp: tell_def split: prod.splits)

lemma map_of_tell: "map_of (tell evs ps) n = map_option (fold peer_add evs) (map_of ps n)"
  by (induction ps) (auto simp: tell_def)

lemma hook_apply_eq:
  "hook_apply op f = f\<lparr>fed_local := hook_local op (fed_local f), fed_peers := tell (hook_events op (fed_local f)) (fed_peers f)\<rparr>"
proof (cases op)
  case (HookSubscribed c s)
  then show ?thesis
    by (simp add: fed_OnSubscribed_def broadcast_def tell_def split: prod.splits)
next
  case (HookUnsubscribed c t)
  then show ?thesis
    by (simp add: fed_OnUnsubscribed_def broadcast_def tell_def split: prod.splits)
next
  case (HookTerminated c)
  obtain rm l' where l': "local_unsubscribeAll c (fed_local f) = (rm, l')" by fastforce
  have "fold (\<lambda>t. peer_add (Event_Unsubscribe t)) rm p = fold peer_add (map Event_Unsubscribe rm) p" for p
    by (simp add: fold_map comp_def)
  then show ?thesis
    using HookTerminated l' by (cases rm) (simp_all add: fed_OnSessionTerminated_def tell_def Let_def)
qed

lemma hook_run_eq:
  "fold hook_apply ops f =
    f\<lparr>fed_local := fold hook_local ops (fed_local f), fed_peers := tell (history_events ops (fed_local f)) (fed_peers f)\<rparr>"
  by (induction ops arbitrary: f) (simp_all add: hook_apply_eq)

text \<open>Subscriptions whose full name determines share name and filter: what the validation of a filter leaves.\<close>

definition sub_ok :: "Subscription \<Rightarrow> bool" where
  "sub_ok s \<longleftrightarrow> slash \<notin> set (sb_ShareName s) \<and> (sb_ShareName s = [] \<longrightarrow> \<not> HasPrefix (sb_TopicFilter s) share_prefix)"

fun hook_ok :: "hook_op \<Rightarrow> bool" where
  "hook_ok (HookSubscribed c s) \<longleftrightarrow> sub_ok s"
| "hook_ok _ \<longleftrightarrow> True"

lemma Subscription_full: "Subscription_GetFullTopicName s = GetFullTopicName (sb_ShareName s) (sb_TopicFilter s)"
  by (simp add: Subscription_GetFullTopicName_def GetFullTopicName_def)

lemma sub_ok_Split: "sub_ok s \<Longrightarrow> SplitTopic (Subscription_GetFullTopicName s) = (sb_ShareName s, sb_TopicFilter s)"
  unfolding Subscription_full by (rule SplitTopic_GetFullTopicName) (auto simp: sub_ok_def)

definition topics_ok :: "bytes set \<Rightarrow> bool" where
  "topics_ok T \<longleftrightarrow> (\<forall>t\<in>T. \<exists>s. sub_ok s \<and> t = Subscription_GetFullTopicName s)"

lemma topics_ok_inj: "topics_ok T \<Longrightarrow> inj_on SplitTopic T"
  by (rule inj_on_inverseI [of _ "\<lambda>(n, f). GetFullTopicName n f"])
    (auto simp: topics_ok_def sub_ok_Split Subscription_full [symmetric] dest!: bspec)

lemma hook_local_ok:
  assumes "local_ok N l" "Suc N < 2 ^ 64"
  shows "local_ok (Suc N) (hook_local op l)" "local_rel (hook_local op l) = hook_spec op (local_rel l)"
proof -
  have mono: "local_ok N l' \<Longrightarrow> local_ok (Suc N) l'" for l' using assms(2) by (simp add: local_ok_def)
  have "local_ok (Suc N) (hook_local op l) \<and> local_rel (hook_local op l) = hook_spec op (local_rel l)"
  proof (cases op)
    case (HookSubscribed c s)
    show ?thesis
      using local_subscribe_ok [OF assms, of c "Subscription_GetFullTopicName s"] HookSubscribed by (metis hook_local.simps(1) hook_spec.simps(1) prod.collapse)
  next
    case (HookUnsubscribed c t)
    show ?thesis
      using local_unsubscribe_ok [OF assms(1), of c t] HookUnsubscribed mono by (metis hook_local.simps(2) hook_spec.simps(2) prod.collapse)
  next
    case (HookTerminated c)
    show ?thesis
      using local_unsubscribeAll_ok [OF assms(1), of c] HookTerminated mono by (metis hook_local.simps(3) hook_spec.simps(3) prod.collapse)
  qed
  then show "local_ok (Suc N) (hook_local op l)" "local_rel (hook_local op l) = hook_spec op (local_rel l)" by blast+
qed

lemma hook_spec_topics: "hook_ok op \<Longrightarrow> topics_ok (snd ` R) \<Longrightarrow> topics_ok (snd ` hook_spec op R)"
  by (cases op) (force simp: topics_ok_def)+

section \<open>Replaying events\<close>

text \<open>The subscriptions of a node that remain when events are applied in order, as pairs of share name and filter.\<close>

fun replay :: "fed_event \<Rightarrow> (bytes \<times> bytes) set \<Rightarrow> (bytes \<times> bytes) set" where
  "replay (Event_Subscribe n f) K = insert (n, f) K"
| "replay (Event_Unsubscribe t) K = K - {SplitTopic t}"
| "replay _ K = K"

lemma replay_unsubscribes: "fold replay (map Event_Unsubscribe ts) K = K - SplitTopic ` set ts"
  by (induction ts arbitrary: K) auto

lemma replay_messages: "\<forall>e\<in>set evs. \<exists>m. e = Event_Message m \<Longrightarrow> fold replay evs K = K"
  by (induction evs arbitrary: K) auto

lemma replay_local: "(k \<in> K \<longleftrightarrow> k \<in> K') \<Longrightarrow> k \<in> fold replay evs K \<longleftrightarrow> k \<in> fold replay evs K'"
proof (induction evs arbitrary: K K')
  case (Cons e evs)
  have "k \<in> replay e K \<longleftrightarrow> k \<in> replay e K'" using Cons.prems by (cases e) auto
  from Cons.IH [OF this] show ?case by simp
qed simp

lemma snd_remove_sub: "snd ` R - {t} \<subseteq> snd ` (R - {(c, t)})"
  by force

lemma snd_remove: "t \<in> snd ` (R - {(c, t)}) \<or> (c, t) \<notin> R \<Longrightarrow> snd ` (R - {(c, t)}) = snd ` R"
  using snd_remove_sub [of R t c] by auto

lemma hook_replay:
  assumes ok: "local_ok N l" "Suc N < 2 ^ 64" and hk: "hook_ok op" and T: "topics_ok (snd ` local_rel l)"
  shows "fold replay (hook_events op l) (SplitTopic ` snd ` local_rel l) = SplitTopic ` snd ` local_rel (hook_local op l)"
proof (cases op)
  case (HookSubscribed c s)
  let ?t = "Subscription_GetFullTopicName s"
  obtain new l' where l': "subscribeLocked c ?t l = (new, l')" by fastforce
  note sub = local_subscribe_ok [OF ok l']
  have split: "SplitTopic ?t = (sb_ShareName s, sb_TopicFilter s)" using hk HookSubscribed by (simp add: sub_ok_Split)
  show ?thesis
  proof (cases new)
    case True
    then show ?thesis using HookSubscribed l' sub(2) split by simp
  next
    case False
    then have "(sb_ShareName s, sb_TopicFilter s) \<in> SplitTopic ` snd ` local_rel l" using sub(3) split by (metis imageI)
    then show ?thesis using HookSubscribed l' sub(2) split False by (simp add: insert_absorb)
  qed
next
  case (HookUnsubscribed c t)
  obtain rm l' where l': "local_unsubscribe c t l = (rm, l')" by fastforce
  note uns = local_unsubscribe_ok [OF ok(1) l']
  show ?thesis
  proof (cases rm)
    case True
    then have "snd ` local_rel l' = snd ` local_rel l - {t}" and t: "t \<in> snd ` local_rel l"
      using uns(2,3) snd_remove_sub [of "local_rel l" t c] image_eqI [of t snd "(c, t)"] by auto
    then have "SplitTopic ` snd ` local_rel l' = SplitTopic ` snd ` local_rel l - {SplitTopic t}"
      using inj_on_image_set_diff [OF topics_ok_inj [OF T], of "snd ` local_rel l" "{t}"] by simp
    then show ?thesis using HookUnsubscribed l' True by simp
  next
    case False
    then have "snd ` local_rel l' = snd ` local_rel l" using uns(2,3) snd_remove [of t "local_rel l" c] by auto
    then show ?thesis using HookUnsubscribed l' False by simp
  qed
next
  case (HookTerminated c)
  obtain rm l' where l': "local_unsubscribeAll c l = (rm, l')" by fastforce
  note uns = local_unsubscribeAll_ok [OF ok(1) l']
  have "snd ` local_rel l' \<subseteq> snd ` local_rel l" unfolding uns(2) by auto
  then have "snd ` local_rel l' = snd ` local_rel l - set rm" "set rm \<subseteq> snd ` local_rel l" unfolding uns(4) by blast+
  then have "SplitTopic ` snd ` local_rel l' = SplitTopic ` snd ` local_rel l - SplitTopic ` set rm"
    using inj_on_image_set_diff [OF topics_ok_inj [OF T], of "snd ` local_rel l" "set rm"] by simp
  then show ?thesis using HookTerminated l' by (simp add: replay_unsubscribes)
qed


lemma history_replay:
  assumes "local_ok N l" "N + length ops < 2 ^ 64" "\<forall>op\<in>set ops. hook_ok op" "topics_ok (snd ` local_rel l)"
  shows "local_ok (N + length ops) (fold hook_local ops l) \<and> local_rel (fold hook_local ops l) = fold hook_spec ops (local_rel l) \<and>
    topics_ok (snd ` fold hook_spec ops (local_rel l)) \<and>
    fold replay (history_events ops l) (SplitTopic ` snd ` local_rel l) = SplitTopic ` snd ` local_rel (fold hook_local ops l)"
  using assms
proof (induction ops arbitrary: N l)
  case (Cons op ops)
  have N: "Suc N < 2 ^ 64" using Cons.prems(2) by simp
  note ok = hook_local_ok [OF Cons.prems(1) N, of op]
  have "topics_ok (snd ` local_rel (hook_local op l))"
    unfolding ok(2) using hook_spec_topics Cons.prems(3,4) by simp
  from Cons.IH [OF ok(1) _ _ this] show ?case
    using Cons.prems(2,3) hook_replay [OF Cons.prems(1) N _ Cons.prems(4), of op] by (simp add: ok(2))
qed simp

lemma sync_messages:
  "\<exists>ms. Retained_Iterate (\<lambda>message evs. (evs @ [Event_Message (messageToEvent (Message_Copy message))], True)) ret evs = evs @ map Event_Message ms"
proof -
  have fold: "fold (\<lambda>message evs. evs @ [Event_Message (g message)]) xs evs = evs @ map Event_Message (map g xs)" for g and xs :: "Message list" and evs
    by (induction xs arbitrary: evs) simp_all
  show ?thesis
    unfolding Retained_Iterate_def traverse_entries fold_until_all prod.case if_True not_True_eq_False if_False fold fst_conv append_assoc
      map_append [symmetric]
    by blast
qed

lemma local_ok_keys: "local_ok N l \<Longrightarrow> fst ` set (ls_topics l) = snd ` local_rel l"
proof -
  assume ok: "local_ok N l"
  have "t \<in> fst ` set (ls_topics l) \<longleftrightarrow> clients_of (local_rel l) t \<noteq> {}" for t
    using local_okD(4) [OF ok, of t] by (metis map_of_eq_None_iff option.distinct(1))
  then show ?thesis by (force simp: clients_of_def)
qed

lemma sync_replay:
  assumes "local_ok N l"
  shows "fold replay (sync_events l ret) {} = SplitTopic ` snd ` local_rel l"
proof -
  obtain ms where ms: "sync_events l ret
      = map (\<lambda>(k, _). case SplitTopic k of (shareName, topicFilter) \<Rightarrow> Event_Subscribe shareName topicFilter) (ls_topics l) @ map Event_Message ms"
    using sync_messages [of ret "[]"] by (auto simp: sync_events_def)
  have "fold replay (map (\<lambda>(k, _). case SplitTopic k of (n, f) \<Rightarrow> Event_Subscribe n f) ts) K = K \<union> SplitTopic ` fst ` set ts"
    for ts :: "(bytes \<times> uint64) list" and K
    by (induction ts arbitrary: K) (auto split: prod.splits)
  then show ?thesis
    unfolding ms using local_ok_keys [OF assms] by (simp add: replay_messages)
qed

text \<open>The receiving node.\<close>

definition node_keys :: "bytes \<Rightarrow> TrieDB \<Rightarrow> (bytes \<times> bytes) set" where
  "node_keys A db = {(n, f). db_content db (A, n, f) \<noteq> None}"

lemma apply_event_ok:
  assumes "db_inv (fedSubStore g)" "ev \<noteq> Event_unset"
  shows "\<exists>m g'. apply_event A ev g = Inr (m, g') \<and> db_inv (fedSubStore g') \<and>
    node_keys A (fedSubStore g') = replay ev (node_keys A (fedSubStore g))"
proof (cases ev)
  case (Event_Subscribe n f)
  then show ?thesis
    using trie_store.subscribe [OF assms(1), of A "[\<lparr>sb_ShareName = n, sb_TopicFilter = f, sb_ID = 0, sb_QoS = 0, sb_NoLocal = False,
               sb_RetainAsPublished = False, sb_RetainHandling = 0\<rparr>]"]
    by (fastforce simp: apply_event_def node_keys_def)
next
  case (Event_Unsubscribe t)
  then show ?thesis
    using trie_store.unsubscribe [OF assms(1), of A "[t]"] by (fastforce simp: apply_event_def node_keys_def)
qed (use assms in \<open>simp_all add: apply_event_def Let_def\<close>)

lemma apply_event_unset: "apply_event A Event_unset g = Inl Panic"
  by (simp add: apply_event_def)

lemma apply_events_ok:
  "db_inv (fedSubStore g) \<Longrightarrow> Event_unset \<notin> set evs \<Longrightarrow>
   \<exists>g'. apply_events A evs g = Inr g' \<and> db_inv (fedSubStore g') \<and> node_keys A (fedSubStore g') = fold replay evs (node_keys A (fedSubStore g))"
proof (induction evs arbitrary: g)
  case (Cons ev evs)
  obtain m g1 where g1: "apply_event A ev g = Inr (m, g1)" "db_inv (fedSubStore g1)"
      "node_keys A (fedSubStore g1) = replay ev (node_keys A (fedSubStore g))"
    using apply_event_ok [OF Cons.prems(1), of ev A] Cons.prems(2) by auto
  then show ?case using Cons.IH [OF g1(2)] Cons.prems(2) by simp
qed simp

lemma no_unset: "Event_unset \<notin> set (history_events ops l)" "Event_unset \<notin> set (sync_events l ret)"
proof -
  have "Event_unset \<notin> set (hook_events op l)" for op l by (cases op) auto
  then show "Event_unset \<notin> set (history_events ops l)" by (induction ops arbitrary: l) simp_all
  show "Event_unset \<notin> set (sync_events l ret)"
    using sync_messages [of ret "[]"] by (auto simp: sync_events_def split: prod.splits)
qed

lemma eq_add_events: "map ev_Event (eq_l (fold eq_add evs q)) = map ev_Event (eq_l q) @ evs"
  by (induction evs arbitrary: q) (simp_all add: eq_add_def Let_def)

lemma peer_add_events: "map ev_Event (eq_l (fp_queue (fold peer_add evs p))) = map ev_Event (eq_l (fp_queue p)) @ evs"
  by (induction evs arbitrary: p) (simp_all add: peer_add_def eq_add_def Let_def)

lemma setReadPosition_l [simp]: "eq_l (setReadPosition i q) = eq_l q"
  by (simp add: setReadPosition_def split: option.splits)

lemma initStream_clean:
  assumes "fp_state p \<noteq> peerStateStopped"
  shows "\<exists>p1. initStream (Inr (True, i)) (Inr ()) l ret p = (Inr (), p1) \<and> map ev_Event (eq_l (fp_queue p1)) = sync_events l ret"
  using assms by (simp add: initStream_def Let_def eq_open_def eq_add_events eq_clear_def)

lemma Hello_clean:
  assumes "db_inv (fedSubStore g)" "A \<noteq> []" "map_of (fed_peers g) A \<noteq> None"
    "\<forall>v. fed_sessions g A = Some v \<longrightarrow> fs_id v \<noteq> i"
  shows "\<exists>g1. Hello (Some [A]) i g = Inr ((True, 0), g1) \<and> db_inv (fedSubStore g1) \<and>
    (\<forall>n f. (n, f) \<in> node_keys A (fedSubStore g1) \<longrightarrow> n \<noteq> [] \<and> db_content (fedSubStore g) (A, n, f) \<noteq> None)"
proof -
  obtain ss where ss: "sessionMgr_add A i (fed_sessions g) = ((True, 0), ss)"
    using assms(4) by (cases "fed_sessions g A") (auto simp: sessionMgr_add_def)
  obtain db where db: "UnsubscribeAllLocked A (fedSubStore g) = Inr db" "db_inv db"
      "\<forall>d f. db_content db (d, [], f) = spec_unsubscribe_all A (db_content (fedSubStore g)) (d, [], f)"
      "\<forall>k. db_content db k \<in> {None, db_content (fedSubStore g) k}"
    using trie_store.unsubscribe_all [OF assms(1), of A] by blast
  have "n \<noteq> [] \<and> db_content (fedSubStore g) (A, n, f) \<noteq> None" if "db_content db (A, n, f) \<noteq> None" for n f
    using db(3) [rule_format, of A f] db(4) [rule_format, of "(A, n, f)"] that by (auto simp: spec_unsubscribe_all_def)
  moreover obtain p where "map_of (fed_peers g) A = Some p" using assms(3) by blast
  ultimately show ?thesis
    using ss db(1,2) assms(2) by (simp add: Hello_def getNodeNameFromContext_def node_keys_def)
qed


section \<open>The replica of a node\<close>

text \<open>
  C15. The copy that another node keeps of a node's subscriptions converges.  A node \<open>A\<close> handles any subscriptions, unsubscriptions and
  ended sessions of its clients, opens a stream to a node that does not know its session, and handles any more.  Then the handshake
  asks for a clean start, and applying what the queue for the other node was given leaves in the other node's store, under the name
  \<open>A\<close>, exactly the filters to which some client of \<open>A\<close> is subscribed at the end.  A shared subscription is covered if the
  store did not hold it from an earlier session, which a clean start may fail to remove.
\<close>

theorem replica_converges:
  assumes "\<forall>op\<in>set (ops1 @ ops2). hook_ok op" "length (ops1 @ ops2) < 2 ^ 64"
    and "fed_local f0 = \<lparr>ls_index = Map.empty, ls_topics = []\<rparr>" "f = fold hook_apply ops1 f0"
    and "map_of (fed_peers f) B = Some p" "fp_state p \<noteq> peerStateStopped"
    and "db_inv (fedSubStore g)" "A \<noteq> []" "map_of (fed_peers g) A \<noteq> None"
    and "\<forall>v. fed_sessions g A = Some v \<longrightarrow> fs_id v \<noteq> fp_sessionID p"
  shows "\<exists>g1 g2 p1 p2.
    Hello (Some [A]) (fp_sessionID p) g = Inr ((True, 0), g1) \<and>
    initStream (Inr (True, 0)) (Inr ()) (fed_local f) (fed_retained f) p = (Inr (), p1) \<and>
    map_of (fed_peers (fold hook_apply ops2 (f\<lparr>fed_peers := al_put B p1 (fed_peers f)\<rparr>))) B = Some p2 \<and>
    apply_events A (map ev_Event (eq_l (fp_queue p2))) g1 = Inr g2 \<and>
    (\<forall>s. sub_ok s \<longrightarrow> sb_ShareName s = [] \<or> db_content (fedSubStore g) (A, sb_ShareName s, sb_TopicFilter s) = None \<longrightarrow>
      (db_content (fedSubStore g2) (A, sb_ShareName s, sb_TopicFilter s) \<noteq> None
        \<longleftrightarrow> (\<exists>c. (c, Subscription_GetFullTopicName s) \<in> hook_history (ops1 @ ops2))))"
proof -
  let ?l0 = "\<lparr>ls_index = Map.empty, ls_topics = []\<rparr> :: localSubStore"
  let ?l1 = "fed_local f" and ?l2 = "fold hook_local ops2 (fed_local f)"
  have l0: "local_ok 0 ?l0" "local_rel ?l0 = {}"
    by (simp_all add: local_ok_def local_rel_def tops_def counts_ok_def clients_of_def)
  have l1_eq: "?l1 = fold hook_local ops1 ?l0" using assms(3,4) by (simp add: hook_run_eq)
  have l1: "local_ok (length ops1) ?l1" "local_rel ?l1 = hook_history ops1" "topics_ok (snd ` local_rel ?l1)"
    unfolding l1_eq hook_history_def using history_replay [OF l0(1), of ops1] assms(1,2) l0(2) by (simp_all add: topics_ok_def)
  have l2: "local_rel ?l2 = hook_history (ops1 @ ops2)" "topics_ok (snd ` hook_history (ops1 @ ops2))"
    "fold replay (history_events ops2 ?l1) (SplitTopic ` snd ` local_rel ?l1) = SplitTopic ` snd ` local_rel ?l2"
    using history_replay [OF l1(1) _ _ l1(3), of ops2] assms(1,2) by (simp_all add: l1(2) hook_history_def)
  obtain g1 where g1: "Hello (Some [A]) (fp_sessionID p) g = Inr ((True, 0), g1)" "db_inv (fedSubStore g1)"
      "\<forall>n f. (n, f) \<in> node_keys A (fedSubStore g1) \<longrightarrow> n \<noteq> [] \<and> db_content (fedSubStore g) (A, n, f) \<noteq> None"
    using Hello_clean [OF assms(7-10)] by blast
  obtain p1 where p1: "initStream (Inr (True, 0)) (Inr ()) ?l1 (fed_retained f) p = (Inr (), p1)"
      "map ev_Event (eq_l (fp_queue p1)) = sync_events ?l1 (fed_retained f)"
    using initStream_clean [OF assms(6)] by blast
  let ?p2 = "fold peer_add (history_events ops2 ?l1) p1" and ?evs = "sync_events ?l1 (fed_retained f) @ history_events ops2 ?l1"
  have p2: "map_of (fed_peers (fold hook_apply ops2 (f\<lparr>fed_peers := al_put B p1 (fed_peers f)\<rparr>))) B = Some ?p2"
    by (simp add: hook_run_eq map_of_tell)
  have q: "map ev_Event (eq_l (fp_queue ?p2)) = ?evs" by (simp add: peer_add_events p1(2))
  obtain g2 where g2: "apply_events A ?evs g1 = Inr g2" "node_keys A (fedSubStore g2) = fold replay ?evs (node_keys A (fedSubStore g1))"
    using apply_events_ok [OF g1(2), of ?evs A] no_unset by auto
  have evs: "fold replay ?evs {} = SplitTopic ` snd ` hook_history (ops1 @ ops2)"
    using sync_replay [OF l1(1)] l2(1,3) by simp
  have "db_content (fedSubStore g2) (A, sb_ShareName s, sb_TopicFilter s) \<noteq> None
        \<longleftrightarrow> (\<exists>c. (c, Subscription_GetFullTopicName s) \<in> hook_history (ops1 @ ops2))"
    if s: "sub_ok s" "sb_ShareName s = [] \<or> db_content (fedSubStore g) (A, sb_ShareName s, sb_TopicFilter s) = None" for s
  proof -
    let ?k = "(sb_ShareName s, sb_TopicFilter s)"
    have "?k \<notin> node_keys A (fedSubStore g1)" using g1(3) s(2) by blast
    then have "?k \<in> node_keys A (fedSubStore g2) \<longleftrightarrow> ?k \<in> SplitTopic ` snd ` hook_history (ops1 @ ops2)"
      unfolding g2(2) evs [symmetric] by (intro replay_local) simp
    also have "\<dots> \<longleftrightarrow> Subscription_GetFullTopicName s \<in> snd ` hook_history (ops1 @ ops2)"
    proof -
      have "topics_ok (insert (Subscription_GetFullTopicName s) (snd ` hook_history (ops1 @ ops2)))"
        using l2(2) s(1) by (auto simp: topics_ok_def)
      from inj_on_image_mem_iff [OF topics_ok_inj [OF this]] show ?thesis
        using sub_ok_Split [OF s(1)] by (metis insertI1 subset_insertI)
    qed
    also have "\<dots> \<longleftrightarrow> (\<exists>c. (c, Subscription_GetFullTopicName s) \<in> hook_history (ops1 @ ops2))" by force
    finally show ?thesis by (simp add: node_keys_def)
  qed
  then show ?thesis using g1(1) p1(1) p2 g2(1) q by metis
qed

definition sample_A :: Federation where
  "sample_A = nodeJoin [([0x42], [1])] (Federation_New [0x41])"

definition sample_B :: Federation where
  "sample_B = nodeJoin [([0x41], [2])] (Federation_New [0x42])"

text \<open>Two clients subscribe to \<^verbatim>\<open>a\<close>, one before the stream is opened and one afterwards; the first one unsubscribes.\<close>

theorem replica_converges_witness:
  "\<exists>p p1 p2 g1 g2. let sub = sample_sub [] [0x61]; f = hook_apply (HookSubscribed [1] sub) sample_A in
    initStream (Inr (True, 0)) (Inr ()) (fed_local f) (fed_retained f) p = (Inr (), p1) \<and>
    map_of (fed_peers (fold hook_apply [HookSubscribed [2] sub, HookUnsubscribed [1] [0x61]]
      (f\<lparr>fed_peers := al_put [0x42] p1 (fed_peers f)\<rparr>))) [0x42] = Some p2 \<and>
    apply_events [0x41] (map ev_Event (eq_l (fp_queue p2))) g1 = Inr g2 \<and>
    db_content (fedSubStore g2) ([0x41], [], [0x61]) \<noteq> None"
proof -
  let ?s = "sample_sub [] [0x61]"
  let ?f = "fold hook_apply [HookSubscribed [1] ?s] sample_A"
  have "sub_ok ?s" by code_simp
  moreover obtain p where "map_of (fed_peers ?f) [0x42] = Some p" "fp_state p \<noteq> peerStateStopped"
    unfolding hook_run_eq by (auto simp: map_of_tell sample_A_def Federation_New_def peer_add_def)
  moreover have "fed_local sample_A = \<lparr>ls_index = Map.empty, ls_topics = []\<rparr>" by (simp add: sample_A_def Federation_New_def)
  moreover have "db_inv (fedSubStore sample_B)" "map_of (fed_peers sample_B) [0x41] \<noteq> None" "fed_sessions sample_B [0x41] = None"
    by (simp_all add: sample_B_def Federation_New_def db_inv_New)
  moreover have "([2], [0x61]) \<in> hook_history ([HookSubscribed [1] ?s] @ [HookSubscribed [2] ?s, HookUnsubscribed [1] [0x61]])"
    "Subscription_GetFullTopicName ?s = [0x61]" "sb_ShareName ?s = []" "sb_TopicFilter ?s = [0x61]"
    by (simp_all add: hook_history_def sample_sub_def Subscription_GetFullTopicName_def)
  ultimately show ?thesis
    using replica_converges [of "[HookSubscribed [1] ?s]" "[HookSubscribed [2] ?s, HookUnsubscribed [1] [0x61]]" sample_A ?f "[0x42]" p sample_B "[0x41]"]
    unfolding Let_def by fastforce
qed

end
