(* ===== verification/Fed_Routing.thy ===== *)
theory Fed_Routing
  imports Federation
begin

text \<open>
  Where the federation plug-in sends a message: \<^verbatim>\<open>sendMessage\<close> and \<^verbatim>\<open>sendSharedMsg\<close> of
  \<^verbatim>\<open>gmqtt/plugin/federation/hooks.go\<close>, the turns of a shared subscription, and the cases in which the
  routing does not do what its comments say.
\<close>

section \<open>Matches in a part of a store\<close>

definition part_options :: "bool \<Rightarrow> bytes \<Rightarrow> IterationOptions" where
  "part_options shared topic = (match_options topic)\<lparr>it_Type := (if shared then TypeShared else TypeAll XOR TypeShared)\<rparr>"

lemma iterate_part:
  assumes "db_inv db" "keyed (db_content db)" "topic \<noteq> []" "plain_level topic"
  shows "\<exists>es. (\<forall>c s. (c, s) \<in> set es \<longleftrightarrow> (\<exists>n f. (n \<noteq> []) = shared \<and> db_content db (c, n, f) = Some s \<and> sub_matches topic n f))
    \<and> (\<forall>fn (st :: 'st). IterateLocked fn (part_options shared topic) db st = Inr (fst (iter_subs fn es st)))"
proof -
  have tries: "tries_ok db" using assms(1) by (simp add: db_inv_def)
  have pl: "\<forall>l\<in>set (split_levels topic). plain_level l" using plain_split [OF assms(4)] .
  let ?k = "if shared then KShared else if isSystemTopic topic then KSystem else KUser"
  let ?es = "matched_pairs [] (fold rs_append (hits (db_heap db) (trie_of ?k db) topic) [])"
  have "set ?es = set (hits (db_heap db) (trie_of ?k db) topic)" using mset_matched by (metis set_mset_mset)
  moreover have "kind_of [] f = (if isSystemTopic topic then KSystem else KUser) \<longleftrightarrow> isSystemTopic topic = isSystemTopic f" for f
    by (simp add: kind_of_def)
  ultimately have "(c, s) \<in> set ?es \<longleftrightarrow> (\<exists>n f. (n \<noteq> []) = shared \<and> db_content db (c, n, f) = Some s \<and> sub_matches topic n f)" for c s
    using hits_shared(2) [OF tries assms(2) pl] hits_user(2) [OF tries assms(2) _ pl, of ?k]
    by (cases shared) (auto simp: sub_matches_def topic_matches_def db_content_def)
  moreover have "IterateLocked fn (part_options shared topic) db st = Inr (fst (iter_subs fn ?es st))" for fn and st :: 'st
    using assms(3) by (cases shared; cases "isSystemTopic topic")
      (simp_all add: IterateLocked_def part_options_def match_options_def iterateShared_def iterateNonShared_def getMatched_hits
        prod.case_eq_if Let_def)
  ultimately show ?thesis by blast
qed

lemma iter_subs_all: "iter_subs (\<lambda>e s. (g e s, True)) es s = (fold g es s, True)"
  by (induction es arbitrary: s) simp_all

lemma iter_subs_first: "fst (iter_subs (\<lambda>e s. (g s, False)) es s) = (if es = [] then s else g s)"
  by (cases es) simp_all

section \<open>Groups\<close>

text \<open>The nodes that have a subscriber in the group with a full name: the local node and the nodes of the federation store.\<close>

definition group_nodes :: "Federation \<Rightarrow> bytes \<Rightarrow> bytes \<Rightarrow> bytes set" where
  "group_nodes f topic g =
    {A. \<exists>n t s. n \<noteq> [] \<and> sub_matches topic n t \<and> Subscription_GetFullTopicName s = g \<and>
      (db_content (fedSubStore f) (A, n, t) = Some s \<or> A = fed_nodeName f \<and> (\<exists>c. db_content (fed_localStore f) (c, n, t) = Some s))}"

definition groups_rel :: "(bytes \<times> bytes list) list \<Rightarrow> (bytes \<Rightarrow> bytes set) \<Rightarrow> bool" where
  "groups_rel l G \<longleftrightarrow> distinct (al_keys l) \<and> (\<forall>g. map_of l g \<noteq> Some [] \<and> set (case map_of l g of None \<Rightarrow> [] | Some v \<Rightarrow> v) = G g)"

lemma groups_rel_append:
  assumes "groups_rel l G"
  shows "groups_rel (al_append g A l) (G(g := insert A (G g)))"
proof -
  have upd: "(m(g \<mapsto> (case m g of None \<Rightarrow> [] | Some v \<Rightarrow> v) @ [A])) h \<noteq> Some [] \<and>
      set (case (m(g \<mapsto> (case m g of None \<Rightarrow> [] | Some v \<Rightarrow> v) @ [A])) h of None \<Rightarrow> [] | Some v \<Rightarrow> v) = (G(g := insert A (G g))) h"
    if "\<forall>g. m g \<noteq> Some [] \<and> set (case m g of None \<Rightarrow> [] | Some v \<Rightarrow> v) = G g" for m :: "bytes \<rightharpoonup> bytes list" and h
    using that by auto
  show ?thesis
    using assms upd [of "map_of l"] unfolding groups_rel_def al_append_def map_of_al_put al_put_distinct by blast
qed

lemma groups_rel_fold:
  "groups_rel l G \<Longrightarrow> groups_rel (fold (\<lambda>e l. al_append (key e) (val e) l) es l) (\<lambda>g. G g \<union> {val e | e. e \<in> set es \<and> key e = g})"
proof (induction es arbitrary: l G)
  case (Cons e es)
  have "(\<lambda>g. G g \<union> {val x | x. x \<in> set (e # es) \<and> key x = g})
      = (\<lambda>g. (G(key e := insert (val e) (G (key e)))) g \<union> {val x | x. x \<in> set es \<and> key x = g})"
    by (auto simp: fun_eq_iff)
  then show ?case using Cons.IH [OF groups_rel_append [OF Cons.prems, of "key e" "val e"]] by simp
qed simp

lemma fed_fold:
  "fold (\<lambda>(A, s) (l, ns). if sb_ShareName s \<noteq> [] then (al_append (Subscription_GetFullTopicName s) A l, ns) else (l, List.insert A ns)) es (l, ns)
    = (fold (\<lambda>e l. al_append (Subscription_GetFullTopicName (snd e)) (fst e) l) (filter (\<lambda>e. sb_ShareName (snd e) \<noteq> []) es) l,
       fold (\<lambda>e. List.insert (fst e)) (filter (\<lambda>e. sb_ShareName (snd e) = []) es) ns)"
  by (induction es arbitrary: l ns) (auto split: prod.splits)

lemma set_fold_insert: "set (fold (\<lambda>e. List.insert (g e)) es ns) = set ns \<union> g ` set es"
  by (induction es arbitrary: ns) auto

lemma distinct_fold_insert: "distinct ns \<Longrightarrow> distinct (fold (\<lambda>e. List.insert (g e)) es ns)"
  by (induction es arbitrary: ns) auto

lemma sendMessage_groups:
  assumes "db_inv (fed_localStore f)" "keyed (db_content (fed_localStore f))" "db_inv (fedSubStore f)" "keyed (db_content (fedSubStore f))"
    "msg_Topic msg \<noteq> []" "plain_level (msg_Topic msg)"
  shows "\<exists>l groups nonShared. local_shared f msg = Inr l \<and> fed_matches f msg l = Inr (groups, nonShared) \<and>
    groups_rel groups (group_nodes f (msg_Topic msg)) \<and> distinct nonShared \<and>
    set nonShared = {A. \<exists>t. db_content (fedSubStore f) (A, [], t) \<noteq> None \<and> sub_matches (msg_Topic msg) [] t}"
proof -
  let ?t = "msg_Topic msg"
  obtain es where es: "\<forall>c s. (c, s) \<in> set es \<longleftrightarrow> (\<exists>n g. n \<noteq> [] \<and> db_content (fed_localStore f) (c, n, g) = Some s \<and> sub_matches ?t n g)"
    "\<forall>fn (st :: (bytes \<times> bytes list) list). IterateLocked fn (part_options True ?t) (fed_localStore f) st = Inr (fst (iter_subs fn es st))"
    using iterate_part [OF assms(1,2,5,6), of True] by auto
  let ?l = "fold (\<lambda>e l. al_append (Subscription_GetFullTopicName (snd e)) (fed_nodeName f) l) es []"
  have l: "local_shared f msg = Inr ?l"
    using es(2) by (simp add: local_shared_def part_options_def match_options_def case_prod_unfold iter_subs_all)
  obtain ds where ds: "\<forall>c s. (c, s) \<in> set ds \<longleftrightarrow> (\<exists>n g. sub_at (fedSubStore f) c n g = Some s \<and> sub_matches ?t n g)"
    "\<forall>fn (st :: (bytes \<times> bytes list) list \<times> bytes list). IterateLocked fn (match_options ?t) (fedSubStore f) st = Inr (fst (iter_subs fn ds st))"
    using iterate_match [OF assms(3,4,5,6)] by blast
  let ?sh = "filter (\<lambda>e. sb_ShareName (snd e) \<noteq> []) ds" and ?ns = "filter (\<lambda>e. sb_ShareName (snd e) = []) ds"
  let ?g = "fold (\<lambda>e l. al_append (Subscription_GetFullTopicName (snd e)) (fst e) l) ?sh ?l"
    and ?n = "fold (\<lambda>e. List.insert (fst e)) ?ns []"
  have m: "fed_matches f msg ?l = Inr (?g, ?n)"
    using ds(2) fed_fold [of ds ?l "[]"]
    by (simp add: fed_matches_def case_prod_unfold iter_subs_all)
  have key: "sb_ShareName s = n" if "sub_at (fedSubStore f) c n g = Some s" for c n g s
    using assms(4) that unfolding keyed_def db_content_def by simp
  have "groups_rel [] (\<lambda>_. {})" by (simp add: groups_rel_def)
  from groups_rel_fold [OF groups_rel_fold [OF this]]
  have "groups_rel ?g (\<lambda>g. ({} \<union> {fed_nodeName f | e. e \<in> set es \<and> Subscription_GetFullTopicName (snd e) = g})
      \<union> {fst e | e. e \<in> set ?sh \<and> Subscription_GetFullTopicName (snd e) = g})" .
  moreover have "({} \<union> {fed_nodeName f | e. e \<in> set es \<and> Subscription_GetFullTopicName (snd e) = g})
      \<union> {fst e | e. e \<in> set ?sh \<and> Subscription_GetFullTopicName (snd e) = g} = group_nodes f ?t g" for g
  proof -
    have L: "{fed_nodeName f | e. e \<in> set es \<and> Subscription_GetFullTopicName (snd e) = g}
        = {A. A = fed_nodeName f \<and> (\<exists>c s. (c, s) \<in> set es \<and> Subscription_GetFullTopicName s = g)}" by auto
    have R: "{fst e | e. e \<in> set ?sh \<and> Subscription_GetFullTopicName (snd e) = g}
        = {A. \<exists>s. ((A, s) \<in> set ds \<and> sb_ShareName s \<noteq> []) \<and> Subscription_GetFullTopicName s = g}" by force
    have D: "(A, s) \<in> set ds \<and> sb_ShareName s \<noteq> [] \<longleftrightarrow>
        (\<exists>n h. n \<noteq> [] \<and> sub_at (fedSubStore f) A n h = Some s \<and> sub_matches ?t n h)" for A s
      using ds(1) key by metis
    show ?thesis
      unfolding L R D es(1) [rule_format] group_nodes_def db_content_def prod.case by blast
  qed
  moreover have "set ?n = {A. \<exists>t. db_content (fedSubStore f) (A, [], t) \<noteq> None \<and> sub_matches ?t [] t}"
  proof -
    have D: "(A, s) \<in> set ds \<and> sb_ShareName s = [] \<longleftrightarrow> (\<exists>h. sub_at (fedSubStore f) A [] h = Some s \<and> sub_matches ?t [] h)" for A s
    proof
      assume "(A, s) \<in> set ds \<and> sb_ShareName s = []"
      then obtain n h where n: "sub_at (fedSubStore f) A n h = Some s" "sub_matches ?t n h" "sb_ShareName s = []" using ds(1) by blast
      moreover have "n = []" using key [OF n(1)] n(3) by simp
      ultimately show "\<exists>h. sub_at (fedSubStore f) A [] h = Some s \<and> sub_matches ?t [] h" by blast
    qed (use ds(1) key in blast)
    have "fst ` set ?ns = {A. \<exists>s. (A, s) \<in> set ds \<and> sb_ShareName s = []}" by force
    then have "set ?n = {A. \<exists>s. (A, s) \<in> set ds \<and> sb_ShareName s = []}" unfolding set_fold_insert by simp
    then show ?thesis unfolding D db_content_def prod.case by blast
  qed
  moreover have "distinct ?n" by (rule distinct_fold_insert) simp
  ultimately have "groups_rel ?g (group_nodes f ?t) \<and> distinct ?n
      \<and> set ?n = {A. \<exists>t. db_content (fedSubStore f) (A, [], t) \<noteq> None \<and> sub_matches ?t [] t}" by simp
  then show ?thesis using l m by blast
qed


section \<open>The choice in a group\<close>

definition picked :: "(bytes \<Rightarrow> uint64) \<Rightarrow> bytes \<times> bytes list \<Rightarrow> bytes" where
  "picked sent g = (case g of (t, v) \<Rightarrow> sort v ! (unat (sent t) mod length v))"

lemma sendSharedMsg_picks:
  assumes "\<forall>(t, v)\<in>set l. v \<noteq> []" "distinct (al_keys l)" and send: "\<And>n t s. send n t s = Inr (step n s)"
  shows "sendSharedMsg send l sent s
    = Inr (\<lambda>t. if t \<in> set (al_keys l) then sent t + 1 else sent t, fold step (map (picked sent) l) s)"
  using assms(1,2)
proof (induction l arbitrary: sent s)
  case (Cons e l)
  obtain t v where e: "e = (t, v)" by fastforce
  let ?n = "picked sent e" and ?sent = "sent(t := sent t + 1)"
  have same: "map (picked ?sent) l = map (picked sent) l"
    using Cons.prems(2) e by (force simp: picked_def)
  have "sendSharedMsg send (e # l) sent s = sendSharedMsg send l ?sent (step ?n s)"
    using Cons.prems(1) e by (simp add: picked_def Let_def send)
  also have "\<dots> = Inr (\<lambda>t. if t \<in> set (al_keys l) then ?sent t + 1 else ?sent t, fold step (map (picked ?sent) l) (step ?n s))"
    by (rule Cons.IH) (use Cons.prems in simp_all)
  also have "(\<lambda>x. if x \<in> set (al_keys l) then ?sent x + 1 else ?sent x)
      = (\<lambda>x. if x \<in> set (al_keys (e # l)) then sent x + 1 else sent x)"
    using Cons.prems(2) e by (auto simp: fun_eq_iff)
  finally show ?case unfolding same by simp
qed simp

text \<open>One call of the function that \<^verbatim>\<open>sendMessage\<close> passes; \<open>m\<close> is whether a local non-shared subscription matches.\<close>

definition send_step :: "Federation \<Rightarrow> Message \<Rightarrow> bool \<Rightarrow> bytes \<Rightarrow> send_state \<Rightarrow> send_state" where
  "send_step f msg m n s =
    (if n = fed_nodeName f \<or> n \<in> set (sd_sent s) then s
     else if map_of (sd_peers s) n = None then s\<lparr>sd_sent := n # sd_sent s\<rparr>
     else s\<lparr>sd_sent := n # sd_sent s, sd_peers := send_to n msg (sd_peers s), sd_drop := \<not> m,
            sd_options := (if m then Some (nonSharedOpts (msg_Topic msg)) else sd_options s)\<rparr>)"

lemma send_shared_step:
  assumes "db_inv (fed_localStore f)" "keyed (db_content (fed_localStore f))" "msg_Topic msg \<noteq> []" "plain_level (msg_Topic msg)"
  shows "send_shared f msg n t s = Inr (send_step f msg
    (\<exists>c h. db_content (fed_localStore f) (c, [], h) \<noteq> None \<and> sub_matches (msg_Topic msg) [] h) n s)"
proof -
  let ?t = "msg_Topic msg" and ?o = "nonSharedOpts (msg_Topic msg)"
  obtain es where es: "\<forall>c s. (c, s) \<in> set es \<longleftrightarrow> (\<exists>n h. n = [] \<and> db_content (fed_localStore f) (c, n, h) = Some s \<and> sub_matches ?t n h)"
    "\<forall>fn (st :: send_state). IterateLocked fn (part_options False ?t) (fed_localStore f) st = Inr (fst (iter_subs fn es st))"
    using iterate_part [OF assms, of False] by auto
  have m: "es \<noteq> [] \<longleftrightarrow> (\<exists>c h. db_content (fed_localStore f) (c, [], h) \<noteq> None \<and> sub_matches ?t [] h)"
  proof -
    have "es \<noteq> [] \<longleftrightarrow> (\<exists>c s. (c, s) \<in> set es)" by (cases es) auto
    then show ?thesis using es(1) by auto
  qed
  have "part_options False ?t = ?o" by (simp add: part_options_def match_options_def nonSharedOpts_def)
  then have "IterateLocked (\<lambda>_ s. (s\<lparr>sd_drop := False, sd_options := Some ?o\<rparr>, False)) ?o (fed_localStore f) s
      = Inr (if es = [] then s else s\<lparr>sd_drop := False, sd_options := Some ?o\<rparr>)" for s :: send_state
    using es(2) iter_subs_first [of "\<lambda>s. s\<lparr>sd_drop := False, sd_options := Some ?o\<rparr>" es s] by simp
  then show ?thesis
    unfolding m [symmetric] by (auto simp: send_shared_def send_step_def Let_def)
qed


lemma map_of_send_to:
  "map_of (send_to n msg ps) k = (if k = n then map_option (peer_add (Event_Message (messageToEvent msg))) (map_of ps n) else map_of ps k)"
  by (cases "map_of ps n") (simp_all add: send_to_def)

text \<open>All calls together: each chosen node is sent the message once.\<close>

lemma send_step_sent: "set (sd_sent (send_step f msg m n s)) = set (sd_sent s) \<union> ({n} - {fed_nodeName f})"
  by (auto simp: send_step_def)

lemma send_step_peers:
  "map_of (sd_peers (send_step f msg m n s)) k = (if k = n \<and> k \<noteq> fed_nodeName f \<and> k \<notin> set (sd_sent s)
     then map_option (peer_add (Event_Message (messageToEvent msg))) (map_of (sd_peers s) k) else map_of (sd_peers s) k)"
  by (auto simp: send_step_def map_of_send_to simp del: map_of_eq_None_iff)

lemma send_steps_sent: "set (sd_sent (fold (send_step f msg m) ns s)) = set (sd_sent s) \<union> (set ns - {fed_nodeName f})"
  by (induction ns arbitrary: s) (auto simp: send_step_sent)

lemma send_steps_peers:
  "map_of (sd_peers (fold (send_step f msg m) ns s)) k = (if k \<in> set ns \<and> k \<noteq> fed_nodeName f \<and> k \<notin> set (sd_sent s)
     then map_option (peer_add (Event_Message (messageToEvent msg))) (map_of (sd_peers s) k) else map_of (sd_peers s) k)"
proof (induction ns arbitrary: s)
  case (Cons n ns)
  show ?case
    unfolding fold_simps(2) Cons.IH send_step_peers send_step_sent by (cases "k = n") simp_all
qed simp

definition reaches_peer :: "Federation \<Rightarrow> bytes list \<Rightarrow> send_state \<Rightarrow> bool" where
  "reaches_peer f ns s \<longleftrightarrow> (\<exists>n\<in>set ns. n \<noteq> fed_nodeName f \<and> n \<notin> set (sd_sent s) \<and> n \<in> dom (map_of (sd_peers s)))"

lemma reaches_peer_Cons:
  "reaches_peer f (n # ns) s \<longleftrightarrow> reaches_peer f [n] s \<or> reaches_peer f ns (send_step f msg m n s)"
proof -
  have "dom (map_of (sd_peers (send_step f msg m n s))) = dom (map_of (sd_peers s))"
    by (auto simp: send_step_peers dom_def simp del: map_of_eq_None_iff)
  then show ?thesis unfolding reaches_peer_def send_step_sent by auto
qed

lemma send_step_drop:
  "sd_drop (send_step f msg m n s) = (if reaches_peer f [n] s then \<not> m else sd_drop s)"
  "sd_options (send_step f msg m n s) = (if reaches_peer f [n] s \<and> m then Some (nonSharedOpts (msg_Topic msg)) else sd_options s)"
  by (auto simp: send_step_def reaches_peer_def domIff simp del: map_of_eq_None_iff)

lemma send_steps_drop:
  "sd_drop (fold (send_step f msg m) ns s) = (if reaches_peer f ns s then \<not> m else sd_drop s)"
proof (induction ns arbitrary: s)
  case (Cons n ns)
  show ?case unfolding fold_simps(2) Cons.IH send_step_drop reaches_peer_Cons [of f n ns s msg m] by simp
qed (simp add: reaches_peer_def)

lemma send_steps_options:
  "sd_options (fold (send_step f msg m) ns s) = (if reaches_peer f ns s \<and> m then Some (nonSharedOpts (msg_Topic msg)) else sd_options s)"
proof (induction ns arbitrary: s)
  case (Cons n ns)
  show ?case unfolding fold_simps(2) Cons.IH send_step_drop reaches_peer_Cons [of f n ns s msg m] by (cases m) simp_all
qed (simp add: reaches_peer_def)

lemma send_nonShared_peers:
  assumes "distinct ns"
  shows "map_of (sd_peers (send_nonShared msg ns s)) k = (if k \<in> set ns \<and> k \<notin> set (sd_sent s)
     then map_option (peer_add (Event_Message (messageToEvent msg))) (map_of (sd_peers s) k) else map_of (sd_peers s) k)"
proof -
  have "distinct ns \<Longrightarrow> map_of (fold (\<lambda>n ps. if n \<in> X then ps else send_to n msg ps) ns ps) k = (if k \<in> set ns \<and> k \<notin> X
     then map_option (peer_add (Event_Message (messageToEvent msg))) (map_of ps k) else map_of ps k)" for X ps
  proof (induction ns arbitrary: ps)
    case (Cons n ns)
    show ?case using Cons.prems by (simp add: Cons.IH map_of_send_to)
  qed simp
  then show ?thesis using assms by (simp add: send_nonShared_def)
qed


section \<open>Properties\<close>

text \<open>
  C17. Routing of a message that is not retained.  For every shared group with a matching subscription on some node one of the nodes
  that have a member is chosen, by the counter of the group, which then advances; the message is queued exactly once for every other
  node that is chosen by some group or has a matching non-shared subscription, and for no other node.  If a peer was chosen for a group,
  the local node drops the message, or ignores its shared subscriptions if a local non-shared subscription matches.
\<close>

theorem sendMessage_routes:
  assumes "\<not> msg_Retained msg" "msg_Topic msg \<noteq> []" "plain_level (msg_Topic msg)"
    and "db_inv (fed_localStore f)" "keyed (db_content (fed_localStore f))" "db_inv (fedSubStore f)" "keyed (db_content (fedSubStore f))"
  shows "\<exists>groups f'. let topic = msg_Topic msg;
      chosen = picked (sharedSent f) ` set groups - {fed_nodeName f};
      remote = (\<exists>n\<in>chosen. map_of (fed_peers f) n \<noteq> None);
      matched = (\<exists>c t. db_content (fed_localStore f) (c, [], t) \<noteq> None \<and> sub_matches topic [] t) in
    sendMessage msg f = Inr (remote \<and> \<not> matched, if remote \<and> matched then Some (nonSharedOpts topic) else None, f') \<and>
    groups_rel groups (group_nodes f topic) \<and>
    (\<forall>g. sharedSent f' g = sharedSent f g + (if group_nodes f topic g = {} then 0 else 1)) \<and>
    (\<forall>n. map_of (fed_peers f') n =
      (if n \<in> chosen \<or> (\<exists>t. db_content (fedSubStore f) (n, [], t) \<noteq> None \<and> sub_matches topic [] t)
       then map_option (peer_add (Event_Message (messageToEvent msg))) (map_of (fed_peers f) n) else map_of (fed_peers f) n))"
proof -
  let ?t = "msg_Topic msg"
  let ?m = "\<exists>c t. db_content (fed_localStore f) (c, [], t) \<noteq> None \<and> sub_matches ?t [] t"
  let ?init = "\<lparr>sd_peers = fed_peers f, sd_sent = [], sd_drop = False, sd_options = None\<rparr>"
  obtain l groups ns where g: "local_shared f msg = Inr l" "fed_matches f msg l = Inr (groups, ns)"
      "groups_rel groups (group_nodes f ?t)" "distinct ns"
      "set ns = {A. \<exists>t. db_content (fedSubStore f) (A, [], t) \<noteq> None \<and> sub_matches ?t [] t}"
    using sendMessage_groups [OF assms(4-7,2,3)] by blast
  let ?ps = "map (picked (sharedSent f)) groups"
  let ?s = "fold (send_step f msg ?m) ?ps ?init"
  let ?sent = "\<lambda>t. if t \<in> set (al_keys groups) then sharedSent f t + 1 else sharedSent f t"
  have ne: "\<forall>(t, v)\<in>set groups. v \<noteq> []" and dk: "distinct (al_keys groups)"
    using g(3) by (auto simp: groups_rel_def)
  have keys: "t \<in> set (al_keys groups) \<longleftrightarrow> group_nodes f ?t t \<noteq> {}" for t
  proof -
    have "map_of groups t \<noteq> Some [] \<and> set (case map_of groups t of None \<Rightarrow> [] | Some v \<Rightarrow> v) = group_nodes f ?t t"
      using g(3) unfolding groups_rel_def by blast
    moreover have "t \<in> set (al_keys groups) \<longleftrightarrow> map_of groups t \<noteq> None" by (simp add: map_of_eq_None_iff)
    ultimately show ?thesis by (cases "map_of groups t") auto
  qed
  let ?f = "f\<lparr>sharedSent := ?sent, fed_peers := sd_peers (send_nonShared msg ns ?s)\<rparr>"
  have picks: "sendSharedMsg (send_shared f msg) groups (sharedSent f) ?init = Inr (?sent, ?s)"
    by (rule sendSharedMsg_picks [OF ne dk]) (rule send_shared_step [OF assms(4,5,2,3)])
  have send: "sendMessage msg f = Inr (sd_drop (send_nonShared msg ns ?s), sd_options (send_nonShared msg ns ?s), ?f)"
    using assms(1) by (simp only: sendMessage_def Let_def if_False g(1,2) rbind_simps prod.case picks)
  have chosen: "set ?ps - {fed_nodeName f} = picked (sharedSent f) ` set groups - {fed_nodeName f}" by simp
  have remote: "reaches_peer f ?ps ?init \<longleftrightarrow> (\<exists>n\<in>set ?ps - {fed_nodeName f}. map_of (fed_peers f) n \<noteq> None)"
    unfolding reaches_peer_def by (auto simp: domIff simp del: map_of_eq_None_iff)
  have drop: "sd_drop (send_nonShared msg ns ?s) \<longleftrightarrow> reaches_peer f ?ps ?init \<and> \<not> ?m"
      "sd_options (send_nonShared msg ns ?s) = (if reaches_peer f ?ps ?init \<and> ?m then Some (nonSharedOpts ?t) else None)"
    by (simp_all add: send_nonShared_def send_steps_drop send_steps_options)
  have peers: "map_of (fed_peers ?f) n = (if n \<in> set ?ps - {fed_nodeName f} \<or> n \<in> set ns
       then map_option (peer_add (Event_Message (messageToEvent msg))) (map_of (fed_peers f) n) else map_of (fed_peers f) n)" for n
    using send_nonShared_peers [OF g(4), of msg ?s n] by (simp add: send_steps_peers send_steps_sent del: set_map)
  show ?thesis
    unfolding Let_def
  proof (intro exI [of _ groups] exI [of _ ?f] conjI allI)
    show "sendMessage msg f = Inr ((\<exists>n\<in>picked (sharedSent f) ` set groups - {fed_nodeName f}. map_of (fed_peers f) n \<noteq> None) \<and> \<not> ?m,
        if (\<exists>n\<in>picked (sharedSent f) ` set groups - {fed_nodeName f}. map_of (fed_peers f) n \<noteq> None) \<and> ?m then Some (nonSharedOpts ?t) else None, ?f)"
      unfolding send drop remote chosen ..
    show "sharedSent ?f g = sharedSent f g + (if group_nodes f ?t g = {} then 0 else 1)" for g
      using keys [of g] by simp
    show "map_of (fed_peers ?f) n = (if n \<in> picked (sharedSent f) ` set groups - {fed_nodeName f} \<or> (\<exists>t. db_content (fedSubStore f) (n, [], t) \<noteq> None \<and> sub_matches ?t [] t)
       then map_option (peer_add (Event_Message (messageToEvent msg))) (map_of (fed_peers f) n) else map_of (fed_peers f) n)" for n
      using peers [of n] g(5) unfolding chosen by simp
  qed (rule g(3))
qed


definition sample_msg :: Message where
  "sample_msg = msg_example\<lparr>msg_Topic := [0x61], msg_Retained := False\<rparr>"

text \<open>Node \<^verbatim>\<open>B\<close> has told node \<^verbatim>\<open>A\<close> about its filter \<^verbatim>\<open>a\<close>; a message for \<^verbatim>\<open>a\<close> is queued for it.\<close>

theorem sendMessage_routes_witness:
  "\<exists>f b os f'. apply_event [0x42] (Event_Subscribe [] [0x61]) sample_A = Inr (None, f) \<and> sendMessage sample_msg f = Inr (b, os, f') \<and>
    map_of (fed_peers f') [0x42] = map_option (peer_add (Event_Message (messageToEvent sample_msg))) (map_of (fed_peers f) [0x42])"
proof -
  let ?sub = "\<lparr>sb_ShareName = [], sb_TopicFilter = [0x61], sb_ID = 0, sb_QoS = 0, sb_NoLocal = False, sb_RetainAsPublished = False, sb_RetainHandling = 0\<rparr>"
  have A: "fed_localStore sample_A = Sub_NewStore" "fedSubStore sample_A = Sub_NewStore" by (simp_all add: sample_A_def Federation_New_def)
  obtain r db where db: "SubscribeLocked [0x42] [?sub] Sub_NewStore = Inr (r, db)" "db_inv db" "db_content db = spec_subscribe [0x42] [?sub] Map.empty"
    using SubscribeLocked_content [OF db_inv_New] NewStore_content by metis
  let ?f = "sample_A\<lparr>fedSubStore := db\<rparr>"
  have ev: "apply_event [0x42] (Event_Subscribe [] [0x61]) sample_A = Inr (None, ?f)" using db(1) A(2) by (simp add: apply_event_def)
  have "keyed (db_content db)" "keyed (db_content Sub_NewStore)" "db_content db ([0x42], [], [0x61]) \<noteq> None"
    unfolding db(3) NewStore_content by (simp_all add: keyed_def)
  moreover have "\<not> msg_Retained sample_msg" "msg_Topic sample_msg = [0x61]" by (simp_all add: sample_msg_def)
  moreover have "plain_level [0x61]" "sub_matches [0x61] [] [0x61]" by code_simp+
  moreover have "db_inv (fed_localStore ?f)" "keyed (db_content (fed_localStore ?f))" "db_inv (fedSubStore ?f)" "fedSubStore ?f = db"
    using A(1) db(2) db_inv_New calculation(2) by simp_all
  ultimately obtain groups f' where "\<exists>b os. sendMessage sample_msg ?f = Inr (b, os, f')"
      "\<forall>n. map_of (fed_peers f') n =
        (if n \<in> picked (sharedSent ?f) ` set groups - {fed_nodeName ?f} \<or> (\<exists>t. db_content db (n, [], t) \<noteq> None \<and> sub_matches [0x61] [] t)
         then map_option (peer_add (Event_Message (messageToEvent sample_msg))) (map_of (fed_peers ?f) n) else map_of (fed_peers ?f) n)"
    using sendMessage_routes [of sample_msg ?f] unfolding Let_def by (metis (no_types, lifting) list.distinct(1))
  then show ?thesis
    using ev \<open>db_content db ([0x42], [], [0x61]) \<noteq> None\<close> \<open>sub_matches [0x61] [] [0x61]\<close> by metis
qed

text \<open>The calls for one group, one after the other.\<close>

fun shared_turns :: "nat \<Rightarrow> bytes \<Rightarrow> bytes list \<Rightarrow> (bytes \<Rightarrow> uint64) \<Rightarrow> bytes list \<Rightarrow> ((bytes \<Rightarrow> uint64) \<times> bytes list) res" where
  "shared_turns 0 t v sent ns = Inr (sent, ns)"
| "shared_turns (Suc k) t v sent ns =
    rbind (sendSharedMsg (\<lambda>n _ ns. Inr (ns @ [n])) [(t, v)] sent ns) (\<lambda>(sent, ns). shared_turns k t v sent ns)"

lemma shared_turns_eq:
  assumes "v \<noteq> []" "unat (sent t) + k \<le> 2 ^ 64"
  shows "\<exists>sent'. shared_turns k t v sent ns = Inr (sent', ns @ map (\<lambda>i. sort v ! ((unat (sent t) + i) mod length v)) [0..<k])"
  using assms(2)
proof (induction k arbitrary: sent ns)
  case (Suc k)
  have inc: "unat (sent t + 1) = unat (sent t) + 1" if "k \<noteq> 0"
    using Suc.prems that by (simp add: unat_word_ariths)
  let ?ns = "ns @ [sort v ! (unat (sent t) mod length v)]"
  show ?case
  proof (cases "k = 0")
    case True
    then show ?thesis using assms(1) by simp
  next
    case False
    let ?sent = "sent(t := sent t + 1)"
    have "unat (?sent t) + k \<le> 2 ^ 64" using Suc.prems inc [OF False] by simp
    from Suc.IH [of ?sent ?ns, OF this] obtain sent' where
      "shared_turns k t v ?sent ?ns = Inr (sent', ?ns @ map (\<lambda>i. sort v ! ((unat (?sent t) + i) mod length v)) [0..<k])" by blast
    moreover have "map (\<lambda>i. sort v ! ((unat (sent t) + i) mod length v)) [0..<Suc k]
        = (sort v ! (unat (sent t) mod length v)) # map (\<lambda>i. sort v ! ((unat (?sent t) + i) mod length v)) [0..<k]"
      unfolding upt_conv_Cons [OF zero_less_Suc] map_Suc_upt [symmetric] using inc [OF False] by simp
    ultimately show ?thesis using assms(1) by simp
  qed
qed simp

lemma count_turns:
  "w \<noteq> [] \<Longrightarrow> count_list (map (\<lambda>i. w ! ((s + i) mod length w)) [0..<k * length w]) n = k * count_list w n"
proof (induction k)
  case (Suc k)
  have "map (\<lambda>i. w ! ((s + i) mod length w)) [k * length w..<Suc k * length w] = rotate s w"
  proof (rule nth_equalityI)
    fix i assume "i < length (map (\<lambda>i. w ! ((s + i) mod length w)) [k * length w..<Suc k * length w])"
    then have i: "i < length w" by simp
    have "(s + (k * length w + i)) mod length w = (s + i) mod length w"
      using mod_mult_self1 [of "s + i" k "length w"] by (simp add: ac_simps)
    then show "map (\<lambda>i. w ! ((s + i) mod length w)) [k * length w..<Suc k * length w] ! i = rotate s w ! i"
      using i by (simp add: nth_rotate)
  qed simp
  moreover have "[0..<Suc k * length w] = [0..<k * length w] @ [k * length w..<Suc k * length w]"
    using upt_add_eq_append [of 0 "k * length w" "length w"] by (simp add: add.commute)
  moreover have "count_list (rotate s w) n = count_list w n"
    by (metis rotate_drop_take count_list_append add.commute append_take_drop_id)
  ultimately show ?case using Suc by simp
qed simp

lemma count_list_sort: "count_list (sort v) n = count_list v n"
  by (metis count_mset mset_sort)

text \<open>
  A shared subscription takes turns fairly: while the members of a group stay the same, any \<open>k\<close> rounds of as many
  messages as the group has entries give every node exactly \<open>k\<close> times its number of entries, wherever the counter stood.
\<close>

lemma shared_round_robin:
  assumes "v \<noteq> []" "unat (sent t) + k * length v \<le> 2 ^ 64"
  shows "\<exists>sent' ns. shared_turns (k * length v) t v sent [] = Inr (sent', ns) \<and> (\<forall>n. count_list ns n = k * count_list v n)"
proof -
  have "sort v \<noteq> []" using assms(1) by (metis length_0_conv length_sort)
  then have "count_list (map (\<lambda>i. sort v ! ((unat (sent t) + i) mod length v)) [0..<k * length v]) n = k * count_list v n" for n
    using count_turns [of "sort v" "unat (sent t)" k n] count_list_sort [of v n] by simp
  moreover obtain sent' where "shared_turns (k * length v) t v sent [] =
      Inr (sent', [] @ map (\<lambda>i. sort v ! ((unat (sent t) + i) mod length v)) [0..<k * length v])"
    using shared_turns_eq [of v sent t "k * length v" "[]", OF assms] by blast
  ultimately show ?thesis by (metis append_Nil)
qed

lemma shared_round_robin_witness:
  "\<exists>sent' ns. shared_turns 2 [0x67] [[2], [1]] (\<lambda>_. 5) [] = Inr (sent', ns) \<and> count_list ns [1] = 1 \<and> count_list ns [2] = 1"
proof -
  have e: "1 * length [[2 :: byte], [1]] = 2" by simp
  obtain sent' ns where "shared_turns 2 [0x67] [[2], [1]] (\<lambda>_. 5) [] = Inr (sent', ns)" "\<forall>n. count_list ns n = 1 * count_list [[2], [1]] n"
    using shared_round_robin [of "[[2], [1]]" "\<lambda>_. 5" "[0x67]" 1, unfolded e] by (auto simp del: shared_turns.simps)
  then show ?thesis by (intro exI [of _ sent'] exI [of _ ns]) simp
qed

section \<open>Messages between nodes\<close>

text \<open>A message crosses the federation unchanged but for what belongs to a delivery; absent correlation data becomes empty.\<close>

lemma eventToMessage_messageToEvent:
  "eventToMessage (messageToEvent m) = m\<lparr>msg_Dup := False, msg_PacketID := 0, msg_SubscriptionIdentifier := [],
     msg_CorrelationData := Some (nonempty (msg_CorrelationData m))\<rparr>"
proof -
  have "(ucast (ucast b :: uint32) :: byte) = b" for b by (rule bit_word_eqI) (simp add: bit_unsigned_iff)
  then show ?thesis by (cases m) (simp add: eventToMessage_def messageToEvent_def UserProperty_eta)
qed

text \<open>
  A retained message without payload, which removes the retained message of its topic on the node it arrives at, is stored by the other nodes.
\<close>

lemma retained_clear_stored:
  assumes "inv_trieDB (fed_retained f)" "msg_Retained m" "msg_Payload m = []"
  shows "\<exists>f' x. apply_event A (Event_Message (messageToEvent m)) f = Inr (Some (eventToMessage (messageToEvent m)), f') \<and>
    trieDB_content (fed_retained f') (msg_Topic m) = Some x \<and> msg_Payload x = []"
  using retained.content_add [OF assms(1)] assms(2,3)
  by (simp add: apply_event_def Let_def eventToMessage_messageToEvent)

text \<open>
  A group whose turn is at the local node loses the message if another group's turn is at a peer and no local non-shared subscription
  matches.  Here client 1 of node \<^verbatim>\<open>A\<close> is in the group \<^verbatim>\<open>g\<close> and node \<^verbatim>\<open>B\<close> has a member of the group \<^verbatim>\<open>h\<close>.
\<close>

definition sample_lost :: "Federation res" where
  "sample_lost =
    rbind (SubscribeLocked [1] [sample_sub [0x67] [0x61]] Sub_NewStore) (\<lambda>(_, db).
    rbind (apply_event [0x42] (Event_Subscribe [0x68] [0x61]) (sample_A\<lparr>fed_localStore := db\<rparr>)) (\<lambda>(_, f). Inr f))"

lemma local_group_lost:
  "case rbind sample_lost (\<lambda>f. rbind (local_shared f sample_msg) (\<lambda>l. rbind (fed_matches f sample_msg l) (\<lambda>(groups, _).
      rbind (sendMessage sample_msg f) (\<lambda>(drop, os, f'). Inr (groups, map (picked (sharedSent f)) groups, drop))))) of
     Inl _ \<Rightarrow> False
   | Inr (groups, picks, dr) \<Rightarrow> length groups = 2 \<and> picks = [[0x41], [0x42]] \<and> dr"
  by code_simp

section \<open>Hooks that overtake each other\<close>

text \<open>
  The hooks change the local store and add the event under different locks.  If client 2 subscribes to the topic that client 1, its last
  subscriber, is leaving, and the event of the later change is added first, the other nodes lose the subscription of client 2.
\<close>

lemma hooks_overtake:
  fixes s :: Subscription
  defines "t \<equiv> Subscription_GetFullTopicName s"
  assumes "local_ok N l" "Suc N < 2 ^ 64" "sub_ok s" "clients_of (local_rel l) t = {c1}" "c1 \<noteq> c2"
    and "local_unsubscribe c1 t l = (removed, l1)" "subscribeLocked c2 t l1 = (new, l2)"
  shows "removed \<and> new \<and> (c2, t) \<in> local_rel l2 \<and>
    (sb_ShareName s, sb_TopicFilter s) \<notin> fold replay [Event_Subscribe (sb_ShareName s) (sb_TopicFilter s), Event_Unsubscribe t] K"
proof -
  note u = local_unsubscribe_ok [OF assms(2,7)]
  note n = local_subscribe_ok [OF u(1) assms(3,8)]
  have c1: "(c, t) \<in> local_rel l \<longleftrightarrow> c = c1" for c
    using assms(5) unfolding clients_of_def by (metis mem_Collect_eq singleton_iff)
  then have "(c1, t) \<in> local_rel l" by blast
  moreover have "t \<notin> snd ` local_rel l1"
  proof
    assume "t \<in> snd ` local_rel l1"
    then obtain c where "(c, t) \<in> local_rel l1" by (metis imageE prod.collapse)
    then show False unfolding u(2) using c1 by blast
  qed
  ultimately show ?thesis using u(3) n(2,3) sub_ok_Split [OF assms(4), folded t_def] by simp
qed

end
