(* ===== verification/Frp_Strings.thy ===== *)
theory Frp_Strings
  imports Prelude "HOL-Library.Sublist"
begin

text \<open>
  The parts of Go's \<^verbatim>\<open>strings\<close>, \<^verbatim>\<open>strconv\<close> and \<^verbatim>\<open>cmp\<close> that the tunnel frp relies on, over byte strings: splitting and joining at
  a one-byte separator, trimming of white space, comparison, and decimal numbers.
\<close>

section \<open>Splitting and joining\<close>

fun strings_Split :: "byte \<Rightarrow> bytes \<Rightarrow> bytes list" where
  "strings_Split c [] = [[]]"
| "strings_Split c (x # xs) =
    (if x = c then [] # strings_Split c xs
     else (x # hd (strings_Split c xs)) # tl (strings_Split c xs))"

fun strings_Join :: "byte \<Rightarrow> bytes list \<Rightarrow> bytes" where
  "strings_Join c [] = []"
| "strings_Join c [s] = s"
| "strings_Join c (s # t # ts) = s @ c # strings_Join c (t # ts)"

lemma strings_Split_neq_Nil [simp]: "strings_Split c s \<noteq> []"
  by (cases s) auto

lemma strings_Split_none: "c \<notin> set s \<Longrightarrow> strings_Split c s = [s]"
  by (induction s) auto

lemma strings_Split_append: "c \<notin> set s \<Longrightarrow> strings_Split c (s @ c # t) = s # strings_Split c t"
  by (induction s) auto

lemma strings_Split_Join:
  assumes "\<forall>s\<in>set ss. c \<notin> set s" "ss \<noteq> []"
  shows "strings_Split c (strings_Join c ss) = ss"
  using assms
proof (induction c ss rule: strings_Join.induct)
  case (3 c s t ts)
  then show ?case
    by (simp add: strings_Split_append)
qed (auto simp: strings_Split_none)

section \<open>White space\<close>

text \<open>
  The UTF-8 encodings of the code points for which \<^verbatim>\<open>unicode.IsSpace\<close> holds.  No encoding is a proper prefix or suffix of
  another, and decoding at either end of a string finds one of them exactly if the string begins or ends with it.
\<close>

definition space_encodings :: "bytes list" where
  "space_encodings = map (\<lambda>b. [b]) [0x09, 0x0A, 0x0B, 0x0C, 0x0D, 0x20] @ [[0xC2, 0x85], [0xC2, 0xA0], [0xE1, 0x9A, 0x80]] @
    map (\<lambda>b. [0xE2, 0x80, b]) [0x80, 0x81, 0x82, 0x83, 0x84, 0x85, 0x86, 0x87, 0x88, 0x89, 0x8A, 0xA8, 0xA9, 0xAF] @
    [[0xE2, 0x81, 0x9F], [0xE3, 0x80, 0x80]]"

lemma space_encodings_neq_Nil: "e \<in> set space_encodings \<Longrightarrow> e \<noteq> []"
  by (auto simp: space_encodings_def)

function TrimLeftSpace :: "bytes \<Rightarrow> bytes" where
  "TrimLeftSpace s =
    (case List.find (\<lambda>e. prefix e s) space_encodings of
       None \<Rightarrow> s
     | Some e \<Rightarrow> TrimLeftSpace (drop (length e) s))"
  by auto
termination
proof (relation "measure length", simp)
  fix s e
  assume "List.find (\<lambda>e. prefix e s) space_encodings = Some e"
  then have "e \<in> set space_encodings" "prefix e s"
    by (auto simp: find_Some_iff)
  then have "e \<noteq> []" "length e \<le> length s"
    by (auto dest: space_encodings_neq_Nil prefix_length_le)
  then show "(drop (length e) s, s) \<in> measure length"
    by (cases e) auto
qed

function TrimRightSpace :: "bytes \<Rightarrow> bytes" where
  "TrimRightSpace s =
    (case List.find (\<lambda>e. suffix e s) space_encodings of
       None \<Rightarrow> s
     | Some e \<Rightarrow> TrimRightSpace (take (length s - length e) s))"
  by auto
termination
proof (relation "measure length", simp)
  fix s e
  assume "List.find (\<lambda>e. suffix e s) space_encodings = Some e"
  then have "e \<in> set space_encodings" "suffix e s"
    by (auto simp: find_Some_iff)
  then have "e \<noteq> []" "length e \<le> length s"
    by (auto dest: space_encodings_neq_Nil suffix_length_le)
  then show "(take (length s - length e) s, s) \<in> measure length"
    by (cases e) auto
qed

declare TrimLeftSpace.simps [simp del] TrimRightSpace.simps [simp del]

definition TrimSpace :: "bytes \<Rightarrow> bytes" where
  "TrimSpace s = TrimRightSpace (TrimLeftSpace s)"

definition graphic :: "byte \<Rightarrow> bool" where
  "graphic b \<longleftrightarrow> 0x21 \<le> b \<and> b \<le> 0x7E"

lemma space_encodings_ends: "e \<in> set space_encodings \<Longrightarrow> \<not> graphic (hd e) \<and> \<not> graphic (last e)"
  by (auto simp: space_encodings_def graphic_def)

lemma TrimSpace_graphic:
  assumes "\<forall>b\<in>set s. graphic b"
  shows "TrimSpace s = s"
proof -
  have no: "\<not> prefix e s \<and> \<not> suffix e s" if "e \<in> set space_encodings" for e
  proof -
    have "e \<noteq> []" "\<not> graphic (hd e)" "\<not> graphic (last e)"
      using that space_encodings_ends space_encodings_neq_Nil by auto
    then show ?thesis
      using assms by (metis hd_in_set last_in_set set_mono_prefix set_mono_suffix subset_iff)
  qed
  then have "List.find (\<lambda>e. prefix e s) space_encodings = None" "List.find (\<lambda>e. suffix e s) space_encodings = None"
    by (auto simp: find_None_iff)
  then show ?thesis
    by (simp add: TrimSpace_def TrimLeftSpace.simps [of s] TrimRightSpace.simps [of s])
qed

section \<open>Decimal numbers\<close>

datatype num_error = ErrSyntax | ErrRange

fun format_nat :: "nat \<Rightarrow> bytes" where
  "format_nat n = (if n < 10 then [0x30 + of_nat n] else format_nat (n div 10) @ [0x30 + of_nat (n mod 10)])"

declare format_nat.simps [simp del]

definition Itoa :: "int \<Rightarrow> bytes" where
  "Itoa i = (if i < 0 then 0x2D # format_nat (nat (- i)) else format_nat (nat i))"

definition is_digit :: "byte \<Rightarrow> bool" where
  "is_digit b \<longleftrightarrow> 0x30 \<le> b \<and> b \<le> 0x39"

fun ParseUint_loop :: "nat \<Rightarrow> bytes \<Rightarrow> num_error + nat" where
  "ParseUint_loop n [] = Inr n"
| "ParseUint_loop n (c # s) =
    (if \<not> is_digit c then Inl ErrSyntax
     else if n * 10 \<ge> 2 ^ 64 then Inl ErrRange
     else
       let n1 = n * 10 + unat (c - 0x30) in
       if n1 \<ge> 2 ^ 64 then Inl ErrRange
       else ParseUint_loop n1 s)"

definition ParseUint :: "bytes \<Rightarrow> num_error + nat" where
  "ParseUint s = (if s = [] then Inl ErrSyntax else ParseUint_loop 0 s)"

definition ParseInt :: "bytes \<Rightarrow> num_error + int" where
  "ParseInt s =
    (if s = [] then Inl ErrSyntax
     else
       let neg = (hd s = 0x2D);
           digits = (if hd s = 0x2B \<or> hd s = 0x2D then tl s else s)
       in case ParseUint digits of
            Inl e \<Rightarrow> Inl e
          | Inr un \<Rightarrow>
              if \<not> neg \<and> un \<ge> 2 ^ 63 then Inl ErrRange
              else if neg \<and> un > 2 ^ 63 then Inl ErrRange
              else Inr (if neg then - int un else int un))"

lemma digit_byte:
  assumes "n < 10"
  shows "is_digit (0x30 + of_nat n)" "unat ((0x30 + of_nat n :: byte) - 0x30) = n"
proof -
  have "n \<in> {0, 1, 2, 3, 4, 5, 6, 7, 8, 9}" using assms by auto
  then show "is_digit (0x30 + of_nat n)" "unat ((0x30 + of_nat n :: byte) - 0x30) = n"
    by (auto simp: is_digit_def)
qed

lemma format_nat_digits: "b \<in> set (format_nat n) \<Longrightarrow> is_digit b"
proof (induction n rule: format_nat.induct)
  case (1 n)
  then show ?case
    using digit_byte(1) [of n] digit_byte(1) [of "n mod 10"] by (subst (asm) (2) format_nat.simps) (auto split: if_splits)
qed

lemma format_nat_neq_Nil [simp]: "format_nat n \<noteq> []"
  by (subst format_nat.simps) auto

lemma is_digit_graphic: "is_digit b \<Longrightarrow> graphic b \<and> b \<noteq> 0x2D \<and> b \<noteq> 0x2B \<and> b \<noteq> 0x2C"
  by (auto simp: is_digit_def graphic_def word_le_nat_alt)

lemma ParseUint_loop_format:
  "n < 2 ^ 64 \<Longrightarrow> ParseUint_loop 0 (format_nat n @ s) = ParseUint_loop n s"
proof (induction n arbitrary: s rule: format_nat.induct)
  case (1 n)
  show ?case
  proof (cases "n < 10")
    case True
    then show ?thesis
      using digit_byte [of n] by (subst format_nat.simps) (simp add: Let_def)
  next
    case False
    have m: "n mod 10 < 10" "n div 10 * 10 + n mod 10 = n"
      by auto
    have "ParseUint_loop 0 (format_nat n @ s) = ParseUint_loop (n div 10) ((0x30 + of_nat (n mod 10)) # s)"
      using 1 False by (subst format_nat.simps) simp
    also have "\<dots> = ParseUint_loop n s"
    proof -
      have "n div 10 * 10 < 2 ^ 64" using m(2) 1(2) by linarith
      then show ?thesis
        using digit_byte [OF m(1)] m(2) 1(2) by (simp add: Let_def)
    qed
    finally show ?thesis .
  qed
qed

lemma ParseInt_format_nat:
  assumes "n < 2 ^ 63"
  shows "ParseInt (format_nat n) = Inr (int n)"
proof -
  have "hd (format_nat n) \<noteq> 0x2D" "hd (format_nat n) \<noteq> 0x2B"
    using format_nat_digits [OF hd_in_set [OF format_nat_neq_Nil], of n] is_digit_graphic by auto
  moreover have "ParseUint_loop 0 (format_nat n) = Inr n"
    using assms ParseUint_loop_format [of n "[]"] by simp
  ultimately show ?thesis
    using assms by (simp add: ParseInt_def ParseUint_def Let_def)
qed

lemma ParseInt_range: "ParseInt s = Inr i \<Longrightarrow> - (2 ^ 63) \<le> i \<and> i < 2 ^ 63"
  by (auto simp: ParseInt_def Let_def split: if_splits sum.splits)

end
