(* ===== verification/Frp_Vhost.thy ===== *)
theory Frp_Vhost
  imports Frp_Strings "HOL-Library.Multiset"
begin

text \<open>
  \<^verbatim>\<open>src/frp/pkg/util/vhost\<close>: the table of routes by domain, HTTP user and location (\<^verbatim>\<open>router.go\<close>) and the two searches
  in it, \<^verbatim>\<open>getVhost\<close> of the HTTP reverse proxy (\<^verbatim>\<open>http.go\<close>) and \<^verbatim>\<open>getListener\<close> of the multiplexer (\<^verbatim>\<open>vhost.go\<close>).

  The maps are only looked up, so they are HOL maps.  \<^verbatim>\<open>strings.ToLower\<close>, whose result depends on the Unicode tables, is an
  argument of the operations that call it.  \<open>slices_SortFunc\<close> is an insertion sort: the slices that \<^verbatim>\<open>Add\<close> sorts hold no two
  routes of one location, so every sorting routine gives the same slice (\<open>SortFunc_unique\<close>).
\<close>

section \<open>Comparison and sorting\<close>

fun cmp_Compare :: "bytes \<Rightarrow> bytes \<Rightarrow> int" where
  "cmp_Compare [] [] = 0"
| "cmp_Compare [] (y # ys) = - 1"
| "cmp_Compare (x # xs) [] = 1"
| "cmp_Compare (x # xs) (y # ys) =
    (if x < y then - 1 else if y < x then 1 else cmp_Compare xs ys)"

fun SortFunc_insert :: "('a \<Rightarrow> 'a \<Rightarrow> int) \<Rightarrow> 'a \<Rightarrow> 'a list \<Rightarrow> 'a list" where
  "SortFunc_insert cmp x [] = [x]"
| "SortFunc_insert cmp x (y # ys) =
    (if cmp y x > 0 then x # y # ys else y # SortFunc_insert cmp x ys)"

definition slices_SortFunc :: "('a \<Rightarrow> 'a \<Rightarrow> int) \<Rightarrow> 'a list \<Rightarrow> 'a list" where
  "slices_SortFunc cmp xs = fold (SortFunc_insert cmp) xs []"

abbreviation dot :: byte where "dot \<equiv> 0x2E"
abbreviation star :: bytes where "star \<equiv> [0x2A]"

section \<open>The table of routes\<close>

record 'p Router =
  r_domain :: bytes
  r_location :: bytes
  r_httpUser :: bytes
  r_payload :: 'p

type_synonym 'p routerByHTTPUser = "bytes \<rightharpoonup> 'p Router list"

record 'p Routers =
  indexByDomain :: "bytes \<rightharpoonup> 'p routerByHTTPUser"

datatype router_error = ErrRouterConfigConflict

definition NewRouters :: "'p Routers" where
  "NewRouters = \<lparr>indexByDomain = Map.empty\<rparr>"

text \<open>
  \<^verbatim>\<open>Get\<close> and \<^verbatim>\<open>exist\<close> assign their named result in the loop: without a hit they return the last route of the slice, with
  \<^verbatim>\<open>false\<close>.
\<close>

fun range_Router :: "('p Router \<Rightarrow> bool) \<Rightarrow> 'p Router option \<Rightarrow> 'p Router list \<Rightarrow> 'p Router option \<times> bool" where
  "range_Router hit prev [] = (prev, False)"
| "range_Router hit prev (vr # vrs) =
    (if hit vr then (Some vr, True) else range_Router hit (Some vr) vrs)"

definition Routers_exist :: "'p Routers \<Rightarrow> bytes \<Rightarrow> bytes \<Rightarrow> bytes \<Rightarrow> 'p Router option \<times> bool" where
  "Routers_exist r host path httpUser =
    (case indexByDomain r host of
       None \<Rightarrow> (None, False)
     | Some routersByHTTPUser \<Rightarrow>
        (case routersByHTTPUser httpUser of
           None \<Rightarrow> (None, False)
         | Some routers \<Rightarrow> range_Router (\<lambda>route. path = r_location route) None routers))"

definition Routers_Get :: "(bytes \<Rightarrow> bytes) \<Rightarrow> 'p Routers \<Rightarrow> bytes \<Rightarrow> bytes \<Rightarrow> bytes \<Rightarrow> 'p Router option \<times> bool" where
  "Routers_Get ToLower r host path httpUser =
    (let host = ToLower host in
     case indexByDomain r host of
       None \<Rightarrow> (None, False)
     | Some routersByHTTPUser \<Rightarrow>
        (case routersByHTTPUser httpUser of
           None \<Rightarrow> (None, False)
         | Some vrs \<Rightarrow> range_Router (\<lambda>vr. prefix (r_location vr) path) None vrs))"

definition by_location :: "'p Router \<Rightarrow> 'p Router \<Rightarrow> int" where
  "by_location a b = - cmp_Compare (r_location a) (r_location b)"

definition Routers_Add ::
  "(bytes \<Rightarrow> bytes) \<Rightarrow> 'p Routers \<Rightarrow> bytes \<Rightarrow> bytes \<Rightarrow> bytes \<Rightarrow> 'p \<Rightarrow> router_error option \<times> 'p Routers" where
  "Routers_Add ToLower r domain location httpUser payload =
    (let domain = ToLower domain in
     if snd (Routers_exist r domain location httpUser) then (Some ErrRouterConfigConflict, r)
     else
       let routersByHTTPUser = (case indexByDomain r domain of None \<Rightarrow> Map.empty | Some m \<Rightarrow> m);
           vrs = (case routersByHTTPUser httpUser of None \<Rightarrow> [] | Some vrs \<Rightarrow> vrs);
           vr = \<lparr>r_domain = domain, r_location = location, r_httpUser = httpUser, r_payload = payload\<rparr>;
           vrs = slices_SortFunc by_location (vrs @ [vr])
       in (None, r\<lparr>indexByDomain := (indexByDomain r)(domain \<mapsto> routersByHTTPUser(httpUser \<mapsto> vrs))\<rparr>))"

definition Routers_Del :: "(bytes \<Rightarrow> bytes) \<Rightarrow> 'p Routers \<Rightarrow> bytes \<Rightarrow> bytes \<Rightarrow> bytes \<Rightarrow> 'p Routers" where
  "Routers_Del ToLower r domain location httpUser =
    (let domain = ToLower domain in
     case indexByDomain r domain of
       None \<Rightarrow> r
     | Some routersByHTTPUser \<Rightarrow>
        (case routersByHTTPUser httpUser of
           None \<Rightarrow> r
         | Some vrs \<Rightarrow>
             let newVrs = filter (\<lambda>vr. r_location vr \<noteq> location) vrs
             in r\<lparr>indexByDomain := (indexByDomain r)(domain \<mapsto> routersByHTTPUser(httpUser \<mapsto> newVrs))\<rparr>))"

section \<open>The searches\<close>

definition getVhost_findRouter ::
  "(bytes \<Rightarrow> bytes) \<Rightarrow> 'p Routers \<Rightarrow> bytes \<Rightarrow> bytes \<Rightarrow> bytes \<Rightarrow> 'p Router option \<times> bool" where
  "getVhost_findRouter ToLower r inDomain inLocation inRouteByHTTPUser =
    (case Routers_Get ToLower r inDomain inLocation inRouteByHTTPUser of
       (vr, True) \<Rightarrow> (vr, True)
     | (vr, False) \<Rightarrow>
        (case Routers_Get ToLower r inDomain inLocation [] of
           (vr, True) \<Rightarrow> (vr, True)
         | (vr, False) \<Rightarrow> (None, False)))"

fun getVhost_loop ::
  "(bytes \<Rightarrow> bytes) \<Rightarrow> 'p Routers \<Rightarrow> bytes list \<Rightarrow> bytes \<Rightarrow> bytes \<Rightarrow> 'p Router option \<times> bool" where
  "getVhost_loop ToLower r (_ # b # c # ds) location routeByHTTPUser =
    (case getVhost_findRouter ToLower r (strings_Join dot (star # b # c # ds)) location routeByHTTPUser of
       (vr, True) \<Rightarrow> (vr, True)
     | (vr, False) \<Rightarrow> getVhost_loop ToLower r (b # c # ds) location routeByHTTPUser)"
| "getVhost_loop ToLower r ds location routeByHTTPUser =
    (case getVhost_findRouter ToLower r star location routeByHTTPUser of
       (vr, True) \<Rightarrow> (vr, True)
     | (vr, False) \<Rightarrow> (None, False))"

definition getVhost ::
  "(bytes \<Rightarrow> bytes) \<Rightarrow> 'p Routers \<Rightarrow> bytes \<Rightarrow> bytes \<Rightarrow> bytes \<Rightarrow> 'p Router option \<times> bool" where
  "getVhost ToLower r domain location routeByHTTPUser =
    (case getVhost_findRouter ToLower r domain location routeByHTTPUser of
       (vr, True) \<Rightarrow> (vr, True)
     | (vr, False) \<Rightarrow> getVhost_loop ToLower r (strings_Split dot domain) location routeByHTTPUser)"

definition getListener_findRouter ::
  "(bytes \<Rightarrow> bytes) \<Rightarrow> 'l Routers \<Rightarrow> bytes \<Rightarrow> bytes \<Rightarrow> bytes \<Rightarrow> 'l option \<times> bool" where
  "getListener_findRouter ToLower r inName inPath inHTTPUser =
    (case Routers_Get ToLower r inName inPath inHTTPUser of
       (vr, True) \<Rightarrow> (map_option r_payload vr, True)
     | (vr, False) \<Rightarrow>
        (case Routers_Get ToLower r inName inPath [] of
           (vr, True) \<Rightarrow> (map_option r_payload vr, True)
         | (vr, False) \<Rightarrow> (None, False)))"

fun getListener_loop ::
  "(bytes \<Rightarrow> bytes) \<Rightarrow> 'l Routers \<Rightarrow> bytes list \<Rightarrow> bytes \<Rightarrow> bytes \<Rightarrow> 'l option \<times> bool" where
  "getListener_loop ToLower r (_ # b # c # ds) path httpUser =
    (case getListener_findRouter ToLower r (strings_Join dot (star # b # c # ds)) path httpUser of
       (l, True) \<Rightarrow> (l, True)
     | (l, False) \<Rightarrow> getListener_loop ToLower r (b # c # ds) path httpUser)"
| "getListener_loop ToLower r ds path httpUser =
    (case getListener_findRouter ToLower r star path httpUser of
       (l, True) \<Rightarrow> (l, True)
     | (l, False) \<Rightarrow> (None, False))"

definition getListener ::
  "(bytes \<Rightarrow> bytes) \<Rightarrow> 'l Routers \<Rightarrow> bytes \<Rightarrow> bytes \<Rightarrow> bytes \<Rightarrow> 'l option \<times> bool" where
  "getListener ToLower r name path httpUser =
    (case getListener_findRouter ToLower r name path httpUser of
       (l, True) \<Rightarrow> (l, True)
     | (l, False) \<Rightarrow> getListener_loop ToLower r (strings_Split dot name) path httpUser)"

section \<open>The order of the slices\<close>

lemma cmp_Compare_eq_0: "cmp_Compare a b = 0 \<longleftrightarrow> a = b"
  by (induction a b rule: cmp_Compare.induct) auto

lemma cmp_Compare_swap: "cmp_Compare b a = - cmp_Compare a b"
  by (induction a b rule: cmp_Compare.induct) auto

lemma cmp_Compare_trans: "cmp_Compare a b < 0 \<Longrightarrow> cmp_Compare b c < 0 \<Longrightarrow> cmp_Compare a c < 0"
proof (induction a b arbitrary: c rule: cmp_Compare.induct)
  case (2 y ys)
  then show ?case by (cases c) auto
next
  case (4 x xs y ys)
  then show ?case by (cases c) (auto split: if_splits)
qed auto

lemma cmp_Compare_prefix: "prefix a b \<Longrightarrow> a \<noteq> b \<Longrightarrow> cmp_Compare a b < 0"
  by (induction a b rule: cmp_Compare.induct) auto

text \<open>Two prefixes of one path are ordered by their length.\<close>

lemma prefix_length_cmp:
  assumes "prefix a p" "prefix b p" "cmp_Compare a b < 0"
  shows "length a < length b"
proof (rule ccontr)
  assume "\<not> length a < length b"
  then have "prefix b a"
    using assms prefix_length_prefix [of b p a] by simp
  then have "b = a \<or> cmp_Compare b a < 0"
    using cmp_Compare_prefix by blast
  then show False
    using assms(3) cmp_Compare_swap [of a b] cmp_Compare_eq_0 [of b a] by auto
qed

abbreviation loc_desc :: "'p Router \<Rightarrow> 'p Router \<Rightarrow> bool" where
  "loc_desc a b \<equiv> cmp_Compare (r_location b) (r_location a) < 0"

lemma SortFunc_unique:
  assumes "sorted_wrt P xs" "sorted_wrt P ys" "mset xs = mset ys" "\<And>a b. P a b \<Longrightarrow> \<not> P b a"
  shows "xs = ys"
  using assms(1-3)
proof (induction xs arbitrary: ys)
  case (Cons x xs)
  then obtain y ys' where ys: "ys = y # ys'"
    by (cases ys) auto
  have "x = y"
  proof (rule ccontr)
    assume "x \<noteq> y"
    with Cons.prems ys have "y \<in> set xs" "x \<in> set ys'"
      by (auto dest!: arg_cong [of _ _ set_mset])
    with Cons.prems ys assms(4) show False by auto
  qed
  with Cons ys show ?case by auto
qed simp

lemma SortFunc_insert_set [simp]: "mset (SortFunc_insert cmp x ys) = add_mset x (mset ys)"
  by (induction ys) auto

lemma SortFunc_mset [simp]: "mset (slices_SortFunc cmp xs) = mset xs"
proof -
  have "mset (fold (SortFunc_insert cmp) xs ys) = mset xs + mset ys" for ys
    by (induction xs arbitrary: ys) auto
  then show ?thesis by (simp add: slices_SortFunc_def)
qed

lemma SortFunc_set [simp]: "set (slices_SortFunc cmp xs) = set xs"
  by (metis SortFunc_mset set_mset_mset)

lemma SortFunc_insert_sorted:
  assumes "sorted_wrt loc_desc ys" "r_location x \<notin> r_location ` set ys"
  shows "sorted_wrt loc_desc (SortFunc_insert by_location x ys)"
  using assms
proof (induction ys)
  case (Cons y ys)
  have ne: "cmp_Compare (r_location x) (r_location y) \<noteq> 0"
    using Cons.prems by (auto simp: cmp_Compare_eq_0)
  have ins: "set (SortFunc_insert by_location x ys) = insert x (set ys)"
    by (metis SortFunc_insert_set set_mset_add_mset_insert set_mset_mset)
  show ?case
  proof (cases "by_location y x > 0")
    case True
    then have "loc_desc x y"
      by (simp add: by_location_def)
    then show ?thesis
      using True Cons.prems cmp_Compare_trans by auto
  next
    case False
    then have "loc_desc y x"
      using ne cmp_Compare_swap [of "r_location x" "r_location y"] by (simp add: by_location_def)
    then show ?thesis
      using False Cons ins by auto
  qed
qed simp

lemma SortFunc_sorted:
  assumes "distinct (map r_location xs)"
  shows "sorted_wrt loc_desc (slices_SortFunc by_location xs)"
proof -
  have "sorted_wrt loc_desc (fold (SortFunc_insert by_location) xs ys)"
    if "sorted_wrt loc_desc ys" "r_location ` set xs \<inter> r_location ` set ys = {}" for ys
    using assms that
  proof (induction xs arbitrary: ys)
    case (Cons x xs)
    have "set (SortFunc_insert by_location x ys) = insert x (set ys)"
      by (metis SortFunc_insert_set set_mset_add_mset_insert set_mset_mset)
    then show ?case
      using Cons SortFunc_insert_sorted [of ys x] by auto
  qed simp
  then show ?thesis by (simp add: slices_SortFunc_def)
qed

lemma loc_desc_distinct: "sorted_wrt loc_desc vrs \<Longrightarrow> distinct (map r_location vrs)"
  by (induction vrs) (auto simp: cmp_Compare_eq_0 [THEN iffD2])

section \<open>The table as a map\<close>

definition route_slice :: "'p Routers \<Rightarrow> bytes \<Rightarrow> bytes \<Rightarrow> 'p Router list" where
  "route_slice r d u =
    (case indexByDomain r d of None \<Rightarrow> []
     | Some m \<Rightarrow> (case m u of None \<Rightarrow> [] | Some vrs \<Rightarrow> vrs))"

definition slice_ok :: "bytes \<Rightarrow> bytes \<Rightarrow> 'p Router list \<Rightarrow> bool" where
  "slice_ok d u vrs \<longleftrightarrow> sorted_wrt loc_desc vrs \<and> (\<forall>vr\<in>set vrs. r_domain vr = d \<and> r_httpUser vr = u)"

definition routers_inv :: "'p Routers \<Rightarrow> bool" where
  "routers_inv r \<longleftrightarrow> (\<forall>d u. slice_ok d u (route_slice r d u))"

definition routes :: "'p Routers \<Rightarrow> bytes \<times> bytes \<times> bytes \<rightharpoonup> 'p" where
  "routes r = (\<lambda>(d, u, l). map_of (map (\<lambda>vr. (r_location vr, r_payload vr)) (route_slice r d u)) l)"

lemma route_slice_New [simp]: "route_slice NewRouters d u = []"
  by (simp add: route_slice_def NewRouters_def)

lemma range_Router_find:
  "range_Router hit prev vrs =
    (case List.find hit vrs of Some vr \<Rightarrow> (Some vr, True)
     | None \<Rightarrow> (if vrs = [] then prev else Some (last vrs), False))"
  by (induction vrs arbitrary: prev) (auto split: option.splits)

lemma range_Router_hit: "snd (range_Router hit prev vrs) \<longleftrightarrow> (\<exists>vr\<in>set vrs. hit vr)"
  by (induction vrs arbitrary: prev) auto

lemma Routers_Get_slice:
  "Routers_Get low r host path u =
    range_Router (\<lambda>vr. prefix (r_location vr) path) None (route_slice r (low host) u)"
  by (simp add: Routers_Get_def route_slice_def Let_def split: option.splits)

lemma Routers_exist_slice:
  "snd (Routers_exist r d l u) \<longleftrightarrow> l \<in> r_location ` set (route_slice r d u)"
  by (auto simp: Routers_exist_def route_slice_def range_Router_hit split: option.splits)

lemma routes_None: "routes r (d, u, l) = None \<longleftrightarrow> l \<notin> r_location ` set (route_slice r d u)"
  by (auto simp: routes_def map_of_eq_None_iff image_image)

lemma routes_member:
  assumes "routers_inv r" "vr \<in> set (route_slice r d u)"
  shows "routes r (d, u, r_location vr) = Some (r_payload vr)"
    "vr = \<lparr>r_domain = d, r_location = r_location vr, r_httpUser = u, r_payload = r_payload vr\<rparr>"
proof -
  have ok: "slice_ok d u (route_slice r d u)"
    using assms by (simp add: routers_inv_def)
  then have "distinct (map r_location (route_slice r d u))"
    using loc_desc_distinct by (auto simp: slice_ok_def)
  then show "routes r (d, u, r_location vr) = Some (r_payload vr)"
    using assms(2) by (auto simp: routes_def comp_def intro!: map_of_is_SomeI)
  show "vr = \<lparr>r_domain = d, r_location = r_location vr, r_httpUser = u, r_payload = r_payload vr\<rparr>"
    using ok assms(2) by (auto simp: slice_ok_def)
qed

lemma Routers_Add_slice:
  assumes "Routers_Add low r d l u p = (e, r')"
  shows "if l \<in> r_location ` set (route_slice r (low d) u) then e = Some ErrRouterConfigConflict \<and> r' = r
    else e = None \<and> (\<forall>d' u'. route_slice r' d' u' =
      (if d' = low d \<and> u' = u then slices_SortFunc by_location (route_slice r (low d) u @
         [\<lparr>r_domain = low d, r_location = l, r_httpUser = u, r_payload = p\<rparr>])
       else route_slice r d' u'))"
  using assms
  by (auto simp: Routers_Add_def Let_def Routers_exist_slice route_slice_def split: if_splits option.splits)

lemma Routers_Del_slice:
  "route_slice (Routers_Del low r d l u) d' u' =
    (if d' = low d \<and> u' = u then filter (\<lambda>vr. r_location vr \<noteq> l) (route_slice r d' u') else route_slice r d' u')"
  by (auto simp: Routers_Del_def Let_def route_slice_def split: option.splits)

lemma slice_ok_insert:
  assumes "slice_ok d u vrs" "l \<notin> r_location ` set vrs"
  shows "slice_ok d u (slices_SortFunc by_location (vrs @ [\<lparr>r_domain = d, r_location = l, r_httpUser = u, r_payload = p\<rparr>]))"
  using assms loc_desc_distinct [of vrs] SortFunc_sorted [of "vrs @ [\<lparr>r_domain = d, r_location = l, r_httpUser = u, r_payload = p\<rparr>]"]
  by (auto simp: slice_ok_def)

lemma map_of_slice_insert:
  assumes "slice_ok d u vrs" "l \<notin> r_location ` set vrs"
  shows "map_of (map (\<lambda>vr. (r_location vr, r_payload vr))
      (slices_SortFunc by_location (vrs @ [\<lparr>r_domain = d, r_location = l, r_httpUser = u, r_payload = p\<rparr>]))) =
    (map_of (map (\<lambda>vr. (r_location vr, r_payload vr)) vrs))(l \<mapsto> p)"
proof -
  let ?vr = "\<lparr>r_domain = d, r_location = l, r_httpUser = u, r_payload = p\<rparr>"
  let ?f = "\<lambda>vr. (r_location vr, r_payload vr)"
  have "distinct (map fst (map ?f (slices_SortFunc by_location (vrs @ [?vr]))))"
    using slice_ok_insert [OF assms, of p] loc_desc_distinct by (auto simp: slice_ok_def comp_def)
  moreover have "distinct (map fst (map ?f (?vr # vrs)))"
    using assms loc_desc_distinct by (auto simp: slice_ok_def comp_def)
  ultimately have "map_of (map ?f (slices_SortFunc by_location (vrs @ [?vr]))) = map_of (map ?f (?vr # vrs))"
    by (subst map_of_inject_set) auto
  then show ?thesis by simp
qed

lemma map_of_slice_remove:
  "map_of (map (\<lambda>vr. (r_location vr, r_payload vr)) (filter (\<lambda>vr. r_location vr \<noteq> l) vrs)) =
    (map_of (map (\<lambda>vr. (r_location vr, r_payload vr)) vrs))(l := None)"
  by (induction vrs) auto

section \<open>The contract of a route table\<close>

text \<open>
  The laws a table of routes promises, over its content: a map from domain, user and location to the payload.  \<open>find_route\<close>
  is the search for a path in the routes of one domain and user.
\<close>

datatype 'p route_op = RAdd bytes bytes bytes 'p | RDel bytes bytes bytes

fun routes_after :: "(bytes \<Rightarrow> bytes) \<Rightarrow> 'p route_op list \<Rightarrow> (bytes \<times> bytes \<times> bytes \<rightharpoonup> 'p) \<Rightarrow> (bytes \<times> bytes \<times> bytes \<rightharpoonup> 'p)" where
  "routes_after low [] S = S"
| "routes_after low (RAdd d l u p # ops) S =
    routes_after low ops (if S (low d, u, l) = None then S((low d, u, l) \<mapsto> p) else S)"
| "routes_after low (RDel d l u # ops) S = routes_after low ops (S((low d, u, l) := None))"

definition longest_route :: "(bytes \<times> bytes \<times> bytes \<rightharpoonup> 'p) \<Rightarrow> bytes \<Rightarrow> bytes \<Rightarrow> bytes \<Rightarrow> bytes \<Rightarrow> bool" where
  "longest_route S d u path l \<longleftrightarrow> prefix l path \<and> S (d, u, l) \<noteq> None \<and>
    (\<forall>l'. prefix l' path \<and> S (d, u, l') \<noteq> None \<longrightarrow> length l' \<le> length l)"

fun run_table :: "('r \<Rightarrow> bytes \<Rightarrow> bytes \<Rightarrow> bytes \<Rightarrow> 'p \<Rightarrow> 'e \<times> 'r) \<Rightarrow> ('r \<Rightarrow> bytes \<Rightarrow> bytes \<Rightarrow> bytes \<Rightarrow> 'r) \<Rightarrow>
    'p route_op list \<Rightarrow> 'r \<Rightarrow> 'r" where
  "run_table add del [] r = r"
| "run_table add del (RAdd d l u p # ops) r = run_table add del ops (snd (add r d l u p))"
| "run_table add del (RDel d l u # ops) r = run_table add del ops (del r d l u)"

locale route_table =
  fixes inv :: "'r \<Rightarrow> bool" and content :: "'r \<Rightarrow> bytes \<times> bytes \<times> bytes \<rightharpoonup> 'p" and low :: "bytes \<Rightarrow> bytes"
    and new :: 'r and add :: "'r \<Rightarrow> bytes \<Rightarrow> bytes \<Rightarrow> bytes \<Rightarrow> 'p \<Rightarrow> router_error option \<times> 'r"
    and del :: "'r \<Rightarrow> bytes \<Rightarrow> bytes \<Rightarrow> bytes \<Rightarrow> 'r"
    and find_route :: "'r \<Rightarrow> bytes \<Rightarrow> bytes \<Rightarrow> bytes \<Rightarrow> 'p Router option \<times> bool"
  assumes new: "inv new" "content new = Map.empty"
    and add_new: "inv r \<Longrightarrow> content r (low d, u, l) = None \<Longrightarrow> \<exists>r'. add r d l u p = (None, r') \<and> inv r' \<and>
      content r' = (content r)((low d, u, l) \<mapsto> p)"
    and add_conflict: "inv r \<Longrightarrow> content r (low d, u, l) \<noteq> None \<Longrightarrow> add r d l u p = (Some ErrRouterConfigConflict, r)"
    and del: "inv r \<Longrightarrow> inv (del r d l u)" "inv r \<Longrightarrow> content (del r d l u) = (content r)((low d, u, l) := None)"
    and hit: "inv r \<Longrightarrow> find_route r host path u = (vr, True) \<Longrightarrow>
      \<exists>l p. vr = Some \<lparr>r_domain = low host, r_location = l, r_httpUser = u, r_payload = p\<rparr> \<and>
        content r (low host, u, l) = Some p \<and> longest_route (content r) (low host) u path l"
    and miss: "inv r \<Longrightarrow> find_route r host path u = (vr, False) \<Longrightarrow> prefix l path \<Longrightarrow> content r (low host, u, l) = None"
begin

lemma step_Add: "inv r \<Longrightarrow> inv (snd (add r d l u p)) \<and> content (snd (add r d l u p)) =
    (if content r (low d, u, l) = None then (content r)((low d, u, l) \<mapsto> p) else content r)"
  using add_new [of r d u l p] add_conflict [of r d u l p] by (cases "content r (low d, u, l)") auto

lemma run_content: "inv r \<Longrightarrow> inv (run_table add del ops r) \<and> content (run_table add del ops r) = routes_after low ops (content r)"
proof (induction ops arbitrary: r)
  case (Cons op ops)
  then show ?case
    by (cases op) (auto simp: step_Add del fun_upd_def)
qed simp

lemma find_after:
  assumes "find_route (run_table add del ops new) host path u = (vr, ok)"
  shows "if ok
    then \<exists>l p. vr = Some \<lparr>r_domain = low host, r_location = l, r_httpUser = u, r_payload = p\<rparr> \<and>
      routes_after low ops Map.empty (low host, u, l) = Some p \<and> longest_route (routes_after low ops Map.empty) (low host) u path l
    else \<forall>l. prefix l path \<longrightarrow> routes_after low ops Map.empty (low host, u, l) = None"
  using run_content [OF new(1), of ops] hit [of "run_table add del ops new" host path u vr]
    miss [of "run_table add del ops new" host path u vr] assms
  by (cases ok) (simp_all add: new(2))

end

lemma Get_longest:
  assumes inv: "routers_inv r" and get: "Routers_Get low r host path u = (vr, True)"
  shows "\<exists>l p. vr = Some \<lparr>r_domain = low host, r_location = l, r_httpUser = u, r_payload = p\<rparr> \<and>
        routes r (low host, u, l) = Some p \<and> longest_route (routes r) (low host) u path l"
proof -
  let ?vrs = "route_slice r (low host) u"
  obtain x where x: "List.find (\<lambda>vr. prefix (r_location vr) path) ?vrs = Some x"
    using get by (cases "List.find (\<lambda>vr. prefix (r_location vr) path) ?vrs") (auto simp: Routers_Get_slice range_Router_find)
  then have vr: "vr = Some x"
    using get by (simp add: Routers_Get_slice range_Router_find)
  obtain i where i: "i < length ?vrs" "x = ?vrs ! i" "prefix (r_location x) path"
      "\<And>j. j < i \<Longrightarrow> \<not> prefix (r_location (?vrs ! j)) path"
    using x by (auto simp: find_Some_iff)
  have sorted: "sorted_wrt loc_desc ?vrs"
    using inv by (auto simp: routers_inv_def slice_ok_def)
  have "length l' \<le> length (r_location x)" if l': "prefix l' path" "routes r (low host, u, l') \<noteq> None" for l'
  proof -
    obtain k where k: "k < length ?vrs" "l' = r_location (?vrs ! k)"
      using l'(2) by (auto simp: routes_None in_set_conv_nth)
    then have "i \<le> k"
      using i(4) l'(1) by (meson not_le)
    then consider "k = i" | "cmp_Compare l' (r_location x) < 0"
      using sorted_wrt_nth_less [OF sorted, of i k] i(2) k by force
    then show ?thesis
      using k(2) i(2) prefix_length_cmp [OF l'(1) i(3)] by cases auto
  qed
  moreover have "x \<in> set ?vrs" using i by simp
  ultimately show ?thesis
    using routes_member [OF inv, of x "low host" u] i(3) vr unfolding longest_route_def by auto
qed

interpretation routers: route_table routers_inv routes low NewRouters "Routers_Add low" "Routers_Del low" "Routers_Get low"
  for low :: "bytes \<Rightarrow> bytes"
proof (unfold_locales, goal_cases)
  case 1
  show ?case by (simp add: routers_inv_def slice_ok_def)
next
  case 2
  show ?case by (auto simp: routes_def)
next
  case (3 r d u l p)
  obtain e r' where add: "Routers_Add low r d l u p = (e, r')" by fastforce
  have new: "l \<notin> r_location ` set (route_slice r (low d) u)"
    using 3(2) by (simp add: routes_None)
  note s = Routers_Add_slice [OF add] 
  have e: "e = None" using s new by simp
  have s': "route_slice r' d' u' =
      (if d' = low d \<and> u' = u then slices_SortFunc by_location (route_slice r (low d) u @
         [\<lparr>r_domain = low d, r_location = l, r_httpUser = u, r_payload = p\<rparr>])
       else route_slice r d' u')" for d' u'
    using s new by simp
  have ok: "slice_ok (low d) u (route_slice r (low d) u)" using 3(1) by (simp add: routers_inv_def)
  have "routers_inv r'"
    using 3(1) slice_ok_insert [OF ok new, of p] by (simp add: routers_inv_def s')
  moreover have "routes r' = (routes r)((low d, u, l) \<mapsto> p)"
    using map_of_slice_insert [OF ok new, of p] by (auto simp: routes_def s' fun_eq_iff)
  ultimately show ?case using add e by simp
next
  case (4 r d u l p)
  then show ?case
    using Routers_Add_slice [of low r d l u p] by (cases "Routers_Add low r d l u p") (simp add: routes_None)
next
  case (5 r d l u)
  then show ?case
    by (auto simp: routers_inv_def Routers_Del_slice slice_ok_def sorted_wrt_filter)
next
  case (6 r d l u)
  show ?case
    by (auto simp: routes_def Routers_Del_slice map_of_slice_remove fun_eq_iff)
next
  case (7 r host path u vr)
  then show ?case by (rule Get_longest)
next
  case (8 r host path u vr l)
  then show ?case
    using range_Router_hit [of "\<lambda>vr. prefix (r_location vr) path" None "route_slice r (low host) u"]
    by (auto simp: Routers_Get_slice routes_None)
qed

section \<open>The order of the search\<close>

text \<open>The names that are looked up for a domain, in order: itself, the wildcard domains, and the match-all route.\<close>

definition vhost_names :: "bytes \<Rightarrow> bytes list" where
  "vhost_names domain =
    (let labels = strings_Split dot domain
     in domain # map (\<lambda>k. strings_Join dot (star # drop k labels)) [1..<length labels - 1] @ [star])"

fun lookups :: "bytes \<Rightarrow> bytes list \<Rightarrow> (bytes \<times> bytes) list" where
  "lookups user [] = []"
| "lookups user (n # ns) = (n, user) # (n, []) # lookups user ns"

definition vhost_lookups :: "bytes \<Rightarrow> bytes \<Rightarrow> (bytes \<times> bytes) list" where
  "vhost_lookups domain user = lookups user (vhost_names domain)"

fun first_lookup :: "(bytes \<Rightarrow> bytes) \<Rightarrow> 'p Routers \<Rightarrow> bytes \<Rightarrow> (bytes \<times> bytes) list \<Rightarrow> 'p Router option \<times> bool" where
  "first_lookup low r location [] = (None, False)"
| "first_lookup low r location ((n, u) # ls) =
    (if snd (Routers_Get low r n location u) then Routers_Get low r n location u else first_lookup low r location ls)"

lemma first_lookup_find:
  "first_lookup low r location (lookups u (n # ns)) =
    (case getVhost_findRouter low r n location u of
       (vr, True) \<Rightarrow> (vr, True)
     | (vr, False) \<Rightarrow> first_lookup low r location (lookups u ns))"
  by (auto simp: getVhost_findRouter_def split: prod.splits bool.splits)

lemma upt_shift: "map (\<lambda>k. f (Suc k)) [a..<b] = map f [Suc a..<Suc b]"
  by (simp add: map_Suc_upt [symmetric] del: upt_Suc map_Suc_upt)

lemma getVhost_loop_lookups:
  "getVhost_loop low r labels location u =
    first_lookup low r location (lookups u
      (map (\<lambda>k. strings_Join dot (star # drop k labels)) [1..<length labels - 1] @ [star]))"
proof (induction low r labels location u rule: getVhost_loop.induct)
  case (1 low r a b c ds location u)
  have names: "map (\<lambda>k. strings_Join dot (star # drop k (a # b # c # ds))) [1..<length (a # b # c # ds) - 1] =
      strings_Join dot (star # b # c # ds) #
      map (\<lambda>k. strings_Join dot (star # drop k (b # c # ds))) [1..<length (b # c # ds) - 1]"
    by (simp add: upt_conv_Cons upt_shift [symmetric] comp_def del: upt_Suc)
  show ?case
    unfolding names append_Cons first_lookup_find getVhost_loop.simps(1)
    using 1 by (auto split: prod.splits bool.splits)
qed (simp_all add: first_lookup_find del: lookups.simps(2) split: prod.splits bool.splits)

lemma getVhost_lookups: "getVhost low r domain location u = first_lookup low r location (vhost_lookups domain u)"
  unfolding getVhost_def vhost_lookups_def vhost_names_def Let_def first_lookup_find getVhost_loop_lookups ..

lemma first_lookup_hit:
  "snd (first_lookup low r location ls) \<Longrightarrow> \<exists>pre n u post. ls = pre @ (n, u) # post \<and>
    first_lookup low r location ls = Routers_Get low r n location u \<and> snd (Routers_Get low r n location u) \<and>
    (\<forall>(n', u')\<in>set pre. \<not> snd (Routers_Get low r n' location u'))"
proof (induction low r location ls rule: first_lookup.induct)
  case (2 low r location n u ls)
  show ?case
  proof (cases "snd (Routers_Get low r n location u)")
    case True
    then have "(n, u) # ls = [] @ (n, u) # ls \<and> first_lookup low r location ((n, u) # ls) = Routers_Get low r n location u"
      by simp
    then show ?thesis using True by (metis (no_types, lifting) empty_iff empty_set)
  next
    case False
    then obtain pre n' u' post where "ls = pre @ (n', u') # post"
      "first_lookup low r location ls = Routers_Get low r n' location u'" "snd (Routers_Get low r n' location u')"
      "\<forall>(n', u')\<in>set pre. \<not> snd (Routers_Get low r n' location u')"
      using 2 by auto
    then show ?thesis
      using False by (intro exI [of _ "(n, u) # pre"] exI [of _ n'] exI [of _ u'] exI [of _ post]) simp
  qed
qed simp

lemma first_lookup_miss:
  "\<not> snd (first_lookup low r location ls) \<Longrightarrow> first_lookup low r location ls = (None, False) \<and>
    (\<forall>(n, u)\<in>set ls. \<not> snd (Routers_Get low r n location u))"
  by (induction low r location ls rule: first_lookup.induct) (auto split: if_splits)

lemma getListener_findRouter_payload:
  "getListener_findRouter low r n path u = map_prod (map_option r_payload) id (getVhost_findRouter low r n path u)"
  by (auto simp: getListener_findRouter_def getVhost_findRouter_def split: prod.splits bool.splits)

lemma getListener_loop_payload:
  "getListener_loop low r ds path u = map_prod (map_option r_payload) id (getVhost_loop low r ds path u)"
  by (induction low r ds path u rule: getVhost_loop.induct)
    (simp_all add: getListener_findRouter_payload split: prod.splits bool.splits)

lemma getListener_payload:
  "getListener low r name path u = map_prod (map_option r_payload) id (getVhost low r name path u)"
  by (simp add: getListener_def getVhost_def getListener_findRouter_payload getListener_loop_payload
      split: prod.splits bool.splits)

section \<open>Properties\<close>

text \<open>
  C21. Routing by longest prefix: after any sequence of \<^verbatim>\<open>Add\<close> and \<^verbatim>\<open>Del\<close> on a new table, \<^verbatim>\<open>Get\<close> returns the route whose location
  is the longest registered prefix of the path among the routes of the lower-cased domain and the user, with the payload it was
  registered with (a second registration of the same place was refused), and reports no route exactly if no registered
  location is a prefix.
\<close>

theorem Routers_longest_prefix:
  assumes "Routers_Get ToLower (run_table (Routers_Add ToLower) (Routers_Del ToLower) ops NewRouters) host path user = (vr, ok)"
  shows "if ok
    then \<exists>l p. vr = Some \<lparr>r_domain = ToLower host, r_location = l, r_httpUser = user, r_payload = p\<rparr> \<and>
      routes_after ToLower ops Map.empty (ToLower host, user, l) = Some p \<and>
      longest_route (routes_after ToLower ops Map.empty) (ToLower host) user path l
    else \<forall>l. prefix l path \<longrightarrow> routes_after ToLower ops Map.empty (ToLower host, user, l) = None"
  using assms by (rule routers.find_after)

definition ascii_lower :: "bytes \<Rightarrow> bytes" where
  "ascii_lower = map (\<lambda>b. if 0x41 \<le> b \<and> b \<le> 0x5A then b + 0x20 else b)"

theorem Routers_longest_prefix_witness:
  "longest_route (routes_after ascii_lower
      [RAdd (str ''A.b'') (str ''/'') [] (1::nat), RAdd (str ''a.B'') (str ''/x'') [] 2, RAdd (str ''a.b'') (str ''/x'') [] 3] Map.empty)
    (str ''a.b'') [] (str ''/x/y'') (str ''/x'')"
proof -
  let ?ops = "[RAdd (str ''A.b'') (str ''/'') [] (1::nat), RAdd (str ''a.B'') (str ''/x'') [] 2, RAdd (str ''a.b'') (str ''/x'') [] 3]"
  have low: "ascii_lower (str ''A.B'') = str ''a.b''" by code_simp
  have "Routers_Get ascii_lower (run_table (Routers_Add ascii_lower) (Routers_Del ascii_lower) ?ops NewRouters)
      (str ''A.B'') (str ''/x/y'') [] =
    (Some \<lparr>r_domain = str ''a.b'', r_location = str ''/x'', r_httpUser = [], r_payload = 2\<rparr>, True)"
    by code_simp
  from Routers_longest_prefix [OF this] show ?thesis by (simp add: low)
qed

text \<open>
  The order of the search: \<^verbatim>\<open>getVhost\<close> asks for the domain itself, then for the wildcard domains from the most to the least
  specific one, then for the route of all domains, each first with the user and then without, and returns the first route
  found; it finds none exactly if none of these lookups does.
\<close>

lemma getVhost_first:
  assumes "getVhost ToLower r domain location user = (vr, ok)"
  shows "if ok
    then \<exists>pre n u post. vhost_lookups domain user = pre @ (n, u) # post \<and> Routers_Get ToLower r n location u = (vr, True) \<and>
      (\<forall>(n', u')\<in>set pre. \<not> snd (Routers_Get ToLower r n' location u'))
    else vr = None \<and> (\<forall>(n, u)\<in>set (vhost_lookups domain user). \<not> snd (Routers_Get ToLower r n location u))"
proof (cases ok)
  case True
  then show ?thesis
    using first_lookup_hit [of ToLower r location "vhost_lookups domain user"] assms
    by (fastforce simp: getVhost_lookups prod_eq_iff)
next
  case False
  then show ?thesis
    using first_lookup_miss [of ToLower r location "vhost_lookups domain user"] assms by (simp add: getVhost_lookups)
qed

lemma getVhost_first_witness:
  "\<exists>pre n u post. vhost_lookups (str ''t.a.b'') (str ''me'') = pre @ (n, u) # post \<and>
    Routers_Get ascii_lower (snd (Routers_Add ascii_lower NewRouters (str ''*.A.b'') (str ''/'') [] (1::nat))) n (str ''/x'') u =
      (Some \<lparr>r_domain = str ''*.a.b'', r_location = str ''/'', r_httpUser = [], r_payload = 1\<rparr>, True)"
proof -
  have "getVhost ascii_lower (snd (Routers_Add ascii_lower NewRouters (str ''*.A.b'') (str ''/'') [] (1::nat)))
      (str ''t.a.b'') (str ''/x'') (str ''me'') =
    (Some \<lparr>r_domain = str ''*.a.b'', r_location = str ''/'', r_httpUser = [], r_payload = 1\<rparr>, True)"
    by code_simp
  from getVhost_first [OF this] show ?thesis by auto
qed

text \<open>
  The comment in \<^verbatim>\<open>getVhost\<close> says that \<^verbatim>\<open>test.example.com\<close> is matched by \<^verbatim>\<open>*.example.com\<close> and by \<^verbatim>\<open>*.com\<close>.  The loop stops at
  two labels, so the second name is never looked up.
\<close>

lemma vhost_names_three:
  assumes "strings_Split dot domain = [a, b, c]"
  shows "vhost_names domain = [domain, strings_Join dot [star, b, c], star]"
  using assms by (simp add: vhost_names_def Let_def upt_rec numeral_2_eq_2)

lemma getVhost_top_wildcard:
  "getVhost ascii_lower (snd (Routers_Add ascii_lower NewRouters (str ''*.com'') [] [] (1::nat)))
    (str ''test.example.com'') (str ''/'') [] = (None, False)"
  by code_simp

end
