(* ===== verification/Frp_Ports.thy ===== *)
theory Frp_Ports
  imports Frp_Strings
begin

text \<open>
  \<^verbatim>\<open>src/frp/pkg/config/types/types.go\<close> and \<^verbatim>\<open>pkg/util/util/util.go\<close>: ranges of port numbers, and
  \<^verbatim>\<open>src/frp/server/ports/ports.go\<close>: the manager of the ports that the server lends to its proxies.

  A \<^verbatim>\<open>*PortCtx\<close> is shared by the maps of used and of reserved ports and is changed by \<^verbatim>\<open>Release\<close>, so contexts live in a store
  and the maps hold their addresses.  The set of free ports is visited by \<^verbatim>\<open>range\<close> in an unspecified order, an argument of
  \<^verbatim>\<open>Acquire\<close>.  The operating system's answers are arguments as well.
\<close>

section \<open>Ranges of ports\<close>

record PortsRange =
  pr_Start :: int
  pr_End :: int
  pr_Single :: int

datatype range_error = ErrRangeNumber num_error | ErrRangeInvalid

abbreviation comma :: byte where "comma \<equiv> 0x2C"
abbreviation hyphen :: byte where "hyphen \<equiv> 0x2D"

definition PortsRange_string :: "PortsRange \<Rightarrow> bytes" where
  "PortsRange_string v =
    (if pr_Single v > 0 then Itoa (pr_Single v) else Itoa (pr_Start v) @ hyphen # Itoa (pr_End v))"

definition PortsRangeSlice_String :: "PortsRange list \<Rightarrow> bytes" where
  "PortsRangeSlice_String p = (if p = [] then [] else strings_Join comma (map PortsRange_string p))"

definition parse_range :: "bytes \<Rightarrow> range_error + PortsRange" where
  "parse_range numRangeStr =
    (case strings_Split hyphen numRangeStr of
       [s] \<Rightarrow>
        (case ParseInt (TrimSpace s) of
           Inl e \<Rightarrow> Inl (ErrRangeNumber e)
         | Inr singleNum \<Rightarrow> Inr \<lparr>pr_Start = 0, pr_End = 0, pr_Single = singleNum\<rparr>)
     | [s, t] \<Rightarrow>
        (case ParseInt (TrimSpace s) of
           Inl e \<Rightarrow> Inl (ErrRangeNumber e)
         | Inr minNum \<Rightarrow>
            (case ParseInt (TrimSpace t) of
               Inl e \<Rightarrow> Inl (ErrRangeNumber e)
             | Inr maxNum \<Rightarrow>
                if maxNum < minNum then Inl ErrRangeInvalid
                else Inr \<lparr>pr_Start = minNum, pr_End = maxNum, pr_Single = 0\<rparr>))
     | _ \<Rightarrow> Inl ErrRangeInvalid)"

fun parse_ranges :: "bytes list \<Rightarrow> range_error + PortsRange list" where
  "parse_ranges [] = Inr []"
| "parse_ranges (s # ss) =
    (case parse_range s of
       Inl e \<Rightarrow> Inl e
     | Inr r \<Rightarrow> (case parse_ranges ss of Inl e \<Rightarrow> Inl e | Inr out \<Rightarrow> Inr (r # out)))"

definition NewPortsRangeSliceFromString :: "bytes \<Rightarrow> range_error + PortsRange list" where
  "NewPortsRangeSliceFromString s = parse_ranges (strings_Split comma (TrimSpace s))"

text \<open>
  \<^verbatim>\<open>ParseRangeNumbers\<close> lists the numbers themselves.  Its loop counts with an \<^verbatim>\<open>int64\<close>: for a range that ends in the largest
  one the condition \<^verbatim>\<open>i <= maxValue\<close> never fails, and the result is \<open>None\<close>, no return.
\<close>

fun ParseRangeNumbers_loop :: "bytes list \<Rightarrow> int list \<Rightarrow> (range_error + int list) option" where
  "ParseRangeNumbers_loop [] numbers = Some (Inr numbers)"
| "ParseRangeNumbers_loop (numRangeStr # rest) numbers =
    (case strings_Split hyphen numRangeStr of
       [s] \<Rightarrow>
        (case ParseInt (TrimSpace s) of
           Inl e \<Rightarrow> Some (Inl (ErrRangeNumber e))
         | Inr singleNum \<Rightarrow> ParseRangeNumbers_loop rest (numbers @ [singleNum]))
     | [s, t] \<Rightarrow>
        (case ParseInt (TrimSpace s) of
           Inl e \<Rightarrow> Some (Inl (ErrRangeNumber e))
         | Inr minValue \<Rightarrow>
            (case ParseInt (TrimSpace t) of
               Inl e \<Rightarrow> Some (Inl (ErrRangeNumber e))
             | Inr maxValue \<Rightarrow>
                if maxValue < minValue then Some (Inl ErrRangeInvalid)
                else if maxValue = 2 ^ 63 - 1 then None
                else ParseRangeNumbers_loop rest (numbers @ [minValue..maxValue])))
     | _ \<Rightarrow> Some (Inl ErrRangeInvalid))"

definition ParseRangeNumbers :: "bytes \<Rightarrow> (range_error + int list) option" where
  "ParseRangeNumbers rangeStr = ParseRangeNumbers_loop (strings_Split comma (TrimSpace rangeStr)) []"

section \<open>The manager\<close>

record PortCtx =
  ProxyName :: bytes
  pc_Port :: int
  Closed :: bool
  UpdateTime :: int

record Manager =
  pm_ctxs :: "PortCtx list"
  reservedPorts :: "bytes \<rightharpoonup> nat"
  usedPorts :: "int \<rightharpoonup> nat"
  freePorts :: "int set"
  bindAddr :: bytes
  netType :: bytes

datatype port_error = ErrPortAlreadyUsed | ErrPortNotAllowed | ErrPortUnAvailable | ErrNoAvailablePort

definition MinPort :: int where "MinPort = 1"
definition MaxPort :: int where "MaxPort = 65535"

text \<open>Durations are counted in seconds.\<close>

definition MaxPortReservedDuration :: int where "MaxPortReservedDuration = 24 * 3600"

fun allowed_ports :: "PortsRange list \<Rightarrow> int set" where
  "allowed_ports [] = {}"
| "allowed_ports (pair # rest) =
    (if pr_Single pair > 0 then {pr_Single pair} else set [pr_Start pair..pr_End pair]) \<union> allowed_ports rest"

definition NewManager :: "bytes \<Rightarrow> bytes \<Rightarrow> PortsRange list \<Rightarrow> Manager" where
  "NewManager nt addr allowPorts =
    \<lparr>pm_ctxs = [], reservedPorts = Map.empty, usedPorts = Map.empty,
     freePorts = (if allowPorts \<noteq> [] then allowed_ports allowPorts else set [MinPort..MaxPort]),
     bindAddr = addr, netType = nt\<rparr>"

text \<open>What the operating system answers: whether an address resolves, and whether a socket can be opened on it.\<close>

record os_net =
  ResolveUDPAddr :: "bytes \<Rightarrow> int \<Rightarrow> bool"
  ListenUDP :: "bytes \<Rightarrow> int \<Rightarrow> bool"
  net_Listen :: "bytes \<Rightarrow> bytes \<Rightarrow> int \<Rightarrow> bool"

definition isPortAvailable :: "os_net \<Rightarrow> Manager \<Rightarrow> int \<Rightarrow> bool" where
  "isPortAvailable os pm port =
    (if netType pm = str ''udp'' then
       (if \<not> ResolveUDPAddr os (bindAddr pm) port then False
        else if \<not> ListenUDP os (bindAddr pm) port then False
        else True)
     else if \<not> net_Listen os (netType pm) (bindAddr pm) port then False
     else True)"

definition pm_take :: "Manager \<Rightarrow> bytes \<Rightarrow> int \<Rightarrow> int \<Rightarrow> Manager" where
  "pm_take pm name now realPort =
    pm\<lparr>pm_ctxs := pm_ctxs pm @ [\<lparr>ProxyName = name, pc_Port = realPort, Closed = False, UpdateTime = now\<rparr>],
       usedPorts := (usedPorts pm)(realPort \<mapsto> length (pm_ctxs pm)),
       reservedPorts := (reservedPorts pm)(name \<mapsto> length (pm_ctxs pm)),
       freePorts := freePorts pm - {realPort}\<rparr>"

fun Acquire_random :: "(int \<Rightarrow> bool) \<Rightarrow> nat \<Rightarrow> int list \<Rightarrow> int option" where
  "Acquire_random available count [] = None"
| "Acquire_random available count (k # ks) =
    (if count + 1 > 5 then None
     else if available k then Some k
     else Acquire_random available (count + 1) ks)"

definition Acquire :: "os_net \<Rightarrow> int list \<Rightarrow> int \<Rightarrow> Manager \<Rightarrow> bytes \<Rightarrow> int \<Rightarrow> (port_error + int) \<times> Manager" where
  "Acquire os order now pm name port =
    (case (if port = 0 then
             case reservedPorts pm name of
               None \<Rightarrow> None
             | Some ctx \<Rightarrow> if isPortAvailable os pm (pc_Port (pm_ctxs pm ! ctx)) then Some (pc_Port (pm_ctxs pm ! ctx)) else None
           else None) of
       Some realPort \<Rightarrow> (Inr realPort, pm_take pm name now realPort)
     | None \<Rightarrow>
        if port = 0 then
          (case Acquire_random (isPortAvailable os pm) 0 order of
             None \<Rightarrow> (Inl ErrNoAvailablePort, pm)
           | Some k \<Rightarrow>
               if k = 0 then (Inl ErrNoAvailablePort, pm_take pm name now k)
               else (Inr k, pm_take pm name now k))
        else if port \<in> freePorts pm then
          (if isPortAvailable os pm port then (Inr port, pm_take pm name now port)
           else (Inl ErrPortUnAvailable, pm))
        else if usedPorts pm port \<noteq> None then (Inl ErrPortAlreadyUsed, pm)
        else (Inl ErrPortNotAllowed, pm))"

definition Port_Release :: "int \<Rightarrow> Manager \<Rightarrow> int \<Rightarrow> Manager" where
  "Port_Release now pm port =
    (case usedPorts pm port of
       None \<Rightarrow> pm
     | Some ctx \<Rightarrow>
         pm\<lparr>freePorts := insert port (freePorts pm),
            usedPorts := (usedPorts pm)(port := None),
            pm_ctxs := (pm_ctxs pm)[ctx := (pm_ctxs pm ! ctx)\<lparr>Closed := True, UpdateTime := now\<rparr>]\<rparr>)"

text \<open>One round of \<^verbatim>\<open>cleanReservedPortsWorker\<close>.\<close>

definition cleanReservedPorts :: "int \<Rightarrow> Manager \<Rightarrow> Manager" where
  "cleanReservedPorts now pm =
    pm\<lparr>reservedPorts := (\<lambda>name.
      case reservedPorts pm name of
        None \<Rightarrow> None
      | Some ctx \<Rightarrow>
          if Closed (pm_ctxs pm ! ctx) \<and> now - UpdateTime (pm_ctxs pm ! ctx) > MaxPortReservedDuration then None
          else Some ctx)\<rparr>"

section \<open>Round trip of ranges\<close>

definition ok_range :: "PortsRange \<Rightarrow> bool" where
  "ok_range v \<longleftrightarrow>
    (if pr_Single v > 0 then pr_Start v = 0 \<and> pr_End v = 0 \<and> pr_Single v < 2 ^ 63
     else pr_Single v = 0 \<and> 0 \<le> pr_Start v \<and> pr_Start v \<le> pr_End v \<and> pr_End v < 2 ^ 63)"

lemma Itoa_nonneg:
  assumes "0 \<le> i"
  shows "b \<in> set (Itoa i) \<Longrightarrow> is_digit b" "Itoa i \<noteq> []" "TrimSpace (Itoa i) = Itoa i"
    "i < 2 ^ 63 \<Longrightarrow> ParseInt (Itoa i) = Inr i"
  using assms format_nat_digits is_digit_graphic TrimSpace_graphic [of "Itoa i"] ParseInt_format_nat [of "nat i"]
  by (auto simp: Itoa_def)

lemma Itoa_graphic: "0 \<le> i \<Longrightarrow> b \<in> set (Itoa i) \<Longrightarrow> graphic b"
  using Itoa_nonneg(1) is_digit_graphic by blast

lemma Itoa_separators [simp]:
  assumes "0 \<le> i"
  shows "hyphen \<notin> set (Itoa i)" "comma \<notin> set (Itoa i)"
  using Itoa_nonneg(1) [OF assms] is_digit_graphic by fastforce+

lemma parse_range_string: "ok_range v \<Longrightarrow> parse_range (PortsRange_string v) = Inr v"
  by (cases "pr_Single v > 0")
    (auto simp: ok_range_def parse_range_def PortsRange_string_def strings_Split_none strings_Split_append Itoa_nonneg)

lemma PortsRange_string_bytes:
  assumes "ok_range v"
  shows "comma \<notin> set (PortsRange_string v)" "b \<in> set (PortsRange_string v) \<Longrightarrow> graphic b"
proof -
  have h: "graphic hyphen" by (simp add: graphic_def)
  show "comma \<notin> set (PortsRange_string v)"
    using assms by (auto simp: ok_range_def PortsRange_string_def split: if_splits)
  show "graphic b" if "b \<in> set (PortsRange_string v)"
    using assms that h Itoa_graphic [of "pr_Single v" b] Itoa_graphic [of "pr_Start v" b] Itoa_graphic [of "pr_End v" b]
    by (auto simp: ok_range_def PortsRange_string_def split: if_splits)
qed

lemma set_strings_Join: "set (strings_Join c ss) \<subseteq> insert c (\<Union>(set ` set ss))"
  by (induction c ss rule: strings_Join.induct) auto

lemma parse_ranges_strings: "\<forall>v\<in>set p. ok_range v \<Longrightarrow> parse_ranges (map PortsRange_string p) = Inr p"
  by (induction p) (auto simp: parse_range_string)

lemma PortsRange_print_parse:
  assumes "\<forall>v\<in>set p. ok_range v" "p \<noteq> []"
  shows "NewPortsRangeSliceFromString (PortsRangeSlice_String p) = Inr p"
proof -
  have "graphic comma" by (simp add: graphic_def)
  then have "\<forall>b\<in>set (PortsRangeSlice_String p). graphic b"
    using assms PortsRange_string_bytes(2) set_strings_Join [of comma "map PortsRange_string p"]
    by (fastforce simp: PortsRangeSlice_String_def)
  moreover have "strings_Split comma (strings_Join comma (map PortsRange_string p)) = map PortsRange_string p"
    using assms PortsRange_string_bytes(1) by (intro strings_Split_Join) auto
  ultimately show ?thesis
    using assms parse_ranges_strings
    by (simp add: NewPortsRangeSliceFromString_def TrimSpace_graphic) (simp add: PortsRangeSlice_String_def)
qed

definition range_numbers :: "PortsRange \<Rightarrow> int list" where
  "range_numbers v = (if pr_Single v \<noteq> 0 then [pr_Single v] else [pr_Start v..pr_End v])"

lemma ParseRangeNumbers_ranges:
  assumes "parse_ranges ss = Inr p" "\<forall>v\<in>set p. pr_End v < 2 ^ 63 - 1"
  shows "ParseRangeNumbers_loop ss numbers = Some (Inr (numbers @ concat (map range_numbers p)))"
  using assms
proof (induction ss arbitrary: numbers p)
  case (Cons s ss)
  then obtain v p' where v: "parse_range s = Inr v" "parse_ranges ss = Inr p'" "p = v # p'"
    by (auto split: sum.splits)
  then have IH: "ParseRangeNumbers_loop ss ns = Some (Inr (ns @ concat (map range_numbers p')))" for ns
    using Cons by simp
  show ?case
    using v IH Cons.prems(2)
    by (auto simp: parse_range_def range_numbers_def [of v] split: list.splits sum.splits if_splits)
qed simp

section \<open>The invariant of the manager\<close>

definition pm_inv :: "int set \<Rightarrow> Manager \<Rightarrow> bool" where
  "pm_inv allowed pm \<longleftrightarrow>
    dom (usedPorts pm) \<inter> freePorts pm = {} \<and> dom (usedPorts pm) \<union> freePorts pm = allowed \<and>
    (\<forall>p a. usedPorts pm p = Some a \<longrightarrow>
       a < length (pm_ctxs pm) \<and> pc_Port (pm_ctxs pm ! a) = p \<and> \<not> Closed (pm_ctxs pm ! a)) \<and>
    (\<forall>n a. reservedPorts pm n = Some a \<longrightarrow>
       a < length (pm_ctxs pm) \<and> ProxyName (pm_ctxs pm ! a) = n \<and> pc_Port (pm_ctxs pm ! a) \<in> allowed)"

inductive pm_step :: "Manager \<Rightarrow> Manager \<Rightarrow> bool" where
  acquire: "set order = freePorts pm \<Longrightarrow> distinct order \<Longrightarrow> Acquire os order now pm name port = (r, pm') \<Longrightarrow> pm_step pm pm'"
| release: "pm_step pm (Port_Release now pm port)"
| clean: "pm_step pm (cleanReservedPorts now pm)"

lemma Acquire_random_sound:
  "Acquire_random av count ks = Some k \<Longrightarrow> k \<in> set ks \<and> av k"
  by (induction av count ks rule: Acquire_random.induct) (auto split: if_splits)

lemma Acquire_random_None:
  "Acquire_random av count ks = None \<longleftrightarrow> (\<forall>k\<in>set (take (5 - count) ks). \<not> av k)"
proof (induction av count ks rule: Acquire_random.induct)
  case (2 av count k ks)
  then show ?case
    by (cases "count < 5") (auto simp: Suc_diff_le take_Cons' split: if_splits)
qed simp

text \<open>Every way in which \<^verbatim>\<open>Acquire\<close> ends: it takes an allowed port, or the manager is unchanged.\<close>

lemma Acquire_cases:
  assumes "Acquire os order now pm name port = (r, pm')" "set order = freePorts pm" "pm_inv A pm"
  shows "(\<exists>p. pm' = pm_take pm name now p \<and> p \<in> A \<and> isPortAvailable os pm p \<and>
      (r = Inr p \<or> p = 0 \<and> r = Inl ErrNoAvailablePort)) \<or> pm' = pm \<and> (\<exists>e. r = Inl e)"
proof -
  have "p \<in> A" if "p \<in> freePorts pm" for p
    using that assms(3) by (auto simp: pm_inv_def)
  moreover have "pc_Port (pm_ctxs pm ! a) \<in> A" if "reservedPorts pm name = Some a" for a
    using that assms(3) by (auto simp: pm_inv_def)
  ultimately show ?thesis
    using assms(1,2) by (auto simp: Acquire_def split: if_splits option.splits dest!: Acquire_random_sound)
qed

lemma pm_invD:
  assumes "pm_inv A pm"
  shows "usedPorts pm p = Some a \<Longrightarrow> a < length (pm_ctxs pm) \<and> pc_Port (pm_ctxs pm ! a) = p \<and> \<not> Closed (pm_ctxs pm ! a)"
    "reservedPorts pm n = Some a \<Longrightarrow> a < length (pm_ctxs pm) \<and> ProxyName (pm_ctxs pm ! a) = n \<and> pc_Port (pm_ctxs pm ! a) \<in> A"
  using assms by (simp_all add: pm_inv_def)

lemma pm_inv_take: "pm_inv A pm \<Longrightarrow> p \<in> A \<Longrightarrow> pm_inv A (pm_take pm name now p)"
  unfolding pm_inv_def pm_take_def
  by (auto simp: nth_append less_SucI split: if_splits)

lemma pm_inv_inj: "pm_inv A pm \<Longrightarrow> usedPorts pm p = Some a \<Longrightarrow> usedPorts pm q = Some a \<Longrightarrow> p = q"
  using pm_invD(1) by blast

lemma pm_inv_Release:
  assumes inv: "pm_inv A pm"
  shows "pm_inv A (Port_Release now pm p)"
proof (cases "usedPorts pm p")
  case (Some c)
  then have "a \<noteq> c" if "usedPorts pm q = Some a" "q \<noteq> p" for q a
    using pm_inv_inj [OF inv] that by blast
  then show ?thesis
    using inv Some unfolding pm_inv_def Port_Release_def
    by (auto simp: nth_list_update split: if_splits)
qed (simp add: Port_Release_def inv)

lemma pm_inv_clean: "pm_inv A pm \<Longrightarrow> pm_inv A (cleanReservedPorts now pm)"
  unfolding pm_inv_def cleanReservedPorts_def
  by (auto split: if_splits option.splits)

lemma pm_inv_step: "pm_step pm pm' \<Longrightarrow> pm_inv A pm \<Longrightarrow> pm_inv A pm'"
proof (induction rule: pm_step.induct)
  case (acquire order pm os now name port r pm')
  then show ?case
    using Acquire_cases [OF acquire(3,1,4)] pm_inv_take by auto
qed (simp_all add: pm_inv_Release pm_inv_clean)

lemma pm_inv_new: "pm_inv (freePorts (NewManager nt addr ranges)) (NewManager nt addr ranges)"
  by (simp add: pm_inv_def NewManager_def)

lemma pm_inv_reach:
  assumes "pm_step\<^sup>*\<^sup>* (NewManager nt addr ranges) pm"
  shows "pm_inv (freePorts (NewManager nt addr ranges)) pm"
  using assms by (induction rule: rtranclp_induct) (simp_all add: pm_inv_new pm_inv_step)

section \<open>Reserved ports\<close>

text \<open>The steps of the manager in which \<open>name\<close> takes no port, up to the time \<open>limit\<close> of the sweeps.\<close>

inductive others_step :: "bytes \<Rightarrow> int \<Rightarrow> Manager \<Rightarrow> Manager \<Rightarrow> bool" for name limit where
  acquire: "set order = freePorts pm \<Longrightarrow> distinct order \<Longrightarrow> name' \<noteq> name \<Longrightarrow>
    Acquire os order now pm name' port = (r, pm') \<Longrightarrow> others_step name limit pm pm'"
| release: "others_step name limit pm (Port_Release now pm port)"
| clean: "now \<le> limit \<Longrightarrow> others_step name limit pm (cleanReservedPorts now pm)"

text \<open>
  What may happen while \<open>name\<close> uses its port \<open>p\<close>: acquisitions of other proxies, sweeps at any time, and releases, of \<open>p\<close> itself
  only if the manager has lent it to another proxy in the meantime.
\<close>

inductive use_step :: "bytes \<Rightarrow> int \<Rightarrow> Manager \<Rightarrow> Manager \<Rightarrow> bool" for name p where
  acquire: "set order = freePorts pm \<Longrightarrow> distinct order \<Longrightarrow> name' \<noteq> name \<Longrightarrow>
    Acquire os order now pm name' port = (r, pm') \<Longrightarrow> use_step name p pm pm'"
| release: "(\<And>c. port = p \<Longrightarrow> usedPorts pm p = Some c \<Longrightarrow> ProxyName (pm_ctxs pm ! c) \<noteq> name) \<Longrightarrow>
    use_step name p pm (Port_Release now pm port)"
| clean: "use_step name p pm (cleanReservedPorts now pm)"

definition in_use :: "bytes \<Rightarrow> int \<Rightarrow> Manager \<Rightarrow> bool" where
  "in_use name p pm \<longleftrightarrow> (\<exists>a. reservedPorts pm name = Some a \<and> a < length (pm_ctxs pm) \<and>
    pc_Port (pm_ctxs pm ! a) = p \<and> \<not> Closed (pm_ctxs pm ! a))"

text \<open>
  After the release the context of \<open>name\<close> is nobody's any more.  It was closed at time \<open>t\<close>, or it is still open because the
  manager closed the context of another proxy to which it had lent the same port.
\<close>

definition parked :: "bytes \<Rightarrow> int \<Rightarrow> int \<Rightarrow> Manager \<Rightarrow> bool" where
  "parked name p t pm \<longleftrightarrow> (\<exists>a. reservedPorts pm name = Some a \<and> a < length (pm_ctxs pm) \<and> a \<notin> ran (usedPorts pm) \<and>
    pc_Port (pm_ctxs pm ! a) = p \<and> (Closed (pm_ctxs pm ! a) \<longrightarrow> UpdateTime (pm_ctxs pm ! a) = t))"

lemma parked_take: "parked name p t pm \<Longrightarrow> name' \<noteq> name \<Longrightarrow> parked name p t (pm_take pm name' now q)"
  unfolding parked_def pm_take_def
  by (elim exE conjE, rule exI) (auto simp: nth_append ran_def split: if_splits)

lemma parked_Release: "parked name p t pm \<Longrightarrow> parked name p t (Port_Release now pm q)"
proof (cases "usedPorts pm q")
  case (Some c)
  assume "parked name p t pm"
  then obtain a where a: "reservedPorts pm name = Some a" "a < length (pm_ctxs pm)" "a \<notin> ran (usedPorts pm)"
      "pc_Port (pm_ctxs pm ! a) = p" "Closed (pm_ctxs pm ! a) \<longrightarrow> UpdateTime (pm_ctxs pm ! a) = t"
    by (auto simp: parked_def)
  moreover have "c \<noteq> a" using a(3) Some by (auto simp: ran_def)
  ultimately show ?thesis
    using Some by (auto simp: parked_def Port_Release_def ran_def)
qed (simp add: Port_Release_def)

lemma parked_clean: "parked name p t pm \<Longrightarrow> now \<le> t + MaxPortReservedDuration \<Longrightarrow> parked name p t (cleanReservedPorts now pm)"
  unfolding parked_def cleanReservedPorts_def by auto

lemma others_step_inv:
  assumes "others_step name limit pm pm'"
  shows "pm_step pm pm'"
  using assms by (cases rule: others_step.cases) (auto intro: pm_step.intros)

lemma parked_step:
  assumes "others_step name (t + MaxPortReservedDuration) pm pm'" "pm_inv A pm" "parked name p t pm"
  shows "parked name p t pm'"
  using assms
proof (cases rule: others_step.cases)
  case (acquire order name' os now port r)
  then show ?thesis
    using Acquire_cases [OF acquire(4,1) assms(2)] assms(3) parked_take by auto
qed (simp_all add: parked_Release parked_clean)

lemma parked_steps:
  assumes "(others_step name (t + MaxPortReservedDuration))\<^sup>*\<^sup>* pm pm'" "pm_inv A pm" "parked name p t pm"
  shows "pm_inv A pm' \<and> parked name p t pm'"
  using assms(1)
proof (induction rule: rtranclp_induct)
  case (step pm1 pm2)
  then show ?case
    using parked_step pm_inv_step others_step_inv by blast
qed (simp add: assms)

lemma in_use_take: "in_use name p pm \<Longrightarrow> name' \<noteq> name \<Longrightarrow> in_use name p (pm_take pm name' now q)"
  unfolding in_use_def pm_take_def by (auto simp: nth_append)

lemma in_use_clean: "in_use name p pm \<Longrightarrow> in_use name p (cleanReservedPorts now pm)"
  unfolding in_use_def cleanReservedPorts_def by auto

lemma in_use_Release:
  assumes "pm_inv A pm" "in_use name p pm"
    and "\<And>c. q = p \<Longrightarrow> usedPorts pm p = Some c \<Longrightarrow> ProxyName (pm_ctxs pm ! c) \<noteq> name"
  shows "in_use name p (Port_Release now pm q)"
proof (cases "usedPorts pm q")
  case (Some c)
  obtain a where a: "reservedPorts pm name = Some a" "a < length (pm_ctxs pm)" "pc_Port (pm_ctxs pm ! a) = p"
      "\<not> Closed (pm_ctxs pm ! a)"
    using assms(2) by (auto simp: in_use_def)
  have "c \<noteq> a"
    using Some a(1,3) assms(3) pm_invD [OF assms(1)] by metis
  then show ?thesis
    using Some a by (auto simp: in_use_def Port_Release_def)
qed (simp add: Port_Release_def assms)

lemma use_step_inv:
  assumes "use_step name p pm pm'"
  shows "pm_step pm pm'"
  using assms by (cases rule: use_step.cases) (auto intro: pm_step.intros)

lemma in_use_step:
  assumes "use_step name p pm pm'" "pm_inv A pm" "in_use name p pm"
  shows "in_use name p pm'"
  using assms
proof (cases rule: use_step.cases)
  case (acquire order name' os now port r)
  then show ?thesis
    using Acquire_cases [OF acquire(4,1) assms(2)] assms(3) in_use_take by auto
next
  case (release port now)
  then show ?thesis using in_use_Release [OF assms(2,3)] by blast
qed (simp add: in_use_clean)

lemma in_use_steps:
  assumes "(use_step name p)\<^sup>*\<^sup>* pm pm'" "pm_inv A pm" "in_use name p pm"
  shows "pm_inv A pm' \<and> in_use name p pm'"
  using assms(1)
proof (induction rule: rtranclp_induct)
  case (step pm1 pm2)
  then show ?case
    using in_use_step pm_inv_step use_step_inv by blast
qed (simp add: assms)

lemma in_use_after_Acquire:
  assumes "Acquire os order now pm name port = (Inr p, pm1)" "set order = freePorts pm" "pm_inv A pm"
  shows "pm_inv A pm1" "in_use name p pm1"
  using Acquire_cases [OF assms] assms(3) pm_inv_take by (auto simp: in_use_def pm_take_def)

lemma parked_after_release:
  assumes "pm_inv A pm" "in_use name p pm"
  shows "parked name p t (Port_Release t pm p)"
proof -
  obtain a where a: "reservedPorts pm name = Some a" "a < length (pm_ctxs pm)" "pc_Port (pm_ctxs pm ! a) = p"
      "\<not> Closed (pm_ctxs pm ! a)"
    using assms(2) by (auto simp: in_use_def)
  have "a \<notin> ran ((usedPorts pm)(p := None))"
    using a(3) pm_invD(1) [OF assms(1)] by (fastforce simp: ran_def split: if_splits)
  moreover from this have "usedPorts pm p = None \<Longrightarrow> a \<notin> ran (usedPorts pm)"
    by (simp add: fun_upd_idem)
  ultimately show ?thesis
    using a by (cases "usedPorts pm p"; cases "usedPorts pm p = Some a") (auto simp: parked_def Port_Release_def nth_list_update split: if_splits)
qed

section \<open>Properties\<close>

text \<open>
  C32. The manager's books: after any sequence of acquisitions, releases and sweeps the used and the free ports are disjoint and
  together exactly the ports of the configuration, and every used port has an open context with that port number.
\<close>

theorem ports_accounted:
  assumes "pm_step\<^sup>*\<^sup>* (NewManager nt addr ranges) pm"
  shows "dom (usedPorts pm) \<inter> freePorts pm = {} \<and>
    dom (usedPorts pm) \<union> freePorts pm = freePorts (NewManager nt addr ranges) \<and>
    (\<forall>p a. usedPorts pm p = Some a \<longrightarrow>
      a < length (pm_ctxs pm) \<and> pc_Port (pm_ctxs pm ! a) = p \<and> \<not> Closed (pm_ctxs pm ! a))"
  using pm_inv_reach [OF assms] by (simp add: pm_inv_def)

abbreviation os_free :: os_net where
  "os_free \<equiv> \<lparr>ResolveUDPAddr = (\<lambda>_ _. True), ListenUDP = (\<lambda>_ _. True), net_Listen = (\<lambda>_ _ _. True)\<rparr>"

definition demo_ports :: Manager where
  "demo_ports = NewManager (str ''tcp'') [] [\<lparr>pr_Start = 7, pr_End = 8, pr_Single = 0\<rparr>]"

lemma demo_ports_free: "freePorts demo_ports = {7, 8}"
  by code_simp

lemma demo_Acquire: "Acquire os_free [7, 8] 0 demo_ports (str ''a'') 7 = (Inr 7, pm_take demo_ports (str ''a'') 0 7)"
  by (simp add: Acquire_def demo_ports_free isPortAvailable_def)

theorem ports_accounted_witness:
  "dom (usedPorts (pm_take demo_ports (str ''a'') 0 7)) \<union> freePorts (pm_take demo_ports (str ''a'') 0 7) = freePorts demo_ports"
proof -
  have "pm_step demo_ports (pm_take demo_ports (str ''a'') 0 7)"
    by (rule pm_step.acquire [OF _ _ demo_Acquire]) (auto simp: demo_ports_free)
  then have "pm_step\<^sup>*\<^sup>* (NewManager (str ''tcp'') [] [\<lparr>pr_Start = 7, pr_End = 8, pr_Single = 0\<rparr>]) (pm_take demo_ports (str ''a'') 0 7)"
    by (simp add: demo_ports_def)
  from ports_accounted [OF this] show ?thesis by (simp add: demo_ports_def)
qed

text \<open>
  C22. Acquiring a port: if port 0 is not configured, then in every reachable state a successful \<^verbatim>\<open>Acquire\<close> returns a configured
  port that can be opened at that moment, the requested one if one was requested.  Without a request it is the port reserved for
  this proxy if that can be opened; every other returned port is free, so only the reserved port of the same proxy can be lent
  while it is already in use.  The port is no longer free and is recorded in a new open context of the proxy, both as used and as
  reserved for it, and nothing else changes.  Each error leaves the manager unchanged and is returned for its own reason only: the
  requested port is in use, or not configured, or free but cannot be opened; or no port was requested and neither the reserved port
  nor one of the first five free ports that were tried can be opened.
\<close>

theorem Acquire_outcome:
  assumes "pm_step\<^sup>*\<^sup>* (NewManager nt addr ranges) pm" "set order = freePorts pm" "distinct order"
    "0 \<notin> freePorts (NewManager nt addr ranges)"
  shows "case Acquire os order now pm name port of
      (Inr p, pm') \<Rightarrow> isPortAvailable os pm p \<and> p \<in> freePorts (NewManager nt addr ranges) \<and>
        (if port \<noteq> 0 then p = port \<and> p \<in> freePorts pm
         else case reservedPorts pm name of
           None \<Rightarrow> p \<in> freePorts pm
         | Some a \<Rightarrow> if isPortAvailable os pm (pc_Port (pm_ctxs pm ! a)) then p = pc_Port (pm_ctxs pm ! a) else p \<in> freePorts pm) \<and>
        pm' = pm\<lparr>pm_ctxs := pm_ctxs pm @ [\<lparr>ProxyName = name, pc_Port = p, Closed = False, UpdateTime = now\<rparr>],
          reservedPorts := (reservedPorts pm)(name \<mapsto> length (pm_ctxs pm)),
          usedPorts := (usedPorts pm)(p \<mapsto> length (pm_ctxs pm)), freePorts := freePorts pm - {p}\<rparr>
    | (Inl e, pm') \<Rightarrow> pm' = pm \<and>
        (case e of
           ErrPortAlreadyUsed \<Rightarrow> port \<noteq> 0 \<and> port \<in> dom (usedPorts pm)
         | ErrPortNotAllowed \<Rightarrow> port \<noteq> 0 \<and> port \<notin> freePorts (NewManager nt addr ranges)
         | ErrPortUnAvailable \<Rightarrow> port \<noteq> 0 \<and> port \<in> freePorts pm \<and> \<not> isPortAvailable os pm port
         | ErrNoAvailablePort \<Rightarrow> port = 0 \<and> (\<forall>k\<in>set (take 5 order). \<not> isPortAvailable os pm k) \<and>
             (\<forall>a. reservedPorts pm name = Some a \<longrightarrow> \<not> isPortAvailable os pm (pc_Port (pm_ctxs pm ! a))))"
proof -
  let ?A = "freePorts (NewManager nt addr ranges)"
  obtain r pm' where acq: "Acquire os order now pm name port = (r, pm')" by fastforce
  have inv: "pm_inv ?A pm" using pm_inv_reach assms(1) by simp
  then have A: "dom (usedPorts pm) \<union> freePorts pm = ?A" by (simp add: pm_inv_def)
  show ?thesis
  proof (cases r)
    case (Inr p)
    then have p: "pm' = pm_take pm name now p" "p \<in> ?A" "isPortAvailable os pm p"
      using Acquire_cases [OF acq assms(2) inv] by auto
    moreover have "if port \<noteq> 0 then p = port \<and> p \<in> freePorts pm
         else case reservedPorts pm name of
           None \<Rightarrow> p \<in> freePorts pm
         | Some a \<Rightarrow> if isPortAvailable os pm (pc_Port (pm_ctxs pm ! a)) then p = pc_Port (pm_ctxs pm ! a) else p \<in> freePorts pm"
      using acq Inr assms(2) by (auto simp: Acquire_def split: if_splits option.splits dest: Acquire_random_sound)
    ultimately show ?thesis
      using acq Inr by (simp add: pm_take_def)
  next
    case (Inl e)
    have "pm' = pm"
      using Acquire_cases [OF acq assms(2) inv] Inl assms(4) by auto
    moreover have "0 \<notin> set order" using assms(2,4) A by auto
    ultimately show ?thesis
      using acq Inl A Acquire_random_None [of "isPortAvailable os pm" 0 order]
      by (auto simp: Acquire_def split: if_splits option.splits dest: Acquire_random_sound)
  qed
qed

text \<open>The first acquisition of the examples, after which port 7 is lent.\<close>

definition demo_lent :: Manager where
  "demo_lent = pm_take demo_ports (str ''a'') 0 7"

lemma demo_lent_reach:
  "pm_step\<^sup>*\<^sup>* (NewManager (str ''tcp'') [] [\<lparr>pr_Start = 7, pr_End = 8, pr_Single = 0\<rparr>]) demo_lent"
proof -
  have "pm_step demo_ports demo_lent"
    unfolding demo_lent_def by (rule pm_step.acquire [OF _ _ demo_Acquire]) (auto simp: demo_ports_free)
  then show ?thesis by (simp add: demo_ports_def)
qed

theorem Acquire_outcome_witness:
  "usedPorts demo_lent 7 \<noteq> None \<and>
   (case Acquire os_free [8] 1 demo_lent (str ''b'') 0 of
     (Inr p, pm') \<Rightarrow> p = 8 \<and> freePorts pm' = {}
   | (Inl e, pm') \<Rightarrow> e = ErrNoAvailablePort)"
proof -
  have demo_names: "str ''b'' \<noteq> str ''a''" by code_simp
  have free: "freePorts demo_lent = {8}" "reservedPorts demo_lent (str ''b'') = None"
    using demo_names by (auto simp: demo_lent_def pm_take_def demo_ports_free) (simp add: demo_ports_def NewManager_def)
  moreover have "0 \<notin> freePorts (NewManager (str ''tcp'') [] [\<lparr>pr_Start = 7, pr_End = 8, pr_Single = 0\<rparr>])"
    using demo_ports_free by (simp add: demo_ports_def)
  moreover have "usedPorts demo_lent 7 \<noteq> None" by (simp add: demo_lent_def pm_take_def)
  ultimately show ?thesis
    using Acquire_outcome [OF demo_lent_reach, of "[8]", where os = os_free and now = 1 and name = "str ''b''" and port = 0]
    by (auto split: prod.splits sum.splits port_error.splits)
qed

text \<open>
  C33. A proxy gets its port back: a proxy acquires a port and uses it; meanwhile the other proxies acquire and release ports, but
  release this port only if the manager has lent it to one of them, and the sweep of the reserved ports runs at any time.  Then the
  proxy releases its port; whatever the other proxies do afterwards and however often the sweep runs within a day of the release, a
  request of that proxy for any port returns the same port as long as it can be opened.
\<close>

theorem reserved_port_returns:
  assumes "pm_step\<^sup>*\<^sup>* (NewManager nt addr ranges) pm" "set order = freePorts pm"
    and "Acquire os order now pm name port = (Inr p, pm1)"
    and "(use_step name p)\<^sup>*\<^sup>* pm1 pm2"
    and "(others_step name (t + MaxPortReservedDuration))\<^sup>*\<^sup>* (Port_Release t pm2 p) pm3"
    and "isPortAvailable os' pm3 p"
  shows "Acquire os' order' now' pm3 name 0 = (Inr p, pm_take pm3 name now' p)"
proof -
  have "pm_inv (freePorts (NewManager nt addr ranges)) pm2" "in_use name p pm2"
    using in_use_steps [OF assms(4) in_use_after_Acquire [OF assms(3,2) pm_inv_reach [OF assms(1)]]] by blast+
  then have "parked name p t pm3"
    using parked_after_release pm_inv_Release parked_steps [OF assms(5)] by blast
  then show ?thesis
    using assms(6) by (auto simp: Acquire_def parked_def)
qed

theorem reserved_port_returns_witness:
  "fst (Acquire os_free [] 200000 (cleanReservedPorts 150000 (Port_Release 100000
    (cleanReservedPorts 90000 (pm_take demo_ports (str ''a'') 0 7)) 7)) (str ''a'') 0) = Inr 7"
proof -
  let ?ranges = "[\<lparr>pr_Start = 7, pr_End = 8, pr_Single = 0\<rparr>]"
  let ?pm1 = "pm_take demo_ports (str ''a'') 0 7"
  let ?pm2 = "cleanReservedPorts 90000 ?pm1"
  let ?pm3 = "cleanReservedPorts 150000 (Port_Release 100000 ?pm2 7)"
  have 1: "pm_step\<^sup>*\<^sup>* (NewManager (str ''tcp'') [] ?ranges) demo_ports"
    by (simp add: demo_ports_def)
  have 2: "set [7, 8] = freePorts demo_ports" by (auto simp: demo_ports_free)
  have 3: "(use_step (str ''a'') 7)\<^sup>*\<^sup>* ?pm1 ?pm2"
    by (rule r_into_rtranclp) (rule use_step.clean)
  have 4: "(others_step (str ''a'') (100000 + MaxPortReservedDuration))\<^sup>*\<^sup>* (Port_Release 100000 ?pm2 7) ?pm3"
    by (rule r_into_rtranclp) (rule others_step.clean, simp add: MaxPortReservedDuration_def)
  have "isPortAvailable os_free ?pm3 7" by (simp add: isPortAvailable_def)
  from reserved_port_returns [OF 1 2 demo_Acquire 3 4 this] show ?thesis by simp
qed

text \<open>
  Without the operating system's help the same port is lent twice: the branch for reserved ports looks at neither the used nor
  the free ports.  Proxy \<open>a\<close> releases its port, \<open>b\<close> acquires it and, before \<open>b\<close> has opened it, \<open>a\<close> asks for any port and gets
  the port of \<open>b\<close>; when \<open>a\<close> then releases it because it cannot open it, the manager takes the port for free although \<open>b\<close> never
  released it.
\<close>

lemma reserved_port_lent_twice:
  assumes "a \<noteq> b" "p \<noteq> 0" "p \<in> freePorts (NewManager nt addr ranges)" "\<And>pm. isPortAvailable os pm p"
    and "Acquire os order1 t1 (NewManager nt addr ranges) a p = (r1, pm1)"
    and "Acquire os order2 t3 (Port_Release t2 pm1 p) b p = (r2, pm2)"
    and "Acquire os order3 t4 pm2 a 0 = (r3, pm3)"
  shows "r2 = Inr p \<and> r3 = Inr p \<and> usedPorts (Port_Release t5 pm3 p) p = None \<and> p \<in> freePorts (Port_Release t5 pm3 p)"
proof -
  have 1: "pm1 = pm_take (NewManager nt addr ranges) a t1 p"
    using assms by (simp add: Acquire_def)
  have 2: "r2 = Inr p" "pm2 = pm_take (Port_Release t2 pm1 p) b t3 p"
    using assms(2,4,6) by (auto simp: Acquire_def 1 Port_Release_def pm_take_def)
  have "r3 = Inr p \<and> pm3 = pm_take pm2 a t4 p"
    using assms(1,4,7) unfolding 2 1
    by (auto simp: Acquire_def Port_Release_def pm_take_def NewManager_def nth_append)
  then show ?thesis
    using 2(1) by (simp add: Port_Release_def pm_take_def)
qed

lemma reserved_port_lent_twice_witness:
  "fst (Acquire os_free [8] 4 (snd (Acquire os_free [8, 7] 3 (Port_Release 2
      (snd (Acquire os_free [7, 8] 1 demo_ports (str ''a'') 7)) 7) (str ''b'') 7)) (str ''a'') 0) = Inr 7"
proof -
  have "str ''a'' \<noteq> str ''b''" by code_simp
  moreover have "(7::int) \<in> freePorts (NewManager (str ''tcp'') [] [\<lparr>pr_Start = 7, pr_End = 8, pr_Single = 0\<rparr>])"
    using demo_ports_free by (simp add: demo_ports_def)
  moreover have "\<And>pm. isPortAvailable os_free pm 7" by (simp add: isPortAvailable_def)
  ultimately show ?thesis
    using reserved_port_lent_twice [of "str ''a''" "str ''b''" 7 "str ''tcp''" "[]" "[\<lparr>pr_Start = 7, pr_End = 8, pr_Single = 0\<rparr>]"
        os_free "[7, 8]" 1 _ _ "[8, 7]" 3 2 _ _ "[8]" 4, OF _ _ _ _ prod.collapse [symmetric] prod.collapse [symmetric] prod.collapse [symmetric]]
    by (simp add: demo_ports_def)
qed

text \<open>
  Printing and parsing of port ranges: the text of a non-empty list of ranges parses to the same list, for single ports from
  1 and for ranges of numbers from 0, up to the largest \<^verbatim>\<open>int64\<close>.
\<close>

lemma PortsRange_roundtrip:
  assumes "p \<noteq> []" "\<forall>v\<in>set p. ok_range v"
  shows "NewPortsRangeSliceFromString (PortsRangeSlice_String p) = Inr p"
  using PortsRange_print_parse assms by blast

lemma PortsRange_roundtrip_witness:
  "NewPortsRangeSliceFromString (str ''1000-2000,3000'') =
    Inr [\<lparr>pr_Start = 1000, pr_End = 2000, pr_Single = 0\<rparr>, \<lparr>pr_Start = 0, pr_End = 0, pr_Single = 3000\<rparr>]"
proof -
  let ?p = "[\<lparr>pr_Start = 1000, pr_End = 2000, pr_Single = 0\<rparr>, \<lparr>pr_Start = 0, pr_End = 0, pr_Single = 3000\<rparr>]"
  have "PortsRangeSlice_String ?p = str ''1000-2000,3000''" by code_simp
  moreover have "\<forall>v\<in>set ?p. ok_range v" by (simp add: ok_range_def)
  ultimately show ?thesis using PortsRange_roundtrip [of ?p] by simp
qed

text \<open>
  A zero range, which an empty entry of the configuration gives, makes port 0 a free port.  Choosing it is reported as an error,
  but the port stays lent to the proxy that was refused.
\<close>

lemma Acquire_zero_leak:
  assumes "isPortAvailable os_free (NewManager nt addr [\<lparr>pr_Start = 0, pr_End = 0, pr_Single = 0\<rparr>]) 0"
  shows "\<exists>pm'. Acquire os_free [0] now (NewManager nt addr [\<lparr>pr_Start = 0, pr_End = 0, pr_Single = 0\<rparr>]) name 0 =
    (Inl ErrNoAvailablePort, pm') \<and> usedPorts pm' 0 \<noteq> None"
  using assms by (simp add: Acquire_def NewManager_def) (simp add: pm_take_def)

end
