(* ===== verification/Frp_Registry.thy ===== *)
theory Frp_Registry
  imports Prelude
begin

text \<open>
  \<^verbatim>\<open>src/frp/server/registry/registry.go\<close>: the registry of the clients that are or were connected to the server.  Points in
  time are integers, 0 is Go's zero time.  \<^verbatim>\<open>clients\<close> is an association list, because \<^verbatim>\<open>List\<close> returns its values in the order of
  the map; no pointer to a \<^verbatim>\<open>ClientInfo\<close> is kept outside of this map, so it holds the values.
\<close>

record ClientInfo =
  ci_Key :: bytes
  ci_User :: bytes
  RawClientID :: bytes
  ci_RunID :: bytes
  ci_Hostname :: bytes
  ci_IP :: bytes
  ci_Version :: bytes
  ci_WireProtocol :: bytes
  FirstConnectedAt :: int
  LastConnectedAt :: int
  DisconnectedAt :: int
  Online :: bool

record ClientRegistry =
  cr_clients :: "(bytes \<times> ClientInfo) list"
  runIndex :: "bytes \<rightharpoonup> bytes"

definition NewClientRegistry :: ClientRegistry where
  "NewClientRegistry = \<lparr>cr_clients = [], runIndex = Map.empty\<rparr>"

definition composeClientKey :: "bytes \<Rightarrow> bytes \<Rightarrow> bytes" where
  "composeClientKey user ident =
    (if user = [] then ident else if ident = [] then user else user @ 0x2E # ident)"

definition empty_ClientInfo :: ClientInfo where
  "empty_ClientInfo = \<lparr>ci_Key = [], ci_User = [], RawClientID = [], ci_RunID = [], ci_Hostname = [], ci_IP = [], ci_Version = [],
     ci_WireProtocol = [], FirstConnectedAt = 0, LastConnectedAt = 0, DisconnectedAt = 0, Online = False\<rparr>"

definition Registry_Register ::
  "int \<Rightarrow> ClientRegistry \<Rightarrow> bytes \<Rightarrow> bytes \<Rightarrow> bytes \<Rightarrow> bytes \<Rightarrow> bytes \<Rightarrow> bytes \<Rightarrow> bytes \<Rightarrow> (bytes \<times> bool) \<times> ClientRegistry" where
  "Registry_Register now cr user rawClientID runID hostname version remoteAddr wireProtocol =
    (if runID = [] then (([], False), cr)
     else
       let effectiveID = (if rawClientID = [] then runID else rawClientID);
           key = composeClientKey user effectiveID;
           enforceUnique = (rawClientID \<noteq> []);
           conflict = (case map_of (cr_clients cr) key of
             None \<Rightarrow> False
           | Some info \<Rightarrow> enforceUnique \<and> Online info \<and> ci_RunID info \<noteq> [] \<and> ci_RunID info \<noteq> runID)
       in if conflict then ((key, True), cr)
       else
         let (info, index) =
               (case map_of (cr_clients cr) key of
                  None \<Rightarrow> (empty_ClientInfo\<lparr>ci_Key := key, ci_User := user, FirstConnectedAt := now\<rparr>, runIndex cr)
                | Some info \<Rightarrow>
                    (info, if ci_RunID info \<noteq> [] then (runIndex cr)(ci_RunID info := None) else runIndex cr));
             info = info\<lparr>RawClientID := rawClientID, ci_RunID := runID, ci_Hostname := hostname, ci_IP := remoteAddr,
               ci_Version := version, ci_WireProtocol := wireProtocol\<rparr>;
             info = (if FirstConnectedAt info = 0 then info\<lparr>FirstConnectedAt := now\<rparr> else info);
             info = info\<lparr>LastConnectedAt := now, DisconnectedAt := 0, Online := True\<rparr>
         in ((key, False), \<lparr>cr_clients = al_put key info (cr_clients cr), runIndex = index(runID \<mapsto> key)\<rparr>))"

definition MarkOfflineByRunID :: "int \<Rightarrow> ClientRegistry \<Rightarrow> bytes \<Rightarrow> ClientRegistry" where
  "MarkOfflineByRunID now cr runID =
    (case runIndex cr runID of
       None \<Rightarrow> cr
     | Some key \<Rightarrow>
         let clients =
           (case map_of (cr_clients cr) key of
              None \<Rightarrow> cr_clients cr
            | Some info \<Rightarrow>
                if ci_RunID info = runID then
                  if RawClientID info = [] then al_del key (cr_clients cr)
                  else al_put key (info\<lparr>ci_RunID := [], Online := False, DisconnectedAt := now\<rparr>) (cr_clients cr)
                else cr_clients cr)
         in \<lparr>cr_clients = clients, runIndex = (runIndex cr)(runID := None)\<rparr>)"

definition Registry_List :: "ClientRegistry \<Rightarrow> ClientInfo list" where
  "Registry_List cr = map snd (cr_clients cr)"

definition Registry_GetByKey :: "ClientRegistry \<Rightarrow> bytes \<Rightarrow> ClientInfo \<times> bool" where
  "Registry_GetByKey cr key =
    (case map_of (cr_clients cr) key of
       None \<Rightarrow> (empty_ClientInfo, False)
     | Some info \<Rightarrow> (info, True))"

definition ClientInfo_ClientID :: "ClientInfo \<Rightarrow> bytes" where
  "ClientInfo_ClientID info = (if RawClientID info \<noteq> [] then RawClientID info else ci_RunID info)"

section \<open>The invariant\<close>

definition reg_ok :: "(bytes \<rightharpoonup> ClientInfo) \<Rightarrow> (bytes \<rightharpoonup> bytes) \<Rightarrow> bool" where
  "reg_ok C index \<longleftrightarrow>
    (\<forall>k i. C k = Some i \<longrightarrow> ci_Key i = k \<and> (Online i \<longleftrightarrow> ci_RunID i \<noteq> []) \<and> (RawClientID i = [] \<longrightarrow> Online i)) \<and>
    (\<forall>r k. index r = Some k \<longrightarrow> r \<noteq> [] \<and> (\<exists>i. C k = Some i \<and> ci_RunID i = r))"

definition reg_inv :: "ClientRegistry \<Rightarrow> bool" where
  "reg_inv cr \<longleftrightarrow> distinct (al_keys (cr_clients cr)) \<and> reg_ok (map_of (cr_clients cr)) (runIndex cr)"

inductive reg_step :: "ClientRegistry \<Rightarrow> ClientRegistry \<Rightarrow> bool" where
  register: "reg_step cr (snd (Registry_Register now cr user raw runID host version addr wp))"
| offline: "reg_step cr (MarkOfflineByRunID now cr runID)"

lemma reg_invD:
  assumes "reg_inv cr"
  shows "map_of (cr_clients cr) k = Some i \<Longrightarrow> ci_Key i = k \<and> (Online i \<longleftrightarrow> ci_RunID i \<noteq> []) \<and> (RawClientID i = [] \<longrightarrow> Online i)"
    "runIndex cr r = Some k \<Longrightarrow> r \<noteq> [] \<and> (\<exists>i. map_of (cr_clients cr) k = Some i \<and> ci_RunID i = r)"
  using assms unfolding reg_inv_def reg_ok_def by blast+

lemma reg_inv_new: "reg_inv NewClientRegistry"
  by (simp add: reg_inv_def reg_ok_def NewClientRegistry_def)

text \<open>What \<^verbatim>\<open>Register\<close> does when it succeeds.\<close>

lemma Registry_Register_ok:
  assumes "Registry_Register now cr user raw runID host version addr wp = ((key, False), cr')" "runID \<noteq> []"
  shows "key = composeClientKey user (if raw = [] then runID else raw)"
    and "\<exists>i. cr_clients cr' = al_put key i (cr_clients cr) \<and> ci_RunID i = runID \<and> Online i \<and> RawClientID i = raw \<and>
      ci_Key i = (case map_of (cr_clients cr) key of None \<Rightarrow> key | Some j \<Rightarrow> ci_Key j)"
    and "runIndex cr' = (case map_of (cr_clients cr) key of None \<Rightarrow> runIndex cr
       | Some j \<Rightarrow> if ci_RunID j \<noteq> [] then (runIndex cr)(ci_RunID j := None) else runIndex cr)(runID \<mapsto> key)"
  using assms by (auto simp: Registry_Register_def Let_def split: if_splits option.splits)

lemma reg_inv_Register:
  assumes inv: "reg_inv cr"
  shows "reg_inv (snd (Registry_Register now cr user raw runID host version addr wp))"
proof -
  obtain key conflict cr' where reg: "Registry_Register now cr user raw runID host version addr wp = ((key, conflict), cr')"
    by (metis surj_pair)
  show ?thesis
  proof (cases "conflict \<or> runID = []")
    case True
    then have "cr' = cr"
      using reg by (auto simp: Registry_Register_def Let_def split: if_splits option.splits)
    then show ?thesis using reg inv by simp
  next
    case False
    then have reg': "Registry_Register now cr user raw runID host version addr wp = ((key, False), cr')" "runID \<noteq> []"
      using reg by auto
    obtain i where i: "cr_clients cr' = al_put key i (cr_clients cr)" "ci_RunID i = runID" "Online i" "RawClientID i = raw"
        "ci_Key i = key"
      using Registry_Register_ok(2) [OF reg'] reg_invD(1) [OF inv, of key] by (auto split: option.splits)
    have clients: "map_of (cr_clients cr') = (map_of (cr_clients cr))(key \<mapsto> i)" using i(1) by simp
    have index: "r \<noteq> [] \<and> (\<exists>i. map_of (cr_clients cr') k = Some i \<and> ci_RunID i = r)" if "runIndex cr' r = Some k" for r k
    proof (cases "r = runID")
      case True
      then show ?thesis
        using that reg'(2) i clients Registry_Register_ok(3) [OF reg'] by simp
    next
      case ne: False
      then have old: "runIndex cr r = Some k"
        using that Registry_Register_ok(3) [OF reg'] by (auto split: option.splits if_splits)
      then obtain j where j: "map_of (cr_clients cr) k = Some j" "ci_RunID j = r" "r \<noteq> []"
        using reg_invD(2) [OF inv] by blast
      then have "k \<noteq> key"
        using that ne Registry_Register_ok(3) [OF reg'] by auto
      then show ?thesis using j clients by simp
    qed
    have "distinct (al_keys (cr_clients cr'))"
      using inv i(1) by (simp add: reg_inv_def)
    moreover have "ci_Key j = k \<and> (Online j \<longleftrightarrow> ci_RunID j \<noteq> []) \<and> (RawClientID j = [] \<longrightarrow> Online j)"
      if "map_of (cr_clients cr') k = Some j" for k j
      using that i reg'(2) clients reg_invD(1) [OF inv] by (auto split: if_splits)
    ultimately have "reg_inv cr'"
      using index unfolding reg_inv_def reg_ok_def by blast
    then show ?thesis using reg by simp
  qed
qed

lemma reg_inv_offline:
  assumes inv: "reg_inv cr"
  shows "reg_inv (MarkOfflineByRunID now cr runID)"
proof (cases "runIndex cr runID")
  case (Some key)
  then obtain i where i: "map_of (cr_clients cr) key = Some i" "ci_RunID i = runID" "runID \<noteq> []"
    using reg_invD(2) [OF inv] by blast
  have ok: "reg_ok (map_of (cr_clients cr)) (runIndex cr)" "distinct (al_keys (cr_clients cr))"
    using inv by (simp_all add: reg_inv_def)
  have other: "k \<noteq> key" if "runIndex cr r = Some k" "r \<noteq> runID" for r k
    using reg_invD(2) [OF inv that(1)] that(2) i by auto
  have put: "reg_ok ((map_of (cr_clients cr))(key := v)) ((runIndex cr)(runID := None))"
    if "\<And>j. v = Some j \<Longrightarrow> ci_Key j = key \<and> (Online j \<longleftrightarrow> ci_RunID j \<noteq> []) \<and> (RawClientID j = [] \<longrightarrow> Online j)" for v
    using ok(1) other that unfolding reg_ok_def by (simp split: if_splits) blast
  show ?thesis
    using Some i ok(2) reg_invD(1) [OF inv i(1)] put [of None]
      put [of "Some (i\<lparr>ci_RunID := [], Online := False, DisconnectedAt := now\<rparr>)"]
    by (simp add: reg_inv_def MarkOfflineByRunID_def Let_def)
qed (simp add: MarkOfflineByRunID_def inv)

lemma reg_inv_reach:
  assumes "reg_step\<^sup>*\<^sup>* NewClientRegistry cr"
  shows "reg_inv cr"
  using assms
  by (induction rule: rtranclp_induct) (auto simp: reg_inv_new reg_inv_Register reg_inv_offline elim: reg_step.cases)

section \<open>Properties\<close>

lemma Registry_Register_conflict:
  assumes "runID \<noteq> []" "raw \<noteq> []"
  shows "snd (fst (Registry_Register now cr user raw runID host version addr wp)) \<longleftrightarrow>
    (\<exists>i. map_of (cr_clients cr) (composeClientKey user raw) = Some i \<and> Online i \<and> ci_RunID i \<noteq> [] \<and> ci_RunID i \<noteq> runID)"
  using assms by (auto simp: Registry_Register_def Let_def split: option.splits if_splits prod.splits)

lemma Registry_Register_refused:
  "snd (fst (Registry_Register now cr user raw runID host version addr wp)) \<Longrightarrow>
    snd (Registry_Register now cr user raw runID host version addr wp) = cr"
  by (auto simp: Registry_Register_def Let_def split: option.splits if_splits prod.splits)

text \<open>
  C25. One connection per client identifier: in every registry that registrations and disconnections lead to, a run with a client
  identifier is refused exactly if another run is online under the key of that user and identifier, and then nothing changes;
  otherwise the key is online for this run, the run is indexed, and no other run is indexed under the key.
\<close>

theorem registry_one_run:
  assumes "reg_step\<^sup>*\<^sup>* NewClientRegistry cr" "runID \<noteq> []" "raw \<noteq> []"
    and "Registry_Register now cr user raw runID host version addr wp = ((key, conflict), cr')"
  shows "key = composeClientKey user raw \<and>
    (conflict \<longleftrightarrow> (\<exists>i. map_of (cr_clients cr) key = Some i \<and> Online i \<and> ci_RunID i \<noteq> runID)) \<and>
    (if conflict then cr' = cr
      else (\<exists>i. Registry_GetByKey cr' key = (i, True) \<and> Online i \<and> ci_RunID i = runID \<and> ClientInfo_ClientID i = raw) \<and>
        (\<forall>r. runIndex cr' r = Some key \<longleftrightarrow> r = runID))"
proof (intro conjI)
  have inv: "reg_inv cr" using reg_inv_reach assms(1) by simp
  show key: "key = composeClientKey user raw"
    using assms(2-4) by (auto simp: Registry_Register_def Let_def split: if_splits option.splits)
  have "conflict \<longleftrightarrow> (\<exists>i. map_of (cr_clients cr) key = Some i \<and> Online i \<and> ci_RunID i \<noteq> [] \<and> ci_RunID i \<noteq> runID)"
    using Registry_Register_conflict [OF assms(2,3), of now cr user host version addr wp] assms(4) key by simp
  then show "conflict \<longleftrightarrow> (\<exists>i. map_of (cr_clients cr) key = Some i \<and> Online i \<and> ci_RunID i \<noteq> runID)"
    using reg_invD(1) [OF inv, of key] by blast
  show "if conflict then cr' = cr
      else (\<exists>i. Registry_GetByKey cr' key = (i, True) \<and> Online i \<and> ci_RunID i = runID \<and> ClientInfo_ClientID i = raw) \<and>
        (\<forall>r. runIndex cr' r = Some key \<longleftrightarrow> r = runID)"
  proof (cases conflict)
    case True
    then show ?thesis
      using Registry_Register_refused [of now cr user raw runID host version addr wp] assms(4) by simp
  next
    case False
    then have reg: "Registry_Register now cr user raw runID host version addr wp = ((key, False), cr')" using assms(4) by simp
    obtain i where i: "cr_clients cr' = al_put key i (cr_clients cr)" "ci_RunID i = runID" "Online i" "RawClientID i = raw"
      using Registry_Register_ok(2) [OF reg assms(2)] by blast
    have get: "map_of (cr_clients cr') key = Some i" using i(1) by simp
    have "reg_inv cr'"
      using reg_inv_Register [OF inv, of now user raw runID host version addr wp] reg by simp
    then have "runIndex cr' r = Some key \<longrightarrow> r = runID" for r
      using reg_invD(2) [of cr' r key] get i(2) by auto
    moreover have "runIndex cr' runID = Some key"
      using Registry_Register_ok(3) [OF reg assms(2)] by simp
    moreover have "Registry_GetByKey cr' key = (i, True)" "ClientInfo_ClientID i = raw"
      using get i(4) assms(3) by (simp_all add: Registry_GetByKey_def ClientInfo_ClientID_def)
    ultimately have "(\<exists>i. Registry_GetByKey cr' key = (i, True) \<and> Online i \<and> ci_RunID i = runID \<and> ClientInfo_ClientID i = raw) \<and>
        (\<forall>r. runIndex cr' r = Some key \<longleftrightarrow> r = runID)"
      using i(2,3) by blast
    then show ?thesis using False by simp
  qed
qed

abbreviation demo_registry :: ClientRegistry where
  "demo_registry \<equiv> snd (Registry_Register 1 NewClientRegistry (str ''u'') (str ''c'') (str ''r1'') [] [] [] [])"

theorem registry_one_run_witness:
  "\<exists>i. map_of (cr_clients demo_registry) (str ''u.c'') = Some i \<and> Online i \<and> ci_RunID i \<noteq> str ''r2''"
proof -
  have "reg_step\<^sup>*\<^sup>* NewClientRegistry demo_registry"
    using reg_step.register by (rule r_into_rtranclp)
  moreover have "str ''r2'' \<noteq> []" "str ''c'' \<noteq> []" by (simp_all add: str_def)
  moreover have "fst (Registry_Register 2 demo_registry (str ''u'') (str ''c'') (str ''r2'') [] [] [] []) = (str ''u.c'', True)"
    by code_simp
  then have "Registry_Register 2 demo_registry (str ''u'') (str ''c'') (str ''r2'') [] [] [] [] =
      ((str ''u.c'', True), snd (Registry_Register 2 demo_registry (str ''u'') (str ''c'') (str ''r2'') [] [] [] []))"
    by (metis prod.collapse)
  ultimately show ?thesis using registry_one_run by blast
qed

text \<open>
  A client identifier is free again after a disconnection: when the control of the run that holds a key ends, the next run with
  the same user and identifier is accepted, whatever its run identifier.
\<close>

lemma registry_offline_frees:
  assumes "runID \<noteq> []" "raw \<noteq> []" "runID' \<noteq> []"
    and "Registry_Register now cr user raw runID host version addr wp = ((key, False), cr')"
  shows "fst (Registry_Register now'' (MarkOfflineByRunID now' cr' runID) user raw runID' host' version' addr' wp') = (key, False)"
proof -
  obtain i where i: "cr_clients cr' = al_put key i (cr_clients cr)" "ci_RunID i = runID" "RawClientID i = raw"
    using Registry_Register_ok(2) [OF assms(4,1)] by blast
  have "runIndex cr' runID = Some key" "key = composeClientKey user raw"
    using Registry_Register_ok(1,3) [OF assms(4,1)] assms(2) by simp_all
  then show ?thesis
    using i assms(2,3) by (simp add: MarkOfflineByRunID_def Registry_Register_def Let_def)
qed

lemma registry_offline_frees_witness:
  "fst (Registry_Register 3 (MarkOfflineByRunID 2 demo_registry (str ''r1'')) (str ''u'') (str ''c'') (str ''r2'') [] [] [] []) =
    (str ''u.c'', False)"
proof -
  have "str ''r1'' \<noteq> []" "str ''r2'' \<noteq> []" "str ''c'' \<noteq> []" by (simp_all add: str_def)
  moreover have "fst (Registry_Register 1 NewClientRegistry (str ''u'') (str ''c'') (str ''r1'') [] [] [] []) = (str ''u.c'', False)"
    by code_simp
  then have "Registry_Register 1 NewClientRegistry (str ''u'') (str ''c'') (str ''r1'') [] [] [] [] = ((str ''u.c'', False), demo_registry)"
    by (metis prod.collapse)
  ultimately show ?thesis using registry_offline_frees by blast
qed

text \<open>
  The key joins user and identifier with a dot and is not injective, because either may contain one: a client of one user is then
  taken for a client of another user.
\<close>

lemma composeClientKey_clash:
  assumes "a \<noteq> []" "c \<noteq> []"
  shows "composeClientKey a (b @ 0x2E # c) = composeClientKey (a @ 0x2E # b) c"
  using assms by (simp add: composeClientKey_def)

lemma registry_user_blocks_user:
  "fst (Registry_Register 2 (snd (Registry_Register 1 NewClientRegistry (str ''a'') (str ''b.c'') (str ''r1'') [] [] [] []))
    (str ''a.b'') (str ''c'') (str ''r2'') [] [] [] []) = (str ''a.b.c'', True)"
  by code_simp

text \<open>
  A run that registers again under another identifier leaves its first record online: the index knows only the second one, so no
  disconnection ends the first, and its identifier stays taken.
\<close>

lemma registry_stale_online:
  assumes "composeClientKey user raw1 \<noteq> composeClientKey user raw2" "runID \<noteq> []" "runID' \<noteq> []" "runID' \<noteq> runID" "raw1 \<noteq> []" "raw2 \<noteq> []"
    and "cr1 = snd (Registry_Register t1 NewClientRegistry user raw1 runID h v a w)"
    and "cr2 = snd (Registry_Register t2 cr1 user raw2 runID h v a w)"
    and "cr3 = MarkOfflineByRunID t3 cr2 runID"
  shows "snd (fst (Registry_Register t4 cr3 user raw1 runID' h v a w))"
proof -
  let ?k1 = "composeClientKey user raw1" and ?k2 = "composeClientKey user raw2"
  obtain i where 1: "cr_clients cr1 = [(?k1, i)]" "runIndex cr1 = [runID \<mapsto> ?k1]" "ci_RunID i = runID" "Online i"
    using assms(2,5,7) by (simp add: Registry_Register_def NewClientRegistry_def Let_def)
  obtain j where 2: "cr_clients cr2 = [(?k1, i), (?k2, j)]" "runIndex cr2 = [runID \<mapsto> ?k2]" "ci_RunID j = runID" "RawClientID j = raw2"
    using assms(1,2,6,8) 1(1,2) by (simp add: Registry_Register_def Let_def)
  have "map_of (cr_clients cr3) ?k1 = Some i"
    using assms(1,6,9) 2 by (simp add: MarkOfflineByRunID_def Let_def)
  then show ?thesis
    using Registry_Register_conflict [OF assms(3,5)] 1(3,4) assms(2,4) by auto
qed

end
