(* ===== verification/Frp_Control.thy ===== *)
theory Frp_Control
  imports Frp_Registry
begin

text \<open>
  \<^verbatim>\<open>src/frp/server/control.go\<close>, \<^verbatim>\<open>RegisterControl\<close> and \<^verbatim>\<open>handleConnection\<close> of \<^verbatim>\<open>server/service.go\<close>, and the proxy manager of
  \<^verbatim>\<open>server/proxy/proxy.go\<close>: the controls of the connected clients.

  A \<^verbatim>\<open>*Control\<close> is compared by identity, so controls live in a store and are named by their address.  A login is not atomic:
  it adds its control, waits for the control it replaces, registers the client, answers, and starts the control.  \<open>c_phase\<close> says
  how far the login of a control has come, \<open>c_pending\<close> holds the proxy that its message handler is about to start, and \<open>svc_step\<close>
  interleaves the logins, handlers and workers of all controls.  The outcome of a proxy's start, of authentication and of writes
  to connections are arguments.
\<close>

section \<open>State\<close>

record Login =
  l_User :: bytes
  l_ClientID :: bytes
  l_RunID :: bytes
  l_PoolCount :: int
  l_Hostname :: bytes
  l_Version :: bytes

record Proxy =
  p_Name :: bytes
  p_usedPortsNum :: int

record ServerCfg =
  MaxPortsPerClient :: int
  MaxPoolCount :: int
  HeartbeatTimeout :: int

datatype login_phase = Waiting "nat option" | Registered | Started | Refused

record Control =
  c_login :: Login
  c_runID :: bytes
  c_poolCount :: int
  c_cap :: int
  workConnCh :: "nat list"
  c_chClosed :: bool
  c_proxies :: "(bytes \<times> Proxy) list"
  portsUsedNum :: int
  lastPing :: int
  c_connClosed :: bool
  c_done :: bool
  c_phase :: login_phase
  c_pending :: "Proxy option"

record Service =
  ctls :: "Control list"
  ctlsByRunID :: "bytes \<rightharpoonup> nat"
  clientRegistry :: ClientRegistry
  pxys :: "bytes \<rightharpoonup> Proxy"

datatype ctl_error = ErrPanic | ErrAuth | ErrAlreadyOnline | ErrPoolFull | ErrCtlClosed | ErrAlreadyClosed | ErrTimeout
  | ErrMaxPorts | ErrProxyExists | ErrProxyRun | ErrProxyInUse

definition NewService :: Service where
  "NewService = \<lparr>ctls = [], ctlsByRunID = Map.empty, clientRegistry = NewClientRegistry, pxys = Map.empty\<rparr>"

definition ctl_upd :: "nat \<Rightarrow> (Control \<Rightarrow> Control) \<Rightarrow> Service \<Rightarrow> Service" where
  "ctl_upd a f svr = svr\<lparr>ctls := (ctls svr)[a := f (ctls svr ! a)]\<rparr>"

section \<open>The manager of controls\<close>

definition Replaced :: "Control \<Rightarrow> Control" where
  "Replaced c = c\<lparr>c_runID := [], c_connClosed := True\<rparr>"

definition ControlManager_Add :: "bytes \<Rightarrow> nat \<Rightarrow> Service \<Rightarrow> nat option \<times> Service" where
  "ControlManager_Add runID ctl svr =
    (let old = ctlsByRunID svr runID;
         svr = (case old of None \<Rightarrow> svr | Some o' \<Rightarrow> ctl_upd o' Replaced svr)
     in (old, svr\<lparr>ctlsByRunID := (ctlsByRunID svr)(runID \<mapsto> ctl)\<rparr>))"

definition ControlManager_Del :: "bytes \<Rightarrow> nat \<Rightarrow> Service \<Rightarrow> Service" where
  "ControlManager_Del runID ctl svr =
    (if ctlsByRunID svr runID = Some ctl then svr\<lparr>ctlsByRunID := (ctlsByRunID svr)(runID := None)\<rparr> else svr)"

definition ControlManager_GetByID :: "Service \<Rightarrow> bytes \<Rightarrow> nat option" where
  "ControlManager_GetByID svr runID = ctlsByRunID svr runID"

definition Control_Close :: "Control \<Rightarrow> Control" where
  "Control_Close c = c\<lparr>c_connClosed := True\<rparr>"

text \<open>A control is in the map under the run identifier of its login, which decides whether it is closed.\<close>

definition ControlManager_Close :: "Service \<Rightarrow> Service" where
  "ControlManager_Close svr =
    svr\<lparr>ctls := map (\<lambda>(a, c). if ctlsByRunID svr (l_RunID (c_login c)) = Some a then Control_Close c else c)
         (enumerate 0 (ctls svr)), ctlsByRunID := Map.empty\<rparr>"

section \<open>Logging in\<close>

definition NewControl :: "int \<Rightarrow> ServerCfg \<Rightarrow> Login \<Rightarrow> ctl_error + Control" where
  "NewControl now cfg login =
    (let poolCount = min (l_PoolCount login) (MaxPoolCount cfg) in
     if poolCount + 10 < 0 then Inl ErrPanic
     else Inr \<lparr>c_login = login, c_runID = l_RunID login, c_poolCount = poolCount, c_cap = poolCount + 10, workConnCh = [],
       c_chClosed = False, c_proxies = [], portsUsedNum = 0, lastPing = now, c_connClosed = False, c_done = False,
       c_phase = Waiting None, c_pending = None\<rparr>)"

text \<open>
  \<^verbatim>\<open>RegisterControl\<close> up to the point where it waits for the control it replaces; \<open>randID\<close> is the result of \<^verbatim>\<open>util.RandID\<close>.
\<close>

definition RegisterControl_add ::
  "int \<Rightarrow> ServerCfg \<Rightarrow> bytes \<Rightarrow> (Login \<Rightarrow> bool) \<Rightarrow> Login \<Rightarrow> Service \<Rightarrow> (ctl_error + nat) \<times> Service" where
  "RegisterControl_add now cfg randID verify loginMsg svr =
    (let loginMsg = (if l_RunID loginMsg = [] then loginMsg\<lparr>l_RunID := randID\<rparr> else loginMsg) in
     if \<not> verify loginMsg then (Inl ErrAuth, svr)
     else case NewControl now cfg loginMsg of
       Inl e \<Rightarrow> (Inl e, svr)
     | Inr ctl \<Rightarrow>
         let a = length (ctls svr);
             svr = svr\<lparr>ctls := ctls svr @ [ctl]\<rparr>;
             (old, svr) = ControlManager_Add (l_RunID loginMsg) a svr
         in (Inr a, ctl_upd a (\<lambda>c. c\<lparr>c_phase := Waiting old\<rparr>) svr))"

text \<open>The rest of \<^verbatim>\<open>RegisterControl\<close>, after \<^verbatim>\<open>WaitClosed\<close>.\<close>

definition RegisterControl_register :: "int \<Rightarrow> bytes \<Rightarrow> bytes \<Rightarrow> nat \<Rightarrow> Service \<Rightarrow> ctl_error option \<times> Service" where
  "RegisterControl_register now remoteAddr wireProtocol a svr =
    (let login = c_login (ctls svr ! a) in
     case Registry_Register now (clientRegistry svr) (l_User login) (l_ClientID login) (l_RunID login) (l_Hostname login)
         (l_Version login) remoteAddr wireProtocol of
       ((_, True), cr) \<Rightarrow>
         (Some ErrAlreadyOnline,
          ctl_upd a (\<lambda>c. c\<lparr>c_phase := Refused\<rparr>) (ControlManager_Del (l_RunID login) a (svr\<lparr>clientRegistry := cr\<rparr>)))
     | ((_, False), cr) \<Rightarrow> (None, ctl_upd a (\<lambda>c. c\<lparr>c_phase := Registered\<rparr>) (svr\<lparr>clientRegistry := cr\<rparr>)))"

text \<open>\<^verbatim>\<open>handleConnection\<close> writes the response and starts the control, or gives it up.\<close>

definition handleConnection_respond :: "int \<Rightarrow> bool \<Rightarrow> nat \<Rightarrow> Service \<Rightarrow> Service" where
  "handleConnection_respond now written a svr =
    (let runID = l_RunID (c_login (ctls svr ! a)) in
     if \<not> written then
       ctl_upd a (\<lambda>c. c\<lparr>c_phase := Refused, c_connClosed := True\<rparr>)
         ((ControlManager_Del runID a svr)\<lparr>clientRegistry := MarkOfflineByRunID now (clientRegistry svr) runID\<rparr>)
     else ctl_upd a (\<lambda>c. c\<lparr>c_phase := Started\<rparr>) svr)"

section \<open>Work connections\<close>

text \<open>
  A send on a closed channel panics; the deferred function of \<^verbatim>\<open>RegisterWorkConn\<close> recovers and the result is the zero value, no
  error.
\<close>

definition Control_RegisterWorkConn :: "nat \<Rightarrow> Control \<Rightarrow> ctl_error option \<times> Control" where
  "Control_RegisterWorkConn conn c =
    (if c_chClosed c then (None, c)
     else if int (length (workConnCh c)) < c_cap c then (None, c\<lparr>workConnCh := workConnCh c @ [conn]\<rparr>)
     else (Some ErrPoolFull, c))"

datatype wait_result = Got nat | ChClosed | Timeout

text \<open>\<open>send_ok\<close>: whether the dispatcher accepts a request; \<open>w\<close>: what the second \<^verbatim>\<open>select\<close> sees.\<close>

definition GetWorkConn :: "bool \<Rightarrow> wait_result \<Rightarrow> Control \<Rightarrow> (ctl_error + nat) \<times> Control" where
  "GetWorkConn send_ok w c =
    (case workConnCh c of
       conn # rest \<Rightarrow> (Inr conn, c\<lparr>workConnCh := rest\<rparr>)
     | [] \<Rightarrow>
        if c_chClosed c then (Inl ErrCtlClosed, c)
        else if \<not> send_ok then (Inl ErrAlreadyClosed, c)
        else (case w of
            Got conn \<Rightarrow> (Inr conn, c)
          | ChClosed \<Rightarrow> (Inl ErrCtlClosed, c)
          | Timeout \<Rightarrow> (Inl ErrTimeout, c)))"

definition heartbeat_check :: "int \<Rightarrow> ServerCfg \<Rightarrow> Control \<Rightarrow> Control" where
  "heartbeat_check now cfg c =
    (if HeartbeatTimeout cfg \<le> 0 then c
     else if now - lastPing c > HeartbeatTimeout cfg then c\<lparr>c_connClosed := True\<rparr>
     else c)"

definition handlePing :: "int \<Rightarrow> bool \<Rightarrow> Control \<Rightarrow> Control" where
  "handlePing now valid c = (if \<not> valid then c else c\<lparr>lastPing := now\<rparr>)"

section \<open>Proxies\<close>

definition PxyManager_Add :: "bytes \<Rightarrow> Proxy \<Rightarrow> (bytes \<rightharpoonup> Proxy) \<Rightarrow> (bytes \<rightharpoonup> Proxy) option" where
  "PxyManager_Add name pxy pm = (if pm name \<noteq> None then None else Some (pm(name \<mapsto> pxy)))"

definition PxyManager_Del :: "bytes \<Rightarrow> (bytes \<rightharpoonup> Proxy) \<Rightarrow> (bytes \<rightharpoonup> Proxy)" where
  "PxyManager_Del name pm = pm(name := None)"

text \<open>\<^verbatim>\<open>RegisterProxy\<close> up to \<^verbatim>\<open>pxy.Run\<close>: the limit of ports and the check of the name, which undoes the reservation.\<close>

definition RegisterProxy_reserve :: "ServerCfg \<Rightarrow> nat \<Rightarrow> Proxy \<Rightarrow> Service \<Rightarrow> ctl_error option \<times> Service" where
  "RegisterProxy_reserve cfg a pxy svr =
    (let c = ctls svr ! a in
     if MaxPortsPerClient cfg > 0 \<and> portsUsedNum c + p_usedPortsNum pxy > MaxPortsPerClient cfg then (Some ErrMaxPorts, svr)
     else if pxys svr (p_Name pxy) \<noteq> None then (Some ErrProxyExists, svr)
     else (None, ctl_upd a (\<lambda>c. c\<lparr>c_pending := Some pxy,
         portsUsedNum := (if MaxPortsPerClient cfg > 0 then portsUsedNum c + p_usedPortsNum pxy else portsUsedNum c)\<rparr>) svr))"

text \<open>The rest of \<^verbatim>\<open>RegisterProxy\<close>; \<open>started\<close> is whether \<^verbatim>\<open>pxy.Run\<close> succeeded.\<close>

definition RegisterProxy_run :: "ServerCfg \<Rightarrow> bool \<Rightarrow> nat \<Rightarrow> Service \<Rightarrow> ctl_error option \<times> Service" where
  "RegisterProxy_run cfg started a svr =
    (case c_pending (ctls svr ! a) of
       None \<Rightarrow> (None, svr)
     | Some pxy \<Rightarrow>
        let undo = ctl_upd a (\<lambda>c. c\<lparr>c_pending := None,
              portsUsedNum := (if MaxPortsPerClient cfg > 0 then portsUsedNum c - p_usedPortsNum pxy else portsUsedNum c)\<rparr>)
        in if \<not> started then (Some ErrProxyRun, undo svr)
        else case PxyManager_Add (p_Name pxy) pxy (pxys svr) of
          None \<Rightarrow> (Some ErrProxyInUse, undo svr)
        | Some pm \<Rightarrow>
            (None, ctl_upd a (\<lambda>c. c\<lparr>c_pending := None, c_proxies := al_put (p_Name pxy) pxy (c_proxies c)\<rparr>) (svr\<lparr>pxys := pm\<rparr>)))"

definition CloseProxy :: "ServerCfg \<Rightarrow> nat \<Rightarrow> bytes \<Rightarrow> Service \<Rightarrow> Service" where
  "CloseProxy cfg a name svr =
    (case map_of (c_proxies (ctls svr ! a)) name of
       None \<Rightarrow> svr
     | Some pxy \<Rightarrow>
        let svr = ctl_upd a (\<lambda>c. c\<lparr>c_proxies := al_del name (c_proxies c),
              portsUsedNum := (if MaxPortsPerClient cfg > 0 then portsUsedNum c - p_usedPortsNum pxy else portsUsedNum c)\<rparr>) svr
        in svr\<lparr>pxys := PxyManager_Del (p_Name pxy) (pxys svr)\<rparr>)"

text \<open>The end of \<^verbatim>\<open>worker\<close>, after the dispatcher is done.\<close>

definition worker_exit :: "int \<Rightarrow> nat \<Rightarrow> Service \<Rightarrow> Service" where
  "worker_exit now a svr =
    (let c = ctls svr ! a;
         svr = svr\<lparr>pxys := fold (\<lambda>(_, pxy). PxyManager_Del (p_Name pxy)) (c_proxies c) (pxys svr),
           clientRegistry := MarkOfflineByRunID now (clientRegistry svr) (c_runID c)\<rparr>
     in ctl_upd a (\<lambda>c. c\<lparr>c_connClosed := True, c_chClosed := True, workConnCh := [], c_proxies := [], c_done := True\<rparr>) svr)"

section \<open>Interleaving\<close>

inductive svc_step :: "ServerCfg \<Rightarrow> Service \<Rightarrow> Service \<Rightarrow> bool" for cfg where
  login: "randID \<noteq> [] \<Longrightarrow> RegisterControl_add now cfg randID verify loginMsg svr = (r, svr') \<Longrightarrow> svc_step cfg svr svr'"
| register: "a < length (ctls svr) \<Longrightarrow> c_phase (ctls svr ! a) = Waiting old \<Longrightarrow>
    (case old of None \<Rightarrow> True | Some b \<Rightarrow> c_done (ctls svr ! b)) \<Longrightarrow>
    RegisterControl_register now addr wp a svr = (r, svr') \<Longrightarrow> svc_step cfg svr svr'"
| respond: "a < length (ctls svr) \<Longrightarrow> c_phase (ctls svr ! a) = Registered \<Longrightarrow> (written \<longrightarrow> \<not> c_connClosed (ctls svr ! a)) \<Longrightarrow>
    svc_step cfg svr (handleConnection_respond now written a svr)"
| work_conn: "a < length (ctls svr) \<Longrightarrow> svc_step cfg svr (ctl_upd a (\<lambda>c. snd (Control_RegisterWorkConn conn c)) svr)"
| get_work_conn: "a < length (ctls svr) \<Longrightarrow> svc_step cfg svr (ctl_upd a (\<lambda>c. snd (GetWorkConn ok w c)) svr)"
| ping: "a < length (ctls svr) \<Longrightarrow> svc_step cfg svr (ctl_upd a (handlePing now valid) svr)"
| heartbeat: "a < length (ctls svr) \<Longrightarrow> svc_step cfg svr (ctl_upd a (heartbeat_check now cfg) svr)"
| reserve: "a < length (ctls svr) \<Longrightarrow> c_phase (ctls svr ! a) = Started \<Longrightarrow> \<not> c_done (ctls svr ! a) \<Longrightarrow> c_pending (ctls svr ! a) = None \<Longrightarrow>
    0 \<le> p_usedPortsNum pxy \<Longrightarrow> RegisterProxy_reserve cfg a pxy svr = (r, svr') \<Longrightarrow> svc_step cfg svr svr'"
| run: "a < length (ctls svr) \<Longrightarrow> RegisterProxy_run cfg started a svr = (r, svr') \<Longrightarrow> svc_step cfg svr svr'"
| close_proxy: "a < length (ctls svr) \<Longrightarrow> c_pending (ctls svr ! a) = None \<Longrightarrow> svc_step cfg svr (CloseProxy cfg a name svr)"
| exit: "a < length (ctls svr) \<Longrightarrow> c_phase (ctls svr ! a) = Started \<Longrightarrow> \<not> c_done (ctls svr ! a) \<Longrightarrow> c_pending (ctls svr ! a) = None \<Longrightarrow>
    svc_step cfg svr (worker_exit now a svr)"
| delete: "a < length (ctls svr) \<Longrightarrow> c_done (ctls svr ! a) \<Longrightarrow>
    svc_step cfg svr (ControlManager_Del (l_RunID (c_login (ctls svr ! a))) a svr)"

definition live :: "Control \<Rightarrow> bool" where
  "live c \<longleftrightarrow> c_runID c \<noteq> [] \<and> c_phase c \<noteq> Refused \<and> \<not> c_done c"

definition ports_of :: "Control \<Rightarrow> int" where
  "ports_of c = sum_list (map (\<lambda>(_, p). p_usedPortsNum p) (c_proxies c)) +
    (case c_pending c of None \<Rightarrow> 0 | Some p \<Rightarrow> p_usedPortsNum p)"

definition ctl_ok :: "ServerCfg \<Rightarrow> Control \<Rightarrow> bool" where
  "ctl_ok cfg c \<longleftrightarrow> distinct (al_keys (c_proxies c)) \<and>
    (\<forall>(n, p)\<in>set (c_proxies c). p_Name p = n) \<and>
    (MaxPortsPerClient cfg > 0 \<and> \<not> c_done c \<longrightarrow> portsUsedNum c = ports_of c \<and> ports_of c \<le> MaxPortsPerClient cfg) \<and>
    (\<forall>p\<in>set_option (c_pending c) \<union> snd ` set (c_proxies c). 0 \<le> p_usedPortsNum p) \<and>
    int (length (workConnCh c)) \<le> c_cap c \<and>
    (c_phase c \<noteq> Started \<or> c_done c \<longrightarrow> c_proxies c = [] \<and> c_pending c = None) \<and>
    l_RunID (c_login c) \<noteq> [] \<and> (c_runID c = [] \<or> c_runID c = l_RunID (c_login c))"

definition owned :: "Service \<Rightarrow> nat \<Rightarrow> bytes \<rightharpoonup> Proxy" where
  "owned svr a = (if a < length (ctls svr) then map_of (c_proxies (ctls svr ! a)) else Map.empty)"

definition names_ok :: "Service \<Rightarrow> bool" where
  "names_ok svr \<longleftrightarrow> (\<forall>n p. pxys svr n = Some p \<longleftrightarrow> (\<exists>a. owned svr a n = Some p)) \<and>
    (\<forall>n a b. owned svr a n \<noteq> None \<longrightarrow> owned svr b n \<noteq> None \<longrightarrow> a = b)"

definition table_ok :: "Service \<Rightarrow> bool" where
  "table_ok svr \<longleftrightarrow>
    (\<forall>r a. ctlsByRunID svr r = Some a \<longrightarrow> a < length (ctls svr) \<and> c_runID (ctls svr ! a) = r \<and> l_RunID (c_login (ctls svr ! a)) = r) \<and>
    (\<forall>a<length (ctls svr). live (ctls svr ! a) \<longrightarrow> ctlsByRunID svr (c_runID (ctls svr ! a)) = Some a)"

definition svc_inv :: "ServerCfg \<Rightarrow> Service \<Rightarrow> bool" where
  "svc_inv cfg svr \<longleftrightarrow> (\<forall>a<length (ctls svr). ctl_ok cfg (ctls svr ! a)) \<and> names_ok svr \<and> table_ok svr"

lemma ctl_upd_simps [simp]:
  "length (ctls (ctl_upd a f svr)) = length (ctls svr)"
  "ctlsByRunID (ctl_upd a f svr) = ctlsByRunID svr"
  "clientRegistry (ctl_upd a f svr) = clientRegistry svr"
  "pxys (ctl_upd a f svr) = pxys svr"
  by (simp_all add: ctl_upd_def)

lemma ctl_upd_nth: "a < length (ctls svr) \<Longrightarrow> ctls (ctl_upd a f svr) ! b = (if b = a then f (ctls svr ! a) else ctls svr ! b)"
  by (auto simp: ctl_upd_def nth_list_update)

lemma owned_upd:
  "a < length (ctls svr) \<Longrightarrow> owned (ctl_upd a f svr) b = (if b = a then map_of (c_proxies (f (ctls svr ! a))) else owned svr b)"
  by (auto simp: owned_def ctl_upd_nth)

lemma svc_inv_registry [simp]: "svc_inv cfg (svr\<lparr>clientRegistry := cr\<rparr>) = svc_inv cfg svr"
  by (simp add: svc_inv_def names_ok_def table_ok_def owned_def)

text \<open>A change of one control that keeps its proxies and identity.\<close>

lemma svc_inv_upd:
  assumes inv: "svc_inv cfg svr" and a: "a < length (ctls svr)"
    and f: "ctl_ok cfg (f (ctls svr ! a))" "c_proxies (f (ctls svr ! a)) = c_proxies (ctls svr ! a)"
      "c_login (f (ctls svr ! a)) = c_login (ctls svr ! a)" "c_runID (f (ctls svr ! a)) = c_runID (ctls svr ! a)"
      "live (f (ctls svr ! a)) \<Longrightarrow> live (ctls svr ! a)"
  shows "svc_inv cfg (ctl_upd a f svr)"
proof -
  have "owned (ctl_upd a f svr) = owned svr"
    using a f(2) by (auto simp: ctl_upd_nth owned_def fun_eq_iff)
  then have "names_ok (ctl_upd a f svr)"
    using inv by (simp add: svc_inv_def names_ok_def)
  moreover have "table_ok (ctl_upd a f svr)"
    using inv a f by (auto simp: svc_inv_def table_ok_def ctl_upd_nth)
  ultimately show ?thesis
    using inv a f(1) by (simp add: svc_inv_def ctl_upd_nth)
qed

lemma ControlManager_Del_simps [simp]:
  "ctls (ControlManager_Del r a svr) = ctls svr" "pxys (ControlManager_Del r a svr) = pxys svr"
  "clientRegistry (ControlManager_Del r a svr) = clientRegistry svr"
  by (simp_all add: ControlManager_Del_def)

lemma ControlManager_Del_commute:
  "ctl_upd b f (ControlManager_Del r a svr) = ControlManager_Del r a (ctl_upd b f svr)"
  by (simp add: ControlManager_Del_def ctl_upd_def)

lemma svc_inv_Del:
  assumes "svc_inv cfg svr" "a < length (ctls svr)" "\<not> live (ctls svr ! a)"
  shows "svc_inv cfg (ControlManager_Del r a svr)"
proof -
  have "table_ok (ControlManager_Del r a svr)"
    using assms by (auto simp: svc_inv_def table_ok_def ControlManager_Del_def)
  then show ?thesis
    using assms(1) by (simp add: svc_inv_def names_ok_def owned_def)
qed

lemma svc_invD:
  assumes "svc_inv cfg svr"
  shows "a < length (ctls svr) \<Longrightarrow> ctl_ok cfg (ctls svr ! a)" "names_ok svr" "table_ok svr"
  using assms by (simp_all add: svc_inv_def)

lemma NewControl_ok:
  assumes "NewControl now cfg login = Inr c" "l_RunID login \<noteq> []"
  shows "ctl_ok cfg c" "c_login c = login" "c_runID c = l_RunID login" "c_proxies c = []" "\<not> c_done c" "c_phase c = Waiting None"
  using assms by (auto simp: NewControl_def Let_def ctl_ok_def ports_of_def split: if_splits)

lemma ctl_ok_phase: "ctl_ok cfg c \<Longrightarrow> c_phase c \<noteq> Started \<Longrightarrow> ctl_ok cfg (c\<lparr>c_phase := ph\<rparr>)"
  by (simp add: ctl_ok_def ports_of_def)

lemma ctl_ok_Replaced: "ctl_ok cfg c \<Longrightarrow> ctl_ok cfg (Replaced c)"
  by (simp add: ctl_ok_def ports_of_def Replaced_def)

lemma Replaced_simps [simp]:
  "c_proxies (Replaced c) = c_proxies c" "c_login (Replaced c) = c_login c" "c_runID (Replaced c) = []" "\<not> live (Replaced c)"
  by (simp_all add: Replaced_def live_def)

text \<open>The service after a control was added.\<close>

lemma RegisterControl_add_ok:
  assumes "RegisterControl_add now cfg randID verify loginMsg svr = (Inr a, svr')" "randID \<noteq> []" "table_ok svr"
  obtains login c where "l_RunID login \<noteq> []" "NewControl now cfg login = Inr c" "a = length (ctls svr)"
    "length (ctls svr') = Suc a"
    "ctls svr' ! a = c\<lparr>c_phase := Waiting (ctlsByRunID svr (l_RunID login))\<rparr>"
    "\<forall>b<a. ctls svr' ! b = (if ctlsByRunID svr (l_RunID login) = Some b then Replaced (ctls svr ! b) else ctls svr ! b)"
    "ctlsByRunID svr' = (ctlsByRunID svr)(l_RunID login \<mapsto> a)" "pxys svr' = pxys svr" "clientRegistry svr' = clientRegistry svr"
proof -
  define login where "login = (if l_RunID loginMsg = [] then loginMsg\<lparr>l_RunID := randID\<rparr> else loginMsg)"
  note def = assms(1) [unfolded RegisterControl_add_def Let_def, folded login_def]
  obtain c where c: "NewControl now cfg login = Inr c" "verify login"
    using def by (auto split: if_splits sum.splits)
  let ?svr1 = "svr\<lparr>ctls := ctls svr @ [c]\<rparr>" and ?n = "length (ctls svr)"
  have old: "b < ?n" if "ctlsByRunID svr (l_RunID login) = Some b" for b
    using assms(3) that unfolding table_ok_def by blast
  have "a = ?n" and svr': "svr' = (case ControlManager_Add (l_RunID login) ?n ?svr1 of
      (old, s) \<Rightarrow> ctl_upd ?n (\<lambda>c. c\<lparr>c_phase := Waiting old\<rparr>) s)"
    using def c by (auto split: prod.splits)
  moreover have "l_RunID login \<noteq> []" using assms(2) by (simp add: login_def)
  ultimately show ?thesis
    using that [of login c] c(1) old unfolding svr' ControlManager_Add_def Let_def
    by (cases "ctlsByRunID svr (l_RunID login)") (simp_all add: ctl_upd_def nth_append nth_list_update)
qed

lemma svc_inv_login:
  assumes inv: "svc_inv cfg svr" and "randID \<noteq> []" "RegisterControl_add now cfg randID verify loginMsg svr = (r, svr')"
  shows "svc_inv cfg svr'"
proof (cases r)
  case (Inl e)
  then show ?thesis
    using assms by (auto simp: RegisterControl_add_def Let_def split: if_splits sum.splits prod.splits)
next
  case (Inr a)
  note tab = svc_invD(3) [OF inv]
  obtain login c where s: "l_RunID login \<noteq> []" "NewControl now cfg login = Inr c" "a = length (ctls svr)"
    "length (ctls svr') = Suc a"
    "ctls svr' ! a = c\<lparr>c_phase := Waiting (ctlsByRunID svr (l_RunID login))\<rparr>"
    "\<forall>b<a. ctls svr' ! b = (if ctlsByRunID svr (l_RunID login) = Some b then Replaced (ctls svr ! b) else ctls svr ! b)"
    "ctlsByRunID svr' = (ctlsByRunID svr)(l_RunID login \<mapsto> a)" "pxys svr' = pxys svr" "clientRegistry svr' = clientRegistry svr"
    by (rule RegisterControl_add_ok [OF assms(3) [unfolded Inr] assms(2) tab])
  note c = NewControl_ok [OF s(2,1)]
  have local: "ctl_ok cfg (ctls svr' ! b)" if "b < Suc a" for b
    using that s(3,5,6) svc_invD(1) [OF inv] ctl_ok_phase [OF c(1)] ctl_ok_Replaced c(6) by (cases "b = a") auto
  have "owned svr' = owned svr"
    using s c(4) by (auto simp: owned_def fun_eq_iff less_Suc_eq)
  then have "names_ok svr'"
    using svc_invD(2) [OF inv] s(8) by (simp add: names_ok_def)
  moreover have "table_ok svr'"
    unfolding table_ok_def
  proof (intro conjI allI impI)
    fix r b
    assume b: "ctlsByRunID svr' r = Some b"
    have "b < length (ctls svr') \<and> c_runID (ctls svr' ! b) = r \<and> l_RunID (c_login (ctls svr' ! b)) = r"
    proof (cases "r = l_RunID login")
      case True
      then have "b = a" using b s(7) by simp
      then show ?thesis using True s(4,5) c(2,3) by simp
    next
      case False
      then have old: "ctlsByRunID svr r = Some b" using b s(7) by simp
      then have b: "b < a" "c_runID (ctls svr ! b) = r" "l_RunID (c_login (ctls svr ! b)) = r"
        using tab s(3) unfolding table_ok_def by blast+
      then have "ctlsByRunID svr (l_RunID login) \<noteq> Some b"
        using tab False unfolding table_ok_def by metis
      then have "ctls svr' ! b = ctls svr ! b" using b(1) s(6) by simp
      then show ?thesis using b s(4) by simp
    qed
    then show "b < length (ctls svr')" "c_runID (ctls svr' ! b) = r" "l_RunID (c_login (ctls svr' ! b)) = r"
      by simp_all
  next
    fix b
    assume b: "b < length (ctls svr')" "live (ctls svr' ! b)"
    show "ctlsByRunID svr' (c_runID (ctls svr' ! b)) = Some b"
    proof (cases "b = a")
      case True
      then show ?thesis using s(5,7) c by simp
    next
      case False
      then have "b < a" using b s(4) by simp
      then have ne: "ctlsByRunID svr (l_RunID login) \<noteq> Some b" "ctls svr' ! b = ctls svr ! b" "live (ctls svr ! b)"
        using b(2) s(6) by (auto split: if_splits)
      then have "ctlsByRunID svr (c_runID (ctls svr ! b)) = Some b"
        using tab \<open>b < a\<close> s(3) unfolding table_ok_def by blast
      then show ?thesis using ne s(7) by auto
    qed
  qed
  ultimately show ?thesis
    using local s(4) by (simp add: svc_inv_def)
qed

lemma svc_inv_register:
  assumes inv: "svc_inv cfg svr" and a: "a < length (ctls svr)" "c_phase (ctls svr ! a) = Waiting old"
    and reg: "RegisterControl_register now addr wp a svr = (r, svr')"
  shows "svc_inv cfg svr'"
proof -
  have ok: "ctl_ok cfg ((ctls svr ! a)\<lparr>c_phase := ph\<rparr>)" for ph
    using ctl_ok_phase [OF svc_invD(1) [OF inv a(1)]] a(2) by simp
  have upd: "svc_inv cfg (ctl_upd a (\<lambda>c. c\<lparr>c_phase := ph\<rparr>) (svr\<lparr>clientRegistry := cr\<rparr>))" for ph cr
    using inv a ok by (intro svc_inv_upd) (auto simp: live_def)
  moreover have "svc_inv cfg (ControlManager_Del rid a (ctl_upd a (\<lambda>c. c\<lparr>c_phase := Refused\<rparr>) (svr\<lparr>clientRegistry := cr\<rparr>)))" for rid cr
    using a(1) by (intro svc_inv_Del upd) (simp_all add: ctl_upd_nth live_def)
  ultimately show ?thesis
    using reg by (auto simp: RegisterControl_register_def Let_def ControlManager_Del_commute split: prod.splits bool.splits)
qed

lemma svc_inv_respond:
  assumes inv: "svc_inv cfg svr" and a: "a < length (ctls svr)" "c_phase (ctls svr ! a) = Registered"
  shows "svc_inv cfg (handleConnection_respond now written a svr)"
proof -
  have ok: "ctl_ok cfg ((ctls svr ! a)\<lparr>c_phase := ph\<rparr>)" for ph
    using ctl_ok_phase [OF svc_invD(1) [OF inv a(1)]] a(2) by simp
  have "svc_inv cfg (ctl_upd a (\<lambda>c. c\<lparr>c_phase := Started\<rparr>) svr)"
    using inv a ok by (intro svc_inv_upd) (auto simp: live_def)
  moreover have "svc_inv cfg (ctl_upd a (\<lambda>c. c\<lparr>c_phase := Refused, c_connClosed := True\<rparr>) svr)"
    using inv a ok [of Refused] by (intro svc_inv_upd) (auto simp: live_def ctl_ok_def ports_of_def)
  then have "svc_inv cfg (ControlManager_Del rid a (ctl_upd a (\<lambda>c. c\<lparr>c_phase := Refused, c_connClosed := True\<rparr>) svr))" for rid
    using a(1) by (intro svc_inv_Del) (simp_all add: ctl_upd_nth live_def)
  then have "svc_inv cfg ((ControlManager_Del rid a (ctl_upd a (\<lambda>c. c\<lparr>c_phase := Refused, c_connClosed := True\<rparr>) svr))\<lparr>clientRegistry := cr\<rparr>)" for rid cr
    by simp
  moreover have "ctl_upd a f ((ControlManager_Del rid a svr)\<lparr>clientRegistry := cr\<rparr>) = (ControlManager_Del rid a (ctl_upd a f svr))\<lparr>clientRegistry := cr\<rparr>"
    for f rid cr
    by (simp add: ctl_upd_def ControlManager_Del_def)
  ultimately show ?thesis
    by (simp add: handleConnection_respond_def Let_def)
qed

lemma ctl_ok_local:
  assumes "ctl_ok cfg c"
  shows "ctl_ok cfg (snd (Control_RegisterWorkConn conn c))" "ctl_ok cfg (snd (GetWorkConn ok w c))"
    "ctl_ok cfg (handlePing now valid c)" "ctl_ok cfg (heartbeat_check now cfg c)"
  using assms
  by (auto simp: ctl_ok_def ports_of_def Control_RegisterWorkConn_def GetWorkConn_def handlePing_def heartbeat_check_def
      split: list.splits wait_result.splits)

lemma svc_inv_local:
  assumes inv: "svc_inv cfg svr" and a: "a < length (ctls svr)"
  shows "svc_inv cfg (ctl_upd a (\<lambda>c. snd (Control_RegisterWorkConn conn c)) svr)"
    "svc_inv cfg (ctl_upd a (\<lambda>c. snd (GetWorkConn ok w c)) svr)"
    "svc_inv cfg (ctl_upd a (handlePing now valid) svr)" "svc_inv cfg (ctl_upd a (heartbeat_check now cfg) svr)"
proof -
  note ok = ctl_ok_local [OF svc_invD(1) [OF inv a]]
  show "svc_inv cfg (ctl_upd a (\<lambda>c. snd (Control_RegisterWorkConn conn c)) svr)"
    by (rule svc_inv_upd [OF inv a], rule ok(1)) (auto simp: live_def Control_RegisterWorkConn_def split: if_splits)
  show "svc_inv cfg (ctl_upd a (\<lambda>c. snd (GetWorkConn ok w c)) svr)"
    by (rule svc_inv_upd [OF inv a], rule ok(2)) (auto simp: live_def GetWorkConn_def split: list.splits wait_result.splits if_splits)
  show "svc_inv cfg (ctl_upd a (handlePing now valid) svr)"
    by (rule svc_inv_upd [OF inv a], rule ok(3)) (auto simp: live_def handlePing_def split: if_splits)
  show "svc_inv cfg (ctl_upd a (heartbeat_check now cfg) svr)"
    by (rule svc_inv_upd [OF inv a], rule ok(4)) (auto simp: live_def heartbeat_check_def split: if_splits)
qed

lemma svc_inv_reserve:
  assumes inv: "svc_inv cfg svr" and a: "a < length (ctls svr)" "c_phase (ctls svr ! a) = Started" "\<not> c_done (ctls svr ! a)"
      "c_pending (ctls svr ! a) = None"
    and pxy: "0 \<le> p_usedPortsNum pxy" and res: "RegisterProxy_reserve cfg a pxy svr = (r, svr')"
  shows "svc_inv cfg svr'"
proof (cases r)
  case (Some e)
  then show ?thesis
    using res inv by (auto simp: RegisterProxy_reserve_def Let_def split: if_splits)
next
  case None
  let ?f = "\<lambda>c. c\<lparr>c_pending := Some pxy,
      portsUsedNum := (if MaxPortsPerClient cfg > 0 then portsUsedNum c + p_usedPortsNum pxy else portsUsedNum c)\<rparr>"
  have svr': "svr' = ctl_upd a ?f svr"
    and max: "MaxPortsPerClient cfg > 0 \<longrightarrow> portsUsedNum (ctls svr ! a) + p_usedPortsNum pxy \<le> MaxPortsPerClient cfg"
    using res None by (auto simp: RegisterProxy_reserve_def Let_def split: if_splits)
  have "ctl_ok cfg (?f (ctls svr ! a))"
    using svc_invD(1) [OF inv a(1)] a pxy max by (auto simp: ctl_ok_def ports_of_def)
  then show ?thesis
    unfolding svr' using inv a by (intro svc_inv_upd) (auto simp: live_def)
qed

lemma al_put_fresh: "k \<notin> fst ` set m \<Longrightarrow> al_put k v m = m @ [(k, v)]"
  by (induction k v m rule: al_put.induct) auto

lemma sum_al_del:
  assumes "distinct (al_keys m)" "map_of m k = Some v"
  shows "sum_list (map (\<lambda>(_, p). f p) (al_del k m)) = sum_list (map (\<lambda>(_, p). f p) m) - (f v :: int)"
  using assms
proof (induction m)
  case (Cons x m)
  obtain k' v' where x: "x = (k', v')" by (cases x)
  show ?case
  proof (cases "k' = k")
    case True
    then have "al_del k m = m"
      using Cons.prems x by (auto simp: al_del_def filter_id_conv rev_image_eqI)
    then show ?thesis using True x Cons.prems by (simp add: al_del_def)
  next
    case False
    then show ?thesis using x Cons by (simp add: al_del_def)
  qed
qed simp

text \<open>A change of the proxies of one control together with the manager's map.\<close>

lemma names_ok_upd:
  assumes names: "names_ok svr" and a: "a < length (ctls svr)"
    and new: "\<And>n. map_of (c_proxies (f (ctls svr ! a))) n = (if n = name then v else owned svr a n)"
    and other: "\<And>b. b \<noteq> a \<Longrightarrow> owned svr b name = None"
  shows "names_ok ((ctl_upd a f svr)\<lparr>pxys := (pxys svr)(name := v)\<rparr>)"
proof -
  let ?s = "(ctl_upd a f svr)\<lparr>pxys := (pxys svr)(name := v)\<rparr>"
  have own: "owned ?s b n = (if b = a \<and> n = name then v else owned svr b n)" for b n
  proof -
    have "owned ?s b = owned (ctl_upd a f svr) b" by (simp add: owned_def)
    then show ?thesis using new by (simp add: owned_upd [OF a])
  qed
  have "pxys ?s n = Some p \<longleftrightarrow> (\<exists>b. owned ?s b n = Some p)" for n p
    using names other by (cases "n = name") (auto simp: own names_ok_def)
  moreover have "b = c" if "owned ?s b n \<noteq> None" "owned ?s c n \<noteq> None" for b c n
    using that names other by (cases "n = name") (auto simp: own names_ok_def split: if_splits)
  ultimately show ?thesis
    unfolding names_ok_def by blast
qed

lemma names_ok_owner: "names_ok svr \<Longrightarrow> owned svr a n \<noteq> None \<Longrightarrow> owned svr b n \<noteq> None \<Longrightarrow> a = b"
  unfolding names_ok_def by blast

lemma svc_inv_proxies:
  assumes inv: "svc_inv cfg svr" and a: "a < length (ctls svr)"
    and f: "ctl_ok cfg (f (ctls svr ! a))" "c_login (f (ctls svr ! a)) = c_login (ctls svr ! a)"
      "c_runID (f (ctls svr ! a)) = c_runID (ctls svr ! a)" "live (f (ctls svr ! a)) \<Longrightarrow> live (ctls svr ! a)"
    and names: "names_ok ((ctl_upd a f svr)\<lparr>pxys := pm\<rparr>)"
  shows "svc_inv cfg ((ctl_upd a f svr)\<lparr>pxys := pm\<rparr>)"
proof -
  have "table_ok ((ctl_upd a f svr)\<lparr>pxys := pm\<rparr>)"
    using svc_invD(3) [OF inv] a f by (auto simp: table_ok_def ctl_upd_nth)
  then show ?thesis
    using svc_invD(1) [OF inv] a f(1) names by (simp add: svc_inv_def ctl_upd_nth)
qed

lemma svc_inv_undo:
  assumes inv: "svc_inv cfg svr" and a: "a < length (ctls svr)" "c_pending (ctls svr ! a) = Some pxy"
  shows "svc_inv cfg (ctl_upd a (\<lambda>c. c\<lparr>c_pending := None,
    portsUsedNum := (if MaxPortsPerClient cfg > 0 then portsUsedNum c - p_usedPortsNum pxy else portsUsedNum c)\<rparr>) svr)"
proof -
  have "ctl_ok cfg (ctls svr ! a)" using svc_invD(1) [OF inv a(1)] .
  then have "ctl_ok cfg ((ctls svr ! a)\<lparr>c_pending := None,
      portsUsedNum := (if MaxPortsPerClient cfg > 0 then portsUsedNum (ctls svr ! a) - p_usedPortsNum pxy else portsUsedNum (ctls svr ! a))\<rparr>)"
    using a(2) by (auto simp: ctl_ok_def ports_of_def)
  then show ?thesis
    using inv a by (intro svc_inv_upd) (auto simp: live_def)
qed

lemma ctl_ok_add_proxy:
  assumes "ctl_ok cfg c" "c_pending c = Some pxy" "p_Name pxy \<notin> fst ` set (c_proxies c)"
  shows "ctl_ok cfg (c\<lparr>c_pending := None, c_proxies := al_put (p_Name pxy) pxy (c_proxies c)\<rparr>)"
  using assms by (auto simp: ctl_ok_def ports_of_def al_put_fresh)

lemma svc_inv_run:
  assumes inv: "svc_inv cfg svr" and a: "a < length (ctls svr)" and run: "RegisterProxy_run cfg started a svr = (r, svr')"
  shows "svc_inv cfg svr'"
proof (cases "c_pending (ctls svr ! a)")
  case None
  then show ?thesis using run inv by (simp add: RegisterProxy_run_def)
next
  case (Some pxy)
  note undo = svc_inv_undo [OF inv a Some]
  show ?thesis
  proof (cases "started \<and> pxys svr (p_Name pxy) = None")
    case False
    then show ?thesis
      using run undo Some by (auto simp: RegisterProxy_run_def Let_def PxyManager_Add_def split: if_splits option.splits)
  next
    case True
    let ?f = "\<lambda>c. c\<lparr>c_pending := None, c_proxies := al_put (p_Name pxy) pxy (c_proxies c)\<rparr>"
    have none: "owned svr b (p_Name pxy) = None" for b
      using True svc_invD(2) [OF inv] unfolding names_ok_def by (metis not_None_eq)
    have "p_Name pxy \<notin> fst ` set (c_proxies (ctls svr ! a))"
      using none [of a] a by (simp add: owned_def map_of_eq_None_iff)
    then have ok: "ctl_ok cfg (?f (ctls svr ! a))"
      using ctl_ok_add_proxy [OF svc_invD(1) [OF inv a] Some] by simp
    have "map_of (c_proxies (?f (ctls svr ! a))) n = (if n = p_Name pxy then Some pxy else owned svr a n)" for n
      using a by (simp add: owned_def)
    then have "names_ok ((ctl_upd a ?f svr)\<lparr>pxys := (pxys svr)(p_Name pxy \<mapsto> pxy)\<rparr>)"
      using none a svc_invD(2) [OF inv] by (intro names_ok_upd) auto
    then have "svc_inv cfg ((ctl_upd a ?f svr)\<lparr>pxys := (pxys svr)(p_Name pxy \<mapsto> pxy)\<rparr>)"
      using inv a ok by (intro svc_inv_proxies) (auto simp: live_def)
    moreover have "svr' = (ctl_upd a ?f svr)\<lparr>pxys := (pxys svr)(p_Name pxy \<mapsto> pxy)\<rparr>"
      using run True Some by (auto simp: RegisterProxy_run_def Let_def PxyManager_Add_def ctl_upd_def)
    ultimately show ?thesis by simp
  qed
qed

lemma ctl_ok_del_proxy:
  assumes "ctl_ok cfg c" "c_pending c = None" "map_of (c_proxies c) name = Some pxy"
  shows "ctl_ok cfg (c\<lparr>c_proxies := al_del name (c_proxies c),
    portsUsedNum := (if MaxPortsPerClient cfg > 0 then portsUsedNum c - p_usedPortsNum pxy else portsUsedNum c)\<rparr>)"
proof -
  have sub: "set (al_del name (c_proxies c)) \<subseteq> set (c_proxies c)" by (auto simp: al_del_def)
  have mem: "(name, pxy) \<in> set (c_proxies c)" using assms(3) by (rule map_of_SomeD)
  then have "0 \<le> p_usedPortsNum pxy" "c_proxies c \<noteq> []"
    using assms(1) by (force simp: ctl_ok_def)+
  moreover have "sum_list (map (\<lambda>(_, p). p_usedPortsNum p) (al_del name (c_proxies c))) =
      sum_list (map (\<lambda>(_, p). p_usedPortsNum p) (c_proxies c)) - p_usedPortsNum pxy"
    using assms by (intro sum_al_del) (simp_all add: ctl_ok_def)
  ultimately show ?thesis
    using assms sub by (auto simp: ctl_ok_def ports_of_def)
qed

lemma svc_inv_close:
  assumes inv: "svc_inv cfg svr" and a: "a < length (ctls svr)" "c_pending (ctls svr ! a) = None"
  shows "svc_inv cfg (CloseProxy cfg a name svr)"
proof (cases "map_of (c_proxies (ctls svr ! a)) name")
  case None
  then show ?thesis using inv by (simp add: CloseProxy_def)
next
  case (Some pxy)
  let ?f = "\<lambda>c. c\<lparr>c_proxies := al_del name (c_proxies c),
    portsUsedNum := (if MaxPortsPerClient cfg > 0 then portsUsedNum c - p_usedPortsNum pxy else portsUsedNum c)\<rparr>"
  have ok: "ctl_ok cfg (?f (ctls svr ! a))"
    using ctl_ok_del_proxy [OF svc_invD(1) [OF inv a(1)] a(2) Some] .
  have name: "p_Name pxy = name"
    using svc_invD(1) [OF inv a(1)] map_of_SomeD [OF Some] by (auto simp: ctl_ok_def)
  have "owned svr b name = None" if "b \<noteq> a" for b
  proof -
    have "owned svr a name \<noteq> None" using Some a(1) by (simp add: owned_def)
    then show ?thesis using that names_ok_owner [OF svc_invD(2) [OF inv]] by blast
  qed
  moreover have "map_of (c_proxies (?f (ctls svr ! a))) n = (if n = name then None else owned svr a n)" for n
    using a by (simp add: owned_def)
  ultimately have "names_ok ((ctl_upd a ?f svr)\<lparr>pxys := (pxys svr)(name := None)\<rparr>)"
    using a svc_invD(2) [OF inv] by (intro names_ok_upd) auto
  then have "svc_inv cfg ((ctl_upd a ?f svr)\<lparr>pxys := (pxys svr)(name := None)\<rparr>)"
    using inv a ok by (intro svc_inv_proxies) (auto simp: live_def)
  then show ?thesis
    using Some name by (simp add: CloseProxy_def Let_def PxyManager_Del_def)
qed

lemma fold_PxyManager_Del:
  assumes "\<forall>(n, p)\<in>set ps. p_Name p = n"
  shows "fold (\<lambda>(_, pxy). PxyManager_Del (p_Name pxy)) ps pm n = (if n \<in> fst ` set ps then None else pm n)"
  using assms by (induction ps arbitrary: pm) (auto simp: PxyManager_Del_def)

lemma svc_inv_exit:
  assumes inv: "svc_inv cfg svr" and a: "a < length (ctls svr)" "c_pending (ctls svr ! a) = None"
  shows "svc_inv cfg (worker_exit now a svr)"
proof -
  let ?c = "ctls svr ! a"
  let ?f = "\<lambda>c. c\<lparr>c_connClosed := True, c_chClosed := True, workConnCh := [], c_proxies := [], c_done := True\<rparr>"
  let ?pm = "fold (\<lambda>(_, pxy). PxyManager_Del (p_Name pxy)) (c_proxies ?c) (pxys svr)"
  let ?s = "(ctl_upd a ?f svr)\<lparr>pxys := ?pm\<rparr>"
  have c: "ctl_ok cfg ?c" using svc_invD(1) [OF inv a(1)] .
  have names: "names_ok svr" using svc_invD(2) [OF inv] .
  have ok: "ctl_ok cfg (?f ?c)"
    using c a(2) by (auto simp: ctl_ok_def ports_of_def)
  have pm: "?pm n = (if owned svr a n \<noteq> None then None else pxys svr n)" for n
    using fold_PxyManager_Del [of "c_proxies ?c" "pxys svr" n] c a(1)
    by (simp add: ctl_ok_def owned_def map_of_eq_None_iff)
  have own: "owned ?s b = (if b = a then Map.empty else owned svr b)" for b
  proof -
    have "owned ?s b = owned (ctl_upd a ?f svr) b" by (simp add: owned_def)
    then show ?thesis by (simp add: owned_upd [OF a(1)])
  qed
  have "?pm n = Some p \<longleftrightarrow> (\<exists>b. owned ?s b n = Some p)" for n p
  proof -
    have "pxys svr n = Some p \<longleftrightarrow> (\<exists>b. owned svr b n = Some p)"
      "\<And>b. owned svr a n \<noteq> None \<Longrightarrow> owned svr b n \<noteq> None \<Longrightarrow> b = a"
      using names unfolding names_ok_def by blast+
    note h = this
    show ?thesis
    proof (cases "owned svr a n")
      case None
      then have "owned ?s b n = owned svr b n" for b
        unfolding own by simp
      then show ?thesis using None h(1) by (simp add: pm)
    next
      case (Some q)
      then show ?thesis using h(2) by (auto simp: own pm)
    qed
  qed
  moreover have "b = b'" if "owned ?s b n \<noteq> None" "owned ?s b' n \<noteq> None" for b b' n
    using that names_ok_owner [OF names, of b n b'] unfolding own by (simp split: if_splits)
  ultimately have "names_ok ?s"
    unfolding names_ok_def by simp
  then have "svc_inv cfg ?s"
    using inv a ok by (intro svc_inv_proxies) (auto simp: live_def)
  moreover have "worker_exit now a svr = ?s\<lparr>clientRegistry := MarkOfflineByRunID now (clientRegistry svr) (c_runID ?c)\<rparr>"
    by (simp add: worker_exit_def Let_def ctl_upd_def)
  ultimately show ?thesis by simp
qed

lemma svc_inv_step: "svc_step cfg svr svr' \<Longrightarrow> svc_inv cfg svr \<Longrightarrow> svc_inv cfg svr'"
proof (induction rule: svc_step.induct)
  case (delete a svr)
  then show ?case by (intro svc_inv_Del) (auto simp: live_def)
qed (auto intro: svc_inv_login svc_inv_register svc_inv_respond svc_inv_local svc_inv_reserve svc_inv_run svc_inv_close svc_inv_exit)

lemma svc_inv_new: "svc_inv cfg NewService"
  by (simp add: svc_inv_def NewService_def names_ok_def table_ok_def owned_def)

lemma svc_inv_reach: "(svc_step cfg)\<^sup>*\<^sup>* NewService svr \<Longrightarrow> svc_inv cfg svr"
  by (induction rule: rtranclp_induct) (simp_all add: svc_inv_new svc_inv_step)

section \<open>Overtaken logins\<close>

text \<open>
  The control \<open>a\<close> was replaced before it was started, and the login of \<open>b\<close> waits for it.  The connection of \<open>a\<close> is closed, so its
  login response cannot be written, and only a started control is ever done.
\<close>

definition overtaken :: "nat \<Rightarrow> nat \<Rightarrow> Service \<Rightarrow> bool" where
  "overtaken a b svr \<longleftrightarrow> a < length (ctls svr) \<and> b < length (ctls svr) \<and> a \<noteq> b \<and>
    c_phase (ctls svr ! b) = Waiting (Some a) \<and> c_phase (ctls svr ! a) \<noteq> Started \<and>
    c_connClosed (ctls svr ! a) \<and> \<not> c_done (ctls svr ! a)"

lemma overtaken_upd:
  assumes "overtaken a b svr" "d < length (ctls svr)"
    "d = b \<Longrightarrow> c_phase (f (ctls svr ! b)) = Waiting (Some a)"
    "d = a \<Longrightarrow> c_phase (f (ctls svr ! a)) \<noteq> Started \<and> c_connClosed (f (ctls svr ! a)) \<and> \<not> c_done (f (ctls svr ! a))"
  shows "overtaken a b (ctl_upd d f svr)"
  using assms by (auto simp: overtaken_def ctl_upd_nth)

lemma overtaken_cong: "ctls svr' = ctls svr \<Longrightarrow> overtaken a b svr' = overtaken a b svr"
  by (simp add: overtaken_def)

lemma overtaken_login:
  assumes "overtaken a b svr" "svc_inv cfg svr" "randID \<noteq> []" "RegisterControl_add now cfg randID verify loginMsg svr = (r, svr')"
  shows "overtaken a b svr'"
proof (cases r)
  case (Inl e)
  then show ?thesis
    using assms by (auto simp: RegisterControl_add_def Let_def split: if_splits sum.splits prod.splits)
next
  case (Inr d)
  obtain login c where s: "l_RunID login \<noteq> []" "NewControl now cfg login = Inr c" "d = length (ctls svr)"
    "length (ctls svr') = Suc d"
    "ctls svr' ! d = c\<lparr>c_phase := Waiting (ctlsByRunID svr (l_RunID login))\<rparr>"
    "\<forall>b<d. ctls svr' ! b = (if ctlsByRunID svr (l_RunID login) = Some b then Replaced (ctls svr ! b) else ctls svr ! b)"
    "ctlsByRunID svr' = (ctlsByRunID svr)(l_RunID login \<mapsto> d)" "pxys svr' = pxys svr" "clientRegistry svr' = clientRegistry svr"
    by (rule RegisterControl_add_ok [OF assms(4) [unfolded Inr] assms(3) svc_invD(3) [OF assms(2)]])
  then show ?thesis
    using assms(1) s(3,4,6) by (simp add: overtaken_def Replaced_def)
qed

lemma overtaken_list:
  assumes "overtaken a b svr" "d < length (ctls svr)" "ctls svr' = (ctls svr)[d := c]"
    "d = b \<Longrightarrow> c_phase c = Waiting (Some a)" "d = a \<Longrightarrow> c_phase c \<noteq> Started \<and> c_connClosed c \<and> \<not> c_done c"
  shows "overtaken a b svr'"
  using assms by (auto simp: overtaken_def nth_list_update)

definition same_status :: "Service \<Rightarrow> Service \<Rightarrow> bool" where
  "same_status svr svr' \<longleftrightarrow> length (ctls svr') = length (ctls svr) \<and>
    (\<forall>e<length (ctls svr). c_phase (ctls svr' ! e) = c_phase (ctls svr ! e) \<and> c_done (ctls svr' ! e) = c_done (ctls svr ! e) \<and>
      (c_connClosed (ctls svr ! e) \<longrightarrow> c_connClosed (ctls svr' ! e)))"

lemma same_status_upd:
  "d < length (ctls svr) \<Longrightarrow> c_phase (f (ctls svr ! d)) = c_phase (ctls svr ! d) \<Longrightarrow> c_done (f (ctls svr ! d)) = c_done (ctls svr ! d) \<Longrightarrow>
    (c_connClosed (ctls svr ! d) \<longrightarrow> c_connClosed (f (ctls svr ! d))) \<Longrightarrow> same_status svr (ctl_upd d f svr)"
  by (simp add: same_status_def ctl_upd_nth)

lemma same_status_refl: "same_status svr svr"
  by (simp add: same_status_def)

lemma same_status_proxies:
  assumes "d < length (ctls svr)"
  shows "RegisterProxy_reserve cfg d pxy svr = (r, svr') \<Longrightarrow> same_status svr svr'"
    "RegisterProxy_run cfg started d svr = (r, svr') \<Longrightarrow> same_status svr svr'"
    "same_status svr (CloseProxy cfg d name svr)"
  using assms
  by (auto simp: RegisterProxy_reserve_def RegisterProxy_run_def CloseProxy_def Let_def PxyManager_Add_def same_status_def ctl_upd_nth
      split: if_splits option.splits)

lemma same_status_local:
  assumes "d < length (ctls svr)"
  shows "same_status svr (ctl_upd d (\<lambda>c. snd (Control_RegisterWorkConn conn c)) svr)"
    "same_status svr (ctl_upd d (\<lambda>c. snd (GetWorkConn ok w c)) svr)"
    "same_status svr (ctl_upd d (handlePing now valid) svr)" "same_status svr (ctl_upd d (heartbeat_check now cfg) svr)"
  by (rule same_status_upd [OF assms];
      simp add: Control_RegisterWorkConn_def GetWorkConn_def handlePing_def heartbeat_check_def split: list.splits wait_result.splits)+

lemma same_status_overtaken: "overtaken a b svr \<Longrightarrow> same_status svr svr' \<Longrightarrow> overtaken a b svr'"
  by (simp add: overtaken_def same_status_def)

lemma respond_ctls:
  "ctls (handleConnection_respond now written d svr) =
    (ctls svr)[d := (if written then (ctls svr ! d)\<lparr>c_phase := Started\<rparr> else (ctls svr ! d)\<lparr>c_phase := Refused, c_connClosed := True\<rparr>)]"
  by (simp add: handleConnection_respond_def Let_def ctl_upd_def)

lemma register_ctls:
  "RegisterControl_register now addr wp d svr = (r, svr') \<Longrightarrow>
    \<exists>ph. ph \<noteq> Started \<and> ctls svr' = (ctls svr)[d := (ctls svr ! d)\<lparr>c_phase := ph\<rparr>]"
  by (auto simp: RegisterControl_register_def Let_def ctl_upd_def split: prod.splits bool.splits)

lemma overtaken_step:
  assumes step: "svc_step cfg svr svr'" and ov: "overtaken a b svr" and inv: "svc_inv cfg svr"
  shows "overtaken a b svr'"
  using step
proof (cases rule: svc_step.cases)
  case (login randID now verify loginMsg r)
  then show ?thesis using overtaken_login ov inv by blast
next
  case (register d old now addr wp r)
  have "d \<noteq> b"
    using register ov by (auto simp: overtaken_def)
  obtain ph where ph: "ph \<noteq> Started" "ctls svr' = (ctls svr)[d := (ctls svr ! d)\<lparr>c_phase := ph\<rparr>]"
    using register_ctls [OF register(4)] by blast
  show ?thesis
    by (rule overtaken_list [OF ov register(1) ph(2)]) (use ov ph(1) \<open>d \<noteq> b\<close> in \<open>auto simp: overtaken_def\<close>)
next
  case (respond d written now)
  have "d \<noteq> b" "d = a \<Longrightarrow> \<not> written"
    using respond ov by (auto simp: overtaken_def)
  then show ?thesis
    unfolding respond(1) by (intro overtaken_list [OF ov respond(2) respond_ctls]) (use ov in \<open>auto simp: overtaken_def\<close>)
next
  case (work_conn d conn)
  then show ?thesis using same_status_overtaken [OF ov] same_status_local(1) by blast
next
  case (get_work_conn d ok w)
  then show ?thesis using same_status_overtaken [OF ov] same_status_local(2) by blast
next
  case (ping d now valid)
  then show ?thesis using same_status_overtaken [OF ov] same_status_local(3) by blast
next
  case (heartbeat d now)
  then show ?thesis using same_status_overtaken [OF ov] same_status_local(4) by blast
next
  case (reserve d pxy r)
  then show ?thesis using same_status_overtaken [OF ov] same_status_proxies(1) by blast
next
  case (run d started r)
  then show ?thesis using same_status_overtaken [OF ov] same_status_proxies(2) by blast
next
  case (close_proxy d name)
  then show ?thesis using same_status_overtaken [OF ov] same_status_proxies(3) by blast
next
  case (exit d now)
  then have "d \<noteq> a" "d \<noteq> b" using ov by (auto simp: overtaken_def)
  then show ?thesis
    using ov exit(1) by (simp add: worker_exit_def Let_def ctl_upd_def overtaken_def)
next
  case (delete d)
  then show ?thesis using ov by (simp add: overtaken_def)
qed

lemma overtaken_steps:
  assumes "(svc_step cfg)\<^sup>*\<^sup>* svr svr'" "overtaken a b svr" "svc_inv cfg svr"
  shows "overtaken a b svr'"
proof -
  have "overtaken a b svr' \<and> svc_inv cfg svr'"
    using assms(1) by (induction rule: rtranclp_induct) (auto simp: assms(2,3) overtaken_step svc_inv_step)
  then show ?thesis by simp
qed

section \<open>Properties\<close>

text \<open>
  C24. The limit of ports per client: along every interleaving of logins, message handlers and workers the counter of a control
  that is not done is the number of ports of its proxies, the one being started included, and never exceeds the configured limit.
\<close>

theorem ports_limit:
  assumes "(svc_step cfg)\<^sup>*\<^sup>* NewService svr" "a < length (ctls svr)" "MaxPortsPerClient cfg > 0" "\<not> c_done (ctls svr ! a)"
  shows "portsUsedNum (ctls svr ! a) = ports_of (ctls svr ! a) \<and> ports_of (ctls svr ! a) \<le> MaxPortsPerClient cfg"
  using svc_invD(1) [OF svc_inv_reach [OF assms(1)] assms(2)] assms(3,4) by (simp add: ctl_ok_def)

abbreviation demo_cfg :: ServerCfg where
  "demo_cfg \<equiv> \<lparr>MaxPortsPerClient = 1, MaxPoolCount = 5, HeartbeatTimeout = 90\<rparr>"

abbreviation demo_login :: Login where
  "demo_login \<equiv> \<lparr>l_User = [], l_ClientID = [], l_RunID = str ''r'', l_PoolCount = 1, l_Hostname = [], l_Version = []\<rparr>"

definition demo_service :: "nat \<Rightarrow> Service" where
  "demo_service n =
    (let s1 = snd (RegisterControl_add 1 demo_cfg (str ''x'') (\<lambda>_. True) demo_login NewService);
         s2 = snd (RegisterControl_register 2 [] [] 0 s1);
         s3 = handleConnection_respond 3 True 0 s2;
         s4 = snd (RegisterProxy_reserve demo_cfg 0 \<lparr>p_Name = str ''p'', p_usedPortsNum = 1\<rparr> s3);
         s5 = snd (RegisterProxy_run demo_cfg True 0 s4)
     in [NewService, s1, s2, s3, s4, s5] ! n)"

lemma demo_service_reach:
  "(svc_step demo_cfg)\<^sup>*\<^sup>* NewService (demo_service 1)" "(svc_step demo_cfg)\<^sup>*\<^sup>* NewService (demo_service 5)"
proof -
  have 1: "svc_step demo_cfg NewService (demo_service 1)"
    unfolding demo_service_def Let_def by (simp, rule svc_step.login [OF _ prod.collapse [symmetric]]) (simp add: str_def)
  have "length (ctls (demo_service 1)) = 1" "c_phase (ctls (demo_service 1) ! 0) = Waiting None" by code_simp+
  then have 2: "svc_step demo_cfg (demo_service 1) (demo_service 2)"
    using svc_step.register [of 0 "demo_service 1" None 2 "[]" "[]", OF _ _ _ prod.collapse [symmetric], of demo_cfg]
    by (simp add: demo_service_def Let_def)
  have "length (ctls (demo_service 2)) = 1" "c_phase (ctls (demo_service 2) ! 0) = Registered" "\<not> c_connClosed (ctls (demo_service 2) ! 0)"
    by code_simp+
  then have 3: "svc_step demo_cfg (demo_service 2) (demo_service 3)"
    using svc_step.respond [of 0 "demo_service 2" True demo_cfg 3] by (simp add: demo_service_def Let_def)
  have "length (ctls (demo_service 3)) = 1" "c_phase (ctls (demo_service 3) ! 0) = Started" "\<not> c_done (ctls (demo_service 3) ! 0)"
      "c_pending (ctls (demo_service 3) ! 0) = None"
    by code_simp+
  then have 4: "svc_step demo_cfg (demo_service 3) (demo_service 4)"
    using svc_step.reserve [of 0 "demo_service 3" "\<lparr>p_Name = str ''p'', p_usedPortsNum = 1\<rparr>" demo_cfg, OF _ _ _ _ _ prod.collapse [symmetric]]
    by (simp add: demo_service_def Let_def)
  have "length (ctls (demo_service 4)) = 1" by code_simp
  then have 5: "svc_step demo_cfg (demo_service 4) (demo_service 5)"
    using svc_step.run [of 0 "demo_service 4" demo_cfg True, OF _ prod.collapse [symmetric]] by (simp add: demo_service_def Let_def)
  show "(svc_step demo_cfg)\<^sup>*\<^sup>* NewService (demo_service 1)" using 1 by simp
  show "(svc_step demo_cfg)\<^sup>*\<^sup>* NewService (demo_service 5)"
    using 1 2 3 4 5 by (meson converse_rtranclp_into_rtranclp rtranclp.rtrancl_refl)
qed

theorem ports_limit_witness:
  "portsUsedNum (ctls (demo_service 5) ! 0) = 1 \<and> ports_of (ctls (demo_service 5) ! 0) \<le> MaxPortsPerClient demo_cfg"
proof -
  have "0 < length (ctls (demo_service 5))" "\<not> c_done (ctls (demo_service 5) ! 0)" "portsUsedNum (ctls (demo_service 5) ! 0) = 1"
    by code_simp+
  then show ?thesis using ports_limit [OF demo_service_reach(2), of 0] by simp
qed

text \<open>
  C20. Names of proxies: along every interleaving the manager knows a proxy under a name exactly if one control has it among its
  proxies, and no two controls have proxies of the same name.
\<close>

theorem proxy_names_owned:
  assumes "(svc_step cfg)\<^sup>*\<^sup>* NewService svr"
  shows "(\<forall>n p. pxys svr n = Some p \<longleftrightarrow> (\<exists>a<length (ctls svr). map_of (c_proxies (ctls svr ! a)) n = Some p)) \<and>
    (\<forall>a<length (ctls svr). \<forall>b<length (ctls svr). a \<noteq> b \<longrightarrow>
      fst ` set (c_proxies (ctls svr ! a)) \<inter> fst ` set (c_proxies (ctls svr ! b)) = {})"
proof (intro conjI allI impI)
  have names: "names_ok svr" using svc_invD(2) [OF svc_inv_reach [OF assms]] .
  show "pxys svr n = Some p \<longleftrightarrow> (\<exists>a<length (ctls svr). map_of (c_proxies (ctls svr ! a)) n = Some p)" for n p
    using names unfolding names_ok_def owned_def by (auto split: if_splits)
  fix a b
  assume ab: "a < length (ctls svr)" "b < length (ctls svr)" "a \<noteq> b"
  have "owned svr a n = None \<or> owned svr b n = None" for n
    using names_ok_owner [OF names, of a n b] ab(3) by blast
  then show "fst ` set (c_proxies (ctls svr ! a)) \<inter> fst ` set (c_proxies (ctls svr ! b)) = {}"
    using ab by (auto simp: owned_def map_of_eq_None_iff)
qed

theorem proxy_names_owned_witness:
  "\<exists>a<length (ctls (demo_service 5)).
    map_of (c_proxies (ctls (demo_service 5) ! a)) (str ''p'') = Some \<lparr>p_Name = str ''p'', p_usedPortsNum = 1\<rparr>"
proof -
  have "pxys (demo_service 5) (str ''p'') = Some \<lparr>p_Name = str ''p'', p_usedPortsNum = 1\<rparr>" by code_simp
  then show ?thesis using proxy_names_owned [OF demo_service_reach(2)] by blast
qed

text \<open>
  C23. One live control per run identifier: along every interleaving, a control that was neither replaced, refused nor ended is the
  one that the manager finds under its run identifier; so two such controls never share a run identifier.
\<close>

theorem one_control_per_run:
  assumes "(svc_step cfg)\<^sup>*\<^sup>* NewService svr" "a < length (ctls svr)" "live (ctls svr ! a)"
  shows "ControlManager_GetByID svr (l_RunID (c_login (ctls svr ! a))) = Some a \<and>
    (\<forall>b<length (ctls svr). live (ctls svr ! b) \<and> l_RunID (c_login (ctls svr ! b)) = l_RunID (c_login (ctls svr ! a)) \<longrightarrow> b = a)"
proof -
  have "ctlsByRunID svr (l_RunID (c_login (ctls svr ! b))) = Some b" if "b < length (ctls svr)" "live (ctls svr ! b)" for b
    using svc_invD(1,3) [OF svc_inv_reach [OF assms(1)]] that unfolding table_ok_def ctl_ok_def live_def by metis
  then show ?thesis
    using assms(2,3) unfolding ControlManager_GetByID_def by (metis option.inject)
qed

theorem one_control_per_run_witness: "ControlManager_GetByID (demo_service 5) (str ''r'') = Some 0"
proof -
  have "0 < length (ctls (demo_service 5))" "l_RunID (c_login (ctls (demo_service 5) ! 0)) = str ''r''" by code_simp+
  moreover have "live (ctls (demo_service 5) ! 0)" unfolding live_def by code_simp
  ultimately show ?thesis using one_control_per_run [OF demo_service_reach(2), of 0] by simp
qed

text \<open>
  A login that overtakes another login of the same run identifier hangs: the control it replaces has its connection closed
  before it was started, so it is given up without ever being done, and whatever happens afterwards the second login keeps
  waiting for it.
\<close>

lemma overtaking_login_hangs:
  assumes "(svc_step cfg)\<^sup>*\<^sup>* NewService svr" "randID \<noteq> []" "l_RunID login \<noteq> []"
    and "ControlManager_GetByID svr (l_RunID login) = Some a" "c_phase (ctls svr ! a) \<noteq> Started" "\<not> c_done (ctls svr ! a)"
    and "RegisterControl_add now cfg randID verify login svr = (Inr b, svr1)"
    and "(svc_step cfg)\<^sup>*\<^sup>* svr1 svr2"
  shows "c_phase (ctls svr2 ! b) = Waiting (Some a) \<and> \<not> c_done (ctls svr2 ! a)"
proof -
  have inv: "svc_inv cfg svr" using svc_inv_reach assms(1) by simp
  have a: "ctlsByRunID svr (l_RunID login) = Some a" using assms(4) by (simp add: ControlManager_GetByID_def)
  have "a < length (ctls svr)"
    using svc_invD(3) [OF inv] a unfolding table_ok_def by blast
  then have "overtaken a b svr1"
    using assms(3,5-7) a
    by (auto simp: RegisterControl_add_def Let_def ControlManager_Add_def ctl_upd_def overtaken_def Replaced_def nth_append nth_list_update
        split: if_splits sum.splits)
  then have "overtaken a b svr2"
    using overtaken_steps assms(8) svc_inv_login [OF inv assms(2,7)] by blast
  then show ?thesis by (simp add: overtaken_def)
qed

lemma overtaking_login_hangs_witness:
  "c_phase (ctls (snd (RegisterControl_add 5 demo_cfg (str ''x'') (\<lambda>_. True) demo_login (demo_service 1))) ! 1) = Waiting (Some 0)"
proof -
  have "fst (RegisterControl_add 5 demo_cfg (str ''x'') (\<lambda>_. True) demo_login (demo_service 1)) = Inr 1" by code_simp
  then have add: "RegisterControl_add 5 demo_cfg (str ''x'') (\<lambda>_. True) demo_login (demo_service 1) =
      (Inr 1, snd (RegisterControl_add 5 demo_cfg (str ''x'') (\<lambda>_. True) demo_login (demo_service 1)))"
    by (metis prod.collapse)
  have ids: "str ''x'' \<noteq> []" "l_RunID demo_login \<noteq> []" by code_simp+
  have old: "ControlManager_GetByID (demo_service 1) (l_RunID demo_login) = Some 0" "c_phase (ctls (demo_service 1) ! 0) \<noteq> Started"
      "\<not> c_done (ctls (demo_service 1) ! 0)"
    by code_simp+
  show ?thesis
    using overtaking_login_hangs [OF demo_service_reach(1) ids old add rtranclp.rtrancl_refl] by (rule conjunct1)
qed

text \<open>
  The size of the channel of work connections comes from the login message: a pool count below -10 makes \<^verbatim>\<open>make\<close> panic, and the
  goroutine that serves the connection does not recover.
\<close>

lemma NewControl_panics: "l_PoolCount login < -10 \<Longrightarrow> NewControl now cfg login = Inl ErrPanic"
  by (simp add: NewControl_def Let_def)

text \<open>
  After the worker has closed the channel, \<^verbatim>\<open>RegisterWorkConn\<close> reports success, so that the caller does not close the connection,
  although nobody received it.
\<close>

lemma RegisterWorkConn_closed: "c_chClosed c \<Longrightarrow> Control_RegisterWorkConn conn c = (None, c)"
  by (simp add: Control_RegisterWorkConn_def)

end
