(* ===== verification/Frp_Group.thy ===== *)
theory Frp_Group
  imports Frp_Ports Frp_Vhost
begin

text \<open>
  Groups of proxies that share one public address, \<^verbatim>\<open>frp/server/group\<close>: the registry of groups (\<^verbatim>\<open>registry.go\<close>), the part
  that the groups with listeners have in common (\<^verbatim>\<open>base.go\<close>, \<^verbatim>\<open>listener.go\<close>), and the groups for TCP ports, for
  HTTPS and for multiplexed TCP connections (\<^verbatim>\<open>tcp.go\<close>, \<^verbatim>\<open>https.go\<close>, \<^verbatim>\<open>tcpmux.go\<close>) with the multiplexer they listen at
  (\<^verbatim>\<open>Muxer.Listen\<close> of \<^verbatim>\<open>pkg/util/vhost/vhost.go\<close>).

  Groups are compared by identity, so they stand in a heap and the registry holds references.  A call of \<^verbatim>\<open>Listen\<close> first looks the group up
  and then, under the lock of the group, listens; between the two the group may have been closed, so each is a step of its own.
  Waiting for and passing on connections is not modelled.
\<close>

section \<open>The registry and the common part\<close>

datatype group_error =
    ErrGroupAuthFailed
  | ErrGroupParamsInvalid
  | ErrGroupDifferentPort
  | ErrProxyRepeated
  | errGroupStale
  | ErrAcquire port_error
  | ErrNetListen
  | ErrRoute router_error

text \<open>\<open>bg_params\<close> is what a member has to have in common with the others and \<open>bg_real\<close> the public address.\<close>

record ('p, 'r) baseGroup =
  bg_group :: bytes
  bg_groupKey :: bytes
  bg_params :: 'p
  bg_real :: 'r
  bg_lns :: "nat list"
  bg_open :: bool

record ('p, 'r) groupCtl =
  gc_groups :: "bytes \<rightharpoonup> nat"
  gc_heap :: "('p, 'r) baseGroup list"
  gc_next :: nat
  gc_live :: "nat \<rightharpoonup> nat"

definition newGroupRegistry :: "('p, 'r) groupCtl" where
  "newGroupRegistry = \<lparr>gc_groups = Map.empty, gc_heap = [], gc_next = 0, gc_live = Map.empty\<rparr>"

definition getOrCreate :: "('p, 'r) baseGroup \<Rightarrow> bytes \<Rightarrow> ('p, 'r) groupCtl \<Rightarrow> nat \<times> ('p, 'r) groupCtl" where
  "getOrCreate newG key ctl =
    (case gc_groups ctl key of
       Some g \<Rightarrow> (g, ctl)
     | None \<Rightarrow> (length (gc_heap ctl),
         ctl\<lparr>gc_groups := (gc_groups ctl)(key \<mapsto> length (gc_heap ctl)), gc_heap := gc_heap ctl @ [newG]\<rparr>))"

definition isCurrent :: "bytes \<Rightarrow> nat \<Rightarrow> ('p, 'r) groupCtl \<Rightarrow> bool" where
  "isCurrent key g ctl = (gc_groups ctl key = Some g)"

definition removeIf :: "bytes \<Rightarrow> nat \<Rightarrow> ('p, 'r) groupCtl \<Rightarrow> ('p, 'r) groupCtl" where
  "removeIf key g ctl =
    (case gc_groups ctl key of
       None \<Rightarrow> ctl
     | Some cur \<Rightarrow> if cur = g then ctl\<lparr>gc_groups := (gc_groups ctl)(key := None)\<rparr> else ctl)"

text \<open>\<^verbatim>\<open>newListener\<close>: a listener is a number, and \<open>gc_live\<close> has the groups of the listeners that are not closed.\<close>

definition newListener :: "nat \<Rightarrow> ('p, 'r) groupCtl \<Rightarrow> nat \<times> ('p, 'r) groupCtl" where
  "newListener g ctl =
    (let ln = gc_next ctl; bg = gc_heap ctl ! g
     in (ln, ctl\<lparr>gc_heap := (gc_heap ctl)[g := bg\<lparr>bg_lns := bg_lns bg @ [ln]\<rparr>], gc_next := ln + 1, gc_live := (gc_live ctl)(ln \<mapsto> g)\<rparr>))"

definition initBase :: "bytes \<Rightarrow> bytes \<Rightarrow> 'p \<Rightarrow> 'r \<Rightarrow> nat \<Rightarrow> ('p, 'r) groupCtl \<Rightarrow> ('p, 'r) groupCtl" where
  "initBase grp groupKey params real g ctl =
    ctl\<lparr>gc_heap := (gc_heap ctl)[g := (gc_heap ctl ! g)\<lparr>bg_group := grp, bg_groupKey := groupKey, bg_params := params, bg_real := real, bg_open := True\<rparr>]\<rparr>"

text \<open>
  The \<^verbatim>\<open>Listen\<close> methods of the three groups have the same shape.  \<open>opn\<close> opens the public address for the first member and \<open>check\<close> compares
  the parameters of a further one.
\<close>

definition group_Listen ::
    "('e \<Rightarrow> (group_error + 'r) \<times> 'e) \<Rightarrow> ('p \<Rightarrow> 'p \<Rightarrow> group_error option) \<Rightarrow> nat \<Rightarrow> bytes \<Rightarrow> bytes \<Rightarrow> 'p \<Rightarrow> ('p, 'r) groupCtl \<Rightarrow> 'e
      \<Rightarrow> (group_error + nat \<times> 'r) \<times> ('p, 'r) groupCtl \<times> 'e" where
  "group_Listen opn check g grp groupKey params ctl e =
    (if \<not> isCurrent grp g ctl then (Inl errGroupStale, ctl, e)
     else
       let bg = gc_heap ctl ! g in
       if bg_lns bg = [] then
         (case opn e of
            (Inl err, e) \<Rightarrow> (Inl err, ctl, e)
          | (Inr real, e) \<Rightarrow>
              let (ln, ctl) = newListener g (initBase grp groupKey params real g ctl)
              in (Inr (ln, real), ctl, e))
       else if bg_group bg \<noteq> grp then (Inl ErrGroupParamsInvalid, ctl, e)
       else
         (case check (bg_params bg) params of
            Some err \<Rightarrow> (Inl err, ctl, e)
          | None \<Rightarrow>
              if bg_groupKey bg \<noteq> groupKey then (Inl ErrGroupAuthFailed, ctl, e)
              else let (ln, ctl) = newListener g ctl in (Inr (ln, bg_real bg), ctl, e)))"

text \<open>Closing the channel a second time would panic.\<close>

definition closeListener ::
    "('r \<Rightarrow> 'e \<Rightarrow> 'e) \<Rightarrow> nat \<Rightarrow> nat \<Rightarrow> ('p, 'r) groupCtl \<Rightarrow> 'e \<Rightarrow> (('p, 'r) groupCtl \<times> 'e) res" where
  "closeListener cls g ln ctl e =
    (let bg = gc_heap ctl ! g; lns = remove1 ln (bg_lns bg);
         ctl1 = ctl\<lparr>gc_heap := (gc_heap ctl)[g := bg\<lparr>bg_lns := lns\<rparr>]\<rparr>
     in if lns = [] then
          if \<not> bg_open bg then Inl Panic
          else
            let ctl2 = ctl\<lparr>gc_heap := (gc_heap ctl)[g := bg\<lparr>bg_lns := lns, bg_open := False\<rparr>]\<rparr>
            in Inr (removeIf (bg_group bg) g ctl2, cls (bg_real bg) e)
        else Inr (ctl1, e))"

text \<open>\<^verbatim>\<open>Close\<close> of a listener acts once.\<close>

definition Listener_Close :: "('r \<Rightarrow> 'e \<Rightarrow> 'e) \<Rightarrow> nat \<Rightarrow> ('p, 'r) groupCtl \<Rightarrow> 'e \<Rightarrow> (('p, 'r) groupCtl \<times> 'e) res" where
  "Listener_Close cls ln ctl e =
    (case gc_live ctl ln of
       None \<Rightarrow> Inr (ctl, e)
     | Some g \<Rightarrow> closeListener cls g ln (ctl\<lparr>gc_live := (gc_live ctl)(ln := None)\<rparr>) e)"

section \<open>TCP groups\<close>

type_synonym tcp_params = "bytes \<times> int"

definition NewTCPGroup :: "(tcp_params, int) baseGroup" where
  "NewTCPGroup = \<lparr>bg_group = [], bg_groupKey = [], bg_params = ([], 0), bg_real = 0, bg_lns = [], bg_open = False\<rparr>"

text \<open>\<open>sock\<close> is whether the address can be listened on; the operating system, the order of the free ports and the time are arguments of \<open>Acquire\<close>.\<close>

definition tcp_open :: "os_net \<Rightarrow> int list \<Rightarrow> int \<Rightarrow> (bytes \<Rightarrow> int \<Rightarrow> bool) \<Rightarrow> bytes \<Rightarrow> tcp_params \<Rightarrow> Manager \<Rightarrow> (group_error + int) \<times> Manager" where
  "tcp_open os order now sock proxyName params pm =
    (case params of (addr, port) \<Rightarrow>
      (case Acquire os order now pm proxyName port of
         (Inl err, pm) \<Rightarrow> (Inl (ErrAcquire err), pm)
       | (Inr realPort, pm) \<Rightarrow>
           if \<not> sock addr realPort then (Inl ErrNetListen, Port_Release now pm realPort)
           else (Inr realPort, pm)))"

definition tcp_check :: "tcp_params \<Rightarrow> tcp_params \<Rightarrow> group_error option" where
  "tcp_check p q =
    (if fst p \<noteq> fst q then Some ErrGroupParamsInvalid
     else if snd p \<noteq> snd q then Some ErrGroupDifferentPort
     else None)"

definition TCPGroup_Listen ::
    "os_net \<Rightarrow> int list \<Rightarrow> int \<Rightarrow> (bytes \<Rightarrow> int \<Rightarrow> bool) \<Rightarrow> nat \<Rightarrow> bytes \<Rightarrow> bytes \<Rightarrow> bytes \<Rightarrow> bytes \<Rightarrow> int
      \<Rightarrow> (tcp_params, int) groupCtl \<Rightarrow> Manager \<Rightarrow> (group_error + nat \<times> int) \<times> (tcp_params, int) groupCtl \<times> Manager" where
  "TCPGroup_Listen os order now sock g proxyName grp groupKey addr port ctl pm =
    group_Listen (tcp_open os order now sock proxyName (addr, port)) tcp_check g grp groupKey (addr, port) ctl pm"

definition tcp_close :: "int \<Rightarrow> int \<Rightarrow> Manager \<Rightarrow> Manager" where
  "tcp_close now realPort pm = Port_Release now pm realPort"

section \<open>HTTPS and multiplexed TCP groups\<close>

record RouteConfig =
  rc_Domain :: bytes
  rc_Location :: bytes
  rc_Username :: bytes
  rc_Password :: bytes
  rc_RouteByHTTPUser :: bytes

text \<open>A listener of the multiplexer is its name, location and user.\<close>

type_synonym mux_listener = "bytes \<times> bytes \<times> bytes"

definition Muxer_Listen :: "(bytes \<Rightarrow> bytes) \<Rightarrow> RouteConfig \<Rightarrow> mux_listener Routers \<Rightarrow> (group_error + mux_listener) \<times> mux_listener Routers" where
  "Muxer_Listen low cfg r =
    (let l = (rc_Domain cfg, rc_Location cfg, rc_RouteByHTTPUser cfg)
     in case Routers_Add low r (rc_Domain cfg) (rc_Location cfg) (rc_RouteByHTTPUser cfg) l of
          (Some err, r) \<Rightarrow> (Inl (ErrRoute err), r)
        | (None, r) \<Rightarrow> (Inr l, r))"

definition mux_close :: "(bytes \<Rightarrow> bytes) \<Rightarrow> mux_listener \<Rightarrow> mux_listener Routers \<Rightarrow> mux_listener Routers" where
  "mux_close low l r = (case l of (name, location, routeByHTTPUser) \<Rightarrow> Routers_Del low r name location routeByHTTPUser)"

definition same_params :: "'p \<Rightarrow> 'p \<Rightarrow> group_error option" where
  "same_params p q = (if p \<noteq> q then Some ErrGroupParamsInvalid else None)"

definition NewHTTPSGroup :: "(bytes, mux_listener) baseGroup" where
  "NewHTTPSGroup = \<lparr>bg_group = [], bg_groupKey = [], bg_params = [], bg_real = ([], [], []), bg_lns = [], bg_open = False\<rparr>"

definition HTTPSGroup_Listen ::
    "(bytes \<Rightarrow> bytes) \<Rightarrow> nat \<Rightarrow> bytes \<Rightarrow> bytes \<Rightarrow> RouteConfig \<Rightarrow> (bytes, mux_listener) groupCtl \<Rightarrow> mux_listener Routers
      \<Rightarrow> (group_error + nat \<times> mux_listener) \<times> (bytes, mux_listener) groupCtl \<times> mux_listener Routers" where
  "HTTPSGroup_Listen low g grp groupKey cfg ctl r = group_Listen (Muxer_Listen low cfg) same_params g grp groupKey (rc_Domain cfg) ctl r"

type_synonym tcpmux_params = "bytes \<times> bytes \<times> bytes \<times> bytes"

definition tcpmux_params :: "RouteConfig \<Rightarrow> tcpmux_params" where
  "tcpmux_params cfg = (rc_Domain cfg, rc_RouteByHTTPUser cfg, rc_Username cfg, rc_Password cfg)"

definition NewTCPMuxGroup :: "(tcpmux_params, mux_listener) baseGroup" where
  "NewTCPMuxGroup = \<lparr>bg_group = [], bg_groupKey = [], bg_params = ([], [], [], []), bg_real = ([], [], []), bg_lns = [], bg_open = False\<rparr>"

definition HTTPConnectListen ::
    "(bytes \<Rightarrow> bytes) \<Rightarrow> nat \<Rightarrow> bytes \<Rightarrow> bytes \<Rightarrow> RouteConfig \<Rightarrow> (tcpmux_params, mux_listener) groupCtl \<Rightarrow> mux_listener Routers
      \<Rightarrow> (group_error + nat \<times> mux_listener) \<times> (tcpmux_params, mux_listener) groupCtl \<times> mux_listener Routers" where
  "HTTPConnectListen low g grp groupKey cfg ctl r =
    group_Listen (Muxer_Listen low cfg) same_params g grp groupKey (tcpmux_params cfg) ctl r"

section \<open>Runs\<close>

text \<open>The groups that have listeners, and the public addresses they hold.\<close>

definition opened :: "('p, 'r) groupCtl \<Rightarrow> nat set" where
  "opened c = {g. g < length (gc_heap c) \<and> bg_lns (gc_heap c ! g) \<noteq> []}"

definition addresses :: "('p, 'r) groupCtl \<Rightarrow> 'r set" where
  "addresses c = (\<lambda>g. bg_real (gc_heap c ! g)) ` opened c"

text \<open>
  The state of a controller with the environment its groups listen in; \<open>gs_asked\<close> records what the member with a listener asked for: group,
  key and parameters.  The steps are those of any number of callers.  \<open>opens\<close> says which outcomes opening the
  public address can have, \<open>closes\<close> how the environment changes when an address is closed, \<open>others\<close> what the rest of the server, which uses
  the same ports or the same multiplexer, does to the environment, and \<open>newG\<close> is the new group of the controller.
\<close>

record ('p, 'r, 'e) group_state =
  gs_ctl :: "('p, 'r) groupCtl"
  gs_env :: 'e
  gs_asked :: "nat \<rightharpoonup> bytes \<times> bytes \<times> 'p"

inductive group_step ::
    "('p \<Rightarrow> 'e \<Rightarrow> (group_error + 'r) \<times> 'e \<Rightarrow> bool) \<Rightarrow> ('r \<Rightarrow> 'e \<Rightarrow> 'e \<Rightarrow> bool) \<Rightarrow> ('e \<Rightarrow> 'e \<Rightarrow> bool)
      \<Rightarrow> ('p \<Rightarrow> 'p \<Rightarrow> group_error option) \<Rightarrow> ('p, 'r) baseGroup \<Rightarrow> ('p, 'r, 'e) group_state \<Rightarrow> ('p, 'r, 'e) group_state \<Rightarrow> bool"
  for opens closes others check newG where
  lookup: "getOrCreate newG key (gs_ctl s) = (g, ctl) \<Longrightarrow> group_step opens closes others check newG s (s\<lparr>gs_ctl := ctl\<rparr>)"
| listen: "opens params (gs_env s) (opn (gs_env s)) \<Longrightarrow>
    group_Listen opn check g grp key params (gs_ctl s) (gs_env s) = (res, ctl, e) \<Longrightarrow>
    group_step opens closes others check newG s
      \<lparr>gs_ctl = ctl, gs_env = e,
       gs_asked = (case res of Inl _ \<Rightarrow> gs_asked s | Inr (ln, _) \<Rightarrow> (gs_asked s)(ln \<mapsto> (grp, key, params)))\<rparr>"
| close: "(\<And>real. closes real (gs_env s) (cls real (gs_env s))) \<Longrightarrow> Listener_Close cls ln (gs_ctl s) (gs_env s) = Inr (ctl, e) \<Longrightarrow>
    group_step opens closes others check newG s (s\<lparr>gs_ctl := ctl, gs_env := e\<rparr>)"
| other: "others (gs_env s) e \<Longrightarrow> group_step opens closes others check newG s (s\<lparr>gs_env := e\<rparr>)"

section \<open>The invariant\<close>


text \<open>Registry and heap agree: a group with listeners is open and stands in the registry under its name, and every listener is in one group.\<close>

definition grp_ok :: "('p, 'r) groupCtl \<Rightarrow> bool" where
  "grp_ok c \<longleftrightarrow>
    (\<forall>k g. gc_groups c k = Some g \<longrightarrow> g < length (gc_heap c)) \<and>
    (\<forall>k k' g. gc_groups c k = Some g \<and> gc_groups c k' = Some g \<longrightarrow> k = k') \<and>
    (\<forall>g<length (gc_heap c). bg_open (gc_heap c ! g) = (bg_lns (gc_heap c ! g) \<noteq> [])) \<and>
    (\<forall>g\<in>opened c. gc_groups c (bg_group (gc_heap c ! g)) = Some g) \<and>
    (\<forall>g<length (gc_heap c). distinct (bg_lns (gc_heap c ! g)) \<and> (\<forall>ln. ln \<in> set (bg_lns (gc_heap c ! g)) \<longleftrightarrow> gc_live c ln = Some g)) \<and>
    (\<forall>ln g. gc_live c ln = Some g \<longrightarrow> g < length (gc_heap c) \<and> ln < gc_next c)"

text \<open>The members agree with their group.\<close>

definition asked_ok :: "('p, 'r) groupCtl \<Rightarrow> (nat \<rightharpoonup> bytes \<times> bytes \<times> 'p) \<Rightarrow> bool" where
  "asked_ok c asked \<longleftrightarrow>
    (\<forall>ln g. gc_live c ln = Some g \<longrightarrow>
      asked ln = Some (bg_group (gc_heap c ! g), bg_groupKey (gc_heap c ! g), bg_params (gc_heap c ! g)))"

lemma reg_okD:
  assumes "grp_ok c"
  shows "gc_groups c k = Some g \<Longrightarrow> g < length (gc_heap c)"
    "gc_groups c k = Some g \<Longrightarrow> gc_groups c k' = Some g \<Longrightarrow> k = k'"
    "g < length (gc_heap c) \<Longrightarrow> bg_open (gc_heap c ! g) = (bg_lns (gc_heap c ! g) \<noteq> [])"
    "g \<in> opened c \<Longrightarrow> gc_groups c (bg_group (gc_heap c ! g)) = Some g"
    "g < length (gc_heap c) \<Longrightarrow> distinct (bg_lns (gc_heap c ! g))"
    "g < length (gc_heap c) \<Longrightarrow> ln \<in> set (bg_lns (gc_heap c ! g)) \<longleftrightarrow> gc_live c ln = Some g"
    "gc_live c ln = Some g \<Longrightarrow> g < length (gc_heap c) \<and> ln < gc_next c"
  using assms unfolding grp_ok_def by blast+

lemma reg_okI:
  assumes "\<And>k g. gc_groups c k = Some g \<Longrightarrow> g < length (gc_heap c)"
    "\<And>k k' g. gc_groups c k = Some g \<Longrightarrow> gc_groups c k' = Some g \<Longrightarrow> k = k'"
    "\<And>g. g < length (gc_heap c) \<Longrightarrow> bg_open (gc_heap c ! g) = (bg_lns (gc_heap c ! g) \<noteq> [])"
    "\<And>g. g \<in> opened c \<Longrightarrow> gc_groups c (bg_group (gc_heap c ! g)) = Some g"
    "\<And>g. g < length (gc_heap c) \<Longrightarrow> distinct (bg_lns (gc_heap c ! g))"
    "\<And>g ln. g < length (gc_heap c) \<Longrightarrow> ln \<in> set (bg_lns (gc_heap c ! g)) \<longleftrightarrow> gc_live c ln = Some g"
    "\<And>ln g. gc_live c ln = Some g \<Longrightarrow> g < length (gc_heap c) \<and> ln < gc_next c"
  shows "grp_ok c"
  using assms unfolding grp_ok_def by blast

lemma live_opened: "grp_ok c \<Longrightarrow> gc_live c ln = Some g \<Longrightarrow> g \<in> opened c"
  using reg_okD(6,7) by (fastforce simp: opened_def)

lemma opened_live: "grp_ok c \<Longrightarrow> g \<in> opened c \<Longrightarrow> \<exists>ln. gc_live c ln = Some g"
  using reg_okD(6) by (fastforce simp: opened_def neq_Nil_conv)

text \<open>Creating a group.\<close>

lemma getOrCreate_ok:
  assumes ok: "grp_ok c" and new: "bg_lns newG = []" "\<not> bg_open newG" and "getOrCreate newG k c = (g, c')"
  shows "grp_ok c' \<and> opened c' = opened c \<and> gc_live c' = gc_live c \<and> gc_next c' = gc_next c \<and>
    (\<forall>g\<in>opened c. gc_heap c' ! g = gc_heap c ! g)"
proof (cases "gc_groups c k")
  case (Some h)
  then show ?thesis using assms by (simp add: getOrCreate_def)
next
  case None
  let ?n = "length (gc_heap c)"
  have c': "c' = c\<lparr>gc_groups := (gc_groups c)(k \<mapsto> ?n), gc_heap := gc_heap c @ [newG]\<rparr>"
    using assms(4) None by (auto simp: getOrCreate_def)
  have heap: "gc_heap c' ! h = (if h < ?n then gc_heap c ! h else newG)" if "h < length (gc_heap c')" for h
    using that by (simp add: c' nth_append)
  have len: "length (gc_heap c') = Suc ?n" by (simp add: c')
  have open_eq: "opened c' = opened c"
    using new(1) heap len by (auto simp: opened_def less_Suc_eq)
  have "grp_ok c'"
  proof (rule reg_okI)
    show "gc_groups c' (bg_group (gc_heap c' ! h)) = Some h" if h: "h \<in> opened c'" for h
    proof -
      have "h \<in> opened c" "h < ?n" using h open_eq by (auto simp: opened_def)
      then show ?thesis using reg_okD(4) [OF ok] heap len None by (auto simp: c')
    qed
    show "h \<in> set (bg_lns (gc_heap c' ! g)) \<longleftrightarrow> gc_live c' h = Some g" if "g < length (gc_heap c')" for g h
      using that heap [OF that] reg_okD(6,7) [OF ok] new(1) by (auto simp: c' len less_Suc_eq)
    show "bg_open (gc_heap c' ! g) = (bg_lns (gc_heap c' ! g) \<noteq> [])" "distinct (bg_lns (gc_heap c' ! g))" if "g < length (gc_heap c')" for g
      using that heap [OF that] reg_okD(3,5) [OF ok] new by auto
  qed (use reg_okD(1,2,7) [OF ok] in \<open>auto simp: c' less_SucI split: if_splits\<close>)
  moreover have "\<forall>g\<in>opened c. gc_heap c' ! g = gc_heap c ! g" using heap len by (auto simp: opened_def)
  ultimately show ?thesis using open_eq by (simp add: c')
qed

text \<open>A new listener in a group that stands in the registry under its name.\<close>

lemma add_listener_ok:
  assumes ok: "grp_ok c" and cur: "gc_groups c (bg_group bg) = Some g" and bg: "bg_open bg" "bg_lns bg = bg_lns (gc_heap c ! g)"
    and c': "c' = c\<lparr>gc_heap := (gc_heap c)[g := bg\<lparr>bg_lns := bg_lns bg @ [gc_next c]\<rparr>], gc_next := gc_next c + 1, gc_live := (gc_live c)(gc_next c \<mapsto> g)\<rparr>"
  shows "grp_ok c'" "opened c' = insert g (opened c)" "g < length (gc_heap c)"
proof -
  let ?n = "length (gc_heap c)" and ?ln = "gc_next c"
  show g: "g < ?n" using reg_okD(1) [OF ok cur] .
  have heap: "gc_heap c' ! h = (if h = g then bg\<lparr>bg_lns := bg_lns bg @ [?ln]\<rparr> else gc_heap c ! h)" if "h < ?n" for h
    using that g by (simp add: c')
  have len: "length (gc_heap c') = ?n" by (simp add: c')
  have fresh: "gc_live c ?ln = None" using reg_okD(7) [OF ok, of ?ln] by fastforce
  show open_eq: "opened c' = insert g (opened c)"
    using g heap len by (auto simp: opened_def split: if_splits)
  show "grp_ok c'"
  proof (rule reg_okI)
    show "gc_groups c' (bg_group (gc_heap c' ! h)) = Some h" if h: "h \<in> opened c'" for h
    proof (cases "h = g")
      case False
      then have "h \<in> opened c" "h < ?n" using h open_eq by (auto simp: opened_def)
      then show ?thesis using False reg_okD(4) [OF ok] heap by (simp add: c')
    qed (use g heap cur in \<open>simp add: c'\<close>)
    show "h \<in> set (bg_lns (gc_heap c' ! k)) \<longleftrightarrow> gc_live c' h = Some k" if "k < length (gc_heap c')" for k h
    proof -
      have live: "gc_live c' = (gc_live c)(?ln \<mapsto> g)" by (simp add: c')
      have "k < ?n" using that len by simp
      then show ?thesis
        unfolding heap [OF \<open>k < ?n\<close>] live using reg_okD(6) [OF ok, of k h] bg(2) fresh by auto
    qed
    show "bg_open (gc_heap c' ! k) = (bg_lns (gc_heap c' ! k) \<noteq> [])" "distinct (bg_lns (gc_heap c' ! k))" if "k < length (gc_heap c')" for k
      using that heap [of k] len reg_okD(3,5) [OF ok, of k] reg_okD(6) [OF ok, of g ?ln] bg fresh g by auto
  qed (use reg_okD(1,2,7) [OF ok] g in \<open>auto simp: c' less_SucI split: if_splits\<close>)
qed

text \<open>One listener less.\<close>

lemma remove_listener_ok:
  assumes ok: "grp_ok c" and ln: "gc_live c ln = Some g"
    and lns: "lns = remove1 ln (bg_lns (gc_heap c ! g))"
    and groups: "groups = (if lns = [] then (gc_groups c)(bg_group (gc_heap c ! g) := None) else gc_groups c)"
    and c': "c' = c\<lparr>gc_live := (gc_live c)(ln := None), gc_heap := (gc_heap c)[g := (gc_heap c ! g)\<lparr>bg_lns := lns, bg_open := (lns \<noteq> [])\<rparr>], gc_groups := groups\<rparr>"
  shows "grp_ok c'" "opened c' = (if lns = [] then opened c - {g} else opened c)"
proof -
  let ?n = "length (gc_heap c)"
  have g: "g < ?n" using reg_okD(7) [OF ok ln] by simp
  have go: "g \<in> opened c" using live_opened [OF ok ln] .
  have heap: "gc_heap c' ! h = (if h = g then (gc_heap c ! g)\<lparr>bg_lns := lns, bg_open := (lns \<noteq> [])\<rparr> else gc_heap c ! h)" if "h < ?n" for h
    using that g by (simp add: c')
  have len: "length (gc_heap c') = ?n" and live: "gc_live c' = (gc_live c)(ln := None)" and gr: "gc_groups c' = groups"
    by (simp_all add: c')
  show open_eq: "opened c' = (if lns = [] then opened c - {g} else opened c)"
    using g go heap len by (auto simp: opened_def split: if_splits)
  have dist: "distinct (bg_lns (gc_heap c ! g))" using reg_okD(5) [OF ok g] .
  have sub: "gc_groups c k = Some h" if "gc_groups c' k = Some h" for k h
    using that by (simp add: gr groups split: if_splits)
  show "grp_ok c'"
  proof (rule reg_okI)
    show "gc_groups c' (bg_group (gc_heap c' ! h)) = Some h" if h: "h \<in> opened c'" for h
    proof -
      have ho: "h \<in> opened c" "h < ?n" using h open_eq by (auto simp: opened_def split: if_splits)
      have name: "bg_group (gc_heap c' ! h) = bg_group (gc_heap c ! h)" using heap [OF ho(2)] by simp
      have "bg_group (gc_heap c ! h) \<noteq> bg_group (gc_heap c ! g)" if lns': "lns = []"
      proof
        assume eq: "bg_group (gc_heap c ! h) = bg_group (gc_heap c ! g)"
        have "Some h = Some g" using reg_okD(4) [OF ok ho(1)] reg_okD(4) [OF ok go] unfolding eq by simp
        moreover have "h \<noteq> g" using h lns' unfolding open_eq by simp
        ultimately show False by simp
      qed
      then show ?thesis using reg_okD(4) [OF ok ho(1)] unfolding name gr groups by simp
    qed
    show "h \<in> set (bg_lns (gc_heap c' ! k)) \<longleftrightarrow> gc_live c' h = Some k" if "k < length (gc_heap c')" for k h
    proof -
      have "k < ?n" using that len by simp
      then show ?thesis
        unfolding heap [OF \<open>k < ?n\<close>] live using reg_okD(6) [OF ok, of k h] ln dist lns by auto
    qed
    show "bg_open (gc_heap c' ! k) = (bg_lns (gc_heap c' ! k) \<noteq> [])" "distinct (bg_lns (gc_heap c' ! k))" if "k < length (gc_heap c')" for k
      using that heap [of k] len reg_okD(3,5) [OF ok, of k] dist lns by auto
    show "k = k'" if "gc_groups c' k = Some h" "gc_groups c' k' = Some h" for k k' h
      using reg_okD(2) [OF ok sub [OF that(1)] sub [OF that(2)]] .
    show "h < length (gc_heap c')" if "gc_groups c' k = Some h" for k h
      using reg_okD(1) [OF ok sub [OF that]] len by simp
    show "h < length (gc_heap c') \<and> l < gc_next c'" if "gc_live c' l = Some h" for l h
      using reg_okD(7) [OF ok, of l h] that live len by (simp add: c' split: if_splits)
  qed
qed

lemma closeListener_eq:
  fixes c :: "('p, 'r) groupCtl"
  assumes ok: "grp_ok c" and ln: "gc_live c ln = Some g"
  shows "Listener_Close cls ln c e =
    (let bg = gc_heap c ! g; lns = remove1 ln (bg_lns bg) in
     Inr (c\<lparr>gc_live := (gc_live c)(ln := None), gc_heap := (gc_heap c)[g := bg\<lparr>bg_lns := lns, bg_open := (lns \<noteq> [])\<rparr>],
            gc_groups := (if lns = [] then (gc_groups c)(bg_group bg := None) else gc_groups c)\<rparr>,
          if lns = [] then cls (bg_real bg) e else e))"
proof -
  have g: "g < length (gc_heap c)" "g \<in> opened c" using reg_okD(7) [OF ok ln] live_opened [OF ok ln] by simp_all
  have op: "bg_open (gc_heap c ! g)" using reg_okD(3) [OF ok g(1)] g(2) by (simp add: opened_def)
  have cur: "gc_groups c (bg_group (gc_heap c ! g)) = Some g" using reg_okD(4) [OF ok g(2)] .
  have same: "(gc_heap c ! g)\<lparr>bg_lns := x, bg_open := True\<rparr> = (gc_heap c ! g)\<lparr>bg_lns := x\<rparr>" for x
    using op by (cases "gc_heap c ! g") simp
  show ?thesis
  proof (cases "remove1 ln (bg_lns (gc_heap c ! g)) = []")
    case True
    then show ?thesis by (simp add: Listener_Close_def closeListener_def removeIf_def ln op cur)
  next
    case False
    then show ?thesis by (simp add: Listener_Close_def closeListener_def ln same Let_def)
  qed
qed

section \<open>Groups over a resource\<close>

text \<open>
  What a group needs of the place where it listens: opening takes an address that no group holds, a failed opening takes none, closing an address that
  is held gives exactly that address back, and what the rest of the server does leaves the addresses held by the groups as they are.
\<close>

locale group_resource =
  fixes env_ok :: "'e \<Rightarrow> bool" and held :: "'e \<Rightarrow> 'k set" and address :: "'r \<Rightarrow> 'k"
    and opens :: "'p \<Rightarrow> 'e \<Rightarrow> (group_error + 'r) \<times> 'e \<Rightarrow> bool" and closes :: "'r \<Rightarrow> 'e \<Rightarrow> 'e \<Rightarrow> bool"
    and others :: "'e \<Rightarrow> 'e \<Rightarrow> bool" and check :: "'p \<Rightarrow> 'p \<Rightarrow> group_error option" and newG :: "('p, 'r) baseGroup"
  assumes open_fresh: "env_ok e \<Longrightarrow> opens p e (Inr r, e') \<Longrightarrow> env_ok e' \<and> address r \<notin> held e \<and> held e' = insert (address r) (held e)"
    and open_fails: "env_ok e \<Longrightarrow> opens p e (Inl x, e') \<Longrightarrow> env_ok e' \<and> held e' = held e"
    and close_held: "env_ok e \<Longrightarrow> address r \<in> held e \<Longrightarrow> closes r e e' \<Longrightarrow> env_ok e' \<and> held e' = held e - {address r}"
    and others_held: "env_ok e \<Longrightarrow> others e e' \<Longrightarrow> env_ok e' \<and> held e' = held e"
    and check_same: "check p q = None \<longleftrightarrow> p = q"
    and new_group: "bg_lns newG = []" "\<not> bg_open newG"
begin

definition group_ok :: "('p, 'r, 'e) group_state \<Rightarrow> bool" where
  "group_ok s \<longleftrightarrow> grp_ok (gs_ctl s) \<and> asked_ok (gs_ctl s) (gs_asked s) \<and> env_ok (gs_env s) \<and>
    address ` addresses (gs_ctl s) \<subseteq> held (gs_env s) \<and>
    inj_on (\<lambda>g. address (bg_real (gc_heap (gs_ctl s) ! g))) (opened (gs_ctl s))"

lemma step_lookup:
  assumes s: "group_ok s" and get: "getOrCreate newG k (gs_ctl s) = (g, ctl)"
  shows "group_ok (s\<lparr>gs_ctl := ctl\<rparr>)"
proof -
  note eq = getOrCreate_ok [OF _ new_group get]
  have ok: "grp_ok (gs_ctl s)" using s by (simp add: group_ok_def)
  note eq = eq [OF ok]
  have heap: "gc_heap ctl ! g = gc_heap (gs_ctl s) ! g" if "g \<in> opened (gs_ctl s)" for g using eq that by blast
  have live: "g \<in> opened (gs_ctl s)" if "gc_live (gs_ctl s) ln = Some g" for g ln using live_opened [OF ok that] .
  have asked: "asked_ok ctl (gs_asked s)"
    using s eq heap live unfolding group_ok_def asked_ok_def by simp
  have "addresses ctl = addresses (gs_ctl s)" using eq heap by (auto simp: addresses_def)
  moreover have "inj_on (\<lambda>g. address (bg_real (gc_heap ctl ! g))) (opened ctl)"
    using s eq heap unfolding group_ok_def by (simp add: inj_on_def)
  ultimately show ?thesis using s eq asked by (simp add: group_ok_def)
qed

text \<open>The first member opens the public address, a further one joins when name, key and parameters agree.\<close>

lemma group_Listen_cases:
  assumes "grp_ok c" "group_Listen opn check g grp k p c e = (res, c', e')"
  obtains (failed) x where "res = Inl x" "c' = c" "e' = e \<or> opn e = (Inl x, e')"
  | (first) real where "gc_groups c grp = Some g" "g \<notin> opened c" "opn e = (Inr real, e')" "res = Inr (gc_next c, real)"
      "c' = snd (newListener g (initBase grp k p real g c))"
  | (joined) "gc_groups c grp = Some g" "g \<in> opened c" "bg_group (gc_heap c ! g) = grp" "bg_params (gc_heap c ! g) = p"
      "bg_groupKey (gc_heap c ! g) = k" "res = Inr (gc_next c, bg_real (gc_heap c ! g))" "e' = e" "c' = snd (newListener g c)"
proof (cases "gc_groups c grp = Some g")
  case False
  then show ?thesis using that(1) [of errGroupStale] assms(2) by (auto simp: group_Listen_def isCurrent_def)
next
  case cur: True
  then have g: "g < length (gc_heap c)" using reg_okD(1) [OF assms(1)] by blast
  note L = assms(2) [unfolded group_Listen_def isCurrent_def Let_def]
  show ?thesis
  proof (cases "bg_lns (gc_heap c ! g) = []")
    case True
    then show ?thesis
      using that(1,2) L cur by (auto simp: opened_def newListener_def initBase_def Let_def split: prod.splits sum.splits)
  next
    case False
    then have g: "g \<in> opened c" using g by (simp add: opened_def)
    show ?thesis
    proof (cases "bg_group (gc_heap c ! g) = grp \<and> bg_params (gc_heap c ! g) = p \<and> bg_groupKey (gc_heap c ! g) = k")
      case True
      moreover have "check p p = None" by (simp add: check_same)
      ultimately show ?thesis using that(3) L cur g False by (simp add: newListener_def Let_def)
    next
      case no: False
      have "check (bg_params (gc_heap c ! g)) p = None \<Longrightarrow> bg_params (gc_heap c ! g) = p" by (simp add: check_same)
      then show ?thesis using that(1) L cur no False by (auto split: if_splits option.splits)
    qed
  qed
qed

lemma step_add:
  assumes s: "group_ok s" and cur: "gc_groups (gs_ctl s) (bg_group bg) = Some g" and bg: "bg_open bg" "bg_lns bg = bg_lns (gc_heap (gs_ctl s) ! g)"
    and c': "c' = (gs_ctl s)\<lparr>gc_heap := (gc_heap (gs_ctl s))[g := bg\<lparr>bg_lns := bg_lns bg @ [gc_next (gs_ctl s)]\<rparr>],
        gc_next := gc_next (gs_ctl s) + 1, gc_live := (gc_live (gs_ctl s))(gc_next (gs_ctl s) \<mapsto> g)\<rparr>"
    and env: "env_ok e" "held (gs_env s) \<subseteq> held e" "address (bg_real bg) \<in> held e"
    and fresh: "g \<in> opened (gs_ctl s) \<Longrightarrow> bg = gc_heap (gs_ctl s) ! g" "g \<notin> opened (gs_ctl s) \<Longrightarrow> address (bg_real bg) \<notin> held (gs_env s)"
  shows "group_ok \<lparr>gs_ctl = c', gs_env = e, gs_asked = (gs_asked s)(gc_next (gs_ctl s) \<mapsto> (bg_group bg, bg_groupKey bg, bg_params bg))\<rparr>"
proof -
  let ?c = "gs_ctl s" and ?ln = "gc_next (gs_ctl s)"
  have ok: "grp_ok ?c" and asked: "asked_ok ?c (gs_asked s)" and sub: "address ` addresses ?c \<subseteq> held (gs_env s)"
      and inj: "inj_on (\<lambda>g. address (bg_real (gc_heap ?c ! g))) (opened ?c)"
    using s by (simp_all add: group_ok_def)
  note new = add_listener_ok [OF ok cur bg c']
  have heap: "gc_heap c' ! h = (if h = g then bg\<lparr>bg_lns := bg_lns bg @ [?ln]\<rparr> else gc_heap ?c ! h)" for h
    using new(3) by (simp add: c')
  have live: "gc_live c' = (gc_live ?c)(?ln \<mapsto> g)" by (simp add: c')
  have "asked_ok c' ((gs_asked s)(?ln \<mapsto> (bg_group bg, bg_groupKey bg, bg_params bg)))"
    unfolding asked_ok_def
  proof (intro allI impI)
    fix l h assume l: "gc_live c' l = Some h"
    show "((gs_asked s)(?ln \<mapsto> (bg_group bg, bg_groupKey bg, bg_params bg))) l =
        Some (bg_group (gc_heap c' ! h), bg_groupKey (gc_heap c' ! h), bg_params (gc_heap c' ! h))"
    proof (cases "l = ?ln")
      case True
      then show ?thesis using l live heap by simp
    next
      case False
      then have l': "gc_live ?c l = Some h" using l live by simp
      have a: "gs_asked s l = Some (bg_group (gc_heap ?c ! h), bg_groupKey (gc_heap ?c ! h), bg_params (gc_heap ?c ! h))"
        using asked l' by (simp add: asked_ok_def)
      have "h = g \<Longrightarrow> bg = gc_heap ?c ! g" using fresh(1) live_opened [OF ok l'] by simp
      then show ?thesis using a False heap by simp
    qed
  qed
  moreover have real: "bg_real (gc_heap c' ! h) = (if h = g then bg_real bg else bg_real (gc_heap ?c ! h))" for h
    using heap by simp
  have "addresses c' = insert (bg_real bg) (addresses ?c)"
    using real fresh(1) unfolding addresses_def new(2) by (auto simp: image_iff)
  then have "address ` addresses c' \<subseteq> held e" using sub env by auto
  moreover have "inj_on (\<lambda>h. address (bg_real (gc_heap c' ! h))) (opened c')"
  proof (cases "g \<in> opened ?c")
    case True
    then have "bg_real (gc_heap c' ! h) = bg_real (gc_heap ?c ! h)" for h using real fresh(1) by simp
    then show ?thesis using inj True unfolding new(2) by (simp add: insert_absorb)
  next
    case False
    then have eq: "address (bg_real (gc_heap c' ! h)) = address (bg_real (gc_heap ?c ! h))" if "h \<in> opened ?c" for h
      using real that by auto
    have "address (bg_real bg) \<notin> (\<lambda>h. address (bg_real (gc_heap ?c ! h))) ` opened ?c"
      using sub fresh(2) [OF False] unfolding addresses_def by auto
    moreover have "inj_on (\<lambda>h. address (bg_real (gc_heap c' ! h))) (opened ?c)" using inj eq by (simp add: inj_on_def)
    ultimately show ?thesis using False real eq unfolding new(2) inj_on_insert by (auto simp: image_iff)
  qed
  ultimately show ?thesis using new(1) env(1) by (simp add: group_ok_def)
qed

lemma step_listen:
  assumes s: "group_ok s" and opn: "opens p (gs_env s) (opn (gs_env s))"
    and L: "group_Listen opn check g grp k p (gs_ctl s) (gs_env s) = (res, c', e)"
  shows "group_ok \<lparr>gs_ctl = c', gs_env = e, gs_asked = (case res of Inl _ \<Rightarrow> gs_asked s | Inr (ln, _) \<Rightarrow> (gs_asked s)(ln \<mapsto> (grp, k, p)))\<rparr>"
proof -
  have ok: "grp_ok (gs_ctl s)" and env: "env_ok (gs_env s)" and sub: "address ` addresses (gs_ctl s) \<subseteq> held (gs_env s)"
    using s by (simp_all add: group_ok_def)
  show ?thesis
    using ok L
  proof (cases rule: group_Listen_cases)
    case (failed x)
    then have "env_ok e \<and> held e = held (gs_env s)" using env open_fails opn by auto
    then show ?thesis using failed s by (simp add: group_ok_def)
  next
    case (first real)
    let ?bg = "(gc_heap (gs_ctl s) ! g)\<lparr>bg_group := grp, bg_groupKey := k, bg_params := p, bg_real := real, bg_open := True\<rparr>"
    have "g < length (gc_heap (gs_ctl s))" using reg_okD(1) [OF ok first(1)] .
    then have c': "c' = (gs_ctl s)\<lparr>gc_heap := (gc_heap (gs_ctl s))[g := ?bg\<lparr>bg_lns := bg_lns ?bg @ [gc_next (gs_ctl s)]\<rparr>],
        gc_next := gc_next (gs_ctl s) + 1, gc_live := (gc_live (gs_ctl s))(gc_next (gs_ctl s) \<mapsto> g)\<rparr>"
      using first by (simp add: newListener_def initBase_def Let_def)
    have "opens p (gs_env s) (Inr real, e)" using opn first by simp
    then have e: "env_ok e" "address real \<notin> held (gs_env s)" "held e = insert (address real) (held (gs_env s))"
      using open_fresh [OF env] by blast+
    show ?thesis using step_add [OF s _ _ _ c', of e] first e by auto
  next
    case joined
    have g: "g < length (gc_heap (gs_ctl s))" using reg_okD(1) [OF ok joined(1)] .
    have op: "bg_open (gc_heap (gs_ctl s) ! g)" using reg_okD(3) [OF ok g] joined(2) by (simp add: opened_def)
    have c': "c' = (gs_ctl s)\<lparr>gc_heap := (gc_heap (gs_ctl s))[g := (gc_heap (gs_ctl s) ! g)\<lparr>bg_lns := bg_lns (gc_heap (gs_ctl s) ! g) @ [gc_next (gs_ctl s)]\<rparr>],
        gc_next := gc_next (gs_ctl s) + 1, gc_live := (gc_live (gs_ctl s))(gc_next (gs_ctl s) \<mapsto> g)\<rparr>"
      using joined by (simp add: newListener_def Let_def)
    have "address (bg_real (gc_heap (gs_ctl s) ! g)) \<in> held e"
      using sub joined by (auto simp: addresses_def)
    then show ?thesis using step_add [OF s _ op refl c', of e] joined env by auto
  qed
qed

lemma step_close:
  assumes s: "group_ok s" and cls: "\<And>real. closes real (gs_env s) (cls real (gs_env s))"
    and C: "Listener_Close cls ln (gs_ctl s) (gs_env s) = Inr (c', e)"
  shows "group_ok (s\<lparr>gs_ctl := c', gs_env := e\<rparr>)"
proof (cases "gc_live (gs_ctl s) ln")
  case None
  then have "s\<lparr>gs_ctl := c', gs_env := e\<rparr> = s" using C by (simp add: Listener_Close_def)
  then show ?thesis using s by simp
next
  case (Some g)
  let ?c = "gs_ctl s" and ?bg = "gc_heap (gs_ctl s) ! g" and ?lns = "remove1 ln (bg_lns (gc_heap (gs_ctl s) ! g))"
  have ok: "grp_ok ?c" and asked: "asked_ok ?c (gs_asked s)" and env: "env_ok (gs_env s)" and sub: "address ` addresses ?c \<subseteq> held (gs_env s)"
      and inj: "inj_on (\<lambda>g. address (bg_real (gc_heap ?c ! g))) (opened ?c)"
    using s by (simp_all add: group_ok_def)
  have g: "g < length (gc_heap ?c)" "g \<in> opened ?c" using reg_okD(7) [OF ok Some] live_opened [OF ok Some] by simp_all
  have c': "c' = ?c\<lparr>gc_live := (gc_live ?c)(ln := None), gc_heap := (gc_heap ?c)[g := ?bg\<lparr>bg_lns := ?lns, bg_open := (?lns \<noteq> [])\<rparr>],
      gc_groups := (if ?lns = [] then (gc_groups ?c)(bg_group ?bg := None) else gc_groups ?c)\<rparr>"
    and e: "e = (if ?lns = [] then cls (bg_real ?bg) (gs_env s) else gs_env s)"
    using C closeListener_eq [OF ok Some, of cls "gs_env s"] by (simp_all add: Let_def)
  note rm = remove_listener_ok [OF ok Some refl refl c']
  have same: "bg_real (gc_heap c' ! h) = bg_real (gc_heap ?c ! h)" "bg_group (gc_heap c' ! h) = bg_group (gc_heap ?c ! h)"
      "bg_groupKey (gc_heap c' ! h) = bg_groupKey (gc_heap ?c ! h)" "bg_params (gc_heap c' ! h) = bg_params (gc_heap ?c ! h)" for h
    using g(1) by (cases "h = g"; simp add: c')+
  have live: "gc_live c' = (gc_live ?c)(ln := None)" by (simp add: c')
  have "asked_ok c' (gs_asked s)" using asked unfolding asked_ok_def same live by (simp split: if_splits)
  moreover have "env_ok e \<and> address ` addresses c' \<subseteq> held e"
  proof (cases "?lns = []")
    case True
    have "address (bg_real ?bg) \<in> held (gs_env s)" using sub g(2) by (auto simp: addresses_def)
    then have e': "env_ok e" "held e = held (gs_env s) - {address (bg_real ?bg)}" using close_held [OF env _ cls] e True by simp_all
    have "address (bg_real (gc_heap ?c ! h)) \<noteq> address (bg_real ?bg)" if "h \<in> opened ?c" "h \<noteq> g" for h
      using inj_onD [OF inj _ that(1) g(2)] that(2) by blast
    then show ?thesis using e' sub True unfolding addresses_def same rm(2) by auto
  next
    case False
    then show ?thesis using e env sub unfolding addresses_def same rm(2) by simp
  qed
  moreover have "inj_on (\<lambda>h. address (bg_real (gc_heap c' ! h))) (opened c')"
    using inj_on_subset [OF inj] unfolding same rm(2) by simp
  ultimately show ?thesis using rm(1) by (simp add: group_ok_def)
qed

lemma step_other: "group_ok s \<Longrightarrow> others (gs_env s) e \<Longrightarrow> group_ok (s\<lparr>gs_env := e\<rparr>)"
  using others_held [of "gs_env s" e] by (auto simp: group_ok_def)

lemma group_ok_step: "group_step opens closes others check newG s s' \<Longrightarrow> group_ok s \<Longrightarrow> group_ok s'"
proof (induction rule: group_step.induct)
  case (lookup k s g ctl)
  then show ?case by (intro step_lookup)
next
  case (listen params s opn g grp k res ctl e)
  then show ?case by (intro step_listen)
next
  case (close s cls ln ctl e)
  then show ?case by (intro step_close)
next
  case (other s e)
  then show ?case by (intro step_other)
qed

lemma group_ok_reach:
  assumes "(group_step opens closes others check newG)\<^sup>*\<^sup>* s s'" "group_ok s"
  shows "group_ok s'"
  using assms by (induction rule: rtranclp_induct) (auto intro: group_ok_step)

lemma group_ok_init: "env_ok e \<Longrightarrow> group_ok \<lparr>gs_ctl = newGroupRegistry, gs_env = e, gs_asked = Map.empty\<rparr>"
  by (simp add: group_ok_def newGroupRegistry_def grp_ok_def asked_ok_def opened_def addresses_def)

text \<open>Two members share a public address exactly when they are in the group with the same name.\<close>

lemma members_share:
  assumes s: "group_ok s" and live: "gc_live (gs_ctl s) a = Some g" "gc_live (gs_ctl s) b = Some h"
    and asked: "gs_asked s a = Some (n, k, p)" "gs_asked s b = Some (n', k', p')"
  shows "address (bg_real (gc_heap (gs_ctl s) ! g)) = address (bg_real (gc_heap (gs_ctl s) ! h)) \<longleftrightarrow> n = n'"
    "n = n' \<Longrightarrow> g = h \<and> k = k' \<and> p = p'" "address (bg_real (gc_heap (gs_ctl s) ! g)) \<in> held (gs_env s)"
proof -
  let ?c = "gs_ctl s"
  have ok: "grp_ok ?c" and sub: "address ` addresses ?c \<subseteq> held (gs_env s)"
      and inj: "inj_on (\<lambda>g. address (bg_real (gc_heap ?c ! g))) (opened ?c)"
    and aok: "asked_ok ?c (gs_asked s)"
    using s by (simp_all add: group_ok_def)
  have g: "g \<in> opened ?c" and h: "h \<in> opened ?c" using live_opened [OF ok] live by blast+
  have a: "(n, k, p) = (bg_group (gc_heap ?c ! g), bg_groupKey (gc_heap ?c ! g), bg_params (gc_heap ?c ! g))"
    using aok live(1) asked(1) by (simp add: asked_ok_def)
  have b: "(n', k', p') = (bg_group (gc_heap ?c ! h), bg_groupKey (gc_heap ?c ! h), bg_params (gc_heap ?c ! h))"
    using aok live(2) asked(2) by (simp add: asked_ok_def)
  have gh: "g = h" if nn: "n = n'"
  proof -
    have "bg_group (gc_heap ?c ! g) = bg_group (gc_heap ?c ! h)" using a b nn by simp
    then have "gc_groups ?c (bg_group (gc_heap ?c ! h)) = Some g" using reg_okD(4) [OF ok g] by (simp only:)
    then show ?thesis using reg_okD(4) [OF ok h] by (simp only: option.inject)
  qed
  then show "n = n' \<Longrightarrow> g = h \<and> k = k' \<and> p = p'" using a b by simp
  have "n = n'" if "g = h" using a b that by simp
  then show "address (bg_real (gc_heap ?c ! g)) = address (bg_real (gc_heap ?c ! h)) \<longleftrightarrow> n = n'"
    using gh inj_onD [OF inj _ g h] by blast
  show "address (bg_real (gc_heap ?c ! g)) \<in> held (gs_env s)"
    using sub g unfolding addresses_def by blast
qed

lemma close_no_panic: "group_ok s \<Longrightarrow> Listener_Close cls ln (gs_ctl s) (gs_env s) \<noteq> Inl Panic"
proof (cases "gc_live (gs_ctl s) ln")
  case (Some g)
  assume "group_ok s"
  then have "grp_ok (gs_ctl s)" by (simp add: group_ok_def)
  then show ?thesis using closeListener_eq [OF _ Some, of cls "gs_env s"] by (simp add: Let_def)
qed (simp add: Listener_Close_def)

end

section \<open>TCP groups on the port manager\<close>

text \<open>
  The environment of the TCP groups is the port manager and the ports on which the groups have sockets open.  Every group listens at the address that
  the server is configured to bind (\<open>bind\<close>, the only argument that \<^verbatim>\<open>server/proxy/tcp.go\<close> gives).  Of the operating system only this is used: as long as a
  socket is open, no second one can be opened for the same address and port (port 0 is special, it stands for any port).  Its other
  answers are arbitrary, in particular those to the trial of \<^verbatim>\<open>isPortAvailable\<close>, and so is the order in which the free ports are visited.  Nothing is
  assumed of the other users of the port manager: they acquire ports and release any port at any time, also one that a group listens on.  \<^verbatim>\<open>Acquire\<close> and
  \<^verbatim>\<open>net.Listen\<close> of the first member are one step, as are the closing of the socket and \<^verbatim>\<open>Release\<close>.
\<close>

record tcp_env =
  te_ports :: Manager
  te_socks :: "int set"

definition env_open :: "os_net \<Rightarrow> int list \<Rightarrow> int \<Rightarrow> (bytes \<Rightarrow> int \<Rightarrow> bool) \<Rightarrow> bytes \<Rightarrow> tcp_params \<Rightarrow> tcp_env \<Rightarrow> (group_error + int) \<times> tcp_env" where
  "env_open os order now sock name params e =
    (case tcp_open os order now sock name params (te_ports e) of
       (Inl err, pm) \<Rightarrow> (Inl err, e\<lparr>te_ports := pm\<rparr>)
     | (Inr p, pm) \<Rightarrow> (Inr p, \<lparr>te_ports = pm, te_socks = insert p (te_socks e)\<rparr>))"

definition env_close :: "int \<Rightarrow> int \<Rightarrow> tcp_env \<Rightarrow> tcp_env" where
  "env_close now p e = \<lparr>te_ports = tcp_close now p (te_ports e), te_socks = te_socks e - {p}\<rparr>"

definition tcp_opens :: "bytes \<Rightarrow> tcp_params \<Rightarrow> tcp_env \<Rightarrow> (group_error + int) \<times> tcp_env \<Rightarrow> bool" where
  "tcp_opens bind params e res \<longleftrightarrow> fst params = bind \<and>
    (\<exists>os order now sock name. set order = freePorts (te_ports e) \<and> distinct order \<and> (\<forall>p\<in>te_socks e. p \<noteq> 0 \<longrightarrow> \<not> sock bind p) \<and>
      res = env_open os order now sock name params e)"

definition tcp_closes :: "int \<Rightarrow> tcp_env \<Rightarrow> tcp_env \<Rightarrow> bool" where
  "tcp_closes realPort e e' \<longleftrightarrow> (\<exists>now. e' = env_close now realPort e)"

definition tcp_others :: "tcp_env \<Rightarrow> tcp_env \<Rightarrow> bool" where
  "tcp_others e e' \<longleftrightarrow> te_socks e' = te_socks e \<and> pm_step (te_ports e) (te_ports e')"

definition ports_ok :: "int set \<Rightarrow> tcp_env \<Rightarrow> bool" where
  "ports_ok A e \<longleftrightarrow> pm_inv A (te_ports e) \<and> te_socks e \<subseteq> A \<and> 0 \<notin> A"

lemma used_Release [simp]: "dom (usedPorts (Port_Release now pm p)) = dom (usedPorts pm) - {p}"
  by (auto simp: Port_Release_def split: option.splits if_splits)

lemma tcp_open_cases:
  assumes inv: "pm_inv A pm" "0 \<notin> A" and order: "set order = freePorts pm"
    and r: "tcp_open os order now sock name params pm = (res, pm')"
  shows "pm_inv A pm' \<and> (\<forall>p. res = Inr p \<longrightarrow> p \<in> A \<and> sock (fst params) p)"
proof -
  obtain addr port where params: "params = (addr, port)" by (cases params)
  obtain a pm1 where acq: "Acquire os order now pm name port = (a, pm1)" by fastforce
  consider (got) q where "pm1 = pm_take pm name now q" "q \<in> A" "a = Inr q" | (none) y where "pm1 = pm" "a = Inl y"
    using Acquire_cases [OF acq order inv(1)] inv(2) by blast
  then show ?thesis
  proof cases
    case got
    have "pm_inv A pm1" using pm_inv_take [OF inv(1) got(2)] got(1) by simp
    moreover have "(res, pm') = (if sock addr q then (Inr q, pm1) else (Inl ErrNetListen, Port_Release now pm1 q))"
      using r acq got(3) params by (auto simp: tcp_open_def split: if_splits)
    ultimately show ?thesis using got(2) params pm_inv_Release [of A pm1] by (cases "sock addr q") auto
  next
    case none
    then show ?thesis using r acq params inv(1) by (auto simp: tcp_open_def)
  qed
qed

lemma tcp_opens_cases:
  assumes ok: "ports_ok A e" and opn: "tcp_opens bind params e (res, e')"
  shows "ports_ok A e'" "res = Inr p \<Longrightarrow> p \<notin> te_socks e \<and> te_socks e' = insert p (te_socks e)" "res = Inl x \<Longrightarrow> te_socks e' = te_socks e"
proof -
  obtain os order now sock name where o: "set order = freePorts (te_ports e)" "\<forall>p\<in>te_socks e. p \<noteq> 0 \<longrightarrow> \<not> sock (fst params) p"
      "env_open os order now sock name params e = (res, e')"
    using opn unfolding tcp_opens_def by metis
  obtain y pm where y: "tcp_open os order now sock name params (te_ports e) = (y, pm)" by fastforce
  have pm: "pm_inv A pm" "y = Inr q \<Longrightarrow> q \<in> A \<and> q \<notin> te_socks e" for q
    using tcp_open_cases [OF _ _ o(1) y, of A] ok o(2) unfolding ports_ok_def by (blast, metis)
  show "ports_ok A e'" "res = Inr p \<Longrightarrow> p \<notin> te_socks e \<and> te_socks e' = insert p (te_socks e)" "res = Inl x \<Longrightarrow> te_socks e' = te_socks e"
    using o(3) y pm ok by (auto simp: env_open_def ports_ok_def split: sum.splits)
qed

interpretation tcp: group_resource "ports_ok A" te_socks "\<lambda>p. p" "tcp_opens bind" tcp_closes tcp_others tcp_check NewTCPGroup for A bind
proof (unfold_locales, goal_cases)
  case (1 e p r e')
  then show ?case using tcp_opens_cases [of A e bind p "Inr r" e'] by simp
next
  case (2 e p x e')
  then show ?case using tcp_opens_cases [of A e bind p "Inl x" e'] by simp
next
  case (3 e r e')
  then show ?case by (auto simp: tcp_closes_def env_close_def tcp_close_def ports_ok_def pm_inv_Release)
next
  case (4 e e')
  then show ?case using pm_inv_step by (auto simp: tcp_others_def ports_ok_def)
qed (auto simp: tcp_check_def NewTCPGroup_def prod_eq_iff split: if_splits)

lemma remove1_Nil_iff: "distinct xs \<Longrightarrow> x \<in> set xs \<Longrightarrow> remove1 x xs = [] \<longleftrightarrow> (\<forall>y\<in>set xs. y = x)"
  by (cases xs rule: remdups_adj.cases) auto

text \<open>Closing a listener leaves the environment alone while the group has other members, and closes the public address otherwise.\<close>

lemma close_releases:
  assumes ok: "grp_ok c" and ln: "gc_live c ln = Some g"
  shows "\<exists>c'. Listener_Close cls ln c e = Inr (c', if \<exists>l. l \<noteq> ln \<and> gc_live c l = Some g then e else cls (bg_real (gc_heap c ! g)) e)"
proof -
  have g: "g < length (gc_heap c)" using reg_okD(7) [OF ok ln] by simp
  have "remove1 ln (bg_lns (gc_heap c ! g)) = [] \<longleftrightarrow> \<not> (\<exists>l. l \<noteq> ln \<and> gc_live c l = Some g)"
    using remove1_Nil_iff [OF reg_okD(5) [OF ok g], of ln] reg_okD(6) [OF ok g] ln by auto
  then show ?thesis
    using closeListener_eq [OF ok ln, of cls e] unfolding Let_def by (cases "\<exists>l. l \<noteq> ln \<and> gc_live c l = Some g") auto
qed

text \<open>
  C26. Groups of TCP proxies.  All groups listen at the address the server binds, and the operating system opens no second socket for an address and
  port that has one open; port 0 is not configured.  Then in every state that any number of proxies reach by looking groups up, listening and closing,
  while others acquire and release any ports of the same port manager: two members have the same public port exactly when they named the same group, and
  then they gave the same group key, address and port; the group has the socket of that port open and the port is a configured one; and closing a listener never panics,
  changes neither the sockets nor the port manager while another member of the group is left, and otherwise closes that socket only and makes the port no longer used.
\<close>

theorem tcp_groups:
  assumes "(group_step (tcp_opens bind) tcp_closes tcp_others tcp_check NewTCPGroup)\<^sup>*\<^sup>*
      \<lparr>gs_ctl = newGroupRegistry, gs_env = \<lparr>te_ports = NewManager nt addr ranges, te_socks = {}\<rparr>, gs_asked = Map.empty\<rparr> s"
    and "0 \<notin> freePorts (NewManager nt addr ranges)"
    and "gc_live (gs_ctl s) a = Some g" "gc_live (gs_ctl s) b = Some h"
    and "gs_asked s a = Some (n, k, p)" "gs_asked s b = Some (n', k', p')"
    and "q = bg_real (gc_heap (gs_ctl s) ! g)"
  shows "(q = bg_real (gc_heap (gs_ctl s) ! h) \<longleftrightarrow> n = n') \<and> (n = n' \<longrightarrow> k = k' \<and> p = p') \<and>
    q \<in> te_socks (gs_env s) \<and> q \<in> freePorts (NewManager nt addr ranges) \<and>
    (\<exists>c' e'. Listener_Close (env_close now) a (gs_ctl s) (gs_env s) = Inr (c', e') \<and>
      (if \<exists>l. l \<noteq> a \<and> gc_live (gs_ctl s) l = Some g then e' = gs_env s
       else te_socks e' = te_socks (gs_env s) - {q} \<and> q \<notin> dom (usedPorts (te_ports e'))))"
proof -
  let ?A = "freePorts (NewManager nt addr ranges)"
  have "ports_ok ?A \<lparr>te_ports = NewManager nt addr ranges, te_socks = {}\<rparr>"
    using assms(2) pm_inv_new by (simp add: ports_ok_def)
  then have ok: "tcp.group_ok ?A s"
    using tcp.group_ok_reach [OF assms(1) tcp.group_ok_init] by blast
  note share = tcp.members_share [OF this assms(3-6)]
  have g: "grp_ok (gs_ctl s)" "te_socks (gs_env s) \<subseteq> ?A"
    using ok unfolding tcp.group_ok_def ports_ok_def by blast+
  show ?thesis
    using share g(2) close_releases [OF g(1) assms(3), of "env_close now" "gs_env s"] unfolding assms(7)
    by (auto simp: env_close_def tcp_close_def split: if_splits)
qed

definition open_net :: os_net where
  "open_net = \<lparr>ResolveUDPAddr = (\<lambda>_ _. True), ListenUDP = (\<lambda>_ _. True), net_Listen = (\<lambda>_ _ _. True)\<rparr>"

definition pool_6000 :: tcp_env where
  "pool_6000 = \<lparr>te_ports = NewManager (str ''tcp'') [] [\<lparr>pr_Start = 0, pr_End = 0, pr_Single = 6000\<rparr>], te_socks = {}\<rparr>"

definition demo_open :: "tcp_env \<Rightarrow> (group_error + int) \<times> tcp_env" where
  "demo_open = env_open open_net [6000] 0 (\<lambda>_ _. True) (str ''p'') ([], 6000)"

text \<open>Two proxies look the group up and listen, one after the other; in between, another user of the port manager releases the port of the group.\<close>

definition demo_ctl :: "(tcp_params, int) groupCtl" where
  "demo_ctl = snd (getOrCreate NewTCPGroup (str ''g'') newGroupRegistry)"

definition demo_first :: "(group_error + nat \<times> int) \<times> (tcp_params, int) groupCtl \<times> tcp_env" where
  "demo_first = group_Listen demo_open tcp_check 0 (str ''g'') (str ''k'') ([], 6000) demo_ctl pool_6000"

definition demo_between :: tcp_env where
  "demo_between = (snd (snd demo_first))\<lparr>te_ports := Port_Release 5 (te_ports (snd (snd demo_first))) 6000\<rparr>"

definition demo_open2 :: "tcp_env \<Rightarrow> (group_error + int) \<times> tcp_env" where
  "demo_open2 = env_open open_net [6000] 0 (\<lambda>_ _. False) (str ''q'') ([], 6000)"

definition demo_second :: "(group_error + nat \<times> int) \<times> (tcp_params, int) groupCtl \<times> tcp_env" where
  "demo_second = group_Listen demo_open2 tcp_check 0 (str ''g'') (str ''k'') ([], 6000) (fst (snd demo_first)) demo_between"

lemmas demo_simps = demo_first_def demo_second_def demo_between_def demo_ctl_def demo_open_def demo_open2_def pool_6000_def getOrCreate_def
  newGroupRegistry_def NewTCPGroup_def group_Listen_def isCurrent_def env_open_def tcp_open_def Acquire_def NewManager_def isPortAvailable_def
  open_net_def pm_take_def Port_Release_def newListener_def initBase_def tcp_check_def

lemma demo_results:
  "fst demo_first = Inr (0, 6000)" "fst demo_second = Inr (1, 6000)" "freePorts (te_ports pool_6000) = {6000}" "freePorts (te_ports demo_between) = {6000}"
  "te_socks demo_between = {6000}" "gc_live (fst (snd demo_second)) = [0 \<mapsto> 0, 1 \<mapsto> 0]" "te_socks pool_6000 = {}"
  "snd (snd demo_second) = demo_between" "bg_real (gc_heap (fst (snd demo_second)) ! 0) = 6000"
  by (simp_all add: demo_simps)

lemma demo_run:
  "(group_step (tcp_opens []) tcp_closes tcp_others tcp_check NewTCPGroup)\<^sup>*\<^sup>*
      \<lparr>gs_ctl = newGroupRegistry, gs_env = pool_6000, gs_asked = Map.empty\<rparr>
      \<lparr>gs_ctl = fst (snd demo_second), gs_env = demo_between, gs_asked = [0 \<mapsto> (str ''g'', str ''k'', [], 6000), 1 \<mapsto> (str ''g'', str ''k'', [], 6000)]\<rparr>"
proof -
  let ?step = "group_step (tcp_opens []) tcp_closes tcp_others tcp_check NewTCPGroup"
  let ?s0 = "\<lparr>gs_ctl = newGroupRegistry, gs_env = pool_6000, gs_asked = Map.empty\<rparr>"
  let ?a = "\<lparr>gs_ctl = demo_ctl, gs_env = pool_6000, gs_asked = Map.empty\<rparr>"
  let ?b = "\<lparr>gs_ctl = fst (snd demo_first), gs_env = snd (snd demo_first), gs_asked = [0 \<mapsto> (str ''g'', str ''k'', [], 6000)]\<rparr>"
  let ?c = "\<lparr>gs_ctl = fst (snd demo_first), gs_env = demo_between, gs_asked = [0 \<mapsto> (str ''g'', str ''k'', [], 6000)]\<rparr>"
  have 1: "?step ?s0 ?a"
    using group_step.lookup [of NewTCPGroup "str ''g''" ?s0 "fst (getOrCreate NewTCPGroup (str ''g'') newGroupRegistry)" demo_ctl]
    by (simp add: demo_ctl_def)
  have "tcp_opens [] ([], 6000) pool_6000 (demo_open pool_6000)"
    unfolding tcp_opens_def demo_open_def
    by (intro conjI exI) (auto simp: demo_results)
  then have 2: "?step ?a ?b"
    using group_step.listen [of "tcp_opens []" "([], 6000)" ?a demo_open tcp_check 0 "str ''g''" "str ''k''" "fst demo_first" "fst (snd demo_first)" "snd (snd demo_first)"]
      demo_results(1) by (simp add: prod_eq_iff flip: demo_first_def)
  have "tcp_others (snd (snd demo_first)) demo_between"
    by (simp add: tcp_others_def demo_between_def pm_step.release)
  then have 3: "?step ?b ?c"
    using group_step.other [of tcp_others ?b demo_between] by simp
  have "tcp_opens [] ([], 6000) demo_between (demo_open2 demo_between)"
    unfolding tcp_opens_def demo_open2_def
    by (intro conjI exI) (auto simp: demo_results)
  then have "?step ?c \<lparr>gs_ctl = fst (snd demo_second), gs_env = demo_between, gs_asked = [0 \<mapsto> (str ''g'', str ''k'', [], 6000), 1 \<mapsto> (str ''g'', str ''k'', [], 6000)]\<rparr>"
    using group_step.listen [of "tcp_opens []" "([], 6000)" ?c demo_open2 tcp_check 0 "str ''g''" "str ''k''" "fst demo_second" "fst (snd demo_second)" demo_between]
      demo_results(2,8) by (simp add: prod_eq_iff flip: demo_second_def)
  then show ?thesis using 1 2 3 by (meson rtranclp.rtrancl_into_rtrancl rtranclp.rtrancl_refl)
qed

theorem tcp_groups_witness:
  "6000 \<in> te_socks demo_between \<and> (\<exists>c'. Listener_Close (env_close 7) 0 (fst (snd demo_second)) demo_between = Inr (c', demo_between))"
proof -
  have "0 \<notin> freePorts (te_ports pool_6000)" by (simp add: demo_results)
  then have "0 \<notin> freePorts (NewManager (str ''tcp'') [] [\<lparr>pr_Start = 0, pr_End = 0, pr_Single = 6000\<rparr>])" by (simp add: pool_6000_def)
  moreover have "\<exists>l. l \<noteq> 0 \<and> [0 \<mapsto> 0, Suc 0 \<mapsto> 0] l = Some (0::nat)" by (rule exI [of _ 1]) simp
  ultimately show ?thesis
    using tcp_groups [OF demo_run [unfolded pool_6000_def], of 0 0 1 0 _ _ _ _ _ _ 6000 7]
    by (simp add: demo_results)
qed

section \<open>HTTPS and multiplexed TCP groups on the multiplexer\<close>

text \<open>
  The environment of the groups is the table of routes, together with the listeners that other proxies have opened at the same multiplexer and not
  closed yet.  The others open listeners and close each of theirs once (closing a listener twice panics); that they do not remove the
  route of a group follows from the table, which refuses a second listener for a route.
\<close>

record mux_env =
  me_routes :: "mux_listener Routers"
  me_others :: "mux_listener set"

definition mux_opens :: "(bytes \<Rightarrow> bytes) \<Rightarrow> (RouteConfig \<Rightarrow> 'p) \<Rightarrow> 'p \<Rightarrow> mux_env \<Rightarrow> (group_error + mux_listener) \<times> mux_env \<Rightarrow> bool" where
  "mux_opens low par params e res \<longleftrightarrow>
    (\<exists>cfg. par cfg = params \<and> res = (case Muxer_Listen low cfg (me_routes e) of (x, r) \<Rightarrow> (x, e\<lparr>me_routes := r\<rparr>)))"

definition mux_env_close :: "(bytes \<Rightarrow> bytes) \<Rightarrow> mux_listener \<Rightarrow> mux_env \<Rightarrow> mux_env" where
  "mux_env_close low l e = e\<lparr>me_routes := mux_close low l (me_routes e)\<rparr>"

definition mux_closes :: "(bytes \<Rightarrow> bytes) \<Rightarrow> mux_listener \<Rightarrow> mux_env \<Rightarrow> mux_env \<Rightarrow> bool" where
  "mux_closes low l e e' \<longleftrightarrow> e' = mux_env_close low l e"

definition mux_route :: "(bytes \<Rightarrow> bytes) \<Rightarrow> mux_listener \<Rightarrow> bytes \<times> bytes \<times> bytes" where
  "mux_route low l = (case l of (name, location, user) \<Rightarrow> (low name, user, location))"

inductive mux_others :: "(bytes \<Rightarrow> bytes) \<Rightarrow> mux_env \<Rightarrow> mux_env \<Rightarrow> bool" for low where
  listen: "Muxer_Listen low cfg (me_routes e) = (Inr l, r) \<Longrightarrow> mux_others low e \<lparr>me_routes = r, me_others = insert l (me_others e)\<rparr>"
| fail: "Muxer_Listen low cfg (me_routes e) = (Inl x, r) \<Longrightarrow> mux_others low e (e\<lparr>me_routes := r\<rparr>)"
| close: "l \<in> me_others e \<Longrightarrow> mux_others low e \<lparr>me_routes = mux_close low l (me_routes e), me_others = me_others e - {l}\<rparr>"

definition mux_ok :: "(bytes \<Rightarrow> bytes) \<Rightarrow> mux_env \<Rightarrow> bool" where
  "mux_ok low e \<longleftrightarrow> routers_inv (me_routes e) \<and> mux_route low ` me_others e \<subseteq> dom (routes (me_routes e)) \<and> inj_on (mux_route low) (me_others e)"

definition mux_held :: "(bytes \<Rightarrow> bytes) \<Rightarrow> mux_env \<Rightarrow> (bytes \<times> bytes \<times> bytes) set" where
  "mux_held low e = dom (routes (me_routes e)) - mux_route low ` me_others e"

lemma Muxer_Listen_routes:
  assumes inv: "routers_inv r" and L: "Muxer_Listen low cfg r = (res, r')"
  shows "routers_inv r' \<and> (case res of Inl _ \<Rightarrow> dom (routes r') = dom (routes r)
    | Inr l \<Rightarrow> mux_route low l \<notin> dom (routes r) \<and> dom (routes r') = insert (mux_route low l) (dom (routes r)))"
proof (cases "routes r (low (rc_Domain cfg), rc_RouteByHTTPUser cfg, rc_Location cfg)")
  case None
  obtain r1 where "Routers_Add low r (rc_Domain cfg) (rc_Location cfg) (rc_RouteByHTTPUser cfg) (rc_Domain cfg, rc_Location cfg, rc_RouteByHTTPUser cfg) = (None, r1)"
      "routers_inv r1" "routes r1 = (routes r)((low (rc_Domain cfg), rc_RouteByHTTPUser cfg, rc_Location cfg) \<mapsto> (rc_Domain cfg, rc_Location cfg, rc_RouteByHTTPUser cfg))"
    using routers.add_new [of r low "rc_Domain cfg" "rc_RouteByHTTPUser cfg" "rc_Location cfg" "(rc_Domain cfg, rc_Location cfg, rc_RouteByHTTPUser cfg)"] inv None by blast
  then show ?thesis using L None by (auto simp: Muxer_Listen_def mux_route_def Let_def)
next
  case (Some x)
  then have "Routers_Add low r (rc_Domain cfg) (rc_Location cfg) (rc_RouteByHTTPUser cfg) (rc_Domain cfg, rc_Location cfg, rc_RouteByHTTPUser cfg) = (Some ErrRouterConfigConflict, r)"
    using routers.add_conflict [of r low "rc_Domain cfg" "rc_RouteByHTTPUser cfg" "rc_Location cfg"] inv by simp
  then show ?thesis using L inv by (auto simp: Muxer_Listen_def Let_def)
qed

lemma mux_close_routes: "routers_inv r \<Longrightarrow> routers_inv (mux_close low l r) \<and> dom (routes (mux_close low l r)) = dom (routes r) - {mux_route low l}"
  by (cases l) (simp add: mux_close_def mux_route_def routers.del)

lemma mux_others_held:
  assumes "mux_others low e e'" "mux_ok low e"
  shows "mux_ok low e' \<and> mux_held low e' = mux_held low e"
  using assms
proof (cases rule: mux_others.cases)
  case (listen cfg l r)
  have r: "routers_inv r" "mux_route low l \<notin> dom (routes (me_routes e))" "dom (routes r) = insert (mux_route low l) (dom (routes (me_routes e)))"
    using Muxer_Listen_routes [OF _ listen(2)] assms(2) by (simp_all add: mux_ok_def)
  have sub: "mux_route low ` me_others e \<subseteq> dom (routes (me_routes e))" "inj_on (mux_route low) (me_others e)"
    using assms(2) by (simp_all add: mux_ok_def)
  have "mux_route low l \<notin> mux_route low ` me_others e" using sub r(2) by blast
  then have "inj_on (mux_route low) (insert l (me_others e))" using sub(2) by (simp add: inj_on_insert) blast
  moreover have "mux_held low e' = mux_held low e"
    using r(2) unfolding listen(1) mux_held_def mux_env.simps r(3) by blast
  moreover have "mux_route low ` insert l (me_others e) \<subseteq> dom (routes r)" using sub(1) unfolding r(3) by blast
  ultimately show ?thesis using r(1) unfolding listen(1) mux_ok_def by simp
next
  case (fail cfg x r)
  then show ?thesis using Muxer_Listen_routes [OF _ fail(2)] assms(2) by (simp add: mux_ok_def mux_held_def)
next
  case (close l)
  have "routers_inv (mux_close low l (me_routes e)) \<and> dom (routes (mux_close low l (me_routes e))) = dom (routes (me_routes e)) - {mux_route low l}"
    using mux_close_routes assms(2) by (simp add: mux_ok_def)
  moreover have "mux_route low ` (me_others e - {l}) = mux_route low ` me_others e - {mux_route low l}"
    using inj_on_image_set_diff [of "mux_route low" "me_others e" "me_others e" "{l}"] assms(2) close(2) by (auto simp: mux_ok_def)
  moreover have "inj_on (mux_route low) (me_others e - {l})"
    using assms(2) by (auto simp: mux_ok_def inj_on_diff)
  moreover have "mux_route low l \<in> mux_route low ` me_others e" "mux_route low ` me_others e \<subseteq> dom (routes (me_routes e))"
    using assms(2) close(2) by (auto simp: mux_ok_def)
  moreover have "(D - {x}) - (Y - {x}) = D - Y" "Y - {x} \<subseteq> D - {x}" if "x \<in> Y" "Y \<subseteq> D" for x :: "bytes \<times> bytes \<times> bytes" and Y D
    using that by auto
  ultimately show ?thesis
    unfolding close(1) mux_ok_def mux_held_def mux_env.simps by metis
qed

lemma mux_resource:
  assumes "bg_lns newG = []" "\<not> bg_open newG"
  shows "group_resource (mux_ok low) (mux_held low) (mux_route low) (mux_opens low par) (mux_closes low) (mux_others low) same_params newG"
proof (unfold_locales, goal_cases)
  case (1 e p l e')
  then obtain cfg r where r: "Muxer_Listen low cfg (me_routes e) = (Inr l, r)" "e' = e\<lparr>me_routes := r\<rparr>"
    unfolding mux_opens_def by (metis (no_types, lifting) case_prod_conv prod.inject surj_pair)
  then show ?case using Muxer_Listen_routes [OF _ r(1)] 1(1) by (auto simp: mux_ok_def mux_held_def)
next
  case (2 e p x e')
  then obtain cfg r where r: "Muxer_Listen low cfg (me_routes e) = (Inl x, r)" "e' = e\<lparr>me_routes := r\<rparr>"
    unfolding mux_opens_def by (metis (no_types, lifting) case_prod_conv prod.inject surj_pair)
  then show ?case using Muxer_Listen_routes [OF _ r(1)] 2(1) by (simp add: mux_ok_def mux_held_def)
next
  case (3 e l e')
  then show ?case using mux_close_routes [of "me_routes e" low l] by (auto simp: mux_closes_def mux_env_close_def mux_ok_def mux_held_def)
next
  case (4 e e')
  then show ?case using mux_others_held by blast
qed (simp_all add: same_params_def assms)

interpretation https: group_resource "mux_ok low" "mux_held low" "mux_route low" "mux_opens low rc_Domain" "mux_closes low"
    "mux_others low" same_params NewHTTPSGroup for low
  by (rule mux_resource) (simp_all add: NewHTTPSGroup_def)

interpretation tcpmux: group_resource "mux_ok low" "mux_held low" "mux_route low" "mux_opens low tcpmux_params" "mux_closes low"
    "mux_others low" same_params NewTCPMuxGroup for low
  by (rule mux_resource) (simp_all add: NewTCPMuxGroup_def)

lemma mux_ok_new: "mux_ok low \<lparr>me_routes = NewRouters, me_others = {}\<rparr>"
  using routers.new(1) by (simp add: mux_ok_def)

text \<open>
  Members of HTTPS groups have the same route at the multiplexer exactly when they named the same group, and then they gave the same key and domain; the route
  stands in the table and is no other proxy's; the same for multiplexed TCP, with the user, name and password of the route.
\<close>

lemma https_groups:
  assumes "(group_step (mux_opens low rc_Domain) (mux_closes low) (mux_others low) same_params NewHTTPSGroup)\<^sup>*\<^sup>*
      \<lparr>gs_ctl = newGroupRegistry, gs_env = \<lparr>me_routes = NewRouters, me_others = {}\<rparr>, gs_asked = Map.empty\<rparr> s"
    and "gc_live (gs_ctl s) a = Some g" "gc_live (gs_ctl s) b = Some h"
    and "gs_asked s a = Some (n, k, p)" "gs_asked s b = Some (n', k', p')"
  shows "mux_route low (bg_real (gc_heap (gs_ctl s) ! g)) = mux_route low (bg_real (gc_heap (gs_ctl s) ! h)) \<longleftrightarrow> n = n'"
    "n = n' \<Longrightarrow> k = k' \<and> p = p'" "mux_route low (bg_real (gc_heap (gs_ctl s) ! g)) \<in> dom (routes (me_routes (gs_env s))) - mux_route low ` me_others (gs_env s)"
  using https.members_share [OF https.group_ok_reach [OF assms(1) https.group_ok_init [OF mux_ok_new]] assms(2-5)]
  unfolding mux_held_def by blast+

lemma tcpmux_groups:
  assumes "(group_step (mux_opens low tcpmux_params) (mux_closes low) (mux_others low) same_params NewTCPMuxGroup)\<^sup>*\<^sup>*
      \<lparr>gs_ctl = newGroupRegistry, gs_env = \<lparr>me_routes = NewRouters, me_others = {}\<rparr>, gs_asked = Map.empty\<rparr> s"
    and "gc_live (gs_ctl s) a = Some g" "gc_live (gs_ctl s) b = Some h"
    and "gs_asked s a = Some (n, k, p)" "gs_asked s b = Some (n', k', p')"
  shows "mux_route low (bg_real (gc_heap (gs_ctl s) ! g)) = mux_route low (bg_real (gc_heap (gs_ctl s) ! h)) \<longleftrightarrow> n = n'"
    "n = n' \<Longrightarrow> k = k' \<and> p = p'" "mux_route low (bg_real (gc_heap (gs_ctl s) ! g)) \<in> dom (routes (me_routes (gs_env s))) - mux_route low ` me_others (gs_env s)"
  using tcpmux.members_share [OF tcpmux.group_ok_reach [OF assms(1) tcpmux.group_ok_init [OF mux_ok_new]] assms(2-5)]
  unfolding mux_held_def by blast+

section \<open>HTTP groups\<close>

text \<open>
  A group of HTTP proxies has one route; a request goes to the members in turn (\<^verbatim>\<open>http.go\<close>).  \<open>'f\<close> is the type of the functions that open a
  connection, none of them nil.  \<open>current\<close> is whether the registry still has this group, and the last component of \<open>UnRegister\<close> is whether it
  is to be removed from the registry.
\<close>

record 'f HTTPGroup =
  hg_group :: bytes
  hg_groupKey :: bytes
  hg_domain :: bytes
  hg_location :: bytes
  hg_routeByHTTPUser :: bytes
  createFuncs :: "bytes \<rightharpoonup> 'f"
  pxyNames :: "bytes list"
  hg_index :: "64 word"

definition NewHTTPGroup :: "'f HTTPGroup" where
  "NewHTTPGroup = \<lparr>hg_group = [], hg_groupKey = [], hg_domain = [], hg_location = [], hg_routeByHTTPUser = [],
    createFuncs = Map.empty, pxyNames = [], hg_index = 0\<rparr>"

definition register_member :: "bytes \<Rightarrow> 'f \<Rightarrow> 'f HTTPGroup \<Rightarrow> group_error option \<times> 'f HTTPGroup" where
  "register_member proxyName f g =
    (if createFuncs g proxyName \<noteq> None then (Some ErrProxyRepeated, g)
     else (None, g\<lparr>createFuncs := (createFuncs g)(proxyName \<mapsto> f), pxyNames := pxyNames g @ [proxyName]\<rparr>))"

definition HTTPGroup_Register ::
    "(bytes \<Rightarrow> bytes) \<Rightarrow> bool \<Rightarrow> 'p \<Rightarrow> bytes \<Rightarrow> bytes \<Rightarrow> bytes \<Rightarrow> RouteConfig \<Rightarrow> 'f \<Rightarrow> 'f HTTPGroup \<Rightarrow> 'p Routers
      \<Rightarrow> group_error option \<times> 'f HTTPGroup \<times> 'p Routers" where
  "HTTPGroup_Register low current payload proxyName grp groupKey cfg f g r =
    (if \<not> current then (Some errGroupStale, g, r)
     else if createFuncs g = Map.empty then
       (case Routers_Add low r (rc_Domain cfg) (rc_Location cfg) (rc_RouteByHTTPUser cfg) payload of
          (Some err, r) \<Rightarrow> (Some (ErrRoute err), g, r)
        | (None, r) \<Rightarrow>
            let g = g\<lparr>hg_group := grp, hg_groupKey := groupKey, hg_domain := rc_Domain cfg, hg_location := rc_Location cfg,
                      hg_routeByHTTPUser := rc_RouteByHTTPUser cfg\<rparr>;
                (err, g) = register_member proxyName f g
            in (err, g, r))
     else if hg_group g \<noteq> grp \<or> hg_domain g \<noteq> rc_Domain cfg \<or> hg_location g \<noteq> rc_Location cfg \<or> hg_routeByHTTPUser g \<noteq> rc_RouteByHTTPUser cfg
       then (Some ErrGroupParamsInvalid, g, r)
     else if hg_groupKey g \<noteq> groupKey then (Some ErrGroupAuthFailed, g, r)
     else let (err, g) = register_member proxyName f g in (err, g, r))"

definition HTTPGroup_UnRegister :: "(bytes \<Rightarrow> bytes) \<Rightarrow> bytes \<Rightarrow> 'f HTTPGroup \<Rightarrow> 'p Routers \<Rightarrow> 'f HTTPGroup \<times> 'p Routers \<times> bool" where
  "HTTPGroup_UnRegister low proxyName g r =
    (let g = g\<lparr>createFuncs := (createFuncs g)(proxyName := None), pxyNames := remove1 proxyName (pxyNames g)\<rparr>
     in if createFuncs g = Map.empty
        then (g, Routers_Del low r (hg_domain g) (hg_location g) (hg_routeByHTTPUser g), True)
        else (g, r, False))"

text \<open>The functions of the route; without a member, or without a function, \<^verbatim>\<open>None\<close> is the error.\<close>

definition next_name :: "'f HTTPGroup \<Rightarrow> bytes option \<times> 'f HTTPGroup" where
  "next_name g =
    (let newIndex = hg_index g + 1
     in (if pxyNames g \<noteq> [] then Some (pxyNames g ! (unat newIndex mod length (pxyNames g))) else None, g\<lparr>hg_index := newIndex\<rparr>))"

definition createConn :: "'f HTTPGroup \<Rightarrow> 'f option \<times> 'f HTTPGroup" where
  "createConn g = (case next_name g of (n, g) \<Rightarrow> (Option.bind n (createFuncs g), g))"

definition chooseEndpoint :: "'f HTTPGroup \<Rightarrow> bytes option \<times> 'f HTTPGroup" where
  "chooseEndpoint g =
    (case next_name g of (n, g) \<Rightarrow>
      let name = (case n of None \<Rightarrow> [] | Some name \<Rightarrow> name)
      in (if name = [] then None else Some name, g))"

definition createConnByEndpoint :: "bytes \<Rightarrow> 'f HTTPGroup \<Rightarrow> 'f option" where
  "createConnByEndpoint endpoint g = createFuncs g endpoint"

text \<open>The members are listed once each, and the group has its route exactly while it has members.\<close>

definition http_group_ok :: "(bytes \<Rightarrow> bytes) \<Rightarrow> 'f HTTPGroup \<Rightarrow> 'p Routers \<Rightarrow> bool" where
  "http_group_ok low g r \<longleftrightarrow> routers_inv r \<and> distinct (pxyNames g) \<and> set (pxyNames g) = dom (createFuncs g) \<and>
    (createFuncs g \<noteq> Map.empty \<longrightarrow> (low (hg_domain g), hg_routeByHTTPUser g, hg_location g) \<in> dom (routes r))"

lemma register_member_ok:
  assumes "distinct (pxyNames g)" "set (pxyNames g) = dom (createFuncs g)" "register_member n f g = (err, g')"
  shows "distinct (pxyNames g') \<and> set (pxyNames g') = dom (createFuncs g') \<and> hg_domain g' = hg_domain g \<and> hg_location g' = hg_location g \<and>
    hg_routeByHTTPUser g' = hg_routeByHTTPUser g \<and> (err = None \<longleftrightarrow> createFuncs g n = None) \<and> (err \<noteq> None \<longrightarrow> g' = g)"
proof (cases "createFuncs g n")
  case None
  then have "n \<notin> set (pxyNames g)" using assms(2) by auto
  then show ?thesis using assms None by (auto simp: register_member_def)
next
  case (Some f)
  then show ?thesis using assms by (auto simp: register_member_def)
qed

lemma HTTPGroup_Register_ok:
  assumes ok: "http_group_ok low g r" and R: "HTTPGroup_Register low current payload n grp k cfg f g r = (err, g', r')"
  shows "http_group_ok low g' r'"
proof -
  have inv: "routers_inv r" and mem: "distinct (pxyNames g)" "set (pxyNames g) = dom (createFuncs g)" using ok by (simp_all add: http_group_ok_def)
  have keep: "http_group_ok low g1 r" if "register_member n f g = (e, g1)" "createFuncs g \<noteq> Map.empty" for e g1
    using register_member_ok [OF mem that(1)] ok that(2) by (simp add: http_group_ok_def)
  show ?thesis
  proof (cases "current \<and> createFuncs g = Map.empty")
    case False
    then show ?thesis using R ok keep by (auto simp: HTTPGroup_Register_def split: if_splits prod.splits)
  next
    case True
    let ?g = "g\<lparr>hg_group := grp, hg_groupKey := k, hg_domain := rc_Domain cfg, hg_location := rc_Location cfg, hg_routeByHTTPUser := rc_RouteByHTTPUser cfg\<rparr>"
    let ?add = "Routers_Add low r (rc_Domain cfg) (rc_Location cfg) (rc_RouteByHTTPUser cfg) payload"
    show ?thesis
    proof (cases "routes r (low (rc_Domain cfg), rc_RouteByHTTPUser cfg, rc_Location cfg)")
      case None
      then obtain r1 where "?add = (None, r1)" "routers_inv r1"
          "routes r1 = (routes r)((low (rc_Domain cfg), rc_RouteByHTTPUser cfg, rc_Location cfg) \<mapsto> payload)"
        using routers.add_new [of r low "rc_Domain cfg" "rc_RouteByHTTPUser cfg" "rc_Location cfg" payload] inv by blast
      moreover from this have "register_member n f ?g = (err, g')" "r' = r1"
        using R True by (simp_all add: HTTPGroup_Register_def case_prod_unfold prod_eq_iff Let_def)
      ultimately show ?thesis
        using register_member_ok [of ?g n f err g'] mem by (simp add: http_group_ok_def)
    next
      case (Some x)
      then have "?add = (Some ErrRouterConfigConflict, r)"
        using routers.add_conflict [of r low "rc_Domain cfg" "rc_RouteByHTTPUser cfg" "rc_Location cfg" payload] inv by simp
      then show ?thesis using R True ok by (simp add: HTTPGroup_Register_def)
    qed
  qed
qed

lemma HTTPGroup_UnRegister_ok:
  assumes ok: "http_group_ok low g r" and U: "HTTPGroup_UnRegister low n g r = (g', r', gone)"
  shows "http_group_ok low g' r'" "gone \<longleftrightarrow> pxyNames g' = []"
    "gone \<Longrightarrow> (low (hg_domain g'), hg_routeByHTTPUser g', hg_location g') \<notin> dom (routes r')"
proof -
  have inv: "routers_inv r" and mem: "distinct (pxyNames g)" "set (pxyNames g) = dom (createFuncs g)" using ok by (simp_all add: http_group_ok_def)
  have mem': "distinct (remove1 n (pxyNames g))" "set (remove1 n (pxyNames g)) = dom ((createFuncs g)(n := None))" using mem by auto
  have none: "(createFuncs g)(n := None) = Map.empty \<longleftrightarrow> remove1 n (pxyNames g) = []"
    using mem'(2) by (metis dom_eq_empty_conv set_empty)
  show "http_group_ok low g' r'" "gone \<longleftrightarrow> pxyNames g' = []"
      "gone \<Longrightarrow> (low (hg_domain g'), hg_routeByHTTPUser g', hg_location g') \<notin> dom (routes r')"
    using U ok mem' inv none unfolding HTTPGroup_UnRegister_def http_group_ok_def
    by (auto simp: Let_def routers.del split: if_splits)
qed

text \<open>\<open>n\<close> requests in a row go to all of the \<open>n\<close> members, as long as the counter does not wrap around.\<close>

fun choose_names :: "nat \<Rightarrow> 'f HTTPGroup \<Rightarrow> bytes option list" where
  "choose_names 0 g = []"
| "choose_names (Suc m) g = (case next_name g of (n, g) \<Rightarrow> n # choose_names m g)"

lemma choose_names_eq:
  assumes "pxyNames g \<noteq> []"
  shows "choose_names m g = map (\<lambda>i. Some (pxyNames g ! (unat (hg_index g + of_nat i) mod length (pxyNames g)))) [1..<Suc m]"
  using assms
proof (induction m arbitrary: g)
  case (Suc m)
  have "[1..<Suc (Suc m)] = 1 # map Suc [1..<Suc m]" by (simp add: upt_conv_Cons map_Suc_upt del: upt_Suc)
  then show ?case using Suc by (simp add: next_name_def Let_def comp_def add.assoc del: upt_Suc)
qed simp

lemma http_round_robin:
  assumes ok: "http_group_ok low g r" and names: "pxyNames g \<noteq> []" and "unat (hg_index g) + length (pxyNames g) < 2 ^ 64"
  shows "set (choose_names (length (pxyNames g)) g) = Some ` dom (createFuncs g) \<and> distinct (choose_names (length (pxyNames g)) g)"
proof -
  let ?n = "length (pxyNames g)" and ?k = "unat (hg_index g)"
  have n: "0 < ?n" using names by simp
  have idx: "unat (hg_index g + of_nat i) = ?k + i" if "i \<le> ?n" for i
    using assms(3) that by (simp add: unat_word_ariths unat_of_nat take_bit_nat_def)
  have eq: "choose_names ?n g = map (\<lambda>i. Some (pxyNames g ! ((?k + i) mod ?n))) [1..<Suc ?n]"
    unfolding choose_names_eq [OF names] by (rule map_cong) (use idx in auto)
  have inj: "inj_on (\<lambda>i. (?k + i) mod ?n) {1..<Suc ?n}"
  proof (rule inj_onI)
    fix i j assume ij: "i \<in> {1..<Suc ?n}" "j \<in> {1..<Suc ?n}" "(?k + i) mod ?n = (?k + j) mod ?n"
    have *: "i = j" if "i \<le> j" "i \<in> {1..<Suc ?n}" "j \<in> {1..<Suc ?n}" "(?k + i) mod ?n = (?k + j) mod ?n" for i j
    proof -
      have "?n dvd (?k + j) - (?k + i)" using that mod_eq_dvd_iff_nat [of "?k + i" "?k + j" ?n] by simp
      then have "?n dvd j - i" by simp
      moreover have "j - i < ?n" using that(2,3) unfolding atLeastLessThan_iff by arith
      ultimately have "j - i = 0" using nat_dvd_not_less [of "j - i" ?n] by blast
      then show ?thesis using that(1) by simp
    qed
    show "i = j" using * [OF _ ij] * [OF _ ij(2,1) ij(3) [symmetric]] nat_le_linear [of i j] by blast
  qed
  have sub: "(\<lambda>i. (?k + i) mod ?n) ` {1..<Suc ?n} \<subseteq> {0..<?n}" using n by auto
  then have "(\<lambda>i. (?k + i) mod ?n) ` {1..<Suc ?n} = {0..<?n}"
    using card_image [OF inj] by (intro card_subset_eq) auto
  then have img: "{0..<?n} = (\<lambda>i. (?k + i) mod ?n) ` {1..<Suc ?n}" by simp
  have "set (choose_names ?n g) = Some ` (!) (pxyNames g) ` {0..<?n}"
    unfolding eq img image_image by (simp del: upt_Suc)
  moreover have "(!) (pxyNames g) ` {0..<?n} = set (pxyNames g)" by (auto simp: set_conv_nth)
  moreover have "distinct (choose_names ?n g)"
  proof -
    have "inj_on (\<lambda>i. pxyNames g ! ((?k + i) mod ?n)) {1..<Suc ?n}"
      using inj ok n by (auto simp: inj_on_def http_group_ok_def nth_eq_iff_index_eq)
    then show ?thesis unfolding eq distinct_map by (auto simp: inj_on_def)
  qed
  ultimately show ?thesis using ok by (simp add: http_group_ok_def)
qed

end
