(* ===== verification/Frp_Nathole.thy ===== *)
theory Frp_Nathole
  imports Frp_Strings
begin

text \<open>
  NAT hole punching, the server's part of \<^verbatim>\<open>frp/pkg/nathole\<close>: the classification of NATs (\<^verbatim>\<open>classify.go\<close>), the behaviours that are
  tried and their scores (\<^verbatim>\<open>analysis.go\<close>), and the controller that brings a visitor and a client together (\<^verbatim>\<open>controller.go\<close>).

  \<^verbatim>\<open>net.SplitHostPort\<close> is modelled in full.  \<^verbatim>\<open>slices.Compact\<close> works in place, so its model also returns what is left in the
  argument.  The current time and MD5 are arguments.  Numbers that come from a peer are \<^verbatim>\<open>int\<close> values of 64 bits, and sums of them wrap around.
\<close>

section \<open>Addresses\<close>

abbreviation colon :: byte where "colon \<equiv> 0x3A"
abbreviation lbracket :: byte where "lbracket \<equiv> 0x5B"
abbreviation rbracket :: byte where "rbracket \<equiv> 0x5D"

definition index_byte :: "byte \<Rightarrow> bytes \<Rightarrow> nat option" where
  "index_byte c s = (if c \<in> set s then Some (length (takeWhile (\<lambda>x. x \<noteq> c) s)) else None)"

definition last_index_byte :: "byte \<Rightarrow> bytes \<Rightarrow> nat option" where
  "last_index_byte c s = (if c \<in> set s then Some (length s - 1 - length (takeWhile (\<lambda>x. x \<noteq> c) (rev s))) else None)"

definition SplitHostPort :: "bytes \<Rightarrow> (bytes \<times> bytes) res" where
  "SplitHostPort hostport =
    (case last_index_byte colon hostport of
       None \<Rightarrow> Inl (ErrText ''missing port in address'')
     | Some i \<Rightarrow>
        rbind (if hostport ! 0 = lbracket then
            (case index_byte rbracket hostport of
               None \<Rightarrow> Inl (ErrText ''missing bracket in address'')
             | Some end \<Rightarrow>
                if end + 1 = length hostport then Inl (ErrText ''missing port in address'')
                else if end + 1 = i then Inr (drop 1 (take end hostport), 1, end + 1)
                else if hostport ! (end + 1) = colon then Inl (ErrText ''too many colons in address'')
                else Inl (ErrText ''missing port in address''))
          else
            let host = take i hostport
            in if colon \<in> set host then Inl (ErrText ''too many colons in address'') else Inr (host, 0, 0)) (\<lambda>(host, j, k).
        if lbracket \<in> set (drop j hostport) then Inl (ErrText ''unexpected bracket in address'')
        else if rbracket \<in> set (drop k hostport) then Inl (ErrText ''unexpected bracket in address'')
        else Inr (host, drop (i + 1) hostport)))"

definition parseIPs :: "bytes list \<Rightarrow> bytes list" where
  "parseIPs addrs = concat (map (\<lambda>addr. case SplitHostPort addr of Inl _ \<Rightarrow> [] | Inr (ip, _) \<Rightarrow> [ip]) addrs)"

definition Atoi :: "bytes \<Rightarrow> int res" where
  "Atoi s = (case ParseInt s of Inl _ \<Rightarrow> Inl (ErrText ''strconv.Atoi'') | Inr n \<Rightarrow> Inr n)"

definition wrap64 :: "int \<Rightarrow> int" where
  "wrap64 x = (x + 2 ^ 63) mod 2 ^ 64 - 2 ^ 63"

text \<open>The compacted slice, and the argument afterwards: the elements beyond the new length are set to the empty string.\<close>

definition slices_Compact :: "bytes list \<Rightarrow> bytes list \<times> bytes list" where
  "slices_Compact s = (let t = remdups_adj s in (t, t @ replicate (length s - length t) []))"

section \<open>Classification\<close>

definition EasyNAT :: bytes where "EasyNAT = str ''EasyNAT''"
definition HardNAT :: bytes where "HardNAT = str ''HardNAT''"
definition BehaviorNoChange :: bytes where "BehaviorNoChange = str ''BehaviorNoChange''"
definition BehaviorIPChanged :: bytes where "BehaviorIPChanged = str ''BehaviorIPChanged''"
definition BehaviorPortChanged :: bytes where "BehaviorPortChanged = str ''BehaviorPortChanged''"
definition BehaviorBothChanged :: bytes where "BehaviorBothChanged = str ''BehaviorBothChanged''"

record NatFeature =
  NatType :: bytes
  nf_Behavior :: bytes
  PortsDifference :: int
  RegularPortsChange :: bool
  PublicNetwork :: bool

text \<open>The variables of the loop over the addresses.\<close>

record classify_vars =
  cv_public :: bool
  cv_ipChanged :: bool
  cv_portChanged :: bool
  cv_baseIP :: bytes
  cv_basePort :: bytes
  cv_portMax :: int
  cv_portMin :: int

definition classify_addr :: "bytes list \<Rightarrow> bytes \<Rightarrow> bytes \<Rightarrow> int \<Rightarrow> classify_vars \<Rightarrow> classify_vars" where
  "classify_addr localIPs ip port portNum s =
    (let s = (if ip \<in> set localIPs then s\<lparr>cv_public := True\<rparr> else s)
     in if cv_baseIP s = []
        then s\<lparr>cv_baseIP := ip, cv_basePort := port, cv_portMax := portNum, cv_portMin := portNum\<rparr>
        else s\<lparr>cv_portMax := max (cv_portMax s) portNum, cv_portMin := min (cv_portMin s) portNum,
               cv_ipChanged := (cv_baseIP s \<noteq> ip \<or> cv_ipChanged s), cv_portChanged := (cv_basePort s \<noteq> port \<or> cv_portChanged s)\<rparr>)"

fun classify_loop :: "bytes list \<Rightarrow> bytes list \<Rightarrow> classify_vars \<Rightarrow> classify_vars res" where
  "classify_loop localIPs [] s = Inr s"
| "classify_loop localIPs (addr # addrs) s =
    rbind (SplitHostPort addr) (\<lambda>(ip, port).
    rbind (Atoi port) (\<lambda>portNum.
    classify_loop localIPs addrs (classify_addr localIPs ip port portNum s)))"

definition ClassifyNATFeature :: "bytes list \<Rightarrow> bytes list \<Rightarrow> NatFeature res" where
  "ClassifyNATFeature addresses localIPs =
    (if length addresses \<le> 1 then Inl (ErrText ''not enough addresses'')
     else
       rbind (classify_loop localIPs addresses \<lparr>cv_public = False, cv_ipChanged = False, cv_portChanged = False, cv_baseIP = [],
           cv_basePort = [], cv_portMax = 0, cv_portMin = 0\<rparr>) (\<lambda>s.
       let (natType, behavior) =
             (if cv_ipChanged s \<and> cv_portChanged s then (HardNAT, BehaviorBothChanged)
              else if cv_ipChanged s then (HardNAT, BehaviorIPChanged)
              else if cv_portChanged s then (HardNAT, BehaviorPortChanged)
              else (EasyNAT, BehaviorNoChange));
           difference = (if behavior = BehaviorPortChanged then wrap64 (cv_portMax s - cv_portMin s) else 0)
       in Inr \<lparr>NatType = natType, nf_Behavior = behavior, PortsDifference = difference,
               RegularPortsChange = (behavior = BehaviorPortChanged \<and> difference \<le> 5 \<and> 1 \<le> difference),
               PublicNetwork = cv_public s\<rparr>))"

fun ClassifyFeatureCount :: "NatFeature list \<Rightarrow> nat \<times> nat \<times> nat" where
  "ClassifyFeatureCount [] = (0, 0, 0)"
| "ClassifyFeatureCount (feature # features) =
    (case ClassifyFeatureCount features of (easyCount, hardCount, portsChangedRegularCount) \<Rightarrow>
      if NatType feature = EasyNAT then (easyCount + 1, hardCount, portsChangedRegularCount)
      else (easyCount, hardCount + 1, if RegularPortsChange feature then portsChangedRegularCount + 1 else portsChangedRegularCount))"

section \<open>Behaviours and scores\<close>

definition DetectRoleSender :: bytes where "DetectRoleSender = str ''sender''"
definition DetectRoleReceiver :: bytes where "DetectRoleReceiver = str ''receiver''"

record RecommandBehavior =
  rb_Role :: bytes
  rb_TTL :: int
  rb_SendDelayMs :: int
  PortsRangeNumber :: int
  PortsRandomNumber :: int
  rb_ListenRandomPorts :: int

definition behavior :: "bytes \<Rightarrow> int \<Rightarrow> int \<Rightarrow> int \<Rightarrow> int \<Rightarrow> int \<Rightarrow> RecommandBehavior" where
  "behavior role ttl delay portsRange random listen =
    \<lparr>rb_Role = role, rb_TTL = ttl, rb_SendDelayMs = delay, PortsRangeNumber = portsRange, PortsRandomNumber = random, rb_ListenRandomPorts = listen\<rparr>"

definition mode0Behaviors :: "(RecommandBehavior \<times> RecommandBehavior) list" where
  "mode0Behaviors =
    [(behavior DetectRoleSender 0 0 0 0 0, behavior DetectRoleReceiver 7 0 0 0 0),
     (behavior DetectRoleReceiver 7 0 0 0 0, behavior DetectRoleSender 0 0 0 0 0),
     (behavior DetectRoleSender 0 0 0 0 0, behavior DetectRoleReceiver 4 0 0 0 0),
     (behavior DetectRoleReceiver 4 0 0 0 0, behavior DetectRoleSender 0 0 0 0 0),
     (behavior DetectRoleSender 0 0 0 0 0, behavior DetectRoleReceiver 0 0 0 0 0),
     (behavior DetectRoleReceiver 0 0 0 0 0, behavior DetectRoleSender 0 0 0 0 0),
     (behavior DetectRoleSender 0 5000 0 0 0, behavior DetectRoleReceiver 0 0 0 0 0),
     (behavior DetectRoleSender 0 10000 0 0 0, behavior DetectRoleReceiver 0 0 0 0 0),
     (behavior DetectRoleReceiver 0 0 0 0 0, behavior DetectRoleSender 0 5000 0 0 0),
     (behavior DetectRoleReceiver 0 0 0 0 0, behavior DetectRoleSender 0 10000 0 0 0)]"

definition mode1Behaviors :: "(RecommandBehavior \<times> RecommandBehavior) list" where
  "mode1Behaviors =
    [(behavior DetectRoleSender 0 0 0 0 0, behavior DetectRoleReceiver 7 0 10 0 0),
     (behavior DetectRoleSender 0 2000 0 0 0, behavior DetectRoleReceiver 7 0 10 0 0),
     (behavior DetectRoleSender 0 0 0 0 0, behavior DetectRoleReceiver 4 0 10 0 0),
     (behavior DetectRoleSender 0 2000 0 0 0, behavior DetectRoleReceiver 4 0 10 0 0),
     (behavior DetectRoleSender 0 0 0 0 0, behavior DetectRoleReceiver 0 0 10 0 0),
     (behavior DetectRoleSender 0 2000 0 0 0, behavior DetectRoleReceiver 0 0 10 0 0)]"

definition mode2Behaviors :: "(RecommandBehavior \<times> RecommandBehavior) list" where
  "mode2Behaviors =
    [(behavior DetectRoleSender 0 3000 0 1000 0, behavior DetectRoleReceiver 7 0 0 0 256),
     (behavior DetectRoleSender 0 3000 0 1000 0, behavior DetectRoleReceiver 4 0 0 0 256),
     (behavior DetectRoleSender 0 3000 0 1000 0, behavior DetectRoleReceiver 0 0 0 0 256)]"

definition mode3Behaviors :: "(RecommandBehavior \<times> RecommandBehavior) list" where
  "mode3Behaviors =
    [(behavior DetectRoleSender 0 0 10 0 0, behavior DetectRoleReceiver 7 0 10 0 0),
     (behavior DetectRoleSender 0 0 10 0 0, behavior DetectRoleReceiver 4 0 10 0 0),
     (behavior DetectRoleSender 0 0 10 0 0, behavior DetectRoleReceiver 0 0 10 0 0),
     (behavior DetectRoleReceiver 7 0 10 0 0, behavior DetectRoleSender 0 0 10 0 0),
     (behavior DetectRoleReceiver 4 0 10 0 0, behavior DetectRoleSender 0 0 10 0 0),
     (behavior DetectRoleReceiver 0 0 10 0 0, behavior DetectRoleSender 0 0 10 0 0)]"

definition mode4Behaviors :: "(RecommandBehavior \<times> RecommandBehavior) list" where
  "mode4Behaviors =
    [(behavior DetectRoleSender 0 3000 0 1000 0, behavior DetectRoleReceiver 7 0 2 0 256),
     (behavior DetectRoleSender 0 3000 0 1000 0, behavior DetectRoleReceiver 4 0 2 0 256),
     (behavior DetectRoleSender 0 3000 0 1000 0, behavior DetectRoleReceiver 0 0 2 0 256)]"

definition getBehaviorByMode :: "nat \<Rightarrow> (RecommandBehavior \<times> RecommandBehavior) list" where
  "getBehaviorByMode mode =
    (if mode = 0 then mode0Behaviors
     else if mode = 1 then mode1Behaviors
     else if mode = 2 then mode2Behaviors
     else if mode = 3 then mode3Behaviors
     else if mode = 4 then mode4Behaviors
     else mode0Behaviors)"

definition getBehaviorByModeAndIndex :: "nat \<Rightarrow> nat \<Rightarrow> RecommandBehavior \<times> RecommandBehavior" where
  "getBehaviorByModeAndIndex mode index =
    (let behaviors = getBehaviorByMode mode
     in if length behaviors \<le> index then (behavior [] 0 0 0 0 0, behavior [] 0 0 0 0 0) else behaviors ! index)"

record BehaviorScore =
  bs_Mode :: nat
  bs_Index :: nat
  bs_Score :: int

definition getBehaviorScoresByMode2 :: "nat \<Rightarrow> int \<Rightarrow> int \<Rightarrow> BehaviorScore list" where
  "getBehaviorScoresByMode2 mode senderScore receiverScore =
    map (\<lambda>i. \<lparr>bs_Mode = mode, bs_Index = i,
              bs_Score = (if rb_Role (fst (getBehaviorByMode mode ! i)) = DetectRoleSender then senderScore else receiverScore)\<rparr>)
      [0..<length (getBehaviorByMode mode)]"

definition getBehaviorScoresByMode :: "nat \<Rightarrow> int \<Rightarrow> BehaviorScore list" where
  "getBehaviorScoresByMode mode defaultScore = getBehaviorScoresByMode2 mode defaultScore defaultScore"

record MakeHoleRecords =
  mhr_scores :: "BehaviorScore list"
  LastUpdateTime :: int

definition NewMakeHoleRecords :: "int \<Rightarrow> NatFeature \<Rightarrow> NatFeature \<Rightarrow> MakeHoleRecords" where
  "NewMakeHoleRecords now c v =
    (case ClassifyFeatureCount [c, v] of (easyCount, hardCount, portsChangedRegularCount) \<Rightarrow>
      let mode0 = (if PublicNetwork c then getBehaviorScoresByMode2 0 0 1
                   else if PublicNetwork v then getBehaviorScoresByMode2 0 1 0
                   else getBehaviorScoresByMode 0 0);
          scores =
            (if easyCount = 2 then mode0
             else if hardCount = 1 \<and> portsChangedRegularCount = 1
               then getBehaviorScoresByMode 1 0 @ getBehaviorScoresByMode 2 0 @ mode0
             else if hardCount = 1 \<and> portsChangedRegularCount = 0
               then getBehaviorScoresByMode 2 0 @ getBehaviorScoresByMode 1 0 @ mode0
             else if hardCount = 2 \<and> portsChangedRegularCount = 2
               then getBehaviorScoresByMode 3 0 @ getBehaviorScoresByMode 4 0
             else if hardCount = 2 \<and> portsChangedRegularCount = 1 then getBehaviorScoresByMode 4 0
             else getBehaviorScoresByMode 0 1 @ getBehaviorScoresByMode 1 1 @ getBehaviorScoresByMode 3 1)
      in \<lparr>mhr_scores = scores, LastUpdateTime = now\<rparr>)"

fun report_loop :: "nat \<Rightarrow> nat \<Rightarrow> BehaviorScore list \<Rightarrow> BehaviorScore list" where
  "report_loop mode index [] = []"
| "report_loop mode index (score # scores) =
    (if bs_Mode score \<noteq> mode \<or> bs_Index score \<noteq> index then score # report_loop mode index scores
     else score\<lparr>bs_Score := min (bs_Score score + 2) 10\<rparr> # scores)"

definition Records_ReportSuccess :: "int \<Rightarrow> nat \<Rightarrow> nat \<Rightarrow> MakeHoleRecords \<Rightarrow> MakeHoleRecords" where
  "Records_ReportSuccess now mode index mhr = mhr\<lparr>LastUpdateTime := now, mhr_scores := report_loop mode index (mhr_scores mhr)\<rparr>"

text \<open>\<^verbatim>\<open>slices.MaxFunc\<close>: the position of the first element with the largest score.\<close>

fun MaxFunc_loop :: "BehaviorScore list \<Rightarrow> nat \<Rightarrow> nat \<Rightarrow> int \<Rightarrow> nat" where
  "MaxFunc_loop [] i m best = m"
| "MaxFunc_loop (x # xs) i m best =
    (if bs_Score x > best then MaxFunc_loop xs (i + 1) i (bs_Score x) else MaxFunc_loop xs (i + 1) m best)"

definition MaxFunc :: "BehaviorScore list \<Rightarrow> nat" where
  "MaxFunc scores = MaxFunc_loop (tl scores) 1 0 (bs_Score (hd scores))"

definition Recommand :: "int \<Rightarrow> MakeHoleRecords \<Rightarrow> (nat \<times> nat) \<times> MakeHoleRecords" where
  "Recommand now mhr =
    (if mhr_scores mhr = [] then ((0, 0), mhr)
     else
       let i = MaxFunc (mhr_scores mhr); maxScore = mhr_scores mhr ! i
       in ((bs_Mode maxScore, bs_Index maxScore),
           mhr\<lparr>mhr_scores := (mhr_scores mhr)[i := maxScore\<lparr>bs_Score := bs_Score maxScore - 1\<rparr>], LastUpdateTime := now\<rparr>))"

record Analyzer =
  an_records :: "bytes \<rightharpoonup> MakeHoleRecords"
  dataReserveDuration :: int

definition NewAnalyzer :: "int \<Rightarrow> Analyzer" where
  "NewAnalyzer d = \<lparr>an_records = Map.empty, dataReserveDuration = d\<rparr>"

definition GetRecommandBehaviors ::
    "int \<Rightarrow> bytes \<Rightarrow> NatFeature \<Rightarrow> NatFeature \<Rightarrow> Analyzer \<Rightarrow> (nat \<times> nat \<times> RecommandBehavior \<times> RecommandBehavior) \<times> Analyzer" where
  "GetRecommandBehaviors now key c v a =
    (let records = (case an_records a key of Some records \<Rightarrow> records | None \<Rightarrow> NewMakeHoleRecords now c v);
         ((mode, index), records) = Recommand now records;
         (cBehavior, vBehavior) = getBehaviorByModeAndIndex mode index;
         (cBehavior, vBehavior) =
           (if mode = 1 then if NatType c = EasyNAT then (vBehavior, cBehavior) else (cBehavior, vBehavior)
            else if mode = 2 then if NatType c = HardNAT then (vBehavior, cBehavior) else (cBehavior, vBehavior)
            else if mode = 4 then if \<not> RegularPortsChange c then (vBehavior, cBehavior) else (cBehavior, vBehavior)
            else (cBehavior, vBehavior))
     in ((mode, index, cBehavior, vBehavior), a\<lparr>an_records := (an_records a)(key \<mapsto> records)\<rparr>))"

definition Analyzer_ReportSuccess :: "int \<Rightarrow> bytes \<Rightarrow> nat \<Rightarrow> nat \<Rightarrow> Analyzer \<Rightarrow> Analyzer" where
  "Analyzer_ReportSuccess now key mode index a =
    (case an_records a key of
       None \<Rightarrow> a
     | Some records \<Rightarrow> a\<lparr>an_records := (an_records a)(key \<mapsto> Records_ReportSuccess now mode index records)\<rparr>)"


section \<open>The controller\<close>

record ClientCfg =
  cc_name :: bytes
  cc_sk :: bytes
  cc_allowUsers :: "bytes list"

record NatHoleVisitor =
  nv_TransactionID :: bytes
  nv_ProxyName :: bytes
  nv_Protocol :: bytes
  nv_SignKey :: bytes
  nv_Timestamp :: int
  nv_MappedAddrs :: "bytes list"
  nv_AssistedAddrs :: "bytes list"

record NatHoleClient =
  nc_TransactionID :: bytes
  nc_Sid :: bytes
  nc_MappedAddrs :: "bytes list"
  nc_AssistedAddrs :: "bytes list"

record NatHoleDetectBehavior =
  db_Role :: bytes
  db_Mode :: nat
  db_TTL :: int
  db_SendDelayMs :: int
  db_ReadTimeoutMs :: int
  db_CandidatePorts :: "(int \<times> int) list"
  db_SendRandomPorts :: int
  db_ListenRandomPorts :: int

record NatHoleResp =
  nr_TransactionID :: bytes
  nr_Sid :: bytes
  nr_Protocol :: bytes
  nr_CandidateAddrs :: "bytes list"
  nr_AssistedAddrs :: "bytes list"
  nr_DetectBehavior :: NatHoleDetectBehavior
  nr_Error :: string

record NatSession =
  ns_sid :: bytes
  ns_analysisKey :: bytes
  ns_mode :: nat
  ns_index :: nat
  ns_visitorMsg :: NatHoleVisitor
  ns_clientMsg :: "NatHoleClient option"
  ns_notified :: bool
  ns_vResp :: "NatHoleResp option"
  ns_cResp :: "NatHoleResp option"

record Controller =
  clientCfgs :: "bytes \<rightharpoonup> ClientCfg"
  nat_sessions :: "bytes \<rightharpoonup> NatSession"
  nat_analyzer :: Analyzer

definition NewController :: "int \<Rightarrow> Controller" where
  "NewController d = \<lparr>clientCfgs = Map.empty, nat_sessions = Map.empty, nat_analyzer = NewAnalyzer d\<rparr>"

definition ListenClient :: "bytes \<Rightarrow> bytes \<Rightarrow> bytes list \<Rightarrow> Controller \<Rightarrow> Controller res" where
  "ListenClient name sk allowUsers c =
    (if clientCfgs c name \<noteq> None then Inl (ErrText ''proxy is repeated'')
     else Inr (c\<lparr>clientCfgs := (clientCfgs c)(name \<mapsto> \<lparr>cc_name = name, cc_sk = sk, cc_allowUsers = allowUsers\<rparr>)\<rparr>))"

definition CloseClient :: "bytes \<Rightarrow> Controller \<Rightarrow> Controller" where
  "CloseClient name c = c\<lparr>clientCfgs := (clientCfgs c)(name := None)\<rparr>"

definition GetAuthKey :: "(bytes \<Rightarrow> bytes) \<Rightarrow> bytes \<Rightarrow> int \<Rightarrow> bytes" where
  "GetAuthKey md5hex token timestamp = md5hex (token @ Itoa timestamp)"

definition GenNatHoleResponse :: "bytes \<Rightarrow> bytes \<Rightarrow> string \<Rightarrow> NatHoleResp" where
  "GenNatHoleResponse transactionID sid errInfo =
    \<lparr>nr_TransactionID = transactionID, nr_Sid = sid, nr_Protocol = [], nr_CandidateAddrs = [], nr_AssistedAddrs = [],
     nr_DetectBehavior = \<lparr>db_Role = [], db_Mode = 0, db_TTL = 0, db_SendDelayMs = 0, db_ReadTimeoutMs = 0, db_CandidatePorts = [],
       db_SendRandomPorts = 0, db_ListenRandomPorts = 0\<rparr>, nr_Error = errInfo\<rparr>"

text \<open>
  \<^verbatim>\<open>HandleVisitor\<close> in its phases: the check before a connection is tried; the admission of a visitor with a session; once the client's message
  has arrived, the analysis and the two answers; and the end, after the time-out or the answers.
\<close>

definition HandleVisitor_PreCheck :: "NatHoleVisitor \<Rightarrow> bytes \<Rightarrow> Controller \<Rightarrow> NatHoleResp" where
  "HandleVisitor_PreCheck m visitorUser c =
    (case clientCfgs c (nv_ProxyName m) of
       None \<Rightarrow> GenNatHoleResponse (nv_TransactionID m) [] ''xtcp server does not exist''
     | Some cfg \<Rightarrow>
        if visitorUser \<notin> set (cc_allowUsers cfg) \<and> str ''*'' \<notin> set (cc_allowUsers cfg)
        then GenNatHoleResponse (nv_TransactionID m) [] ''xtcp visitor user not allowed''
        else GenNatHoleResponse (nv_TransactionID m) [] [])"

definition HandleVisitor_admit :: "(bytes \<Rightarrow> bytes) \<Rightarrow> bytes \<Rightarrow> NatHoleVisitor \<Rightarrow> Controller \<Rightarrow> NatHoleResp + Controller" where
  "HandleVisitor_admit md5hex sid m c =
    (case clientCfgs c (nv_ProxyName m) of
       None \<Rightarrow> Inl (GenNatHoleResponse (nv_TransactionID m) [] ''xtcp server does not exist'')
     | Some cfg \<Rightarrow>
        if nv_SignKey m \<noteq> GetAuthKey md5hex (cc_sk cfg) (nv_Timestamp m)
        then Inl (GenNatHoleResponse (nv_TransactionID m) [] ''xtcp connection auth failed'')
        else Inr (c\<lparr>nat_sessions := (nat_sessions c)(sid \<mapsto>
          \<lparr>ns_sid = sid, ns_analysisKey = [], ns_mode = 0, ns_index = 0, ns_visitorMsg = m, ns_clientMsg = None, ns_notified = False,
           ns_vResp = None, ns_cResp = None\<rparr>)\<rparr>))"

definition HandleClient :: "NatHoleClient \<Rightarrow> Controller \<Rightarrow> Controller" where
  "HandleClient m c =
    (case nat_sessions c (nc_Sid m) of
       None \<Rightarrow> c
     | Some session \<Rightarrow> c\<lparr>nat_sessions := (nat_sessions c)(nc_Sid m \<mapsto> session\<lparr>ns_clientMsg := Some m, ns_notified := True\<rparr>)\<rparr>)"

definition HandleReport :: "int \<Rightarrow> bytes \<Rightarrow> bool \<Rightarrow> Controller \<Rightarrow> Controller" where
  "HandleReport now sid success c =
    (case nat_sessions c sid of
       None \<Rightarrow> c
     | Some session \<Rightarrow>
        if success then c\<lparr>nat_analyzer := Analyzer_ReportSuccess now (ns_analysisKey session) (ns_mode session) (ns_index session) (nat_analyzer c)\<rparr>
        else c)"

definition FormatBool :: "bool \<Rightarrow> bytes" where
  "FormatBool b = (if b then str ''true'' else str ''false'')"

definition feature_bytes :: "bytes list \<Rightarrow> NatFeature \<Rightarrow> bytes" where
  "feature_bytes addrs f =
    (let ips = remdups_adj (parseIPs addrs)
     in (if ips \<noteq> [] then hd ips else []) @ NatType f @ nf_Behavior f @ FormatBool (RegularPortsChange f))"

definition genAnalysisKey :: "(bytes \<Rightarrow> bytes) \<Rightarrow> NatHoleVisitor \<Rightarrow> NatFeature \<Rightarrow> NatHoleClient \<Rightarrow> NatFeature \<Rightarrow> bytes" where
  "genAnalysisKey md5hex vm vNatFeature cm cNatFeature =
    md5hex (feature_bytes (nv_MappedAddrs vm) vNatFeature @ feature_bytes (nc_MappedAddrs cm) cNatFeature)"

definition getRangePorts :: "bytes list \<Rightarrow> int \<Rightarrow> int \<Rightarrow> (int \<times> int) list" where
  "getRangePorts addrs difference maxNumber =
    (if maxNumber \<le> 0 then []
     else if addrs = [] then []
     else
       (case SplitHostPort (last addrs) of
          Inl _ \<Rightarrow> []
        | Inr (_, portStr) \<Rightarrow>
           (case Atoi portStr of
              Inl _ \<Rightarrow> []
            | Inr port \<Rightarrow>
                [(max (max (wrap64 (port - difference - 5)) (wrap64 (port - maxNumber))) 1,
                  min (min (wrap64 (port + difference + 5)) (wrap64 (port + maxNumber))) 65535)])))"

definition detect_behavior :: "nat \<Rightarrow> RecommandBehavior \<Rightarrow> int \<Rightarrow> (int \<times> int) list \<Rightarrow> NatHoleDetectBehavior" where
  "detect_behavior mode b timeoutMs ports =
    \<lparr>db_Role = rb_Role b, db_Mode = mode, db_TTL = rb_TTL b, db_SendDelayMs = rb_SendDelayMs b,
     db_ReadTimeoutMs = timeoutMs - rb_SendDelayMs b, db_CandidatePorts = ports,
     db_SendRandomPorts = PortsRandomNumber b, db_ListenRandomPorts = rb_ListenRandomPorts b\<rparr>"

text \<open>The answers for the visitor and for the client, the session and the analyzer.  The ports are read from the addresses after these were compacted.\<close>

definition analysis :: "(bytes \<Rightarrow> bytes) \<Rightarrow> int \<Rightarrow> NatSession \<Rightarrow> Analyzer \<Rightarrow> ((NatHoleResp \<times> NatHoleResp) \<times> NatSession \<times> Analyzer) res" where
  "analysis md5hex now session a =
    (case ns_clientMsg session of
       None \<Rightarrow> Inl Panic
     | Some cm \<Rightarrow>
       let vm = ns_visitorMsg session in
       rbind (ClassifyNATFeature (nc_MappedAddrs cm) (parseIPs (nc_AssistedAddrs cm))) (\<lambda>cNatFeature.
       rbind (ClassifyNATFeature (nv_MappedAddrs vm) (parseIPs (nv_AssistedAddrs vm))) (\<lambda>vNatFeature.
       let key = genAnalysisKey md5hex vm vNatFeature cm cNatFeature;
           ((mode, index, cBehavior, vBehavior), a) = GetRecommandBehaviors now key cNatFeature vNatFeature a;
           timeoutMs = max (rb_SendDelayMs cBehavior) (rb_SendDelayMs vBehavior) + 5000;
           timeoutMs = (if rb_ListenRandomPorts cBehavior > 0 \<or> rb_ListenRandomPorts vBehavior > 0 then timeoutMs + 30000 else timeoutMs);
           (cMapped, cMapped') = slices_Compact (nc_MappedAddrs cm);
           (cAssisted, cAssisted') = slices_Compact (nc_AssistedAddrs cm);
           vResp = \<lparr>nr_TransactionID = nv_TransactionID vm, nr_Sid = ns_sid session, nr_Protocol = nv_Protocol vm,
             nr_CandidateAddrs = cMapped, nr_AssistedAddrs = cAssisted,
             nr_DetectBehavior = detect_behavior mode vBehavior timeoutMs
               (getRangePorts cMapped' (PortsDifference cNatFeature) (PortsRangeNumber vBehavior)), nr_Error = []\<rparr>;
           (vMapped, vMapped') = slices_Compact (nv_MappedAddrs vm);
           (vAssisted, vAssisted') = slices_Compact (nv_AssistedAddrs vm);
           cResp = \<lparr>nr_TransactionID = nc_TransactionID cm, nr_Sid = ns_sid session, nr_Protocol = nv_Protocol vm,
             nr_CandidateAddrs = vMapped, nr_AssistedAddrs = vAssisted,
             nr_DetectBehavior = detect_behavior mode cBehavior timeoutMs
               (getRangePorts vMapped' (PortsDifference vNatFeature) (PortsRangeNumber cBehavior)), nr_Error = []\<rparr>;
           session = session\<lparr>ns_analysisKey := key, ns_mode := mode, ns_index := index,
             ns_clientMsg := Some (cm\<lparr>nc_MappedAddrs := cMapped', nc_AssistedAddrs := cAssisted'\<rparr>),
             ns_visitorMsg := vm\<lparr>nv_MappedAddrs := vMapped', nv_AssistedAddrs := vAssisted'\<rparr>\<rparr>
       in Inr ((vResp, cResp), session, a))))"

definition HandleVisitor_respond :: "(bytes \<Rightarrow> bytes) \<Rightarrow> int \<Rightarrow> bytes \<Rightarrow> Controller \<Rightarrow> (NatHoleResp \<times> NatHoleResp) option \<times> Controller" where
  "HandleVisitor_respond md5hex now sid c =
    (case nat_sessions c sid of
       None \<Rightarrow> (None, c)
     | Some session \<Rightarrow>
        if \<not> ns_notified session then (None, c)
        else
          (case analysis md5hex now session (nat_analyzer c) of
             Inr ((vResp, cResp), session, a) \<Rightarrow>
               (Some (vResp, cResp),
                c\<lparr>nat_analyzer := a, nat_sessions := (nat_sessions c)(sid \<mapsto> session\<lparr>ns_notified := False, ns_vResp := Some vResp, ns_cResp := Some cResp\<rparr>)\<rparr>)
           | Inl e \<Rightarrow>
               (case ns_clientMsg session of
                  None \<Rightarrow> (None, c)
                | Some cm \<Rightarrow>
                   let vResp = GenNatHoleResponse (nv_TransactionID (ns_visitorMsg session)) [] ''classify nat feature error'';
                       cResp = GenNatHoleResponse (nc_TransactionID cm) [] ''classify nat feature error''
                   in (Some (vResp, cResp),
                       c\<lparr>nat_sessions := (nat_sessions c)(sid \<mapsto> session\<lparr>ns_notified := False, ns_vResp := Some vResp, ns_cResp := Some cResp\<rparr>)\<rparr>))))"

definition HandleVisitor_end :: "bytes \<Rightarrow> Controller \<Rightarrow> Controller" where
  "HandleVisitor_end sid c = c\<lparr>nat_sessions := (nat_sessions c)(sid := None)\<rparr>"

section \<open>Addresses and classification\<close>


text \<open>An address with its host, its port and the port's number; the host is not empty.\<close>

definition parsed :: "bytes list \<Rightarrow> (bytes \<times> bytes \<times> int) list \<Rightarrow> bool" where
  "parsed addrs ps \<longleftrightarrow> list_all2 (\<lambda>a (ip, port, n). SplitHostPort a = Inr (ip, port) \<and> Atoi port = Inr n \<and> ip \<noteq> []) addrs ps"

lemma classify_addr_base:
  assumes "cv_baseIP s \<noteq> []"
  shows "classify_addr localIPs ip port n s = s\<lparr>cv_public := (cv_public s \<or> ip \<in> set localIPs), cv_ipChanged := (cv_ipChanged s \<or> ip \<noteq> cv_baseIP s),
    cv_portChanged := (cv_portChanged s \<or> port \<noteq> cv_basePort s), cv_portMax := max n (cv_portMax s), cv_portMin := min n (cv_portMin s)\<rparr>"
  using assms by (cases s) (auto simp: classify_addr_def Let_def max.commute min.commute)

lemma classify_loop_parsed:
  assumes "parsed addrs ps" "cv_baseIP s \<noteq> []"
  shows "classify_loop localIPs addrs s = Inr (s\<lparr>
    cv_public := (cv_public s \<or> (\<exists>p\<in>set ps. fst p \<in> set localIPs)),
    cv_ipChanged := (cv_ipChanged s \<or> (\<exists>p\<in>set ps. fst p \<noteq> cv_baseIP s)),
    cv_portChanged := (cv_portChanged s \<or> (\<exists>p\<in>set ps. fst (snd p) \<noteq> cv_basePort s)),
    cv_portMax := fold max (map (snd \<circ> snd) ps) (cv_portMax s),
    cv_portMin := fold min (map (snd \<circ> snd) ps) (cv_portMin s)\<rparr>)"
  using assms
proof (induction addrs arbitrary: ps s)
  case (Cons a addrs)
  then obtain ip port n ps' where p: "ps = (ip, port, n) # ps'" "SplitHostPort a = Inr (ip, port)" "Atoi port = Inr n" "parsed addrs ps'"
    by (auto simp: parsed_def list_all2_Cons1)
  let ?s = "classify_addr localIPs ip port n s"
  note s = classify_addr_base [OF Cons.prems(2), of localIPs ip port n]
  have "cv_baseIP ?s \<noteq> []" using Cons.prems(2) by (simp add: s)
  note Cons.IH [OF p(4) this]
  then show ?case
    using p by (simp add: s disj_assoc)
qed (simp add: parsed_def)

lemma fold_max_Max: "fold max ns n = Max (insert n (set ns))" for n :: int
  using Max.set_eq_fold [of n ns] by simp

lemma fold_min_Min: "fold min ns n = Min (insert n (set ns))" for n :: int
  using Min.set_eq_fold [of n ns] by simp

definition same_ip :: "(bytes \<times> bytes \<times> int) list \<Rightarrow> bool" where
  "same_ip ps \<longleftrightarrow> (\<forall>p\<in>set ps. \<forall>q\<in>set ps. fst p = fst q)"

definition same_port :: "(bytes \<times> bytes \<times> int) list \<Rightarrow> bool" where
  "same_port ps \<longleftrightarrow> (\<forall>p\<in>set ps. \<forall>q\<in>set ps. fst (snd p) = fst (snd q))"

definition spread :: "(bytes \<times> bytes \<times> int) list \<Rightarrow> int" where
  "spread ps = Max (snd ` snd ` set ps) - Min (snd ` snd ` set ps)"

lemma nat_names [simp]:
  "EasyNAT \<noteq> HardNAT" "HardNAT \<noteq> EasyNAT" "BehaviorBothChanged \<noteq> BehaviorPortChanged" "BehaviorIPChanged \<noteq> BehaviorPortChanged"
  "BehaviorNoChange \<noteq> BehaviorPortChanged"
  by (simp_all add: EasyNAT_def HardNAT_def BehaviorBothChanged_def BehaviorPortChanged_def BehaviorIPChanged_def BehaviorNoChange_def str_def)

lemma ClassifyNATFeature_spec:
  assumes p: "parsed addrs ps" and two: "2 \<le> length addrs"
  shows "\<exists>f. ClassifyNATFeature addrs localIPs = Inr f \<and>
    NatType f = (if same_ip ps \<and> same_port ps then EasyNAT else HardNAT) \<and>
    PublicNetwork f = (\<exists>p\<in>set ps. fst p \<in> set localIPs) \<and>
    PortsDifference f = (if same_ip ps \<and> \<not> same_port ps then wrap64 (spread ps) else 0) \<and>
    RegularPortsChange f = (same_ip ps \<and> \<not> same_port ps \<and> 1 \<le> PortsDifference f \<and> PortsDifference f \<le> 5)"
proof -
  obtain a addrs' ip port n ps' where a: "addrs = a # addrs'" "ps = (ip, port, n) # ps'" "SplitHostPort a = Inr (ip, port)" "Atoi port = Inr n"
      "ip \<noteq> []" "parsed addrs' ps'"
    using p two by (cases addrs) (auto simp: parsed_def list_all2_Cons1)
  let ?init = "\<lparr>cv_public = False, cv_ipChanged = False, cv_portChanged = False, cv_baseIP = [], cv_basePort = [], cv_portMax = 0, cv_portMin = 0\<rparr>"
  let ?s = "classify_addr localIPs ip port n ?init"
  have s: "?s = \<lparr>cv_public = (ip \<in> set localIPs), cv_ipChanged = False, cv_portChanged = False, cv_baseIP = ip, cv_basePort = port, cv_portMax = n, cv_portMin = n\<rparr>"
    by (simp add: classify_addr_def Let_def)
  have sip: "same_ip ps \<longleftrightarrow> \<not> (\<exists>p\<in>set ps'. fst p \<noteq> ip)" and sport: "same_port ps \<longleftrightarrow> \<not> (\<exists>p\<in>set ps'. fst (snd p) \<noteq> port)"
    using a(2) by (auto simp: same_ip_def same_port_def) (metis fst_conv snd_conv)+
  have nums: "snd ` snd ` set ps = insert n (set (map (snd \<circ> snd) ps'))" using a(2) by (auto simp: image_image)
  have "classify_loop localIPs addrs ?init = Inr (?s\<lparr>
    cv_public := (\<exists>p\<in>set ps. fst p \<in> set localIPs), cv_ipChanged := \<not> same_ip ps, cv_portChanged := \<not> same_port ps,
    cv_portMax := Max (snd ` snd ` set ps), cv_portMin := Min (snd ` snd ` set ps)\<rparr>)"
    using classify_loop_parsed [OF a(6), of ?s localIPs] a unfolding sip sport nums s by (simp add: fold_max_Max fold_min_Min s)
  then show ?thesis
    using two by (auto simp: ClassifyNATFeature_def Let_def spread_def)
qed

section \<open>Scores\<close>

lemma MaxFunc_loop_max:
  assumes "i = length ps" "m < i" "best = bs_Score (ps ! m)" "\<forall>x\<in>set ps. bs_Score x \<le> best"
  shows "MaxFunc_loop xs i m best < length (ps @ xs) \<and> (\<forall>x\<in>set (ps @ xs). bs_Score x \<le> bs_Score ((ps @ xs) ! MaxFunc_loop xs i m best))"
  using assms
proof (induction xs arbitrary: ps i m best)
  case (Cons x xs)
  show ?case
  proof (cases "bs_Score x > best")
    case True
    have "MaxFunc_loop xs (i + 1) i (bs_Score x) < length ((ps @ [x]) @ xs) \<and>
      (\<forall>y\<in>set ((ps @ [x]) @ xs). bs_Score y \<le> bs_Score (((ps @ [x]) @ xs) ! MaxFunc_loop xs (i + 1) i (bs_Score x)))"
      by (rule Cons.IH) (use Cons.prems True in \<open>auto intro: order_trans [OF _ less_imp_le]\<close>)
    then show ?thesis using True by simp
  next
    case False
    have "MaxFunc_loop xs (i + 1) m best < length ((ps @ [x]) @ xs) \<and>
      (\<forall>y\<in>set ((ps @ [x]) @ xs). bs_Score y \<le> bs_Score (((ps @ [x]) @ xs) ! MaxFunc_loop xs (i + 1) m best))"
      by (rule Cons.IH) (use Cons.prems False in \<open>auto simp: nth_append\<close>)
    then show ?thesis using False by simp
  qed
qed auto

lemma MaxFunc_max:
  assumes "scores \<noteq> []"
  shows "MaxFunc scores < length scores" "j < length scores \<Longrightarrow> bs_Score (scores ! j) \<le> bs_Score (scores ! MaxFunc scores)"
proof -
  obtain x xs where s: "scores = x # xs" using assms by (cases scores) auto
  note MaxFunc_loop_max [of 1 "[x]" 0 "bs_Score x" xs, simplified]
  then show "MaxFunc scores < length scores" "j < length scores \<Longrightarrow> bs_Score (scores ! j) \<le> bs_Score (scores ! MaxFunc scores)"
    using nth_mem [of j scores] unfolding s MaxFunc_def by auto
qed

text \<open>A run of recommendations at the given times, with no success reported in between.\<close>

fun recommandations :: "int list \<Rightarrow> MakeHoleRecords \<Rightarrow> (nat \<times> nat) list" where
  "recommandations [] mhr = []"
| "recommandations (now # clocks) mhr = (case Recommand now mhr of (b, mhr) \<Rightarrow> b # recommandations clocks mhr)"

fun recommanded :: "int list \<Rightarrow> MakeHoleRecords \<Rightarrow> MakeHoleRecords" where
  "recommanded [] mhr = mhr"
| "recommanded (now # clocks) mhr = recommanded clocks (snd (Recommand now mhr))"

definition score_of :: "MakeHoleRecords \<Rightarrow> nat \<Rightarrow> int" where
  "score_of mhr j = bs_Score (mhr_scores mhr ! j)"

lemma Recommand_scores:
  assumes "mhr_scores mhr \<noteq> []" "Recommand now mhr = (b, mhr')"
  obtains m where "m < length (mhr_scores mhr)" "\<And>j. j < length (mhr_scores mhr) \<Longrightarrow> score_of mhr j \<le> score_of mhr m"
    "b = (bs_Mode (mhr_scores mhr ! m), bs_Index (mhr_scores mhr ! m))" "length (mhr_scores mhr') = length (mhr_scores mhr)"
    "\<And>j. j < length (mhr_scores mhr) \<Longrightarrow> score_of mhr' j = (if j = m then score_of mhr j - 1 else score_of mhr j)"
    "\<And>j. j < length (mhr_scores mhr) \<Longrightarrow> bs_Mode (mhr_scores mhr' ! j) = bs_Mode (mhr_scores mhr ! j) \<and> bs_Index (mhr_scores mhr' ! j) = bs_Index (mhr_scores mhr ! j)"
proof -
  have m: "mhr_scores mhr' = (mhr_scores mhr)[MaxFunc (mhr_scores mhr) := (mhr_scores mhr ! MaxFunc (mhr_scores mhr))\<lparr>bs_Score := bs_Score (mhr_scores mhr ! MaxFunc (mhr_scores mhr)) - 1\<rparr>]"
    "b = (bs_Mode (mhr_scores mhr ! MaxFunc (mhr_scores mhr)), bs_Index (mhr_scores mhr ! MaxFunc (mhr_scores mhr)))"
    using assms by (auto simp: Recommand_def Let_def)
  show ?thesis
    by (rule that [of "MaxFunc (mhr_scores mhr)"])
      (use MaxFunc_max [OF assms(1)] m in \<open>auto simp: score_of_def nth_list_update\<close>)
qed

text \<open>An entry that is not recommended keeps its score, and the others sink at most to just below it.\<close>

lemma recommanded_scores:
  assumes "i < length (mhr_scores mhr)" "(bs_Mode (mhr_scores mhr ! i), bs_Index (mhr_scores mhr ! i)) \<notin> set (recommandations clocks mhr)"
  shows "length (mhr_scores (recommanded clocks mhr)) = length (mhr_scores mhr) \<and> score_of (recommanded clocks mhr) i = score_of mhr i \<and>
    (\<forall>j<length (mhr_scores mhr). min (score_of mhr j) (score_of mhr i - 1) \<le> score_of (recommanded clocks mhr) j) \<and>
    (\<Sum>j<length (mhr_scores mhr). score_of (recommanded clocks mhr) j) = (\<Sum>j<length (mhr_scores mhr). score_of mhr j) - int (length clocks)"
  using assms
proof (induction clocks arbitrary: mhr)
  case (Cons now clocks)
  let ?n = "length (mhr_scores mhr)"
  obtain b mhr' where r: "Recommand now mhr = (b, mhr')" by fastforce
  have ne: "mhr_scores mhr \<noteq> []" using Cons.prems(1) by auto
  obtain m where m: "m < ?n" "\<And>j. j < ?n \<Longrightarrow> score_of mhr j \<le> score_of mhr m"
    "b = (bs_Mode (mhr_scores mhr ! m), bs_Index (mhr_scores mhr ! m))" "length (mhr_scores mhr') = ?n"
    "\<And>j. j < ?n \<Longrightarrow> score_of mhr' j = (if j = m then score_of mhr j - 1 else score_of mhr j)"
    "\<And>j. j < ?n \<Longrightarrow> bs_Mode (mhr_scores mhr' ! j) = bs_Mode (mhr_scores mhr ! j) \<and> bs_Index (mhr_scores mhr' ! j) = bs_Index (mhr_scores mhr ! j)"
    by (rule Recommand_scores [OF ne r]) blast
  have im: "i \<noteq> m" using Cons.prems(2) r m(3) by auto
  have "length (mhr_scores (recommanded clocks mhr')) = ?n \<and> score_of (recommanded clocks mhr') i = score_of mhr' i \<and>
    (\<forall>j<?n. min (score_of mhr' j) (score_of mhr' i - 1) \<le> score_of (recommanded clocks mhr') j) \<and>
    (\<Sum>j<?n. score_of (recommanded clocks mhr') j) = (\<Sum>j<?n. score_of mhr' j) - int (length clocks)"
    using Cons.IH [of mhr'] Cons.prems r m(4) m(6) [OF Cons.prems(1)] by simp
  note IH = this
  have i: "score_of mhr' i = score_of mhr i" using m(5) [OF Cons.prems(1)] im by simp
  have low: "min (score_of mhr j) (score_of mhr i - 1) \<le> min (score_of mhr' j) (score_of mhr' i - 1)" if "j < ?n" for j
    using m(2) [OF Cons.prems(1)] m(5) [OF that] i by auto
  have "(\<Sum>j<?n. score_of mhr' j) = (\<Sum>j<?n. score_of mhr j - (if j = m then 1 else 0))"
    by (rule sum.cong) (use m(5) in auto)
  then have sum: "(\<Sum>j<?n. score_of mhr' j) = (\<Sum>j<?n. score_of mhr j) - 1" using m(1) by (simp add: sum_subtractf)
  have "min (score_of mhr j) (score_of mhr i - 1) \<le> score_of (recommanded clocks mhr') j" if "j < ?n" for j
    using order_trans [OF low [OF that]] IH that by blast
  then show ?case using IH i sum r by simp
qed simp

lemma Recommand_fair_aux:
  assumes i: "i < length (mhr_scores mhr)"
    and k: "int (length clocks) > (\<Sum>j\<in>{..<length (mhr_scores mhr)} - {i}. max 0 (score_of mhr j - score_of mhr i + 1))"
  shows "(bs_Mode (mhr_scores mhr ! i), bs_Index (mhr_scores mhr ! i)) \<in> set (recommandations clocks mhr)"
proof (rule ccontr)
  let ?n = "length (mhr_scores mhr)" and ?r = "recommanded clocks mhr"
  assume "\<not> ?thesis"
  note R = recommanded_scores [OF i this]
  have "int (length clocks) = (\<Sum>j<?n. score_of mhr j - score_of ?r j)" using R by (simp add: sum_subtractf)
  also have "\<dots> = (\<Sum>j\<in>{..<?n} - {i}. score_of mhr j - score_of ?r j)" using R i by (subst sum.remove [of _ i]) auto
  also have "\<dots> \<le> (\<Sum>j\<in>{..<?n} - {i}. max 0 (score_of mhr j - score_of mhr i + 1))"
  proof (rule sum_mono)
    fix j assume "j \<in> {..<?n} - {i}"
    then have "min (score_of mhr j) (score_of mhr i - 1) \<le> score_of ?r j" using R by auto
    then show "score_of mhr j - score_of ?r j \<le> max 0 (score_of mhr j - score_of mhr i + 1)" by arith
  qed
  finally show False using k by simp
qed

text \<open>
  C28. No way of punching a hole is starved.  However the scores of a pair of peers stand, while no success is reported a behaviour is recommended
  after at most as many attempts as the scores of the others exceed its own, counting one more for each of them that is not lower; so every behaviour is tried.
\<close>

theorem Recommand_fair:
  assumes "i < length (mhr_scores mhr)"
    and "int (length clocks) > (\<Sum>j\<in>{..<length (mhr_scores mhr)} - {i}. max 0 (bs_Score (mhr_scores mhr ! j) - bs_Score (mhr_scores mhr ! i) + 1))"
  shows "(bs_Mode (mhr_scores mhr ! i), bs_Index (mhr_scores mhr ! i)) \<in> set (recommandations clocks mhr)"
  using Recommand_fair_aux [OF assms(1)] assms(2) by (simp add: score_of_def)

definition hard_irregular :: NatFeature where
  "hard_irregular = \<lparr>NatType = HardNAT, nf_Behavior = BehaviorBothChanged, PortsDifference = 0, RegularPortsChange = False, PublicNetwork = False\<rparr>"

definition easy_feature :: NatFeature where
  "easy_feature = \<lparr>NatType = EasyNAT, nf_Behavior = BehaviorNoChange, PortsDifference = 0, RegularPortsChange = False, PublicNetwork = False\<rparr>"

lemmas mode_defs = mode0Behaviors_def mode1Behaviors_def mode2Behaviors_def mode3Behaviors_def mode4Behaviors_def getBehaviorByMode_def

lemma scores_easy: "map bs_Score (mhr_scores (NewMakeHoleRecords 0 easy_feature easy_feature)) = replicate 10 0"
  "map (\<lambda>x. (bs_Mode x, bs_Index x)) (mhr_scores (NewMakeHoleRecords 0 easy_feature easy_feature)) = map (Pair 0) [0..<10]"
  by (simp_all add: NewMakeHoleRecords_def easy_feature_def getBehaviorScoresByMode_def getBehaviorScoresByMode2_def mode_defs comp_def
      numeral_eq_Suc)

theorem Recommand_fair_witness:
  "(0, 9) \<in> set (recommandations (replicate 10 7) (NewMakeHoleRecords 0 easy_feature easy_feature))"
proof -
  let ?r = "NewMakeHoleRecords 0 easy_feature easy_feature"
  have len: "length (mhr_scores ?r) = 10" using arg_cong [OF scores_easy(1), of length] by simp
  have sc: "bs_Score (mhr_scores ?r ! j) = 0" if "j < 10" for j
    using arg_cong [OF scores_easy(1), of "\<lambda>xs. xs ! j"] that len by simp
  have "(\<Sum>j\<in>{..<length (mhr_scores ?r)} - {9}. max 0 (bs_Score (mhr_scores ?r ! j) - bs_Score (mhr_scores ?r ! 9) + 1)) = (\<Sum>j\<in>{..<10::nat} - {9}. 1)"
    by (rule sum.cong) (use len sc in auto)
  then have "(bs_Mode (mhr_scores ?r ! 9), bs_Index (mhr_scores ?r ! 9)) \<in> set (recommandations (replicate 10 7) ?r)"
    using Recommand_fair [of 9 ?r "replicate 10 7"] len by simp
  moreover have "(bs_Mode (mhr_scores ?r ! 9), bs_Index (mhr_scores ?r ! 9)) = (0, 9)"
    using arg_cong [OF scores_easy(2), of "\<lambda>xs. xs ! 9"] len by simp
  ultimately show ?thesis by simp
qed

section \<open>The analyzer\<close>











lemma report_loop_Nil [simp]: "report_loop mode index es = [] \<longleftrightarrow> es = []"
  by (cases es) auto






lemma roles_differ [simp]: "DetectRoleSender \<noteq> DetectRoleReceiver" "DetectRoleReceiver \<noteq> DetectRoleSender"
  by (simp_all add: DetectRoleSender_def DetectRoleReceiver_def str_def)


section \<open>The answers\<close>








section \<open>Findings\<close>

text \<open>
  The addresses are compacted in place before the last one is read: when two neighbouring addresses are equal the last one is gone, and with it the ports that the
  receiver was to try.
\<close>

lemma candidate_ports_lost:
  assumes "length (remdups_adj addrs) < length addrs"
  shows "getRangePorts (snd (slices_Compact addrs)) difference maxNumber = []"
proof -
  have "last (snd (slices_Compact addrs)) = []" using assms by (simp add: slices_Compact_def Let_def last_append)
  moreover have "SplitHostPort [] = Inl (ErrText ''missing port in address'')" by (simp add: SplitHostPort_def last_index_byte_def)
  ultimately show ?thesis by (simp add: getRangePorts_def)
qed

lemma wrap64_id: "- (2 ^ 63) \<le> x \<Longrightarrow> x < 2 ^ 63 \<Longrightarrow> wrap64 x = x"
  by (simp add: wrap64_def)

lemma getRangePorts_bounds:
  assumes "SplitHostPort (last addrs) = Inr (ip, portStr)" "Atoi portStr = Inr port" "addrs \<noteq> []" "1 \<le> port" "port \<le> 65535"
    and "0 \<le> difference" "difference \<le> 65535" "0 < maxNumber" "maxNumber \<le> 65535"
  shows "\<exists>lo hi. getRangePorts addrs difference maxNumber = [(lo, hi)] \<and> 1 \<le> lo \<and> lo \<le> port \<and> port \<le> hi \<and> hi \<le> 65535 \<and> hi - lo \<le> 2 * maxNumber"
  using assms by (simp add: getRangePorts_def wrap64_id)

text \<open>The list of users that may visit a proxy is looked at by the preliminary check only.\<close>

lemma allowUsers_only_prechecked:
  assumes "clientCfgs c (nv_ProxyName m) = Some cfg" "visitorUser \<notin> set (cc_allowUsers cfg)" "str ''*'' \<notin> set (cc_allowUsers cfg)"
    and "nv_SignKey m = GetAuthKey md5hex (cc_sk cfg) (nv_Timestamp m)"
  shows "nr_Error (HandleVisitor_PreCheck m visitorUser c) \<noteq> [] \<and>
    (\<exists>c'. HandleVisitor_admit md5hex sid m c = Inr c' \<and> nat_sessions c' sid \<noteq> None)"
  using assms by (simp add: HandleVisitor_PreCheck_def HandleVisitor_admit_def GenNatHoleResponse_def)

text \<open>Every recommendation takes one point from the scores, which have no lower bound.\<close>

lemma recommanded_sum:
  assumes "mhr_scores mhr \<noteq> []"
  shows "length (mhr_scores (recommanded clocks mhr)) = length (mhr_scores mhr) \<and>
    (\<Sum>j<length (mhr_scores mhr). score_of (recommanded clocks mhr) j) = (\<Sum>j<length (mhr_scores mhr). score_of mhr j) - int (length clocks)"
  using assms
proof (induction clocks arbitrary: mhr)
  case (Cons now clocks)
  let ?n = "length (mhr_scores mhr)"
  obtain b mhr' where r: "Recommand now mhr = (b, mhr')" by fastforce
  obtain m where m: "m < ?n" "length (mhr_scores mhr') = ?n"
    "\<And>j. j < ?n \<Longrightarrow> score_of mhr' j = (if j = m then score_of mhr j - 1 else score_of mhr j)"
    by (rule Recommand_scores [OF Cons.prems r]) blast
  have "(\<Sum>j<?n. score_of mhr' j) = (\<Sum>j<?n. score_of mhr j - (if j = m then 1 else 0))"
    by (rule sum.cong) (use m(3) in auto)
  then have "(\<Sum>j<?n. score_of mhr' j) = (\<Sum>j<?n. score_of mhr j) - 1" using m(1) by (simp add: sum_subtractf)
  moreover have "mhr_scores mhr' \<noteq> []" using m(1,2) by force
  ultimately show ?case using Cons.IH [of mhr'] r m(2) by simp
qed simp

lemma scores_unbounded:
  assumes "mhr_scores mhr \<noteq> []" "\<forall>j<length (mhr_scores mhr). score_of mhr j \<le> 10" "int (length clocks) > 20 * int (length (mhr_scores mhr))"
  shows "\<exists>j<length (mhr_scores mhr). score_of (recommanded clocks mhr) j < - 10"
proof (rule ccontr)
  let ?n = "length (mhr_scores mhr)"
  assume "\<not> ?thesis"
  then have "(\<Sum>j<?n. - 10) \<le> (\<Sum>j<?n. score_of (recommanded clocks mhr) j)" by (intro sum_mono) force
  moreover have "(\<Sum>j<?n. score_of mhr j) \<le> (\<Sum>j<?n. 10)" using assms(2) by (intro sum_mono) force
  ultimately show False using recommanded_sum [OF assms(1), of clocks] assms(3) by simp
qed

text \<open>A client on a public network becomes the sender once the other behaviours have failed.\<close>

lemma public_network_sender:
  "(0, 0) \<in> set (recommandations (replicate 20 0) (NewMakeHoleRecords 0 (easy_feature\<lparr>PublicNetwork := True\<rparr>) easy_feature)) \<and>
    rb_Role (fst (getBehaviorByModeAndIndex 0 0)) = DetectRoleSender"
proof -
  let ?r = "NewMakeHoleRecords 0 (easy_feature\<lparr>PublicNetwork := True\<rparr>) easy_feature"
  have sc: "map bs_Score (mhr_scores ?r) = [0, 1, 0, 1, 0, 1, 0, 0, 1, 1]"
    by (simp add: NewMakeHoleRecords_def easy_feature_def getBehaviorScoresByMode2_def mode_defs comp_def numeral_eq_Suc behavior_def)
  have hd: "bs_Mode (mhr_scores ?r ! 0) = 0 \<and> bs_Index (mhr_scores ?r ! 0) = 0"
    by (simp add: NewMakeHoleRecords_def easy_feature_def getBehaviorScoresByMode2_def mode_defs)
  have len: "length (mhr_scores ?r) = 10" using arg_cong [OF sc, of length] by simp
  have at: "score_of ?r j = [0, 1, 0, 1, 0, 1, 0, 0, 1, 1] ! j" if "j < 10" for j
    using arg_cong [OF sc, of "\<lambda>xs. xs ! j"] that len by (simp add: score_of_def)
  have zero: "score_of ?r 0 = 0" using at [of 0] by simp
  have one: "score_of ?r j \<le> 1" if "j < 10" for j
    using at [OF that] nth_mem [of j "[0, 1, 0, 1, 0, 1, 0, 0, 1, 1] :: int list"] that by auto
  have "(\<Sum>j\<in>{..<10} - {0}. max 0 (score_of ?r j - score_of ?r 0 + 1)) \<le> (\<Sum>j\<in>{..<10::nat} - {0}. 2)"
    by (rule sum_mono) (use one zero in force)
  then show ?thesis
    using Recommand_fair_aux [of 0 ?r "replicate 20 0"] len hd
    by (simp add: getBehaviorByModeAndIndex_def mode_defs behavior_def)
qed

end
