(* ===== verification/Webdav.thy ===== *)
theory Webdav
  imports Frp_Strings "HOL-Library.List_Lexorder"
begin

text \<open>
  Access control of the WebDAV server, \<^verbatim>\<open>webdav/lib\<close>: rules and permissions (\<^verbatim>\<open>permissions.go\<close>), users (\<^verbatim>\<open>user.go\<close>), the request
  that the rules look at (\<^verbatim>\<open>request.go\<close>), the store of users (\<^verbatim>\<open>store_memory.go\<close>, \<^verbatim>\<open>store_seed.go\<close>), the validation and
  the cascade of the configuration (\<^verbatim>\<open>config.go\<close>), the decision in \<^verbatim>\<open>ServeHTTP\<close> (\<^verbatim>\<open>handler.go\<close>) and the management interface
  (\<^verbatim>\<open>management.go\<close>).

  What the operating system and other packages answer are arguments: whether a pattern matches a path (\<open>rx\<close>), whether a
  password belongs to a bcrypt hash (\<open>bcrypt\<close>), the environment (\<open>env\<close>), the absolute path of a directory (\<open>Abs\<close>), the path of
  a URL (\<open>url_path\<close>) and the kind of a file (\<open>stat\<close>).  The decoded body of a management request is part of the request.
\<close>

section \<open>Permissions and rules\<close>

record Permissions =
  pm_Create :: bool
  pm_Read :: bool
  pm_Update :: bool
  pm_Delete :: bool

record Rule =
  rl_Permissions :: Permissions
  rl_Path :: bytes
  rl_Regex :: "bytes option"

definition RulesOverwrite :: bytes where "RulesOverwrite = str ''overwrite''"
definition RulesAppend :: bytes where "RulesAppend = str ''append''"

record UserPermissions =
  up_Directory :: bytes
  up_Permissions :: Permissions
  up_Rules :: "Rule list"
  up_RulesBehavior :: bytes

record request =
  rq_method :: bytes
  rq_path :: bytes
  rq_destination :: bytes

definition Rule_Validate :: "Rule \<Rightarrow> unit res" where
  "Rule_Validate r =
    (if rl_Regex r = None \<and> rl_Path r = [] then Inl (ErrText ''must either define a path of a regex'')
     else if rl_Regex r \<noteq> None \<and> rl_Path r \<noteq> [] then Inl (ErrText ''cannot define both regex and path'')
     else Inr ())"

definition Rule_Matches :: "(bytes \<Rightarrow> bytes \<Rightarrow> bool) \<Rightarrow> Rule \<Rightarrow> bytes \<Rightarrow> bool" where
  "Rule_Matches rx r path = (case rl_Regex r of Some e \<Rightarrow> rx e path | None \<Rightarrow> prefix (rl_Path r) path)"

definition Permissions_Allowed :: "Permissions \<Rightarrow> request \<Rightarrow> (bytes \<Rightarrow> bool) \<Rightarrow> bool" where
  "Permissions_Allowed p r fileExists =
    (let m = rq_method r in
     if m = str ''GET'' \<or> m = str ''HEAD'' \<or> m = str ''OPTIONS'' \<or> m = str ''POST'' \<or> m = str ''PROPFIND'' then pm_Read p
     else if m = str ''MKCOL'' then pm_Create p
     else if m = str ''PROPPATCH'' then pm_Update p
     else if m = str ''PUT'' then (if fileExists (rq_path r) then pm_Update p else pm_Create p)
     else if m = str ''COPY'' then pm_Read p
     else if m = str ''MOVE'' then pm_Read p \<and> pm_Delete p
     else if m = str ''DELETE'' then pm_Delete p
     else if m = str ''LOCK'' \<or> m = str ''UNLOCK'' then pm_Create p \<or> pm_Read p \<or> pm_Update p \<or> pm_Delete p
     else False)"

definition AllowedDestination :: "Permissions \<Rightarrow> request \<Rightarrow> (bytes \<Rightarrow> bool) \<Rightarrow> bool" where
  "AllowedDestination p r fileExists =
    (if rq_method r = str ''COPY'' \<or> rq_method r = str ''MOVE'' then
       (if fileExists (rq_destination r) then pm_Update p else pm_Create p)
     else False)"

text \<open>The loops go through the rules from the last one; \<open>None\<close> is that no rule matched.\<close>

fun destination_loop :: "(bytes \<Rightarrow> bytes \<Rightarrow> bool) \<Rightarrow> request \<Rightarrow> (bytes \<Rightarrow> bool) \<Rightarrow> Rule list \<Rightarrow> bool option" where
  "destination_loop rx r fileExists [] = None"
| "destination_loop rx r fileExists (u # us) =
    (if Rule_Matches rx u (rq_destination r) then Some (AllowedDestination (rl_Permissions u) r fileExists)
     else destination_loop rx r fileExists us)"

fun source_loop :: "(bytes \<Rightarrow> bytes \<Rightarrow> bool) \<Rightarrow> request \<Rightarrow> (bytes \<Rightarrow> bool) \<Rightarrow> Rule list \<Rightarrow> bool option" where
  "source_loop rx r fileExists [] = None"
| "source_loop rx r fileExists (u # us) =
    (if Rule_Matches rx u (rq_path r) then Some (Permissions_Allowed (rl_Permissions u) r fileExists)
     else source_loop rx r fileExists us)"

definition UserPermissions_Allowed :: "(bytes \<Rightarrow> bytes \<Rightarrow> bool) \<Rightarrow> UserPermissions \<Rightarrow> request \<Rightarrow> (bytes \<Rightarrow> bool) \<Rightarrow> bool" where
  "UserPermissions_Allowed rx p r fileExists =
    (if (rq_method r = str ''COPY'' \<or> rq_method r = str ''MOVE'') \<and>
        \<not> (case destination_loop rx r fileExists (rev (up_Rules p)) of
             Some b \<Rightarrow> b
           | None \<Rightarrow> AllowedDestination (up_Permissions p) r fileExists)
     then False
     else case source_loop rx r fileExists (rev (up_Rules p)) of
       Some b \<Rightarrow> b
     | None \<Rightarrow> Permissions_Allowed (up_Permissions p) r fileExists)"

fun Rules_Validate :: "Rule list \<Rightarrow> unit res" where
  "Rules_Validate [] = Inr ()"
| "Rules_Validate (r # rs) = rbind (Rule_Validate r) (\<lambda>_. Rules_Validate rs)"

definition UserPermissions_Validate :: "(bytes \<Rightarrow> bytes res) \<Rightarrow> UserPermissions \<Rightarrow> UserPermissions res" where
  "UserPermissions_Validate Abs p =
    rbind (Abs (up_Directory p)) (\<lambda>d.
    rbind (Rules_Validate (up_Rules p)) (\<lambda>_.
    if up_RulesBehavior p = RulesAppend \<or> up_RulesBehavior p = RulesOverwrite then Inr (p\<lparr>up_Directory := d\<rparr>)
    else Inl (ErrText ''invalid rule behavior'')))"

text \<open>
  The text of permissions.  \<^verbatim>\<open>ToLower\<close> changes no other character into one of the four letters, so the loop can be read on bytes.
\<close>

definition lower_byte :: "byte \<Rightarrow> byte" where
  "lower_byte b = (if 0x41 \<le> b \<and> b \<le> 0x5A then b + 0x20 else b)"

fun UnmarshalText_loop :: "bytes \<Rightarrow> Permissions \<Rightarrow> Permissions res" where
  "UnmarshalText_loop [] p = Inr p"
| "UnmarshalText_loop (c # cs) p =
    (if c = 0x63 then UnmarshalText_loop cs (p\<lparr>pm_Create := True\<rparr>)
     else if c = 0x72 then UnmarshalText_loop cs (p\<lparr>pm_Read := True\<rparr>)
     else if c = 0x75 then UnmarshalText_loop cs (p\<lparr>pm_Update := True\<rparr>)
     else if c = 0x64 then UnmarshalText_loop cs (p\<lparr>pm_Delete := True\<rparr>)
     else Inl (ErrText ''invalid permission''))"

definition UnmarshalText :: "bytes \<Rightarrow> Permissions \<Rightarrow> Permissions res" where
  "UnmarshalText data p =
    (let text = map lower_byte data in if text = str ''none'' then Inr p else UnmarshalText_loop text p)"

definition MarshalText :: "Permissions \<Rightarrow> bytes" where
  "MarshalText p =
    (if \<not> pm_Create p \<and> \<not> pm_Read p \<and> \<not> pm_Update p \<and> \<not> pm_Delete p then str ''none''
     else if pm_Create p \<and> pm_Read p \<and> pm_Update p \<and> pm_Delete p then str ''CRUD''
     else (if pm_Create p then [0x43] else []) @ (if pm_Read p then [0x52] else [])
       @ (if pm_Update p then [0x55] else []) @ (if pm_Delete p then [0x44] else []))"

section \<open>Users\<close>

record User =
  us_Permissions :: UserPermissions
  us_Username :: bytes
  us_Password :: bytes

definition TrimPrefix :: "bytes \<Rightarrow> bytes \<Rightarrow> bytes" where
  "TrimPrefix s p = (if prefix p s then drop (length p) s else s)"

definition checkPassword :: "(bytes \<Rightarrow> bytes \<Rightarrow> bool) \<Rightarrow> User \<Rightarrow> bytes \<Rightarrow> bool" where
  "checkPassword bcrypt u input =
    (if prefix (str ''{bcrypt}'') (us_Password u) then bcrypt (TrimPrefix (us_Password u) (str ''{bcrypt}'')) input
     else us_Password u = input)"

text \<open>A name or password that stands for a variable of the environment.\<close>

definition from_env :: "(bytes \<Rightarrow> bytes) \<Rightarrow> bytes \<Rightarrow> bytes res" where
  "from_env env s =
    (if prefix (str ''{env}'') s then
       let v = TrimPrefix s (str ''{env}'') in
       if v = [] then Inl (ErrText ''environment variable not set'')
       else if env v = [] then Inl (ErrText ''environment variable is empty'')
       else Inr (env v)
     else Inr s)"

definition User_Validate :: "(bytes \<Rightarrow> bytes res) \<Rightarrow> (bytes \<Rightarrow> bytes) \<Rightarrow> bool \<Rightarrow> User \<Rightarrow> User res" where
  "User_Validate Abs env noPassword u =
    rbind (if us_Username u = [] then Inl (ErrText ''username must be set'') else from_env env (us_Username u)) (\<lambda>name.
    rbind (if us_Password u = [] \<and> \<not> noPassword then Inl (ErrText ''password must be set'') else from_env env (us_Password u)) (\<lambda>pw.
    rbind (UserPermissions_Validate Abs (us_Permissions u)) (\<lambda>p.
    Inr \<lparr>us_Permissions = p, us_Username = name, us_Password = pw\<rparr>)))"

section \<open>The store of users\<close>

record memoryStore =
  ms_global :: UserPermissions
  ms_users :: "(bytes \<times> User) list"

definition ErrNotFound :: error where "ErrNotFound = ErrText ''not found''"

definition GetGlobal :: "memoryStore \<Rightarrow> UserPermissions res" where
  "GetGlobal s = Inr (ms_global s)"

definition SetGlobal :: "UserPermissions \<Rightarrow> memoryStore \<Rightarrow> memoryStore res" where
  "SetGlobal p s = Inr (s\<lparr>ms_global := p\<rparr>)"

definition sortUsers :: "User list \<Rightarrow> User list" where
  "sortUsers us = sort_key us_Username us"

definition ListUsers :: "memoryStore \<Rightarrow> User list res" where
  "ListUsers s = Inr (sortUsers (map snd (ms_users s)))"

definition GetUser :: "bytes \<Rightarrow> memoryStore \<Rightarrow> User res" where
  "GetUser username s = (case map_of (ms_users s) username of None \<Rightarrow> Inl ErrNotFound | Some u \<Rightarrow> Inr u)"

definition SetUser :: "User \<Rightarrow> memoryStore \<Rightarrow> memoryStore res" where
  "SetUser u s = Inr (s\<lparr>ms_users := al_put (us_Username u) u (ms_users s)\<rparr>)"

definition DeleteUser :: "bytes \<Rightarrow> memoryStore \<Rightarrow> memoryStore res" where
  "DeleteUser username s =
    (case map_of (ms_users s) username of
       None \<Rightarrow> Inl ErrNotFound
     | Some _ \<Rightarrow> Inr (s\<lparr>ms_users := al_del username (ms_users s)\<rparr>))"

section \<open>Configuration\<close>

record Management =
  mg_Enabled :: bool
  mg_Prefix :: bytes
  mg_Token :: bytes
  mg_OpenAPIPath :: bytes
  mg_DocsPath :: bytes

record Config =
  cf_Permissions :: UserPermissions
  cf_TLS :: bool
  cf_Cert :: bytes
  cf_Key :: bytes
  cf_Prefix :: bytes
  cf_NoPassword :: bool
  cf_Users :: "User list"
  cf_RedisEnabled :: bool
  cf_RedisAddr :: bytes
  cf_RedisKeyPrefix :: bytes
  cf_Management :: Management

definition NewStoreFromConfig :: "Config \<Rightarrow> memoryStore" where
  "NewStoreFromConfig cfg =
    \<lparr>ms_global = cf_Permissions cfg, ms_users = fold (\<lambda>u m. al_put (us_Username u) u m) (cf_Users cfg) []\<rparr>"

fun seed_users :: "User list \<Rightarrow> memoryStore \<Rightarrow> memoryStore res" where
  "seed_users [] s = Inr s"
| "seed_users (u # us) s = rbind (SetUser u s) (seed_users us)"

definition seedStoreFromConfigIfEmpty :: "Config \<Rightarrow> memoryStore \<Rightarrow> memoryStore res" where
  "seedStoreFromConfigIfEmpty cfg s =
    rbind (case GetGlobal s of
        Inl e \<Rightarrow> if e = ErrNotFound then SetGlobal (cf_Permissions cfg) s else Inl e
      | Inr _ \<Rightarrow> Inr s) (\<lambda>s.
    rbind (ListUsers s) (\<lambda>users.
    if users = [] \<and> cf_Users cfg \<noteq> [] then seed_users (cf_Users cfg) s else Inr s))"

text \<open>
  The cascade of the global settings to a user; the arguments are whether the configuration sets the user's directory, permissions,
  behaviour and rules.
\<close>

definition cascade_user :: "UserPermissions \<Rightarrow> bool \<Rightarrow> bool \<Rightarrow> bool \<Rightarrow> bool \<Rightarrow> User \<Rightarrow> User" where
  "cascade_user g hasDir hasPerm hasBehavior hasRules u =
    (let p = us_Permissions u;
         p = (if \<not> hasDir then p\<lparr>up_Directory := up_Directory g\<rparr> else p);
         p = (if \<not> hasPerm then p\<lparr>up_Permissions := up_Permissions g\<rparr> else p);
         p = (if \<not> hasBehavior then p\<lparr>up_RulesBehavior := up_RulesBehavior g\<rparr> else p);
         p = (if hasRules then
                if up_RulesBehavior p = RulesOverwrite then p
                else if up_RulesBehavior p = RulesAppend then p\<lparr>up_Rules := up_Rules g @ up_Rules p\<rparr>
                else p
              else p\<lparr>up_Rules := up_Rules g\<rparr>)
     in u\<lparr>us_Permissions := p\<rparr>)"

fun Users_Validate :: "(bytes \<Rightarrow> bytes res) \<Rightarrow> (bytes \<Rightarrow> bytes) \<Rightarrow> bool \<Rightarrow> User list \<Rightarrow> User list res" where
  "Users_Validate Abs env noPassword [] = Inr []"
| "Users_Validate Abs env noPassword (u # us) =
    rbind (User_Validate Abs env noPassword u) (\<lambda>u. rbind (Users_Validate Abs env noPassword us) (\<lambda>us. Inr (u # us)))"

definition Management_Validate :: "Management \<Rightarrow> unit res" where
  "Management_Validate m =
    (if TrimSpace (mg_Prefix m) = [] then Inl (ErrText ''Management.Prefix must be defined'')
     else if \<not> prefix (str ''/'') (mg_Prefix m) then Inl (ErrText ''Management.Prefix must start with /'')
     else if TrimSpace (mg_Token m) = [] then Inl (ErrText ''Management.Token must be defined'')
     else if TrimSpace (mg_OpenAPIPath m) = [] \<or> \<not> prefix (str ''/'') (mg_OpenAPIPath m) then Inl (ErrText ''Management.OpenAPIPath'')
     else if TrimSpace (mg_DocsPath m) = [] \<or> \<not> prefix (str ''/'') (mg_DocsPath m) then Inl (ErrText ''Management.DocsPath'')
     else Inr ())"

definition Config_Validate :: "(bytes \<Rightarrow> bytes res) \<Rightarrow> (bytes \<Rightarrow> bytes) \<Rightarrow> Config \<Rightarrow> Config res" where
  "Config_Validate Abs env c =
    rbind (Abs (up_Directory (cf_Permissions c))) (\<lambda>d.
    rbind (if cf_TLS c then
        if cf_Cert c = [] then Inl (ErrText ''Cert must be defined'')
        else if cf_Key c = [] then Inl (ErrText ''Key must be defined'')
        else rbind (Abs (cf_Cert c)) (\<lambda>cert. rbind (Abs (cf_Key c)) (\<lambda>key. Inr (cert, key)))
      else Inr (cf_Cert c, cf_Key c)) (\<lambda>(cert, key).
    rbind (UserPermissions_Validate Abs ((cf_Permissions c)\<lparr>up_Directory := d\<rparr>)) (\<lambda>p.
    rbind (Users_Validate Abs env (cf_NoPassword c) (cf_Users c)) (\<lambda>us.
    rbind (if cf_RedisEnabled c then
        if TrimSpace (cf_RedisAddr c) = [] then Inl (ErrText ''Redis.Addr must be defined'')
        else if TrimSpace (cf_RedisKeyPrefix c) = [] then Inl (ErrText ''Redis.KeyPrefix must be defined'')
        else Inr ()
      else Inr ()) (\<lambda>_.
    rbind (if mg_Enabled (cf_Management c) then Management_Validate (cf_Management c) else Inr ()) (\<lambda>_.
    Inr (c\<lparr>cf_Permissions := p, cf_Cert := cert, cf_Key := key, cf_Users := us\<rparr>)))))))"

section \<open>Requests\<close>

record userUpsert =
  uu_Username :: bytes
  uu_Password :: "bytes option"
  uu_Directory :: "bytes option"
  uu_Permissions :: "Permissions option"
  uu_Rules :: "Rule option list option"
  uu_RulesBehavior :: "bytes option"

record globalUpsert =
  gu_Directory :: "bytes option"
  gu_Permissions :: "Permissions option"
  gu_Rules :: "Rule option list option"
  gu_RulesBehavior :: "bytes option"

record http_request =
  h_Method :: bytes
  h_Path :: bytes
  h_Destination :: bytes
  h_Depth :: bytes
  h_BasicAuth :: "(bytes \<times> bytes) option"
  h_Authorization :: bytes
  h_global :: "globalUpsert res"
  h_user :: "userUpsert res"

definition newRequest :: "(bytes \<Rightarrow> bytes res) \<Rightarrow> http_request \<Rightarrow> bytes \<Rightarrow> request res" where
  "newRequest url_path r pre =
    rbind (if h_Destination r \<noteq> [] then
        rbind (url_path (h_Destination r)) (\<lambda>path.
        rbind (if pre \<noteq> [] then
            let destination = TrimPrefix path pre
            in if length path \<le> length destination then Inl (ErrText ''invalid url prefix'') else Inr destination
          else Inr (h_Destination r)) (\<lambda>destination.
        Inr (if \<not> prefix (str ''/'') destination then str ''/'' @ destination else destination)))
      else Inr []) (\<lambda>destination.
    rbind (if pre \<noteq> [] then
        let path = TrimPrefix (h_Path r) pre
        in if length (h_Path r) \<le> length path then Inl (ErrText ''invalid url prefix'') else Inr path
      else Inr (h_Path r)) (\<lambda>path.
    let path = (if \<not> prefix (str ''/'') path then str ''/'' @ path else path)
    in Inr \<lparr>rq_method = h_Method r, rq_path = path, rq_destination = destination\<rparr>))"

datatype stat = NotExist | StatError | File | Directory

datatype response =
    ToManagement
  | Http_Error nat
  | Serve bytes http_request

text \<open>
  The user of a request: \<open>None\<close> when nobody has to log in.  The answer 401 also for an error of the store, as in the code.
\<close>

definition authenticate :: "(bytes \<Rightarrow> bytes \<Rightarrow> bool) \<Rightarrow> bool \<Rightarrow> User list \<Rightarrow> memoryStore \<Rightarrow> http_request \<Rightarrow> nat + User option" where
  "authenticate bcrypt noPassword users s r =
    (if users \<noteq> [] then
       case h_BasicAuth r of
         None \<Rightarrow> Inl 401
       | Some (username, password) \<Rightarrow>
          (case GetUser username s of
             Inl _ \<Rightarrow> Inl 401
           | Inr u \<Rightarrow> if \<not> noPassword \<and> \<not> checkPassword bcrypt u password then Inl 401 else Inr (Some u))
     else Inr None)"

definition directory_listing :: "(bytes \<Rightarrow> bytes \<Rightarrow> stat) \<Rightarrow> bytes \<Rightarrow> bytes \<Rightarrow> http_request \<Rightarrow> http_request" where
  "directory_listing stat pre directory r =
    (if (h_Method r = str ''GET'' \<or> h_Method r = str ''HEAD'') \<and> prefix pre (h_Path r)
        \<and> stat directory (TrimPrefix (h_Path r) pre) = Directory
     then r\<lparr>h_Method := str ''PROPFIND'', h_Depth := (if h_Depth r = [] then str ''1'' else h_Depth r)\<rparr>
     else r)"

definition Handler_ServeHTTP ::
    "(bytes \<Rightarrow> bytes \<Rightarrow> bool) \<Rightarrow> (bytes \<Rightarrow> bytes \<Rightarrow> bool) \<Rightarrow> (bytes \<Rightarrow> bytes res) \<Rightarrow> (bytes \<Rightarrow> bytes \<Rightarrow> stat)
      \<Rightarrow> Config \<Rightarrow> memoryStore \<Rightarrow> http_request \<Rightarrow> response" where
  "Handler_ServeHTTP rx bcrypt url_path stat cfg s r =
    (if mg_Enabled (cf_Management cfg) \<and> prefix (mg_Prefix (cf_Management cfg)) (h_Path r) then ToManagement
     else
       case (case GetGlobal s of Inr g \<Rightarrow> Inr g | Inl e \<Rightarrow> if e \<noteq> ErrNotFound then Inl e else Inr (cf_Permissions cfg)) of
         Inl _ \<Rightarrow> Http_Error 500
       | Inr global \<Rightarrow>
     (case ListUsers s of
         Inl _ \<Rightarrow> Http_Error 500
       | Inr users \<Rightarrow>
     (case authenticate bcrypt (cf_NoPassword cfg) users s r of
         Inl code \<Rightarrow> Http_Error code
       | Inr user \<Rightarrow>
     (let userPerms = (case user of None \<Rightarrow> global | Some u \<Rightarrow> us_Permissions u);
          directory = up_Directory userPerms
      in case newRequest url_path r (cf_Prefix cfg) of
           Inl _ \<Rightarrow> Http_Error 400
         | Inr req \<Rightarrow>
            if \<not> UserPermissions_Allowed rx userPerms req (\<lambda>f. stat directory f \<noteq> NotExist) then Http_Error 403
            else Serve directory (directory_listing stat (cf_Prefix cfg) directory r)))))"

section \<open>The management interface\<close>

record userPublic =
  pu_Username :: bytes
  pu_Permissions :: UserPermissions
  pu_PasswordSet :: bool

datatype mg_response =
    Mg_Status nat
  | Mg_OpenAPI
  | Mg_Docs
  | Mg_Health
  | Mg_Global UserPermissions
  | Mg_Users "userPublic list"
  | Mg_User userPublic

definition user_public :: "User \<Rightarrow> userPublic" where
  "user_public u = \<lparr>pu_Username = us_Username u, pu_Permissions = us_Permissions u, pu_PasswordSet = (us_Password u \<noteq> [])\<rparr>"

text \<open>An entry of the list may be nil.\<close>

definition normalizeRules :: "Rule option list \<Rightarrow> Rule option list" where
  "normalizeRules rules =
    (if rules = [] then rules
     else filter (\<lambda>r. case r of None \<Rightarrow> False | Some u \<Rightarrow> \<not> (rl_Path u = [] \<and> rl_Regex u = None)) rules)"

definition rules_of :: "Rule option list \<Rightarrow> Rule list" where
  "rules_of rules = map the (normalizeRules rules)"

definition userUpsert_apply :: "userUpsert \<Rightarrow> bytes \<Rightarrow> User option \<Rightarrow> UserPermissions \<Rightarrow> bool \<Rightarrow> User res" where
  "userUpsert_apply u username base global noPassword =
    (let out = (case base of Some b \<Rightarrow> b | None \<Rightarrow> \<lparr>us_Permissions = global, us_Username = [], us_Password = []\<rparr>);
         p = us_Permissions out;
         p = (case uu_Directory u of None \<Rightarrow> p | Some d \<Rightarrow> p\<lparr>up_Directory := d\<rparr>);
         p = (case uu_Permissions u of None \<Rightarrow> p | Some q \<Rightarrow> p\<lparr>up_Permissions := q\<rparr>);
         p = (case uu_RulesBehavior u of None \<Rightarrow> p | Some b \<Rightarrow> p\<lparr>up_RulesBehavior := b\<rparr>);
         p = (case uu_Rules u of None \<Rightarrow> p | Some rs \<Rightarrow> p\<lparr>up_Rules := rules_of rs\<rparr>);
         pw = (case uu_Password u of None \<Rightarrow> us_Password out | Some w \<Rightarrow> w);
         p = (if up_RulesBehavior p = [] then p\<lparr>up_RulesBehavior := RulesOverwrite\<rparr> else p)
     in if base = None \<and> \<not> noPassword \<and> TrimSpace pw = [] then Inl (ErrText ''password is required'')
        else Inr \<lparr>us_Permissions = p, us_Username = username, us_Password = pw\<rparr>)"

definition globalUpsert_apply :: "globalUpsert \<Rightarrow> UserPermissions \<Rightarrow> UserPermissions res" where
  "globalUpsert_apply g base =
    (let p = base;
         p = (case gu_Directory g of None \<Rightarrow> p | Some d \<Rightarrow> p\<lparr>up_Directory := d\<rparr>);
         p = (case gu_Permissions g of None \<Rightarrow> p | Some q \<Rightarrow> p\<lparr>up_Permissions := q\<rparr>);
         p = (case gu_RulesBehavior g of None \<Rightarrow> p | Some b \<Rightarrow> p\<lparr>up_RulesBehavior := b\<rparr>);
         p = (case gu_Rules g of None \<Rightarrow> p | Some rs \<Rightarrow> p\<lparr>up_Rules := rules_of rs\<rparr>)
     in Inr (if up_RulesBehavior p = [] then p\<lparr>up_RulesBehavior := RulesOverwrite\<rparr> else p))"

definition authorized :: "Config \<Rightarrow> http_request \<Rightarrow> bool" where
  "authorized cfg r =
    (if \<not> prefix (str ''Bearer '') (h_Authorization r) then False
     else
       let token = TrimSpace (TrimPrefix (h_Authorization r) (str ''Bearer ''))
       in if token = [] then False else token = mg_Token (cf_Management cfg))"

text \<open>The global permissions as the handlers read them; an error other than that they are not set is answered with status 500.\<close>

definition global_or_config :: "Config \<Rightarrow> memoryStore \<Rightarrow> UserPermissions option" where
  "global_or_config cfg s =
    (case GetGlobal s of Inr g \<Rightarrow> Some g | Inl e \<Rightarrow> if e \<noteq> ErrNotFound then None else Some (cf_Permissions cfg))"

definition handleGlobal :: "(bytes \<Rightarrow> bytes res) \<Rightarrow> Config \<Rightarrow> http_request \<Rightarrow> memoryStore \<Rightarrow> mg_response \<times> memoryStore" where
  "handleGlobal Abs cfg r s =
    (if h_Method r = str ''GET'' then
       (case global_or_config cfg s of None \<Rightarrow> (Mg_Status 500, s) | Some p \<Rightarrow> (Mg_Global p, s))
     else if h_Method r = str ''PUT'' \<or> h_Method r = str ''PATCH'' then
       (case global_or_config cfg s of
          None \<Rightarrow> (Mg_Status 500, s)
        | Some base \<Rightarrow>
       (case h_global r of
          Inl _ \<Rightarrow> (Mg_Status 400, s)
        | Inr req \<Rightarrow>
       (case rbind (globalUpsert_apply req base) (UserPermissions_Validate Abs) of
          Inl _ \<Rightarrow> (Mg_Status 400, s)
        | Inr p \<Rightarrow>
       (case SetGlobal p s of
          Inl _ \<Rightarrow> (Mg_Status 500, s)
        | Inr s \<Rightarrow> (Mg_Global p, s)))))
     else (Mg_Status 405, s))"

definition handleUserUpsert ::
    "(bytes \<Rightarrow> bytes res) \<Rightarrow> (bytes \<Rightarrow> bytes) \<Rightarrow> Config \<Rightarrow> bytes \<Rightarrow> userUpsert \<Rightarrow> memoryStore \<Rightarrow> mg_response \<times> memoryStore" where
  "handleUserUpsert Abs env cfg username req s =
    (case global_or_config cfg s of
       None \<Rightarrow> (Mg_Status 500, s)
     | Some global \<Rightarrow>
    (let global = (if up_RulesBehavior global = [] then global\<lparr>up_RulesBehavior := RulesOverwrite\<rparr> else global)
     in case (case GetUser username s of Inr u \<Rightarrow> Inr (Some u) | Inl e \<Rightarrow> if e \<noteq> ErrNotFound then Inl e else Inr None) of
          Inl _ \<Rightarrow> (Mg_Status 500, s)
        | Inr base \<Rightarrow>
    (case rbind (userUpsert_apply req username base global (cf_NoPassword cfg)) (User_Validate Abs env (cf_NoPassword cfg)) of
       Inl _ \<Rightarrow> (Mg_Status 400, s)
     | Inr u \<Rightarrow>
    (case SetUser u s of
       Inl _ \<Rightarrow> (Mg_Status 500, s)
     | Inr s \<Rightarrow> (Mg_User (user_public u), s)))))"

definition handleUsers :: "(bytes \<Rightarrow> bytes res) \<Rightarrow> (bytes \<Rightarrow> bytes) \<Rightarrow> Config \<Rightarrow> http_request \<Rightarrow> memoryStore \<Rightarrow> mg_response \<times> memoryStore" where
  "handleUsers Abs env cfg r s =
    (if h_Method r = str ''GET'' then
       (case ListUsers s of Inl _ \<Rightarrow> (Mg_Status 500, s) | Inr users \<Rightarrow> (Mg_Users (map user_public users), s))
     else if h_Method r = str ''POST'' then
       (case h_user r of
          Inl _ \<Rightarrow> (Mg_Status 400, s)
        | Inr req \<Rightarrow>
           if TrimSpace (uu_Username req) = [] then (Mg_Status 400, s)
           else handleUserUpsert Abs env cfg (uu_Username req) req s)
     else (Mg_Status 405, s))"

definition handleUser :: "(bytes \<Rightarrow> bytes res) \<Rightarrow> (bytes \<Rightarrow> bytes) \<Rightarrow> Config \<Rightarrow> http_request \<Rightarrow> bytes \<Rightarrow> memoryStore \<Rightarrow> mg_response \<times> memoryStore" where
  "handleUser Abs env cfg r username s =
    (if username = [] then (Mg_Status 404, s)
     else if h_Method r = str ''GET'' then
       (case GetUser username s of
          Inl e \<Rightarrow> (Mg_Status (if e = ErrNotFound then 404 else 500), s)
        | Inr u \<Rightarrow> (Mg_User (user_public u), s))
     else if h_Method r = str ''PUT'' \<or> h_Method r = str ''PATCH'' then
       (case h_user r of Inl _ \<Rightarrow> (Mg_Status 400, s) | Inr req \<Rightarrow> handleUserUpsert Abs env cfg username req s)
     else if h_Method r = str ''DELETE'' then
       (case DeleteUser username s of
          Inl e \<Rightarrow> (Mg_Status (if e = ErrNotFound then 404 else 500), s)
        | Inr s \<Rightarrow> (Mg_Status 204, s))
     else (Mg_Status 405, s))"

definition Management_ServeHTTP ::
    "(bytes \<Rightarrow> bytes res) \<Rightarrow> (bytes \<Rightarrow> bytes) \<Rightarrow> Config \<Rightarrow> http_request \<Rightarrow> memoryStore \<Rightarrow> mg_response \<times> memoryStore" where
  "Management_ServeHTTP Abs env cfg r s =
    (let path = TrimPrefix (h_Path r) (mg_Prefix (cf_Management cfg));
         path = (if path = [] then str ''/'' else path);
         get = (h_Method r = str ''GET'')
     in if path = mg_OpenAPIPath (cf_Management cfg) \<and> get then (Mg_OpenAPI, s)
        else if path = mg_DocsPath (cf_Management cfg) \<and> get then (Mg_Docs, s)
        else if path = str ''/health'' \<and> get then (Mg_Health, s)
        else if \<not> authorized cfg r then (Mg_Status 401, s)
        else if path = str ''/global'' then handleGlobal Abs cfg r s
        else if path = str ''/users'' then handleUsers Abs env cfg r s
        else if prefix (str ''/users/'') path then handleUser Abs env cfg r (TrimPrefix path (str ''/users/'')) s
        else (Mg_Status 404, s))"

section \<open>The contract of the store\<close>

text \<open>What the handlers need of a store of users: the users are a map, and listing them finds one exactly if there is one.\<close>

locale user_store =
  fixes content :: "'s \<Rightarrow> bytes \<rightharpoonup> User"
    and get :: "bytes \<Rightarrow> 's \<Rightarrow> User res"
    and put :: "User \<Rightarrow> 's \<Rightarrow> 's res"
    and del :: "bytes \<Rightarrow> 's \<Rightarrow> 's res"
    and users :: "'s \<Rightarrow> User list res"
  assumes get: "get n s = Inr u \<longleftrightarrow> content s n = Some u"
    and put: "put u s = Inr s' \<Longrightarrow> content s' = (content s)(us_Username u \<mapsto> u)"
    and del: "del n s = Inr s' \<Longrightarrow> content s' = (content s)(n := None)"
    and users: "users s = Inr us \<Longrightarrow> us = [] \<longleftrightarrow> content s = Map.empty"
begin

definition all_users :: "(User \<Rightarrow> bool) \<Rightarrow> 's \<Rightarrow> bool" where
  "all_users P s \<longleftrightarrow> (\<forall>n u. content s n = Some u \<longrightarrow> us_Username u = n \<and> P u)"

lemma all_users_get: "all_users P s \<Longrightarrow> get n s = Inr u \<Longrightarrow> us_Username u = n \<and> P u"
  by (simp add: all_users_def get)

lemma all_users_put: "all_users P s \<Longrightarrow> P u \<Longrightarrow> put u s = Inr s' \<Longrightarrow> all_users P s'"
  by (simp add: all_users_def put)

lemma all_users_del: "all_users P s \<Longrightarrow> del n s = Inr s' \<Longrightarrow> all_users P s'"
  by (simp add: all_users_def del)

end

interpretation mem: user_store "\<lambda>s. map_of (ms_users s)" GetUser SetUser DeleteUser ListUsers
proof unfold_locales
  fix n u u' and s s' :: memoryStore and us
  show "GetUser n s = Inr u \<longleftrightarrow> map_of (ms_users s) n = Some u"
    unfolding GetUser_def by (cases "map_of (ms_users s) n") simp_all
  show "SetUser u s = Inr s' \<Longrightarrow> map_of (ms_users s') = (map_of (ms_users s))(us_Username u \<mapsto> u)"
    by (auto simp: SetUser_def)
  show "DeleteUser n s = Inr s' \<Longrightarrow> map_of (ms_users s') = (map_of (ms_users s))(n := None)"
    unfolding DeleteUser_def by (cases "map_of (ms_users s) n") auto
  show "ListUsers s = Inr us \<Longrightarrow> us = [] \<longleftrightarrow> map_of (ms_users s) = Map.empty"
  proof -
    have "sort_key us_Username xs = [] \<longleftrightarrow> xs = []" for xs by (metis length_0_conv length_sort)
    then show "ListUsers s = Inr us \<Longrightarrow> us = [] \<longleftrightarrow> map_of (ms_users s) = Map.empty"
      by (auto simp: ListUsers_def sortUsers_def)
  qed
qed

section \<open>Which rule decides\<close>

text \<open>The permissions that apply at a path: those of the last rule that matches it, or the general ones if none does.\<close>

definition deciding :: "(bytes \<Rightarrow> bytes \<Rightarrow> bool) \<Rightarrow> UserPermissions \<Rightarrow> bytes \<Rightarrow> Permissions \<Rightarrow> bool" where
  "deciding rx p path q \<longleftrightarrow>
    (\<exists>a r b. up_Rules p = a @ r # b \<and> Rule_Matches rx r path \<and> (\<forall>x\<in>set b. \<not> Rule_Matches rx x path) \<and> q = rl_Permissions r) \<or>
    (\<forall>x\<in>set (up_Rules p). \<not> Rule_Matches rx x path) \<and> q = up_Permissions p"

lemma find_deciding:
  "deciding rx p path (case List.find (\<lambda>r. Rule_Matches rx r path) (rev (up_Rules p)) of None \<Rightarrow> up_Permissions p | Some r \<Rightarrow> rl_Permissions r)"
proof (cases "List.find (\<lambda>r. Rule_Matches rx r path) (rev (up_Rules p))")
  case None
  then have "\<forall>x\<in>set (up_Rules p). \<not> Rule_Matches rx x path" by (auto simp: find_None_iff)
  then show ?thesis unfolding None by (simp add: deciding_def)
next
  case (Some r)
  then obtain i where i: "i < length (up_Rules p)" "Rule_Matches rx r path" "r = rev (up_Rules p) ! i"
      "\<forall>j<i. \<not> Rule_Matches rx (rev (up_Rules p) ! j) path"
    unfolding find_Some_iff by auto
  have "rev (up_Rules p) = take i (rev (up_Rules p)) @ r # drop (Suc i) (rev (up_Rules p))"
    using i(1,3) by (simp add: id_take_nth_drop)
  then have split: "up_Rules p = rev (drop (Suc i) (rev (up_Rules p))) @ r # rev (take i (rev (up_Rules p)))"
    by (metis append.assoc append_Cons append_Nil rev.simps(2) rev_append rev_rev_ident)
  have "\<forall>x\<in>set (take i (rev (up_Rules p))). \<not> Rule_Matches rx x path"
    using i(4) by (auto simp: in_set_conv_nth)
  then show ?thesis
    unfolding deciding_def using split i(2) Some by (metis option.simps(5) set_rev)
qed

lemma source_loop_find:
  "source_loop rx r fe rs = map_option (\<lambda>u. Permissions_Allowed (rl_Permissions u) r fe) (List.find (\<lambda>u. Rule_Matches rx u (rq_path r)) rs)"
  by (induction rs) simp_all

lemma destination_loop_find:
  "destination_loop rx r fe rs = map_option (\<lambda>u. AllowedDestination (rl_Permissions u) r fe) (List.find (\<lambda>u. Rule_Matches rx u (rq_destination r)) rs)"
  by (induction rs) simp_all

text \<open>
  C30. A request is allowed exactly if the permissions that apply at its path allow its method and, for a copy or a move, the permissions
  that apply at its destination allow writing there: creating if the destination does not exist, changing if it does.  At both paths
  the last rule that matches applies, and the user's general permissions where no rule matches.
\<close>

theorem Allowed_last_rule:
  "\<exists>src dst. deciding rx p (rq_path r) src \<and> deciding rx p (rq_destination r) dst \<and>
    (UserPermissions_Allowed rx p r fileExists \<longleftrightarrow>
      Permissions_Allowed src r fileExists \<and>
      (rq_method r \<notin> {str ''COPY'', str ''MOVE''} \<or> (if fileExists (rq_destination r) then pm_Update dst else pm_Create dst)))"
proof -
  let ?q = "\<lambda>path. case List.find (\<lambda>r. Rule_Matches rx r path) (rev (up_Rules p)) of None \<Rightarrow> up_Permissions p | Some r \<Rightarrow> rl_Permissions r"
  have src: "(case source_loop rx r fileExists (rev (up_Rules p)) of Some b \<Rightarrow> b | None \<Rightarrow> Permissions_Allowed (up_Permissions p) r fileExists)
      = Permissions_Allowed (?q (rq_path r)) r fileExists"
    unfolding source_loop_find by (simp split: option.split)
  have dst: "(case destination_loop rx r fileExists (rev (up_Rules p)) of Some b \<Rightarrow> b | None \<Rightarrow> AllowedDestination (up_Permissions p) r fileExists)
      = AllowedDestination (?q (rq_destination r)) r fileExists"
    unfolding destination_loop_find by (simp split: option.split)
  have "UserPermissions_Allowed rx p r fileExists \<longleftrightarrow> Permissions_Allowed (?q (rq_path r)) r fileExists \<and>
      (rq_method r \<notin> {str ''COPY'', str ''MOVE''} \<or>
       (if fileExists (rq_destination r) then pm_Update (?q (rq_destination r)) else pm_Create (?q (rq_destination r))))"
    unfolding UserPermissions_Allowed_def src dst by (auto simp: AllowedDestination_def)
  then show ?thesis using find_deciding by blast
qed

text \<open>A move into a directory whose rule only permits reading is refused, although the user may do everything elsewhere.\<close>

theorem Allowed_last_rule_witness:
  "\<not> UserPermissions_Allowed (\<lambda>_ _. False)
    \<lparr>up_Directory = str ''/'', up_Permissions = \<lparr>pm_Create = True, pm_Read = True, pm_Update = True, pm_Delete = True\<rparr>,
     up_Rules = [\<lparr>rl_Permissions = \<lparr>pm_Create = False, pm_Read = True, pm_Update = False, pm_Delete = False\<rparr>, rl_Path = str ''/r'', rl_Regex = None\<rparr>],
     up_RulesBehavior = RulesAppend\<rparr>
    \<lparr>rq_method = str ''MOVE'', rq_path = str ''/f'', rq_destination = str ''/r/f''\<rparr> (\<lambda>_. False)"
    (is "\<not> UserPermissions_Allowed ?rx ?p ?r ?ex")
proof -
  have m: "Rule_Matches ?rx (hd (up_Rules ?p)) (str ''/r/f'')" by code_simp
  have "\<not> pm_Create dst" if "deciding ?rx ?p (str ''/r/f'') dst" for dst
    using that m by (auto simp: deciding_def Cons_eq_append_conv)
  then show ?thesis using Allowed_last_rule [of ?rx ?p ?r ?ex] by auto
qed

section \<open>Authentication\<close>

text \<open>
  C29. Whoever reaches the files is authenticated and permitted.  If a request is handed to the WebDAV handler then either the store has
  no users and the global permissions apply, or the request carries the name of a stored user with that user's password (unless
  password checks are switched off) and the permissions and the directory are that user's; and these permissions allow the request.
\<close>

theorem serve_authenticated:
  assumes "Handler_ServeHTTP rx bcrypt url_path stat cfg s r = Serve directory r'"
  shows "\<exists>p req. newRequest url_path r (cf_Prefix cfg) = Inr req \<and> directory = up_Directory p \<and>
    UserPermissions_Allowed rx p req (\<lambda>f. stat directory f \<noteq> NotExist) \<and> h_Path r' = h_Path r \<and>
    (h_Method r' = h_Method r \<or> h_Method r \<in> {str ''GET'', str ''HEAD''} \<and> h_Method r' = str ''PROPFIND'') \<and>
    (if ms_users s = [] then p = ms_global s
     else \<exists>username password u. h_BasicAuth r = Some (username, password) \<and> GetUser username s = Inr u \<and> p = us_Permissions u \<and>
       (cf_NoPassword cfg \<or> checkPassword bcrypt u password))"
proof -
  obtain users where users: "ListUsers s = Inr users" "users = [] \<longleftrightarrow> ms_users s = []"
    using mem.users [of s] by (auto simp: ListUsers_def)
  obtain user req where u: "authenticate bcrypt (cf_NoPassword cfg) users s r = Inr user" and req: "newRequest url_path r (cf_Prefix cfg) = Inr req"
    and allowed: "UserPermissions_Allowed rx (case user of None \<Rightarrow> ms_global s | Some u \<Rightarrow> us_Permissions u) req (\<lambda>f. stat directory f \<noteq> NotExist)"
    and res: "directory = up_Directory (case user of None \<Rightarrow> ms_global s | Some u \<Rightarrow> us_Permissions u)"
      "r' = directory_listing stat (cf_Prefix cfg) directory r"
    using assms users(1) by (auto simp: Handler_ServeHTTP_def GetGlobal_def Let_def split: if_splits sum.splits)
  have r': "h_Path r' = h_Path r" "h_Method r' = h_Method r \<or> h_Method r \<in> {str ''GET'', str ''HEAD''} \<and> h_Method r' = str ''PROPFIND''"
    unfolding res(2) by (auto simp: directory_listing_def)
  have "if ms_users s = [] then user = None
     else \<exists>username password u. h_BasicAuth r = Some (username, password) \<and> GetUser username s = Inr u \<and> user = Some u \<and>
       (cf_NoPassword cfg \<or> checkPassword bcrypt u password)"
    using u users(2) by (auto simp: authenticate_def split: option.splits sum.splits if_splits)
  then show ?thesis using req allowed res(1) r' by (auto split: if_splits)
qed

definition sample_perms :: UserPermissions where
  "sample_perms = \<lparr>up_Directory = str ''/data'', up_Permissions = \<lparr>pm_Create = False, pm_Read = True, pm_Update = False, pm_Delete = False\<rparr>,
     up_Rules = [], up_RulesBehavior = RulesOverwrite\<rparr>"

definition sample_config :: Config where
  "sample_config = \<lparr>cf_Permissions = sample_perms, cf_TLS = False, cf_Cert = [], cf_Key = [], cf_Prefix = str ''/'', cf_NoPassword = False,
     cf_Users = [\<lparr>us_Permissions = sample_perms, us_Username = str ''a'', us_Password = str ''x''\<rparr>], cf_RedisEnabled = False,
     cf_RedisAddr = [], cf_RedisKeyPrefix = [],
     cf_Management = \<lparr>mg_Enabled = True, mg_Prefix = str ''/api'', mg_Token = str ''t'', mg_OpenAPIPath = str ''/o'', mg_DocsPath = str ''/d''\<rparr>\<rparr>"

definition sample_request :: "string \<Rightarrow> string \<Rightarrow> http_request" where
  "sample_request m p = \<lparr>h_Method = str m, h_Path = str p, h_Destination = [], h_Depth = [], h_BasicAuth = Some (str ''a'', str ''x''),
     h_Authorization = str ''Bearer t'', h_global = Inl Panic, h_user = Inl Panic\<rparr>"

theorem serve_authenticated_witness:
  "\<exists>u. GetUser (str ''a'') (NewStoreFromConfig sample_config) = Inr u \<and> checkPassword (\<lambda>_ _. False) u (str ''x'') \<and> us_Permissions u = sample_perms"
proof -
  let ?serve = "Handler_ServeHTTP (\<lambda>_ _. False) (\<lambda>_ _. False) Inr (\<lambda>_ _. File) sample_config (NewStoreFromConfig sample_config) (sample_request ''GET'' ''/f'')"
  have "?serve = Serve (str ''/data'') (sample_request ''GET'' ''/f'')" by code_simp
  from serve_authenticated [OF this] obtain p username password u where
      "h_BasicAuth (sample_request ''GET'' ''/f'') = Some (username, password)" "GetUser username (NewStoreFromConfig sample_config) = Inr u"
      "checkPassword (\<lambda>_ _. False) u password"
    by (auto simp: NewStoreFromConfig_def sample_config_def split: if_splits)
  moreover have "h_BasicAuth (sample_request ''GET'' ''/f'') = Some (str ''a'', str ''x'')" by (simp add: sample_request_def)
  moreover have "GetUser (str ''a'') (NewStoreFromConfig sample_config) = Inr v \<Longrightarrow> us_Permissions v = sample_perms" for v
    by (auto simp: GetUser_def NewStoreFromConfig_def sample_config_def)
  ultimately show ?thesis by auto
qed

section \<open>Management keeps the store valid\<close>

definition valid_permissions :: "UserPermissions \<Rightarrow> bool" where
  "valid_permissions p \<longleftrightarrow>
    (\<forall>r\<in>set (up_Rules p). (rl_Regex r = None) \<noteq> (rl_Path r = [])) \<and> up_RulesBehavior p \<in> {RulesAppend, RulesOverwrite}"

definition valid_user :: "bool \<Rightarrow> User \<Rightarrow> bool" where
  "valid_user noPassword u \<longleftrightarrow>
    us_Username u \<noteq> [] \<and> (us_Password u \<noteq> [] \<or> noPassword) \<and> valid_permissions (us_Permissions u)"

lemma Rules_Validate_ok: "Rules_Validate rs = Inr () \<longleftrightarrow> (\<forall>r\<in>set rs. (rl_Regex r = None) \<noteq> (rl_Path r = []))"
  by (induction rs) (auto simp: Rule_Validate_def)

lemma UserPermissions_Validate_ok: "UserPermissions_Validate Abs p = Inr q \<Longrightarrow> valid_permissions q"
  using Rules_Validate_ok [of "up_Rules p"]
  by (auto simp: UserPermissions_Validate_def rbind_eq_Inr_conv valid_permissions_def split: if_splits)

lemma from_env_neq_Nil: "from_env env s = Inr v \<Longrightarrow> s \<noteq> [] \<Longrightarrow> v \<noteq> []"
  by (auto simp: from_env_def Let_def split: if_splits)

lemma User_Validate_ok: "User_Validate Abs env noPassword u = Inr v \<Longrightarrow> valid_user noPassword v"
  using UserPermissions_Validate_ok [of Abs "us_Permissions u"]
  by (auto simp: User_Validate_def rbind_eq_Inr_conv valid_user_def split: if_splits dest: from_env_neq_Nil)

definition store_valid :: "bool \<Rightarrow> memoryStore \<Rightarrow> bool" where
  "store_valid noPassword s \<longleftrightarrow> valid_permissions (ms_global s) \<and> mem.all_users (valid_user noPassword) s"

lemma handleUserUpsert_valid:
  assumes "store_valid (cf_NoPassword cfg) s"
  shows "store_valid (cf_NoPassword cfg) (snd (handleUserUpsert Abs env cfg username req s))"
proof -
  have "store_valid (cf_NoPassword cfg) s'" if "User_Validate Abs env (cf_NoPassword cfg) v = Inr u" "SetUser u s = Inr s'" for u v s'
    using assms that User_Validate_ok [OF that(1)] mem.all_users_put [OF _ _ that(2)]
    by (auto simp: store_valid_def SetUser_def)
  then show ?thesis
    using assms by (auto simp: handleUserUpsert_def Let_def rbind_eq_Inr_conv split: option.splits sum.splits)
qed

lemma handleGlobal_valid:
  assumes "store_valid np s"
  shows "store_valid np (snd (handleGlobal Abs cfg r s))"
proof -
  have "store_valid np s'" if "UserPermissions_Validate Abs q = Inr p" "SetGlobal p s = Inr s'" for p q s'
    using assms that UserPermissions_Validate_ok [OF that(1)] by (auto simp: store_valid_def SetGlobal_def mem.all_users_def)
  then show ?thesis
    using assms by (auto simp: handleGlobal_def rbind_eq_Inr_conv split: option.splits sum.splits)
qed

lemma DeleteUser_valid: "store_valid np s \<Longrightarrow> DeleteUser n s = Inr s' \<Longrightarrow> store_valid np s'"
  using mem.all_users_del [of _ s n s']
  by (auto simp: store_valid_def DeleteUser_def split: option.splits)

lemma Management_valid:
  assumes "store_valid (cf_NoPassword cfg) s"
  shows "store_valid (cf_NoPassword cfg) (snd (Management_ServeHTTP Abs env cfg r s))"
proof -
  have "store_valid (cf_NoPassword cfg) (snd (handleUsers Abs env cfg r s))"
    using assms handleUserUpsert_valid [OF assms] by (auto simp: handleUsers_def split: sum.splits)
  moreover have "store_valid (cf_NoPassword cfg) (snd (handleUser Abs env cfg r n s))" for n
    using assms handleUserUpsert_valid [OF assms] DeleteUser_valid by (auto simp: handleUser_def split: sum.splits)
  ultimately show ?thesis
    using assms handleGlobal_valid [OF assms] by (simp add: Management_ServeHTTP_def Let_def)
qed

fun mg_run :: "(bytes \<Rightarrow> bytes res) \<Rightarrow> (bytes \<Rightarrow> bytes) \<Rightarrow> Config \<Rightarrow> http_request list \<Rightarrow> memoryStore \<Rightarrow> memoryStore" where
  "mg_run Abs env cfg [] s = s"
| "mg_run Abs env cfg (r # rs) s = mg_run Abs env cfg rs (snd (Management_ServeHTTP Abs env cfg r s))"

lemma mg_run_valid: "store_valid (cf_NoPassword cfg) s \<Longrightarrow> store_valid (cf_NoPassword cfg) (mg_run Abs env cfg rs s)"
  by (induction rs arbitrary: s) (simp_all add: Management_valid)

lemma Users_Validate_ok: "Users_Validate Abs env np us = Inr vs \<Longrightarrow> \<forall>v\<in>set vs. valid_user np v"
  by (induction us arbitrary: vs) (auto simp: rbind_eq_Inr_conv dest: User_Validate_ok)

lemma Config_Validate_ok:
  assumes "Config_Validate Abs env c = Inr cfg"
  shows "valid_permissions (cf_Permissions cfg)" "\<forall>u\<in>set (cf_Users cfg). valid_user (cf_NoPassword cfg) u"
proof -
  obtain p us q where "UserPermissions_Validate Abs q = Inr p" "Users_Validate Abs env (cf_NoPassword c) (cf_Users c) = Inr us"
      "cf_Permissions cfg = p" "cf_Users cfg = us" "cf_NoPassword cfg = cf_NoPassword c"
    using assms by (auto simp: Config_Validate_def rbind_eq_Inr_conv)
  then show "valid_permissions (cf_Permissions cfg)" "\<forall>u\<in>set (cf_Users cfg). valid_user (cf_NoPassword cfg) u"
    using UserPermissions_Validate_ok Users_Validate_ok by auto
qed

lemma NewStore_valid:
  assumes "valid_permissions (cf_Permissions cfg)" "\<forall>u\<in>set (cf_Users cfg). valid_user np u"
  shows "store_valid np (NewStoreFromConfig cfg)"
proof -
  define P where "P m \<longleftrightarrow> (\<forall>n u. m n = Some u \<longrightarrow> us_Username u = n \<and> valid_user np u)" for m
  have "P (map_of (fold (\<lambda>u m. al_put (us_Username u) u m) us m))" if "P (map_of m)" "\<forall>u\<in>set us. valid_user np u" for us m
    using that
  proof (induction us arbitrary: m)
    case (Cons u us)
    have "P (map_of (al_put (us_Username u) u m))"
      using Cons.prems unfolding P_def map_of_al_put by simp
    from Cons.IH [OF this] Cons.prems(2) show ?case by simp
  qed simp
  from this [of "[]" "cf_Users cfg"] have "P (map_of (ms_users (NewStoreFromConfig cfg)))"
    using assms(2) by (simp add: NewStoreFromConfig_def P_def [of Map.empty])
  then have "mem.all_users (valid_user np) (NewStoreFromConfig cfg)" unfolding mem.all_users_def P_def .
  moreover have "ms_global (NewStoreFromConfig cfg) = cf_Permissions cfg" by (simp add: NewStoreFromConfig_def)
  ultimately show ?thesis using assms(1) by (simp add: store_valid_def)
qed

text \<open>
  C31. The store stays well formed.  Starting from a configuration that passed validation, whatever requests the management interface
  handles, also malformed and unauthorised ones: every stored user stands under its own, non-empty name and has a password, unless
  passwords are switched off; and in the permissions of every user and in the global ones every rule has a path or a pattern but not
  both and the behaviour is one of the two known ones.
\<close>

theorem management_store_valid:
  assumes "Config_Validate Abs env c = Inr cfg"
  shows "let s = mg_run Abs env cfg rs (NewStoreFromConfig cfg) in
    valid_permissions (ms_global s) \<and>
    (\<forall>n u. GetUser n s = Inr u \<longrightarrow> us_Username u = n \<and> valid_user (cf_NoPassword cfg) u)"
proof -
  have "store_valid (cf_NoPassword cfg) (mg_run Abs env cfg rs (NewStoreFromConfig cfg))"
    using mg_run_valid NewStore_valid Config_Validate_ok [OF assms] by blast
  then show ?thesis unfolding store_valid_def Let_def using mem.all_users_get by blast
qed

theorem management_store_valid_witness:
  "let s = mg_run Inr (\<lambda>_. []) sample_config [sample_request ''DELETE'' ''/api/users/b''] (NewStoreFromConfig sample_config) in
   valid_permissions (ms_global s)"
proof -
  have "Config_Validate Inr (\<lambda>_. []) sample_config = Inr sample_config" by code_simp
  from management_store_valid [OF this] show ?thesis unfolding Let_def by blast
qed

text \<open>
  Only the token opens the management interface: a request without the configured token leaves the store as it is and is answered
  with the published description, the documentation, the health check or status 401.
\<close>

lemma management_token:
  assumes "\<not> authorized cfg r"
  shows "snd (Management_ServeHTTP Abs env cfg r s) = s \<and>
    fst (Management_ServeHTTP Abs env cfg r s) \<in> {Mg_OpenAPI, Mg_Docs, Mg_Health, Mg_Status 401}"
  using assms by (simp add: Management_ServeHTTP_def Let_def)

lemma management_token_witness:
  "snd (Management_ServeHTTP Inr (\<lambda>_. []) sample_config ((sample_request ''DELETE'' ''/api/users/a'')\<lparr>h_Authorization := str ''Bearer u''\<rparr>)
     (NewStoreFromConfig sample_config)) = NewStoreFromConfig sample_config"
proof -
  have "\<not> authorized sample_config ((sample_request ''DELETE'' ''/api/users/a'')\<lparr>h_Authorization := str ''Bearer u''\<rparr>)" by code_simp
  from management_token [OF this] show ?thesis by blast
qed

section \<open>Texts of permissions\<close>

text \<open>The text of permissions is read back.  Reading only ever adds permissions to those that are there.\<close>

lemma UnmarshalText_MarshalText:
  "UnmarshalText (MarshalText p) \<lparr>pm_Create = False, pm_Read = False, pm_Update = False, pm_Delete = False\<rparr> = Inr p"
proof -
  have "UnmarshalText (MarshalText \<lparr>pm_Create = c, pm_Read = r, pm_Update = u, pm_Delete = d\<rparr>)
      \<lparr>pm_Create = False, pm_Read = False, pm_Update = False, pm_Delete = False\<rparr> = Inr \<lparr>pm_Create = c, pm_Read = r, pm_Update = u, pm_Delete = d\<rparr>"
    for c r u d
    by (cases c; cases r; cases u; cases d; simp only:; code_simp)
  then show ?thesis by (cases p) simp
qed

lemma UnmarshalText_adds:
  assumes "UnmarshalText data p = Inr q"
  shows "(pm_Create p \<longrightarrow> pm_Create q) \<and> (pm_Read p \<longrightarrow> pm_Read q) \<and> (pm_Update p \<longrightarrow> pm_Update q) \<and> (pm_Delete p \<longrightarrow> pm_Delete q)"
proof -
  have "UnmarshalText_loop t p = Inr q \<Longrightarrow>
      (pm_Create p \<longrightarrow> pm_Create q) \<and> (pm_Read p \<longrightarrow> pm_Read q) \<and> (pm_Update p \<longrightarrow> pm_Update q) \<and> (pm_Delete p \<longrightarrow> pm_Delete q)" for t p
    by (induction t p rule: UnmarshalText_loop.induct) (auto split: if_splits)
  then show ?thesis using assms by (auto simp: UnmarshalText_def Let_def split: if_splits)
qed

section \<open>Where the rules are not applied\<close>

text \<open>
  Without a prefix the destination of a copy or a move is the whole header instead of the path of the URL in it: a full URL, which
  is what clients send, is no path that a rule names.  Here a rule forbids everything under \<^verbatim>\<open>/s\<close>, and a move into it is allowed.
\<close>

lemma destination_without_prefix:
  assumes "\<not> prefix (str ''/'') (h_Destination r)" "h_Destination r \<noteq> []" "newRequest url_path r [] = Inr req"
  shows "rq_destination req = str ''/'' @ h_Destination r"
  using assms by (auto simp: newRequest_def rbind_eq_Inr_conv Let_def)

definition all_permissions :: Permissions where
  "all_permissions = \<lparr>pm_Create = True, pm_Read = True, pm_Update = True, pm_Delete = True\<rparr>"

definition no_permissions :: Permissions where
  "no_permissions = \<lparr>pm_Create = False, pm_Read = False, pm_Update = False, pm_Delete = False\<rparr>"

definition guarded :: UserPermissions where
  "guarded = \<lparr>up_Directory = [], up_Permissions = all_permissions, up_Rules = [\<lparr>rl_Permissions = no_permissions, rl_Path = str ''/s'', rl_Regex = None\<rparr>],
     up_RulesBehavior = RulesOverwrite\<rparr>"

lemma destination_rule_bypassed:
  "case newRequest (\<lambda>_. Inr (str ''/s/f'')) ((sample_request ''MOVE'' ''/f'')\<lparr>h_Destination := str ''http://h/s/f''\<rparr>) [] of
     Inl _ \<Rightarrow> False | Inr req \<Rightarrow> UserPermissions_Allowed (\<lambda>_ _. False) guarded req (\<lambda>_. False)"
  "case newRequest (\<lambda>_. Inr (str ''/d/s/f'')) ((sample_request ''MOVE'' ''/d/f'')\<lparr>h_Destination := str ''http://h/d/s/f''\<rparr>) (str ''/d'') of
     Inl _ \<Rightarrow> False | Inr req \<Rightarrow> \<not> UserPermissions_Allowed (\<lambda>_ _. False) guarded req (\<lambda>_. False)"
  by code_simp+

text \<open>
  The rules see the path as the client wrote it, while the file system resolves dots: a path that enters the guarded directory with
  two dots is not matched by the rule for it.
\<close>

lemma dots_pass_rules:
  "UserPermissions_Allowed (\<lambda>_ _. False) guarded \<lparr>rq_method = str ''GET'', rq_path = str ''/p/../s/f'', rq_destination = []\<rparr> (\<lambda>_. True)"
  "\<not> UserPermissions_Allowed (\<lambda>_ _. False) guarded \<lparr>rq_method = str ''GET'', rq_path = str ''/s/f'', rq_destination = []\<rparr> (\<lambda>_. True)"
  by code_simp+

text \<open>
  A user that the management interface creates with the behaviour \<^verbatim>\<open>append\<close> gets its own rules only; one from the configuration gets
  the global rules before its own.
\<close>

lemma append_ignored_by_management:
  assumes "uu_Rules u = Some rs" "userUpsert_apply u n None g np = Inr v"
  shows "up_Rules (us_Permissions v) = rules_of rs"
  using assms by (auto simp: userUpsert_apply_def Let_def split: if_splits option.splits)

lemma append_in_config:
  assumes "up_RulesBehavior (us_Permissions u) = RulesAppend"
  shows "up_Rules (us_Permissions (cascade_user g hasDir hasPerm True True u)) = up_Rules g @ up_Rules (us_Permissions u)"
proof -
  have "RulesAppend \<noteq> RulesOverwrite" by code_simp
  then show ?thesis using assms by (simp add: cascade_user_def Let_def)
qed

text \<open>Deleting the last user switches authentication off.\<close>

lemma last_user_opens:
  assumes "ms_users s = [(n, u)]" "DeleteUser n s = Inr s'"
  shows "ListUsers s' = Inr [] \<and> authenticate bcrypt np [] s' r = Inr None"
  using assms by (auto simp: DeleteUser_def al_del_def ListUsers_def sortUsers_def authenticate_def)

end
