(* ===== verification/Accounts.thy ===== *)
theory Accounts
  imports Prelude
begin

text \<open>
  The ordered index of \<^verbatim>\<open>plugin/admin/utils.go\<close> and the accounts of the authentication plug-in (\<^verbatim>\<open>plugin/auth/auth.go\<close>, \<^verbatim>\<open>grpc_handler.go\<close>, \<^verbatim>\<open>hooks.go\<close>).  A \<^verbatim>\<open>*list.Element\<close> is a number, the list has
  the numbers with their values.  Hash functions are arguments; whether the password file can be written is an argument of the operation.
\<close>

section \<open>The index\<close>

record 'v Indexer =
  ix_index :: "bytes \<rightharpoonup> nat"
  ix_rows :: "(nat \<times> 'v) list"
  ix_next :: nat

definition NewIndexer :: "'v Indexer" where
  "NewIndexer = \<lparr>ix_index = Map.empty, ix_rows = [], ix_next = 0\<rparr>"

definition Indexer_Set :: "bytes \<Rightarrow> 'v \<Rightarrow> 'v Indexer \<Rightarrow> 'v Indexer" where
  "Indexer_Set i value ix =
    (case ix_index ix i of
       Some e \<Rightarrow> ix\<lparr>ix_rows := map (\<lambda>(e', v). if e' = e then (e', value) else (e', v)) (ix_rows ix)\<rparr>
     | None \<Rightarrow> ix\<lparr>ix_rows := ix_rows ix @ [(ix_next ix, value)], ix_index := (ix_index ix)(i \<mapsto> ix_next ix), ix_next := ix_next ix + 1\<rparr>)"

definition Indexer_Remove :: "bytes \<Rightarrow> 'v Indexer \<Rightarrow> 'v Indexer" where
  "Indexer_Remove i ix =
    (case ix_index ix i of
       Some e \<Rightarrow> ix\<lparr>ix_rows := filter (\<lambda>(e', v). e' \<noteq> e) (ix_rows ix), ix_index := (ix_index ix)(i := None)\<rparr>
     | None \<Rightarrow> ix)"

definition Indexer_GetByID :: "bytes \<Rightarrow> 'v Indexer \<Rightarrow> 'v option" where
  "Indexer_GetByID i ix = (case ix_index ix i of None \<Rightarrow> None | Some e \<Rightarrow> map_of (ix_rows ix) e)"

text \<open>\<^verbatim>\<open>Iterate\<close> calls its argument on elements; here they are returned, with their values, in the order of the calls.\<close>

fun Iterate_loop :: "uint64 \<Rightarrow> uint64 \<Rightarrow> uint64 \<Rightarrow> 'a list \<Rightarrow> 'a list" where
  "Iterate_loop offset n j [] = []"
| "Iterate_loop offset n j (v # vs) =
    (if offset \<le> j \<and> j < offset + n then [v] else []) @
    (if j = offset + n then [] else Iterate_loop offset n (j + 1) vs)"

definition Indexer_Iterate :: "uint64 \<Rightarrow> uint64 \<Rightarrow> 'v Indexer \<Rightarrow> (nat \<times> 'v) list" where
  "Indexer_Iterate offset n ix =
    (if int (length (ix_rows ix)) < sint offset then []
     else Iterate_loop offset n 0 (ix_rows ix))"

definition Indexer_Len :: "'v Indexer \<Rightarrow> nat" where
  "Indexer_Len ix = length (ix_rows ix)"

definition GetPage :: "uint32 \<Rightarrow> uint32 \<Rightarrow> uint64 \<times> uint64" where
  "GetPage reqPage reqPageSize = (if reqPage \<noteq> 0 then ucast reqPage else 1, if reqPageSize \<noteq> 0 then ucast reqPageSize else 20)"

definition GetOffsetN :: "uint64 \<Rightarrow> uint64 \<Rightarrow> uint64 \<times> uint64" where
  "GetOffsetN page pageSize = ((page - 1) * pageSize, pageSize)"

section \<open>Accounts\<close>

record Account =
  ac_Username :: bytes
  ac_Password :: bytes

text \<open>The hash functions; the results of MD5 and SHA-256 are in hexadecimal.\<close>

record hashes =
  hash_md5 :: "bytes \<Rightarrow> bytes"
  hash_sha256 :: "bytes \<Rightarrow> bytes"
  bcrypt_generate :: "bytes \<Rightarrow> bytes res"
  bcrypt_compare :: "bytes \<Rightarrow> bytes \<Rightarrow> bool"

definition Plain :: bytes where "Plain = str ''plain''"
definition MD5 :: bytes where "MD5 = str ''md5''"
definition SHA256 :: bytes where "SHA256 = str ''sha256''"
definition Bcrypt :: bytes where "Bcrypt = str ''bcrypt''"

text \<open>
  \<open>au_file\<close> is the content of the password file that \<^verbatim>\<open>Load\<close> reads: a relative name is taken relative to the directory of the configuration.
  \<^verbatim>\<open>saveFileHandler\<close> renames its new file to the name itself, relative to the directory the broker runs in, which may be another one: with an absolute name
  it replaces the file that \<^verbatim>\<open>Load\<close> reads, otherwise \<open>au_other\<close>.
\<close>

record Auth_plugin =
  au_Hash :: bytes
  au_IsAbs :: bool
  au_indexer :: "Account Indexer"
  au_file :: "Account list"
  au_other :: "Account list"

definition auth_New :: "bool \<Rightarrow> bytes \<Rightarrow> Account list \<Rightarrow> Auth_plugin" where
  "auth_New isabs hash file = \<lparr>au_Hash = hash, au_IsAbs = isabs, au_indexer = NewIndexer, au_file = file, au_other = []\<rparr>"

definition generatePassword :: "hashes \<Rightarrow> bytes \<Rightarrow> bytes \<Rightarrow> bytes res" where
  "generatePassword h hash password =
    (if hash = Plain then Inr password
     else if hash = MD5 then Inr (hash_md5 h password)
     else if hash = SHA256 then Inr (hash_sha256 h password)
     else if hash = Bcrypt then bcrypt_generate h password
     else Inl Panic)"

definition auth_validate :: "hashes \<Rightarrow> bytes \<Rightarrow> bytes \<Rightarrow> Auth_plugin \<Rightarrow> bool res" where
  "auth_validate h username password a =
    (case Indexer_GetByID username (au_indexer a) of
       None \<Rightarrow> Inr False
     | Some ac \<Rightarrow>
        if au_Hash a = Plain then Inr (ac_Password ac = password)
        else if au_Hash a = MD5 then Inr (ac_Password ac = hash_md5 h password)
        else if au_Hash a = SHA256 then Inr (ac_Password ac = hash_sha256 h password)
        else if au_Hash a = Bcrypt then Inr (bcrypt_compare h (ac_Password ac) password)
        else Inl Panic)"

fun Load_check :: "bytes list \<Rightarrow> Account list \<Rightarrow> unit res" where
  "Load_check dup [] = Inr ()"
| "Load_check dup (v # acts) =
    (if ac_Username v = [] then Inl (ErrText ''detect empty username in password file'')
     else if ac_Username v \<in> set dup then Inl (ErrText ''detect duplicated username in password file'')
     else Load_check (ac_Username v # dup) acts)"

definition auth_Load :: "Auth_plugin \<Rightarrow> Auth_plugin res" where
  "auth_Load a =
    (let acts = au_file a
     in rbind (Load_check [] acts) (\<lambda>_. Inr (a\<lparr>au_indexer := fold (\<lambda>v. Indexer_Set (ac_Username v) v) acts (au_indexer a)\<rparr>)))"

definition saveFile :: "error option \<Rightarrow> Auth_plugin \<Rightarrow> error option \<times> Auth_plugin" where
  "saveFile err a =
    (case err of
       Some e \<Rightarrow> (Some e, a)
     | None \<Rightarrow>
        let accounts = map snd (Indexer_Iterate 0 (of_nat (Indexer_Len (au_indexer a))) (au_indexer a))
        in (None, if au_IsAbs a then a\<lparr>au_file := accounts\<rparr> else a\<lparr>au_other := accounts\<rparr>))"

definition auth_List :: "uint32 \<Rightarrow> uint32 \<Rightarrow> Auth_plugin \<Rightarrow> Account list \<times> uint32" where
  "auth_List reqPage reqPageSize a =
    (case GetPage reqPage reqPageSize of (page, pageSize) \<Rightarrow>
      (case GetOffsetN page pageSize of (offset, n) \<Rightarrow>
        (map snd (Indexer_Iterate offset n (au_indexer a)), of_nat (Indexer_Len (au_indexer a)))))"

definition auth_Get :: "bytes \<Rightarrow> Auth_plugin \<Rightarrow> Account res" where
  "auth_Get username a =
    (if username = [] then Inl (ErrText ''invalid username'')
     else case Indexer_GetByID username (au_indexer a) of Some ac \<Rightarrow> Inr ac | None \<Rightarrow> Inl (ErrText ''not found''))"

definition auth_Update :: "hashes \<Rightarrow> error option \<Rightarrow> bytes \<Rightarrow> bytes \<Rightarrow> Auth_plugin \<Rightarrow> error option \<times> Auth_plugin" where
  "auth_Update h save username password a =
    (if username = [] then (Some (ErrText ''invalid username''), a)
     else
       (case generatePassword h (au_Hash a) password of
          Inl e \<Rightarrow> (Some e, a)
        | Inr hashedPassword \<Rightarrow>
           let oact = Indexer_GetByID username (au_indexer a);
               a = a\<lparr>au_indexer := Indexer_Set username \<lparr>ac_Username = username, ac_Password = hashedPassword\<rparr> (au_indexer a)\<rparr>
           in (case saveFile save a of
                 (None, a) \<Rightarrow> (None, a)
               | (Some err, a) \<Rightarrow>
                  (case oact of
                     None \<Rightarrow> (Some err, a\<lparr>au_indexer := Indexer_Remove username (au_indexer a)\<rparr>)
                   | Some o' \<Rightarrow> (Some err, a\<lparr>au_indexer := Indexer_Set username \<lparr>ac_Username = username, ac_Password = ac_Password o'\<rparr> (au_indexer a)\<rparr>)))))"

definition auth_Delete :: "error option \<Rightarrow> bytes \<Rightarrow> Auth_plugin \<Rightarrow> error option \<times> Auth_plugin" where
  "auth_Delete save username a =
    (if username = [] then (Some (ErrText ''invalid username''), a)
     else
       (case Indexer_GetByID username (au_indexer a) of
          None \<Rightarrow> (None, a)
        | Some oact \<Rightarrow>
           (case saveFile save (a\<lparr>au_indexer := Indexer_Remove username (au_indexer a)\<rparr>) of
              (None, a) \<Rightarrow> (None, a)
            | (Some err, a) \<Rightarrow>
               (Some err, a\<lparr>au_indexer := Indexer_Set username \<lparr>ac_Username = username, ac_Password = ac_Password oact\<rparr> (au_indexer a)\<rparr>))))"

text \<open>The hook of the plug-in, after the one it wraps has answered; the result is the code of the error.\<close>

definition OnBasicAuth :: "hashes \<Rightarrow> byte option \<Rightarrow> byte \<Rightarrow> bytes \<Rightarrow> bytes \<Rightarrow> Auth_plugin \<Rightarrow> byte option res" where
  "OnBasicAuth h pre version username password a =
    (case pre of
       Some code \<Rightarrow> Inr (Some code)
     | None \<Rightarrow>
        rbind (auth_validate h username password a) (\<lambda>ok.
        if \<not> ok then
          if version = 3 \<or> version = 4 then Inr (Some 0x05)
          else if version = 5 then Inr (Some 0x87)
          else Inr None
        else Inr None))"

section \<open>The contract of an index\<close>

locale id_index =
  fixes ok :: "'s \<Rightarrow> bool" and content :: "'s \<Rightarrow> (bytes \<times> 'v) list"
    and put :: "bytes \<Rightarrow> 'v \<Rightarrow> 's \<Rightarrow> 's" and del :: "bytes \<Rightarrow> 's \<Rightarrow> 's" and get :: "bytes \<Rightarrow> 's \<Rightarrow> 'v option"
  assumes put: "ok s \<Longrightarrow> ok (put i v s)" "ok s \<Longrightarrow> content (put i v s) = al_put i v (content s)"
    and del: "ok s \<Longrightarrow> ok (del i s)" "ok s \<Longrightarrow> content (del i s) = al_del i (content s)"
    and get: "ok s \<Longrightarrow> get i s = map_of (content s) i"
    and distinct_keys: "ok s \<Longrightarrow> distinct (al_keys (content s))"
begin

lemma get_put: "ok s \<Longrightarrow> get j (put i v s) = (if j = i then Some v else get j s)"
  by (simp add: put get)

lemma get_del: "ok s \<Longrightarrow> get j (del i s) = (if j = i then None else get j s)"
  by (simp add: del get)

lemma put_back: "ok s \<Longrightarrow> get i s = Some v \<Longrightarrow> get j (put i v (put i w s)) = get j s \<and> get j (put i v (del i s)) = get j s"
  by (simp add: get_put get_del put(1) del(1))

lemma take_back: "ok s \<Longrightarrow> get i s = None \<Longrightarrow> get j (del i (put i v s)) = get j s"
  by (simp add: get_put get_del put(1))

lemma member_get: "ok s \<Longrightarrow> (i, v) \<in> set (content s) \<longleftrightarrow> get i s = Some v"
  using distinct_keys [of s] by (simp add: get)

lemma fold_put_ok: "ok s \<Longrightarrow> ok (fold (\<lambda>v. put (k v) v) vs s)"
  by (induction vs arbitrary: s) (simp_all add: put)

lemma fold_put_get:
  "ok s \<Longrightarrow> distinct (map k vs) \<Longrightarrow> get i (fold (\<lambda>v. put (k v) v) vs s) = (case find (\<lambda>v. k v = i) vs of Some v \<Rightarrow> Some v | None \<Rightarrow> get i s)"
proof (induction vs arbitrary: s)
  case (Cons v vs)
  have "find (\<lambda>v. k v = i) vs = None" if "k v = i" using Cons.prems(2) that by (auto simp: find_None_iff image_iff)
  then show ?case using Cons by (auto simp: put get_put split: option.splits)
qed simp

end

definition ix_key :: "'v Indexer \<Rightarrow> nat \<Rightarrow> bytes" where
  "ix_key ix e = (THE i. ix_index ix i = Some e)"

definition ix_content :: "'v Indexer \<Rightarrow> (bytes \<times> 'v) list" where
  "ix_content ix = map (\<lambda>(e, v). (ix_key ix e, v)) (ix_rows ix)"

definition ix_ok :: "'v Indexer \<Rightarrow> bool" where
  "ix_ok ix \<longleftrightarrow> distinct (map fst (ix_rows ix)) \<and> ran (ix_index ix) = fst ` set (ix_rows ix) \<and>
    (\<forall>i j e. ix_index ix i = Some e \<and> ix_index ix j = Some e \<longrightarrow> i = j) \<and> (\<forall>e\<in>fst ` set (ix_rows ix). e < ix_next ix)"

lemma ix_okD:
  assumes "ix_ok ix"
  shows "distinct (map fst (ix_rows ix))" "ix_index ix i = Some e \<Longrightarrow> e \<in> fst ` set (ix_rows ix)"
    "e \<in> fst ` set (ix_rows ix) \<Longrightarrow> \<exists>i. ix_index ix i = Some e" "ix_index ix i = Some e \<Longrightarrow> ix_index ix j = Some e \<Longrightarrow> i = j"
    "e \<in> fst ` set (ix_rows ix) \<Longrightarrow> e < ix_next ix"
  using assms unfolding ix_ok_def by (auto simp: ran_def)

lemma ix_key_eq: "ix_ok ix \<Longrightarrow> ix_index ix i = Some e \<Longrightarrow> ix_key ix e = i"
  unfolding ix_key_def using ix_okD(4) by (intro the_equality) auto

lemma ix_key_index:
  assumes "ix_ok ix" "e \<in> fst ` set (ix_rows ix)"
  shows "ix_index ix (ix_key ix e) = Some e"
  using ix_okD(3) [OF assms] ix_key_eq [OF assms(1)] by auto

lemma ix_key_inj: "ix_ok ix \<Longrightarrow> inj_on (ix_key ix) (fst ` set (ix_rows ix))"
  by (rule inj_onI) (metis ix_key_index option.inject)

lemma al_put_append: "k \<notin> fst ` set m \<Longrightarrow> al_put k v m = m @ [(k, v)]"
  by (induction k v m rule: al_put.induct) auto

lemma al_put_rows:
  assumes "distinct (map fst rows)" "inj_on f (fst ` set rows)" "e \<in> fst ` set rows"
  shows "map (\<lambda>(e', v). (f e', v)) (map (\<lambda>(e', v). if e' = e then (e', w) else (e', v)) rows) = al_put (f e) w (map (\<lambda>(e', v). (f e', v)) rows)"
  using assms
proof (induction rows)
  case (Cons r rows)
  obtain e1 v where r: "r = (e1, v)" by fastforce
  show ?case
  proof (cases "e1 = e")
    case True
    then have "map (\<lambda>(e', v). if e' = e then (e', w) else (e', v)) rows = rows"
      using Cons.prems(1) r by (intro map_idI) force
    then show ?thesis using r True by simp
  next
    case False
    then have "f e \<noteq> f e1" using Cons.prems(2,3) r by (auto simp: inj_on_def)
    moreover have "e \<in> fst ` set rows" "inj_on f (fst ` set rows)" "distinct (map fst rows)" using Cons.prems False r by auto
    ultimately show ?thesis using Cons.IH r False by simp
  qed
qed simp

lemma ix_rows_map: "map fst (map (\<lambda>(e', v). if e' = e then (e', w) else (e', v)) rows) = map fst rows"
  by (induction rows) auto

lemma ix_ok_Set:
  assumes ok: "ix_ok ix"
  shows "ix_ok (Indexer_Set i v ix) \<and> ix_content (Indexer_Set i v ix) = al_put i v (ix_content ix)"
proof (cases "ix_index ix i")
  case (Some e)
  let ?rows = "map (\<lambda>(e', w). if e' = e then (e', v) else (e', w)) (ix_rows ix)"
  have set: "Indexer_Set i v ix = ix\<lparr>ix_rows := ?rows\<rparr>" using Some by (simp add: Indexer_Set_def)
  have fsts: "fst ` set ?rows = fst ` set (ix_rows ix)" using ix_rows_map [of e v "ix_rows ix"] by (metis set_map)
  have d: "distinct (map fst ?rows)" using ix_okD(1) [OF ok] unfolding ix_rows_map .
  have "ix_ok (ix\<lparr>ix_rows := ?rows\<rparr>)"
    unfolding ix_ok_def by (cases ix) (use ok d fsts in \<open>auto simp only: ix_ok_def Indexer.select_convs Indexer.update_convs\<close>)
  moreover have "ix_key (ix\<lparr>ix_rows := ?rows\<rparr>) = ix_key ix" by (simp add: ix_key_def fun_eq_iff)
  moreover have "map (\<lambda>(e', v). (ix_key ix e', v)) ?rows = al_put i v (ix_content ix)"
    using al_put_rows [OF ix_okD(1) [OF ok] ix_key_inj [OF ok] ix_okD(2) [OF ok Some], of v] ix_key_eq [OF ok Some] by (simp add: ix_content_def)
  ultimately show ?thesis by (simp add: set ix_content_def)
next
  case None
  let ?n = "ix_next ix"
  let ?ix = "ix\<lparr>ix_rows := ix_rows ix @ [(?n, v)], ix_index := (ix_index ix)(i \<mapsto> ?n), ix_next := ?n + 1\<rparr>"
  have set: "Indexer_Set i v ix = ?ix" using None by (simp add: Indexer_Set_def)
  have fresh: "?n \<notin> fst ` set (ix_rows ix)" using ix_okD(5) [OF ok] by blast
  have ran: "?n \<notin> ran (ix_index ix)" using fresh ok by (simp add: ix_ok_def)
  have ok': "ix_ok ?ix" unfolding ix_ok_def
  proof (intro conjI)
    show "distinct (map fst (ix_rows ?ix))" using ix_okD(1) [OF ok] fresh by simp
    show "ran (ix_index ?ix) = fst ` set (ix_rows ?ix)" using ok None by (simp add: ix_ok_def)
    show "\<forall>k j e. ix_index ?ix k = Some e \<and> ix_index ?ix j = Some e \<longrightarrow> k = j"
      using ix_okD(4) [OF ok] ran by (auto simp: ran_def split: if_splits)
    show "\<forall>e\<in>fst ` set (ix_rows ?ix). e < ix_next ?ix" using ix_okD(5) [OF ok] by (auto intro: less_SucI)
  qed
  have key: "ix_key ?ix e = ix_key ix e" if "e \<in> fst ` set (ix_rows ix)" for e
    by (rule ix_key_eq [OF ok']) (use ix_key_index [OF ok that] None in auto)
  have "ix_key ?ix ?n = i" by (rule ix_key_eq [OF ok']) simp
  then have c: "ix_content ?ix = ix_content ix @ [(i, v)]" using key by (force simp: ix_content_def)
  have "i \<notin> fst ` set (ix_content ix)" using ix_key_index [OF ok] None by (force simp: ix_content_def)
  then show ?thesis using ok' c set al_put_append by metis
qed

lemma ix_ok_Remove:
  assumes ok: "ix_ok ix"
  shows "ix_ok (Indexer_Remove i ix) \<and> ix_content (Indexer_Remove i ix) = al_del i (ix_content ix)"
proof (cases "ix_index ix i")
  case None
  then have "i \<notin> fst ` set (ix_content ix)" using ix_key_index [OF ok] by (force simp: ix_content_def)
  then have "al_del i (ix_content ix) = ix_content ix" unfolding al_del_def by (intro filter_True) force
  then show ?thesis using ok None by (simp add: Indexer_Remove_def)
next
  case (Some e)
  let ?ix = "ix\<lparr>ix_rows := filter (\<lambda>(e', v). e' \<noteq> e) (ix_rows ix), ix_index := (ix_index ix)(i := None)\<rparr>"
  have rem: "Indexer_Remove i ix = ?ix" using Some by (simp add: Indexer_Remove_def)
  have fsts: "fst ` set (ix_rows ?ix) = fst ` set (ix_rows ix) - {e}" by force
  have ok': "ix_ok ?ix" unfolding ix_ok_def
  proof (intro conjI)
    show "distinct (map fst (ix_rows ?ix))" using ix_okD(1) [OF ok] by (simp add: distinct_map_filter)
    show "ran (ix_index ?ix) = fst ` set (ix_rows ?ix)"
    proof (unfold fsts, intro equalityI subsetI)
      fix e' assume "e' \<in> ran (ix_index ?ix)"
      then obtain k where "ix_index ix k = Some e'" "k \<noteq> i" by (auto simp: ran_def split: if_splits)
      then show "e' \<in> fst ` set (ix_rows ix) - {e}" using ix_okD(2,4) [OF ok] Some by blast
    next
      fix e' assume e': "e' \<in> fst ` set (ix_rows ix) - {e}"
      then obtain k where "ix_index ix k = Some e'" using ix_okD(3) [OF ok] by blast
      then have "ix_index ?ix k = Some e'" using e' Some by auto
      then show "e' \<in> ran (ix_index ?ix)" by (rule ranI)
    qed
    show "\<forall>k j e. ix_index ?ix k = Some e \<and> ix_index ?ix j = Some e \<longrightarrow> k = j"
      using ix_okD(4) [OF ok] by (auto split: if_splits)
    show "\<forall>e\<in>fst ` set (ix_rows ?ix). e < ix_next ?ix" using ix_okD(5) [OF ok] unfolding fsts by auto
  qed
  have key: "ix_key ?ix e' = ix_key ix e'" "ix_key ix e' \<noteq> i" if "e' \<in> fst ` set (ix_rows ix)" "e' \<noteq> e" for e'
  proof -
    show ne: "ix_key ix e' \<noteq> i" using ix_key_index [OF ok that(1)] Some that(2) by auto
    show "ix_key ?ix e' = ix_key ix e'" by (rule ix_key_eq [OF ok']) (use ix_key_index [OF ok that(1)] ne in simp)
  qed
  have "al_del i (ix_content ix) = map (\<lambda>(e, v). (ix_key ix e, v)) (filter (\<lambda>(e', v). ix_key ix e' \<noteq> i) (ix_rows ix))"
    by (simp add: al_del_def ix_content_def filter_map comp_def case_prod_unfold)
  also have "filter (\<lambda>(e', v). ix_key ix e' \<noteq> i) (ix_rows ix) = filter (\<lambda>(e', v). e' \<noteq> e) (ix_rows ix)"
  proof (rule filter_cong [OF refl])
    fix r assume r: "r \<in> set (ix_rows ix)"
    then have "fst r \<in> fst ` set (ix_rows ix)" by simp
    then have "ix_key ix (fst r) \<noteq> i \<longleftrightarrow> fst r \<noteq> e" using key(2) ix_key_eq [OF ok Some] by blast
    then show "(case r of (e', v) \<Rightarrow> ix_key ix e' \<noteq> i) = (case r of (e', v) \<Rightarrow> e' \<noteq> e)" by (simp add: case_prod_unfold)
  qed
  also have "map (\<lambda>(e, v). (ix_key ix e, v)) (filter (\<lambda>(e', v). e' \<noteq> e) (ix_rows ix)) = ix_content ?ix"
    using key(1) by (force simp: ix_content_def)
  finally show ?thesis using ok' rem by simp
qed

lemma ix_content_keys: "map fst (ix_content ix) = map (ix_key ix) (map fst (ix_rows ix))"
  by (simp add: ix_content_def case_prod_unfold)

lemma ix_content_distinct:
  assumes "ix_ok ix"
  shows "distinct (al_keys (ix_content ix))"
  unfolding ix_content_keys using ix_okD(1) [OF assms] ix_key_inj [OF assms] by (subst distinct_map) simp

lemma ix_get:
  assumes ok: "ix_ok ix"
  shows "Indexer_GetByID i ix = map_of (ix_content ix) i"
proof (cases "ix_index ix i")
  case None
  then have "i \<notin> fst ` set (ix_content ix)" using ix_key_index [OF ok] by (force simp: ix_content_def)
  then have "map_of (ix_content ix) i = None" unfolding map_of_eq_None_iff .
  then show ?thesis using None by (simp add: Indexer_GetByID_def)
next
  case (Some e)
  obtain v where v: "(e, v) \<in> set (ix_rows ix)" using ix_okD(2) [OF ok Some] by auto
  have "(i, v) \<in> set (ix_content ix)" using v ix_key_eq [OF ok Some] by (force simp: ix_content_def)
  then have "map_of (ix_content ix) i = Some v" using ix_content_distinct [OF ok] by simp
  then show ?thesis using Some v ix_okD(1) [OF ok] by (simp add: Indexer_GetByID_def)
qed

interpretation ix: id_index ix_ok ix_content Indexer_Set Indexer_Remove Indexer_GetByID
  by unfold_locales (simp_all add: ix_ok_Set ix_ok_Remove ix_get ix_content_distinct)

lemma ix_ok_New [simp]: "ix_ok NewIndexer" "ix_content NewIndexer = []" "Indexer_GetByID i NewIndexer = None"
  by (simp_all add: ix_ok_def ix_content_def NewIndexer_def Indexer_GetByID_def)

section \<open>Pages\<close>

lemma diff_Suc_step: "(a :: nat) - b = Suc k \<Longrightarrow> a - Suc b = k"
  by simp

lemma sint_le_unat: "sint (x :: uint64) \<le> int (unat x)"
  unfolding sint_uint unat_eq_nat_uint by (simp add: signed_take_bit_int_less_eq_self_iff order.trans [OF _ uint_nonnegative])

lemma Iterate_loop_spec:
  assumes "unat offset + unat n < 2 ^ 64" "unat j \<le> unat offset + unat n" "unat j + length vs < 2 ^ 64"
  shows "Iterate_loop offset n j vs = drop (unat offset - unat j) (take (unat offset + unat n - unat j) vs)"
  using assms(2,3)
proof (induction vs arbitrary: j)
  case (Cons v vs)
  have u: "unat (offset + n) = unat offset + unat n" using assms(1) by (simp add: unat_add_lem [THEN iffD1])
  show ?case
  proof (cases "j = offset + n")
    case True
    then show ?thesis using u by simp
  next
    case False
    then have lt: "unat j < unat offset + unat n" using Cons.prems(1) u by (metis le_neq_implies_less word_unat_eq_iff)
    have j1: "unat (j + 1) = unat j + 1" using Cons.prems(2) by (simp add: unat_word_ariths)
    have "Iterate_loop offset n (j + 1) vs = drop (unat offset - unat (j + 1)) (take (unat offset + unat n - unat (j + 1)) vs)"
      using Cons.prems(2) lt j1 by (intro Cons.IH) simp_all
    moreover have "j < offset + n" using lt u by (simp add: word_less_nat_alt)
    moreover obtain d where d: "unat offset + unat n - unat j = Suc d" "unat offset + unat n - unat (j + 1) = d" using lt j1 by (cases "unat offset + unat n - unat j") auto
    moreover have "(if offset \<le> j then [v] else []) @ drop (unat offset - unat (j + 1)) vs' = drop (unat offset - unat j) (v # vs')" for vs'
      using j1 by (cases "unat offset - unat j") (auto simp: word_le_nat_alt diff_Suc_step)
    ultimately show ?thesis using False by simp
  qed
qed simp

lemma Indexer_Iterate_spec:
  assumes "unat offset + unat n < 2 ^ 64" "length (ix_rows ix) < 2 ^ 63"
  shows "Indexer_Iterate offset n ix = take (unat n) (drop (unat offset) (ix_rows ix))"
proof -
  have "drop (unat offset) (take (unat offset + unat n) (ix_rows ix)) = take (unat n) (drop (unat offset) (ix_rows ix))"
    by (simp add: take_drop add.commute)
  moreover have "length (ix_rows ix) \<le> unat offset" if "int (length (ix_rows ix)) < sint offset"
    using that sint_le_unat [of offset] by linarith
  ultimately show ?thesis using assms Iterate_loop_spec [of offset n 0 "ix_rows ix"] by (auto simp: Indexer_Iterate_def)
qed

text \<open>A page of a listing: rows \<open>(page - 1) * pageSize\<close> and on; the pages of requests never wrap around, and together they are the list.\<close>

lemma GetPage_offset:
  assumes "0 < p" "0 < k" "p < 2 ^ 32" "k < 2 ^ 32"
  shows "GetPage (word_of_nat p) (word_of_nat k) = (word_of_nat p, word_of_nat k)"
    "GetOffsetN (word_of_nat p) (word_of_nat k) = (word_of_nat ((p - 1) * k), word_of_nat k)"
    "unat (word_of_nat ((p - 1) * k) :: uint64) = (p - 1) * k" "unat (word_of_nat k :: uint64) = k" "(p - 1) * k + k < 2 ^ 64"
proof -
  have nz: "(word_of_nat p :: uint32) \<noteq> 0" "(word_of_nat k :: uint32) \<noteq> 0" using assms by (simp_all add: word_of_nat_eq_0_iff nat_dvd_not_less)
  have u: "ucast (word_of_nat m :: uint32) = (word_of_nat m :: uint64)" if "m < 2 ^ 32" for m
    using that by (simp add: unsigned_of_nat take_bit_nat_eq_self)
  show "GetPage (word_of_nat p) (word_of_nat k) = (word_of_nat p, word_of_nat k)" using nz u assms by (simp add: GetPage_def)
  show "GetOffsetN (word_of_nat p) (word_of_nat k) = (word_of_nat ((p - 1) * k), word_of_nat k)"
    using assms(1) by (simp add: GetOffsetN_def of_nat_diff)
  have "(p - 1) * k + k = p * k" using assms(1) by (cases p) simp_all
  moreover have "p * k < 2 ^ 32 * 2 ^ 32" by (rule mult_strict_mono) (use assms in simp_all)
  ultimately show b: "(p - 1) * k + k < 2 ^ 64" by simp
  then show "unat (word_of_nat ((p - 1) * k) :: uint64) = (p - 1) * k" by (intro unat_word_of_nat) simp
  show "unat (word_of_nat k :: uint64) = k" using assms by (simp add: unat_word_of_nat)
qed

lemma auth_List_page:
  assumes "0 < p" "0 < k" "p < 2 ^ 32" "k < 2 ^ 32" "length (ix_rows (au_indexer a)) < 2 ^ 63"
  shows "fst (auth_List (word_of_nat p) (word_of_nat k) a) = take k (drop ((p - 1) * k) (map snd (ix_rows (au_indexer a))))"
  using GetPage_offset [OF assms(1-4)] assms(5) by (simp add: auth_List_def Indexer_Iterate_spec take_map drop_map)

lemma pages_concat: "concat (map (\<lambda>p. take k (drop (p * k) vs)) [0..<m]) = take (m * k) vs"
  by (induction m) (simp_all add: take_add add.commute [of k])

lemma auth_List_pages:
  assumes "0 < k" "k < 2 ^ 32" "m < 2 ^ 32" "length (ix_rows (au_indexer a)) < 2 ^ 63" "length (ix_rows (au_indexer a)) \<le> m * k"
  shows "concat (map (\<lambda>p. fst (auth_List (word_of_nat (Suc p)) (word_of_nat k) a)) [0..<m]) = map snd (ix_rows (au_indexer a))"
proof -
  have "map (\<lambda>p. fst (auth_List (word_of_nat (Suc p)) (word_of_nat k) a)) [0..<m] = map (\<lambda>p. take k (drop (p * k) (map snd (ix_rows (au_indexer a))))) [0..<m]"
    using assms auth_List_page [of "Suc _" k a] by (intro map_cong refl) (simp del: of_nat_Suc)
  then have "concat (map (\<lambda>p. fst (auth_List (word_of_nat (Suc p)) (word_of_nat k) a)) [0..<m]) = take (m * k) (map snd (ix_rows (au_indexer a)))"
    by (simp only: pages_concat)
  then show ?thesis using assms(5) by (simp del: of_nat_Suc)
qed

section \<open>The accounts and the password file\<close>

lemma Load_check_ok: "Load_check dup acts = Inr () \<longleftrightarrow> [] \<notin> ac_Username ` set acts \<and> distinct (map ac_Username acts) \<and> set dup \<inter> ac_Username ` set acts = {}"
  by (induction dup acts rule: Load_check.induct) auto

text \<open>
  Every account is found under its own name, and the file has the accounts of the memory.
\<close>

definition accounts_ok :: "Auth_plugin \<Rightarrow> bool" where
  "accounts_ok a \<longleftrightarrow> au_IsAbs a \<and> ix_ok (au_indexer a) \<and>
    (\<forall>u ac. Indexer_GetByID u (au_indexer a) = Some ac \<longrightarrow> ac_Username ac = u \<and> u \<noteq> []) \<and>
    Load_check [] (au_file a) = Inr () \<and> (\<forall>u. find (\<lambda>v. ac_Username v = u) (au_file a) = Indexer_GetByID u (au_indexer a))"

lemma ix_content_snd: "map snd (ix_content ix) = map snd (ix_rows ix)"
  by (simp add: ix_content_def case_prod_unfold)

lemma ix_rows_length: "ix_ok ix \<Longrightarrow> length (ix_rows (Indexer_Set i v ix)) \<le> Suc (length (ix_rows ix))" "length (ix_rows (Indexer_Remove i ix)) \<le> length (ix_rows ix)"
  by (auto simp: Indexer_Set_def Indexer_Remove_def split: option.splits)

text \<open>What is written to the file when every account is found under its own name.\<close>

lemma saved_accounts:
  assumes ok: "ix_ok ix" and names: "\<And>u ac. Indexer_GetByID u ix = Some ac \<Longrightarrow> ac_Username ac = u \<and> u \<noteq> []"
  shows "Load_check [] (map snd (ix_rows ix)) = Inr ()" "find (\<lambda>v. ac_Username v = u) (map snd (ix_rows ix)) = Indexer_GetByID u ix"
proof -
  have n: "ac_Username v = i \<and> i \<noteq> []" if "(i, v) \<in> set (ix_content ix)" for i v
    using names ix.member_get [OF ok] that by blast
  have m: "map ac_Username (map snd (ix_content ix)) = map fst (ix_content ix)" using n by auto
  then have d: "distinct (map ac_Username (map snd (ix_content ix)))" using ix_content_distinct [OF ok] by (simp only:)
  then show "Load_check [] (map snd (ix_rows ix)) = Inr ()"
    unfolding Load_check_ok ix_content_snd [symmetric] using n by fastforce
  have "find (\<lambda>v. ac_Username v = u) (map snd c) = map_of c u" if "\<forall>(i, v)\<in>set c. ac_Username v = i" for c :: "(bytes \<times> Account) list"
    using that by (induction c) auto
  then show "find (\<lambda>v. ac_Username v = u) (map snd (ix_rows ix)) = Indexer_GetByID u ix"
    using n ix_get [OF ok] unfolding ix_content_snd [symmetric] by fastforce
qed

lemma Iterate_all: "length (ix_rows ix) < 2 ^ 63 \<Longrightarrow> Indexer_Iterate 0 (word_of_nat (Indexer_Len ix)) ix = ix_rows ix"
  by (subst Indexer_Iterate_spec) (simp_all add: Indexer_Len_def unat_word_of_nat)

lemma saveFile_None: "fst (saveFile None a) = None"
  by (simp add: saveFile_def Let_def)

lemma saveFile_cases:
  assumes ok: "ix_ok (au_indexer a)" and names: "\<And>u ac. Indexer_GetByID u (au_indexer a) = Some ac \<Longrightarrow> ac_Username ac = u \<and> u \<noteq> []"
    and len: "length (ix_rows (au_indexer a)) < 2 ^ 63" and abs: "au_IsAbs a"
  shows "saveFile None a = (None, a\<lparr>au_file := map snd (ix_rows (au_indexer a))\<rparr>)" "accounts_ok (a\<lparr>au_file := map snd (ix_rows (au_indexer a))\<rparr>)"
  using saved_accounts [OF ok names] ok names len abs by (simp_all add: saveFile_def Let_def Iterate_all accounts_ok_def)

text \<open>Two states with the same accounts and the same file.\<close>

lemma accounts_ok_same:
  assumes "accounts_ok a" "ix_ok (au_indexer b)" "au_file b = au_file a" "au_IsAbs b = au_IsAbs a" "\<And>u. Indexer_GetByID u (au_indexer b) = Indexer_GetByID u (au_indexer a)"
  shows "accounts_ok b"
  using assms by (simp add: accounts_ok_def)

definition same_accounts :: "Auth_plugin \<Rightarrow> Auth_plugin \<Rightarrow> bool" where
  "same_accounts a b \<longleftrightarrow> (\<forall>u. Indexer_GetByID u (au_indexer a) = Indexer_GetByID u (au_indexer b)) \<and> au_Hash a = au_Hash b"

lemma account_eta: "ac_Username ac = u \<Longrightarrow> \<lparr>ac_Username = u, ac_Password = ac_Password ac\<rparr> = ac"
  by (cases ac) simp

lemma auth_Update_ok:
  assumes ok: "accounts_ok a" and len: "length (ix_rows (au_indexer a)) < 2 ^ 63 - 1" and upd: "auth_Update h save u pw a = (err, a')"
  shows "accounts_ok a' \<and> length (ix_rows (au_indexer a')) \<le> Suc (length (ix_rows (au_indexer a))) \<and> au_Hash a' = au_Hash a \<and>
    (if err = None then \<exists>p. generatePassword h (au_Hash a) pw = Inr p \<and>
       (\<forall>v. Indexer_GetByID v (au_indexer a') = (if v = u then Some \<lparr>ac_Username = u, ac_Password = p\<rparr> else Indexer_GetByID v (au_indexer a)))
     else same_accounts a' a)"
proof (cases "u = [] \<or> (\<exists>e. generatePassword h (au_Hash a) pw = Inl e)")
  case True
  then show ?thesis using ok upd by (auto simp: auth_Update_def same_accounts_def split: if_splits)
next
  case False
  then obtain p where p: "u \<noteq> []" "generatePassword h (au_Hash a) pw = Inr p" by (cases "generatePassword h (au_Hash a) pw") auto
  let ?ac = "\<lparr>ac_Username = u, ac_Password = p\<rparr>"
  let ?b = "a\<lparr>au_indexer := Indexer_Set u ?ac (au_indexer a)\<rparr>"
  have ix: "ix_ok (au_indexer a)" using ok by (simp add: accounts_ok_def)
  have ixb: "ix_ok (au_indexer ?b)" using ix.put(1) [OF ix] by simp
  have getb: "Indexer_GetByID v (au_indexer ?b) = (if v = u then Some ?ac else Indexer_GetByID v (au_indexer a))" for v
    using ix.get_put [OF ix] by simp
  have namesb: "ac_Username ac = v \<and> v \<noteq> []" if "Indexer_GetByID v (au_indexer ?b) = Some ac" for v ac
    using that ok p(1) unfolding getb accounts_ok_def by (auto split: if_splits)
  have lenb: "length (ix_rows (au_indexer ?b)) \<le> Suc (length (ix_rows (au_indexer a)))" using ix_rows_length(1) [OF ix] by simp
  show ?thesis
  proof (cases save)
    case None
    then have "(err, a') = saveFile None ?b"
      using upd p saveFile_None [of ?b] by (cases "saveFile None ?b") (simp add: auth_Update_def Let_def)
    then have "err = None" "a' = ?b\<lparr>au_file := map snd (ix_rows (au_indexer ?b))\<rparr>" "accounts_ok a'"
      using saveFile_cases [OF ixb namesb] lenb len ok by (simp_all add: accounts_ok_def)
    then show ?thesis using getb lenb p(2) by simp
  next
    case (Some e)
    show ?thesis
    proof (cases "Indexer_GetByID u (au_indexer a)")
      case None
      have a': "err = Some e" "a' = ?b\<lparr>au_indexer := Indexer_Remove u (au_indexer ?b)\<rparr>"
        using upd p Some None by (auto simp: auth_Update_def Let_def saveFile_def)
      have g: "Indexer_GetByID v (au_indexer a') = Indexer_GetByID v (au_indexer a)" for v using ix.take_back [OF ix None] a'(2) by simp
      moreover have "ix_ok (au_indexer a')" using ix.del(1) [OF ixb] a'(2) by simp
      moreover have "length (ix_rows (au_indexer a')) \<le> Suc (length (ix_rows (au_indexer a)))"
        using ix_rows_length(2) [of u "au_indexer ?b"] lenb a'(2) by simp
      ultimately show ?thesis using accounts_ok_same [OF ok, of a'] a' by (simp add: same_accounts_def)
    next
      case (Some o')
      have o': "ac_Username o' = u" using ok Some by (simp add: accounts_ok_def)
      have a': "err = Some e" "a' = ?b\<lparr>au_indexer := Indexer_Set u o' (au_indexer ?b)\<rparr>"
        using upd p Some \<open>save = Some e\<close> account_eta [OF o'] by (auto simp: auth_Update_def Let_def saveFile_def)
      have g: "Indexer_GetByID v (au_indexer a') = Indexer_GetByID v (au_indexer a)" for v using ix.put_back [OF ix Some] a'(2) by simp
      moreover have "ix_ok (au_indexer a')" using ix.put(1) [OF ixb] a'(2) by simp
      moreover have "length (ix_rows (au_indexer a')) = length (ix_rows (au_indexer ?b))"
        using getb [of u] a'(2) by (auto simp: Indexer_Set_def Indexer_GetByID_def split: option.splits)
      ultimately show ?thesis using accounts_ok_same [OF ok, of a'] a' lenb by (simp add: same_accounts_def)
    qed
  qed
qed

lemma auth_Delete_ok:
  assumes ok: "accounts_ok a" and len: "length (ix_rows (au_indexer a)) < 2 ^ 63 - 1" and del: "auth_Delete save u a = (err, a')"
  shows "accounts_ok a' \<and> length (ix_rows (au_indexer a')) \<le> Suc (length (ix_rows (au_indexer a))) \<and> au_Hash a' = au_Hash a \<and>
    (if err = None then \<forall>v. Indexer_GetByID v (au_indexer a') = (if v = u then None else Indexer_GetByID v (au_indexer a))
     else same_accounts a' a)"
proof (cases "u = [] \<or> Indexer_GetByID u (au_indexer a) = None")
  case True
  then show ?thesis using ok del by (auto simp: auth_Delete_def same_accounts_def split: if_splits)
next
  case False
  then obtain o' where o: "u \<noteq> []" "Indexer_GetByID u (au_indexer a) = Some o'" by auto
  have o': "ac_Username o' = u" using ok o by (simp add: accounts_ok_def)
  let ?b = "a\<lparr>au_indexer := Indexer_Remove u (au_indexer a)\<rparr>"
  have ix: "ix_ok (au_indexer a)" using ok by (simp add: accounts_ok_def)
  have ixb: "ix_ok (au_indexer ?b)" using ix.del(1) [OF ix] by simp
  have getb: "Indexer_GetByID v (au_indexer ?b) = (if v = u then None else Indexer_GetByID v (au_indexer a))" for v
    using ix.get_del [OF ix] by simp
  have namesb: "ac_Username ac = v \<and> v \<noteq> []" if "Indexer_GetByID v (au_indexer ?b) = Some ac" for v ac
    using that ok unfolding getb accounts_ok_def by (auto split: if_splits)
  have lenb: "length (ix_rows (au_indexer ?b)) \<le> length (ix_rows (au_indexer a))" using ix_rows_length(2) by simp
  show ?thesis
  proof (cases save)
    case None
    then have "(err, a') = saveFile None ?b"
      using del o saveFile_None [of ?b] by (cases "saveFile None ?b") (simp add: auth_Delete_def)
    then have "err = None" "a' = ?b\<lparr>au_file := map snd (ix_rows (au_indexer ?b))\<rparr>" "accounts_ok a'"
      using saveFile_cases [OF ixb namesb] lenb len ok by (simp_all add: accounts_ok_def)
    then show ?thesis using getb lenb by simp
  next
    case (Some e)
    have a': "err = Some e" "a' = ?b\<lparr>au_indexer := Indexer_Set u o' (au_indexer ?b)\<rparr>"
      using del o Some account_eta [OF o'] by (auto simp: auth_Delete_def saveFile_def)
    have g: "Indexer_GetByID v (au_indexer a') = Indexer_GetByID v (au_indexer a)" for v using ix.put_back [OF ix o(2)] a'(2) by simp
    moreover have "ix_ok (au_indexer a')" using ix.put(1) [OF ixb] a'(2) by simp
    moreover have "length (ix_rows (au_indexer a')) \<le> Suc (length (ix_rows (au_indexer a)))"
      using ix_rows_length(1) [OF ixb, of u o'] lenb a'(2) by simp
    ultimately show ?thesis using accounts_ok_same [OF ok, of a'] a' by (simp add: same_accounts_def)
  qed
qed

lemma auth_Load_ok:
  assumes "auth_Load (auth_New True hash file) = Inr a"
  shows "accounts_ok a" "length (ix_rows (au_indexer a)) \<le> length file" "au_Hash a = hash" "au_file a = file"
proof -
  let ?ix = "fold (\<lambda>v. Indexer_Set (ac_Username v) v) file NewIndexer"
  have chk: "Load_check [] file = Inr ()" and a: "a = (auth_New True hash file)\<lparr>au_indexer := ?ix\<rparr>"
    using assms by (auto simp: auth_Load_def auth_New_def rbind_def split: sum.splits)
  have d: "distinct (map ac_Username file)" "[] \<notin> ac_Username ` set file" using chk by (simp_all add: Load_check_ok)
  have get: "Indexer_GetByID u ?ix = find (\<lambda>v. ac_Username v = u) file" for u
    using ix.fold_put_get [OF ix_ok_New(1) d(1), of u] by (simp split: option.splits)
  have "ac_Username ac = u \<and> u \<noteq> []" if "Indexer_GetByID u ?ix = Some ac" for u ac
  proof -
    have "ac \<in> set file" "ac_Username ac = u" using that unfolding get by (auto simp: find_Some_iff)
    then show ?thesis using d(2) by (auto simp: image_iff)
  qed
  moreover have "ix_ok ?ix" by (rule ix.fold_put_ok [OF ix_ok_New(1)])
  moreover have "au_indexer a = ?ix" "au_file a = file" "au_IsAbs a" by (simp_all add: a auth_New_def)
  ultimately show "accounts_ok a" unfolding accounts_ok_def using chk get by metis
  have "length (ix_rows (fold (\<lambda>v. Indexer_Set (ac_Username v) v) vs ix)) \<le> length (ix_rows ix) + length vs" if "ix_ok ix" for vs ix
    using that
  proof (induction vs arbitrary: ix)
    case (Cons v vs)
    have "ix_ok (Indexer_Set (ac_Username v) v ix)" using ix.put(1) [OF Cons.prems] .
    from Cons.IH [OF this] show ?case using ix_rows_length(1) [OF Cons.prems, of "ac_Username v" v] by simp
  qed simp
  from this [OF ix_ok_New(1), of "file"] show "length (ix_rows (au_indexer a)) \<le> length file" by (simp add: a NewIndexer_def)
  show "au_Hash a = hash" "au_file a = file" by (simp_all add: a auth_New_def)
qed

text \<open>The requests that change accounts; for each, whether the file can be written.\<close>

datatype account_op = OpUpdate "error option" bytes bytes | OpDelete "error option" bytes

definition account_step :: "hashes \<Rightarrow> account_op \<Rightarrow> Auth_plugin \<Rightarrow> Auth_plugin" where
  "account_step h op a = (case op of OpUpdate save u pw \<Rightarrow> snd (auth_Update h save u pw a) | OpDelete save u \<Rightarrow> snd (auth_Delete save u a))"

lemma account_step_ok:
  assumes "accounts_ok a" "length (ix_rows (au_indexer a)) < 2 ^ 63 - 1"
  shows "accounts_ok (account_step h op a) \<and> length (ix_rows (au_indexer (account_step h op a))) \<le> Suc (length (ix_rows (au_indexer a))) \<and>
    au_Hash (account_step h op a) = au_Hash a"
proof (cases op)
  case (OpUpdate save u pw)
  then show ?thesis using auth_Update_ok [OF assms, of h save u pw] by (cases "auth_Update h save u pw a") (simp add: account_step_def)
next
  case (OpDelete save u)
  then show ?thesis using auth_Delete_ok [OF assms, of save u] by (cases "auth_Delete save u a") (simp add: account_step_def)
qed

lemma account_steps_ok:
  "accounts_ok a \<Longrightarrow> length (ix_rows (au_indexer a)) + length ops < 2 ^ 63 - 1 \<Longrightarrow>
    accounts_ok (fold (account_step h) ops a) \<and> au_Hash (fold (account_step h) ops a) = au_Hash a"
proof (induction ops arbitrary: a)
  case (Cons op ops)
  have "length (ix_rows (au_indexer a)) < 2 ^ 63 - 1" using Cons.prems(2) by simp
  note st = account_step_ok [OF Cons.prems(1) this, of h op]
  then show ?case using Cons.IH [of "account_step h op a"] Cons.prems(2) by simp
qed simp

text \<open>
  C37. Accounts survive a restart.  Load a password file whose name is absolute, serve any requests that create, change and delete accounts, of which any may fail to write the file, and load the file that is
  left into a new plug-in: loading succeeds, the same accounts are found, and every log-in is answered the same as before the restart.
\<close>

theorem accounts_persist:
  assumes "auth_Load (auth_New True hash file) = Inr a" "length file + length ops < 2 ^ 63 - 1" "a' = fold (account_step h) ops a"
  shows "\<exists>b. auth_Load (auth_New True hash (au_file a')) = Inr b \<and> (\<forall>u. Indexer_GetByID u (au_indexer b) = Indexer_GetByID u (au_indexer a')) \<and>
    (\<forall>u pw. auth_validate h u pw b = auth_validate h u pw a')"
proof -
  note ld = auth_Load_ok [OF assms(1)]
  have ok: "accounts_ok a'" "au_Hash a' = hash" using account_steps_ok [OF ld(1), of ops h] ld(2,3) assms(2,3) by simp_all
  then obtain b where b: "auth_Load (auth_New True hash (au_file a')) = Inr b"
    by (auto simp: auth_Load_def auth_New_def accounts_ok_def rbind_def Let_def)
  note lb = auth_Load_ok [OF b]
  have get: "Indexer_GetByID u (au_indexer b) = Indexer_GetByID u (au_indexer a')" for u using lb(1,4) ok(1) by (simp add: accounts_ok_def)
  moreover have "auth_validate h u pw b = auth_validate h u pw a'" for u pw unfolding auth_validate_def get lb(3) ok(2) ..
  ultimately show ?thesis using b by blast
qed

definition hashes_example :: hashes where
  "hashes_example = \<lparr>hash_md5 = rev, hash_sha256 = rev, bcrypt_generate = Inr, bcrypt_compare = (=)\<rparr>"

theorem accounts_persist_witness:
  "\<exists>a b. auth_Load (auth_New True Plain [\<lparr>ac_Username = [1], ac_Password = [2]\<rparr>]) = Inr a \<and>
    auth_Load (auth_New True Plain (au_file (fold (account_step hashes_example) [OpUpdate None [1] [3], OpDelete (Some Panic) [1]] a))) = Inr b \<and>
    auth_validate hashes_example [1] [3] b = Inr True"
proof -
  let ?f = "[\<lparr>ac_Username = [1 :: byte], ac_Password = [2]\<rparr>]" and ?ops = "[OpUpdate None [1 :: byte] [3 :: byte], OpDelete (Some Panic) [1]]"
  let ?a = "(auth_New True Plain ?f)\<lparr>au_indexer := Indexer_Set [1] \<lparr>ac_Username = [1], ac_Password = [2]\<rparr> NewIndexer\<rparr>"
  have a: "auth_Load (auth_New True Plain ?f) = Inr ?a" by (simp add: auth_Load_def auth_New_def)
  have "auth_validate hashes_example [1] [3] (fold (account_step hashes_example) ?ops ?a) = Inr True"
    by (simp add: account_step_def auth_Update_def auth_Delete_def auth_validate_def auth_New_def generatePassword_def saveFile_def Indexer_Set_def
        Indexer_Remove_def Indexer_GetByID_def NewIndexer_def Let_def)
  then show ?thesis using accounts_persist [OF a _ refl, of ?ops hashes_example] a by auto
qed

text \<open>
  An account that was created or changed without an error is the one that logs in: the hash functions are only required to recognise their own result.
\<close>

lemma update_validates:
  assumes "accounts_ok a" "length (ix_rows (au_indexer a)) < 2 ^ 63 - 1" "auth_Update h save u pw a = (None, a')"
    and "\<And>p. bcrypt_generate h pw = Inr p \<Longrightarrow> bcrypt_compare h p pw"
  shows "auth_validate h u pw a' = Inr True"
proof -
  obtain p where "generatePassword h (au_Hash a) pw = Inr p" "Indexer_GetByID u (au_indexer a') = Some \<lparr>ac_Username = u, ac_Password = p\<rparr>" "au_Hash a' = au_Hash a"
    using auth_Update_ok [OF assms(1,2,3)] by auto
  then show ?thesis using assms(4) by (auto simp: auth_validate_def generatePassword_def split: if_splits)
qed

text \<open>Who is not found is refused by both versions of the protocol.\<close>

lemma OnBasicAuth_unknown:
  "Indexer_GetByID u (au_indexer a) = None \<Longrightarrow> version \<in> {3, 4, 5} \<Longrightarrow> \<exists>code. OnBasicAuth h None version u pw a = Inr (Some code)"
  by (auto simp: OnBasicAuth_def auth_validate_def)

text \<open>With a relative file name and another working directory, an account created without an error is gone after a restart.\<close>

lemma relative_file_lost:
  "let a = account_step hashes_example (OpUpdate None [1] [3]) (auth_New False Plain []) in
   auth_validate hashes_example [1] [3] a = Inr True \<and>
   (\<exists>b. auth_Load (auth_New False Plain (au_file a)) = Inr b \<and> auth_validate hashes_example [1] [3] b = Inr False)"
  by (simp add: account_step_def auth_Update_def auth_New_def auth_Load_def auth_validate_def generatePassword_def saveFile_def Indexer_Set_def
      Indexer_GetByID_def NewIndexer_def Let_def)

text \<open>Taking back a deletion whose file cannot be written puts the account at the end of the listing.\<close>

lemma delete_rollback_moves:
  "map snd (ix_rows (au_indexer (account_step hashes_example (OpDelete (Some Panic) [1])
      (fold (account_step hashes_example) [OpUpdate None [1] [3], OpUpdate None [2] [4]] (auth_New True Plain []))))) =
    [\<lparr>ac_Username = [2], ac_Password = [4]\<rparr>, \<lparr>ac_Username = [1], ac_Password = [3]\<rparr>]"
  by (simp add: account_step_def auth_Update_def auth_Delete_def auth_New_def generatePassword_def saveFile_def Indexer_Set_def
      Indexer_Remove_def Indexer_GetByID_def NewIndexer_def Let_def)

end
