(* ===== verification/Stats.thy ===== *)
theory Stats
  imports Queue Packets
begin

text \<open>
  The counters of the broker, \<^verbatim>\<open>server/stats.go\<close>, and the part of \<^verbatim>\<open>server/queue_notifier.go\<close> that drives them.  All counters are of 64 bits and wrap
  around; \<^verbatim>\<open>^uint64(delta-1)\<close> is the negation.  The statistics of subscriptions belong to the subscription store: \<open>subs\<close> reads those of a client and
  \<open>'u\<close> is their type.
\<close>

section \<open>Counters\<close>

record PacketBytes =
  pb_Auth :: uint64
  pb_Connect :: uint64
  pb_Connack :: uint64
  pb_Disconnect :: uint64
  pb_Pingreq :: uint64
  pb_Pingresp :: uint64
  pb_Puback :: uint64
  pb_Pubcomp :: uint64
  pb_Publish :: uint64
  pb_Pubrec :: uint64
  pb_Pubrel :: uint64
  pb_Suback :: uint64
  pb_Subscribe :: uint64
  pb_Unsuback :: uint64
  pb_Unsubscribe :: uint64
  pb_Total :: uint64

definition PacketBytes_zero :: PacketBytes where
  "PacketBytes_zero = \<lparr>pb_Auth = 0, pb_Connect = 0, pb_Connack = 0, pb_Disconnect = 0, pb_Pingreq = 0, pb_Pingresp = 0, pb_Puback = 0, pb_Pubcomp = 0, pb_Publish = 0, pb_Pubrec = 0, pb_Pubrel = 0, pb_Suback = 0, pb_Subscribe = 0, pb_Unsuback = 0, pb_Unsubscribe = 0, pb_Total = 0\<rparr>"

definition PacketBytes_add :: "Packet \<Rightarrow> uint64 \<Rightarrow> PacketBytes \<Rightarrow> PacketBytes" where
  "PacketBytes_add pt n p =
    (let p = (case pt of
         PAuth _ \<Rightarrow> p\<lparr>pb_Auth := pb_Auth p + n\<rparr>
       | PConnect _ \<Rightarrow> p\<lparr>pb_Connect := pb_Connect p + n\<rparr>
       | PConnack _ \<Rightarrow> p\<lparr>pb_Connack := pb_Connack p + n\<rparr>
       | PDisconnect _ \<Rightarrow> p\<lparr>pb_Disconnect := pb_Disconnect p + n\<rparr>
       | PPingreq _ \<Rightarrow> p\<lparr>pb_Pingreq := pb_Pingreq p + n\<rparr>
       | PPingresp _ \<Rightarrow> p\<lparr>pb_Pingresp := pb_Pingresp p + n\<rparr>
       | PPuback _ \<Rightarrow> p\<lparr>pb_Puback := pb_Puback p + n\<rparr>
       | PPubcomp _ \<Rightarrow> p\<lparr>pb_Pubcomp := pb_Pubcomp p + n\<rparr>
       | PPublish _ \<Rightarrow> p\<lparr>pb_Publish := pb_Publish p + n\<rparr>
       | PPubrec _ \<Rightarrow> p\<lparr>pb_Pubrec := pb_Pubrec p + n\<rparr>
       | PPubrel _ \<Rightarrow> p\<lparr>pb_Pubrel := pb_Pubrel p + n\<rparr>
       | PSuback _ \<Rightarrow> p\<lparr>pb_Suback := pb_Suback p + n\<rparr>
       | PSubscribe _ \<Rightarrow> p\<lparr>pb_Subscribe := pb_Subscribe p + n\<rparr>
       | PUnsuback _ \<Rightarrow> p\<lparr>pb_Unsuback := pb_Unsuback p + n\<rparr>
       | PUnsubscribe _ \<Rightarrow> p\<lparr>pb_Unsubscribe := pb_Unsubscribe p + n\<rparr>)
     in p\<lparr>pb_Total := pb_Total p + n\<rparr>)"

definition PacketBytes_copy :: "PacketBytes \<Rightarrow> PacketBytes" where
  "PacketBytes_copy p =
    \<lparr>pb_Auth = 0, pb_Connect = pb_Connect p, pb_Connack = pb_Connack p, pb_Disconnect = pb_Disconnect p, pb_Pingreq = pb_Pingreq p, pb_Pingresp = pb_Pingresp p, pb_Puback = pb_Puback p, pb_Pubcomp = pb_Pubcomp p, pb_Publish = pb_Publish p, pb_Pubrec = pb_Pubrec p, pb_Pubrel = pb_Pubrel p, pb_Suback = pb_Suback p, pb_Subscribe = pb_Subscribe p, pb_Unsuback = pb_Unsuback p, pb_Unsubscribe = pb_Unsubscribe p, pb_Total = pb_Total p\<rparr>"

record PacketStats =
  BytesReceived :: PacketBytes
  ReceivedTotal :: PacketBytes
  BytesSent :: PacketBytes
  SentTotal :: PacketBytes

definition PacketStats_zero :: PacketStats where
  "PacketStats_zero = \<lparr>BytesReceived = PacketBytes_zero, ReceivedTotal = PacketBytes_zero, BytesSent = PacketBytes_zero, SentTotal = PacketBytes_zero\<rparr>"

definition PacketStats_add :: "Packet \<Rightarrow> bool \<Rightarrow> PacketStats \<Rightarrow> PacketStats" where
  "PacketStats_add pt receive p =
    (let b = ucast (TotalBytes pt)
     in if receive then p\<lparr>BytesReceived := PacketBytes_add pt b (BytesReceived p), ReceivedTotal := PacketBytes_add pt 1 (ReceivedTotal p)\<rparr>
        else p\<lparr>BytesSent := PacketBytes_add pt b (BytesSent p), SentTotal := PacketBytes_add pt 1 (SentTotal p)\<rparr>)"

definition PacketStats_copy :: "PacketStats \<Rightarrow> PacketStats" where
  "PacketStats_copy p = \<lparr>BytesReceived = PacketBytes_copy (BytesReceived p), ReceivedTotal = PacketBytes_copy (ReceivedTotal p),
    BytesSent = PacketBytes_copy (BytesSent p), SentTotal = PacketBytes_copy (SentTotal p)\<rparr>"

record ConnectionStats =
  ConnectedTotal :: uint64
  DisconnectedTotal :: uint64
  SessionCreatedTotal :: uint64
  st_TakenOver :: uint64
  st_Expired :: uint64
  st_Normal :: uint64
  ActiveCurrent :: uint64
  InactiveCurrent :: uint64

record DroppedTotal =
  dr_Internal :: uint64
  dr_ExceedsMaxPacketSize :: uint64
  dr_QueueFull :: uint64
  dr_Expired :: uint64
  dr_InflightExpired :: uint64

text \<open>The errors of the queue are the first four cases; any other error counts as internal.\<close>

definition DroppedTotal_messageDropped :: "dropErr option \<Rightarrow> DroppedTotal \<Rightarrow> DroppedTotal" where
  "DroppedTotal_messageDropped err d =
    (case err of
       Some ErrDropExceedsMaxPacketSize \<Rightarrow> d\<lparr>dr_ExceedsMaxPacketSize := dr_ExceedsMaxPacketSize d + 1\<rparr>
     | Some ErrDropQueueFull \<Rightarrow> d\<lparr>dr_QueueFull := dr_QueueFull d + 1\<rparr>
     | Some ErrDropExpired \<Rightarrow> d\<lparr>dr_Expired := dr_Expired d + 1\<rparr>
     | Some ErrDropExpiredInflight \<Rightarrow> d\<lparr>dr_InflightExpired := dr_InflightExpired d + 1\<rparr>
     | None \<Rightarrow> d\<lparr>dr_Internal := dr_Internal d + 1\<rparr>)"

record MessageQosStats =
  mq_Dropped :: DroppedTotal
  mq_Received :: uint64
  mq_Sent :: uint64

record MessageStats =
  ms_Qos0 :: MessageQosStats
  ms_Qos1 :: MessageQosStats
  ms_Qos2 :: MessageQosStats
  InflightCurrent :: uint64
  QueuedCurrent :: uint64

definition MessageQosStats_zero :: MessageQosStats where
  "MessageQosStats_zero = \<lparr>mq_Dropped = \<lparr>dr_Internal = 0, dr_ExceedsMaxPacketSize = 0, dr_QueueFull = 0, dr_Expired = 0, dr_InflightExpired = 0\<rparr>,
    mq_Received = 0, mq_Sent = 0\<rparr>"

definition MessageStats_zero :: MessageStats where
  "MessageStats_zero = \<lparr>ms_Qos0 = MessageQosStats_zero, ms_Qos1 = MessageQosStats_zero, ms_Qos2 = MessageQosStats_zero,
    InflightCurrent = 0, QueuedCurrent = 0\<rparr>"

definition MessageQosStats_GetDroppedTotal :: "MessageQosStats \<Rightarrow> uint64" where
  "MessageQosStats_GetDroppedTotal m = dr_Internal (mq_Dropped m) + dr_Expired (mq_Dropped m) + dr_ExceedsMaxPacketSize (mq_Dropped m) +
    dr_QueueFull (mq_Dropped m) + dr_InflightExpired (mq_Dropped m)"

definition MessageStats_GetDroppedTotal :: "MessageStats \<Rightarrow> uint64" where
  "MessageStats_GetDroppedTotal m =
    MessageQosStats_GetDroppedTotal (ms_Qos0 m) + MessageQosStats_GetDroppedTotal (ms_Qos1 m) + MessageQosStats_GetDroppedTotal (ms_Qos2 m)"

section \<open>The manager\<close>

record GlobalStats =
  gs_Connection :: ConnectionStats
  gs_Packet :: PacketStats
  gs_Message :: MessageStats

record 'u ClientStats =
  cs_Packet :: PacketStats
  cs_Message :: MessageStats
  cs_Subscription :: 'u

record 'u statsManager =
  totalStats :: GlobalStats
  clientStats :: "bytes \<rightharpoonup> 'u ClientStats"

definition newStatsManager :: "'u statsManager" where
  "newStatsManager =
    \<lparr>totalStats = \<lparr>gs_Connection = \<lparr>ConnectedTotal = 0, DisconnectedTotal = 0, SessionCreatedTotal = 0, st_TakenOver = 0, st_Expired = 0,
        st_Normal = 0, ActiveCurrent = 0, InactiveCurrent = 0\<rparr>, gs_Packet = PacketStats_zero, gs_Message = MessageStats_zero\<rparr>,
     clientStats = Map.empty\<rparr>"

definition stats_of :: "(bytes \<Rightarrow> 'u) \<Rightarrow> bytes \<Rightarrow> 'u statsManager \<Rightarrow> 'u ClientStats" where
  "stats_of subs clientID s =
    (case clientStats s clientID of
       Some stats \<Rightarrow> stats
     | None \<Rightarrow> \<lparr>cs_Packet = PacketStats_zero, cs_Message = MessageStats_zero, cs_Subscription = subs clientID\<rparr>)"

text \<open>\<^verbatim>\<open>getClientStats\<close> creates the entry of a client that has none, and the caller changes it in place.\<close>

definition getClientStats :: "(bytes \<Rightarrow> 'u) \<Rightarrow> bytes \<Rightarrow> ('u ClientStats \<Rightarrow> 'u ClientStats) \<Rightarrow> 'u statsManager \<Rightarrow> 'u statsManager" where
  "getClientStats subs clientID f s = s\<lparr>clientStats := (clientStats s)(clientID \<mapsto> f (stats_of subs clientID s))\<rparr>"

definition upd_total :: "(GlobalStats \<Rightarrow> GlobalStats) \<Rightarrow> 'u statsManager \<Rightarrow> 'u statsManager" where
  "upd_total f s = s\<lparr>totalStats := f (totalStats s)\<rparr>"

definition upd_connection :: "(ConnectionStats \<Rightarrow> ConnectionStats) \<Rightarrow> 'u statsManager \<Rightarrow> 'u statsManager" where
  "upd_connection f = upd_total (\<lambda>t. t\<lparr>gs_Connection := f (gs_Connection t)\<rparr>)"

definition upd_message :: "(MessageStats \<Rightarrow> MessageStats) \<Rightarrow> 'u statsManager \<Rightarrow> 'u statsManager" where
  "upd_message f = upd_total (\<lambda>t. t\<lparr>gs_Message := f (gs_Message t)\<rparr>)"

definition clientPacketReceived :: "(bytes \<Rightarrow> 'u) \<Rightarrow> Packet \<Rightarrow> bytes \<Rightarrow> 'u statsManager \<Rightarrow> 'u statsManager" where
  "clientPacketReceived subs packet clientID = getClientStats subs clientID (\<lambda>c. c\<lparr>cs_Packet := PacketStats_add packet True (cs_Packet c)\<rparr>)"

definition clientPacketSent :: "(bytes \<Rightarrow> 'u) \<Rightarrow> Packet \<Rightarrow> bytes \<Rightarrow> 'u statsManager \<Rightarrow> 'u statsManager" where
  "clientPacketSent subs packet clientID = getClientStats subs clientID (\<lambda>c. c\<lparr>cs_Packet := PacketStats_add packet False (cs_Packet c)\<rparr>)"

definition packetReceived :: "(bytes \<Rightarrow> 'u) \<Rightarrow> Packet \<Rightarrow> bytes \<Rightarrow> 'u statsManager \<Rightarrow> 'u statsManager" where
  "packetReceived subs packet clientID s =
    clientPacketReceived subs packet clientID (upd_total (\<lambda>t. t\<lparr>gs_Packet := PacketStats_add packet True (gs_Packet t)\<rparr>) s)"

definition packetSent :: "(bytes \<Rightarrow> 'u) \<Rightarrow> Packet \<Rightarrow> bytes \<Rightarrow> 'u statsManager \<Rightarrow> 'u statsManager" where
  "packetSent subs packet clientID s =
    clientPacketSent subs packet clientID (upd_total (\<lambda>t. t\<lparr>gs_Packet := PacketStats_add packet False (gs_Packet t)\<rparr>) s)"

definition clientConnected :: "'u statsManager \<Rightarrow> 'u statsManager" where
  "clientConnected = upd_connection (\<lambda>c. c\<lparr>ConnectedTotal := ConnectedTotal c + 1\<rparr>)"

definition sessionInActive :: "'u statsManager \<Rightarrow> 'u statsManager" where
  "sessionInActive = upd_connection (\<lambda>c. c\<lparr>ActiveCurrent := ActiveCurrent c - 1, InactiveCurrent := InactiveCurrent c + 1\<rparr>)"

definition clientDisconnected :: "'u statsManager \<Rightarrow> 'u statsManager" where
  "clientDisconnected s = sessionInActive (upd_connection (\<lambda>c. c\<lparr>DisconnectedTotal := DisconnectedTotal c + 1\<rparr>) s)"

definition sessionActive :: "bool \<Rightarrow> 'u statsManager \<Rightarrow> 'u statsManager" where
  "sessionActive create s =
    upd_connection (\<lambda>c. c\<lparr>ActiveCurrent := ActiveCurrent c + 1\<rparr>)
      (if create then upd_connection (\<lambda>c. c\<lparr>SessionCreatedTotal := SessionCreatedTotal c + 1\<rparr>) s
       else upd_connection (\<lambda>c. c\<lparr>InactiveCurrent := InactiveCurrent c - 1\<rparr>) s)"

datatype termination_reason = NormalTermination | TakenOverTermination | ExpiredTermination

definition sessionTerminated :: "bytes \<Rightarrow> termination_reason \<Rightarrow> 'u statsManager \<Rightarrow> 'u statsManager" where
  "sessionTerminated clientID reason s =
    (let s = upd_connection (\<lambda>c. case reason of
           NormalTermination \<Rightarrow> c\<lparr>st_Normal := st_Normal c + 1\<rparr>
         | ExpiredTermination \<Rightarrow> c\<lparr>st_Expired := st_Expired c + 1\<rparr>
         | TakenOverTermination \<Rightarrow> c\<lparr>st_TakenOver := st_TakenOver c + 1\<rparr>) s;
         s = upd_connection (\<lambda>c. c\<lparr>InactiveCurrent := InactiveCurrent c - 1\<rparr>) s
     in s\<lparr>clientStats := (clientStats s)(clientID := None)\<rparr>)"

definition at_qos0 :: "(MessageQosStats \<Rightarrow> MessageQosStats) \<Rightarrow> MessageStats \<Rightarrow> MessageStats" where
  "at_qos0 f m = m\<lparr>ms_Qos0 := f (ms_Qos0 m)\<rparr>"

definition at_qos :: "byte \<Rightarrow> (MessageQosStats \<Rightarrow> MessageQosStats) \<Rightarrow> MessageStats \<Rightarrow> MessageStats" where
  "at_qos qos f m =
    (if qos = 0 then m\<lparr>ms_Qos0 := f (ms_Qos0 m)\<rparr>
     else if qos = 1 then m\<lparr>ms_Qos1 := f (ms_Qos1 m)\<rparr>
     else if qos = 2 then m\<lparr>ms_Qos2 := f (ms_Qos2 m)\<rparr>
     else m)"

definition on_message :: "(MessageStats \<Rightarrow> MessageStats) \<Rightarrow> 'u ClientStats \<Rightarrow> 'u ClientStats" where
  "on_message f c = c\<lparr>cs_Message := f (cs_Message c)\<rparr>"

definition messageDropped :: "(bytes \<Rightarrow> 'u) \<Rightarrow> byte \<Rightarrow> bytes \<Rightarrow> dropErr option \<Rightarrow> 'u statsManager \<Rightarrow> 'u statsManager" where
  "messageDropped subs qos clientID err s =
    (if qos \<le> 2 then
       let f = (\<lambda>q. q\<lparr>mq_Dropped := DroppedTotal_messageDropped err (mq_Dropped q)\<rparr>)
       in getClientStats subs clientID (on_message (at_qos qos f)) (upd_message (at_qos qos f) s)
     else s)"

text \<open>The counters of a client that are for quality of service 0 are incremented whatever the quality of service is.\<close>

definition messageReceived :: "(bytes \<Rightarrow> 'u) \<Rightarrow> byte \<Rightarrow> bytes \<Rightarrow> 'u statsManager \<Rightarrow> 'u statsManager" where
  "messageReceived subs qos clientID s =
    (if qos \<le> 2 then
       let f = (\<lambda>q. q\<lparr>mq_Received := mq_Received q + 1\<rparr>)
       in getClientStats subs clientID (on_message (at_qos0 f)) (upd_message (at_qos qos f) s)
     else s)"

definition messageSent :: "(bytes \<Rightarrow> 'u) \<Rightarrow> byte \<Rightarrow> bytes \<Rightarrow> 'u statsManager \<Rightarrow> 'u statsManager" where
  "messageSent subs qos clientID s =
    (if qos \<le> 2 then
       let f = (\<lambda>q. q\<lparr>mq_Sent := mq_Sent q + 1\<rparr>)
       in getClientStats subs clientID (on_message (at_qos0 f)) (upd_message (at_qos qos f) s)
     else s)"

definition addInflight :: "(bytes \<Rightarrow> 'u) \<Rightarrow> bytes \<Rightarrow> uint64 \<Rightarrow> 'u statsManager \<Rightarrow> 'u statsManager" where
  "addInflight subs clientID delta s =
    upd_message (\<lambda>m. m\<lparr>InflightCurrent := InflightCurrent m + 1\<rparr>)
      (getClientStats subs clientID (on_message (\<lambda>m. m\<lparr>InflightCurrent := InflightCurrent m + delta\<rparr>)) s)"

definition decInflight :: "(bytes \<Rightarrow> 'u) \<Rightarrow> bytes \<Rightarrow> uint64 \<Rightarrow> 'u statsManager \<Rightarrow> 'u statsManager" where
  "decInflight subs clientID delta s =
    (let s = getClientStats subs clientID (\<lambda>c. c) s in
     if InflightCurrent (cs_Message (stats_of subs clientID s)) = 0 then s
     else
       upd_message (\<lambda>m. m\<lparr>InflightCurrent := InflightCurrent m - delta\<rparr>)
         (getClientStats subs clientID (on_message (\<lambda>m. m\<lparr>InflightCurrent := InflightCurrent m - delta\<rparr>)) s))"



definition ConnectionStats_copy :: "ConnectionStats \<Rightarrow> ConnectionStats" where
  "ConnectionStats_copy c = \<lparr>ConnectedTotal = ConnectedTotal c, DisconnectedTotal = DisconnectedTotal c, SessionCreatedTotal = SessionCreatedTotal c,
    st_TakenOver = st_TakenOver c, st_Expired = st_Expired c, st_Normal = st_Normal c, ActiveCurrent = ActiveCurrent c,
    InactiveCurrent = InactiveCurrent c\<rparr>"

definition MessageQosStats_copy :: "MessageQosStats \<Rightarrow> MessageQosStats" where
  "MessageQosStats_copy m =
    \<lparr>mq_Dropped = \<lparr>dr_Internal = dr_Internal (mq_Dropped m), dr_ExceedsMaxPacketSize = dr_ExceedsMaxPacketSize (mq_Dropped m),
       dr_QueueFull = dr_QueueFull (mq_Dropped m), dr_Expired = dr_Expired (mq_Dropped m), dr_InflightExpired = dr_InflightExpired (mq_Dropped m)\<rparr>,
     mq_Received = mq_Received m, mq_Sent = mq_Sent m\<rparr>"

definition MessageStats_copy :: "MessageStats \<Rightarrow> MessageStats" where
  "MessageStats_copy m = \<lparr>ms_Qos0 = MessageQosStats_copy (ms_Qos0 m), ms_Qos1 = MessageQosStats_copy (ms_Qos1 m), ms_Qos2 = MessageQosStats_copy (ms_Qos2 m),
    InflightCurrent = InflightCurrent m, QueuedCurrent = QueuedCurrent m\<rparr>"

definition ClientStats_GetDroppedTotal :: "'u ClientStats \<Rightarrow> uint64" where
  "ClientStats_GetDroppedTotal c = MessageQosStats_GetDroppedTotal (ms_Qos0 (cs_Message c)) +
    MessageQosStats_GetDroppedTotal (ms_Qos1 (cs_Message c)) + MessageQosStats_GetDroppedTotal (ms_Qos2 (cs_Message c))"

definition GetGlobalStats :: "'u statsManager \<Rightarrow> GlobalStats" where
  "GetGlobalStats s = \<lparr>gs_Connection = ConnectionStats_copy (gs_Connection (totalStats s)), gs_Packet = PacketStats_copy (gs_Packet (totalStats s)),
    gs_Message = MessageStats_copy (gs_Message (totalStats s))\<rparr>"

definition GetClientStats :: "(bytes \<Rightarrow> 'u) \<Rightarrow> bytes \<Rightarrow> 'u statsManager \<Rightarrow> 'u ClientStats option" where
  "GetClientStats subs clientID s =
    (case clientStats s clientID of
       None \<Rightarrow> None
     | Some stats \<Rightarrow> Some \<lparr>cs_Packet = PacketStats_copy (cs_Packet stats), cs_Message = MessageStats_copy (cs_Message stats), cs_Subscription = subs clientID\<rparr>)"

section \<open>The notifier of a queue\<close>



section \<open>Totals\<close>

definition packet_sum :: "PacketBytes \<Rightarrow> uint64" where
  "packet_sum p = pb_Auth p + pb_Connect p + pb_Connack p + pb_Disconnect p + pb_Pingreq p + pb_Pingresp p + pb_Puback p + pb_Pubcomp p + pb_Publish p +
    pb_Pubrec p + pb_Pubrel p + pb_Suback p + pb_Subscribe p + pb_Unsuback p + pb_Unsubscribe p"

lemma PacketBytes_add_sum: "packet_sum (PacketBytes_add pt n p) = packet_sum p + n" "pb_Total (PacketBytes_add pt n p) = pb_Total p + n"
  by (cases pt; simp add: PacketBytes_add_def packet_sum_def)+

lemma PacketStats_add_totals:
  assumes "pb_Total (BytesReceived p) = packet_sum (BytesReceived p)" "pb_Total (BytesSent p) = packet_sum (BytesSent p)"
    "pb_Total (ReceivedTotal p) = packet_sum (ReceivedTotal p)" "pb_Total (SentTotal p) = packet_sum (SentTotal p)"
  shows "pb_Total (BytesReceived (PacketStats_add pt r p)) = packet_sum (BytesReceived (PacketStats_add pt r p))"
    "pb_Total (BytesSent (PacketStats_add pt r p)) = packet_sum (BytesSent (PacketStats_add pt r p))"
    "pb_Total (ReceivedTotal (PacketStats_add pt r p)) = packet_sum (ReceivedTotal (PacketStats_add pt r p))"
    "pb_Total (SentTotal (PacketStats_add pt r p)) = packet_sum (SentTotal (PacketStats_add pt r p))"
  using assms by (simp_all add: PacketStats_add_def Let_def PacketBytes_add_sum)

text \<open>A snapshot has every counter of connections and messages, and a dropped message adds one to the total of its client.\<close>

lemma copies_faithful: "ConnectionStats_copy c = c" "MessageStats_copy m = m"
  by (simp_all add: ConnectionStats_copy_def MessageStats_copy_def MessageQosStats_copy_def)

lemma dropped_counted:
  assumes "qos \<le> 2"
  shows "ClientStats_GetDroppedTotal (stats_of subs cid (messageDropped subs qos cid err s)) = ClientStats_GetDroppedTotal (stats_of subs cid s) + 1"
proof -
  have d: "MessageQosStats_GetDroppedTotal (q\<lparr>mq_Dropped := DroppedTotal_messageDropped err (mq_Dropped q)\<rparr>) = MessageQosStats_GetDroppedTotal q + 1" for q
    by (simp add: MessageQosStats_GetDroppedTotal_def DroppedTotal_messageDropped_def split: option.splits dropErr.splits)
  from assms have "qos = 0 \<or> qos = 1 \<or> qos = 2" by (cases "qos = 0"; cases "qos = 1"; cases "qos = 2") (unat_arith | simp)+
  then show ?thesis
    using assms by (auto simp: messageDropped_def ClientStats_GetDroppedTotal_def at_qos_def on_message_def stats_of_def getClientStats_def upd_message_def
        upd_total_def Let_def d)
qed

text \<open>What a reader of the statistics gets has no count of authentication packets.\<close>

lemma copy_loses_auth:
  assumes "pb_Total p = packet_sum p" "pb_Auth p \<noteq> 0"
  shows "pb_Total (PacketBytes_copy p) \<noteq> packet_sum (PacketBytes_copy p)"
  using assms by (simp add: PacketBytes_copy_def packet_sum_def add.assoc)

text \<open>A message of quality of service 1 or 2 counts as one of quality of service 0 in the statistics of its client.\<close>

lemma client_qos_miscounted:
  "mq_Received (ms_Qos1 (cs_Message (stats_of subs cid (messageReceived subs 1 cid newStatsManager)))) = 0 \<and>
   mq_Received (ms_Qos0 (cs_Message (stats_of subs cid (messageReceived subs 1 cid newStatsManager)))) = 1 \<and>
   mq_Received (ms_Qos1 (gs_Message (totalStats (messageReceived subs 1 cid newStatsManager)))) = 1"
  by (simp add: messageReceived_def getClientStats_def stats_of_def newStatsManager_def on_message_def at_qos0_def at_qos_def upd_message_def upd_total_def
      MessageStats_zero_def MessageQosStats_zero_def Let_def)

text \<open>Reading several messages at once adds one to the broker's number of messages in flight; their acknowledgements take each of them away.\<close>

lemma inflight_total_wraps:
  "InflightCurrent (gs_Message (totalStats (decInflight subs cid 1 (decInflight subs cid 1 (addInflight subs cid 2 newStatsManager))))) = - 1"
  by (simp add: addInflight_def decInflight_def getClientStats_def stats_of_def newStatsManager_def on_message_def upd_message_def upd_total_def
      MessageStats_zero_def Let_def)

text \<open>The messages queued for a terminated session stay in the broker's total.\<close>

lemma terminated_queue_stays:
  "QueuedCurrent (gs_Message (totalStats (sessionTerminated cid reason s))) = QueuedCurrent (gs_Message (totalStats s)) \<and>
    clientStats (sessionTerminated cid reason s) cid = None"
  by (simp add: sessionTerminated_def upd_connection_def upd_total_def Let_def)

section \<open>The gauges of a client\<close>



lemma stats_of_simps [simp]:
  "stats_of subs cid (getClientStats subs cid f s) = f (stats_of subs cid s)"
  "stats_of subs cid (upd_message g s) = stats_of subs cid s"
  by (simp_all add: stats_of_def getClientStats_def upd_message_def upd_total_def)

lemma cs_on_message [simp]: "cs_Message (on_message f c) = f (cs_Message c)"
  by (simp add: on_message_def)

lemma gauges_at_qos [simp]: "QueuedCurrent (at_qos qos f m) = QueuedCurrent m" "InflightCurrent (at_qos qos f m) = InflightCurrent m"
  by (simp_all add: at_qos_def)

definition msg_of :: "Notify \<Rightarrow> int" where
  "msg_of n = (case n of NotifyMsgQueueAdded d \<Rightarrow> d | _ \<Rightarrow> 0)"

definition infl_of :: "Notify \<Rightarrow> int" where
  "infl_of n = (case n of NotifyInflightAdded d \<Rightarrow> d | _ \<Rightarrow> 0)"













lemma notes_of [simp]:
  "msg_of (NotifyDropped e err) = 0" "infl_of (NotifyDropped e err) = 0" "msg_of (NotifyInflightAdded d) = 0" "infl_of (NotifyMsgQueueAdded d) = 0"
  "msg_of (NotifyMsgQueueAdded d) = d" "infl_of (NotifyInflightAdded d) = d"
  by (simp_all add: msg_of_def infl_of_def)




end
