(* ===== verification/Admin.thy ===== *)
theory Admin
  imports Accounts Stats Sessions Frp_Strings
begin

text \<open>
  The administration plug-in, \<^verbatim>\<open>plugin/admin\<close>: the store of clients and subscriptions that its hooks keep (\<^verbatim>\<open>store.go\<close>, \<^verbatim>\<open>hooks.go\<close>), on two indexes of
  theory \<open>Accounts\<close>, and the requests it serves (\<^verbatim>\<open>client.go\<close>, \<^verbatim>\<open>subscription.go\<close>, \<^verbatim>\<open>publish.go\<close>) on the broker of theory \<open>Sessions\<close>.  Clients are shared by
  pointer, so that listing them, which fills in their statistics, changes the entries of the index.  Times are integers.
\<close>

unbundle bit_operations_syntax

section \<open>The store\<close>

text \<open>What the interface \<^verbatim>\<open>server.Client\<close> tells about a client.\<close>

record client_view =
  cv_ClientID :: bytes
  cv_Username :: bytes
  cv_KeepAlive :: uint16
  cv_SessionExpiry :: uint32
  cv_MaxInflight :: uint16
  cv_Version :: byte
  cv_RemoteAddr :: bytes
  cv_LocalAddr :: bytes
  cv_ConnectedAt :: int

record admin_Client =
  ci_ClientId :: bytes
  ci_Username :: bytes
  ci_KeepAlive :: "32 word"
  ci_Version :: "32 word"
  ci_RemoteAddr :: bytes
  ci_LocalAddr :: bytes
  ci_ConnectedAt :: int
  ci_DisconnectedAt :: "int option"
  ci_SessionExpiry :: uint32
  ci_MaxInflight :: uint32
  ci_InflightLen :: uint32
  ci_MaxQueue :: uint32
  ci_QueueLen :: uint32
  ci_SubscriptionsCurrent :: uint32
  ci_SubscriptionsTotal :: uint32
  ci_PacketsReceivedBytes :: uint64
  ci_PacketsReceivedNums :: uint64
  ci_PacketsSendBytes :: uint64
  ci_PacketsSendNums :: uint64
  ci_MessageDropped :: uint64

record admin_Subscription =
  as_TopicName :: bytes
  as_Id :: uint32
  as_Qos :: uint32
  as_NoLocal :: bool
  as_RetainAsPublished :: bool
  as_RetainHandling :: uint32
  as_ClientId :: bytes

record admin_store =
  clientIndexer :: "admin_Client Indexer"
  subIndexer :: "admin_Subscription Indexer"


definition subscription_info :: "bytes \<Rightarrow> Subscription \<Rightarrow> admin_Subscription" where
  "subscription_info clientID sub =
    \<lparr>as_TopicName = Subscription_GetFullTopicName sub, as_Id = sb_ID sub, as_Qos = ucast (sb_QoS sub), as_NoLocal = sb_NoLocal sub,
     as_RetainAsPublished = sb_RetainAsPublished sub, as_RetainHandling = ucast (sb_RetainHandling sub), as_ClientId = clientID\<rparr>"

definition sub_key :: "bytes \<Rightarrow> bytes \<Rightarrow> bytes" where
  "sub_key clientID topic = clientID @ str ''_'' @ topic"

definition addSubscription :: "bytes \<Rightarrow> Subscription \<Rightarrow> admin_store \<Rightarrow> admin_store" where
  "addSubscription clientID sub st =
    st\<lparr>subIndexer := Indexer_Set (sub_key clientID (Subscription_GetFullTopicName sub)) (subscription_info clientID sub) (subIndexer st)\<rparr>"

definition removeSubscription :: "bytes \<Rightarrow> bytes \<Rightarrow> admin_store \<Rightarrow> admin_store" where
  "removeSubscription clientID topicName st = st\<lparr>subIndexer := Indexer_Remove (sub_key clientID topicName) (subIndexer st)\<rparr>"

definition newClientInfo :: "client_view \<Rightarrow> uint32 \<Rightarrow> admin_Client" where
  "newClientInfo client maxQueue =
    \<lparr>ci_ClientId = cv_ClientID client, ci_Username = cv_Username client, ci_KeepAlive = ucast (cv_KeepAlive client), ci_Version = ucast (cv_Version client),
     ci_RemoteAddr = cv_RemoteAddr client, ci_LocalAddr = cv_LocalAddr client, ci_ConnectedAt = cv_ConnectedAt client, ci_DisconnectedAt = None,
     ci_SessionExpiry = cv_SessionExpiry client, ci_MaxInflight = ucast (cv_MaxInflight client), ci_InflightLen = 0, ci_MaxQueue = maxQueue, ci_QueueLen = 0,
     ci_SubscriptionsCurrent = 0, ci_SubscriptionsTotal = 0, ci_PacketsReceivedBytes = 0, ci_PacketsReceivedNums = 0, ci_PacketsSendBytes = 0,
     ci_PacketsSendNums = 0, ci_MessageDropped = 0\<rparr>"

definition addClient :: "uint32 \<Rightarrow> client_view \<Rightarrow> admin_store \<Rightarrow> admin_store" where
  "addClient maxQueue client st =
    (let c = newClientInfo client maxQueue in st\<lparr>clientIndexer := Indexer_Set (ci_ClientId c) c (clientIndexer st)\<rparr>)"

definition setClientDisconnected :: "int \<Rightarrow> bytes \<Rightarrow> admin_store \<Rightarrow> admin_store" where
  "setClientDisconnected now clientID st =
    (case Indexer_GetByID clientID (clientIndexer st) of
       None \<Rightarrow> st
     | Some c \<Rightarrow> st\<lparr>clientIndexer := Indexer_Set clientID (c\<lparr>ci_DisconnectedAt := Some now\<rparr>) (clientIndexer st)\<rparr>)"

definition removeClient :: "bytes \<Rightarrow> admin_store \<Rightarrow> admin_store" where
  "removeClient clientID st = st\<lparr>clientIndexer := Indexer_Remove clientID (clientIndexer st)\<rparr>"

text \<open>The statistics of a client, as \<open>GetClientStats\<close> of theory \<open>Stats\<close> gives them.\<close>

type_synonym stats_reader = "bytes \<Rightarrow> Sub_Store.Stats ClientStats option"

definition fillClientInfo :: "stats_reader \<Rightarrow> admin_Client \<Rightarrow> admin_Client" where
  "fillClientInfo stsReader c =
    (case stsReader (ci_ClientId c) of
       None \<Rightarrow> c
     | Some sts \<Rightarrow> c\<lparr>ci_SubscriptionsCurrent := ucast (SubscriptionsCurrent (cs_Subscription sts)),
         ci_SubscriptionsTotal := ucast (SubscriptionsTotal (cs_Subscription sts)),
         ci_PacketsReceivedBytes := pb_Total (BytesReceived (cs_Packet sts)), ci_PacketsReceivedNums := pb_Total (ReceivedTotal (cs_Packet sts)),
         ci_PacketsSendBytes := pb_Total (BytesSent (cs_Packet sts)), ci_PacketsSendNums := pb_Total (SentTotal (cs_Packet sts)),
         ci_MessageDropped := MessageStats_GetDroppedTotal (cs_Message sts), ci_InflightLen := ucast (InflightCurrent (cs_Message sts)),
         ci_QueueLen := ucast (QueuedCurrent (cs_Message sts))\<rparr>)"


definition GetClients :: "stats_reader \<Rightarrow> uint64 \<Rightarrow> uint64 \<Rightarrow> admin_store \<Rightarrow> (admin_Client list \<times> uint32) \<times> admin_store" where
  "GetClients sts page pageSize st =
    (case GetOffsetN page pageSize of (offset, n) \<Rightarrow>
     let ix = clientIndexer st;
         visited = Indexer_Iterate offset n ix;
         ix' = ix\<lparr>ix_rows := map (\<lambda>(e, c). if e \<in> set (map fst visited) then (e, fillClientInfo sts c) else (e, c)) (ix_rows ix)\<rparr>
     in ((map (\<lambda>(e, c). fillClientInfo sts c) visited, of_nat (Indexer_Len ix)), st\<lparr>clientIndexer := ix'\<rparr>))"

definition GetSubscriptions :: "uint64 \<Rightarrow> uint64 \<Rightarrow> admin_store \<Rightarrow> admin_Subscription list \<times> uint32" where
  "GetSubscriptions page pageSize st =
    (case GetOffsetN page pageSize of (offset, n) \<Rightarrow>
      (map snd (Indexer_Iterate offset n (subIndexer st)), of_nat (Indexer_Len (subIndexer st))))"

section \<open>The hooks\<close>

text \<open>The events of the broker that the plug-in is told about, after the hooks it wraps.\<close>

datatype admin_event =
  OnSessionCreated client_view
| OnSessionResumed client_view
| OnClosed int bytes
| OnSessionTerminated bytes
| OnSubscribed bytes Subscription
| OnUnsubscribed bytes bytes

definition admin_hook :: "uint32 \<Rightarrow> admin_event \<Rightarrow> admin_store \<Rightarrow> admin_store" where
  "admin_hook maxQueue ev st =
    (case ev of
       OnSessionCreated client \<Rightarrow> addClient maxQueue client st
     | OnSessionResumed client \<Rightarrow> addClient maxQueue client st
     | OnClosed now clientID \<Rightarrow> setClientDisconnected now clientID st
     | OnSessionTerminated clientID \<Rightarrow> removeClient clientID st
     | OnSubscribed clientID sub \<Rightarrow> addSubscription clientID sub st
     | OnUnsubscribed clientID topicName \<Rightarrow> removeSubscription clientID topicName st)"

section \<open>The requests\<close>

definition client_List :: "stats_reader \<Rightarrow> uint32 \<Rightarrow> uint32 \<Rightarrow> admin_store \<Rightarrow> (admin_Client list \<times> uint32) \<times> admin_store" where
  "client_List sts reqPage reqPageSize st = (case GetPage reqPage reqPageSize of (page, pageSize) \<Rightarrow> GetClients sts page pageSize st)"


text \<open>A connected client is told to close; the first component says so.\<close>

definition client_Delete :: "bytes \<Rightarrow> bool \<Rightarrow> broker \<Rightarrow> (bool \<times> broker) res" where
  "client_Delete clientID cleanSession b =
    (if clientID = [] then Inl (ErrText ''invalid client_id'')
     else if cleanSession then TerminateSession clientID b
     else Inr (clientID \<in> sv_clients (br_srv b), b))"

definition sub_List :: "uint32 \<Rightarrow> uint32 \<Rightarrow> admin_store \<Rightarrow> admin_Subscription list \<times> uint32" where
  "sub_List reqPage reqPageSize st = (case GetPage reqPage reqPageSize of (page, pageSize) \<Rightarrow> GetSubscriptions page pageSize st)"

fun filter_types :: "bytes list \<Rightarrow> byte \<Rightarrow> byte res" where
  "filter_types [] t = Inr t"
| "filter_types (v # types) t =
    (if v = [] then filter_types types t
     else case ParseInt v of
       Inl _ \<Rightarrow> Inl (ErrText ''invalid filter_type'')
     | Inr i \<Rightarrow>
        let i = (word_of_int i :: 32 word)
        in if i = 1 then filter_types types (t OR TypeSYS)
           else if i = 2 then filter_types types (t OR TypeShared)
           else if i = 3 then filter_types types (t OR TypeNonShared)
           else Inl (ErrText ''invalid filter_type''))"

record filter_request =
  fr_ClientId :: bytes
  fr_FilterType :: bytes
  fr_MatchType :: "32 word"
  fr_TopicName :: bytes
  fr_Limit :: "32 word"

definition filter_options :: "filter_request \<Rightarrow> IterationOptions res" where
  "filter_options req =
    rbind (if fr_FilterType req = [] then Inr TypeAll else filter_types (strings_Split 0x2C (fr_FilterType req)) 0) (\<lambda>iterType.
    let matchType = (if fr_MatchType req = 1 then MatchName else if fr_MatchType req = 2 then MatchFilter else 0);
        topic = fr_TopicName req
    in if topic = [] \<and> matchType \<noteq> 0 then Inl (ErrText ''invalid topic_name:cannot be empty while match_type Set'')
       else if topic \<noteq> [] \<and> matchType = 0 then Inl (ErrText ''invalid match_type:cannot be empty while topic_name Set'')
       else if topic \<noteq> [] \<and> \<not> ValidV5Topic topic then Inl (ErrText ''invalid topic_name'')
       else Inr \<lparr>it_Type = iterType, it_ClientID = fr_ClientId req, it_TopicName = topic, it_MatchType = matchType\<rparr>)"

text \<open>The function called on every subscription found, on the counter and the results.\<close>

definition filter_fn :: "32 word \<Rightarrow> bytes \<times> Subscription \<Rightarrow> 32 word \<times> admin_Subscription list \<Rightarrow> (32 word \<times> admin_Subscription list) \<times> bool" where
  "filter_fn lim cs s =
    (case (cs, s) of ((clientID, sub), (i, rs)) \<Rightarrow>
      ((i + 1,
        if i \<noteq> lim then rs @ [(subscription_info clientID sub)\<lparr>as_TopicName := GetFullTopicName (sb_ShareName sub) (sb_TopicFilter sub)\<rparr>] else rs), True))"

definition sub_Filter :: "filter_request \<Rightarrow> TrieDB \<Rightarrow> admin_Subscription list res" where
  "sub_Filter req db =
    rbind (filter_options req) (\<lambda>opts.
    if sint (fr_Limit req) > 1000 then Inl (ErrText ''invalid limit:limit too large, must <= 1000'')
    else
      let lim = (if fr_Limit req = 0 then 20 else fr_Limit req)
      in rbind (IterateLocked (filter_fn lim) opts db (0, [])) (\<lambda>(i, rs). Inr rs))"

text \<open>The subscriptions of a request become those of the broker; numbers are cut to bytes before they are validated.\<close>

definition to_subscription :: "admin_Subscription \<Rightarrow> Subscription" where
  "to_subscription v =
    (case SplitTopic (as_TopicName v) of (shareName, name) \<Rightarrow>
      \<lparr>sb_ShareName = shareName, sb_TopicFilter = name, sb_ID = as_Id v, sb_QoS = ucast (as_Qos v), sb_NoLocal = as_NoLocal v,
       sb_RetainAsPublished = as_RetainAsPublished v, sb_RetainHandling = ucast (as_RetainHandling v)\<rparr>)"

fun to_subscriptions :: "admin_Subscription list \<Rightarrow> Subscription list res" where
  "to_subscriptions [] = Inr []"
| "to_subscriptions (v # vs) =
    (let sub = to_subscription v
     in rbind (Subscription_Validate sub) (\<lambda>_. rbind (to_subscriptions vs) (\<lambda>subs. Inr (sub # subs))))"

definition sub_Subscribe :: "bytes \<Rightarrow> admin_Subscription list \<Rightarrow> TrieDB \<Rightarrow> (bool list \<times> TrieDB) res" where
  "sub_Subscribe clientID subscriptions db =
    (if clientID = [] then Inl (ErrText ''invalid client_id:cannot be empty'')
     else if subscriptions = [] then Inl (ErrText ''invalid subIndexer:zero length subIndexer'')
     else
       rbind (to_subscriptions subscriptions) (\<lambda>subs.
       rbind (SubscribeLocked clientID subs db) (\<lambda>(rs, db). Inr (map (\<lambda>(_, existed). \<not> existed) rs, db))))"

definition sub_Unsubscribe :: "bytes \<Rightarrow> bytes list \<Rightarrow> TrieDB \<Rightarrow> TrieDB res" where
  "sub_Unsubscribe clientID topics db =
    (if clientID = [] then Inl (ErrText ''invalid client_id:cannot be empty'')
     else if topics = [] then Inl (ErrText ''invalid topics:zero length topics'')
     else if \<not> list_all ValidV5Topic topics then Inl (ErrText ''invalid topics'')
     else UnsubscribeLocked clientID topics db)"

record PublishRequest =
  pr_TopicName :: bytes
  pr_Payload :: bytes
  pr_Qos :: uint32
  pr_Retained :: bool
  pr_ContentType :: bytes
  pr_CorrelationData :: bytes
  pr_MessageExpiry :: uint32
  pr_PayloadFormat :: uint32
  pr_ResponseTopic :: bytes
  pr_UserProperties :: "UserProperty list"

definition publish_message :: "PublishRequest \<Rightarrow> Message res" where
  "publish_message req =
    (if \<not> ValidTopicName False (pr_TopicName req) then Inl (ErrText ''invalid topic_name'')
     else if pr_Qos req > 2 then Inl (ErrText ''invalid qos'')
     else if pr_PayloadFormat req \<noteq> 0 \<and> pr_PayloadFormat req \<noteq> 1 then Inl (ErrText ''invalid payload_format'')
     else if pr_ResponseTopic req \<noteq> [] \<and> \<not> ValidV5Topic (pr_ResponseTopic req) then Inl (ErrText ''invalid response_topic'')
     else Inr \<lparr>msg_Dup = False, msg_QoS = ucast (pr_Qos req), msg_Retained = pr_Retained req, msg_Topic = pr_TopicName req, msg_Payload = pr_Payload req,
       msg_PacketID = 0, msg_ContentType = pr_ContentType req, msg_CorrelationData = Some (pr_CorrelationData req),
       msg_MessageExpiry = pr_MessageExpiry req, msg_PayloadFormat = ucast (pr_PayloadFormat req), msg_ResponseTopic = pr_ResponseTopic req,
       msg_SubscriptionIdentifier = [], msg_UserProperties = pr_UserProperties req\<rparr>)"

definition admin_Publish :: "(bytes \<Rightarrow> nat \<Rightarrow> nat) \<Rightarrow> int \<Rightarrow> PublishRequest \<Rightarrow> broker \<Rightarrow> broker res" where
  "admin_Publish Intn now req b = rbind (publish_message req) (\<lambda>msg. publishService_Publish Intn now msg b)"

section \<open>What the store shows\<close>

text \<open>The information about a client without its statistics.\<close>

definition unfilled :: "admin_Client \<Rightarrow> admin_Client" where
  "unfilled c = c\<lparr>ci_InflightLen := 0, ci_QueueLen := 0, ci_SubscriptionsCurrent := 0, ci_SubscriptionsTotal := 0, ci_PacketsReceivedBytes := 0,
    ci_PacketsReceivedNums := 0, ci_PacketsSendBytes := 0, ci_PacketsSendNums := 0, ci_MessageDropped := 0\<rparr>"

lemma unfilled_simps [simp]: "unfilled (fillClientInfo sts c) = unfilled c" "unfilled (newClientInfo v n) = newClientInfo v n"
  "unfilled (c\<lparr>ci_DisconnectedAt := d\<rparr>) = (unfilled c)\<lparr>ci_DisconnectedAt := d\<rparr>"
  by (simp_all add: unfilled_def fillClientInfo_def newClientInfo_def split: option.splits)



























definition sub_example :: "bytes \<Rightarrow> Subscription" where
  "sub_example t = \<lparr>sb_ShareName = [], sb_TopicFilter = t, sb_ID = 0, sb_QoS = 1, sb_NoLocal = False, sb_RetainAsPublished = False, sb_RetainHandling = 0\<rparr>"


text \<open>With an underscore in identifiers, two subscriptions of different clients share one entry.\<close>

lemma sub_key_clash: "sub_key (str ''a_b'') (str ''c'') = sub_key (str ''a'') (str ''b_c'')"
  by (simp add: sub_key_def str_def)

text \<open>The end of a session removes the client and leaves its subscriptions in the listing.\<close>

lemma terminated_subscriptions_stay: "subIndexer (admin_hook mq (OnSessionTerminated cid) st) = subIndexer st"
  by (simp add: admin_hook_def removeClient_def)

text \<open>The pages of a listing.\<close>

lemma client_List_page:
  assumes "0 < p" "0 < k" "p < 2 ^ 32" "k < 2 ^ 32" "length (ix_rows (clientIndexer st)) < 2 ^ 63"
  shows "fst (fst (client_List sts (word_of_nat p) (word_of_nat k) st)) =
    map (fillClientInfo sts) (take k (drop ((p - 1) * k) (map snd (ix_rows (clientIndexer st)))))"
  using GetPage_offset [OF assms(1-4)] assms(5)
  by (simp add: client_List_def GetClients_def Let_def Indexer_Iterate_spec take_map drop_map case_prod_unfold comp_def)

section \<open>Requests\<close>

text \<open>The function that collects the results of a filter skips the one result at the limit and keeps those after it.\<close>

lemma filter_fn_run:
  assumes "length xs < 2 ^ 31" "n < 2 ^ 31"
  shows "\<exists>rs. fold (\<lambda>x s. fst (filter_fn (word_of_nat n) x s)) xs (0, []) = (word_of_nat (length xs), rs) \<and>
    length rs = (if n < length xs then length xs - 1 else length xs)"
  using assms(1)
proof (induction xs rule: rev_induct)
  case (snoc x xs)
  let ?i = "word_of_nat (length xs) :: 32 word"
  have i: "?i = word_of_nat n \<longleftrightarrow> length xs = n"
  proof -
    have "unat ?i = length xs" by (rule unat_word_of_nat) (use snoc.prems in simp)
    moreover have "unat (word_of_nat n :: 32 word) = n" by (rule unat_word_of_nat) (use assms(2) in simp)
    ultimately show ?thesis by metis
  qed
  obtain rs where rs: "fold (\<lambda>x s. fst (filter_fn (word_of_nat n) x s)) xs (0, []) = (?i, rs)"
      "length rs = (if n < length xs then length xs - 1 else length xs)" using snoc by auto
  obtain c s where x: "x = (c, s)" by fastforce
  have "fst (filter_fn (word_of_nat n) x (?i, rs)) = (?i + 1, if length xs \<noteq> n then rs @
      [(subscription_info c s)\<lparr>as_TopicName := GetFullTopicName (sb_ShareName s) (sb_TopicFilter s)\<rparr>] else rs)"
    unfolding x filter_fn_def by (simp add: i)
  then show ?case using rs by (auto simp: add.commute)
qed simp

text \<open>Numbers of a request are cut to bytes before they are validated.\<close>

lemma qos_truncated: "sb_QoS (to_subscription \<lparr>as_TopicName = t, as_Id = 0, as_Qos = 256, as_NoLocal = False, as_RetainAsPublished = False,
    as_RetainHandling = 0, as_ClientId = []\<rparr>) = 0"
  by (simp add: to_subscription_def split: prod.split)

text \<open>What is subscribed through the interface is valid, and what is published has a quality of service and a format of the protocol.\<close>

lemma to_subscriptions_valid: "to_subscriptions vs = Inr subs \<Longrightarrow> sub \<in> set subs \<Longrightarrow> Subscription_Validate sub = Inr ()"
  by (induction vs arbitrary: subs) (auto simp: rbind_def Let_def split: sum.splits)

lemma publish_message_valid:
  assumes "publish_message req = Inr m"
  shows "ValidTopicName False (msg_Topic m) \<and> msg_QoS m \<le> 2 \<and> msg_PayloadFormat m \<le> 1 \<and> \<not> msg_Dup m"
proof -
  have q: "pr_Qos req \<le> 2" "pr_PayloadFormat req = 0 \<or> pr_PayloadFormat req = 1" "ValidTopicName False (pr_TopicName req)"
    "msg_QoS m = ucast (pr_Qos req)" "msg_PayloadFormat m = ucast (pr_PayloadFormat req)" "msg_Topic m = pr_TopicName req" "\<not> msg_Dup m"
    using assms by (auto simp: publish_message_def split: if_splits)
  have "pr_Qos req = 0 \<or> pr_Qos req = 1 \<or> pr_Qos req = 2" using q(1) by (simp add: word_le_nat_alt word_unat_eq_iff) linarith
  then show ?thesis using q by auto
qed

lemma publish_empty_topic: "ValidTopicName False []"
  by (subst ValidTopicName.simps) simp

text \<open>Three subscriptions and a limit of one: two are returned.\<close>

lemma filter_limit_exceeded:
  "case SubscribeLocked (str ''a'') [sub_example (str ''x''), sub_example (str ''y''), sub_example (str ''z'')] Sub_NewStore of
     Inr (rs, db) \<Rightarrow>
       (case sub_Filter \<lparr>fr_ClientId = [], fr_FilterType = [], fr_MatchType = 0, fr_TopicName = [], fr_Limit = 1\<rparr> db of
          Inr subs \<Rightarrow> length subs = 2
        | Inl _ \<Rightarrow> False)
   | Inl _ \<Rightarrow> False"
  by code_simp

end
