(* ===== verification/Spec2Isabelle.thy ===== *)
theory Spec2Isabelle
  imports Retained Limiter Connection Fed_Routing Frp_Vhost Frp_Ports Frp_Control Frp_Group Frp_Nathole Webdav Admin
begin

text \<open>
  \<^bold>\<open>A verification development for CRose\<close>

  CRose bundles several Go programs.  This development is about the three of them with logic of their own: the MQTT broker
  gmqtt (\<^verbatim>\<open>src/gmqtt\<close>), modelled as a whole with its federation, statistics, authentication and administration, the server
  side of the tunnel frp (\<^verbatim>\<open>src/frp\<close>), and the access control of the WebDAV server (\<^verbatim>\<open>src/webdav\<close>).

  \<^bold>\<open>The broker and its parts.\<close>  A client connects over TCP or a websocket; \<^verbatim>\<open>server/client.go\<close> reads control packets from the
  connection with the codec of \<^verbatim>\<open>pkg/packets\<close>, runs one handler per packet type, and writes packets back.  The connect
  exchange ends in \<^verbatim>\<open>registerClient\<close> of \<^verbatim>\<open>server/server.go\<close>, which creates a session or resumes one, and with it the three
  stores of the session: the message queue, the subscriptions and the set of unacknowledged packet identifiers.  A \<^verbatim>\<open>PUBLISH\<close>
  passes through topic aliases, the receive quota and the unack store, may become the retained message of its topic, and is
  handed to \<^verbatim>\<open>deliverMessage\<close>, which asks the subscription store for the matching subscriptions and adds the message to the
  queues.  The sending side of each client polls its queue, takes packet identifiers from a limiter and sends.  When the
  connection ends \<^verbatim>\<open>unregisterClient\<close> keeps or ends the session, and sends the will at once, later or not at all.  The queues
  report what they add and drop to the statistics.  Plug-ins hang on the hooks of the broker: authentication checks the accounts
  of a password file, administration keeps a listing of clients and subscriptions and serves requests on the broker, and
  federation tells other brokers about local subscriptions and forwards messages to them over streams of events.

  \<^bold>\<open>Theories and sources\<close> (all paths below \<^verbatim>\<open>src/gmqtt\<close> unless they say otherwise).

  \<^item> \<open>Prelude\<close>: machine integers as words of their width, byte slices as lists of 8-bit words, Go's error values as the
    datatype \<open>error\<close> (a panic is one of its values), results as \<open>error + 'a\<close> with \<open>rbind\<close>, Go maps as association lists.
  \<^item> \<open>Utf8\<close>, \<open>Wire\<close>, \<open>Topics\<close>: \<^verbatim>\<open>pkg/packets/packets.go\<close>.  \<open>Utf8\<close> has \<^verbatim>\<open>ValidUTF8\<close> over a model of \<^verbatim>\<open>utf8.DecodeRune\<close>; \<open>Wire\<close>
    the primitive readers and writers, with the locale \<open>codec\<close> (a reader inverts a writer and leaves the rest of the buffer)
    and its extension \<open>codec_loop\<close> for repeated fields; \<open>Topics\<close> the checks of names and filters, \<^verbatim>\<open>TopicMatch\<close> and
    \<^verbatim>\<open>SplitTopic\<close>, compared with definitions on the levels of a topic.
  \<^item> \<open>Props\<close>, \<open>Packets\<close>, \<open>Packet_Roundtrip\<close>: \<^verbatim>\<open>pkg/packets/properties.go\<close> and the fifteen packet files.  The property loops of a
    packet and of a will share the locale \<open>prop_loop\<close>; \<open>ok_Packet v\<close> describes the packets whose encoding reads back.
  \<^item> \<open>Message\<close>: \<^verbatim>\<open>message.go\<close>, conversions from and to \<^verbatim>\<open>PUBLISH\<close> and \<^verbatim>\<open>TotalBytes\<close>.
  \<^item> \<open>Bitmap\<close>, \<open>Limiter\<close>: \<^verbatim>\<open>pkg/bitmap/bitmap.go\<close> and \<^verbatim>\<open>server/limiter.go\<close>.  The limiter's search may not end, so it is a
    \<open>partial_function (option)\<close>; what it needs of the bitmap is the locale \<open>id_set\<close>.  \<open>lim_step\<close> is its step relation.
  \<^item> \<open>Queue\<close>: \<^verbatim>\<open>persistence/queue/elem.go\<close>, \<^verbatim>\<open>queue.go\<close>, \<^verbatim>\<open>queue/mem/mem.go\<close>.  The linked list with its \<^verbatim>\<open>current\<close> pointer is a list
    with a position; \<open>q_step\<close> and \<open>q_run\<close> are the step relation and its runs with the notifications sent.
  \<^item> \<open>Retained\<close>: \<^verbatim>\<open>retained/trie\<close>, refining the finite map \<open>trieDB_content\<close> (locale \<open>retained_store\<close>).
  \<^item> \<open>Sub_Trie\<close>, \<open>Sub_Store\<close>, \<open>Sub_Spec\<close>: \<^verbatim>\<open>subscription.go\<close>, \<^verbatim>\<open>persistence/subscription/subscription.go\<close>, \<^verbatim>\<open>subscription/mem\<close>.  Trie
    nodes live on an explicit heap, because the store keeps pointers to nodes beside the tries; \<open>db_inv\<close> is the invariant,
    \<open>db_content\<close> the abstraction, \<open>subscription_store\<close> the contract.
  \<^item> \<open>Encoding\<close>, \<open>Stores\<close>: \<^verbatim>\<open>persistence/encoding\<close>, \<^verbatim>\<open>persistence/unack/mem\<close>, \<^verbatim>\<open>persistence/session/mem\<close> and \<^verbatim>\<open>session.go\<close>.
  \<^item> \<open>Topic_Alias\<close>: \<^verbatim>\<open>topicalias/fifo/fifo.go\<close> with the receiving side of aliases in \<^verbatim>\<open>client.go\<close> (locale \<open>alias_receiver\<close>).
  \<^item> \<open>Delivery\<close>: \<^verbatim>\<open>deliverMessage\<close>, its \<^verbatim>\<open>deliverHandler\<close> and \<^verbatim>\<open>addMsgToQueueLocked\<close> of \<^verbatim>\<open>server/server.go\<close>, shared groups included.
  \<^item> \<open>Outbound\<close>: the sending side of a client: the handlers of \<^verbatim>\<open>PUBACK\<close>, \<^verbatim>\<open>PUBREC\<close> and \<^verbatim>\<open>PUBCOMP\<close>, \<^verbatim>\<open>pollInflights\<close>,
    \<^verbatim>\<open>pollNewMessages\<close> and the queue notifier; \<open>out_step\<close> interleaves them.
  \<^item> \<open>Client\<close>: the receiving side: \<^verbatim>\<open>publishHandler\<close>, \<^verbatim>\<open>subscribeHandler\<close>, \<^verbatim>\<open>unsubscribeHandler\<close>, \<^verbatim>\<open>pubrelHandler\<close>, \<^verbatim>\<open>pingreqHandler\<close>,
    \<^verbatim>\<open>reAuthHandler\<close>, \<^verbatim>\<open>disconnectHandler\<close> and the dispatch of \<^verbatim>\<open>readHandle\<close>, with the receive quota and \<^verbatim>\<open>setError\<close>.
  \<^item> \<open>Sessions\<close>: \<^verbatim>\<open>registerClient\<close>, \<^verbatim>\<open>unregisterClient\<close>, the expiry sweep, termination, wills and the publish service of
    \<^verbatim>\<open>server/server.go\<close>, and the websocket reader; \<open>br_step\<close> is the step relation of the broker, \<open>br_inv\<close> its invariant.
  \<^item> \<open>Connection\<close>: authentication and the connect exchange of \<^verbatim>\<open>server/client.go\<close> (\<^verbatim>\<open>connectWithTimeOut\<close>).
  \<^item> \<open>Stats\<close>: \<^verbatim>\<open>server/stats.go\<close> and the notifications of \<^verbatim>\<open>server/queue_notifier.go\<close>: every counter, at its width.
  \<^item> \<open>Accounts\<close>: the ordered index of \<^verbatim>\<open>plugin/admin/utils.go\<close>, refining an association list (locale \<open>id_index\<close>), and
    \<^verbatim>\<open>plugin/auth\<close>: accounts, their file and the authentication hook.
  \<^item> \<open>Admin\<close>: \<^verbatim>\<open>plugin/admin\<close>: \<^verbatim>\<open>store.go\<close>, \<^verbatim>\<open>hooks.go\<close> and the client, subscription and publish services.
  \<^item> \<open>Fed_Stream\<close>, \<open>Federation\<close>, \<open>Fed_Routing\<close>: \<^verbatim>\<open>plugin/federation\<close>.  \<open>Fed_Stream\<close> has the queue of events, the sessions and a step
    relation of the stream, which may break at any time; \<open>Federation\<close> the stores of local and remote topics, hooks, handshake and
    membership; \<open>Fed_Routing\<close> where a message is sent.

  \<^bold>\<open>The tunnel server and its parts\<close> (paths below \<^verbatim>\<open>src/frp\<close>).  A client logs in on a control connection; the server keeps a control
  per run and a record per client, lends ports to the client's proxies, and routes the connections of users by domain, path and
  HTTP user to the proxy that registered the route.

  \<^item> \<open>Frp_Strings\<close>: what the following theories use of Go's \<^verbatim>\<open>strings\<close> and \<^verbatim>\<open>strconv\<close>.
  \<^item> \<open>Frp_Vhost\<close>: \<^verbatim>\<open>pkg/util/vhost/router.go\<close>, the table of routes, refining a map from domain, user and location to the payload
    (locale \<open>route_table\<close>), and the searches \<^verbatim>\<open>getVhost\<close> and \<^verbatim>\<open>getListener\<close>.
  \<^item> \<open>Frp_Ports\<close>: \<^verbatim>\<open>server/ports/ports.go\<close>, the manager of ports with its step relation \<open>pm_step\<close>, and the ranges of ports of
    \<^verbatim>\<open>pkg/config/types/types.go\<close> and \<^verbatim>\<open>pkg/util/util/util.go\<close>.
  \<^item> \<open>Frp_Registry\<close>: \<^verbatim>\<open>server/registry/registry.go\<close>, the registry of clients.
  \<^item> \<open>Frp_Control\<close>: \<^verbatim>\<open>server/control.go\<close>, the logins of \<^verbatim>\<open>server/service.go\<close> and the proxy manager of \<^verbatim>\<open>server/proxy/proxy.go\<close>;
    \<open>svc_step\<close> interleaves logins, message handlers and workers of all controls, \<open>svc_inv\<close> is the invariant.
  \<^item> \<open>Frp_Group\<close>: \<^verbatim>\<open>server/group\<close>, proxies that share one address.  Groups stand in a heap, as they are compared by identity; what
    a group listens at is the locale \<open>group_resource\<close>, interpreted by TCP sockets, of which the operating system opens one per address and port, and
    by the route multiplexers.  The other users of the port manager and of the multiplexers are steps of the same runs.
  \<^item> \<open>Frp_Nathole\<close>: \<^verbatim>\<open>pkg/nathole\<close>: classification of NATs, the scored behaviours, and the controller of sessions.

  \<^bold>\<open>The WebDAV server\<close> (\<^verbatim>\<open>src/webdav/lib\<close>).  \<open>Webdav\<close>: rules and permissions, users, the store (locale \<open>user_store\<close>), validation of
  the configuration, the decision in \<^verbatim>\<open>Handler.ServeHTTP\<close> whether a request reaches the files, and the management interface.

  \<^bold>\<open>How the code is rendered.\<close>  A struct is a record with the source's fields, an operation a function from the state to the
  state and its results, an interface the code calls a locale that the model's own operations interpret.  Locks are not
  represented: an operation that runs under a lock is one step, and a goroutine that releases it between iterations is a step
  relation.  Go's map iteration order is the order of an association list; a theorem holds for every such list.  Time, random
  numbers, the conversion of a float to \<^verbatim>\<open>uint32\<close>, the OS and the hooks that plug-ins install are arguments of the
  definitions that use them, with hypotheses written at the theorems that need them.  A handler's queue and the queue of its
  session in the server's map are one Go object; \<open>with_queue\<close> writes both.  A Go panic is the value \<open>Inl\<close> of a result, and
  where the source would recover from it the model does as well.

  \<^bold>\<open>Bounds and fuel.\<close>  Loops recurse on the bytes or elements that remain, with a \<open>termination\<close> proof where this is not
  structural.  \<open>search_free\<close> may really diverge when all 65535 identifiers are taken; the limiter's theorems show that it is only
  called when one is free, and then returns.  A traversal of a subscription trie follows pointers on the heap and has as much fuel
  as the heap has cells; \<open>Iterate_total\<close> shows that this is enough in a well-formed store.  Event identifiers of the federation
  and references are natural numbers; the other counters keep their width.  Theorems about listings assume fewer than 2 to the 63
  entries, where the length of a list is converted to a machine integer.

  \<^bold>\<open>What the lemmas show.\<close>  Codec: every packet in the range of the struct's fields is written and read back; accepted
  strings, names and filters are exactly the ones the definitions on code points and levels describe; \<^verbatim>\<open>TotalBytes\<close> is the size of
  the packet.  Stores: each refines a simple specification along every history of operations, the queue accounts for every
  element it was given, the limiter never hands out an identifier twice.  Delivery: which queues receive which message, with
  which quality of service, in the two modes for overlapping subscriptions.  Client: identifiers of messages in flight are
  distinct, and no more new ones are sent than the receive maximum allows; a quality of service 2 message is delivered once, the quota of the receiving side
  is never exceeded and is restored.  Broker: the maps of
  clients, sessions and stores agree after every step, a resumed session keeps its content, and what \<^verbatim>\<open>CONNACK\<close> announces is what
  the handlers later enforce.  Tunnel: routes are found by the longest prefix after any history of the
  table, used and free ports partition the configured ones, each way in which a port is
  acquired or refused, a proxy gets its port back, one live control per run identifier,
  proxy names with one owner, and the limit of ports per client, along every interleaving; groups admit only members with the
  right key and parameters, share one port each and close its socket with the last member, and the two sides of a hole punching get complementary roles.  Statistics: the gauges of a client
  follow its queue.  Accounts survive a restart, also when writing the file fails.  The administration interface lists the
  sessions there are and every subscription there is, but keeps those of ended sessions.  Queue elements are read back from the external store.  Federation: every event is applied exactly once although streams break, the other nodes'
  copy of the topics converges, and a message goes to the nodes it should.  WebDAV: only authenticated and permitted requests
  reach files, and the stored users stay valid.  Some lemmas state what the code really does where that is not what it means to
  do; the manifest lists them as findings.

  \<^bold>\<open>Not modelled.\<close>  Of gmqtt: the Redis variants of the stores (calls of a Redis client on the encodings that \<open>Encoding\<close> models),
  the start-up and shut-down of listeners and plug-ins, gRPC, HTTP and gossip themselves, generated code, the prometheus plug-in,
  configuration files, logging, and deadlines of connections beyond the time-out of the connect exchange.  Of frp: the client
  side, the single proxy types, the JSON wire formats, configuration files and their validation, metrics, and the reverse proxy
  built on \<^verbatim>\<open>net/http\<close>; they are I/O or glue around libraries.  Of WebDAV: the handler of the protocol itself, which is a library,
  the Redis store, the lock system and the directory listing.  The agent and the \<^verbatim>\<open>crose\<close> front end are processes, files
  and HTTP requests, and the AI assistants call external services.
\<close>

end
